(* ===== verification/Ami_Prelude.thy ===== *)
theory Ami_Prelude
  imports Main "HOL-Library.Word"
begin

text \<open>
  Shared vocabulary of the development: the Python exceptions the modelled code raises,
  the result type of an operation that may raise, Python's slicing and searching of
  sequences, and the lemma collections the component theories use.

  An operation that can raise returns \<open>py_error + 'a\<close>; \<open>Inl\<close> is the exception. An
  operation that also changes state returns the pair of the new state and that result, so
  that the effects that happened before a raise are kept, as Python keeps them.
\<close>

datatype py_error =
    VamosInternalError
  | AssertionError
  | ValueError
  | TypeError
  | IndexError
  | KeyError
  | AttributeError
  | StructError
  | RuntimeError
  | HunkParseError
  | AmiPathError
  | RecursionError
  | OSError
  | ZeroDivisionError
  | NameError
  | PlainException
  | FSError nat

type_synonym 'a res = "py_error + 'a"
type_synonym byte = "8 word"
type_synonym u16 = "16 word"
type_synonym u32 = "32 word"

definition rbind :: "'a res \<Rightarrow> ('a \<Rightarrow> 'b res) \<Rightarrow> 'b res" where
  "rbind r f = (case r of Inl e \<Rightarrow> Inl e | Inr x \<Rightarrow> f x)"

lemma rbind_simps [simp]:
  "rbind (Inl e) f = Inl e"
  "rbind (Inr x) f = f x"
  by (simp_all add: rbind_def)

lemma rbind_Inr_iff: "rbind r f = Inr y \<longleftrightarrow> (\<exists>x. r = Inr x \<and> f x = Inr y)"
  by (auto simp: rbind_def split: sum.splits)

subsection \<open>Generic lemmas\<close>

text \<open>\<open>upd_opt q v f\<close> is the Python statement \<open>if q is not None: q.f = v\<close>, the attribute
  \<open>f\<close> being a function of the object's identity.\<close>

definition upd_opt :: "'k option \<Rightarrow> 'v \<Rightarrow> ('k \<Rightarrow> 'v) \<Rightarrow> 'k \<Rightarrow> 'v" where
  "upd_opt q v f = (case q of None \<Rightarrow> f | Some k \<Rightarrow> f(k := v))"

lemma upd_opt_simps [simp]:
  "upd_opt None v f = f"
  "upd_opt (Some k) v f = f(k := v)"
  by (simp_all add: upd_opt_def)

lemma upd_opt_other: "q \<noteq> Some k \<Longrightarrow> upd_opt q v f k = f k"
  by (cases q) auto

text \<open>Rounding up to a multiple of four, written in the code as \<open>(n + 3) & ~3\<close>.\<close>

definition align4 :: "int \<Rightarrow> int" where
  "align4 n = and (n + 3) (not 3)"

lemma and_not_3: "and n (not 3) = n - n mod (4::int)"
proof -
  have m: "and n 3 = n mod 4"
    using take_bit_eq_mask [of 2 n] by (simp add: take_bit_eq_mod mask_eq_exp_minus_1)
  have "n - and n 3 = and n (not (and n 3))"
    by (rule disjunctive_diff_eq_and_not) (simp add: bit_eq_iff bit_simps)
  also have "\<dots> = and n (not 3)"
    by (rule bit_eqI) (auto simp: bit_simps)
  finally show ?thesis by (simp add: m)
qed

lemma align4_eq: "align4 n = (n + 3) div 4 * 4"
  unfolding align4_def and_not_3 by (simp add: minus_mod_eq_div_mult)

lemma align4_ge: "n \<le> align4 n"
  unfolding align4_eq by presburger

lemma align4_less: "align4 n < n + 4"
  unfolding align4_eq by presburger

lemma align4_dvd [simp]: "4 dvd align4 n"
  by (simp add: align4_eq)

lemma align4_pos: "0 < n \<Longrightarrow> 0 < align4 n"
  using align4_ge [of n] by linarith

lemma align4_id: "4 dvd n \<Longrightarrow> align4 n = n"
  by (auto simp: align4_eq elim!: dvdE)

lemma align4_idem [simp]: "align4 (align4 n) = align4 n"
  by (simp add: align4_id)

end
