(* ===== verification/Linked_List.thy ===== *)
theory Linked_List
  imports Ami_Prelude
begin

text \<open>
  Doubly linked lists over objects with \<open>next\<close> and \<open>prev\<close> attributes, as
  \<open>amitools/vamos/mem/alloc.py\<close> (free chunks) and \<open>amitools/vamos/label/mgr.py\<close> (labels)
  keep them. An attribute is a function from object identities; \<open>dlseg n p b xs e\<close> says
  that the objects \<open>xs\<close> are linked in this order by \<open>n\<close> and \<open>p\<close>, entered from \<open>b\<close> and
  left to \<open>e\<close>.
\<close>

type_synonym 'k link = "'k \<Rightarrow> 'k option"

primrec hd_or :: "'k option \<Rightarrow> 'k list \<Rightarrow> 'k option" where
  "hd_or e [] = e"
| "hd_or e (x # xs) = Some x"

primrec last_or :: "'k option \<Rightarrow> 'k list \<Rightarrow> 'k option" where
  "last_or b [] = b"
| "last_or b (x # xs) = last_or (Some x) xs"

primrec dlseg :: "'k link \<Rightarrow> 'k link \<Rightarrow> 'k option \<Rightarrow> 'k list \<Rightarrow> 'k option \<Rightarrow> bool" where
  "dlseg n p b [] e \<longleftrightarrow> True"
| "dlseg n p b (x # xs) e \<longleftrightarrow> p x = b \<and> n x = hd_or e xs \<and> dlseg n p (Some x) xs e"

lemma hd_or_append [simp]: "hd_or e (xs @ ys) = hd_or (hd_or e ys) xs"
  by (cases xs) auto

lemma last_or_append [simp]: "last_or b (xs @ ys) = last_or (last_or b xs) ys"
  by (induction xs arbitrary: b) auto

lemma last_or_Cons_None: "xs \<noteq> [] \<Longrightarrow> last_or b xs = last_or None xs"
  by (cases xs) auto

lemma last_or_eq: "last_or b xs = (if xs = [] then b else Some (last xs))"
  by (induction xs arbitrary: b) auto

lemma hd_or_eq: "hd_or e xs = (if xs = [] then e else Some (hd xs))"
  by (cases xs) auto

lemma hd_or_in: "hd_or None xs = Some x \<Longrightarrow> x \<in> set xs"
  by (cases xs) auto

lemma last_or_in: "last_or None xs = Some x \<Longrightarrow> x \<in> set xs"
  by (auto simp: last_or_eq split: if_splits)

lemma hd_or_None_iff [simp]: "hd_or None xs = None \<longleftrightarrow> xs = []"
  by (cases xs) auto

lemma last_or_None_iff [simp]: "last_or None xs = None \<longleftrightarrow> xs = []"
  by (auto simp: last_or_eq)

lemma dlseg_append [simp]:
  "dlseg n p b (xs @ ys) e \<longleftrightarrow>
     dlseg n p b xs (hd_or e ys) \<and> dlseg n p (last_or b xs) ys e"
  by (induction xs arbitrary: b) auto

subsection \<open>Frame rules\<close>

lemma dlseg_cong:
  assumes "\<And>x. x \<in> set xs \<Longrightarrow> n x = n' x" and "\<And>x. x \<in> set xs \<Longrightarrow> p x = p' x"
  shows "dlseg n p b xs e = dlseg n' p' b xs e"
  using assms by (induction xs arbitrary: b) auto

lemma dlseg_upd_next [simp]: "x \<notin> set xs \<Longrightarrow> dlseg (n(x := v)) p b xs e = dlseg n p b xs e"
  by (rule dlseg_cong) auto

lemma dlseg_upd_prev [simp]: "x \<notin> set xs \<Longrightarrow> dlseg n (p(x := v)) b xs e = dlseg n p b xs e"
  by (rule dlseg_cong) auto

lemma dlseg_opt_next:
  "set_option q \<inter> set xs = {} \<Longrightarrow> dlseg (upd_opt q v n) p b xs e = dlseg n p b xs e"
  by (cases q) auto

lemma dlseg_opt_prev:
  "set_option q \<inter> set xs = {} \<Longrightarrow> dlseg n (upd_opt q v p) b xs e = dlseg n p b xs e"
  by (cases q) auto

text \<open>Redirecting the two ends of a segment.\<close>

lemma dlseg_relink_last:
  assumes "dlseg n p b xs e" and "distinct xs"
  shows "dlseg (upd_opt (last_or None xs) e' n) p b xs e'"
proof (cases xs rule: rev_cases)
  case (snoc ys y)
  with assms show ?thesis by simp
qed simp

lemma dlseg_relink_first:
  assumes "dlseg n p b xs e" and "distinct xs"
  shows "dlseg n (upd_opt (hd_or None xs) b' p) b' xs e"
  using assms by (cases xs) auto

lemma set_option_hd_or: "set_option (hd_or None xs) \<subseteq> set xs"
  by (cases xs) auto

lemma set_option_last_or: "set_option (last_or None xs) \<subseteq> set xs"
  by (auto simp: last_or_eq split: if_splits)

lemma disjoint_last_or: "set xs \<inter> set ys = {} \<Longrightarrow> set_option (last_or None xs) \<inter> set ys = {}"
  using set_option_last_or by fastforce

lemma disjoint_hd_or: "set xs \<inter> set ys = {} \<Longrightarrow> set_option (hd_or None xs) \<inter> set ys = {}"
  using set_option_hd_or by fastforce

text \<open>Joining two separate segments: the last object of the first and the first object of
  the second are pointed at each other. Removal, replacement, insertion and merging of list
  elements are all this step.\<close>

lemma dlseg_join:
  assumes "dlseg n p b xs e" and "dlseg n p b' ys e'" and "distinct (xs @ ys)"
  shows "dlseg (upd_opt (last_or None xs) (hd_or e' ys) n)
               (upd_opt (hd_or None ys) (last_or b xs) p) b (xs @ ys) e'"
proof -
  have d: "set xs \<inter> set ys = {}" "set ys \<inter> set xs = {}" "distinct xs" "distinct ys"
    using assms(3) by auto
  have 1: "dlseg (upd_opt (last_or None xs) (hd_or e' ys) n) p b xs (hd_or e' ys)"
    using assms(1) d(3) by (rule dlseg_relink_last)
  have 2: "dlseg n (upd_opt (hd_or None ys) (last_or b xs) p) (last_or b xs) ys e'"
    using assms(2) d(4) by (rule dlseg_relink_first)
  show ?thesis
    using 1 2 d by (simp add: dlseg_opt_next dlseg_opt_prev disjoint_last_or disjoint_hd_or)
qed

text \<open>Unlinking an object, as both \<open>_remove_chunk\<close> and \<open>remove_label\<close> do.\<close>

lemma dlseg_unlink:
  assumes l: "dlseg n p None (xs @ c # ys) None" and d: "distinct (xs @ c # ys)"
  shows "dlseg (upd_opt (p c) (n c) n) (upd_opt (n c) (p c) p) None (xs @ ys) None"
proof -
  have c: "p c = last_or None xs" "n c = hd_or None ys"
    using l by auto
  have "dlseg n p None xs (Some c)" "dlseg n p (Some c) ys None" "distinct (xs @ ys)"
    using l d by auto
  then show ?thesis unfolding c by (rule dlseg_join)
qed

text \<open>Placing an object between two segments, as insertion, replacement and merging do.\<close>

lemma dlseg_bridge:
  assumes "dlseg n p None xs e" and "dlseg n p b ys None" and "distinct (xs @ ys)"
    and "d \<notin> set (xs @ ys)"
  shows "dlseg ((upd_opt (last_or None xs) (Some d) n)(d := hd_or None ys))
               ((upd_opt (hd_or None ys) (Some d) p)(d := last_or None xs)) None (xs @ d # ys) None"
proof -
  have dj: "set xs \<inter> set ys = {}" "set ys \<inter> set xs = {}" "distinct xs" "distinct ys"
    "d \<notin> set xs" "d \<notin> set ys"
    using assms(3,4) by auto
  have 1: "dlseg (upd_opt (last_or None xs) (Some d) n) p None xs (Some d)"
    using assms(1) dj(3) by (rule dlseg_relink_last)
  have 2: "dlseg n (upd_opt (hd_or None ys) (Some d) p) (Some d) ys None"
    using assms(2) dj(4) by (rule dlseg_relink_first)
  show ?thesis
    using 1 2 dj by (simp add: dlseg_opt_next dlseg_opt_prev disjoint_last_or disjoint_hd_or)
qed

lemma dlseg_replace:
  assumes l: "dlseg n p None (xs @ c # ys) None" and d: "distinct (xs @ c # ys)"
    and "d \<notin> set (xs @ ys)"
  shows "dlseg ((upd_opt (p c) (Some d) n)(d := n c)) ((upd_opt (n c) (Some d) p)(d := p c))
           None (xs @ d # ys) None"
proof -
  have c: "p c = last_or None xs" "n c = hd_or None ys"
    using l by auto
  have "dlseg n p None xs (Some c)" "dlseg n p (Some c) ys None" "distinct (xs @ ys)"
    using l d by auto
  then show ?thesis unfolding c using assms(3) by (rule dlseg_bridge)
qed

end
