(* ===== verification/Mem_Pool.thy ===== *)
theory Mem_Pool
  imports Ami_Prelude
begin

text \<open>
  The abstract specification of a memory pool, which the allocator of
  \<open>amitools/vamos/mem/alloc.py\<close> implements: a list of free blocks \<open>(address, size)\<close> and a
  map of the allocations. \<open>pool_inv\<close> is the contract: the free list is sorted and coalesced,
  every block starts on a long word, and free blocks and allocations tile the pool.
\<close>

type_synonym blocks = "(int \<times> int) list"

record pool =
  p_free :: blocks
  p_used :: "int \<rightharpoonup> int"

subsection \<open>Free lists\<close>

text \<open>Sorted by address, starting at or after \<open>lb\<close>, with a gap between neighbours.\<close>

fun wf_blks :: "int \<Rightarrow> blocks \<Rightarrow> bool" where
  "wf_blks lb [] = True"
| "wf_blks lb ((a, s) # r) = (lb \<le> a \<and> 4 dvd a \<and> 0 < s \<and> wf_blks (a + s + 1) r)"

fun in_blks :: "int \<Rightarrow> blocks \<Rightarrow> bool" where
  "in_blks x [] = False"
| "in_blks x ((a, s) # r) = ((a \<le> x \<and> x < a + s) \<or> in_blks x r)"

definition blks_bytes :: "blocks \<Rightarrow> int" where
  "blks_bytes fr = sum_list (map snd fr)"

lemma blks_bytes_simps [simp]:
  "blks_bytes [] = 0"
  "blks_bytes ((a, s) # r) = s + blks_bytes r"
  "blks_bytes (xs @ ys) = blks_bytes xs + blks_bytes ys"
  by (simp_all add: blks_bytes_def)

lemma wf_blks_mono: "wf_blks lb fr \<Longrightarrow> lb' \<le> lb \<Longrightarrow> wf_blks lb' fr"
  by (cases fr) auto

lemma in_blks_ge: "wf_blks lb fr \<Longrightarrow> in_blks x fr \<Longrightarrow> lb \<le> x"
  by (induction lb fr rule: wf_blks.induct) auto

lemma wf_blks_mem: "wf_blks lb fr \<Longrightarrow> (a, s) \<in> set fr \<Longrightarrow> lb \<le> a \<and> 4 dvd a \<and> 0 < s"
proof (induction lb fr rule: wf_blks.induct)
  case (2 lb b t r)
  then show ?case by fastforce
qed simp

lemma in_blks_iff: "in_blks x fr \<longleftrightarrow> (\<exists>(a, s) \<in> set fr. a \<le> x \<and> x < a + s)"
  by (induction x fr rule: in_blks.induct) auto

lemma blks_bytes_nonneg: "wf_blks lb fr \<Longrightarrow> 0 \<le> blks_bytes fr"
  by (induction lb fr rule: wf_blks.induct) auto

subsection \<open>First fit\<close>

text \<open>The first block that is large enough gives its front; the rest of it stays.\<close>

fun first_fit :: "int \<Rightarrow> blocks \<Rightarrow> (int \<times> blocks) option" where
  "first_fit n [] = None"
| "first_fit n ((a, s) # r) =
     (if s = n then Some (a, r)
      else if n < s then Some (a, (a + n, s - n) # r)
      else map_option (\<lambda>(b, r'). (b, (a, s) # r')) (first_fit n r))"

lemma first_fit_None_iff: "first_fit n fr = None \<longleftrightarrow> (\<forall>(a, s) \<in> set fr. s < n)"
  by (induction n fr rule: first_fit.induct) (auto split: if_splits)

lemma first_fit_wf:
  "first_fit n fr = Some (a, fr') \<Longrightarrow> wf_blks lb fr \<Longrightarrow> 0 < n \<Longrightarrow> 4 dvd n \<Longrightarrow>
     wf_blks lb fr' \<and> lb \<le> a \<and> 4 dvd a \<and> blks_bytes fr = blks_bytes fr' + n"
  by (induction n fr arbitrary: a fr' lb rule: first_fit.induct)
     (auto split: if_splits intro: wf_blks_mono dest: spec, fastforce+)

lemma first_fit_bytes:
  "first_fit n fr = Some (a, fr') \<Longrightarrow> wf_blks lb fr \<Longrightarrow> 0 < n \<Longrightarrow>
     (in_blks x fr \<longleftrightarrow> in_blks x fr' \<or> (a \<le> x \<and> x < a + n)) \<and>
     \<not> (in_blks x fr' \<and> a \<le> x \<and> x < a + n)"
proof (induction n fr arbitrary: a fr' lb rule: first_fit.induct)
  case (2 n b s r)
  show ?case
  proof (cases "n \<le> s")
    case True
    with 2 show ?thesis by (auto split: if_splits dest: in_blks_ge)
  next
    case False
    with 2 obtain r' where r': "first_fit n r = Some (a, r')" "fr' = (b, s) # r'"
      by (auto split: if_splits)
    from False 2 r' have ih:
      "(in_blks x r \<longleftrightarrow> in_blks x r' \<or> (a \<le> x \<and> x < a + n)) \<and> \<not> (in_blks x r' \<and> a \<le> x \<and> x < a + n)"
      by auto
    with 2(3) r'(2) show ?thesis by (auto dest: in_blks_ge)
  qed
qed simp

subsection \<open>Giving a block back\<close>

text \<open>The block is inserted in address order and merged with both neighbours it touches.\<close>

fun give_back :: "int \<Rightarrow> int \<Rightarrow> blocks \<Rightarrow> blocks" where
  "give_back a n [] = [(a, n)]"
| "give_back a n ((b, m) # r) =
     (if a < b then (if a + n = b then (a, n + m) # r else (a, n) # (b, m) # r)
      else if b + m = a then
        (case r of
           [] \<Rightarrow> [(b, m + n)]
         | (c, k) # r' \<Rightarrow> if a + n = c then (b, m + n + k) # r' else (b, m + n) # r)
      else (b, m) # give_back a n r)"

definition free_of :: "int \<Rightarrow> int \<Rightarrow> blocks \<Rightarrow> bool" where
  "free_of a n fr \<longleftrightarrow> (\<forall>x. a \<le> x \<and> x < a + n \<longrightarrow> \<not> in_blks x fr)"

lemma free_of_Cons:
  assumes "free_of a n ((b, m) # r)" "0 < n" "0 < m"
  shows "free_of a n r" and "a < b \<Longrightarrow> a + n \<le> b" and "\<not> a < b \<Longrightarrow> b + m \<le> a"
proof -
  show "free_of a n r" using assms by (auto simp: free_of_def)
  show "a < b \<Longrightarrow> a + n \<le> b"
    using assms(1,3) by (fastforce simp: free_of_def dest: spec [of _ b])
  have "\<not> in_blks a ((b, m) # r)" using assms by (auto simp: free_of_def)
  then show "\<not> a < b \<Longrightarrow> b + m \<le> a" by auto
qed

lemma give_back_wf:
  "wf_blks lb fr \<Longrightarrow> lb \<le> a \<Longrightarrow> 4 dvd a \<Longrightarrow> 0 < n \<Longrightarrow> free_of a n fr \<Longrightarrow>
     wf_blks lb (give_back a n fr) \<and> blks_bytes (give_back a n fr) = blks_bytes fr + n"
proof (induction a n fr arbitrary: lb rule: give_back.induct)
  case (2 a n b m r)
  from 2(2) have w: "lb \<le> b" "4 dvd b" "0 < m" "wf_blks (b + m + 1) r" by auto
  note fo = free_of_Cons [OF 2(6) 2(5) w(3)]
  show ?case
  proof (cases "a < b")
    case True
    with w fo(2) 2(3-5) show ?thesis by (auto simp: add.assoc)
  next
    case nless: False
    show ?thesis
    proof (cases "b + m = a")
      case touch: True
      show ?thesis
      proof (cases r)
        case Nil
        with touch nless w 2(3-5) show ?thesis by auto
      next
        case (Cons ck r')
        obtain c k where ck: "ck = (c, k)" by fastforce
        with Cons w have c: "b + m + 1 \<le> c" "0 < k" "4 dvd c" "wf_blks (c + k + 1) r'" by auto
        have "a + n \<le> c"
          using free_of_Cons(2) [of a n c k r'] fo(1) 2(5) c touch Cons ck by auto
        with Cons ck touch nless w c 2(3-5) show ?thesis by (auto simp: algebra_simps)
      qed
    next
      case False
      with nless fo(3) have "b + m + 1 \<le> a" by auto
      with 2(1) [OF nless False] w fo(1) 2(4,5) have
        "wf_blks (b + m + 1) (give_back a n r) \<and> blks_bytes (give_back a n r) = blks_bytes r + n"
        by blast
      with nless False w show ?thesis by auto
    qed
  qed
qed auto

lemma give_back_bytes:
  "wf_blks lb fr \<Longrightarrow> 0 < n \<Longrightarrow> free_of a n fr \<Longrightarrow>
     in_blks x (give_back a n fr) \<longleftrightarrow> in_blks x fr \<or> (a \<le> x \<and> x < a + n)"
proof (induction a n fr arbitrary: lb rule: give_back.induct)
  case (2 a n b m r)
  from 2(2) have w: "lb \<le> b" "0 < m" "wf_blks (b + m + 1) r" by auto
  note fo = free_of_Cons [OF 2(4) 2(3) w(2)]
  show ?case
  proof (cases "a < b")
    case True
    then have ab: "a + n \<le> b" by (rule fo(2))
    have "in_blks x ((a, n + m) # r) \<longleftrightarrow> in_blks x ((b, m) # r) \<or> (a \<le> x \<and> x < a + n)"
      if "a + n = b" using that w(2) 2(3) by auto
    with True show ?thesis by auto
  next
    case less: False
    show ?thesis
    proof (cases "b + m = a")
      case True
      have join: "b \<le> x \<and> x < b + (m + n) \<longleftrightarrow> (b \<le> x \<and> x < b + m) \<or> (a \<le> x \<and> x < a + n)"
        using True w(2) 2(3) by linarith
      show ?thesis
      proof (cases r)
        case Nil
        with True less join show ?thesis by (auto simp: add.assoc)
      next
        case (Cons ck r')
        obtain c k where ck: "ck = (c, k)" by fastforce
        with Cons w have "b + m + 1 \<le> c" "0 < k" by auto
        then have "b \<le> x \<and> x < b + (m + n + k) \<longleftrightarrow>
            (b \<le> x \<and> x < b + m) \<or> (a \<le> x \<and> x < a + n) \<or> (c \<le> x \<and> x < c + k)"
          if "a + n = c" using that True w(2) 2(3) by linarith
        with True less join Cons ck show ?thesis by (simp add: add.assoc) blast
      qed
    next
      case False
      with 2(1) less w(3) fo(1) 2(3) show ?thesis by auto
    qed
  qed
qed auto

text \<open>Giving back what first fit took restores the free list.\<close>

lemma give_back_first_fit:
  "first_fit n fr = Some (a, fr') \<Longrightarrow> wf_blks lb fr \<Longrightarrow> 0 < n \<Longrightarrow> give_back a n fr' = fr"
proof (induction n fr arbitrary: a fr' lb rule: first_fit.induct)
  case (2 n b s r)
  show ?case
  proof (cases "n \<le> s")
    case True
    with 2(2-4) show ?thesis by (cases r) (auto split: if_splits prod.splits)
  next
    case False
    with 2(2) obtain r' where r': "first_fit n r = Some (a, r')" "fr' = (b, s) # r'"
      by (auto split: if_splits)
    from 2(3) have w: "wf_blks (b + s + 1) r" "0 < s" by auto
    have "give_back a n r' = r"
      using 2(1) [OF _ _ r'(1) w(1) 2(4)] False by auto
    moreover have "b + s + 1 \<le> a"
      using first_fit_bytes [OF r'(1) w(1) 2(4), of a] in_blks_ge [OF w(1), of a] 2(4) by auto
    ultimately show ?thesis using r'(2) w(2) by auto
  qed
qed simp

subsection \<open>The pool operations and their contract\<close>

definition pool_init :: "int \<Rightarrow> int \<Rightarrow> pool" where
  "pool_init lo sz = \<lparr>p_free = [(lo, sz)], p_used = Map.empty\<rparr>"

definition pool_alloc :: "int \<Rightarrow> pool \<Rightarrow> (int \<times> pool) option" where
  "pool_alloc n P =
     (case first_fit n (p_free P) of
        None \<Rightarrow> None
      | Some (a, fr) \<Rightarrow> Some (a, \<lparr>p_free = fr, p_used = (p_used P)(a \<mapsto> n)\<rparr>))"

definition pool_free :: "int \<Rightarrow> pool \<Rightarrow> pool option" where
  "pool_free a P =
     (case p_used P a of
        None \<Rightarrow> None
      | Some n \<Rightarrow> Some \<lparr>p_free = give_back a n (p_free P), p_used = (p_used P)(a := None)\<rparr>)"

definition in_used :: "int \<Rightarrow> (int \<rightharpoonup> int) \<Rightarrow> bool" where
  "in_used x u \<longleftrightarrow> (\<exists>a n. u a = Some n \<and> a \<le> x \<and> x < a + n)"

definition used_bytes :: "(int \<rightharpoonup> int) \<Rightarrow> int" where
  "used_bytes u = (\<Sum>a \<in> dom u. the (u a))"

definition used_ok :: "(int \<rightharpoonup> int) \<Rightarrow> bool" where
  "used_ok u \<longleftrightarrow> finite (dom u) \<and>
     (\<forall>a n. u a = Some n \<longrightarrow> 0 < n \<and> 4 dvd n \<and> 4 dvd a) \<and>
     (\<forall>a n b m x. u a = Some n \<longrightarrow> u b = Some m \<longrightarrow> a \<le> x \<longrightarrow> x < a + n \<longrightarrow>
        b \<le> x \<longrightarrow> x < b + m \<longrightarrow> a = b)"

definition pool_inv :: "int \<Rightarrow> int \<Rightarrow> pool \<Rightarrow> bool" where
  "pool_inv lo sz P \<longleftrightarrow>
     wf_blks lo (p_free P) \<and> used_ok (p_used P) \<and>
     (\<forall>x. in_blks x (p_free P) \<or> in_used x (p_used P) \<longleftrightarrow> lo \<le> x \<and> x < lo + sz) \<and>
     (\<forall>x. \<not> (in_blks x (p_free P) \<and> in_used x (p_used P))) \<and>
     blks_bytes (p_free P) + used_bytes (p_used P) = sz"

lemma in_used_upd:
  "in_used x (u(a \<mapsto> n)) \<longleftrightarrow> (a \<le> x \<and> x < a + n) \<or> in_used x (u(a := None))"
  unfolding in_used_def by (auto split: if_splits)

lemma in_used_empty [simp]: "\<not> in_used x Map.empty"
  by (simp add: in_used_def)

lemma in_used_fresh: "u a = None \<Longrightarrow> u(a := None) = u"
  by auto

lemma used_bytes_upd: "finite (dom u) \<Longrightarrow> u a = None \<Longrightarrow> used_bytes (u(a \<mapsto> n)) = n + used_bytes u"
proof -
  assume f: "finite (dom u)" and a: "u a = None"
  then have "(\<Sum>b \<in> dom u. the ((u(a \<mapsto> n)) b)) = (\<Sum>b \<in> dom u. the (u b))"
    by (intro sum.cong) auto
  with f a show ?thesis by (simp add: used_bytes_def domIff)
qed

lemma used_bytes_del: "finite (dom u) \<Longrightarrow> u a = Some n \<Longrightarrow> used_bytes (u(a := None)) = used_bytes u - n"
  using used_bytes_upd [of "u(a := None)" a n] by (simp add: fun_upd_idem)

lemma used_ok_upd:
  assumes "used_ok u" "0 < n" "4 dvd n" "4 dvd a" "\<And>x. a \<le> x \<Longrightarrow> x < a + n \<Longrightarrow> \<not> in_used x u"
  shows "used_ok (u(a \<mapsto> n))"
  unfolding used_ok_def
proof (intro conjI allI impI)
  have new: "\<not> (b \<le> x \<and> x < b + m)" if "u b = Some m" "a \<le> x" "x < a + n" for b m x
    using assms(5) [OF that(2,3)] that(1) by (auto simp: in_used_def)
  have old: "b = c" if "u b = Some m" "u c = Some k" "b \<le> x" "x < b + m" "c \<le> x" "x < c + k"
    for b m c k x
    using assms(1) that unfolding used_ok_def by blast
  fix b m c k x
  assume h: "(u(a \<mapsto> n)) b = Some m" "(u(a \<mapsto> n)) c = Some k" "b \<le> x" "x < b + m" "c \<le> x" "x < c + k"
  show "b = c"
  proof (cases "b = a"; cases "c = a")
    assume "b = a" "c \<noteq> a" then show ?thesis using h new [of c k x] by simp
  next
    assume "b \<noteq> a" "c = a" then show ?thesis using h new [of b m x] by simp
  next
    assume "b \<noteq> a" "c \<noteq> a" then show ?thesis using h old [of b m c k x] by simp
  qed simp
qed (use assms in \<open>auto simp: used_ok_def split: if_splits\<close>)

lemma used_ok_del: "used_ok u \<Longrightarrow> used_ok (u(a := None))"
  unfolding used_ok_def by (auto split: if_splits)

lemma in_used_del:
  assumes "used_ok u" "u a = Some n"
  shows "in_used x (u(a := None)) \<longleftrightarrow> in_used x u \<and> \<not> (a \<le> x \<and> x < a + n)"
proof
  assume "in_used x (u(a := None))"
  then obtain b m where b: "b \<noteq> a" "u b = Some m" "b \<le> x" "x < b + m"
    by (auto simp: in_used_def split: if_splits)
  with assms show "in_used x u \<and> \<not> (a \<le> x \<and> x < a + n)"
    unfolding used_ok_def in_used_def by blast
next
  assume "in_used x u \<and> \<not> (a \<le> x \<and> x < a + n)"
  then obtain b m where b: "u b = Some m" "b \<le> x" "x < b + m" and "\<not> (a \<le> x \<and> x < a + n)"
    by (auto simp: in_used_def)
  moreover from this assms(2) have "b \<noteq> a" by auto
  ultimately show "in_used x (u(a := None))" unfolding in_used_def by (metis fun_upd_other)
qed

lemma pool_init_inv: "4 dvd lo \<Longrightarrow> 0 < sz \<Longrightarrow> pool_inv lo sz (pool_init lo sz)"
  by (simp add: pool_inv_def pool_init_def used_ok_def used_bytes_def)

lemma pool_alloc_inv:
  assumes inv: "pool_inv lo sz P" and n: "0 < n" "4 dvd n" and al: "pool_alloc n P = Some (a, P')"
  shows "pool_inv lo sz P'" and "lo \<le> a" and "a + n \<le> lo + sz" and "4 dvd a"
    and "p_used P a = None" and "\<And>x. a \<le> x \<Longrightarrow> x < a + n \<Longrightarrow> \<not> in_used x (p_used P)"
proof -
  from al obtain fr where ff: "first_fit n (p_free P) = Some (a, fr)"
    and P': "P' = \<lparr>p_free = fr, p_used = (p_used P)(a \<mapsto> n)\<rparr>"
    by (auto simp: pool_alloc_def split: option.splits)
  from inv have w: "wf_blks lo (p_free P)" and uo: "used_ok (p_used P)"
    and tile: "\<And>x. in_blks x (p_free P) \<or> in_used x (p_used P) \<longleftrightarrow> lo \<le> x \<and> x < lo + sz"
    and dis: "\<And>x. \<not> (in_blks x (p_free P) \<and> in_used x (p_used P))"
    and sum: "blks_bytes (p_free P) + used_bytes (p_used P) = sz"
    by (auto simp: pool_inv_def)
  note f = first_fit_wf [OF ff w n] and b = first_fit_bytes [OF ff w n(1)]
  show fresh: "\<And>x. a \<le> x \<Longrightarrow> x < a + n \<Longrightarrow> \<not> in_used x (p_used P)"
    using b dis by blast
  then show none: "p_used P a = None"
    using n(1) uo by (fastforce simp: in_used_def used_ok_def)
  show "lo \<le> a" "4 dvd a" using f by auto
  have "in_blks (a + n - 1) (p_free P)" using b n(1) by auto
  with tile [of "a + n - 1"] show "a + n \<le> lo + sz" by auto
  show "pool_inv lo sz P'"
    unfolding pool_inv_def P'
    using f b tile dis sum n uo none fresh used_ok_upd [OF uo n(1,2) _ fresh]
    by (auto simp: in_used_upd in_used_fresh used_bytes_upd used_ok_def [of "p_used P"])
qed

lemma pool_free_inv:
  assumes inv: "pool_inv lo sz P" and fr: "pool_free a P = Some P'"
  shows "pool_inv lo sz P'"
proof -
  from fr obtain n where u: "p_used P a = Some n"
    and P': "P' = \<lparr>p_free = give_back a n (p_free P), p_used = (p_used P)(a := None)\<rparr>"
    by (auto simp: pool_free_def split: option.splits)
  from inv have w: "wf_blks lo (p_free P)" and uo: "used_ok (p_used P)"
    and tile: "\<And>x. in_blks x (p_free P) \<or> in_used x (p_used P) \<longleftrightarrow> lo \<le> x \<and> x < lo + sz"
    and dis: "\<And>x. \<not> (in_blks x (p_free P) \<and> in_used x (p_used P))"
    and sum: "blks_bytes (p_free P) + used_bytes (p_used P) = sz"
    by (auto simp: pool_inv_def)
  have n: "0 < n" "4 dvd a" using uo u by (auto simp: used_ok_def)
  have used: "in_used x (p_used P)" if "a \<le> x" "x < a + n" for x
    using that u by (auto simp: in_used_def)
  then have fo: "free_of a n (p_free P)" using dis by (auto simp: free_of_def)
  have lo: "lo \<le> a" using tile [of a] used [of a] n(1) by auto
  note g = give_back_wf [OF w lo n(2) n(1) fo] and b = give_back_bytes [OF w n(1) fo]
  have "used_bytes ((p_used P)(a := None)) = used_bytes (p_used P) - n"
    using uo u by (intro used_bytes_del) (auto simp: used_ok_def)
  with g b tile dis sum used used_ok_del [OF uo] show ?thesis
    unfolding pool_inv_def P' by (auto simp: in_used_del [OF uo u])
qed

lemma pool_alloc_free:
  assumes "pool_inv lo sz P" "0 < n" "4 dvd n" "pool_alloc n P = Some (a, P')"
  shows "pool_free a P' = Some P"
  using assms pool_alloc_inv(5) [OF assms] give_back_first_fit
  by (auto simp: pool_alloc_def pool_free_def pool_inv_def in_used_fresh split: option.splits)

lemma used_bytes_zero_iff:
  assumes "used_ok u" shows "used_bytes u = 0 \<longleftrightarrow> u = Map.empty"
proof
  assume z: "used_bytes u = 0"
  have f: "finite (dom u)" and pos: "\<And>a. a \<in> dom u \<Longrightarrow> 0 < the (u a)"
    using assms by (auto simp: used_ok_def)
  have "dom u = {}"
  proof (rule ccontr)
    assume "dom u \<noteq> {}"
    then have "0 < used_bytes u" unfolding used_bytes_def by (rule sum_pos [OF f _ pos])
    with z show False by simp
  qed
  then show "u = Map.empty" by simp
qed (simp add: used_bytes_def)

text \<open>The pointer program inserts first and merges afterwards: the same block list.\<close>

definition merge_right :: "int \<times> int \<Rightarrow> blocks \<Rightarrow> blocks" where
  "merge_right b Y =
     (case Y of
        [] \<Rightarrow> [b]
      | (c, k) # r \<Rightarrow> if fst b + snd b = c then (fst b, snd b + k) # r else b # Y)"

lemma give_back_split:
  "wf_blks lb (X @ Y) \<Longrightarrow> 0 < n \<Longrightarrow> \<forall>(b, m) \<in> set X. b < a \<Longrightarrow>
     (\<And>c k r. Y = (c, k) # r \<Longrightarrow> a < c) \<Longrightarrow> free_of a n (X @ Y) \<Longrightarrow>
     give_back a n (X @ Y) =
       (if X \<noteq> [] \<and> fst (last X) + snd (last X) = a
        then butlast X @ merge_right (fst (last X), snd (last X) + n) Y
        else X @ merge_right (a, n) Y)"
proof (induction X arbitrary: lb)
  case Nil
  then show ?case by (cases Y) (auto simp: merge_right_def)
next
  case (Cons bm X)
  obtain b m where bm: "bm = (b, m)" by fastforce
  from Cons.prems(1) bm have w: "0 < m" "wf_blks (b + m + 1) (X @ Y)" by auto
  note fo = free_of_Cons [of a n b m "X @ Y"]
  from Cons.prems(3) bm have ab: "b < a" by auto
  have ih: "give_back a n (X @ Y) =
       (if X \<noteq> [] \<and> fst (last X) + snd (last X) = a
        then butlast X @ merge_right (fst (last X), snd (last X) + n) Y
        else X @ merge_right (a, n) Y)"
    using Cons.prems fo(1) w bm by (intro Cons.IH [OF w(2)]) auto
  show ?case
  proof (cases X)
    case Nil
    with ih bm ab show ?thesis by (cases Y) (auto simp: merge_right_def algebra_simps)
  next
    case (Cons ck X')
    obtain c k where ck: "ck = (c, k)" by fastforce
    have "b + m < c" "c < a" using w ck Cons Cons.prems(3) by auto
    then have "b + m \<noteq> a" by linarith
    with ih bm ab Cons show ?thesis by auto
  qed
qed

end
