(* ===== verification/Mem_Alloc.thy ===== *)
theory Mem_Alloc
  imports Linked_List Mem_Pool
begin

text \<open>
  The first-fit memory allocator of vamos, \<open>amitools/vamos/mem/alloc.py\<close>: class
  \<open>MemoryAlloc\<close> with its free list of \<open>MemoryChunk\<close> objects. The chunk objects are
  modelled by their identity (a number) and one function per attribute; \<open>ch_new\<close> is the
  identity the next constructed chunk gets. The loops over the free list follow the \<open>next\<close>
  attributes and are \<open>partial_function (option)\<close>, so that a cyclic list would show as None.

  The second half relates the pointer program to a specification on lists of
  \<open>(address, size)\<close> blocks and proves the pool invariant: free blocks and allocations tile
  the pool, the free list is sorted, coalesced and doubly linked, and the counters agree.
\<close>

record mem_alloc =
  ma_addr :: int
  ma_size :: int
  ma_mem :: "int \<Rightarrow> byte"
  ma_addrs :: "int \<rightharpoonup> int"
  ch_addr :: "nat \<Rightarrow> int"
  ch_size :: "nat \<Rightarrow> int"
  ch_next :: "nat \<Rightarrow> nat option"
  ch_prev :: "nat \<Rightarrow> nat option"
  ch_new :: nat
  free_bytes :: int
  free_first :: "nat option"
  free_entries :: int

subsection \<open>The operations\<close>

text \<open>\<open>MemoryChunk(addr, size)\<close>: a fresh object with no neighbours.\<close>

definition memory_chunk :: "int \<Rightarrow> int \<Rightarrow> mem_alloc \<Rightarrow> nat \<times> mem_alloc" where
  "memory_chunk addr sz s =
     (let c = ch_new s in
      (c, s\<lparr>ch_addr := (ch_addr s)(c := addr), ch_size := (ch_size s)(c := sz),
            ch_next := (ch_next s)(c := None), ch_prev := (ch_prev s)(c := None),
            ch_new := Suc c\<rparr>))"

definition does_fit :: "mem_alloc \<Rightarrow> nat \<Rightarrow> int \<Rightarrow> int" where
  "does_fit s c sz = ch_size s c - sz"

text \<open>\<open>__init__\<close>: a size of 0 takes the whole RAM, a base address of 0 is moved to 4 so that
  no allocation returns the NULL pointer.\<close>

definition memory_alloc_init :: "int \<Rightarrow> (int \<Rightarrow> byte) \<Rightarrow> int \<Rightarrow> int \<Rightarrow> mem_alloc" where
  "memory_alloc_init ram_size_kib mem addr0 size0 =
     (let size1 = (if size0 = 0 then ram_size_kib * 1024 - addr0 else size0);
          addr = (if addr0 = 0 then 4 else addr0);
          sz = (if addr0 = 0 then size1 - 4 else size1);
          s = \<lparr>ma_addr = addr, ma_size = sz, ma_mem = mem, ma_addrs = Map.empty,
               ch_addr = (\<lambda>_. 0), ch_size = (\<lambda>_. 0), ch_next = (\<lambda>_. None),
               ch_prev = (\<lambda>_. None), ch_new = 0, free_bytes = sz,
               free_first = None, free_entries = 1\<rparr>;
          (c, s') = memory_chunk addr sz s
      in s'\<lparr>free_first := Some c\<rparr>)"

definition is_all_free :: "mem_alloc \<Rightarrow> bool" where
  "is_all_free s \<longleftrightarrow> ma_size s = free_bytes s"

partial_function (option) find_best_chunk ::
  "mem_alloc \<Rightarrow> int \<Rightarrow> nat option \<Rightarrow> (nat option \<times> int) option" where
  "find_best_chunk s sz chunk =
     (case chunk of
        None \<Rightarrow> Some (None, -1)
      | Some c \<Rightarrow>
          if does_fit s c sz = 0 then Some (Some c, 0)
          else if does_fit s c sz > 0 then Some (Some c, does_fit s c sz)
          else find_best_chunk s sz (ch_next s c))"

definition remove_chunk :: "nat \<Rightarrow> mem_alloc \<Rightarrow> mem_alloc" where
  "remove_chunk c s =
     (let nxt = ch_next s c; prv = ch_prev s c in
      s\<lparr>free_first := (if free_first s = Some c then nxt else free_first s),
        ch_prev := upd_opt nxt prv (ch_prev s),
        ch_next := upd_opt prv nxt (ch_next s),
        free_entries := free_entries s - 1\<rparr>)"

definition replace_chunk :: "nat \<Rightarrow> nat \<Rightarrow> mem_alloc \<Rightarrow> mem_alloc" where
  "replace_chunk old new s =
     (let nxt = ch_next s old; prv = ch_prev s old in
      s\<lparr>free_first := (if free_first s = Some old then Some new else free_first s),
        ch_prev := (upd_opt nxt (Some new) (ch_prev s))(new := prv),
        ch_next := (upd_opt prv (Some new) (ch_next s))(new := nxt)\<rparr>)"

text \<open>The search loop of \<open>_insert_chunk\<close>: returns \<open>(cur, last)\<close>.\<close>

partial_function (option) insert_scan ::
  "mem_alloc \<Rightarrow> int \<Rightarrow> nat option \<Rightarrow> nat option \<Rightarrow> (nat option \<times> nat option) option" where
  "insert_scan s addr cur lst =
     (case cur of
        None \<Rightarrow> Some (None, lst)
      | Some c \<Rightarrow>
          if addr < ch_addr s c then Some (Some c, lst)
          else insert_scan s addr (ch_next s c) (Some c))"

definition insert_chunk :: "nat \<Rightarrow> mem_alloc \<Rightarrow> mem_alloc option" where
  "insert_chunk c s =
     (case insert_scan s (ch_addr s c) (free_first s) None of
        None \<Rightarrow> None
      | Some (cur, lst) \<Rightarrow>
          let s1 = (case lst of
                      None \<Rightarrow> s\<lparr>free_first := Some c\<rparr>
                    | Some l \<Rightarrow> s\<lparr>ch_next := (ch_next s)(l := Some c),
                                 ch_prev := (ch_prev s)(c := Some l)\<rparr>);
              s2 = (case cur of
                      None \<Rightarrow> s1
                    | Some d \<Rightarrow> s1\<lparr>ch_next := (ch_next s1)(c := Some d),
                                  ch_prev := (ch_prev s1)(d := Some c)\<rparr>)
          in Some (s2\<lparr>free_entries := free_entries s2 + 1\<rparr>))"

definition merge_chunk :: "nat \<Rightarrow> nat \<Rightarrow> mem_alloc \<Rightarrow> nat option \<times> mem_alloc" where
  "merge_chunk a b s =
     (if ch_addr s a + ch_size s a = ch_addr s b then
        let (c, s1) = memory_chunk (ch_addr s a) (ch_size s a + ch_size s b) s;
            s2 = (case ch_prev s1 a of
                    None \<Rightarrow> s1
                  | Some p \<Rightarrow> s1\<lparr>ch_next := (ch_next s1)(p := Some c),
                                ch_prev := (ch_prev s1)(c := Some p)\<rparr>);
            s3 = (case ch_next s2 b of
                    None \<Rightarrow> s2
                  | Some n \<Rightarrow> s2\<lparr>ch_prev := (ch_prev s2)(n := Some c),
                                ch_next := (ch_next s2)(c := Some n)\<rparr>);
            s4 = s3\<lparr>free_first := (if free_first s3 = Some a then Some c else free_first s3),
                    free_entries := free_entries s3 - 1\<rparr>
        in (Some c, s4)
      else (None, s))"

text \<open>\<open>mem.clear_block(addr, size, 0)\<close>\<close>

definition clear_block :: "int \<Rightarrow> int \<Rightarrow> (int \<Rightarrow> byte) \<Rightarrow> int \<Rightarrow> byte" where
  "clear_block addr sz m = (\<lambda>a. if addr \<le> a \<and> a < addr + sz then 0 else m a)"

definition alloc_mem :: "int \<Rightarrow> bool \<Rightarrow> mem_alloc \<Rightarrow> (mem_alloc \<times> int res) option" where
  "alloc_mem size0 except_on_fail s =
     (let sz = align4 size0 in
      case find_best_chunk s sz (free_first s) of
        None \<Rightarrow> None
      | Some (None, left) \<Rightarrow>
          Some (s, if except_on_fail then Inl VamosInternalError else Inr 0)
      | Some (Some c, left) \<Rightarrow>
          let addr = ch_addr s c;
              s1 = (if left = 0 then remove_chunk c s
                    else let (l, s') = memory_chunk (addr + sz) left s
                         in replace_chunk c l s');
              s2 = s1\<lparr>ma_addrs := (ma_addrs s1)(addr \<mapsto> sz),
                      free_bytes := free_bytes s1 - sz,
                      ma_mem := clear_block addr sz (ma_mem s1)\<rparr>
          in Some (s2, if addr mod 4 \<noteq> 0 then Inl VamosInternalError else Inr addr))"

definition free_mem :: "int \<Rightarrow> int \<Rightarrow> mem_alloc \<Rightarrow> (mem_alloc \<times> unit res) option" where
  "free_mem addr size0 s =
     (case ma_addrs s addr of
        None \<Rightarrow> Some (s, Inl VamosInternalError)
      | Some real_size \<Rightarrow>
          let sz = align4 size0 in
          if sz \<noteq> real_size then Some (s, Inl AssertionError)
          else
            let s1 = s\<lparr>ma_addrs := (ma_addrs s)(addr := None)\<rparr>;
                (c, s2) = memory_chunk addr real_size s1
            in case insert_chunk c s2 of
                 None \<Rightarrow> None
               | Some s3 \<Rightarrow>
                   let (c', s4) = (case ch_prev s3 c of
                          None \<Rightarrow> (c, s3)
                        | Some p \<Rightarrow> (case merge_chunk p c s3 of
                              (None, s') \<Rightarrow> (c, s') | (Some m, s') \<Rightarrow> (m, s')));
                       s5 = (case ch_next s4 c' of
                          None \<Rightarrow> s4
                        | Some n \<Rightarrow> snd (merge_chunk c' n s4))
                   in Some (s5\<lparr>free_bytes := free_bytes s5 + sz\<rparr>, Inr ()))"

definition get_range_by_addr :: "int \<Rightarrow> mem_alloc \<Rightarrow> int option" where
  "get_range_by_addr addr s = ma_addrs s addr"

definition is_valid_address :: "mem_alloc \<Rightarrow> int \<Rightarrow> bool" where
  "is_valid_address s addr \<longleftrightarrow> ma_addr s \<le> addr \<and> addr < ma_addr s + ma_size s"

partial_function (option) available_from ::
  "mem_alloc \<Rightarrow> nat option \<Rightarrow> int \<Rightarrow> int option" where
  "available_from s chunk free =
     (case chunk of
        None \<Rightarrow> Some free
      | Some c \<Rightarrow> available_from s (ch_next s c) (free + ch_size s c))"

definition available :: "mem_alloc \<Rightarrow> int option" where
  "available s = available_from s (free_first s) 0"

partial_function (option) largest_from ::
  "mem_alloc \<Rightarrow> nat option \<Rightarrow> int \<Rightarrow> int option" where
  "largest_from s chunk largest =
     (case chunk of
        None \<Rightarrow> Some largest
      | Some c \<Rightarrow> largest_from s (ch_next s c)
                    (if ch_size s c > largest then ch_size s c else largest))"

definition largest_chunk :: "mem_alloc \<Rightarrow> int option" where
  "largest_chunk s = largest_from s (free_first s) 0"

text \<open>\<open>dump_orphans\<close> reports the used ranges, i.e. the gaps of the free list: the list of
  \<open>(addr, size)\<close> pairs it passes to \<open>_dump_orphan\<close>; with an empty free list it only says so.\<close>

partial_function (option) orphans_walk ::
  "mem_alloc \<Rightarrow> nat \<Rightarrow> nat option \<Rightarrow> (int \<times> int) list \<Rightarrow> (nat \<times> (int \<times> int) list) option" where
  "orphans_walk s lst cur out =
     (case cur of
        None \<Rightarrow> Some (lst, out)
      | Some c \<Rightarrow>
          let addr = ch_addr s lst + ch_size s lst
          in orphans_walk s c (ch_next s c) (out @ [(addr, ch_addr s c - addr)]))"

definition dump_orphans :: "mem_alloc \<Rightarrow> (int \<times> int) list option" where
  "dump_orphans s =
     (case free_first s of
        None \<Rightarrow> Some []
      | Some f \<Rightarrow>
          let out0 = (if ch_addr s f \<noteq> ma_addr s
                      then [(ma_addr s, ch_addr s f - ma_addr s)] else [])
          in case orphans_walk s f (ch_next s f) out0 of
               None \<Rightarrow> None
             | Some (l, out) \<Rightarrow>
                 let addr = ch_addr s l + ch_size s l;
                     end' = ma_addr s + ma_size s
                 in Some (if addr \<noteq> end' then out @ [(addr, end' - addr)] else out))"

subsection \<open>The free list as a doubly linked list\<close>

definition blk_of :: "mem_alloc \<Rightarrow> nat \<Rightarrow> int \<times> int" where
  "blk_of s c = (ch_addr s c, ch_size s c)"

definition chain_ok :: "mem_alloc \<Rightarrow> nat list \<Rightarrow> bool" where
  "chain_ok s ids \<longleftrightarrow>
     dlseg (ch_next s) (ch_prev s) None ids None \<and> free_first s = hd_or None ids \<and>
     distinct ids \<and> (\<forall>c \<in> set ids. c < ch_new s) \<and> free_entries s = int (length ids)"

text \<open>The fields a free list operation leaves alone.\<close>

definition same_rest :: "mem_alloc \<Rightarrow> mem_alloc \<Rightarrow> bool" where
  "same_rest s s' \<longleftrightarrow>
     ma_addr s' = ma_addr s \<and> ma_size s' = ma_size s \<and> ma_mem s' = ma_mem s \<and>
     ma_addrs s' = ma_addrs s \<and> free_bytes s' = free_bytes s"

lemma chain_hd_eq:
  "distinct (xs @ c # ys) \<Longrightarrow> hd_or None (xs @ c # ys) = Some c \<longleftrightarrow> xs = []"
  by (cases xs) auto

lemma remove_chunk_ok:
  assumes "chain_ok s (xs @ c # ys)"
  shows "chain_ok (remove_chunk c s) (xs @ ys)" and "same_rest s (remove_chunk c s)"
    and "blk_of (remove_chunk c s) = blk_of s"
proof -
  from assms have l: "dlseg (ch_next s) (ch_prev s) None (xs @ c # ys) None"
    and d: "distinct (xs @ c # ys)" and f: "free_first s = hd_or None (xs @ c # ys)"
    by (auto simp: chain_ok_def)
  have "ch_next s c = hd_or None ys" using l by auto
  then have "(if free_first s = Some c then ch_next s c else free_first s) = hd_or None (xs @ ys)"
    using f d by (cases xs) auto
  then show "chain_ok (remove_chunk c s) (xs @ ys)"
    using assms dlseg_unlink [OF l d] by (auto simp: chain_ok_def remove_chunk_def Let_def)
  show "same_rest s (remove_chunk c s)" "blk_of (remove_chunk c s) = blk_of s"
    by (auto simp: same_rest_def remove_chunk_def Let_def blk_of_def)
qed

lemma memory_chunk_eqs:
  assumes "memory_chunk a n s = (c, s')"
  shows "c = ch_new s" and "same_rest s s'" and "ch_new s' = Suc c"
    and "ch_next s' = (ch_next s)(c := None)" and "ch_prev s' = (ch_prev s)(c := None)"
    and "ch_addr s' = (ch_addr s)(c := a)" and "ch_size s' = (ch_size s)(c := n)"
    and "free_first s' = free_first s" and "free_entries s' = free_entries s"
    and "blk_of s' = (blk_of s)(c := (a, n))"
  using assms by (auto simp: memory_chunk_def Let_def same_rest_def blk_of_def)

lemma memory_chunk_ok:
  assumes "chain_ok s ids" and m: "memory_chunk a n s = (c, s')"
  shows "chain_ok s' ids" and "c \<notin> set ids"
proof -
  note e = memory_chunk_eqs [OF m]
  from assms(1) e(1) show "c \<notin> set ids" by (auto simp: chain_ok_def)
  with assms(1) e show "chain_ok s' ids" by (auto simp: chain_ok_def)
qed

lemma replace_chunk_ok:
  assumes "chain_ok s (xs @ c # ys)" and "d \<notin> set (xs @ c # ys)" and "d < ch_new s"
  shows "chain_ok (replace_chunk c d s) (xs @ d # ys)" and "same_rest s (replace_chunk c d s)"
    and "blk_of (replace_chunk c d s) = blk_of s"
proof -
  from assms have l: "dlseg (ch_next s) (ch_prev s) None (xs @ c # ys) None"
    and d: "distinct (xs @ c # ys)" and f: "free_first s = hd_or None (xs @ c # ys)"
    by (auto simp: chain_ok_def)
  have "(if free_first s = Some c then Some d else free_first s) = hd_or None (xs @ d # ys)"
    using f d by (cases xs) auto
  moreover have "dlseg ((upd_opt (ch_prev s c) (Some d) (ch_next s))(d := ch_next s c))
      ((upd_opt (ch_next s c) (Some d) (ch_prev s))(d := ch_prev s c)) None (xs @ d # ys) None"
    using assms(2) by (intro dlseg_replace [OF l d]) auto
  ultimately show "chain_ok (replace_chunk c d s) (xs @ d # ys)"
    using assms by (auto simp: chain_ok_def replace_chunk_def Let_def)
  show "same_rest s (replace_chunk c d s)" "blk_of (replace_chunk c d s) = blk_of s"
    by (auto simp: same_rest_def replace_chunk_def Let_def blk_of_def)
qed

lemma insert_scan_ok:
  "dlseg (ch_next s) p b ids None \<Longrightarrow>
     insert_scan s a (hd_or None ids) lst =
       Some (hd_or None (dropWhile (\<lambda>i. ch_addr s i \<le> a) ids),
             last_or lst (takeWhile (\<lambda>i. ch_addr s i \<le> a) ids))"
proof (induction ids arbitrary: b lst)
  case Nil
  then show ?case by (simp add: insert_scan.simps)
next
  case (Cons c ids)
  then show ?case by (subst insert_scan.simps) auto
qed

lemma insert_chunk_ok:
  assumes ok: "chain_ok s (xs @ ys)" and c: "c \<notin> set (xs @ ys)" "c < ch_new s"
    and fresh: "ch_next s c = None" "ch_prev s c = None"
    and xs: "\<forall>i \<in> set xs. ch_addr s i \<le> ch_addr s c"
    and ys: "\<And>y zs. ys = y # zs \<Longrightarrow> ch_addr s c < ch_addr s y"
  shows "\<exists>s'. insert_chunk c s = Some s' \<and> chain_ok s' (xs @ c # ys) \<and> same_rest s s' \<and>
           blk_of s' = blk_of s \<and> ch_new s' = ch_new s"
proof -
  let ?P = "\<lambda>i. ch_addr s i \<le> ch_addr s c"
  have split: "takeWhile ?P (xs @ ys) = xs" "dropWhile ?P (xs @ ys) = ys"
    using xs ys by (cases ys; fastforce)+
  from ok have l: "dlseg (ch_next s) (ch_prev s) None (xs @ ys) None"
    and f: "free_first s = hd_or None (xs @ ys)" and d: "distinct (xs @ ys)"
    by (auto simp: chain_ok_def)
  have scan: "insert_scan s (ch_addr s c) (free_first s) None = Some (hd_or None ys, last_or None xs)"
    using insert_scan_ok [OF l, of "ch_addr s c" None] f split by simp
  have br: "dlseg ((upd_opt (last_or None xs) (Some c) (ch_next s))(c := hd_or None ys))
      ((upd_opt (hd_or None ys) (Some c) (ch_prev s))(c := last_or None xs)) None (xs @ c # ys) None"
    using l d c by (intro dlseg_bridge [where e = "hd_or None ys" and b = "last_or None xs"]) auto
  have nc: "last_or None xs \<noteq> Some c" "hd_or None ys \<noteq> Some c"
    using c hd_or_in last_or_in by fastforce+
  have hx: "\<And>l e. last_or None xs = Some l \<Longrightarrow> hd_or e xs = Some (hd xs)"
    by (cases xs) auto
  show ?thesis
    using ok c br f nc fresh hx unfolding insert_chunk_def scan
    by (cases "last_or None xs"; cases "hd_or None ys")
      (auto simp: chain_ok_def same_rest_def blk_of_def fun_upd_twist fun_upd_idem)
qed

lemma merge_chunk_no:
  "ch_addr s a + ch_size s a \<noteq> ch_addr s b \<Longrightarrow> merge_chunk a b s = (None, s)"
  by (simp add: merge_chunk_def)

lemma merge_chunk_ok:
  assumes ok: "chain_ok s (xs @ a # b # ys)" and t: "ch_addr s a + ch_size s a = ch_addr s b"
  shows "\<exists>s' c. merge_chunk a b s = (Some c, s') \<and> chain_ok s' (xs @ c # ys) \<and> same_rest s s' \<and>
           blk_of s' = (blk_of s)(c := (ch_addr s a, ch_size s a + ch_size s b)) \<and>
           c \<notin> set (xs @ a # b # ys)"
proof -
  let ?c = "ch_new s"
  from ok have l: "dlseg (ch_next s) (ch_prev s) None (xs @ a # b # ys) None"
    and f: "free_first s = hd_or None (xs @ a # b # ys)" and d: "distinct (xs @ a # b # ys)"
    and new: "?c \<notin> set (xs @ a # b # ys)"
    by (auto simp: chain_ok_def)
  have br: "dlseg ((upd_opt (last_or None xs) (Some ?c) (ch_next s))(?c := hd_or None ys))
      ((upd_opt (hd_or None ys) (Some ?c) (ch_prev s))(?c := last_or None xs)) None (xs @ ?c # ys) None"
    using l d new by (intro dlseg_bridge [where e = "Some a" and b = "Some b"]) auto
  have lk: "ch_prev s a = last_or None xs" "ch_next s b = hd_or None ys"
    using l by auto
  have nc: "last_or None xs \<noteq> Some ?c" "hd_or None ys \<noteq> Some ?c"
    using new hd_or_in last_or_in by fastforce+
  have lb: "last_or None xs \<noteq> Some b" using d last_or_in by fastforce
  have ab: "a \<noteq> ?c" "b \<noteq> ?c" using new by auto
  have ff: "(if free_first s = Some a then Some ?c else free_first s) = hd_or None (xs @ ?c # ys)"
    using f d by (cases xs) auto
  have "chain_ok (snd (merge_chunk a b s)) (xs @ ?c # ys) \<and> fst (merge_chunk a b s) = Some ?c \<and>
      same_rest s (snd (merge_chunk a b s)) \<and>
      blk_of (snd (merge_chunk a b s)) = (blk_of s)(?c := (ch_addr s a, ch_size s a + ch_size s b))"
    using ok br t lk nc lb ab ff unfolding merge_chunk_def memory_chunk_def Let_def
    by (cases "last_or None xs"; cases "hd_or None ys")
      (auto simp: chain_ok_def same_rest_def blk_of_def fun_upd_twist fun_upd_idem less_SucI)
  then show ?thesis using new by (metis prod.collapse)
qed

subsection \<open>Refinement: the pointer program implements the pool\<close>

definition alloc_rel :: "mem_alloc \<Rightarrow> pool \<Rightarrow> bool" where
  "alloc_rel s P \<longleftrightarrow>
     (\<exists>ids. chain_ok s ids \<and> p_free P = map (blk_of s) ids) \<and>
     p_used P = ma_addrs s \<and> free_bytes s = blks_bytes (p_free P)"

lemma find_best_chunk_ok:
  "dlseg (ch_next s) p b ids None \<Longrightarrow>
     find_best_chunk s n (hd_or None ids) =
       Some (case dropWhile (\<lambda>i. ch_size s i < n) ids of
               [] \<Rightarrow> (None, -1) | c # _ \<Rightarrow> (Some c, ch_size s c - n))"
proof (induction ids arbitrary: b)
  case Nil
  then show ?case by (simp add: find_best_chunk.simps)
next
  case (Cons c ids)
  then show ?case by (subst find_best_chunk.simps) (auto simp: does_fit_def)
qed

lemma first_fit_map_None:
  "dropWhile (\<lambda>i. ch_size s i < n) ids = [] \<Longrightarrow> first_fit n (map (blk_of s) ids) = None"
  by (auto simp: first_fit_None_iff blk_of_def)

lemma first_fit_map_Some:
  "\<forall>i \<in> set xs. ch_size s i < n \<Longrightarrow> \<not> ch_size s c < n \<Longrightarrow>
     first_fit n (map (blk_of s) (xs @ c # ys)) =
       Some (ch_addr s c, map (blk_of s) xs @
              (if ch_size s c = n then [] else [(ch_addr s c + n, ch_size s c - n)]) @ map (blk_of s) ys)"
  by (induction xs) (auto simp: blk_of_def)

lemma alloc_mem_refines_None:
  assumes rel: "alloc_rel s P" and none: "pool_alloc (align4 n) P = None"
  shows "alloc_mem n ex s = Some (s, if ex then Inl VamosInternalError else Inr 0)"
proof -
  from rel obtain ids where ok: "chain_ok s ids" and fr: "p_free P = map (blk_of s) ids"
    by (auto simp: alloc_rel_def)
  from none fr have "\<forall>i \<in> set ids. ch_size s i < align4 n"
    by (auto simp: pool_alloc_def first_fit_None_iff blk_of_def split: option.splits)
  then have dw: "dropWhile (\<lambda>i. ch_size s i < align4 n) ids = []" by simp
  from ok have "dlseg (ch_next s) (ch_prev s) None ids None" and f: "free_first s = hd_or None ids"
    by (auto simp: chain_ok_def)
  from find_best_chunk_ok [OF this(1), of "align4 n"] dw f show ?thesis
    by (simp add: alloc_mem_def)
qed

lemma alloc_mem_refines_Some:
  assumes rel: "alloc_rel s P" and al: "pool_alloc (align4 n) P = Some (a, P')"
  shows "\<exists>s'. alloc_mem n ex s = Some (s', if a mod 4 \<noteq> 0 then Inl VamosInternalError else Inr a) \<and>
           alloc_rel s' P' \<and> ma_addr s' = ma_addr s \<and> ma_size s' = ma_size s \<and>
           ma_mem s' = clear_block a (align4 n) (ma_mem s)"
proof -
  let ?n = "align4 n" and ?Q = "\<lambda>i. ch_size s i < align4 n"
  from rel obtain ids where ok: "chain_ok s ids" and fr: "p_free P = map (blk_of s) ids"
    by (auto simp: alloc_rel_def)
  from al fr have ff: "first_fit ?n (map (blk_of s) ids) \<noteq> None"
    by (auto simp: pool_alloc_def split: option.splits)
  then obtain c ys where c: "dropWhile ?Q ids = c # ys"
    using first_fit_map_None by (cases "dropWhile ?Q ids") auto
  define xs where "xs = takeWhile ?Q ids"
  have ids: "ids = xs @ c # ys" using c by (metis takeWhile_dropWhile_id xs_def)
  have xs: "\<forall>i \<in> set xs. ch_size s i < ?n" and big: "\<not> ch_size s c < ?n"
    using c unfolding xs_def by (auto dest: set_takeWhileD simp: dropWhile_eq_Cons_conv)
  from al fr ids have a: "a = ch_addr s c"
    and P': "P' = \<lparr>p_free = map (blk_of s) xs @
        (if ch_size s c = ?n then [] else [(a + ?n, ch_size s c - ?n)]) @ map (blk_of s) ys,
        p_used = (p_used P)(a \<mapsto> ?n)\<rparr>"
    using first_fit_map_Some [OF xs big, of ys] by (auto simp: pool_alloc_def simp del: map_append)
  from ok have "dlseg (ch_next s) (ch_prev s) None ids None" and f: "free_first s = hd_or None ids"
    by (auto simp: chain_ok_def)
  from find_best_chunk_ok [OF this(1), of ?n] c f have
    find: "find_best_chunk s ?n (free_first s) = Some (Some c, ch_size s c - ?n)" by simp
  from rel have fb: "free_bytes s = blks_bytes (p_free P)" and us: "p_used P = ma_addrs s"
    by (auto simp: alloc_rel_def)
  show ?thesis
  proof (cases "ch_size s c = ?n")
    case True
    note r = remove_chunk_ok [OF ok [unfolded ids]]
    from r(2) have rest: "ma_addr (remove_chunk c s) = ma_addr s" "ma_size (remove_chunk c s) = ma_size s"
      "ma_mem (remove_chunk c s) = ma_mem s" "ma_addrs (remove_chunk c s) = ma_addrs s"
      "free_bytes (remove_chunk c s) = free_bytes s" by (auto simp: same_rest_def)
    let ?s' = "remove_chunk c s\<lparr>ma_addrs := (ma_addrs s)(a \<mapsto> ?n),
        free_bytes := free_bytes s - ?n, ma_mem := clear_block a ?n (ma_mem s)\<rparr>"
    have "alloc_mem n ex s = Some (?s', if a mod 4 \<noteq> 0 then Inl VamosInternalError else Inr a)"
      using True find rest a by (simp add: alloc_mem_def Let_def)
    moreover have "chain_ok ?s' (xs @ ys)" "blk_of ?s' = blk_of s"
      using r(1,3) by (auto simp: chain_ok_def blk_of_def fun_eq_iff)
    then have "alloc_rel ?s' P'"
      using True P' fb fr ids us by (auto simp: alloc_rel_def blk_of_def intro!: exI [of _ "xs @ ys"])
    ultimately show ?thesis using rest by auto
  next
    case False
    obtain l s1 where m: "memory_chunk (a + ?n) (ch_size s c - ?n) s = (l, s1)" by fastforce
    note e = memory_chunk_eqs [OF m] and k = memory_chunk_ok [OF ok m]
    have ok1: "chain_ok s1 (xs @ c # ys)" and l: "l \<notin> set (xs @ c # ys)" "l < ch_new s1"
      using k e ids by auto
    note r = replace_chunk_ok [OF ok1 l]
    from r(2) e(2) have rest: "ma_addr (replace_chunk c l s1) = ma_addr s"
      "ma_size (replace_chunk c l s1) = ma_size s" "ma_mem (replace_chunk c l s1) = ma_mem s"
      "ma_addrs (replace_chunk c l s1) = ma_addrs s" "free_bytes (replace_chunk c l s1) = free_bytes s"
      by (auto simp: same_rest_def)
    let ?s' = "replace_chunk c l s1\<lparr>ma_addrs := (ma_addrs s)(a \<mapsto> ?n),
        free_bytes := free_bytes s - ?n, ma_mem := clear_block a ?n (ma_mem s)\<rparr>"
    have "alloc_mem n ex s = Some (?s', if a mod 4 \<noteq> 0 then Inl VamosInternalError else Inr a)"
      using False find rest a m by (simp add: alloc_mem_def Let_def)
    moreover have "chain_ok ?s' (xs @ l # ys)"
      "blk_of ?s' = (blk_of s)(l := (a + ?n, ch_size s c - ?n))"
      using r(1,3) e(10) by (auto simp: chain_ok_def blk_of_def fun_eq_iff)
    moreover from this(2) l have "map (blk_of ?s') (xs @ l # ys) =
        map (blk_of s) xs @ (a + ?n, ch_size s c - ?n) # map (blk_of s) ys"
      by auto
    moreover have "blks_bytes (map (blk_of s) (xs @ c # ys)) =
        blks_bytes (map (blk_of s) xs) + (ch_size s c + blks_bytes (map (blk_of s) ys))"
      by (simp add: blk_of_def [of s c])
    ultimately have "alloc_rel ?s' P'"
      using False P' fb fr ids us
      by (auto simp: alloc_rel_def blk_of_def [of s c] simp del: map_append intro!: exI [of _ "xs @ l # ys"])
    with \<open>alloc_mem n ex s = _\<close> show ?thesis using rest by auto
  qed
qed

text \<open>The two merges of \<open>free_mem\<close> after the block has been inserted.\<close>

definition merge_prev :: "nat \<Rightarrow> mem_alloc \<Rightarrow> nat \<times> mem_alloc" where
  "merge_prev c s =
     (case ch_prev s c of
        None \<Rightarrow> (c, s)
      | Some p \<Rightarrow> (case merge_chunk p c s of (None, s') \<Rightarrow> (c, s') | (Some m, s') \<Rightarrow> (m, s')))"

definition merge_next :: "nat \<Rightarrow> mem_alloc \<Rightarrow> mem_alloc" where
  "merge_next c s = (case ch_next s c of None \<Rightarrow> s | Some n \<Rightarrow> snd (merge_chunk c n s))"

lemma same_rest_trans: "same_rest a b \<Longrightarrow> same_rest b c \<Longrightarrow> same_rest a c"
  by (simp add: same_rest_def)

lemma same_rest_refl [simp]: "same_rest s s"
  by (simp add: same_rest_def)

lemma chain_links:
  assumes "chain_ok s (xs @ c # ys)"
  shows "ch_prev s c = last_or None xs" and "ch_next s c = hd_or None ys"
  using assms by (auto simp: chain_ok_def)

lemma map_blk_upd: "c \<notin> set xs \<Longrightarrow> map ((blk_of s)(c := v)) xs = map (blk_of s) xs"
  by auto

lemma merge_prev_ok:
  assumes ok: "chain_ok s (xs @ c # ys)"
  shows "\<exists>c' s' X. merge_prev c s = (c', s') \<and> chain_ok s' (X @ c' # ys) \<and> same_rest s s' \<and>
    map (blk_of s') ys = map (blk_of s) ys \<and>
    (if xs \<noteq> [] \<and> fst (blk_of s (last xs)) + snd (blk_of s (last xs)) = ch_addr s c
     then map (blk_of s') X = butlast (map (blk_of s) xs) \<and>
          blk_of s' c' = (fst (blk_of s (last xs)), snd (blk_of s (last xs)) + ch_size s c)
     else map (blk_of s') X = map (blk_of s) xs \<and> blk_of s' c' = blk_of s c)"
proof (cases xs rule: rev_cases)
  case Nil
  with chain_links [OF ok] ok show ?thesis
    by (auto simp: merge_prev_def intro!: exI [of _ "[]"])
next
  case (snoc zs p)
  then have pv: "ch_prev s c = Some p" using chain_links [OF ok] by simp
  have ok': "chain_ok s (zs @ p # c # ys)" using ok snoc by simp
  show ?thesis
  proof (cases "ch_addr s p + ch_size s p = ch_addr s c")
    case True
    obtain s' m where m: "merge_chunk p c s = (Some m, s')" "chain_ok s' (zs @ m # ys)"
      "same_rest s s'" "blk_of s' = (blk_of s)(m := (ch_addr s p, ch_size s p + ch_size s c))"
      "m \<notin> set (zs @ p # c # ys)"
      using merge_chunk_ok [OF ok' True] by blast
    then show ?thesis using True snoc pv
      by (auto simp: merge_prev_def blk_of_def [of s] map_blk_upd intro!: exI [of _ zs] exI [of _ m] exI [of _ s'])
  next
    case False
    with snoc pv ok show ?thesis
      by (auto simp: merge_prev_def merge_chunk_no blk_of_def [of s p] intro!: exI [of _ "zs @ [p]"])
  qed
qed

lemma merge_next_ok:
  assumes ok: "chain_ok s (xs @ c # ys)"
  shows "\<exists>ids. chain_ok (merge_next c s) ids \<and> same_rest s (merge_next c s) \<and>
    map (blk_of (merge_next c s)) ids = map (blk_of s) xs @ merge_right (blk_of s c) (map (blk_of s) ys)"
proof (cases ys)
  case Nil
  with chain_links [OF ok] ok show ?thesis
    by (auto simp: merge_next_def merge_right_def intro!: exI [of _ "xs @ [c]"])
next
  case (Cons n zs)
  then have nx: "ch_next s c = Some n" using chain_links [OF ok] by simp
  have ok': "chain_ok s (xs @ c # n # zs)" using ok Cons by simp
  show ?thesis
  proof (cases "ch_addr s c + ch_size s c = ch_addr s n")
    case True
    obtain s' m where m: "merge_chunk c n s = (Some m, s')" "chain_ok s' (xs @ m # zs)"
      "same_rest s s'" "blk_of s' = (blk_of s)(m := (ch_addr s c, ch_size s c + ch_size s n))"
      "m \<notin> set (xs @ c # n # zs)"
      using merge_chunk_ok [OF ok' True] by blast
    then show ?thesis using True Cons nx
      by (auto simp: merge_next_def merge_right_def blk_of_def [of s] map_blk_upd intro!: exI [of _ "xs @ m # zs"])
  next
    case False
    with Cons nx ok show ?thesis
      by (auto simp: merge_next_def merge_chunk_no merge_right_def blk_of_def [of s] intro!: exI [of _ "xs @ c # n # zs"])
  qed
qed

lemma free_mem_eq:
  "ma_addrs s a = Some r \<Longrightarrow> align4 n = r \<Longrightarrow>
   memory_chunk a r (s\<lparr>ma_addrs := (ma_addrs s)(a := None)\<rparr>) = (c, s2) \<Longrightarrow>
   insert_chunk c s2 = Some s3 \<Longrightarrow> merge_prev c s3 = (c', s4) \<Longrightarrow>
   free_mem a n s = Some ((merge_next c' s4)\<lparr>free_bytes := free_bytes (merge_next c' s4) + r\<rparr>, Inr ())"
  by (simp add: free_mem_def merge_prev_def merge_next_def Let_def split: prod.splits option.splits)

lemma free_mem_refines:
  assumes rel: "alloc_rel s P" and u: "p_used P a = Some r" and n: "align4 n = r"
    and w: "wf_blks lb (p_free P)" and r: "0 < r" and fo: "free_of a r (p_free P)"
    and pf: "pool_free a P = Some P'" and lo: "lb \<le> a" and dvd: "4 dvd a"
  shows "\<exists>s'. free_mem a n s = Some (s', Inr ()) \<and> alloc_rel s' P' \<and>
           ma_addr s' = ma_addr s \<and> ma_size s' = ma_size s \<and> ma_mem s' = ma_mem s"
proof -
  from rel obtain ids where ok: "chain_ok s ids" and fr: "p_free P = map (blk_of s) ids"
    and us: "p_used P = ma_addrs s" and fb: "free_bytes s = blks_bytes (p_free P)"
    by (auto simp: alloc_rel_def)
  let ?s1 = "s\<lparr>ma_addrs := (ma_addrs s)(a := None)\<rparr>"
  have ok1: "chain_ok ?s1 ids" and blk1: "blk_of ?s1 = blk_of s"
    using ok by (auto simp: chain_ok_def blk_of_def fun_eq_iff)
  obtain c s2 where m: "memory_chunk a r ?s1 = (c, s2)" by fastforce
  note e = memory_chunk_eqs [OF m]
  have ok2: "chain_ok s2 ids" and c: "c \<notin> set ids" "c < ch_new s2"
    using memory_chunk_ok [OF ok1 m] e(1,3) by auto
  have blk2: "blk_of s2 = (blk_of s)(c := (a, r))" using e(10) blk1 by simp
  have cc: "ch_addr s2 c = a" "ch_size s2 c = r" "ch_next s2 c = None" "ch_prev s2 c = None"
    using e by auto
  define xs where "xs = takeWhile (\<lambda>i. ch_addr s2 i < a) ids"
  define ys where "ys = dropWhile (\<lambda>i. ch_addr s2 i < a) ids"
  have ids: "ids = xs @ ys" by (simp add: xs_def ys_def)
  have xs: "\<forall>i \<in> set xs. ch_addr s2 i < a" by (auto simp: xs_def dest: set_takeWhileD)
  have addr2: "ch_addr s2 i = fst (blk_of s i)" if "i \<in> set ids" for i
    using e(6) c(1) that by (auto simp: blk_of_def)
  have pos: "0 < snd (blk_of s i)" if "i \<in> set ids" for i
    using wf_blks_mem [OF w, of "fst (blk_of s i)" "snd (blk_of s i)"] fr that by auto
  have ys: "a < ch_addr s2 y" if "ys = y # zs" for y zs
  proof -
    have "\<not> ch_addr s2 y < a" using that hd_dropWhile [of "\<lambda>i. ch_addr s2 i < a" ids]
      by (auto simp: ys_def)
    moreover have "y \<in> set ids" using that ids by auto
    then have "ch_addr s2 y \<noteq> a"
      using fo pos [of y] r addr2 [of y] fr by (force simp: free_of_def in_blks_iff)
    ultimately show ?thesis by linarith
  qed
  obtain s3 where s3: "insert_chunk c s2 = Some s3" "chain_ok s3 (xs @ c # ys)" "same_rest s2 s3"
    "blk_of s3 = blk_of s2"
    using insert_chunk_ok [OF ok2 [unfolded ids], of c] c cc xs ys ids by fastforce
  obtain c' s4 X where s4: "merge_prev c s3 = (c', s4)" "chain_ok s4 (X @ c' # ys)" "same_rest s3 s4"
    "map (blk_of s4) ys = map (blk_of s3) ys"
    "if xs \<noteq> [] \<and> fst (blk_of s3 (last xs)) + snd (blk_of s3 (last xs)) = ch_addr s3 c
     then map (blk_of s4) X = butlast (map (blk_of s3) xs) \<and>
          blk_of s4 c' = (fst (blk_of s3 (last xs)), snd (blk_of s3 (last xs)) + ch_size s3 c)
     else map (blk_of s4) X = map (blk_of s3) xs \<and> blk_of s4 c' = blk_of s3 c"
    using merge_prev_ok [OF s3(2)] by metis
  let ?s5 = "merge_next c' s4"
  obtain ids' where s5: "chain_ok ?s5 ids'" "same_rest s4 ?s5"
    "map (blk_of ?s5) ids' = map (blk_of s4) X @ merge_right (blk_of s4 c') (map (blk_of s4) ys)"
    using merge_next_ok [OF s4(2)] by blast
  have c3: "ch_addr s3 c = a" "ch_size s3 c = r" "blk_of s3 c = (a, r)"
    using s3(4) blk2 by (auto simp: blk_of_def fun_eq_iff split: if_splits)
  have m3: "map (blk_of s3) xs = map (blk_of s) xs" "map (blk_of s3) ys = map (blk_of s) ys"
    "xs \<noteq> [] \<Longrightarrow> blk_of s3 (last xs) = blk_of s (last xs)"
    using s3(4) blk2 c(1) ids by auto
  have m4: "map (blk_of s4) ys = map (blk_of s) ys" using s4(4) m3(2) by simp
  have gb: "give_back a r (map (blk_of s) xs @ map (blk_of s) ys) = map (blk_of ?s5) ids'"
  proof -
    have "give_back a r (map (blk_of s) xs @ map (blk_of s) ys) =
      (if map (blk_of s) xs \<noteq> [] \<and>
          fst (last (map (blk_of s) xs)) + snd (last (map (blk_of s) xs)) = a
       then butlast (map (blk_of s) xs) @
         merge_right (fst (last (map (blk_of s) xs)), snd (last (map (blk_of s) xs)) + r) (map (blk_of s) ys)
       else map (blk_of s) xs @ merge_right (a, r) (map (blk_of s) ys))"
    proof (rule give_back_split)
      show "wf_blks lb (map (blk_of s) xs @ map (blk_of s) ys)" using w fr ids by simp
      show "free_of a r (map (blk_of s) xs @ map (blk_of s) ys)" using fo fr ids by simp
      have "fst (blk_of s i) < a" if "i \<in> set xs" for i
        using xs addr2 [of i] ids that by auto
      then show "\<forall>(b, m) \<in> set (map (blk_of s) xs). b < a"
        by (metis (no_types, lifting) case_prodI2 fst_conv image_iff list.set_map)
      show "\<And>b k t. map (blk_of s) ys = (b, k) # t \<Longrightarrow> a < b"
        using ys addr2 ids by (fastforce simp: map_eq_Cons_conv)
    qed (rule r)
    also have "\<dots> = map (blk_of ?s5) ids'"
      unfolding m4 [symmetric] m3(1) [symmetric] using s4(5) s5(3) c3 m3(3)
      by (auto simp: last_map map_butlast split: if_splits)
    finally show ?thesis .
  qed
  have rest: "ma_addr ?s5 = ma_addr s" "ma_size ?s5 = ma_size s" "ma_mem ?s5 = ma_mem s"
    "ma_addrs ?s5 = (ma_addrs s)(a := None)" "free_bytes ?s5 = free_bytes s"
    using e(2) s3(3) s4(3) s5(2) by (auto simp: same_rest_def)
  have P': "P' = \<lparr>p_free = map (blk_of ?s5) ids', p_used = (ma_addrs s)(a := None)\<rparr>"
    using pf u us gb fr ids by (auto simp: pool_free_def)
  let ?s6 = "?s5\<lparr>free_bytes := free_bytes ?s5 + r\<rparr>"
  have "blks_bytes (p_free P') = blks_bytes (p_free P) + r"
    using gb fr ids P' give_back_wf [OF w lo dvd r fo] by simp
  then have "alloc_rel ?s6 P'"
    using s5(1) P' rest fb by (auto simp: alloc_rel_def chain_ok_def blk_of_def intro!: exI [of _ ids'])
  moreover have "free_mem a n s = Some (?s6, Inr ())"
    using u us n by (intro free_mem_eq [OF _ n m s3(1) s4(1)]) simp
  ultimately show ?thesis using rest by auto
qed

end
