(* ===== verification/Mem_Alloc_Inv.thy ===== *)
theory Mem_Alloc_Inv
  imports Mem_Alloc
begin

text \<open>
  What the allocator of \<open>amitools/vamos/mem/alloc.py\<close> promises. \<open>ma_inv\<close> says that the
  pointer structure implements a pool that satisfies \<open>pool_inv\<close>; it holds after the
  constructor and is kept by every operation, whatever sequence of calls the library code
  makes, and it gives the behaviour of each operation on every branch.
\<close>

definition ma_inv :: "mem_alloc \<Rightarrow> bool" where
  "ma_inv s \<longleftrightarrow> (\<exists>P. alloc_rel s P \<and> pool_inv (ma_addr s) (ma_size s) P) \<and> 0 < ma_addr s"

text \<open>The states a sequence of calls can reach; sizes of allocations are positive.\<close>

inductive ma_reach :: "mem_alloc \<Rightarrow> bool" where
  ma_reach_init: "s = memory_alloc_init kib mem addr sz \<Longrightarrow> 4 dvd addr \<Longrightarrow> 0 \<le> addr \<Longrightarrow>
     0 < ma_size s \<Longrightarrow> ma_reach s"
| ma_reach_alloc: "ma_reach s \<Longrightarrow> 0 < n \<Longrightarrow> alloc_mem n ex s = Some (s', r) \<Longrightarrow> ma_reach s'"
| ma_reach_free: "ma_reach s \<Longrightarrow> free_mem a n s = Some (s', r) \<Longrightarrow> ma_reach s'"

inductive_cases ma_reach_cases: "ma_reach s"

lemma memory_alloc_init_rel:
  "alloc_rel (memory_alloc_init kib mem addr sz)
     (pool_init (ma_addr (memory_alloc_init kib mem addr sz)) (ma_size (memory_alloc_init kib mem addr sz)))"
  by (auto simp: alloc_rel_def memory_alloc_init_def memory_chunk_def Let_def pool_init_def
      chain_ok_def blk_of_def intro!: exI [of _ "[0]"])

lemma ma_inv_init:
  assumes "s = memory_alloc_init kib mem addr sz" "4 dvd addr" "0 \<le> addr" "0 < ma_size s"
  shows "ma_inv s"
proof -
  have "ma_addr s = (if addr = 0 then 4 else addr)"
    using assms(1) by (simp add: memory_alloc_init_def memory_chunk_def Let_def)
  with assms have "4 dvd ma_addr s" "0 < ma_addr s" by auto
  with assms(1,4) memory_alloc_init_rel [of kib mem addr sz] show ?thesis
    unfolding ma_inv_def using pool_init_inv by blast
qed

lemma pool_alloc_free_blocks:
  assumes "alloc_rel s P" "pool_inv lo sz P"
  shows "p_used P = ma_addrs s" "used_ok (ma_addrs s)" "free_bytes s = blks_bytes (p_free P)"
    "free_bytes s + used_bytes (ma_addrs s) = sz"
  using assms by (auto simp: alloc_rel_def pool_inv_def)

subsection \<open>Allocation\<close>

text \<open>The outcome of an allocation: a fresh, aligned, zeroed range inside the pool, or the
  error (or address 0) with the state unchanged.\<close>

definition alloc_post :: "mem_alloc \<Rightarrow> int \<Rightarrow> bool \<Rightarrow> mem_alloc \<Rightarrow> int res \<Rightarrow> bool" where
  "alloc_post s n ex s' r =
     (case r of
        Inl e \<Rightarrow> ex \<and> e = VamosInternalError \<and> s' = s
      | Inr a \<Rightarrow>
          (if a = 0 then \<not> ex \<and> s' = s
           else 4 dvd a \<and> ma_addr s \<le> a \<and> a + align4 n \<le> ma_addr s + ma_size s \<and>
             ma_addrs s a = None \<and>
             (\<forall>b m. ma_addrs s b = Some m \<longrightarrow> b + m \<le> a \<or> a + align4 n \<le> b) \<and>
             ma_addrs s' = (ma_addrs s)(a \<mapsto> align4 n) \<and>
             free_bytes s' = free_bytes s - align4 n \<and>
             ma_addr s' = ma_addr s \<and> ma_size s' = ma_size s \<and>
             ma_mem s' = clear_block a (align4 n) (ma_mem s)))"

lemma fresh_disjoint:
  assumes ok: "used_ok u" and u: "u b = Some m" and n: "0 < n"
    and fresh: "\<And>x. a \<le> x \<Longrightarrow> x < a + n \<Longrightarrow> \<not> in_used x u"
  shows "b + m \<le> a \<or> a + n \<le> b"
proof (rule ccontr)
  assume c: "\<not> ?thesis"
  from ok u have "0 < m" by (auto simp: used_ok_def)
  with c n have "\<exists>x. a \<le> x \<and> x < a + n \<and> b \<le> x \<and> x < b + m"
    by (intro exI [of _ "max a b"]) auto
  with fresh u show False by (auto simp: in_used_def)
qed

lemma alloc_mem_cases:
  assumes inv: "ma_inv s" and n: "0 < n"
  shows "\<exists>s' r. alloc_mem n ex s = Some (s', r) \<and> alloc_post s n ex s' r \<and> ma_inv s'"
proof -
  from inv obtain P where rel: "alloc_rel s P" and P: "pool_inv (ma_addr s) (ma_size s) P"
    and pos: "0 < ma_addr s" by (auto simp: ma_inv_def)
  note F = pool_alloc_free_blocks [OF rel P]
  have n4: "0 < align4 n" "4 dvd align4 n" using n by (auto intro: align4_pos)
  show ?thesis
  proof (cases "pool_alloc (align4 n) P")
    case None
    then show ?thesis
      using alloc_mem_refines_None [OF rel None, of ex] inv by (auto simp: alloc_post_def)
  next
    case (Some aP)
    obtain a P' where aP: "aP = (a, P')" by fastforce
    with Some have al: "pool_alloc (align4 n) P = Some (a, P')" by simp
    note A = pool_alloc_inv [OF P n4 al]
    have a0: "a mod 4 = 0" "a \<noteq> 0" using A(2,4) pos by auto
    obtain s' where s': "alloc_mem n ex s = Some (s', Inr a)" "alloc_rel s' P'"
      "ma_addr s' = ma_addr s" "ma_size s' = ma_size s"
      "ma_mem s' = clear_block a (align4 n) (ma_mem s)"
      using alloc_mem_refines_Some [OF rel al, of ex] a0 by auto
    have us: "p_used P' = (p_used P)(a \<mapsto> align4 n)"
      using al by (auto simp: pool_alloc_def split: option.splits)
    note F' = pool_alloc_free_blocks [OF s'(2) A(1)]
    have ub: "used_bytes ((ma_addrs s)(a \<mapsto> align4 n)) = align4 n + used_bytes (ma_addrs s)"
      using F(1,2) A(5) by (intro used_bytes_upd) (auto simp: used_ok_def)
    have "ma_inv s'" using s'(2-4) A(1) pos by (auto simp: ma_inv_def)
    moreover have "alloc_post s n ex s' (Inr a)"
      unfolding alloc_post_def
      using a0 A(2-6) F F' us s'(3-5) ub fresh_disjoint [OF F(2) _ n4(1), of _ _ a] by auto
    ultimately show ?thesis using s'(1) by blast
  qed
qed

text \<open>A request of no bytes takes nothing from the free list but records an allocation of size 0 at
  the start of the first free block: the next request gets the same address.\<close>

definition alloc_zero_post :: "mem_alloc \<Rightarrow> bool \<Rightarrow> mem_alloc \<Rightarrow> int res \<Rightarrow> bool" where
  "alloc_zero_post s ex s' r \<longleftrightarrow>
     (\<exists>P. alloc_rel s P \<and>
        (case p_free P of
           [] \<Rightarrow> s' = s \<and> r = (if ex then Inl VamosInternalError else Inr 0)
         | (a, m) # fr \<Rightarrow>
             r = Inr a \<and> alloc_rel s' (P\<lparr>p_used := (ma_addrs s)(a \<mapsto> 0)\<rparr>) \<and> ma_mem s' = ma_mem s \<and>
             (\<forall>k. 0 < k \<and> align4 k \<le> m \<longrightarrow> (\<exists>s''. alloc_mem k ex s' = Some (s'', Inr a)))))"

lemma clear_block_empty: "clear_block a 0 m = m"
  by (rule ext) (auto simp: clear_block_def)

lemma alloc_mem_zero:
  assumes inv: "ma_inv s"
  shows "\<exists>s' r. alloc_mem 0 ex s = Some (s', r) \<and> alloc_zero_post s ex s' r"
proof -
  from inv obtain P where rel: "alloc_rel s P" and P: "pool_inv (ma_addr s) (ma_size s) P"
    by (auto simp: ma_inv_def)
  have z: "align4 0 = 0" by (simp add: align4_eq)
  have us: "p_used P = ma_addrs s" using rel by (simp add: alloc_rel_def)
  show ?thesis
  proof (cases "p_free P")
    case Nil
    then have "pool_alloc (align4 0) P = None" by (simp add: pool_alloc_def)
    from alloc_mem_refines_None [OF rel this, of ex] rel Nil show ?thesis by (auto simp: alloc_zero_post_def)
  next
    case (Cons am fr)
    obtain a m where am: "p_free P = (a, m) # fr" using Cons by (cases am) auto
    with P have a: "4 dvd a" "0 < m" "a mod 4 = 0" by (auto simp: pool_inv_def)
    let ?P = "P\<lparr>p_used := (ma_addrs s)(a \<mapsto> 0)\<rparr>"
    have al: "pool_alloc (align4 0) P = Some (a, ?P)" using am a us by (simp add: pool_alloc_def z)
    obtain s' where s': "alloc_mem 0 ex s = Some (s', Inr a)" "alloc_rel s' ?P" "ma_mem s' = ma_mem s"
      using alloc_mem_refines_Some [OF rel al, of ex] a by (auto simp: z clear_block_empty)
    have "\<exists>s''. alloc_mem k ex s' = Some (s'', Inr a)" if k: "0 < k" "align4 k \<le> m" for k
    proof -
      obtain P'' where "pool_alloc (align4 k) ?P = Some (a, P'')" using am k by (cases "m = align4 k") (auto simp: pool_alloc_def)
      from alloc_mem_refines_Some [OF s'(2) this, of ex] a show ?thesis by auto
    qed
    with s' rel am show ?thesis by (auto simp: alloc_zero_post_def intro!: exI [of _ P])
  qed
qed

lemma alloc_mem_fits_iff:
  assumes rel: "alloc_rel s P" and P: "pool_inv (ma_addr s) (ma_size s) P" and pos: "0 < ma_addr s"
    and n: "0 < n"
  shows "(\<exists>s' a. alloc_mem n True s = Some (s', Inr a)) \<longleftrightarrow> (\<exists>(b, m) \<in> set (p_free P). align4 n \<le> m)"
proof (cases "pool_alloc (align4 n) P")
  case None
  then have "first_fit (align4 n) (p_free P) = None"
    by (auto simp: pool_alloc_def split: option.splits)
  with alloc_mem_refines_None [OF rel None, of True] show ?thesis
    by (force simp: first_fit_None_iff)
next
  case (Some aP)
  obtain a P' where al: "pool_alloc (align4 n) P = Some (a, P')" using Some by (cases aP) auto
  then have "first_fit (align4 n) (p_free P) \<noteq> None"
    by (auto simp: pool_alloc_def split: option.splits)
  then have "\<exists>(b, m) \<in> set (p_free P). align4 n \<le> m"
    unfolding first_fit_None_iff by (force simp: not_less)
  moreover have "4 dvd a" using pool_alloc_inv(4) [OF P _ _ al] n by (auto intro: align4_pos)
  ultimately show ?thesis using alloc_mem_refines_Some [OF rel al, of True] by auto
qed

subsection \<open>Freeing\<close>

lemma free_mem_cases:
  assumes inv: "ma_inv s"
  shows "(case ma_addrs s a of
            None \<Rightarrow> free_mem a n s = Some (s, Inl VamosInternalError)
          | Some r \<Rightarrow>
              if align4 n \<noteq> r then free_mem a n s = Some (s, Inl AssertionError)
              else \<exists>s'. free_mem a n s = Some (s', Inr ()) \<and> ma_inv s' \<and>
                     ma_addrs s' = (ma_addrs s)(a := None) \<and> free_bytes s' = free_bytes s + r \<and>
                     ma_addr s' = ma_addr s \<and> ma_size s' = ma_size s \<and> ma_mem s' = ma_mem s \<and>
                     (\<forall>P P'. alloc_rel s P \<longrightarrow> pool_inv (ma_addr s) (ma_size s) P \<longrightarrow> pool_free a P = Some P' \<longrightarrow> alloc_rel s' P'))"
proof (cases "ma_addrs s a")
  case None
  then show ?thesis by (simp add: free_mem_def)
next
  case (Some r)
  from inv obtain P where rel: "alloc_rel s P" and P: "pool_inv (ma_addr s) (ma_size s) P"
    and pos: "0 < ma_addr s" by (auto simp: ma_inv_def)
  note F = pool_alloc_free_blocks [OF rel P]
  show ?thesis
  proof (cases "align4 n = r")
    case False
    with Some show ?thesis by (auto simp: free_mem_def Let_def)
  next
    case True
    have g: "\<exists>s'. free_mem a n s = Some (s', Inr ()) \<and> alloc_rel s' P' \<and>
           ma_addr s' = ma_addr s \<and> ma_size s' = ma_size s \<and> ma_mem s' = ma_mem s"
      if Q: "alloc_rel s P" "pool_inv (ma_addr s) (ma_size s) P" "pool_free a P = Some P'" for P P'
    proof -
      note F = pool_alloc_free_blocks [OF Q(1,2)]
      have w: "wf_blks (ma_addr s) (p_free P)"
        and tile: "\<And>x. in_blks x (p_free P) \<or> in_used x (p_used P) \<longleftrightarrow> ma_addr s \<le> x \<and> x < ma_addr s + ma_size s"
        and dis: "\<And>x. \<not> (in_blks x (p_free P) \<and> in_used x (p_used P))"
        using Q(2) by (auto simp: pool_inv_def)
      have r: "0 < r" "4 dvd a" using F(2) Some by (auto simp: used_ok_def)
      have used: "in_used x (p_used P)" if "a \<le> x" "x < a + r" for x
        using that Some F(1) by (auto simp: in_used_def)
      have "free_of a r (p_free P)" using used dis by (auto simp: free_of_def)
      moreover have "ma_addr s \<le> a" using tile [of a] used [of a] r by auto
      ultimately show ?thesis
        using free_mem_refines [OF Q(1) _ True w r(1) _ Q(3)] F(1) Some r by auto
    qed
    obtain P' where pf: "pool_free a P = Some P'" using F(1) Some by (auto simp: pool_free_def)
    from g [OF rel P pf] obtain s' where s': "free_mem a n s = Some (s', Inr ())" "alloc_rel s' P'"
      "ma_addr s' = ma_addr s" "ma_size s' = ma_size s" "ma_mem s' = ma_mem s" by blast
    note P'i = pool_free_inv [OF P pf] and F' = pool_alloc_free_blocks [OF s'(2) pool_free_inv [OF P pf]]
    have us: "p_used P' = (p_used P)(a := None)"
      using pf by (auto simp: pool_free_def split: option.splits)
    have "used_bytes ((ma_addrs s)(a := None)) = used_bytes (ma_addrs s) - r"
      using F(2) Some by (intro used_bytes_del) (auto simp: used_ok_def)
    moreover have "ma_inv s'" using s'(2-4) P'i pos by (auto simp: ma_inv_def)
    moreover have "\<forall>P P'. alloc_rel s P \<longrightarrow> pool_inv (ma_addr s) (ma_size s) P \<longrightarrow>
        pool_free a P = Some P' \<longrightarrow> alloc_rel s' P'" using g s'(1) by fastforce
    ultimately show ?thesis using Some True s' F F' us by auto
  qed
qed

lemma ma_inv_alloc:
  "ma_inv s \<Longrightarrow> 0 < n \<Longrightarrow> alloc_mem n ex s = Some (s', r) \<Longrightarrow> ma_inv s'"
  using alloc_mem_cases [of s n ex] by auto

lemma ma_inv_free: "ma_inv s \<Longrightarrow> free_mem a n s = Some (s', r) \<Longrightarrow> ma_inv s'"
  using free_mem_cases [of s a n] by (auto split: option.splits if_splits)

lemma ma_reach_inv: "ma_reach s \<Longrightarrow> ma_inv s"
  by (induction rule: ma_reach.induct) (auto intro: ma_inv_init ma_inv_alloc ma_inv_free)

subsection \<open>Walking the free list\<close>

definition max_size :: "int \<Rightarrow> blocks \<Rightarrow> int" where
  "max_size l fr = fold (\<lambda>(_, m) l. max l m) fr l"

lemma available_from_ok:
  "dlseg (ch_next s) p b ids None \<Longrightarrow>
     available_from s (hd_or None ids) k = Some (k + blks_bytes (map (blk_of s) ids))"
proof (induction ids arbitrary: b k)
  case Nil
  then show ?case by (simp add: available_from.simps)
next
  case (Cons c ids)
  then show ?case by (subst available_from.simps) (auto simp: blk_of_def [of s c])
qed

lemma largest_from_ok:
  "dlseg (ch_next s) p b ids None \<Longrightarrow>
     largest_from s (hd_or None ids) k = Some (max_size k (map (blk_of s) ids))"
proof (induction ids arbitrary: b k)
  case Nil
  then show ?case by (simp add: largest_from.simps max_size_def)
next
  case (Cons c ids)
  then show ?case
    by (subst largest_from.simps) (auto simp: blk_of_def [of s c] max_size_def max_def)
qed

lemma max_size_ge: "n \<le> max_size l fr \<longleftrightarrow> n \<le> l \<or> (\<exists>(a, m) \<in> set fr. n \<le> m)"
  unfolding max_size_def by (induction fr arbitrary: l) (auto simp: le_max_iff_disj)

text \<open>The gaps between sorted free blocks, up to the end of the pool.\<close>

fun gaps :: "int \<Rightarrow> int \<Rightarrow> blocks \<Rightarrow> blocks" where
  "gaps lo hi [] = (if lo \<noteq> hi then [(lo, hi - lo)] else [])"
| "gaps lo hi ((a, m) # fr) = (if a \<noteq> lo then [(lo, a - lo)] else []) @ gaps (a + m) hi fr"

lemma in_blks_append [simp]: "in_blks x (xs @ ys) \<longleftrightarrow> in_blks x xs \<or> in_blks x ys"
  by (auto simp: in_blks_iff)

lemma gaps_ok:
  "wf_blks lo fr \<Longrightarrow> (\<And>a m. (a, m) \<in> set fr \<Longrightarrow> a + m \<le> hi) \<Longrightarrow> lo \<le> hi \<Longrightarrow>
     in_blks x (gaps lo hi fr) \<longleftrightarrow> lo \<le> x \<and> x < hi \<and> \<not> in_blks x fr"
proof (induction lo hi fr rule: gaps.induct)
  case (2 lo hi a m fr)
  from 2(2) have w: "lo \<le> a" "0 < m" "wf_blks (a + m + 1) fr" by auto
  have hi: "a + m \<le> hi" using 2(3) by auto
  have ih: "in_blks x (gaps (a + m) hi fr) \<longleftrightarrow> a + m \<le> x \<and> x < hi \<and> \<not> in_blks x fr"
    using 2(1) [OF wf_blks_mono [OF w(3)] _ hi] 2(3) by auto
  have "\<not> in_blks x fr" if "x < a + m" using in_blks_ge [OF w(3)] that by force
  with ih w hi show ?case by auto
qed auto

lemma orphans_walk_ok:
  "dlseg (ch_next s) p b (c # ids) None \<Longrightarrow> wf_blks lb (map (blk_of s) (c # ids)) \<Longrightarrow>
     \<exists>l out'. orphans_walk s c (hd_or None ids) out = Some (l, out @ out') \<and>
       gaps (ch_addr s c + ch_size s c) hi (map (blk_of s) ids) =
         out' @ (if ch_addr s l + ch_size s l \<noteq> hi
                 then [(ch_addr s l + ch_size s l, hi - (ch_addr s l + ch_size s l))] else [])"
proof (induction ids arbitrary: c b out lb)
  case Nil
  then show ?case by (auto simp: orphans_walk.simps)
next
  case (Cons d ids)
  let ?g = "(ch_addr s c + ch_size s c, ch_addr s d - (ch_addr s c + ch_size s c))"
  have w: "wf_blks (ch_addr s c + ch_size s c + 1) (map (blk_of s) (d # ids))"
    using Cons.prems(2) by (simp add: blk_of_def [of s c])
  have "dlseg (ch_next s) p (Some c) (d # ids) None" using Cons.prems(1) by simp
  from Cons.IH [OF this w, of "out @ [?g]"] obtain l out' where
    l: "orphans_walk s d (hd_or None ids) (out @ [?g]) = Some (l, (out @ [?g]) @ out')"
    "gaps (ch_addr s d + ch_size s d) hi (map (blk_of s) ids) =
         out' @ (if ch_addr s l + ch_size s l \<noteq> hi
                 then [(ch_addr s l + ch_size s l, hi - (ch_addr s l + ch_size s l))] else [])"
    by blast
  have "ch_next s d = hd_or None ids" using Cons.prems(1) by auto
  with l(1) have "orphans_walk s c (hd_or None (d # ids)) out = Some (l, out @ ?g # out')"
    by (subst orphans_walk.simps) (simp add: Let_def)
  moreover have "ch_addr s d \<noteq> ch_addr s c + ch_size s c" using w by (simp add: blk_of_def [of s d])
  then have "gaps (ch_addr s c + ch_size s c) hi (map (blk_of s) (d # ids)) =
      (?g # out') @ (if ch_addr s l + ch_size s l \<noteq> hi
                 then [(ch_addr s l + ch_size s l, hi - (ch_addr s l + ch_size s l))] else [])"
    using l(2) by (simp add: blk_of_def [of s d])
  ultimately show ?case by blast
qed

lemma dump_orphans_gaps:
  assumes ok: "chain_ok s ids" and ne: "ids \<noteq> []" and w: "wf_blks lb (map (blk_of s) ids)"
  shows "dump_orphans s = Some (gaps (ma_addr s) (ma_addr s + ma_size s) (map (blk_of s) ids))"
proof -
  let ?hi = "ma_addr s + ma_size s"
  from ne obtain c xs where ids: "ids = c # xs" by (cases ids) auto
  with ok have l: "dlseg (ch_next s) (ch_prev s) None (c # xs) None" and f: "free_first s = Some c"
    and n: "ch_next s c = hd_or None xs" by (auto simp: chain_ok_def)
  let ?out = "if ch_addr s c \<noteq> ma_addr s then [(ma_addr s, ch_addr s c - ma_addr s)] else []"
  from orphans_walk_ok [OF l w [unfolded ids], of ?out ?hi] obtain e out' where
    e: "orphans_walk s c (hd_or None xs) ?out = Some (e, ?out @ out')"
    "gaps (ch_addr s c + ch_size s c) ?hi (map (blk_of s) xs) =
         out' @ (if ch_addr s e + ch_size s e \<noteq> ?hi
                 then [(ch_addr s e + ch_size s e, ?hi - (ch_addr s e + ch_size s e))] else [])"
    by blast
  then show ?thesis
    by (simp add: dump_orphans_def f n Let_def ids blk_of_def [of s c])
qed

lemma ma_inv_walks:
  assumes inv: "ma_inv s"
  shows "available s = Some (free_bytes s)"
    and "\<exists>k. largest_chunk s = Some k \<and>
           (\<forall>n > 0. align4 n \<le> k \<longleftrightarrow> (\<exists>s' a. alloc_mem n True s = Some (s', Inr a)))"
    and "free_first s \<noteq> None \<Longrightarrow> \<exists>out. dump_orphans s = Some out \<and> (\<forall>x. in_blks x out \<longleftrightarrow> in_used x (ma_addrs s))"
proof -
  from inv obtain P where rel: "alloc_rel s P" and P: "pool_inv (ma_addr s) (ma_size s) P"
    and pos: "0 < ma_addr s" by (auto simp: ma_inv_def)
  then obtain ids where ok: "chain_ok s ids" and fr: "p_free P = map (blk_of s) ids"
    by (auto simp: alloc_rel_def)
  note F = pool_alloc_free_blocks [OF rel P]
  have l: "dlseg (ch_next s) (ch_prev s) None ids None" and f: "free_first s = hd_or None ids"
    using ok by (auto simp: chain_ok_def)
  show "available s = Some (free_bytes s)"
    using available_from_ok [OF l] f F(3) fr by (simp add: available_def)
  have "align4 n \<le> max_size 0 (p_free P) \<longleftrightarrow> (\<exists>s' a. alloc_mem n True s = Some (s', Inr a))"
    if "0 < n" for n
    using alloc_mem_fits_iff [OF rel P pos that] align4_pos [OF that] by (auto simp: max_size_ge)
  then show "\<exists>k. largest_chunk s = Some k \<and>
           (\<forall>n > 0. align4 n \<le> k \<longleftrightarrow> (\<exists>s' a. alloc_mem n True s = Some (s', Inr a)))"
    using largest_from_ok [OF l] f fr by (simp add: largest_chunk_def)
  assume "free_first s \<noteq> None"
  with f have ne: "ids \<noteq> []" by auto
  have w: "wf_blks (ma_addr s) (p_free P)"
    and tile: "\<And>x. in_blks x (p_free P) \<or> in_used x (p_used P) \<longleftrightarrow> ma_addr s \<le> x \<and> x < ma_addr s + ma_size s"
    and dis: "\<And>x. \<not> (in_blks x (p_free P) \<and> in_used x (p_used P))"
    using P by (auto simp: pool_inv_def)
  have hi: "a + m \<le> ma_addr s + ma_size s" if "(a, m) \<in> set (p_free P)" for a m
  proof -
    have "0 < m" using wf_blks_mem [OF w that] by simp
    with that have "in_blks (a + m - 1) (p_free P)" by (force simp: in_blks_iff)
    with tile [of "a + m - 1"] show ?thesis by auto
  qed
  moreover have "ma_addr s \<le> ma_addr s + ma_size s"
    using F(4) blks_bytes_nonneg [OF w] F(3) F(2) sum_nonneg [of "dom (ma_addrs s)" "\<lambda>a. the (ma_addrs s a)"]
    by (fastforce simp: used_bytes_def used_ok_def)
  ultimately have "in_blks x (gaps (ma_addr s) (ma_addr s + ma_size s) (p_free P)) \<longleftrightarrow> in_used x (ma_addrs s)" for x
    using gaps_ok [OF w hi] tile [of x] dis [of x] F(1) by auto
  with dump_orphans_gaps [OF ok ne w [unfolded fr]] fr
  show "\<exists>out. dump_orphans s = Some out \<and> (\<forall>x. in_blks x out \<longleftrightarrow> in_used x (ma_addrs s))"
    by auto
qed

lemma ma_inv_all_free:
  assumes "ma_inv s" shows "is_all_free s \<longleftrightarrow> ma_addrs s = Map.empty"
proof -
  from assms obtain P where "alloc_rel s P" "pool_inv (ma_addr s) (ma_size s) P"
    by (auto simp: ma_inv_def)
  note F = pool_alloc_free_blocks [OF this]
  from F(4) have "is_all_free s \<longleftrightarrow> used_bytes (ma_addrs s) = 0" by (auto simp: is_all_free_def)
  with used_bytes_zero_iff [OF F(2)] show ?thesis by simp
qed

text \<open>An allocation shortens the largest block by at most what it takes.\<close>

lemma largest_chunk_free: "alloc_rel s P \<Longrightarrow> largest_chunk s = Some (max_size 0 (p_free P))"
  using largest_from_ok [of s _ None] by (auto simp: alloc_rel_def chain_ok_def largest_chunk_def)

lemma first_fit_left:
  "first_fit n fr = Some (a, fr') \<Longrightarrow> (b, m) \<in> set fr \<Longrightarrow> 0 < n \<Longrightarrow> m \<le> n \<or> (\<exists>(c, l) \<in> set fr'. m - n \<le> l)"
  by (induction n fr arbitrary: a fr' rule: first_fit.induct) (auto split: if_splits, force+)

lemma largest_chunk_left:
  assumes inv: "ma_inv s" and n: "0 < n" and al: "alloc_mem n True s = Some (s', Inr a)" and k: "largest_chunk s = Some k"
  shows "\<exists>k'. largest_chunk s' = Some k' \<and> k - align4 n \<le> k'"
proof -
  from inv obtain P where rel: "alloc_rel s P" and P: "pool_inv (ma_addr s) (ma_size s) P" by (auto simp: ma_inv_def)
  have n4: "0 < align4 n" "4 dvd align4 n" using n by (auto intro: align4_pos)
  have "pool_alloc (align4 n) P \<noteq> None" using alloc_mem_refines_None [OF rel, of n True] al by (intro notI) simp
  then obtain b P' where pa: "pool_alloc (align4 n) P = Some (b, P')" by fastforce
  have "4 dvd b" using pool_alloc_inv(4) [OF P n4 pa] .
  with alloc_mem_refines_Some [OF rel pa, of True] al have rel': "alloc_rel s' P'" by auto
  have ff: "first_fit (align4 n) (p_free P) = Some (b, p_free P')" using pa by (auto simp: pool_alloc_def split: option.splits)
  have "k - align4 n \<le> max_size 0 (p_free P')"
  proof -
    have "k \<le> max_size 0 (p_free P)" using largest_chunk_free [OF rel] k by simp
    then have "k \<le> 0 \<or> (\<exists>(c, m) \<in> set (p_free P). k \<le> m)" by (simp add: max_size_ge)
    then show ?thesis unfolding max_size_ge using first_fit_left [OF ff] n4(1) by fastforce
  qed
  with largest_chunk_free [OF rel'] show ?thesis by blast
qed

subsection \<open>The allocator interface\<close>

text \<open>What the clients of the allocator rely on: \<open>alloc\<close> and \<open>dealloc\<close> are the successful
  calls, \<open>live\<close> the table of allocations. Clients ask for positive sizes.\<close>

locale allocator =
  fixes alloc :: "int \<Rightarrow> 's \<Rightarrow> ('s \<times> int) option"
    and dealloc :: "int \<Rightarrow> int \<Rightarrow> 's \<Rightarrow> 's option"
    and live :: "'s \<Rightarrow> int \<rightharpoonup> int"
    and inv :: "'s \<Rightarrow> bool"
  assumes alloc_keeps: "inv s \<Longrightarrow> 0 < n \<Longrightarrow> alloc n s = Some (s', a) \<Longrightarrow>
      inv s' \<and> live s a = None \<and> live s' = (live s)(a \<mapsto> align4 n)"
    and alloc_disjoint: "inv s \<Longrightarrow> live s a = Some n \<Longrightarrow> live s b = Some m \<Longrightarrow> a \<noteq> b \<Longrightarrow>
      a + n \<le> b \<or> b + m \<le> a"
    and live_pos: "inv s \<Longrightarrow> live s a = Some n \<Longrightarrow> 0 < n \<and> 0 < a \<and> 4 dvd a \<and> align4 n = n"
    and dealloc_live: "inv s \<Longrightarrow> live s a = Some (align4 n) \<Longrightarrow>
      \<exists>s'. dealloc a n s = Some s' \<and> inv s' \<and> live s' = (live s)(a := None)"

text \<open>Allocating and releasing a list of blocks, as every client with several parts does.\<close>

fun alloc_all :: "(int \<Rightarrow> 's \<Rightarrow> ('s \<times> int) option) \<Rightarrow> int list \<Rightarrow> 's \<Rightarrow> ('s \<times> int list) option" where
  "alloc_all alloc [] s = Some (s, [])"
| "alloc_all alloc (n # ns) s =
     (case alloc n s of
        None \<Rightarrow> None
      | Some (s', a) \<Rightarrow> map_option (\<lambda>(s'', as). (s'', a # as)) (alloc_all alloc ns s'))"

fun free_all :: "(int \<Rightarrow> int \<Rightarrow> 's \<Rightarrow> 's option) \<Rightarrow> (int \<times> int) list \<Rightarrow> 's \<Rightarrow> 's option" where
  "free_all dealloc [] s = Some s"
| "free_all dealloc ((a, n) # r) s =
     (case dealloc a n s of None \<Rightarrow> None | Some s' \<Rightarrow> free_all dealloc r s')"

context allocator
begin

lemma alloc_all_ok:
  "inv s \<Longrightarrow> \<forall>n \<in> set ns. 0 < n \<Longrightarrow> alloc_all alloc ns s = Some (s', as) \<Longrightarrow>
     inv s' \<and> length as = length ns \<and> distinct as \<and> (\<forall>a \<in> set as. live s a = None) \<and>
     live s' = live s ++ map_of (zip as (map align4 ns))"
proof (induction ns arbitrary: s as)
  case (Cons n ns)
  from Cons.prems(3) obtain s1 a as' where a: "alloc n s = Some (s1, a)"
    and r: "alloc_all alloc ns s1 = Some (s', as')" "as = a # as'"
    by (auto split: option.splits)
  have k: "inv s1" "live s a = None" "live s1 = (live s)(a \<mapsto> align4 n)"
    using alloc_keeps [OF Cons.prems(1) _ a] Cons.prems(2) by auto
  have "\<forall>n \<in> set ns. 0 < n" using Cons.prems(2) by simp
  note ih = Cons.IH [OF k(1) this r(1)]
  have "\<forall>b \<in> set as'. b \<noteq> a \<and> live s b = None" using ih k(3) by (auto split: if_splits)
  moreover have "a \<notin> dom (map_of (zip as' (map align4 ns)))"
    using calculation by (auto dest!: map_of_SomeD set_zip_leftD)
  ultimately show ?case
    using ih k(2) r(2)
    by (auto simp add: k(3) fun_eq_iff map_add_def domIff split: option.splits)
qed auto

lemma free_all_ok:
  "inv s \<Longrightarrow> distinct (map fst bs) \<Longrightarrow> \<forall>(a, n) \<in> set bs. live s a = Some (align4 n) \<Longrightarrow>
     \<exists>s'. free_all dealloc bs s = Some s' \<and> inv s' \<and> live s' = live s |` (- fst ` set bs)"
proof (induction bs arbitrary: s)
  case Nil
  then show ?case by (simp add: restrict_map_def)
next
  case (Cons b bs)
  obtain a n where b: "b = (a, n)" by fastforce
  from Cons.prems b dealloc_live [of s a n] obtain s1 where s1: "dealloc a n s = Some s1" "inv s1"
    "live s1 = (live s)(a := None)" by auto
  have "\<forall>(c, m) \<in> set bs. live s1 c = Some (align4 m)"
    using Cons.prems(2,3) b s1(3) by (auto simp: rev_image_eqI)
  with Cons.IH [OF s1(2)] Cons.prems(2) obtain s' where
    "free_all dealloc bs s1 = Some s'" "inv s'" "live s' = live s1 |` (- fst ` set bs)" by auto
  with s1 b show ?case by (auto simp: restrict_map_def fun_eq_iff)
qed

lemma alloc_free_all:
  assumes "inv s" "\<forall>n \<in> set ns. 0 < n" "alloc_all alloc ns s = Some (s', as)"
  shows "\<exists>s''. free_all dealloc (zip as ns) s' = Some s'' \<and> inv s'' \<and> live s'' = live s"
proof -
  note k = alloc_all_ok [OF assms]
  then have m: "map fst (zip as ns) = as" by simp
  then have f: "fst ` set (zip as ns) = set as" by (metis list.set_map)
  have zm: "zip as (map align4 ns) = map (\<lambda>(a, n). (a, align4 n)) (zip as ns)"
    by (simp add: zip_map2)
  have "\<forall>(a, n) \<in> set (zip as ns). live s' a = Some (align4 n)"
  proof (clarify)
    fix a n assume an: "(a, n) \<in> set (zip as ns)"
    then have "(a, align4 n) \<in> set (zip as (map align4 ns))" unfolding zm by force
    with k show "live s' a = Some (align4 n)" by (auto simp: map_add_def)
  qed
  with k m free_all_ok [of s' "zip as ns"] obtain s'' where
    s'': "free_all dealloc (zip as ns) s' = Some s''" "inv s''" "live s'' = live s' |` (- set as)"
    unfolding f by auto
  have "live s'' = live s"
  proof
    fix x
    have n: "map_of (zip as (map align4 ns)) x = None" if "x \<notin> set as"
      using that by (meson map_of_SomeD not_None_eq set_zip_leftD)
    have "live s' x = live s x" if "x \<notin> set as"
      using n [OF that] conjunct2 [OF conjunct2 [OF conjunct2 [OF conjunct2 [OF k]]]]
      by (simp only: map_add_def option.case)
    with k s''(3) show "live s'' x = live s x"
      by (cases "x \<in> set as") (simp_all add: restrict_map_def)
  qed
  with s'' show ?thesis by blast
qed

end

text \<open>The model of \<open>MemoryAlloc\<close> provides it.\<close>

definition ma_alloc :: "int \<Rightarrow> mem_alloc \<Rightarrow> (mem_alloc \<times> int) option" where
  "ma_alloc n s = (case alloc_mem n True s of Some (s', Inr a) \<Rightarrow> Some (s', a) | _ \<Rightarrow> None)"

definition ma_dealloc :: "int \<Rightarrow> int \<Rightarrow> mem_alloc \<Rightarrow> mem_alloc option" where
  "ma_dealloc a n s = (case free_mem a n s of Some (s', Inr _) \<Rightarrow> Some s' | _ \<Rightarrow> None)"

lemma ma_inv_live:
  assumes "ma_inv s" "ma_addrs s a = Some n"
  shows "0 < n" "0 < a" "4 dvd a" "4 dvd n"
proof -
  from assms(1) obtain P where P: "alloc_rel s P" "pool_inv (ma_addr s) (ma_size s) P"
    and pos: "0 < ma_addr s" by (auto simp: ma_inv_def)
  note F = pool_alloc_free_blocks [OF P]
  show n: "0 < n" "4 dvd a" "4 dvd n" using F(2) assms(2) by (auto simp: used_ok_def)
  have "in_used a (ma_addrs s)" using assms(2) n unfolding in_used_def by (intro exI [of _ a] exI [of _ n]) auto
  with P(2) F(1) have "ma_addr s \<le> a" by (auto simp: pool_inv_def)
  with pos show "0 < a" by simp
qed

lemma ma_inv_disjoint:
  assumes "ma_inv s" "ma_addrs s a = Some n" "ma_addrs s b = Some m" "a \<noteq> b"
  shows "a + n \<le> b \<or> b + m \<le> a"
proof (rule ccontr)
  assume c: "\<not> ?thesis"
  from assms(1) obtain P where P: "alloc_rel s P" "pool_inv (ma_addr s) (ma_size s) P"
    by (auto simp: ma_inv_def)
  have "used_ok (ma_addrs s)" using pool_alloc_free_blocks [OF P] by simp
  moreover have "0 < n" "0 < m" using ma_inv_live assms by blast+
  then have "a \<le> max a b" "max a b < a + n" "b \<le> max a b" "max a b < b + m" using c by auto
  ultimately show False using assms(2-4) unfolding used_ok_def by blast
qed

interpretation mem: allocator ma_alloc ma_dealloc ma_addrs ma_inv
proof
  fix s n s' a assume "ma_inv s" "0 < n" "ma_alloc n s = Some (s', a)"
  then show "ma_inv s' \<and> ma_addrs s a = None \<and> ma_addrs s' = (ma_addrs s)(a \<mapsto> align4 n)"
    using alloc_mem_cases [of s n True]
    by (auto simp: ma_alloc_def alloc_post_def split: option.splits sum.splits if_splits)
next
  fix s a n b m assume "ma_inv s" "ma_addrs s a = Some n" "ma_addrs s b = Some m" "a \<noteq> b"
  then show "a + n \<le> b \<or> b + m \<le> a" by (rule ma_inv_disjoint)
next
  fix s a n assume "ma_inv s" "ma_addrs s a = Some n"
  then show "0 < n \<and> 0 < a \<and> 4 dvd a \<and> align4 n = n" using ma_inv_live align4_id by blast
next
  fix s a n assume "ma_inv s" "ma_addrs s a = Some (align4 n)"
  then show "\<exists>s'. ma_dealloc a n s = Some s' \<and> ma_inv s' \<and> ma_addrs s' = (ma_addrs s)(a := None)"
    using free_mem_cases [of s a n] by (auto simp: ma_dealloc_def)
qed

subsection \<open>Properties\<close>

text \<open>A small pool to evaluate on: 64 bytes from address 1024, the memory full of sevens.\<close>

definition demo_pool :: mem_alloc where
  "demo_pool = memory_alloc_init 0 (\<lambda>_. 7) 1024 64"

lemma demo_reach: "ma_reach demo_pool"
  by (rule ma_reach_init [of _ 0 "\<lambda>_. 7" 1024 64])
    (simp_all add: demo_pool_def memory_alloc_init_def memory_chunk_def Let_def)

lemma alloc_mem_fits:
  assumes inv: "ma_inv s" and n: "0 < n"
  shows "\<exists>s' r k. alloc_mem n ex s = Some (s', r) \<and> alloc_post s n ex s' r \<and>
           largest_chunk s = Some k \<and> (align4 n \<le> k \<longleftrightarrow> (\<exists>a. a \<noteq> 0 \<and> r = Inr a))"
proof -
  obtain s' r where a: "alloc_mem n ex s = Some (s', r)" "alloc_post s n ex s' r"
    using alloc_mem_cases [OF inv assms(2)] by blast
  obtain k where k: "largest_chunk s = Some k"
    "align4 n \<le> k \<longleftrightarrow> (\<exists>s' a. alloc_mem n True s = Some (s', Inr a))"
    using ma_inv_walks(2) [OF inv] assms(2) by blast
  have "(\<exists>s' a. alloc_mem n True s = Some (s', Inr a)) \<longleftrightarrow> (\<exists>a. a \<noteq> 0 \<and> r = Inr a)"
  proof (cases ex)
    case True
    with a show ?thesis by (auto simp: alloc_post_def split: sum.splits if_splits)
  next
    case False
    have "alloc_mem n True s = (case find_best_chunk s (align4 n) (free_first s) of
        Some (None, _) \<Rightarrow> Some (s, Inl VamosInternalError) | _ \<Rightarrow> alloc_mem n False s)"
      by (auto simp: alloc_mem_def Let_def split: option.splits prod.splits)
    with a False alloc_mem_cases [OF inv assms(2), of True] show ?thesis
      by (auto simp: alloc_mem_def Let_def alloc_post_def split: option.splits sum.splits if_splits)
  qed
  with a k show ?thesis by blast
qed

text \<open>C4: on a pool that is not empty and starts at a long aligned address, whatever sequence of
  \<open>alloc_mem\<close> calls for at least one byte and \<open>free_mem\<close> calls is made, failing calls included, the free list stays a doubly linked list, its blocks are sorted, coalesced and
  long aligned, free blocks and allocations tile the pool without overlap, and the byte
  counter agrees.\<close>

theorem allocator_invariant:
  assumes "ma_reach s"
  shows "\<exists>P ids. chain_ok s ids \<and> p_free P = map (blk_of s) ids \<and> p_used P = ma_addrs s \<and>
           free_bytes s = blks_bytes (p_free P) \<and> pool_inv (ma_addr s) (ma_size s) P"
  using ma_reach_inv [OF assms] unfolding ma_inv_def alloc_rel_def by blast

theorem allocator_invariant_witness:
  "\<exists>P ids. chain_ok demo_pool ids \<and> p_free P = map (blk_of demo_pool) ids \<and>
     p_used P = ma_addrs demo_pool \<and> free_bytes demo_pool = blks_bytes (p_free P) \<and>
     pool_inv (ma_addr demo_pool) (ma_size demo_pool) P"
  by (rule allocator_invariant [OF demo_reach])

text \<open>C9: in every state reached by calls as in C4 an allocation returns. A request of at least one byte takes a fresh
  long-aligned range inside the pool that overlaps no live allocation, records it and zeroes it, or fails with the error (or
  address 0) and leaves the state as it was; it fails exactly when the request, rounded up, exceeds
  \<open>largest_chunk()\<close>. A request of no bytes records an empty allocation at the start of the
  first free block and takes nothing, so that the next request that fits there gets the same address.\<close>

theorem alloc_mem_correct:
  assumes "ma_reach s" and "0 \<le> n"
  shows "\<exists>s' r. alloc_mem n ex s = Some (s', r) \<and>
           (if n = 0 then alloc_zero_post s ex s' r
            else alloc_post s n ex s' r \<and>
              (\<exists>k. largest_chunk s = Some k \<and> (align4 n \<le> k \<longleftrightarrow> (\<exists>a. a \<noteq> 0 \<and> r = Inr a))))"
proof (cases "n = 0")
  case True
  then show ?thesis using alloc_mem_zero [OF ma_reach_inv [OF assms(1)]] by simp
next
  case False
  with assms(2) have "0 < n" by simp
  from alloc_mem_fits [OF ma_reach_inv [OF assms(1)] this] False show ?thesis by auto
qed

theorem alloc_mem_correct_witness:
  "(\<exists>s' r. alloc_mem 10 True demo_pool = Some (s', r) \<and> alloc_post demo_pool 10 True s' r) \<and>
   (\<exists>s' r. alloc_mem 0 True demo_pool = Some (s', r) \<and> alloc_zero_post demo_pool True s' r)"
  using alloc_mem_correct [OF demo_reach, of 10 True] alloc_mem_correct [OF demo_reach, of 0 True] by auto

text \<open>C19: \<open>free_mem\<close> rejects an address that is not allocated, or a size that does not match
  the allocation, without changing anything; otherwise it releases exactly that allocation
  and the bytes are available again.\<close>

theorem free_mem_correct:
  assumes "ma_reach s"
  shows "(case ma_addrs s a of
            None \<Rightarrow> free_mem a n s = Some (s, Inl VamosInternalError)
          | Some r \<Rightarrow>
              if align4 n \<noteq> r then free_mem a n s = Some (s, Inl AssertionError)
              else \<exists>s'. free_mem a n s = Some (s', Inr ()) \<and>
                     ma_addrs s' = (ma_addrs s)(a := None) \<and> free_bytes s' = free_bytes s + r \<and>
                     available s' = Some (free_bytes s + r) \<and> ma_mem s' = ma_mem s)"
  using free_mem_cases [OF ma_reach_inv [OF assms], of a n] ma_inv_walks(1)
  by (auto split: option.splits)

theorem free_mem_correct_witness:
  "free_mem 1028 4 demo_pool = Some (demo_pool, Inl VamosInternalError)"
  using free_mem_correct [OF demo_reach, of 1028 4]
  by (simp add: demo_pool_def memory_alloc_init_def memory_chunk_def Let_def)

text \<open>C20: freeing an allocation of at least one byte right after it was made gives the pool back as it was: the same free blocks
  in the same order and the same allocations, so no sequence of such pairs fragments it.\<close>

theorem alloc_free_restores:
  assumes "ma_reach s" and "0 < n" and "alloc_mem n ex s = Some (s', Inr a)" and "a \<noteq> 0"
  shows "\<exists>s'' P. free_mem a n s' = Some (s'', Inr ()) \<and> alloc_rel s P \<and> alloc_rel s'' P \<and>
           pool_inv (ma_addr s) (ma_size s) P"
proof -
  note inv = ma_reach_inv [OF assms(1)]
  from inv obtain P where P: "alloc_rel s P" "pool_inv (ma_addr s) (ma_size s) P"
    by (auto simp: ma_inv_def)
  have n4: "0 < align4 n" "4 dvd align4 n" using assms(2) by (auto intro: align4_pos)
  have po: "alloc_post s n ex s' (Inr a)" and inv': "ma_inv s'"
    using alloc_mem_cases [OF inv assms(2), of ex] assms(3) by auto
  obtain b P' where al: "pool_alloc (align4 n) P = Some (b, P')"
    using alloc_mem_refines_None [OF P(1), of n ex] assms(3,4)
    by (cases "pool_alloc (align4 n) P") (auto split: if_splits)
  with alloc_mem_refines_Some [OF P(1) al, of ex] assms(3) have
    r: "b = a" "alloc_rel s' P'" "ma_addr s' = ma_addr s" "ma_size s' = ma_size s"
    by (auto split: if_splits)
  note undo = pool_alloc_free [OF P(2) n4 al] and P' = pool_alloc_inv(1) [OF P(2) n4 al]
  have "ma_addrs s' a = Some (align4 n)" using po assms(4) by (auto simp: alloc_post_def)
  with free_mem_cases [OF inv', of a n] r P' undo obtain s'' where
    "free_mem a n s' = Some (s'', Inr ())" "alloc_rel s'' P" by auto
  with P show ?thesis by blast
qed

lemma demo_alloc: "\<exists>s'. alloc_mem 10 True demo_pool = Some (s', Inr 1024)"
proof -
  have "alloc_rel demo_pool (pool_init 1024 64)"
    using memory_alloc_init_rel [of 0 "\<lambda>_. 7" 1024 64]
    by (simp add: demo_pool_def memory_alloc_init_def memory_chunk_def Let_def)
  moreover have "pool_alloc (align4 10) (pool_init 1024 64) =
      Some (1024, \<lparr>p_free = [(1036, 52)], p_used = [1024 \<mapsto> 12]\<rparr>)"
    by (simp add: pool_alloc_def pool_init_def align4_eq)
  ultimately show ?thesis using alloc_mem_refines_Some [of demo_pool _ 10 1024 _ True] by auto
qed

theorem alloc_free_restores_witness:
  "\<exists>s' s'' P. alloc_mem 10 True demo_pool = Some (s', Inr 1024) \<and>
     free_mem 1024 10 s' = Some (s'', Inr ()) \<and> alloc_rel demo_pool P \<and> alloc_rel s'' P"
proof -
  obtain s' where a: "alloc_mem 10 True demo_pool = Some (s', Inr 1024)" using demo_alloc by blast
  from alloc_free_restores [OF demo_reach _ a] a show ?thesis by auto
qed

text \<open>The reports agree with the allocations: \<open>available()\<close> is the free byte counter,
  \<open>is_all_free\<close> holds exactly when nothing is allocated, and the orphans that \<open>dump_orphans\<close>
  lists cover exactly the allocated addresses (unless the free list is empty, when it lists
  nothing).\<close>

theorem allocator_reports:
  assumes "ma_reach s"
  shows "available s = Some (free_bytes s) \<and> (is_all_free s \<longleftrightarrow> ma_addrs s = Map.empty) \<and>
     (\<exists>out. dump_orphans s = Some out \<and>
        (if free_first s = None then out = []
         else \<forall>x. in_blks x out \<longleftrightarrow> in_used x (ma_addrs s)))"
proof (cases "free_first s")
  case None
  with ma_inv_walks(1) ma_inv_all_free ma_reach_inv [OF assms] show ?thesis
    by (auto simp: dump_orphans_def)
next
  case (Some c)
  note inv = ma_reach_inv [OF assms]
  from Some ma_inv_walks(1,3) [OF inv] ma_inv_all_free [OF inv] show ?thesis by auto
qed

theorem allocator_reports_witness: "available demo_pool = Some 64 \<and> is_all_free demo_pool"
  using allocator_reports [OF demo_reach]
  by (simp add: demo_pool_def memory_alloc_init_def memory_chunk_def Let_def)

end
