(* ===== verification/Py_Bytes.thy ===== *)
theory Py_Bytes
  imports Ami_Prelude
begin

text \<open>
  Python's byte sequences as the modelled code uses them: indexing and slicing with negative
  indices, assignment to a slice (which may change the length), big endian integers of any
  width as \<open>struct.pack\<close>/\<open>struct.unpack\<close> with the format codes \<open>B H I Q\<close> and \<open>b h i\<close> handle
  them, and the Latin-1 codec. Python integers are \<open>int\<close>, and a value that does not fit its
  field is a \<open>struct.error\<close>.
\<close>

named_theorems py_simps

subsection \<open>Indexing and slicing\<close>

definition slice_idx :: "nat \<Rightarrow> int \<Rightarrow> nat" where
  "slice_idx n i = nat (if i < 0 then max 0 (int n + i) else min (int n) i)"

definition py_slice :: "'a list \<Rightarrow> int \<Rightarrow> int \<Rightarrow> 'a list" where
  "py_slice xs a b =
     (let i = slice_idx (length xs) a; j = slice_idx (length xs) b in take (j - i) (drop i xs))"

definition py_slice_set :: "'a list \<Rightarrow> int \<Rightarrow> int \<Rightarrow> 'a list \<Rightarrow> 'a list" where
  "py_slice_set xs a b ys =
     (let i = slice_idx (length xs) a; j = slice_idx (length xs) b
      in take i xs @ ys @ drop (max i j) xs)"

definition py_get :: "'a list \<Rightarrow> int \<Rightarrow> 'a res" where
  "py_get xs i =
     (let n = int (length xs); k = (if i < 0 then n + i else i)
      in if 0 \<le> k \<and> k < n then Inr (xs ! nat k) else Inl IndexError)"

definition py_set :: "'a list \<Rightarrow> int \<Rightarrow> 'a \<Rightarrow> 'a list res" where
  "py_set xs i v =
     (let n = int (length xs); k = (if i < 0 then n + i else i)
      in if 0 \<le> k \<and> k < n then Inr (xs[nat k := v]) else Inl IndexError)"

lemma slice_idx_in [py_simps]: "0 \<le> i \<Longrightarrow> i \<le> int n \<Longrightarrow> slice_idx n i = nat i"
  by (simp add: slice_idx_def)

lemma py_slice_in [py_simps]:
  "0 \<le> a \<Longrightarrow> a \<le> b \<Longrightarrow> b \<le> int (length xs) \<Longrightarrow> py_slice xs a b = take (nat (b - a)) (drop (nat a) xs)"
  by (simp add: py_slice_def slice_idx_in nat_diff_distrib' Let_def)

lemma py_slice_set_in [py_simps]:
  "0 \<le> a \<Longrightarrow> a \<le> b \<Longrightarrow> b \<le> int (length xs) \<Longrightarrow>
     py_slice_set xs a b ys = take (nat a) xs @ ys @ drop (nat b) xs"
  by (simp add: py_slice_set_def slice_idx_in max_absorb2 nat_mono)

lemma length_py_slice_set:
  "0 \<le> a \<Longrightarrow> b = a + int (length ys) \<Longrightarrow> b \<le> int (length xs) \<Longrightarrow>
     length (py_slice_set xs a b ys) = length xs"
  by (simp add: py_slice_set_in)

lemma py_slice_set_get:
  "0 \<le> a \<Longrightarrow> b = a + int (length ys) \<Longrightarrow> b \<le> int (length xs) \<Longrightarrow>
     py_slice (py_slice_set xs a b ys) a b = ys"
  by (simp add: py_slice_set_in py_slice_def slice_idx_in nat_add_distrib)

lemma nth_py_slice_set:
  assumes "0 \<le> a" "b = a + int (length ys)" "b \<le> int (length xs)" "k < length xs"
  shows "py_slice_set xs a b ys ! k =
           (if a \<le> int k \<and> int k < b then ys ! nat (int k - a) else xs ! k)"
  using assms by (auto simp: py_slice_set_in nth_append nat_diff_distrib' nat_add_distrib)

lemma py_get_in [py_simps]: "0 \<le> i \<Longrightarrow> i < int (length xs) \<Longrightarrow> py_get xs i = Inr (xs ! nat i)"
  by (simp add: py_get_def)

lemma py_set_in [py_simps]: "0 \<le> i \<Longrightarrow> i < int (length xs) \<Longrightarrow> py_set xs i v = Inr (xs[nat i := v])"
  by (simp add: py_set_def)

subsection \<open>Big endian integers\<close>

fun be_bytes :: "nat \<Rightarrow> int \<Rightarrow> byte list" where
  "be_bytes 0 v = []"
| "be_bytes (Suc n) v = be_bytes n (v div 256) @ [word_of_int v]"

definition be_int :: "byte list \<Rightarrow> int" where
  "be_int bs = foldl (\<lambda>a b. a * 256 + uint b) 0 bs"

definition be_sint :: "byte list \<Rightarrow> int" where
  "be_sint bs = (let v = be_int bs; m = 256 ^ length bs in if 2 * v < m then v else v - m)"

lemma length_be_bytes [simp]: "length (be_bytes n v) = n"
  by (induction n arbitrary: v) auto

lemma be_int_snoc [simp]: "be_int (bs @ [b]) = be_int bs * 256 + uint b"
  by (simp add: be_int_def)

lemma be_int_Nil [simp]: "be_int [] = 0"
  by (simp add: be_int_def)

lemma uint_byte_bound: "0 \<le> uint (b :: byte)" "uint (b :: byte) < 256"
  using uint_bounded [of b] by simp_all

lemma be_int_bounds: "0 \<le> be_int bs \<and> be_int bs < 256 ^ length bs"
proof (induction bs rule: rev_induct)
  case (snoc b bs)
  with uint_byte_bound [of b] show ?case by simp
qed simp

lemma be_int_be_bytes [simp]: "be_int (be_bytes n v) = v mod 256 ^ n"
proof (induction n arbitrary: v)
  case (Suc n)
  have "v mod (256 * 256 ^ n) = 256 * (v div 256 mod 256 ^ n) + v mod 256"
    by (rule zmod_zmult2_eq) simp
  with Suc show ?case by (simp add: uint_word_of_int)
qed simp

lemma be_bytes_be_int [simp]: "n = length bs \<Longrightarrow> be_bytes n (be_int bs) = bs"
proof (induction bs arbitrary: n rule: rev_induct)
  case (snoc b bs)
  have "(be_int bs * 256 + uint b) div 256 = be_int bs"
    using uint_byte_bound [of b] by simp
  moreover have "(word_of_int (be_int bs * 256 + uint b) :: byte) = b"
  proof -
    have "(word_of_int (be_int bs * 256) :: byte) = 0"
      by transfer (simp add: take_bit_eq_mod)
    then show ?thesis by simp
  qed
  ultimately show ?case using snoc by simp
qed simp

lemma be_int_mod_id: "0 \<le> v \<Longrightarrow> v < 256 ^ n \<Longrightarrow> be_int (be_bytes n v) = v"
  by simp

lemma be_bytes_inj:
  "be_bytes n v = be_bytes n w \<Longrightarrow> 0 \<le> v \<Longrightarrow> v < 256 ^ n \<Longrightarrow> 0 \<le> w \<Longrightarrow> w < 256 ^ n \<Longrightarrow> v = w"
  by (metis be_int_mod_id)

text \<open>\<open>struct.pack\<close> of one unsigned or signed field of \<open>n\<close> bytes.\<close>

definition pack_u :: "nat \<Rightarrow> int \<Rightarrow> byte list res" where
  "pack_u n v = (if 0 \<le> v \<and> v < 256 ^ n then Inr (be_bytes n v) else Inl StructError)"

definition pack_s :: "nat \<Rightarrow> int \<Rightarrow> byte list res" where
  "pack_s n v = (if - (256 ^ n) \<le> 2 * v \<and> 2 * v < 256 ^ n then Inr (be_bytes n v) else Inl StructError)"

lemma pack_u_ok [py_simps]: "0 \<le> v \<Longrightarrow> v < 256 ^ n \<Longrightarrow> pack_u n v = Inr (be_bytes n v)"
  by (simp add: pack_u_def)

lemma be_sint_be_bytes:
  "- (256 ^ n) \<le> 2 * v \<Longrightarrow> 2 * v < 256 ^ n \<Longrightarrow> be_sint (be_bytes n v) = v"
proof -
  assume v: "- (256 ^ n) \<le> 2 * v" "2 * v < 256 ^ n"
  show ?thesis
  proof (cases "0 \<le> v")
    case True
    with v show ?thesis by (simp add: be_sint_def)
  next
    case False
    then have "v mod 256 ^ n = v + 256 ^ n"
      using v mod_pos_pos_trivial [of "v + 256 ^ n" "256 ^ n"] by simp
    with v False show ?thesis by (simp add: be_sint_def)
  qed
qed

text \<open>\<open>struct.unpack_from\<close>/\<open>pack_into\<close>: the offset may be negative, counted from the end.\<close>

definition buf_offset :: "nat \<Rightarrow> nat \<Rightarrow> int \<Rightarrow> nat res" where
  "buf_offset len w off =
     (if off < 0 then
        if off + int w > 0 \<or> int len + off < 0 then Inl StructError else Inr (nat (int len + off))
      else if int len - off < int w then Inl StructError else Inr (nat off))"

definition unpack_from :: "nat \<Rightarrow> byte list \<Rightarrow> int \<Rightarrow> byte list res" where
  "unpack_from w xs off = rbind (buf_offset (length xs) w off) (\<lambda>o'. Inr (take w (drop o' xs)))"

definition pack_into :: "byte list \<Rightarrow> int \<Rightarrow> byte list \<Rightarrow> byte list res" where
  "pack_into xs off ys =
     rbind (buf_offset (length xs) (length ys) off)
       (\<lambda>o'. Inr (take o' xs @ ys @ drop (o' + length ys) xs))"

lemma buf_offset_in [py_simps]: "0 \<le> off \<Longrightarrow> off + int w \<le> int len \<Longrightarrow> buf_offset len w off = Inr (nat off)"
  by (simp add: buf_offset_def)

subsection \<open>Latin-1\<close>

definition latin1_enc :: "string \<Rightarrow> byte list" where
  "latin1_enc s = map (\<lambda>c. word_of_nat (of_char c)) s"

definition latin1_dec :: "byte list \<Rightarrow> string" where
  "latin1_dec bs = map (\<lambda>b. char_of (unat b)) bs"

lemma latin1_char [simp]: "char_of (unat (word_of_nat (of_char c) :: byte)) = c"
proof -
  have "(of_char c :: nat) < 256" by simp
  then have "unat (word_of_nat (of_char c) :: byte) = of_char c"
    by (simp add: unat_of_nat)
  then show ?thesis by simp
qed

lemma latin1_byte [simp]: "word_of_nat (of_char (char_of (unat b) :: char)) = (b :: byte)"
proof -
  have "unat b < 256" using unsigned_less [of b, where ?'a = nat] by simp
  then show ?thesis by simp
qed

lemma latin1_dec_enc [simp]: "latin1_dec (latin1_enc s) = s"
  unfolding latin1_dec_def latin1_enc_def map_map o_def latin1_char by simp

lemma latin1_enc_dec [simp]: "latin1_enc (latin1_dec bs) = bs"
  unfolding latin1_dec_def latin1_enc_def map_map o_def latin1_byte by simp

lemma length_latin1_enc [simp]: "length (latin1_enc s) = length s"
  by (simp add: latin1_enc_def)

lemma length_latin1_dec [simp]: "length (latin1_dec bs) = length bs"
  by (simp add: latin1_dec_def)

lemma latin1_enc_no_zero: "CHR 0x00 \<notin> set s \<Longrightarrow> 0 \<notin> set (latin1_enc s)"
proof
  assume n: "CHR 0x00 \<notin> set s" and "0 \<in> set (latin1_enc s)"
  then obtain c where c: "c \<in> set s" "(word_of_nat (of_char c) :: byte) = 0"
    by (auto simp: latin1_enc_def)
  then have "c = char_of (0 :: nat)" using latin1_char [of c] by simp
  also have "\<dots> = CHR 0x00" by (simp add: char_of_def)
  finally show False using n c(1) by simp
qed

end
