(* ===== verification/Memory.thy ===== *)
theory Memory
  imports Py_Bytes
begin

text \<open>
  The machine's memory. The first part is the view the other components have of it: a byte
  for every address, with big endian access of any width. The second part is the memory
  implementation of the repository, class \<open>MockMemory\<close> of
  \<open>amitools/vamos/machine/mock/mem.py\<close>, on a Python \<open>bytearray\<close> with all its checks, and the
  lemmas that it implements the view for every access that stays inside.
\<close>

type_synonym mem = "int \<Rightarrow> byte"

definition rd_block :: "mem \<Rightarrow> int \<Rightarrow> nat \<Rightarrow> byte list" where
  "rd_block m a n = map (\<lambda>i. m (a + int i)) [0..<n]"

definition wr_block :: "mem \<Rightarrow> int \<Rightarrow> byte list \<Rightarrow> mem" where
  "wr_block m a bs = (\<lambda>x. if a \<le> x \<and> x < a + int (length bs) then bs ! nat (x - a) else m x)"

definition rd :: "nat \<Rightarrow> mem \<Rightarrow> int \<Rightarrow> int" where
  "rd n m a = be_int (rd_block m a n)"

definition wr :: "nat \<Rightarrow> mem \<Rightarrow> int \<Rightarrow> int \<Rightarrow> mem" where
  "wr n m a v = wr_block m a (be_bytes n v)"

abbreviation rd32 :: "mem \<Rightarrow> int \<Rightarrow> int" where "rd32 \<equiv> rd 4"
abbreviation wr32 :: "mem \<Rightarrow> int \<Rightarrow> int \<Rightarrow> mem" where "wr32 \<equiv> wr 4"
abbreviation rd16 :: "mem \<Rightarrow> int \<Rightarrow> int" where "rd16 \<equiv> rd 2"
abbreviation wr16 :: "mem \<Rightarrow> int \<Rightarrow> int \<Rightarrow> mem" where "wr16 \<equiv> wr 2"
abbreviation rd8 :: "mem \<Rightarrow> int \<Rightarrow> int" where "rd8 \<equiv> rd 1"
abbreviation wr8 :: "mem \<Rightarrow> int \<Rightarrow> int \<Rightarrow> mem" where "wr8 \<equiv> wr 1"

lemma length_rd_block [simp]: "length (rd_block m a n) = n"
  by (simp add: rd_block_def)

lemma rd_block_wr_same [simp]: "n = length bs \<Longrightarrow> rd_block (wr_block m a bs) a n = bs"
  by (auto simp: rd_block_def wr_block_def intro: nth_equalityI)

lemma rd_block_wr_other:
  "b + int n \<le> a \<or> a + int (length bs) \<le> b \<Longrightarrow> rd_block (wr_block m a bs) b n = rd_block m b n"
  by (auto simp: rd_block_def wr_block_def)

lemma rd_bounds: "0 \<le> rd n m a \<and> rd n m a < 256 ^ n"
  unfolding rd_def using be_int_bounds [of "rd_block m a n"] by simp

lemma rd_wr_same [simp]: "0 \<le> v \<Longrightarrow> v < 256 ^ n \<Longrightarrow> rd n (wr n m a v) a = v"
  by (simp add: rd_def wr_def)

lemma rd_wr_other: "b + int k \<le> a \<or> a + int n \<le> b \<Longrightarrow> rd k (wr n m a v) b = rd k m b"
  unfolding rd_def wr_def by (subst rd_block_wr_other) auto

lemma rd32_wr32:
  assumes "4 dvd a" "4 dvd b" "0 \<le> v" "v < 2 ^ 32"
  shows "rd32 (wr32 m a v) b = (if a = b then v else rd32 m b)"
proof (cases "a = b")
  case False
  with assms(1,2) have "b + 4 \<le> a \<or> a + 4 \<le> b" by (auto elim!: dvdE)
  with False show ?thesis by (simp add: rd_wr_other)
qed (use assms in simp)

lemma wr_wr_same: "wr n (wr n m a v) a w = wr n m a w"
  by (auto simp: wr_def wr_block_def)

lemma wr_rd_same [simp]: "wr n m a (rd n m a) = m"
  by (rule ext) (auto simp: wr_def rd_def wr_block_def rd_block_def)

subsection \<open>MockMemory\<close>

record mock_mem =
  size_kib :: int
  size_bytes :: int
  mm_data :: "byte list"
  read_only :: bool
  base_addr :: int

definition mock_init :: "nat \<Rightarrow> byte \<Rightarrow> byte list \<Rightarrow> bool \<Rightarrow> int \<Rightarrow> mock_mem" where
  "mock_init kib fill data ro base =
     (let sz = kib * 1024;
          d0 = replicate sz (0 :: byte);
          d1 = (if fill \<noteq> 0 then replicate sz fill else d0);
          d2 = (if data \<noteq> [] then data else d1)
      in \<lparr>size_kib = int kib, size_bytes = int sz, mm_data = d2, read_only = ro, base_addr = base\<rparr>)"

definition in_mem_addr :: "mock_mem \<Rightarrow> int \<Rightarrow> bool" where
  "in_mem_addr mm addr = (let a = addr - base_addr mm in a \<ge> 0 \<and> a \<le> size_bytes mm)"

definition mm_r8 :: "mock_mem \<Rightarrow> int \<Rightarrow> int res" where
  "mm_r8 mm addr = rbind (py_get (mm_data mm) (addr - base_addr mm)) (\<lambda>b. Inr (uint b))"

definition mm_unpack :: "nat \<Rightarrow> mock_mem \<Rightarrow> int \<Rightarrow> int res" where
  "mm_unpack n mm addr =
     rbind (unpack_from n (mm_data mm) (addr - base_addr mm)) (\<lambda>bs. Inr (be_int bs))"

definition mm_unpack_s :: "nat \<Rightarrow> mock_mem \<Rightarrow> int \<Rightarrow> int res" where
  "mm_unpack_s n mm addr =
     rbind (unpack_from n (mm_data mm) (addr - base_addr mm)) (\<lambda>bs. Inr (be_sint bs))"

definition mm_r16 :: "mock_mem \<Rightarrow> int \<Rightarrow> int res" where "mm_r16 = mm_unpack 2"
definition mm_r32 :: "mock_mem \<Rightarrow> int \<Rightarrow> int res" where "mm_r32 = mm_unpack 4"
definition mm_r8s :: "mock_mem \<Rightarrow> int \<Rightarrow> int res" where "mm_r8s = mm_unpack_s 1"
definition mm_r16s :: "mock_mem \<Rightarrow> int \<Rightarrow> int res" where "mm_r16s = mm_unpack_s 2"
definition mm_r32s :: "mock_mem \<Rightarrow> int \<Rightarrow> int res" where "mm_r32s = mm_unpack_s 4"

text \<open>A write to a read-only memory raises \<open>ValueError\<close> before anything else.\<close>

definition mm_writing :: "mock_mem \<Rightarrow> byte list res \<Rightarrow> mock_mem res" where
  "mm_writing mm d =
     (if read_only mm then Inl ValueError else rbind d (\<lambda>d'. Inr (mm\<lparr>mm_data := d'\<rparr>)))"

definition mm_w8 :: "mock_mem \<Rightarrow> int \<Rightarrow> int \<Rightarrow> mock_mem res" where
  "mm_w8 mm addr v = mm_writing mm
     (if v < 0 \<or> 256 \<le> v then Inl ValueError
      else py_set (mm_data mm) (addr - base_addr mm) (word_of_int v))"

definition mm_pack :: "nat \<Rightarrow> mock_mem \<Rightarrow> int \<Rightarrow> int \<Rightarrow> mock_mem res" where
  "mm_pack n mm addr v = mm_writing mm
     (rbind (pack_u n v) (pack_into (mm_data mm) (addr - base_addr mm)))"

definition mm_pack_s :: "nat \<Rightarrow> mock_mem \<Rightarrow> int \<Rightarrow> int \<Rightarrow> mock_mem res" where
  "mm_pack_s n mm addr v = mm_writing mm
     (rbind (pack_s n v) (pack_into (mm_data mm) (addr - base_addr mm)))"

definition mm_w16 :: "mock_mem \<Rightarrow> int \<Rightarrow> int \<Rightarrow> mock_mem res" where "mm_w16 = mm_pack 2"
definition mm_w32 :: "mock_mem \<Rightarrow> int \<Rightarrow> int \<Rightarrow> mock_mem res" where "mm_w32 = mm_pack 4"
definition mm_w8s :: "mock_mem \<Rightarrow> int \<Rightarrow> int \<Rightarrow> mock_mem res" where "mm_w8s = mm_pack_s 1"
definition mm_w16s :: "mock_mem \<Rightarrow> int \<Rightarrow> int \<Rightarrow> mock_mem res" where "mm_w16s = mm_pack_s 2"
definition mm_w32s :: "mock_mem \<Rightarrow> int \<Rightarrow> int \<Rightarrow> mock_mem res" where "mm_w32s = mm_pack_s 4"

definition mm_read :: "int \<Rightarrow> mock_mem \<Rightarrow> int \<Rightarrow> int res" where
  "mm_read width mm addr =
     (if width = 0 then mm_r8 mm addr else if width = 1 then mm_r16 mm addr
      else if width = 2 then mm_r32 mm addr else Inl ValueError)"

definition mm_write :: "int \<Rightarrow> mock_mem \<Rightarrow> int \<Rightarrow> int \<Rightarrow> mock_mem res" where
  "mm_write width mm addr v =
     (if width = 0 then mm_w8 mm addr v else if width = 1 then mm_w16 mm addr v
      else if width = 2 then mm_w32 mm addr v else Inl ValueError)"

definition mm_reads :: "int \<Rightarrow> mock_mem \<Rightarrow> int \<Rightarrow> int res" where
  "mm_reads width mm addr =
     (if width = 0 then mm_r8s mm addr else if width = 1 then mm_r16s mm addr
      else if width = 2 then mm_r32s mm addr else Inl ValueError)"

definition mm_writes :: "int \<Rightarrow> mock_mem \<Rightarrow> int \<Rightarrow> int \<Rightarrow> mock_mem res" where
  "mm_writes width mm addr v =
     (if width = 0 then mm_w8s mm addr v else if width = 1 then mm_w16s mm addr v
      else if width = 2 then mm_w32s mm addr v else Inl ValueError)"

definition mm_r_block :: "mock_mem \<Rightarrow> int \<Rightarrow> int \<Rightarrow> byte list res" where
  "mm_r_block mm addr0 sz =
     (let addr = addr0 - base_addr mm in
      if addr + sz > size_bytes mm then Inl ValueError
      else Inr (py_slice (mm_data mm) addr (addr + sz)))"

definition mm_w_block :: "mock_mem \<Rightarrow> int \<Rightarrow> byte list \<Rightarrow> mock_mem res" where
  "mm_w_block mm addr0 data = mm_writing mm
     (let addr = addr0 - base_addr mm; sz = int (length data) in
      if addr + sz > size_bytes mm then Inl ValueError
      else Inr (py_slice_set (mm_data mm) addr (addr + sz) data))"

definition mm_clear_block :: "mock_mem \<Rightarrow> int \<Rightarrow> int \<Rightarrow> int \<Rightarrow> mock_mem res" where
  "mm_clear_block mm addr0 sz v = mm_writing mm
     (let addr = addr0 - base_addr mm in
      if addr + sz > size_bytes mm then Inl ValueError
      else if 0 < sz \<and> (v < 0 \<or> 256 \<le> v) then Inl ValueError
      else Inr (py_slice_set (mm_data mm) addr (addr + sz) (replicate (nat sz) (word_of_int v))))"

definition mm_copy_block :: "mock_mem \<Rightarrow> int \<Rightarrow> int \<Rightarrow> int \<Rightarrow> mock_mem res" where
  "mm_copy_block mm from0 to0 sz = mm_writing mm
     (let from_addr = from0 - base_addr mm; to_addr = to0 - base_addr mm in
      if from_addr + sz > size_bytes mm \<or> to_addr + sz > size_bytes mm then Inl ValueError
      else Inr (py_slice_set (mm_data mm) to_addr (to_addr + sz)
                  (py_slice (mm_data mm) from_addr (from_addr + sz))))"

function cstr_loop :: "byte list \<Rightarrow> int \<Rightarrow> byte list \<Rightarrow> byte list res" where
  "cstr_loop data addr r =
     (case py_get data addr of
        Inl e \<Rightarrow> Inl e
      | Inr ch \<Rightarrow> if ch = 0 then Inr r else cstr_loop data (addr + 1) (r @ [ch]))"
  by auto

termination cstr_loop
  by (relation "measure (\<lambda>(data, addr, r). nat (int (length data) - addr))")
    (auto simp: py_get_def Let_def split: if_splits)

declare cstr_loop.simps [simp del]

definition mm_r_cstr :: "mock_mem \<Rightarrow> int \<Rightarrow> string res" where
  "mm_r_cstr mm addr0 =
     (let addr = addr0 - base_addr mm in
      if addr > size_bytes mm then Inl ValueError
      else rbind (cstr_loop (mm_data mm) addr []) (\<lambda>r. Inr (latin1_dec r)))"

definition mm_w_cstr :: "mock_mem \<Rightarrow> int \<Rightarrow> string \<Rightarrow> mock_mem res" where
  "mm_w_cstr mm addr0 s = mm_writing mm
     (let addr = addr0 - base_addr mm in
      if addr > size_bytes mm then Inl ValueError
      else let data = latin1_enc s @ [0]; sz = int (length data)
           in Inr (py_slice_set (mm_data mm) addr (addr + sz) data))"

definition mm_r_bstr :: "mock_mem \<Rightarrow> int \<Rightarrow> string res" where
  "mm_r_bstr mm addr0 =
     (let addr = addr0 - base_addr mm in
      if addr > size_bytes mm then Inl ValueError
      else rbind (py_get (mm_data mm) addr)
             (\<lambda>n. Inr (latin1_dec (py_slice (mm_data mm) (addr + 1) (addr + 1 + uint n)))))"

definition mm_w_bstr :: "mock_mem \<Rightarrow> int \<Rightarrow> string \<Rightarrow> mock_mem res" where
  "mm_w_bstr mm addr0 s = mm_writing mm
     (let addr = addr0 - base_addr mm in
      if addr > size_bytes mm then Inl ValueError
      else let sz = int (length s) in
           if sz > 255 then Inl ValueError
           else rbind (py_set (mm_data mm) addr (word_of_int sz))
                  (\<lambda>d. Inr (py_slice_set d (addr + 1) (addr + 1 + sz) (latin1_enc s))))"

subsection \<open>MockMemory implements the view\<close>

text \<open>A memory as it is used: writable, of its declared size. \<open>inside\<close> is an access that stays
  inside it.\<close>

definition mm_ok :: "mock_mem \<Rightarrow> bool" where
  "mm_ok mm \<longleftrightarrow> \<not> read_only mm \<and> int (length (mm_data mm)) = size_bytes mm"

definition inside :: "mock_mem \<Rightarrow> int \<Rightarrow> int \<Rightarrow> bool" where
  "inside mm a n \<longleftrightarrow> 0 \<le> n \<and> base_addr mm \<le> a \<and> a + n \<le> base_addr mm + size_bytes mm"

definition mm_view :: "mock_mem \<Rightarrow> mem" where
  "mm_view mm = (\<lambda>a. if base_addr mm \<le> a \<and> a < base_addr mm + int (length (mm_data mm))
                     then mm_data mm ! nat (a - base_addr mm) else 0)"

lemma mm_view_block:
  assumes "mm_ok mm" "inside mm a (int n)"
  shows "take n (drop (nat (a - base_addr mm)) (mm_data mm)) = rd_block (mm_view mm) a n"
proof (rule nth_equalityI)
  have l: "nat (a - base_addr mm) + n \<le> length (mm_data mm)" using assms
    by (auto simp: mm_ok_def inside_def)
  then show "length (take n (drop (nat (a - base_addr mm)) (mm_data mm))) = length (rd_block (mm_view mm) a n)"
    by simp
  fix i assume "i < length (take n (drop (nat (a - base_addr mm)) (mm_data mm)))"
  with l assms show "take n (drop (nat (a - base_addr mm)) (mm_data mm)) ! i = rd_block (mm_view mm) a n ! i"
    by (auto simp: rd_block_def mm_view_def inside_def nat_diff_distrib' mm_ok_def
        intro!: arg_cong [of _ _ "(!) (mm_data mm)"])
qed

lemma mm_unpack_view:
  assumes "mm_ok mm" "inside mm a (int n)"
  shows "mm_unpack n mm a = Inr (rd n (mm_view mm) a)"
  using assms mm_view_block [OF assms]
  by (simp add: mm_unpack_def unpack_from_def buf_offset_in inside_def mm_ok_def rd_def)

lemma mm_write_view:
  assumes "mm_ok mm" "inside mm a (int (length bs))"
    and d: "d = take (nat (a - base_addr mm)) (mm_data mm) @ bs @ drop (nat (a - base_addr mm) + length bs) (mm_data mm)"
  shows "mm_ok (mm\<lparr>mm_data := d\<rparr>)" and "mm_view (mm\<lparr>mm_data := d\<rparr>) = wr_block (mm_view mm) a bs"
proof -
  let ?o = "nat (a - base_addr mm)"
  have l: "?o + length bs \<le> length (mm_data mm)" using assms(1,2) by (auto simp: mm_ok_def inside_def)
  then have len: "length d = length (mm_data mm)" using d by simp
  with assms(1) show "mm_ok (mm\<lparr>mm_data := d\<rparr>)" by (simp add: mm_ok_def)
  have nth: "d ! k = (if ?o \<le> k \<and> k < ?o + length bs then bs ! (k - ?o) else mm_data mm ! k)"
    if "k < length (mm_data mm)" for k
    using that l unfolding d by (auto simp: nth_append min_def)
  show "mm_view (mm\<lparr>mm_data := d\<rparr>) = wr_block (mm_view mm) a bs"
  proof
    fix x
    show "mm_view (mm\<lparr>mm_data := d\<rparr>) x = wr_block (mm_view mm) a bs x"
      using assms(1,2) len nth [of "nat (x - base_addr mm)"]
      by (auto simp: mm_view_def wr_block_def inside_def mm_ok_def nat_diff_distrib'
          intro!: arg_cong [of _ _ "(!) bs"])
  qed
qed

lemma mm_pack_view:
  assumes "mm_ok mm" "inside mm a (int n)" "0 \<le> v" "v < 256 ^ n"
  shows "\<exists>mm'. mm_pack n mm a v = Inr mm' \<and> mm_ok mm' \<and> mm_view mm' = wr n (mm_view mm) a v \<and>
           base_addr mm' = base_addr mm \<and> size_bytes mm' = size_bytes mm"
  using assms mm_write_view [OF assms(1), of a "be_bytes n v", OF _ refl]
  by (simp add: mm_pack_def mm_writing_def pack_u_def pack_into_def buf_offset_in inside_def mm_ok_def wr_def)

lemma mm_slice_view:
  assumes "mm_ok mm" "inside mm a (int (length bs))"
    and "d = py_slice_set (mm_data mm) (a - base_addr mm) (a - base_addr mm + int (length bs)) bs"
  shows "mm_ok (mm\<lparr>mm_data := d\<rparr>)" and "mm_view (mm\<lparr>mm_data := d\<rparr>) = wr_block (mm_view mm) a bs"
proof -
  have "d = take (nat (a - base_addr mm)) (mm_data mm) @ bs @ drop (nat (a - base_addr mm) + length bs) (mm_data mm)"
    using assms by (simp add: py_slice_set_in inside_def mm_ok_def nat_add_distrib)
  from mm_write_view [OF assms(1,2) this]
  show "mm_ok (mm\<lparr>mm_data := d\<rparr>)" "mm_view (mm\<lparr>mm_data := d\<rparr>) = wr_block (mm_view mm) a bs" .
qed

lemma mm_blocks_view:
  assumes "mm_ok mm" "inside mm a (int (length bs))"
  shows "mm_r_block mm a (int (length bs)) = Inr (rd_block (mm_view mm) a (length bs))"
    and "\<exists>mm'. mm_w_block mm a bs = Inr mm' \<and> mm_ok mm' \<and> mm_view mm' = wr_block (mm_view mm) a bs"
  using assms mm_view_block [OF assms] mm_slice_view [OF assms refl]
  by (simp_all add: mm_r_block_def mm_w_block_def mm_writing_def mm_ok_def inside_def py_slice_in Let_def)

subsection \<open>Strings\<close>

lemma cstr_loop_ok:
  "0 \<notin> set s \<Longrightarrow> drop k d = s @ 0 # t \<Longrightarrow> cstr_loop d (int k) r = Inr (r @ s)"
proof (induction s arbitrary: k r)
  case Nil
  then have "k < length d" "d ! k = 0" by (auto simp: nth_via_drop intro: ccontr)
  then show ?case by (subst cstr_loop.simps) (simp add: py_get_in)
next
  case (Cons b s)
  then have k: "k < length d" "d ! k = b" by (auto simp: nth_via_drop intro: ccontr)
  have "drop (Suc k) d = s @ 0 # t" 
  proof -
    have "drop (Suc k) d = tl (drop k d)" by (simp add: drop_Suc tl_drop)
    with Cons.prems(2) show ?thesis by simp
  qed
  from Cons.IH [OF _ this, of "r @ [b]"] Cons.prems(1)
  have "cstr_loop d (int (Suc k)) (r @ [b]) = Inr ((r @ [b]) @ s)" by simp
  with k Cons.prems(1) show ?case by (subst cstr_loop.simps) (auto simp: py_get_in add.commute)
qed

lemma mm_cstr_roundtrip:
  assumes "mm_ok mm" "inside mm a (int (length s) + 1)" "CHR 0x00 \<notin> set s"
  shows "\<exists>mm'. mm_w_cstr mm a s = Inr mm' \<and> mm_ok mm' \<and> mm_r_cstr mm' a = Inr s \<and>
     mm_view mm' = wr_block (mm_view mm) a (latin1_enc s @ [0])"
proof -
  let ?bs = "latin1_enc s @ [0]" and ?o = "a - base_addr mm"
  let ?d = "py_slice_set (mm_data mm) ?o (?o + int (length ?bs)) ?bs"
  have i: "inside mm a (int (length ?bs))" using assms(2) by (simp add: inside_def)
  note v = mm_slice_view [OF assms(1) i refl]
  have l: "nat ?o + length ?bs \<le> length (mm_data mm)" "0 \<le> ?o"
    using assms(1) i by (auto simp: mm_ok_def inside_def)
  then have "drop (nat ?o) ?d = latin1_enc s @ 0 # drop (nat ?o + length ?bs) (mm_data mm)"
    by (simp add: py_slice_set_in nat_add_distrib)
  from cstr_loop_ok [OF latin1_enc_no_zero [OF assms(3)] this, of "[]"] l(2)
  have "cstr_loop ?d ?o [] = Inr (latin1_enc s)" by simp
  with v assms(1) i show ?thesis
    by (intro exI [of _ "mm\<lparr>mm_data := ?d\<rparr>"])
       (auto simp: mm_w_cstr_def mm_r_cstr_def mm_writing_def mm_ok_def inside_def Let_def)
qed

lemma mm_bstr_roundtrip:
  assumes "mm_ok mm" "inside mm a (int (length s) + 1)" "length s \<le> 255"
  shows "\<exists>mm'. mm_w_bstr mm a s = Inr mm' \<and> mm_ok mm' \<and> mm_r_bstr mm' a = Inr s"
proof -
  let ?o = "a - base_addr mm" and ?n = "int (length s)"
  let ?upd = "(mm_data mm)[nat ?o := word_of_int ?n]"
  let ?d = "py_slice_set ?upd (?o + 1) (?o + 1 + ?n) (latin1_enc s)"
  have o: "0 \<le> ?o" "?o + 1 + ?n \<le> int (length ?upd)" "?o < size_bytes mm"
    using assms(1,2) by (auto simp: mm_ok_def inside_def)
  have len: "length ?d = length (mm_data mm)"
    using length_py_slice_set [of "?o + 1" "?o + 1 + ?n" "latin1_enc s" ?upd] o by simp
  have w: "mm_w_bstr mm a s = Inr (mm\<lparr>mm_data := ?d\<rparr>)"
    using assms o by (simp add: mm_w_bstr_def mm_writing_def mm_ok_def py_set_in Let_def)
  have "?d ! nat ?o = word_of_int ?n"
    using nth_py_slice_set [of "?o + 1" "?o + 1 + ?n" "latin1_enc s" ?upd "nat ?o"] o by simp
  moreover have "uint (word_of_int ?n :: byte) = ?n" 
    using assms(3) uint_word_of_int [of ?n, where ?'a = 8] by simp
  moreover have "py_slice ?d (?o + 1) (?o + 1 + ?n) = latin1_enc s"
    using py_slice_set_get [of "?o + 1" "?o + 1 + ?n" "latin1_enc s" ?upd] o by simp
  ultimately have "mm_r_bstr (mm\<lparr>mm_data := ?d\<rparr>) a = Inr s"
    using o(1,3) len assms(1) by (simp add: mm_r_bstr_def mm_ok_def py_get_in Let_def)
  with w len assms(1) show ?thesis by (auto simp: mm_ok_def)
qed

subsection \<open>Properties\<close>

definition demo_mem :: mock_mem where
  "demo_mem = mock_init 1 5 [] False 4096"

lemma demo_mem_ok: "mm_ok demo_mem" "inside demo_mem 4100 20" "base_addr demo_mem = 4096"
  by (simp_all add: demo_mem_def mock_init_def mm_ok_def inside_def)

text \<open>An access of any of the widths of the code: 1, 2 or 4 bytes, unsigned or signed.\<close>

definition mm_wrote :: "mock_mem \<Rightarrow> (mem \<Rightarrow> mem) \<Rightarrow> mock_mem res \<Rightarrow> bool" where
  "mm_wrote mm f r \<longleftrightarrow>
     (case r of Inl e \<Rightarrow> False
      | Inr mm' \<Rightarrow> mm_ok mm' \<and> mm_view mm' = f (mm_view mm) \<and> base_addr mm' = base_addr mm \<and> size_bytes mm' = size_bytes mm)"

lemma mm_wroteI:
  assumes "mm_ok mm" "inside mm a (int (length bs))"
    and "d = take (nat (a - base_addr mm)) (mm_data mm) @ bs @ drop (nat (a - base_addr mm) + length bs) (mm_data mm)"
  shows "mm_wrote mm (\<lambda>m. wr_block m a bs) (Inr (mm\<lparr>mm_data := d\<rparr>))"
  using mm_write_view [OF assms] by (simp add: mm_wrote_def)

lemma mm_slice_wrote:
  assumes "mm_ok mm" "inside mm a (int (length bs))"
    and "d = py_slice_set (mm_data mm) (a - base_addr mm) (a - base_addr mm + int (length bs)) bs"
  shows "mm_wrote mm (\<lambda>m. wr_block m a bs) (Inr (mm\<lparr>mm_data := d\<rparr>))"
  using mm_slice_view [OF assms] by (simp add: mm_wrote_def)

lemma mm_unpack_s_view:
  assumes "mm_ok mm" "inside mm a (int n)"
  shows "mm_unpack_s n mm a = Inr (be_sint (rd_block (mm_view mm) a n))"
  using assms mm_view_block [OF assms]
  by (simp add: mm_unpack_s_def unpack_from_def mm_ok_def inside_def buf_offset_in)

lemma mm_pack_wrote:
  assumes "mm_ok mm" "inside mm a (int n)"
  shows "0 \<le> v \<Longrightarrow> v < 256 ^ n \<Longrightarrow> mm_wrote mm (\<lambda>m. wr n m a v) (mm_pack n mm a v)"
    and "- (256 ^ n) \<le> 2 * v \<Longrightarrow> 2 * v < 256 ^ n \<Longrightarrow> mm_wrote mm (\<lambda>m. wr n m a v) (mm_pack_s n mm a v)"
  using assms mm_wroteI [OF assms(1), of a "be_bytes n v", OF _ refl]
  by (simp_all add: mm_pack_def mm_pack_s_def pack_s_def mm_writing_def pack_into_def pack_u_ok mm_ok_def inside_def
      buf_offset_in wr_def)

lemma mm_byte_pack:
  assumes "mm_ok mm" "inside mm a 1"
  shows "mm_r8 mm a = mm_unpack 1 mm a" and "0 \<le> v \<Longrightarrow> v < 256 \<Longrightarrow> mm_w8 mm a v = mm_pack 1 mm a v"
proof -
  have o: "0 \<le> a - base_addr mm" "a - base_addr mm < int (length (mm_data mm))" "nat (a - base_addr mm) < length (mm_data mm)"
    using assms by (auto simp: mm_ok_def inside_def)
  then show "mm_r8 mm a = mm_unpack 1 mm a"
    by (simp add: mm_r8_def mm_unpack_def unpack_from_def py_get_in buf_offset_in Cons_nth_drop_Suc [symmetric] take_Cons' be_int_def)
  assume "0 \<le> v" "v < 256"
  with o assms(1) show "mm_w8 mm a v = mm_pack 1 mm a v"
    by (simp add: mm_w8_def mm_pack_def mm_writing_def mm_ok_def py_set_in pack_into_def pack_u_def buf_offset_in
        upd_conv_take_nth_drop)
qed

lemmas mm_width_defs = mm_read_def mm_reads_def mm_write_def mm_writes_def mm_r16_def mm_r32_def mm_r8s_def mm_r16s_def
  mm_r32s_def mm_w16_def mm_w32_def mm_w8s_def mm_w16s_def mm_w32s_def

lemma mm_width_cases:
  assumes "mm_ok mm" "width \<in> {0, 1, 2}" "n = 2 ^ nat width" "inside mm a (int n)"
  shows "mm_read width mm a = mm_unpack n mm a" and "mm_reads width mm a = mm_unpack_s n mm a"
    and "0 \<le> v \<Longrightarrow> v < 256 ^ n \<Longrightarrow> mm_write width mm a v = mm_pack n mm a v"
    and "mm_writes width mm a v = mm_pack_s n mm a v"
  using assms mm_byte_pack [of mm a] by (auto simp: mm_width_defs)

lemma mm_widths_view:
  assumes "mm_ok mm" "width \<in> {0, 1, 2}" "n = 2 ^ nat width" "inside mm a (int n)"
  shows "mm_read width mm a = Inr (rd n (mm_view mm) a)"
    and "mm_reads width mm a = Inr (be_sint (rd_block (mm_view mm) a n))"
    and "0 \<le> v \<Longrightarrow> v < 256 ^ n \<Longrightarrow> mm_wrote mm (\<lambda>m. wr n m a v) (mm_write width mm a v)"
    and "- (256 ^ n) \<le> 2 * v \<Longrightarrow> 2 * v < 256 ^ n \<Longrightarrow> mm_wrote mm (\<lambda>m. wr n m a v) (mm_writes width mm a v)"
  using mm_width_cases [OF assms] mm_unpack_view [OF assms(1,4)] mm_unpack_s_view [OF assms(1,4)] mm_pack_wrote [OF assms(1,4)]
  by simp_all

lemma mm_block_ops:
  assumes "mm_ok mm" "inside mm a (int k)"
  shows "mm_r_block mm a (int k) = Inr (rd_block (mm_view mm) a k)"
    and "length bs = k \<Longrightarrow> mm_wrote mm (\<lambda>m. wr_block m a bs) (mm_w_block mm a bs)"
    and "0 \<le> c \<Longrightarrow> c < 256 \<Longrightarrow> mm_wrote mm (\<lambda>m. wr_block m a (replicate k (word_of_int c))) (mm_clear_block mm a (int k) c)"
    and "inside mm b (int k) \<Longrightarrow> mm_wrote mm (\<lambda>m. wr_block m b (rd_block m a k)) (mm_copy_block mm a b (int k))"
proof -
  have sl: "py_slice (mm_data mm) (a - base_addr mm) (a - base_addr mm + int k) = rd_block (mm_view mm) a k"
    using assms mm_view_block [OF assms] by (simp add: py_slice_in mm_ok_def inside_def)
  then show "mm_r_block mm a (int k) = Inr (rd_block (mm_view mm) a k)"
    using assms by (simp add: mm_r_block_def inside_def Let_def)
  show "mm_wrote mm (\<lambda>m. wr_block m a bs) (mm_w_block mm a bs)" if "length bs = k"
    using assms that mm_slice_wrote [OF assms(1), of a bs, OF _ refl]
    by (simp add: mm_w_block_def mm_writing_def mm_ok_def inside_def Let_def)
  show "mm_wrote mm (\<lambda>m. wr_block m a (replicate k (word_of_int c))) (mm_clear_block mm a (int k) c)" if "0 \<le> c" "c < 256"
    using assms that mm_slice_wrote [OF assms(1), of a "replicate k (word_of_int c)", OF _ refl]
    by (simp add: mm_clear_block_def mm_writing_def mm_ok_def inside_def Let_def)
  show "mm_wrote mm (\<lambda>m. wr_block m b (rd_block m a k)) (mm_copy_block mm a b (int k))" if "inside mm b (int k)"
    using assms that mm_slice_wrote [OF assms(1), of b "rd_block (mm_view mm) a k", OF _ refl] sl
    by (simp add: mm_copy_block_def mm_writing_def mm_ok_def inside_def Let_def mm_wrote_def)
qed

definition access_is_view :: "mock_mem \<Rightarrow> int \<Rightarrow> int \<Rightarrow> bool" where
  "access_is_view mm width a \<longleftrightarrow>
     (let n = 2 ^ nat width in
      mm_read width mm a = Inr (rd n (mm_view mm) a) \<and>
      mm_reads width mm a = Inr (be_sint (rd_block (mm_view mm) a n)) \<and>
      (\<forall>v. 0 \<le> v \<and> v < 256 ^ n \<longrightarrow>
         mm_wrote mm (\<lambda>m. wr n m a v) (mm_write width mm a v) \<and>
         rbind (mm_write width mm a v) (\<lambda>mm'. mm_read width mm' a) = Inr v) \<and>
      (\<forall>v. - (256 ^ n) \<le> 2 * v \<and> 2 * v < 256 ^ n \<longrightarrow>
         mm_wrote mm (\<lambda>m. wr n m a v) (mm_writes width mm a v) \<and>
         rbind (mm_writes width mm a v) (\<lambda>mm'. mm_reads width mm' a) = Inr v))"

definition block_is_view :: "mock_mem \<Rightarrow> int \<Rightarrow> nat \<Rightarrow> bool" where
  "block_is_view mm a k \<longleftrightarrow>
     mm_r_block mm a (int k) = Inr (rd_block (mm_view mm) a k) \<and>
     (\<forall>bs. length bs = k \<longrightarrow> mm_wrote mm (\<lambda>m. wr_block m a bs) (mm_w_block mm a bs)) \<and>
     (\<forall>c. 0 \<le> c \<and> c < 256 \<longrightarrow>
        mm_wrote mm (\<lambda>m. wr_block m a (replicate k (word_of_int c))) (mm_clear_block mm a (int k) c)) \<and>
     (\<forall>b. inside mm b (int k) \<longrightarrow>
        mm_wrote mm (\<lambda>m. wr_block m b (rd_block m a k)) (mm_copy_block mm a b (int k)))"

lemma mm_wrote_reads:
  assumes "mm_wrote mm f r" "width \<in> {0, 1, 2}" "n = 2 ^ nat width" "inside mm a (int n)"
  shows "rbind r (\<lambda>mm'. mm_read width mm' a) = Inr (rd n (f (mm_view mm)) a)"
    and "rbind r (\<lambda>mm'. mm_reads width mm' a) = Inr (be_sint (rd_block (f (mm_view mm)) a n))"
proof -
  obtain mm' where r: "r = Inr mm'" "mm_ok mm'" "mm_view mm' = f (mm_view mm)" "inside mm' a (int n)"
    using assms(1,4) by (auto simp: mm_wrote_def inside_def split: sum.splits)
  from mm_widths_view(1,2) [OF r(2) assms(2,3) r(4)] r(1,3)
  show "rbind r (\<lambda>mm'. mm_read width mm' a) = Inr (rd n (f (mm_view mm)) a)"
    and "rbind r (\<lambda>mm'. mm_reads width mm' a) = Inr (be_sint (rd_block (f (mm_view mm)) a n))" by simp_all
qed

lemma mm_access_is_view:
  assumes "mm_ok mm" "width \<in> {0, 1, 2}" "inside mm a (2 ^ nat width)"
  shows "access_is_view mm width a"
proof -
  define n :: nat where "n = 2 ^ nat width"
  have i: "inside mm a (int n)" using assms(3) by (simp add: n_def)
  note V = mm_widths_view [OF assms(1,2) n_def i] and R = mm_wrote_reads [OF _ assms(2) n_def i]
  have "mm_wrote mm (\<lambda>m. wr n m a v) (mm_write width mm a v) \<and>
      rbind (mm_write width mm a v) (\<lambda>mm'. mm_read width mm' a) = Inr v" if "0 \<le> v \<and> v < 256 ^ n" for v
    using V(3) [of v] R(1) [OF V(3) [of v]] that by simp
  moreover have "mm_wrote mm (\<lambda>m. wr n m a v) (mm_writes width mm a v) \<and>
      rbind (mm_writes width mm a v) (\<lambda>mm'. mm_reads width mm' a) = Inr v"
    if "- (256 ^ n) \<le> 2 * v \<and> 2 * v < 256 ^ n" for v
    using V(4) [of v] R(2) [OF V(4) [of v]] that by (simp add: wr_def be_sint_be_bytes)
  ultimately show ?thesis using V(1,2) by (simp add: access_is_view_def Let_def n_def)
qed

lemma mm_blocks_are_view: "mm_ok mm \<Longrightarrow> inside mm a (int k) \<Longrightarrow> block_is_view mm a k"
  by (simp add: block_is_view_def mm_block_ops)

text \<open>C11: inside a writable \<open>MockMemory\<close> the access functions of all widths (1, 2 or 4 bytes, unsigned and signed) and the
  block functions are accesses of the byte view. A read gives the big endian value of its bytes; a write of a value that
  fits its width changes exactly its own bytes, and reading it gives the value; a block is read and written unchanged,
  cleared to the given byte, and copied with the bytes it had before, even onto itself.\<close>

theorem mock_memory_refines:
  assumes "mm_ok mm"
  shows "(\<forall>width \<in> {0, 1, 2}. \<forall>a. inside mm a (2 ^ nat width) \<longrightarrow> access_is_view mm width a) \<and>
    (\<forall>a k. inside mm a (int k) \<longrightarrow> block_is_view mm a k)"
  using mm_access_is_view [OF assms] mm_blocks_are_view [OF assms] by blast

theorem mock_memory_refines_witness:
  "mm_wrote demo_mem (\<lambda>m. wr 4 m 4100 305419896) (mm_write 2 demo_mem 4100 305419896) \<and>
   rbind (mm_write 2 demo_mem 4100 305419896) (\<lambda>mm'. mm_read 2 mm' 4100) = Inr 305419896 \<and>
   mm_wrote demo_mem (\<lambda>m. wr_block m 4102 (rd_block m 4100 10)) (mm_copy_block demo_mem 4100 4102 10)"
proof -
  have i: "inside demo_mem 4100 (2 ^ nat 2)" "inside demo_mem 4100 (int 10)" "inside demo_mem 4102 (int 10)"
    by (simp_all add: demo_mem_def mock_init_def inside_def)
  have "access_is_view demo_mem 2 4100" "block_is_view demo_mem 4100 10"
    using mock_memory_refines [OF demo_mem_ok(1)] i by blast+
  with i(3) show ?thesis by (auto simp: access_is_view_def block_is_view_def Let_def)
qed

text \<open>A C string or BCPL string written to a memory it fits in is read back unchanged; the
  C string may not contain a zero character and the BCPL string has at most 255 characters.\<close>

theorem memory_strings_roundtrip:
  assumes "mm_ok mm" and "inside mm a (int (length s) + 1)" and "CHR 0x00 \<notin> set s" and "length s \<le> 255"
  shows "(\<exists>mm'. mm_w_cstr mm a s = Inr mm' \<and> mm_ok mm' \<and> mm_r_cstr mm' a = Inr s) \<and>
         (\<exists>mm'. mm_w_bstr mm a s = Inr mm' \<and> mm_ok mm' \<and> mm_r_bstr mm' a = Inr s)"
  using mm_cstr_roundtrip [OF assms(1-3)] mm_bstr_roundtrip [OF assms(1,2,4)] by blast

theorem memory_strings_roundtrip_witness:
  "(\<exists>mm'. mm_w_cstr demo_mem 4100 ''dos.library'' = Inr mm' \<and> mm_r_cstr mm' 4100 = Inr ''dos.library'') \<and>
   (\<exists>mm'. mm_w_bstr demo_mem 4100 ''dos.library'' = Inr mm' \<and> mm_r_bstr mm' 4100 = Inr ''dos.library'')"
  using memory_strings_roundtrip [OF demo_mem_ok(1), of 4100 "''dos.library''"] demo_mem_ok(2)
  by (auto simp: inside_def)

end
