(* ===== verification/Exec_List.thy ===== *)
theory Exec_List
  imports Memory
begin

text \<open>
  Exec lists in the emulated memory, \<open>amitools/vamos/libtypes/list_.py\<close> and
  \<open>node.py\<close>: every operation reads and writes the long words of nodes and header as the code
  does. A reference is an address and 0 is None. The header at \<open>L\<close> overlays two sentinel
  nodes: the head at \<open>L\<close> (succ \<open>L\<close>, pred \<open>L+4\<close>) and the tail at \<open>L+4\<close> (succ \<open>L+4\<close>, pred
  \<open>L+8\<close>), so that \<open>L+4\<close> is always 0. \<open>exec_list m L ns\<close> says that the nodes \<open>ns\<close> form the
  list; every operation is proved against the list of nodes.
\<close>

subsection \<open>The operations\<close>

definition node_succ :: "mem \<Rightarrow> int \<Rightarrow> int" where "node_succ m n = rd32 m n"
definition node_pred :: "mem \<Rightarrow> int \<Rightarrow> int" where "node_pred m n = rd32 m (n + 4)"
definition set_succ :: "int \<Rightarrow> int \<Rightarrow> mem \<Rightarrow> mem" where "set_succ n v m = wr32 m n v"
definition set_pred :: "int \<Rightarrow> int \<Rightarrow> mem \<Rightarrow> mem" where "set_pred n v m = wr32 m (n + 4) v"

definition node_pri :: "mem \<Rightarrow> int \<Rightarrow> int" where
  "node_pri m n = be_sint (rd_block m (n + 9) 1)"

definition min_new_list :: "int \<Rightarrow> mem \<Rightarrow> mem" where
  "min_new_list L m = wr32 (wr32 (wr32 m L (L + 4)) (L + 4) 0) (L + 8) L"

definition new_list :: "int \<Rightarrow> int \<Rightarrow> mem \<Rightarrow> mem" where
  "new_list L lt m = wr32 (wr32 (wr32 (wr8 m (L + 12) lt) L (L + 4)) (L + 4) 0) (L + 8) L"

text \<open>\<open>obj.attr = v\<close> on a reference that may be None.\<close>

definition add_head :: "int \<Rightarrow> int \<Rightarrow> mem \<Rightarrow> mem \<times> unit res" where
  "add_head L node m =
     (let n = node_succ m L;
          m3 = set_succ L node (set_succ node n (set_pred node L m))
      in if n = 0 then (m3, Inl AttributeError) else (set_pred n node m3, Inr ()))"

definition add_tail :: "int \<Rightarrow> int \<Rightarrow> mem \<Rightarrow> mem \<times> unit res" where
  "add_tail L node m =
     (let tp = rd32 m (L + 8);
          m3 = set_pred node tp (set_pred (L + 4) node (set_succ node (L + 4) m))
      in if tp = 0 then (m3, Inl AttributeError) else (set_succ tp node m3, Inr ()))"

definition node_remove :: "int \<Rightarrow> bool \<Rightarrow> mem \<Rightarrow> mem \<times> unit res" where
  "node_remove node clear m =
     (let succ = node_succ m node; pred = node_pred m node in
      if succ = 0 \<or> pred = 0 then (m, Inl ValueError)
      else let m2 = set_succ pred succ (set_pred succ pred m)
           in (if clear then set_pred node 0 (set_succ node 0 m2) else m2, Inr ()))"

definition rem_head :: "int \<Rightarrow> mem \<Rightarrow> mem \<times> int res" where
  "rem_head L m =
     (let node = node_succ m L in
      if node = 0 then (m, Inr 0)
      else case node_remove node True m of (m', Inl e) \<Rightarrow> (m', Inl e) | (m', Inr _) \<Rightarrow> (m', Inr node))"

definition rem_tail :: "int \<Rightarrow> mem \<Rightarrow> mem \<times> int res" where
  "rem_tail L m =
     (let node = rd32 m (L + 8) in
      if node = 0 then (m, Inr 0)
      else case node_remove node True m of (m', Inl e) \<Rightarrow> (m', Inl e) | (m', Inr _) \<Rightarrow> (m', Inr node))"

text \<open>\<open>insert(node, pred)\<close>; \<open>pred\<close> 0 is None.\<close>

definition list_insert :: "int \<Rightarrow> int \<Rightarrow> int \<Rightarrow> mem \<Rightarrow> mem \<times> unit res" where
  "list_insert L node pred m =
     (if pred \<noteq> 0 \<and> pred \<noteq> L then
        let s = node_succ m pred in
        if s \<noteq> 0 then
          (set_succ pred node (set_pred s node (set_pred node pred (set_succ node s m))), Inr ())
        else add_tail L node m
      else add_head L node m)"

text \<open>\<open>ListIter\<close>: the nodes from \<open>node\<close> up to the tail sentinel.\<close>

partial_function (option) iter_nodes :: "mem \<Rightarrow> int \<Rightarrow> int list \<Rightarrow> int list res option" where
  "iter_nodes m node out =
     (if node = 0 then Some (Inl AttributeError)
      else if node_succ m node = 0 then Some (Inr out)
      else iter_nodes m (node_succ m node) (out @ [node]))"

definition to_list :: "int \<Rightarrow> mem \<Rightarrow> int list res option" where
  "to_list L m = iter_nodes m (node_succ m L) []"

partial_function (option) list_len_from :: "mem \<Rightarrow> int \<Rightarrow> int \<Rightarrow> int res option" where
  "list_len_from m node l =
     (if node = 0 then Some (Inl AttributeError)
      else if node_succ m node = 0 then Some (Inr l)
      else list_len_from m (node_succ m node) (l + 1))"

definition list_len :: "int \<Rightarrow> mem \<Rightarrow> int res option" where
  "list_len L m = list_len_from m (node_succ m L) 0"

text \<open>The loops over a \<open>List\<close> promote each node by its type: a task, process, device or library is seen as an
  object of that class. Such an object has a priority and a name, but no \<open>succ\<close>.\<close>

definition NT_TASK :: int where "NT_TASK = 1"
definition NT_DEVICE :: int where "NT_DEVICE = 3"
definition NT_LIBRARY :: int where "NT_LIBRARY = 9"
definition NT_PROCESS :: int where "NT_PROCESS = 13"

definition promoted :: "mem \<Rightarrow> int \<Rightarrow> bool" where
  "promoted m n \<longleftrightarrow> rd8 m (n + 8) \<in> {NT_TASK, NT_PROCESS, NT_DEVICE, NT_LIBRARY}"

text \<open>\<open>enqueue\<close>: behind all nodes of the same or a higher priority. The predecessor it hands to \<open>insert\<close> is a
  node of the loop, so inserting behind a promoted one raises \<open>AttributeError\<close> before anything is written.\<close>

partial_function (option) enqueue_scan ::
  "int \<Rightarrow> int \<Rightarrow> int \<Rightarrow> int \<Rightarrow> int \<Rightarrow> mem \<Rightarrow> (mem \<times> unit res) option" where
  "enqueue_scan L node pri pred ln m =
     (if ln = 0 then Some (m, Inl AttributeError)
      else if node_succ m ln = 0 then Some (add_tail L node m)
      else if node_pri m ln < pri then
        (if pred \<noteq> 0 \<and> promoted m pred then Some (m, Inl AttributeError) else Some (list_insert L node pred m))
      else enqueue_scan L node pri ln (node_succ m ln) m)"

definition enqueue :: "int \<Rightarrow> int \<Rightarrow> mem \<Rightarrow> (mem \<times> unit res) option" where
  "enqueue L node m = enqueue_scan L node (node_pri m node) 0 (node_succ m L) m"

text \<open>The name of a node is a C string; \<open>find_name\<close> returns the first node that has it. A
  name pointer of 0 reads as None, which equals no string.\<close>

partial_function (option) read_cstr :: "mem \<Rightarrow> int \<Rightarrow> byte list \<Rightarrow> byte list option" where
  "read_cstr m a out = (if m a = 0 then Some out else read_cstr m (a + 1) (out @ [m a]))"

definition node_name :: "mem \<Rightarrow> int \<Rightarrow> string option option" where
  "node_name m n =
     (let p = rd32 m (n + 10) in
      if p = 0 then Some None else map_option (\<lambda>bs. Some (latin1_dec bs)) (read_cstr m p []))"

partial_function (option) find_name_from :: "string \<Rightarrow> int \<Rightarrow> mem \<Rightarrow> int res option" where
  "find_name_from name node m =
     (if node = 0 then Some (Inl AttributeError)
      else if node_succ m node = 0 then Some (Inr 0)
      else case node_name m node of
             None \<Rightarrow> None
           | Some nm \<Rightarrow> if nm = Some name then Some (Inr node)
                        else find_name_from name (node_succ m node) m)"

definition find_name :: "int \<Rightarrow> string \<Rightarrow> mem \<Rightarrow> int res option" where
  "find_name L name m = find_name_from name (node_succ m L) m"

subsection \<open>The list a header describes\<close>

primrec links :: "mem \<Rightarrow> int \<Rightarrow> int list \<Rightarrow> bool" where
  "links m x [] \<longleftrightarrow> True"
| "links m x (y # ys) \<longleftrightarrow> node_succ m x = y \<and> node_pred m y = x \<and> links m y ys"

text \<open>A node's address: long aligned, a 32 bit address, not None and clear of the header.\<close>

definition node_addr :: "int \<Rightarrow> int \<Rightarrow> bool" where
  "node_addr L n \<longleftrightarrow> 4 dvd n \<and> 0 < n \<and> n + 16 \<le> 2 ^ 32 \<and> (n + 16 \<le> L \<or> L + 16 \<le> n)"

definition far :: "int \<Rightarrow> int \<Rightarrow> bool" where
  "far u v \<longleftrightarrow> u + 16 \<le> v \<or> v + 16 \<le> u"

definition clear_of :: "int \<Rightarrow> int list \<Rightarrow> bool" where
  "clear_of n ns \<longleftrightarrow> (\<forall>y \<in> set ns. far n y)"

definition apart :: "int list \<Rightarrow> bool" where
  "apart ns \<longleftrightarrow> distinct ns \<and> (\<forall>a \<in> set ns. \<forall>b \<in> set ns. a \<noteq> b \<longrightarrow> far a b)"

definition exec_list :: "mem \<Rightarrow> int \<Rightarrow> int list \<Rightarrow> bool" where
  "exec_list m L ns \<longleftrightarrow>
     4 dvd L \<and> 0 < L \<and> L + 16 \<le> 2 ^ 32 \<and> (\<forall>n \<in> set ns. node_addr L n) \<and> apart ns \<and>
     links m L (ns @ [L + 4]) \<and> rd32 m (L + 4) = 0"

lemma links_append:
  "links m x (ys @ z # zs) \<longleftrightarrow> links m x (ys @ [z]) \<and> links m z zs"
  by (induction ys arbitrary: x) auto

lemma links_snoc:
  "links m x (ys @ [z]) \<longleftrightarrow>
     links m x ys \<and> node_succ m (last (x # ys)) = z \<and> node_pred m z = last (x # ys)"
  by (induction ys arbitrary: x) auto

text \<open>The memory after a splice: four links changed.\<close>

definition spliced :: "mem \<Rightarrow> mem \<Rightarrow> int \<Rightarrow> int \<Rightarrow> int \<Rightarrow> bool" where
  "spliced m m' a n b \<longleftrightarrow>
     (\<forall>c. 4 dvd c \<longrightarrow> rd32 m' c =
        (if c = a then n else if c = n + 4 then a else if c = n then b
         else if c = b + 4 then n else rd32 m c))"

definition unlinked :: "mem \<Rightarrow> mem \<Rightarrow> int \<Rightarrow> int \<Rightarrow> int \<Rightarrow> bool" where
  "unlinked m m' a n b \<longleftrightarrow>
     (\<forall>c. 4 dvd c \<longrightarrow> c \<noteq> n \<longrightarrow> c \<noteq> n + 4 \<longrightarrow> rd32 m' c =
        (if c = a then b else if c = b + 4 then a else rd32 m c))"

lemma links_frame:
  "links m x ys \<Longrightarrow> 4 dvd x \<Longrightarrow> \<forall>y \<in> set ys. 4 dvd y \<Longrightarrow>
     (\<And>c. c \<in> set (butlast (x # ys)) \<Longrightarrow> rd32 m' c = rd32 m c) \<Longrightarrow>
     (\<And>c. c \<in> set ys \<Longrightarrow> rd32 m' (c + 4) = rd32 m (c + 4)) \<Longrightarrow> links m' x ys"
  by (induction ys arbitrary: x) (auto simp: node_succ_def node_pred_def)

lemma far_irrefl [simp]: "\<not> far u u"
  by (simp add: far_def)

lemma far_sym: "far u v \<Longrightarrow> far v u"
  by (auto simp: far_def)

lemma apartD: "apart ns \<Longrightarrow> u \<in> set ns \<Longrightarrow> v \<in> set ns \<Longrightarrow> u \<noteq> v \<Longrightarrow> u + 16 \<le> v \<or> v + 16 \<le> u"
  unfolding apart_def far_def by blast

lemma apart_splice: "apart (xs @ n # ys) \<longleftrightarrow> apart (xs @ ys) \<and> clear_of n (xs @ ys)"
proof -
  have "clear_of n (xs @ ys) \<Longrightarrow> n \<notin> set (xs @ ys)" by (metis clear_of_def far_irrefl)
  then show ?thesis unfolding apart_def clear_of_def by (auto intro: far_sym)
qed

text \<open>The cells around one place of the list, and a change of the links there seen from the
  rest of the list.\<close>

definition place :: "int \<Rightarrow> int list \<Rightarrow> int list \<Rightarrow> int \<Rightarrow> int \<Rightarrow> bool" where
  "place L xs ys a b \<longleftrightarrow>
     4 dvd L \<and> 0 < L \<and> L + 16 \<le> 2 ^ 32 \<and> (\<forall>n \<in> set (xs @ ys). node_addr L n) \<and> apart (xs @ ys) \<and>
     a = last (L # xs) \<and> b = hd (ys @ [L + 4])"

lemma place_facts:
  assumes "place L xs ys a b"
  shows "b # tl (ys @ [L + 4]) = ys @ [L + 4]" and "distinct (L # xs @ ys @ [L + 4])"
    and "a \<in> insert L (set xs)" and "b \<in> insert (L + 4) (set ys)"
    and "\<And>y. y \<in> set (xs @ ys) \<Longrightarrow> (y + 16 \<le> L \<or> L + 16 \<le> y) \<and> 4 dvd y \<and> 0 < y \<and> y < 2 ^ 32"
proof -
  show bl: "b # tl (ys @ [L + 4]) = ys @ [L + 4]" and "a \<in> insert L (set xs)"
    and "b \<in> insert (L + 4) (set ys)"
    using assms by (cases ys; auto simp: place_def)+
  show F: "(y + 16 \<le> L \<or> L + 16 \<le> y) \<and> 4 dvd y \<and> 0 < y \<and> y < 2 ^ 32" if "y \<in> set (xs @ ys)" for y
  proof -
    have "node_addr L y" using assms that unfolding place_def by blast
    then show ?thesis by (simp add: node_addr_def)
  qed
  show "distinct (L # xs @ ys @ [L + 4])"
    using assms F [of L] F [of "L + 4"] by (auto simp: place_def apart_def)
qed

lemma place_two:
  assumes "place L xs ys a b" "u \<in> insert L (set (xs @ ys))" "v \<in> set (xs @ ys)" "u \<noteq> v"
  shows "u + 16 \<le> v \<or> v + 16 \<le> u"
proof -
  have "apart (xs @ ys)" using assms(1) by (simp add: place_def)
  from apartD [OF this, of u v] assms place_facts(5) [OF assms(1), of v] show ?thesis by blast
qed

lemma place_cells:
  assumes p: "place L xs ys a b"
  shows "c \<in> insert L (set (xs @ ys)) \<Longrightarrow> c \<noteq> b + 4"
    and "c \<in> insert (L + 4) (set (xs @ ys)) \<Longrightarrow> c + 4 \<noteq> a"
    and "4 dvd a" "4 dvd b" "0 < a" "0 < b" "a < 2 ^ 32" "b < 2 ^ 32" "L + 4 \<noteq> a" "a \<noteq> b"
proof -
  note F = place_facts [OF p]
  have L: "4 dvd L" "0 < L" "L + 16 \<le> 2 ^ 32" using p by (auto simp: place_def)
  have a: "a \<in> insert L (set (xs @ ys))" and b: "b = L + 4 \<or> b \<in> set (xs @ ys)" using F(3,4) by auto
  show "4 dvd a" "0 < a" "a < 2 ^ 32" using a F(5) [of a] L by auto
  show "4 dvd b" "0 < b" "b < 2 ^ 32" using b F(5) [of b] L by auto
  show "L + 4 \<noteq> a" using a F(5) [of a] by auto
  show "a \<noteq> b" using F(2-4) by auto
  show "c \<noteq> b + 4" if c: "c \<in> insert L (set (xs @ ys))"
    using b
  proof
    assume "b = L + 4" then show ?thesis using c F(5) [of c] by auto
  next
    assume "b \<in> set (xs @ ys)" then show ?thesis using place_two [OF p c, of b] by auto
  qed
  show "c + 4 \<noteq> a" if c: "c \<in> insert (L + 4) (set (xs @ ys))"
  proof (cases "c = L + 4")
    case True then show ?thesis using a F(5) [of a] by auto
  next
    case False then show ?thesis using place_two [OF p a, of c] c by auto
  qed
qed

lemma place_links:
  assumes p: "place L xs ys a b" and l: "links m L xs" "links m b (tl (ys @ [L + 4]))"
    and k1: "\<And>c. c \<in> insert L (set (xs @ ys)) \<Longrightarrow> c \<noteq> a \<Longrightarrow> rd32 m' c = rd32 m c"
    and k2: "\<And>c. c \<in> insert (L + 4) (set (xs @ ys)) \<Longrightarrow> c \<noteq> b \<Longrightarrow> rd32 m' (c + 4) = rd32 m (c + 4)"
  shows "links m' L xs" and "links m' b (tl (ys @ [L + 4]))"
proof -
  note F = place_facts [OF p]
  have al: "4 dvd L" "4 dvd b" "\<forall>y \<in> set (xs @ ys @ [L + 4]). 4 dvd y"
    using p place_cells(4) [OF p] F(5) by (auto simp: place_def)
  have bla: "butlast (L # xs) @ [a] = L # xs" using p by (simp only: place_def append_butlast_last_id) auto
  then have da: "a \<notin> set (butlast (L # xs))"
    using F(2) by (metis distinct.simps(2) distinct_append distinct1_rotate rotate1.simps(2) append_Cons)
  show "links m' L xs"
  proof (rule links_frame [OF l(1) al(1)])
    fix c assume c: "c \<in> set (butlast (L # xs))"
    then have "c \<noteq> a" using da by blast
    moreover have "c \<in> insert L (set (xs @ ys))" using in_set_butlastD [OF c] by auto
    ultimately show "rd32 m' c = rd32 m c" by (rule k1 [rotated])
  next
    fix c assume "c \<in> set xs"
    then have "c \<noteq> b" "c \<in> insert (L + 4) (set (xs @ ys))" using F(2,4) by auto
    then show "rd32 m' (c + 4) = rd32 m (c + 4)" by (rule k2 [rotated])
  qed (use al in auto)
  show "links m' b (tl (ys @ [L + 4]))"
  proof (rule links_frame [OF l(2) al(2)])
    show "\<forall>y \<in> set (tl (ys @ [L + 4])). 4 dvd y"
      using al(3) F(1) by (metis Un_iff list.set_intros(2) set_append)
    fix c assume "c \<in> set (butlast (b # tl (ys @ [L + 4])))"
    then have "c \<in> set ys" unfolding F(1) by simp
    then have "c \<noteq> a" "c \<in> insert L (set (xs @ ys))" using F(2,3) by auto
    then show "rd32 m' c = rd32 m c" by (rule k1 [rotated])
  next
    fix c assume c: "c \<in> set (tl (ys @ [L + 4]))"
    have "distinct (b # tl (ys @ [L + 4]))" unfolding F(1) using F(2) by auto
    with c have "c \<noteq> b" by auto
    moreover have "c \<in> set (b # tl (ys @ [L + 4]))" using c by simp
    then have "c \<in> insert (L + 4) (set (xs @ ys))" unfolding F(1) by auto
    ultimately show "rd32 m' (c + 4) = rd32 m (c + 4)" by (rule k2 [rotated])
  qed
qed

lemma exec_list_place:
  "exec_list m L (xs @ ys) \<longleftrightarrow>
     (let a = last (L # xs); b = hd (ys @ [L + 4]) in
      place L xs ys a b \<and> links m L xs \<and> links m b (tl (ys @ [L + 4])) \<and>
      node_succ m a = b \<and> node_pred m b = a \<and> rd32 m (L + 4) = 0)"
proof -
  have "links m L ((xs @ ys) @ [L + 4]) \<longleftrightarrow> links m L (xs @ hd (ys @ [L + 4]) # tl (ys @ [L + 4]))"
    by (cases ys) auto
  also have "\<dots> \<longleftrightarrow> links m L xs \<and> node_succ m (last (L # xs)) = hd (ys @ [L + 4]) \<and>
      node_pred m (hd (ys @ [L + 4])) = last (L # xs) \<and>
      links m (hd (ys @ [L + 4])) (tl (ys @ [L + 4]))"
    by (subst links_append) (auto simp: links_snoc)
  finally show ?thesis by (auto simp: exec_list_def place_def Let_def)
qed

lemma place_fresh:
  assumes p: "place L xs ys a b" and n: "node_addr L n" "clear_of n (xs @ ys)"
    and c: "c \<in> insert L (insert (L + 4) (set (xs @ ys)))"
  shows "c \<noteq> n \<and> c + 4 \<noteq> n \<and> c \<noteq> n + 4 \<and> 4 dvd c"
proof (cases "c \<in> set (xs @ ys)")
  case True
  then have "far n c" using n(2) by (auto simp: clear_of_def)
  then show ?thesis using place_facts(5) [OF p True] by (auto simp: far_def)
next
  case False
  then have "c = L \<or> c = L + 4" using c by auto
  then show ?thesis using n(1) p by (auto simp: node_addr_def place_def)
qed

lemma exec_list_splice:
  assumes ok: "exec_list m L (xs @ ys)" and n: "node_addr L n" "clear_of n (xs @ ys)"
    and sp: "spliced m m' (last (L # xs)) n (hd (ys @ [L + 4]))"
  shows "exec_list m' L (xs @ n # ys)"
proof -
  define a where "a = last (L # xs)"
  define b where "b = hd (ys @ [L + 4])"
  from ok have p: "place L xs ys a b" and l: "links m L xs" "links m b (tl (ys @ [L + 4]))"
    and z: "rd32 m (L + 4) = 0"
    by (auto simp: exec_list_place Let_def a_def b_def)
  note F = place_facts [OF p] and C = place_cells [OF p]
  have S: "rd32 m' c = (if c = a then n else if c = n + 4 then a else if c = n then b
         else if c = b + 4 then n else rd32 m c)" if "4 dvd c" for c
    using sp that by (auto simp: spliced_def a_def b_def)
  have nL: "4 dvd n" "n + 16 \<le> L \<or> L + 16 \<le> n" using n(1) by (auto simp: node_addr_def)
  note fn = place_fresh [OF p n]
  have ab: "a \<in> insert L (insert (L + 4) (set (xs @ ys)))" "b \<in> insert L (insert (L + 4) (set (xs @ ys)))"
    "a \<in> insert L (set (xs @ ys))" using F(3,4) by auto
  have k1: "rd32 m' c = rd32 m c" if "c \<in> insert L (set (xs @ ys))" "c \<noteq> a" for c
  proof -
    have "c \<in> insert L (insert (L + 4) (set (xs @ ys)))" using that(1) by auto
    from fn [OF this] C(1) [OF that(1)] that(2) show ?thesis by (simp add: S)
  qed
  have k2: "rd32 m' (c + 4) = rd32 m (c + 4)" if "c \<in> insert (L + 4) (set (xs @ ys))" "c \<noteq> b" for c
  proof -
    have "c \<in> insert L (insert (L + 4) (set (xs @ ys)))" using that(1) by auto
    from fn [OF this] C(2) [OF that(1)] that(2) show ?thesis by (simp add: S)
  qed
  note K = place_links [OF p l k1 k2]
  moreover have "node_succ m' a = n" "node_pred m' n = a" "node_succ m' n = b" "node_pred m' b = n"
    using S [of a] S [of "n + 4"] S [of n] S [of "b + 4"] C(1) [OF ab(3)] C(3,4) nL fn [OF ab(1)] fn [OF ab(2)]
    by (auto simp: node_succ_def node_pred_def)
  moreover have "rd32 m' (L + 4) = 0"
    using S [of "L + 4"] C(9) fn [of "L + 4"] fn [of L] z F(4) F(5) [of b] by auto
  moreover from calculation K have "links m' L (xs @ n # b # tl (ys @ [L + 4]))"
    unfolding links_append [of m' L xs n] links_snoc by (simp add: a_def)
  then have "links m' L (xs @ n # ys @ [L + 4])" unfolding F(1) .
  ultimately show ?thesis using p n by (simp add: exec_list_def place_def apart_splice)
qed

lemma exec_list_unlink:
  assumes ok: "exec_list m L (xs @ n # ys)"
    and un: "unlinked m m' (last (L # xs)) n (hd (ys @ [L + 4]))"
  shows "exec_list m' L (xs @ ys)"
proof -
  define a where "a = last (L # xs)"
  define b where "b = hd (ys @ [L + 4])"
  have ap: "apart (xs @ ys)" "clear_of n (xs @ ys)" and nn: "node_addr L n"
    using ok apart_splice by (auto simp: exec_list_def)
  then have p: "place L xs ys a b" using ok by (auto simp: exec_list_def place_def a_def b_def)
  note F = place_facts [OF p] and C = place_cells [OF p]
  have "links m L (xs @ n # b # tl (ys @ [L + 4]))" using ok unfolding F(1) by (simp add: exec_list_def)
  then have l: "links m L xs" "links m b (tl (ys @ [L + 4]))"
    unfolding links_append [of m L xs n] links_snoc by auto
  have U: "rd32 m' c = (if c = a then b else if c = b + 4 then a else rd32 m c)"
    if "4 dvd c" "c \<noteq> n" "c \<noteq> n + 4" for c
    using un that by (auto simp: unlinked_def a_def b_def)
  have nL: "4 dvd n" "n + 16 \<le> L \<or> L + 16 \<le> n" using nn by (auto simp: node_addr_def)
  note fn = place_fresh [OF p nn ap(2)]
  have ab: "a \<in> insert L (insert (L + 4) (set (xs @ ys)))" "b \<in> insert L (insert (L + 4) (set (xs @ ys)))"
    "a \<in> insert L (set (xs @ ys))" using F(3,4) by auto
  have k1: "rd32 m' c = rd32 m c" if "c \<in> insert L (set (xs @ ys))" "c \<noteq> a" for c
  proof -
    have "c \<in> insert L (insert (L + 4) (set (xs @ ys)))" using that(1) by auto
    from fn [OF this] C(1) [OF that(1)] that(2) show ?thesis by (simp add: U)
  qed
  have k2: "rd32 m' (c + 4) = rd32 m (c + 4)" if "c \<in> insert (L + 4) (set (xs @ ys))" "c \<noteq> b" for c
  proof -
    have "c \<in> insert L (insert (L + 4) (set (xs @ ys)))" using that(1) by auto
    from fn [OF this] C(2) [OF that(1)] that(2) show ?thesis by (simp add: U)
  qed
  note K = place_links [OF p l k1 k2]
  moreover have "node_succ m' a = b" "node_pred m' b = a"
    using U [of a] U [of "b + 4"] C(1) [OF ab(3)] C(3,4) fn [OF ab(1)] fn [OF ab(2)]
    by (auto simp: node_succ_def node_pred_def)
  moreover have "rd32 m' (L + 4) = 0"
    using U [of "L + 4"] C(9) fn [of "L + 4"] fn [of L] ok F(4) F(5) [of b] by (auto simp: exec_list_def)
  ultimately show ?thesis using p by (simp add: exec_list_place Let_def a_def b_def)
qed

subsection \<open>The operations on the list of nodes\<close>

text \<open>The payload of the nodes (type, priority, name: the bytes from offset 8) is not touched.\<close>

definition same_payload :: "mem \<Rightarrow> mem \<Rightarrow> int list \<Rightarrow> bool" where
  "same_payload m m' ns \<longleftrightarrow> (\<forall>y \<in> set ns. \<forall>i. 8 \<le> i \<longrightarrow> i < 16 \<longrightarrow> m' (y + i) = m (y + i))"

lemma same_payload_pri: "same_payload m m' ns \<Longrightarrow> y \<in> set ns \<Longrightarrow> node_pri m' y = node_pri m y"
  by (simp add: same_payload_def node_pri_def rd_block_def)

lemma wr_outside: "x < a \<or> a + int n \<le> x \<Longrightarrow> wr n m a v x = m x"
  by (auto simp: wr_def wr_block_def)

lemma wr_cells_outside:
  "x < a \<or> a + 4 \<le> x \<Longrightarrow> wr32 m a v x = m x"
  "x < n \<or> n + 8 \<le> x \<Longrightarrow> wr32 m n v x = m x"
  "x < n \<or> n + 8 \<le> x \<Longrightarrow> wr32 m (n + 4) v x = m x"
  "x < b + 4 \<or> b + 8 \<le> x \<Longrightarrow> wr32 m (b + 4) v x = m x"
  by (intro wr_outside; auto)+

text \<open>Four writes in any order that link \<open>n\<close> in between \<open>a\<close> and \<open>b\<close>, two that unlink it.\<close>

lemma splice_payload:
  assumes p: "place L xs ys a b" and n: "node_addr L n" "clear_of n (xs @ ys)"
    and out: "\<And>x. x < a \<or> a + 4 \<le> x \<Longrightarrow> x < n \<or> n + 8 \<le> x \<Longrightarrow> x < b + 4 \<or> b + 8 \<le> x \<Longrightarrow> m' x = m x"
  shows "same_payload m m' (xs @ n # ys)"
  unfolding same_payload_def
proof (intro ballI allI impI)
  fix y i :: int assume y: "y \<in> set (xs @ n # ys)" and i: "8 \<le> i" "i < 16"
  note F = place_facts [OF p]
  have far_n: "far n z" if "z \<in> set (xs @ ys)" for z using n(2) that by (auto simp: clear_of_def)
  have nL: "n + 16 \<le> L \<or> L + 16 \<le> n" using n(1) by (simp add: node_addr_def)
  have yL: "y + 16 \<le> L \<or> L + 16 \<le> y" using y F(5) [of y] nL by auto
  have yn: "y = n \<or> far n y" using y far_n by auto
  have yz: "y = z \<or> y + 16 \<le> z \<or> z + 16 \<le> y" if "z \<in> set (xs @ ys)" for z
  proof (cases "y = n")
    case True then show ?thesis using far_n [OF that] by (auto simp: far_def)
  next
    case False
    then have "y \<in> insert L (set (xs @ ys))" using y by auto
    from place_two [OF p this that] show ?thesis by blast
  qed
  have "y + i < a \<or> a + 4 \<le> y + i"
    using F(3) yz [of a] yL i by auto
  moreover have "y + i < b + 4 \<or> b + 8 \<le> y + i"
    using F(4) yz [of b] yL i by auto
  moreover have "y + i < n \<or> n + 8 \<le> y + i" using yn i by (auto simp: far_def)
  ultimately show "m' (y + i) = m (y + i)" using out by blast
qed

lemma exec_list_splice_writes:
  assumes ok: "exec_list m L (xs @ ys)" and n: "node_addr L n" "clear_of n (xs @ ys)"
    and a: "a = last (L # xs)" and b: "b = hd (ys @ [L + 4])"
    and sp: "\<And>c. 4 dvd c \<Longrightarrow> rd32 m' c =
        (if c = a then n else if c = n + 4 then a else if c = n then b
         else if c = b + 4 then n else rd32 m c)"
    and out: "\<And>x. x < a \<or> a + 4 \<le> x \<Longrightarrow> x < n \<or> n + 8 \<le> x \<Longrightarrow> x < b + 4 \<or> b + 8 \<le> x \<Longrightarrow> m' x = m x"
  shows "exec_list m' L (xs @ n # ys) \<and> same_payload m m' (xs @ n # ys)"
proof
  show "exec_list m' L (xs @ n # ys)"
    using exec_list_splice [OF ok n] sp unfolding spliced_def a b by blast
  have "place L xs ys a b" using ok unfolding a b by (simp only: exec_list_place Let_def)
  from splice_payload [OF this n out] show "same_payload m m' (xs @ n # ys)" .
qed

lemma rd32_wr32_cell:
  "4 dvd a \<Longrightarrow> 4 dvd b \<Longrightarrow> 0 \<le> v \<Longrightarrow> v < 2 ^ 32 \<Longrightarrow>
     rd32 (wr32 m a v) b = (if b = a then v else rd32 m b)"
  using rd32_wr32 [of a b v m] by auto

lemma exec_list_at:
  assumes "exec_list m L (xs @ ys)"
  defines "a \<equiv> last (L # xs)" and "b \<equiv> hd (ys @ [L + 4])"
  shows "place L xs ys a b" and "node_succ m a = b" and "node_pred m b = a"
    and "4 dvd a" "4 dvd b" "0 < a" "0 < b" "a < 2 ^ 32" "b < 2 ^ 32"
proof -
  show p: "place L xs ys a b" "node_succ m a = b" "node_pred m b = a"
    using assms(1) by (auto simp: exec_list_place Let_def a_def b_def)
  from place_cells(3-8) [OF p(1)] show "4 dvd a" "4 dvd b" "0 < a" "0 < b" "a < 2 ^ 32" "b < 2 ^ 32"
    by auto
qed

lemma node_cells:
  assumes "place L xs ys a b" "node_addr L n" "clear_of n (xs @ ys)"
  shows "4 dvd n" "0 < n" "n < 2 ^ 32" "a \<noteq> n" "a \<noteq> n + 4" "b \<noteq> n" "b + 4 \<noteq> n" "a \<noteq> b + 4" "L + 4 \<noteq> n"
proof -
  note F = place_facts [OF assms(1)]
  have "a \<in> insert L (insert (L + 4) (set (xs @ ys)))" "b \<in> insert L (insert (L + 4) (set (xs @ ys)))"
    "L + 4 \<in> insert L (insert (L + 4) (set (xs @ ys)))" "a \<in> insert L (set (xs @ ys))"
    using F(3,4) by auto
  from this(1-3) [THEN place_fresh [OF assms(1,2,3)]] place_cells(1) [OF assms(1) this(4)]
  show "4 dvd n" "0 < n" "n < 2 ^ 32" "a \<noteq> n" "a \<noteq> n + 4" "b \<noteq> n" "b + 4 \<noteq> n" "a \<noteq> b + 4" "L + 4 \<noteq> n"
    using assms(2) by (auto simp: node_addr_def)
qed

lemmas cell_defs = node_succ_def node_pred_def set_succ_def set_pred_def

lemma add_head_ok:
  assumes ok: "exec_list m L ns" and n: "node_addr L n" "clear_of n ns"
  shows "\<exists>m'. add_head L n m = (m', Inr ()) \<and> exec_list m' L (n # ns) \<and> same_payload m m' (n # ns)"
proof -
  define b where "b = hd (ns @ [L + 4])"
  have ok': "exec_list m L ([] @ ns)" using ok by simp
  note A = exec_list_at [OF ok', folded b_def, simplified]
  have nn: "clear_of n ([] @ ns)" using n(2) by simp
  note N = node_cells [OF A(1) n(1) nn]
  let ?m' = "set_pred b n (set_succ L n (set_succ n b (set_pred n L m)))"
  have "add_head L n m = (?m', Inr ())" using A(2,7) by (simp add: add_head_def Let_def)
  moreover have "exec_list ?m' L ([] @ n # ns) \<and> same_payload m ?m' ([] @ n # ns)"
  proof -
    have "\<And>c. 4 dvd c \<Longrightarrow> rd32 ?m' c = (if c = L then n else if c = n + 4 then L else if c = n then b
         else if c = b + 4 then n else rd32 m c)"
      unfolding cell_defs using A(4-9) N by (simp add: rd32_wr32_cell)
    moreover have "\<And>x. x < L \<or> L + 4 \<le> x \<Longrightarrow> x < n \<or> n + 8 \<le> x \<Longrightarrow> x < b + 4 \<or> b + 8 \<le> x \<Longrightarrow> ?m' x = m x"
      unfolding cell_defs by (simp only: wr_cells_outside)
    ultimately show ?thesis
      using exec_list_splice_writes [OF ok' n(1) nn _ b_def, of L ?m'] by simp
  qed
  ultimately show ?thesis by auto
qed

lemma add_tail_ok:
  assumes ok: "exec_list m L ns" and n: "node_addr L n" "clear_of n ns"
  shows "\<exists>m'. add_tail L n m = (m', Inr ()) \<and> exec_list m' L (ns @ [n]) \<and> same_payload m m' (ns @ [n])"
proof -
  define a where "a = last (L # ns)"
  have ok': "exec_list m L (ns @ [])" using ok by simp
  note A = exec_list_at [OF ok', folded a_def, simplified]
  have nn: "clear_of n (ns @ [])" using n(2) by simp
  note N = node_cells [OF A(1) n(1) nn]
  let ?m' = "set_succ a n (set_pred n a (set_pred (L + 4) n (set_succ n (L + 4) m)))"
  have "rd32 m (L + 8) = a" using A(3) by (simp add: node_pred_def add.commute)
  then have "add_tail L n m = (?m', Inr ())" using A(6) by (simp add: add_tail_def Let_def)
  moreover have "exec_list ?m' L (ns @ n # []) \<and> same_payload m ?m' (ns @ n # [])"
  proof -
    have "\<And>c. 4 dvd c \<Longrightarrow> rd32 ?m' c = (if c = a then n else if c = n + 4 then a else if c = n then (L + 4)
         else if c = (L + 4) + 4 then n else rd32 m c)"
      unfolding cell_defs using A(4-9) N by (simp add: rd32_wr32_cell)
    moreover have "\<And>x. x < a \<or> a + 4 \<le> x \<Longrightarrow> x < n \<or> n + 8 \<le> x \<Longrightarrow> x < (L + 4) + 4 \<or> (L + 4) + 8 \<le> x \<Longrightarrow> ?m' x = m x"
      unfolding cell_defs by (simp only: wr_cells_outside)
    ultimately show ?thesis
      using exec_list_splice_writes [OF ok' n(1) nn a_def, of "L + 4" ?m'] by simp
  qed
  ultimately show ?thesis by auto
qed

lemma list_insert_ok:
  assumes ok: "exec_list m L (xs @ ys)" and n: "node_addr L n" "clear_of n (xs @ ys)"
    and p: "pred = (if xs = [] then 0 else last xs)"
  shows "\<exists>m'. list_insert L n pred m = (m', Inr ()) \<and> exec_list m' L (xs @ n # ys) \<and>
           same_payload m m' (xs @ n # ys)"
proof (cases "xs = []")
  case True
  then show ?thesis using add_head_ok [of m L ys n] assms by (simp add: list_insert_def)
next
  case False
  define a where "a = last (L # xs)"
  define b where "b = hd (ys @ [L + 4])"
  note A = exec_list_at [OF ok, folded a_def b_def]
  note N = node_cells [OF A(1) n]
  have pa: "pred = a" "a \<noteq> L"
    using False p place_facts(2) [OF A(1)] by (auto simp: a_def)
  let ?m' = "set_succ a n (set_pred b n (set_pred n a (set_succ n b m)))"
  have "list_insert L n pred m = (?m', Inr ())"
    using pa A(2,6,7) by (simp add: list_insert_def Let_def)
  moreover have "exec_list ?m' L (xs @ n # ys) \<and> same_payload m ?m' (xs @ n # ys)"
  proof -
    have "\<And>c. 4 dvd c \<Longrightarrow> rd32 ?m' c = (if c = a then n else if c = n + 4 then a else if c = n then b
         else if c = b + 4 then n else rd32 m c)"
      unfolding cell_defs using A(4-9) N by (simp add: rd32_wr32_cell)
    moreover have "\<And>x. x < a \<or> a + 4 \<le> x \<Longrightarrow> x < n \<or> n + 8 \<le> x \<Longrightarrow> x < b + 4 \<or> b + 8 \<le> x \<Longrightarrow> ?m' x = m x"
      unfolding cell_defs by (simp only: wr_cells_outside)
    ultimately show ?thesis
      by (rule exec_list_splice_writes [OF ok n a_def b_def])
  qed
  ultimately show ?thesis by auto
qed

lemma node_remove_ok:
  assumes ok: "exec_list m L (xs @ n # ys)"
  shows "\<exists>m'. node_remove n cl m = (m', Inr ()) \<and> exec_list m' L (xs @ ys) \<and>
           same_payload m m' (xs @ n # ys) \<and> (cl \<longrightarrow> node_succ m' n = 0 \<and> node_pred m' n = 0)"
proof -
  define a where "a = last (L # xs)"
  define b where "b = hd (ys @ [L + 4])"
  have ok2: "exec_list m L ((xs @ [n]) @ ys)" using ok by simp
  note A = exec_list_at [OF ok, folded a_def, simplified]
    and B = exec_list_at [OF ok2, folded b_def, simplified]
  have ap: "clear_of n (xs @ ys)" "apart (xs @ ys)" and nn: "node_addr L n"
    using ok apart_splice by (auto simp: exec_list_def)
  have p: "place L xs ys a b" using ok ap by (auto simp: exec_list_def place_def a_def b_def)
  note N = node_cells [OF p nn ap(1)]
  let ?m2 = "set_succ a b (set_pred b a m)"
  let ?m' = "if cl then set_pred n 0 (set_succ n 0 ?m2) else ?m2"
  have "node_remove n cl m = (?m', Inr ())"
    using A(3,6) B(2,7) by (simp add: node_remove_def Let_def)
  moreover have "unlinked m ?m' a n b"
    unfolding unlinked_def using A B N place_cells(1) [OF p, of a]
    by (auto simp: cell_defs rd32_wr32_cell)
  then have "exec_list ?m' L (xs @ ys)" by (intro exec_list_unlink [OF ok]) (simp only: a_def b_def)
  moreover have "same_payload m ?m' (xs @ n # ys)"
    unfolding cell_defs by (rule splice_payload [OF p nn ap(1)]) (simp add: wr_cells_outside)
  moreover have "cl \<longrightarrow> node_succ ?m' n = 0 \<and> node_pred ?m' n = 0"
    using N(1) by (auto simp: cell_defs rd32_wr32_cell)
  ultimately show ?thesis by blast
qed

lemma new_list_ok:
  assumes "4 dvd L" "0 < L" "L + 16 \<le> 2 ^ 32"
  shows "exec_list (new_list L lt m) L []" and "exec_list (min_new_list L m) L []"
proof -
  have "rd32 (wr32 (wr32 (wr32 k L (L + 4)) (L + 4) 0) (L + 8) L) L = L + 4"
    "rd32 (wr32 (wr32 (wr32 k L (L + 4)) (L + 4) 0) (L + 8) L) (L + 4) = 0"
    "rd32 (wr32 (wr32 (wr32 k L (L + 4)) (L + 4) 0) (L + 8) L) (L + 8) = L" for k
    using assms by (simp_all add: rd32_wr32_cell)
  then show "exec_list (new_list L lt m) L []" "exec_list (min_new_list L m) L []"
    using assms by (simp_all add: exec_list_def apart_def new_list_def min_new_list_def
        node_succ_def node_pred_def add.commute)
qed

lemma exec_list_nodes:
  assumes "exec_list m L (xs @ ys)"
  shows "\<And>n zs. ys = n # zs \<Longrightarrow> node_succ m n \<noteq> 0 \<and> n \<noteq> 0 \<and> n \<noteq> L" and "node_succ m (L + 4) = 0"
proof -
  show "node_succ m (L + 4) = 0" using assms by (simp add: exec_list_def node_succ_def)
  fix n zs assume ys: "ys = n # zs"
  then have ok: "exec_list m L ((xs @ [n]) @ zs)" using assms by simp
  from exec_list_at(2,7) [OF ok] have "node_succ m n \<noteq> 0" by simp
  moreover have "node_addr L n" using assms ys by (simp add: exec_list_def)
  ultimately show "node_succ m n \<noteq> 0 \<and> n \<noteq> 0 \<and> n \<noteq> L" by (auto simp: node_addr_def)
qed

lemma exec_list_next:
  assumes "exec_list m L (xs @ ys)"
  shows "node_succ m (last (L # xs)) = hd (ys @ [L + 4])"
  using exec_list_at(2) [OF assms] .

lemma iter_nodes_ok:
  "exec_list m L (xs @ ys) \<Longrightarrow> iter_nodes m (hd (ys @ [L + 4])) out = Some (Inr (out @ ys))"
proof (induction ys arbitrary: xs out)
  case Nil
  then have "L + 4 \<noteq> 0" by (simp add: exec_list_def)
  with exec_list_nodes(2) [OF Nil] show ?case by (subst iter_nodes.simps) simp
next
  case (Cons n ys)
  then have ok: "exec_list m L ((xs @ [n]) @ ys)" by simp
  note N = exec_list_nodes(1) [OF Cons.prems refl] and S = exec_list_next [OF ok]
  from Cons.IH [OF ok] N S show ?case by (subst iter_nodes.simps) simp
qed

lemma list_len_ok:
  "exec_list m L (xs @ ys) \<Longrightarrow> list_len_from m (hd (ys @ [L + 4])) l = Some (Inr (l + int (length ys)))"
proof (induction ys arbitrary: xs l)
  case Nil
  then have "L + 4 \<noteq> 0" by (simp add: exec_list_def)
  with exec_list_nodes(2) [OF Nil] show ?case by (subst list_len_from.simps) simp
next
  case (Cons n ys)
  then have ok: "exec_list m L ((xs @ [n]) @ ys)" by simp
  note N = exec_list_nodes(1) [OF Cons.prems refl] and S = exec_list_next [OF ok]
  from Cons.IH [OF ok] N S show ?case by (subst list_len_from.simps) simp
qed

definition insert_fails :: "mem \<Rightarrow> int list \<Rightarrow> int list \<Rightarrow> bool" where
  "insert_fails m xs ys \<longleftrightarrow> xs \<noteq> [] \<and> ys \<noteq> [] \<and> promoted m (last xs)"

lemma enqueue_scan_ok:
  assumes n: "node_addr L n" "clear_of n (xs @ ys)"
  shows "exec_list m L (xs @ ys) \<Longrightarrow>
     let qs = xs @ takeWhile (\<lambda>y. p \<le> node_pri m y) ys; rs = dropWhile (\<lambda>y. p \<le> node_pri m y) ys;
       r = enqueue_scan L n p (if xs = [] then 0 else last xs) (hd (ys @ [L + 4])) m
     in if insert_fails m qs rs then r = Some (m, Inl AttributeError)
        else \<exists>m'. r = Some (m', Inr ()) \<and> exec_list m' L (qs @ n # rs) \<and> same_payload m m' (xs @ n # ys)"
  using n
proof (induction ys arbitrary: xs)
  case Nil
  then have "L + 4 \<noteq> 0" by (simp add: exec_list_def)
  with exec_list_nodes(2) [OF Nil(1)] add_tail_ok [of m L xs n] Nil show ?case
    by (subst enqueue_scan.simps) (auto simp: insert_fails_def)
next
  case (Cons y ys)
  then have ok: "exec_list m L ((xs @ [y]) @ ys)" by simp
  note N = exec_list_nodes(1) [OF Cons.prems(1) refl] and S = exec_list_next [OF ok]
  show ?case
  proof (cases "p \<le> node_pri m y")
    case True
    have "clear_of n ((xs @ [y]) @ ys)" using Cons.prems(3) by simp
    from Cons.IH [OF ok Cons.prems(2) this] N S True show ?thesis
      by (subst enqueue_scan.simps) (auto simp: same_payload_def Let_def)
  next
    case False
    have nz: "last xs \<noteq> 0" if "xs \<noteq> []"
    proof -
      have "node_addr L (last xs)" using Cons.prems(1) that by (simp add: exec_list_def)
      then show ?thesis by (simp add: node_addr_def)
    qed
    from list_insert_ok [OF Cons.prems refl] N False nz show ?thesis
      by (subst enqueue_scan.simps) (auto simp: Let_def insert_fails_def)
  qed
qed

lemma list_insert_at:
  assumes ok: "exec_list m L (xs @ ys)" and n: "node_addr L n" "clear_of n (xs @ ys)"
  shows "\<exists>m'. list_insert L n (last (L # xs)) m = (m', Inr ()) \<and> exec_list m' L (xs @ n # ys) \<and>
           same_payload m m' (xs @ n # ys)"
proof (cases "xs = []")
  case True
  with add_head_ok [of m L ys n] assms show ?thesis by (simp add: list_insert_def)
next
  case False
  with list_insert_ok [OF assms refl] show ?thesis by simp
qed

lemma dropWhile_lower:
  fixes f :: "'a \<Rightarrow> int"
  assumes "sorted_wrt (\<lambda>x y. f y \<le> f x) ns"
  shows "\<forall>y \<in> set (dropWhile (\<lambda>y. p \<le> f y) ns). f y < p"
  using assms by (induction ns) auto

lemma sorted_insert_pri:
  fixes f :: "'a \<Rightarrow> int"
  assumes "sorted_wrt (\<lambda>x y. f y \<le> f x) ns"
  shows "sorted_wrt (\<lambda>x y. f y \<le> f x) (takeWhile (\<lambda>y. f n \<le> f y) ns @ n # dropWhile (\<lambda>y. f n \<le> f y) ns)"
  using assms by (induction ns) (auto dest: set_takeWhileD set_dropWhileD)

subsection \<open>Properties\<close>

text \<open>C18: \<open>new_list\<close> makes an empty list; on a well formed list \<open>add_head\<close>, \<open>add_tail\<close> and
  \<open>insert\<close> put the node exactly where they say, \<open>remove\<close> takes exactly the node out of any
  place, iteration and \<open>len\<close> see exactly the nodes, and no operation touches the payload of
  a node.\<close>

theorem exec_list_operations:
  assumes "exec_list m L (xs @ ys)" and "node_addr L n" and "clear_of n (xs @ ys)"
  shows "(\<exists>m'. add_head L n m = (m', Inr ()) \<and> exec_list m' L (n # xs @ ys) \<and> same_payload m m' (n # xs @ ys)) \<and>
    (\<exists>m'. add_tail L n m = (m', Inr ()) \<and> exec_list m' L ((xs @ ys) @ [n]) \<and> same_payload m m' ((xs @ ys) @ [n])) \<and>
    (\<exists>m'. list_insert L n (last (L # xs)) m = (m', Inr ()) \<and> exec_list m' L (xs @ n # ys) \<and>
       same_payload m m' (xs @ n # ys) \<and>
       (\<exists>m''. node_remove n True m' = (m'', Inr ()) \<and> exec_list m'' L (xs @ ys) \<and>
          same_payload m' m'' (xs @ n # ys))) \<and>
    to_list L m = Some (Inr (xs @ ys)) \<and> list_len L m = Some (Inr (int (length (xs @ ys))))"
proof (intro conjI)
  have ok: "exec_list m L ([] @ xs @ ys)" using assms(1) by simp
  have s: "node_succ m L = hd ((xs @ ys) @ [L + 4])" using exec_list_next [OF ok] by simp
  show "to_list L m = Some (Inr (xs @ ys))" "list_len L m = Some (Inr (int (length (xs @ ys))))"
    using iter_nodes_ok [OF ok] list_len_ok [OF ok] s by (simp_all add: to_list_def list_len_def)
  obtain m' where m': "list_insert L n (last (L # xs)) m = (m', Inr ())" "exec_list m' L (xs @ n # ys)"
    "same_payload m m' (xs @ n # ys)" using list_insert_at [OF assms] by blast
  with node_remove_ok [OF m'(2), of True]
  show "\<exists>m'. list_insert L n (last (L # xs)) m = (m', Inr ()) \<and> exec_list m' L (xs @ n # ys) \<and>
       same_payload m m' (xs @ n # ys) \<and>
       (\<exists>m''. node_remove n True m' = (m'', Inr ()) \<and> exec_list m'' L (xs @ ys) \<and>
          same_payload m' m'' (xs @ n # ys))" by auto
qed (rule add_head_ok [OF assms] add_tail_ok [OF assms])+

lemma demo_list: "exec_list (new_list 4096 0 m) 4096 ([] @ [])" "node_addr 4096 8192" "clear_of 8192 ([] @ [])"
  using new_list_ok(1) [of 4096] by (simp_all add: node_addr_def clear_of_def)

theorem exec_list_operations_witness:
  "\<exists>m'. add_head 4096 8192 (new_list 4096 0 (\<lambda>_. 9)) = (m', Inr ()) \<and> exec_list m' 4096 [8192] \<and>
     same_payload (new_list 4096 0 (\<lambda>_. 9)) m' [8192]"
  using exec_list_operations [OF demo_list, of "\<lambda>_. 9"] by simp

text \<open>C21: \<open>enqueue\<close> on a list sorted by falling priority always returns. The place of the node is behind all nodes of its own
  or a higher priority and before the others; the node is put there, so that the list stays sorted and equal priorities are
  served in the order of their arrival, unless there are nodes on both sides and the one before the place is a task, process,
  device or library: then \<open>AttributeError\<close> is raised and nothing has changed.\<close>

theorem enqueue_priority_order:
  assumes "exec_list m L ns" and "node_addr L n" and "clear_of n ns"
    and "sorted_wrt (\<lambda>x y. node_pri m x \<ge> node_pri m y) ns"
  shows "\<exists>xs ys. ns = xs @ ys \<and> (\<forall>x \<in> set xs. node_pri m n \<le> node_pri m x) \<and> (\<forall>y \<in> set ys. node_pri m y < node_pri m n) \<and>
     (if xs \<noteq> [] \<and> ys \<noteq> [] \<and> promoted m (last xs) then enqueue L n m = Some (m, Inl AttributeError)
      else \<exists>m'. enqueue L n m = Some (m', Inr ()) \<and> exec_list m' L (xs @ n # ys) \<and> same_payload m m' (n # ns) \<and>
             sorted_wrt (\<lambda>x y. node_pri m' x \<ge> node_pri m' y) (xs @ n # ys))"
proof -
  let ?Q = "\<lambda>y. node_pri m n \<le> node_pri m y"
  let ?xs = "takeWhile ?Q ns" and ?ys = "dropWhile ?Q ns"
  have ok: "exec_list m L ([] @ ns)" using assms(1) by simp
  have cl: "clear_of n ([] @ ns)" using assms(3) by simp
  have "node_succ m L = hd (ns @ [L + 4])" using exec_list_next [OF ok] by simp
  with enqueue_scan_ok [OF assms(2) cl ok, of "node_pri m n"] have
    m': "if insert_fails m ?xs ?ys then enqueue L n m = Some (m, Inl AttributeError)
      else \<exists>m'. enqueue L n m = Some (m', Inr ()) \<and> exec_list m' L (?xs @ n # ?ys) \<and> same_payload m m' (n # ns)"
    by (auto simp: enqueue_def Let_def split: if_splits)
  have lo: "\<forall>y \<in> set ?ys. node_pri m y < node_pri m n" by (rule dropWhile_lower [OF assms(4)])
  have hi: "\<forall>x \<in> set ?xs. ?Q x" by (auto dest: set_takeWhileD)
  have srt: "sorted_wrt (\<lambda>x y. node_pri m' x \<ge> node_pri m' y) (?xs @ n # ?ys)" if "same_payload m m' (n # ns)" for m'
  proof (rule sorted_wrt_mono_rel [OF _ sorted_insert_pri [OF assms(4), of n]])
    fix x y assume "x \<in> set (?xs @ n # ?ys)" "y \<in> set (?xs @ n # ?ys)" and le: "node_pri m y \<le> node_pri m x"
    moreover have "set (?xs @ n # ?ys) \<subseteq> set (n # ns)" by (auto dest: set_takeWhileD set_dropWhileD)
    ultimately have "x \<in> set (n # ns)" "y \<in> set (n # ns)" by blast+
    then show "node_pri m' x \<ge> node_pri m' y" using le same_payload_pri [OF that] by simp
  qed
  have "if ?xs \<noteq> [] \<and> ?ys \<noteq> [] \<and> promoted m (last ?xs) then enqueue L n m = Some (m, Inl AttributeError)
      else \<exists>m'. enqueue L n m = Some (m', Inr ()) \<and> exec_list m' L (?xs @ n # ?ys) \<and> same_payload m m' (n # ns) \<and>
             sorted_wrt (\<lambda>x y. node_pri m' x \<ge> node_pri m' y) (?xs @ n # ?ys)"
    using m' srt unfolding insert_fails_def [symmetric] by (auto split: if_splits)
  moreover have "ns = ?xs @ ?ys" by simp
  ultimately show ?thesis using hi lo by blast
qed

text \<open>A list of a library of priority 9 and a node of priority 0, and a node of priority 5 to be enqueued.\<close>

definition demo_nodes :: mem where
  "demo_nodes =
     wr32 (wr32 (wr32 (wr32 (wr32 (wr32 (wr32
       (\<lambda>x. if x = 8200 \<or> x = 8201 then 9 else if x = 8265 then 5 else 0)
       4096 8192) 4100 0) 4104 8224) 8192 8224) 8196 4096) 8224 4100) 8228 8192"

lemma demo_nodes_list: "exec_list demo_nodes 4096 [8192, 8224]"
  by (simp add: exec_list_def demo_nodes_def node_addr_def apart_def far_def node_succ_def node_pred_def rd32_wr32_cell)

lemma demo_nodes_payload:
  "node_pri demo_nodes 8192 = 9" "node_pri demo_nodes 8224 = 0" "node_pri demo_nodes 8256 = 5" "promoted demo_nodes 8192"
proof -
  have b: "demo_nodes 8200 = 9" "demo_nodes 8201 = 9" "demo_nodes 8233 = 0" "demo_nodes 8265 = 5"
    by (simp_all add: demo_nodes_def wr_outside)
  show "node_pri demo_nodes 8192 = 9" "node_pri demo_nodes 8224 = 0" "node_pri demo_nodes 8256 = 5" "promoted demo_nodes 8192"
    by (simp_all add: node_pri_def promoted_def NT_LIBRARY_def rd_def rd_block_def b be_sint_def be_int_def)
qed

theorem enqueue_priority_order_witness:
  "enqueue 4096 8256 demo_nodes = Some (demo_nodes, Inl AttributeError) \<and>
   (\<exists>m'. enqueue 4096 8192 (new_list 4096 0 (\<lambda>_. 9)) = Some (m', Inr ()) \<and> exec_list m' 4096 [8192])"
proof
  note d = demo_nodes_payload
  have "sorted_wrt (\<lambda>x y. node_pri demo_nodes y \<le> node_pri demo_nodes x) [8192, 8224]" "node_addr 4096 8256" "clear_of 8256 [8192, 8224]"
    by (simp_all add: d node_addr_def clear_of_def far_def)
  from enqueue_priority_order [OF demo_nodes_list this(2,3,1)] obtain xs ys where
    e: "[8192, 8224] = xs @ ys" "\<forall>x \<in> set xs. 5 \<le> node_pri demo_nodes x" "\<forall>y \<in> set ys. node_pri demo_nodes y < 5"
      "xs \<noteq> [] \<and> ys \<noteq> [] \<and> promoted demo_nodes (last xs) \<longrightarrow> enqueue 4096 8256 demo_nodes = Some (demo_nodes, Inl AttributeError)"
    unfolding d(3) by metis
  from e(1-3) have "xs = [8192]" "ys = [8224]" by (auto simp: d Cons_eq_append_conv)
  with e(4) d(4) show "enqueue 4096 8256 demo_nodes = Some (demo_nodes, Inl AttributeError)" by simp
  show "\<exists>m'. enqueue 4096 8192 (new_list 4096 0 (\<lambda>_. 9)) = Some (m', Inr ()) \<and> exec_list m' 4096 [8192]"
    using enqueue_priority_order [OF demo_list [simplified], of "\<lambda>_. 9"] by auto
qed

text \<open>\<open>rem_head\<close> and \<open>rem_tail\<close> return the first and the last node of a list that has
  one and take it out; on an empty list they do not return None, as their first test suggests,
  but raise \<open>ValueError\<close>, because the header's sentinel is never 0.\<close>

theorem rem_head_tail:
  assumes "exec_list m L ns"
  shows "(ns \<noteq> [] \<longrightarrow>
      (\<exists>m'. rem_head L m = (m', Inr (hd ns)) \<and> exec_list m' L (tl ns)) \<and>
      (\<exists>m'. rem_tail L m = (m', Inr (last ns)) \<and> exec_list m' L (butlast ns))) \<and>
    (ns = [] \<longrightarrow> rem_head L m = (m, Inl ValueError) \<and> rem_tail L m = (m, Inl ValueError))"
proof (cases ns rule: rev_cases)
  case Nil
  then have "node_succ m L = L + 4" "rd32 m (L + 8) = L" "0 < L" "rd32 m (L + 4) = 0"
    using assms by (auto simp: exec_list_def node_pred_def add.commute)
  with Nil show ?thesis
    by (simp add: rem_head_def rem_tail_def node_remove_def Let_def node_succ_def node_pred_def)
next
  case (snoc zs z)
  obtain y ys where ns: "ns = y # ys" using snoc by (metis append_is_Nil_conv list.exhaust list.distinct(1))
  have ok1: "exec_list m L ([] @ y # ys)" and ok2: "exec_list m L (zs @ z # [])"
    and ok0: "exec_list m L ([] @ ns)" and okn: "exec_list m L (ns @ [])"
    using assms ns snoc by auto
  have "node_succ m L = y" using exec_list_at(2) [OF ok0] ns by simp
  moreover have "rd32 m (L + 8) = z"
    using exec_list_at(3) [OF okn] snoc by (simp add: node_pred_def add.commute)
  moreover have "y \<noteq> 0" "z \<noteq> 0" using exec_list_nodes(1) [OF ok1 refl] exec_list_nodes(1) [OF ok2 refl] by auto
  moreover obtain m1 where "node_remove y True m = (m1, Inr ())" "exec_list m1 L ys"
    using node_remove_ok [OF ok1, of True] by auto
  moreover obtain m2 where "node_remove z True m = (m2, Inr ())" "exec_list m2 L zs"
    using node_remove_ok [OF ok2, of True] by auto
  moreover have "hd ns = y" "tl ns = ys" "ns \<noteq> []" using ns by auto
  moreover have "last ns = z" "butlast ns = zs" unfolding snoc by auto
  ultimately show ?thesis by (simp add: rem_head_def rem_tail_def Let_def)
qed

theorem rem_head_tail_witness:
  "rem_head 4096 (new_list 4096 0 (\<lambda>_. 9)) = (new_list 4096 0 (\<lambda>_. 9), Inl ValueError)"
  using rem_head_tail [OF demo_list(1), of "\<lambda>_. 9"] by simp

end
