(* ===== verification/Scheduler.thy ===== *)
theory Scheduler
  imports Ami_Prelude
begin

unbundle bit_operations_syntax

text \<open>
  The task scheduler of vamos (\<open>vamos/schedule/scheduler.py\<close>) and the tasks it switches
  between (\<open>vamos/schedule/task.py\<close>).

  A task object is its number in \<open>sc_task\<close>. A greenlet switch is a change of the mode of the
  system: \<open>Main\<close> is the loop of \<open>schedule\<close>, \<open>In t\<close> the code of task \<open>t\<close>. What a task does
  between two switches is a sequence of the operations of \<open>TaskBase\<close>; the type variable is
  the context of the emulated CPU.
\<close>

datatype task_state = TS_INVALID | TS_ADDED | TS_RUN | TS_READY | TS_WAIT | TS_EXCEPT | TS_REMOVED

datatype sched_event = ACTIVE_TASK | WAITING_TASK | ADD_TASK | REMOVE_TASK | WAKE_UP_TASK | READY_TASK

record 'c task =
  tk_name :: string
  tk_state :: task_state
  tk_running :: bool
  tk_cpu_ctx :: "'c option"
  forbid_cnt :: int
  forbid_reschedule :: bool
  sigmask_wait :: int
  sigmask_received :: int

definition task_init :: "string \<Rightarrow> 'c task" where
  "task_init name = \<lparr>tk_name = name, tk_state = TS_INVALID, tk_running = False, tk_cpu_ctx = None,
     forbid_cnt = 0, forbid_reschedule = False, sigmask_wait = 0, sigmask_received = 0\<rparr>"

record 'c sched =
  sc_task :: "nat \<Rightarrow> 'c task"
  ready_tasks :: "nat list"
  waiting_tasks :: "nat list"
  cur_task :: "nat option"
  sc_hooks :: bool
  sc_events :: "(sched_event \<times> nat option) list"
  num_switch_same :: int
  num_switch_other :: int
  sc_running :: bool
  sc_cpu :: 'c

definition sched_init :: "(nat \<Rightarrow> string) \<Rightarrow> bool \<Rightarrow> 'c \<Rightarrow> 'c sched" where
  "sched_init names hooks c = \<lparr>sc_task = (\<lambda>t. task_init (names t)), ready_tasks = [], waiting_tasks = [],
     cur_task = None, sc_hooks = hooks, sc_events = [], num_switch_same = 0, num_switch_other = 0,
     sc_running = False, sc_cpu = c\<rparr>"

definition upd_task :: "nat \<Rightarrow> ('c task \<Rightarrow> 'c task) \<Rightarrow> 'c sched \<Rightarrow> 'c sched" where
  "upd_task t f s = s\<lparr>sc_task := (sc_task s)(t := f (sc_task s t))\<rparr>"

definition set_state :: "nat \<Rightarrow> task_state \<Rightarrow> 'c sched \<Rightarrow> 'c sched" where
  "set_state t st = upd_task t (tk_state_update (\<lambda>_. st))"

definition report_event :: "sched_event \<Rightarrow> nat option \<Rightarrow> 'c sched \<Rightarrow> 'c sched" where
  "report_event ev t s = (if sc_hooks s then s\<lparr>sc_events := sc_events s @ [(ev, t)]\<rparr> else s)"

definition get_num_tasks :: "'c sched \<Rightarrow> nat" where
  "get_num_tasks s = length (ready_tasks s) + length (waiting_tasks s) + (if cur_task s = None then 0 else 1)"

text \<open>\<open>list.remove\<close> takes out the first occurrence and raises when there is none.\<close>

definition py_list_remove :: "'a \<Rightarrow> 'a list \<Rightarrow> 'a list res" where
  "py_list_remove x xs = (if x \<in> set xs then Inr (remove1 x xs) else Inl ValueError)"

subsection \<open>Operations of the scheduler\<close>

definition find_run_task :: "'c sched \<Rightarrow> 'c sched \<times> nat option res" where
  "find_run_task s = (case ready_tasks s of
      t # ts \<Rightarrow> (s\<lparr>ready_tasks := ts\<rparr>, Inr (Some t))
    | [] \<Rightarrow> (case cur_task s of
          None \<Rightarrow> (s, Inl AttributeError)
        | Some t \<Rightarrow> (s, Inr (if tk_state (sc_task s t) \<in> {TS_READY, TS_RUN} then Some t else None))))"

definition make_current :: "nat option \<Rightarrow> 'c sched \<Rightarrow> 'c sched" where
  "make_current t s = report_event ACTIVE_TASK t (s\<lparr>cur_task := t\<rparr>)"

text \<open>\<open>wait_task\<close> and \<open>wake_up_task\<close> end with a \<open>reschedule\<close>: the caller is switched out.\<close>

definition wait_task :: "nat \<Rightarrow> 'c sched \<Rightarrow> 'c sched" where
  "wait_task t s = report_event WAITING_TASK (Some t)
     (set_state t TS_WAIT (s\<lparr>waiting_tasks := waiting_tasks s @ [t]\<rparr>))"

definition wake_up_task :: "nat \<Rightarrow> 'c sched \<Rightarrow> 'c sched \<times> unit res" where
  "wake_up_task t s = (case py_list_remove t (waiting_tasks s) of
      Inl e \<Rightarrow> (s, Inl e)
    | Inr ws \<Rightarrow> (report_event WAKE_UP_TASK (Some t)
         (set_state t TS_READY (s\<lparr>waiting_tasks := ws, ready_tasks := t # ready_tasks s\<rparr>)), Inr ()))"

definition add_task :: "nat \<Rightarrow> 'c sched \<Rightarrow> 'c sched" where
  "add_task t s =
     (let s' = set_state t TS_ADDED (s\<lparr>ready_tasks := ready_tasks s @ [t]\<rparr>)
      in if sc_running s' then report_event ADD_TASK (Some t) s' else s')"

definition terminate_task :: "nat \<Rightarrow> 'c sched \<Rightarrow> 'c sched \<times> bool" where
  "terminate_task t s =
     (let found = (if cur_task s = Some t then Some (s\<lparr>cur_task := None\<rparr>)
                   else if t \<in> set (ready_tasks s) then Some (s\<lparr>ready_tasks := remove1 t (ready_tasks s)\<rparr>)
                   else if t \<in> set (waiting_tasks s) then Some (s\<lparr>waiting_tasks := remove1 t (waiting_tasks s)\<rparr>)
                   else None)
      in case found of
           None \<Rightarrow> (s, False)
         | Some s1 \<Rightarrow> (let s2 = set_state t TS_REMOVED s1
                      in (if sc_running s2 then report_event REMOVE_TASK (Some t) s2 else s2, True)))"

definition find_task_pred_func :: "('c task \<Rightarrow> bool) \<Rightarrow> 'c sched \<Rightarrow> nat option" where
  "find_task_pred_func p s =
     find (\<lambda>t. p (sc_task s t))
       ((case cur_task s of None \<Rightarrow> [] | Some t \<Rightarrow> [t]) @ ready_tasks s @ waiting_tasks s)"

definition find_task :: "string \<Rightarrow> 'c sched \<Rightarrow> nat option" where
  "find_task name = find_task_pred_func (\<lambda>k. tk_name k = name)"

subsection \<open>Operations of a task\<close>

definition forbid :: "nat \<Rightarrow> 'c sched \<Rightarrow> 'c sched \<times> int" where
  "forbid t s = (let s' = upd_task t (forbid_cnt_update (\<lambda>c. c + 1)) s in (s', forbid_cnt (sc_task s' t)))"

text \<open>The last result says whether the task gave up its execution.\<close>

definition permit :: "nat \<Rightarrow> 'c sched \<Rightarrow> 'c sched \<times> int \<times> bool" where
  "permit t s =
     (let s1 = upd_task t (forbid_cnt_update (\<lambda>c. c - 1)) s; k = sc_task s1 t
      in if forbid_cnt k = 0 \<and> forbid_reschedule k
         then (upd_task t (forbid_reschedule_update (\<lambda>_. False)) s1, forbid_cnt k, True)
         else (s1, forbid_cnt k, False))"

definition is_forbidden :: "nat \<Rightarrow> 'c sched \<Rightarrow> bool" where
  "is_forbidden t s \<longleftrightarrow> 0 < forbid_cnt (sc_task s t)"

definition keep_scheduled :: "nat \<Rightarrow> 'c sched \<Rightarrow> 'c sched" where
  "keep_scheduled t s =
     (if 0 < forbid_cnt (sc_task s t) then upd_task t (forbid_reschedule_update (\<lambda>_. True)) s else s)"

text \<open>\<open>wait\<close> up to the point where the task is switched out (or its result, when a signal is
  already there), and the rest of it, which runs when the task is switched in again.\<close>

definition wait_begin :: "nat \<Rightarrow> int \<Rightarrow> 'c sched \<Rightarrow> 'c sched \<times> int option" where
  "wait_begin t sigmask s =
     (let got = sigmask_received (sc_task s t) AND sigmask
      in if got \<noteq> 0 then (s, Some got)
         else (wait_task t (upd_task t (sigmask_wait_update (\<lambda>_. sigmask)) s), None))"

definition wait_end :: "nat \<Rightarrow> int \<Rightarrow> 'c sched \<Rightarrow> 'c sched \<times> int" where
  "wait_end t sigmask s =
     (upd_task t (sigmask_wait_update (\<lambda>_. 0)) s, sigmask_received (sc_task s t) AND sigmask)"

text \<open>The second result says whether the caller was switched out.\<close>

definition set_signal :: "nat \<Rightarrow> int \<Rightarrow> int \<Rightarrow> 'c sched \<Rightarrow> 'c sched \<times> (int \<times> bool) res" where
  "set_signal t new_signals sigmask s =
     (let old = sigmask_received (sc_task s t);
          s1 = upd_task t (sigmask_received_update (\<lambda>_. new_signals OR (old AND NOT sigmask))) s;
          k = sc_task s1 t
      in if sigmask_wait k \<noteq> 0 \<and> sigmask_received k AND sigmask_wait k \<noteq> 0
         then (case wake_up_task t s1 of (s2, r) \<Rightarrow> (s2, rbind r (\<lambda>_. Inr (old, True))))
         else (s1, Inr (old, False)))"

definition save_ctx :: "nat \<Rightarrow> 'c sched \<Rightarrow> 'c sched" where
  "save_ctx t s = (if tk_running (sc_task s t) then upd_task t (tk_cpu_ctx_update (\<lambda>_. Some (sc_cpu s))) s else s)"

definition restore_ctx :: "nat \<Rightarrow> 'c sched \<Rightarrow> 'c sched res" where
  "restore_ctx t s =
     (if tk_running (sc_task s t)
      then (case tk_cpu_ctx (sc_task s t) of None \<Rightarrow> Inl TypeError | Some c \<Rightarrow> Inr (s\<lparr>sc_cpu := c\<rparr>))
      else Inr s)"

subsection \<open>The main loop\<close>

datatype loop_result = Loop_End bool | Loop_Switch nat | Loop_Raise py_error

definition switch_out :: "nat \<Rightarrow> 'c sched \<Rightarrow> 'c sched" where
  "switch_out t s = save_ctx t
     (if tk_state (sc_task s t) = TS_RUN
      then (let s1 = set_state t TS_READY s
            in report_event READY_TASK (Some t) (s1\<lparr>ready_tasks := ready_tasks s1 @ [t]\<rparr>))
      else s)"

definition switch_in :: "nat \<Rightarrow> 'c sched \<Rightarrow> 'c sched res" where
  "switch_in t s = restore_ctx t (set_state t TS_RUN (make_current (Some t) (s\<lparr>cur_task := Some t\<rparr>)))"

text \<open>The task an iteration runs: the current one while it forbids switching, else the one
  \<open>_find_run_task\<close> takes.\<close>

definition pick_task :: "'c sched \<Rightarrow> 'c sched \<times> nat option res" where
  "pick_task s = (case cur_task s of
      None \<Rightarrow> find_run_task s
    | Some t \<Rightarrow> if is_forbidden t s then (s, Inr (Some t)) else find_run_task s)"

definition run_task :: "nat \<Rightarrow> 'c sched \<Rightarrow> 'c sched \<times> loop_result" where
  "run_task t s =
     (if cur_task s = Some t
      then (keep_scheduled t (s\<lparr>num_switch_same := num_switch_same s + 1\<rparr>), Loop_Switch t)
      else let s1 = s\<lparr>num_switch_other := num_switch_other s + 1\<rparr>;
               s2 = (case cur_task s1 of None \<Rightarrow> s1 | Some old \<Rightarrow> switch_out old s1)
           in case switch_in t s2 of Inl e \<Rightarrow> (s2, Loop_Raise e) | Inr s3 \<Rightarrow> (s3, Loop_Switch t))"

definition loop_iter :: "'c sched \<Rightarrow> 'c sched \<times> loop_result" where
  "loop_iter s =
     (if get_num_tasks s = 0
      then ((make_current None s)\<lparr>sc_running := False\<rparr>, Loop_End True)
      else case pick_task s of
          (s1, Inl e) \<Rightarrow> (s1, Loop_Raise e)
        | (s1, Inr None) \<Rightarrow> (s1, Loop_End False)
        | (s1, Inr (Some t)) \<Rightarrow> run_task t s1)"

definition schedule_start :: "'c sched \<Rightarrow> 'c sched res" where
  "schedule_start s =
     (if ready_tasks s = [] then Inl RuntimeError
      else Inr (fold (\<lambda>t. report_event ADD_TASK (Some t)) (ready_tasks s) (s\<lparr>sc_running := True\<rparr>)))"

subsection \<open>The system: the loop and the tasks\<close>

datatype mode = Main | In nat | Finished bool | Crashed py_error

record 'c system =
  sy_sched :: "'c sched"
  sy_mode :: mode
  sy_wait :: "nat \<Rightarrow> int option"
  sy_got :: "nat \<Rightarrow> int option"

text \<open>\<open>task.switch()\<close> goes on where the task was switched out: a task that waits runs the rest of
  its \<open>wait\<close> first.\<close>

definition main_step :: "'c system \<Rightarrow> 'c system" where
  "main_step y = (case loop_iter (sy_sched y) of
      (s, Loop_End b) \<Rightarrow> y\<lparr>sy_sched := s, sy_mode := Finished b\<rparr>
    | (s, Loop_Raise e) \<Rightarrow> y\<lparr>sy_sched := s, sy_mode := Crashed e\<rparr>
    | (s, Loop_Switch t) \<Rightarrow> (case sy_wait y t of
          None \<Rightarrow> y\<lparr>sy_sched := s, sy_mode := In t\<rparr>
        | Some m \<Rightarrow> (case wait_end t m s of (s', got) \<Rightarrow>
            y\<lparr>sy_sched := s', sy_mode := In t, sy_wait := (sy_wait y)(t := None),
              sy_got := (sy_got y)(t := Some got)\<rparr>)))"

datatype 'c task_op =
    Op_Reschedule
  | Op_Forbid
  | Op_Permit
  | Op_Wait int
  | Op_Signal nat int int
  | Op_Run bool
  | Op_Compute 'c
  | Op_Exit

text \<open>What a task does: give up its time slice, enter or leave the forbid state, wait, signal a
  task, enter or leave a native run, change the CPU context in it, end.\<close>

fun task_step :: "nat \<Rightarrow> 'c task_op \<Rightarrow> 'c system \<Rightarrow> 'c system" where
  "task_step t Op_Reschedule y = y\<lparr>sy_mode := Main\<rparr>"
| "task_step t Op_Forbid y = y\<lparr>sy_sched := fst (forbid t (sy_sched y))\<rparr>"
| "task_step t Op_Permit y = (case permit t (sy_sched y) of (s, k, resched) \<Rightarrow>
     y\<lparr>sy_sched := s, sy_mode := (if resched then Main else In t)\<rparr>)"
| "task_step t (Op_Wait m) y = (case wait_begin t m (sy_sched y) of
     (s, Some got) \<Rightarrow> y\<lparr>sy_sched := s, sy_got := (sy_got y)(t := Some got)\<rparr>
   | (s, None) \<Rightarrow> y\<lparr>sy_sched := s, sy_mode := Main, sy_wait := (sy_wait y)(t := Some m)\<rparr>)"
| "task_step t (Op_Signal u new m) y = (case set_signal u new m (sy_sched y) of
     (s, Inl e) \<Rightarrow> y\<lparr>sy_sched := s, sy_mode := Crashed e\<rparr>
   | (s, Inr (old, resched)) \<Rightarrow> y\<lparr>sy_sched := s, sy_mode := (if resched then Main else In t)\<rparr>)"
| "task_step t (Op_Run b) y =
     y\<lparr>sy_sched := upd_task t (tk_running_update (\<lambda>_. b)) (sy_sched y)\<rparr>"
| "task_step t (Op_Compute c) y = y\<lparr>sy_sched := (sy_sched y)\<lparr>sc_cpu := c\<rparr>\<rparr>"
| "task_step t Op_Exit y = y\<lparr>sy_sched := fst (terminate_task t (sy_sched y)), sy_mode := Main\<rparr>"

text \<open>A step is an iteration of the loop or one operation of the task that runs.\<close>

inductive sys_step :: "'c system \<Rightarrow> (nat \<times> 'c task_op) option \<Rightarrow> 'c system \<Rightarrow> bool" where
  sys_main: "sy_mode y = Main \<Longrightarrow> sys_step y None (main_step y)"
| sys_task: "sy_mode y = In t \<Longrightarrow> sys_step y (Some (t, op)) (task_step t op y)"

inductive_cases sys_mainE: "sys_step y None y'"
inductive_cases sys_taskE: "sys_step y (Some (t, op)) y'"

text \<open>The system with the tasks \<open>ts\<close> added and \<open>schedule\<close> entered.\<close>

definition sys_init :: "(nat \<Rightarrow> string) \<Rightarrow> bool \<Rightarrow> 'c \<Rightarrow> nat list \<Rightarrow> 'c system res" where
  "sys_init names hooks c ts = rbind (schedule_start (fold add_task ts (sched_init names hooks c)))
     (\<lambda>s. Inr \<lparr>sy_sched = s, sy_mode = Main, sy_wait = (\<lambda>_. None), sy_got = (\<lambda>_. None)\<rparr>)"

subsection \<open>The invariant\<close>

lemma upd_task_sel [simp]:
  "sc_task (upd_task t f s) = (sc_task s)(t := f (sc_task s t))"
  "ready_tasks (upd_task t f s) = ready_tasks s"
  "waiting_tasks (upd_task t f s) = waiting_tasks s"
  "cur_task (upd_task t f s) = cur_task s"
  "sc_cpu (upd_task t f s) = sc_cpu s"
  "sc_running (upd_task t f s) = sc_running s"
  "sc_hooks (upd_task t f s) = sc_hooks s"
  by (simp_all add: upd_task_def)

lemma report_event_sel [simp]:
  "sc_task (report_event e x s) = sc_task s"
  "ready_tasks (report_event e x s) = ready_tasks s"
  "waiting_tasks (report_event e x s) = waiting_tasks s"
  "cur_task (report_event e x s) = cur_task s"
  "sc_cpu (report_event e x s) = sc_cpu s"
  "sc_running (report_event e x s) = sc_running s"
  "sc_hooks (report_event e x s) = sc_hooks s"
  by (simp_all add: report_event_def)

lemma set_state_sel [simp]:
  "sc_task (set_state t st s) = (sc_task s)(t := (sc_task s t)\<lparr>tk_state := st\<rparr>)"
  "ready_tasks (set_state t st s) = ready_tasks s"
  "waiting_tasks (set_state t st s) = waiting_tasks s"
  "cur_task (set_state t st s) = cur_task s"
  "sc_cpu (set_state t st s) = sc_cpu s"
  "sc_running (set_state t st s) = sc_running s"
  "sc_hooks (set_state t st s) = sc_hooks s"
  by (simp_all add: set_state_def)

text \<open>What holds of one task: its state says where it is, a waiting task has none of the signals
  it waits for, a task that is not current forbids nothing and has its CPU context saved.\<close>

definition task_ok :: "'c sched \<Rightarrow> nat \<Rightarrow> bool" where
  "task_ok s t \<longleftrightarrow> (let k = sc_task s t;
       idle = (forbid_cnt k \<le> 0 \<and> (cur_task s \<noteq> Some t \<longrightarrow> tk_running k \<longrightarrow> tk_cpu_ctx k \<noteq> None))
     in (t \<in> set (ready_tasks s) \<longleftrightarrow> tk_state k \<in> {TS_ADDED, TS_READY}) \<and>
        (t \<in> set (waiting_tasks s) \<longleftrightarrow> tk_state k = TS_WAIT) \<and>
        (case tk_state k of
           TS_RUN \<Rightarrow> cur_task s = Some t
         | TS_WAIT \<Rightarrow> idle \<and> sigmask_received k AND sigmask_wait k = 0
         | TS_ADDED \<Rightarrow> idle \<and> cur_task s \<noteq> Some t
         | TS_READY \<Rightarrow> idle \<and> cur_task s \<noteq> Some t
         | _ \<Rightarrow> cur_task s \<noteq> Some t))"

definition sched_ok :: "'c sched \<Rightarrow> bool" where
  "sched_ok s \<longleftrightarrow> distinct (ready_tasks s) \<and> distinct (waiting_tasks s) \<and> (\<forall>t. task_ok s t)"

definition wait_ok :: "'c system \<Rightarrow> nat \<Rightarrow> bool" where
  "wait_ok y t \<longleftrightarrow> (let k = sc_task (sy_sched y) t in
     (tk_state k = TS_WAIT \<longrightarrow> sy_wait y t \<noteq> None) \<and>
     (\<forall>m. sy_wait y t = Some m \<longrightarrow> tk_state k \<in> {TS_WAIT, TS_READY} \<and> sigmask_wait k = m))"

definition sys_ok :: "'c system \<Rightarrow> bool" where
  "sys_ok y \<longleftrightarrow> sched_ok (sy_sched y) \<and> (\<forall>t. wait_ok y t) \<and>
     (\<forall>t. sy_mode y = In t \<longrightarrow> cur_task (sy_sched y) = Some t \<and> tk_state (sc_task (sy_sched y) t) = TS_RUN)"

text \<open>A task should not wait, for signals that are not there yet, while it forbids switching.\<close>

fun op_polite :: "'c sched \<Rightarrow> (nat \<times> 'c task_op) option \<Rightarrow> bool" where
  "op_polite s (Some (t, Op_Wait m)) \<longleftrightarrow>
     \<not> is_forbidden t s \<or> sigmask_received (sc_task s t) AND m \<noteq> 0"
| "op_polite s _ \<longleftrightarrow> True"

inductive sys_reach :: "'c system \<Rightarrow> 'c system \<Rightarrow> bool" for y0 where
  reach_init: "sys_reach y0 y0"
| reach_step: "sys_reach y0 y \<Longrightarrow> op_polite (sy_sched y) l \<Longrightarrow> sys_step y l y' \<Longrightarrow> sys_reach y0 y'"

lemma sched_okD: "sched_ok s \<Longrightarrow> task_ok s t"
  by (simp add: sched_ok_def)

lemma sched_ok_cong:
  assumes "sched_ok s" and "ready_tasks s' = ready_tasks s" and "waiting_tasks s' = waiting_tasks s"
    and "\<And>t. cur_task s' = cur_task s \<and> tk_state (sc_task s' t) = tk_state (sc_task s t) \<and>
      (forbid_cnt (sc_task s' t) \<le> forbid_cnt (sc_task s t) \<or> tk_state (sc_task s t) = TS_RUN) \<and>
      (sc_task s' t \<noteq> sc_task s t \<longrightarrow> (tk_state (sc_task s t) = TS_WAIT \<longrightarrow>
          sigmask_received (sc_task s' t) AND sigmask_wait (sc_task s' t) = 0) \<and>
        (cur_task s = Some t \<or> (tk_running (sc_task s' t) = tk_running (sc_task s t) \<and>
            tk_cpu_ctx (sc_task s' t) = tk_cpu_ctx (sc_task s t))))"
  shows "sched_ok s'"
proof -
  have "task_ok s' t" for t
    using sched_okD [OF assms(1), of t] assms(4) [of t] unfolding task_ok_def Let_def assms(2,3)
    by (cases "tk_state (sc_task s t)"; cases "sc_task s' t = sc_task s t") (force)+
  then show ?thesis using assms by (simp add: sched_ok_def)
qed

lemma switch_out_sel:
  "ready_tasks (switch_out c s) = ready_tasks s @ (if tk_state (sc_task s c) = TS_RUN then [c] else [])"
  "waiting_tasks (switch_out c s) = waiting_tasks s"
  "cur_task (switch_out c s) = cur_task s"
  "sc_cpu (switch_out c s) = sc_cpu s"
  "sc_task (switch_out c s) = (sc_task s)(c := (sc_task s c)
     \<lparr>tk_state := (if tk_state (sc_task s c) = TS_RUN then TS_READY else tk_state (sc_task s c)),
      tk_cpu_ctx := (if tk_running (sc_task s c) then Some (sc_cpu s) else tk_cpu_ctx (sc_task s c))\<rparr>)"
  by (auto simp: switch_out_def save_ctx_def Let_def)

lemma switch_in_ok:
  assumes "tk_running (sc_task s r) \<Longrightarrow> tk_cpu_ctx (sc_task s r) \<noteq> None"
  shows "\<exists>s'. switch_in r s = Inr s' \<and> ready_tasks s' = ready_tasks s \<and> waiting_tasks s' = waiting_tasks s \<and>
     cur_task s' = Some r \<and> sc_task s' = (sc_task s)(r := (sc_task s r)\<lparr>tk_state := TS_RUN\<rparr>) \<and>
     sc_cpu s' = (if tk_running (sc_task s r) then the (tk_cpu_ctx (sc_task s r)) else sc_cpu s)"
  using assms by (auto simp: switch_in_def restore_ctx_def make_current_def)

text \<open>The iteration that switches to the first ready task.\<close>

definition switched :: "nat \<Rightarrow> nat list \<Rightarrow> 'c sched \<Rightarrow> 'c sched \<Rightarrow> bool" where
  "switched r rs s s' \<longleftrightarrow> waiting_tasks s' = waiting_tasks s \<and> cur_task s' = Some r \<and>
     sc_cpu s' = (if tk_running (sc_task s r) then the (tk_cpu_ctx (sc_task s r)) else sc_cpu s) \<and>
     (case cur_task s of
        None \<Rightarrow> ready_tasks s' = rs \<and> sc_task s' = (sc_task s)(r := (sc_task s r)\<lparr>tk_state := TS_RUN\<rparr>)
      | Some c \<Rightarrow> c \<noteq> r \<and> ready_tasks s' = rs @ (if tk_state (sc_task s c) = TS_RUN then [c] else []) \<and>
          sc_task s' = (sc_task s)(r := (sc_task s r)\<lparr>tk_state := TS_RUN\<rparr>, c := (sc_task s c)
            \<lparr>tk_state := (if tk_state (sc_task s c) = TS_RUN then TS_READY else tk_state (sc_task s c)),
             tk_cpu_ctx := (if tk_running (sc_task s c) then Some (sc_cpu s) else tk_cpu_ctx (sc_task s c))\<rparr>))"

lemma ready_head_ok:
  assumes "sched_ok s" and "ready_tasks s = r # rs"
  shows "cur_task s \<noteq> Some r \<and> tk_state (sc_task s r) \<in> {TS_ADDED, TS_READY} \<and> forbid_cnt (sc_task s r) \<le> 0 \<and>
    (tk_running (sc_task s r) \<longrightarrow> tk_cpu_ctx (sc_task s r) \<noteq> None)"
  using sched_okD [OF assms(1), of r] assms(2)
  by (cases "tk_state (sc_task s r)") (simp_all add: task_ok_def Let_def)

lemma loop_iter_switch:
  assumes ok: "sched_ok s" and r: "ready_tasks s = r # rs"
    and f: "\<And>c. cur_task s = Some c \<Longrightarrow> \<not> is_forbidden c s"
  shows "\<exists>s'. loop_iter s = (s', Loop_Switch r) \<and> switched r rs s s'"
proof -
  have nc: "cur_task s \<noteq> Some r" and ctx: "tk_running (sc_task s r) \<Longrightarrow> tk_cpu_ctx (sc_task s r) \<noteq> None"
    using ready_head_ok [OF ok r] by auto
  let ?s1 = "s\<lparr>ready_tasks := rs\<rparr>"
  have p: "pick_task s = (?s1, Inr (Some r))"
    using f r by (auto simp: pick_task_def find_run_task_def split: option.splits)
  define s2 where "s2 = (case cur_task s of None \<Rightarrow> ?s1\<lparr>num_switch_other := num_switch_other s + 1\<rparr>
    | Some c \<Rightarrow> switch_out c (?s1\<lparr>num_switch_other := num_switch_other s + 1\<rparr>))"
  have sel: "sc_task s2 r = sc_task s r" "waiting_tasks s2 = waiting_tasks s" "sc_cpu s2 = sc_cpu s"
    using nc by (auto simp: s2_def switch_out_sel split: option.splits)
  obtain s' where s': "switch_in r s2 = Inr s'" "ready_tasks s' = ready_tasks s2"
      "waiting_tasks s' = waiting_tasks s2" "cur_task s' = Some r"
      "sc_task s' = (sc_task s2)(r := (sc_task s2 r)\<lparr>tk_state := TS_RUN\<rparr>)"
      "sc_cpu s' = (if tk_running (sc_task s2 r) then the (tk_cpu_ctx (sc_task s2 r)) else sc_cpu s2)"
    using switch_in_ok [of s2 r] ctx sel(1) by auto
  have "run_task r ?s1 = (s', Loop_Switch r)"
    using nc s'(1) by (simp add: run_task_def Let_def s2_def cong: option.case_cong)
  then have "loop_iter s = (s', Loop_Switch r)"
    using r p by (simp add: loop_iter_def get_num_tasks_def)
  moreover have "switched r rs s s'"
    using nc s' sel by (auto simp: switched_def s2_def switch_out_sel fun_upd_twist split: option.splits)
  ultimately show ?thesis by blast
qed

lemma loop_iter_keep:
  assumes "cur_task s = Some t" and "tk_state (sc_task s t) = TS_RUN" and "is_forbidden t s \<or> ready_tasks s = []"
  shows "loop_iter s = (keep_scheduled t (s\<lparr>num_switch_same := num_switch_same s + 1\<rparr>), Loop_Switch t)"
  using assms by (auto simp: loop_iter_def get_num_tasks_def pick_task_def find_run_task_def run_task_def)

lemma loop_iter_stop:
  "cur_task s = None \<Longrightarrow> ready_tasks s = [] \<Longrightarrow> waiting_tasks s = [] \<Longrightarrow>
     loop_iter s = ((make_current None s)\<lparr>sc_running := False\<rparr>, Loop_End True)"
  "cur_task s = None \<Longrightarrow> ready_tasks s = [] \<Longrightarrow> waiting_tasks s \<noteq> [] \<Longrightarrow>
     loop_iter s = (s, Loop_Raise AttributeError)"
  "cur_task s = Some t \<Longrightarrow> tk_state (sc_task s t) = TS_WAIT \<Longrightarrow> \<not> is_forbidden t s \<Longrightarrow> ready_tasks s = [] \<Longrightarrow>
     loop_iter s = (s, Loop_End False)"
  by (auto simp: loop_iter_def get_num_tasks_def pick_task_def find_run_task_def)

lemma switched_ok:
  assumes ok: "sched_ok s" and r: "ready_tasks s = r # rs" and sw: "switched r rs s s'"
    and f: "\<And>c. cur_task s = Some c \<Longrightarrow> \<not> is_forbidden c s"
  shows "sched_ok s'"
proof -
  note hd = ready_head_ok [OF ok r]
  have d: "distinct (r # rs)" "distinct (waiting_tasks s)" using ok r by (simp_all add: sched_ok_def)
  show ?thesis
  proof (cases "cur_task s")
    case None
    have "task_ok s' t" for t
      using sched_okD [OF ok, of t] hd sw None r d
      by (cases "t = r"; cases "tk_state (sc_task s t)") (simp_all add: task_ok_def switched_def Let_def)
    then show ?thesis using d sw None by (simp add: sched_ok_def switched_def)
  next
    case (Some c)
    have c: "tk_state (sc_task s c) = TS_RUN \<or> tk_state (sc_task s c) = TS_WAIT" "c \<notin> set rs" "c \<noteq> r"
      "forbid_cnt (sc_task s c) \<le> 0" using sched_okD [OF ok, of c] Some r hd f
      by (cases "tk_state (sc_task s c)"; simp add: task_ok_def Let_def is_forbidden_def)+
    have "task_ok s' t" for t
    proof (cases "t = c")
      case True
      then show ?thesis
        using sched_okD [OF ok, of t] sw Some r c by (auto simp: task_ok_def switched_def Let_def)
    next
      case False
      then show ?thesis using sched_okD [OF ok, of t] hd sw Some r d c
        by (cases "t = r"; cases "tk_state (sc_task s t)") (simp_all add: task_ok_def switched_def Let_def)
    qed
    then show ?thesis using d sw Some c by (auto simp: sched_ok_def switched_def)
  qed
qed

lemma running_ok:
  assumes "sched_ok s" and "cur_task s = Some t" and "tk_state (sc_task s t) = TS_RUN"
    and "ready_tasks s' = ready_tasks s" and "waiting_tasks s' = waiting_tasks s" and "cur_task s' = cur_task s"
    and "sc_task s' = (sc_task s)(t := k)" and "tk_state k = TS_RUN"
  shows "sched_ok s'"
proof -
  have "task_ok s' u" for u
    using sched_okD [OF assms(1), of u] assms(2-)
    by (cases "u = t"; cases "tk_state (sc_task s u)") (simp_all add: task_ok_def Let_def)
  then show ?thesis using assms by (simp add: sched_ok_def)
qed

lemma current_ok:
  assumes "sched_ok s" and "cur_task s = Some t"
  shows "tk_state (sc_task s t) = TS_RUN \<or>
    (tk_state (sc_task s t) = TS_WAIT \<and> \<not> is_forbidden t s)"
  using sched_okD [OF assms(1), of t] assms(2)
  by (cases "tk_state (sc_task s t)") (simp_all add: task_ok_def Let_def is_forbidden_def)

lemma keep_scheduled_sel [simp]:
  "ready_tasks (keep_scheduled t s) = ready_tasks s" "waiting_tasks (keep_scheduled t s) = waiting_tasks s"
  "cur_task (keep_scheduled t s) = cur_task s"
  "tk_state (sc_task (keep_scheduled t s) u) = tk_state (sc_task s u)"
  "sigmask_wait (sc_task (keep_scheduled t s) u) = sigmask_wait (sc_task s u)"
  by (simp_all add: keep_scheduled_def)

lemma keep_scheduled_task:
  "\<exists>k. sc_task (keep_scheduled t s) = (sc_task s)(t := k) \<and> tk_state k = tk_state (sc_task s t)"
proof (cases "0 < forbid_cnt (sc_task s t)")
  case True
  then show ?thesis
    by (intro exI [of _ "forbid_reschedule_update (\<lambda>_. True) (sc_task s t)"]) (simp add: keep_scheduled_def)
next
  case False
  then show ?thesis by (intro exI [of _ "sc_task s t"]) (simp add: keep_scheduled_def)
qed

text \<open>Every iteration of the loop: it ends, runs the current task on, or switches to the first
  ready one.\<close>

lemma loop_iter_cases:
  assumes ok: "sched_ok s"
  obtains (stop) "get_num_tasks s = 0" "loop_iter s = ((make_current None s)\<lparr>sc_running := False\<rparr>, Loop_End True)"
  | (none_left) "cur_task s = None" "ready_tasks s = []" "waiting_tasks s \<noteq> []"
      "loop_iter s = (s, Loop_Raise AttributeError)"
  | (idle) t where "cur_task s = Some t" "tk_state (sc_task s t) = TS_WAIT" "ready_tasks s = []"
      "loop_iter s = (s, Loop_End False)"
  | (keep) t where "cur_task s = Some t" "tk_state (sc_task s t) = TS_RUN" "is_forbidden t s \<or> ready_tasks s = []"
      "loop_iter s = (keep_scheduled t (s\<lparr>num_switch_same := num_switch_same s + 1\<rparr>), Loop_Switch t)"
  | (switch) r rs s' where "ready_tasks s = r # rs" "\<And>c. cur_task s = Some c \<Longrightarrow> \<not> is_forbidden c s"
      "loop_iter s = (s', Loop_Switch r)" "switched r rs s s'"
proof (cases "cur_task s")
  case None
  show thesis
  proof (cases "ready_tasks s")
    case Nil
    then show thesis
      using None loop_iter_stop(1,2) [OF None Nil] stop none_left
      by (cases "waiting_tasks s = []") (auto simp: get_num_tasks_def)
  next
    case (Cons r rs)
    then show thesis using loop_iter_switch [OF ok Cons] None switch by force
  qed
next
  case (Some t)
  note c = current_ok [OF ok Some]
  show thesis
  proof (cases "tk_state (sc_task s t) = TS_RUN \<and> (is_forbidden t s \<or> ready_tasks s = [])")
    case True
    then show thesis using loop_iter_keep Some keep by blast
  next
    case False
    show thesis
    proof (cases "ready_tasks s")
      case Nil
      then show thesis using loop_iter_stop(3) [OF Some] c False Some idle by blast
    next
      case (Cons r rs)
      have nf: "\<And>u. cur_task s = Some u \<Longrightarrow> \<not> is_forbidden u s" using Some c False by auto
      from loop_iter_switch [OF ok Cons nf] show thesis using switch [OF Cons nf] by blast
    qed
  qed
qed

lemma switched_states:
  assumes "sched_ok s" and "ready_tasks s = r # rs" and "switched r rs s s'"
  shows "tk_state (sc_task s' r) = TS_RUN \<and>
    (\<forall>t. sigmask_wait (sc_task s' t) = sigmask_wait (sc_task s t)) \<and>
    (\<forall>t. t \<noteq> r \<longrightarrow> tk_state (sc_task s' t) = tk_state (sc_task s t) \<or>
       (tk_state (sc_task s t) = TS_RUN \<and> tk_state (sc_task s' t) = TS_READY))"
  using assms(3) by (auto simp: switched_def split: option.splits)

lemma wait_ok_switch:
  assumes "\<And>t. wait_ok y t" and "tk_state (sc_task s r) = TS_RUN"
    and "\<And>t. t \<noteq> r \<Longrightarrow> sigmask_wait (sc_task s t) = sigmask_wait (sc_task (sy_sched y) t) \<and>
      (tk_state (sc_task s t) = tk_state (sc_task (sy_sched y) t) \<or>
       (tk_state (sc_task (sy_sched y) t) = TS_RUN \<and> tk_state (sc_task s t) = TS_READY))"
  shows "wait_ok (y\<lparr>sy_sched := s, sy_mode := m, sy_wait := (sy_wait y)(r := None), sy_got := g\<rparr>) t"
  using assms(1) [of t] assms(2) assms(3) [of t] by (auto simp: wait_ok_def Let_def)

lemma wait_end_sel [simp]:
  "snd (wait_end t m s) = sigmask_received (sc_task s t) AND m"
  "ready_tasks (fst (wait_end t m s)) = ready_tasks s" "waiting_tasks (fst (wait_end t m s)) = waiting_tasks s"
  "cur_task (fst (wait_end t m s)) = cur_task s"
  "sc_cpu (fst (wait_end t m s)) = sc_cpu s"
  "sc_task (fst (wait_end t m s)) = (sc_task s)(t := (sc_task s t)\<lparr>sigmask_wait := 0\<rparr>)"
  by (simp_all add: wait_end_def)

lemma main_switch_ok:
  assumes y: "sys_ok y" and l: "loop_iter (sy_sched y) = (s, Loop_Switch r)" and s: "sched_ok s"
    and r: "cur_task s = Some r" "tk_state (sc_task s r) = TS_RUN"
    and same: "\<And>t. t \<noteq> r \<Longrightarrow> sigmask_wait (sc_task s t) = sigmask_wait (sc_task (sy_sched y) t) \<and>
      (tk_state (sc_task s t) = tk_state (sc_task (sy_sched y) t) \<or>
       (tk_state (sc_task (sy_sched y) t) = TS_RUN \<and> tk_state (sc_task s t) = TS_READY))"
  shows "sys_ok (main_step y)"
proof (cases "sy_wait y r")
  case None
  then have e: "main_step y = y\<lparr>sy_sched := s, sy_mode := In r, sy_wait := (sy_wait y)(r := None), sy_got := sy_got y\<rparr>"
    by (simp add: main_step_def l fun_upd_idem)
  have "wait_ok (main_step y) t" for t
    unfolding e using y r same by (intro wait_ok_switch) (simp_all add: sys_ok_def)
  then show ?thesis using s r by (simp add: sys_ok_def e)
next
  case (Some m)
  let ?s = "fst (wait_end r m s)"
  have e: "main_step y = y\<lparr>sy_sched := ?s, sy_mode := In r, sy_wait := (sy_wait y)(r := None),
      sy_got := (sy_got y)(r := Some (sigmask_received (sc_task s r) AND m))\<rparr>"
    by (simp add: main_step_def l Some wait_end_def)
  have "sched_ok ?s"
    by (rule running_ok [OF s r, where k = "(sc_task s r)\<lparr>sigmask_wait := 0\<rparr>"]) (simp_all add: r)
  moreover have "wait_ok (main_step y) t" for t
    unfolding e using y r same by (intro wait_ok_switch) (simp_all add: sys_ok_def)
  ultimately show ?thesis using r by (simp add: sys_ok_def e)
qed

lemma main_step_ok: "sys_ok y \<Longrightarrow> sy_mode y = Main \<Longrightarrow> sys_ok (main_step y)"
proof -
  assume y: "sys_ok y" and m: "sy_mode y = Main"
  let ?s = "sy_sched y"
  have ok: "sched_ok ?s" and w: "\<And>t. wait_ok y t" using y by (simp_all add: sys_ok_def)
  from ok show ?thesis
  proof (cases rule: loop_iter_cases)
    case stop
    let ?s' = "(make_current None ?s)\<lparr>sc_running := False\<rparr>"
    have "task_ok ?s' t" for t
      using sched_okD [OF ok, of t] stop(1)
      by (cases "tk_state (sc_task ?s t)") (auto simp: task_ok_def Let_def make_current_def get_num_tasks_def)
    then have "sched_ok ?s'" using ok by (simp add: sched_ok_def make_current_def)
    then show ?thesis using w by (simp add: main_step_def stop(2) sys_ok_def wait_ok_def make_current_def)
  next
    case none_left
    then show ?thesis using y by (simp add: main_step_def sys_ok_def wait_ok_def)
  next
    case (idle t)
    then show ?thesis using y by (simp add: main_step_def sys_ok_def wait_ok_def)
  next
    case (keep t)
    let ?s' = "keep_scheduled t (?s\<lparr>num_switch_same := num_switch_same ?s + 1\<rparr>)"
    obtain k where k: "sc_task ?s' = (sc_task ?s)(t := k)" "tk_state k = TS_RUN"
      using keep_scheduled_task [of t "?s\<lparr>num_switch_same := num_switch_same ?s + 1\<rparr>"] keep(2) by auto
    have "sched_ok ?s'" by (rule running_ok [OF ok keep(1,2) _ _ _ k]) simp_all
    then show ?thesis by (rule main_switch_ok [OF y keep(4)]) (simp_all add: keep(1,2))
  next
    case (switch r rs s')
    show ?thesis
      using switched_states [OF ok switch(1,4)] switched_ok [OF ok switch(1,4,2)] switch(4)
      by (intro main_switch_ok [OF y switch(3)]) (auto simp: switched_def)
  qed
qed

lemma wait_begin_ok:
  assumes ok: "sched_ok s" and c: "cur_task s = Some t" "tk_state (sc_task s t) = TS_RUN" "\<not> is_forbidden t s"
    and w: "wait_begin t m s = (s', None)"
  shows "sched_ok s'" and "sc_task s' = (sc_task s)(t := (sc_task s t)\<lparr>sigmask_wait := m, tk_state := TS_WAIT\<rparr>)"
proof -
  have g: "sigmask_received (sc_task s t) AND m = 0" and s': "s' = wait_task t (upd_task t (sigmask_wait_update (\<lambda>_. m)) s)"
    using w by (auto simp: wait_begin_def Let_def split: if_splits)
  show st: "sc_task s' = (sc_task s)(t := (sc_task s t)\<lparr>sigmask_wait := m, tk_state := TS_WAIT\<rparr>)"
    by (simp add: s' wait_task_def)
  have rest: "ready_tasks s' = ready_tasks s" "waiting_tasks s' = waiting_tasks s @ [t]" "cur_task s' = cur_task s"
    by (simp_all add: s' wait_task_def)
  have "task_ok s' u" for u
    using sched_okD [OF ok, of u] c g rest st
    by (cases "u = t"; cases "tk_state (sc_task s u)") (simp_all add: task_ok_def Let_def is_forbidden_def)
  moreover have "t \<notin> set (waiting_tasks s)" using sched_okD [OF ok, of t] c by (simp add: task_ok_def Let_def)
  ultimately show "sched_ok s'" using ok rest by (simp add: sched_ok_def)
qed

lemma signal_plain_ok:
  assumes ok: "sched_ok s" and n: "sigmask_wait (sc_task s u) \<noteq> 0 \<Longrightarrow> tk_state (sc_task s u) = TS_WAIT \<Longrightarrow>
      v AND sigmask_wait (sc_task s u) = 0"
  shows "sched_ok (upd_task u (sigmask_received_update (\<lambda>_. v)) s)"
proof -
  have "task_ok (upd_task u (sigmask_received_update (\<lambda>_. v)) s) x" for x
    using sched_okD [OF ok, of x] n
    by (cases "x = u"; cases "tk_state (sc_task s x)"; cases "sigmask_wait (sc_task s x) = 0")
      (simp_all add: task_ok_def Let_def)
  then show ?thesis using ok by (simp add: sched_ok_def)
qed

text \<open>Waking a task that is not on the waiting list raises; waking a waiting one makes it the
  first ready task.\<close>

lemma wake_up_ok:
  assumes ok: "sched_ok (upd_task u (sigmask_received_update (\<lambda>_. v0)) s)"
    and c: "cur_task s = Some t" "tk_state (sc_task s t) = TS_RUN" and w: "tk_state (sc_task s u) = TS_WAIT"
  shows "\<exists>s'. wake_up_task u (upd_task u (sigmask_received_update (\<lambda>_. v)) s) = (s', Inr ()) \<and> sched_ok s' \<and>
    ready_tasks s' = u # ready_tasks s \<and> cur_task s' = cur_task s \<and>
    sc_task s' = (sc_task s)(u := (sc_task s u)\<lparr>sigmask_received := v, tk_state := TS_READY\<rparr>)"
proof -
  let ?s0 = "upd_task u (sigmask_received_update (\<lambda>_. v0)) s"
  let ?s1 = "upd_task u (sigmask_received_update (\<lambda>_. v)) s"
  have u: "u \<in> set (waiting_tasks s)" "u \<notin> set (ready_tasks s)" "u \<noteq> t"
    using sched_okD [OF ok, of u] w c by (auto simp: task_ok_def Let_def)
  define s' where "s' = fst (wake_up_task u ?s1)"
  have rest: "ready_tasks s' = u # ready_tasks s" "waiting_tasks s' = remove1 u (waiting_tasks s)"
    "cur_task s' = cur_task s"
    "sc_task s' = (sc_task s)(u := (sc_task s u)\<lparr>sigmask_received := v, tk_state := TS_READY\<rparr>)"
    using u by (simp_all add: s'_def wake_up_task_def py_list_remove_def)
  have d: "distinct (waiting_tasks s)" using ok by (simp add: sched_ok_def)
  have "task_ok s' x" for x
    using sched_okD [OF ok, of x] c u w rest d
    by (cases "x = u"; cases "tk_state (sc_task s x)") (simp_all add: task_ok_def Let_def)
  then have "sched_ok s'" using ok rest u d by (simp add: sched_ok_def)
  moreover have "wake_up_task u ?s1 = (s', Inr ())" using u by (simp add: s'_def wake_up_task_def py_list_remove_def)
  ultimately show ?thesis using rest by blast
qed

lemma wait_ok_cong:
  assumes "wait_ok y u" and "sy_wait y' u = sy_wait y u"
    and "sigmask_wait (sc_task (sy_sched y') u) = sigmask_wait (sc_task (sy_sched y) u)"
    and "tk_state (sc_task (sy_sched y') u) = tk_state (sc_task (sy_sched y) u)"
  shows "wait_ok y' u"
  using assms by (auto simp: wait_ok_def Let_def)

lemma signal_ok:
  assumes y: "sys_ok y" and m: "sy_mode y = In t"
  shows "sys_ok (task_step t (Op_Signal u new msk) y)"
proof -
  let ?s = "sy_sched y"
  define v where "v = new OR (sigmask_received (sc_task ?s u) AND NOT msk)"
  let ?s1 = "upd_task u (sigmask_received_update (\<lambda>_. v)) ?s"
  have ok: "sched_ok ?s" and c: "cur_task ?s = Some t" "tk_state (sc_task ?s t) = TS_RUN"
    and w: "\<And>u. wait_ok y u" using y m by (simp_all add: sys_ok_def)
  have keep: "wait_ok (y\<lparr>sy_sched := ?s1, sy_mode := md\<rparr>) x" for md x
    by (rule wait_ok_cong [OF w [of x]]) simp_all
  show ?thesis
  proof (cases "sigmask_wait (sc_task ?s u) \<noteq> 0 \<and> v AND sigmask_wait (sc_task ?s u) \<noteq> 0")
    case False
    then have "set_signal u new msk ?s = (?s1, Inr (sigmask_received (sc_task ?s u), False))"
      unfolding set_signal_def Let_def v_def by auto
    then have e: "task_step t (Op_Signal u new msk) y = y\<lparr>sy_sched := ?s1, sy_mode := In t\<rparr>" by simp
    have "sched_ok ?s1" by (rule signal_plain_ok [OF ok]) (use False in blast)
    then show ?thesis unfolding e using keep c by (auto simp: sys_ok_def)
  next
    case True
    show ?thesis
    proof (cases "tk_state (sc_task ?s u) = TS_WAIT")
      case nw: False
      then have "u \<notin> set (waiting_tasks ?s)" using sched_okD [OF ok, of u] by (simp add: task_ok_def Let_def)
      with True have e: "task_step t (Op_Signal u new msk) y = y\<lparr>sy_sched := ?s1, sy_mode := Crashed ValueError\<rparr>"
        by (simp add: set_signal_def Let_def v_def wake_up_task_def py_list_remove_def)
      show ?thesis unfolding e using signal_plain_ok [OF ok, of u v] nw keep by (simp add: sys_ok_def)
    next
      case wt: True
      have "sched_ok (upd_task u (sigmask_received_update (\<lambda>_. sigmask_received (sc_task ?s u))) ?s)"
        by (rule signal_plain_ok [OF ok]) (use sched_okD [OF ok, of u] wt in \<open>simp add: task_ok_def Let_def\<close>)
      from wake_up_ok [OF this c wt, of v] obtain s' where s': "wake_up_task u ?s1 = (s', Inr ())" "sched_ok s'"
        "sc_task s' = (sc_task ?s)(u := (sc_task ?s u)\<lparr>sigmask_received := v, tk_state := TS_READY\<rparr>)" by blast
      with True have e: "task_step t (Op_Signal u new msk) y = y\<lparr>sy_sched := s', sy_mode := Main\<rparr>"
        by (simp add: set_signal_def Let_def v_def)
      have "wait_ok (y\<lparr>sy_sched := s', sy_mode := Main\<rparr>) x" for x
        using w [of x] s'(3) wt by (cases "x = u") (auto simp: wait_ok_def)
      then show ?thesis unfolding e using s'(2) by (simp add: sys_ok_def)
    qed
  qed
qed

lemma task_update_ok:
  assumes y: "sys_ok y" and m: "sy_mode y = In t"
    and s: "ready_tasks s = ready_tasks (sy_sched y)" "waiting_tasks s = waiting_tasks (sy_sched y)"
      "cur_task s = cur_task (sy_sched y)" "sc_task s = (sc_task (sy_sched y))(t := k)" "tk_state k = TS_RUN"
    and md: "md = Main \<or> md = In t"
  shows "sys_ok (y\<lparr>sy_sched := s, sy_mode := md, sy_got := g\<rparr>)"
proof -
  have ok: "sched_ok (sy_sched y)" and c: "cur_task (sy_sched y) = Some t" "tk_state (sc_task (sy_sched y) t) = TS_RUN"
    and w: "\<And>u. wait_ok y u" using y m by (simp_all add: sys_ok_def)
  have nw: "sy_wait y t = None" using w [of t] c(2) by (cases "sy_wait y t") (auto simp: wait_ok_def Let_def)
  have "wait_ok (y\<lparr>sy_sched := s, sy_mode := md, sy_got := g\<rparr>) u" for u
    using w [of u] s nw by (cases "u = t") (auto simp: wait_ok_def Let_def)
  then show ?thesis
    using running_ok [OF ok c s(1,2,3,4,5)] s c md by (auto simp: sys_ok_def)
qed

lemma exit_ok:
  assumes y: "sys_ok y" and m: "sy_mode y = In t"
  shows "sys_ok (task_step t Op_Exit y)"
proof -
  let ?s = "sy_sched y" and ?s' = "fst (terminate_task t (sy_sched y))"
  have ok: "sched_ok ?s" and c: "cur_task ?s = Some t" "tk_state (sc_task ?s t) = TS_RUN"
    and w: "\<And>u. wait_ok y u" using y m by (simp_all add: sys_ok_def)
  have s': "ready_tasks ?s' = ready_tasks ?s" "waiting_tasks ?s' = waiting_tasks ?s" "cur_task ?s' = None"
    "sc_task ?s' = (sc_task ?s)(t := (sc_task ?s t)\<lparr>tk_state := TS_REMOVED\<rparr>)"
    using c by (simp_all add: terminate_task_def Let_def)
  have "task_ok ?s' u" for u
    using sched_okD [OF ok, of u] c s'
    by (cases "u = t"; cases "tk_state (sc_task ?s u)") (simp_all add: task_ok_def Let_def)
  then have "sched_ok ?s'" using ok s' by (simp add: sched_ok_def)
  moreover have "wait_ok (task_step t Op_Exit y) u" for u
    using w [of u] w [of t] c s' by (cases "u = t") (auto simp: wait_ok_def Let_def)
  ultimately show ?thesis by (simp add: sys_ok_def)
qed

lemma wait_step_ok:
  assumes y: "sys_ok y" and m: "sy_mode y = In t" and p: "\<not> is_forbidden t (sy_sched y)"
  shows "sys_ok (task_step t (Op_Wait k) y)"
proof -
  let ?s = "sy_sched y"
  have ok: "sched_ok ?s" and c: "cur_task ?s = Some t" "tk_state (sc_task ?s t) = TS_RUN"
    and w: "\<And>u. wait_ok y u" using y m by (simp_all add: sys_ok_def)
  show ?thesis
  proof (cases "wait_begin t k ?s")
    case (Pair s' r)
    show ?thesis
    proof (cases r)
      case None
      note b = wait_begin_ok [OF ok c p, of k s'] Pair None
      have "wait_ok (task_step t (Op_Wait k) y) u" for u
        using w [of u] b by (cases "u = t") (auto simp: wait_ok_def Let_def)
      then show ?thesis using b by (simp add: sys_ok_def)
    next
      case (Some got)
      then have "s' = ?s" using Pair by (auto simp: wait_begin_def Let_def split: if_splits)
      then have "task_step t (Op_Wait k) y = y\<lparr>sy_sched := ?s, sy_mode := In t, sy_got := (sy_got y)(t := Some got)\<rparr>"
        using Pair Some m by simp
      then show ?thesis using task_update_ok [OF y m, of ?s "sc_task ?s t" "In t"] c by simp
    qed
  qed
qed

lemma task_step_ok:
  assumes y: "sys_ok y" and m: "sy_mode y = In t" and p: "op_polite (sy_sched y) (Some (t, op))"
  shows "sys_ok (task_step t op y)"
proof -
  let ?s = "sy_sched y" and ?k = "sc_task (sy_sched y) t"
  have c: "tk_state ?k = TS_RUN" using y m by (simp add: sys_ok_def)
  note upd = task_update_ok [OF y m, where g = "sy_got y"]
  have same [simp]: "y\<lparr>sy_sched := s, sy_mode := In t\<rparr> = y\<lparr>sy_sched := s\<rparr>" for s
    using m by simp
  show ?thesis
  proof (cases op)
    case Op_Reschedule
    then show ?thesis using upd [of ?s ?k Main] c by simp
  next
    case Op_Forbid
    show ?thesis using upd [of "fst (forbid t ?s)" "forbid_cnt_update (\<lambda>c. c + 1) ?k" "In t"] c m Op_Forbid
      by (simp add: forbid_def Let_def)
  next
    case Op_Permit
    let ?s1 = "upd_task t (forbid_cnt_update (\<lambda>c. c - 1)) ?s"
    let ?s2 = "upd_task t (forbid_reschedule_update (\<lambda>_. False)) ?s1"
    have "sys_ok (y\<lparr>sy_sched := ?s1, sy_mode := In t, sy_got := sy_got y\<rparr>)"
      by (rule upd [where k = "forbid_cnt_update (\<lambda>c. c - 1) ?k"]) (simp_all add: c)
    moreover have "sys_ok (y\<lparr>sy_sched := ?s2, sy_mode := Main, sy_got := sy_got y\<rparr>)"
      by (rule upd [where k = "forbid_reschedule_update (\<lambda>_. False) (forbid_cnt_update (\<lambda>c. c - 1) ?k)"])
        (simp_all add: c)
    ultimately show ?thesis using Op_Permit by (simp add: permit_def Let_def)
  next
    case (Op_Wait k)
    show ?thesis
    proof (cases "is_forbidden t ?s")
      case True
      then have g: "sigmask_received ?k AND k \<noteq> 0" using p Op_Wait by simp
      have "sys_ok (y\<lparr>sy_got := (sy_got y)(t := Some (sigmask_received ?k AND k))\<rparr>)"
        using y by (simp add: sys_ok_def wait_ok_def Let_def)
      with g m Op_Wait show ?thesis by (simp add: wait_begin_def Let_def)
    qed (use wait_step_ok [OF y m] p Op_Wait in simp)
  next
    case (Op_Signal u new msk)
    then show ?thesis using signal_ok [OF y m] by simp
  next
    case (Op_Run b)
    then show ?thesis
      using upd [of "upd_task t (tk_running_update (\<lambda>_. b)) ?s" "tk_running_update (\<lambda>_. b) ?k" "In t"] c m by simp
  next
    case (Op_Compute k)
    then show ?thesis using upd [of "?s\<lparr>sc_cpu := k\<rparr>" ?k "In t"] c m by simp
  next
    case Op_Exit
    then show ?thesis using exit_ok [OF y m] by simp
  qed
qed

lemma sys_reach_ok: "sys_reach y0 y \<Longrightarrow> sys_ok y0 \<Longrightarrow> sys_ok y"
proof (induction rule: sys_reach.induct)
  case (reach_step y l y')
  from reach_step.hyps(3) show ?case
    using reach_step main_step_ok task_step_ok by (cases rule: sys_step.cases) auto
qed

subsection \<open>Entering the loop\<close>

definition sched_fresh :: "'c sched \<Rightarrow> nat list \<Rightarrow> bool" where
  "sched_fresh s ts \<longleftrightarrow> ready_tasks s = ts \<and> waiting_tasks s = [] \<and> cur_task s = None \<and>
     (\<forall>t. tk_state (sc_task s t) = (if t \<in> set ts then TS_ADDED else TS_INVALID)) \<and>
     (\<forall>t. \<not> tk_running (sc_task s t) \<and> forbid_cnt (sc_task s t) = 0)"

lemma sched_fresh_ok: "sched_fresh s ts \<Longrightarrow> distinct ts \<Longrightarrow> sched_ok s"
  by (auto simp: sched_fresh_def sched_ok_def task_ok_def Let_def split: task_state.splits)

lemma fold_add_fresh: "sched_fresh s us \<Longrightarrow> sched_fresh (fold add_task ts s) (us @ ts)"
proof (induction ts arbitrary: s us)
  case (Cons t ts)
  have "sched_fresh (add_task t s) (us @ [t])"
    using Cons.prems by (auto simp: sched_fresh_def add_task_def Let_def)
  from Cons.IH [OF this] show ?case by simp
qed simp

lemma fold_report_sel:
  "sc_task (fold (\<lambda>t. report_event ADD_TASK (Some t)) ts s) = sc_task s \<and>
   ready_tasks (fold (\<lambda>t. report_event ADD_TASK (Some t)) ts s) = ready_tasks s \<and>
   waiting_tasks (fold (\<lambda>t. report_event ADD_TASK (Some t)) ts s) = waiting_tasks s \<and>
   cur_task (fold (\<lambda>t. report_event ADD_TASK (Some t)) ts s) = cur_task s"
  by (induction ts arbitrary: s) simp_all

lemma sys_init_ok:
  assumes "distinct ts" and "sys_init names hooks c ts = Inr y"
  shows "sys_ok y" and "sy_mode y = Main" and "sched_fresh (sy_sched y) ts" and "\<And>t. sy_wait y t = None"
proof -
  let ?s = "fold add_task ts (sched_init names hooks c)"
  have "sched_fresh (sched_init names hooks c) []" by (simp add: sched_fresh_def sched_init_def task_init_def)
  from fold_add_fresh [OF this, of ts] have f: "sched_fresh ?s ts" by simp
  from assms(2) have y: "ts \<noteq> []" "sy_mode y = Main" "sy_wait y = (\<lambda>_. None)"
      "sy_sched y = fold (\<lambda>t. report_event ADD_TASK (Some t)) ts (?s\<lparr>sc_running := True\<rparr>)"
    using f by (auto simp: sys_init_def schedule_start_def sched_fresh_def split: if_splits)
  show fr: "sched_fresh (sy_sched y) ts" using f by (simp add: y(4) sched_fresh_def fold_report_sel)
  have "wait_ok y t" for t
    using fr y(3) by (auto simp: wait_ok_def Let_def sched_fresh_def)
  then show "sys_ok y" using sched_fresh_ok [OF fr assms(1)] y(2) by (simp add: sys_ok_def)
  show "sy_mode y = Main" "\<And>t. sy_wait y t = None" using y by auto
qed

subsection \<open>Time slices\<close>

text \<open>One round: the running task gives up its slice and the loop picks the next one.\<close>

definition time_slice :: "'c system \<Rightarrow> 'c system" where
  "time_slice y = (case sy_mode y of In t \<Rightarrow> main_step (task_step t Op_Reschedule y) | _ \<Rightarrow> y)"

definition in_turn :: "nat list \<Rightarrow> 'c system \<Rightarrow> bool" where
  "in_turn ts y \<longleftrightarrow> sys_ok y \<and> ts \<noteq> [] \<and> sy_mode y = In (hd ts) \<and> ready_tasks (sy_sched y) = tl ts \<and>
     (\<forall>t \<in> set ts. forbid_cnt (sc_task (sy_sched y) t) \<le> 0)"

lemma slice_in_turn:
  assumes "in_turn ts y"
  shows "in_turn (rotate1 ts) (time_slice y)"
proof -
  obtain t rs where ts: "ts = t # rs" using assms by (cases ts) (auto simp: in_turn_def)
  have y: "sys_ok y" "sy_mode y = In t" and rd: "ready_tasks (sy_sched y) = rs"
    and f: "\<forall>u \<in> set ts. forbid_cnt (sc_task (sy_sched y) u) \<le> 0"
    using assms ts by (simp_all add: in_turn_def)
  let ?y = "y\<lparr>sy_mode := Main\<rparr>"
  have oky: "sys_ok ?y" using task_step_ok [OF y, of Op_Reschedule] by simp
  then have ok: "sched_ok (sy_sched y)" by (simp add: sys_ok_def)
  have c: "cur_task (sy_sched y) = Some t" "tk_state (sc_task (sy_sched y) t) = TS_RUN"
    using y by (simp_all add: sys_ok_def)
  have nf: "\<not> is_forbidden t (sy_sched y)" using f ts by (simp add: is_forbidden_def)
  have sl: "time_slice y = main_step ?y" using y by (simp add: time_slice_def)
  have oks: "sys_ok (main_step ?y)" by (rule main_step_ok [OF oky]) simp
  show ?thesis
  proof (cases rs)
    case Nil
    have "loop_iter (sy_sched y) = (keep_scheduled t ((sy_sched y)\<lparr>num_switch_same := num_switch_same (sy_sched y) + 1\<rparr>), Loop_Switch t)"
      by (rule loop_iter_keep [OF c]) (simp add: rd Nil)
    with oks show ?thesis using f ts Nil rd nf c
      by (auto simp: in_turn_def sl main_step_def keep_scheduled_def is_forbidden_def wait_end_def split: option.splits)
  next
    case (Cons r rs')
    obtain s' where s': "loop_iter (sy_sched y) = (s', Loop_Switch r)" "switched r rs' (sy_sched y) s'"
      using loop_iter_switch [OF ok, of r rs'] rd Cons c nf by auto
    have f': "forbid_cnt (sc_task s' u) = forbid_cnt (sc_task (sy_sched y) u)" for u
      using s'(2) c by (auto simp: switched_def)
    have rd': "ready_tasks s' = rs' @ [t]" using s'(2) c by (simp add: switched_def)
    from oks show ?thesis using f ts Cons f' rd' s'(1)
      by (auto simp: in_turn_def sl main_step_def wait_end_def split: option.splits)
  qed
qed

lemma slices_in_turn: "in_turn ts y \<Longrightarrow> in_turn (rotate k ts) ((time_slice ^^ k) y)"
  by (induction k) (simp_all add: slice_in_turn)

subsection \<open>CPU contexts\<close>

text \<open>A run in which task \<open>c\<close> is not the current one.\<close>

inductive away_run :: "nat \<Rightarrow> 'c system \<Rightarrow> 'c system \<Rightarrow> bool" for c y0 where
  away_init: "away_run c y0 y0"
| away_step: "away_run c y0 y \<Longrightarrow> cur_task (sy_sched y) \<noteq> Some c \<Longrightarrow> op_polite (sy_sched y) l \<Longrightarrow>
     sys_step y l y' \<Longrightarrow> away_run c y0 y'"

definition same_ctx :: "nat \<Rightarrow> 'c sched \<Rightarrow> 'c sched \<Rightarrow> bool" where
  "same_ctx c s s' \<longleftrightarrow> tk_running (sc_task s' c) = tk_running (sc_task s c) \<and>
     tk_cpu_ctx (sc_task s' c) = tk_cpu_ctx (sc_task s c)"

lemma same_ctx_loop:
  assumes ok: "sched_ok s" and c: "cur_task s \<noteq> Some c"
  shows "same_ctx c s (fst (loop_iter s))"
  using ok
proof (cases rule: loop_iter_cases)
  case (switch r rs s')
  then show ?thesis using c by (auto simp: same_ctx_def switched_def split: option.splits)
next
  case (keep t)
  then show ?thesis using c by (simp add: same_ctx_def keep_scheduled_def)
qed (simp_all add: same_ctx_def make_current_def)

lemma same_ctx_main: "sched_ok (sy_sched y) \<Longrightarrow> cur_task (sy_sched y) \<noteq> Some c \<Longrightarrow>
    same_ctx c (sy_sched y) (sy_sched (main_step y))"
  using same_ctx_loop [of "sy_sched y" c]
  by (auto simp: main_step_def same_ctx_def wait_end_def split: prod.splits loop_result.splits option.splits)

lemma same_ctx_task: "t \<noteq> c \<Longrightarrow> same_ctx c (sy_sched y) (sy_sched (task_step t op y))"
  by (cases op)
    (auto simp: same_ctx_def forbid_def permit_def wait_begin_def wait_task_def set_signal_def wake_up_task_def
       py_list_remove_def terminate_task_def Let_def split: prod.splits option.splits sum.splits if_splits)

lemma away_run_ok:
  assumes "away_run c y0 y" and "sys_ok y0"
  shows "sys_ok y \<and> same_ctx c (sy_sched y0) (sy_sched y)"
  using assms
proof (induction rule: away_run.induct)
  case (away_step y l y')
  then have ok: "sys_ok y" and s: "same_ctx c (sy_sched y0) (sy_sched y)" by auto
  then have "sys_reach y0 y \<Longrightarrow> sys_reach y0 y'" for y0 using reach_step away_step.hyps by blast
  then have "sys_ok y'" using sys_reach_ok [of y y'] reach_init ok by blast
  moreover have "same_ctx c (sy_sched y) (sy_sched y')" using away_step.hyps(4)
  proof (cases rule: sys_step.cases)
    case sys_main
    then show ?thesis using same_ctx_main ok away_step.hyps(2) by (auto simp: sys_ok_def)
  next
    case (sys_task t op)
    then show ?thesis using same_ctx_task ok away_step.hyps(2) by (auto simp: sys_ok_def)
  qed
  ultimately show ?case using s by (simp add: same_ctx_def)
qed (simp add: same_ctx_def)

lemma main_step_switch:
  assumes "sys_ok y" and "sy_mode y = Main" and "sy_mode (main_step y) = In c" and "cur_task (sy_sched y) \<noteq> Some c"
  shows "\<exists>rs s'. ready_tasks (sy_sched y) = c # rs \<and> switched c rs (sy_sched y) s' \<and>
    (\<forall>t. cur_task (sy_sched y) = Some t \<longrightarrow> \<not> is_forbidden t (sy_sched y)) \<and>
    sc_cpu (sy_sched (main_step y)) = sc_cpu s' \<and>
    (\<forall>t. tk_running (sc_task (sy_sched (main_step y)) t) = tk_running (sc_task s' t) \<and>
         tk_cpu_ctx (sc_task (sy_sched (main_step y)) t) = tk_cpu_ctx (sc_task s' t)) \<and>
    cur_task (sy_sched (main_step y)) = Some c"
proof -
  have ok: "sched_ok (sy_sched y)" using assms(1) by (simp add: sys_ok_def)
  from ok show ?thesis
  proof (cases rule: loop_iter_cases)
    case (keep t)
    then show ?thesis using assms(3,4) by (auto simp: main_step_def wait_end_def split: option.splits)
  next
    case (switch r rs s')
    then have "r = c" using assms(3) by (auto simp: main_step_def wait_end_def split: option.splits)
    with switch show ?thesis
      by (auto simp: main_step_def wait_end_def switched_def split: option.splits)
  qed (use assms(3) in \<open>auto simp: main_step_def\<close>)
qed

lemma context_kept:
  assumes y: "sys_ok y" "sy_mode y = Main" and c: "cur_task (sy_sched y) = Some c" "tk_running (sc_task (sy_sched y) c)"
    and out: "sy_mode (main_step y) = In r" "r \<noteq> c" and run: "away_run c (main_step y) y2"
    and bk: "sy_mode y2 = Main" "sy_mode (main_step y2) = In c" "cur_task (sy_sched y2) \<noteq> Some c"
  shows "sc_cpu (sy_sched (main_step y2)) = sc_cpu (sy_sched y)"
proof -
  from main_step_switch [OF y out(1)] c out(2) obtain rs s1 where s1: "switched r rs (sy_sched y) s1"
    "tk_running (sc_task (sy_sched (main_step y)) c) = tk_running (sc_task s1 c)"
    "tk_cpu_ctx (sc_task (sy_sched (main_step y)) c) = tk_cpu_ctx (sc_task s1 c)" by auto
  then have k: "tk_running (sc_task (sy_sched (main_step y)) c)"
    "tk_cpu_ctx (sc_task (sy_sched (main_step y)) c) = Some (sc_cpu (sy_sched y))"
    using c by (auto simp: switched_def)
  from away_run_ok [OF run main_step_ok [OF y]] have ok2: "sys_ok y2"
    and "same_ctx c (sy_sched (main_step y)) (sy_sched y2)" by auto
  with k have k2: "tk_running (sc_task (sy_sched y2) c)" "tk_cpu_ctx (sc_task (sy_sched y2) c) = Some (sc_cpu (sy_sched y))"
    by (simp_all add: same_ctx_def)
  from main_step_switch [OF ok2 bk] obtain rs s2 where "switched c rs (sy_sched y2) s2"
    "sc_cpu (sy_sched (main_step y2)) = sc_cpu s2" by blast
  then show ?thesis using k2 by (simp add: switched_def)
qed

subsection \<open>Signals\<close>

lemma signal_wakes:
  assumes y: "sys_ok y" "sy_mode y = In t" and u: "tk_state (sc_task (sy_sched y) u) = TS_WAIT" "sy_wait y u = Some m"
    and v: "v = new OR (sigmask_received (sc_task (sy_sched y) u) AND NOT msk)" "v AND m \<noteq> 0"
  shows "\<exists>s'. task_step t (Op_Signal u new msk) y = y\<lparr>sy_sched := s', sy_mode := Main\<rparr> \<and> sched_ok s' \<and>
    ready_tasks s' = u # ready_tasks (sy_sched y) \<and> cur_task s' = Some t \<and>
    sc_task s' = (sc_task (sy_sched y))(u := (sc_task (sy_sched y) u)\<lparr>sigmask_received := v, tk_state := TS_READY\<rparr>)"
proof -
  let ?s = "sy_sched y"
  have ok: "sched_ok ?s" and c: "cur_task ?s = Some t" "tk_state (sc_task ?s t) = TS_RUN"
    using y by (simp_all add: sys_ok_def)
  have w: "sigmask_wait (sc_task ?s u) = m" using y(1) u(2) by (auto simp: sys_ok_def wait_ok_def Let_def)
  with v(2) have mn: "sigmask_wait (sc_task ?s u) \<noteq> 0 \<and> v AND sigmask_wait (sc_task ?s u) \<noteq> 0" by auto
  have "sched_ok (upd_task u (sigmask_received_update (\<lambda>_. sigmask_received (sc_task ?s u))) ?s)"
    by (rule signal_plain_ok [OF ok]) (use sched_okD [OF ok, of u] u in \<open>simp add: task_ok_def Let_def\<close>)
  from wake_up_ok [OF this c u(1), of v] obtain s' where s': "wake_up_task u (upd_task u (sigmask_received_update (\<lambda>_. v)) ?s) = (s', Inr ())"
      "sched_ok s'" "ready_tasks s' = u # ready_tasks ?s" "cur_task s' = cur_task ?s"
      "sc_task s' = (sc_task ?s)(u := (sc_task ?s u)\<lparr>sigmask_received := v, tk_state := TS_READY\<rparr>)" by blast
  then have "task_step t (Op_Signal u new msk) y = y\<lparr>sy_sched := s', sy_mode := Main\<rparr>"
    using mn by (simp add: set_signal_def Let_def v(1))
  then show ?thesis using s' c by auto
qed

lemma signal_resumes:
  assumes y: "sys_ok y" "sy_mode y = In t" and u: "tk_state (sc_task (sy_sched y) u) = TS_WAIT" "sy_wait y u = Some m"
    and v: "v = new OR (sigmask_received (sc_task (sy_sched y) u) AND NOT msk)" "v AND m \<noteq> 0"
    and nf: "\<not> is_forbidden t (sy_sched y)"
  shows "sy_mode (main_step (task_step t (Op_Signal u new msk) y)) = In u \<and>
    sy_got (main_step (task_step t (Op_Signal u new msk) y)) u = Some (v AND m) \<and>
    last (ready_tasks (sy_sched (main_step (task_step t (Op_Signal u new msk) y)))) = t"
proof -
  from signal_wakes [OF y u v] obtain s' where e: "task_step t (Op_Signal u new msk) y = y\<lparr>sy_sched := s', sy_mode := Main\<rparr>"
    and ok: "sched_ok s'" and s': "ready_tasks s' = u # ready_tasks (sy_sched y)" "cur_task s' = Some t"
      "sc_task s' = (sc_task (sy_sched y))(u := (sc_task (sy_sched y) u)\<lparr>sigmask_received := v, tk_state := TS_READY\<rparr>)" by blast
  have t: "tk_state (sc_task (sy_sched y) t) = TS_RUN" "t \<noteq> u" using y u by (auto simp: sys_ok_def)
  have "\<not> is_forbidden t s'" using nf t(2) s'(3) by (simp add: is_forbidden_def)
  then obtain s2 where s2: "loop_iter s' = (s2, Loop_Switch u)" "switched u (ready_tasks (sy_sched y)) s' s2"
    using loop_iter_switch [OF ok s'(1)] s'(2) by auto
  show ?thesis using e s2 u(2) s'(2,3) t
    by (auto simp: main_step_def switched_def wait_end_def)
qed

text \<open>What goes wrong while a task forbids switching.\<close>

lemma forbidden_iter:
  assumes "is_forbidden t s" and "cur_task s = Some t"
  shows "loop_iter s = (keep_scheduled t (s\<lparr>num_switch_same := num_switch_same s + 1\<rparr>), Loop_Switch t)"
  using assms by (simp add: loop_iter_def get_num_tasks_def pick_task_def run_task_def)

lemma signal_forbidden:
  assumes y: "sys_ok y" "sy_mode y = In t" and u: "tk_state (sc_task (sy_sched y) u) = TS_WAIT" "sy_wait y u = Some m"
    and v: "v = new OR (sigmask_received (sc_task (sy_sched y) u) AND NOT msk)" "v AND m \<noteq> 0"
    and f: "is_forbidden t (sy_sched y)"
  shows "sy_mode (main_step (task_step t (Op_Signal u new msk) y)) = In t \<and>
    ready_tasks (sy_sched (main_step (task_step t (Op_Signal u new msk) y))) = u # ready_tasks (sy_sched y) \<and>
    tk_state (sc_task (sy_sched (main_step (task_step t (Op_Signal u new msk) y))) u) = TS_READY \<and>
    sy_wait (main_step (task_step t (Op_Signal u new msk) y)) u = Some m"
proof -
  from signal_wakes [OF y u v] obtain s' where e: "task_step t (Op_Signal u new msk) y = y\<lparr>sy_sched := s', sy_mode := Main\<rparr>"
    and s': "ready_tasks s' = u # ready_tasks (sy_sched y)" "cur_task s' = Some t"
      "sc_task s' = (sc_task (sy_sched y))(u := (sc_task (sy_sched y) u)\<lparr>sigmask_received := v, tk_state := TS_READY\<rparr>)" by blast
  have t: "wait_ok y t" "tk_state (sc_task (sy_sched y) t) = TS_RUN" "t \<noteq> u" using y u by (auto simp: sys_ok_def)
  then have n: "sy_wait y t = None" by (cases "sy_wait y t") (auto simp: wait_ok_def Let_def)
  have "is_forbidden t s'" using f t(3) s'(3) by (simp add: is_forbidden_def)
  from forbidden_iter [OF this s'(2)] s' t(3) n u(2) show ?thesis
    by (simp add: e main_step_def keep_scheduled_def del: task_step.simps)
qed

lemma forbidden_wait_returns:
  assumes y: "sys_ok y" "sy_mode y = In t" and f: "is_forbidden t (sy_sched y)"
    and n: "sigmask_received (sc_task (sy_sched y) t) AND m = 0"
  shows "sy_mode (main_step (task_step t (Op_Wait m) y)) = In t \<and>
    sy_got (main_step (task_step t (Op_Wait m) y)) t = Some 0 \<and>
    t \<in> set (waiting_tasks (sy_sched (main_step (task_step t (Op_Wait m) y)))) \<and>
    tk_state (sc_task (sy_sched (main_step (task_step t (Op_Wait m) y))) t) = TS_WAIT"
proof -
  define s where "s = wait_task t (upd_task t (sigmask_wait_update (\<lambda>_. m)) (sy_sched y))"
  have c: "cur_task (sy_sched y) = Some t" using y by (simp add: sys_ok_def)
  have e: "task_step t (Op_Wait m) y = y\<lparr>sy_sched := s, sy_mode := Main, sy_wait := (sy_wait y)(t := Some m)\<rparr>"
    using n by (simp add: wait_begin_def s_def)
  have s: "t \<in> set (waiting_tasks s)" "tk_state (sc_task s t) = TS_WAIT"
    "sigmask_received (sc_task s t) = sigmask_received (sc_task (sy_sched y) t)"
    by (simp_all add: s_def wait_task_def)
  have l: "loop_iter s = (keep_scheduled t (s\<lparr>num_switch_same := num_switch_same s + 1\<rparr>), Loop_Switch t)"
    using f c by (intro forbidden_iter) (simp_all add: is_forbidden_def wait_task_def s_def)
  show ?thesis
    using s n by (simp add: e main_step_def l wait_end_def keep_scheduled_def del: task_step.simps)
qed

lemma forbidden_signal_twice:
  assumes y: "sys_ok y" "sy_mode y = In t" and u: "tk_state (sc_task (sy_sched y) u) = TS_WAIT" "sy_wait y u = Some m"
    and f: "is_forbidden t (sy_sched y)" and n: "new AND m \<noteq> 0"
  shows "sy_mode (main_step (task_step t (Op_Signal u new new) y)) = In t \<and>
    sy_mode (task_step t (Op_Signal u new new) (main_step (task_step t (Op_Signal u new new) y))) = Crashed ValueError"
proof -
  define v where "v = new OR (sigmask_received (sc_task (sy_sched y) u) AND NOT new)"
  have vm: "(new OR (x AND NOT new)) AND m \<noteq> 0" for x
  proof
    assume z: "(new OR (x AND NOT new)) AND m = 0"
    have "new AND m = new AND ((new OR (x AND NOT new)) AND m)" by (rule bit_eqI) (auto simp: bit_simps)
    with z n show False by simp
  qed
  have tu: "t \<noteq> u" using y u by (auto simp: sys_ok_def)
  have w: "sigmask_wait (sc_task (sy_sched y) u) = m" using y(1) u(2) by (auto simp: sys_ok_def wait_ok_def Let_def)
  have mn: "m \<noteq> 0" using n by auto
  have vm': "v AND m \<noteq> 0" unfolding v_def by (rule vm)
  from signal_wakes [OF y u v_def vm'] obtain s' where
    e: "task_step t (Op_Signal u new new) y = y\<lparr>sy_sched := s', sy_mode := Main\<rparr>"
    and ok: "sched_ok s'" and s': "cur_task s' = Some t"
      "sc_task s' = (sc_task (sy_sched y))(u := (sc_task (sy_sched y) u)\<lparr>sigmask_received := v, tk_state := TS_READY\<rparr>)" by blast
  have f': "is_forbidden t s'" using f tu s'(2) by (simp add: is_forbidden_def)
  let ?s2 = "keep_scheduled t (s'\<lparr>num_switch_same := num_switch_same s' + 1\<rparr>)"
  have "wait_ok y t" "tk_state (sc_task (sy_sched y) t) = TS_RUN" using y by (simp_all add: sys_ok_def)
  then have "sy_wait y t = None" by (cases "sy_wait y t") (auto simp: wait_ok_def Let_def)
  then have e2: "main_step (y\<lparr>sy_sched := s', sy_mode := Main\<rparr>) = y\<lparr>sy_sched := ?s2, sy_mode := In t\<rparr>"
    by (simp add: main_step_def forbidden_iter [OF f' s'(1)])
  have "u \<notin> set (waiting_tasks s')" using sched_okD [OF ok, of u] s'(2) by (simp add: task_ok_def Let_def)
  moreover have "sc_task ?s2 u = sc_task s' u" using tu by (simp add: keep_scheduled_def)
  ultimately have "set_signal u new new ?s2 = (upd_task u (sigmask_received_update (\<lambda>_. new OR (v AND NOT new))) ?s2, Inl ValueError)"
    using s'(2) w vm mn by (simp add: set_signal_def Let_def wake_up_task_def py_list_remove_def)
  then have "sy_mode (task_step t (Op_Signal u new new) (y\<lparr>sy_sched := ?s2, sy_mode := In t\<rparr>)) = Crashed ValueError"
    by simp
  then show ?thesis by (simp add: e e2 del: task_step.simps)
qed

subsection \<open>Properties\<close>

text \<open>The states a scheduler reaches from the start with the tasks \<open>ts\<close>, when no task waits in
  the forbid state.\<close>

definition sched_run :: "nat list \<Rightarrow> 'c system \<Rightarrow> bool" where
  "sched_run ts y \<longleftrightarrow> distinct ts \<and> (\<exists>names hooks c y0. sys_init names hooks c ts = Inr y0 \<and> sys_reach y0 y)"

lemma sched_run_ok: "sched_run ts y \<Longrightarrow> sys_ok y"
  using sys_init_ok(1) sys_reach_ok by (metis sched_run_def)

lemma sched_run_step:
  "sched_run ts y \<Longrightarrow> sy_mode y = Main \<Longrightarrow> sched_run ts (main_step y)"
  "sched_run ts y \<Longrightarrow> sy_mode y = In t \<Longrightarrow> op_polite (sy_sched y) (Some (t, op)) \<Longrightarrow>
     sched_run ts (task_step t op y)"
  unfolding sched_run_def
  by (metis reach_step op_polite.simps(2) sys_main, metis reach_step sys_task)

definition demo_start :: "nat list \<Rightarrow> nat system" where
  "demo_start ts = (case sys_init (\<lambda>_. ''t'') True 0 ts of Inr y \<Rightarrow> y)"

lemma demo_start_run: "distinct ts \<Longrightarrow> ts \<noteq> [] \<Longrightarrow>
    sys_init (\<lambda>_. ''t'') True 0 ts = Inr (demo_start ts) \<and> sched_run ts (demo_start ts) \<and>
    sy_mode (demo_start ts) = Main \<and> sched_fresh (sy_sched (demo_start ts)) ts"
proof -
  assume d: "distinct ts" "ts \<noteq> []"
  have "sched_fresh (sched_init (\<lambda>_. ''t'') True (0::nat)) []" by (simp add: sched_fresh_def sched_init_def task_init_def)
  from fold_add_fresh [OF this, of ts] d(2) have "\<exists>y. sys_init (\<lambda>_. ''t'') True (0::nat) ts = Inr y"
    by (simp add: sys_init_def schedule_start_def sched_fresh_def)
  then have i: "sys_init (\<lambda>_. ''t'') True 0 ts = Inr (demo_start ts)" by (auto simp: demo_start_def)
  then show ?thesis using sys_init_ok [OF d(1) i] d(1) reach_init unfolding sched_run_def by blast
qed

text \<open>C8: in every run in which no task waits in the forbid state for signals that have not arrived, at every moment
  each task is exactly where its state says (ready list, waiting list,
  current task), no task is listed twice, the task that runs is the current one, and no task
  waits although one of the signals it waits for has arrived.\<close>

theorem scheduler_invariant:
  assumes "sched_run ts y"
  shows "let s = sy_sched y in
    distinct (ready_tasks s) \<and> distinct (waiting_tasks s) \<and>
    (\<forall>t. (t \<in> set (ready_tasks s) \<longleftrightarrow> tk_state (sc_task s t) \<in> {TS_ADDED, TS_READY}) \<and>
         (t \<in> set (waiting_tasks s) \<longleftrightarrow> tk_state (sc_task s t) = TS_WAIT) \<and>
         (tk_state (sc_task s t) = TS_RUN \<longrightarrow> cur_task s = Some t) \<and>
         (tk_state (sc_task s t) = TS_REMOVED \<longrightarrow> cur_task s \<noteq> Some t) \<and>
         (sy_mode y = In t \<longrightarrow> cur_task s = Some t \<and> tk_state (sc_task s t) = TS_RUN) \<and>
         (t \<in> set (waiting_tasks s) \<longrightarrow>
            sigmask_received (sc_task s t) AND sigmask_wait (sc_task s t) = 0 \<and> sy_wait y t = Some (sigmask_wait (sc_task s t))))"
proof -
  have y: "sys_ok y" by (rule sched_run_ok [OF assms])
  have t: "task_ok (sy_sched y) t \<and> wait_ok y t" for t using y by (simp add: sys_ok_def sched_ok_def)
  have "(tk_state (sc_task (sy_sched y) t) = TS_RUN \<longrightarrow> cur_task (sy_sched y) = Some t) \<and>
      (tk_state (sc_task (sy_sched y) t) = TS_REMOVED \<longrightarrow> cur_task (sy_sched y) \<noteq> Some t)" for t
    using t [of t] by (cases "tk_state (sc_task (sy_sched y) t)") (simp_all add: task_ok_def Let_def)
  with y t show ?thesis by (force simp: sys_ok_def sched_ok_def task_ok_def wait_ok_def Let_def)
qed

text \<open>C26: an iteration of the loop ends it with success exactly when no task is left, gives up
  when the current task waits and none is ready, raises \<open>AttributeError\<close> exactly when the last
  runnable task has ended while others still wait, and else runs the current task on (when it
  forbids switching or is alone) or the first ready one.\<close>

theorem scheduler_iteration:
  assumes "sched_run ts y" and "sy_mode y = Main"
  shows "(sy_mode (main_step y) = Finished True \<longleftrightarrow> get_num_tasks (sy_sched y) = 0) \<and>
    (sy_mode (main_step y) = Finished False \<longleftrightarrow>
       (\<exists>t. cur_task (sy_sched y) = Some t \<and> t \<in> set (waiting_tasks (sy_sched y)) \<and> ready_tasks (sy_sched y) = [])) \<and>
    (\<forall>e. sy_mode (main_step y) = Crashed e \<longleftrightarrow> e = AttributeError \<and> cur_task (sy_sched y) = None \<and>
       ready_tasks (sy_sched y) = [] \<and> waiting_tasks (sy_sched y) \<noteq> []) \<and>
    (\<forall>t. sy_mode (main_step y) = In t \<longrightarrow>
       (if cur_task (sy_sched y) = Some t then is_forbidden t (sy_sched y) \<or> ready_tasks (sy_sched y) = []
        else \<exists>rs. ready_tasks (sy_sched y) = t # rs))"
proof -
  have ok: "sched_ok (sy_sched y)" using sched_run_ok [OF assms(1)] by (simp add: sys_ok_def)
  have w: "t \<in> set (waiting_tasks (sy_sched y)) \<longleftrightarrow> tk_state (sc_task (sy_sched y) t) = TS_WAIT" for t
    using sched_okD [OF ok, of t] by (simp add: task_ok_def Let_def)
  from ok show ?thesis
  proof (cases rule: loop_iter_cases)
    case (switch r rs s')
    have "cur_task (sy_sched y) \<noteq> Some r" using ready_head_ok [OF ok switch(1)] by simp
    moreover have "sy_mode (main_step y) = In r"
      using switch(3) by (auto simp: main_step_def wait_end_def split: option.splits)
    ultimately show ?thesis using switch(1) by (auto simp: get_num_tasks_def)
  next
    case (keep t)
    have "sy_mode (main_step y) = In t"
      using keep(4) by (auto simp: main_step_def wait_end_def split: option.splits)
    then show ?thesis using keep(1-3) w by (auto simp: get_num_tasks_def)
  qed (auto simp: main_step_def get_num_tasks_def w)
qed

text \<open>Task 1 waits, task 2 goes on.\<close>

definition demo_wait :: "nat system" where
  "demo_wait = main_step (task_step 1 (Op_Wait 4) (main_step (demo_start [1, 2])))"

lemma demo_wait_run: "sched_run [1, 2] demo_wait"
proof -
  have d: "sched_run [1, 2] (demo_start [1, 2])" "sy_mode (demo_start [1, 2]) = Main"
    using demo_start_run [of "[1, 2]"] by auto
  have m: "sy_mode (main_step (demo_start [1, 2])) = In 1"
    "op_polite (sy_sched (main_step (demo_start [1, 2]))) (Some (1, Op_Wait 4))"
    "sy_mode (task_step 1 (Op_Wait 4) (main_step (demo_start [1, 2]))) = Main" by code_simp+
  show ?thesis unfolding demo_wait_def
    using sched_run_step(1) [OF sched_run_step(2) [OF sched_run_step(1) [OF d] m(1,2)] m(3)] .
qed

lemma demo_wait_state:
  "sy_mode demo_wait = In 2" "tk_state (sc_task (sy_sched demo_wait) 1) = TS_WAIT" "sy_wait demo_wait 1 = Some 4"
  "forbid_cnt (sc_task (sy_sched demo_wait) 2) = 0" "sigmask_received (sc_task (sy_sched demo_wait) 1) = 0"
  by code_simp+

theorem scheduler_invariant_witness:
  "cur_task (sy_sched demo_wait) = Some 2 \<and> 1 \<in> set (waiting_tasks (sy_sched demo_wait)) \<and>
   1 \<notin> set (ready_tasks (sy_sched demo_wait)) \<and> sigmask_wait (sc_task (sy_sched demo_wait) 1) = 4"
proof -
  have "sy_wait demo_wait 1 = Some 4" "tk_state (sc_task (sy_sched demo_wait) 1) = TS_WAIT" "sy_mode demo_wait = In 2"
    using demo_wait_state by simp_all
  with scheduler_invariant [OF demo_wait_run] show ?thesis by (auto simp: Let_def)
qed

theorem scheduler_iteration_witness:
  "sy_mode (main_step (task_step 2 Op_Exit demo_wait)) = Crashed AttributeError"
proof -
  have s: "sy_mode demo_wait = In 2" by (rule demo_wait_state)
  have r: "sched_run [1, 2] (task_step 2 Op_Exit demo_wait)"
    by (rule sched_run_step(2) [OF demo_wait_run s]) simp
  have "sy_mode (task_step 2 Op_Exit demo_wait) = Main" by simp
  from scheduler_iteration [OF r this] have
    "sy_mode (main_step (task_step 2 Op_Exit demo_wait)) = Crashed AttributeError \<longleftrightarrow>
     cur_task (sy_sched (task_step 2 Op_Exit demo_wait)) = None \<and>
     ready_tasks (sy_sched (task_step 2 Op_Exit demo_wait)) = [] \<and>
     waiting_tasks (sy_sched (task_step 2 Op_Exit demo_wait)) \<noteq> []" by blast
  moreover have "cur_task (sy_sched (task_step 2 Op_Exit demo_wait)) = None"
    "ready_tasks (sy_sched (task_step 2 Op_Exit demo_wait)) = []"
    "waiting_tasks (sy_sched (task_step 2 Op_Exit demo_wait)) \<noteq> []" by code_simp+
  ultimately show ?thesis by blast
qed

text \<open>C17: round robin. While every task only uses up its time slices, each of the \<open>n\<close> tasks runs
  again after exactly \<open>n\<close> rounds: in round \<open>k\<close> it is the turn of task \<open>k mod n\<close>.\<close>

theorem round_robin:
  assumes "distinct ts" and "sys_init names hooks c ts = Inr y"
  shows "sy_mode ((time_slice ^^ k) (main_step y)) = In (ts ! (k mod length ts))"
proof -
  note i = sys_init_ok [OF assms]
  have ne: "ts \<noteq> []" using assms(2) i(3)
    by (cases "ts = []") (simp_all add: sys_init_def schedule_start_def sched_init_def)
  then obtain t rs where ts: "ts = t # rs" by (cases ts) auto
  have ok: "sched_ok (sy_sched y)" using i(1) by (simp add: sys_ok_def)
  obtain s' where s': "loop_iter (sy_sched y) = (s', Loop_Switch t)" "switched t rs (sy_sched y) s'"
    using loop_iter_switch [OF ok, of t rs] i(3) ts by (auto simp: sched_fresh_def)
  have "in_turn ts (main_step y)"
    using main_step_ok [OF i(1,2)] s' i(3,4) ts
    by (auto simp: in_turn_def main_step_def switched_def sched_fresh_def)
  from slices_in_turn [OF this, of k] show ?thesis
    using ne by (simp add: in_turn_def hd_rotate_conv_nth)
qed

theorem round_robin_witness: "sy_mode ((time_slice ^^ 7) (main_step (demo_start [4, 5, 6]))) = In 5"
  using round_robin [of "[4, 5, 6]" "\<lambda>_. ''t''" True "0 :: nat" "demo_start [4, 5, 6]" 7]
    demo_start_run [of "[4, 5, 6]"] by simp

text \<open>A task that is switched out in the middle of a native run finds the CPU in exactly the
  context it left, whatever the other tasks do until it is switched in again.\<close>

theorem cpu_context_restored:
  assumes "sched_run ts y" and "sy_mode y = Main"
    and "cur_task (sy_sched y) = Some c" and "tk_running (sc_task (sy_sched y) c)"
    and "sy_mode (main_step y) = In r" and "r \<noteq> c" and "away_run c (main_step y) y2"
    and "sy_mode y2 = Main" and "sy_mode (main_step y2) = In c" and "cur_task (sy_sched y2) \<noteq> Some c"
  shows "sc_cpu (sy_sched (main_step y2)) = sc_cpu (sy_sched y)"
  by (rule context_kept [OF sched_run_ok [OF assms(1)] assms(2-)])

theorem cpu_context_restored_witness:
  "let y1 = task_step 1 Op_Reschedule (task_step 1 (Op_Compute 77) (task_step 1 (Op_Run True) (main_step (demo_start [1, 2]))));
       y2 = task_step 2 Op_Reschedule (task_step 2 (Op_Compute 99) (main_step y1))
   in sc_cpu (sy_sched (main_step y2)) = 77 \<and> sc_cpu (sy_sched y2) = 99"
proof -
  define ya where "ya = main_step (demo_start [1, 2])"
  define y1 where "y1 = task_step 1 Op_Reschedule (task_step 1 (Op_Compute 77) (task_step 1 (Op_Run True) ya))"
  define y2 where "y2 = task_step 2 Op_Reschedule (task_step 2 (Op_Compute 99) (main_step y1))"
  have d: "sched_run [1, 2] (demo_start [1, 2])" "sy_mode (demo_start [1, 2]) = Main"
    using demo_start_run [of "[1, 2]"] by auto
  have ma: "sy_mode ya = In 1" unfolding ya_def by code_simp
  have ra: "sched_run [1, 2] ya" using sched_run_step(1) [OF d] by (simp add: ya_def)
  have r1: "sched_run [1, 2] y1" unfolding y1_def
    by (intro sched_run_step(2)) (use ma ra in simp_all)
  have f: "sy_mode y1 = Main" "cur_task (sy_sched y1) = Some 1" "tk_running (sc_task (sy_sched y1) 1)"
    "sy_mode (main_step y1) = In 2" "sy_mode y2 = Main" "sy_mode (main_step y2) = In 1"
    "cur_task (sy_sched y2) \<noteq> Some 1" "sc_cpu (sy_sched y1) = 77" "sc_cpu (sy_sched y2) = 99"
    "cur_task (sy_sched (main_step y1)) \<noteq> Some 1"
    unfolding y2_def y1_def ya_def by code_simp+
  have a1: "away_run 1 (main_step y1) (task_step 2 (Op_Compute 99) (main_step y1))"
    by (rule away_step [OF away_init f(10) _ sys_task [OF f(4)]]) simp
  have "away_run 1 (main_step y1) y2" unfolding y2_def
    by (rule away_step [OF a1 _ _ sys_task]) (use f(4,10) in simp_all)
  from cpu_context_restored [OF r1 f(1-4) _ this f(5-7)] f(8,9) show ?thesis
    by (simp add: y2_def y1_def ya_def Let_def)
qed

text \<open>C27: a signal a task waits for makes it the next task to run, unless the task that signals is in the forbid state: it is
  switched in at once, its \<open>wait\<close> returns exactly the signals it waited for, and the task that signalled is ready again behind
  all others. In the forbid state the waiting task is only made ready, in front of all others, and the signalling task
  goes on.\<close>

theorem signal_wakes_waiter:
  assumes "sched_run ts y" and "sy_mode y = In t"
    and "u \<in> set (waiting_tasks (sy_sched y))" and "sy_wait y u = Some m"
    and "v = new OR (sigmask_received (sc_task (sy_sched y) u) AND NOT msk)" and "v AND m \<noteq> 0"
  shows "let y' = main_step (task_step t (Op_Signal u new msk) y)
    in if is_forbidden t (sy_sched y)
       then sy_mode y' = In t \<and> ready_tasks (sy_sched y') = u # ready_tasks (sy_sched y) \<and>
            tk_state (sc_task (sy_sched y') u) = TS_READY \<and> sy_wait y' u = Some m
       else sy_mode y' = In u \<and> sy_got y' u = Some (v AND m) \<and> last (ready_tasks (sy_sched y')) = t"
proof -
  have y: "sys_ok y" by (rule sched_run_ok [OF assms(1)])
  then have "task_ok (sy_sched y) u" by (simp add: sys_ok_def sched_ok_def)
  then have w: "tk_state (sc_task (sy_sched y) u) = TS_WAIT" using assms(3) by (simp add: task_ok_def Let_def)
  show ?thesis
    using signal_resumes [OF y assms(2) w assms(4,5,6)] signal_forbidden [OF y assms(2) w assms(4,5,6)]
    by (auto simp: Let_def simp del: task_step.simps)
qed

theorem signal_wakes_waiter_witness:
  "sy_mode (main_step (task_step 2 (Op_Signal 1 12 12) demo_wait)) = In 1 \<and>
   sy_got (main_step (task_step 2 (Op_Signal 1 12 12) demo_wait)) 1 = Some 4"
proof -
  have w: "(1::nat) \<in> set (waiting_tasks (sy_sched demo_wait))" by code_simp
  have nf: "\<not> is_forbidden 2 (sy_sched demo_wait)" by code_simp
  have v: "12 = 12 OR (sigmask_received (sc_task (sy_sched demo_wait) 1) AND NOT 12)" "(12::int) AND 4 \<noteq> 0" "(12::int) AND 4 = 4"
    unfolding demo_wait_state by simp_all
  from signal_wakes_waiter [OF demo_wait_run demo_wait_state(1) w demo_wait_state(3) v(1,2)] v(3) nf
  show ?thesis by (simp add: Let_def del: task_step.simps)
qed

text \<open>C28: two hazards of the forbid state, which \<open>wait\<close> does not break. A task that waits while it
  forbids switching gets control back at once with no signal, but stays on the waiting list; and
  a task that signals the same waiting task twice while it forbids switching is hit by the
  \<open>ValueError\<close> of \<open>list.remove\<close>.\<close>

theorem forbid_hazards:
  assumes "sched_run ts y" and "sy_mode y = In t" and "is_forbidden t (sy_sched y)"
  shows "(sigmask_received (sc_task (sy_sched y) t) AND m = 0 \<longrightarrow>
      (let y' = main_step (task_step t (Op_Wait m) y)
       in sy_mode y' = In t \<and> sy_got y' t = Some 0 \<and> t \<in> set (waiting_tasks (sy_sched y')) \<and>
          tk_state (sc_task (sy_sched y') t) = TS_WAIT)) \<and>
    (u \<in> set (waiting_tasks (sy_sched y)) \<and> sy_wait y u = Some k \<and> new AND k \<noteq> 0 \<longrightarrow>
      (let y' = main_step (task_step t (Op_Signal u new new) y)
       in sy_mode y' = In t \<and> sy_mode (task_step t (Op_Signal u new new) y') = Crashed ValueError))"
proof -
  have y: "sys_ok y" by (rule sched_run_ok [OF assms(1)])
  then have "task_ok (sy_sched y) u" by (simp add: sys_ok_def sched_ok_def)
  then have u: "u \<in> set (waiting_tasks (sy_sched y)) \<longrightarrow> tk_state (sc_task (sy_sched y) u) = TS_WAIT"
    by (simp add: task_ok_def Let_def)
  show ?thesis
    using forbidden_wait_returns [OF y assms(2,3), of m] forbidden_signal_twice [OF y assms(2) _ _ assms(3), of u k new] u
    unfolding Let_def by blast
qed

theorem forbid_hazards_witness:
  "let y = task_step 2 Op_Forbid demo_wait; y' = main_step (task_step 2 (Op_Signal 1 4 4) y)
   in sy_mode y' = In 2 \<and> sy_mode (task_step 2 (Op_Signal 1 4 4) y') = Crashed ValueError"
proof -
  let ?y = "task_step 2 Op_Forbid demo_wait"
  have r: "sched_run [1, 2] ?y" by (rule sched_run_step(2) [OF demo_wait_run demo_wait_state(1)]) simp
  have f: "sy_mode ?y = In 2" "is_forbidden 2 (sy_sched ?y)" "(1::nat) \<in> set (waiting_tasks (sy_sched ?y))"
    "sy_wait ?y 1 = Some 4" by code_simp+
  from forbid_hazards [OF r f(1,2), of 0 1 4 4] f(3,4) show ?thesis by (simp add: Let_def del: task_step.simps)
qed

end
