(* ===== verification/Py_Str.thy ===== *)
theory Py_Str
  imports Ami_Prelude
begin

text \<open>
  The methods of Python strings (and bytes) the modelled code uses: \<open>find\<close>, \<open>rfind\<close>,
  \<open>split\<close> and \<open>join\<close> on one separator, \<open>startswith\<close>, \<open>endswith\<close>, \<open>upper\<close> and \<open>lower\<close> on
  ASCII letters. Positions are \<open>int\<close>, -1 when nothing is found.
\<close>

definition find_char :: "'a \<Rightarrow> 'a list \<Rightarrow> int" where
  "find_char c s = (if c \<in> set s then int (length (takeWhile (\<lambda>x. x \<noteq> c) s)) else -1)"

definition rfind_char :: "'a \<Rightarrow> 'a list \<Rightarrow> int" where
  "rfind_char c s =
     (if c \<in> set s then int (length s) - 1 - int (length (takeWhile (\<lambda>x. x \<noteq> c) (rev s))) else -1)"

fun split_on :: "'a \<Rightarrow> 'a list \<Rightarrow> 'a list list" where
  "split_on c [] = [[]]"
| "split_on c (x # xs) =
     (if x = c then [] # split_on c xs
      else case split_on c xs of [] \<Rightarrow> [[x]] | p # ps \<Rightarrow> (x # p) # ps)"

fun join_with :: "'a list \<Rightarrow> 'a list list \<Rightarrow> 'a list" where
  "join_with sep [] = []"
| "join_with sep [p] = p"
| "join_with sep (p # q # ps) = p @ sep @ join_with sep (q # ps)"

definition starts_with :: "'a list \<Rightarrow> 'a list \<Rightarrow> bool" where
  "starts_with s p \<longleftrightarrow> take (length p) s = p"

definition ends_with :: "'a list \<Rightarrow> 'a list \<Rightarrow> bool" where
  "ends_with s p \<longleftrightarrow> length p \<le> length s \<and> drop (length s - length p) s = p"

definition upper_ch :: "char \<Rightarrow> char" where
  "upper_ch c = (let n = of_char c :: nat in if 97 \<le> n \<and> n \<le> 122 then char_of (n - 32) else c)"

definition lower_ch :: "char \<Rightarrow> char" where
  "lower_ch c = (let n = of_char c :: nat in if 65 \<le> n \<and> n \<le> 90 then char_of (n + 32) else c)"

definition is_digit :: "char \<Rightarrow> bool" where
  "is_digit c \<longleftrightarrow> (let n = of_char c :: nat in 48 \<le> n \<and> n \<le> 57)"

definition digit_val :: "char \<Rightarrow> int" where
  "digit_val c = int (of_char c) - 48"

lemma split_on_not_Nil [simp]: "split_on c xs \<noteq> []"
  by (induction xs) (auto split: list.splits)

lemma join_split [simp]: "join_with [c] (split_on c xs) = xs"
proof (induction xs)
  case (Cons x xs)
  then show ?case by (cases "split_on c xs" rule: list.exhaust; cases "tl (split_on c xs)") (auto split: list.splits)
qed simp

lemma split_on_no: "c \<notin> set xs \<Longrightarrow> split_on c xs = [xs]"
  by (induction xs) auto

lemma split_on_append: "c \<notin> set xs \<Longrightarrow> split_on c (xs @ c # ys) = xs # split_on c ys"
  by (induction xs) auto

lemma split_join: "ps \<noteq> [] \<Longrightarrow> \<forall>p \<in> set ps. c \<notin> set p \<Longrightarrow> split_on c (join_with [c] ps) = ps"
  by (induction "[c]" ps rule: join_with.induct) (auto simp: split_on_no split_on_append)

lemma split_on_parts: "p \<in> set (split_on c xs) \<Longrightarrow> c \<notin> set p"
  by (induction xs arbitrary: p) (auto split: list.splits if_splits)

lemma length_split_on: "length (split_on c xs) = Suc (length (filter (\<lambda>x. x = c) xs))"
  by (induction xs) (auto split: list.splits)

lemma takeWhile_neq_split: "c \<notin> set xs \<Longrightarrow> takeWhile (\<lambda>x. x \<noteq> c) (xs @ c # ys) = xs"
  by (induction xs) auto

lemma find_char_split: "c \<notin> set xs \<Longrightarrow> find_char c (xs @ c # ys) = int (length xs)"
  by (simp add: find_char_def takeWhile_neq_split)

lemma find_char_none [simp]: "c \<notin> set s \<Longrightarrow> find_char c s = -1"
  by (simp add: find_char_def)

lemma find_char_neg_iff: "find_char c s = -1 \<longleftrightarrow> c \<notin> set s"
  by (auto simp: find_char_def)

lemma find_char_bounds: "c \<in> set s \<Longrightarrow> 0 \<le> find_char c s \<and> find_char c s < int (length s)"
  by (drule split_list_first) (auto simp: find_char_split)

lemma rfind_char_split: "c \<notin> set ys \<Longrightarrow> rfind_char c (xs @ c # ys) = int (length xs)"
  using takeWhile_neq_split [of c "rev ys" "rev xs"] by (simp add: rfind_char_def)

lemma rfind_char_neg_iff: "rfind_char c s = -1 \<longleftrightarrow> c \<notin> set s"
proof (cases "c \<in> set s")
  case True
  then obtain xs ys where "s = xs @ c # ys" "c \<notin> set ys" by (meson split_list_last)
  then show ?thesis using True by (simp add: rfind_char_split)
qed (simp add: rfind_char_def)

lemma upper_ch_idem [simp]: "upper_ch (upper_ch c) = upper_ch c"
  by (auto simp: upper_ch_def Let_def)

end
