(* ===== verification/Fs_Name.thy ===== *)
theory Fs_Name
  imports Py_Bytes Py_Str
begin

text \<open>
  Names and protection bits of the Amiga file system: \<open>amitools/fs/FSString.py\<close>,
  \<open>FileName.py\<close> and \<open>ProtectFlags.py\<close>. A text is a list of Latin-1 characters.
\<close>

unbundle bit_operations_syntax

subsection \<open>FSString\<close>

text \<open>\<open>get_ami_str\<close> normalises with NFKC before it encodes to Latin-1. For Latin-1 texts NFKC
  works character by character: a few compatibility characters become ASCII ones, and those
  whose normal form leaves Latin-1 make the encoder raise \<open>UnicodeEncodeError\<close>, a
  \<open>ValueError\<close>. The table is the one of the Unicode standard.\<close>

definition nfkc_char :: "char \<Rightarrow> string option" where
  "nfkc_char c =
     (let n = of_char c :: nat in
      if n = 160 then Some '' ''
      else if n = 170 then Some ''a'' else if n = 186 then Some ''o''
      else if n = 178 then Some ''2'' else if n = 179 then Some ''3'' else if n = 185 then Some ''1''
      else if n = 168 \<or> n = 175 \<or> n = 180 \<or> n = 181 \<or> n = 184 \<or> n = 188 \<or> n = 189 \<or> n = 190 then None
      else Some [c])"

fun ami_chars :: "string \<Rightarrow> string res" where
  "ami_chars [] = Inr []"
| "ami_chars (c # s) =
     (case nfkc_char c of
        None \<Rightarrow> Inl ValueError
      | Some cs \<Rightarrow> rbind (ami_chars s) (\<lambda>t. Inr (cs @ t)))"

definition get_ami_str :: "string \<Rightarrow> byte list res" where
  "get_ami_str txt = rbind (ami_chars txt) (\<lambda>t. Inr (latin1_enc t))"

definition plain_name :: "string \<Rightarrow> bool" where
  "plain_name s \<longleftrightarrow> (\<forall>c \<in> set s. nfkc_char c = Some [c])"

lemma get_ami_str_plain: "plain_name s \<Longrightarrow> get_ami_str s = Inr (latin1_enc s)"
proof -
  assume "plain_name s"
  then have "ami_chars s = Inr s" by (induction s) (auto simp: plain_name_def)
  then show ?thesis by (simp add: get_ami_str_def)
qed

subsection \<open>FileName\<close>

definition is_root_path_alias :: "string \<Rightarrow> bool" where
  "is_root_path_alias name \<longleftrightarrow> name = '''' \<or> name = ''/'' \<or> name = '':''"

definition has_dir_prefix :: "string \<Rightarrow> bool" where
  "has_dir_prefix name \<longleftrightarrow> find_char (CHR ''/'') name \<noteq> -1"

definition split_path :: "string \<Rightarrow> string list" where
  "split_path name = split_on (CHR ''/'') name"

definition get_dir_and_base_name :: "string \<Rightarrow> string option \<times> string option" where
  "get_dir_and_base_name s =
     (let pos = rfind_char (CHR ''/'') s in
      if pos \<noteq> -1 then
        let dir_name = take (nat pos) s; file_name = drop (nat pos + 1) s
        in (Some dir_name, if length file_name = 0 then None else Some file_name)
      else (None, Some s))"

definition upper_byte :: "byte \<Rightarrow> byte" where
  "upper_byte b = (if 97 \<le> uint b \<and> uint b \<le> 122 then b - 32 else b)"

definition get_upper_ami_str :: "bool \<Rightarrow> string \<Rightarrow> byte list res" where
  "get_upper_ami_str is_intl name =
     rbind (get_ami_str name) (\<lambda>s.
       let result = map upper_byte s in
       if is_intl then
         Inr (map (\<lambda>o'. if uint o' \<ge> 224 \<and> uint o' \<le> 254 \<and> uint o' \<noteq> 247 then o' - 32 else o') result)
       else Inr result)"

text \<open>The loop over the name compares bytes with one character strings, which are never equal,
  so it rejects nothing; what is left of \<open>is_valid\<close> on one name is the length.\<close>

definition is_valid_single :: "bool \<Rightarrow> string \<Rightarrow> bool res" where
  "is_valid_single is_longname name =
     rbind (get_ami_str name) (\<lambda>s.
       Inr (if is_longname then \<not> length s > 110 else \<not> length s > 30))"

fun all_valid :: "bool \<Rightarrow> string list \<Rightarrow> bool res" where
  "all_valid l [] = Inr True"
| "all_valid l (p # ps) = rbind (is_valid_single l p) (\<lambda>v. if \<not> v then Inr False else all_valid l ps)"

definition name_is_valid :: "bool \<Rightarrow> string \<Rightarrow> bool res" where
  "name_is_valid is_longname name =
     (if has_dir_prefix name then all_valid is_longname (split_path name)
      else is_valid_single is_longname name)"

definition hash_step :: "int \<Rightarrow> byte \<Rightarrow> int" where
  "hash_step h c = (h * 13 + uint c) AND 0x7FF"

definition name_hash :: "bool \<Rightarrow> string \<Rightarrow> int \<Rightarrow> int res" where
  "name_hash is_intl name hash_size =
     rbind (get_upper_ami_str is_intl name)
       (\<lambda>up. if hash_size = 0 then Inl ZeroDivisionError
             else Inr (foldl hash_step (int (length up)) up mod hash_size))"

subsection \<open>ProtectFlags\<close>

text \<open>The text has one letter per bit, \<open>HSPArwed\<close> from bit 7 down. The lower case flags are
  active low: they are shown when their bit is clear.\<close>

definition flag_txt :: string where "flag_txt = ''HSPArwed''"

definition flag_none :: int where "flag_none = 0xF"

fun show_flags :: "int \<Rightarrow> int \<Rightarrow> string \<Rightarrow> string" where
  "show_flags msk m [] = []"
| "show_flags msk m (flg # r) =
     (let bit = (msk AND m = m); flg_low = lower_ch flg;
          show = (if bit then (if flg_low \<noteq> flg then flg_low else CHR ''-'')
                  else (if flg_low = flg then flg_low else CHR ''-''))
      in show # show_flags msk (m div 2) r)"

definition protect_str :: "int \<Rightarrow> string" where
  "protect_str msk = show_flags msk 128 flag_txt"

fun bin_flags :: "nat \<Rightarrow> int \<Rightarrow> int \<Rightarrow> string" where
  "bin_flags 0 msk m = []"
| "bin_flags (Suc k) msk m = (if m AND msk = m then CHR ''1'' else CHR ''0'') # bin_flags k msk (m div 2)"

definition bin_str :: "int \<Rightarrow> string" where
  "bin_str msk = bin_flags 8 msk 128"

definition short_str :: "int \<Rightarrow> string" where
  "short_str msk = filter (\<lambda>c. c \<noteq> CHR ''-'') (protect_str msk)"

fun parse_full_loop :: "string \<Rightarrow> string \<Rightarrow> nat \<Rightarrow> int \<Rightarrow> int res" where
  "parse_full_loop [] refs k msk = Inr msk"
| "parse_full_loop s [] k msk = Inr msk"
| "parse_full_loop (val # s) (ref # refs) k msk =
     (let ref_lo = lower_ch ref in
      if val \<noteq> ref \<and> val \<noteq> ref_lo \<and> val \<noteq> CHR ''-'' then Inl ValueError
      else let is_lo = (ref = ref_lo); is_blank = (val = CHR ''-'');
               do_set = (if is_lo then is_blank else \<not> is_blank)
           in parse_full_loop s refs (k - 1) (if do_set then msk OR 2 ^ (k - 1) else msk))"

definition parse_full :: "string \<Rightarrow> int res" where
  "parse_full s =
     (if length s \<noteq> length flag_txt then Inl ValueError
      else parse_full_loop s flag_txt (length flag_txt) 0)"

text \<open>\<open>parse\<close> adds and removes single flags; \<open>None\<close> stands for the untouched msk of an empty
  text. The position search is the inner loop over \<open>flag_txt\<close>.\<close>

fun find_flag :: "char \<Rightarrow> string \<Rightarrow> nat \<Rightarrow> (int \<times> bool) option" where
  "find_flag a [] i = None"
| "find_flag a (flg # r) i =
     (if lower_ch flg = a then Some (2 ^ (7 - i), lower_ch flg = flg) else find_flag a r (Suc i))"

definition inv_protect_format :: nat where "inv_protect_format = 19"

fun parse_flags :: "string \<Rightarrow> bool \<Rightarrow> int \<Rightarrow> int res" where
  "parse_flags [] adding msk = Inr msk"
| "parse_flags (a # s) adding msk =
     (if a = CHR ''+'' then parse_flags s True msk
      else if a = CHR ''-'' then parse_flags s False msk
      else case find_flag a flag_txt 0 of
             None \<Rightarrow> Inl (FSError inv_protect_format)
           | Some (m, is_low) \<Rightarrow>
               parse_flags s adding (if adding = is_low then msk AND NOT m else msk OR m))"

definition protect_parse :: "string \<Rightarrow> int \<Rightarrow> int res" where
  "protect_parse s msk = (if s = [] then Inr msk else parse_flags (map lower_ch s) True flag_none)"

definition flag_is_set :: "int \<Rightarrow> int \<Rightarrow> bool" where "flag_is_set msk m \<longleftrightarrow> msk AND m = 0"
definition flag_set :: "int \<Rightarrow> int \<Rightarrow> int" where "flag_set msk m = msk AND NOT m"
definition flag_clr :: "int \<Rightarrow> int \<Rightarrow> int" where "flag_clr msk m = msk OR m"

subsection \<open>The hash\<close>

lemma and_7FF: "h AND 0x7FF = (h :: int) mod 2048"
  using take_bit_eq_mask [of 11 h] by (simp add: take_bit_eq_mod mask_eq_exp_minus_1)

lemma foldl_mod:
  "foldl hash_step (h mod 2048) bs mod 2048 = foldl (\<lambda>h c. h * 13 + uint c) h bs mod 2048"
proof (induction bs arbitrary: h)
  case (Cons b bs)
  have "(h mod 2048 * 13 + uint b) mod 2048 = (h * 13 + uint b) mod 2048"
    by (intro mod_add_cong mod_mult_cong) simp_all
  with Cons.IH [of "h * 13 + uint b"] show ?case by (simp add: hash_step_def and_7FF)
qed simp

lemma hash_step_bound: "0 \<le> hash_step h c \<and> hash_step h c < 2048"
  by (simp add: hash_step_def and_7FF)

lemma foldl_hash_step:
  "bs \<noteq> [] \<Longrightarrow> foldl hash_step h bs = foldl (\<lambda>h c. h * 13 + uint c) h bs mod 2048"
proof -
  assume "bs \<noteq> []"
  then have r: "0 \<le> foldl hash_step h bs \<and> foldl hash_step h bs < 2048"
    using hash_step_bound by (cases bs rule: rev_cases) auto
  obtain c cs where bs: "bs = c # cs" using \<open>bs \<noteq> []\<close> by (cases bs) auto
  have "hash_step h c = hash_step (h mod 2048) c"
    unfolding hash_step_def and_7FF by (intro mod_add_cong mod_mult_cong) simp_all
  then have "foldl hash_step h bs = foldl hash_step (h mod 2048) bs" using bs by simp
  with foldl_mod [of h bs] r show ?thesis by simp
qed

lemma char_of_less: "(of_char c :: nat) < 256"
  by simp

lemma upper_byte_enc: "upper_byte (word_of_nat (of_char c)) = word_of_nat (of_char (upper_ch c))"
proof -
  have n: "(of_char c :: nat) < 256" by simp
  then have u: "uint (word_of_nat (of_char c) :: byte) = int (of_char c)"
    using uint_word_of_int [of "int (of_char c)", where ?'a = 8] by (simp add: of_nat_mod)
  show ?thesis
  proof (cases "97 \<le> (of_char c :: nat) \<and> (of_char c :: nat) \<le> 122")
    case True
    have md: "(of_char c - 32 :: nat) mod 256 = of_char c - 32"
      using n by (intro mod_less) linarith
    from True have "upper_byte (word_of_nat (of_char c)) = word_of_nat (of_char c) - 32"
      unfolding upper_byte_def u by simp
    also have "\<dots> = word_of_nat (of_char c - 32)" using True by (simp add: of_nat_diff)
    also have "\<dots> = word_of_nat (of_char (upper_ch c))" using True md by (simp add: upper_ch_def)
    finally show ?thesis .
  next
    case False
    then have "upper_byte (word_of_nat (of_char c)) = word_of_nat (of_char c)"
      unfolding upper_byte_def u by auto
    with False show ?thesis by (auto simp: upper_ch_def Let_def)
  qed
qed

lemma nfkc_upper: "nfkc_char c = Some [c] \<Longrightarrow> nfkc_char (upper_ch c) = Some [upper_ch c]"
  unfolding nfkc_char_def upper_ch_def Let_def by (auto split: if_splits)

lemma plain_upper: "plain_name s \<Longrightarrow> plain_name (map upper_ch s)"
  by (auto simp: plain_name_def nfkc_upper)

lemma get_upper_plain: "plain_name s \<Longrightarrow> get_upper_ami_str i (map upper_ch s) = get_upper_ami_str i s"
proof -
  assume p: "plain_name s"
  have "map upper_byte (latin1_enc (map upper_ch s)) = map upper_byte (latin1_enc s)"
    by (simp add: latin1_enc_def o_def upper_byte_enc)
  then show ?thesis
    by (simp add: get_upper_ami_str_def get_ami_str_plain [OF p] get_ami_str_plain [OF plain_upper [OF p]])
qed

subsection \<open>Protection bits\<close>

lemma and_pow2: "msk AND 2 ^ k = (if bit msk k then 2 ^ k else (0 :: int))"
  by (rule bit_eqI) (auto simp: bit_simps)

lemma take_bit_Suc_or: "take_bit (Suc k) (msk :: int) = take_bit k msk OR (msk AND 2 ^ k)"
  by (rule bit_eqI) (auto simp: bit_simps less_Suc_eq)

lemma parse_show:
  "\<forall>f \<in> set refs. f \<noteq> CHR ''-'' \<and> lower_ch f \<noteq> CHR ''-'' \<Longrightarrow>
     parse_full_loop (show_flags msk (2 ^ (length refs - 1)) refs) refs (length refs) acc =
       Inr (acc OR take_bit (length refs) msk)"
proof (induction refs arbitrary: acc)
  case (Cons f refs)
  have half: "show_flags msk (2 ^ length refs div 2) refs = show_flags msk (2 ^ (length refs - 1)) refs"
    by (cases refs) auto
  from Cons show ?case
    by (auto simp: Let_def and_pow2 half take_bit_Suc_or or.assoc or.commute or.left_commute)
qed simp

lemma length_show_flags [simp]: "length (show_flags msk m refs) = length refs"
  by (induction refs arbitrary: m) (auto simp: Let_def)

lemma flag_txt_ok: "\<forall>f \<in> set flag_txt. f \<noteq> CHR ''-'' \<and> lower_ch f \<noteq> CHR ''-''"
  by (simp add: flag_txt_def lower_ch_def char_of_def)

lemma length_flag_txt [simp]: "length flag_txt = 8"
  by (simp add: flag_txt_def)

subsection \<open>Properties\<close>

text \<open>C22: the directory hash of a name always lies inside the hash table, it is the
  polynomial of the upper cased bytes modulo 2048 although the code reduces after every step,
  and it does not depend on the case of ASCII letters.\<close>

theorem name_hash_correct:
  assumes "plain_name s" and "0 < n"
  shows "\<exists>h up. get_upper_ami_str i s = Inr up \<and> name_hash i s n = Inr h \<and> 0 \<le> h \<and> h < n \<and>
           h = foldl (\<lambda>h c. h * 13 + uint c) (int (length up)) up mod 2048 mod n \<and>
           name_hash i (map upper_ch s) n = Inr h"
proof -
  obtain up where up: "get_upper_ami_str i s = Inr up"
    using get_ami_str_plain [OF assms(1)] by (cases i) (simp_all add: get_upper_ami_str_def Let_def)
  have "foldl hash_step (int (length up)) up = foldl (\<lambda>h c. h * 13 + uint c) (int (length up)) up mod 2048"
    by (cases "up = []") (simp_all add: foldl_hash_step)
  with up assms(2) get_upper_plain [OF assms(1), of i] show ?thesis by (simp add: name_hash_def)
qed

theorem name_hash_correct_witness:
  "\<exists>h. name_hash False ''Test'' 72 = Inr h \<and> 0 \<le> h \<and> h < 72 \<and> name_hash False ''TEST'' 72 = Inr h"
proof -
  have "plain_name ''Test''" by (simp add: plain_name_def nfkc_char_def)
  moreover have "map upper_ch ''Test'' = ''TEST''" by code_simp
  ultimately show ?thesis using name_hash_correct [of "''Test''" 72 False] by auto
qed

text \<open>\<open>parse_full\<close> reads back the text \<open>str\<close> shows: it yields the low eight bits of the
  mask for every mask, and the text always has one character per flag.\<close>

theorem protect_flags_roundtrip:
  "length (protect_str m) = length flag_txt \<and> parse_full (protect_str m) = Inr (take_bit 8 m)"
  using parse_show [OF flag_txt_ok, of m 0]
  by (simp add: parse_full_def protect_str_def)

end
