(* ===== verification/Fs_Block.thy ===== *)
theory Fs_Block
  imports Fs_Name
begin

text \<open>
  The block layer of the Amiga file system, class \<open>Block\<close> of
  \<open>amitools/fs/block/Block.py\<close>: long words, strings, time stamps and byte areas inside the
  bytes of one block, the type words and the checksum. A block has \<open>bl\<close> long words
  (\<open>block_longs\<close>); negative positions count from its end. Every accessor works on the block's
  bytearray and can raise.
\<close>

named_theorems blk_simps

definition T_SHORT :: int where "T_SHORT = 2"
definition T_DATA :: int where "T_DATA = 8"
definition T_LIST :: int where "T_LIST = 16"
definition T_DIR_CACHE :: int where "T_DIR_CACHE = 33"
definition T_COMMENT :: int where "T_COMMENT = 64"
definition ST_ROOT :: int where "ST_ROOT = 1"
definition ST_USERDIR :: int where "ST_USERDIR = 2"
definition ST_FILE :: int where "ST_FILE = -3 AND 0xFFFFFFFF"

record time_stamp =
  ts_days :: int
  ts_mins :: int
  ts_ticks :: int

definition ts_zero :: time_stamp where
  "ts_zero = \<lparr>ts_days = 0, ts_mins = 0, ts_ticks = 0\<rparr>"

definition ts_secs :: "time_stamp \<Rightarrow> int" where
  "ts_secs ts = ts_days ts * 24 * 60 * 60 + ts_mins ts * 60 + ts_ticks ts div 50"

definition ts_sub_secs :: "time_stamp \<Rightarrow> int" where
  "ts_sub_secs ts = ts_ticks ts mod 50"

text \<open>\<open>from_secs\<close>, the seconds already relative to the Amiga epoch.\<close>

definition ts_from_secs :: "int \<Rightarrow> time_stamp" where
  "ts_from_secs secs =
     (let ticks = secs * 50; mins = ticks div (50 * 60)
      in \<lparr>ts_days = mins div (60 * 24), ts_mins = mins mod (60 * 24), ts_ticks = ticks mod (50 * 60)\<rparr>)"

subsection \<open>Accessors\<close>

definition long_pos :: "int \<Rightarrow> int \<Rightarrow> int" where
  "long_pos bl num = (if num < 0 then bl + num else num)"

definition put_long :: "int \<Rightarrow> int \<Rightarrow> int \<Rightarrow> byte list \<Rightarrow> byte list res" where
  "put_long bl num val d = rbind (pack_u 4 val) (pack_into d (long_pos bl num * 4))"

definition get_long :: "int \<Rightarrow> int \<Rightarrow> byte list \<Rightarrow> int res" where
  "get_long bl num d = rbind (unpack_from 4 d (long_pos bl num * 4)) (\<lambda>bs. Inr (be_int bs))"

definition put_slong :: "int \<Rightarrow> int \<Rightarrow> int \<Rightarrow> byte list \<Rightarrow> byte list res" where
  "put_slong bl num val d = rbind (pack_s 4 val) (pack_into d (long_pos bl num * 4))"

definition get_slong :: "int \<Rightarrow> int \<Rightarrow> byte list \<Rightarrow> int res" where
  "get_slong bl num d = rbind (unpack_from 4 d (long_pos bl num * 4)) (\<lambda>bs. Inr (be_sint bs))"

text \<open>The loops that write or read consecutive long words, up or down.\<close>

fun put_longs :: "int \<Rightarrow> int \<Rightarrow> int \<Rightarrow> int list \<Rightarrow> byte list \<Rightarrow> byte list res" where
  "put_longs bl num step [] d = Inr d"
| "put_longs bl num step (v # vs) d = rbind (put_long bl num v d) (put_longs bl (num + step) step vs)"

fun get_longs :: "int \<Rightarrow> int \<Rightarrow> int \<Rightarrow> nat \<Rightarrow> byte list \<Rightarrow> int list res" where
  "get_longs bl num step 0 d = Inr []"
| "get_longs bl num step (Suc n) d =
     rbind (get_long bl num d) (\<lambda>v. rbind (get_longs bl (num + step) step n d) (\<lambda>vs. Inr (v # vs)))"

text \<open>\<open>for i in range(n): put(start + i * step, xs[i])\<close>, which raises on a short list.\<close>

definition put_table :: "int \<Rightarrow> int \<Rightarrow> int \<Rightarrow> int \<Rightarrow> int list \<Rightarrow> byte list \<Rightarrow> byte list res" where
  "put_table bl num step n xs d =
     rbind (put_longs bl num step (take (nat n) xs) d)
       (\<lambda>d'. if int (length xs) < n then Inl IndexError else Inr d')"

definition put_timestamp :: "int \<Rightarrow> int \<Rightarrow> time_stamp option \<Rightarrow> byte list \<Rightarrow> byte list res" where
  "put_timestamp bl loc ts d =
     (let t = (case ts of None \<Rightarrow> ts_zero | Some t \<Rightarrow> t)
      in rbind (put_long bl loc (ts_days t) d) (\<lambda>d1.
           rbind (put_long bl (loc + 1) (ts_mins t) d1) (put_long bl (loc + 2) (ts_ticks t))))"

definition get_timestamp :: "int \<Rightarrow> int \<Rightarrow> byte list \<Rightarrow> time_stamp res" where
  "get_timestamp bl loc d =
     rbind (get_long bl loc d) (\<lambda>a. rbind (get_long bl (loc + 1) d) (\<lambda>b.
       rbind (get_long bl (loc + 2) d) (\<lambda>c. Inr \<lparr>ts_days = a, ts_mins = b, ts_ticks = c\<rparr>)))"

definition get_bytes :: "int \<Rightarrow> int \<Rightarrow> int \<Rightarrow> byte list \<Rightarrow> byte list" where
  "get_bytes bl loc sz d = (let p = long_pos bl loc * 4 in py_slice d p (p + sz))"

definition put_bytes :: "int \<Rightarrow> int \<Rightarrow> byte list \<Rightarrow> byte list \<Rightarrow> byte list" where
  "put_bytes bl loc bs d =
     (let p = long_pos bl loc * 4 in py_slice_set d p (p + int (length bs)) bs)"

text \<open>\<open>_get_bstr\<close> returns None when the length byte exceeds the field.\<close>

definition get_bstr :: "int \<Rightarrow> int \<Rightarrow> int \<Rightarrow> byte list \<Rightarrow> string option res" where
  "get_bstr bl loc max_size d =
     (let p = long_pos bl loc * 4 in
      rbind (py_get d p) (\<lambda>b. let sz = uint b in
        if sz > max_size then Inr None
        else if sz = 0 then Inr (Some '''')
        else Inr (Some (latin1_dec (py_slice d (p + 1) (p + 1 + sz))))))"

definition put_bstr :: "int \<Rightarrow> int \<Rightarrow> int \<Rightarrow> string option \<Rightarrow> byte list \<Rightarrow> byte list res" where
  "put_bstr bl loc max_size fs_str d =
     rbind (get_ami_str (case fs_str of None \<Rightarrow> '''' | Some s \<Rightarrow> s)) (\<lambda>b0.
       if \<not> length b0 < 256 then Inl AssertionError
       else let bstr = (if int (length b0) > max_size then py_slice b0 0 max_size else b0);
                p = long_pos bl loc * 4
            in rbind (py_set d p (word_of_nat (length bstr))) (\<lambda>d1.
                 Inr (if length bstr > 0
                      then py_slice_set d1 (p + 1) (p + 1 + int (length bstr)) bstr else d1)))"

text \<open>\<open>_get_cstr\<close>: up to the first zero byte; \<open>_put_cstr\<close> as written assigns the whole string
  to a slice of at most \<open>max_size\<close> bytes.\<close>

fun cstr_len :: "byte list \<Rightarrow> int \<Rightarrow> nat \<Rightarrow> nat \<Rightarrow> nat res" where
  "cstr_len d p 0 n = Inr n"
| "cstr_len d p (Suc k) n =
     rbind (py_get d (p + int n)) (\<lambda>c. if c = 0 then Inr n else cstr_len d p k (Suc n))"

definition get_cstr :: "int \<Rightarrow> nat \<Rightarrow> byte list \<Rightarrow> string res" where
  "get_cstr loc max_size d =
     rbind (cstr_len d (loc * 4) max_size 0)
       (\<lambda>n. Inr (latin1_dec (py_slice d (loc * 4) (loc * 4 + int n))))"

definition put_cstr :: "int \<Rightarrow> nat \<Rightarrow> string option \<Rightarrow> byte list \<Rightarrow> byte list res" where
  "put_cstr loc max_size fs_str d =
     rbind (get_ami_str (case fs_str of None \<Rightarrow> '''' | Some s \<Rightarrow> s)) (\<lambda>cstr.
       let n = min max_size (length cstr); p = loc * 4
       in Inr (if n > 0 then py_slice_set d p (p + int n) cstr else d))"

subsection \<open>Types and checksum\<close>

fun sum_longs :: "int \<Rightarrow> int \<Rightarrow> nat \<Rightarrow> nat \<Rightarrow> byte list \<Rightarrow> int \<Rightarrow> int res" where
  "sum_longs bl chk 0 i d acc = Inr acc"
| "sum_longs bl chk (Suc k) i d acc =
     (if int i \<noteq> chk then rbind (get_long bl (int i) d) (\<lambda>v. sum_longs bl chk k (Suc i) d (acc + v))
      else sum_longs bl chk k (Suc i) d acc)"

definition calc_chksum :: "int \<Rightarrow> int \<Rightarrow> byte list \<Rightarrow> int res" where
  "calc_chksum bl chk_loc d =
     rbind (sum_longs bl chk_loc (nat bl) 0 d 0) (\<lambda>c. Inr ((- c) AND 0xFFFFFFFF))"

definition put_chksum :: "int \<Rightarrow> int \<Rightarrow> byte list \<Rightarrow> byte list res" where
  "put_chksum bl chk_loc d = rbind (calc_chksum bl chk_loc d) (\<lambda>c. put_long bl chk_loc c d)"

definition put_types :: "int \<Rightarrow> int \<Rightarrow> int \<Rightarrow> byte list \<Rightarrow> byte list res" where
  "put_types bl is_type is_sub_type d =
     rbind (if is_type \<noteq> 0 then put_long bl 0 is_type d else Inr d)
       (\<lambda>d1. if is_sub_type \<noteq> 0 then put_long bl (-1) is_sub_type d1 else Inr d1)"

text \<open>\<open>Block.write\<close> up to the device write: types, then checksum.\<close>

definition block_write :: "int \<Rightarrow> int \<Rightarrow> int \<Rightarrow> int \<Rightarrow> byte list \<Rightarrow> byte list res" where
  "block_write bl is_type is_sub_type chk_loc d =
     rbind (put_types bl is_type is_sub_type d) (put_chksum bl chk_loc)"

record block_head =
  bh_type :: int
  bh_sub_type :: int
  bh_valid_types :: bool
  bh_got_chksum :: int
  bh_calc_chksum :: int
  bh_valid :: bool

definition block_read :: "int \<Rightarrow> int \<Rightarrow> int \<Rightarrow> int \<Rightarrow> byte list \<Rightarrow> block_head res" where
  "block_read bl is_type is_sub_type chk_loc d =
     rbind (get_long bl 0 d) (\<lambda>t. rbind (get_long bl (-1) d) (\<lambda>st.
       rbind (get_long bl chk_loc d) (\<lambda>got. rbind (calc_chksum bl chk_loc d) (\<lambda>calc.
         let vt = ((is_type \<noteq> 0 \<longrightarrow> t = is_type) \<and> (is_sub_type \<noteq> 0 \<longrightarrow> st = is_sub_type))
         in Inr \<lparr>bh_type = t, bh_sub_type = st, bh_valid_types = vt, bh_got_chksum = got,
                 bh_calc_chksum = calc, bh_valid = vt \<and> got = calc\<rparr>))))"

definition is_root_block :: "block_head \<Rightarrow> bool" where
  "is_root_block h \<longleftrightarrow> bh_type h = T_SHORT \<and> bh_sub_type h = ST_ROOT"
definition is_user_dir_block :: "block_head \<Rightarrow> bool" where
  "is_user_dir_block h \<longleftrightarrow> bh_type h = T_SHORT \<and> bh_sub_type h = ST_USERDIR"
definition is_file_header_block :: "block_head \<Rightarrow> bool" where
  "is_file_header_block h \<longleftrightarrow> bh_type h = T_SHORT \<and> bh_sub_type h = ST_FILE"
definition is_file_list_block :: "block_head \<Rightarrow> bool" where
  "is_file_list_block h \<longleftrightarrow> bh_type h = T_LIST \<and> bh_sub_type h = ST_FILE"

definition create_data :: "int \<Rightarrow> byte list" where
  "create_data bl = replicate (nat (bl * 4)) 0"

subsection \<open>Areas\<close>

text \<open>All accessors read or replace an area of the block: \<open>bput p bs\<close> replaces the bytes from
  \<open>p\<close>, \<open>bget p n\<close> reads \<open>n\<close> of them. The lemmas reduce the accessors to these two.\<close>

definition bput :: "int \<Rightarrow> byte list \<Rightarrow> byte list \<Rightarrow> byte list" where
  "bput p bs d = take (nat p) d @ bs @ drop (nat p + length bs) d"

definition bget :: "int \<Rightarrow> int \<Rightarrow> byte list \<Rightarrow> byte list" where
  "bget p n d = take (nat n) (drop (nat p) d)"

definition area :: "int \<Rightarrow> int \<Rightarrow> byte list \<Rightarrow> bool" where
  "area p n d \<longleftrightarrow> 0 \<le> p \<and> 0 \<le> n \<and> p + n \<le> int (length d)"

lemma areaD: "area p n d \<Longrightarrow> 0 \<le> p \<and> 0 \<le> n \<and> nat p + nat n \<le> length d"
  by (auto simp: area_def)

lemma length_bput [simp]: "area p (int (length bs)) d \<Longrightarrow> length (bput p bs d) = length d"
  by (auto simp: bput_def area_def)

lemma area_bput [simp]: "area q (int (length bs)) d \<Longrightarrow> area p n (bput q bs d) = area p n d"
  by (simp add: area_def)

lemma bget_bput_same: "area p (int (length bs)) d \<Longrightarrow> n = int (length bs) \<Longrightarrow> bget p n (bput p bs d) = bs"
  by (drule areaD) (simp add: bget_def bput_def min_def)

lemma bget_bput_other:
  assumes "area q (int (length bs)) d" "p + n \<le> q \<or> q + int (length bs) \<le> p" "0 \<le> n" "0 \<le> p"
  shows "bget p n (bput q bs d) = bget p n d"
proof -
  have q: "0 \<le> q" using assms(1) by (simp add: area_def)
  obtain P Q N where e: "p = int P" "q = int Q" "n = int N"
    using assms(3,4) q by (metis nonneg_int_cases)
  have len: "Q + length bs \<le> length d" and dis: "P + N \<le> Q \<or> Q + length bs \<le> P"
    using assms(1,2) e by (auto simp: area_def)
  have "take N (drop P (take Q d @ bs @ drop (Q + length bs) d)) = take N (drop P d)"
  proof (cases "P + N \<le> Q")
    case True
    then have "take N (drop P (take Q d @ bs @ drop (Q + length bs) d)) = take N (drop P (take Q d))"
      using len by (simp add: drop_append)
    moreover have "N \<le> Q - P" using True by simp
    then have "take N (drop P (take Q d)) = take N (drop P d)" by (simp add: drop_take min_def)
    ultimately show ?thesis by simp
  next
    case False
    with dis len show ?thesis by (simp add: min_def)
  qed
  then show ?thesis by (simp add: bget_def bput_def e)
qed

lemma length_bget [simp]: "area p n d \<Longrightarrow> length (bget p n d) = nat n"
  by (drule areaD) (auto simp: bget_def min_def)

lemma bput_adjacent:
  assumes "area p (int (length a) + int (length b)) d" "q = p + int (length a)"
  shows "bput q b (bput p a d) = bput p (a @ b) d"
proof -
  from assms obtain P where e: "p = int P" "q = int (P + length a)"
    by (metis areaD of_nat_add zero_le_imp_eq_int)
  have l: "P + length a + length b \<le> length d" using assms e by (auto simp: area_def)
  then have "length d \<le> P \<Longrightarrow> a = []" by (cases a) auto
  with l show ?thesis by (auto simp add: bput_def e min_def nat_add_distrib ac_simps)
qed

lemma bput_before:
  assumes "area p (int (length a) + int (length b)) d" "q = p + int (length a)"
  shows "bput p a (bput q b d) = bput p (a @ b) d"
proof -
  from assms obtain P where e: "p = int P" "q = int (P + length a)"
    by (metis areaD of_nat_add zero_le_imp_eq_int)
  have "P + length a + length b \<le> length d" using assms e by (auto simp: area_def)
  then show ?thesis by (auto simp add: bput_def e min_def nat_add_distrib ac_simps)
qed

lemma bput_Nil [simp]: "area p 0 d \<Longrightarrow> bput p [] d = d"
  by (simp add: bput_def)

text \<open>A list of disjoint areas, written one after the other.\<close>

fun put_areas :: "(int \<times> byte list) list \<Rightarrow> byte list \<Rightarrow> byte list" where
  "put_areas [] d = d"
| "put_areas ((p, bs) # L) d = put_areas L (bput p bs d)"

definition disj_area :: "int \<times> byte list \<Rightarrow> int \<times> byte list \<Rightarrow> bool" where
  "disj_area a b \<longleftrightarrow> fst a + int (length (snd a)) \<le> fst b \<or> fst b + int (length (snd b)) \<le> fst a"

definition areas_ok :: "(int \<times> byte list) list \<Rightarrow> int \<Rightarrow> bool" where
  "areas_ok L n \<longleftrightarrow> (\<forall>(p, bs) \<in> set L. 0 \<le> p \<and> p + int (length bs) \<le> n) \<and> sorted_wrt disj_area L"

lemma put_areas_length:
  "\<forall>(p, bs) \<in> set L. 0 \<le> p \<and> p + int (length bs) \<le> int (length d) \<Longrightarrow> length (put_areas L d) = length d"
  by (induction L d rule: put_areas.induct) (auto simp: area_def)

lemma put_areas_other:
  "\<forall>(q, bs) \<in> set L. 0 \<le> q \<and> q + int (length bs) \<le> int (length d) \<Longrightarrow>
     \<forall>(q, bs) \<in> set L. p + n \<le> q \<or> q + int (length bs) \<le> p \<Longrightarrow> 0 \<le> p \<Longrightarrow> 0 \<le> n \<Longrightarrow>
     bget p n (put_areas L d) = bget p n d"
proof (induction L d rule: put_areas.induct)
  case (2 q bs L d)
  then have a: "area q (int (length bs)) d" by (simp add: area_def)
  have "bget p n (put_areas L (bput q bs d)) = bget p n (bput q bs d)"
    using 2 a by (intro "2.IH") auto
  with 2 a show ?case by (simp add: bget_bput_other)
qed simp

lemma put_areas_get:
  "areas_ok L (int (length d)) \<Longrightarrow> (p, bs) \<in> set L \<Longrightarrow> bget p (int (length bs)) (put_areas L d) = bs"
proof (induction L d rule: put_areas.induct)
  case (2 q cs L d)
  then have a: "area q (int (length cs)) d" by (simp add: areas_ok_def area_def)
  show ?case
  proof (cases "(p, bs) = (q, cs)")
    case True
    have "bget p (int (length bs)) (put_areas L (bput q cs d)) = bget p (int (length bs)) (bput q cs d)"
      using 2(2) a True by (intro put_areas_other) (auto simp: areas_ok_def disj_area_def)
    with True a show ?thesis by (simp add: bget_bput_same)
  next
    case False
    then have m: "(p, bs) \<in> set L" using 2(3) by auto
    have "areas_ok L (int (length (bput q cs d)))" using 2(2) a by (simp add: areas_ok_def)
    from 2(1) [OF this m] show ?thesis by simp
  qed
qed simp

subsection \<open>The accessors as area operations\<close>

definition u32_ok :: "int \<Rightarrow> bool" where
  "u32_ok v \<longleftrightarrow> 0 \<le> v \<and> v < 2 ^ 32"

definition blk_ok :: "int \<Rightarrow> byte list \<Rightarrow> bool" where
  "blk_ok bl d \<longleftrightarrow> int (length d) = 4 * bl"

definition slot :: "byte list \<Rightarrow> int \<Rightarrow> int" where
  "slot d i = be_int (bget (4 * i) 4 d)"

definition longs_bytes :: "int list \<Rightarrow> byte list" where
  "longs_bytes vs = concat (map (be_bytes 4) vs)"

lemma length_longs_bytes [simp]: "length (longs_bytes vs) = 4 * length vs"
  unfolding longs_bytes_def by (induction vs) auto

lemma longs_bytes_simps [simp]:
  "longs_bytes [] = []" "longs_bytes (v # vs) = be_bytes 4 v @ longs_bytes vs"
  "longs_bytes (vs @ ws) = longs_bytes vs @ longs_bytes ws"
  by (simp_all add: longs_bytes_def)

lemma long_pos_simps [simp]:
  "0 \<le> n \<Longrightarrow> long_pos bl n = n" "n < 0 \<Longrightarrow> long_pos bl n = bl + n"
  by (simp_all add: long_pos_def)

lemma blk_area: "blk_ok bl d \<Longrightarrow> 0 \<le> p \<Longrightarrow> 0 \<le> n \<Longrightarrow> p + n \<le> 4 * bl \<Longrightarrow> area p n d"
  by (simp add: area_def blk_ok_def)

lemma blk_ok_bput [blk_simps]:
  "blk_ok bl d \<Longrightarrow> 0 \<le> p \<Longrightarrow> p + int (length bs) \<le> 4 * bl \<Longrightarrow> blk_ok bl (bput p bs d)"
  using blk_area [of bl d p "int (length bs)"] by (simp add: blk_ok_def)

lemma put_long_area [blk_simps]:
  "blk_ok bl d \<Longrightarrow> 0 \<le> long_pos bl num \<Longrightarrow> long_pos bl num < bl \<Longrightarrow> u32_ok v \<Longrightarrow>
     put_long bl num v d = Inr (bput (4 * long_pos bl num) (be_bytes 4 v) d)"
  by (simp add: put_long_def pack_u_ok u32_ok_def pack_into_def buf_offset_in blk_ok_def
      bput_def mult.commute)

lemma get_long_slot [blk_simps]:
  "blk_ok bl d \<Longrightarrow> 0 \<le> long_pos bl num \<Longrightarrow> long_pos bl num < bl \<Longrightarrow>
     get_long bl num d = Inr (slot d (long_pos bl num))"
  by (simp add: get_long_def unpack_from_def buf_offset_in blk_ok_def slot_def bget_def mult.commute)

lemma put_longs_up:
  "blk_ok bl d \<Longrightarrow> 0 \<le> n \<Longrightarrow> n + int (length vs) \<le> bl \<Longrightarrow> \<forall>v \<in> set vs. u32_ok v \<Longrightarrow>
     (\<And>i. 0 \<le> i \<Longrightarrow> i < int (length vs) \<Longrightarrow> long_pos bl (num + i) = n + i) \<Longrightarrow>
     put_longs bl num 1 vs d = Inr (bput (4 * n) (longs_bytes vs) d)"
proof (induction vs arbitrary: n num d)
  case Nil
  then show ?case by (simp add: blk_area)
next
  case (Cons v vs)
  let ?d = "bput (4 * n) (be_bytes 4 v) d"
  have pos: "long_pos bl num = n" using Cons.prems(5) [of 0] by simp
  have "put_longs bl (num + 1) 1 vs ?d = Inr (bput (4 * (n + 1)) (longs_bytes vs) ?d)"
  proof (rule Cons.IH)
    show "blk_ok bl ?d" using Cons.prems by (simp add: blk_simps)
    show "long_pos bl (num + 1 + i) = n + 1 + i" if "0 \<le> i" "i < int (length vs)" for i
      using Cons.prems(5) [of "i + 1"] that by (simp add: ac_simps)
  qed (use Cons.prems in auto)
  moreover have "bput (4 * (n + 1)) (longs_bytes vs) ?d = bput (4 * n) (longs_bytes (v # vs)) d"
    using Cons.prems by (subst bput_adjacent) (auto simp: blk_area)
  ultimately show ?case using Cons.prems pos by (simp add: put_long_area)
qed

lemma put_longs_down:
  "blk_ok bl d \<Longrightarrow> num < 0 \<Longrightarrow> 0 \<le> bl + num + 1 - int (length vs) \<Longrightarrow> \<forall>v \<in> set vs. u32_ok v \<Longrightarrow>
     put_longs bl num (-1) vs d = Inr (bput (4 * (bl + num + 1 - int (length vs))) (longs_bytes (rev vs)) d)"
proof (induction vs arbitrary: num d)
  case Nil
  then show ?case by (simp add: blk_area)
next
  case (Cons v vs)
  let ?n = "bl + num - int (length vs)" and ?d = "bput (4 * (bl + num)) (be_bytes 4 v) d"
  have ok: "blk_ok bl ?d" using Cons.prems by (intro blk_ok_bput) auto
  have "put_longs bl (num - 1) (-1) vs ?d =
      Inr (bput (4 * (bl + (num - 1) + 1 - int (length vs))) (longs_bytes (rev vs)) ?d)"
    using Cons.prems ok by (intro Cons.IH) auto
  moreover have "bput (4 * ?n) (longs_bytes (rev vs)) ?d = bput (4 * ?n) (longs_bytes (rev vs) @ be_bytes 4 v) d"
    using Cons.prems by (intro bput_before) (auto simp: blk_area)
  ultimately show ?case using Cons.prems by (simp add: put_long_area algebra_simps)
qed

lemma put_table_up [blk_simps]:
  "blk_ok bl d \<Longrightarrow> 0 \<le> num \<Longrightarrow> num + n \<le> bl \<Longrightarrow> int (length xs) = n \<Longrightarrow> \<forall>v \<in> set xs. u32_ok v \<Longrightarrow>
     put_table bl num 1 n xs d = Inr (bput (4 * num) (longs_bytes xs) d)"
  using put_longs_up [of bl d num xs num] by (auto simp: put_table_def)

lemma put_table_neg [blk_simps]:
  "blk_ok bl d \<Longrightarrow> num < 0 \<Longrightarrow> num + n \<le> 0 \<Longrightarrow> 0 \<le> bl + num \<Longrightarrow> int (length xs) = n \<Longrightarrow> \<forall>v \<in> set xs. u32_ok v \<Longrightarrow>
     put_table bl num 1 n xs d = Inr (bput (4 * (bl + num)) (longs_bytes xs) d)"
  using put_longs_up [of bl d "bl + num" xs num] by (auto simp: put_table_def)

definition ts_ok :: "time_stamp option \<Rightarrow> bool" where
  "ts_ok t \<longleftrightarrow> (case t of None \<Rightarrow> True
     | Some ts \<Rightarrow> u32_ok (ts_days ts) \<and> u32_ok (ts_mins ts) \<and> u32_ok (ts_ticks ts))"

definition ts_get :: "time_stamp option \<Rightarrow> time_stamp" where
  "ts_get t = (case t of None \<Rightarrow> ts_zero | Some ts \<Rightarrow> ts)"

definition ts_longs :: "time_stamp \<Rightarrow> int list" where
  "ts_longs t = [ts_days t, ts_mins t, ts_ticks t]"

lemma ts_longs_ok: "ts_ok t \<Longrightarrow> \<forall>v \<in> set (ts_longs (ts_get t)). u32_ok v"
  by (cases t) (auto simp: ts_ok_def ts_get_def ts_longs_def ts_zero_def u32_ok_def)

lemma length_ts_longs [simp]: "length (ts_longs t) = 3"
  by (simp add: ts_longs_def)

lemma put_timestamp_longs: "put_timestamp bl loc t d = put_longs bl loc 1 (ts_longs (ts_get t)) d"
  by (cases t) (auto simp: put_timestamp_def ts_longs_def ts_get_def rbind_def algebra_simps split: sum.splits)

lemma put_timestamp_area [blk_simps]:
  "blk_ok bl d \<Longrightarrow> loc + 3 \<le> 0 \<Longrightarrow> 0 \<le> bl + loc \<Longrightarrow> ts_ok t \<Longrightarrow>
     put_timestamp bl loc t d = Inr (bput (4 * (bl + loc)) (longs_bytes (ts_longs (ts_get t))) d)"
  unfolding put_timestamp_longs using ts_longs_ok [of t] by (intro put_longs_up) auto

definition bstr_bytes :: "string \<Rightarrow> byte list" where
  "bstr_bytes s = word_of_nat (length s) # latin1_enc s"

definition name_ok :: "int \<Rightarrow> string option \<Rightarrow> bool" where
  "name_ok n s \<longleftrightarrow> (case s of None \<Rightarrow> True | Some t \<Rightarrow> plain_name t \<and> int (length t) \<le> n \<and> length t < 256)"

definition name_get :: "string option \<Rightarrow> string" where
  "name_get s = (case s of None \<Rightarrow> '''' | Some t \<Rightarrow> t)"

lemma length_bstr_bytes [simp]: "length (bstr_bytes s) = Suc (length s)"
  by (simp add: bstr_bytes_def)

lemma name_okD: "name_ok n s \<Longrightarrow> 0 \<le> n \<Longrightarrow> plain_name (name_get s) \<and> int (length (name_get s)) \<le> n \<and> length (name_get s) < 256"
  by (cases s) (auto simp: name_ok_def name_get_def plain_name_def)

lemma put_bstr_pos:
  assumes "blk_ok bl d" "k = long_pos bl loc" "0 \<le> k" "name_ok n s" "0 \<le> n" "4 * k + n + 1 \<le> 4 * bl"
  shows "put_bstr bl loc n s d = Inr (bput (4 * k) (bstr_bytes (name_get s)) d)"
proof -
  define p where "p = long_pos bl loc * 4"
  define t where "t = name_get s"
  have P: "4 * k = p" using assms(2) by (simp add: p_def)
  have ok: "plain_name t" "int (length t) \<le> n" "length t < 256"
    using name_okD [OF assms(4,5)] by (auto simp: t_def)
  have a: "get_ami_str (case s of None \<Rightarrow> [] | Some t \<Rightarrow> t) = Inr (latin1_enc t)"
    using ok get_ami_str_plain by (simp add: name_get_def t_def)
  have r: "0 \<le> p" "p + 1 + int (length t) \<le> int (length d)"
    using assms ok by (auto simp: blk_ok_def P [symmetric])
  have hd: "d[nat p := b] = bput p [b] d" for b
    using r by (simp add: bput_def upd_conv_take_nth_drop)
  have ar: "area p 1 d" using r by (simp add: area_def)
  have tl: "py_slice_set (bput p [b] d) (p + 1) (p + 1 + int (length t)) (latin1_enc t) =
      bput (p + 1) (latin1_enc t) (bput p [b] d)" for b
    using r ar by (simp add: py_slice_set_in bput_def [of "p + 1"] nat_add_distrib)
  have both: "bput (p + 1) (latin1_enc t) (bput p [word_of_nat (length t)] d) = bput p (bstr_bytes t) d"
    using r by (subst bput_adjacent) (auto simp: area_def bstr_bytes_def)
  have "py_set d p (word_of_nat (length t)) = Inr (bput p [word_of_nat (length t)] d)"
    using r by (simp add: py_set_in hd)
  moreover have "bput p [word_of_nat (length t)] d = bput p (bstr_bytes t) d" if "t = []"
    using that by (simp add: bstr_bytes_def latin1_enc_def)
  moreover have "latin1_enc t = [] \<longleftrightarrow> t = []" by (simp add: latin1_enc_def)
  ultimately have "put_bstr bl loc n s d = Inr (bput p (bstr_bytes t) d)"
    using a ok tl both by (cases "t = []") (simp_all add: put_bstr_def p_def [symmetric] Let_def)
  then show ?thesis unfolding P t_def .
qed

lemma put_bstr_area [blk_simps]:
  "blk_ok bl d \<Longrightarrow> loc < 0 \<Longrightarrow> 0 \<le> bl + loc \<Longrightarrow> name_ok n s \<Longrightarrow> 0 \<le> n \<Longrightarrow> 4 * loc + n + 1 \<le> 0 \<Longrightarrow>
     put_bstr bl loc n s d = Inr (bput (4 * (bl + loc)) (bstr_bytes (name_get s)) d)"
  by (rule put_bstr_pos) auto

subsection \<open>Reading areas back\<close>

lemma slot_area: "bget (4 * i) 4 d = be_bytes 4 v \<Longrightarrow> u32_ok v \<Longrightarrow> slot d i = v"
  by (simp add: slot_def u32_ok_def)

lemma bget_split:
  assumes "bget p (n + k) d = a @ b" "int (length a) = n" "int (length b) = k" "0 \<le> p"
  shows "bget p n d = a" and "bget (p + n) k d = b"
proof -
  obtain P where P: "p = int P" using assms(4) by (metis nonneg_int_cases)
  have e: "take (length a + length b) (drop P d) = a @ b"
    using assms(1) by (simp add: bget_def P flip: assms(2,3) of_nat_add)
  have "take (length a) (take (length a + length b) (drop P d)) = a" unfolding e by simp
  then show "bget p n d = a" by (simp add: bget_def P flip: assms(2))
  have "drop (length a) (take (length a + length b) (drop P d)) = b" unfolding e by simp
  then have "take (length b) (drop (P + length a) d) = b" by (simp add: drop_take add.commute)
  then show "bget (p + n) k d = b" by (simp add: bget_def P nat_add_distrib flip: assms(2,3))
qed

lemma get_longs_up:
  "blk_ok bl d \<Longrightarrow> 0 \<le> n \<Longrightarrow> n + int (length vs) \<le> bl \<Longrightarrow> \<forall>v \<in> set vs. u32_ok v \<Longrightarrow>
     bget (4 * n) (4 * int (length vs)) d = longs_bytes vs \<Longrightarrow>
     (\<And>i. 0 \<le> i \<Longrightarrow> i < int (length vs) \<Longrightarrow> long_pos bl (num + i) = n + i) \<Longrightarrow>
     get_longs bl num 1 (length vs) d = Inr vs"
proof (induction vs arbitrary: n num)
  case (Cons v vs)
  have pos: "long_pos bl num = n" using Cons.prems(6) [of 0] by simp
  have "bget (4 * n) (4 + 4 * int (length vs)) d = be_bytes 4 v @ longs_bytes vs"
    using Cons.prems(5) by simp
  from bget_split [OF this] Cons.prems(2) have b: "bget (4 * n) 4 d = be_bytes 4 v"
    "bget (4 * (n + 1)) (4 * int (length vs)) d = longs_bytes vs" by (auto simp: algebra_simps)
  have "get_longs bl (num + 1) 1 (length vs) d = Inr vs"
  proof (rule Cons.IH [OF Cons.prems(1) _ _ _ b(2)])
    show "long_pos bl (num + 1 + i) = n + 1 + i" if "0 \<le> i" "i < int (length vs)" for i
      using Cons.prems(6) [of "i + 1"] that by (simp add: ac_simps)
  qed (use Cons.prems in auto)
  moreover have "get_long bl num d = Inr v"
    using Cons.prems pos slot_area [OF b(1)] by (simp add: get_long_slot)
  ultimately show ?case by simp
qed simp

lemma get_longs_down:
  "blk_ok bl d \<Longrightarrow> num < 0 \<Longrightarrow> 0 \<le> bl + num + 1 - int (length vs) \<Longrightarrow> \<forall>v \<in> set vs. u32_ok v \<Longrightarrow>
     bget (4 * (bl + num + 1 - int (length vs))) (4 * int (length vs)) d = longs_bytes (rev vs) \<Longrightarrow>
     get_longs bl num (-1) (length vs) d = Inr vs"
proof (induction vs arbitrary: num)
  case (Cons v vs)
  let ?p = "4 * (bl + num - int (length vs))"
  have "bget ?p (4 * int (length vs) + 4) d = longs_bytes (rev vs) @ be_bytes 4 v"
    using Cons.prems(5) by (simp add: algebra_simps)
  from bget_split [OF this] Cons.prems(3) have b: "bget ?p (4 * int (length vs)) d = longs_bytes (rev vs)"
    "bget (4 * (bl + num)) 4 d = be_bytes 4 v" by (auto simp: algebra_simps)
  have "get_longs bl (num - 1) (-1) (length vs) d = Inr vs"
    using Cons.prems b(1) by (intro Cons.IH) (auto simp: algebra_simps)
  moreover have "get_long bl num d = Inr v"
    using Cons.prems slot_area [OF b(2)] by (simp add: get_long_slot)
  ultimately show ?case by simp
qed simp

lemma get_timestamp_longs:
  "get_timestamp bl loc d =
     rbind (get_longs bl loc 1 3 d) (\<lambda>vs. Inr \<lparr>ts_days = vs ! 0, ts_mins = vs ! 1, ts_ticks = vs ! 2\<rparr>)"
  by (simp add: get_timestamp_def numeral_3_eq_3 rbind_def algebra_simps split: sum.splits)

lemma get_timestamp_area [blk_simps]:
  assumes "blk_ok bl d" "loc + 3 \<le> 0" "0 \<le> bl + loc" "ts_ok t"
    and b: "bget (4 * (bl + loc)) 12 d = longs_bytes (ts_longs (ts_get t))"
  shows "get_timestamp bl loc d = Inr (ts_get t)"
proof -
  have "get_longs bl loc 1 (length (ts_longs (ts_get t))) d = Inr (ts_longs (ts_get t))"
    using assms ts_longs_ok [of t] by (intro get_longs_up [where n = "bl + loc"]) auto
  then show ?thesis by (simp add: get_timestamp_longs) (simp add: ts_longs_def)
qed

lemma get_bstr_pos:
  assumes "blk_ok bl d" "k = long_pos bl loc" "0 \<le> k" "name_ok n s" "0 \<le> n" "4 * k + n + 1 \<le> 4 * bl"
    and b: "bget (4 * k) (1 + int (length (name_get s))) d = bstr_bytes (name_get s)"
  shows "get_bstr bl loc n d = Inr (Some (name_get s))"
proof -
  define p where "p = long_pos bl loc * 4"
  define t where "t = name_get s"
  have P: "4 * k = p" using assms(2) by (simp add: p_def)
  have ok: "int (length t) \<le> n" "length t < 256" using name_okD [OF assms(4,5)] by (auto simp: t_def)
  have r: "0 \<le> p" "p + 1 + int (length t) \<le> int (length d)"
    using assms ok by (auto simp: blk_ok_def P [symmetric])
  have "bget p (1 + int (length t)) d = [word_of_nat (length t)] @ latin1_enc t"
    using b unfolding P t_def bstr_bytes_def by simp
  from bget_split [OF this] r have b1: "bget p 1 d = [word_of_nat (length t)]"
    and b2: "bget (p + 1) (int (length t)) d = latin1_enc t" by auto
  have "py_get d p = Inr (word_of_nat (length t))"
    using b1 r by (simp add: bget_def py_get_in take_Suc hd_drop_conv_nth)
  moreover have "uint (word_of_nat (length t) :: byte) = int (length t)"
    using ok uint_word_of_int [of "int (length t)", where ?'a = 8] by simp
  moreover have "py_slice d (p + 1) (p + 1 + int (length t)) = latin1_enc t"
    using b2 r by (simp add: py_slice_in bget_def)
  ultimately have "get_bstr bl loc n d = Inr (Some t)"
    using ok by (auto simp: get_bstr_def p_def [symmetric] Let_def)
  then show ?thesis by (simp add: t_def)
qed

lemma get_bstr_area [blk_simps]:
  "blk_ok bl d \<Longrightarrow> loc < 0 \<Longrightarrow> 0 \<le> bl + loc \<Longrightarrow> name_ok n s \<Longrightarrow> 0 \<le> n \<Longrightarrow> 4 * loc + n + 1 \<le> 0 \<Longrightarrow>
     bget (4 * (bl + loc)) (1 + int (length (name_get s))) d = bstr_bytes (name_get s) \<Longrightarrow>
     get_bstr bl loc n d = Inr (Some (name_get s))"
  by (rule get_bstr_pos) auto

subsection \<open>Checksum\<close>

definition slot_sum :: "int \<Rightarrow> nat \<Rightarrow> nat \<Rightarrow> byte list \<Rightarrow> int" where
  "slot_sum chk i k d = sum_list (map (\<lambda>j. slot d (int j)) (filter (\<lambda>j. int j \<noteq> chk) [i..<i + k]))"

lemma sum_longs_ok:
  "blk_ok bl d \<Longrightarrow> int (i + k) \<le> bl \<Longrightarrow> sum_longs bl chk k i d acc = Inr (acc + slot_sum chk i k d)"
proof (induction k arbitrary: i acc)
  case (Suc k)
  have "get_long bl (int i) d = Inr (slot d (int i))" using Suc.prems by (simp add: get_long_slot)
  moreover have "slot_sum chk i (Suc k) d = (if int i \<noteq> chk then slot d (int i) else 0) + slot_sum chk (Suc i) k d"
    by (simp add: slot_sum_def upt_conv_Cons del: upt_Suc)
  ultimately show ?case using Suc by simp
qed (simp add: slot_sum_def)

lemma and_u32: "v AND 0xFFFFFFFF = (v :: int) mod 2 ^ 32"
  using take_bit_eq_mask [of 32 v] by (simp add: take_bit_eq_mod mask_eq_exp_minus_1)

lemma calc_chksum_ok [blk_simps]:
  "blk_ok bl d \<Longrightarrow> calc_chksum bl chk d = Inr ((- slot_sum chk 0 (nat bl) d) mod 2 ^ 32)"
  using sum_longs_ok [of bl d 0 "nat bl" chk 0] by (simp add: calc_chksum_def and_u32 blk_ok_def)

lemma slot_bput_other:
  "blk_ok bl d \<Longrightarrow> 0 \<le> i \<Longrightarrow> i < bl \<Longrightarrow> 0 \<le> j \<Longrightarrow> i \<noteq> j \<Longrightarrow> slot (bput (4 * i) (be_bytes 4 v) d) j = slot d j"
  unfolding slot_def using blk_area [of bl d "4 * i" 4]
  by (intro arg_cong [of _ _ be_int] bget_bput_other) auto

lemma slot_sum_chk:
  "blk_ok bl d \<Longrightarrow> 0 \<le> chk \<Longrightarrow> chk < bl \<Longrightarrow>
     slot_sum chk 0 (nat bl) (bput (4 * chk) (be_bytes 4 v) d) = slot_sum chk 0 (nat bl) d"
  unfolding slot_sum_def
  by (intro arg_cong [of _ _ sum_list] map_cong refl) (auto simp: slot_bput_other)

text \<open>Writing the checksum makes the block valid and changes only its word.\<close>

lemma put_chksum_ok:
  assumes "blk_ok bl d" "0 \<le> chk" "chk < bl"
  shows "\<exists>c. u32_ok c \<and> put_chksum bl chk d = Inr (bput (4 * chk) (be_bytes 4 c) d) \<and>
     calc_chksum bl chk (bput (4 * chk) (be_bytes 4 c) d) = Inr c"
proof -
  let ?c = "(- slot_sum chk 0 (nat bl) d) mod 2 ^ 32"
  have c: "u32_ok ?c" by (simp add: u32_ok_def)
  then have "put_chksum bl chk d = Inr (bput (4 * chk) (be_bytes 4 ?c) d)"
    using assms by (simp add: put_chksum_def calc_chksum_ok put_long_area)
  moreover have "blk_ok bl (bput (4 * chk) (be_bytes 4 ?c) d)" using assms by (intro blk_ok_bput) auto
  then have "calc_chksum bl chk (bput (4 * chk) (be_bytes 4 ?c) d) = Inr ?c"
    using assms by (simp add: calc_chksum_ok slot_sum_chk)
  ultimately show ?thesis using c by blast
qed

end
