(* ===== verification/Fs_Blocks.thy ===== *)
theory Fs_Blocks
  imports Fs_Block
begin

text \<open>
  The blocks of the Amiga file system, one record and a write and a read per class of
  \<open>amitools/fs/block/\<close>: \<open>RootBlock\<close>, \<open>UserDirBlock\<close>, \<open>FileHeaderBlock\<close>,
  \<open>FileListBlock\<close>, \<open>FileDataBlock\<close>, \<open>BitmapExtBlock\<close> and \<open>CommentBlock\<close>, with the fields
  \<open>EntryBlock\<close> shares. Write gives the bytes handed to the device, read starts from the bytes
  the device returned; None is an invalid block.
\<close>

subsection \<open>RootBlock\<close>

record root_block =
  rb_hash_size :: int
  rb_hash_table :: "int list"
  rb_bitmap_flag :: int
  rb_bitmap_ptrs :: "int list"
  rb_bitmap_ext_blk :: int
  rb_mod_ts :: "time_stamp option"
  rb_disk_ts :: "time_stamp option"
  rb_create_ts :: "time_stamp option"
  rb_name :: "string option"
  rb_extension :: int
  rb_blocks_used :: int
  rb_fstype :: int

definition root_create ::
  "int \<Rightarrow> string \<Rightarrow> time_stamp option \<Rightarrow> time_stamp option \<Rightarrow> time_stamp option \<Rightarrow> int \<Rightarrow> int \<Rightarrow> root_block" where
  "root_create bl name create_ts disk_ts mod_ts extension fstype =
     \<lparr>rb_hash_size = bl - 56, rb_hash_table = replicate (nat (bl - 56)) 0,
      rb_bitmap_flag = 0xFFFFFFFF, rb_bitmap_ptrs = replicate 25 0, rb_bitmap_ext_blk = 0,
      rb_mod_ts = mod_ts, rb_disk_ts = disk_ts, rb_create_ts = create_ts, rb_name = Some name,
      rb_extension = extension, rb_blocks_used = 0, rb_fstype = fstype\<rparr>"

definition root_write :: "int \<Rightarrow> root_block \<Rightarrow> byte list res" where
  "root_write bl b =
     rbind (put_long bl 3 (rb_hash_size b) (create_data bl)) (\<lambda>d.
     rbind (put_table bl 6 1 (rb_hash_size b) (rb_hash_table b) d) (\<lambda>d.
     rbind (put_long bl (-50) (rb_bitmap_flag b) d) (\<lambda>d.
     rbind (put_table bl (-49) 1 25 (rb_bitmap_ptrs b) d) (\<lambda>d.
     rbind (put_long bl (-24) (rb_bitmap_ext_blk b) d) (\<lambda>d.
     rbind (put_timestamp bl (-23) (rb_mod_ts b) d) (\<lambda>d.
     rbind (put_timestamp bl (-10) (rb_disk_ts b) d) (\<lambda>d.
     rbind (put_timestamp bl (-7) (rb_create_ts b) d) (\<lambda>d.
     rbind (put_bstr bl (-20) 30 (rb_name b) d) (\<lambda>d.
     rbind (put_long bl (-2) (rb_extension b) d) (\<lambda>d.
     rbind (put_long bl (-11) (rb_blocks_used b) d) (\<lambda>d.
     rbind (put_long bl (-4) (rb_fstype b) d) (\<lambda>d.
     block_write bl T_SHORT ST_ROOT 5 d))))))))))))"

definition root_read :: "int \<Rightarrow> byte list \<Rightarrow> root_block option res" where
  "root_read bl d =
     rbind (block_read bl T_SHORT ST_ROOT 5 d) (\<lambda>h.
     if \<not> bh_valid h then Inr None else
     rbind (get_long bl 3 d) (\<lambda>hash_size.
     let hs = (if hash_size > bl - 56 then bl - 56 else hash_size) in
     rbind (get_longs bl 6 1 (nat hs) d) (\<lambda>hash_table.
     rbind (get_long bl (-50) d) (\<lambda>bitmap_flag.
     rbind (get_longs bl (-49) 1 25 d) (\<lambda>bitmap_ptrs.
     rbind (get_long bl (-24) d) (\<lambda>bitmap_ext_blk.
     rbind (get_timestamp bl (-23) d) (\<lambda>mod_ts.
     rbind (get_timestamp bl (-10) d) (\<lambda>disk_ts.
     rbind (get_timestamp bl (-7) d) (\<lambda>create_ts.
     rbind (get_bstr bl (-20) 30 d) (\<lambda>name.
     rbind (get_long bl (-2) d) (\<lambda>extension.
     rbind (get_long bl (-11) d) (\<lambda>blocks_used.
     rbind (get_long bl (-4) d) (\<lambda>fstype.
     Inr (Some \<lparr>rb_hash_size = hash_size, rb_hash_table = hash_table, rb_bitmap_flag = bitmap_flag,
       rb_bitmap_ptrs = bitmap_ptrs, rb_bitmap_ext_blk = bitmap_ext_blk, rb_mod_ts = Some mod_ts,
       rb_disk_ts = Some disk_ts, rb_create_ts = Some create_ts, rb_name = name,
       rb_extension = extension, rb_blocks_used = blocks_used, rb_fstype = fstype\<rparr>))))))))))))))"

subsection \<open>EntryBlock: name, comment and modification time\<close>

record entry =
  en_comment_block_id :: int
  en_name :: "string option"
  en_comment :: "string option"
  en_mod_ts :: "time_stamp option"

text \<open>\<open>bytearray.append\<close> raises \<open>ValueError\<close> above 255; in the long name format the comment
  that is written is the name.\<close>

definition append_len :: "byte list \<Rightarrow> byte list \<Rightarrow> byte list res" where
  "append_len nac bs =
     (if 255 < length bs then Inl ValueError else Inr (nac @ word_of_nat (length bs) # bs))"

definition write_nac_modts :: "int \<Rightarrow> bool \<Rightarrow> entry \<Rightarrow> byte list \<Rightarrow> byte list res" where
  "write_nac_modts bl is_longname e d =
     (if is_longname then
        (case en_name e of
           None \<Rightarrow> Inl AttributeError
         | Some n \<Rightarrow>
             rbind (get_ami_str n) (\<lambda>name.
             rbind (append_len [] name) (\<lambda>nac.
             rbind (if en_comment_block_id e \<noteq> 0 then Inr (nac @ [0])
                    else rbind (get_ami_str n) (append_len nac)) (\<lambda>nac.
             rbind (put_long bl (-18) (en_comment_block_id e) (put_bytes bl (-46) nac d)) (\<lambda>d.
             put_timestamp bl (-15) (en_mod_ts e) d)))))
      else
        rbind (put_bstr bl (-46) 79 (en_comment e) d) (\<lambda>d.
        rbind (put_timestamp bl (-23) (en_mod_ts e) d) (\<lambda>d.
        put_bstr bl (-20) 30 (en_name e) d)))"

definition read_nac_modts :: "int \<Rightarrow> bool \<Rightarrow> byte list \<Rightarrow> entry res" where
  "read_nac_modts bl is_longname d =
     (if is_longname then
        let nac = get_bytes bl (-46) 112 d in
        rbind (py_get nac 0) (\<lambda>nl.
        let name_len = uint nl; name = latin1_dec (py_slice nac 1 (name_len + 1)) in
        rbind (py_get nac (name_len + 1)) (\<lambda>cl.
        let comment_len = uint cl in
        rbind (if comment_len > 0
               then Inr (0, latin1_dec (py_slice nac (name_len + 2) (name_len + 2 + comment_len)))
               else rbind (get_long bl (-18) d) (\<lambda>i. Inr (i, ''''))) (\<lambda>(cbid, comment).
        rbind (get_timestamp bl (-15) d) (\<lambda>ts.
        Inr \<lparr>en_comment_block_id = cbid, en_name = Some name, en_comment = Some comment,
             en_mod_ts = Some ts\<rparr>))))
      else
        rbind (get_bstr bl (-46) 79 d) (\<lambda>comment.
        rbind (get_bstr bl (-20) 30 d) (\<lambda>name.
        rbind (get_timestamp bl (-23) d) (\<lambda>ts.
        Inr \<lparr>en_comment_block_id = 0, en_name = name, en_comment = comment, en_mod_ts = Some ts\<rparr>))))"

definition needs_extra_comment_block :: "string \<Rightarrow> string \<Rightarrow> bool" where
  "needs_extra_comment_block name comment \<longleftrightarrow> length name + length comment > 110"

subsection \<open>UserDirBlock\<close>

record user_dir_block =
  ud_own_key :: int
  ud_protect :: int
  ud_entry :: entry
  ud_hash_chain :: int
  ud_parent :: int
  ud_extension :: int
  ud_hash_table :: "int list"

definition user_dir_create ::
  "int \<Rightarrow> int \<Rightarrow> int \<Rightarrow> string \<Rightarrow> int \<Rightarrow> string option \<Rightarrow> time_stamp option \<Rightarrow> int \<Rightarrow> int \<Rightarrow> user_dir_block" where
  "user_dir_create bl blk_num parent name protect comment mod_ts hash_chain extension =
     \<lparr>ud_own_key = blk_num, ud_protect = protect,
      ud_entry = \<lparr>en_comment_block_id = 0, en_name = Some name,
                  en_comment = Some (case comment of None \<Rightarrow> '''' | Some c \<Rightarrow> c), en_mod_ts = mod_ts\<rparr>,
      ud_hash_chain = hash_chain, ud_parent = parent, ud_extension = extension,
      ud_hash_table = replicate (nat (bl - 56)) 0\<rparr>"

definition user_dir_write :: "int \<Rightarrow> bool \<Rightarrow> user_dir_block \<Rightarrow> byte list res" where
  "user_dir_write bl is_longname b =
     rbind (put_long bl 1 (ud_own_key b) (create_data bl)) (\<lambda>d.
     rbind (put_long bl (-48) (ud_protect b) d) (\<lambda>d.
     rbind (write_nac_modts bl is_longname (ud_entry b) d) (\<lambda>d.
     rbind (put_long bl (-4) (ud_hash_chain b) d) (\<lambda>d.
     rbind (put_long bl (-3) (ud_parent b) d) (\<lambda>d.
     rbind (put_long bl (-2) (ud_extension b) d) (\<lambda>d.
     rbind (put_table bl 6 1 (bl - 56) (ud_hash_table b) d) (\<lambda>d.
     block_write bl T_SHORT ST_USERDIR 5 d)))))))"

definition user_dir_read :: "int \<Rightarrow> bool \<Rightarrow> int \<Rightarrow> byte list \<Rightarrow> (user_dir_block \<times> bool) option res" where
  "user_dir_read bl is_longname blk_num d =
     rbind (block_read bl T_SHORT ST_USERDIR 5 d) (\<lambda>h.
     if \<not> bh_valid h then Inr None else
     rbind (get_long bl 1 d) (\<lambda>own_key.
     rbind (get_long bl (-48) d) (\<lambda>protect.
     rbind (read_nac_modts bl is_longname d) (\<lambda>e.
     rbind (get_long bl (-4) d) (\<lambda>hash_chain.
     rbind (get_long bl (-3) d) (\<lambda>parent.
     rbind (get_long bl (-2) d) (\<lambda>extension.
     rbind (get_longs bl 6 1 (nat (bl - 56)) d) (\<lambda>hash_table.
     Inr (Some (\<lparr>ud_own_key = own_key, ud_protect = protect, ud_entry = e, ud_hash_chain = hash_chain,
        ud_parent = parent, ud_extension = extension, ud_hash_table = hash_table\<rparr>,
        own_key = blk_num))))))))))"

subsection \<open>FileHeaderBlock\<close>

record file_header_block =
  fh_own_key :: int
  fh_block_count :: int
  fh_first_data :: int
  fh_data_blocks :: "int list"
  fh_protect :: int
  fh_byte_size :: int
  fh_entry :: entry
  fh_hash_chain :: int
  fh_parent :: int
  fh_extension :: int

definition file_header_create ::
  "int \<Rightarrow> int \<Rightarrow> string \<Rightarrow> int list \<Rightarrow> int \<Rightarrow> int \<Rightarrow> int \<Rightarrow> string option \<Rightarrow> time_stamp option \<Rightarrow> int \<Rightarrow> file_header_block" where
  "file_header_create blk_num parent name data_blocks extension byte_size protect comment mod_ts hash_chain =
     \<lparr>fh_own_key = blk_num, fh_block_count = int (length data_blocks),
      fh_first_data = (case data_blocks of [] \<Rightarrow> 0 | b # _ \<Rightarrow> b), fh_data_blocks = data_blocks,
      fh_protect = protect, fh_byte_size = byte_size,
      fh_entry = \<lparr>en_comment_block_id = 0, en_name = Some name,
                  en_comment = Some (case comment of None \<Rightarrow> '''' | Some c \<Rightarrow> c), en_mod_ts = mod_ts\<rparr>,
      fh_hash_chain = hash_chain, fh_parent = parent, fh_extension = extension\<rparr>"

definition file_header_write :: "int \<Rightarrow> bool \<Rightarrow> file_header_block \<Rightarrow> byte list res" where
  "file_header_write bl is_longname b =
     rbind (put_long bl 1 (fh_own_key b) (create_data bl)) (\<lambda>d.
     rbind (put_long bl 2 (fh_block_count b) d) (\<lambda>d.
     rbind (put_long bl 4 (fh_first_data b) d) (\<lambda>d.
     rbind (put_longs bl (-51) (-1) (fh_data_blocks b) d) (\<lambda>d.
     rbind (put_long bl (-48) (fh_protect b) d) (\<lambda>d.
     rbind (put_long bl (-47) (fh_byte_size b) d) (\<lambda>d.
     rbind (write_nac_modts bl is_longname (fh_entry b) d) (\<lambda>d.
     rbind (put_long bl (-4) (fh_hash_chain b) d) (\<lambda>d.
     rbind (put_long bl (-3) (fh_parent b) d) (\<lambda>d.
     rbind (put_long bl (-2) (fh_extension b) d) (\<lambda>d.
     block_write bl T_SHORT ST_FILE 5 d))))))))))"

definition file_header_read :: "int \<Rightarrow> bool \<Rightarrow> int \<Rightarrow> byte list \<Rightarrow> (file_header_block \<times> bool) option res" where
  "file_header_read bl is_longname blk_num d =
     rbind (block_read bl T_SHORT ST_FILE 5 d) (\<lambda>h.
     if \<not> bh_valid h then Inr None else
     rbind (get_long bl 1 d) (\<lambda>own_key.
     rbind (get_long bl 2 d) (\<lambda>block_count.
     rbind (get_long bl 4 d) (\<lambda>first_data.
     let bc = (if block_count > bl - 56 then bl - 56 else block_count) in
     rbind (get_longs bl (-51) (-1) (nat bc) d) (\<lambda>data_blocks.
     rbind (get_long bl (-48) d) (\<lambda>protect.
     rbind (get_long bl (-47) d) (\<lambda>byte_size.
     rbind (read_nac_modts bl is_longname d) (\<lambda>e.
     rbind (get_long bl (-4) d) (\<lambda>hash_chain.
     rbind (get_long bl (-3) d) (\<lambda>parent.
     rbind (get_long bl (-2) d) (\<lambda>extension.
     Inr (Some (\<lparr>fh_own_key = own_key, fh_block_count = block_count, fh_first_data = first_data,
        fh_data_blocks = data_blocks, fh_protect = protect, fh_byte_size = byte_size, fh_entry = e,
        fh_hash_chain = hash_chain, fh_parent = parent, fh_extension = extension\<rparr>,
        own_key = blk_num)))))))))))))"

subsection \<open>FileListBlock and FileDataBlock\<close>

record file_list_block =
  fl_own_key :: int
  fl_block_count :: int
  fl_data_blocks :: "int list"
  fl_parent :: int
  fl_extension :: int

definition file_list_create :: "int \<Rightarrow> int \<Rightarrow> int list \<Rightarrow> int \<Rightarrow> file_list_block" where
  "file_list_create blk_num parent data_blocks extension =
     \<lparr>fl_own_key = blk_num, fl_block_count = int (length data_blocks), fl_data_blocks = data_blocks,
      fl_parent = parent, fl_extension = extension\<rparr>"

definition file_list_write :: "int \<Rightarrow> file_list_block \<Rightarrow> byte list res" where
  "file_list_write bl b =
     rbind (put_long bl 1 (fl_own_key b) (create_data bl)) (\<lambda>d.
     rbind (put_long bl 2 (fl_block_count b) d) (\<lambda>d.
     rbind (put_longs bl (-51) (-1) (fl_data_blocks b) d) (\<lambda>d.
     rbind (put_long bl (-3) (fl_parent b) d) (\<lambda>d.
     rbind (put_long bl (-2) (fl_extension b) d) (\<lambda>d.
     block_write bl T_LIST ST_FILE 5 d)))))"

definition file_list_read :: "int \<Rightarrow> int \<Rightarrow> byte list \<Rightarrow> (file_list_block \<times> bool) option res" where
  "file_list_read bl blk_num d =
     rbind (block_read bl T_LIST ST_FILE 5 d) (\<lambda>h.
     if \<not> bh_valid h then Inr None else
     rbind (get_long bl 1 d) (\<lambda>own_key.
     rbind (get_long bl 2 d) (\<lambda>block_count.
     let bc = (if block_count > bl - 56 then bl - 56 else block_count) in
     rbind (get_longs bl (-51) (-1) (nat bc) d) (\<lambda>data_blocks.
     rbind (get_long bl (-3) d) (\<lambda>parent.
     rbind (get_long bl (-2) d) (\<lambda>extension.
     Inr (Some (\<lparr>fl_own_key = own_key, fl_block_count = block_count, fl_data_blocks = data_blocks,
        fl_parent = parent, fl_extension = extension\<rparr>, own_key = blk_num))))))))"

record file_data_block =
  fd_hdr_key :: int
  fd_seq_num :: int
  fd_data_size :: int
  fd_next_data :: int
  fd_contents :: "byte list"

definition file_data_create :: "int \<Rightarrow> int \<Rightarrow> byte list \<Rightarrow> int \<Rightarrow> file_data_block" where
  "file_data_create hdr_key seq_num data next_data =
     \<lparr>fd_hdr_key = hdr_key, fd_seq_num = seq_num, fd_data_size = int (length data),
      fd_next_data = next_data, fd_contents = data\<rparr>"

definition file_data_write :: "int \<Rightarrow> file_data_block \<Rightarrow> byte list res" where
  "file_data_write bl b =
     rbind (put_long bl 1 (fd_hdr_key b) (create_data bl)) (\<lambda>d.
     rbind (put_long bl 2 (fd_seq_num b) d) (\<lambda>d.
     rbind (put_long bl 3 (fd_data_size b) d) (\<lambda>d.
     rbind (put_long bl 4 (fd_next_data b) d) (\<lambda>d.
     block_write bl T_DATA 0 5 (py_slice_set d 24 (24 + fd_data_size b) (fd_contents b))))))"

definition file_data_read :: "int \<Rightarrow> byte list \<Rightarrow> file_data_block option res" where
  "file_data_read bl d =
     rbind (block_read bl T_DATA 0 5 d) (\<lambda>h.
     if \<not> bh_valid h then Inr None else
     rbind (get_long bl 1 d) (\<lambda>hdr_key.
     rbind (get_long bl 2 d) (\<lambda>seq_num.
     rbind (get_long bl 3 d) (\<lambda>data_size.
     rbind (get_long bl 4 d) (\<lambda>next_data.
     Inr (Some \<lparr>fd_hdr_key = hdr_key, fd_seq_num = seq_num, fd_data_size = data_size,
        fd_next_data = next_data, fd_contents = py_slice d 24 (24 + data_size)\<rparr>))))))"

subsection \<open>BitmapBlock, BitmapExtBlock and CommentBlock\<close>

definition bitmap_block_write :: "int \<Rightarrow> byte list \<Rightarrow> byte list res" where
  "bitmap_block_write bl data = block_write bl 0 0 0 (take 4 (create_data bl) @ data)"

definition bitmap_block_read :: "int \<Rightarrow> byte list \<Rightarrow> byte list option res" where
  "bitmap_block_read bl d =
     rbind (block_read bl 0 0 0 d) (\<lambda>h. if \<not> bh_valid h then Inr None else Inr (Some (drop 4 d)))"

definition bitmap_ext_write :: "int \<Rightarrow> int list \<Rightarrow> int \<Rightarrow> byte list res" where
  "bitmap_ext_write bl bitmap_ptrs bitmap_ext_blk =
     rbind (put_table bl 0 1 (bl - 1) bitmap_ptrs (create_data bl)) (put_long bl (-1) bitmap_ext_blk)"

definition bitmap_ext_read :: "int \<Rightarrow> byte list \<Rightarrow> (int list \<times> int) res" where
  "bitmap_ext_read bl d =
     rbind (get_longs bl 0 1 (nat (bl - 1)) d) (\<lambda>ptrs. rbind (get_long bl (-1) d) (\<lambda>e. Inr (ptrs, e)))"

definition comment_write :: "int \<Rightarrow> int \<Rightarrow> int \<Rightarrow> string option \<Rightarrow> byte list res" where
  "comment_write bl own_key header_key comment =
     rbind (put_long bl 1 own_key (create_data bl)) (\<lambda>d.
     rbind (put_long bl 2 header_key d) (\<lambda>d.
     rbind (put_bstr bl 6 79 comment d) (\<lambda>d. block_write bl T_COMMENT 0 5 d)))"

definition comment_read :: "int \<Rightarrow> int \<Rightarrow> byte list \<Rightarrow> (int \<times> string option \<times> bool) option res" where
  "comment_read bl blk_num d =
     rbind (block_read bl T_COMMENT 0 5 d) (\<lambda>h.
     if \<not> bh_valid h then Inr None else
     rbind (get_long bl 1 d) (\<lambda>own_key.
     rbind (get_long bl 2 d) (\<lambda>header_key.
     rbind (get_bstr bl 6 79 d) (\<lambda>comment.
     Inr (Some (header_key, comment, own_key = blk_num))))))"

subsection \<open>Writing and validating a block\<close>

definition type_areas :: "int \<Rightarrow> int \<Rightarrow> int \<Rightarrow> int \<Rightarrow> int \<Rightarrow> (int \<times> byte list) list" where
  "type_areas k bl t st c =
     (0, be_bytes 4 t) # (if st \<noteq> 0 then [(4 * (bl - 1), be_bytes 4 st)] else []) @ [(4 * k, be_bytes 4 c)]"

lemma block_write_ok:
  assumes d: "blk_ok bl d" and bl: "0 < k" "k < bl - 1" and t: "u32_ok t" "t \<noteq> 0" "u32_ok st"
  shows "\<exists>c h. u32_ok c \<and> block_write bl t st k d = Inr (put_areas (type_areas k bl t st c) d) \<and>
           block_read bl t st k (put_areas (type_areas k bl t st c) d) = Inr h \<and> bh_valid h"
proof -
  define d1 where "d1 = bput 0 (be_bytes 4 t) d"
  define d2 where "d2 = (if st \<noteq> 0 then bput (4 * (bl - 1)) (be_bytes 4 st) d1 else d1)"
  have ok1: "blk_ok bl d1" using d bl unfolding d1_def by (intro blk_ok_bput) auto
  have ok2: "blk_ok bl d2" using ok1 bl unfolding d2_def by (auto intro: blk_ok_bput)
  have types: "put_types bl t st d = Inr d2"
    using d ok1 bl t by (auto simp: put_types_def put_long_area d1_def [symmetric] d2_def)
  obtain c where c: "u32_ok c" "put_chksum bl k d2 = Inr (bput (4 * k) (be_bytes 4 c) d2)"
    "calc_chksum bl k (bput (4 * k) (be_bytes 4 c) d2) = Inr c"
    using put_chksum_ok [OF ok2, of k] bl by auto
  define d3 where "d3 = bput (4 * k) (be_bytes 4 c) d2"
  have ok3: "blk_ok bl d3" using ok2 bl unfolding d3_def by (intro blk_ok_bput) auto
  have w: "block_write bl t st k d = Inr d3"
    using types c(2) by (simp add: block_write_def d3_def)
  have p: "put_areas (type_areas k bl t st c) d = d3"
    by (auto simp: type_areas_def d3_def d2_def d1_def)
  have g: "bget q (int (length bs)) d3 = bs" if "(q, bs) \<in> set (type_areas k bl t st c)" for q bs
    unfolding p [symmetric] using that d bl
    by (intro put_areas_get) (auto simp: areas_ok_def type_areas_def disj_area_def blk_ok_def)
  have "slot d3 0 = t" "slot d3 k = c" "st \<noteq> 0 \<longrightarrow> slot d3 (bl - 1) = st"
    using g [of 0 "be_bytes 4 t"] g [of "4 * k" "be_bytes 4 c"] g [of "4 * (bl - 1)" "be_bytes 4 st"] c(1) t
    by (auto simp: type_areas_def slot_def u32_ok_def)
  then have "\<exists>h. block_read bl t st k d3 = Inr h \<and> bh_valid h"
    using ok3 bl c(3) unfolding d3_def [symmetric]
    by (auto simp: block_read_def get_long_slot Let_def)
  with w c(1) p show ?thesis by auto
qed

lemma put_areas_append: "put_areas (L @ M) d = put_areas M (put_areas L d)"
  by (induction L d rule: put_areas.induct) auto

lemma blk_ok_create [blk_simps]: "0 \<le> bl \<Longrightarrow> blk_ok bl (create_data bl)"
  by (simp add: blk_ok_def create_data_def)

lemma blk_ok_areas:
  "blk_ok bl d \<Longrightarrow> areas_ok L (4 * bl) \<Longrightarrow> blk_ok bl (put_areas L d)"
  using put_areas_length [of L d] by (simp add: areas_ok_def blk_ok_def)

lemma areas_ok_append: "areas_ok (L @ M) n \<Longrightarrow> areas_ok L n"
  by (auto simp: areas_ok_def sorted_wrt_append)

text \<open>Everything a block write produced: a valid block that holds every area.\<close>

lemma block_written:
  assumes w: "W = block_write bl t st k (put_areas L (create_data bl))" and pos: "0 < k \<and> k < bl - 1"
    and t: "u32_ok t" "t \<noteq> 0" "u32_ok st" and L: "\<And>c. areas_ok (L @ type_areas k bl t st c) (4 * bl)"
  shows "\<exists>d h. W = Inr d \<and> blk_ok bl d \<and> block_read bl t st k d = Inr h \<and> bh_valid h \<and>
           (\<forall>(p, bs) \<in> set L. bget p (int (length bs)) d = bs)"
proof -
  have bl: "0 < k" "k < bl - 1" using pos by auto
  let ?e = "put_areas L (create_data bl)"
  have "blk_ok bl ?e" using L [THEN areas_ok_append] bl by (simp add: blk_ok_areas blk_ok_create)
  from block_write_ok [OF this bl t] obtain c h where
    c: "block_write bl t st k ?e = Inr (put_areas (L @ type_areas k bl t st c) (create_data bl))"
    "block_read bl t st k (put_areas (L @ type_areas k bl t st c) (create_data bl)) = Inr h" "bh_valid h"
    by (auto simp: put_areas_append)
  let ?d = "put_areas (L @ type_areas k bl t st c) (create_data bl)"
  have "int (length (create_data bl)) = 4 * bl" using bl by (simp add: create_data_def)
  then have "bget p (int (length bs)) ?d = bs" if "(p, bs) \<in> set L" for p bs
    using L [of c] that by (intro put_areas_get) auto
  moreover have "blk_ok bl ?d" using L bl by (intro blk_ok_areas blk_ok_create) auto
  ultimately show ?thesis using w c by auto
qed

lemma type_consts: "u32_ok T_SHORT" "T_SHORT \<noteq> 0" "u32_ok T_LIST" "T_LIST \<noteq> 0" "u32_ok T_DATA" "T_DATA \<noteq> 0"
  "u32_ok T_COMMENT" "T_COMMENT \<noteq> 0" "u32_ok ST_ROOT" "ST_ROOT \<noteq> 0" "u32_ok ST_USERDIR" "ST_USERDIR \<noteq> 0"
  "u32_ok ST_FILE" "ST_FILE \<noteq> 0" "u32_ok 0"
  by (simp_all add: u32_ok_def T_SHORT_def T_LIST_def T_DATA_def T_COMMENT_def ST_ROOT_def ST_USERDIR_def ST_FILE_def)

definition longs_ok :: "int list \<Rightarrow> bool" where
  "longs_ok vs \<longleftrightarrow> (\<forall>v \<in> set vs. u32_ok v)"

subsection \<open>The round trip of the root block\<close>

definition root_ok :: "int \<Rightarrow> root_block \<Rightarrow> bool" where
  "root_ok bl b \<longleftrightarrow>
     128 \<le> bl \<and> bl < 2 ^ 30 \<and> rb_hash_size b = bl - 56 \<and> int (length (rb_hash_table b)) = bl - 56 \<and>
     longs_ok (rb_hash_table b) \<and> length (rb_bitmap_ptrs b) = 25 \<and> longs_ok (rb_bitmap_ptrs b) \<and>
     longs_ok [rb_bitmap_flag b, rb_bitmap_ext_blk b, rb_extension b, rb_blocks_used b, rb_fstype b] \<and>
     ts_ok (rb_mod_ts b) \<and> ts_ok (rb_disk_ts b) \<and> ts_ok (rb_create_ts b) \<and> name_ok 30 (rb_name b)"

definition root_areas :: "int \<Rightarrow> root_block \<Rightarrow> (int \<times> byte list) list" where
  "root_areas bl b =
     [(12, be_bytes 4 (rb_hash_size b)), (24, longs_bytes (rb_hash_table b)),
      (4 * (bl - 50), be_bytes 4 (rb_bitmap_flag b)), (4 * (bl - 49), longs_bytes (rb_bitmap_ptrs b)),
      (4 * (bl - 24), be_bytes 4 (rb_bitmap_ext_blk b)),
      (4 * (bl - 23), longs_bytes (ts_longs (ts_get (rb_mod_ts b)))),
      (4 * (bl - 10), longs_bytes (ts_longs (ts_get (rb_disk_ts b)))),
      (4 * (bl - 7), longs_bytes (ts_longs (ts_get (rb_create_ts b)))),
      (4 * (bl - 20), bstr_bytes (name_get (rb_name b))),
      (4 * (bl - 2), be_bytes 4 (rb_extension b)), (4 * (bl - 11), be_bytes 4 (rb_blocks_used b)),
      (4 * (bl - 4), be_bytes 4 (rb_fstype b))]"

lemma root_write_areas:
  assumes "root_ok bl b"
  shows "root_write bl b = block_write bl T_SHORT ST_ROOT 5 (put_areas (root_areas bl b) (create_data bl))"
proof -
  have n: "int (length (name_get (rb_name b))) \<le> 30"
    using assms name_okD [of 30 "rb_name b"] by (simp add: root_ok_def)
  show ?thesis
    using assms n unfolding root_ok_def longs_ok_def root_write_def root_areas_def
    by (simp add: blk_simps u32_ok_def)
qed

text \<open>Reading one field of a block that holds the areas \<open>L\<close>.\<close>

definition holds :: "(int \<times> byte list) list \<Rightarrow> byte list \<Rightarrow> bool" where
  "holds L d \<longleftrightarrow> (\<forall>(p, bs) \<in> set L. bget p (int (length bs)) d = bs)"

lemma get_long_held:
  assumes "blk_ok bl d" "holds L d" "(4 * n, be_bytes 4 v) \<in> set L" "u32_ok v"
    and "long_pos bl num = n" "0 \<le> n" "n < bl"
  shows "get_long bl num d = Inr v"
proof -
  have "bget (4 * n) 4 d = be_bytes 4 v" using assms(2,3) by (force simp: holds_def)
  with assms slot_area show ?thesis by (simp add: get_long_slot)
qed

lemma get_longs_held:
  assumes "blk_ok bl d" "holds L d" "(4 * n, longs_bytes vs) \<in> set L" "longs_ok vs"
    and "num = n \<or> num < 0 \<and> num + int (length vs) \<le> 0 \<and> bl + num = n"
    and "0 \<le> n" "n + int (length vs) \<le> bl" "k = length vs"
  shows "get_longs bl num 1 k d = Inr vs"
proof -
  have "bget (4 * n) (4 * int (length vs)) d = longs_bytes vs" using assms(2,3) by (force simp: holds_def)
  with assms show ?thesis
    unfolding assms(8) by (intro get_longs_up [where n = n]) (auto simp: longs_ok_def)
qed

lemma get_longs_down_held:
  assumes "blk_ok bl d" "holds L d" "(4 * (bl + num + 1 - int (length vs)), longs_bytes (rev vs)) \<in> set L"
    "longs_ok vs" "num < 0" "0 \<le> bl + num + 1 - int (length vs)" "k = length vs"
  shows "get_longs bl num (-1) k d = Inr vs"
proof -
  have "bget (4 * (bl + num + 1 - int (length vs))) (4 * int (length vs)) d = longs_bytes (rev vs)"
    using assms(2,3) by (force simp: holds_def)
  with assms show ?thesis unfolding assms(7) by (intro get_longs_down) (auto simp: longs_ok_def)
qed

lemma get_timestamp_held:
  assumes "blk_ok bl d" "holds L d" "(4 * n, longs_bytes (ts_longs (ts_get t))) \<in> set L" "ts_ok t"
    and "bl + loc = n" "loc + 3 \<le> 0" "0 \<le> n"
  shows "get_timestamp bl loc d = Inr (ts_get t)"
proof -
  have "bget (4 * n) 12 d = longs_bytes (ts_longs (ts_get t))" using assms(2,3) by (force simp: holds_def)
  with assms show ?thesis by (intro get_timestamp_area) auto
qed

lemma get_bstr_held:
  assumes "blk_ok bl d" "holds L d" "(4 * n, bstr_bytes (name_get s)) \<in> set L" "name_ok k s"
    and "bl + loc = n" "loc < 0" "0 \<le> n" "0 \<le> k" "4 * loc + k + 1 \<le> 0"
  shows "get_bstr bl loc k d = Inr (Some (name_get s))"
proof -
  have "bget (4 * n) (1 + int (length (name_get s))) d = bstr_bytes (name_get s)"
    using assms(2,3) by (force simp: holds_def)
  with assms show ?thesis by (intro get_bstr_area) auto
qed

definition root_norm :: "root_block \<Rightarrow> root_block" where
  "root_norm b = b\<lparr>rb_mod_ts := Some (ts_get (rb_mod_ts b)), rb_disk_ts := Some (ts_get (rb_disk_ts b)),
     rb_create_ts := Some (ts_get (rb_create_ts b)), rb_name := Some (name_get (rb_name b))\<rparr>"

lemma root_areas_ok:
  assumes "root_ok bl b"
  shows "areas_ok (root_areas bl b @ type_areas 5 bl T_SHORT ST_ROOT c) (4 * bl)"
proof -
  have n: "int (length (name_get (rb_name b))) \<le> 30"
    using assms name_okD [of 30 "rb_name b"] by (simp add: root_ok_def)
  show ?thesis
    using assms n unfolding root_ok_def
    by (simp add: areas_ok_def root_areas_def type_areas_def disj_area_def)
qed

lemma root_fields:
  assumes ok: "root_ok bl b" and d: "blk_ok bl d" and h: "holds (root_areas bl b) d"
  shows "get_long bl 3 d = Inr (bl - 56)" "get_longs bl 6 1 (nat (bl - 56)) d = Inr (rb_hash_table b)"
    "get_long bl (-50) d = Inr (rb_bitmap_flag b)" "get_longs bl (-49) 1 25 d = Inr (rb_bitmap_ptrs b)"
    "get_long bl (-24) d = Inr (rb_bitmap_ext_blk b)" "get_timestamp bl (-23) d = Inr (ts_get (rb_mod_ts b))"
    "get_timestamp bl (-10) d = Inr (ts_get (rb_disk_ts b))" "get_timestamp bl (-7) d = Inr (ts_get (rb_create_ts b))"
    "get_bstr bl (-20) 30 d = Inr (Some (name_get (rb_name b)))" "get_long bl (-2) d = Inr (rb_extension b)"
    "get_long bl (-11) d = Inr (rb_blocks_used b)" "get_long bl (-4) d = Inr (rb_fstype b)"
proof -
  have r: "rb_hash_size b = bl - 56" "128 \<le> bl" "bl < 2 ^ 30" "int (length (rb_hash_table b)) = bl - 56"
    "longs_ok (rb_hash_table b)" "length (rb_bitmap_ptrs b) = 25" "longs_ok (rb_bitmap_ptrs b)"
    using ok by (auto simp: root_ok_def)
  have u: "u32_ok (rb_bitmap_flag b)" "u32_ok (rb_bitmap_ext_blk b)" "u32_ok (rb_extension b)"
    "u32_ok (rb_blocks_used b)" "u32_ok (rb_fstype b)" "u32_ok (bl - 56)"
    using ok by (auto simp: root_ok_def longs_ok_def u32_ok_def)
  have t: "ts_ok (rb_mod_ts b)" "ts_ok (rb_disk_ts b)" "ts_ok (rb_create_ts b)" "name_ok 30 (rb_name b)"
    using ok by (auto simp: root_ok_def)
  note L = root_areas_def [of bl b]
  show "get_long bl 3 d = Inr (bl - 56)"
    by (rule get_long_held [OF d h, where n = "3"]) (use r u in \<open>auto simp: L\<close>)
  show "get_long bl (-50) d = Inr (rb_bitmap_flag b)"
    by (rule get_long_held [OF d h, where n = "bl - 50"]) (use r u in \<open>auto simp: L\<close>)
  show "get_long bl (-24) d = Inr (rb_bitmap_ext_blk b)"
    by (rule get_long_held [OF d h, where n = "bl - 24"]) (use r u in \<open>auto simp: L\<close>)
  show "get_long bl (-2) d = Inr (rb_extension b)"
    by (rule get_long_held [OF d h, where n = "bl - 2"]) (use r u in \<open>auto simp: L\<close>)
  show "get_long bl (-11) d = Inr (rb_blocks_used b)"
    by (rule get_long_held [OF d h, where n = "bl - 11"]) (use r u in \<open>auto simp: L\<close>)
  show "get_long bl (-4) d = Inr (rb_fstype b)"
    by (rule get_long_held [OF d h, where n = "bl - 4"]) (use r u in \<open>auto simp: L\<close>)
  show "get_longs bl 6 1 (nat (bl - 56)) d = Inr (rb_hash_table b)"
    by (rule get_longs_held [OF d h, where n = 6]) (use r in \<open>auto simp: L\<close>)
  show "get_longs bl (-49) 1 25 d = Inr (rb_bitmap_ptrs b)"
    by (rule get_longs_held [OF d h, where n = "bl - 49"]) (use r in \<open>auto simp: L\<close>)
  show "get_timestamp bl (-23) d = Inr (ts_get (rb_mod_ts b))"
    by (rule get_timestamp_held [OF d h, where n = "bl - 23"]) (use r t in \<open>auto simp: L\<close>)
  show "get_timestamp bl (-10) d = Inr (ts_get (rb_disk_ts b))"
    by (rule get_timestamp_held [OF d h, where n = "bl - 10"]) (use r t in \<open>auto simp: L\<close>)
  show "get_timestamp bl (-7) d = Inr (ts_get (rb_create_ts b))"
    by (rule get_timestamp_held [OF d h, where n = "bl - 7"]) (use r t in \<open>auto simp: L\<close>)
  show "get_bstr bl (-20) 30 d = Inr (Some (name_get (rb_name b)))"
    by (rule get_bstr_held [OF d h, where n = "bl - 20"]) (use r t in \<open>auto simp: L\<close>)
qed

lemma root_roundtrip:
  assumes ok: "root_ok bl b"
  shows "\<exists>d. root_write bl b = Inr d \<and> int (length d) = 4 * bl \<and> root_read bl d = Inr (Some (root_norm b))"
proof -
  have bl: "128 \<le> bl" and hs: "rb_hash_size b = bl - 56" using ok by (auto simp: root_ok_def)
  obtain d h where d: "root_write bl b = Inr d" "blk_ok bl d" "block_read bl T_SHORT ST_ROOT 5 d = Inr h"
    "bh_valid h" "holds (root_areas bl b) d"
    using block_written [OF root_write_areas [OF ok] _ type_consts(1,2,9) root_areas_ok [OF ok]] bl
    by (auto simp: holds_def)
  note F = root_fields [OF ok d(2,5)]
  have "root_read bl d = Inr (Some (root_norm b))"
    using d(3,4) hs by (simp add: root_read_def F Let_def root_norm_def)
  with d show ?thesis by (auto simp: blk_ok_def)
qed

subsection \<open>Directory and file headers\<close>

definition entry_ok :: "entry \<Rightarrow> bool" where
  "entry_ok e \<longleftrightarrow> en_comment_block_id e = 0 \<and> name_ok 79 (en_comment e) \<and> name_ok 30 (en_name e) \<and> ts_ok (en_mod_ts e)"

definition entry_norm :: "entry \<Rightarrow> entry" where
  "entry_norm e = \<lparr>en_comment_block_id = 0, en_name = Some (name_get (en_name e)),
     en_comment = Some (name_get (en_comment e)), en_mod_ts = Some (ts_get (en_mod_ts e))\<rparr>"

text \<open>In the long name format the field of the name and the comment holds the name twice, or the name and the number of a
  comment block; it has room for 112 bytes.\<close>

definition long_nac :: "entry \<Rightarrow> byte list" where
  "long_nac e = (let n = latin1_enc (the (en_name e)); w = word_of_nat (length n)
     in w # n @ (if en_comment_block_id e = 0 then w # n else [0]))"

definition hdr_entry_ok :: "bool \<Rightarrow> entry \<Rightarrow> bool" where
  "hdr_entry_ok ln e \<longleftrightarrow>
     (if ln then (\<exists>n. en_name e = Some n \<and> plain_name n) \<and> length (long_nac e) \<le> 112 \<and>
        u32_ok (en_comment_block_id e) \<and> ts_ok (en_mod_ts e)
      else entry_ok e)"

definition hdr_entry_norm :: "bool \<Rightarrow> entry \<Rightarrow> entry" where
  "hdr_entry_norm ln e =
     (if ln then \<lparr>en_comment_block_id = en_comment_block_id e, en_name = en_name e,
        en_comment = (if en_comment_block_id e = 0 then en_name e else Some ''''), en_mod_ts = Some (ts_get (en_mod_ts e))\<rparr>
      else entry_norm e)"

definition entry_areas :: "bool \<Rightarrow> int \<Rightarrow> entry \<Rightarrow> (int \<times> byte list) list" where
  "entry_areas ln bl e =
     (if ln then [(4 * (bl - 46), long_nac e), (4 * (bl - 18), be_bytes 4 (en_comment_block_id e)),
        (4 * (bl - 15), longs_bytes (ts_longs (ts_get (en_mod_ts e))))]
      else
     [(4 * (bl - 46), bstr_bytes (name_get (en_comment e))),
      (4 * (bl - 23), longs_bytes (ts_longs (ts_get (en_mod_ts e)))),
      (4 * (bl - 20), bstr_bytes (name_get (en_name e)))])"

lemma entry_lengths:
  "entry_ok e \<Longrightarrow> int (length (name_get (en_comment e))) \<le> 79 \<and> int (length (name_get (en_name e))) \<le> 30"
  using name_okD [of 79 "en_comment e"] name_okD [of 30 "en_name e"] by (simp add: entry_ok_def)

lemma py_slice_set_area:
  "area p (int (length bs)) d \<Longrightarrow> py_slice_set d p (p + int (length bs)) bs = bput p bs d"
  by (simp add: area_def py_slice_set_in bput_def nat_add_distrib)

lemma get_bytes_at:
  "blk_ok bl d \<Longrightarrow> loc < 0 \<Longrightarrow> 0 \<le> bl + loc \<Longrightarrow> 0 \<le> n \<Longrightarrow> 4 * (bl + loc) + n \<le> 4 * bl \<Longrightarrow>
     get_bytes bl loc n d = bget (4 * (bl + loc)) n d"
  by (simp add: get_bytes_def py_slice_in blk_ok_def bget_def mult.commute)

lemma put_bytes_at:
  "blk_ok bl d \<Longrightarrow> loc < 0 \<Longrightarrow> 0 \<le> bl + loc \<Longrightarrow> 4 * (bl + loc) + int (length bs) \<le> 4 * bl \<Longrightarrow>
     put_bytes bl loc bs d = bput (4 * (bl + loc)) bs d"
  by (simp add: put_bytes_def py_slice_set_area blk_area mult.commute)

lemma write_nac_areas [blk_simps]:
  assumes d: "blk_ok bl d" and bl: "128 \<le> bl" and ok: "hdr_entry_ok ln e"
  shows "write_nac_modts bl ln e d = Inr (put_areas (entry_areas ln bl e) d)"
proof (cases ln)
  case False
  then have "entry_ok e" using ok by (simp add: hdr_entry_ok_def)
  with d bl entry_lengths [of e] False show ?thesis
    unfolding entry_ok_def write_nac_modts_def entry_areas_def by (simp add: blk_simps)
next
  case True
  then obtain n where n: "en_name e = Some n" "plain_name n" "length (long_nac e) \<le> 112"
    "u32_ok (en_comment_block_id e)" "ts_ok (en_mod_ts e)" using ok by (auto simp: hdr_entry_ok_def)
  then have l: "length n \<le> 110" by (auto simp: long_nac_def Let_def split: if_splits)
  have il: "int (length (long_nac e)) \<le> 112" using n(3) by linarith
  let ?w = "word_of_nat (length n) # latin1_enc n"
  have "rbind (get_ami_str n) (\<lambda>name. rbind (append_len [] name) (\<lambda>nac.
      rbind (if en_comment_block_id e \<noteq> 0 then Inr (nac @ [0]) else rbind (get_ami_str n) (append_len nac)) f)) = f (long_nac e)"
    for f :: "byte list \<Rightarrow> byte list res"
    using n(1,2) l by (simp add: get_ami_str_plain append_len_def long_nac_def Let_def)
  with True n d bl il show ?thesis
    unfolding write_nac_modts_def entry_areas_def by (simp add: put_bytes_at blk_simps)
qed

lemma long_nac_read:
  assumes "length all = 112" "take (length (long_nac e)) all = long_nac e" "en_name e = Some n" "length (long_nac e) \<le> 112"
  shows "py_get all 0 = Inr (word_of_nat (length n))" and "uint (word_of_nat (length n) :: byte) = int (length n)"
    and "py_slice all 1 (int (length n) + 1) = latin1_enc n"
    and "py_get all (int (length n) + 1) = Inr (if en_comment_block_id e = 0 then word_of_nat (length n) else 0)"
    and "en_comment_block_id e = 0 \<Longrightarrow> py_slice all (int (length n) + 2) (2 * int (length n) + 2) = latin1_enc n"
proof -
  let ?bs = "latin1_enc n" and ?w = "word_of_nat (length n) :: byte" and ?r = "drop (length (long_nac e)) all"
  define t where "t = (if en_comment_block_id e = 0 then ?w # ?bs else [0])"
  have nac: "long_nac e = ?w # ?bs @ t" using assms(3) by (simp add: long_nac_def t_def Let_def)
  have pre: "all = ?w # ?bs @ t @ ?r" using assms(2) nac by (metis append_take_drop_id append.assoc append_Cons)
  have t: "t \<noteq> []" "t ! 0 = (if en_comment_block_id e = 0 then ?w else 0)" by (auto simp: t_def)
  have l: "length n + 1 < length all" using assms(4) t(1) unfolding nac by (cases t) (auto simp: assms(1))
  have sl: "py_slice (xs @ ys @ zs) (int (length xs)) (int (length xs) + int (length ys)) = ys" for xs ys zs :: "byte list"
    by (simp add: py_slice_in)
  show "py_get all 0 = Inr ?w" using assms(1) by (subst pre) (simp add: py_get_in)
  have "length n < 256" using l assms(1) by simp
  then show "uint ?w = int (length n)" using uint_word_of_int [of "int (length n)", where ?'a = 8] by simp
  show "py_slice all 1 (int (length n) + 1) = ?bs"
    using sl [of "[?w]" ?bs "t @ ?r"] by (subst pre) (simp add: add.commute)
  have "all ! Suc (length n) = (t @ ?r) ! 0" by (subst pre) (simp add: nth_append)
  also have "\<dots> = t ! 0" using t(1) by (simp add: nth_append)
  finally show "py_get all (int (length n) + 1) = Inr (if en_comment_block_id e = 0 then ?w else 0)"
    using l t(2) by (simp add: py_get_in nat_add_distrib)
  assume "en_comment_block_id e = 0"
  then have "all = (?w # ?bs @ [?w]) @ ?bs @ ?r" by (subst pre) (simp add: t_def)
  with sl [of "?w # ?bs @ [?w]" ?bs ?r] show "py_slice all (int (length n) + 2) (2 * int (length n) + 2) = ?bs"
    by (simp add: ac_simps)
qed

lemma read_long_held:
  assumes d: "blk_ok bl d" and h: "holds (entry_areas True bl e) d" and bl: "128 \<le> bl" and ok: "hdr_entry_ok True e"
  shows "read_nac_modts bl True d = Inr (hdr_entry_norm True e)"
proof -
  note L = entry_areas_def [of True bl e]
  obtain n where n: "en_name e = Some n" "plain_name n" "length (long_nac e) \<le> 112"
    "u32_ok (en_comment_block_id e)" "ts_ok (en_mod_ts e)" using ok by (auto simp: hdr_entry_ok_def)
  have ts: "get_timestamp bl (-15) d = Inr (ts_get (en_mod_ts e))"
    by (rule get_timestamp_held [OF d h, where n = "bl - 15"]) (use bl n in \<open>auto simp: L\<close>)
  have cb: "get_long bl (-18) d = Inr (en_comment_block_id e)"
    by (rule get_long_held [OF d h, where n = "bl - 18"]) (use bl n in \<open>auto simp: L\<close>)
  define all where "all = get_bytes bl (-46) 112 d"
  have b: "bget (4 * (bl - 46)) (int (length (long_nac e))) d = long_nac e" using h by (auto simp: holds_def L)
  have all: "all = bget (4 * (bl - 46)) 112 d" "length all = 112"
    using d bl by (auto simp: all_def get_bytes_at blk_area)
  have "min (length (long_nac e)) 112 = length (long_nac e)" using n(3) by simp
  then have pre: "take (length (long_nac e)) all = long_nac e"
    using b unfolding all(1) bget_def by (simp only: nat_int take_take nat_numeral)
  note R = long_nac_read [OF all(2) pre n(1,3)]
  have "int (length n) + 2 + int (length n) = 2 * int (length n) + 2" by simp
  with R show ?thesis
    by (cases "n = []") (auto simp: read_nac_modts_def all_def [symmetric] ts cb Let_def hdr_entry_norm_def n(1) split: if_splits)
qed

lemma read_nac_held:
  assumes d: "blk_ok bl d" and h: "holds (entry_areas ln bl e) d" and r: "128 \<le> bl" "hdr_entry_ok ln e"
  shows "read_nac_modts bl ln d = Inr (hdr_entry_norm ln e)"
proof (cases ln)
  case True
  then show ?thesis using read_long_held [OF d] h r by simp
next
  case False
  note L = entry_areas_def [of False bl e]
  have h: "holds (entry_areas False bl e) d" using h False by simp
  have t: "name_ok 79 (en_comment e)" "name_ok 30 (en_name e)" "ts_ok (en_mod_ts e)"
    using r False by (auto simp: entry_ok_def hdr_entry_ok_def)
  have "get_bstr bl (-46) 79 d = Inr (Some (name_get (en_comment e)))"
    by (rule get_bstr_held [OF d h, where n = "bl - 46"]) (use r t in \<open>auto simp: L\<close>)
  moreover have "get_bstr bl (-20) 30 d = Inr (Some (name_get (en_name e)))"
    by (rule get_bstr_held [OF d h, where n = "bl - 20"]) (use r t in \<open>auto simp: L\<close>)
  moreover have "get_timestamp bl (-23) d = Inr (ts_get (en_mod_ts e))"
    by (rule get_timestamp_held [OF d h, where n = "bl - 23"]) (use r t in \<open>auto simp: L\<close>)
  ultimately show ?thesis using False by (simp add: read_nac_modts_def entry_norm_def hdr_entry_norm_def)
qed

definition user_dir_ok :: "int \<Rightarrow> user_dir_block \<Rightarrow> bool" where
  "user_dir_ok bl b \<longleftrightarrow> 128 \<le> bl \<and> bl < 2 ^ 30 \<and> int (length (ud_hash_table b)) = bl - 56 \<and>
     longs_ok (ud_hash_table b) \<and> entry_ok (ud_entry b) \<and>
     longs_ok [ud_own_key b, ud_protect b, ud_hash_chain b, ud_parent b, ud_extension b]"

definition user_dir_hdr_ok :: "bool \<Rightarrow> int \<Rightarrow> user_dir_block \<Rightarrow> bool" where
  "user_dir_hdr_ok ln bl b \<longleftrightarrow> 128 \<le> bl \<and> bl < 2 ^ 30 \<and> int (length (ud_hash_table b)) = bl - 56 \<and>
     longs_ok (ud_hash_table b) \<and> hdr_entry_ok ln (ud_entry b) \<and>
     longs_ok [ud_own_key b, ud_protect b, ud_hash_chain b, ud_parent b, ud_extension b]"

definition user_dir_areas :: "bool \<Rightarrow> int \<Rightarrow> user_dir_block \<Rightarrow> (int \<times> byte list) list" where
  "user_dir_areas ln bl b =
     [(4, be_bytes 4 (ud_own_key b)), (4 * (bl - 48), be_bytes 4 (ud_protect b))] @
     entry_areas ln bl (ud_entry b) @
     [(4 * (bl - 4), be_bytes 4 (ud_hash_chain b)), (4 * (bl - 3), be_bytes 4 (ud_parent b)),
      (4 * (bl - 2), be_bytes 4 (ud_extension b)), (24, longs_bytes (ud_hash_table b))]"

definition file_header_ok :: "int \<Rightarrow> file_header_block \<Rightarrow> bool" where
  "file_header_ok bl b \<longleftrightarrow> 128 \<le> bl \<and> bl < 2 ^ 30 \<and> fh_block_count b = int (length (fh_data_blocks b)) \<and>
     fh_block_count b \<le> bl - 56 \<and> longs_ok (fh_data_blocks b) \<and> entry_ok (fh_entry b) \<and>
     longs_ok [fh_own_key b, fh_first_data b, fh_protect b, fh_byte_size b, fh_hash_chain b,
               fh_parent b, fh_extension b]"

definition file_hdr_ok :: "bool \<Rightarrow> int \<Rightarrow> file_header_block \<Rightarrow> bool" where
  "file_hdr_ok ln bl b \<longleftrightarrow> 128 \<le> bl \<and> bl < 2 ^ 30 \<and> fh_block_count b = int (length (fh_data_blocks b)) \<and>
     fh_block_count b \<le> bl - 56 \<and> longs_ok (fh_data_blocks b) \<and> hdr_entry_ok ln (fh_entry b) \<and>
     longs_ok [fh_own_key b, fh_first_data b, fh_protect b, fh_byte_size b, fh_hash_chain b,
               fh_parent b, fh_extension b]"

lemma hdr_ok_plain: "user_dir_hdr_ok False bl u = user_dir_ok bl u" "file_hdr_ok False bl f = file_header_ok bl f"
  "hdr_entry_norm False e = entry_norm e"
  by (simp_all add: user_dir_hdr_ok_def user_dir_ok_def file_hdr_ok_def file_header_ok_def hdr_entry_ok_def hdr_entry_norm_def)

definition file_header_areas :: "bool \<Rightarrow> int \<Rightarrow> file_header_block \<Rightarrow> (int \<times> byte list) list" where
  "file_header_areas ln bl b =
     [(4, be_bytes 4 (fh_own_key b)), (8, be_bytes 4 (fh_block_count b)), (16, be_bytes 4 (fh_first_data b)),
      (4 * (bl - 50 - int (length (fh_data_blocks b))), longs_bytes (rev (fh_data_blocks b))),
      (4 * (bl - 48), be_bytes 4 (fh_protect b)), (4 * (bl - 47), be_bytes 4 (fh_byte_size b))] @
     entry_areas ln bl (fh_entry b) @
     [(4 * (bl - 4), be_bytes 4 (fh_hash_chain b)), (4 * (bl - 3), be_bytes 4 (fh_parent b)),
      (4 * (bl - 2), be_bytes 4 (fh_extension b))]"

lemma put_areas_entry:
  "put_areas (entry_areas ln bl e @ M) d =
     put_areas M (put_areas (entry_areas ln bl e) d)"
  by (rule put_areas_append)

lemma entry_areas_bounds:
  assumes "hdr_entry_ok ln e"
  shows "if ln then int (length (long_nac e)) \<le> 112
    else int (length (name_get (en_comment e))) \<le> 79 \<and> int (length (name_get (en_name e))) \<le> 30"
  using assms entry_lengths [of e] by (auto simp: hdr_entry_ok_def)

lemma entry_areas_blk_ok [blk_simps]:
  "blk_ok bl d \<Longrightarrow> 128 \<le> bl \<Longrightarrow> hdr_entry_ok ln e \<Longrightarrow> blk_ok bl (put_areas (entry_areas ln bl e) d)"
  using entry_areas_bounds [of ln e]
  by (intro blk_ok_areas) (cases ln; auto simp: areas_ok_def entry_areas_def disj_area_def)+

lemma user_dir_write_areas:
  assumes "user_dir_hdr_ok ln bl b"
  shows "user_dir_write bl ln b =
           block_write bl T_SHORT ST_USERDIR 5 (put_areas (user_dir_areas ln bl b) (create_data bl))"
  using assms unfolding user_dir_hdr_ok_def longs_ok_def user_dir_write_def user_dir_areas_def
  by (simp add: blk_simps put_areas_append)

lemma user_dir_areas_ok:
  assumes "user_dir_hdr_ok ln bl b"
  shows "areas_ok (user_dir_areas ln bl b @ type_areas 5 bl T_SHORT ST_USERDIR c) (4 * bl)"
  using assms entry_areas_bounds [of ln "ud_entry b"] unfolding user_dir_hdr_ok_def
  by (cases ln; simp add: areas_ok_def user_dir_areas_def entry_areas_def type_areas_def disj_area_def)

lemma file_header_write_areas:
  assumes "file_hdr_ok ln bl b"
  shows "file_header_write bl ln b =
           block_write bl T_SHORT ST_FILE 5 (put_areas (file_header_areas ln bl b) (create_data bl))"
  using assms unfolding file_hdr_ok_def longs_ok_def file_header_write_def file_header_areas_def
  by (simp add: blk_simps put_areas_append put_longs_down u32_ok_def algebra_simps)

lemma file_header_areas_ok:
  assumes "file_hdr_ok ln bl b"
  shows "areas_ok (file_header_areas ln bl b @ type_areas 5 bl T_SHORT ST_FILE c) (4 * bl)"
  using assms entry_areas_bounds [of ln "fh_entry b"] unfolding file_hdr_ok_def
  by (cases ln; simp add: areas_ok_def file_header_areas_def entry_areas_def type_areas_def disj_area_def)

lemma holds_sub: "holds L d \<Longrightarrow> set M \<subseteq> set L \<Longrightarrow> holds M d"
  by (auto simp: holds_def)

lemma user_dir_hdr_roundtrip:
  assumes ok: "user_dir_hdr_ok ln bl b"
  shows "\<exists>d. user_dir_write bl ln b = Inr d \<and> int (length d) = 4 * bl \<and>
    user_dir_read bl ln n d = Inr (Some (b\<lparr>ud_entry := hdr_entry_norm ln (ud_entry b)\<rparr>, ud_own_key b = n))"
proof -
  have r: "128 \<le> bl" "int (length (ud_hash_table b)) = bl - 56" "longs_ok (ud_hash_table b)"
    "hdr_entry_ok ln (ud_entry b)" using ok by (auto simp: user_dir_hdr_ok_def)
  have u: "u32_ok (ud_own_key b)" "u32_ok (ud_protect b)" "u32_ok (ud_hash_chain b)" "u32_ok (ud_parent b)"
    "u32_ok (ud_extension b)" using ok by (auto simp: user_dir_hdr_ok_def longs_ok_def)
  obtain d h where w: "user_dir_write bl ln b = Inr d" and d: "blk_ok bl d"
    and hd: "block_read bl T_SHORT ST_USERDIR 5 d = Inr h" "bh_valid h"
    and h: "holds (user_dir_areas ln bl b) d"
    using block_written [OF user_dir_write_areas [OF ok] _ type_consts(1,2,11) user_dir_areas_ok [OF ok]] r(1)
    by (auto simp: holds_def)
  note L = user_dir_areas_def [of ln bl b]
  have "holds (entry_areas ln bl (ud_entry b)) d" by (rule holds_sub [OF h]) (auto simp: L)
  from read_nac_held [OF d this r(1,4)] have e: "read_nac_modts bl ln d = Inr (hdr_entry_norm ln (ud_entry b))" .
  have F: "get_long bl 1 d = Inr (ud_own_key b)" "get_long bl (-48) d = Inr (ud_protect b)"
    "get_long bl (-4) d = Inr (ud_hash_chain b)" "get_long bl (-3) d = Inr (ud_parent b)"
    "get_long bl (-2) d = Inr (ud_extension b)"
    "get_longs bl 6 1 (nat (bl - 56)) d = Inr (ud_hash_table b)"
  proof -
    show "get_long bl 1 d = Inr (ud_own_key b)"
      by (rule get_long_held [OF d h, where n = "1"]) (use r u in \<open>auto simp: L\<close>)
    show "get_long bl (-48) d = Inr (ud_protect b)"
      by (rule get_long_held [OF d h, where n = "bl - 48"]) (use r u in \<open>auto simp: L\<close>)
    show "get_long bl (-4) d = Inr (ud_hash_chain b)"
      by (rule get_long_held [OF d h, where n = "bl - 4"]) (use r u in \<open>auto simp: L\<close>)
    show "get_long bl (-3) d = Inr (ud_parent b)"
      by (rule get_long_held [OF d h, where n = "bl - 3"]) (use r u in \<open>auto simp: L\<close>)
    show "get_long bl (-2) d = Inr (ud_extension b)"
      by (rule get_long_held [OF d h, where n = "bl - 2"]) (use r u in \<open>auto simp: L\<close>)
    show "get_longs bl 6 1 (nat (bl - 56)) d = Inr (ud_hash_table b)"
      by (rule get_longs_held [OF d h, where n = 6]) (use r in \<open>auto simp: L\<close>)
  qed
  have "user_dir_read bl ln n d = Inr (Some (b\<lparr>ud_entry := hdr_entry_norm ln (ud_entry b)\<rparr>, ud_own_key b = n))"
    using hd by (simp add: user_dir_read_def F e)
  with w d show ?thesis by (auto simp: blk_ok_def)
qed

lemma file_hdr_roundtrip:
  assumes ok: "file_hdr_ok ln bl b"
  shows "\<exists>d. file_header_write bl ln b = Inr d \<and> int (length d) = 4 * bl \<and>
    file_header_read bl ln n d = Inr (Some (b\<lparr>fh_entry := hdr_entry_norm ln (fh_entry b)\<rparr>, fh_own_key b = n))"
proof -
  have r: "128 \<le> bl" "bl < 2 ^ 30" "fh_block_count b = int (length (fh_data_blocks b))"
    "int (length (fh_data_blocks b)) \<le> bl - 56" "longs_ok (fh_data_blocks b)" "hdr_entry_ok ln (fh_entry b)"
    using ok by (auto simp: file_hdr_ok_def)
  have u: "u32_ok (fh_own_key b)" "u32_ok (int (length (fh_data_blocks b)))" "u32_ok (fh_first_data b)" "u32_ok (fh_protect b)"
    "u32_ok (fh_byte_size b)" "u32_ok (fh_hash_chain b)" "u32_ok (fh_parent b)" "u32_ok (fh_extension b)"
    using ok r by (auto simp: file_hdr_ok_def longs_ok_def u32_ok_def)
  obtain d h where w: "file_header_write bl ln b = Inr d" and d: "blk_ok bl d"
    and hd: "block_read bl T_SHORT ST_FILE 5 d = Inr h" "bh_valid h"
    and h: "holds (file_header_areas ln bl b) d"
    using block_written [OF file_header_write_areas [OF ok] _ type_consts(1,2,13) file_header_areas_ok [OF ok]] r(1)
    by (auto simp: holds_def)
  note L = file_header_areas_def [of ln bl b]
  have "holds (entry_areas ln bl (fh_entry b)) d" by (rule holds_sub [OF h]) (auto simp: L)
  from read_nac_held [OF d this r(1,6)] have e: "read_nac_modts bl ln d = Inr (hdr_entry_norm ln (fh_entry b))" .
  have F: "get_long bl 1 d = Inr (fh_own_key b)" "get_long bl 2 d = Inr (int (length (fh_data_blocks b)))"
    "get_long bl 4 d = Inr (fh_first_data b)" "get_long bl (-48) d = Inr (fh_protect b)"
    "get_long bl (-47) d = Inr (fh_byte_size b)" "get_long bl (-4) d = Inr (fh_hash_chain b)"
    "get_long bl (-3) d = Inr (fh_parent b)" "get_long bl (-2) d = Inr (fh_extension b)"
    "get_longs bl (-51) (-1) (length (fh_data_blocks b)) d = Inr (fh_data_blocks b)"
  proof -
    show "get_long bl 1 d = Inr (fh_own_key b)"
      by (rule get_long_held [OF d h, where n = "1"]) (use r u in \<open>auto simp: L\<close>)
    show "get_long bl 2 d = Inr (int (length (fh_data_blocks b)))"
      by (rule get_long_held [OF d h, where n = "2"]) (use r u in \<open>auto simp: L\<close>)
    show "get_long bl 4 d = Inr (fh_first_data b)"
      by (rule get_long_held [OF d h, where n = "4"]) (use r u in \<open>auto simp: L\<close>)
    show "get_long bl (-48) d = Inr (fh_protect b)"
      by (rule get_long_held [OF d h, where n = "bl - 48"]) (use r u in \<open>auto simp: L\<close>)
    show "get_long bl (-47) d = Inr (fh_byte_size b)"
      by (rule get_long_held [OF d h, where n = "bl - 47"]) (use r u in \<open>auto simp: L\<close>)
    show "get_long bl (-4) d = Inr (fh_hash_chain b)"
      by (rule get_long_held [OF d h, where n = "bl - 4"]) (use r u in \<open>auto simp: L\<close>)
    show "get_long bl (-3) d = Inr (fh_parent b)"
      by (rule get_long_held [OF d h, where n = "bl - 3"]) (use r u in \<open>auto simp: L\<close>)
    show "get_long bl (-2) d = Inr (fh_extension b)"
      by (rule get_long_held [OF d h, where n = "bl - 2"]) (use r u in \<open>auto simp: L\<close>)
    show "get_longs bl (-51) (-1) (length (fh_data_blocks b)) d = Inr (fh_data_blocks b)"
      by (rule get_longs_down_held [OF d h]) (use r in \<open>auto simp: L algebra_simps\<close>)
  qed
  have "file_header_read bl ln n d = Inr (Some (b\<lparr>fh_entry := hdr_entry_norm ln (fh_entry b)\<rparr>, fh_own_key b = n))"
    using hd r by (simp add: file_header_read_def F e Let_def)
  with w d show ?thesis by (auto simp: blk_ok_def)
qed

lemma user_dir_roundtrip:
  assumes "user_dir_ok bl b"
  shows "\<exists>d. user_dir_write bl False b = Inr d \<and> int (length d) = 4 * bl \<and>
    user_dir_read bl False n d = Inr (Some (b\<lparr>ud_entry := entry_norm (ud_entry b)\<rparr>, ud_own_key b = n))"
  using user_dir_hdr_roundtrip [of False bl b n] assms by (simp add: hdr_ok_plain)

lemma file_header_roundtrip:
  assumes "file_header_ok bl b"
  shows "\<exists>d. file_header_write bl False b = Inr d \<and> int (length d) = 4 * bl \<and>
    file_header_read bl False n d = Inr (Some (b\<lparr>fh_entry := entry_norm (fh_entry b)\<rparr>, fh_own_key b = n))"
  using file_hdr_roundtrip [of False bl b n] assms by (simp add: hdr_ok_plain)

subsection \<open>Data blocks\<close>

definition file_list_ok :: "int \<Rightarrow> file_list_block \<Rightarrow> bool" where
  "file_list_ok bl b \<longleftrightarrow> 128 \<le> bl \<and> bl < 2 ^ 30 \<and> fl_block_count b = int (length (fl_data_blocks b)) \<and>
     fl_block_count b \<le> bl - 56 \<and> longs_ok (fl_data_blocks b) \<and>
     longs_ok [fl_own_key b, fl_parent b, fl_extension b]"

definition file_list_areas :: "int \<Rightarrow> file_list_block \<Rightarrow> (int \<times> byte list) list" where
  "file_list_areas bl b =
     [(4, be_bytes 4 (fl_own_key b)), (8, be_bytes 4 (fl_block_count b)),
      (4 * (bl - 50 - int (length (fl_data_blocks b))), longs_bytes (rev (fl_data_blocks b))),
      (4 * (bl - 3), be_bytes 4 (fl_parent b)), (4 * (bl - 2), be_bytes 4 (fl_extension b))]"

lemma file_list_roundtrip:
  assumes ok: "file_list_ok bl b"
  shows "\<exists>d. file_list_write bl b = Inr d \<and> int (length d) = 4 * bl \<and>
    file_list_read bl n d = Inr (Some (b, fl_own_key b = n))"
proof -
  have r: "128 \<le> bl" "bl < 2 ^ 30" "fl_block_count b = int (length (fl_data_blocks b))"
    "int (length (fl_data_blocks b)) \<le> bl - 56" "longs_ok (fl_data_blocks b)"
    using ok by (auto simp: file_list_ok_def)
  have u: "u32_ok (fl_own_key b)" "u32_ok (int (length (fl_data_blocks b)))" "u32_ok (fl_parent b)" "u32_ok (fl_extension b)"
    using ok r by (auto simp: file_list_ok_def longs_ok_def u32_ok_def)
  have w: "file_list_write bl b = block_write bl T_LIST ST_FILE 5 (put_areas (file_list_areas bl b) (create_data bl))"
    using r u unfolding longs_ok_def file_list_write_def file_list_areas_def
    by (simp add: blk_simps put_longs_down algebra_simps)
  have ao: "areas_ok (file_list_areas bl b @ type_areas 5 bl T_LIST ST_FILE c) (4 * bl)" for c
    using r by (simp add: areas_ok_def file_list_areas_def type_areas_def disj_area_def)
  obtain d h where d: "file_list_write bl b = Inr d" "blk_ok bl d"
    and hd: "block_read bl T_LIST ST_FILE 5 d = Inr h" "bh_valid h" and h: "holds (file_list_areas bl b) d"
    using block_written [OF w _ type_consts(3,4,13) ao] r(1) by (auto simp: holds_def)
  note L = file_list_areas_def [of bl b]
  have F: "get_long bl 1 d = Inr (fl_own_key b)" "get_long bl 2 d = Inr (int (length (fl_data_blocks b)))"
    "get_long bl (-3) d = Inr (fl_parent b)" "get_long bl (-2) d = Inr (fl_extension b)"
    "get_longs bl (-51) (-1) (length (fl_data_blocks b)) d = Inr (fl_data_blocks b)"
  proof -
    show "get_long bl 1 d = Inr (fl_own_key b)"
      by (rule get_long_held [OF d(2) h, where n = 1]) (use r u in \<open>auto simp: L\<close>)
    show "get_long bl 2 d = Inr (int (length (fl_data_blocks b)))"
      by (rule get_long_held [OF d(2) h, where n = 2]) (use r u in \<open>auto simp: L\<close>)
    show "get_long bl (-3) d = Inr (fl_parent b)"
      by (rule get_long_held [OF d(2) h, where n = "bl - 3"]) (use r u in \<open>auto simp: L\<close>)
    show "get_long bl (-2) d = Inr (fl_extension b)"
      by (rule get_long_held [OF d(2) h, where n = "bl - 2"]) (use r u in \<open>auto simp: L\<close>)
    show "get_longs bl (-51) (-1) (length (fl_data_blocks b)) d = Inr (fl_data_blocks b)"
      by (rule get_longs_down_held [OF d(2) h]) (use r in \<open>auto simp: L algebra_simps\<close>)
  qed
  have "file_list_read bl n d = Inr (Some (b, fl_own_key b = n))"
    using hd r by (simp add: file_list_read_def F Let_def)
  with d show ?thesis by (auto simp: blk_ok_def)
qed

definition file_data_ok :: "int \<Rightarrow> file_data_block \<Rightarrow> bool" where
  "file_data_ok bl b \<longleftrightarrow> 7 \<le> bl \<and> bl < 2 ^ 30 \<and> fd_data_size b = int (length (fd_contents b)) \<and>
     fd_data_size b \<le> 4 * bl - 24 \<and> longs_ok [fd_hdr_key b, fd_seq_num b, fd_next_data b]"

definition file_data_areas :: "file_data_block \<Rightarrow> (int \<times> byte list) list" where
  "file_data_areas b =
     [(4, be_bytes 4 (fd_hdr_key b)), (8, be_bytes 4 (fd_seq_num b)), (12, be_bytes 4 (fd_data_size b)),
      (16, be_bytes 4 (fd_next_data b)), (24, fd_contents b)]"

lemma file_data_roundtrip:
  assumes ok: "file_data_ok bl b"
  shows "\<exists>d. file_data_write bl b = Inr d \<and> int (length d) = 4 * bl \<and> file_data_read bl d = Inr (Some b)"
proof -
  have r: "7 \<le> bl" "bl < 2 ^ 30" "fd_data_size b = int (length (fd_contents b))"
    "int (length (fd_contents b)) \<le> 4 * bl - 24"
    using ok by (auto simp: file_data_ok_def)
  have u: "u32_ok (fd_hdr_key b)" "u32_ok (int (length (fd_contents b)))" "u32_ok (fd_seq_num b)" "u32_ok (fd_next_data b)"
    using ok r by (auto simp: file_data_ok_def longs_ok_def u32_ok_def)
  have w: "file_data_write bl b = block_write bl T_DATA 0 5 (put_areas (file_data_areas b) (create_data bl))"
    using r u unfolding file_data_write_def file_data_areas_def
    by (simp add: blk_simps py_slice_set_area blk_area [of bl])
  have ao: "areas_ok (file_data_areas b @ type_areas 5 bl T_DATA 0 c) (4 * bl)" for c
    using r by (simp add: areas_ok_def file_data_areas_def type_areas_def disj_area_def)
  obtain d h where d: "file_data_write bl b = Inr d" "blk_ok bl d"
    and hd: "block_read bl T_DATA 0 5 d = Inr h" "bh_valid h" and h: "holds (file_data_areas b) d"
    using block_written [OF w _ type_consts(5,6,15) ao] r(1) by (auto simp: holds_def)
  note L = file_data_areas_def [of b]
  have F: "get_long bl 1 d = Inr (fd_hdr_key b)" "get_long bl 2 d = Inr (fd_seq_num b)"
    "get_long bl 3 d = Inr (int (length (fd_contents b)))" "get_long bl 4 d = Inr (fd_next_data b)"
  proof -
    show "get_long bl 1 d = Inr (fd_hdr_key b)"
      by (rule get_long_held [OF d(2) h, where n = 1]) (use r u in \<open>auto simp: L\<close>)
    show "get_long bl 2 d = Inr (fd_seq_num b)"
      by (rule get_long_held [OF d(2) h, where n = 2]) (use r u in \<open>auto simp: L\<close>)
    show "get_long bl 3 d = Inr (int (length (fd_contents b)))"
      by (rule get_long_held [OF d(2) h, where n = 3]) (use r u in \<open>auto simp: L\<close>)
    show "get_long bl 4 d = Inr (fd_next_data b)"
      by (rule get_long_held [OF d(2) h, where n = 4]) (use r u in \<open>auto simp: L\<close>)
  qed
  have "bget 24 (int (length (fd_contents b))) d = fd_contents b" using h by (auto simp: holds_def L)
  then have "py_slice d 24 (24 + int (length (fd_contents b))) = fd_contents b"
    using r d(2) by (simp add: py_slice_in bget_def blk_ok_def)
  then have "file_data_read bl d = Inr (Some b)"
    using hd r by (simp add: file_data_read_def F)
  with d show ?thesis by (auto simp: blk_ok_def)
qed

lemma bitmap_ext_roundtrip:
  assumes "2 \<le> bl" "int (length ptrs) = bl - 1" "longs_ok (ext # ptrs)"
  shows "\<exists>d. bitmap_ext_write bl ptrs ext = Inr d \<and> int (length d) = 4 * bl \<and>
           bitmap_ext_read bl d = Inr (ptrs, ext)"
proof -
  let ?L = "[(0, longs_bytes ptrs), (4 * (bl - 1), be_bytes 4 ext)]"
  let ?d = "put_areas ?L (create_data bl)"
  have v: "\<forall>v \<in> set ptrs. u32_ok v" "u32_ok ext" "longs_ok ptrs" using assms(3) by (auto simp: longs_ok_def)
  have w: "bitmap_ext_write bl ptrs ext = Inr ?d"
    using assms v unfolding bitmap_ext_write_def by (simp add: blk_simps)
  have ao: "areas_ok ?L (4 * bl)" using assms by (simp add: areas_ok_def disj_area_def)
  have d: "blk_ok bl ?d" using ao assms by (intro blk_ok_areas blk_ok_create) auto
  have "int (length (create_data bl)) = 4 * bl" using assms(1) by (simp add: create_data_def)
  with ao have "areas_ok ?L (int (length (create_data bl)))" by simp
  from put_areas_get [OF this] have h: "holds ?L ?d" unfolding holds_def by blast
  have "get_longs bl 0 1 (nat (bl - 1)) ?d = Inr ptrs"
    by (rule get_longs_held [OF d h, where n = 0]) (use assms v in auto)
  moreover have "get_long bl (-1) ?d = Inr ext"
    by (rule get_long_held [OF d h, where n = "bl - 1"]) (use assms v in auto)
  ultimately have "bitmap_ext_read bl ?d = Inr (ptrs, ext)" by (simp add: bitmap_ext_read_def)
  with w d show ?thesis by (auto simp: blk_ok_def)
qed

subsection \<open>What the checksum detects\<close>

lemma slot_sum_change:
  assumes "blk_ok bl d" "blk_ok bl d'" "0 \<le> k" "k < bl" "k \<noteq> chk"
    and "\<And>j. 0 \<le> j \<Longrightarrow> j < bl \<Longrightarrow> j \<noteq> k \<Longrightarrow> slot d' j = slot d j"
  shows "slot_sum chk 0 (nat bl) d' - slot_sum chk 0 (nat bl) d = slot d' k - slot d k"
proof -
  let ?js = "filter (\<lambda>j. int j \<noteq> chk) [0..<nat bl]"
  have "sum_list (map (\<lambda>j. slot d' (int j)) ?js) - sum_list (map (\<lambda>j. slot d (int j)) ?js) =
      sum_list (map (\<lambda>j. slot d' (int j) - slot d (int j)) ?js)"
    by (simp add: sum_list_subtractf)
  also have "\<dots> = sum (\<lambda>j. slot d' (int j) - slot d (int j)) (set ?js)"
    by (rule sum_list_distinct_conv_sum_set) simp
  also have "\<dots> = (\<Sum>j \<in> {nat k}. slot d' (int j) - slot d (int j))"
  proof (rule sum.mono_neutral_right)
    show "{nat k} \<subseteq> set ?js" using assms(3-5) by auto
    show "\<forall>j \<in> set ?js - {nat k}. slot d' (int j) - slot d (int j) = 0"
    proof
      fix j assume "j \<in> set ?js - {nat k}"
      then have "int j < bl" "int j \<noteq> k" using assms(3,4) by auto
      then show "slot d' (int j) - slot d (int j) = 0" using assms(6) [of "int j"] by simp
    qed
  qed simp
  finally show ?thesis using assms(3) by (simp add: slot_sum_def)
qed

lemma change_detected:
  assumes d: "blk_ok bl d" "blk_ok bl d'" and bl: "6 \<le> bl" and chk: "0 \<le> chk" "chk < bl"
    and v: "block_read bl t st chk d = Inr h" "bh_valid h"
    and k: "0 \<le> k" "k < bl" "slot d' k \<noteq> slot d k"
    and same: "\<And>j. 0 \<le> j \<Longrightarrow> j < bl \<Longrightarrow> j \<noteq> k \<Longrightarrow> slot d' j = slot d j"
  shows "\<exists>h'. block_read bl t st chk d' = Inr h' \<and> \<not> bh_valid h'"
proof -
  let ?S = "slot_sum chk 0 (nat bl)"
  have c: "slot d chk = (- ?S d) mod 2 ^ 32"
    using v d bl chk by (auto simp: block_read_def get_long_slot calc_chksum_ok Let_def)
  have b: "0 \<le> slot d j" "slot d j < 2 ^ 32" "0 \<le> slot d' j" "slot d' j < 2 ^ 32" for j
  proof -
    have "length (bget (4 * j) 4 x) \<le> 4" for x by (simp add: bget_def)
    then have "(256 :: int) ^ length (bget (4 * j) 4 x) \<le> 256 ^ 4" for x by (intro power_increasing) auto
    then show "0 \<le> slot d j" "slot d j < 2 ^ 32" "0 \<le> slot d' j" "slot d' j < 2 ^ 32"
      using be_int_bounds [of "bget (4 * j) 4 d"] be_int_bounds [of "bget (4 * j) 4 d'"]
      unfolding slot_def by (auto intro: less_le_trans)
  qed
  have "slot d' chk \<noteq> (- ?S d') mod 2 ^ 32"
  proof (cases "k = chk")
    case True
    have "?S d' = ?S d"
      unfolding slot_sum_def using same True
      by (intro arg_cong [of _ _ sum_list] map_cong refl) auto
    with c k(3) True show ?thesis by simp
  next
    case False
    have s: "?S d' = ?S d + (slot d' k - slot d k)"
      using slot_sum_change [OF d k(1,2) False same] by simp
    have "slot d' chk = slot d chk" using same [of chk] chk False by simp
    moreover have "(- ?S d) mod 2 ^ 32 \<noteq> (- ?S d') mod 2 ^ 32"
    proof
      assume "(- ?S d) mod 2 ^ 32 = (- ?S d') mod 2 ^ 32"
      then have "(2 :: int) ^ 32 dvd (- ?S d) - (- ?S d')" by (simp add: mod_eq_dvd_iff)
      then have "(2 :: int) ^ 32 dvd slot d' k - slot d k" by (simp add: s)
      from dvd_imp_le_int [OF _ this] k(3) have "\<bar>2 ^ 32 :: int\<bar> \<le> \<bar>slot d' k - slot d k\<bar>" by simp
      with b [of k] show False by auto
    qed
    ultimately show ?thesis using c by simp
  qed
  then show ?thesis
    using d bl chk by (auto simp: block_read_def get_long_slot calc_chksum_ok Let_def)
qed

subsection \<open>The long name format\<close>

text \<open>Whatever the comment is, the name is stored in its place.\<close>

lemma long_name_comment:
  assumes d: "blk_ok bl d" and bl: "128 \<le> bl" and n: "en_name e = Some n" "plain_name n" "n \<noteq> []" "length n \<le> 55"
    and c: "en_comment_block_id e = 0" and t: "ts_ok (en_mod_ts e)"
  shows "\<exists>d' e'. write_nac_modts bl True e d = Inr d' \<and> read_nac_modts bl True d' = Inr e' \<and>
           en_name e' = Some n \<and> en_comment e' = Some n"
proof -
  let ?d = "put_areas (entry_areas True bl e) d"
  have ok: "hdr_entry_ok True e" using n c t by (simp add: hdr_entry_ok_def long_nac_def Let_def u32_ok_def)
  then have "length (long_nac e) \<le> 112" by (simp add: hdr_entry_ok_def)
  then have "areas_ok (entry_areas True bl e) (int (length d))"
    using bl d by (simp add: areas_ok_def entry_areas_def disj_area_def blk_ok_def)
  from put_areas_get [OF this] have "holds (entry_areas True bl e) ?d" unfolding holds_def by blast
  from read_long_held [OF entry_areas_blk_ok [OF d bl ok] this bl ok] write_nac_areas [OF d bl ok] n(1) c
  show ?thesis by (simp add: hdr_entry_norm_def)
qed

subsection \<open>Properties\<close>

text \<open>C23: a root block that is written and read again is valid and has all its fields: hash
  table, bitmap pointers, time stamps, name and the DOS6 and DOS7 extras (a missing time stamp
  reads as zero, a missing name as the empty name).\<close>

theorem root_block_roundtrip:
  assumes "root_ok bl b"
  shows "\<exists>d. root_write bl b = Inr d \<and> int (length d) = 4 * bl \<and> root_read bl d = Inr (Some (root_norm b))"
  by (rule root_roundtrip [OF assms])

theorem root_block_roundtrip_witness:
  "\<exists>d. root_write 128 (root_create 128 ''Work'' None None None 0 0) = Inr d \<and>
     root_read 128 d = Inr (Some (root_norm (root_create 128 ''Work'' None None None 0 0)))"
proof -
  have "root_ok 128 (root_create 128 ''Work'' None None None 0 0)"
    by (simp add: root_ok_def root_create_def longs_ok_def u32_ok_def ts_ok_def name_ok_def
        plain_name_def nfkc_char_def)
  from root_block_roundtrip [OF this] show ?thesis by auto
qed

text \<open>C24: the same for directory and file headers, with short names and comments (30 and 79 characters) or in the long name
  format: every field of a written block is read back and the block is valid exactly when its own key is the number it was
  read from. In the long name format the field of 112 bytes must have room for the name twice, or once with the number of a
  comment block; a comment block is read back, and without one the comment that is read is the name, which the code writes
  in its place.\<close>

theorem header_blocks_roundtrip:
  assumes "user_dir_hdr_ok ln bl u" and "file_hdr_ok ln bl f"
  shows "(\<exists>d. user_dir_write bl ln u = Inr d \<and> int (length d) = 4 * bl \<and>
      user_dir_read bl ln n d = Inr (Some (u\<lparr>ud_entry := hdr_entry_norm ln (ud_entry u)\<rparr>, ud_own_key u = n))) \<and>
    (\<exists>d. file_header_write bl ln f = Inr d \<and> int (length d) = 4 * bl \<and>
      file_header_read bl ln n d = Inr (Some (f\<lparr>fh_entry := hdr_entry_norm ln (fh_entry f)\<rparr>, fh_own_key f = n)))"
  using user_dir_hdr_roundtrip [OF assms(1)] file_hdr_roundtrip [OF assms(2)] by blast

definition demo_long_dir :: user_dir_block where
  "demo_long_dir = user_dir_create 128 881 880 ''a directory with quite a long name'' 0 (Some ''kept?'') None 0 0"

theorem header_blocks_roundtrip_witness:
  "(\<exists>d u. user_dir_write 128 False (user_dir_create 128 881 880 ''s'' 0 None None 0 0) = Inr d \<and>
     user_dir_read 128 False 881 d = Inr (Some (u, True))) \<and>
   (\<exists>d u. user_dir_write 128 True demo_long_dir = Inr d \<and> user_dir_read 128 True 881 d = Inr (Some (u, True)) \<and>
     en_name (ud_entry u) = Some ''a directory with quite a long name'' \<and> en_comment (ud_entry u) = en_name (ud_entry u))"
proof
  have u: "user_dir_hdr_ok False 128 (user_dir_create 128 881 880 ''s'' 0 None None 0 0)"
    unfolding hdr_ok_plain by (simp add: user_dir_ok_def user_dir_create_def longs_ok_def u32_ok_def ts_ok_def name_ok_def
        plain_name_def nfkc_char_def entry_ok_def)
  have f: "file_hdr_ok False 128 (file_header_create 882 880 ''f'' [883, 884] 0 1000 0 None None 0)"
    unfolding hdr_ok_plain by (simp add: file_header_ok_def file_header_create_def longs_ok_def u32_ok_def ts_ok_def name_ok_def
        plain_name_def nfkc_char_def entry_ok_def)
  from header_blocks_roundtrip [OF u f, of 881]
  show "\<exists>d u. user_dir_write 128 False (user_dir_create 128 881 880 ''s'' 0 None None 0 0) = Inr d \<and>
     user_dir_read 128 False 881 d = Inr (Some (u, True))" by (auto simp: user_dir_create_def)
  have ul: "user_dir_hdr_ok True 128 demo_long_dir"
    by (simp add: demo_long_dir_def user_dir_hdr_ok_def user_dir_create_def longs_ok_def u32_ok_def ts_ok_def hdr_entry_ok_def
        long_nac_def Let_def plain_name_def nfkc_char_def)
  have fl: "file_hdr_ok True 128 (file_header_create 882 880 ''f'' [883, 884] 0 1000 0 None None 0)"
    by (simp add: file_hdr_ok_def file_header_create_def longs_ok_def u32_ok_def ts_ok_def hdr_entry_ok_def
        long_nac_def Let_def plain_name_def nfkc_char_def)
  from header_blocks_roundtrip [OF ul fl, of 881]
  show "\<exists>d u. user_dir_write 128 True demo_long_dir = Inr d \<and> user_dir_read 128 True 881 d = Inr (Some (u, True)) \<and>
     en_name (ud_entry u) = Some ''a directory with quite a long name'' \<and> en_comment (ud_entry u) = en_name (ud_entry u)"
    by (auto simp: demo_long_dir_def user_dir_create_def hdr_entry_norm_def)
qed

text \<open>File list blocks, data blocks with their payload and bitmap extension blocks are
  read back as they were written.\<close>

theorem data_blocks_roundtrip:
  assumes "file_list_ok bl l" and "file_data_ok bl b" and "int (length ptrs) = bl - 1" and "longs_ok (ext # ptrs)"
  shows "(\<exists>d. file_list_write bl l = Inr d \<and> file_list_read bl n d = Inr (Some (l, fl_own_key l = n))) \<and>
    (\<exists>d. file_data_write bl b = Inr d \<and> file_data_read bl d = Inr (Some b)) \<and>
    (\<exists>d. bitmap_ext_write bl ptrs ext = Inr d \<and> bitmap_ext_read bl d = Inr (ptrs, ext))"
  using file_list_roundtrip [OF assms(1)] file_data_roundtrip [OF assms(2)]
    bitmap_ext_roundtrip [OF _ assms(3,4)] assms(2) unfolding file_data_ok_def
  by fastforce

theorem data_blocks_roundtrip_witness:
  "\<exists>d. file_data_write 128 (file_data_create 880 1 [1, 2, 3] 0) = Inr d \<and>
     file_data_read 128 d = Inr (Some (file_data_create 880 1 [1, 2, 3] 0))"
proof -
  have l: "file_list_ok 128 (file_list_create 900 880 [901, 902] 0)"
    by (simp add: file_list_ok_def file_list_create_def longs_ok_def u32_ok_def)
  have b: "file_data_ok 128 (file_data_create 880 1 [1, 2, 3] 0)"
    by (simp add: file_data_ok_def file_data_create_def longs_ok_def u32_ok_def)
  have p: "longs_ok (0 # replicate 127 0)" by (simp add: longs_ok_def u32_ok_def)
  from data_blocks_roundtrip [OF l b, of "replicate 127 0"] p show ?thesis by auto
qed

text \<open>C25: the block checksum detects every change of a single long word: a block that was
  valid is not valid any more once exactly one long word differs.\<close>

theorem checksum_detects_change:
  assumes "blk_ok bl d" and "blk_ok bl d'" and "6 \<le> bl" and "0 \<le> chk" and "chk < bl"
    and "block_read bl t st chk d = Inr h" and "bh_valid h"
    and "0 \<le> k" and "k < bl" and "slot d' k \<noteq> slot d k"
    and "\<And>j. 0 \<le> j \<Longrightarrow> j < bl \<Longrightarrow> j \<noteq> k \<Longrightarrow> slot d' j = slot d j"
  shows "\<exists>h'. block_read bl t st chk d' = Inr h' \<and> \<not> bh_valid h'"
  by (rule change_detected [OF assms])

theorem checksum_detects_change_witness:
  "\<exists>h'. block_read 6 0 0 0 (bput 8 (be_bytes 4 1) (create_data 6)) = Inr h' \<and> \<not> bh_valid h'"
proof -
  have d: "blk_ok 6 (create_data 6)" by (simp add: blk_ok_create)
  then have d': "blk_ok 6 (bput 8 (be_bytes 4 1) (create_data 6))" by (intro blk_ok_bput) auto
  have z: "slot (create_data 6) j = 0" if "0 \<le> j" "j < 6" for j
  proof -
    have "bget (4 * j) 4 (create_data 6) = replicate 4 0" using that by (simp add: bget_def create_data_def min_def)
    moreover have "be_int (replicate 4 (0 :: byte)) = 0" by (simp add: be_int_def numeral_eq_Suc)
    ultimately show ?thesis by (simp add: slot_def)
  qed
  have s2: "slot (bput 8 (be_bytes 4 1) (create_data 6)) 2 = 1"
    using d by (intro slot_area) (auto simp: u32_ok_def bget_bput_same blk_area)
  have so: "slot (bput 8 (be_bytes 4 1) (create_data 6)) j = slot (create_data 6) j"
    if "0 \<le> j" "j < 6" "j \<noteq> 2" for j
    using slot_bput_other [OF d, of 2 j 1] that by simp
  have "slot_sum 0 0 6 (create_data 6) = 0"
  proof -
    have "map (\<lambda>j. slot (create_data 6) (int j)) (filter (\<lambda>j. int j \<noteq> 0) [0..<0 + 6])
        = map (\<lambda>j. 0) (filter (\<lambda>j. int j \<noteq> 0) [0..<0 + 6])"
      using z by (intro map_cong) auto
    then show ?thesis unfolding slot_sum_def by (simp only: sum_list_0)
  qed
  then obtain h where h: "block_read 6 0 0 0 (create_data 6) = Inr h" "bh_valid h"
    using d z [of 0] z [of 5] by (auto simp: block_read_def get_long_slot calc_chksum_ok Let_def)
  show ?thesis
    by (rule checksum_detects_change [OF d d' _ _ _ h, of 2]) (use z so s2 in auto)
qed

text \<open>In the long name format the comment of an entry is lost: what is written behind the
  name is the name once more, so an entry with any comment reads back with its own name as the
  comment.\<close>

theorem long_name_loses_comment:
  assumes "blk_ok bl d" and "128 \<le> bl" and "en_name e = Some n" and "plain_name n" and "n \<noteq> []"
    and "length n \<le> 55" and "en_comment_block_id e = 0" and "ts_ok (en_mod_ts e)"
  shows "\<exists>d' e'. write_nac_modts bl True e d = Inr d' \<and> read_nac_modts bl True d' = Inr e' \<and>
           en_name e' = Some n \<and> en_comment e' = Some n"
  by (rule long_name_comment [OF assms])

theorem long_name_loses_comment_witness:
  "\<exists>d' e'. write_nac_modts 128 True \<lparr>en_comment_block_id = 0, en_name = Some ''a'',
        en_comment = Some ''important'', en_mod_ts = None\<rparr> (create_data 128) = Inr d' \<and>
     read_nac_modts 128 True d' = Inr e' \<and> en_comment e' = Some ''a''"
  using long_name_loses_comment [of 128 "create_data 128" "\<lparr>en_comment_block_id = 0, en_name = Some ''a'',
        en_comment = Some ''important'', en_mod_ts = None\<rparr>" "''a''"]
  by (simp add: blk_ok_create plain_name_def nfkc_char_def ts_ok_def)
     blast

end
