(* ===== verification/Rdb_Blocks.thy ===== *)
theory Rdb_Blocks
  imports Fs_Blocks
begin

unbundle bit_operations_syntax

text \<open>
  The blocks of a rigid disk (\<open>amitools/fs/block/rdb\<close>): the drive description \<open>RDBlock\<close>, the
  partitions, the file system headers, the \<open>LoadSegBlock\<close> chain that carries a file system's
  code, and the bad block list. Their checksum is long word 2. Sequences of \<open>_put_long\<close> and
  \<open>_get_long\<close> calls on consecutive positions are \<open>put_longs\<close> and \<open>get_longs\<close>.
\<close>

definition RDSK :: int where "RDSK = 0x5244534B"
definition BADB :: int where "BADB = 0x42414442"
definition PART :: int where "PART = 0x50415254"
definition FSHD :: int where "FSHD = 0x46534844"
definition LSEG :: int where "LSEG = 0x4C534547"
definition no_blk :: int where "no_blk = 0xFFFFFFFF"

subsection \<open>RDBlock\<close>

record phys_drive =
  pd_cyls :: int
  pd_heads :: int
  pd_secs :: int
  pd_interleave :: int
  pd_parking_zone :: int
  pd_write_pre_comp :: int
  pd_reduced_write :: int
  pd_step_rate :: int

definition phys_drive_init :: "int \<Rightarrow> int \<Rightarrow> int \<Rightarrow> int \<Rightarrow> int \<Rightarrow> int \<Rightarrow> int \<Rightarrow> int \<Rightarrow> phys_drive" where
  "phys_drive_init cyls heads secs interleave parking_zone write_pre_comp reduced_write step_rate =
     \<lparr>pd_cyls = cyls, pd_heads = heads, pd_secs = secs, pd_interleave = interleave,
      pd_parking_zone = (if parking_zone = -1 then cyls else parking_zone),
      pd_write_pre_comp = (if write_pre_comp = -1 then cyls else write_pre_comp),
      pd_reduced_write = (if reduced_write = -1 then cyls else reduced_write), pd_step_rate = step_rate\<rparr>"

definition phys_drive_read :: "int \<Rightarrow> byte list \<Rightarrow> phys_drive res" where
  "phys_drive_read bl d =
     rbind (get_longs bl 16 1 5 d) (\<lambda>v. rbind (get_longs bl 24 1 3 d) (\<lambda>w. Inr
       \<lparr>pd_cyls = v ! 0, pd_heads = v ! 2, pd_secs = v ! 1, pd_interleave = v ! 3, pd_parking_zone = v ! 4,
        pd_write_pre_comp = w ! 0, pd_reduced_write = w ! 1, pd_step_rate = w ! 2\<rparr>))"

definition phys_drive_write :: "int \<Rightarrow> phys_drive \<Rightarrow> byte list \<Rightarrow> byte list res" where
  "phys_drive_write bl p d =
     rbind (put_longs bl 16 1 [pd_cyls p, pd_secs p, pd_heads p, pd_interleave p, pd_parking_zone p] d)
       (put_longs bl 24 1 [pd_write_pre_comp p, pd_reduced_write p, pd_step_rate p])"

record log_drive =
  ld_rdb_blk_lo :: int
  ld_rdb_blk_hi :: int
  ld_lo_cyl :: int
  ld_hi_cyl :: int
  ld_cyl_blks :: int
  ld_high_rdsk_blk :: int
  ld_auto_park_secs :: int

definition log_drive_read :: "int \<Rightarrow> byte list \<Rightarrow> log_drive res" where
  "log_drive_read bl d = rbind (get_longs bl 32 1 7 d) (\<lambda>v. Inr
     \<lparr>ld_rdb_blk_lo = v ! 0, ld_rdb_blk_hi = v ! 1, ld_lo_cyl = v ! 2, ld_hi_cyl = v ! 3,
      ld_cyl_blks = v ! 4, ld_high_rdsk_blk = v ! 6, ld_auto_park_secs = v ! 5\<rparr>)"

definition log_drive_write :: "int \<Rightarrow> log_drive \<Rightarrow> byte list \<Rightarrow> byte list res" where
  "log_drive_write bl l = put_longs bl 32 1
     [ld_rdb_blk_lo l, ld_rdb_blk_hi l, ld_lo_cyl l, ld_hi_cyl l, ld_cyl_blks l, ld_auto_park_secs l,
      ld_high_rdsk_blk l]"

record drive_id =
  id_disk_vendor :: string
  id_disk_product :: string
  id_disk_revision :: string
  id_ctrl_vendor :: string
  id_ctrl_product :: string
  id_ctrl_revision :: string

definition drive_id_read :: "byte list \<Rightarrow> drive_id res" where
  "drive_id_read d =
     rbind (get_cstr 40 8 d) (\<lambda>dv. rbind (get_cstr 42 16 d) (\<lambda>dp. rbind (get_cstr 46 4 d) (\<lambda>dr.
     rbind (get_cstr 47 8 d) (\<lambda>cv. rbind (get_cstr 49 16 d) (\<lambda>cp. rbind (get_cstr 53 4 d) (\<lambda>cr.
     Inr \<lparr>id_disk_vendor = dv, id_disk_product = dp, id_disk_revision = dr,
          id_ctrl_vendor = cv, id_ctrl_product = cp, id_ctrl_revision = cr\<rparr>))))))"

definition drive_id_write :: "drive_id \<Rightarrow> byte list \<Rightarrow> byte list res" where
  "drive_id_write i d =
     rbind (put_cstr 40 8 (Some (id_disk_vendor i)) d) (\<lambda>d.
     rbind (put_cstr 42 16 (Some (id_disk_product i)) d) (\<lambda>d.
     rbind (put_cstr 46 4 (Some (id_disk_revision i)) d) (\<lambda>d.
     rbind (put_cstr 47 8 (Some (id_ctrl_vendor i)) d) (\<lambda>d.
     rbind (put_cstr 49 16 (Some (id_ctrl_product i)) d) (\<lambda>d.
     put_cstr 53 4 (Some (id_ctrl_revision i)) d)))))"

record rd_block =
  rd_size :: int
  rd_host_id :: int
  rd_block_size :: int
  rd_flags :: int
  rd_badblk_list :: int
  rd_part_list :: int
  rd_fs_list :: int
  rd_init_code :: int
  rd_phy_drv :: phys_drive
  rd_log_drv :: log_drive
  rd_drv_id :: drive_id

definition rd_create :: "phys_drive \<Rightarrow> log_drive \<Rightarrow> drive_id \<Rightarrow> int \<Rightarrow> int \<Rightarrow> int \<Rightarrow> rd_block" where
  "rd_create phy log drv host_id block_size flags =
     \<lparr>rd_size = 64, rd_host_id = host_id, rd_block_size = block_size, rd_flags = flags,
      rd_badblk_list = no_blk, rd_part_list = no_blk, rd_fs_list = no_blk, rd_init_code = no_blk,
      rd_phy_drv = phy, rd_log_drv = log, rd_drv_id = drv\<rparr>"

definition rd_write :: "int \<Rightarrow> rd_block \<Rightarrow> byte list res" where
  "rd_write bl b =
     rbind (put_longs bl 1 1 [rd_size b] (create_data bl)) (\<lambda>d.
     rbind (put_longs bl 3 1 [rd_host_id b, rd_block_size b, rd_flags b, rd_badblk_list b, rd_part_list b,
        rd_fs_list b, rd_init_code b] d) (\<lambda>d.
     rbind (phys_drive_write bl (rd_phy_drv b) d) (\<lambda>d.
     rbind (log_drive_write bl (rd_log_drv b) d) (\<lambda>d.
     rbind (drive_id_write (rd_drv_id b) d) (\<lambda>d.
     block_write bl RDSK 0 2 d)))))"

definition rd_read :: "int \<Rightarrow> byte list \<Rightarrow> rd_block option res" where
  "rd_read bl d =
     rbind (block_read bl RDSK 0 2 d) (\<lambda>h.
     if \<not> bh_valid h then Inr None else
     rbind (get_longs bl 1 1 1 d) (\<lambda>s.
     rbind (get_longs bl 3 1 7 d) (\<lambda>v.
     rbind (phys_drive_read bl d) (\<lambda>phy.
     rbind (log_drive_read bl d) (\<lambda>log.
     rbind (drive_id_read d) (\<lambda>drv.
     Inr (Some \<lparr>rd_size = s ! 0, rd_host_id = v ! 0, rd_block_size = v ! 1, rd_flags = v ! 2,
       rd_badblk_list = v ! 3, rd_part_list = v ! 4, rd_fs_list = v ! 5, rd_init_code = v ! 6,
       rd_phy_drv = phy, rd_log_drv = log, rd_drv_id = drv\<rparr>)))))))"

subsection \<open>PartitionBlock\<close>

record dos_env =
  de_size :: int
  de_block_size :: int
  de_sec_org :: int
  de_surfaces :: int
  de_sec_per_blk :: int
  de_blk_per_trk :: int
  de_reserved :: int
  de_pre_alloc :: int
  de_interleave :: int
  de_low_cyl :: int
  de_high_cyl :: int
  de_num_buffer :: int
  de_buf_mem_type :: int
  de_max_transfer :: int
  de_mask :: int
  de_boot_pri :: int
  de_dos_type :: int
  de_baud :: int
  de_control :: int
  de_boot_blocks :: int

definition dos_env_init :: dos_env where
  "dos_env_init = \<lparr>de_size = 0, de_block_size = 128, de_sec_org = 0, de_surfaces = 0, de_sec_per_blk = 1,
     de_blk_per_trk = 0, de_reserved = 2, de_pre_alloc = 0, de_interleave = 0, de_low_cyl = 0,
     de_high_cyl = 0, de_num_buffer = 30, de_buf_mem_type = 0, de_max_transfer = 0xFFFFFF,
     de_mask = 0x7FFFFFFE, de_boot_pri = 0, de_dos_type = 0x444F5300, de_baud = 0, de_control = 0,
     de_boot_blocks = 0\<rparr>"

definition dos_env_update_size :: "dos_env \<Rightarrow> dos_env" where
  "dos_env_update_size e =
     (if de_boot_blocks e \<noteq> 0 \<or> de_control e \<noteq> 0 \<or> de_baud e \<noteq> 0 then e\<lparr>de_size := 19\<rparr>
      else e\<lparr>de_size := 16\<rparr>)"

definition dos_env_longs :: "dos_env \<Rightarrow> int list" where
  "dos_env_longs e = [de_size e, de_block_size e, de_sec_org e, de_surfaces e, de_sec_per_blk e,
     de_blk_per_trk e, de_reserved e, de_pre_alloc e, de_interleave e, de_low_cyl e, de_high_cyl e,
     de_num_buffer e, de_buf_mem_type e, de_max_transfer e, de_mask e]"

definition dos_env_write :: "int \<Rightarrow> dos_env \<Rightarrow> byte list \<Rightarrow> byte list res" where
  "dos_env_write bl e d =
     (if de_size e = 0 then Inl AssertionError else
      rbind (put_longs bl 32 1 (dos_env_longs e) d) (\<lambda>d.
      rbind (put_slong bl 47 (de_boot_pri e) d)
        (put_longs bl 48 1 [de_dos_type e, de_baud e, de_control e, de_boot_blocks e])))"

definition dos_env_read :: "int \<Rightarrow> byte list \<Rightarrow> dos_env res" where
  "dos_env_read bl d =
     rbind (get_longs bl 32 1 15 d) (\<lambda>v.
     rbind (get_slong bl 47 d) (\<lambda>pri.
     rbind (get_longs bl 48 1 4 d) (\<lambda>w. Inr
       \<lparr>de_size = v ! 0, de_block_size = v ! 1, de_sec_org = v ! 2, de_surfaces = v ! 3,
        de_sec_per_blk = v ! 4, de_blk_per_trk = v ! 5, de_reserved = v ! 6, de_pre_alloc = v ! 7,
        de_interleave = v ! 8, de_low_cyl = v ! 9, de_high_cyl = v ! 10, de_num_buffer = v ! 11,
        de_buf_mem_type = v ! 12, de_max_transfer = v ! 13, de_mask = v ! 14, de_boot_pri = pri,
        de_dos_type = w ! 0, de_baud = w ! 1, de_control = w ! 2, de_boot_blocks = w ! 3\<rparr>)))"

record part_block =
  pb_size :: int
  pb_host_id :: int
  pb_next :: int
  pb_flags :: int
  pb_dev_flags :: int
  pb_drv_name :: "string option"
  pb_dos_env :: dos_env

definition part_create :: "string \<Rightarrow> dos_env option \<Rightarrow> int \<Rightarrow> int \<Rightarrow> int \<Rightarrow> int \<Rightarrow> part_block" where
  "part_create drv_name env host_id nxt flags dev_flags =
     \<lparr>pb_size = 64, pb_host_id = host_id, pb_next = nxt, pb_flags = flags, pb_dev_flags = dev_flags,
      pb_drv_name = Some drv_name,
      pb_dos_env = dos_env_update_size (case env of None \<Rightarrow> dos_env_init | Some e \<Rightarrow> e)\<rparr>"

definition part_write :: "int \<Rightarrow> part_block \<Rightarrow> byte list res" where
  "part_write bl b =
     rbind (put_longs bl 1 1 [pb_size b] (create_data bl)) (\<lambda>d.
     rbind (put_longs bl 3 1 [pb_host_id b, pb_next b, pb_flags b] d) (\<lambda>d.
     rbind (put_longs bl 8 1 [pb_dev_flags b] d) (\<lambda>d.
     rbind (put_bstr bl 9 31 (pb_drv_name b) d) (\<lambda>d.
     rbind (dos_env_write bl (pb_dos_env b) d) (\<lambda>d.
     block_write bl PART 0 2 d)))))"

definition part_read :: "int \<Rightarrow> byte list \<Rightarrow> part_block option res" where
  "part_read bl d =
     rbind (block_read bl PART 0 2 d) (\<lambda>h.
     if \<not> bh_valid h then Inr None else
     rbind (get_longs bl 1 1 1 d) (\<lambda>s.
     rbind (get_longs bl 3 1 3 d) (\<lambda>v.
     rbind (get_longs bl 8 1 1 d) (\<lambda>w.
     rbind (get_bstr bl 9 31 d) (\<lambda>name.
     rbind (dos_env_read bl d) (\<lambda>env.
     Inr (Some \<lparr>pb_size = s ! 0, pb_host_id = v ! 0, pb_next = v ! 1, pb_flags = v ! 2,
       pb_dev_flags = w ! 0, pb_drv_name = name, pb_dos_env = env\<rparr>)))))))"

subsection \<open>FSHeaderBlock\<close>

record dev_node =
  dn_type :: int
  dn_task :: int
  dn_lock :: int
  dn_handler :: int
  dn_stack_size :: int
  dn_priority :: int
  dn_startup :: int
  dn_seg_list_blk :: int
  dn_global_vec :: int

definition dev_node_init :: dev_node where
  "dev_node_init = \<lparr>dn_type = 0, dn_task = 0, dn_lock = 0, dn_handler = 0, dn_stack_size = 0,
     dn_priority = 0, dn_startup = 0, dn_seg_list_blk = 0, dn_global_vec = 0\<rparr>"

definition dev_node_fields :: "dev_node \<Rightarrow> (string \<times> int) list" where
  "dev_node_fields n = [(''type'', dn_type n), (''task'', dn_task n), (''lock'', dn_lock n),
     (''handler'', dn_handler n), (''stack_size'', dn_stack_size n), (''priority'', dn_priority n),
     (''startup'', dn_startup n), (''seg_list_blk'', dn_seg_list_blk n), (''global_vec'', dn_global_vec n)]"

text \<open>\<open>get_flags\<close>: the fields whose bit is set in the patch flags, bit \<open>k\<close> for the \<open>k\<close>th.\<close>

definition get_flags :: "int \<Rightarrow> dev_node \<Rightarrow> (string \<times> int) list" where
  "get_flags patch_flags n =
     [f. (k, f) \<leftarrow> enumerate 0 (dev_node_fields n), patch_flags AND 2 ^ k = 2 ^ k]"

definition set_flag :: "string \<Rightarrow> int \<Rightarrow> dev_node \<Rightarrow> (dev_node \<times> int) res" where
  "set_flag key v n =
     (if key = ''type'' then Inr (n\<lparr>dn_type := v\<rparr>, 0x01)
      else if key = ''task'' then Inr (n\<lparr>dn_task := v\<rparr>, 0x02)
      else if key = ''lock'' then Inr (n\<lparr>dn_lock := v\<rparr>, 0x04)
      else if key = ''handler'' then Inr (n\<lparr>dn_handler := v\<rparr>, 0x08)
      else if key = ''stack_size'' then Inr (n\<lparr>dn_stack_size := v\<rparr>, 0x10)
      else if key = ''priority'' then Inr (n\<lparr>dn_priority := v\<rparr>, 0x20)
      else if key = ''startup'' then Inr (n\<lparr>dn_startup := v\<rparr>, 0x40)
      else if key = ''seg_list_blk'' then Inr (n\<lparr>dn_seg_list_blk := v\<rparr>, 0x80)
      else if key = ''global_vec'' then Inr (n\<lparr>dn_global_vec := v\<rparr>, 0x100)
      else Inl ValueError)"

fun set_flags :: "(string \<times> int) list \<Rightarrow> dev_node \<Rightarrow> int \<Rightarrow> dev_node \<times> int res" where
  "set_flags [] n msk = (n, Inr msk)"
| "set_flags ((key, v) # fs) n msk = (case set_flag key v n of
      Inl e \<Rightarrow> (n, Inl e)
    | Inr (n', b) \<Rightarrow> set_flags fs n' (msk OR b))"

text \<open>\<open>clear_flags\<close> of the device node assigns an attribute \<open>ftype\<close> nobody reads, so the type
  stays.\<close>

definition dev_node_clear :: "dev_node \<Rightarrow> dev_node" where
  "dev_node_clear n = n\<lparr>dn_task := 0, dn_lock := 0, dn_handler := 0, dn_stack_size := 0,
     dn_priority := 0, dn_startup := 0\<rparr>"

definition dev_node_longs :: "dev_node \<Rightarrow> int list" where
  "dev_node_longs n = [dn_type n, dn_task n, dn_lock n, dn_handler n, dn_stack_size n, dn_priority n,
     dn_startup n, dn_seg_list_blk n, dn_global_vec n]"

definition dev_node_write :: "int \<Rightarrow> dev_node \<Rightarrow> byte list \<Rightarrow> byte list res" where
  "dev_node_write bl n = put_longs bl 11 1 (dev_node_longs n)"

definition dev_node_read :: "int \<Rightarrow> byte list \<Rightarrow> dev_node res" where
  "dev_node_read bl d = rbind (get_longs bl 11 1 9 d) (\<lambda>v. Inr
     \<lparr>dn_type = v ! 0, dn_task = v ! 1, dn_lock = v ! 2, dn_handler = v ! 3, dn_stack_size = v ! 4,
      dn_priority = v ! 5, dn_startup = v ! 6, dn_seg_list_blk = v ! 7, dn_global_vec = v ! 8\<rparr>)"

record fshd_block =
  fb_size :: int
  fb_host_id :: int
  fb_next :: int
  fb_flags :: int
  fb_dos_type :: int
  fb_version :: int
  fb_patch_flags :: int
  fb_dev_node :: dev_node

definition fshd_create :: "int \<Rightarrow> int \<Rightarrow> int \<Rightarrow> int \<Rightarrow> int \<Rightarrow> int \<Rightarrow> dev_node option \<Rightarrow> fshd_block" where
  "fshd_create host_id nxt flags dos_type version patch_flags node =
     \<lparr>fb_size = 64, fb_host_id = host_id, fb_next = nxt, fb_flags = flags, fb_dos_type = dos_type,
      fb_version = version, fb_patch_flags = patch_flags,
      fb_dev_node = (case node of None \<Rightarrow> dev_node_init | Some n \<Rightarrow> n)\<rparr>"

definition fshd_write :: "int \<Rightarrow> fshd_block \<Rightarrow> byte list res" where
  "fshd_write bl b =
     rbind (put_longs bl 1 1 [fb_size b] (create_data bl)) (\<lambda>d.
     rbind (put_longs bl 3 1 [fb_host_id b, fb_next b, fb_flags b] d) (\<lambda>d.
     rbind (put_longs bl 8 1 [fb_dos_type b, fb_version b, fb_patch_flags b] d) (\<lambda>d.
     rbind (dev_node_write bl (fb_dev_node b) d) (\<lambda>d.
     block_write bl FSHD 0 2 d))))"

definition fshd_read :: "int \<Rightarrow> byte list \<Rightarrow> fshd_block option res" where
  "fshd_read bl d =
     rbind (block_read bl FSHD 0 2 d) (\<lambda>h.
     if \<not> bh_valid h then Inr None else
     rbind (get_longs bl 1 1 1 d) (\<lambda>s.
     rbind (get_longs bl 3 1 3 d) (\<lambda>v.
     rbind (get_longs bl 8 1 3 d) (\<lambda>w.
     rbind (dev_node_read bl d) (\<lambda>n.
     Inr (Some \<lparr>fb_size = s ! 0, fb_host_id = v ! 0, fb_next = v ! 1, fb_flags = v ! 2,
       fb_dos_type = w ! 0, fb_version = w ! 1, fb_patch_flags = w ! 2, fb_dev_node = n\<rparr>))))))"

definition version_tuple :: "fshd_block \<Rightarrow> int \<times> int" where
  "version_tuple b = (drop_bit 16 (fb_version b), fb_version b AND 0xFFFF)"

definition fshd_set_flags :: "(string \<times> int) list \<Rightarrow> fshd_block \<Rightarrow> fshd_block \<times> unit res" where
  "fshd_set_flags fs b = (case set_flags fs (fb_dev_node b) 0 of
      (n, Inl e) \<Rightarrow> (b\<lparr>fb_dev_node := n\<rparr>, Inl e)
    | (n, Inr m) \<Rightarrow> (b\<lparr>fb_dev_node := n, fb_patch_flags := fb_patch_flags b OR m\<rparr>, Inr ()))"

definition fshd_clear_flags :: "fshd_block \<Rightarrow> fshd_block" where
  "fshd_clear_flags b = b\<lparr>fb_patch_flags := 0x180, fb_dev_node := dev_node_clear (fb_dev_node b)\<rparr>"

subsection \<open>LoadSegBlock and BadBlockBlock\<close>

record lseg_block =
  lb_size :: int
  lb_host_id :: int
  lb_next :: int
  lb_data :: "byte list option"

definition lseg_create :: "int \<Rightarrow> int \<Rightarrow> int \<Rightarrow> lseg_block" where
  "lseg_create host_id nxt sz = \<lparr>lb_size = sz, lb_host_id = host_id, lb_next = nxt, lb_data = None\<rparr>"

definition lseg_set_data :: "int \<Rightarrow> byte list \<Rightarrow> lseg_block \<Rightarrow> lseg_block" where
  "lseg_set_data bl data b =
     (let d = (case lb_data b of None \<Rightarrow> create_data bl | Some d \<Rightarrow> d)
      in b\<lparr>lb_data := Some (py_slice_set d 20 (20 + int (length data)) data),
           lb_size := (20 + int (length data)) div 4\<rparr>)"

definition lseg_get_data :: "lseg_block \<Rightarrow> byte list res" where
  "lseg_get_data b = (case lb_data b of None \<Rightarrow> Inl TypeError
     | Some d \<Rightarrow> Inr (py_slice d 20 (20 + (lb_size b - 5) * 4)))"

definition lseg_write :: "int \<Rightarrow> lseg_block \<Rightarrow> byte list res" where
  "lseg_write bl b =
     rbind (put_longs bl 1 1 [lb_size b] (case lb_data b of None \<Rightarrow> create_data bl | Some d \<Rightarrow> d)) (\<lambda>d.
     rbind (put_longs bl 3 1 [lb_host_id b, lb_next b] d) (\<lambda>d.
     block_write bl LSEG 0 2 d))"

definition lseg_read :: "int \<Rightarrow> byte list \<Rightarrow> lseg_block option res" where
  "lseg_read bl d =
     rbind (block_read bl LSEG 0 2 d) (\<lambda>h.
     if \<not> bh_valid h then Inr None else
     rbind (get_longs bl 1 1 1 d) (\<lambda>s.
     rbind (get_longs bl 3 1 2 d) (\<lambda>v.
     Inr (Some \<lparr>lb_size = s ! 0, lb_host_id = v ! 0, lb_next = v ! 1, lb_data = Some d\<rparr>))))"

record badb_block =
  bb_size :: int
  bb_host_id :: int
  bb_next :: int
  bb_pairs :: "int list"

definition badb_write :: "int \<Rightarrow> badb_block \<Rightarrow> byte list res" where
  "badb_write bl b =
     rbind (put_longs bl 1 1 [bb_size b] (create_data bl)) (\<lambda>d.
     rbind (put_longs bl 3 1 [bb_host_id b, bb_next b] d) (\<lambda>d.
     rbind (put_longs bl 6 1 (bb_pairs b) d) (\<lambda>d.
     block_write bl BADB 0 2 d)))"

text \<open>The loop that reads the pairs never advances its position.\<close>

partial_function (option) badb_pairs :: "int \<Rightarrow> int \<Rightarrow> byte list \<Rightarrow> int list \<Rightarrow> int list res option" where
  "badb_pairs bl off d acc =
     (if off < bl then
        (case get_long bl off d of
           Inl e \<Rightarrow> Some (Inl e)
         | Inr b \<Rightarrow> if b = 0 \<or> b = 0xFFFFFFFF then Some (Inr acc) else badb_pairs bl off d (acc @ [b]))
      else Some (Inr acc))"

definition badb_read :: "int \<Rightarrow> byte list \<Rightarrow> badb_block option res option" where
  "badb_read bl d = (case block_read bl BADB 0 2 d of
      Inl e \<Rightarrow> Some (Inl e)
    | Inr h \<Rightarrow> if \<not> bh_valid h then Some (Inr None) else
        (case rbind (get_longs bl 1 1 1 d) (\<lambda>s. rbind (get_longs bl 3 1 2 d) (\<lambda>v. Inr (s @ v))) of
           Inl e \<Rightarrow> Some (Inl e)
         | Inr v \<Rightarrow> (case badb_pairs bl 6 d [] of
              None \<Rightarrow> None
            | Some (Inl e) \<Rightarrow> Some (Inl e)
            | Some (Inr ps) \<Rightarrow> Some (Inr (Some \<lparr>bb_size = v ! 0, bb_host_id = v ! 1, bb_next = v ! 2, bb_pairs = ps\<rparr>)))))"

subsection \<open>Tables and C strings as areas\<close>

lemma put_longs_at [blk_simps]:
  "blk_ok bl d \<Longrightarrow> 0 \<le> n \<Longrightarrow> n + int (length vs) \<le> bl \<Longrightarrow> longs_ok vs \<Longrightarrow>
     put_longs bl n 1 vs d = Inr (bput (4 * n) (longs_bytes vs) d)"
  by (rule put_longs_up) (auto simp: longs_ok_def)

lemma get_longs_at:
  assumes "holds L d" and "blk_ok bl d" and "(4 * n, longs_bytes vs) \<in> set L" and "longs_ok vs"
    and "0 \<le> n" and "n + int (length vs) \<le> bl" and "k = length vs"
  shows "get_longs bl n 1 k d = Inr vs"
  by (rule get_longs_held [OF assms(2,1,3,4)]) (use assms in auto)

definition s32_ok :: "int \<Rightarrow> bool" where
  "s32_ok v \<longleftrightarrow> - (2 ^ 31) \<le> v \<and> v < 2 ^ 31"

lemma put_slong_at [blk_simps]:
  "blk_ok bl d \<Longrightarrow> 0 \<le> n \<Longrightarrow> n < bl \<Longrightarrow> s32_ok v \<Longrightarrow>
     put_slong bl n v d = Inr (bput (4 * n) (be_bytes 4 v) d)"
  by (simp add: put_slong_def pack_s_def s32_ok_def pack_into_def buf_offset_in blk_ok_def bput_def mult.commute)

lemma get_slong_at:
  assumes "holds L d" and "blk_ok bl d" and "(4 * n, be_bytes 4 v) \<in> set L" and "s32_ok v" and "0 \<le> n" and "n < bl"
  shows "get_slong bl n d = Inr v"
proof -
  have "bget (4 * n) 4 d = be_bytes 4 v" using assms(1,3) by (force simp: holds_def)
  with assms show ?thesis
    by (simp add: get_slong_def unpack_from_def buf_offset_in blk_ok_def bget_def mult.commute
        be_sint_be_bytes s32_ok_def)
qed

definition cstr_ok :: "nat \<Rightarrow> string \<Rightarrow> bool" where
  "cstr_ok n s \<longleftrightarrow> plain_name s \<and> length s \<le> n \<and> CHR 0x00 \<notin> set s"

definition cstr_pad :: "nat \<Rightarrow> string \<Rightarrow> byte list" where
  "cstr_pad n s = latin1_enc s @ replicate (n - length s) 0"

lemma length_cstr_pad [simp]: "length s \<le> n \<Longrightarrow> length (cstr_pad n s) = n"
  by (simp add: cstr_pad_def)

lemma put_cstr_at:
  assumes d: "blk_ok bl d" and p: "0 \<le> loc" "4 * loc + int n \<le> 4 * bl" and s: "cstr_ok n s"
    and z: "bget (4 * loc) (int n) d = replicate n 0"
  shows "put_cstr loc n (Some s) d = Inr (bput (4 * loc) (cstr_pad n s) d)"
proof -
  have ok: "plain_name s" "length s \<le> n" using s by (simp_all add: cstr_ok_def)
  let ?k = "length s"
  have ar: "area (4 * loc) (int n) d" using blk_area [OF d, of "4 * loc" "int n"] p by simp
  have "replicate n 0 = replicate ?k 0 @ replicate (n - ?k) (0 :: byte)"
    using ok(2) by (metis le_add_diff_inverse replicate_add)
  with z ok(2) have "bget (4 * loc) (int ?k + int (n - ?k)) d = replicate ?k 0 @ replicate (n - ?k) 0"
    by simp
  from bget_split(2) [OF this] p(1) have r: "bget (4 * loc + int ?k) (int (n - ?k)) d = replicate (n - ?k) 0"
    by simp
  have self: "bput q (bget q m d) d = d" if "area q m d" for q m
    using that by (auto simp: bput_def bget_def area_def min_def nat_add_distrib)
      (metis append_take_drop_id add.commute drop_drop)
  have "bput (4 * loc + int ?k) (replicate (n - ?k) 0) d = d"
    using self [of "4 * loc + int ?k" "int (n - ?k)"] r ar ok(2) by (simp add: area_def)
  moreover have "bput (4 * loc) (latin1_enc s) (bput (4 * loc + int ?k) (replicate (n - ?k) 0) d) =
      bput (4 * loc) (cstr_pad n s) d"
    unfolding cstr_pad_def using ar ok(2) by (intro bput_before) (auto simp: area_def)
  moreover have "put_cstr loc n (Some s) d = Inr (bput (4 * loc) (latin1_enc s) d)"
  proof (cases "s = []")
    case True
    then show ?thesis using ar ok(1) p(1)
      by (simp add: put_cstr_def get_ami_str_plain latin1_enc_def area_def)
  next
    case False
    then have "0 < n" "latin1_enc s \<noteq> []" using ok(2) by (cases s; simp add: latin1_enc_def)+
    then show ?thesis using ar ok p(1) False
      by (simp add: put_cstr_def get_ami_str_plain min_absorb2 Let_def mult.commute py_slice_set_in area_def
          bput_def nat_add_distrib)
  qed
  ultimately show ?thesis by simp
qed

lemma cstr_len_ok:
  assumes "\<And>i. m \<le> i \<Longrightarrow> i < m + k \<Longrightarrow> py_get d (p + int i) = Inr (if i < l then f i else 0)"
    and "\<And>i. i < l \<Longrightarrow> f i \<noteq> 0" and "m \<le> l" and "l \<le> m + k"
  shows "cstr_len d p k m = Inr l"
  using assms(1,3,4)
proof (induction k arbitrary: m)
  case (Suc k)
  have c: "py_get d (p + int m) = Inr (if m < l then f m else 0)" using Suc.prems(1) [of m] by simp
  show ?case
  proof (cases "m < l")
    case True
    have "cstr_len d p k (Suc m) = Inr l" using Suc.prems True by (intro Suc.IH) auto
    with c True assms(2) show ?thesis by simp
  next
    case False
    with c Suc.prems show ?thesis by simp
  qed
qed simp

lemma get_cstr_at:
  assumes h: "holds L d" and d: "blk_ok bl d" and m: "(4 * loc, cstr_pad n s) \<in> set L" and s: "cstr_ok n s"
    and p: "0 \<le> loc" "4 * loc + int n \<le> 4 * bl"
  shows "get_cstr loc n d = Inr s"
proof -
  have ok: "length s \<le> n" using s by (simp add: cstr_ok_def)
  obtain q where q: "4 * loc = int q" using p(1) by (metis nonneg_int_cases mult_nonneg_nonneg zero_le_numeral)
  have b: "take n (drop q d) = cstr_pad n s" using h m ok by (force simp: holds_def bget_def q)
  have len: "q + n \<le> length d" using d p q by (simp add: blk_ok_def)
  have nz: "latin1_enc s ! i \<noteq> 0" if "i < length s" for i
  proof -
    have "latin1_enc s ! i \<in> set (latin1_enc s)" using that by simp
    then show ?thesis using latin1_enc_no_zero [of s] s unfolding cstr_ok_def by metis
  qed
  have g: "py_get d (int q + int i) = Inr (if i < length s then latin1_enc s ! i else 0)" if "i < n" for i
  proof -
    have "d ! (q + i) = take n (drop q d) ! i" using that len by simp
    also have "\<dots> = (if i < length s then latin1_enc s ! i else 0)"
      unfolding b cstr_pad_def using that by (simp add: nth_append)
    finally show ?thesis using that len by (simp add: py_get_in nat_add_distrib)
  qed
  have "cstr_len d (int q) n 0 = Inr (length s)" using g nz ok by (intro cstr_len_ok) auto
  moreover have "py_slice d (int q) (int q + int (length s)) = latin1_enc s"
  proof -
    have "take (length s) (take n (drop q d)) = latin1_enc s" unfolding b cstr_pad_def by simp
    then show ?thesis using len ok by (simp add: py_slice_in nat_add_distrib min_def split: if_splits)
  qed
  moreover have "loc * 4 = int q" using q by simp
  ultimately show ?thesis by (simp add: get_cstr_def)
qed

subsection \<open>Round trips\<close>

lemma area_create [simp]: "area p n (create_data bl) \<longleftrightarrow> 0 \<le> p \<and> 0 \<le> n \<and> p + n \<le> int (nat (4 * bl))"
  by (simp add: area_def create_data_def mult.commute)

lemma bget_create [simp]: "0 \<le> p \<Longrightarrow> 0 \<le> n \<Longrightarrow> p + n \<le> 4 * bl \<Longrightarrow> bget p n (create_data bl) = replicate (nat n) 0"
  by (simp add: bget_def create_data_def mult.commute min_def nat_le_iff)

lemma rdb_types: "u32_ok RDSK" "RDSK \<noteq> 0" "u32_ok BADB" "BADB \<noteq> 0" "u32_ok PART" "PART \<noteq> 0"
  "u32_ok FSHD" "FSHD \<noteq> 0" "u32_ok LSEG" "LSEG \<noteq> 0" "u32_ok 0"
  by (simp_all add: u32_ok_def RDSK_def BADB_def PART_def FSHD_def LSEG_def)

lemma longs_ok_simps [simp]: "longs_ok []" "longs_ok (v # vs) \<longleftrightarrow> u32_ok v \<and> longs_ok vs"
  by (auto simp: longs_ok_def)

text \<open>What a written block with the areas \<open>L\<close> gives to its reader.\<close>

lemma rdb_written:
  assumes w: "W = block_write bl t 0 2 (put_areas L (create_data bl))" and bl: "4 \<le> bl"
    and t: "u32_ok t" "t \<noteq> 0" and L: "\<And>c. areas_ok (L @ type_areas 2 bl t 0 c) (4 * bl)"
  obtains d h where "W = Inr d" "blk_ok bl d" "block_read bl t 0 2 d = Inr h" "bh_valid h" "holds L d"
  using block_written [OF w _ t _ L] bl rdb_types(11) by (auto simp: holds_def)

definition phys_longs :: "phys_drive \<Rightarrow> int list" where
  "phys_longs p = [pd_cyls p, pd_secs p, pd_heads p, pd_interleave p, pd_parking_zone p,
     pd_write_pre_comp p, pd_reduced_write p, pd_step_rate p]"

definition log_longs :: "log_drive \<Rightarrow> int list" where
  "log_longs l = [ld_rdb_blk_lo l, ld_rdb_blk_hi l, ld_lo_cyl l, ld_hi_cyl l, ld_cyl_blks l,
     ld_auto_park_secs l, ld_high_rdsk_blk l]"

definition drive_id_ok :: "drive_id \<Rightarrow> bool" where
  "drive_id_ok i \<longleftrightarrow> cstr_ok 8 (id_disk_vendor i) \<and> cstr_ok 16 (id_disk_product i) \<and>
     cstr_ok 4 (id_disk_revision i) \<and> cstr_ok 8 (id_ctrl_vendor i) \<and> cstr_ok 16 (id_ctrl_product i) \<and>
     cstr_ok 4 (id_ctrl_revision i)"

definition rd_heads :: "rd_block \<Rightarrow> int list" where
  "rd_heads b = [rd_host_id b, rd_block_size b, rd_flags b, rd_badblk_list b, rd_part_list b, rd_fs_list b,
     rd_init_code b]"

definition rd_ok :: "int \<Rightarrow> rd_block \<Rightarrow> bool" where
  "rd_ok bl b \<longleftrightarrow> 64 \<le> bl \<and> u32_ok (rd_size b) \<and> longs_ok (rd_heads b) \<and>
     longs_ok (phys_longs (rd_phy_drv b)) \<and> longs_ok (log_longs (rd_log_drv b)) \<and> drive_id_ok (rd_drv_id b)"

definition rd_areas :: "rd_block \<Rightarrow> (int \<times> byte list) list" where
  "rd_areas b = (let i = rd_drv_id b; p = phys_longs (rd_phy_drv b) in
     [(4 * 1, longs_bytes [rd_size b]), (4 * 3, longs_bytes (rd_heads b)),
      (4 * 16, longs_bytes (take 5 p)), (4 * 24, longs_bytes (drop 5 p)),
      (4 * 32, longs_bytes (log_longs (rd_log_drv b))),
      (4 * 40, cstr_pad 8 (id_disk_vendor i)), (4 * 42, cstr_pad 16 (id_disk_product i)),
      (4 * 46, cstr_pad 4 (id_disk_revision i)), (4 * 47, cstr_pad 8 (id_ctrl_vendor i)),
      (4 * 49, cstr_pad 16 (id_ctrl_product i)), (4 * 53, cstr_pad 4 (id_ctrl_revision i))])"

lemma drive_id_lengths:
  "drive_id_ok i \<Longrightarrow> length (id_disk_vendor i) \<le> 8 \<and> length (id_disk_product i) \<le> 16 \<and>
     length (id_disk_revision i) \<le> 4 \<and> length (id_ctrl_vendor i) \<le> 8 \<and> length (id_ctrl_product i) \<le> 16 \<and>
     length (id_ctrl_revision i) \<le> 4"
  by (simp add: drive_id_ok_def cstr_ok_def)

lemma rd_write_areas:
  assumes "rd_ok bl b"
  shows "rd_write bl b = block_write bl RDSK 0 2 (put_areas (rd_areas b) (create_data bl))"
proof -
  have i: "cstr_ok 8 (id_disk_vendor (rd_drv_id b))" "cstr_ok 16 (id_disk_product (rd_drv_id b))"
     "cstr_ok 4 (id_disk_revision (rd_drv_id b))" "cstr_ok 8 (id_ctrl_vendor (rd_drv_id b))"
     "cstr_ok 16 (id_ctrl_product (rd_drv_id b))" "cstr_ok 4 (id_ctrl_revision (rd_drv_id b))"
    and bl: "64 \<le> bl"
    using assms by (simp_all add: rd_ok_def drive_id_ok_def)
  note len = drive_id_lengths [of "rd_drv_id b"]
  show ?thesis
    using assms len i bl
    by (simp add: rd_write_def rd_areas_def rd_ok_def phys_drive_write_def log_drive_write_def drive_id_write_def
        Let_def phys_longs_def log_longs_def rd_heads_def put_cstr_at [of bl] bget_bput_other blk_simps del: longs_bytes_simps put_longs.simps)
qed

lemma rd_areas_ok:
  assumes "rd_ok bl b"
  shows "areas_ok (rd_areas b @ type_areas 2 bl RDSK 0 c) (4 * bl)"
  using assms drive_id_lengths [of "rd_drv_id b"] unfolding rd_ok_def
  by (simp add: areas_ok_def rd_areas_def type_areas_def disj_area_def Let_def phys_longs_def log_longs_def rd_heads_def)

lemma rd_roundtrip:
  assumes ok: "rd_ok bl b"
  shows "\<exists>d. rd_write bl b = Inr d \<and> rd_read bl d = Inr (Some b)"
proof -
  have bl: "64 \<le> bl" and i: "cstr_ok 8 (id_disk_vendor (rd_drv_id b))" "cstr_ok 16 (id_disk_product (rd_drv_id b))"
     "cstr_ok 4 (id_disk_revision (rd_drv_id b))" "cstr_ok 8 (id_ctrl_vendor (rd_drv_id b))"
     "cstr_ok 16 (id_ctrl_product (rd_drv_id b))" "cstr_ok 4 (id_ctrl_revision (rd_drv_id b))"
    and l: "longs_ok [rd_size b]" "longs_ok (rd_heads b)" "longs_ok (take 5 (phys_longs (rd_phy_drv b)))"
      "longs_ok (drop 5 (phys_longs (rd_phy_drv b)))" "longs_ok (log_longs (rd_log_drv b))"
    using ok by (simp_all add: rd_ok_def drive_id_ok_def phys_longs_def)
  obtain d h where d: "rd_write bl b = Inr d" "blk_ok bl d" "block_read bl RDSK 0 2 d = Inr h" "bh_valid h"
      "holds (rd_areas b) d"
    using rdb_written [OF rd_write_areas [OF ok] _ rdb_types(1,2) rd_areas_ok [OF ok]] bl by auto
  note L = rd_areas_def [of b] and G = get_longs_at [OF d(5,2)] and C = get_cstr_at [OF d(5,2)]
  have g: "get_longs bl 1 1 1 d = Inr [rd_size b]" "get_longs bl 3 1 7 d = Inr (rd_heads b)"
    "get_longs bl 16 1 5 d = Inr (take 5 (phys_longs (rd_phy_drv b)))"
    "get_longs bl 24 1 3 d = Inr (drop 5 (phys_longs (rd_phy_drv b)))"
    "get_longs bl 32 1 7 d = Inr (log_longs (rd_log_drv b))"
    by (rule G; use l bl in \<open>simp add: L Let_def rd_heads_def phys_longs_def log_longs_def\<close>)+
  have c: "get_cstr 40 8 d = Inr (id_disk_vendor (rd_drv_id b))" "get_cstr 42 16 d = Inr (id_disk_product (rd_drv_id b))"
    "get_cstr 46 4 d = Inr (id_disk_revision (rd_drv_id b))" "get_cstr 47 8 d = Inr (id_ctrl_vendor (rd_drv_id b))"
    "get_cstr 49 16 d = Inr (id_ctrl_product (rd_drv_id b))" "get_cstr 53 4 d = Inr (id_ctrl_revision (rd_drv_id b))"
    by (rule C; use i bl in \<open>simp add: L Let_def\<close>)+
  have "rd_read bl d = Inr (Some b)"
    using d(3,4) by (simp add: rd_read_def phys_drive_read_def log_drive_read_def drive_id_read_def g c
        rd_heads_def phys_longs_def log_longs_def del: get_longs.simps One_nat_def)
  with d show ?thesis by blast
qed

subsubsection \<open>Partitions\<close>

definition part_ok :: "int \<Rightarrow> part_block \<Rightarrow> bool" where
  "part_ok bl b \<longleftrightarrow> 64 \<le> bl \<and> longs_ok [pb_size b, pb_host_id b, pb_next b, pb_flags b, pb_dev_flags b] \<and>
     name_ok 31 (pb_drv_name b) \<and> longs_ok (dos_env_longs (pb_dos_env b)) \<and> de_size (pb_dos_env b) \<noteq> 0 \<and>
     s32_ok (de_boot_pri (pb_dos_env b)) \<and>
     longs_ok [de_dos_type (pb_dos_env b), de_baud (pb_dos_env b), de_control (pb_dos_env b), de_boot_blocks (pb_dos_env b)]"

definition part_areas :: "part_block \<Rightarrow> (int \<times> byte list) list" where
  "part_areas b = (let e = pb_dos_env b in
     [(4 * 1, longs_bytes [pb_size b]), (4 * 3, longs_bytes [pb_host_id b, pb_next b, pb_flags b]),
      (4 * 8, longs_bytes [pb_dev_flags b]), (4 * 9, bstr_bytes (name_get (pb_drv_name b))),
      (4 * 32, longs_bytes (dos_env_longs e)), (4 * 47, be_bytes 4 (de_boot_pri e)),
      (4 * 48, longs_bytes [de_dos_type e, de_baud e, de_control e, de_boot_blocks e])])"

lemma length_dos_env_longs [simp]: "length (dos_env_longs e) = 15"
  by (simp add: dos_env_longs_def)

lemma part_name_length: "name_ok 31 s \<Longrightarrow> length (name_get s) \<le> 31"
  using name_okD [of 31 s] by simp

lemma part_write_areas:
  assumes "part_ok bl b"
  shows "part_write bl b = block_write bl PART 0 2 (put_areas (part_areas b) (create_data bl))"
  using assms part_name_length [of "pb_drv_name b"]
  by (simp add: part_write_def part_areas_def part_ok_def dos_env_write_def Let_def put_bstr_pos blk_simps
      del: longs_bytes_simps put_longs.simps)

lemma part_areas_ok:
  assumes "part_ok bl b"
  shows "areas_ok (part_areas b @ type_areas 2 bl PART 0 c) (4 * bl)"
  using assms part_name_length [of "pb_drv_name b"] unfolding part_ok_def
  by (simp add: areas_ok_def part_areas_def type_areas_def disj_area_def Let_def)

lemma part_roundtrip:
  assumes ok: "part_ok bl b"
  shows "\<exists>d. part_write bl b = Inr d \<and> part_read bl d = Inr (Some (b\<lparr>pb_drv_name := Some (name_get (pb_drv_name b))\<rparr>))"
proof -
  let ?e = "pb_dos_env b"
  have r: "64 \<le> bl" "longs_ok [pb_size b]" "longs_ok [pb_host_id b, pb_next b, pb_flags b]" "longs_ok [pb_dev_flags b]"
    "name_ok 31 (pb_drv_name b)" "longs_ok (dos_env_longs ?e)" "s32_ok (de_boot_pri ?e)"
    "longs_ok [de_dos_type ?e, de_baud ?e, de_control ?e, de_boot_blocks ?e]"
    using ok by (simp_all add: part_ok_def)
  obtain d h where d: "part_write bl b = Inr d" "blk_ok bl d" "block_read bl PART 0 2 d = Inr h" "bh_valid h"
      "holds (part_areas b) d"
    using rdb_written [OF part_write_areas [OF ok] _ rdb_types(5,6) part_areas_ok [OF ok]] r(1) by auto
  note L = part_areas_def [of b] and G = get_longs_at [OF d(5,2)]
  have g: "get_longs bl 1 1 1 d = Inr [pb_size b]" "get_longs bl 3 1 3 d = Inr [pb_host_id b, pb_next b, pb_flags b]"
    "get_longs bl 8 1 1 d = Inr [pb_dev_flags b]" "get_longs bl 32 1 15 d = Inr (dos_env_longs ?e)"
    "get_longs bl 48 1 4 d = Inr [de_dos_type ?e, de_baud ?e, de_control ?e, de_boot_blocks ?e]"
    by (rule G; use r in \<open>simp add: L Let_def\<close>)+
  have p: "get_slong bl 47 d = Inr (de_boot_pri ?e)"
    by (rule get_slong_at [OF d(5,2)]) (use r in \<open>simp_all add: L Let_def\<close>)
  have "bget 36 (int (length (bstr_bytes (name_get (pb_drv_name b))))) d = bstr_bytes (name_get (pb_drv_name b))"
    using d(5) by (auto simp: holds_def L Let_def)
  then have n: "get_bstr bl 9 31 d = Inr (Some (name_get (pb_drv_name b)))"
    using d(2) r by (intro get_bstr_pos [where k = 9]) auto
  have "part_read bl d = Inr (Some (b\<lparr>pb_drv_name := Some (name_get (pb_drv_name b))\<rparr>))"
    using d(3,4) by (simp add: part_read_def dos_env_read_def g p n dos_env_longs_def del: get_longs.simps One_nat_def)
  with d show ?thesis by blast
qed

subsubsection \<open>File system headers\<close>

lemma length_dev_node_longs [simp]: "length (dev_node_longs n) = 9"
  by (simp add: dev_node_longs_def)

definition fshd_ok :: "int \<Rightarrow> fshd_block \<Rightarrow> bool" where
  "fshd_ok bl b \<longleftrightarrow> 64 \<le> bl \<and> longs_ok [fb_size b, fb_host_id b, fb_next b, fb_flags b, fb_dos_type b,
     fb_version b, fb_patch_flags b] \<and> longs_ok (dev_node_longs (fb_dev_node b))"

definition fshd_areas :: "fshd_block \<Rightarrow> (int \<times> byte list) list" where
  "fshd_areas b =
     [(4 * 1, longs_bytes [fb_size b]), (4 * 3, longs_bytes [fb_host_id b, fb_next b, fb_flags b]),
      (4 * 8, longs_bytes [fb_dos_type b, fb_version b, fb_patch_flags b]),
      (4 * 11, longs_bytes (dev_node_longs (fb_dev_node b)))]"

lemma fshd_roundtrip:
  assumes ok: "fshd_ok bl b"
  shows "\<exists>d. fshd_write bl b = Inr d \<and> fshd_read bl d = Inr (Some b)"
proof -
  have r: "64 \<le> bl" "longs_ok [fb_size b]" "longs_ok [fb_host_id b, fb_next b, fb_flags b]"
    "longs_ok [fb_dos_type b, fb_version b, fb_patch_flags b]" "longs_ok (dev_node_longs (fb_dev_node b))"
    using ok by (simp_all add: fshd_ok_def)
  have w: "fshd_write bl b = block_write bl FSHD 0 2 (put_areas (fshd_areas b) (create_data bl))"
    using r by (simp add: fshd_write_def fshd_areas_def dev_node_write_def blk_simps del: longs_bytes_simps put_longs.simps)
  have ao: "areas_ok (fshd_areas b @ type_areas 2 bl FSHD 0 c) (4 * bl)" for c
    using r(1) by (simp add: areas_ok_def fshd_areas_def type_areas_def disj_area_def)
  obtain d h where d: "fshd_write bl b = Inr d" "blk_ok bl d" "block_read bl FSHD 0 2 d = Inr h" "bh_valid h"
      "holds (fshd_areas b) d"
    using rdb_written [OF w _ rdb_types(7,8) ao] r(1) by auto
  note L = fshd_areas_def [of b] and G = get_longs_at [OF d(5,2)]
  have g: "get_longs bl 1 1 1 d = Inr [fb_size b]" "get_longs bl 3 1 3 d = Inr [fb_host_id b, fb_next b, fb_flags b]"
    "get_longs bl 8 1 3 d = Inr [fb_dos_type b, fb_version b, fb_patch_flags b]"
    "get_longs bl 11 1 9 d = Inr (dev_node_longs (fb_dev_node b))"
    by (rule G; use r in \<open>simp add: L\<close>)+
  have "fshd_read bl d = Inr (Some b)"
    using d(3,4) by (simp add: fshd_read_def dev_node_read_def g dev_node_longs_def del: get_longs.simps One_nat_def)
  with d show ?thesis by blast
qed

text \<open>The flags a caller sets are the ones reported afterwards.\<close>

lemma bit_pow2: "x AND 2 ^ k = (2 :: int) ^ k \<longleftrightarrow> bit x k"
proof -
  have "x AND 2 ^ k = (if bit x k then 2 ^ k else 0)" by (rule and_pow2)
  then show ?thesis by simp
qed

lemma get_flags_mono: "f \<in> set (get_flags m n) \<Longrightarrow> f \<in> set (get_flags (m OR m') n)"
  by (auto simp: get_flags_def bit_pow2 bit_or_iff)

lemma set_flag_get: "set_flag key v n = Inr (n', b) \<Longrightarrow> (key, v) \<in> set (get_flags b n')"
  by (auto simp: set_flag_def get_flags_def dev_node_fields_def split: if_splits)

lemma fshd_set_flag_get:
  "set_flag key v (fb_dev_node b) = Inr (n', m) \<Longrightarrow>
     \<exists>b'. fshd_set_flags [(key, v)] b = (b', Inr ()) \<and> (key, v) \<in> set (get_flags (fb_patch_flags b') (fb_dev_node b'))"
  using get_flags_mono [OF set_flag_get [of key v "fb_dev_node b" n' m], of "fb_patch_flags b"]
  by (simp add: fshd_set_flags_def or.commute)

subsubsection \<open>LoadSeg and bad blocks\<close>

lemma lseg_roundtrip:
  assumes bl: "8 \<le> bl" "bl < 2 ^ 30" and n: "4 dvd length data" "20 + int (length data) \<le> 4 * bl"
    and u: "u32_ok host" "u32_ok nxt"
  shows "\<exists>d b. lseg_write bl (lseg_set_data bl data (lseg_create host nxt 128)) = Inr d \<and>
     lseg_read bl d = Inr (Some b) \<and> lb_next b = nxt \<and> lb_host_id b = host \<and> lseg_get_data b = Inr data"
proof -
  define sz where "sz = (20 + int (length data)) div 4"
  have sz: "sz * 4 = 20 + int (length data)" "u32_ok sz" using n bl
    by (auto simp: sz_def u32_ok_def dvd_div_mult_self elim!: dvdE)
  define L :: "(int \<times> byte list) list" where "L = [(20, data), (4 * 1, longs_bytes [sz]), (4 * 3, longs_bytes [host, nxt])]"
  have s0: "py_slice_set (create_data bl) 20 (20 + int (length data)) data = bput 20 data (create_data bl)"
    using bl n by (simp add: py_slice_set_in create_data_def bput_def nat_add_distrib mult.commute)
  have r: "longs_ok [sz]" "longs_ok [host, nxt]" using u sz by simp_all
  have w: "lseg_write bl (lseg_set_data bl data (lseg_create host nxt 128)) = block_write bl LSEG 0 2 (put_areas L (create_data bl))"
    using r bl n by (simp add: lseg_write_def lseg_set_data_def lseg_create_def s0 L_def blk_simps sz_def [symmetric]
        del: longs_bytes_simps put_longs.simps)
  have ao: "areas_ok (L @ type_areas 2 bl LSEG 0 c) (4 * bl)" for c
    using bl n by (simp add: areas_ok_def L_def type_areas_def disj_area_def)
  obtain d h where d: "lseg_write bl (lseg_set_data bl data (lseg_create host nxt 128)) = Inr d" "blk_ok bl d"
      "block_read bl LSEG 0 2 d = Inr h" "bh_valid h" "holds L d"
    using rdb_written [OF w _ rdb_types(9,10) ao] bl by auto
  note G = get_longs_at [OF d(5,2)]
  have g: "get_longs bl 1 1 1 d = Inr [sz]" "get_longs bl 3 1 2 d = Inr [host, nxt]"
    by (rule G; use r bl in \<open>simp add: L_def\<close>)+
  have "bget 20 (int (length data)) d = data" using d(5) by (auto simp: holds_def L_def)
  then have "py_slice d 20 (20 + (sz - 5) * 4) = data"
    using d(2) n sz(1) by (simp add: py_slice_in bget_def blk_ok_def algebra_simps)
  moreover have "lseg_read bl d = Inr (Some \<lparr>lb_size = sz, lb_host_id = host, lb_next = nxt, lb_data = Some d\<rparr>)"
    using d(3,4) by (simp add: lseg_read_def g del: get_longs.simps One_nat_def)
  ultimately show ?thesis using d(1) by (auto simp: lseg_get_data_def)
qed

lemma badb_pairs_returns:
  "badb_pairs bl off d acc = Some r \<Longrightarrow> off < bl \<longrightarrow> (\<forall>b. get_long bl off d = Inr b \<longrightarrow> b = 0 \<or> b = 0xFFFFFFFF)"
  by (erule badb_pairs.raw_induct [rotated, where P = "\<lambda>bl off d acc r. off < bl \<longrightarrow>
      (\<forall>b. get_long bl off d = Inr b \<longrightarrow> b = 0 \<or> b = 0xFFFFFFFF)"]) (fastforce split: if_splits)

lemma badb_pairs_hang:
  "off < bl \<Longrightarrow> get_long bl off d = Inr b \<Longrightarrow> b \<noteq> 0 \<Longrightarrow> b \<noteq> 0xFFFFFFFF \<Longrightarrow> badb_pairs bl off d acc = None"
  using badb_pairs_returns [of bl off d acc] by (cases "badb_pairs bl off d acc") auto

text \<open>The position where the first pair would be is zero in a new block.\<close>

lemma put_zeros: "area p (int n) (create_data bl) \<Longrightarrow> bput p (replicate n 0) (create_data bl) = create_data bl"
  by (rule nth_equalityI) (auto simp: area_def bput_def create_data_def nth_append min_def split: if_splits)

lemma badb_pairs_ends: "off < bl \<Longrightarrow> get_long bl off d = Inr b \<Longrightarrow> b = 0 \<or> b = 0xFFFFFFFF \<Longrightarrow> badb_pairs bl off d acc = Some (Inr acc)"
  by (subst badb_pairs.simps) auto

lemma badb_read_first:
  assumes bl: "8 \<le> bl" and u: "longs_ok [bb_size b, bb_host_id b, bb_next b]" "longs_ok (bb_pairs b)"
    and n: "6 + int (length (bb_pairs b)) \<le> bl"
  defines "x \<equiv> (case bb_pairs b of [] \<Rightarrow> 0 | x # _ \<Rightarrow> x)"
  shows "\<exists>d. badb_write bl b = Inr d \<and>
    badb_read bl d = (if x = 0 \<or> x = 0xFFFFFFFF then Some (Inr (Some (b\<lparr>bb_pairs := []\<rparr>))) else None)"
proof -
  define ps where "ps = (if bb_pairs b = [] then [0] else bb_pairs b)"
  define B :: "(int \<times> byte list) list" where "B = [(4 * 1, longs_bytes [bb_size b]), (4 * 3, longs_bytes [bb_host_id b, bb_next b])]"
  define L where "L = (if bb_pairs b = [] then (4 * 6, longs_bytes ps) # B else B @ [(4 * 6, longs_bytes ps)])"
  have r: "longs_ok [bb_size b]" "longs_ok [bb_host_id b, bb_next b]" "longs_ok ps" using u by (simp_all add: ps_def u32_ok_def)
  have lp: "6 + int (length ps) \<le> bl" "ps \<noteq> []" "hd ps = x" using n bl by (auto simp: ps_def x_def split: list.splits)
  have w: "badb_write bl b = block_write bl BADB 0 2 (put_areas L (create_data bl))"
  proof (cases "bb_pairs b = []")
    case False
    then show ?thesis
      using r bl lp by (simp add: badb_write_def L_def B_def ps_def blk_simps del: longs_bytes_simps put_longs.simps)
  next
    case True
    have "longs_bytes [0] = replicate 4 0" by (simp add: numeral_eq_Suc)
    then have z: "bput (4 * 6) (longs_bytes ps) (create_data bl) = create_data bl"
      using put_zeros [of "4 * 6" 4 bl] bl True by (simp add: ps_def area_def create_data_def)
    have "badb_write bl b = block_write bl BADB 0 2 (put_areas B (create_data bl))"
      using r bl True by (simp add: badb_write_def B_def blk_simps del: longs_bytes_simps put_longs.simps(2))
    also have "put_areas B (create_data bl) = put_areas L (create_data bl)" using True z by (simp add: L_def)
    finally show ?thesis .
  qed
  have ao: "areas_ok (L @ type_areas 2 bl BADB 0 c) (4 * bl)" for c
    using bl lp by (simp add: areas_ok_def L_def B_def type_areas_def disj_area_def)
  obtain d h where d: "badb_write bl b = Inr d" "blk_ok bl d"
      "block_read bl BADB 0 2 d = Inr h" "bh_valid h" "holds L d"
    using rdb_written [OF w _ rdb_types(3,4) ao] bl by auto
  note G = get_longs_at [OF d(5,2)]
  have g: "get_longs bl 1 1 1 d = Inr [bb_size b]" "get_longs bl 3 1 2 d = Inr [bb_host_id b, bb_next b]"
    "get_longs bl 6 1 (length ps) d = Inr ps"
    by (rule G; use r u bl lp in \<open>simp add: L_def B_def\<close>)+
  have "get_long bl 6 d = Inr x" using g(3) lp(2,3) by (cases ps) (auto simp: rbind_Inr_iff)
  then have "badb_pairs bl 6 d [] = (if x = 0 \<or> x = 0xFFFFFFFF then Some (Inr []) else None)"
    using bl badb_pairs_hang [of 6 bl d x] badb_pairs_ends [of 6 bl d x] by auto
  then show ?thesis
    using d(1,3,4) by (auto simp: badb_read_def g(1,2) simp del: get_longs.simps One_nat_def)
qed

subsection \<open>Properties\<close>

text \<open>C29: the drive description with its geometry and drive names, a partition with its DOS
  environment, and a file system header are read back exactly as they were written (a missing
  drive name reads as the empty one), and so is the code carried by a \<open>LoadSegBlock\<close> when its
  length is a multiple of four.\<close>

theorem rdb_blocks_roundtrip:
  assumes "rd_ok bl r" and "part_ok bl p" and "fshd_ok bl f"
    and "bl < 2 ^ 30" and "4 dvd length code" and "20 + int (length code) \<le> 4 * bl" and "u32_ok host" and "u32_ok nxt"
  shows "(\<exists>d. rd_write bl r = Inr d \<and> rd_read bl d = Inr (Some r)) \<and>
    (\<exists>d. part_write bl p = Inr d \<and>
       part_read bl d = Inr (Some (p\<lparr>pb_drv_name := Some (name_get (pb_drv_name p))\<rparr>))) \<and>
    (\<exists>d. fshd_write bl f = Inr d \<and> fshd_read bl d = Inr (Some f)) \<and>
    (\<exists>d b. lseg_write bl (lseg_set_data bl code (lseg_create host nxt 128)) = Inr d \<and>
       lseg_read bl d = Inr (Some b) \<and> lb_next b = nxt \<and> lseg_get_data b = Inr code)"
proof -
  have "8 \<le> bl" using assms(1) by (simp add: rd_ok_def)
  from lseg_roundtrip [OF this assms(4-8)] show ?thesis
    using rd_roundtrip [OF assms(1)] part_roundtrip [OF assms(2)] fshd_roundtrip [OF assms(3)] by blast
qed

definition demo_rd :: rd_block where
  "demo_rd = rd_create (phys_drive_init 80 2 11 1 (-1) (-1) (-1) 3)
     \<lparr>ld_rdb_blk_lo = 0, ld_rdb_blk_hi = 21, ld_lo_cyl = 1, ld_hi_cyl = 79, ld_cyl_blks = 22,
      ld_high_rdsk_blk = 4, ld_auto_park_secs = 0\<rparr>
     \<lparr>id_disk_vendor = ''RDBTOOL'', id_disk_product = ''IMAGE'', id_disk_revision = ''2012'',
      id_ctrl_vendor = '''', id_ctrl_product = '''', id_ctrl_revision = ''''\<rparr> 7 512 0x17"

theorem rdb_blocks_roundtrip_witness:
  "\<exists>d. rd_write 128 demo_rd = Inr d \<and> rd_read 128 d = Inr (Some demo_rd)"
proof -
  have r: "rd_ok 128 demo_rd"
    by (simp add: rd_ok_def demo_rd_def rd_create_def phys_drive_init_def rd_heads_def phys_longs_def log_longs_def
        u32_ok_def no_blk_def drive_id_ok_def cstr_ok_def plain_name_def nfkc_char_def)
  have p: "part_ok 128 (part_create ''DH0'' None 7 no_blk 0 0)"
    by (simp add: part_ok_def part_create_def dos_env_init_def dos_env_update_size_def dos_env_longs_def
        u32_ok_def s32_ok_def no_blk_def name_ok_def plain_name_def nfkc_char_def)
  have f: "fshd_ok 128 (fshd_create 0 no_blk 0 0x444F5301 0 0 None)"
    by (simp add: fshd_ok_def fshd_create_def dev_node_init_def dev_node_longs_def u32_ok_def no_blk_def)
  have "length ([1, 2, 3, 4] :: byte list) = 4" by simp
  then have "4 dvd length ([1, 2, 3, 4] :: byte list)" by (simp only: dvd_refl)
  from rdb_blocks_roundtrip [OF r p f _ this, of 7 0] show ?thesis by (simp add: u32_ok_def)
qed

text \<open>C30: reading back a bad block list that was written: when its first pair starts with a block number other than 0 and
  \<open>0xFFFFFFFF\<close>, which both end a list, \<open>read\<close> never returns, because the loop over the pairs does not advance; otherwise,
  in particular for an empty list, it returns with no pairs.\<close>

theorem bad_block_list_hangs:
  assumes "8 \<le> bl" and "longs_ok [bb_size b, bb_host_id b, bb_next b]" and "longs_ok (bb_pairs b)"
    and "6 + int (length (bb_pairs b)) \<le> bl"
  shows "\<exists>d. badb_write bl b = Inr d \<and>
    (if bb_pairs b = [] \<or> hd (bb_pairs b) \<in> {0, 0xFFFFFFFF} then badb_read bl d = Some (Inr (Some (b\<lparr>bb_pairs := []\<rparr>)))
     else badb_read bl d = None)"
  using badb_read_first [OF assms] by (cases "bb_pairs b") auto

theorem bad_block_list_hangs_witness:
  "(\<exists>d. badb_write 128 \<lparr>bb_size = 128, bb_host_id = 7, bb_next = 0, bb_pairs = [17, 900]\<rparr> = Inr d \<and> badb_read 128 d = None) \<and>
   (\<exists>d. badb_write 128 \<lparr>bb_size = 128, bb_host_id = 7, bb_next = 0, bb_pairs = []\<rparr> = Inr d \<and>
      badb_read 128 d = Some (Inr (Some \<lparr>bb_size = 128, bb_host_id = 7, bb_next = 0, bb_pairs = []\<rparr>)))"
  using bad_block_list_hangs [of 128 "\<lparr>bb_size = 128, bb_host_id = 7, bb_next = 0, bb_pairs = [17, 900]\<rparr>"]
    bad_block_list_hangs [of 128 "\<lparr>bb_size = 128, bb_host_id = 7, bb_next = 0, bb_pairs = []\<rparr>"]
  by (simp add: u32_ok_def)

end
