(* ===== verification/Blk_Dev.thy ===== *)
theory Blk_Dev
  imports Rdb_Blocks
begin

text \<open>
  Block devices (\<open>amitools/fs/blkdev\<close>): the geometry every device keeps, the floppy image held in
  memory (\<open>ADFBlockDevice\<close>), the image file (\<open>ImageFile\<close>, \<open>RawBlockDevice\<close>, \<open>HDFBlockDevice\<close>), the
  partition of a hard disk image (\<open>PartBlockDevice\<close>) and the guessing of a disk geometry
  (\<open>DiskGeometry\<close>).

  A Python file object is its bytes and its position.
\<close>

subsection \<open>BlockDevice\<close>

record blk_geo =
  bg_cyls :: int
  bg_heads :: int
  bg_sectors :: int
  bg_block_bytes :: int
  bg_reserved :: int
  bg_bootblocks :: int
  bg_num_tracks :: int
  bg_num_blocks :: int
  bg_num_bytes :: int
  bg_block_longs :: int
  bg_num_longs :: int

definition set_geometry :: "int \<Rightarrow> int \<Rightarrow> int \<Rightarrow> int \<Rightarrow> int \<Rightarrow> int \<Rightarrow> blk_geo" where
  "set_geometry cyls heads sectors block_bytes reserved bootblocks =
     (let num_tracks = cyls * heads; num_blocks = num_tracks * sectors; block_longs = block_bytes div 4
      in \<lparr>bg_cyls = cyls, bg_heads = heads, bg_sectors = sectors, bg_block_bytes = block_bytes,
          bg_reserved = reserved, bg_bootblocks = bootblocks, bg_num_tracks = num_tracks,
          bg_num_blocks = num_blocks, bg_num_bytes = num_blocks * block_bytes,
          bg_block_longs = block_longs, bg_num_longs = num_blocks * block_longs\<rparr>)"

definition blk_to_offset :: "blk_geo \<Rightarrow> int \<Rightarrow> int" where
  "blk_to_offset g blk_num = bg_block_bytes g * blk_num"

subsection \<open>ADFBlockDevice\<close>

record adf_dev =
  ad_geo :: blk_geo
  ad_data :: "byte list"
  ad_read_only :: bool
  ad_dirty :: bool
  ad_hd :: bool

definition adf_create :: "bool \<Rightarrow> bool \<Rightarrow> adf_dev res" where
  "adf_create read_only is_hd =
     (if read_only then Inl OSError
      else let g = set_geometry 80 2 (if is_hd then 22 else 11) 512 2 2
           in Inr \<lparr>ad_geo = g, ad_data = replicate (nat (bg_num_bytes g)) 0, ad_read_only = read_only,
                   ad_dirty = True, ad_hd = is_hd\<rparr>)"

text \<open>\<open>contents\<close> is what reading the image file at most to the size of the geometry yields.\<close>

definition adf_open :: "bool \<Rightarrow> bool \<Rightarrow> byte list \<Rightarrow> adf_dev res" where
  "adf_open read_only is_hd contents =
     (let g = set_geometry 80 2 (if is_hd then 22 else 11) 512 2 2; data = take (nat (bg_num_bytes g)) contents
      in if int (length data) \<noteq> bg_num_bytes g then Inl OSError
         else Inr \<lparr>ad_geo = g, ad_data = data, ad_read_only = read_only, ad_dirty = False, ad_hd = is_hd\<rparr>)"

text \<open>\<open>flush\<close> returns the bytes written to the file, if it writes.\<close>

definition adf_flush :: "adf_dev \<Rightarrow> adf_dev \<times> byte list option" where
  "adf_flush a = (if ad_dirty a \<and> \<not> ad_read_only a then (a\<lparr>ad_dirty := False\<rparr>, Some (ad_data a)) else (a, None))"

definition adf_read_block :: "adf_dev \<Rightarrow> int \<Rightarrow> byte list res" where
  "adf_read_block a blk_num =
     (if blk_num \<ge> bg_num_blocks (ad_geo a) then Inl ValueError
      else let off = blk_to_offset (ad_geo a) blk_num
           in Inr (py_slice (ad_data a) off (off + bg_block_bytes (ad_geo a))))"

definition adf_write_block :: "adf_dev \<Rightarrow> int \<Rightarrow> byte list \<Rightarrow> adf_dev res" where
  "adf_write_block a blk_num data =
     (if ad_read_only a then Inl OSError
      else if blk_num \<ge> bg_num_blocks (ad_geo a) then Inl ValueError
      else if int (length data) \<noteq> bg_block_bytes (ad_geo a) then Inl ValueError
      else let off = blk_to_offset (ad_geo a) blk_num
           in Inr (a\<lparr>ad_data := py_slice_set (ad_data a) off (off + bg_block_bytes (ad_geo a)) data,
                     ad_dirty := True\<rparr>))"

subsection \<open>ImageFile\<close>

record img_file =
  im_read_only :: bool
  im_block_bytes :: int
  im_num_blocks :: int
  im_data :: "byte list"
  im_pos :: int

definition img_create :: "bool \<Rightarrow> int \<Rightarrow> int \<Rightarrow> img_file res" where
  "img_create read_only block_bytes num_blocks =
     (if read_only then Inl OSError
      else Inr \<lparr>im_read_only = read_only, im_block_bytes = block_bytes, im_num_blocks = 0,
                im_data = replicate (nat (num_blocks * block_bytes)) 0, im_pos = 0\<rparr>)"

definition img_open :: "img_file \<Rightarrow> img_file" where
  "img_open m = m\<lparr>im_num_blocks := int (length (im_data m)) div im_block_bytes m, im_pos := 0\<rparr>"

text \<open>\<open>truncate\<close> cuts the file or extends it with zero bytes.\<close>

definition img_resize :: "img_file \<Rightarrow> int \<Rightarrow> img_file res" where
  "img_resize m new_blocks =
     (if im_read_only m then Inl OSError
      else let n = nat (new_blocks * im_block_bytes m)
           in Inr (m\<lparr>im_data := take n (im_data m) @ replicate (n - length (im_data m)) 0, im_pos := 0\<rparr>))"

definition img_read_blk :: "img_file \<Rightarrow> int \<Rightarrow> int \<Rightarrow> img_file \<times> byte list res" where
  "img_read_blk m blk_num num_blks =
     (if blk_num \<ge> im_num_blocks m then (m, Inl OSError)
      else let off = blk_num * im_block_bytes m
           in if off < 0 then (m, Inl OSError)
              else let bs = take (nat (im_block_bytes m * num_blks)) (drop (nat off) (im_data m))
                   in (m\<lparr>im_pos := off + int (length bs)\<rparr>, Inr bs))"

text \<open>Writing at a position behind the end fills the gap with zero bytes.\<close>

definition file_put :: "byte list \<Rightarrow> nat \<Rightarrow> byte list \<Rightarrow> byte list" where
  "file_put d p bs = take p (d @ replicate (p - length d) 0) @ bs @ drop (p + length bs) d"

definition img_write_blk :: "img_file \<Rightarrow> int \<Rightarrow> byte list \<Rightarrow> int \<Rightarrow> img_file res" where
  "img_write_blk m blk_num data num_blks =
     (if im_read_only m then Inl OSError
      else if blk_num \<ge> im_num_blocks m then Inl OSError
      else if int (length data) \<noteq> im_block_bytes m * num_blks then Inl OSError
      else let off = blk_num * im_block_bytes m
           in if off < 0 then Inl OSError
              else Inr (m\<lparr>im_data := file_put (im_data m) (nat off) data, im_pos := off + int (length data)\<rparr>))"

subsection \<open>PartBlockDevice\<close>

record part_dev =
  pt_geo :: blk_geo
  pt_blk_off :: int
  pt_sec_per_blk :: int
  pt_raw :: img_file

definition part_open :: "img_file \<Rightarrow> dos_env \<Rightarrow> part_dev res" where
  "part_open raw e =
     (let cyls = de_high_cyl e - de_low_cyl e + 1; heads = de_surfaces e; secs = de_blk_per_trk e;
          spb = de_sec_per_blk e; boot = (if de_boot_blocks e = 0 then 2 else de_boot_blocks e)
      in if spb = 0 then Inl ZeroDivisionError
         else Inr \<lparr>pt_geo = set_geometry cyls heads (secs div spb) (de_block_size e * 4 * spb) (de_reserved e) boot,
                   pt_blk_off = heads * secs * de_low_cyl e, pt_sec_per_blk = spb, pt_raw = raw\<rparr>)"

definition part_read_block :: "part_dev \<Rightarrow> int \<Rightarrow> part_dev \<times> byte list res" where
  "part_read_block p blk_num =
     (if blk_num \<ge> bg_num_blocks (pt_geo p) then (p, Inl ValueError)
      else let n = pt_sec_per_blk p; off = pt_blk_off p + blk_num * n
           in case img_read_blk (pt_raw p) off n of (m, r) \<Rightarrow> (p\<lparr>pt_raw := m\<rparr>, r))"

definition part_write_block :: "part_dev \<Rightarrow> int \<Rightarrow> byte list \<Rightarrow> part_dev res" where
  "part_write_block p blk_num data =
     (if blk_num \<ge> bg_num_blocks (pt_geo p) then Inl ValueError
      else if int (length data) \<noteq> bg_block_bytes (pt_geo p) then Inl ValueError
      else let n = pt_sec_per_blk p; off = pt_blk_off p + blk_num * n
           in rbind (img_write_blk (pt_raw p) off data n) (\<lambda>m. Inr (p\<lparr>pt_raw := m\<rparr>)))"

subsection \<open>DiskGeometry\<close>

record disk_geo =
  dg_cyls :: int
  dg_heads :: int
  dg_secs :: int
  dg_block_bytes :: int

definition dg_num_blocks :: "disk_geo \<Rightarrow> int" where
  "dg_num_blocks g = dg_cyls g * dg_heads g * dg_secs g"

definition dg_num_bytes :: "disk_geo \<Rightarrow> int" where
  "dg_num_bytes g = dg_num_blocks g * dg_block_bytes g"

text \<open>The options, their numbers parsed: the list \<open>chs\<close>, or single ones, the block size, the
  algorithm and the size (given, or that of the file \<open>from\<close>).\<close>

record geo_opts =
  go_chs :: "int list option"
  go_s :: "int option"
  go_sectors :: "int option"
  go_h :: "int option"
  go_heads :: "int option"
  go_c :: "int option"
  go_cylinders :: "int option"
  go_bs :: "int option"
  go_algo :: "int option"
  go_size :: "int option"

definition update_block_size :: "geo_opts option \<Rightarrow> disk_geo \<Rightarrow> disk_geo res" where
  "update_block_size opts g = (case opts of None \<Rightarrow> Inr g | Some o' \<Rightarrow> (case go_bs o' of
      None \<Rightarrow> Inr g
    | Some bs \<Rightarrow> if bs mod 512 \<noteq> 0 \<or> bs < 512 then Inl ValueError else Inr (g\<lparr>dg_block_bytes := bs\<rparr>)))"

text \<open>A later option of the same meaning wins; an option of value 0 counts as not given where the
  code tests its truth.\<close>

definition or_else :: "int option \<Rightarrow> int option \<Rightarrow> int option" where
  "or_else a b = (case b of Some v \<Rightarrow> Some v | None \<Rightarrow> a)"

definition truthy :: "int option \<Rightarrow> bool" where
  "truthy v \<longleftrightarrow> v \<noteq> None \<and> v \<noteq> Some 0"

definition parse_chs :: "geo_opts \<Rightarrow> int option \<times> int option \<times> int option" where
  "parse_chs o' = (case go_chs o' of
      Some [c, h, s] \<Rightarrow> (Some c, Some h, Some s)
    | Some _ \<Rightarrow> (None, None, None)
    | None \<Rightarrow> (or_else (go_c o') (go_cylinders o'), or_else (go_h o') (go_heads o'), or_else (go_s o') (go_sectors o')))"

definition geo_if :: "bool \<Rightarrow> int \<Rightarrow> int \<Rightarrow> int \<Rightarrow> int \<Rightarrow> disk_geo \<Rightarrow> disk_geo \<times> int option" where
  "geo_if keep cyls heads secs geo_size g =
     (if keep then (g\<lparr>dg_cyls := cyls, dg_heads := heads, dg_secs := secs\<rparr>, Some geo_size) else (g, None))"

definition guess1 :: "int \<Rightarrow> bool \<Rightarrow> int option \<Rightarrow> int option \<Rightarrow> disk_geo \<Rightarrow> disk_geo \<times> int option" where
  "guess1 sz approx secs heads g =
     (let mb = sz div 1024;
          s = (if truthy secs then the secs else 63);
          h = (if truthy heads then the heads
               else if mb \<le> 504 * 1024 then 16 else if mb \<le> 1008 * 1024 then 32
               else if mb \<le> 2016 * 1024 then 64 else if mb \<le> 4032 * 1024 then 128 else 256);
          cyls = sz div dg_block_bytes g div (s * h);
          geo_size = cyls * s * h * dg_block_bytes g
      in geo_if (approx \<or> geo_size = sz) cyls h s geo_size g)"

function low_cyls :: "int \<Rightarrow> int \<Rightarrow> int \<times> int" where
  "low_cyls cyls heads = (if cyls > 65535 then low_cyls (cyls div 2) (heads * 2) else (cyls, heads))"
  by pat_completeness auto
termination by (relation "measure (\<lambda>(c, h). nat c)") auto

declare low_cyls.simps [simp del]

definition guess2 :: "int \<Rightarrow> bool \<Rightarrow> int option \<Rightarrow> int option \<Rightarrow> disk_geo \<Rightarrow> disk_geo \<times> int option" where
  "guess2 sz approx secs heads g =
     (let h0 = (if truthy heads then the heads else 1);
          s = (if truthy secs then the secs else 32)
      in case low_cyls (sz div dg_block_bytes g div (s * h0)) h0 of (cyls, h) \<Rightarrow>
           let geo_size = cyls * s * h * dg_block_bytes g
           in geo_if (approx \<or> geo_size = sz) cyls h s geo_size g)"

text \<open>Without a chosen algorithm both are tried, the geometry keeping what the last attempt left; the
  nearest one is run again.\<close>

definition guess :: "int \<Rightarrow> bool \<Rightarrow> int option \<Rightarrow> int option \<Rightarrow> int option \<Rightarrow> disk_geo \<Rightarrow> disk_geo \<times> int option" where
  "guess sz approx algo secs heads g =
     (if algo = Some 1 then guess1 sz approx secs heads g
      else if algo = Some 2 then guess2 sz approx secs heads g
      else (case guess1 sz True secs heads g of (g1, r1) \<Rightarrow>
        if approx then (case guess2 sz True secs heads g1 of (g2, r2) \<Rightarrow>
          let d1 = (if truthy r1 \<and> \<bar>sz - the r1\<bar> < sz then Some \<bar>sz - the r1\<bar> else None);
              m = (case d1 of None \<Rightarrow> sz | Some d \<Rightarrow> d);
              second = (truthy r2 \<and> \<bar>sz - the r2\<bar> < m)
          in if second then guess2 sz True secs heads g2
             else if d1 \<noteq> None then guess1 sz True secs heads g2
             else (g2, None))
        else if r1 = Some sz then (g1, Some sz)
        else (case guess2 sz True secs heads g1 of (g2, r2) \<Rightarrow> (g2, if r2 = Some sz then Some sz else None))))"

definition dg_detect :: "int \<Rightarrow> geo_opts option \<Rightarrow> disk_geo \<Rightarrow> (disk_geo \<times> int option) res" where
  "dg_detect byte_size opts g0 = rbind (update_block_size opts g0) (\<lambda>g.
     let (c, h, s) = (case opts of None \<Rightarrow> (None, None, None) | Some o' \<Rightarrow> parse_chs o');
         algo = (case opts of None \<Rightarrow> None | Some o' \<Rightarrow> go_algo o')
     in if truthy c \<and> truthy h \<and> truthy s
        then let g' = g\<lparr>dg_cyls := the c, dg_heads := the h, dg_secs := the s\<rparr>
             in Inr (g', if dg_num_bytes g' = byte_size then Some byte_size else None)
        else Inr (guess byte_size True algo s h g))"

definition dg_setup :: "geo_opts \<Rightarrow> int option \<Rightarrow> int option \<Rightarrow> int option \<Rightarrow> disk_geo \<Rightarrow> (disk_geo \<times> int option) res" where
  "dg_setup o' cyls heads sectors g0 =
     (case parse_chs o' of (c0, h0, s0) \<Rightarrow>
      let c = (if truthy c0 then c0 else cyls); h = (if truthy h0 then h0 else heads);
          s = (if truthy s0 then s0 else sectors)
      in rbind (update_block_size (Some o') g0) (\<lambda>g.
        if truthy c \<and> truthy h \<and> truthy s
        then let g' = g\<lparr>dg_cyls := the c, dg_heads := the h, dg_secs := the s\<rparr>
             in Inr (g', Some (dg_num_bytes g'))
        else (case go_size o' of None \<Rightarrow> Inr (g, None)
              | Some sz \<Rightarrow> Inr (guess sz True (go_algo o') s h g))))"

subsection \<open>What a block device promises\<close>

text \<open>A device that is read and written by whole blocks: a written block is read back, and the other
  blocks stay. Reading may move a file position, so it returns the device too.\<close>

locale block_device =
  fixes rd_blk :: "'d \<Rightarrow> int \<Rightarrow> 'd \<times> byte list res"
    and wr_blk :: "'d \<Rightarrow> int \<Rightarrow> byte list \<Rightarrow> 'd res"
    and num :: "'d \<Rightarrow> int"
    and bytes :: "'d \<Rightarrow> int"
    and wf :: "'d \<Rightarrow> bool"
  assumes read_ok: "wf d \<Longrightarrow> 0 \<le> b \<Longrightarrow> b < num d \<Longrightarrow>
      \<exists>d' bs. rd_blk d b = (d', Inr bs) \<and> wf d' \<and> num d' = num d \<and> bytes d' = bytes d \<and> int (length bs) = bytes d \<and>
        (\<forall>c. 0 \<le> c \<and> c < num d \<longrightarrow> snd (rd_blk d' c) = snd (rd_blk d c))"
    and write_ok: "wf d \<Longrightarrow> 0 \<le> b \<Longrightarrow> b < num d \<Longrightarrow> int (length bs) = bytes d \<Longrightarrow>
      \<exists>d'. wr_blk d b bs = Inr d' \<and> wf d' \<and> num d' = num d \<and> bytes d' = bytes d \<and>
        (\<forall>c. 0 \<le> c \<and> c < num d \<longrightarrow> snd (rd_blk d' c) = (if c = b then Inr bs else snd (rd_blk d c)))"
begin

text \<open>Writing a batch of blocks; the last write to a block number wins.\<close>

fun write_all :: "(int \<times> byte list) list \<Rightarrow> 'd \<Rightarrow> 'd res" where
  "write_all [] d = Inr d"
| "write_all ((b, bs) # ws) d = rbind (wr_blk d b bs) (write_all ws)"

lemma write_all_ok:
  assumes "wf d" and "\<forall>(b, bs) \<in> set ws. 0 \<le> b \<and> b < num d \<and> int (length bs) = bytes d"
  shows "\<exists>d'. write_all ws d = Inr d' \<and> wf d' \<and> num d' = num d \<and> bytes d' = bytes d \<and>
    (\<forall>c. 0 \<le> c \<and> c < num d \<longrightarrow>
       snd (rd_blk d' c) = (case map_of (rev ws) c of Some bs \<Rightarrow> Inr bs | None \<Rightarrow> snd (rd_blk d c)))"
  using assms
proof (induction ws arbitrary: d)
  case (Cons w ws)
  obtain b bs where w: "w = (b, bs)" by fastforce
  from write_ok [of d b bs] Cons.prems w obtain d1 where d1: "wr_blk d b bs = Inr d1" "wf d1" "num d1 = num d"
    "bytes d1 = bytes d" "\<forall>c. 0 \<le> c \<and> c < num d \<longrightarrow> snd (rd_blk d1 c) = (if c = b then Inr bs else snd (rd_blk d c))"
    by auto
  have "\<forall>(b, bs) \<in> set ws. 0 \<le> b \<and> b < num d1 \<and> int (length bs) = bytes d1" using Cons.prems(2) d1(3,4) by auto
  from Cons.IH [OF d1(2) this] obtain d2 where d2: "write_all ws d1 = Inr d2" "wf d2" "num d2 = num d" "bytes d2 = bytes d"
    "\<forall>c. 0 \<le> c \<and> c < num d \<longrightarrow>
       snd (rd_blk d2 c) = (case map_of (rev ws) c of Some bs \<Rightarrow> Inr bs | None \<Rightarrow> snd (rd_blk d1 c))"
    using d1(3,4) by auto
  show ?case
    by (rule exI [of _ d2]) (use w d1 d2 in \<open>auto simp: map_add_def split: option.splits\<close>)
qed simp

end

subsection \<open>The devices keep the promise\<close>

text \<open>Block \<open>b\<close> of \<open>n\<close> bytes in the bytes of an image.\<close>

lemma blocks_disjoint:
  assumes "0 \<le> (b :: int)" "0 \<le> c" "b \<noteq> c" "0 \<le> n"
  shows "c * n + n \<le> b * n \<or> b * n + n \<le> c * n"
proof (cases "c < b")
  case True
  then have "(c + 1) * n \<le> b * n" using assms(4) by (intro mult_right_mono) auto
  then show ?thesis by (simp add: algebra_simps)
next
  case False
  then have "(b + 1) * n \<le> c * n" using assms by (intro mult_right_mono) auto
  then show ?thesis by (simp add: algebra_simps)
qed

lemma block_in_range:
  assumes "0 \<le> (b :: int)" "b < m" "0 \<le> n" "m * n \<le> l"
  shows "0 \<le> b * n" "b * n + n \<le> l"
proof -
  show "0 \<le> b * n" using assms by simp
  have "(b + 1) * n \<le> m * n" using assms by (intro mult_right_mono) auto
  then show "b * n + n \<le> l" using assms(4) by (simp add: algebra_simps)
qed

definition adf_ok :: "adf_dev \<Rightarrow> bool" where
  "adf_ok a \<longleftrightarrow> \<not> ad_read_only a \<and> 0 \<le> bg_num_blocks (ad_geo a) \<and> 0 \<le> bg_block_bytes (ad_geo a) \<and>
     int (length (ad_data a)) = bg_num_blocks (ad_geo a) * bg_block_bytes (ad_geo a)"

lemma adf_read_area:
  assumes "adf_ok a" "0 \<le> b" "b < bg_num_blocks (ad_geo a)"
  shows "adf_read_block a b = Inr (bget (b * bg_block_bytes (ad_geo a)) (bg_block_bytes (ad_geo a)) (ad_data a))"
  using block_in_range [of b "bg_num_blocks (ad_geo a)" "bg_block_bytes (ad_geo a)" "int (length (ad_data a))"] assms
  by (simp add: adf_read_block_def adf_ok_def blk_to_offset_def Let_def py_slice_in bget_def mult.commute)

lemma adf_write_area:
  assumes "adf_ok a" "0 \<le> b" "b < bg_num_blocks (ad_geo a)" "int (length bs) = bg_block_bytes (ad_geo a)"
  shows "adf_write_block a b bs = Inr (a\<lparr>ad_data := bput (b * bg_block_bytes (ad_geo a)) bs (ad_data a), ad_dirty := True\<rparr>)"
proof -
  have "nat (bg_block_bytes (ad_geo a)) = length bs" using assms(4) by linarith
  then show ?thesis
    using block_in_range [of b "bg_num_blocks (ad_geo a)" "bg_block_bytes (ad_geo a)" "int (length (ad_data a))"] assms
    by (simp add: adf_write_block_def adf_ok_def blk_to_offset_def Let_def py_slice_set_in bput_def mult.commute nat_add_distrib)
qed

lemma bget_bput_block:
  assumes "0 \<le> b" "b < m" "0 \<le> c" "c < m" "int (length bs) = n" "m * n \<le> int (length d)"
  shows "bget (c * n) n (bput (b * n) bs d) = (if c = b then bs else bget (c * n) n d)"
    and "length (bput (b * n) bs d) = length d"
proof -
  have r: "0 \<le> b * n" "b * n + n \<le> int (length d)" "0 \<le> c * n"
    using block_in_range [of b m n "int (length d)"] block_in_range [of c m n "int (length d)"] assms by auto
  then have a: "area (b * n) (int (length bs)) d" using assms(5) by (simp add: area_def)
  then show "length (bput (b * n) bs d) = length d" by simp
  show "bget (c * n) n (bput (b * n) bs d) = (if c = b then bs else bget (c * n) n d)"
    using a r blocks_disjoint [of b c n] assms by (auto simp: bget_bput_same bget_bput_other)
qed

lemma adf_write_ok:
  assumes "adf_ok a" "0 \<le> b" "b < bg_num_blocks (ad_geo a)" "int (length bs) = bg_block_bytes (ad_geo a)"
  shows "\<exists>a'. adf_write_block a b bs = Inr a' \<and> adf_ok a' \<and> ad_geo a' = ad_geo a \<and> ad_dirty a' \<and>
    (\<forall>c. 0 \<le> c \<and> c < bg_num_blocks (ad_geo a) \<longrightarrow>
       adf_read_block a' c = (if c = b then Inr bs else adf_read_block a c))"
proof -
  define a' where "a' = a\<lparr>ad_data := bput (b * bg_block_bytes (ad_geo a)) bs (ad_data a), ad_dirty := True\<rparr>"
  note B = bget_bput_block [OF assms(2,3) _ _ assms(4), of _ "ad_data a"]
  have l: "bg_num_blocks (ad_geo a) * bg_block_bytes (ad_geo a) \<le> int (length (ad_data a))"
    using assms(1) by (simp add: adf_ok_def)
  have ok: "adf_ok a'" using assms(1) B(2) [OF assms(2,3) l] by (simp add: adf_ok_def a'_def)
  have "adf_read_block a' c = (if c = b then Inr bs else adf_read_block a c)"
    if c: "0 \<le> c" "c < bg_num_blocks (ad_geo a)" for c
    using adf_read_area [OF ok, of c] adf_read_area [OF assms(1) c] B(1) [OF c l] c by (simp add: a'_def)
  with ok adf_write_area [OF assms] show ?thesis by (auto simp: a'_def)
qed

lemma adf_read_len:
  assumes "adf_ok a" "0 \<le> b" "b < bg_num_blocks (ad_geo a)"
  shows "\<exists>bs. adf_read_block a b = Inr bs \<and> int (length bs) = bg_block_bytes (ad_geo a)"
  using adf_read_area [OF assms] assms
    block_in_range [of b "bg_num_blocks (ad_geo a)" "bg_block_bytes (ad_geo a)" "int (length (ad_data a))"]
  by (auto simp: adf_ok_def area_def)

interpretation adf: block_device "\<lambda>a b. (a, adf_read_block a b)" adf_write_block
  "\<lambda>a. bg_num_blocks (ad_geo a)" "\<lambda>a. bg_block_bytes (ad_geo a)" adf_ok
  using adf_read_len adf_write_ok by unfold_locales (auto, fastforce)

lemma adf_create_ok: "\<exists>a. adf_create False h = Inr a \<and> adf_ok a \<and> bg_num_blocks (ad_geo a) = (if h then 3520 else 1760)"
  by (simp add: adf_create_def adf_ok_def set_geometry_def Let_def)

text \<open>The image file, by single blocks and by the runs of \<open>n\<close> blocks a partition uses.\<close>

definition img_ok :: "img_file \<Rightarrow> bool" where
  "img_ok m \<longleftrightarrow> \<not> im_read_only m \<and> 0 < im_block_bytes m \<and> im_num_blocks m = int (length (im_data m)) div im_block_bytes m"

lemma img_bytes: "img_ok m \<Longrightarrow> im_num_blocks m * im_block_bytes m \<le> int (length (im_data m))"
  by (simp add: img_ok_def minus_mod_eq_div_mult [symmetric] pos_mod_sign)

lemma img_read_area:
  assumes "img_ok m" "0 \<le> b" "0 < n" "b + n \<le> im_num_blocks m"
  shows "\<exists>p. img_read_blk m b n = (m\<lparr>im_pos := p\<rparr>, Inr (bget (b * im_block_bytes m) (im_block_bytes m * n) (im_data m)))"
  using assms by (auto simp: img_read_blk_def Let_def bget_def img_ok_def mult_less_0_iff)

lemma img_write_area:
  assumes "img_ok m" "0 \<le> b" "0 < n" "b + n \<le> im_num_blocks m" "int (length bs) = im_block_bytes m * n"
  shows "\<exists>p. img_write_blk m b bs n = Inr (m\<lparr>im_data := bput (b * im_block_bytes m) bs (im_data m), im_pos := p\<rparr>)"
proof -
  have "b * im_block_bytes m + im_block_bytes m * n = (b + n) * im_block_bytes m" by (simp add: algebra_simps)
  also have "\<dots> \<le> im_num_blocks m * im_block_bytes m" using assms by (intro mult_right_mono) (auto simp: img_ok_def)
  finally have l: "b * im_block_bytes m + int (length bs) \<le> int (length (im_data m))"
    using img_bytes [OF assms(1)] assms(5) by simp
  have "file_put (im_data m) (nat (b * im_block_bytes m)) bs = bput (b * im_block_bytes m) bs (im_data m)"
    using l assms(1,2) by (simp add: file_put_def bput_def img_ok_def)
  then show ?thesis
    using assms by (auto simp: img_write_blk_def Let_def img_ok_def mult_less_0_iff mult.commute)
qed

definition part_dev_ok :: "part_dev \<Rightarrow> bool" where
  "part_dev_ok p \<longleftrightarrow> img_ok (pt_raw p) \<and> 0 < pt_sec_per_blk p \<and> 0 \<le> pt_blk_off p \<and> 0 \<le> bg_num_blocks (pt_geo p) \<and>
     bg_block_bytes (pt_geo p) = im_block_bytes (pt_raw p) * pt_sec_per_blk p \<and>
     pt_blk_off p + bg_num_blocks (pt_geo p) * pt_sec_per_blk p \<le> im_num_blocks (pt_raw p)"

lemma part_read_area:
  assumes "part_dev_ok p" "0 \<le> b" "b < bg_num_blocks (pt_geo p)"
  shows "\<exists>q. part_read_block p b = (p\<lparr>pt_raw := pt_raw p\<lparr>im_pos := q\<rparr>\<rparr>,
    Inr (bget (pt_blk_off p * im_block_bytes (pt_raw p) + b * bg_block_bytes (pt_geo p)) (bg_block_bytes (pt_geo p)) (im_data (pt_raw p))))"
proof -
  let ?n = "pt_sec_per_blk p"
  have r: "0 \<le> b * ?n" "b * ?n + ?n \<le> bg_num_blocks (pt_geo p) * ?n"
    using block_in_range [of b "bg_num_blocks (pt_geo p)" ?n] assms by (auto simp: part_dev_ok_def)
  have e: "(pt_blk_off p + b * ?n) * im_block_bytes (pt_raw p) = pt_blk_off p * im_block_bytes (pt_raw p) + b * bg_block_bytes (pt_geo p)"
    using assms(1) by (simp add: part_dev_ok_def algebra_simps)
  obtain q where "img_read_blk (pt_raw p) (pt_blk_off p + b * ?n) ?n = ((pt_raw p)\<lparr>im_pos := q\<rparr>,
      Inr (bget ((pt_blk_off p + b * ?n) * im_block_bytes (pt_raw p)) (im_block_bytes (pt_raw p) * ?n) (im_data (pt_raw p))))"
    using img_read_area [of "pt_raw p" "pt_blk_off p + b * ?n" ?n] assms(1) r by (auto simp: part_dev_ok_def)
  then show ?thesis using assms unfolding e by (auto simp: part_read_block_def Let_def part_dev_ok_def)
qed

lemma part_write_area:
  assumes "part_dev_ok p" "0 \<le> b" "b < bg_num_blocks (pt_geo p)" "int (length bs) = bg_block_bytes (pt_geo p)"
  shows "\<exists>q. part_write_block p b bs = Inr (p\<lparr>pt_raw := (pt_raw p)\<lparr>im_data :=
    bput (pt_blk_off p * im_block_bytes (pt_raw p) + b * bg_block_bytes (pt_geo p)) bs (im_data (pt_raw p)), im_pos := q\<rparr>\<rparr>)"
proof -
  let ?n = "pt_sec_per_blk p"
  have r: "0 \<le> b * ?n" "b * ?n + ?n \<le> bg_num_blocks (pt_geo p) * ?n"
    using block_in_range [of b "bg_num_blocks (pt_geo p)" ?n] assms by (auto simp: part_dev_ok_def)
  have e: "(pt_blk_off p + b * ?n) * im_block_bytes (pt_raw p) = pt_blk_off p * im_block_bytes (pt_raw p) + b * bg_block_bytes (pt_geo p)"
    using assms(1) by (simp add: part_dev_ok_def algebra_simps)
  obtain q where "img_write_blk (pt_raw p) (pt_blk_off p + b * ?n) bs ?n = Inr ((pt_raw p)\<lparr>im_data :=
      bput ((pt_blk_off p + b * ?n) * im_block_bytes (pt_raw p)) bs (im_data (pt_raw p)), im_pos := q\<rparr>)"
    using img_write_area [of "pt_raw p" "pt_blk_off p + b * ?n" ?n bs] assms r by (auto simp: part_dev_ok_def)
  then show ?thesis using assms unfolding e by (auto simp: part_write_block_def Let_def)
qed

lemma part_block_area:
  assumes "part_dev_ok p" "0 \<le> b" "b < bg_num_blocks (pt_geo p)"
  shows "area (pt_blk_off p * im_block_bytes (pt_raw p) + b * bg_block_bytes (pt_geo p)) (bg_block_bytes (pt_geo p)) (im_data (pt_raw p))"
proof -
  let ?B = "im_block_bytes (pt_raw p)" and ?n = "pt_sec_per_blk p"
  have ok: "img_ok (pt_raw p)" "0 < ?n" "0 \<le> pt_blk_off p" "bg_block_bytes (pt_geo p) = ?B * ?n" "0 < ?B"
    "pt_blk_off p + bg_num_blocks (pt_geo p) * ?n \<le> im_num_blocks (pt_raw p)"
    using assms(1) by (auto simp: part_dev_ok_def img_ok_def)
  have "(pt_blk_off p + bg_num_blocks (pt_geo p) * ?n) * ?B \<le> im_num_blocks (pt_raw p) * ?B"
    using ok by (intro mult_right_mono) auto
  then have l: "bg_num_blocks (pt_geo p) * (?B * ?n) \<le> int (length (im_data (pt_raw p))) - pt_blk_off p * ?B"
    using img_bytes [OF ok(1)] by (simp add: algebra_simps)
  show ?thesis using block_in_range [OF assms(2,3) _ l] ok by (simp add: area_def)
qed

lemma part_write_ok:
  assumes ok: "part_dev_ok p" and b: "0 \<le> b" "b < bg_num_blocks (pt_geo p)" and bs: "int (length bs) = bg_block_bytes (pt_geo p)"
  shows "\<exists>p'. part_write_block p b bs = Inr p' \<and> part_dev_ok p' \<and> pt_geo p' = pt_geo p \<and>
    (\<forall>c. 0 \<le> c \<and> c < bg_num_blocks (pt_geo p) \<longrightarrow>
       snd (part_read_block p' c) = (if c = b then Inr bs else snd (part_read_block p c))) \<and>
    (\<forall>q n. 0 \<le> q \<and> 0 \<le> n \<and> (q + n \<le> pt_blk_off p * im_block_bytes (pt_raw p) \<or>
         pt_blk_off p * im_block_bytes (pt_raw p) + bg_num_blocks (pt_geo p) * bg_block_bytes (pt_geo p) \<le> q) \<longrightarrow>
       bget q n (im_data (pt_raw p')) = bget q n (im_data (pt_raw p)))"
proof -
  let ?P = "\<lambda>c. pt_blk_off p * im_block_bytes (pt_raw p) + c * bg_block_bytes (pt_geo p)"
  let ?N = "bg_block_bytes (pt_geo p)"
  obtain q where w: "part_write_block p b bs = Inr (p\<lparr>pt_raw := (pt_raw p)\<lparr>im_data := bput (?P b) bs (im_data (pt_raw p)), im_pos := q\<rparr>\<rparr>)"
    using part_write_area [OF ok b bs] by blast
  define p' where "p' = p\<lparr>pt_raw := (pt_raw p)\<lparr>im_data := bput (?P b) bs (im_data (pt_raw p)), im_pos := q\<rparr>\<rparr>"
  have a: "area (?P b) (int (length bs)) (im_data (pt_raw p))" using part_block_area [OF ok b] bs by simp
  then have ok': "part_dev_ok p'" using ok by (simp add: part_dev_ok_def p'_def img_ok_def)
  have N: "0 \<le> ?N" using ok by (simp add: part_dev_ok_def img_ok_def)
  have "snd (part_read_block p' c) = (if c = b then Inr bs else snd (part_read_block p c))"
    if c: "0 \<le> c" "c < bg_num_blocks (pt_geo p)" for c
  proof -
    have "0 \<le> ?P c" using part_block_area [OF ok c] by (simp add: area_def)
    then have "bget (?P c) ?N (bput (?P b) bs (im_data (pt_raw p))) = (if c = b then bs else bget (?P c) ?N (im_data (pt_raw p)))"
      using a bs N blocks_disjoint [OF b(1) c(1) _ N] by (auto simp: bget_bput_same bget_bput_other)
    then show ?thesis
      using part_read_area [OF ok c] part_read_area [OF ok', of c] c by (auto simp: p'_def)
  qed
  moreover have "bget q n (im_data (pt_raw p')) = bget q n (im_data (pt_raw p))"
    if "0 \<le> q" "0 \<le> n" "q + n \<le> pt_blk_off p * im_block_bytes (pt_raw p) \<or>
      pt_blk_off p * im_block_bytes (pt_raw p) + bg_num_blocks (pt_geo p) * ?N \<le> q" for q n
  proof -
    have "0 \<le> b * ?N" "b * ?N + ?N \<le> bg_num_blocks (pt_geo p) * ?N"
      using block_in_range [OF b N order_refl] by auto
    with that(3) bs have "q + n \<le> ?P b \<or> ?P b + int (length bs) \<le> q" by linarith
    then show ?thesis using that a by (simp add: p'_def bget_bput_other)
  qed
  ultimately show ?thesis using w ok' by (auto simp: p'_def)
qed

lemma part_read_ok:
  assumes ok: "part_dev_ok p" and b: "0 \<le> b" "b < bg_num_blocks (pt_geo p)"
  shows "\<exists>p' bs. part_read_block p b = (p', Inr bs) \<and> part_dev_ok p' \<and> pt_geo p' = pt_geo p \<and>
    int (length bs) = bg_block_bytes (pt_geo p) \<and>
    (\<forall>c. 0 \<le> c \<and> c < bg_num_blocks (pt_geo p) \<longrightarrow> snd (part_read_block p' c) = snd (part_read_block p c))"
proof -
  obtain q where r: "part_read_block p b = (p\<lparr>pt_raw := pt_raw p\<lparr>im_pos := q\<rparr>\<rparr>,
    Inr (bget (pt_blk_off p * im_block_bytes (pt_raw p) + b * bg_block_bytes (pt_geo p)) (bg_block_bytes (pt_geo p)) (im_data (pt_raw p))))"
    using part_read_area [OF ok b] by blast
  have ok': "part_dev_ok (p\<lparr>pt_raw := pt_raw p\<lparr>im_pos := q\<rparr>\<rparr>)" using ok by (simp add: part_dev_ok_def img_ok_def)
  show ?thesis
    using r ok' part_block_area [OF ok b] part_read_area [OF ok] part_read_area [OF ok']
    by (auto simp: area_def) (metis snd_conv)
qed

interpretation part: block_device part_read_block part_write_block
  "\<lambda>p. bg_num_blocks (pt_geo p)" "\<lambda>p. bg_block_bytes (pt_geo p)" part_dev_ok
  by unfold_locales (use part_read_ok in fastforce, use part_write_ok in fastforce)

subsection \<open>Geometry guessing\<close>

lemma low_cyls_ok: "0 \<le> c \<Longrightarrow> 0 < h \<Longrightarrow> low_cyls c h = (c', h') \<Longrightarrow> 0 \<le> c' \<and> c' \<le> 65535 \<and> 0 < h' \<and> c' * h' \<le> c * h"
proof (induction c h rule: low_cyls.induct)
  case (1 c h)
  show ?case
  proof (cases "c > 65535")
    case True
    then have "0 \<le> c' \<and> c' \<le> 65535 \<and> 0 < h' \<and> c' * h' \<le> c div 2 * (h * 2)"
      using "1.IH" "1.prems" low_cyls.simps [of c h] by simp
    moreover have "c div 2 * 2 * h \<le> c * h" using "1.prems" by (intro mult_right_mono) auto
    ultimately show ?thesis by (simp add: ac_simps)
  next
    case False
    then show ?thesis using "1.prems" low_cyls.simps [of c h] by simp
  qed
qed

lemma div_fit: "0 \<le> (sz :: int) \<Longrightarrow> 0 < bb \<Longrightarrow> 0 < k \<Longrightarrow> sz div bb div k * k * bb \<le> sz \<and> sz - sz div bb div k * k * bb < k * bb"
proof
  assume a: "0 \<le> sz" "0 < bb" "0 < k"
  have e: "sz div bb div k = sz div (bb * k)" using a by (simp add: zdiv_zmult2_eq)
  have m: "sz div (bb * k) * (bb * k) + sz mod (bb * k) = sz" by (rule div_mult_mod_eq)
  have p: "0 \<le> sz mod (bb * k)" "sz mod (bb * k) < bb * k" using a by simp_all
  have q: "sz div (bb * k) * k * bb = sz div (bb * k) * (bb * k)" by simp
  show "sz div bb div k * k * bb \<le> sz" unfolding e q using m p by linarith
  show "sz - sz div bb div k * k * bb < k * bb" unfolding e q using m p by (simp only: mult.commute [of k bb])
qed

definition dims_ok :: "int option \<Rightarrow> int option \<Rightarrow> bool" where
  "dims_ok secs heads \<longleftrightarrow> (\<forall>v. secs = Some v \<longrightarrow> 0 \<le> v) \<and> (\<forall>v. heads = Some v \<longrightarrow> 0 \<le> v)"

lemma truthy_pos: "truthy v \<Longrightarrow> \<forall>x. v = Some x \<longrightarrow> 0 \<le> x \<Longrightarrow> 0 < the v"
  by (cases v) (auto simp: truthy_def)

definition geo_fits :: "int \<Rightarrow> disk_geo \<Rightarrow> disk_geo \<Rightarrow> int \<Rightarrow> bool" where
  "geo_fits sz g g' n \<longleftrightarrow> n = dg_num_bytes g' \<and> 0 \<le> n \<and> n \<le> sz \<and> dg_block_bytes g' = dg_block_bytes g \<and>
     0 \<le> dg_cyls g' \<and> 0 < dg_heads g' \<and> 0 < dg_secs g'"

lemma guess1_ok:
  assumes "0 \<le> sz" and "0 < dg_block_bytes g" and "dims_ok secs heads"
  shows "\<exists>g' n. guess1 sz True secs heads g = (g', Some n) \<and> geo_fits sz g g' n \<and>
    sz - n < dg_heads g' * dg_secs g' * dg_block_bytes g"
proof -
  define s where "s = (if truthy secs then the secs else 63)"
  define h where "h = (if truthy heads then the heads
     else if sz div 1024 \<le> 504 * 1024 then 16 else if sz div 1024 \<le> 1008 * 1024 then 32
     else if sz div 1024 \<le> 2016 * 1024 then 64 else if sz div 1024 \<le> 4032 * 1024 then 128 else (256 :: int))"
  have sh: "0 < s" "0 < h" using assms(3) truthy_pos [of secs] truthy_pos [of heads] by (auto simp: s_def h_def dims_ok_def)
  define c where "c = sz div dg_block_bytes g div (s * h)"
  have g: "guess1 sz True secs heads g =
      (g\<lparr>dg_cyls := c, dg_heads := h, dg_secs := s\<rparr>, Some (c * s * h * dg_block_bytes g))"
    unfolding guess1_def Let_def geo_if_def c_def s_def h_def by simp
  have c0: "0 \<le> c" using assms sh by (simp add: c_def pos_imp_zdiv_nonneg_iff)
  have f: "c * (s * h) * dg_block_bytes g \<le> sz" "sz - c * (s * h) * dg_block_bytes g < s * h * dg_block_bytes g"
    using div_fit [of sz "dg_block_bytes g" "s * h"] assms(1,2) sh by (simp_all add: c_def)
  have e: "c * s * h * dg_block_bytes g = c * (s * h) * dg_block_bytes g"
    "c * h * s * dg_block_bytes g = c * (s * h) * dg_block_bytes g" "h * s = s * h" by simp_all
  have "0 \<le> c * (s * h) * dg_block_bytes g" using c0 sh assms(2) by simp
  with f c0 sh show ?thesis unfolding g e(1)
    by (simp add: geo_fits_def dg_num_bytes_def dg_num_blocks_def e(2,3))
qed

lemma guess2_ok:
  assumes "0 \<le> sz" and "0 < dg_block_bytes g" and "dims_ok secs heads"
  shows "\<exists>g' n. guess2 sz True secs heads g = (g', Some n) \<and> geo_fits sz g g' n \<and> dg_cyls g' \<le> 65535"
proof -
  define s where "s = (if truthy secs then the secs else 32)"
  define h0 where "h0 = (if truthy heads then the heads else 1)"
  have sh: "0 < s" "0 < h0" using assms(3) truthy_pos [of secs] truthy_pos [of heads] by (auto simp: s_def h0_def dims_ok_def)
  define c0 where "c0 = sz div dg_block_bytes g div (s * h0)"
  obtain c h where ch: "low_cyls c0 h0 = (c, h)" by fastforce
  have g: "guess2 sz True secs heads g = (g\<lparr>dg_cyls := c, dg_heads := h, dg_secs := s\<rparr>, Some (c * s * h * dg_block_bytes g))"
    using ch unfolding guess2_def Let_def geo_if_def s_def h0_def c0_def by simp
  have "0 \<le> c0" using assms sh by (simp add: c0_def pos_imp_zdiv_nonneg_iff)
  from low_cyls_ok [OF this sh(2) ch] have l: "0 \<le> c" "c \<le> 65535" "0 < h" "c * h \<le> c0 * h0" by auto
  have "c * h * (s * dg_block_bytes g) \<le> c0 * h0 * (s * dg_block_bytes g)"
    using l(4) sh assms(2) by (intro mult_right_mono) auto
  also have "c0 * h0 * (s * dg_block_bytes g) = c0 * (s * h0) * dg_block_bytes g" by simp
  also have "\<dots> \<le> sz" using div_fit [of sz "dg_block_bytes g" "s * h0"] assms(1,2) sh by (simp add: c0_def)
  finally have f: "c * h * (s * dg_block_bytes g) \<le> sz" .
  have e: "c * s * h * dg_block_bytes g = c * h * (s * dg_block_bytes g)"
    "c * h * s * dg_block_bytes g = c * h * (s * dg_block_bytes g)" by simp_all
  have "0 \<le> c * h * (s * dg_block_bytes g)" using l sh assms(2) by simp
  with f l sh show ?thesis unfolding g e(1)
    by (simp add: geo_fits_def dg_num_bytes_def dg_num_blocks_def e(2))
qed

text \<open>The attempts depend on the geometry only through its block size.\<close>

lemma guess1_bytes: "dg_block_bytes g' = dg_block_bytes g \<Longrightarrow> guess1 sz True secs heads g' =
    (g'\<lparr>dg_cyls := dg_cyls (fst (guess1 sz True secs heads g)), dg_heads := dg_heads (fst (guess1 sz True secs heads g)),
        dg_secs := dg_secs (fst (guess1 sz True secs heads g))\<rparr>, snd (guess1 sz True secs heads g))"
  by (simp add: guess1_def Let_def geo_if_def)

lemma guess2_bytes: "dg_block_bytes g' = dg_block_bytes g \<Longrightarrow> snd (guess2 sz True secs heads g') = snd (guess2 sz True secs heads g)"
  by (simp add: guess2_def Let_def geo_if_def split: prod.splits)

lemma guess_ok:
  assumes "0 \<le> sz" and "0 < dg_block_bytes g" and "dims_ok secs heads" and "guess sz True algo secs heads g = (g', Some n)"
  shows "geo_fits sz g g' n \<and> (algo \<noteq> Some 1 \<and> algo \<noteq> Some 2 \<longrightarrow>
    (\<forall>m. Some m \<in> {snd (guess1 sz True secs heads g), snd (guess2 sz True secs heads g)} \<longrightarrow> m \<le> n))"
proof -
  obtain g1 n1 where 1: "guess1 sz True secs heads g = (g1, Some n1)" "geo_fits sz g g1 n1"
    using guess1_ok [OF assms(1-3)] by blast
  have b1: "dg_block_bytes g1 = dg_block_bytes g" using 1(2) by (simp add: geo_fits_def)
  obtain g2 n2 where 2: "guess2 sz True secs heads g1 = (g2, Some n2)" "geo_fits sz g1 g2 n2"
    using guess2_ok [of sz g1, OF assms(1) _ assms(3)] assms(2) b1 by auto
  have b2: "dg_block_bytes g2 = dg_block_bytes g" using 2(2) b1 by (simp add: geo_fits_def)
  obtain g3 n3 where 3: "guess1 sz True secs heads g2 = (g3, Some n3)" "geo_fits sz g2 g3 n3"
    using guess1_ok [of sz g2, OF assms(1) _ assms(3)] assms(2) b2 by auto
  obtain g4 n4 where 4: "guess2 sz True secs heads g2 = (g4, Some n4)" "geo_fits sz g2 g4 n4"
    using guess2_ok [of sz g2, OF assms(1) _ assms(3)] assms(2) b2 by auto
  have e: "n3 = n1" "n4 = n2" using guess1_bytes [OF b2, of sz secs heads] guess2_bytes [of g2 g1 sz secs heads] 1 2 3 4 b1 b2
    by auto
  have e2: "snd (guess2 sz True secs heads g) = Some n2" using guess2_bytes [OF b1, of sz secs heads] 2(1) by simp
  have bounds: "0 \<le> n1" "n1 \<le> sz" "0 \<le> n2" "n2 \<le> sz" using 1(2) 2(2) by (simp_all add: geo_fits_def)
  show ?thesis
  proof (cases "algo = Some 1 \<or> algo = Some 2")
    case True
    then show ?thesis
      using assms(4) 1 guess2_ok [OF assms(1-3)] by (auto simp: guess_def)
  next
    case False
    then have g: "guess sz True algo secs heads g =
        (if truthy (Some n2) \<and> \<bar>sz - n2\<bar> < (if truthy (Some n1) \<and> \<bar>sz - n1\<bar> < sz then \<bar>sz - n1\<bar> else sz) then (g4, Some n4)
         else if truthy (Some n1) \<and> \<bar>sz - n1\<bar> < sz then (g3, Some n3) else (g2, None))"
      using 1 2 3 4 by (simp add: guess_def Let_def)
    show ?thesis
      using assms(4) g False e e2 1(1) bounds 3(2) 4(2) b2
      by (auto simp: truthy_def geo_fits_def split: if_splits)
  qed
qed

subsection \<open>Properties\<close>

text \<open>C31: a floppy image gives back exactly what was written: after any batch of block writes each
  block reads as the last data written to it, and the blocks not written read as before; the
  size of the image never changes.\<close>

theorem adf_image_keeps_blocks:
  assumes "adf_ok a" and "\<forall>(b, bs) \<in> set ws. 0 \<le> b \<and> b < bg_num_blocks (ad_geo a) \<and> int (length bs) = bg_block_bytes (ad_geo a)"
  shows "\<exists>a'. adf.write_all ws a = Inr a' \<and> adf_ok a' \<and> bg_num_blocks (ad_geo a') = bg_num_blocks (ad_geo a) \<and>
    (\<forall>c. 0 \<le> c \<and> c < bg_num_blocks (ad_geo a) \<longrightarrow>
       adf_read_block a' c = (case map_of (rev ws) c of Some bs \<Rightarrow> Inr bs | None \<Rightarrow> adf_read_block a c))"
  using adf.write_all_ok [OF assms] by (auto split: option.split)

theorem adf_image_keeps_blocks_witness:
  "\<exists>a a'. adf_create False False = Inr a \<and>
     adf.write_all [(880, replicate 512 1), (2, replicate 512 7), (880, replicate 512 3)] a = Inr a' \<and>
     adf_read_block a' 880 = Inr (replicate 512 3)"
proof -
  obtain a where a: "adf_create False False = Inr a" "adf_ok a" "bg_num_blocks (ad_geo a) = 1760"
    using adf_create_ok [of False] by auto
  have "bg_block_bytes (ad_geo a) = 512" using a(1) by (auto simp: adf_create_def set_geometry_def Let_def)
  with adf_image_keeps_blocks [OF a(2), of "[(880, replicate 512 1), (2, replicate 512 7), (880, replicate 512 3)]"] a
  show ?thesis by auto
qed

text \<open>C32: a partition stays inside its part of the image: a block written to it is read back, its
  other blocks keep their contents, and no byte of the image in front of the partition or behind
  it changes.\<close>

theorem partition_isolated:
  assumes "part_dev_ok p" and "0 \<le> b" and "b < bg_num_blocks (pt_geo p)" and "int (length bs) = bg_block_bytes (pt_geo p)"
  shows "\<exists>p'. part_write_block p b bs = Inr p' \<and> part_dev_ok p' \<and> pt_geo p' = pt_geo p \<and>
    (\<forall>c. 0 \<le> c \<and> c < bg_num_blocks (pt_geo p) \<longrightarrow>
       snd (part_read_block p' c) = (if c = b then Inr bs else snd (part_read_block p c))) \<and>
    (\<forall>q n. 0 \<le> q \<and> 0 \<le> n \<and> (q + n \<le> pt_blk_off p * im_block_bytes (pt_raw p) \<or>
         pt_blk_off p * im_block_bytes (pt_raw p) + bg_num_blocks (pt_geo p) * bg_block_bytes (pt_geo p) \<le> q) \<longrightarrow>
       bget q n (im_data (pt_raw p')) = bget q n (im_data (pt_raw p)))"
  by (rule part_write_ok [OF assms])

theorem partition_isolated_witness:
  "\<exists>m p p'. img_create False 512 100 = Inr m \<and>
     part_open (img_open m) (dos_env_init\<lparr>de_surfaces := 1, de_blk_per_trk := 10, de_low_cyl := 2, de_high_cyl := 4\<rparr>) = Inr p \<and>
     part_write_block p 5 (replicate 512 9) = Inr p' \<and> snd (part_read_block p' 5) = Inr (replicate 512 9)"
proof -
  let ?e = "dos_env_init\<lparr>de_surfaces := 1, de_blk_per_trk := 10, de_low_cyl := 2, de_high_cyl := 4\<rparr>"
  obtain m where m: "img_create False 512 100 = Inr m" "im_data m = replicate 51200 0" "im_block_bytes m = 512"
     "\<not> im_read_only m" by (simp add: img_create_def)
  obtain p where p: "part_open (img_open m) ?e = Inr p"
    by (simp add: part_open_def dos_env_init_def)
  have g: "bg_num_blocks (pt_geo p) = 30" "bg_block_bytes (pt_geo p) = 512" "part_dev_ok p"
    using p m by (auto simp: part_open_def dos_env_init_def set_geometry_def Let_def part_dev_ok_def img_ok_def img_open_def)
  from partition_isolated [OF g(3), of 5 "replicate 512 9"] g m(1) p show ?thesis by auto
qed

text \<open>C33: the geometry guessed for an image never claims more bytes than the image has, and without a
  chosen algorithm it wastes no more bytes than either of the two attempts would.\<close>

theorem geometry_guess_fits:
  assumes "0 \<le> sz" and "0 < dg_block_bytes g" and "dims_ok secs heads" and "guess sz True algo secs heads g = (g', Some n)"
  shows "n = dg_num_bytes g' \<and> 0 \<le> n \<and> n \<le> sz \<and> dg_block_bytes g' = dg_block_bytes g \<and>
    (algo \<noteq> Some 1 \<and> algo \<noteq> Some 2 \<longrightarrow>
      (\<forall>m. Some m \<in> {snd (guess1 sz True secs heads g), snd (guess2 sz True secs heads g)} \<longrightarrow> m \<le> n))"
  using guess_ok [OF assms] unfolding geo_fits_def by blast

theorem geometry_guess_fits_witness:
  "dg_num_bytes (fst (guess 10485760 True None None None \<lparr>dg_cyls = 0, dg_heads = 0, dg_secs = 0, dg_block_bytes = 512\<rparr>)) \<le> 10485760"
proof -
  let ?g = "\<lparr>dg_cyls = 0, dg_heads = 0, dg_secs = 0, dg_block_bytes = 512\<rparr>"
  have "guess 10485760 True None None None ?g = (\<lparr>dg_cyls = 640, dg_heads = 1, dg_secs = 32, dg_block_bytes = 512\<rparr>, Some 10485760)"
    by (simp add: guess_def guess1_def guess2_def geo_if_def truthy_def low_cyls.simps)
  from geometry_guess_fits [OF _ _ _ this] show ?thesis
    using \<open>guess 10485760 True None None None ?g = _\<close> by (simp add: dims_ok_def)
qed

end
