(* ===== verification/Fs_Bitmap.thy ===== *)
theory Fs_Bitmap
  imports Blk_Dev
begin

text \<open>
  The allocation bitmap of a volume (\<open>amitools/fs/ADFSBitmap.py\<close>) and the file system types
  (\<open>DosType.py\<close>): which blocks are free, finding, allocating and releasing blocks, the layout of a
  new bitmap with its pointers in the root block and in extension blocks, and writing and reading it
  through a block device. A set bit is a free block.
\<close>

subsection \<open>DosType\<close>

definition DOS0 :: int where "DOS0 = 0x444F5300"

definition dos_type_names :: "string list" where
  "dos_type_names = [''DOS0:ofs'', ''DOS1:ffs'', ''DOS2:ofs+intl'', ''DOS3:ffs+intl'', ''DOS4:ofs+intl+dircache'',
     ''DOS5:ffs+intl+dircache'', ''DOS6:ofs+intl+longname'', ''DOS7:ffs+intl+longname'']"

definition is_valid_dos_type :: "int \<Rightarrow> bool" where
  "is_valid_dos_type dos_type \<longleftrightarrow> dos_type \<ge> DOS0 \<and> dos_type \<le> DOS0 + 7"

definition is_dircache :: "int \<Rightarrow> bool" where
  "is_dircache dos_type \<longleftrightarrow> dos_type = DOS0 + 4 \<or> dos_type = DOS0 + 5"

definition is_longname :: "int \<Rightarrow> bool" where
  "is_longname dos_type \<longleftrightarrow> dos_type = DOS0 + 6 \<or> dos_type = DOS0 + 7"

definition rootblock_tracks_used_blocks :: "int \<Rightarrow> bool" where
  "rootblock_tracks_used_blocks dos_type \<longleftrightarrow> dos_type = DOS0 + 6 \<or> dos_type = DOS0 + 7"

definition is_ffs :: "int \<Rightarrow> bool" where
  "is_ffs dos_type \<longleftrightarrow> (dos_type AND 1) = 1"

definition is_intl :: "int \<Rightarrow> bool" where
  "is_intl dos_type \<longleftrightarrow> is_dircache dos_type \<or> is_longname dos_type \<or> (dos_type AND 2) = 2"

definition get_dos_type_str :: "int \<Rightarrow> string" where
  "get_dos_type_str dos_type = dos_type_names ! nat (dos_type AND 7)"

text \<open>\<open>str.isdigit\<close> of a Latin-1 character: the digits and the three superscript digits.\<close>

definition is_digit_char :: "char \<Rightarrow> bool" where
  "is_digit_char c \<longleftrightarrow>
     (let n = of_char c :: nat in 48 \<le> n \<and> n \<le> 57 \<or> n = 178 \<or> n = 179 \<or> n = 185)"

definition tag_str_to_num :: "string \<Rightarrow> int" where
  "tag_str_to_num s =
     (if length s \<noteq> 4 then 0
      else let a = push_bit 24 (of_char (s ! 0)); b = push_bit 16 (of_char (s ! 1));
               c = push_bit 8 (of_char (s ! 2)); l = s ! 3; d = of_char l;
               d' = (if is_digit_char l then d - 48 else d)
           in a + b + c + d')"

definition num_to_tag_str :: "int \<Rightarrow> string" where
  "num_to_tag_str l =
     (let a = char_of (drop_bit 24 l AND 0xFF); b = char_of (drop_bit 16 l AND 0xFF);
          c = char_of (drop_bit 8 l AND 0xFF); k = l AND 0xFF
      in [a, b, c] @ [if k < 32 then char_of (k + 48) else char_of k])"

subsection \<open>The state of a bitmap\<close>

record bm_ext =
  be_num :: int
  be_ptrs :: "int list"
  be_next :: int

text \<open>The root block and the geometry of the device are part of the state, since the bitmap writes
  its pointers into the root block. Before \<open>create\<close> or \<open>read\<close> there is no bitmap data; an empty one
  stands for it.\<close>

record adfs_bitmap =
  bm_geo :: blk_geo
  bm_root_num :: int
  bm_root :: root_block
  bm_ext_blks :: "bm_ext list"
  bm_blks :: "int list"
  bm_data :: "byte list"
  bm_valid :: bool
  bm_find_off :: int
  bm_dirty :: bool
  bm_num_used :: int

definition bm_init :: "blk_geo \<Rightarrow> int \<Rightarrow> root_block \<Rightarrow> adfs_bitmap" where
  "bm_init g root_num root =
     \<lparr>bm_geo = g, bm_root_num = root_num, bm_root = root, bm_ext_blks = [], bm_blks = [], bm_data = [],
      bm_valid = False, bm_find_off = (root_num - bg_reserved g) div 32, bm_dirty = False, bm_num_used = 0\<rparr>"

definition bm_blk_bytes :: "blk_geo \<Rightarrow> int" where "bm_blk_bytes g = bg_block_bytes g - 4"
definition bm_blk_longs :: "blk_geo \<Rightarrow> int" where "bm_blk_longs g = bg_block_longs g - 1"
definition bm_bits :: "blk_geo \<Rightarrow> int" where "bm_bits g = bg_num_blocks g - bg_reserved g"
definition bm_longs :: "blk_geo \<Rightarrow> int" where "bm_longs g = (bm_bits g + 31) div 32"

definition bm_last_long_bits :: "blk_geo \<Rightarrow> int" where
  "bm_last_long_bits g = (let n = bm_bits g mod 32 in if n = 0 then 32 else n)"

definition bm_num_blks :: "blk_geo \<Rightarrow> int" where
  "bm_num_blks g = (bm_longs g + bm_blk_longs g - 1) div bm_blk_longs g"

definition bm_all_blk_bytes :: "blk_geo \<Rightarrow> int" where
  "bm_all_blk_bytes g = bm_num_blks g * bm_blk_bytes g"

definition bm_num_ext :: "blk_geo \<Rightarrow> root_block \<Rightarrow> int" where
  "bm_num_ext g root = (bm_num_blks g - int (length (rb_bitmap_ptrs root)) + bm_blk_longs g - 1) div bm_blk_longs g"

subsection \<open>Bits\<close>

definition load_long :: "byte list \<Rightarrow> int \<Rightarrow> int res" where
  "load_long d long_off = rbind (unpack_from 4 d (long_off * 4)) (\<lambda>bs. Inr (be_int bs))"

definition store_long :: "byte list \<Rightarrow> int \<Rightarrow> int \<Rightarrow> byte list res" where
  "store_long d long_off val = rbind (pack_u 4 val) (pack_into d (long_off * 4))"

definition bit_mask :: "int \<Rightarrow> int" where
  "bit_mask n = push_bit (nat n) 1"

definition out_of_range :: "blk_geo \<Rightarrow> int \<Rightarrow> bool" where
  "out_of_range g off \<longleftrightarrow> off < bg_reserved g \<or> off \<ge> bg_num_blocks g"

definition get_bit :: "adfs_bitmap \<Rightarrow> int \<Rightarrow> bool option res" where
  "get_bit b off =
     (if out_of_range (bm_geo b) off then Inr None
      else let off = off - bg_reserved (bm_geo b); m = bit_mask (off mod 32)
           in rbind (load_long (bm_data b) (off div 32)) (\<lambda>val. Inr (Some (val AND m = m))))"

text \<open>\<open>set_bit\<close> marks a block as free, \<open>clr_bit\<close> as used; outside of the volume they return False.\<close>

definition set_bit :: "adfs_bitmap \<Rightarrow> int \<Rightarrow> (adfs_bitmap \<times> bool option) res" where
  "set_bit b off =
     (if out_of_range (bm_geo b) off then Inr (b, Some False)
      else let off = off - bg_reserved (bm_geo b); m = bit_mask (off mod 32)
           in rbind (load_long (bm_data b) (off div 32)) (\<lambda>val.
                if val AND m = 0
                then rbind (store_long (bm_data b) (off div 32) (val OR m)) (\<lambda>d.
                       Inr (b\<lparr>bm_data := d, bm_dirty := True, bm_num_used := bm_num_used b - 1\<rparr>, None))
                else Inr (b, None)))"

definition clr_bit :: "adfs_bitmap \<Rightarrow> int \<Rightarrow> (adfs_bitmap \<times> bool option) res" where
  "clr_bit b off =
     (if out_of_range (bm_geo b) off then Inr (b, Some False)
      else let off = off - bg_reserved (bm_geo b); m = bit_mask (off mod 32)
           in rbind (load_long (bm_data b) (off div 32)) (\<lambda>val.
                if val AND m = m
                then rbind (store_long (bm_data b) (off div 32) (val AND NOT m)) (\<lambda>d.
                       Inr (b\<lparr>bm_data := d, bm_dirty := True, bm_num_used := bm_num_used b + 1\<rparr>, None))
                else Inr (b, None)))"

fun clr_bits :: "int list \<Rightarrow> adfs_bitmap \<Rightarrow> adfs_bitmap res" where
  "clr_bits [] b = Inr b"
| "clr_bits (n # ns) b = rbind (clr_bit b n) (\<lambda>(b', _). clr_bits ns b')"

fun dealloc_n :: "int list \<Rightarrow> adfs_bitmap \<Rightarrow> adfs_bitmap res" where
  "dealloc_n [] b = Inr b"
| "dealloc_n (n # ns) b = rbind (set_bit b n) (\<lambda>(b', _). dealloc_n ns b')"

fun count_bits :: "bool \<Rightarrow> nat \<Rightarrow> int \<Rightarrow> adfs_bitmap \<Rightarrow> int res" where
  "count_bits free 0 i b = Inr 0"
| "count_bits free (Suc n) i b =
     rbind (get_bit b i) (\<lambda>x. rbind (count_bits free n (i + 1) b) (\<lambda>k.
       Inr (if (x = Some True) = free then k + 1 else k)))"

definition get_num_free :: "adfs_bitmap \<Rightarrow> int res" where
  "get_num_free b = count_bits True (nat (bm_bits (bm_geo b))) (bg_reserved (bm_geo b)) b"

definition get_num_used :: "adfs_bitmap \<Rightarrow> int res" where
  "get_num_used b = count_bits False (nat (bm_bits (bm_geo b))) (bg_reserved (bm_geo b)) b"

subsection \<open>Finding free blocks\<close>

text \<open>The loop over the bits of one long word: the collected blocks, and whether there are enough.\<close>

fun scan_bits :: "int \<Rightarrow> int \<Rightarrow> int \<Rightarrow> int list \<Rightarrow> int list \<Rightarrow> int list \<times> bool" where
  "scan_bits val base num [] result = (result, False)"
| "scan_bits val base num (i # is) result =
     (if val AND bit_mask i = bit_mask i
      then let r = result @ [base + i]
           in if int (length r) = num then (r, True) else scan_bits val base num is r
      else scan_bits val base num is result)"

text \<open>The loop over all long words, from the start position on and around the end.\<close>

fun find_longs :: "blk_geo \<Rightarrow> byte list \<Rightarrow> int \<Rightarrow> nat \<Rightarrow> int \<Rightarrow> int list \<Rightarrow> (int \<times> int list) option res" where
  "find_longs g d num 0 long_off result = Inr None"
| "find_longs g d num (Suc n) long_off result =
     rbind (load_long d long_off) (\<lambda>val.
       let (r, ok) =
         (if val \<noteq> 0
          then let max_bits = (if long_off = bm_longs g - 1 then bm_last_long_bits g else 32)
               in scan_bits val (bg_reserved g + long_off * 32) num [0..max_bits - 1] result
          else (result, False))
       in if ok then Inr (Some (long_off, r))
          else find_longs g d num n (if long_off + 1 = bm_longs g then 0 else long_off + 1) r)"

definition find_n_free :: "adfs_bitmap \<Rightarrow> int \<Rightarrow> (adfs_bitmap \<times> int list option) res" where
  "find_n_free b num =
     rbind (find_longs (bm_geo b) (bm_data b) num (nat (bm_longs (bm_geo b))) (bm_find_off b) []) (\<lambda>r.
       case r of None \<Rightarrow> Inr (b, None)
       | Some (long_off, blks) \<Rightarrow> Inr (b\<lparr>bm_find_off := long_off\<rparr>, Some blks))"

definition find_free :: "adfs_bitmap \<Rightarrow> (adfs_bitmap \<times> int option) res" where
  "find_free b =
     rbind (find_n_free b 1) (\<lambda>(b', r).
       Inr (b', case r of Some (x # _) \<Rightarrow> Some x | _ \<Rightarrow> None))"

definition alloc_n :: "adfs_bitmap \<Rightarrow> int \<Rightarrow> (adfs_bitmap \<times> int list option) res" where
  "alloc_n b num =
     rbind (find_n_free b num) (\<lambda>(b', r).
       case r of None \<Rightarrow> Inr (b', None)
       | Some blks \<Rightarrow> rbind (clr_bits blks b') (\<lambda>b''. Inr (b'', Some blks)))"

subsection \<open>Creating a bitmap\<close>

text \<open>The loop that hands out the numbers of the bitmap blocks to the root block and then to the
  extension blocks.\<close>

fun set_bm_ptrs :: "int \<Rightarrow> int \<Rightarrow> int list \<Rightarrow> int \<Rightarrow> int \<Rightarrow> int \<Rightarrow> root_block \<times> bm_ext list \<Rightarrow> (root_block \<times> bm_ext list) res" where
  "set_bm_ptrs in_root in_ext [] i idx pos (root, exts) = Inr (root, exts)"
| "set_bm_ptrs in_root in_ext (n # ns) i idx pos (root, exts) =
     (if i < in_root
      then rbind (py_set (rb_bitmap_ptrs root) i n) (\<lambda>ps.
             set_bm_ptrs in_root in_ext ns (i + 1) idx pos (root\<lparr>rb_bitmap_ptrs := ps\<rparr>, exts))
      else rbind (py_get exts idx) (\<lambda>e. rbind (py_set (be_ptrs e) pos n) (\<lambda>ps.
             rbind (py_set exts idx (e\<lparr>be_ptrs := ps\<rparr>)) (\<lambda>exts'.
               if pos + 1 = in_ext then set_bm_ptrs in_root in_ext ns (i + 1) (idx + 1) 0 (root, exts')
               else set_bm_ptrs in_root in_ext ns (i + 1) idx (pos + 1) (root, exts')))))"

text \<open>Every extension block points to the next one.\<close>

fun chain_exts :: "bm_ext list \<Rightarrow> bm_ext list" where
  "chain_exts (e # f # es) = e\<lparr>be_next := be_num f\<rparr> # chain_exts (f # es)"
| "chain_exts es = es"

definition bm_create :: "adfs_bitmap \<Rightarrow> adfs_bitmap res" where
  "bm_create b =
     (let g = bm_geo b; in_root = int (length (rb_bitmap_ptrs (bm_root b))); in_ext = bm_blk_longs g;
          num_ext = nat (bm_num_ext g (bm_root b)); num_blks = nat (bm_num_blks g);
          b1 = b\<lparr>bm_data := replicate (nat (bm_all_blk_bytes g)) 0xFF, bm_num_used := 0\<rparr>;
          p = bm_root_num b + 1;
          ext_nums = map (\<lambda>i. p + int i) [0..<num_ext];
          bm_nums = map (\<lambda>i. p + int num_ext + int i) [0..<num_blks]
      in rbind (clr_bits (bm_root_num b # ext_nums @ bm_nums) b1) (\<lambda>b2.
           let exts = bm_ext_blks b @ map (\<lambda>n. \<lparr>be_num = n, be_ptrs = replicate (nat in_ext) 0, be_next = 0\<rparr>) ext_nums;
               blks = bm_blks b @ bm_nums;
               root = (if num_ext > 0 then (bm_root b)\<lparr>rb_bitmap_ext_blk := be_num (exts ! 0)\<rparr> else bm_root b)
           in rbind (set_bm_ptrs in_root in_ext (take num_blks blks) 0 0 0
                       (root, chain_exts (take num_ext exts) @ drop num_ext exts)) (\<lambda>(root', exts').
                Inr (b2\<lparr>bm_root := root', bm_ext_blks := exts', bm_blks := blks, bm_valid := True, bm_dirty := True\<rparr>))))"

subsection \<open>Writing and reading\<close>

text \<open>The device is any one with the operations of \<open>block_device\<close>.\<close>

fun write_exts :: "('d \<Rightarrow> int \<Rightarrow> byte list \<Rightarrow> 'd res) \<Rightarrow> int \<Rightarrow> bm_ext list \<Rightarrow> 'd \<Rightarrow> 'd res" where
  "write_exts wr bl [] d = Inr d"
| "write_exts wr bl (e # es) d =
     rbind (bitmap_ext_write bl (be_ptrs e) (be_next e)) (\<lambda>bs. rbind (wr d (be_num e) bs) (write_exts wr bl es))"

fun write_bms :: "('d \<Rightarrow> int \<Rightarrow> byte list \<Rightarrow> 'd res) \<Rightarrow> int \<Rightarrow> int \<Rightarrow> int list \<Rightarrow> byte list \<Rightarrow> int \<Rightarrow> 'd \<Rightarrow> 'd res" where
  "write_bms wr bl bytes [] data off d = Inr d"
| "write_bms wr bl bytes (n # ns) data off d =
     rbind (bitmap_block_write bl (py_slice data off (off + bytes))) (\<lambda>bs.
       rbind (wr d n bs) (write_bms wr bl bytes ns data (off + bytes)))"

definition bm_write :: "('d \<Rightarrow> int \<Rightarrow> byte list \<Rightarrow> 'd res) \<Rightarrow> adfs_bitmap \<Rightarrow> 'd \<Rightarrow> (adfs_bitmap \<times> 'd) res" where
  "bm_write wr b d =
     (if \<not> bm_dirty b then Inr (b, d)
      else let g = bm_geo b; bl = bg_block_longs g in
        rbind (write_exts wr bl (bm_ext_blks b) d) (\<lambda>d1.
        rbind (write_bms wr bl (bm_blk_bytes g) (bm_blks b) (bm_data b) 0 d1) (\<lambda>d2.
          let root = (if rootblock_tracks_used_blocks (rb_fstype (bm_root b))
                      then (bm_root b)\<lparr>rb_blocks_used := bm_num_used b\<rparr> else bm_root b)
          in rbind (root_write bl root) (\<lambda>bs. rbind (wr d2 (bm_root_num b) bs) (\<lambda>d3.
               Inr (b\<lparr>bm_root := root, bm_dirty := False\<rparr>, d3))))))"

definition read_data :: "('d \<Rightarrow> int \<Rightarrow> 'd \<times> byte list res) \<Rightarrow> blk_geo \<Rightarrow> int \<Rightarrow> 'd \<Rightarrow> 'd \<times> byte list res" where
  "read_data rd g n d =
     (let (d', r) = rd d n
      in (d', rbind r (\<lambda>bs. if int (length bs) \<noteq> bg_block_bytes g then Inl ValueError else Inr bs)))"

text \<open>The blocks a pointer table names, up to the first zero, with their bitmap data.\<close>

fun read_bms :: "('d \<Rightarrow> int \<Rightarrow> 'd \<times> byte list res) \<Rightarrow> blk_geo \<Rightarrow> int list \<Rightarrow> int list \<times> byte list \<Rightarrow> 'd \<Rightarrow> 'd \<times> (int list \<times> byte list) res" where
  "read_bms rd g [] (blks, data) d = (d, Inr (blks, data))"
| "read_bms rd g (n # ns) (blks, data) d =
     (if n = 0 then (d, Inr (blks, data))
      else case read_data rd g n d of
        (d', Inl e) \<Rightarrow> (d', Inl e)
      | (d', Inr bs) \<Rightarrow>
         (case bitmap_block_read (bg_block_longs g) bs of
            Inl e \<Rightarrow> (d', Inl e)
          | Inr None \<Rightarrow> (d', Inl (FSError 14))
          | Inr (Some x) \<Rightarrow> read_bms rd g ns (blks @ [n], data @ x) d'))"

text \<open>The chain of extension blocks; a chain that runs in a circle is followed for ever.\<close>

partial_function (option) read_exts ::
  "('d \<Rightarrow> int \<Rightarrow> 'd \<times> byte list res) \<Rightarrow> blk_geo \<Rightarrow> int \<Rightarrow> bm_ext list \<Rightarrow> int list \<times> byte list \<Rightarrow> 'd \<Rightarrow>
     ('d \<times> (bm_ext list \<times> int list \<times> byte list) res) option" where
  "read_exts rd g n exts acc d =
     (if n = 0 then Some (d, Inr (exts, acc))
      else case read_data rd g n d of
        (d', Inl e) \<Rightarrow> Some (d', Inl e)
      | (d', Inr bs) \<Rightarrow>
         (case bitmap_ext_read (bg_block_longs g) bs of
            Inl e \<Rightarrow> Some (d', Inl e)
          | Inr (ptrs, nxt) \<Rightarrow>
             (case read_bms rd g ptrs acc d' of
                (d'', Inl e) \<Rightarrow> Some (d'', Inl e)
              | (d'', Inr acc') \<Rightarrow>
                  read_exts rd g nxt (exts @ [\<lparr>be_num = n, be_ptrs = ptrs, be_next = nxt\<rparr>]) acc' d'')))"

definition bm_read :: "('d \<Rightarrow> int \<Rightarrow> 'd \<times> byte list res) \<Rightarrow> adfs_bitmap \<Rightarrow> 'd \<Rightarrow> ('d \<times> adfs_bitmap res) option" where
  "bm_read rd b d =
     (let g = bm_geo b;
          b0 = (if rootblock_tracks_used_blocks (rb_fstype (bm_root b))
                then b\<lparr>bm_num_used := rb_blocks_used (bm_root b)\<rparr> else b)
      in case read_bms rd g (rb_bitmap_ptrs (bm_root b)) ([], []) d of
           (d1, Inl e) \<Rightarrow> Some (d1, Inl e)
         | (d1, Inr acc) \<Rightarrow>
            (case read_exts rd g (rb_bitmap_ext_blk (bm_root b)) (bm_ext_blks b) acc d1 of
               None \<Rightarrow> None
             | Some (d2, Inl e) \<Rightarrow> Some (d2, Inl e)
             | Some (d2, Inr (exts, blks, data)) \<Rightarrow> Some (d2,
                 if bm_blk_bytes g * int (length blks) \<noteq> int (length data) then Inl (FSError 16)
                 else if int (length blks) \<noteq> bm_num_blks g then Inl (FSError 15)
                 else Inr (b0\<lparr>bm_ext_blks := exts, bm_blks := blks, bm_data := data, bm_valid := True\<rparr>))))"

subsection \<open>Bits of the bitmap\<close>

lemma bit_mask_and: "val AND bit_mask n = bit_mask n \<longleftrightarrow> bit val (nat n)" for val :: int
proof
  assume "val AND bit_mask n = bit_mask n"
  then have "bit (val AND bit_mask n) (nat n)" by (simp add: bit_mask_def bit_simps)
  then show "bit val (nat n)" by (simp add: bit_simps)
next
  assume "bit val (nat n)"
  then show "val AND bit_mask n = bit_mask n"
    by (intro bit_eqI) (auto simp: bit_mask_def bit_simps)
qed

lemma bit_mask_and0: "val AND bit_mask n = 0 \<longleftrightarrow> \<not> bit val (nat n)" for val :: int
  unfolding bit_mask_def push_bit_eq_mult by (simp add: and_exp_eq_0_iff_not_bit)

lemma u32_ok_bits: "u32_ok v \<longleftrightarrow> (\<forall>k. bit v k \<longrightarrow> k < 32)"
proof -
  have "u32_ok v \<longleftrightarrow> take_bit 32 v = v"
    unfolding u32_ok_def take_bit_int_eq_self_iff by simp
  also have "\<dots> \<longleftrightarrow> (\<forall>k. bit v k \<longrightarrow> k < 32)" by (auto simp: bit_eq_iff bit_simps)
  finally show ?thesis .
qed

lemma u32_ok_or_mask: "u32_ok v \<Longrightarrow> n < 32 \<Longrightarrow> u32_ok (v OR bit_mask n)"
  by (auto simp: u32_ok_bits bit_mask_def bit_simps)

lemma u32_ok_and: "u32_ok v \<Longrightarrow> u32_ok (v AND w)"
  by (auto simp: u32_ok_bits bit_simps)

lemma load_long_area: "area (4 * i) 4 d \<Longrightarrow> load_long d i = Inr (slot d i)"
  by (drule areaD) (auto simp: load_long_def unpack_from_def slot_def bget_def buf_offset_in mult.commute)

lemma store_long_area: "area (4 * i) 4 d \<Longrightarrow> u32_ok v \<Longrightarrow> store_long d i v = Inr (bput (4 * i) (be_bytes 4 v) d)"
  by (drule areaD) (auto simp: store_long_def pack_u_ok u32_ok_def pack_into_def buf_offset_in bput_def mult.commute)

lemma slot_u32 [simp]: "area (4 * i) 4 d \<Longrightarrow> u32_ok (slot d i)"
  using be_int_bounds [of "bget (4 * i) 4 d"] by (simp add: slot_def u32_ok_def)

lemma slot_bput:
  assumes "area (4 * i) 4 d" "0 \<le> j" "u32_ok v"
  shows "slot (bput (4 * i) (be_bytes 4 v) d) j = (if j = i then v else slot d j)"
proof (cases "j = i")
  case True
  with assms show ?thesis by (simp add: slot_def bget_bput_same u32_ok_def)
next
  case False
  then have "4 * j + 4 \<le> 4 * i \<or> 4 * i + 4 \<le> 4 * j" by auto
  with assms False show ?thesis unfolding slot_def by (simp add: bget_bput_other)
qed

text \<open>The bitmap covers the volume: the well-formedness every operation keeps.\<close>

definition bm_geo_ok :: "blk_geo \<Rightarrow> bool" where
  "bm_geo_ok g \<longleftrightarrow> 0 \<le> bg_reserved g \<and> bg_reserved g < bg_num_blocks g"

definition bm_wf :: "adfs_bitmap \<Rightarrow> bool" where
  "bm_wf b \<longleftrightarrow> bm_geo_ok (bm_geo b) \<and> 4 * bm_longs (bm_geo b) \<le> int (length (bm_data b)) \<and>
     0 \<le> bm_find_off b \<and> bm_find_off b < bm_longs (bm_geo b)"

definition bit_at :: "blk_geo \<Rightarrow> byte list \<Rightarrow> int \<Rightarrow> bool" where
  "bit_at g d n \<longleftrightarrow> bit (slot d ((n - bg_reserved g) div 32)) (nat ((n - bg_reserved g) mod 32))"

definition blk_range :: "blk_geo \<Rightarrow> int set" where
  "blk_range g = {bg_reserved g..<bg_num_blocks g}"

definition free_set :: "adfs_bitmap \<Rightarrow> int set" where
  "free_set b = {n \<in> blk_range (bm_geo b). bit_at (bm_geo b) (bm_data b) n}"

definition used_set :: "adfs_bitmap \<Rightarrow> int set" where
  "used_set b = blk_range (bm_geo b) - free_set b"

lemma finite_blk_range [simp]: "finite (blk_range g)"
  by (simp add: blk_range_def)

lemma finite_free_set [simp]: "finite (free_set b)" "finite (used_set b)"
  by (simp_all add: free_set_def used_set_def)

lemma long_index: "0 \<le> r \<Longrightarrow> r < (k :: int) \<Longrightarrow> 0 \<le> r div 32 \<and> r div 32 + 1 \<le> (k + 31) div 32"
  using zdiv_mono1 [of "r + 32" "k + 31" 32] by (simp add: pos_imp_zdiv_nonneg_iff)

lemma long_area:
  assumes "bm_wf b" "n \<in> blk_range (bm_geo b)"
  shows "area (4 * ((n - bg_reserved (bm_geo b)) div 32)) 4 (bm_data b)"
  using assms long_index [of "n - bg_reserved (bm_geo b)" "bm_bits (bm_geo b)"]
  unfolding bm_wf_def area_def blk_range_def bm_longs_def bm_bits_def atLeastLessThan_iff by auto

lemma bit_pos_inj:
  assumes "(n - r) div 32 = (m - r) div 32" "nat ((n - r) mod 32) = nat ((m - r) mod 32)"
  shows "n = (m :: int)"
proof -
  have "(n - r) mod 32 = (m - r) mod 32" using assms(2) by (simp add: nat_eq_iff)
  with assms(1) have "n - r = m - r" by (metis div_mult_mod_eq)
  then show ?thesis by simp
qed

text \<open>What \<open>set_bit\<close> and \<open>clr_bit\<close> leave alone.\<close>

definition bm_frame :: "adfs_bitmap \<Rightarrow> adfs_bitmap \<Rightarrow> bool" where
  "bm_frame b b' \<longleftrightarrow> bm_geo b' = bm_geo b \<and> bm_root_num b' = bm_root_num b \<and> bm_root b' = bm_root b \<and>
     bm_ext_blks b' = bm_ext_blks b \<and> bm_blks b' = bm_blks b \<and> bm_valid b' = bm_valid b \<and>
     length (bm_data b') = length (bm_data b)"

lemma bm_frame_refl [simp]: "bm_frame b b"
  by (simp add: bm_frame_def)

lemma bm_frame_trans: "bm_frame a b \<Longrightarrow> bm_frame b c \<Longrightarrow> bm_frame a c"
  by (simp add: bm_frame_def)

lemma bm_frame_geo: "bm_frame b b' \<Longrightarrow> bm_geo b' = bm_geo b"
  by (simp add: bm_frame_def)

lemma bit_at_store:
  assumes "area (4 * ((n - bg_reserved g) div 32)) 4 d" "u32_ok v" "m \<in> blk_range g"
    and "v = slot d ((n - bg_reserved g) div 32) OR bit_mask ((n - bg_reserved g) mod 32) \<and> x \<or>
         v = slot d ((n - bg_reserved g) div 32) AND NOT (bit_mask ((n - bg_reserved g) mod 32)) \<and> \<not> x"
  shows "bit_at g (bput (4 * ((n - bg_reserved g) div 32)) (be_bytes 4 v) d) m \<longleftrightarrow>
    (if m = n then x else bit_at g d m)"
proof -
  let ?i = "(n - bg_reserved g) div 32" and ?j = "(m - bg_reserved g) div 32"
  have j: "0 \<le> ?j" using assms(3) by (auto simp: blk_range_def pos_imp_zdiv_nonneg_iff)
  have bv: "bit v k \<longleftrightarrow> (if k = nat ((n - bg_reserved g) mod 32) then x else bit (slot d ?i) k)" for k
    using assms(4) by (auto simp: bit_mask_def bit_simps)
  show ?thesis
  proof (cases "?j = ?i")
    case True
    have "bit_at g (bput (4 * ?i) (be_bytes 4 v) d) m = bit v (nat ((m - bg_reserved g) mod 32))"
      unfolding bit_at_def slot_bput [OF assms(1) j assms(2)] using True by simp
    then show ?thesis using bit_pos_inj [of m "bg_reserved g" n] True by (auto simp: bv bit_at_def)
  next
    case False
    then show ?thesis unfolding bit_at_def slot_bput [OF assms(1) j assms(2)] by auto
  qed
qed

lemma get_bit_ok:
  "bm_wf b \<Longrightarrow> get_bit b n = Inr (if n \<in> blk_range (bm_geo b) then Some (n \<in> free_set b) else None)"
  using long_area [of b n]
  by (auto simp: get_bit_def out_of_range_def blk_range_def load_long_area free_set_def bit_at_def bit_mask_and Let_def)

lemma set_bit_ok:
  assumes "bm_wf b" "n \<in> blk_range (bm_geo b)"
  shows "\<exists>b'. set_bit b n = Inr (b', None) \<and> bm_wf b' \<and> bm_frame b b' \<and> bm_find_off b' = bm_find_off b \<and>
    free_set b' = insert n (free_set b) \<and>
    bm_num_used b' = bm_num_used b - (if n \<in> free_set b then 0 else 1) \<and> (bm_dirty b' \<longleftrightarrow> bm_dirty b \<or> n \<notin> free_set b)"
proof (cases "n \<in> free_set b")
  case True
  then show ?thesis using assms long_area [OF assms]
    by (auto simp: set_bit_def out_of_range_def blk_range_def Let_def load_long_area bit_mask_and0 free_set_def bit_at_def)
next
  case False
  let ?r = "n - bg_reserved (bm_geo b)"
  let ?v = "slot (bm_data b) (?r div 32) OR bit_mask (?r mod 32)"
  let ?d = "bput (4 * (?r div 32)) (be_bytes 4 ?v) (bm_data b)"
  let ?b = "b\<lparr>bm_data := ?d, bm_dirty := True, bm_num_used := bm_num_used b - 1\<rparr>"
  have a: "area (4 * (?r div 32)) 4 (bm_data b)" by (rule long_area [OF assms])
  have v: "u32_ok ?v" using a by (intro u32_ok_or_mask) simp_all
  have "set_bit b n = Inr (?b, None)" using False assms a v
    by (auto simp: set_bit_def out_of_range_def blk_range_def Let_def load_long_area store_long_area bit_mask_and0
        free_set_def bit_at_def)
  moreover have "free_set ?b = insert n (free_set b)"
    using bit_at_store [OF a v, of _ True] assms(2) by (auto simp: free_set_def)
  moreover have "bm_wf ?b" "bm_frame b ?b" using assms(1) a by (simp_all add: bm_wf_def bm_frame_def)
  ultimately show ?thesis using False by (intro exI [of _ ?b]) simp
qed

lemma clr_bit_ok:
  assumes "bm_wf b" "n \<in> blk_range (bm_geo b)"
  shows "\<exists>b'. clr_bit b n = Inr (b', None) \<and> bm_wf b' \<and> bm_frame b b' \<and> bm_find_off b' = bm_find_off b \<and>
    free_set b' = free_set b - {n} \<and>
    bm_num_used b' = bm_num_used b + (if n \<in> free_set b then 1 else 0) \<and> (bm_dirty b' \<longleftrightarrow> bm_dirty b \<or> n \<in> free_set b)"
proof (cases "n \<in> free_set b")
  case False
  then show ?thesis using assms long_area [OF assms]
    by (auto simp: clr_bit_def out_of_range_def blk_range_def Let_def load_long_area bit_mask_and free_set_def bit_at_def)
next
  case True
  let ?r = "n - bg_reserved (bm_geo b)"
  let ?v = "slot (bm_data b) (?r div 32) AND NOT (bit_mask (?r mod 32))"
  let ?d = "bput (4 * (?r div 32)) (be_bytes 4 ?v) (bm_data b)"
  let ?b = "b\<lparr>bm_data := ?d, bm_dirty := True, bm_num_used := bm_num_used b + 1\<rparr>"
  have a: "area (4 * (?r div 32)) 4 (bm_data b)" by (rule long_area [OF assms])
  have v: "u32_ok ?v" using a by (simp add: u32_ok_and)
  have "clr_bit b n = Inr (?b, None)" using True assms a v
    by (auto simp: clr_bit_def out_of_range_def blk_range_def Let_def load_long_area store_long_area bit_mask_and
        free_set_def bit_at_def)
  moreover have "free_set ?b = free_set b - {n}"
    using bit_at_store [OF a v, of _ False] assms(2) by (auto simp: free_set_def split: if_splits)
  moreover have "bm_wf ?b" "bm_frame b ?b" using assms(1) a by (simp_all add: bm_wf_def bm_frame_def)
  ultimately show ?thesis using True by (intro exI [of _ ?b]) simp
qed

subsection \<open>Allocating and releasing\<close>

lemma dirty_step:
  assumes "b1 \<longleftrightarrow> b0 \<or> A1 \<noteq> A0" "b2 \<longleftrightarrow> b1 \<or> A2 \<noteq> A1" "A0 \<subseteq> A1 \<and> A1 \<subseteq> A2 \<or> A2 \<subseteq> A1 \<and> A1 \<subseteq> A0"
  shows "b2 \<longleftrightarrow> b0 \<or> A2 \<noteq> A0"
  using assms by auto

lemma set_bit_total:
  assumes "bm_wf b"
  shows "\<exists>b' x. set_bit b n = Inr (b', x) \<and> bm_wf b' \<and> bm_frame b b' \<and> bm_find_off b' = bm_find_off b \<and>
    free_set b' = free_set b \<union> ({n} \<inter> blk_range (bm_geo b)) \<and>
    bm_num_used b' + int (card (free_set b')) = bm_num_used b + int (card (free_set b)) \<and>
    (bm_dirty b' \<longleftrightarrow> bm_dirty b \<or> free_set b' \<noteq> free_set b)"
proof (cases "n \<in> blk_range (bm_geo b)")
  case True
  from set_bit_ok [OF assms True] obtain b' where "set_bit b n = Inr (b', None)" "bm_wf b'" "bm_frame b b'"
    "bm_find_off b' = bm_find_off b" "free_set b' = insert n (free_set b)"
    "bm_num_used b' = bm_num_used b - (if n \<in> free_set b then 0 else 1)"
    "bm_dirty b' \<longleftrightarrow> bm_dirty b \<or> n \<notin> free_set b" by blast
  with True show ?thesis by (auto simp: insert_absorb)
next
  case False
  then show ?thesis using assms by (auto simp: set_bit_def out_of_range_def blk_range_def)
qed

lemma dealloc_n_ok:
  assumes "bm_wf b"
  shows "\<exists>b'. dealloc_n ns b = Inr b' \<and> bm_wf b' \<and> bm_frame b b' \<and> bm_find_off b' = bm_find_off b \<and>
    free_set b' = free_set b \<union> (set ns \<inter> blk_range (bm_geo b)) \<and>
    bm_num_used b' + int (card (free_set b')) = bm_num_used b + int (card (free_set b)) \<and>
    (bm_dirty b' \<longleftrightarrow> bm_dirty b \<or> free_set b' \<noteq> free_set b)"
  using assms
proof (induction ns arbitrary: b)
  case (Cons n ns)
  from set_bit_total [OF Cons.prems, of n] obtain b1 x where b1: "set_bit b n = Inr (b1, x)" "bm_wf b1" "bm_frame b b1"
    "bm_find_off b1 = bm_find_off b" "free_set b1 = free_set b \<union> ({n} \<inter> blk_range (bm_geo b))"
    "bm_num_used b1 + int (card (free_set b1)) = bm_num_used b + int (card (free_set b))"
    "bm_dirty b1 \<longleftrightarrow> bm_dirty b \<or> free_set b1 \<noteq> free_set b" by blast
  from Cons.IH [OF b1(2)] obtain b2 where b2: "dealloc_n ns b1 = Inr b2" "bm_wf b2" "bm_frame b1 b2"
    "bm_find_off b2 = bm_find_off b1" "free_set b2 = free_set b1 \<union> (set ns \<inter> blk_range (bm_geo b1))"
    "bm_num_used b2 + int (card (free_set b2)) = bm_num_used b1 + int (card (free_set b1))"
    "bm_dirty b2 \<longleftrightarrow> bm_dirty b1 \<or> free_set b2 \<noteq> free_set b1" by blast
  have g: "bm_geo b1 = bm_geo b" using b1(3) by (rule bm_frame_geo)
  show ?case
  proof (intro exI [of _ b2] conjI)
    show "dealloc_n (n # ns) b = Inr b2" using b1(1) b2(1) by simp
    show "bm_frame b b2" using b1(3) b2(3) by (rule bm_frame_trans)
    show "free_set b2 = free_set b \<union> (set (n # ns) \<inter> blk_range (bm_geo b))" using b1(5) b2(5) g by auto
    show "bm_dirty b2 \<longleftrightarrow> bm_dirty b \<or> free_set b2 \<noteq> free_set b" by (rule dirty_step [OF b1(7) b2(7)]) (use b1(5) b2(5) in auto)
    show "bm_find_off b2 = bm_find_off b" using b1(4) b2(4) by simp
    show "bm_num_used b2 + int (card (free_set b2)) = bm_num_used b + int (card (free_set b))" using b1(6) b2(6) by (rule trans [rotated])
  qed (rule b2(2))
qed simp

lemma clr_bits_ok:
  assumes "bm_wf b" "set ns \<subseteq> blk_range (bm_geo b)"
  shows "\<exists>b'. clr_bits ns b = Inr b' \<and> bm_wf b' \<and> bm_frame b b' \<and> bm_find_off b' = bm_find_off b \<and>
    free_set b' = free_set b - set ns \<and>
    bm_num_used b' + int (card (free_set b')) = bm_num_used b + int (card (free_set b)) \<and>
    (bm_dirty b' \<longleftrightarrow> bm_dirty b \<or> free_set b' \<noteq> free_set b)"
  using assms
proof (induction ns arbitrary: b)
  case (Cons n ns)
  from clr_bit_ok [OF Cons.prems(1), of n] Cons.prems(2) obtain b1 where b1: "clr_bit b n = Inr (b1, None)" "bm_wf b1"
    "bm_frame b b1" "bm_find_off b1 = bm_find_off b" "free_set b1 = free_set b - {n}"
    "bm_num_used b1 = bm_num_used b + (if n \<in> free_set b then 1 else 0)"
    "bm_dirty b1 \<longleftrightarrow> bm_dirty b \<or> free_set b1 \<noteq> free_set b" by auto
  have g: "bm_geo b1 = bm_geo b" using b1(3) by (rule bm_frame_geo)
  have "set ns \<subseteq> blk_range (bm_geo b1)" using Cons.prems(2) g by simp
  from Cons.IH [OF b1(2) this] obtain b2 where b2: "clr_bits ns b1 = Inr b2" "bm_wf b2" "bm_frame b1 b2"
    "bm_find_off b2 = bm_find_off b1" "free_set b2 = free_set b1 - set ns"
    "bm_num_used b2 + int (card (free_set b2)) = bm_num_used b1 + int (card (free_set b1))"
    "bm_dirty b2 \<longleftrightarrow> bm_dirty b1 \<or> free_set b2 \<noteq> free_set b1" by blast
  have c: "bm_num_used b1 + int (card (free_set b1)) = bm_num_used b + int (card (free_set b))"
  proof (cases "n \<in> free_set b")
    case True
    have "Suc (card (free_set b1)) = card (free_set b)"
      unfolding b1(5) by (rule card_Suc_Diff1 [OF finite_free_set(1) True])
    with b1(6) True show ?thesis by simp
  qed (use b1(5,6) in simp)
  show ?case
  proof (intro exI [of _ b2] conjI)
    show "clr_bits (n # ns) b = Inr b2" using b1(1) b2(1) by simp
    show "bm_frame b b2" using b1(3) b2(3) by (rule bm_frame_trans)
    show "free_set b2 = free_set b - set (n # ns)" using b1(5) b2(5) by auto
    show "bm_dirty b2 \<longleftrightarrow> bm_dirty b \<or> free_set b2 \<noteq> free_set b" by (rule dirty_step [OF b1(7) b2(7)]) (use b1(5) b2(5) in auto)
    show "bm_find_off b2 = bm_find_off b" using b1(4) b2(4) by simp
    show "bm_num_used b2 + int (card (free_set b2)) = bm_num_used b + int (card (free_set b))" using c b2(6) by (rule trans [rotated])
  qed (rule b2(2))
qed simp

lemma count_bits_ok:
  assumes "bm_wf b"
  shows "{i..<i + int n} \<subseteq> blk_range (bm_geo b) \<Longrightarrow>
    count_bits free n i b = Inr (int (card {k \<in> {i..<i + int n}. (k \<in> free_set b) = free}))"
proof (induction n arbitrary: i)
  case (Suc n)
  have i: "i \<in> blk_range (bm_geo b)" "{i + 1..<i + 1 + int n} \<subseteq> blk_range (bm_geo b)" using Suc.prems by auto
  let ?S = "{k \<in> {i + 1..<i + 1 + int n}. (k \<in> free_set b) = free}"
  have "{i..<i + int (Suc n)} = insert i {i + 1..<i + 1 + int n}" by auto
  then have "{k \<in> {i..<i + int (Suc n)}. (k \<in> free_set b) = free} = (if (i \<in> free_set b) = free then insert i ?S else ?S)"
    by auto
  moreover have "card (insert i ?S) = Suc (card ?S)" by (subst card_insert_disjoint) (auto intro: finite_subset [of _ "{i..<i + 1 + int n}"])
  ultimately have "int (card {k \<in> {i..<i + int (Suc n)}. (k \<in> free_set b) = free}) =
      (if (i \<in> free_set b) = free then int (card ?S) + 1 else int (card ?S))" by simp
  moreover have "get_bit b i = Inr (Some (i \<in> free_set b))" using i(1) by (simp add: get_bit_ok [OF assms])
  ultimately show ?case using Suc.IH [OF i(2)] by simp
qed simp

lemma get_nums_ok:
  assumes "bm_wf b"
  shows "get_num_free b = Inr (int (card (free_set b)))" and "get_num_used b = Inr (int (card (used_set b)))"
proof -
  let ?g = "bm_geo b"
  have r: "{bg_reserved ?g..<bg_reserved ?g + int (nat (bm_bits ?g))} = blk_range ?g"
    using assms by (simp add: bm_wf_def bm_geo_ok_def bm_bits_def blk_range_def)
  have e: "{k \<in> blk_range ?g. (k \<in> free_set b) = True} = free_set b" "{k \<in> blk_range ?g. (k \<in> free_set b) = False} = used_set b"
    by (auto simp: free_set_def used_set_def)
  have c: "count_bits x (nat (bm_bits ?g)) (bg_reserved ?g) b = Inr (int (card {k \<in> blk_range ?g. (k \<in> free_set b) = x}))" for x
    using count_bits_ok [OF assms, of "bg_reserved ?g" "nat (bm_bits ?g)" x] unfolding r by simp
  show "get_num_free b = Inr (int (card (free_set b)))" unfolding get_num_free_def c e by (rule refl)
  show "get_num_used b = Inr (int (card (used_set b)))" unfolding get_num_used_def c e by (rule refl)
qed

lemma card_used: "bm_wf b \<Longrightarrow> int (card (used_set b)) = bm_bits (bm_geo b) - int (card (free_set b))"
proof -
  assume "bm_wf b"
  moreover have "card (used_set b) = card (blk_range (bm_geo b)) - card (free_set b)"
    unfolding used_set_def by (rule card_Diff_subset) (auto simp: free_set_def)
  moreover have "card (free_set b) \<le> card (blk_range (bm_geo b))" by (intro card_mono) (auto simp: free_set_def)
  ultimately show ?thesis by (simp add: bm_wf_def bm_geo_ok_def bm_bits_def blk_range_def of_nat_diff)
qed

subsection \<open>The search for free blocks\<close>

lemma scan_bits_ok:
  "int (length result) < num \<Longrightarrow>
     scan_bits val base num is result =
       (let r = result @ map (\<lambda>i. base + i) (filter (\<lambda>i. bit val (nat i)) is)
        in if num \<le> int (length r) then (take (nat num) r, True) else (r, False))"
proof (induction "is" arbitrary: result)
  case (Cons i "is")
  show ?case
  proof (cases "bit val (nat i)")
    case True
    then show ?thesis
    proof (cases "int (length result) + 1 = num")
      case True
      then have "nat num = Suc (length result)" by simp
      with \<open>bit val (nat i)\<close> True show ?thesis by (simp add: bit_mask_and Let_def)
    next
      case False
      with Cons.prems Cons.IH [of "result @ [base + i]"] True show ?thesis by (simp add: bit_mask_and Let_def)
    qed
  next
    case False
    with Cons show ?thesis by (simp add: bit_mask_and)
  qed
qed simp

definition long_blks :: "blk_geo \<Rightarrow> int \<Rightarrow> int list" where
  "long_blks g l = map (\<lambda>i. bg_reserved g + l * 32 + i) [0..(if l = bm_longs g - 1 then bm_last_long_bits g else 32) - 1]"

fun cyc_longs :: "int \<Rightarrow> nat \<Rightarrow> int \<Rightarrow> int list" where
  "cyc_longs L 0 l = []"
| "cyc_longs L (Suc n) l = l # cyc_longs L n (if l + 1 = L then 0 else l + 1)"

lemma last_long:
  assumes "bm_geo_ok g"
  shows "(bm_longs g - 1) * 32 + bm_last_long_bits g = bm_bits g" "0 < bm_last_long_bits g" "bm_last_long_bits g \<le> 32"
    "0 < bm_longs g"
proof -
  define q r where "q = bm_bits g div 32" and "r = bm_bits g mod 32"
  have b: "bm_bits g = 32 * q + r" "0 \<le> r" "r < 32" by (simp_all add: q_def r_def)
  have p: "0 < 32 * q + r" using assms b(1) by (simp add: bm_geo_ok_def bm_bits_def)
  have "bm_longs g = (if r = 0 then q else q + 1)" unfolding bm_longs_def b(1) using b(2,3)
    by (auto simp: add.assoc intro: div_pos_pos_trivial div_pos_geq)
  moreover have "bm_last_long_bits g = (if r = 0 then 32 else r)" by (simp add: bm_last_long_bits_def r_def Let_def)
  ultimately show "(bm_longs g - 1) * 32 + bm_last_long_bits g = bm_bits g" "0 < bm_last_long_bits g" "bm_last_long_bits g \<le> 32"
    "0 < bm_longs g"
    using b p by auto
qed

lemma set_long_blks:
  assumes "bm_geo_ok g" "0 \<le> l" "l < bm_longs g"
  shows "set (long_blks g l) = {n \<in> blk_range g. (n - bg_reserved g) div 32 = l}" and "distinct (long_blks g l)"
proof -
  let ?r = "bg_reserved g"
  have e: "bg_num_blocks g = ?r + (bm_longs g - 1) * 32 + bm_last_long_bits g" "0 < bm_last_long_bits g"
    "bm_last_long_bits g \<le> 32" using last_long [OF assms(1)] by (simp_all add: bm_bits_def)
  show "set (long_blks g l) = {n \<in> blk_range g. (n - ?r) div 32 = l}"
  proof (intro equalityI subsetI)
    fix n assume "n \<in> set (long_blks g l)"
    define i where "i = n - ?r - l * 32"
    have i: "n = ?r + l * 32 + i" "0 \<le> i" "i < (if l = bm_longs g - 1 then bm_last_long_bits g else 32)"
      using \<open>n \<in> _\<close> by (auto simp: long_blks_def i_def)
    then have "i < 32" using e(3) by (auto split: if_splits)
    then have "(n - ?r) div 32 = l" using i(1,2) by (simp add: div_add1_eq)
    moreover have "n < bg_num_blocks g" using i assms(3) e by (auto split: if_splits)
    ultimately show "n \<in> {n \<in> blk_range g. (n - ?r) div 32 = l}" using i assms(2) by (simp add: blk_range_def)
  next
    fix n assume n: "n \<in> {n \<in> blk_range g. (n - ?r) div 32 = l}"
    define i where "i = (n - ?r) mod 32"
    have "n - ?r = l * 32 + i" using n unfolding i_def by (metis (mono_tags, lifting) div_mult_mod_eq mem_Collect_eq)
    then have i: "n = ?r + l * 32 + i" "0 \<le> i" "i < 32" by (simp_all add: i_def)
    moreover have "l = bm_longs g - 1 \<Longrightarrow> i < bm_last_long_bits g" using n i e(1) by (simp add: blk_range_def)
    ultimately show "n \<in> set (long_blks g l)" by (auto simp: long_blks_def)
  qed
  show "distinct (long_blks g l)" by (simp add: long_blks_def distinct_map inj_on_def)
qed

lemma cyc_longs_map:
  "0 \<le> l \<Longrightarrow> l < L \<Longrightarrow> cyc_longs L n l = map (\<lambda>k. (l + int k) mod L) [0..<n]"
proof (induction n arbitrary: l)
  case (Suc n)
  have "cyc_longs L n (if l + 1 = L then 0 else l + 1) = map (\<lambda>k. (l + int (Suc k)) mod L) [0..<n]"
  proof (cases "l + 1 = L")
    case True
    have "(l + int (Suc k)) mod L = (0 + int k) mod L" for k
    proof -
      have "l + int (Suc k) = L + int k" using True by simp
      then show ?thesis by (metis add_0 mod_add_self1)
    qed
    with Suc True show ?thesis by simp
  next
    case False
    with Suc show ?thesis by (simp add: ac_simps)
  qed
  then show ?case using Suc.prems by (simp add: upt_conv_Cons map_Suc_upt [symmetric] o_def del: upt_Suc)
qed simp

lemma cyc_longs_all:
  assumes "0 \<le> l" "l < L"
  shows "set (cyc_longs L (nat L) l) = {0..<L}" and "distinct (cyc_longs L (nat L) l)"
proof -
  have inj: "inj_on (\<lambda>k. (l + int k) mod L) {0..<nat L}"
  proof (rule inj_onI)
    fix a b assume *: "a \<in> {0..<nat L}" "b \<in> {0..<nat L}" "(l + int a) mod L = (l + int b) mod L"
    then have "int a mod L = int b mod L" by (metis add.commute mod_add_right_eq add_diff_cancel_right' mod_diff_left_eq)
    with * show "a = b" by simp
  qed
  then show d: "distinct (cyc_longs L (nat L) l)" unfolding cyc_longs_map [OF assms] by (simp add: distinct_map)
  have "set (cyc_longs L (nat L) l) \<subseteq> {0..<L}" using assms by (auto simp: cyc_longs_map)
  moreover have "card (set (cyc_longs L (nat L) l)) = card {0..<L}"
    using distinct_card [OF d] by (simp add: cyc_longs_map [OF assms])
  ultimately show "set (cyc_longs L (nat L) l) = {0..<L}" by (simp add: card_subset_eq)
qed

lemma long_blks_concat:
  assumes "bm_geo_ok g" "distinct ls" "set ls \<subseteq> {0..<bm_longs g}"
  shows "distinct (concat (map (long_blks g) ls)) \<and>
    set (concat (map (long_blks g) ls)) = {n \<in> blk_range g. (n - bg_reserved g) div 32 \<in> set ls}"
  using assms(2,3) by (induction ls) (auto simp: set_long_blks [OF assms(1)])

lemma filter_long_blks:
  assumes "bm_geo_ok g"
  shows "filter (bit_at g d) (long_blks g l) =
    map (\<lambda>i. bg_reserved g + l * 32 + i) (filter (\<lambda>i. bit (slot d l) (nat i))
      [0..(if l = bm_longs g - 1 then bm_last_long_bits g else 32) - 1])"
  unfolding long_blks_def filter_map o_def
proof (intro arg_cong [where f = "map _"] filter_cong refl)
  fix i assume "i \<in> set [0..(if l = bm_longs g - 1 then bm_last_long_bits g else 32) - 1]"
  then have i: "0 \<le> i" "i < 32" using last_long(3) [OF assms] by (auto split: if_splits)
  have "(l * 32 + i) div 32 = l" "(l * 32 + i) mod 32 = i" using i by (simp_all add: div_add1_eq)
  then show "bit_at g d (bg_reserved g + l * 32 + i) \<longleftrightarrow> bit (slot d l) (nat i)"
    by (simp add: bit_at_def add.assoc)
qed

lemma find_longs_ok:
  assumes "bm_geo_ok g" "4 * bm_longs g \<le> int (length d)"
  shows "0 \<le> l \<Longrightarrow> l < bm_longs g \<Longrightarrow> int (length result) < num \<Longrightarrow>
    r = result @ filter (bit_at g d) (concat (map (long_blks g) (cyc_longs (bm_longs g) n l))) \<Longrightarrow>
    (if num \<le> int (length r)
     then \<exists>k. 0 \<le> k \<and> k < bm_longs g \<and> find_longs g d num n l result = Inr (Some (k, take (nat num) r))
     else find_longs g d num n l result = Inr None)"
proof (induction n arbitrary: l result r)
  case (Suc n)
  have ld: "load_long d l = Inr (slot d l)" using Suc.prems assms(2) by (simp add: load_long_area area_def)
  let ?fr = "filter (bit_at g d) (long_blks g l)" and ?n = "if l + 1 = bm_longs g then 0 else l + 1"
  have step: "(if slot d l \<noteq> 0
       then scan_bits (slot d l) (bg_reserved g + l * 32) num
              [0..(if l = bm_longs g - 1 then bm_last_long_bits g else 32) - 1] result
       else (result, False)) =
     (if num \<le> int (length (result @ ?fr)) then (take (nat num) (result @ ?fr), True) else (result @ ?fr, False))"
    using Suc.prems(3) by (simp add: scan_bits_ok filter_long_blks [OF assms(1)] Let_def)
  have r: "r = (result @ ?fr) @ filter (bit_at g d) (concat (map (long_blks g) (cyc_longs (bm_longs g) n ?n)))"
    using Suc.prems(4) by simp
  show ?case
  proof (cases "num \<le> int (length (result @ ?fr))")
    case True
    then have "find_longs g d num (Suc n) l result = Inr (Some (l, take (nat num) (result @ ?fr)))"
      by (simp only: find_longs.simps ld rbind_simps Let_def step if_True) simp
    moreover have "take (nat num) (result @ ?fr) = take (nat num) r" using True r by simp
    moreover have "num \<le> int (length r)" using True r by simp
    ultimately show ?thesis using Suc.prems(1,2) by auto
  next
    case False
    then have "find_longs g d num (Suc n) l result = find_longs g d num n ?n (result @ ?fr)"
      by (simp only: find_longs.simps ld rbind_simps Let_def step if_False) simp
    moreover have "0 \<le> ?n" "?n < bm_longs g" "int (length (result @ ?fr)) < num" using Suc.prems(1,2) False by auto
    ultimately show ?thesis using Suc.IH [OF _ _ _ r] by simp
  qed
qed simp

text \<open>The free blocks in the order the search meets them.\<close>

definition free_order :: "adfs_bitmap \<Rightarrow> int list" where
  "free_order b = filter (bit_at (bm_geo b) (bm_data b))
     (concat (map (long_blks (bm_geo b)) (cyc_longs (bm_longs (bm_geo b)) (nat (bm_longs (bm_geo b))) (bm_find_off b))))"

lemma free_order_ok:
  assumes "bm_wf b"
  shows "distinct (free_order b)" "set (free_order b) = free_set b"
proof -
  let ?g = "bm_geo b"
  have g: "bm_geo_ok ?g" and f: "0 \<le> bm_find_off b" "bm_find_off b < bm_longs ?g" using assms by (simp_all add: bm_wf_def)
  note c = cyc_longs_all [OF f]
  note l = long_blks_concat [OF g c(2)]
  from l c(1) show "distinct (free_order b)" unfolding free_order_def by (intro distinct_filter) blast
  have "(n - bg_reserved ?g) div 32 \<in> {0..<bm_longs ?g}" if "n \<in> blk_range ?g" for n
    using long_index [of "n - bg_reserved ?g" "bm_bits ?g"] that by (auto simp: blk_range_def bm_longs_def bm_bits_def)
  then have "{n \<in> blk_range ?g. (n - bg_reserved ?g) div 32 \<in> {0..<bm_longs ?g}} = blk_range ?g" by blast
  with l c(1) show "set (free_order b) = free_set b" unfolding free_order_def free_set_def by auto
qed

lemma length_free_order: "bm_wf b \<Longrightarrow> length (free_order b) = card (free_set b)"
  using distinct_card [of "free_order b"] by (simp add: free_order_ok)

lemma find_n_free_ok:
  assumes "bm_wf b" "0 < num"
  shows "if num \<le> int (card (free_set b))
    then \<exists>k. 0 \<le> k \<and> k < bm_longs (bm_geo b) \<and>
      find_n_free b num = Inr (b\<lparr>bm_find_off := k\<rparr>, Some (take (nat num) (free_order b)))
    else find_n_free b num = Inr (b, None)"
proof -
  have l: "int (length (free_order b)) = int (card (free_set b))"
    using length_free_order [OF assms(1)] by simp
  have "bm_geo_ok (bm_geo b)" "4 * bm_longs (bm_geo b) \<le> int (length (bm_data b))" "0 \<le> bm_find_off b"
    "bm_find_off b < bm_longs (bm_geo b)" using assms(1) by (simp_all add: bm_wf_def)
  note g = this
  have p: "int (length ([] :: int list)) < num" "free_order b = [] @ filter (bit_at (bm_geo b) (bm_data b))
     (concat (map (long_blks (bm_geo b)) (cyc_longs (bm_longs (bm_geo b)) (nat (bm_longs (bm_geo b))) (bm_find_off b))))"
    using assms(2) by (simp_all add: free_order_def)
  have f: "if num \<le> int (card (free_set b))
    then \<exists>k. 0 \<le> k \<and> k < bm_longs (bm_geo b) \<and>
      find_longs (bm_geo b) (bm_data b) num (nat (bm_longs (bm_geo b))) (bm_find_off b) [] =
        Inr (Some (k, take (nat num) (free_order b)))
    else find_longs (bm_geo b) (bm_data b) num (nat (bm_longs (bm_geo b))) (bm_find_off b) [] = Inr None"
    using find_longs_ok [OF g p] unfolding l .
  show ?thesis
  proof (cases "num \<le> int (card (free_set b))")
    case True
    with f show ?thesis by (auto simp: find_n_free_def)
  next
    case False
    with f show ?thesis by (simp add: find_n_free_def)
  qed
qed

lemma find_free_ok:
  assumes "bm_wf b"
  shows "if free_set b = {} then find_free b = Inr (b, None)
    else \<exists>k x. find_free b = Inr (b\<lparr>bm_find_off := k\<rparr>, Some x) \<and> x \<in> free_set b"
proof (cases "free_order b")
  case Nil
  then have "free_set b = {}" using free_order_ok(2) [OF assms] by simp
  with find_n_free_ok [OF assms, of 1] show ?thesis by (simp add: find_free_def)
next
  case (Cons x xs)
  then have x: "x \<in> free_set b" using free_order_ok(2) [OF assms] by auto
  then have "1 \<le> int (card (free_set b))" by (metis card_gt_0_iff empty_iff finite_free_set(1) of_nat_0_less_iff int_one_le_iff_zero_less)
  with find_n_free_ok [OF assms, of 1] x Cons show ?thesis by (auto simp: find_free_def)
qed

lemma diff_smaller: "A \<subseteq> B \<Longrightarrow> A \<noteq> {} \<Longrightarrow> B - A \<noteq> B"
  by blast

lemma alloc_n_ok:
  assumes "bm_wf b" "0 < num"
  shows "if num \<le> int (card (free_set b))
    then \<exists>b' blks. alloc_n b num = Inr (b', Some blks) \<and> int (length blks) = num \<and> distinct blks \<and>
      set blks \<subseteq> free_set b \<and> free_set b' = free_set b - set blks \<and> bm_wf b' \<and> bm_frame b b' \<and> bm_dirty b' \<and>
      bm_num_used b' = bm_num_used b + num
    else alloc_n b num = Inr (b, None)"
proof (cases "num \<le> int (card (free_set b))")
  case True
  with find_n_free_ok [OF assms] obtain k where k: "0 \<le> k" "k < bm_longs (bm_geo b)"
    "find_n_free b num = Inr (b\<lparr>bm_find_off := k\<rparr>, Some (take (nat num) (free_order b)))" by auto
  let ?b = "b\<lparr>bm_find_off := k\<rparr>" and ?blks = "take (nat num) (free_order b)"
  have wf: "bm_wf ?b" and fs: "free_set ?b = free_set b" and fr: "bm_frame b ?b"
    using assms(1) k by (simp_all add: bm_wf_def free_set_def bm_frame_def)
  have d: "distinct ?blks" using free_order_ok [OF assms(1)] by simp
  have sub: "set ?blks \<subseteq> free_set b" unfolding free_order_ok(2) [OF assms(1), symmetric] by (rule set_take_subset)
  have len: "int (length ?blks) = num"
    using True assms(2) length_free_order [OF assms(1)] by simp
  have "free_set b \<subseteq> blk_range (bm_geo ?b)" by (auto simp: free_set_def)
  from clr_bits_ok [OF wf subset_trans [OF sub this]] obtain b' where b': "clr_bits ?blks ?b = Inr b'" "bm_wf b'" "bm_frame ?b b'"
    "free_set b' = free_set b - set ?blks"
    "bm_num_used b' + int (card (free_set b')) = bm_num_used b + int (card (free_set b))"
    "bm_dirty b' \<longleftrightarrow> bm_dirty ?b \<or> free_set b' \<noteq> free_set b"
    unfolding fs adfs_bitmap.select_convs adfs_bitmap.update_convs by fastforce
  have "set ?blks \<noteq> {}"
  proof
    assume "set ?blks = {}"
    then have "?blks = []" by (simp only: set_empty)
    then show False using len assms(2) by simp
  qed
  then have "free_set b' \<noteq> free_set b" unfolding b'(4) by (rule diff_smaller [OF sub])
  moreover have "card (free_set b') = card (free_set b) - card (set ?blks)" "card (set ?blks) \<le> card (free_set b)"
    unfolding b'(4) using sub by (simp_all add: card_Diff_subset card_mono)
  moreover have "int (card (set ?blks)) = num" using distinct_card [OF d] len by simp
  ultimately have n: "bm_num_used b' = bm_num_used b + num" "bm_dirty b'" using b'(5,6) by (auto simp: of_nat_diff)
  have "alloc_n b num = Inr (b', Some ?blks)" unfolding alloc_n_def k(3) by (simp only: rbind_simps prod.case option.case b'(1))
  then have "\<exists>b' blks. alloc_n b num = Inr (b', Some blks) \<and> int (length blks) = num \<and> distinct blks \<and>
      set blks \<subseteq> free_set b \<and> free_set b' = free_set b - set blks \<and> bm_wf b' \<and> bm_frame b b' \<and> bm_dirty b' \<and>
      bm_num_used b' = bm_num_used b + num"
    using d sub len b'(2,4) n bm_frame_trans [OF fr b'(3)] by blast
  then show ?thesis by (simp only: if_P [OF True])
next
  case False
  with find_n_free_ok [OF assms] show ?thesis by (simp add: alloc_n_def)
qed

subsection \<open>The layout on disk\<close>

text \<open>What ties the state of a bitmap to its blocks: the pointers in the root block and in the chain
  of extension blocks name exactly the bitmap blocks, and no block is used twice.\<close>

fun chain_ok :: "int \<Rightarrow> bm_ext list \<Rightarrow> bool" where
  "chain_ok n [] \<longleftrightarrow> n = 0"
| "chain_ok n (e # es) \<longleftrightarrow> n \<noteq> 0 \<and> be_num e = n \<and> chain_ok (be_next e) es"

definition ptrs_of :: "int list \<Rightarrow> int list" where
  "ptrs_of ps = takeWhile (\<lambda>n. n \<noteq> 0) ps"

definition ext_ptrs :: "bm_ext \<Rightarrow> int list" where
  "ext_ptrs e = ptrs_of (be_ptrs e)"

definition ext_ok :: "int \<Rightarrow> bm_ext \<Rightarrow> bool" where
  "ext_ok bl e \<longleftrightarrow> int (length (be_ptrs e)) = bl - 1 \<and> longs_ok (be_next e # be_ptrs e)"

definition bm_nums :: "adfs_bitmap \<Rightarrow> int list" where
  "bm_nums b = bm_root_num b # map be_num (bm_ext_blks b) @ bm_blks b"

definition bm_layout :: "adfs_bitmap \<Rightarrow> bool" where
  "bm_layout b \<longleftrightarrow>
     root_ok (bg_block_longs (bm_geo b)) (bm_root b) \<and> bg_block_bytes (bm_geo b) = 4 * bg_block_longs (bm_geo b) \<and>
     u32_ok (bm_num_used b) \<and> chain_ok (rb_bitmap_ext_blk (bm_root b)) (bm_ext_blks b) \<and>
     (\<forall>e \<in> set (bm_ext_blks b). ext_ok (bg_block_longs (bm_geo b)) e) \<and>
     bm_blks b = ptrs_of (rb_bitmap_ptrs (bm_root b)) @ concat (map ext_ptrs (bm_ext_blks b)) \<and>
     int (length (bm_blks b)) = bm_num_blks (bm_geo b) \<and> int (length (bm_data b)) = bm_all_blk_bytes (bm_geo b) \<and>
     distinct (bm_nums b) \<and> set (bm_nums b) \<subseteq> {0..<bg_num_blocks (bm_geo b)}"

lemma bm_layout_frame:
  "bm_layout b \<Longrightarrow> bm_frame b b' \<Longrightarrow> u32_ok (bm_num_used b') \<Longrightarrow> bm_layout b'"
proof -
  assume l: "bm_layout b" and f: "bm_frame b b'" and u: "u32_ok (bm_num_used b')"
  from f have e: "bm_geo b' = bm_geo b" "bm_root_num b' = bm_root_num b" "bm_root b' = bm_root b"
    "bm_ext_blks b' = bm_ext_blks b" "bm_blks b' = bm_blks b" "length (bm_data b') = length (bm_data b)"
    by (simp_all add: bm_frame_def)
  show "bm_layout b'" using l u unfolding bm_layout_def bm_nums_def e by blast
qed

lemma bitmap_block_roundtrip:
  assumes "2 \<le> bl" "int (length x) = 4 * bl - 4"
  shows "\<exists>bs. bitmap_block_write bl x = Inr bs \<and> int (length bs) = 4 * bl \<and> bitmap_block_read bl bs = Inr (Some x)"
proof -
  let ?d = "take 4 (create_data bl) @ x"
  have d: "blk_ok bl ?d" and l: "length (take 4 (create_data bl)) = 4" using assms by (auto simp: blk_ok_def create_data_def)
  from put_chksum_ok [OF d, of 0] assms obtain c where c: "u32_ok c"
    "put_chksum bl 0 ?d = Inr (bput 0 (be_bytes 4 c) ?d)" "calc_chksum bl 0 (bput 0 (be_bytes 4 c) ?d) = Inr c" by auto
  let ?bs = "bput 0 (be_bytes 4 c) ?d"
  have bs: "?bs = be_bytes 4 c @ x" using l by (simp add: bput_def)
  have ok: "blk_ok bl ?bs" using assms unfolding bs blk_ok_def by simp
  have "slot ?bs 0 = c" using c(1) unfolding bs by (intro slot_area) (simp_all add: bget_def)
  then have "get_long bl 0 ?bs = Inr c" using ok assms by (simp add: get_long_slot)
  moreover obtain st where "get_long bl (-1) ?bs = Inr st" using ok assms by (simp add: get_long_slot)
  ultimately have "bitmap_block_read bl ?bs = Inr (Some x)"
    using c(3) by (simp add: bitmap_block_read_def block_read_def Let_def) (simp add: bs)
  moreover have "bitmap_block_write bl x = Inr ?bs" using c(2) by (simp add: bitmap_block_write_def block_write_def put_types_def)
  ultimately show ?thesis using ok by (auto simp: blk_ok_def)
qed

text \<open>The data of the bitmap blocks, cut from the bitmap.\<close>

fun bm_chunks :: "nat \<Rightarrow> int \<Rightarrow> byte list \<Rightarrow> int \<Rightarrow> byte list list" where
  "bm_chunks 0 bytes data off = []"
| "bm_chunks (Suc n) bytes data off = py_slice data off (off + bytes) # bm_chunks n bytes data (off + bytes)"

lemma length_bm_chunks [simp]: "length (bm_chunks n bytes data off) = n"
  by (induction n bytes data off rule: bm_chunks.induct) auto

lemma bm_chunks_concat:
  "0 \<le> bytes \<Longrightarrow> 0 \<le> off \<Longrightarrow> off + int n * bytes = int (length data) \<Longrightarrow>
     concat (bm_chunks n bytes data off) = drop (nat off) data \<and> (\<forall>c \<in> set (bm_chunks n bytes data off). int (length c) = bytes)"
proof (induction n arbitrary: off)
  case (Suc n)
  have "0 \<le> bytes * int n" using Suc.prems(1) by simp
  moreover have "off + bytes + bytes * int n = int (length data)" using Suc.prems(3) by (simp add: algebra_simps)
  ultimately have le: "off + bytes \<le> int (length data)" by linarith
  have s: "py_slice data off (off + bytes) = take (nat bytes) (drop (nat off) data)"
    using Suc.prems le by (simp add: py_slice_in)
  have "concat (bm_chunks n bytes data (off + bytes)) = drop (nat (off + bytes)) data"
    "\<forall>c \<in> set (bm_chunks n bytes data (off + bytes)). int (length c) = bytes"
    using Suc.IH [of "off + bytes"] Suc.prems by (auto simp: algebra_simps)
  moreover have "drop (nat (off + bytes)) data = drop (nat bytes) (drop (nat off) data)"
    using Suc.prems by (simp add: nat_add_distrib add.commute)
  ultimately have "concat (bm_chunks (Suc n) bytes data off) = take (nat bytes) (drop (nat off) data) @ drop (nat bytes) (drop (nat off) data)"
    using s by (simp only: bm_chunks.simps concat.simps)
  then have "concat (bm_chunks (Suc n) bytes data off) = drop (nat off) data" by (simp only: append_take_drop_id)
  moreover have "int (length (py_slice data off (off + bytes))) = bytes" using s le Suc.prems by auto
  ultimately show ?case using \<open>\<forall>c \<in> set (bm_chunks n bytes data (off + bytes)). int (length c) = bytes\<close> by simp
qed simp

context block_device
begin

lemma write_all_append: "write_all (us @ ws) d = rbind (write_all us d) (write_all ws)"
  by (induction us arbitrary: d) (auto simp: rbind_def split: sum.splits)

lemma write_exts_all:
  assumes "2 \<le> bl" "\<forall>e \<in> set es. ext_ok bl e"
  shows "\<exists>ws. write_exts wr_blk bl es = write_all ws \<and> map fst ws = map be_num es \<and>
    (\<forall>(n, bs) \<in> set ws. int (length bs) = 4 * bl) \<and>
    (\<forall>e \<in> set es. \<exists>bs. (be_num e, bs) \<in> set ws \<and> bitmap_ext_read bl bs = Inr (be_ptrs e, be_next e))"
  using assms(2)
proof (induction es)
  case (Cons e es)
  then obtain ws where ws: "write_exts wr_blk bl es = write_all ws" "map fst ws = map be_num es"
    "\<forall>(n, bs) \<in> set ws. int (length bs) = 4 * bl"
    "\<forall>e \<in> set es. \<exists>bs. (be_num e, bs) \<in> set ws \<and> bitmap_ext_read bl bs = Inr (be_ptrs e, be_next e)" by auto
  from Cons.prems have "int (length (be_ptrs e)) = bl - 1" "longs_ok (be_next e # be_ptrs e)" by (simp_all add: ext_ok_def)
  from bitmap_ext_roundtrip [OF assms(1) this] obtain bs where bs: "bitmap_ext_write bl (be_ptrs e) (be_next e) = Inr bs"
    "int (length bs) = 4 * bl" "bitmap_ext_read bl bs = Inr (be_ptrs e, be_next e)" by blast
  show ?case
  proof (intro exI [of _ "(be_num e, bs) # ws"] conjI)
    show "write_exts wr_blk bl (e # es) = write_all ((be_num e, bs) # ws)" using bs(1) ws(1) by (intro ext) simp
    show "\<forall>a \<in> set (e # es). \<exists>c. (be_num a, c) \<in> set ((be_num e, bs) # ws) \<and> bitmap_ext_read bl c = Inr (be_ptrs a, be_next a)"
      using bs(3) ws(4) by auto
  qed (use bs(2) ws(2,3) in simp_all)
qed (auto intro!: exI [of _ "[]"] ext)

lemma write_bms_all:
  assumes "2 \<le> bl" "\<forall>c \<in> set (bm_chunks (length ns) k data off). int (length c) = 4 * bl - 4"
  shows "\<exists>ws. write_bms wr_blk bl k ns data off = write_all ws \<and> map fst ws = ns \<and>
    (\<forall>(n, bs) \<in> set ws. int (length bs) = 4 * bl) \<and>
    (\<forall>(n, c) \<in> set (zip ns (bm_chunks (length ns) k data off)). \<exists>bs. (n, bs) \<in> set ws \<and> bitmap_block_read bl bs = Inr (Some c))"
  using assms(2)
proof (induction ns arbitrary: off)
  case (Cons n ns)
  then have "\<forall>c \<in> set (bm_chunks (length ns) k data (off + k)). int (length c) = 4 * bl - 4" by simp
  from Cons.IH [OF this] obtain ws where ws: "write_bms wr_blk bl k ns data (off + k) = write_all ws"
    "map fst ws = ns" "\<forall>(n, bs) \<in> set ws. int (length bs) = 4 * bl"
    "\<forall>(n, c) \<in> set (zip ns (bm_chunks (length ns) k data (off + k))). \<exists>bs. (n, bs) \<in> set ws \<and> bitmap_block_read bl bs = Inr (Some c)"
    by blast
  from Cons.prems bitmap_block_roundtrip [OF assms(1)] obtain bs where bs: "bitmap_block_write bl (py_slice data off (off + k)) = Inr bs"
    "int (length bs) = 4 * bl" "bitmap_block_read bl bs = Inr (Some (py_slice data off (off + k)))" by auto
  show ?case
  proof (intro exI [of _ "(n, bs) # ws"] conjI)
    show "write_bms wr_blk bl k (n # ns) data off = write_all ((n, bs) # ws)" using bs(1) ws(1) by (intro ext) simp
    show "\<forall>(m, c) \<in> set (zip (n # ns) (bm_chunks (length (n # ns)) k data off)).
        \<exists>x. (m, x) \<in> set ((n, bs) # ws) \<and> bitmap_block_read bl x = Inr (Some c)"
      using bs(3) ws(4) by auto
  qed (use bs(2) ws(2,3) in simp_all)
qed (auto intro!: exI [of _ "[]"] ext)

text \<open>Reading does not change what the blocks hold.\<close>

definition same_blocks :: "'d \<Rightarrow> 'd \<Rightarrow> bool" where
  "same_blocks d d' \<longleftrightarrow> wf d' \<and> num d' = num d \<and> bytes d' = bytes d \<and>
     (\<forall>c. 0 \<le> c \<and> c < num d \<longrightarrow> snd (rd_blk d' c) = snd (rd_blk d c))"

definition block_is :: "'d \<Rightarrow> int \<Rightarrow> byte list \<Rightarrow> bool" where
  "block_is d n bs \<longleftrightarrow> 0 \<le> n \<and> n < num d \<and> int (length bs) = bytes d \<and> snd (rd_blk d n) = Inr bs"

lemma same_blocks_trans: "same_blocks a b \<Longrightarrow> same_blocks b c \<Longrightarrow> same_blocks a c"
  by (simp add: same_blocks_def)

lemma same_block_is: "same_blocks d d' \<Longrightarrow> block_is d' n bs = block_is d n bs"
  by (auto simp: same_blocks_def block_is_def)

lemma same_blocks_wf: "same_blocks d d' \<Longrightarrow> wf d' \<and> bytes d' = bytes d"
  by (simp add: same_blocks_def)

lemma read_data_ok:
  assumes "wf d" "block_is d n bs" "bg_block_bytes g = bytes d"
  shows "\<exists>d'. read_data rd_blk g n d = (d', Inr bs) \<and> same_blocks d d'"
proof -
  from read_ok [OF assms(1), of n] assms(2) obtain d' where "rd_blk d n = (d', Inr bs)" "same_blocks d d'"
    by (auto simp: block_is_def same_blocks_def)
  with assms(2,3) show ?thesis by (simp add: read_data_def block_is_def)
qed

definition bm_block_is :: "'d \<Rightarrow> int \<Rightarrow> (int \<Rightarrow> byte list) \<Rightarrow> int \<Rightarrow> bool" where
  "bm_block_is d bl dat n \<longleftrightarrow> (\<exists>bs. block_is d n bs \<and> bitmap_block_read bl bs = Inr (Some (dat n)))"

lemma read_bms_ok:
  assumes "wf d" "bg_block_bytes g = bytes d" "\<forall>n \<in> set (ptrs_of ns). bm_block_is d (bg_block_longs g) dat n"
  shows "\<exists>d'. read_bms rd_blk g ns (blks, data) d =
    (d', Inr (blks @ ptrs_of ns, data @ concat (map dat (ptrs_of ns)))) \<and> same_blocks d d'"
  using assms
proof (induction ns arbitrary: d blks data)
  case (Cons n ns)
  show ?case
  proof (cases "n = 0")
    case False
    with Cons.prems(3) obtain bs where bs: "block_is d n bs" "bitmap_block_read (bg_block_longs g) bs = Inr (Some (dat n))"
      by (auto simp: ptrs_of_def bm_block_is_def)
    from read_data_ok [OF Cons.prems(1) bs(1) Cons.prems(2)] obtain d1 where d1: "read_data rd_blk g n d = (d1, Inr bs)"
      "same_blocks d d1" by blast
    have "\<forall>n \<in> set (ptrs_of ns). bm_block_is d1 (bg_block_longs g) dat n"
      using Cons.prems(3) False same_block_is [OF d1(2)] by (simp add: ptrs_of_def bm_block_is_def)
    from Cons.IH [OF _ _ this, of "blks @ [n]" "data @ dat n"] same_blocks_wf [OF d1(2)] Cons.prems(2)
    obtain d2 where "read_bms rd_blk g ns (blks @ [n], data @ dat n) d1 =
        (d2, Inr ((blks @ [n]) @ ptrs_of ns, (data @ dat n) @ concat (map dat (ptrs_of ns))))" "same_blocks d1 d2" by auto
    with False d1 bs(2) same_blocks_trans [OF d1(2)] show ?thesis by (auto simp: ptrs_of_def)
  qed (use Cons.prems in \<open>simp add: ptrs_of_def same_blocks_def\<close>)
qed (simp add: ptrs_of_def same_blocks_def)

definition ext_block_is :: "'d \<Rightarrow> int \<Rightarrow> bm_ext \<Rightarrow> bool" where
  "ext_block_is d bl e \<longleftrightarrow> (\<exists>bs. block_is d (be_num e) bs \<and> bitmap_ext_read bl bs = Inr (be_ptrs e, be_next e))"

lemma read_exts_ok:
  assumes "wf d" "bg_block_bytes g = bytes d" "chain_ok n es" "\<forall>e \<in> set es. ext_block_is d (bg_block_longs g) e"
    and "\<forall>n \<in> set (concat (map ext_ptrs es)). bm_block_is d (bg_block_longs g) dat n"
  shows "\<exists>d'. read_exts rd_blk g n exts (blks, data) d =
    Some (d', Inr (exts @ es, blks @ concat (map ext_ptrs es),
      data @ concat (map dat (concat (map ext_ptrs es))))) \<and> same_blocks d d'"
  using assms
proof (induction es arbitrary: n d exts blks data)
  case Nil
  then show ?case by (simp add: read_exts.simps same_blocks_def)
next
  case (Cons e es)
  from Cons.prems(3,4) obtain bs where n: "n \<noteq> 0" "be_num e = n" "chain_ok (be_next e) es" and
    bs: "block_is d n bs" "bitmap_ext_read (bg_block_longs g) bs = Inr (be_ptrs e, be_next e)" by (auto simp: ext_block_is_def)
  from read_data_ok [OF Cons.prems(1) bs(1) Cons.prems(2)] obtain d1 where d1: "read_data rd_blk g n d = (d1, Inr bs)"
    "same_blocks d d1" by blast
  note w1 = same_blocks_wf [OF d1(2)]
  have "\<forall>n \<in> set (ptrs_of (be_ptrs e)). bm_block_is d1 (bg_block_longs g) dat n"
    using Cons.prems(5) same_block_is [OF d1(2)] by (simp add: bm_block_is_def ext_ptrs_def)
  from read_bms_ok [OF _ _ this, of blks data] w1 Cons.prems(2) obtain d2 where d2:
    "read_bms rd_blk g (be_ptrs e) (blks, data) d1 =
      (d2, Inr (blks @ ptrs_of (be_ptrs e), data @ concat (map dat (ptrs_of (be_ptrs e)))))" "same_blocks d1 d2" by auto
  note w2 = same_blocks_wf [OF d2(2)] and s2 = same_blocks_trans [OF d1(2) d2(2)]
  have "\<forall>e \<in> set es. ext_block_is d2 (bg_block_longs g) e"
    "\<forall>n \<in> set (concat (map ext_ptrs es)). bm_block_is d2 (bg_block_longs g) dat n"
    using Cons.prems(4,5) same_block_is [OF s2] by (simp_all add: bm_block_is_def ext_block_is_def)
  from Cons.IH [OF _ _ n(3) this, of "exts @ [e]" "blks @ ptrs_of (be_ptrs e)" "data @ concat (map dat (ptrs_of (be_ptrs e)))"]
    w1 w2 Cons.prems(2) obtain d3 where d3: "read_exts rd_blk g (be_next e) (exts @ [e])
      (blks @ ptrs_of (be_ptrs e), data @ concat (map dat (ptrs_of (be_ptrs e)))) d2 =
      Some (d3, Inr ((exts @ [e]) @ es, (blks @ ptrs_of (be_ptrs e)) @ concat (map ext_ptrs es),
        (data @ concat (map dat (ptrs_of (be_ptrs e)))) @ concat (map dat (concat (map ext_ptrs es)))))"
    "same_blocks d2 d3" by auto
  have e: "\<lparr>be_num = n, be_ptrs = be_ptrs e, be_next = be_next e\<rparr> = e" using n(2) by simp
  show ?case
    by (rule exI [of _ d3]) (use n(1) d1(1) d2(1) d3 bs(2) e same_blocks_trans [OF s2 d3(2)] in
      \<open>simp add: read_exts.simps [of rd_blk g n] ext_ptrs_def [of e]\<close>)
qed

end

lemma map_of_zip_list:
  "distinct xs \<Longrightarrow> length xs = length ys \<Longrightarrow> map (\<lambda>x. the (map_of (zip xs ys) x)) xs = ys"
proof (induction xs ys rule: list_induct2')
  case (4 x xs y ys)
  then have "map (\<lambda>z. the (map_of (zip (x # xs) (y # ys)) z)) xs = map (\<lambda>z. the (map_of (zip xs ys) z)) xs"
    by (intro map_cong) auto
  with 4 show ?case by simp
qed auto

text \<open>The root block as it is written: file systems that track the used blocks get their number.\<close>

definition bm_root_out :: "adfs_bitmap \<Rightarrow> root_block" where
  "bm_root_out b = (if rootblock_tracks_used_blocks (rb_fstype (bm_root b))
     then (bm_root b)\<lparr>rb_blocks_used := bm_num_used b\<rparr> else bm_root b)"

lemma bm_root_out_simps [simp]:
  "rb_bitmap_ptrs (bm_root_out b) = rb_bitmap_ptrs (bm_root b)"
  "rb_bitmap_ext_blk (bm_root_out b) = rb_bitmap_ext_blk (bm_root b)"
  "rb_fstype (bm_root_out b) = rb_fstype (bm_root b)"
  by (simp_all add: bm_root_out_def)

lemma root_norm_simps [simp]:
  "rb_bitmap_ptrs (root_norm r) = rb_bitmap_ptrs r" "rb_bitmap_ext_blk (root_norm r) = rb_bitmap_ext_blk r"
  "rb_fstype (root_norm r) = rb_fstype r" "rb_blocks_used (root_norm r) = rb_blocks_used r"
  by (simp_all add: root_norm_def)

lemma bm_root_out_ok: "root_ok bl (bm_root b) \<Longrightarrow> u32_ok (bm_num_used b) \<Longrightarrow> root_ok bl (bm_root_out b)"
  by (simp add: bm_root_out_def root_ok_def longs_ok_def)

lemma bm_write_eq:
  assumes "bm_dirty b" "g = bm_geo b"
  shows "bm_write wr b d =
    rbind (write_exts wr (bg_block_longs g) (bm_ext_blks b) d) (\<lambda>d1.
    rbind (write_bms wr (bg_block_longs g) (bm_blk_bytes g) (bm_blks b) (bm_data b) 0 d1) (\<lambda>d2.
    rbind (root_write (bg_block_longs g) (bm_root_out b)) (\<lambda>bs. rbind (wr d2 (bm_root_num b) bs) (\<lambda>d3.
      Inr (b\<lparr>bm_root := bm_root_out b, bm_dirty := False\<rparr>, d3)))))"
  using assms by (simp add: bm_write_def Let_def bm_root_out_def)

context block_device
begin

lemma bm_write_blocks:
  assumes "wf d" "num d = bg_num_blocks (bm_geo b)" "bytes d = bg_block_bytes (bm_geo b)" "bm_layout b" "bm_dirty b"
  shows "\<exists>d' rbs dat. bm_write wr_blk b d = Inr (b\<lparr>bm_root := bm_root_out b, bm_dirty := False\<rparr>, d') \<and>
    wf d' \<and> num d' = num d \<and> bytes d' = bytes d \<and>
    (\<forall>c. 0 \<le> c \<and> c < num d \<and> c \<notin> set (bm_nums b) \<longrightarrow> snd (rd_blk d' c) = snd (rd_blk d c)) \<and>
    block_is d' (bm_root_num b) rbs \<and>
    root_read (bg_block_longs (bm_geo b)) rbs = Inr (Some (root_norm (bm_root_out b))) \<and>
    (\<forall>e \<in> set (bm_ext_blks b). ext_block_is d' (bg_block_longs (bm_geo b)) e) \<and>
    (\<forall>n \<in> set (bm_blks b). bm_block_is d' (bg_block_longs (bm_geo b)) dat n) \<and>
    concat (map dat (bm_blks b)) = bm_data b"
proof -
  let ?g = "bm_geo b" and ?bl = "bg_block_longs (bm_geo b)" and ?cs = "bm_chunks (length (bm_blks b)) (bm_blk_bytes (bm_geo b)) (bm_data b) 0"
  have L: "root_ok ?bl (bm_root b)" "bg_block_bytes ?g = 4 * ?bl" "u32_ok (bm_num_used b)"
    "\<forall>e \<in> set (bm_ext_blks b). ext_ok ?bl e" "int (length (bm_blks b)) = bm_num_blks ?g"
    "int (length (bm_data b)) = bm_all_blk_bytes ?g" "distinct (bm_nums b)" "set (bm_nums b) \<subseteq> {0..<bg_num_blocks ?g}"
    using assms(4) unfolding bm_layout_def by blast+
  have bl: "2 \<le> ?bl" "128 \<le> ?bl" using L(1) by (simp_all add: root_ok_def)
  have bb: "bm_blk_bytes ?g = 4 * ?bl - 4" using L(2) by (simp add: bm_blk_bytes_def)
  have "0 + int (length (bm_blks b)) * bm_blk_bytes ?g = int (length (bm_data b))" using L(5,6) by (simp add: bm_all_blk_bytes_def)
  from bm_chunks_concat [OF _ _ this] bl bb have cs: "concat ?cs = bm_data b" "\<forall>c \<in> set ?cs. int (length c) = 4 * ?bl - 4" by auto
  from write_exts_all [OF bl(1) L(4)] obtain ws1 where ws1: "write_exts wr_blk ?bl (bm_ext_blks b) = write_all ws1"
    "map fst ws1 = map be_num (bm_ext_blks b)" "\<forall>(n, bs) \<in> set ws1. int (length bs) = 4 * ?bl"
    "\<forall>e \<in> set (bm_ext_blks b). \<exists>bs. (be_num e, bs) \<in> set ws1 \<and> bitmap_ext_read ?bl bs = Inr (be_ptrs e, be_next e)" by blast
  from write_bms_all [OF bl(1) cs(2)] obtain ws2 where ws2: "write_bms wr_blk ?bl (bm_blk_bytes ?g) (bm_blks b) (bm_data b) 0 = write_all ws2"
    "map fst ws2 = bm_blks b" "\<forall>(n, bs) \<in> set ws2. int (length bs) = 4 * ?bl"
    "\<forall>(n, c) \<in> set (zip (bm_blks b) ?cs). \<exists>bs. (n, bs) \<in> set ws2 \<and> bitmap_block_read ?bl bs = Inr (Some c)" by blast
  from root_roundtrip [OF bm_root_out_ok [OF L(1,3)]] obtain rbs where rbs: "root_write ?bl (bm_root_out b) = Inr rbs"
    "int (length rbs) = 4 * ?bl" "root_read ?bl rbs = Inr (Some (root_norm (bm_root_out b)))" by blast
  define ws where "ws = ws1 @ ws2 @ [(bm_root_num b, rbs)]"
  have fst_ws: "map fst ws = map be_num (bm_ext_blks b) @ bm_blks b @ [bm_root_num b]" by (simp add: ws_def ws1(2) ws2(2))
  have dist: "distinct (map fst (rev ws))" using L(7) unfolding rev_map [symmetric] fst_ws by (auto simp: bm_nums_def)
  have set_ws: "fst ` set ws = set (bm_nums b)" using arg_cong [OF fst_ws, of set] by (auto simp: bm_nums_def)
  have "\<forall>(n, bs) \<in> set ws. 0 \<le> n \<and> n < num d \<and> int (length bs) = bytes d"
  proof safe
    fix n bs assume m: "(n, bs) \<in> set ws"
    then have "n \<in> set (bm_nums b)" using set_ws by force
    then show "0 \<le> n" "n < num d" using L(8) assms(2) by auto
    show "int (length bs) = bytes d" using m ws1(3) ws2(3) rbs(2) assms(3) L(2) by (auto simp: ws_def)
  qed
  from write_all_ok [OF assms(1) this] obtain d' where d': "write_all ws d = Inr d'" "wf d'" "num d' = num d" "bytes d' = bytes d"
    "\<forall>c. 0 \<le> c \<and> c < num d \<longrightarrow>
       snd (rd_blk d' c) = (case map_of (rev ws) c of Some bs \<Rightarrow> Inr bs | None \<Rightarrow> snd (rd_blk d c))" by blast
  have blk: "block_is d' n bs" if m: "(n, bs) \<in> set ws" for n bs
  proof -
    have r: "n \<in> {0..<num d}" using m set_ws L(8) assms(2) by force
    have "map_of (rev ws) n = Some bs" using m dist by (intro map_of_is_SomeI) auto
    moreover have "int (length bs) = bytes d" using \<open>\<forall>(n, bs) \<in> set ws. _\<close> m by auto
    ultimately show ?thesis using r d'(3,4,5) by (simp add: block_is_def)
  qed
  have wr: "bm_write wr_blk b d = Inr (b\<lparr>bm_root := bm_root_out b, bm_dirty := False\<rparr>, d')"
  proof -
    obtain d1 d2 where "write_all ws1 d = Inr d1" "write_all ws2 d1 = Inr d2" "wr_blk d2 (bm_root_num b) rbs = Inr d'"
      using d'(1) unfolding ws_def by (auto simp: write_all_append rbind_Inr_iff)
    then show ?thesis by (simp add: bm_write_eq [OF assms(5) refl] ws1(1) ws2(1) rbs(1))
  qed
  define dat where "dat = (\<lambda>n. the (map_of (zip (bm_blks b) ?cs) n))"
  have dat: "map dat (bm_blks b) = ?cs" unfolding dat_def using L(7) by (intro map_of_zip_list) (auto simp: bm_nums_def)
  have bms: "bm_block_is d' ?bl dat n" if "n \<in> set (bm_blks b)" for n
  proof -
    from that have z: "(n, dat n) \<in> set (zip (bm_blks b) ?cs)" unfolding dat [symmetric] by (auto simp: set_zip in_set_conv_nth)
    from bspec [OF ws2(4) z] obtain bs where "(n, bs) \<in> set ws" "bitmap_block_read ?bl bs = Inr (Some (dat n))" by (auto simp: ws_def)
    with blk show ?thesis by (auto simp: bm_block_is_def)
  qed
  have exts: "ext_block_is d' ?bl e" if "e \<in> set (bm_ext_blks b)" for e
  proof -
    from bspec [OF ws1(4) that] obtain bs where "(be_num e, bs) \<in> set ws" "bitmap_ext_read ?bl bs = Inr (be_ptrs e, be_next e)"
      by (auto simp: ws_def)
    with blk show ?thesis by (auto simp: ext_block_is_def)
  qed
  have other: "snd (rd_blk d' c) = snd (rd_blk d c)" if "0 \<le> c" "c < num d" "c \<notin> set (bm_nums b)" for c
  proof -
    have "c \<notin> fst ` set (rev ws)" using that(3) set_ws by simp
    then have "map_of (rev ws) c = None" by (rule iffD2 [OF map_of_eq_None_iff])
    with d'(5) that(1,2) show ?thesis by simp
  qed
  show ?thesis
  proof (intro exI [of _ d'] exI [of _ rbs] exI [of _ dat] conjI)
    show "block_is d' (bm_root_num b) rbs" by (rule blk) (simp add: ws_def)
    show "concat (map dat (bm_blks b)) = bm_data b" unfolding dat by (rule cs(1))
    show "\<forall>e \<in> set (bm_ext_blks b). ext_block_is d' ?bl e" using exts by blast
    show "\<forall>n \<in> set (bm_blks b). bm_block_is d' ?bl dat n" using bms by blast
    show "\<forall>c. 0 \<le> c \<and> c < num d \<and> c \<notin> set (bm_nums b) \<longrightarrow> snd (rd_blk d' c) = snd (rd_blk d c)" using other by blast
  qed (fact wr d'(2) d'(3) d'(4) rbs(3))+
qed

end

text \<open>Mounting what was written: a new bitmap object on the root block that is read back.\<close>

definition bm_mounted :: "adfs_bitmap \<Rightarrow> adfs_bitmap" where
  "bm_mounted b =
     (let i = bm_init (bm_geo b) (bm_root_num b) (root_norm (bm_root_out b))
      in i\<lparr>bm_ext_blks := bm_ext_blks b, bm_blks := bm_blks b, bm_data := bm_data b, bm_valid := True,
           bm_num_used := (if rootblock_tracks_used_blocks (rb_fstype (bm_root b)) then bm_num_used b else 0)\<rparr>)"

context block_device
begin

lemma bm_read_written:
  assumes "wf d" "bytes d = bg_block_bytes (bm_geo b)" "bm_layout b"
    and "\<forall>e \<in> set (bm_ext_blks b). ext_block_is d (bg_block_longs (bm_geo b)) e"
    and "\<forall>n \<in> set (bm_blks b). bm_block_is d (bg_block_longs (bm_geo b)) dat n"
    and "concat (map dat (bm_blks b)) = bm_data b"
  shows "\<exists>d'. bm_read rd_blk (bm_init (bm_geo b) (bm_root_num b) (root_norm (bm_root_out b))) d = Some (d', Inr (bm_mounted b)) \<and>
    same_blocks d d'"
proof -
  let ?g = "bm_geo b" and ?ps = "rb_bitmap_ptrs (bm_root b)"
  have L: "chain_ok (rb_bitmap_ext_blk (bm_root b)) (bm_ext_blks b)"
    "bm_blks b = ptrs_of ?ps @ concat (map ext_ptrs (bm_ext_blks b))"
    "int (length (bm_blks b)) = bm_num_blks ?g" "int (length (bm_data b)) = bm_all_blk_bytes ?g"
    using assms(3) unfolding bm_layout_def by blast+
  have "\<forall>n \<in> set (ptrs_of ?ps). bm_block_is d (bg_block_longs ?g) dat n" using assms(5) L(2) by simp
  from read_bms_ok [OF assms(1) assms(2) [symmetric] this, of "[]" "[]"] obtain d1 where d1:
    "read_bms rd_blk ?g ?ps ([], []) d = (d1, Inr (ptrs_of ?ps, concat (map dat (ptrs_of ?ps))))" "same_blocks d d1" by auto
  note w = same_blocks_wf [OF d1(2)]
  have "\<forall>e \<in> set (bm_ext_blks b). ext_block_is d1 (bg_block_longs ?g) e"
    "\<forall>n \<in> set (concat (map ext_ptrs (bm_ext_blks b))). bm_block_is d1 (bg_block_longs ?g) dat n"
    using assms(4,5) L(2) same_block_is [OF d1(2)] by (simp_all add: ext_block_is_def bm_block_is_def)
  from read_exts_ok [OF _ _ L(1) this, of "[]" "ptrs_of ?ps" "concat (map dat (ptrs_of ?ps))"] w assms(2) obtain d2 where
    d2: "read_exts rd_blk ?g (rb_bitmap_ext_blk (bm_root b)) [] (ptrs_of ?ps, concat (map dat (ptrs_of ?ps))) d1 =
      Some (d2, Inr (bm_ext_blks b, bm_blks b, bm_data b))" "same_blocks d1 d2"
    unfolding L(2) using assms(6) L(2) by auto
  have "bm_blk_bytes ?g * int (length (bm_blks b)) = int (length (bm_data b))" using L(3,4) by (simp add: bm_all_blk_bytes_def)
  with d1(1) d2(1) L(3) have "bm_read rd_blk (bm_init ?g (bm_root_num b) (root_norm (bm_root_out b))) d = Some (d2, Inr (bm_mounted b))"
    by (simp add: bm_read_def bm_init_def bm_mounted_def Let_def) (simp add: bm_root_out_def)
  with same_blocks_trans [OF d1(2) d2(2)] show ?thesis by blast
qed

lemma bm_write_mount:
  assumes "wf d" "num d = bg_num_blocks (bm_geo b)" "bytes d = bg_block_bytes (bm_geo b)" "bm_layout b" "bm_dirty b"
  shows "\<exists>d' d'' rbs. bm_write wr_blk b d = Inr (b\<lparr>bm_root := bm_root_out b, bm_dirty := False\<rparr>, d') \<and>
    (\<forall>c. 0 \<le> c \<and> c < num d \<and> c \<notin> set (bm_nums b) \<longrightarrow> snd (rd_blk d' c) = snd (rd_blk d c)) \<and>
    snd (rd_blk d' (bm_root_num b)) = Inr rbs \<and>
    root_read (bg_block_longs (bm_geo b)) rbs = Inr (Some (root_norm (bm_root_out b))) \<and>
    bm_read rd_blk (bm_init (bm_geo b) (bm_root_num b) (root_norm (bm_root_out b))) d' = Some (d'', Inr (bm_mounted b))"
proof -
  from bm_write_blocks [OF assms] obtain d' rbs dat where w:
    "bm_write wr_blk b d = Inr (b\<lparr>bm_root := bm_root_out b, bm_dirty := False\<rparr>, d')" "wf d'" "bytes d' = bytes d"
    "\<forall>c. 0 \<le> c \<and> c < num d \<and> c \<notin> set (bm_nums b) \<longrightarrow> snd (rd_blk d' c) = snd (rd_blk d c)"
    "block_is d' (bm_root_num b) rbs" "root_read (bg_block_longs (bm_geo b)) rbs = Inr (Some (root_norm (bm_root_out b)))"
    "\<forall>e \<in> set (bm_ext_blks b). ext_block_is d' (bg_block_longs (bm_geo b)) e"
    "\<forall>n \<in> set (bm_blks b). bm_block_is d' (bg_block_longs (bm_geo b)) dat n" "concat (map dat (bm_blks b)) = bm_data b"
    by blast
  from bm_read_written [OF w(2) trans [OF w(3) assms(3)] assms(4) w(7-9)] obtain d'' where
    "bm_read rd_blk (bm_init (bm_geo b) (bm_root_num b) (root_norm (bm_root_out b))) d' = Some (d'', Inr (bm_mounted b))" by blast
  with w(1,4,6) w(5) [unfolded block_is_def] show ?thesis by blast
qed

end

subsection \<open>A new bitmap\<close>

lemma concat_update:
  "\<forall>x \<in> set xs. length x = k \<Longrightarrow> i < length xs \<Longrightarrow> j < k \<Longrightarrow>
     concat (xs[i := (xs ! i)[j := v]]) = (concat xs)[i * k + j := v]"
proof (induction xs arbitrary: i)
  case (Cons x xs)
  show ?case
  proof (cases i)
    case (Suc m)
    then have "concat (xs[m := (xs ! m)[j := v]]) = (concat xs)[m * k + j := v]" using Cons by simp
    with Suc Cons.prems show ?thesis by (simp add: list_update_append ac_simps)
  qed (use Cons.prems in \<open>simp add: list_update_append\<close>)
qed simp

lemma takeWhile_chunks:
  "concat xs = ns @ zs \<Longrightarrow> 0 \<notin> set ns \<Longrightarrow> set zs \<subseteq> {0} \<Longrightarrow> concat (map ptrs_of xs) = ns"
proof (induction xs arbitrary: ns zs)
  case (Cons x xs)
  from Cons.prems(1) have "(\<exists>us. ns = x @ us \<and> concat xs = us @ zs) \<or> (\<exists>us. x = ns @ us \<and> us @ concat xs = zs)"
    by (auto simp: append_eq_append_conv2)
  then show ?case
  proof (elim disjE exE conjE)
    fix us assume "ns = x @ us" "concat xs = us @ zs"
    with Cons show ?case by (auto simp: ptrs_of_def takeWhile_eq_all_conv [THEN iffD2])
  next
    fix us assume u: "x = ns @ us" "us @ concat xs = zs"
    have z: "set us \<subseteq> {0}" "set (concat xs) \<subseteq> {0}" using Cons.prems(3) unfolding u(2) [symmetric] by simp_all
    then have "ptrs_of x = ns"
      using u(1) Cons.prems(2) by (cases us) (auto simp: ptrs_of_def takeWhile_append)
    moreover have "concat (map ptrs_of xs) = []" by (rule Cons.IH [of "[]" "concat xs"]) (use z(2) u(2) Cons.prems(3) in simp_all)
    ultimately show ?case by simp
  qed
qed simp

definition ptr_space :: "root_block \<Rightarrow> bm_ext list \<Rightarrow> int list" where
  "ptr_space root exts = concat (rb_bitmap_ptrs root # map be_ptrs exts)"

text \<open>The pointer loop writes the numbers one after the other into the pointers of the root block and
  then of the extension blocks, seen as one table.\<close>

lemma set_bm_ptrs_ok:
  assumes "0 < k"
  shows "length (rb_bitmap_ptrs root) = R \<Longrightarrow> \<forall>e \<in> set exts. length (be_ptrs e) = k \<Longrightarrow>
    (if i < R then idx = 0 \<and> pos = 0 else i = R + idx * k + pos \<and> pos < k) \<Longrightarrow> i + length ns \<le> R + k * length exts \<Longrightarrow>
    \<exists>root' exts'. set_bm_ptrs (int R) (int k) ns (int i) (int idx) (int pos) (root, exts) = Inr (root', exts') \<and>
      root' = root\<lparr>rb_bitmap_ptrs := rb_bitmap_ptrs root'\<rparr> \<and> length (rb_bitmap_ptrs root') = R \<and>
      map be_num exts' = map be_num exts \<and> map be_next exts' = map be_next exts \<and>
      (\<forall>e \<in> set exts'. length (be_ptrs e) = k) \<and>
      ptr_space root' exts' = take i (ptr_space root exts) @ ns @ drop (i + length ns) (ptr_space root exts)"
proof (induction ns arbitrary: i idx pos root exts)
  case Nil
  then show ?case by simp
next
  case (Cons n ns)
  have len: "length (ptr_space root exts) = R + k * length exts"
    using Cons.prems(1,2) by (simp add: ptr_space_def length_concat o_def sum_list_triv cong: map_cong)
  have upd: "take (Suc i) (xs[i := n]) @ ns @ drop (Suc i + length ns) (xs[i := n]) = take i xs @ (n # ns) @ drop (i + length (n # ns)) xs"
    if "i < length xs" for xs :: "int list" using that by (simp add: take_Suc_conv_app_nth)
  have i: "i < length (ptr_space root exts)" using len Cons.prems(4) by simp
  show ?case
  proof (cases "i < R")
    case True
    let ?r = "root\<lparr>rb_bitmap_ptrs := (rb_bitmap_ptrs root)[i := n]\<rparr>"
    have p: "ptr_space ?r exts = (ptr_space root exts)[i := n]" using True Cons.prems(1) by (simp add: ptr_space_def list_update_append)
    have "if Suc i < R then idx = 0 \<and> pos = 0 else Suc i = R + idx * k + pos \<and> pos < k" using True Cons.prems(3) assms by auto
    from Cons.IH [OF _ Cons.prems(2) this, of ?r] Cons.prems(1,4) obtain root' exts' where IH:
      "set_bm_ptrs (int R) (int k) ns (int (Suc i)) (int idx) (int pos) (?r, exts) = Inr (root', exts')"
      "root' = ?r\<lparr>rb_bitmap_ptrs := rb_bitmap_ptrs root'\<rparr>" "length (rb_bitmap_ptrs root') = R"
      "map be_num exts' = map be_num exts" "map be_next exts' = map be_next exts" "\<forall>e \<in> set exts'. length (be_ptrs e) = k"
      "ptr_space root' exts' = take (Suc i) (ptr_space ?r exts) @ ns @ drop (Suc i + length ns) (ptr_space ?r exts)" by auto
    have "set_bm_ptrs (int R) (int k) (n # ns) (int i) (int idx) (int pos) (root, exts) = Inr (root', exts')"
      using True Cons.prems(1) IH(1) by (simp add: py_set_in add.commute)
    moreover have "root' = root\<lparr>rb_bitmap_ptrs := rb_bitmap_ptrs root'\<rparr>" using IH(2) by simp
    ultimately show ?thesis using IH(3-6) IH(7) [unfolded p upd [OF i]] by blast
  next
    case False
    then have e: "i = R + idx * k + pos" "pos < k" using Cons.prems(3) by auto
    have "idx < length exts"
    proof (rule ccontr)
      assume "\<not> idx < length exts"
      then have a: "length exts * k \<le> idx * k" by (intro mult_right_mono) simp_all
      have "i + length (n # ns) \<le> R + length exts * k" using Cons.prems(4) by (simp only: mult.commute)
      then have "i < R + length exts * k" by (simp only: list.size)
      then show False using a unfolding e(1) by linarith
    qed
    let ?e = "(exts ! idx)\<lparr>be_ptrs := (be_ptrs (exts ! idx))[pos := n]\<rparr>"
    let ?x = "exts[idx := ?e]"
    have m: "map be_ptrs ?x = (map be_ptrs exts)[idx := ((map be_ptrs exts) ! idx)[pos := n]]"
      using \<open>idx < length exts\<close> by (simp add: map_update)
    have p: "ptr_space root ?x = (ptr_space root exts)[i := n]"
      using concat_update [of "map be_ptrs exts" k idx pos n] Cons.prems(1,2) \<open>idx < length exts\<close> e
      by (simp add: ptr_space_def m list_update_append add.assoc)
    have nn: "map be_num ?x = map be_num exts" "map be_next ?x = map be_next exts"
      by (simp_all add: map_update list_update_same_conv \<open>idx < length exts\<close>)
    have lx: "\<forall>e \<in> set ?x. length (be_ptrs e) = k" using Cons.prems(2) \<open>idx < length exts\<close>
      by (auto dest!: set_update_subset_insert [THEN subsetD])
    define idx' pos' where "idx' = (if pos + 1 = k then idx + 1 else idx)" and "pos' = (if pos + 1 = k then 0 else pos + 1)"
    have "if Suc i < R then idx' = 0 \<and> pos' = 0 else Suc i = R + idx' * k + pos' \<and> pos' < k"
      using False e assms by (auto simp: idx'_def pos'_def)
    from Cons.IH [OF Cons.prems(1) lx this] Cons.prems(4) obtain root' exts' where IH:
      "set_bm_ptrs (int R) (int k) ns (int (Suc i)) (int idx') (int pos') (root, ?x) = Inr (root', exts')"
      "root' = root\<lparr>rb_bitmap_ptrs := rb_bitmap_ptrs root'\<rparr>" "length (rb_bitmap_ptrs root') = R"
      "map be_num exts' = map be_num ?x" "map be_next exts' = map be_next ?x" "\<forall>e \<in> set exts'. length (be_ptrs e) = k"
      "ptr_space root' exts' = take (Suc i) (ptr_space root ?x) @ ns @ drop (Suc i + length ns) (ptr_space root ?x)" by auto
    have nlt: "\<not> int i < int R" using False by simp
    have "length (be_ptrs (exts ! idx)) = k" using Cons.prems(2) \<open>idx < length exts\<close> by simp
    then have "set_bm_ptrs (int R) (int k) (n # ns) (int i) (int idx) (int pos) (root, exts) = Inr (root', exts')"
      using IH(1) e(2) \<open>idx < length exts\<close> nlt
      by (cases "pos + 1 = k") (auto simp: py_set_in py_get_in idx'_def pos'_def add.commute)
    then show ?thesis using IH(2-6) nn IH(7) [unfolded p upd [OF i]] by auto
  qed
qed

lemma chain_exts_ok:
  "es \<noteq> [] \<Longrightarrow> \<forall>e \<in> set es. be_num e \<noteq> 0 \<and> be_next e = 0 \<Longrightarrow> chain_ok (be_num (es ! 0)) (chain_exts es)"
proof (induction es rule: chain_exts.induct)
  case (1 e f es)
  then have "chain_ok (be_num f) (chain_exts (f # es))" by simp
  with 1 show ?case by simp
qed auto

lemma chain_exts_same [simp]:
  "map be_num (chain_exts es) = map be_num es" "map be_ptrs (chain_exts es) = map be_ptrs es"
  "length (chain_exts es) = length es"
  by (induction es rule: chain_exts.induct) auto

lemma chain_ok_cong:
  "map be_num es = map be_num es' \<Longrightarrow> map be_next es = map be_next es' \<Longrightarrow> chain_ok n es = chain_ok n es'"
proof (induction es arbitrary: n es')
  case (Cons e es)
  then obtain f fs where "es' = f # fs" "be_num e = be_num f" "be_next e = be_next f" "map be_num es = map be_num fs"
    "map be_next es = map be_next fs" by (cases es') auto
  with Cons.IH show ?case by simp
qed simp

lemma chain_nexts: "chain_ok n es \<Longrightarrow> set (map be_next es) \<subseteq> insert 0 (set (map be_num es))"
proof (induction n es rule: chain_ok.induct)
  case (2 n e es)
  then show ?case by (cases es) auto
qed simp

lemma slot_FF: "area (4 * i) 4 (replicate k 0xFF) \<Longrightarrow> slot (replicate k 0xFF) i = 0xFFFFFFFF"
proof -
  assume a: "area (4 * i) 4 (replicate k (0xFF :: byte))"
  have "bget (4 * i) 4 (replicate k 0xFF) = replicate 4 (0xFF :: byte)"
    using areaD [OF a] by (auto simp: bget_def min_def)
  moreover have "be_bytes 4 0xFFFFFFFF = replicate 4 0xFF" by code_simp
  ultimately have e: "bget (4 * i) 4 (replicate k 0xFF) = be_bytes 4 0xFFFFFFFF" by simp
  then show ?thesis by (rule slot_area) (simp add: u32_ok_def)
qed

text \<open>A volume the bitmap fits on: \<open>k\<close> is the number of blocks the root and its bitmap take.\<close>

definition bm_size :: "blk_geo \<Rightarrow> root_block \<Rightarrow> nat" where
  "bm_size g root = Suc (nat (bm_num_ext g root) + nat (bm_num_blks g))"

definition vol_ok :: "blk_geo \<Rightarrow> int \<Rightarrow> root_block \<Rightarrow> bool" where
  "vol_ok g n root \<longleftrightarrow> bm_geo_ok g \<and> root_ok (bg_block_longs g) root \<and> bg_block_bytes g = 4 * bg_block_longs g \<and>
     rb_bitmap_ptrs root = replicate 25 0 \<and> rb_bitmap_ext_blk root = 0 \<and>
     bg_reserved g \<le> n \<and> 0 < n \<and> n + int (bm_size g root) \<le> bg_num_blocks g \<and> bg_num_blocks g < 2 ^ 32"

lemma ceil_div: "0 < (k :: int) \<Longrightarrow> a \<le> k * ((a + k - 1) div k)"
proof -
  assume "0 < k"
  then have "(a + k - 1) mod k \<le> k - 1" using pos_mod_bound [of k "a + k - 1"] by simp
  moreover have "k * ((a + k - 1) div k) = a + k - 1 - (a + k - 1) mod k" by (simp add: minus_mod_eq_mult_div)
  ultimately show ?thesis by linarith
qed

lemma vol_sizes:
  assumes "vol_ok g n root"
  shows "128 \<le> bg_block_longs g" "0 \<le> bm_num_blks g" "bm_longs g \<le> bm_blk_longs g * bm_num_blks g"
    "nat (bm_num_blks g) \<le> 25 + nat (bm_blk_longs g) * nat (bm_num_ext g root)"
proof -
  have r: "root_ok (bg_block_longs g) root" "length (rb_bitmap_ptrs root) = 25" and g: "bm_geo_ok g"
    using assms by (simp_all add: vol_ok_def)
  then show b: "128 \<le> bg_block_longs g" by (simp add: root_ok_def)
  then have k: "0 < bm_blk_longs g" by (simp add: bm_blk_longs_def)
  from ceil_div [OF k, of "bm_longs g"] show "bm_longs g \<le> bm_blk_longs g * bm_num_blks g" by (simp add: bm_num_blks_def)
  with last_long(4) [OF g] k have "0 < bm_blk_longs g * bm_num_blks g" by linarith
  with k show p: "0 \<le> bm_num_blks g" by (simp add: zero_less_mult_iff)
  from ceil_div [OF k, of "bm_num_blks g - 25"] have m: "bm_num_blks g - 25 \<le> bm_blk_longs g * bm_num_ext g root"
    by (simp add: bm_num_ext_def r(2))
  show "nat (bm_num_blks g) \<le> 25 + nat (bm_blk_longs g) * nat (bm_num_ext g root)"
  proof (cases "0 \<le> bm_num_ext g root")
    case True
    then have "int (nat (bm_blk_longs g) * nat (bm_num_ext g root)) = bm_blk_longs g * bm_num_ext g root" using k by simp
    then show ?thesis using m by linarith
  next
    case False
    then have "bm_blk_longs g * bm_num_ext g root \<le> 0" using k by (simp add: mult_le_0_iff)
    then show ?thesis using m by linarith
  qed
qed

lemma bit_FFFFFFFF: "k < 32 \<Longrightarrow> bit (0xFFFFFFFF :: int) k"
proof -
  assume "k < 32"
  moreover have "(0xFFFFFFFF :: int) = Bit_Operations.mask 32" by (simp add: mask_eq_exp_minus_1)
  ultimately show ?thesis by (simp only: bit_mask_iff) simp
qed

lemma int_range:
  "set (map (\<lambda>i. a + int i) [0..<m]) = {a..<a + int m}" "distinct (map (\<lambda>i. a + int i) [0..<m])"
proof -
  show "set (map (\<lambda>i. a + int i) [0..<m]) = {a..<a + int m}"
  proof (intro equalityI subsetI)
    fix x assume "x \<in> {a..<a + int m}"
    then have "x = a + int (nat (x - a))" "nat (x - a) < m" by auto
    then show "x \<in> set (map (\<lambda>i. a + int i) [0..<m])" by (metis atLeastLessThan_iff image_eqI le0 set_map set_upt)
  qed auto
qed (simp add: distinct_map inj_on_def)

lemma fresh_bitmap:
  assumes "vol_ok g n root" "b = (bm_init g n root)\<lparr>bm_data := replicate (nat (bm_all_blk_bytes g)) 0xFF, bm_num_used := 0\<rparr>"
  shows "bm_wf b" "free_set b = blk_range g" "bm_geo b = g"
proof -
  have g: "bm_geo_ok g" "bg_block_bytes g = 4 * bg_block_longs g" "bg_reserved g \<le> n" "n < bg_num_blocks g"
    using assms(1) by (auto simp: vol_ok_def bm_size_def split: if_splits)
  show geo: "bm_geo b = g" by (simp add: assms(2) bm_init_def)
  note vs = vol_sizes [OF assms(1)]
  have "bm_all_blk_bytes g = 4 * (bm_blk_longs g * bm_num_blks g)"
    using g(2) by (simp add: bm_all_blk_bytes_def bm_blk_bytes_def bm_blk_longs_def algebra_simps)
  then have len: "4 * bm_longs g \<le> int (length (bm_data b))" using vs(3) by (simp add: assms(2))
  show wf: "bm_wf b" using g(1) len long_index [of "n - bg_reserved g" "bm_bits g"] g(3,4)
    unfolding bm_wf_def geo by (simp add: assms(2) bm_init_def bm_longs_def bm_bits_def)
  have "bit_at g (bm_data b) m" if "m \<in> blk_range g" for m
  proof -
    have "area (4 * ((m - bg_reserved g) div 32)) 4 (bm_data b)" using long_area [OF wf] that by (simp add: geo)
    then have "slot (bm_data b) ((m - bg_reserved g) div 32) = 0xFFFFFFFF" by (simp add: assms(2) slot_FF)
    then show ?thesis unfolding bit_at_def by (simp only:) (rule bit_FFFFFFFF, simp add: nat_less_iff)
  qed
  then show "free_set b = blk_range g" by (auto simp: free_set_def geo)
qed

lemma bm_create_ok:
  assumes "vol_ok g n root"
  shows "\<exists>b'. bm_create (bm_init g n root) = Inr b' \<and> bm_wf b' \<and> bm_layout b' \<and> bm_dirty b' \<and> bm_valid b' \<and>
    bm_geo b' = g \<and> bm_root_num b' = n \<and> free_set b' = blk_range g - {n..<n + int (bm_size g root)} \<and>
    bm_num_used b' = int (bm_size g root) \<and> set (bm_nums b') = {n..<n + int (bm_size g root)}"
proof -
  define E N k where "E = nat (bm_num_ext g root)" and "N = nat (bm_num_blks g)" and "k = nat (bm_blk_longs g)"
  have V: "bm_geo_ok g" "root_ok (bg_block_longs g) root" "bg_block_bytes g = 4 * bg_block_longs g"
    "rb_bitmap_ptrs root = replicate 25 0" "rb_bitmap_ext_blk root = 0" "bg_reserved g \<le> n" "0 < n"
    "n + 1 + int E + int N \<le> bg_num_blocks g" "bg_num_blocks g < 2 ^ 32"
    using assms by (simp_all add: vol_ok_def bm_size_def E_def N_def)
  have sz: "bm_size g root = Suc (E + N)" by (simp add: bm_size_def E_def N_def)
  note vs = vol_sizes [OF assms]
  have k: "0 < k" "int k = bm_blk_longs g" using vs(1) by (simp_all add: k_def bm_blk_longs_def)
  define b1 where "b1 = (bm_init g n root)\<lparr>bm_data := replicate (nat (bm_all_blk_bytes g)) 0xFF, bm_num_used := 0\<rparr>"
  note fb = fresh_bitmap [OF assms b1_def]
  define en bn where "en = map (\<lambda>i. n + 1 + int i) [0..<E]" and "bn = map (\<lambda>i. n + 1 + int E + int i) [0..<N]"
  have en: "set en = {n + 1..<n + 1 + int E}" "distinct en" "length en = E"
    using int_range [of "n + 1" E] by (simp_all add: en_def)
  have bn: "set bn = {n + 1 + int E..<n + 1 + int E + int N}" "distinct bn" "length bn = N"
    using int_range [of "n + 1 + int E" N] by (simp_all add: bn_def)
  have nums: "set (n # en @ bn) = {n..<n + int (bm_size g root)}" "distinct (n # en @ bn)"
    using en bn by (auto simp: sz)
  have "set (n # en @ bn) \<subseteq> blk_range (bm_geo b1)" unfolding nums(1) fb(3) using V(6,8) by (auto simp: blk_range_def sz)
  from clr_bits_ok [OF fb(1) this] obtain b2 where b2: "clr_bits (n # en @ bn) b1 = Inr b2" "bm_wf b2" "bm_frame b1 b2"
    "free_set b2 = blk_range g - set (n # en @ bn)"
    "bm_num_used b2 + int (card (free_set b2)) = int (card (blk_range g))" unfolding fb(2) by (auto simp: b1_def)
  have "card (free_set b2) = card (blk_range g) - card (set (n # en @ bn))" "card (set (n # en @ bn)) \<le> card (blk_range g)"
    using \<open>set (n # en @ bn) \<subseteq> blk_range (bm_geo b1)\<close> unfolding b2(4) fb(3) by (auto intro: card_Diff_subset card_mono)
  moreover have "card (set (n # en @ bn)) = bm_size g root" unfolding nums(1) by simp
  ultimately have used: "bm_num_used b2 = int (bm_size g root)" using b2(5) by (simp add: of_nat_diff)
  define exts0 root0 where "exts0 = map (\<lambda>m. \<lparr>be_num = m, be_ptrs = replicate k 0, be_next = 0\<rparr>) en"
    and "root0 = (if E > 0 then root\<lparr>rb_bitmap_ext_blk := be_num (exts0 ! 0)\<rparr> else root)"
  have ex0: "length exts0 = E" "map be_num exts0 = en" "map be_ptrs exts0 = replicate E (replicate k 0)"
    by (simp_all add: exts0_def o_def en(3) map_replicate_const)
  have sp0: "ptr_space root0 (chain_exts exts0) = replicate (25 + k * E) 0"
  proof -
    have "concat (replicate m (replicate k (0 :: int))) = replicate (k * m) 0" for m by (induction m) (simp_all add: replicate_add)
    then show ?thesis using V(4) by (simp add: ptr_space_def ex0(3) root0_def replicate_add)
  qed
  have "N \<le> 25 + k * E" using vs(4) by (simp add: N_def k_def E_def)
  then obtain z where z: "25 + k * E = N + z" using le_Suc_ex by blast
  have "be_ptrs ` set (chain_exts exts0) = set (replicate E (replicate k 0))"
    using arg_cong [OF trans [OF chain_exts_same(2) ex0(3)], of set] by (simp only: set_map)
  then have "be_ptrs e \<in> set (replicate E (replicate k 0))" if "e \<in> set (chain_exts exts0)" for e using that by blast
  then have "\<forall>e \<in> set (chain_exts exts0). length (be_ptrs e) = k" by (auto dest!: in_set_replicate [THEN iffD1])
  note lens = this
  have r25: "length (rb_bitmap_ptrs root0) = 25" by (simp add: root0_def V(4))
  have "0 + length bn \<le> 25 + k * length (chain_exts exts0)" using \<open>N \<le> 25 + k * E\<close> by (simp add: ex0(1) bn(3))
  from set_bm_ptrs_ok [OF k(1) r25 lens _ this, of 0 0]
  obtain root' exts' where st: "set_bm_ptrs 25 (int k) bn 0 0 0 (root0, chain_exts exts0) = Inr (root', exts')"
    "root' = root0\<lparr>rb_bitmap_ptrs := rb_bitmap_ptrs root'\<rparr>" "length (rb_bitmap_ptrs root') = 25"
    "map be_num exts' = en" "map be_next exts' = map be_next (chain_exts exts0)" "\<forall>e \<in> set exts'. length (be_ptrs e) = k"
    "ptr_space root' exts' = bn @ replicate z 0"
    unfolding sp0 chain_exts_same(1) ex0(2) bn(3) by (auto simp: z)
  define b' where "b' = b2\<lparr>bm_root := root', bm_ext_blks := exts', bm_blks := bn, bm_valid := True, bm_dirty := True\<rparr>"
  have F: "bm_geo b2 = g" "bm_root_num b2 = n" "length (bm_data b2) = nat (bm_all_blk_bytes g)"
    using b2(3) by (simp_all add: bm_frame_def b1_def bm_init_def)
  have cr: "bm_create (bm_init g n root) = Inr b'"
  proof -
    have i: "bm_geo (bm_init g n root) = g" "bm_root_num (bm_init g n root) = n" "bm_root (bm_init g n root) = root"
      "bm_ext_blks (bm_init g n root) = []" "bm_blks (bm_init g n root) = []" by (simp_all add: bm_init_def)
    have "(if 0 < E then root\<lparr>rb_bitmap_ext_blk := be_num (exts0 ! 0)\<rparr> else root) = root0" by (simp add: root0_def)
    moreover have "int (length (rb_bitmap_ptrs root)) = 25" using V(4) by simp
    ultimately show ?thesis
      unfolding bm_create_def Let_def i append_Nil b1_def [symmetric] E_def [symmetric] N_def [symmetric] k_def [symmetric]
        en_def [symmetric] bn_def [symmetric] b2(1) rbind_simps exts0_def [symmetric]
      using st(1) [unfolded k(2)] by (simp add: ex0(1) bn(3) b'_def)
  qed
  have pos: "m \<noteq> 0 \<and> u32_ok m" if "m \<in> set (n # en @ bn)" for m
    using that V(7-9) unfolding nums(1) sz by (auto simp: u32_ok_def)
  have ptrs: "set (ptr_space root' exts') \<subseteq> insert 0 (set bn)" unfolding st(7) by auto
  then have lp: "longs_ok (rb_bitmap_ptrs root')" "\<And>e. e \<in> set exts' \<Longrightarrow> longs_ok (be_ptrs e)"
    using pos unfolding longs_ok_def ptr_space_def by (auto simp: u32_ok_def subset_iff)
  have e0: "be_num (exts0 ! 0) = n + 1" if "0 < E" using that ex0(1,2) by (simp add: exts0_def en_def)
  have ch: "chain_ok (rb_bitmap_ext_blk root') exts'"
  proof (cases "E = 0")
    case True
    then have "rb_bitmap_ext_blk root' = 0" using st(2) V(5) by (metis root0_def root_block.select_convs(5) root_block.surjective root_block.update_convs(4) less_numeral_extra(3))
    then show ?thesis using True st(4) en(3) by simp
  next
    case False
    have "\<forall>e \<in> set exts0. be_num e \<noteq> 0 \<and> be_next e = 0" using pos by (auto simp: exts0_def)
    moreover have "exts0 \<noteq> []" using False ex0(1) by auto
    ultimately have "chain_ok (be_num (exts0 ! 0)) (chain_exts exts0)" by (intro chain_exts_ok) auto
    moreover have "rb_bitmap_ext_blk root' = be_num (exts0 ! 0)"
      using False arg_cong [OF st(2), of rb_bitmap_ext_blk] by (simp add: root0_def)
    ultimately show ?thesis using chain_ok_cong [OF trans [OF st(4)] st(5)] by (simp add: ex0(2))
  qed
  have nexts: "u32_ok (be_next e)" if "e \<in> set exts'" for e
    using chain_nexts [OF ch] that pos unfolding st(4) set_map by (auto simp: u32_ok_def subset_iff image_iff)
  have bn': "bm_nums b' = n # en @ bn" by (simp add: bm_nums_def b'_def F st(4))
  have ly: "bm_layout b'"
    unfolding bm_layout_def
  proof (intro conjI)
    have "root_ok (bg_block_longs g) (root0\<lparr>rb_bitmap_ptrs := rb_bitmap_ptrs root'\<rparr>)"
      using V(2) st(3) lp(1) e0 pos [of "n + 1"] en(1) by (auto simp: root_ok_def root0_def longs_ok_def)
    then show "root_ok (bg_block_longs (bm_geo b')) (bm_root b')" using st(2) by (simp add: b'_def F)
    show "\<forall>e \<in> set (bm_ext_blks b'). ext_ok (bg_block_longs (bm_geo b')) e"
      using st(6) lp(2) nexts k(2) by (auto simp: b'_def F ext_ok_def longs_ok_def bm_blk_longs_def)
    have "0 \<notin> set bn" using pos by auto
    moreover have "set (replicate z (0 :: int)) \<subseteq> {0}" by (simp add: set_replicate_conv_if)
    ultimately have "concat (map ptrs_of (rb_bitmap_ptrs root' # map be_ptrs exts')) = bn"
      by (rule takeWhile_chunks [OF st(7) [unfolded ptr_space_def]])
    moreover have "map ptrs_of (map be_ptrs exts') = map ext_ptrs exts'" by (simp add: ext_ptrs_def)
    ultimately have "bn = ptrs_of (rb_bitmap_ptrs root') @ concat (map ext_ptrs exts')" by (simp only: list.map concat.simps)
    then show "bm_blks b' = ptrs_of (rb_bitmap_ptrs (bm_root b')) @ concat (map ext_ptrs (bm_ext_blks b'))"
      by (simp add: b'_def)
    show "distinct (bm_nums b')" unfolding bn' by (rule nums(2))
    show "set (bm_nums b') \<subseteq> {0..<bg_num_blocks (bm_geo b')}"
      unfolding bn' nums(1) using V(7,8) by (auto simp: b'_def F sz)
    show "u32_ok (bm_num_used b')" using used V(7-9) by (simp add: b'_def u32_ok_def sz)
    have "0 \<le> bm_all_blk_bytes g"
      unfolding bm_all_blk_bytes_def using vs(1,2) V(3) by (intro mult_nonneg_nonneg) (simp_all add: bm_blk_bytes_def)
    then show "int (length (bm_data b')) = bm_all_blk_bytes (bm_geo b')" by (simp add: b'_def F)
  qed (use V(3) ch vs(2) bn(3) F in \<open>simp_all add: b'_def N_def\<close>)
  have "bm_wf b'" "free_set b' = blk_range g - {n..<n + int (bm_size g root)}"
    using b2(2,4) unfolding nums(1) by (simp_all add: b'_def bm_wf_def free_set_def F)
  moreover have "set (bm_nums b') = {n..<n + int (bm_size g root)}" unfolding bn' by (rule nums(1))
  ultimately show ?thesis using cr ly used F by (intro exI [of _ b']) (simp add: b'_def)
qed

text \<open>A volume of \<open>blks\<close> blocks of 512 bytes with two boot blocks, its root in the middle.\<close>

lemma small_vol_ok:
  assumes "g = set_geometry c h s 512 2 2" "bg_num_blocks g = blks" "30 \<le> blks" "blks \<le> 2000" "root = root_create 128 ''Work'' None None None 0 0"
  shows "vol_ok g 15 root" "bm_size g root = 2" "bg_reserved g = 2"
proof -
  have g: "bg_block_longs g = 128" "bg_block_bytes g = 512" "bg_reserved g = 2" using assms(1) by (simp_all add: set_geometry_def Let_def)
  have r: "rb_bitmap_ptrs root = replicate 25 0" by (simp add: assms(5) root_create_def)
  have "bm_longs g \<le> 64" "0 < bm_longs g" using assms(2-4) by (simp_all add: bm_longs_def bm_bits_def g)
  moreover from this have "bm_num_blks g = (bm_longs g - 1) div 127 + 1" by (simp add: bm_num_blks_def bm_blk_longs_def g)
  ultimately have nb: "bm_num_blks g = 1" by simp
  have ne: "bm_num_ext g root = 0" by (simp add: bm_num_ext_def nb bm_blk_longs_def g r)
  show "bm_size g root = 2" by (simp add: bm_size_def nb ne)
  then show "vol_ok g 15 root" using assms(2-4)
    by (simp add: vol_ok_def bm_geo_ok_def g r) (simp add: assms(5) root_ok_def root_create_def longs_ok_def u32_ok_def
      ts_ok_def name_ok_def plain_name_def nfkc_char_def)
  show "bg_reserved g = 2" by (rule g(3))
qed

subsection \<open>Properties\<close>

text \<open>C12: allocating \<open>num\<close> blocks succeeds exactly when so many are free; it returns \<open>num\<close> different
  free blocks, takes just those from the free set, counts them as used, and returning them gives the
  old free set and count back. The reported numbers of free and used blocks are the true ones and
  add up to the size of the volume.\<close>

theorem bitmap_allocation:
  assumes "bm_wf b" and "0 < num"
  shows "(if num \<le> int (card (free_set b))
     then \<exists>b1 blks b2. alloc_n b num = Inr (b1, Some blks) \<and> int (length blks) = num \<and> distinct blks \<and>
       set blks \<subseteq> free_set b \<and> free_set b1 = free_set b - set blks \<and> bm_num_used b1 = bm_num_used b + num \<and>
       bm_wf b1 \<and> bm_dirty b1 \<and>
       dealloc_n blks b1 = Inr b2 \<and> free_set b2 = free_set b \<and> bm_num_used b2 = bm_num_used b \<and> bm_wf b2
     else alloc_n b num = Inr (b, None)) \<and>
    get_num_free b = Inr (int (card (free_set b))) \<and> get_num_used b = Inr (int (card (used_set b))) \<and>
    int (card (free_set b)) + int (card (used_set b)) = bg_num_blocks (bm_geo b) - bg_reserved (bm_geo b)"
proof -
  have a: "if num \<le> int (card (free_set b))
     then \<exists>b1 blks b2. alloc_n b num = Inr (b1, Some blks) \<and> int (length blks) = num \<and> distinct blks \<and>
       set blks \<subseteq> free_set b \<and> free_set b1 = free_set b - set blks \<and> bm_num_used b1 = bm_num_used b + num \<and>
       bm_wf b1 \<and> bm_dirty b1 \<and>
       dealloc_n blks b1 = Inr b2 \<and> free_set b2 = free_set b \<and> bm_num_used b2 = bm_num_used b \<and> bm_wf b2
     else alloc_n b num = Inr (b, None)"
  proof (cases "num \<le> int (card (free_set b))")
    case True
    with alloc_n_ok [OF assms] obtain b1 blks where 1: "alloc_n b num = Inr (b1, Some blks)" "int (length blks) = num"
      "distinct blks" "set blks \<subseteq> free_set b" "free_set b1 = free_set b - set blks" "bm_wf b1" "bm_frame b b1" "bm_dirty b1"
      "bm_num_used b1 = bm_num_used b + num" by auto
    from dealloc_n_ok [OF 1(6), of blks] obtain b2 where 2: "dealloc_n blks b1 = Inr b2" "bm_wf b2"
      "free_set b2 = free_set b1 \<union> (set blks \<inter> blk_range (bm_geo b1))"
      "bm_num_used b2 + int (card (free_set b2)) = bm_num_used b1 + int (card (free_set b1))" by blast
    have "set blks \<subseteq> blk_range (bm_geo b1)" using 1(4) unfolding bm_frame_geo [OF 1(7)] by (auto simp: free_set_def)
    then have f: "free_set b2 = free_set b" unfolding 2(3) 1(5) using 1(4) by blast
    have "card (free_set b1) = card (free_set b) - card (set blks)" "card (set blks) \<le> card (free_set b)"
      unfolding 1(5) using 1(4) by (simp_all add: card_Diff_subset card_mono)
    then have "bm_num_used b2 = bm_num_used b" using 2(4) 1(2,9) distinct_card [OF 1(3)] f by (simp add: of_nat_diff)
    with True 1 2 f show ?thesis by auto
  next
    case False
    with alloc_n_ok [OF assms] show ?thesis by simp
  qed
  show ?thesis using a get_nums_ok [OF assms(1)] card_used [OF assms(1)] by (simp add: bm_bits_def)
qed

theorem bitmap_allocation_witness:
  "\<exists>b b1 blks. bm_create (bm_init (set_geometry 1 1 100 512 2 2) 15 (root_create 128 ''Work'' None None None 0 0)) = Inr b \<and>
     alloc_n b 5 = Inr (b1, Some blks) \<and> length blks = 5 \<and> distinct blks"
proof -
  let ?g = "set_geometry 1 1 100 512 2 2" and ?r = "root_create 128 ''Work'' None None None 0 0"
  have n: "bg_num_blocks ?g = 100" by (simp add: set_geometry_def Let_def)
  note v = small_vol_ok [OF refl n _ _ refl]
  from bm_create_ok [of ?g 15 ?r] v obtain b where b: "bm_create (bm_init ?g 15 ?r) = Inr b" "bm_wf b"
    "free_set b = blk_range ?g - {15..<15 + int 2}" by auto
  have "free_set b = {2..<15} \<union> {17..<100}" unfolding b(3) using n v(3) by (auto simp: blk_range_def)
  then have "card (free_set b) = 96" by (simp add: card_Un_disjoint)
  with bitmap_allocation [OF b(2), of 5] b(1) show ?thesis by auto
qed

text \<open>C13: the bitmap of a new volume: everything is free but the root block and the blocks of the
  bitmap behind it, the count of used blocks is the true one, and the pointers in the root block and
  the extension blocks name exactly the bitmap blocks (for every size of volume, with as many
  extension blocks as it needs).\<close>

theorem bitmap_of_new_volume:
  assumes "vol_ok g n root"
  shows "\<exists>b. bm_create (bm_init g n root) = Inr b \<and> bm_wf b \<and> bm_layout b \<and> bm_dirty b \<and>
    free_set b = blk_range g - {n..<n + int (bm_size g root)} \<and>
    bm_num_used b = int (card (used_set b))"
proof -
  from bm_create_ok [OF assms] obtain b where b: "bm_create (bm_init g n root) = Inr b" "bm_wf b" "bm_layout b" "bm_dirty b"
    "bm_geo b = g" "free_set b = blk_range g - {n..<n + int (bm_size g root)}" "bm_num_used b = int (bm_size g root)" by blast
  have "{n..<n + int (bm_size g root)} \<subseteq> blk_range g" using assms by (auto simp: vol_ok_def blk_range_def)
  then have "used_set b = {n..<n + int (bm_size g root)}" unfolding used_set_def b(5,6) by blast
  with b show ?thesis by auto
qed

theorem bitmap_of_new_volume_witness:
  "\<exists>b. bm_create (bm_init (set_geometry 80 2 11 512 2 2) 15 (root_create 128 ''Work'' None None None 0 0)) = Inr b \<and>
     bm_layout b \<and> 15 \<notin> free_set b \<and> 16 \<notin> free_set b \<and> 17 \<in> free_set b"
proof -
  let ?g = "set_geometry 80 2 11 512 2 2" and ?r = "root_create 128 ''Work'' None None None 0 0"
  have n: "bg_num_blocks ?g = 1760" by (simp add: set_geometry_def Let_def)
  note v = small_vol_ok [OF refl n _ _ refl]
  from bitmap_of_new_volume [of ?g 15 ?r] v n show ?thesis by (auto simp: blk_range_def)
qed

text \<open>C34: a bitmap written to a partition survives: its blocks and the root block are the only ones
  that change, and mounting the partition again gives a bitmap with the same data, blocks and
  extension blocks, and the same free blocks.\<close>

theorem bitmap_survives_mount:
  assumes "part_dev_ok p" and "bm_geo b = pt_geo p" and "bm_layout b" and "bm_dirty b"
  shows "\<exists>b' p' p'' rbs. bm_write part_write_block b p = Inr (b', p') \<and> \<not> bm_dirty b' \<and>
    (\<forall>c. 0 \<le> c \<and> c < bg_num_blocks (pt_geo p) \<and> c \<notin> set (bm_nums b) \<longrightarrow>
       snd (part_read_block p' c) = snd (part_read_block p c)) \<and>
    snd (part_read_block p' (bm_root_num b)) = Inr rbs \<and>
    root_read (bg_block_longs (pt_geo p)) rbs = Inr (Some (root_norm (bm_root b'))) \<and>
    bm_read part_read_block (bm_init (pt_geo p) (bm_root_num b) (root_norm (bm_root b'))) p' = Some (p'', Inr (bm_mounted b)) \<and>
    free_set (bm_mounted b) = free_set b \<and> bm_blks (bm_mounted b) = bm_blks b"
proof -
  from part.bm_write_mount [OF assms(1) _ _ assms(3,4)] assms(2) obtain p' p'' rbs where
    w: "bm_write part_write_block b p = Inr (b\<lparr>bm_root := bm_root_out b, bm_dirty := False\<rparr>, p')"
    "\<forall>c. 0 \<le> c \<and> c < bg_num_blocks (pt_geo p) \<and> c \<notin> set (bm_nums b) \<longrightarrow> snd (part_read_block p' c) = snd (part_read_block p c)"
    "snd (part_read_block p' (bm_root_num b)) = Inr rbs"
    "root_read (bg_block_longs (pt_geo p)) rbs = Inr (Some (root_norm (bm_root_out b)))"
    "bm_read part_read_block (bm_init (pt_geo p) (bm_root_num b) (root_norm (bm_root_out b))) p' = Some (p'', Inr (bm_mounted b))"
    by auto
  have "free_set (bm_mounted b) = free_set b" "bm_blks (bm_mounted b) = bm_blks b"
    by (simp_all add: bm_mounted_def bm_init_def free_set_def Let_def)
  with w show ?thesis by (intro exI [of _ "b\<lparr>bm_root := bm_root_out b, bm_dirty := False\<rparr>"] exI [of _ p'] exI [of _ p''] exI [of _ rbs]) simp
qed

theorem bitmap_survives_mount_witness:
  "\<exists>m p p' p'' b b' m'. img_create False 512 100 = Inr m \<and>
     part_open (img_open m) (dos_env_init\<lparr>de_surfaces := 1, de_blk_per_trk := 10, de_low_cyl := 2, de_high_cyl := 4\<rparr>) = Inr p \<and>
     bm_create (bm_init (pt_geo p) 15 (root_create 128 ''Work'' None None None 0 0)) = Inr b \<and>
     bm_write part_write_block b p = Inr (b', p') \<and>
     bm_read part_read_block (bm_init (pt_geo p) 15 (root_norm (bm_root b'))) p' = Some (p'', Inr m') \<and> free_set m' = free_set b"
proof -
  let ?e = "dos_env_init\<lparr>de_surfaces := 1, de_blk_per_trk := 10, de_low_cyl := 2, de_high_cyl := 4\<rparr>"
  let ?r = "root_create 128 ''Work'' None None None 0 0"
  obtain m where m: "img_create False 512 100 = Inr m" "im_data m = replicate 51200 0" "im_block_bytes m = 512"
     "\<not> im_read_only m" by (simp add: img_create_def)
  obtain p where p: "part_open (img_open m) ?e = Inr p"
    by (simp add: part_open_def dos_env_init_def)
  have g: "pt_geo p = set_geometry 3 1 10 512 2 2" "bg_num_blocks (pt_geo p) = 30" "part_dev_ok p"
    using p m by (auto simp: part_open_def dos_env_init_def set_geometry_def Let_def part_dev_ok_def img_ok_def img_open_def)
  from bm_create_ok [of "pt_geo p" 15 ?r] small_vol_ok [OF g(1,2) _ _ refl] obtain b where b:
    "bm_create (bm_init (pt_geo p) 15 ?r) = Inr b" "bm_layout b" "bm_dirty b" "bm_geo b = pt_geo p" "bm_root_num b = 15" by auto
  from bitmap_survives_mount [OF g(3) b(4,2,3)] m(1) p b(1,5) show ?thesis by metis
qed

end
