(* ===== verification/Fs_Boot.thy ===== *)
theory Fs_Boot
  imports Fs_Bitmap
begin

text \<open>
  The boot block of a volume with its boot code (\<open>amitools/fs/block/BootBlock.py\<close>) and the directory
  cache block with its records (\<open>DirCacheBlock.py\<close>).
\<close>

subsection \<open>BootBlock\<close>

record boot_block =
  bo_geo :: blk_geo
  bo_num :: int
  bo_dos_type :: "int option"
  bo_got_root :: "int option"
  bo_got_chksum :: int
  bo_calc_chksum :: int
  bo_valid_chksum :: bool
  bo_code :: "byte list option"
  bo_data :: "byte list"
  bo_extra :: "byte list list"
  bo_valid :: bool

definition boot_init :: "blk_geo \<Rightarrow> int \<Rightarrow> boot_block" where
  "boot_init g n = \<lparr>bo_geo = g, bo_num = n, bo_dos_type = None, bo_got_root = None, bo_got_chksum = 0,
     bo_calc_chksum = 0, bo_valid_chksum = False, bo_code = None, bo_data = [], bo_extra = [], bo_valid = False\<rparr>"

definition boot_num_extra :: "blk_geo \<Rightarrow> nat" where
  "boot_num_extra g = nat (bg_bootblocks g - 1)"

definition max_boot_code :: "blk_geo \<Rightarrow> int" where
  "max_boot_code g = bg_bootblocks g * bg_block_bytes g - 12"

definition set_boot_code :: "byte list option \<Rightarrow> boot_block \<Rightarrow> boot_block" where
  "set_boot_code boot_code b =
     (case boot_code of
        None \<Rightarrow> b\<lparr>bo_code := None, bo_valid := True\<rparr>
      | Some c \<Rightarrow> if int (length c) \<le> max_boot_code (bo_geo b)
                  then b\<lparr>bo_code := Some c, bo_valid := True\<rparr> else b\<lparr>bo_valid := False\<rparr>)"

definition boot_create :: "int \<Rightarrow> int option \<Rightarrow> byte list option \<Rightarrow> boot_block \<Rightarrow> boot_block" where
  "boot_create dos_type root_blk boot_code b =
     (let g = bo_geo b; calc_root = bg_num_blocks g div 2;
          zero = replicate (nat (bg_block_bytes g)) 0
      in set_boot_code boot_code
           (b\<lparr>bo_dos_type := Some dos_type,
              bo_got_root := Some (case root_blk of Some r \<Rightarrow> r | None \<Rightarrow> calc_root),
              bo_data := zero, bo_extra := replicate (boot_num_extra g) zero\<rparr>))"

text \<open>The boot checksum: the sum of all long words but the checksum itself, the carry added back.\<close>

definition carry_add :: "int \<Rightarrow> int \<Rightarrow> int" where
  "carry_add s v = (let t = s + v in if t > 0xFFFFFFFF then (t + 1) AND 0xFFFFFFFF else t)"

fun boot_sum :: "int \<Rightarrow> bool \<Rightarrow> nat \<Rightarrow> nat \<Rightarrow> byte list \<Rightarrow> int \<Rightarrow> int res" where
  "boot_sum bl first 0 i d s = Inr s"
| "boot_sum bl first (Suc k) i d s =
     (if first \<and> i = 1 then boot_sum bl first k (Suc i) d s
      else rbind (get_long bl (int i) d) (\<lambda>v. boot_sum bl first k (Suc i) d (carry_add s v)))"

fun boot_sums :: "int \<Rightarrow> byte list list \<Rightarrow> int \<Rightarrow> int res" where
  "boot_sums bl [] s = Inr s"
| "boot_sums bl (d # ds) s = rbind (boot_sum bl False (nat bl) 0 d s) (boot_sums bl ds)"

definition boot_chksum :: "int \<Rightarrow> byte list \<Rightarrow> byte list list \<Rightarrow> int res" where
  "boot_chksum bl d extra =
     rbind (boot_sum bl True (nat bl) 0 d 0) (\<lambda>s. rbind (boot_sums bl extra s) (\<lambda>s. Inr (NOT s AND 0xFFFFFFFF)))"

text \<open>The end of the boot code: the last long word whose first byte is not zero.\<close>

function boot_end :: "byte list \<Rightarrow> int \<Rightarrow> int" where
  "boot_end c pos =
     (if pos > 0 then (if c ! nat pos \<noteq> 0 then pos + 4 else boot_end c (pos - 4)) else pos)"
  by pat_completeness auto
termination by (relation "measure (\<lambda>(c, pos). nat pos)") auto

definition read_boot_code :: "byte list \<Rightarrow> byte list list \<Rightarrow> byte list option \<Rightarrow> byte list option" where
  "read_boot_code d extra old =
     (let c = drop 12 d @ concat extra; pos = boot_end c (int (length c) - 4)
      in if pos > 0 then Some (take (nat pos) c) else old)"

fun read_extra :: "('d \<Rightarrow> int \<Rightarrow> 'd \<times> byte list res) \<Rightarrow> blk_geo \<Rightarrow> int \<Rightarrow> nat \<Rightarrow> 'd \<Rightarrow> 'd \<times> byte list list res" where
  "read_extra rd g n 0 d = (d, Inr [])"
| "read_extra rd g n (Suc k) d =
     (case read_data rd g n d of
        (d', Inl e) \<Rightarrow> (d', Inl e)
      | (d', Inr bs) \<Rightarrow> (case read_extra rd g (n + 1) k d' of (d'', r) \<Rightarrow> (d'', rbind r (\<lambda>ds. Inr (bs # ds)))))"

definition boot_parse :: "boot_block \<Rightarrow> byte list \<Rightarrow> byte list list \<Rightarrow> boot_block res" where
  "boot_parse b bs extra =
     (let bl = bg_block_longs (bo_geo b) in
      rbind (get_long bl 0 bs) (\<lambda>dos_type. rbind (get_long bl 1 bs) (\<lambda>got. rbind (get_long bl 2 bs) (\<lambda>root.
      rbind (boot_chksum bl bs extra) (\<lambda>calc.
        let valid = is_valid_dos_type dos_type
        in Inr (b\<lparr>bo_dos_type := Some dos_type, bo_got_root := Some root, bo_got_chksum := got, bo_calc_chksum := calc,
                  bo_valid_chksum := (got = calc),
                  bo_code := (if valid then read_boot_code bs extra (bo_code b) else bo_code b),
                  bo_data := bs, bo_extra := extra, bo_valid := valid\<rparr>))))))"

definition boot_read :: "('d \<Rightarrow> int \<Rightarrow> 'd \<times> byte list res) \<Rightarrow> boot_block \<Rightarrow> 'd \<Rightarrow> 'd \<times> boot_block res" where
  "boot_read rd b d =
     (case read_data rd (bo_geo b) (bo_num b) d of
        (d1, Inl e) \<Rightarrow> (d1, Inl e)
      | (d1, Inr bs) \<Rightarrow>
         (case read_extra rd (bo_geo b) (bo_num b + 1) (boot_num_extra (bo_geo b)) d1 of
            (d2, r) \<Rightarrow> (d2, rbind r (boot_parse b bs))))"

text \<open>The part of the boot code behind the first block goes to the extra blocks, as many as it needs.\<close>

fun write_extra :: "('d \<Rightarrow> int \<Rightarrow> byte list \<Rightarrow> 'd res) \<Rightarrow> nat \<Rightarrow> int \<Rightarrow> byte list list \<Rightarrow> byte list \<Rightarrow> 'd \<Rightarrow> (byte list list \<times> 'd) res" where
  "write_extra wr bb n extra [] d = Inr (extra, d)"
| "write_extra wr bb n [] c d = Inl IndexError"
| "write_extra wr bb n (x # xs) c d =
     (let part = take bb c; x' = part @ drop (length part) x
      in rbind (wr d n x') (\<lambda>d'. rbind (write_extra wr bb (n + 1) xs (drop bb c) d') (\<lambda>(ys, d''). Inr (x' # ys, d''))))"

definition boot_write :: "('d \<Rightarrow> int \<Rightarrow> byte list \<Rightarrow> 'd res) \<Rightarrow> boot_block \<Rightarrow> 'd \<Rightarrow> (boot_block \<times> 'd) res" where
  "boot_write wr b d =
     (case (bo_dos_type b, bo_got_root b) of
        (Some dos_type, Some root) \<Rightarrow>
          (let g = bo_geo b; bl = bg_block_longs g; bb = nat (bg_block_bytes g); first_size = bb - 12 in
           rbind (put_long bl 0 dos_type (replicate bb 0)) (\<lambda>bs.
           rbind (put_long bl 2 root bs) (\<lambda>bs.
           (case bo_code b of
              None \<Rightarrow> rbind (wr d (bo_num b) bs) (\<lambda>d'.
                  Inr (b\<lparr>bo_calc_chksum := 0, bo_valid_chksum := False, bo_data := bs\<rparr>, d'))
            | Some c \<Rightarrow>
                rbind (write_extra wr bb (bo_num b + 1) (bo_extra b) (drop first_size c) d) (\<lambda>(extra, d1).
                let part = take first_size c; bs = py_slice_set bs 12 (12 + int (length part)) part in
                rbind (boot_chksum bl bs extra) (\<lambda>chk. rbind (put_long bl 1 chk bs) (\<lambda>bs.
                rbind (wr d1 (bo_num b) bs) (\<lambda>d2.
                  Inr (b\<lparr>bo_calc_chksum := chk, bo_valid_chksum := True, bo_data := bs, bo_extra := extra\<rparr>, d2)))))))))
      | _ \<Rightarrow> Inl StructError)"

subsection \<open>DirCacheRecord\<close>

record cache_rec =
  cr_entry :: int
  cr_size :: int
  cr_protect :: int
  cr_mod_ts :: "time_stamp option"
  cr_sub_type :: int
  cr_name :: string
  cr_comment :: string

definition cr_get_size :: "cache_rec \<Rightarrow> int res" where
  "cr_get_size r =
     rbind (get_ami_str (cr_name r)) (\<lambda>n. rbind (get_ami_str (cr_comment r)) (\<lambda>c.
       Inr ((25 + int (length n) + int (length c) + 1) AND NOT 1)))"

definition pack_header :: "cache_rec \<Rightarrow> byte list res" where
  "pack_header r =
     (case cr_mod_ts r of None \<Rightarrow> Inl AttributeError | Some ts \<Rightarrow>
     rbind (pack_u 4 (cr_entry r)) (\<lambda>e. rbind (pack_u 4 (cr_size r)) (\<lambda>s. rbind (pack_u 4 (cr_protect r)) (\<lambda>p.
     rbind (pack_u 2 (ts_days ts)) (\<lambda>a. rbind (pack_u 2 (ts_mins ts)) (\<lambda>b.
     rbind (pack_u 2 (ts_ticks ts)) (\<lambda>c.
       Inr (e @ s @ p @ be_bytes 2 0 @ be_bytes 2 0 @ a @ b @ c))))))))"

text \<open>Assigning to one byte needs a value below 256.\<close>

definition put_byte :: "byte list \<Rightarrow> int \<Rightarrow> int \<Rightarrow> byte list res" where
  "put_byte d i v = (if 0 \<le> v \<and> v < 256 then py_set d i (word_of_int v) else Inl ValueError)"

definition cr_put :: "cache_rec \<Rightarrow> byte list \<Rightarrow> int \<Rightarrow> (byte list \<times> int) res" where
  "cr_put r d off =
     rbind (pack_header r) (\<lambda>h. rbind (pack_into d off h) (\<lambda>d.
     rbind (put_byte d (off + 22) (cr_sub_type r AND 0xFF)) (\<lambda>d.
     rbind (get_ami_str (cr_name r)) (\<lambda>name. let nl = int (length name) in
     rbind (put_byte d (off + 23) nl) (\<lambda>d. let d = py_slice_set d (off + 24) (off + 24 + nl) name in
     rbind (get_ami_str (cr_comment r)) (\<lambda>comment. let cl = int (length comment) in
     rbind (put_byte d (off + 24 + nl) cl) (\<lambda>d.
     let d = py_slice_set d (off + 25 + nl) (off + 25 + nl + cl) comment in
     rbind (cr_get_size r) (\<lambda>sz. Inr (d, off + sz)))))))))"

definition cr_get :: "byte list \<Rightarrow> int \<Rightarrow> (cache_rec \<times> int) res" where
  "cr_get d off =
     rbind (unpack_from 22 d off) (\<lambda>h.
     let fld = (\<lambda>p n. be_int (take n (drop p h))) in
     rbind (py_get d (off + 22)) (\<lambda>raw.
     rbind (py_get d (off + 23)) (\<lambda>b. let nl = uint b; name = latin1_dec (py_slice d (off + 24) (off + 24 + nl)) in
     rbind (py_get d (off + nl + 24)) (\<lambda>b2. let cl = uint b2;
       comment = latin1_dec (py_slice d (off + 25 + nl) (off + 25 + nl + cl));
       r = \<lparr>cr_entry = fld 0 4, cr_size = fld 4 4, cr_protect = fld 8 4,
            cr_mod_ts = Some \<lparr>ts_days = fld 16 2, ts_mins = fld 18 2, ts_ticks = fld 20 2\<rparr>,
            cr_sub_type = (if uint raw \<ge> 128 then uint raw - 256 else uint raw),
            cr_name = name, cr_comment = comment\<rparr>
     in rbind (cr_get_size r) (\<lambda>sz. Inr (r, off + sz))))))"

subsection \<open>DirCacheBlock\<close>

record dir_cache =
  dc_own_key :: int
  dc_parent :: int
  dc_num_records :: int
  dc_next_cache :: int
  dc_records :: "cache_rec list"

definition dc_create :: "int \<Rightarrow> int \<Rightarrow> cache_rec list option \<Rightarrow> int \<Rightarrow> dir_cache" where
  "dc_create blk_num parent records next_cache =
     (let rs = (case records of None \<Rightarrow> [] | Some rs \<Rightarrow> rs)
      in \<lparr>dc_own_key = blk_num, dc_parent = parent, dc_num_records = int (length rs), dc_next_cache = next_cache,
          dc_records = rs\<rparr>)"

definition dc_add_record :: "cache_rec \<Rightarrow> dir_cache \<Rightarrow> dir_cache" where
  "dc_add_record r c = (let rs = dc_records c @ [r] in c\<lparr>dc_num_records := int (length rs), dc_records := rs\<rparr>)"

text \<open>\<open>list.remove\<close> compares records by identity, the model by value. The directory removes the first
  record with a name, which is the first one of its value too.\<close>

definition dc_remove_record :: "cache_rec \<Rightarrow> dir_cache \<Rightarrow> dir_cache res" where
  "dc_remove_record r c =
     (if r \<in> set (dc_records c)
      then let rs = remove1 r (dc_records c) in Inr (c\<lparr>dc_num_records := int (length rs), dc_records := rs\<rparr>)
      else Inl ValueError)"

definition dc_record_by_name :: "string \<Rightarrow> dir_cache \<Rightarrow> cache_rec option" where
  "dc_record_by_name name c = find (\<lambda>r. cr_name r = name) (dc_records c)"

definition dc_has_record :: "cache_rec \<Rightarrow> dir_cache \<Rightarrow> bool" where
  "dc_has_record r c \<longleftrightarrow> r \<in> set (dc_records c)"

definition dc_is_empty :: "dir_cache \<Rightarrow> bool" where
  "dc_is_empty c \<longleftrightarrow> dc_num_records c = 0"

fun total_size :: "cache_rec list \<Rightarrow> int res" where
  "total_size [] = Inr 0"
| "total_size (r # rs) = rbind (cr_get_size r) (\<lambda>n. rbind (total_size rs) (\<lambda>m. Inr (n + m)))"

definition dc_free_size :: "int \<Rightarrow> dir_cache \<Rightarrow> int res" where
  "dc_free_size block_bytes c = rbind (total_size (dc_records c)) (\<lambda>n. Inr (block_bytes - 24 - n))"

fun put_recs :: "cache_rec list \<Rightarrow> byte list \<Rightarrow> int \<Rightarrow> byte list res" where
  "put_recs [] d off = Inr d"
| "put_recs (r # rs) d off = rbind (cr_put r d off) (\<lambda>(d', off'). put_recs rs d' off')"

fun get_recs :: "nat \<Rightarrow> byte list \<Rightarrow> int \<Rightarrow> cache_rec list res" where
  "get_recs 0 d off = Inr []"
| "get_recs (Suc n) d off =
     rbind (cr_get d off) (\<lambda>(r, off'). rbind (get_recs n d off') (\<lambda>rs. Inr (r # rs)))"

definition dc_write :: "int \<Rightarrow> dir_cache \<Rightarrow> byte list res" where
  "dc_write bl c =
     rbind (put_long bl 1 (dc_own_key c) (create_data bl)) (\<lambda>d.
     rbind (put_long bl 2 (dc_parent c) d) (\<lambda>d.
     rbind (put_long bl 3 (dc_num_records c) d) (\<lambda>d.
     rbind (put_long bl 4 (dc_next_cache c) d) (\<lambda>d.
     rbind (put_recs (dc_records c) d 24) (\<lambda>d. block_write bl T_DIR_CACHE 0 5 d)))))"

definition dc_read :: "int \<Rightarrow> byte list \<Rightarrow> dir_cache option res" where
  "dc_read bl d =
     rbind (block_read bl T_DIR_CACHE 0 5 d) (\<lambda>h.
     if \<not> bh_valid h then Inr None else
     rbind (get_long bl 1 d) (\<lambda>own_key. rbind (get_long bl 2 d) (\<lambda>parent.
     rbind (get_long bl 3 d) (\<lambda>num_records. rbind (get_long bl 4 d) (\<lambda>next_cache.
     rbind (get_recs (nat num_records) d 24) (\<lambda>rs.
       Inr (Some \<lparr>dc_own_key = own_key, dc_parent = parent, dc_num_records = num_records,
                  dc_next_cache = next_cache, dc_records = rs\<rparr>)))))))"

subsection \<open>Directory cache records in a block\<close>

lemma py_set_bput: "area p 1 d \<Longrightarrow> py_set d p v = Inr (bput p [v] d)"
  by (auto simp: area_def py_set_in bput_def upd_conv_take_nth_drop)

lemma pack_into_bput: "area p (int (length bs)) d \<Longrightarrow> pack_into d p bs = Inr (bput p bs d)"
  by (auto simp: area_def pack_into_def buf_offset_in bput_def)

lemma py_slice_set_bput: "area p n d \<Longrightarrow> n = int (length bs) \<Longrightarrow> q = p + n \<Longrightarrow> py_slice_set d p q bs = bput p bs d"
  using py_slice_set_area [of p bs d] by simp

lemma area_sub: "area p n d \<Longrightarrow> p \<le> q \<Longrightarrow> 0 \<le> m \<Longrightarrow> q + m \<le> p + n \<Longrightarrow> area q m d"
  by (simp add: area_def)

lemma bget_byte:
  assumes "area p n d" "bget p n d = bs" "0 \<le> i" "i < n"
  shows "py_get d (p + i) = Inr (bs ! nat i)"
proof -
  have "nat (p + i) = nat p + nat i" "nat p + nat i < length d" "nat i < nat n" using assms by (auto simp: area_def)
  then have "bs ! nat i = d ! nat (p + i)" unfolding assms(2) [symmetric] bget_def by simp
  with assms show ?thesis by (auto simp: py_get_in area_def)
qed

lemma bget_slice:
  assumes "area p n d" "bget p n d = bs" "0 \<le> i" "i \<le> j" "j \<le> n"
  shows "py_slice d (p + i) (p + j) = take (nat (j - i)) (drop (nat i) bs)"
proof -
  have "nat (p + i) = nat p + nat i" "nat (j - i) \<le> nat n - nat i" using assms by (auto simp: area_def)
  then show ?thesis using assms unfolding assms(2) [symmetric] bget_def
    by (simp add: py_slice_in area_def drop_take min_def add.commute)
qed

lemma bget_unpack:
  assumes "area p n d" "bget p n d = bs" "int w \<le> n"
  shows "unpack_from w d p = Inr (take w bs)"
  using assms(1,3) unfolding assms(2) [symmetric] bget_def
  by (auto simp: unpack_from_def area_def buf_offset_in min_def)

definition cr_ok :: "cache_rec \<Rightarrow> bool" where
  "cr_ok r \<longleftrightarrow> longs_ok [cr_entry r, cr_size r, cr_protect r] \<and>
     cr_mod_ts r \<noteq> None \<and> (\<forall>v \<in> {ts_days (ts_get (cr_mod_ts r)), ts_mins (ts_get (cr_mod_ts r)), ts_ticks (ts_get (cr_mod_ts r))}. 0 \<le> v \<and> v < 65536) \<and>
     - 128 \<le> cr_sub_type r \<and> cr_sub_type r < 128 \<and>
     plain_name (cr_name r) \<and> plain_name (cr_comment r) \<and> length (cr_name r) < 256 \<and> length (cr_comment r) < 256"

definition cr_header :: "cache_rec \<Rightarrow> byte list" where
  "cr_header r = be_bytes 4 (cr_entry r) @ be_bytes 4 (cr_size r) @ be_bytes 4 (cr_protect r) @ be_bytes 2 0 @ be_bytes 2 0 @
     be_bytes 2 (ts_days (ts_get (cr_mod_ts r))) @ be_bytes 2 (ts_mins (ts_get (cr_mod_ts r))) @ be_bytes 2 (ts_ticks (ts_get (cr_mod_ts r)))"

definition cr_bytes :: "cache_rec \<Rightarrow> byte list" where
  "cr_bytes r = cr_header r @ [word_of_int (cr_sub_type r), word_of_nat (length (cr_name r))] @ latin1_enc (cr_name r) @
     [word_of_nat (length (cr_comment r))] @ latin1_enc (cr_comment r)"

definition cr_len :: "cache_rec \<Rightarrow> int" where
  "cr_len r = 25 + int (length (cr_name r)) + int (length (cr_comment r))"

definition cr_step :: "cache_rec \<Rightarrow> int" where
  "cr_step r = (cr_len r + 1) AND NOT 1"

lemma length_cr_header [simp]: "length (cr_header r) = 22"
  by (simp add: cr_header_def)

lemma length_cr_bytes: "int (length (cr_bytes r)) = cr_len r"
  by (simp add: cr_bytes_def cr_len_def)

lemma and_not_1: "n AND NOT 1 = n - n mod (2 :: int)"
proof -
  have "n - (n AND 1) = n AND NOT (n AND 1)"
    by (rule disjunctive_diff_eq_and_not) (simp add: bit_eq_iff bit_simps)
  also have "\<dots> = n AND NOT 1" by (rule bit_eqI) (auto simp: bit_simps)
  finally show ?thesis by (simp add: and_one_eq)
qed

lemma cr_step_ge: "cr_len r \<le> cr_step r"
  unfolding cr_step_def and_not_1 using pos_mod_bound [of 2 "cr_len r + 1"] by linarith

lemma cr_get_size_ok: "cr_ok r \<Longrightarrow> cr_get_size r = Inr (cr_step r)"
  by (simp add: cr_get_size_def cr_ok_def get_ami_str_plain cr_step_def cr_len_def)

lemma pack_header_ok: "cr_ok r \<Longrightarrow> pack_header r = Inr (cr_header r)"
  by (auto simp: pack_header_def cr_header_def cr_ok_def longs_ok_def u32_ok_def pack_u_ok ts_get_def)

lemma and_255: "x AND 0xFF = (x :: int) mod 256"
  using take_bit_eq_mask [of 8 x] by (simp add: take_bit_eq_mod mask_eq_exp_minus_1)

lemma sub_type_byte: "(word_of_int (x AND 0xFF) :: byte) = word_of_int x"
  unfolding and_255 by transfer (simp add: take_bit_eq_mod)

lemma cr_put_ok:
  assumes "cr_ok r" "area off (cr_len r) d"
  shows "cr_put r d off = Inr (bput off (cr_bytes r) d, off + cr_step r)"
proof -
  let ?n = "latin1_enc (cr_name r)" and ?c = "latin1_enc (cr_comment r)" and ?h = "cr_header r"
  let ?st = "word_of_int (cr_sub_type r) :: byte" and ?nl = "word_of_nat (length (cr_name r)) :: byte"
  let ?cl = "word_of_nat (length (cr_comment r)) :: byte"
  have a: "area (off + i) m d" if "0 \<le> i" "0 \<le> m" "i + m \<le> cr_len r" for i m
    using assms(2) that by (auto simp: area_def)
  have names: "get_ami_str (cr_name r) = Inr ?n" "get_ami_str (cr_comment r) = Inr ?c" "length (cr_name r) < 256"
    "length (cr_comment r) < 256" using assms(1) by (simp_all add: cr_ok_def get_ami_str_plain)
  have st: "0 \<le> cr_sub_type r AND 0xFF" "cr_sub_type r AND 0xFF < 256"
    by (simp_all add: and_255)
  define d1 where "d1 = bput off ?h d"
  define d2 where "d2 = bput off (?h @ [?st]) d"
  define d3 where "d3 = bput off (?h @ [?st, ?nl]) d"
  define d4 where "d4 = bput off (?h @ [?st, ?nl] @ ?n) d"
  define d5 where "d5 = bput off (?h @ [?st, ?nl] @ ?n @ [?cl]) d"
  have L: "cr_len r = 25 + int (length ?n) + int (length ?c)" by (simp add: cr_len_def)
  have 1: "pack_into d off ?h = Inr d1" using a [of 0 22] L by (simp add: d1_def pack_into_bput)
  have 2: "put_byte d1 (off + 22) (cr_sub_type r AND 0xFF) = Inr d2"
    using a [of 22 1] a [of 0 22] a [of 0 23] L st
    by (simp add: put_byte_def d1_def d2_def py_set_bput sub_type_byte bput_adjacent)
  have 3: "put_byte d2 (off + 23) (int (length ?n)) = Inr d3"
    using a [of 23 1] a [of 0 23] a [of 0 24] L names(3)
    by (simp add: put_byte_def d2_def d3_def py_set_bput bput_adjacent)
  have 4: "py_slice_set d3 (off + 24) (off + 24 + int (length ?n)) ?n = d4"
    using a [of 24 "int (length ?n)"] a [of 0 24] a [of 0 "24 + int (length ?n)"] L
    by (simp add: d3_def d4_def py_slice_set_bput [where n = "int (length (cr_name r))"] py_slice_set_bput [where n = "int (length (cr_comment r))"] bput_adjacent)
  have 5: "put_byte d4 (off + 24 + int (length ?n)) (int (length ?c)) = Inr d5"
    using a [of "24 + int (length ?n)" 1] a [of 0 "24 + int (length ?n)"] a [of 0 "25 + int (length ?n)"] L names(4)
    by (simp add: put_byte_def d4_def d5_def py_set_bput bput_adjacent add.assoc)
  have 6: "py_slice_set d5 (off + 25 + int (length ?n)) (off + 25 + int (length ?n) + int (length ?c)) ?c = bput off (cr_bytes r) d"
    using a [of "25 + int (length ?n)" "int (length ?c)"] a [of 0 "25 + int (length ?n)"] a [of 0 "cr_len r"] L
    by (simp add: d5_def cr_bytes_def py_slice_set_bput [where n = "int (length (cr_name r))"] py_slice_set_bput [where n = "int (length (cr_comment r))"] bput_adjacent add.assoc)
  show ?thesis
    unfolding cr_put_def pack_header_ok [OF assms(1)] rbind_simps 1 2 names(1,2) Let_def 3 4 5 6
      cr_get_size_ok [OF assms(1)] by (rule refl)
qed

lemma be_sint_byte: "- 128 \<le> x \<Longrightarrow> x < 128 \<Longrightarrow>
  (if uint (word_of_int x :: byte) \<ge> 128 then uint (word_of_int x :: byte) - 256 else uint (word_of_int x :: byte)) = x"
proof -
  assume x: "- 128 \<le> x" "x < 128"
  have u: "uint (word_of_int x :: byte) = x mod 256" by (simp add: uint_word_of_int)
  show ?thesis
  proof (cases "0 \<le> x")
    case True
    with x show ?thesis unfolding u by simp
  next
    case False
    then have "x mod 256 = x + 256" using x mod_pos_pos_trivial [of "x + 256" 256] by simp
    with False x show ?thesis unfolding u by simp
  qed
qed

lemma uint_len_byte: "n < 256 \<Longrightarrow> uint (word_of_nat n :: byte) = int n"
proof -
  assume "n < 256"
  then have "unat (word_of_nat n :: byte) = n" by (simp add: unat_of_nat)
  then show ?thesis by (simp only: uint_nat)
qed

lemma be_int_u: "0 \<le> v \<Longrightarrow> v < 256 ^ n \<Longrightarrow> take n (be_bytes n v @ bs) = be_bytes n v"
  by simp

lemma cr_get_ok:
  assumes "cr_ok r" "area off (cr_len r) d" "bget off (cr_len r) d = cr_bytes r"
  shows "cr_get d off = Inr (r, off + cr_step r)"
proof -
  let ?n = "latin1_enc (cr_name r)" and ?c = "latin1_enc (cr_comment r)" and ?B = "cr_bytes r"
  note byte = bget_byte [OF assms(2,3)] and sl = bget_slice [OF assms(2,3)]
  have L: "cr_len r = 25 + int (length ?n) + int (length ?c)" by (simp add: cr_len_def)
  have k: "length (cr_name r) < 256" "length (cr_comment r) < 256" "- 128 \<le> cr_sub_type r" "cr_sub_type r < 128"
    using assms(1) by (simp_all add: cr_ok_def)
  have 1: "unpack_from 22 d off = Inr (cr_header r)"
    using bget_unpack [OF assms(2,3), of 22] L by (simp add: cr_bytes_def)
  have 2: "py_get d (off + 22) = Inr (word_of_int (cr_sub_type r))"
    using byte [of 22] L by (simp add: cr_bytes_def nth_append)
  have 3: "py_get d (off + 23) = Inr (word_of_nat (length (cr_name r)))"
    using byte [of 23] L by (simp add: cr_bytes_def nth_append)
  have 4: "py_slice d (off + 24) (off + 24 + int (length (cr_name r))) = ?n"
    using sl [of 24 "24 + int (length (cr_name r))"] L by (simp add: cr_bytes_def add.assoc)
  have "nat (24 + int (length (cr_name r))) = 24 + length ?n" by simp
  then have 5: "py_get d (off + int (length (cr_name r)) + 24) = Inr (word_of_nat (length (cr_comment r)))"
    using byte [of "24 + int (length (cr_name r))"] L by (simp add: cr_bytes_def nth_append ac_simps)
  have "nat (25 + int (length (cr_name r))) = 25 + length ?n" by simp
  then have 6: "py_slice d (off + 25 + int (length (cr_name r))) (off + 25 + int (length (cr_name r)) + int (length (cr_comment r))) = ?c"
    using sl [of "25 + int (length (cr_name r))" "25 + int (length (cr_name r)) + int (length (cr_comment r))"] L
    by (simp add: cr_bytes_def add.assoc numeral_3_eq_3)
  have h: "be_int (take 4 (drop 0 (cr_header r))) = cr_entry r" "be_int (take 4 (drop 4 (cr_header r))) = cr_size r"
    "be_int (take 4 (drop 8 (cr_header r))) = cr_protect r" "be_int (take 2 (drop 16 (cr_header r))) = ts_days (ts_get (cr_mod_ts r))"
    "be_int (take 2 (drop 18 (cr_header r))) = ts_mins (ts_get (cr_mod_ts r))" "be_int (take 2 (drop 20 (cr_header r))) = ts_ticks (ts_get (cr_mod_ts r))"
    using assms(1) by (simp_all add: cr_ok_def cr_header_def longs_ok_def u32_ok_def)
  have e: "\<lparr>cr_entry = cr_entry r, cr_size = cr_size r, cr_protect = cr_protect r,
      cr_mod_ts = Some \<lparr>ts_days = ts_days (ts_get (cr_mod_ts r)), ts_mins = ts_mins (ts_get (cr_mod_ts r)), ts_ticks = ts_ticks (ts_get (cr_mod_ts r))\<rparr>,
      cr_sub_type = cr_sub_type r, cr_name = cr_name r, cr_comment = cr_comment r\<rparr> = r"
    using assms(1) by (cases r) (auto simp: cr_ok_def ts_get_def)
  show ?thesis
    unfolding cr_get_def 1 rbind_simps Let_def 2 3 uint_len_byte [OF k(1)] 4 5 uint_len_byte [OF k(2)] 6 h
      be_sint_byte [OF k(3,4)] latin1_dec_enc e
    using cr_get_size_ok [OF assms(1)] by simp
qed

fun rec_areas :: "int \<Rightarrow> cache_rec list \<Rightarrow> (int \<times> byte list) list" where
  "rec_areas off [] = []"
| "rec_areas off (r # rs) = (off, cr_bytes r) # rec_areas (off + cr_step r) rs"

definition recs_size :: "cache_rec list \<Rightarrow> int" where
  "recs_size rs = sum_list (map cr_step rs)"

lemma cr_len_pos: "0 < cr_len r"
  by (simp add: cr_len_def)

lemma recs_size_simps [simp]: "recs_size [] = 0" "recs_size (r # rs) = cr_step r + recs_size rs"
  by (simp_all add: recs_size_def)

lemma recs_size_nonneg: "0 \<le> recs_size rs"
proof (induction rs)
  case (Cons r rs)
  then show ?case using cr_step_ge [of r] cr_len_pos [of r] by simp
qed simp

lemma rec_areas_bounds:
  "(p, bs) \<in> set (rec_areas off rs) \<Longrightarrow> off \<le> p \<and> p + int (length bs) \<le> off + recs_size rs"
proof (induction off rs rule: rec_areas.induct)
  case (2 off r rs)
  then show ?case
    using cr_step_ge [of r] cr_len_pos [of r] recs_size_nonneg [of rs] length_cr_bytes [of r] by fastforce
qed simp

lemma rec_areas_sorted: "sorted_wrt disj_area (rec_areas off rs)"
proof (induction off rs rule: rec_areas.induct)
  case (2 off r rs)
  have "disj_area (off, cr_bytes r) x" if "x \<in> set (rec_areas (off + cr_step r) rs)" for x
    using rec_areas_bounds [of "fst x" "snd x" "off + cr_step r" rs] that cr_step_ge [of r] length_cr_bytes [of r]
    by (simp add: disj_area_def)
  with 2 show ?case by simp
qed simp

lemma put_recs_ok:
  "\<forall>r \<in> set rs. cr_ok r \<Longrightarrow> 0 \<le> off \<Longrightarrow> off + recs_size rs \<le> int (length d) \<Longrightarrow> put_recs rs d off = Inr (put_areas (rec_areas off rs) d)"
proof (induction rs arbitrary: d off)
  case (Cons r rs)
  have a: "area off (cr_len r) d"
    using Cons.prems cr_step_ge [of r] cr_len_pos [of r] recs_size_nonneg [of rs] by (simp add: area_def)
  have "length (bput off (cr_bytes r) d) = length d" using a by (simp add: length_cr_bytes)
  then show ?case using Cons a cr_step_ge [of r] cr_len_pos [of r] by (simp add: cr_put_ok add.assoc)
qed simp

lemma get_recs_ok:
  "\<forall>r \<in> set rs. cr_ok r \<Longrightarrow> 0 \<le> off \<Longrightarrow> off + recs_size rs \<le> int (length d) \<Longrightarrow> holds (rec_areas off rs) d \<Longrightarrow>
     get_recs (length rs) d off = Inr rs"
proof (induction rs arbitrary: off)
  case (Cons r rs)
  have a: "area off (cr_len r) d"
    using Cons.prems cr_step_ge [of r] cr_len_pos [of r] recs_size_nonneg [of rs] by (simp add: area_def)
  have b: "bget off (cr_len r) d = cr_bytes r" using Cons.prems(4) by (simp add: holds_def length_cr_bytes)
  have "holds (rec_areas (off + cr_step r) rs) d" using Cons.prems(4) by (simp add: holds_def)
  moreover have "cr_get d off = Inr (r, off + cr_step r)" using Cons.prems(1) a b by (intro cr_get_ok) auto
  ultimately show ?case using Cons cr_step_ge [of r] cr_len_pos [of r] by (simp add: add.assoc)
qed simp

definition dc_ok :: "int \<Rightarrow> dir_cache \<Rightarrow> bool" where
  "dc_ok bl c \<longleftrightarrow> 7 \<le> bl \<and> bl < 2 ^ 30 \<and> (\<forall>r \<in> set (dc_records c). cr_ok r) \<and> 24 + recs_size (dc_records c) \<le> 4 * bl \<and>
     dc_num_records c = int (length (dc_records c)) \<and> longs_ok [dc_own_key c, dc_parent c, dc_next_cache c]"

lemma recs_size_length: "int (length rs) \<le> recs_size rs"
proof (induction rs)
  case (Cons r rs)
  then show ?case using cr_step_ge [of r] cr_len_pos [of r] by simp
qed simp

definition dc_areas :: "dir_cache \<Rightarrow> (int \<times> byte list) list" where
  "dc_areas c = [(4, be_bytes 4 (dc_own_key c)), (8, be_bytes 4 (dc_parent c)), (12, be_bytes 4 (dc_num_records c)),
     (16, be_bytes 4 (dc_next_cache c))] @ rec_areas 24 (dc_records c)"

lemma dc_roundtrip:
  assumes ok: "dc_ok bl c"
  shows "\<exists>d. dc_write bl c = Inr d \<and> int (length d) = 4 * bl \<and> dc_read bl d = Inr (Some c)"
proof -
  have r: "7 \<le> bl" "bl < 2 ^ 30" "\<forall>r \<in> set (dc_records c). cr_ok r" "24 + recs_size (dc_records c) \<le> 4 * bl"
    "dc_num_records c = int (length (dc_records c))" using ok by (simp_all add: dc_ok_def)
  have u: "u32_ok (dc_own_key c)" "u32_ok (dc_parent c)" "u32_ok (dc_num_records c)" "u32_ok (dc_next_cache c)"
    using ok recs_size_length [of "dc_records c"] by (auto simp: dc_ok_def longs_ok_def u32_ok_def)
  have w: "dc_write bl c = block_write bl T_DIR_CACHE 0 5 (put_areas (dc_areas c) (create_data bl))"
  proof -
    let ?hd = "[(4, be_bytes 4 (dc_own_key c)), (8, be_bytes 4 (dc_parent c)), (12, be_bytes 4 (dc_num_records c)),
       (16, be_bytes 4 (dc_next_cache c))]"
    let ?e = "put_areas ?hd (create_data bl)"
    have e: "blk_ok bl ?e" using r(1) by (intro blk_ok_areas blk_ok_create) (auto simp: areas_ok_def disj_area_def)
    have "put_recs (dc_records c) ?e 24 = Inr (put_areas (rec_areas 24 (dc_records c)) ?e)"
      using r(3,4) e by (intro put_recs_ok) (auto simp: blk_ok_def)
    moreover have "dc_write bl c = rbind (put_recs (dc_records c) ?e 24) (\<lambda>d. block_write bl T_DIR_CACHE 0 5 d)"
      using r(1) u unfolding dc_write_def by (simp add: blk_simps)
    ultimately show ?thesis by (simp add: dc_areas_def put_areas_append)
  qed
  have ao: "areas_ok (dc_areas c @ type_areas 5 bl T_DIR_CACHE 0 k) (4 * bl)" for k
  proof -
    have b: "24 \<le> p \<and> p + int (length bs) \<le> 4 * bl" if "(p, bs) \<in> set (rec_areas 24 (dc_records c))" for p bs
      using rec_areas_bounds [OF that] r(4) by simp
    show ?thesis using r(1) rec_areas_sorted unfolding areas_ok_def dc_areas_def type_areas_def
      by (auto simp: disj_area_def sorted_wrt_append dest!: b)
  qed
  have t: "u32_ok T_DIR_CACHE" "T_DIR_CACHE \<noteq> 0" by (simp_all add: T_DIR_CACHE_def u32_ok_def)
  obtain d h where d: "dc_write bl c = Inr d" "blk_ok bl d"
    and hd: "block_read bl T_DIR_CACHE 0 5 d = Inr h" "bh_valid h" and h: "holds (dc_areas c) d"
    using block_written [OF w _ t type_consts(15) ao] r(1) by (auto simp: holds_def)
  note L = dc_areas_def [of c]
  have F: "get_long bl 1 d = Inr (dc_own_key c)" "get_long bl 2 d = Inr (dc_parent c)"
    "get_long bl 3 d = Inr (dc_num_records c)" "get_long bl 4 d = Inr (dc_next_cache c)"
  proof -
    show "get_long bl 1 d = Inr (dc_own_key c)"
      by (rule get_long_held [OF d(2) h, where n = 1]) (use r u in \<open>auto simp: L\<close>)
    show "get_long bl 2 d = Inr (dc_parent c)"
      by (rule get_long_held [OF d(2) h, where n = 2]) (use r u in \<open>auto simp: L\<close>)
    show "get_long bl 3 d = Inr (dc_num_records c)"
      by (rule get_long_held [OF d(2) h, where n = 3]) (use r u in \<open>auto simp: L\<close>)
    show "get_long bl 4 d = Inr (dc_next_cache c)"
      by (rule get_long_held [OF d(2) h, where n = 4]) (use r u in \<open>auto simp: L\<close>)
  qed
  have "holds (rec_areas 24 (dc_records c)) d" using h by (auto simp: L holds_def)
  then have "get_recs (length (dc_records c)) d 24 = Inr (dc_records c)"
    using r(3,4) d(2) by (intro get_recs_ok) (auto simp: blk_ok_def)
  then have "dc_read bl d = Inr (Some c)" using hd r(5) by (simp add: dc_read_def F)
  with d show ?thesis by (auto simp: blk_ok_def)
qed

subsection \<open>The boot checksum\<close>

abbreviation M32 :: int where "M32 \<equiv> 0xFFFFFFFF"

text \<open>\<open>s\<close> is the sum \<open>t\<close> with the carries added back: the same number modulo \<open>2^32 - 1\<close>, and zero only
  for the sum zero.\<close>

definition folded :: "int \<Rightarrow> int \<Rightarrow> bool" where
  "folded s t \<longleftrightarrow> 0 \<le> s \<and> s \<le> M32 \<and> 0 \<le> t \<and> s mod M32 = t mod M32 \<and> (s = 0 \<longleftrightarrow> t = 0)"

lemma folded_add:
  assumes "folded s t" "u32_ok v"
  shows "folded (carry_add s v) (t + v)"
proof -
  have v: "0 \<le> v" "v \<le> M32" using assms(2) by (auto simp: u32_ok_def)
  have s: "0 \<le> s" "s \<le> M32" "0 \<le> t" "s mod M32 = t mod M32" "s = 0 \<longleftrightarrow> t = 0" using assms(1) by (auto simp: folded_def)
  have m: "(s + v) mod M32 = (t + v) mod M32" using s(4) by (metis mod_add_left_eq)
  show ?thesis
  proof (cases "s + v > M32")
    case True
    have "(s + v + 1) AND 0xFFFFFFFF = (s + v + 1) mod 2 ^ 32" by (rule and_u32)
    also have "\<dots> = (s + v + 1 - 2 ^ 32) mod 2 ^ 32" by (rule minus_mod_self2 [symmetric])
    also have "\<dots> = s + v + 1 - 2 ^ 32" using True s(2) v(2) by (intro mod_pos_pos_trivial) simp_all
    finally have c: "carry_add s v = s + v - M32" using True by (simp add: carry_add_def Let_def)
    moreover have "(s + v - M32) mod M32 = (s + v) mod M32" by (rule minus_mod_self2)
    ultimately show ?thesis using True s v m by (auto simp: folded_def)
  next
    case False
    then have "carry_add s v = s + v" by (simp add: carry_add_def Let_def)
    with False s v m show ?thesis by (auto simp: folded_def)
  qed
qed

lemma folded_unique:
  assumes "folded s t" "folded s' t'" "t mod M32 = t' mod M32" "0 < t" "0 < t'"
  shows "s = s'"
proof -
  have e: "s mod M32 = s' mod M32" using assms(1-3) by (simp add: folded_def)
  have r: "0 < s" "s \<le> M32" "0 < s'" "s' \<le> M32" using assms by (auto simp: folded_def order_less_le)
  have "x mod M32 = (if x = M32 then 0 else x)" if "0 < x" "x \<le> M32" for x :: int using that by simp
  from this [OF r(1,2)] this [OF r(3,4)] e r show ?thesis by (auto split: if_splits)
qed

abbreviation skip_of :: "bool \<Rightarrow> int" where
  "skip_of first \<equiv> (if first then 1 else - 1)"

lemma slot_nonneg: "0 \<le> slot d i"
  using be_int_bounds [of "bget (4 * i) 4 d"] by (simp add: slot_def)

lemma slot_sum_Suc:
  "slot_sum c i (Suc k) d = (if int i \<noteq> c then slot d (int i) else 0) + slot_sum c (Suc i) k d"
  by (simp add: slot_sum_def upt_conv_Cons del: upt_Suc)

lemma slot_sum_nonneg: "0 \<le> slot_sum c i k d"
  unfolding slot_sum_def by (rule sum_list_nonneg) (auto simp: slot_nonneg)

lemma boot_sum_ok:
  "blk_ok bl d \<Longrightarrow> int (i + k) \<le> bl \<Longrightarrow> folded s t \<Longrightarrow>
     \<exists>s'. boot_sum bl first k i d s = Inr s' \<and> folded s' (t + slot_sum (skip_of first) i k d)"
proof (induction k arbitrary: i s t)
  case 0
  then show ?case by (simp add: slot_sum_def)
next
  case (Suc k)
  have g: "get_long bl (int i) d = Inr (slot d (int i))" using Suc.prems by (simp add: get_long_slot)
  have u: "u32_ok (slot d (int i))" using Suc.prems(1,2) by (intro slot_u32) (simp add: area_def blk_ok_def)
  have k: "int (Suc i + k) \<le> bl" using Suc.prems(2) by simp
  show ?case
  proof (cases "first \<and> i = 1")
    case True
    with Suc.IH [OF Suc.prems(1) k Suc.prems(3)] show ?thesis by (simp add: slot_sum_Suc)
  next
    case False
    then have "int i \<noteq> skip_of first" by auto
    moreover have "boot_sum bl first (Suc k) i d s = boot_sum bl first k (Suc i) d (carry_add s (slot d (int i)))"
      using False g by auto
    ultimately show ?thesis using Suc.IH [OF Suc.prems(1) k folded_add [OF Suc.prems(3) u]]
      by (simp add: slot_sum_Suc add.assoc del: boot_sum.simps)
  qed
qed

definition block_sum :: "int \<Rightarrow> byte list \<Rightarrow> int" where
  "block_sum bl d = slot_sum (- 1) 0 (nat bl) d"

lemma boot_sums_ok:
  "\<forall>d \<in> set ds. blk_ok bl d \<Longrightarrow> 0 \<le> bl \<Longrightarrow> folded s t \<Longrightarrow>
     \<exists>s'. boot_sums bl ds s = Inr s' \<and> folded s' (t + sum_list (map (block_sum bl) ds))"
proof (induction ds arbitrary: s t)
  case (Cons d ds)
  from boot_sum_ok [of bl d 0 "nat bl" s t False] Cons.prems obtain s1 where
    "boot_sum bl False (nat bl) 0 d s = Inr s1" "folded s1 (t + block_sum bl d)" by (auto simp: block_sum_def)
  moreover from Cons.IH [OF _ _ this(2)] Cons.prems(1,2) obtain s2 where "boot_sums bl ds s1 = Inr s2"
    "folded s2 (t + block_sum bl d + sum_list (map (block_sum bl) ds))" by auto
  ultimately show ?case by (auto simp: add.assoc)
qed simp

lemma boot_chksum_ok:
  assumes "blk_ok bl d" "\<forall>x \<in> set ds. blk_ok bl x" "2 \<le> bl"
  shows "\<exists>s. boot_chksum bl d ds = Inr (M32 - s) \<and> folded s (slot_sum 1 0 (nat bl) d + sum_list (map (block_sum bl) ds))"
proof -
  have z: "folded 0 0" by (simp add: folded_def)
  from boot_sum_ok [OF assms(1) _ z, of 0 "nat bl" True] assms(3) obtain s1 where
    s1: "boot_sum bl True (nat bl) 0 d 0 = Inr s1" "folded s1 (slot_sum 1 0 (nat bl) d)" by auto
  from boot_sums_ok [OF assms(2) _ s1(2)] assms(3) obtain s2 where s2: "boot_sums bl ds s1 = Inr s2"
    "folded s2 (slot_sum 1 0 (nat bl) d + sum_list (map (block_sum bl) ds))" by auto
  have "NOT s2 AND M32 = (- s2 - 1) mod 2 ^ 32" unfolding and_u32 by (simp add: not_eq_complement)
  also have "\<dots> = M32 - s2"
    using s2(2) mod_pos_pos_trivial [of "M32 - s2" "2 ^ 32"] mod_add_self2 [of "- s2 - 1" "2 ^ 32 :: int"]
    by (simp add: folded_def algebra_simps)
  finally show ?thesis using s1(1) s2 by (simp add: boot_chksum_def)
qed

subsection \<open>The bytes of a boot block\<close>

definition boot_main :: "int \<Rightarrow> int \<Rightarrow> int \<Rightarrow> byte list \<Rightarrow> nat \<Rightarrow> byte list" where
  "boot_main dos chk root part bb = be_bytes 4 dos @ be_bytes 4 chk @ be_bytes 4 root @ part @ replicate (bb - 12 - length part) 0"

lemma boot_main_length: "12 + length part \<le> bb \<Longrightarrow> length (boot_main dos chk root part bb) = bb"
  by (simp add: boot_main_def)

lemma zero_bytes: "be_bytes 4 0 = replicate 4 0"
  by code_simp

lemma boot_main_steps:
  assumes "int bb = 4 * bl" "3 \<le> bl" "u32_ok dos" "u32_ok root" "u32_ok chk" "12 + length part \<le> bb"
  shows "put_long bl 0 dos (replicate bb 0) = Inr (be_bytes 4 dos @ replicate (bb - 4) 0)"
    and "put_long bl 2 root (be_bytes 4 dos @ replicate (bb - 4) 0) = Inr (boot_main dos 0 root [] bb)"
    and "py_slice_set (boot_main dos 0 root [] bb) 12 (12 + int (length part)) part = boot_main dos 0 root part bb"
    and "put_long bl 1 chk (boot_main dos c root part bb) = Inr (boot_main dos chk root part bb)"
proof -
  have bb: "12 \<le> bb" using assms(1,2) by linarith
  have r8: "replicate (bb - 4) (0 :: byte) = be_bytes 4 0 @ replicate 4 0 @ replicate (bb - 12) 0"
  proof -
    have "bb - 4 = 4 + (4 + (bb - 12))" using bb by simp
    then show ?thesis by (simp only: zero_bytes replicate_add)
  qed
  show "put_long bl 0 dos (replicate bb 0) = Inr (be_bytes 4 dos @ replicate (bb - 4) 0)"
    using assms bb by (simp add: put_long_area blk_ok_def bput_def)
  show "put_long bl 2 root (be_bytes 4 dos @ replicate (bb - 4) 0) = Inr (boot_main dos 0 root [] bb)"
    using assms bb by (simp add: put_long_area blk_ok_def) (simp add: r8 bput_def boot_main_def)
  have "replicate (bb - 12) (0 :: byte) = replicate (length part) 0 @ replicate (bb - 12 - length part) 0"
    using assms(6) by (simp flip: replicate_add)
  then show "py_slice_set (boot_main dos 0 root [] bb) 12 (12 + int (length part)) part = boot_main dos 0 root part bb"
    using assms(6) by (simp add: py_slice_set_in boot_main_length) (simp add: boot_main_def nat_add_distrib)
  show "put_long bl 1 chk (boot_main dos c root part bb) = Inr (boot_main dos chk root part bb)"
    using assms by (simp add: put_long_area blk_ok_def boot_main_length) (simp add: boot_main_def bput_def)
qed

lemma boot_main_get:
  assumes "int bb = 4 * bl" "3 \<le> bl" "u32_ok dos" "u32_ok root" "u32_ok chk" "12 + length part \<le> bb"
  shows "get_long bl 0 (boot_main dos chk root part bb) = Inr dos" "get_long bl 1 (boot_main dos chk root part bb) = Inr chk"
    "get_long bl 2 (boot_main dos chk root part bb) = Inr root"
  using assms by (simp_all add: get_long_slot blk_ok_def boot_main_length slot_def bget_def boot_main_def u32_ok_def)

lemma boot_main_sum:
  assumes "int bb = 4 * bl" "3 \<le> bl" "u32_ok chk" "12 + length part \<le> bb"
  shows "slot_sum 1 0 (nat bl) (boot_main dos chk root part bb) = slot_sum 1 0 (nat bl) (boot_main dos c root part bb)"
proof -
  have e: "boot_main dos chk root part bb = bput (4 * 1) (be_bytes 4 chk) (boot_main dos c root part bb)"
    using assms(4) by (simp add: boot_main_def bput_def)
  show ?thesis unfolding e using assms by (intro slot_sum_chk) (simp_all add: blk_ok_def boot_main_length)
qed

text \<open>The end of the boot code is where its last long word ends.\<close>

lemma boot_end_zero:
  "a \<le> k \<Longrightarrow> (\<And>j. a < j \<Longrightarrow> j \<le> k \<Longrightarrow> c ! (4 * j) = 0) \<Longrightarrow> boot_end c (4 * int k) = boot_end c (4 * int a)"
proof (induction k)
  case (Suc k)
  show ?case
  proof (cases "a = Suc k")
    case False
    then have "a \<le> k" using Suc.prems(1) by simp
    moreover from this have "c ! (4 * Suc k) = 0" by (intro Suc.prems(2)) simp_all
    moreover have "nat (4 * int (Suc k)) = 4 * Suc k" "4 * int (Suc k) - 4 = 4 * int k" by simp_all
    ultimately have "boot_end c (4 * int (Suc k)) = boot_end c (4 * int k)" by (subst boot_end.simps) (simp del: boot_end.simps)
    with Suc \<open>a \<le> k\<close> show ?thesis by (simp del: boot_end.simps)
  qed simp
qed simp

lemma boot_end_scan:
  "boot_end x (4 * int k) = (let js = filter (\<lambda>j. x ! (4 * j) \<noteq> 0) [1..<Suc k] in if js = [] then 0 else 4 * int (last js) + 4)"
proof (induction k)
  case (Suc k)
  have n: "nat (4 * int (Suc k)) = 4 * Suc k" "4 * int (Suc k) - 4 = 4 * int k" by simp_all
  show ?case
  proof (cases "x ! (4 * Suc k) = 0")
    case True
    then have "boot_end x (4 * int (Suc k)) = boot_end x (4 * int k)"
      using n by (subst boot_end.simps) (simp del: boot_end.simps)
    with Suc True show ?thesis by (simp add: upt_Suc_append del: boot_end.simps upt_Suc)
  next
    case False
    then have "boot_end x (4 * int (Suc k)) = 4 * int (Suc k) + 4"
      using n by (subst boot_end.simps) (simp del: boot_end.simps)
    with False show ?thesis by (simp add: upt_Suc_append Let_def del: boot_end.simps upt_Suc)
  qed
qed simp

text \<open>What is read back of boot code: padded to long words, up to its last long word that does not start with a zero byte,
  the first one not looked at; None when there is no such word.\<close>

definition pad4 :: "byte list \<Rightarrow> byte list" where
  "pad4 c = c @ replicate ((4 - length c mod 4) mod 4) 0"

definition kept_code :: "byte list \<Rightarrow> byte list option" where
  "kept_code c =
     (let p = pad4 c; ks = filter (\<lambda>k. p ! (4 * k) \<noteq> 0) [1..<length p div 4]
      in if ks = [] then None else Some (take (4 * last ks + 4) p))"

lemma pad4_length: "4 dvd length (pad4 c)" "length c \<le> length (pad4 c)" "length (pad4 c) < length c + 4"
proof -
  have l: "length (pad4 c) = length c + (4 - length c mod 4) mod 4" by (simp add: pad4_def)
  have "4 dvd n + (4 - n mod 4) mod 4" for n :: nat
  proof -
    have "n mod 4 + (4 - n mod 4) = 4" by (simp add: less_imp_le)
    then have "4 * (n div 4) + n mod 4 + (4 - n mod 4) = 4 * (n div 4 + 1)" by (simp only: add.assoc distrib_left mult_1_right)
    then have "n + (4 - n mod 4) = 4 * (n div 4 + 1)" by (simp only: mult_div_mod_eq)
    then have "(n + (4 - n mod 4)) mod 4 = 0" by simp
    then show ?thesis by (simp only: dvd_eq_mod_eq_0 mod_add_right_eq)
  qed
  then show "4 dvd length (pad4 c)" unfolding l .
  show "length c \<le> length (pad4 c)" "length (pad4 c) < length c + 4" unfolding l by simp_all
qed

lemma kept_code_scan:
  assumes "x = pad4 c @ replicate n 0" "length x = 4 * Suc K"
  shows "(let pos = boot_end x (int (length x) - 4) in if pos > 0 then Some (take (nat pos) x) else None) = kept_code c"
proof -
  define p P where "p = pad4 c" and "P = length p div 4"
  have P: "length p = 4 * P" using pad4_length(1) [of c] by (simp add: P_def p_def)
  with assms have PK: "P \<le> Suc K" by (simp add: p_def)
  define js where "js = filter (\<lambda>j. x ! (4 * j) \<noteq> 0) [1..<Suc K]"
  define ks where "ks = filter (\<lambda>k. p ! (4 * k) \<noteq> 0) [1..<P]"
  have nz: "x ! (4 * j) = (if j < P then p ! (4 * j) else 0)" if "j < Suc K" for j
    using that P assms by (simp add: nth_append p_def)
  have "js = filter (\<lambda>j. j < P \<and> p ! (4 * j) \<noteq> 0) [1..<Suc K]"
    unfolding js_def by (rule filter_cong) (auto simp: nz split: if_splits)
  also have "\<dots> = ks"
  proof (cases "P = 0")
    case False
    then have sp: "[1..<Suc K] = [1..<P] @ [P..<Suc K]"
      using PK upt_add_eq_append [of 1 P "Suc K - P"] by (simp del: upt_Suc)
    have "filter (\<lambda>j. j < P \<and> p ! (4 * j) \<noteq> 0) [1..<P] = ks" unfolding ks_def by (rule filter_cong) auto
    moreover have "filter (\<lambda>j. j < P \<and> p ! (4 * j) \<noteq> 0) [P..<Suc K] = []" by (simp add: filter_empty_conv del: upt_Suc)
    ultimately show ?thesis unfolding sp filter_append by simp
  qed (simp add: ks_def)
  finally have jk: "js = ks" .
  have lk: "last ks < P" if "ks \<noteq> []" using last_in_set [OF that] by (auto simp: ks_def)
  have b: "boot_end x (int (length x) - 4) = (if ks = [] then 0 else 4 * int (last ks) + 4)"
  proof -
    have "int (length x) - 4 = 4 * int K" using assms(2) by simp
    then show ?thesis unfolding boot_end_scan [of x K, folded js_def, unfolded jk Let_def, symmetric] by simp
  qed
  have t: "take (4 * last ks + 4) x = take (4 * last ks + 4) p" if "ks \<noteq> []"
    using lk [OF that] P assms(1) by (simp add: p_def)
  have "nat (4 * int (last ks) + 4) = 4 * last ks + 4" by simp
  then show ?thesis unfolding b kept_code_def p_def [symmetric] P_def [symmetric] ks_def [symmetric] Let_def
    using t by (simp add: p_def)
qed

lemma kept_code_all:
  assumes "4 dvd length c" "4 < length c" "c ! (length c - 4) \<noteq> 0"
  shows "kept_code c = Some c"
proof -
  obtain m where m: "length c = 4 * Suc (Suc m)"
  proof -
    obtain p where "length c = 4 * p" using assms(1) by (elim dvdE)
    with assms(2) that [of "p - 2"] show ?thesis by simp
  qed
  have "pad4 c = c" using m by (simp add: pad4_def)
  moreover have "c ! (4 * Suc m) \<noteq> 0" using assms(3) m by simp
  ultimately show ?thesis using m by (simp add: kept_code_def upt_Suc_append del: upt_Suc)
qed

lemma kept_code_iff: "kept_code c = Some c \<longleftrightarrow> 4 dvd length c \<and> 4 < length c \<and> c ! (length c - 4) \<noteq> 0"
proof
  assume k: "kept_code c = Some c"
  define ks where "ks = filter (\<lambda>k. pad4 c ! (4 * k) \<noteq> 0) [1..<length (pad4 c) div 4]"
  have ks: "ks \<noteq> []" "take (4 * last ks + 4) (pad4 c) = c"
    using k by (auto simp: kept_code_def ks_def Let_def split: if_splits)
  have l: "1 \<le> last ks" "last ks < length (pad4 c) div 4" "pad4 c ! (4 * last ks) \<noteq> 0"
    using last_in_set [OF ks(1)] by (auto simp: ks_def)
  have "4 * last ks + 4 \<le> length (pad4 c)" using l(2) by linarith
  then have lc: "length c = 4 * last ks + 4" using arg_cong [OF ks(2), of length] by simp
  then have "pad4 c = c" by (simp add: pad4_def)
  with lc l show "4 dvd length c \<and> 4 < length c \<and> c ! (length c - 4) \<noteq> 0" by simp
qed (simp add: kept_code_all)

subsection \<open>Writing and reading a boot block\<close>

fun extra_out :: "nat \<Rightarrow> byte list list \<Rightarrow> byte list \<Rightarrow> byte list list" where
  "extra_out bb xs [] = xs"
| "extra_out bb [] c = []"
| "extra_out bb (x # xs) c = (take bb c @ drop (length (take bb c)) x) # extra_out bb xs (drop bb c)"

lemma extra_out_lengths:
  "\<forall>x \<in> set xs. length x = bb \<Longrightarrow> length (extra_out bb xs c) = length xs \<and> (\<forall>x \<in> set (extra_out bb xs c). length x = bb)"
  by (induction bb xs c rule: extra_out.induct) auto

lemma extra_out_zero:
  "0 < bb \<Longrightarrow> length c \<le> bb * k \<Longrightarrow>
     concat (extra_out bb (replicate k (replicate bb 0)) c) = c @ replicate (bb * k - length c) 0"
proof (induction k arbitrary: c)
  case (Suc k)
  have z: "concat (replicate k (replicate bb (0 :: byte))) = replicate (bb * k) 0"
    by (induction k) (simp_all add: replicate_add)
  show ?case
  proof (cases c)
    case Nil
    then show ?thesis using z by (simp add: replicate_add)
  next
    case (Cons a as)
    have r: "concat (extra_out bb (replicate (Suc k) (replicate bb 0)) c) =
        (take bb c @ replicate (bb - length (take bb c)) 0) @ concat (extra_out bb (replicate k (replicate bb 0)) (drop bb c))"
      unfolding Cons by simp
    have "concat (extra_out bb (replicate k (replicate bb 0)) (drop bb c)) =
        drop bb c @ replicate (bb * k - length (drop bb c)) 0"
      using Suc.prems by (intro Suc.IH) (simp_all add: le_diff_conv)
    note e = this
    show ?thesis
    proof (cases "length c \<le> bb")
      case True
      then show ?thesis unfolding r e by (simp flip: replicate_add)
    next
      case False
      then have "length (take bb c) = bb" by simp
      then have "concat (extra_out bb (replicate (Suc k) (replicate bb 0)) c) =
          (take bb c @ drop bb c) @ replicate (bb * k - length (drop bb c)) 0"
        unfolding r e by (simp only: diff_self_eq_0 replicate_0 append_Nil2 append_assoc)
      moreover have "bb * k - length (drop bb c) = bb * Suc k - length c" using False by simp
      ultimately show ?thesis by (simp only: append_take_drop_id)
    qed
  qed
qed simp

lemma folded_same: "folded s t \<Longrightarrow> folded s' t \<Longrightarrow> s = s'"
  using folded_unique [of s t s' t] by (cases "t = 0") (auto simp: folded_def)

definition boot_geo_ok :: "blk_geo \<Rightarrow> bool" where
  "boot_geo_ok g \<longleftrightarrow> bg_block_bytes g = 4 * bg_block_longs g \<and> 4 \<le> bg_block_longs g \<and>
     1 \<le> bg_bootblocks g \<and> bg_bootblocks g \<le> bg_num_blocks g"

context block_device
begin

lemma write_extra_ok:
  "0 < bb \<Longrightarrow> \<forall>x \<in> set xs. length x = bb \<Longrightarrow> length c \<le> bb * length xs \<Longrightarrow> wf d \<Longrightarrow> bytes d = int bb \<Longrightarrow>
   0 \<le> n \<Longrightarrow> n + int (length xs) \<le> num d \<Longrightarrow> \<forall>i < length xs. snd (rd_blk d (n + int i)) = Inr (xs ! i) \<Longrightarrow>
   \<exists>d'. write_extra wr_blk bb n xs c d = Inr (extra_out bb xs c, d') \<and> wf d' \<and> num d' = num d \<and> bytes d' = bytes d \<and>
     (\<forall>b. 0 \<le> b \<and> b < num d \<and> (b < n \<or> n + int (length xs) \<le> b) \<longrightarrow> snd (rd_blk d' b) = snd (rd_blk d b)) \<and>
     (\<forall>i < length xs. snd (rd_blk d' (n + int i)) = Inr (extra_out bb xs c ! i))"
proof (induction xs arbitrary: c d n)
  case (Cons x xs)
  show ?case
  proof (cases "c = []")
    case False
    let ?x = "take bb c @ drop (length (take bb c)) x"
    have lx: "int (length ?x) = bytes d" using Cons.prems(2,5) by auto
    from write_ok [OF Cons.prems(4) _ _ lx, of n] Cons.prems(6,7) obtain d1 where d1: "wr_blk d n ?x = Inr d1" "wf d1"
      "num d1 = num d" "bytes d1 = bytes d"
      "\<forall>c. 0 \<le> c \<and> c < num d \<longrightarrow> snd (rd_blk d1 c) = (if c = n then Inr ?x else snd (rd_blk d c))" by auto
    have sy: "\<forall>i < length xs. snd (rd_blk d1 (n + 1 + int i)) = Inr (xs ! i)"
    proof (intro allI impI)
      fix i assume i: "i < length xs"
      then have "snd (rd_blk d (n + int (Suc i))) = Inr (xs ! i)" using Cons.prems(8) by (metis Suc_less_eq length_Cons nth_Cons_Suc)
      moreover have e: "n + 1 + int i = n + int (Suc i)" by simp
      have "n + int (Suc i) \<noteq> n" "n + int (Suc i) < num d" using i Cons.prems(7) by simp_all
      ultimately show "snd (rd_blk d1 (n + 1 + int i)) = Inr (xs ! i)" unfolding e using d1(5) Cons.prems(6) by auto
    qed
    have ld: "length (drop bb c) \<le> bb * length xs" using Cons.prems(3) by (simp add: le_diff_conv add.commute)
    from Cons.IH [OF Cons.prems(1) _ ld d1(2) _ _ _ sy] Cons.prems d1(3,4) obtain d2 where
      d2: "write_extra wr_blk bb (n + 1) xs (drop bb c) d1 = Inr (extra_out bb xs (drop bb c), d2)" "wf d2" "num d2 = num d" "bytes d2 = bytes d"
        "\<forall>b. 0 \<le> b \<and> b < num d \<and> (b < n + 1 \<or> n + 1 + int (length xs) \<le> b) \<longrightarrow> snd (rd_blk d2 b) = snd (rd_blk d1 b)"
        "\<forall>i < length xs. snd (rd_blk d2 (n + 1 + int i)) = Inr (extra_out bb xs (drop bb c) ! i)" by auto
    have eo: "extra_out bb (x # xs) c = ?x # extra_out bb xs (drop bb c)" using False by (cases c) simp_all
    have "write_extra wr_blk bb n (x # xs) c d = Inr (extra_out bb (x # xs) c, d2)"
      using False d1(1) d2(1) by (cases c) (simp_all add: Let_def)
    moreover have "snd (rd_blk d2 (n + int i)) = Inr (extra_out bb (x # xs) c ! i)" if "i < length (x # xs)" for i
    proof (cases i)
      case 0
      have "n < num d" using Cons.prems(7) by simp
      with 0 show ?thesis using d2(5) d1(5) Cons.prems(6) by (simp add: eo)
    next
      case (Suc j)
      then have e: "n + int i = n + 1 + int j" "j < length xs" using that by simp_all
      have "extra_out bb (x # xs) c ! i = extra_out bb xs (drop bb c) ! j" using Suc by (simp add: eo)
      then show ?thesis unfolding e(1) using d2(6) e(2) by simp
    qed
    moreover have "snd (rd_blk d2 b) = snd (rd_blk d b)" if "0 \<le> b" "b < num d" "b < n \<or> n + int (length (x # xs)) \<le> b" for b
      using d2(5) d1(5) that by auto
    ultimately show ?thesis using d2(2-4) by blast
  qed (use Cons.prems in auto)
qed (cases c, auto)

lemma read_extra_ok:
  "wf d \<Longrightarrow> bg_block_bytes g = bytes d \<Longrightarrow> \<forall>i < length ds. block_is d (n + int i) (ds ! i) \<Longrightarrow>
     \<exists>d'. read_extra rd_blk g n (length ds) d = (d', Inr ds) \<and> same_blocks d d'"
proof (induction ds arbitrary: n d)
  case Nil
  then show ?case by (simp add: same_blocks_def)
next
  case (Cons x ds)
  from Cons.prems(3) have "block_is d n x" by (force dest: spec [of _ 0])
  from read_data_ok [OF Cons.prems(1) this Cons.prems(2)] obtain d1 where d1: "read_data rd_blk g n d = (d1, Inr x)"
    "same_blocks d d1" by blast
  have "\<forall>i < length ds. block_is d1 (n + 1 + int i) (ds ! i)"
  proof (intro allI impI)
    fix i assume "i < length ds"
    with Cons.prems(3) have f: "block_is d (n + int (Suc i)) (ds ! i)" by (metis Suc_less_eq length_Cons nth_Cons_Suc)
    have e: "n + 1 + int i = n + int (Suc i)" by simp
    show "block_is d1 (n + 1 + int i) (ds ! i)" unfolding e same_block_is [OF d1(2)] by (rule f)
  qed
  from Cons.IH [OF _ _ this] same_blocks_wf [OF d1(2)] Cons.prems(2) obtain d2 where
    "read_extra rd_blk g (n + 1) (length ds) d1 = (d2, Inr ds)" "same_blocks d1 d2" by auto
  with d1 same_blocks_trans [OF d1(2)] show ?case by auto
qed

lemma boot_read_ok:
  assumes "wf d" "bg_block_bytes (bo_geo b) = bytes d" "block_is d (bo_num b) bs"
    and "\<forall>i < length ds. block_is d (bo_num b + 1 + int i) (ds ! i)" "length ds = boot_num_extra (bo_geo b)"
  shows "\<exists>d'. boot_read rd_blk b d = (d', boot_parse b bs ds) \<and> same_blocks d d'"
proof -
  from read_data_ok [OF assms(1,3,2)] obtain d1 where d1: "read_data rd_blk (bo_geo b) (bo_num b) d = (d1, Inr bs)"
    "same_blocks d d1" by blast
  have "\<forall>i < length ds. block_is d1 (bo_num b + 1 + int i) (ds ! i)" using assms(4) same_block_is [OF d1(2)] by simp
  from read_extra_ok [OF _ _ this] same_blocks_wf [OF d1(2)] assms(2,5) obtain d2 where
    "read_extra rd_blk (bo_geo b) (bo_num b + 1) (boot_num_extra (bo_geo b)) d1 = (d2, Inr ds)" "same_blocks d1 d2" by auto
  with d1 same_blocks_trans [OF d1(2)] show ?thesis by (simp add: boot_read_def)
qed

text \<open>Writing a boot block with code: the first block and the extra blocks afterwards. \<open>st\<close> is what
  the device holds in the extra blocks if the code needs none of them.\<close>

lemma boot_write_ok:
  assumes g: "boot_geo_ok g" and d: "wf d" "num d = bg_num_blocks g" "bytes d = bg_block_bytes g"
    and b: "bo_geo b = g" "bo_num b = 0" "bo_dos_type b = Some dos" "bo_got_root b = Some root" "bo_code b = Some c"
      "length (bo_extra b) = boot_num_extra g" "\<forall>x \<in> set (bo_extra b). int (length x) = bg_block_bytes g"
    and v: "u32_ok dos" "u32_ok root" "int (length c) \<le> max_boot_code g"
    and sync: "12 + int (length c) \<le> bg_block_bytes g \<or> (\<forall>i < length (bo_extra b). snd (rd_blk d (1 + int i)) = Inr (bo_extra b ! i))"
  defines "bb \<equiv> nat (bg_block_bytes g)"
  defines "ex \<equiv> extra_out bb (bo_extra b) (drop (bb - 12) c)" and "part \<equiv> take (bb - 12) c"
  shows "\<exists>b' d' chk. boot_write wr_blk b d = Inr (b', d') \<and> wf d' \<and> num d' = num d \<and> bytes d' = bytes d \<and>
    u32_ok chk \<and> boot_chksum (bg_block_longs g) (boot_main dos chk root part bb) ex = Inr chk \<and>
    block_is d' 0 (boot_main dos chk root part bb) \<and>
    (if 12 + int (length c) \<le> bg_block_bytes g
     then (\<forall>n. 0 < n \<and> n < num d \<longrightarrow> snd (rd_blk d' n) = snd (rd_blk d n))
     else (\<forall>i < length ex. snd (rd_blk d' (1 + int i)) = Inr (ex ! i)) \<and>
       (\<forall>n. bg_bootblocks g \<le> n \<and> n < num d \<longrightarrow> snd (rd_blk d' n) = snd (rd_blk d n)))"
proof -
  let ?bl = "bg_block_longs g" and ?tail = "drop (bb - 12) c"
  have G: "int bb = 4 * ?bl" "4 \<le> ?bl" "1 \<le> bg_bootblocks g" "bg_bootblocks g \<le> num d" "bytes d = int bb" "16 \<le> bb"
    using g d(2,3) by (auto simp: boot_geo_ok_def bb_def nat_le_iff le_nat_iff)
  have ne: "int (length (bo_extra b)) = bg_bootblocks g - 1" using b(6) G(3) by (simp add: boot_num_extra_def)
  have lp: "12 + length part \<le> bb" using G(6) by (simp add: part_def)
  have le: "\<forall>x \<in> set (bo_extra b). length x = bb" using b(7) by (auto simp: bb_def)
  have fits: "12 + int (length c) \<le> bg_block_bytes g \<longleftrightarrow> ?tail = []"
    using G(5,6) d(3) by simp linarith
  have lt: "length ?tail \<le> bb * length (bo_extra b)"
  proof -
    have "int (length c) \<le> bg_bootblocks g * int bb - 12" using v(3) G(5) d(3) by (simp add: max_boot_code_def)
    also have "\<dots> = int bb * int (length (bo_extra b)) + int bb - 12" unfolding ne by (simp add: algebra_simps)
    finally have "int (length c) \<le> int (bb * length (bo_extra b) + (bb - 12))" using G(6) by (simp add: of_nat_diff)
    then show ?thesis by (simp only: of_nat_le_iff length_drop le_diff_conv)
  qed
  have "\<exists>d1. write_extra wr_blk bb 1 (bo_extra b) ?tail d = Inr (ex, d1) \<and> wf d1 \<and> num d1 = num d \<and> bytes d1 = bytes d \<and>
     (if ?tail = [] then d1 = d else
       (\<forall>n. 0 \<le> n \<and> n < num d \<and> (n < 1 \<or> bg_bootblocks g \<le> n) \<longrightarrow> snd (rd_blk d1 n) = snd (rd_blk d n)) \<and>
       (\<forall>i < length (bo_extra b). snd (rd_blk d1 (1 + int i)) = Inr (ex ! i)))"
  proof (cases "?tail = []")
    case True
    then show ?thesis using d(1) by (cases "bo_extra b") (simp_all add: ex_def)
  next
    case False
    then have "\<forall>i < length (bo_extra b). snd (rd_blk d (1 + int i)) = Inr (bo_extra b ! i)" using sync fits by blast
    from write_extra_ok [OF _ le lt d(1) G(5) _ _ this] G(4,6) ne False show ?thesis unfolding ex_def by auto
  qed
  then obtain d1 where d1: "write_extra wr_blk bb 1 (bo_extra b) ?tail d = Inr (ex, d1)" "wf d1" "num d1 = num d" "bytes d1 = bytes d"
    "if ?tail = [] then d1 = d else
       (\<forall>n. 0 \<le> n \<and> n < num d \<and> (n < 1 \<or> bg_bootblocks g \<le> n) \<longrightarrow> snd (rd_blk d1 n) = snd (rd_blk d n)) \<and>
       (\<forall>i < length (bo_extra b). snd (rd_blk d1 (1 + int i)) = Inr (ex ! i))" by blast
  let ?m = "\<lambda>chk. boot_main dos chk root part bb"
  have okm: "blk_ok ?bl (?m k)" for k using G(1) lp by (simp add: blk_ok_def boot_main_length)
  have exb: "\<forall>x \<in> set ex. blk_ok ?bl x" using extra_out_lengths [OF le] G(1) by (auto simp: ex_def blk_ok_def)
  from boot_chksum_ok [OF okm exb, of 0] G(2) obtain s where s: "boot_chksum ?bl (?m 0) ex = Inr (M32 - s)"
    "folded s (slot_sum 1 0 (nat ?bl) (?m 0) + sum_list (map (block_sum ?bl) ex))" by auto
  define chk where "chk = M32 - s"
  have chk: "u32_ok chk" using s(2) by (simp add: chk_def folded_def u32_ok_def)
  have ss: "slot_sum 1 0 (nat ?bl) (?m chk) = slot_sum 1 0 (nat ?bl) (?m 0)"
    using boot_main_sum [OF G(1) _ chk lp] G(2) by simp
  have chk2: "boot_chksum ?bl (?m chk) ex = Inr chk"
  proof -
    from boot_chksum_ok [OF okm exb, of chk] G(2) obtain s' where s': "boot_chksum ?bl (?m chk) ex = Inr (M32 - s')"
      "folded s' (slot_sum 1 0 (nat ?bl) (?m 0) + sum_list (map (block_sum ?bl) ex))" unfolding ss by auto
    with folded_same [OF s(2)] show ?thesis by (simp add: chk_def)
  qed
  have lm: "int (length (?m chk)) = bytes d1" using lp G(5) d1(4) by (simp add: boot_main_length)
  from write_ok [OF d1(2) _ _ lm, of 0] G(3,4) d1(3) obtain d2 where d2: "wr_blk d1 0 (?m chk) = Inr d2" "wf d2" "num d2 = num d1"
    "bytes d2 = bytes d1" "\<forall>c. 0 \<le> c \<and> c < num d1 \<longrightarrow> snd (rd_blk d2 c) = (if c = 0 then Inr (?m chk) else snd (rd_blk d1 c))" by auto
  note st = boot_main_steps [OF G(1) _ v(1,2) chk lp]
  have w: "\<exists>b'. boot_write wr_blk b d = Inr (b', d2)"
  proof -
    have "3 \<le> ?bl" using G(2) by simp
    note st' = st [OF this]
    show ?thesis
      unfolding boot_write_def b option.case prod.case Let_def bb_def [symmetric] st'(1) rbind_simps st'(2) d1(1)
        part_def [symmetric] st'(3)
      using s(1) st'(4) [of 0] d1(1) d2(1) by (simp add: chk_def)
  qed
  have "snd (rd_blk d2 0) = Inr (?m chk)" using d2(5) G(3,4) d1(3) by simp
  then have "block_is d2 0 (?m chk)" using G(3,4) lm d1(3,4) d2(3,4) by (simp add: block_is_def)
  moreover have "if 12 + int (length c) \<le> bg_block_bytes g
     then (\<forall>n. 0 < n \<and> n < num d \<longrightarrow> snd (rd_blk d2 n) = snd (rd_blk d n))
     else (\<forall>i < length ex. snd (rd_blk d2 (1 + int i)) = Inr (ex ! i)) \<and>
       (\<forall>n. bg_bootblocks g \<le> n \<and> n < num d \<longrightarrow> snd (rd_blk d2 n) = snd (rd_blk d n))"
  proof (cases "?tail = []")
    case True
    then show ?thesis unfolding fits using d1(3,5) d2(5) by simp
  next
    case False
    have lex: "length ex = length (bo_extra b)" using extra_out_lengths [OF le] by (simp add: ex_def)
    have "snd (rd_blk d2 (1 + int i)) = Inr (ex ! i)" if "i < length ex" for i
    proof -
      have "1 + int i < num d" using that lex ne G(4) by linarith
      then show ?thesis using d1(3,5) d2(5) False that lex by simp
    qed
    moreover have "snd (rd_blk d2 n) = snd (rd_blk d n)" if "bg_bootblocks g \<le> n" "n < num d" for n
      using that d1(3,5) d2(5) False G(3) by simp
    ultimately show ?thesis unfolding fits using False by simp
  qed
  ultimately show ?thesis using w chk chk2 d1(3,4) d2(2-4) by metis
qed

end

definition zero_block :: "blk_geo \<Rightarrow> byte list" where
  "zero_block g = replicate (nat (bg_block_bytes g)) 0"

lemma boot_create_fields:
  assumes "int (length c) \<le> max_boot_code g" "b = boot_create dos (Some root) (Some c) (boot_init g 0)"
  shows "bo_geo b = g" "bo_num b = 0" "bo_dos_type b = Some dos" "bo_got_root b = Some root" "bo_code b = Some c"
    "bo_extra b = replicate (boot_num_extra g) (zero_block g)"
  using assms by (simp_all add: boot_create_def boot_init_def set_boot_code_def Let_def zero_block_def)

lemma valid_dos_u32: "is_valid_dos_type dos \<Longrightarrow> u32_ok dos \<and> 0 < dos"
  by (simp add: is_valid_dos_type_def u32_ok_def DOS0_def)

lemma block_sum_zero: "0 \<le> bl \<Longrightarrow> block_sum bl (replicate k 0) = 0"
proof -
  have "be_int (replicate j 0) = 0" for j by (induction j) (simp_all add: be_int_def)
  then have "slot (replicate k 0) i = 0" for i by (simp add: slot_def bget_def)
  then show ?thesis by (simp add: block_sum_def slot_sum_def)
qed

lemma boot_main_pos:
  assumes "int bb = 4 * bl" "3 \<le> bl" "u32_ok dos" "0 < dos" "u32_ok root" "u32_ok chk" "12 + length part \<le> bb"
  shows "0 < slot_sum 1 0 (nat bl) (boot_main dos chk root part bb)"
proof -
  obtain k where k: "nat bl = Suc k" using assms(2) by (cases "nat bl") auto
  have "slot (boot_main dos chk root part bb) 0 = dos"
    using assms(3) by (simp add: slot_def bget_def boot_main_def u32_ok_def)
  then show ?thesis using assms(4) slot_sum_nonneg [of 1 "Suc 0" k "boot_main dos chk root part bb"]
    unfolding k slot_sum_Suc by simp
qed

lemma read_code_ok:
  assumes "4 dvd bb" "16 \<le> bb" "length c \<le> bb * Suc k - 12"
  shows "read_boot_code (boot_main dos chk root (take (bb - 12) c) bb)
    (extra_out bb (replicate k (replicate bb 0)) (drop (bb - 12) c)) None = kept_code c"
proof -
  let ?part = "take (bb - 12) c" and ?tail = "drop (bb - 12) c"
  have "length ?tail \<le> bb * k" using assms(2,3) by simp
  then have ce: "concat (extra_out bb (replicate k (replicate bb 0)) ?tail) = ?tail @ replicate (bb * k - length ?tail) 0"
    using assms(2) by (intro extra_out_zero) simp_all
  have dm: "drop 12 (boot_main dos chk root ?part bb) = ?part @ replicate (bb - 12 - length ?part) 0"
    by (simp add: boot_main_def)
  have all: "drop 12 (boot_main dos chk root ?part bb) @ concat (extra_out bb (replicate k (replicate bb 0)) ?tail) =
      c @ replicate (bb * Suc k - 12 - length c) 0"
  proof (cases "length c \<le> bb - 12")
    case True
    then have "bb - 12 - length c + bb * k = bb * Suc k - 12 - length c" using assms(2) by simp
    with True show ?thesis unfolding dm ce by (simp flip: replicate_add)
  next
    case False
    then have "length ?part = bb - 12" by simp
    then have "drop 12 (boot_main dos chk root ?part bb) @ concat (extra_out bb (replicate k (replicate bb 0)) ?tail) =
        (?part @ ?tail) @ replicate (bb * k - length ?tail) 0"
      unfolding dm ce by (simp only: diff_self_eq_0 replicate_0 append_Nil2 append_assoc)
    moreover have "bb * k - length ?tail = bb * Suc k - 12 - length c" using False assms(2) by simp
    ultimately show ?thesis by (simp only: append_take_drop_id)
  qed
  define T where "T = bb * Suc k - 12"
  have T: "length c \<le> T" "4 dvd T" "4 \<le> T" using assms by (auto simp: T_def intro: dvd_diff_nat)
  have "length (pad4 c) \<le> T" using pad4_length [of c] T by presburger
  then have "c @ replicate (T - length c) 0 = pad4 c @ replicate (T - length (pad4 c)) 0"
    by (simp add: pad4_def flip: replicate_add)
  moreover obtain K where "length (c @ replicate (T - length c) (0 :: byte)) = 4 * Suc K"
  proof -
    obtain q where "T = 4 * q" using T(2) by (elim dvdE)
    with T(1,3) that [of "q - 1"] show ?thesis by simp
  qed
  ultimately show ?thesis using kept_code_scan [of "c @ replicate (T - length c) 0" c]
    unfolding read_boot_code_def all [folded T_def] Let_def by blast
qed

context block_device
begin

lemma boot_write_read:
  assumes g: "boot_geo_ok g" and d: "wf d" "num d = bg_num_blocks g" "bytes d = bg_block_bytes g"
    and v: "is_valid_dos_type dos" "u32_ok root" "int (length c) \<le> max_boot_code g"
    and fresh: "\<forall>i < boot_num_extra g. snd (rd_blk d (1 + int i)) = Inr (zero_block g)"
  shows "\<exists>b' d' d'' r. boot_write wr_blk (boot_create dos (Some root) (Some c) (boot_init g 0)) d = Inr (b', d') \<and>
    boot_read rd_blk (boot_init g 0) d' = (d'', Inr r) \<and> bo_code r = kept_code c \<and> bo_dos_type r = Some dos \<and>
    bo_got_root r = Some root \<and> bo_valid r \<and> bo_valid_chksum r \<and>
    (\<forall>n. bg_bootblocks g \<le> n \<and> n < num d \<longrightarrow> snd (rd_blk d' n) = snd (rd_blk d n))"
proof -
  define b bb where "b = boot_create dos (Some root) (Some c) (boot_init g 0)" and "bb = nat (bg_block_bytes g)"
  let ?bl = "bg_block_longs g"
  note c = v(3)
  note B = boot_create_fields [OF c b_def]
  have G: "int bb = 4 * ?bl" "4 \<le> ?bl" "1 \<le> bg_bootblocks g" "bg_bootblocks g \<le> num d" "bytes d = int bb" "16 \<le> bb"
    using g d(2,3) by (auto simp: boot_geo_ok_def bb_def nat_le_iff le_nat_iff)
  note dos = valid_dos_u32 [OF v(1)]
  define part ex where "part = take (bb - 12) c" and "ex = extra_out bb (bo_extra b) (drop (bb - 12) c)"
  have lens: "\<forall>x \<in> set (bo_extra b). int (length x) = bg_block_bytes g" using G(5) d(3) by (auto simp: B(6) zero_block_def)
  have sync: "\<forall>i < length (bo_extra b). snd (rd_blk d (1 + int i)) = Inr (bo_extra b ! i)" using fresh by (simp add: B(6))
  from boot_write_ok [OF g d B(1-5) _ lens conjunct1 [OF dos] v(2) c disjI2 [OF sync]] obtain b' d' chk where
    w: "boot_write wr_blk b d = Inr (b', d')" "wf d'" "num d' = num d" "bytes d' = bytes d" "u32_ok chk"
      "boot_chksum ?bl (boot_main dos chk root part bb) ex = Inr chk" "block_is d' 0 (boot_main dos chk root part bb)" and
    o': "if 12 + int (length c) \<le> bg_block_bytes g
     then (\<forall>n. 0 < n \<and> n < num d \<longrightarrow> snd (rd_blk d' n) = snd (rd_blk d n))
     else (\<forall>i < length ex. snd (rd_blk d' (1 + int i)) = Inr (ex ! i)) \<and>
       (\<forall>n. bg_bootblocks g \<le> n \<and> n < num d \<longrightarrow> snd (rd_blk d' n) = snd (rd_blk d n))"
    unfolding part_def ex_def bb_def by (auto simp: B(6))
  have xl: "length ex = boot_num_extra g" "\<forall>x \<in> set ex. length x = bb"
    using extra_out_lengths [of "bo_extra b" bb] by (auto simp: ex_def B(6) zero_block_def bb_def)
  have exd: "snd (rd_blk d' (1 + int i)) = Inr (ex ! i)" if "i < length ex" for i
  proof (cases "12 + int (length c) \<le> bg_block_bytes g")
    case True
    then have "ex = bo_extra b" using G(5) d(3) by (simp add: ex_def)
    moreover have "1 + int i < num d" using that xl(1) G(3,4) by (simp add: boot_num_extra_def)
    ultimately show ?thesis using o' True that sync by simp
  qed (use o' that in simp)
  have "block_is d' (0 + 1 + int i) (ex ! i)" if "i < length ex" for i
    using exd [OF that] that xl G(3-5) w(3,4) by (simp add: block_is_def boot_num_extra_def)
  then have "\<forall>i < length ex. block_is d' (bo_num (boot_init g 0) + 1 + int i) (ex ! i)" by (simp add: boot_init_def)
  from boot_read_ok [OF w(2) _ _ this, of "boot_main dos chk root part bb"] w(4,7) d(3) xl(1) obtain d'' where
    r: "boot_read rd_blk (boot_init g 0) d' = (d'', boot_parse (boot_init g 0) (boot_main dos chk root part bb) ex)"
    by (auto simp: boot_init_def)
  have lp: "12 + length part \<le> bb" using G(6) by (simp add: part_def)
  have "3 \<le> ?bl" using G(2) by simp
  note mg = boot_main_get [OF G(1) this conjunct1 [OF dos] v(2) w(5) lp]
  have code: "read_boot_code (boot_main dos chk root part bb) ex None = kept_code c"
  proof -
    have e: "ex = extra_out bb (replicate (boot_num_extra g) (replicate bb 0)) (drop (bb - 12) c)"
      by (simp add: ex_def B(6) zero_block_def bb_def)
    have "4 dvd int bb" unfolding G(1) by simp
    then have "4 dvd bb" by presburger
    moreover have "int (length c) \<le> int bb * int (Suc (boot_num_extra g)) - 12"
      using c G(3,5) d(3) by (simp add: max_boot_code_def boot_num_extra_def mult.commute)
    then have "length c \<le> bb * Suc (boot_num_extra g) - 12" by (simp only: flip: of_nat_mult)
    ultimately show ?thesis unfolding e part_def using G(6) by (intro read_code_ok) simp_all
  qed
  obtain rr where "boot_parse (boot_init g 0) (boot_main dos chk root part bb) ex = Inr rr" "bo_code rr = kept_code c"
    "bo_dos_type rr = Some dos" "bo_got_root rr = Some root" "bo_valid rr" "bo_valid_chksum rr"
    using mg w(6) v(1) code by (simp add: boot_parse_def boot_init_def Let_def)
  moreover have "snd (rd_blk d' n) = snd (rd_blk d n)" if "bg_bootblocks g \<le> n" "n < num d" for n
    using o' that G(3) by (simp split: if_splits)
  ultimately show ?thesis using w(1) r unfolding b_def by metis
qed

end

text \<open>Code that fits in the first block is written without the extra blocks, which keep what they held.\<close>

context block_device
begin

lemma boot_write_stale:
  assumes g: "boot_geo_ok g" and d: "wf d" "num d = bg_num_blocks g" "bytes d = bg_block_bytes g"
    and v: "is_valid_dos_type dos" "u32_ok root" "12 + int (length c) \<le> bg_block_bytes g"
    and es: "length es = boot_num_extra g" "\<forall>i < boot_num_extra g. snd (rd_blk d (1 + int i)) = Inr (es ! i)"
      "\<forall>e \<in> set es. int (length e) = bg_block_bytes g"
  shows "\<exists>b' d' d'' r. boot_write wr_blk (boot_create dos (Some root) (Some c) (boot_init g 0)) d = Inr (b', d') \<and>
    bo_valid_chksum b' \<and> boot_read rd_blk (boot_init g 0) d' = (d'', Inr r) \<and> bo_valid r \<and> bo_extra r = es \<and>
    (bo_valid_chksum r \<longleftrightarrow> sum_list (map (block_sum (bg_block_longs g)) es) mod M32 = 0)"
proof -
  define b bb where "b = boot_create dos (Some root) (Some c) (boot_init g 0)" and "bb = nat (bg_block_bytes g)"
  let ?bl = "bg_block_longs g"
  have G: "int bb = 4 * ?bl" "4 \<le> ?bl" "1 \<le> bg_bootblocks g" "bg_bootblocks g \<le> num d" "bytes d = int bb" "16 \<le> bb"
    using g d(2,3) by (auto simp: boot_geo_ok_def bb_def nat_le_iff le_nat_iff)
  have "1 * bg_block_bytes g \<le> bg_bootblocks g * bg_block_bytes g"
    using G(3,5) d(3) by (intro mult_right_mono) simp_all
  then have cl: "int (length c) \<le> max_boot_code g" using v(3) unfolding max_boot_code_def by linarith
  note B = boot_create_fields [OF cl b_def]
  note dos = valid_dos_u32 [OF v(1)]
  define part where "part = take (bb - 12) c"
  have ex: "extra_out bb (bo_extra b) (drop (bb - 12) c) = bo_extra b" using v(3) G(5) d(3) by simp
  have lens: "\<forall>x \<in> set (bo_extra b). int (length x) = bg_block_bytes g" using G(5) d(3) by (auto simp: B(6) zero_block_def)
  from boot_write_ok [OF g d B(1-5) _ lens conjunct1 [OF dos] v(2) cl disjI1 [OF v(3)]] obtain b' d' chk where
    w: "boot_write wr_blk b d = Inr (b', d')" "wf d'" "num d' = num d" "bytes d' = bytes d" "u32_ok chk"
      "boot_chksum ?bl (boot_main dos chk root part bb) (bo_extra b) = Inr chk" "block_is d' 0 (boot_main dos chk root part bb)"
      "\<forall>n. 0 < n \<and> n < num d \<longrightarrow> snd (rd_blk d' n) = snd (rd_blk d n)"
    using v(3) unfolding part_def ex [unfolded bb_def] bb_def by (auto simp: B(6))
  have vb: "bo_valid_chksum b'"
    using w(1) B(1-5) by (auto simp: boot_write_def Let_def rbind_Inr_iff split: prod.splits)
  have "block_is d' (bo_num (boot_init g 0) + 1 + int i) (es ! i)" if "i < length es" for i
    using that es w(3,4,8) G(3-5) d(3) by (simp add: block_is_def boot_init_def boot_num_extra_def)
  with boot_read_ok [OF w(2) _ _ _, of "boot_init g 0" "boot_main dos chk root part bb" es] w(4,7) d(3) es(1) obtain d'' where
    r: "boot_read rd_blk (boot_init g 0) d' = (d'', boot_parse (boot_init g 0) (boot_main dos chk root part bb) es)"
    by (auto simp: boot_init_def)
  have lp: "12 + length part \<le> bb" using G(6) by (simp add: part_def)
  have b3: "3 \<le> ?bl" using G(2) by simp
  note mg = boot_main_get [OF G(1) b3 conjunct1 [OF dos] v(2) w(5) lp]
  let ?t = "slot_sum 1 0 (nat ?bl) (boot_main dos chk root part bb)" and ?S = "sum_list (map (block_sum ?bl) es)"
  have okm: "blk_ok ?bl (boot_main dos chk root part bb)" using G(1) lp by (simp add: blk_ok_def boot_main_length)
  have ez: "\<forall>x \<in> set (bo_extra b). blk_ok ?bl x" "\<forall>x \<in> set es. blk_ok ?bl x"
    using lens es(3) G(1,5) d(3) by (auto simp: blk_ok_def)
  have sz: "sum_list (map (block_sum ?bl) (bo_extra b)) = 0"
    unfolding B(6) zero_block_def using G(2) by (simp add: sum_list_replicate block_sum_zero)
  have tp: "0 < ?t" using dos v(2) w(5) lp by (intro boot_main_pos [OF G(1) b3]) simp_all
  have Sp: "0 \<le> ?S" by (intro sum_list_nonneg) (auto simp: block_sum_def slot_sum_nonneg)
  from boot_chksum_ok [OF okm ez(1)] sz w(6) G(2) obtain s where s: "chk = M32 - s" "folded s ?t" by auto
  from boot_chksum_ok [OF okm ez(2)] G(2) obtain s' where s': "boot_chksum ?bl (boot_main dos chk root part bb) es = Inr (M32 - s')"
    "folded s' (?t + ?S)" by auto
  have eq: "s = s' \<longleftrightarrow> ?S mod M32 = 0"
  proof
    assume "s = s'"
    then have "?t mod M32 = (?t + ?S) mod M32" using s(2) s'(2) by (simp add: folded_def)
    then have "(?t + ?S - ?t) mod M32 = 0" by (metis mod_eq_dvd_iff dvd_eq_mod_eq_0)
    then show "?S mod M32 = 0" by simp
  next
    assume "?S mod M32 = 0"
    then have "?t mod M32 = (?t + ?S) mod M32" by (metis add.right_neutral mod_add_right_eq)
    with folded_unique [OF s(2) s'(2)] tp Sp show "s = s'" by simp
  qed
  obtain rr where "boot_parse (boot_init g 0) (boot_main dos chk root part bb) es = Inr rr" "bo_valid rr" "bo_extra rr = es"
    "bo_valid_chksum rr \<longleftrightarrow> ?S mod M32 = 0"
    using mg s'(1) v(1) eq s(1) by (auto simp: boot_parse_def boot_init_def Let_def)
  then show ?thesis using w(1) vb r unfolding b_def by metis
qed

end

text \<open>A boot code of a single long word is not found again: the search for its end stops before position 0.\<close>

lemma boot_end_four:
  assumes "length c = 4"
  shows "read_boot_code (boot_main dos chk root c 512) (replicate k (replicate 512 0)) old = old"
proof -
  have z: "concat (replicate k (replicate 512 (0 :: byte))) = replicate (512 * k) 0"
    by (induction k) (simp_all flip: replicate_add)
  have all: "drop 12 (boot_main dos chk root c 512) @ concat (replicate k (replicate 512 0)) = c @ replicate (496 + 512 * k) 0"
    unfolding z using assms by (simp add: boot_main_def flip: replicate_add)
  have "boot_end (c @ replicate (496 + 512 * k) 0) (4 * int (124 + 128 * k)) = boot_end (c @ replicate (496 + 512 * k) 0) (4 * int 0)"
    by (rule boot_end_zero) (use assms in \<open>auto simp: nth_append\<close>)
  also have "\<dots> = 0" by simp
  finally show ?thesis unfolding read_boot_code_def all Let_def using assms by (simp del: boot_end.simps)
qed

lemma adf_zero_block:
  assumes "adf_ok a" "ad_data a = replicate n 0" "0 \<le> i" "i < bg_num_blocks (ad_geo a)"
  shows "adf_read_block a i = Inr (zero_block (ad_geo a))"
proof -
  let ?s = "bg_block_bytes (ad_geo a)"
  have l: "int n = bg_num_blocks (ad_geo a) * ?s" "0 \<le> ?s" using assms(1,2) by (simp_all add: adf_ok_def)
  have "0 \<le> i * ?s" "i * ?s + ?s \<le> int n"
    using block_in_range [OF assms(3,4), of ?s "int n"] l by simp_all
  then have "nat ?s \<le> n - nat (i * ?s)" using l(2) by linarith
  then show ?thesis using adf_read_area [OF assms(1,3,4)] unfolding assms(2) by (simp add: bget_def zero_block_def min_def)
qed

subsection \<open>Properties\<close>

text \<open>C35: on a fresh volume a boot block written with boot code of any length up to the size of the boot area reads back with
  its file system type and root block and with a checksum that makes it bootable, over the first block and the extra blocks, and
  no block outside the boot area changes. The code reads back padded to long words and cut behind its last long word that does
  not start with a zero byte, not counting the first one, or as no code when there is none; so it is the same exactly
  when its length is a multiple of four above four and its last long word does not start with a zero byte.\<close>

theorem boot_block_roundtrip:
  fixes g :: blk_geo
  assumes "adf_ok a" "ad_geo a = g" "boot_geo_ok g" and "is_valid_dos_type dos" "u32_ok root" "int (length c) \<le> max_boot_code g"
    and fresh: "\<forall>i < boot_num_extra g. adf_read_block a (1 + int i) = Inr (zero_block g)"
  shows "(\<exists>b' a' a'' r. boot_write adf_write_block (boot_create dos (Some root) (Some c) (boot_init g 0)) a = Inr (b', a') \<and>
    boot_read (\<lambda>a n. (a, adf_read_block a n)) (boot_init g 0) a' = (a'', Inr r) \<and> bo_code r = kept_code c \<and>
    bo_dos_type r = Some dos \<and> bo_got_root r = Some root \<and> bo_valid r \<and> bo_valid_chksum r \<and>
    (\<forall>n. bg_bootblocks g \<le> n \<and> n < bg_num_blocks g \<longrightarrow> adf_read_block a' n = adf_read_block a n)) \<and>
    (kept_code c = Some c \<longleftrightarrow> 4 dvd length c \<and> 4 < length c \<and> c ! (length c - 4) \<noteq> 0)"
proof
  have "bg_num_blocks (ad_geo a) = bg_num_blocks g" "bg_block_bytes (ad_geo a) = bg_block_bytes g"
    "\<forall>i < boot_num_extra g. snd (a, adf_read_block a (1 + int i)) = Inr (zero_block g)" using assms(2) fresh by simp_all
  from adf.boot_write_read [OF assms(3,1) this(1,2) assms(4-6) this(3), unfolded snd_conv assms(2)]
  show "\<exists>b' a' a'' r. boot_write adf_write_block (boot_create dos (Some root) (Some c) (boot_init g 0)) a = Inr (b', a') \<and>
    boot_read (\<lambda>a n. (a, adf_read_block a n)) (boot_init g 0) a' = (a'', Inr r) \<and> bo_code r = kept_code c \<and>
    bo_dos_type r = Some dos \<and> bo_got_root r = Some root \<and> bo_valid r \<and> bo_valid_chksum r \<and>
    (\<forall>n. bg_bootblocks g \<le> n \<and> n < bg_num_blocks g \<longrightarrow> adf_read_block a' n = adf_read_block a n)" by blast
  show "kept_code c = Some c \<longleftrightarrow> 4 dvd length c \<and> 4 < length c \<and> c ! (length c - 4) \<noteq> 0" by (rule kept_code_iff)
qed

theorem boot_block_roundtrip_witness:
  "\<exists>a b' a' a'' r. adf_create False False = Inr a \<and>
     boot_write adf_write_block (boot_create DOS0 (Some 880) (Some (replicate 600 0x4E)) (boot_init (ad_geo a) 0)) a = Inr (b', a') \<and>
     boot_read (\<lambda>a n. (a, adf_read_block a n)) (boot_init (ad_geo a) 0) a' = (a'', Inr r) \<and> bo_code r = Some (replicate 600 0x4E)"
proof -
  obtain a where a: "adf_create False False = Inr a" "adf_ok a" "bg_num_blocks (ad_geo a) = 1760" using adf_create_ok [of False] by auto
  then have g: "ad_geo a = set_geometry 80 2 11 512 2 2" "\<exists>n. ad_data a = replicate n 0"
    by (auto simp: adf_create_def Let_def)
  have pre: "boot_geo_ok (ad_geo a)" "boot_num_extra (ad_geo a) = 1" "int (length (replicate 600 (0x4E :: byte))) \<le> max_boot_code (ad_geo a)"
    unfolding g by (simp_all add: boot_geo_ok_def set_geometry_def Let_def boot_num_extra_def max_boot_code_def)
  have dos: "is_valid_dos_type DOS0" "u32_ok 880" by (simp_all add: is_valid_dos_type_def u32_ok_def DOS0_def)
  have "\<forall>i < boot_num_extra (ad_geo a). adf_read_block a (1 + int i) = Inr (zero_block (ad_geo a))"
    using g(2) a(3) pre(2) by (auto intro: adf_zero_block [OF a(2)])
  from boot_block_roundtrip [OF a(2) refl pre(1) dos pre(3) this] kept_code_iff [of "replicate 600 0x4E"] a(1) show ?thesis by auto
qed

text \<open>C36: boot code that fits in the first block leaves the extra blocks of the boot area as they
  are on the disk, while its checksum is computed for empty ones: the writer reports a valid checksum,
  but read back it is valid exactly when the long words left there sum to a multiple of
  \<open>2^32 - 1\<close>.\<close>

theorem stale_boot_blocks:
  fixes g :: blk_geo
  assumes "adf_ok a" "ad_geo a = g" "boot_geo_ok g" and "is_valid_dos_type dos" "u32_ok root"
    and "12 + int (length c) \<le> bg_block_bytes g"
    and "length es = boot_num_extra g" "\<forall>i < boot_num_extra g. adf_read_block a (1 + int i) = Inr (es ! i)"
      "\<forall>e \<in> set es. int (length e) = bg_block_bytes g"
  shows "\<exists>b' a' a'' r. boot_write adf_write_block (boot_create dos (Some root) (Some c) (boot_init g 0)) a = Inr (b', a') \<and>
    bo_valid_chksum b' \<and> boot_read (\<lambda>a n. (a, adf_read_block a n)) (boot_init g 0) a' = (a'', Inr r) \<and> bo_valid r \<and>
    bo_extra r = es \<and> (bo_valid_chksum r \<longleftrightarrow> sum_list (map (block_sum (bg_block_longs g)) es) mod 0xFFFFFFFF = 0)"
  using adf.boot_write_stale [OF assms(3,1) _ _ assms(4-7) _ assms(9)] assms(2,8) by auto

theorem stale_boot_blocks_witness:
  "\<exists>a a1 b' a' a'' r. adf_create False False = Inr a \<and> adf_write_block a 1 (replicate 512 1) = Inr a1 \<and>
     boot_write adf_write_block (boot_create DOS0 (Some 880) (Some [0x4E, 0x75, 0x4E, 0x75]) (boot_init (ad_geo a) 0)) a1 = Inr (b', a') \<and>
     bo_valid_chksum b' \<and> boot_read (\<lambda>a n. (a, adf_read_block a n)) (boot_init (ad_geo a) 0) a' = (a'', Inr r) \<and>
     \<not> bo_valid_chksum r"
proof -
  obtain a where a: "adf_create False False = Inr a" "adf_ok a" "bg_num_blocks (ad_geo a) = 1760" using adf_create_ok [of False] by auto
  then have g: "ad_geo a = set_geometry 80 2 11 512 2 2" by (auto simp: adf_create_def Let_def)
  then have g': "boot_geo_ok (ad_geo a)" "boot_num_extra (ad_geo a) = 1" "bg_block_bytes (ad_geo a) = 512" "bg_block_longs (ad_geo a) = 128"
    by (simp_all add: boot_geo_ok_def set_geometry_def Let_def boot_num_extra_def)
  from adf_write_ok [OF a(2), of 1 "replicate 512 1"] a(3) g'(3) obtain a1 where
    a1: "adf_write_block a 1 (replicate 512 1) = Inr a1" "adf_ok a1" "ad_geo a1 = ad_geo a" "adf_read_block a1 1 = Inr (replicate 512 1)"
    by auto
  have "is_valid_dos_type DOS0" "u32_ok 880" by (simp_all add: is_valid_dos_type_def u32_ok_def DOS0_def)
  with stale_boot_blocks [OF a1(2,3) g'(1), of DOS0 880 "[0x4E, 0x75, 0x4E, 0x75]" "[replicate 512 1]"] a1(4) g'(2-4) obtain b' a' a'' r where
    r: "boot_write adf_write_block (boot_create DOS0 (Some 880) (Some [0x4E, 0x75, 0x4E, 0x75]) (boot_init (ad_geo a) 0)) a1 = Inr (b', a')"
    "bo_valid_chksum b'" "boot_read (\<lambda>a n. (a, adf_read_block a n)) (boot_init (ad_geo a) 0) a' = (a'', Inr r)"
    "bo_valid_chksum r \<longleftrightarrow> block_sum 128 (replicate 512 1) mod 0xFFFFFFFF = 0" by auto
  have "block_sum 128 (replicate 512 1) = 2155905152"
  proof -
    have "slot (replicate 512 1) i = 16843009" if "i < 128" for i
    proof -
      have "nat (4 * i) \<le> 508" using that by simp
      then have "min 4 (512 - nat (4 * i)) = 4" by simp
      then have "slot (replicate 512 1) i = be_int (replicate 4 1)" unfolding slot_def bget_def by simp
      also have "\<dots> = 16843009" by code_simp
      finally show ?thesis .
    qed
    then have "map (\<lambda>j. slot (replicate 512 1) (int j)) [0..<128] = map (\<lambda>j. 16843009) [0..<128]"
      by (intro map_cong refl) simp
    then have "sum_list (map (\<lambda>j. slot (replicate 512 1) (int j)) [0..<128]) = 2155905152"
      by (simp only: map_replicate_const sum_list_replicate length_upt)
    then show ?thesis by (simp add: block_sum_def slot_sum_def)
  qed
  then have "\<not> bo_valid_chksum r" unfolding r(4) by simp
  with r(1-3) a(1) a1(1) show ?thesis by blast
qed


definition sample_rec :: "string \<Rightarrow> int \<Rightarrow> cache_rec" where
  "sample_rec name t = \<lparr>cr_entry = 882, cr_size = 1200, cr_protect = 0, cr_mod_ts = Some \<lparr>ts_days = 5000, ts_mins = 600, ts_ticks = 49\<rparr>,
     cr_sub_type = t, cr_name = name, cr_comment = ''note''\<rparr>"


end
