(* ===== verification/Fs_File.thy ===== *)
theory Fs_File
  imports Fs_Boot
begin

text \<open>
  Files of a volume (\<open>amitools/fs/ADFSFile.py\<close> with \<open>set_block\<close> and \<open>create_meta_info\<close> of
  \<open>ADFSNode.py\<close>): the file header, the file list blocks that hold the data block numbers the header has no
  room for, and the data blocks, raw in the fast file system and with a header each in the old one.

  The operations take the device's \<open>read_block\<close> and \<open>write_block\<close>, the geometry and the flags of the volume.
  Block sizes are those of real devices (the divisors of \<open>num_data_for\<close> and \<open>num_list_for\<close> are positive).
\<close>

subsection \<open>State\<close>

record vol_flags =
  vf_ffs :: bool
  vf_intl :: bool
  vf_dircache :: bool
  vf_longname :: bool

record meta_info =
  mi_protect :: "int option"
  mi_mod_ts :: "time_stamp option"
  mi_comment :: "string option"

text \<open>\<open>af_counts\<close> are \<open>num_data_blks\<close> and \<open>num_ext_blks\<close>, which the constructor leaves unset.\<close>

record adfs_file =
  af_num :: int
  af_block :: "file_header_block option"
  af_meta :: "meta_info option"
  af_ext_nums :: "int list"
  af_ext_blks :: "file_list_block list"
  af_data_nums :: "int list"
  af_data_blks :: "file_data_block list"
  af_valid :: bool
  af_data :: "byte list option"
  af_data_size :: int
  af_total_blks :: int
  af_counts :: "(int \<times> int) option"

definition file_init :: adfs_file where
  "file_init = \<lparr>af_num = 0, af_block = None, af_meta = None, af_ext_nums = [], af_ext_blks = [], af_data_nums = [],
     af_data_blks = [], af_valid = False, af_data = None, af_data_size = 0, af_total_blks = 0, af_counts = None\<rparr>"

definition INVALID_FILE_HEADER_BLOCK :: py_error where "INVALID_FILE_HEADER_BLOCK = FSError 4"
definition INVALID_FILE_LIST_BLOCK :: py_error where "INVALID_FILE_LIST_BLOCK = FSError 5"
definition INVALID_FILE_DATA_BLOCK :: py_error where "INVALID_FILE_DATA_BLOCK = FSError 6"
definition INVALID_SEQ_NUM :: py_error where "INVALID_SEQ_NUM = FSError 11"
definition FILE_LIST_BLOCK_COUNT_MISMATCH :: py_error where "FILE_LIST_BLOCK_COUNT_MISMATCH = FSError 12"
definition FILE_DATA_BLOCK_COUNT_MISMATCH :: py_error where "FILE_DATA_BLOCK_COUNT_MISMATCH = FSError 13"
definition FS_INTERNAL_ERROR :: py_error where "FS_INTERNAL_ERROR = FSError 18"

subsection \<open>Sizes\<close>

definition contents_bytes :: "vol_flags \<Rightarrow> blk_geo \<Rightarrow> int" where
  "contents_bytes v g = (if vf_ffs v then bg_block_bytes g else bg_block_bytes g - 24)"

definition num_data_for :: "vol_flags \<Rightarrow> blk_geo \<Rightarrow> int \<Rightarrow> int" where
  "num_data_for v g ds = (let bb = contents_bytes v g in (ds + bb - 1) div bb)"

definition num_list_for :: "vol_flags \<Rightarrow> blk_geo \<Rightarrow> int \<Rightarrow> int" where
  "num_list_for v g ds =
     (let db = num_data_for v g ds; ppb = bg_block_longs g - 56
      in if db \<le> ppb then 0 else (db - ppb + ppb - 1) div ppb)"

definition set_file_data :: "vol_flags \<Rightarrow> blk_geo \<Rightarrow> byte list \<Rightarrow> adfs_file \<Rightarrow> adfs_file" where
  "set_file_data v g data f =
     (let ds = int (length data)
      in f\<lparr>af_data := Some data, af_data_size := ds, af_counts := Some (num_data_for v g ds, num_list_for v g ds)\<rparr>)"

definition blocks_get_create_num :: "adfs_file \<Rightarrow> int res" where
  "blocks_get_create_num f = (case af_counts f of None \<Rightarrow> Inl AttributeError | Some (nd, ne) \<Rightarrow> Inr (1 + nd + ne))"

subsection \<open>Reading a file\<close>

text \<open>The comment of an entry; that of a comment block that is not valid is no \<open>FSString\<close>, which
  \<open>MetaInfo\<close> refuses. \<open>FileName\<close> refuses a name that is None.\<close>

definition node_comment ::
  "('d \<Rightarrow> int \<Rightarrow> 'd \<times> byte list res) \<Rightarrow> blk_geo \<Rightarrow> int \<Rightarrow> string option \<Rightarrow> 'd \<Rightarrow> 'd \<times> string option res" where
  "node_comment rd g cbid comment d =
     (if cbid \<noteq> 0
      then (case read_data rd g cbid d of
              (d', Inl e) \<Rightarrow> (d', Inl e)
            | (d', Inr bs) \<Rightarrow> (d', rbind (comment_read (bg_block_longs g) cbid bs) (\<lambda>r.
                 case r of None \<Rightarrow> Inl ValueError | Some (hk, c, valid) \<Rightarrow> Inr c)))
      else (d, Inr comment))"

definition set_file_block ::
  "('d \<Rightarrow> int \<Rightarrow> 'd \<times> byte list res) \<Rightarrow> blk_geo \<Rightarrow> int \<Rightarrow> file_header_block \<Rightarrow> adfs_file \<Rightarrow> 'd \<Rightarrow> 'd \<times> adfs_file res" where
  "set_file_block rd g n b f d =
     (if en_name (fh_entry b) = None then (d, Inl ValueError) else
      case node_comment rd g (en_comment_block_id (fh_entry b)) (en_comment (fh_entry b)) d of
        (d', Inl e) \<Rightarrow> (d', Inl e)
      | (d', Inr c) \<Rightarrow> (d', Inr (f\<lparr>af_num := n, af_block := Some b, af_valid := True,
           af_meta := Some \<lparr>mi_protect = Some (fh_protect b), mi_mod_ts = en_mod_ts (fh_entry b), mi_comment = c\<rparr>\<rparr>)))"

text \<open>The chain of file list blocks: their numbers, the blocks, and the data block numbers they hold.\<close>

partial_function (option) read_lists ::
  "('d \<Rightarrow> int \<Rightarrow> 'd \<times> byte list res) \<Rightarrow> blk_geo \<Rightarrow> int \<Rightarrow> int list \<Rightarrow> file_list_block list \<Rightarrow> int list \<Rightarrow> 'd \<Rightarrow>
     ('d \<times> (int list \<times> file_list_block list \<times> int list) res) option" where
  "read_lists rd g n nums blks dnums d =
     (if n = 0 then Some (d, Inr (nums, blks, dnums))
      else case read_data rd g n d of
        (d', Inl e) \<Rightarrow> Some (d', Inl e)
      | (d', Inr bs) \<Rightarrow>
          (case file_list_read (bg_block_longs g) n bs of
             Inl e \<Rightarrow> Some (d', Inl e)
           | Inr None \<Rightarrow> Some (d', Inl INVALID_FILE_LIST_BLOCK)
           | Inr (Some (b, valid)) \<Rightarrow>
               if \<not> valid then Some (d', Inl INVALID_FILE_LIST_BLOCK)
               else read_lists rd g (fl_extension b) (nums @ [n]) (blks @ [b]) (dnums @ fl_data_blocks b) d'))"

definition check_counts :: "vol_flags \<Rightarrow> blk_geo \<Rightarrow> adfs_file \<Rightarrow> adfs_file res" where
  "check_counts v g f =
     (let nd = num_data_for v g (af_data_size f); ne = num_list_for v g (af_data_size f) in
      if int (length (af_ext_blks f)) \<noteq> ne then Inl FILE_LIST_BLOCK_COUNT_MISMATCH
      else if int (length (af_data_nums f)) \<noteq> nd then Inl FILE_DATA_BLOCK_COUNT_MISMATCH
      else Inr (f\<lparr>af_counts := Some (nd, ne),
        af_total_blks := 1 + int (length (af_ext_blks f)) + int (length (af_data_nums f)) +
          (case af_block f of Some b \<Rightarrow> if en_comment_block_id (fh_entry b) \<noteq> 0 then 1 else 0 | None \<Rightarrow> 0)\<rparr>))"

definition blocks_create_old ::
  "('d \<Rightarrow> int \<Rightarrow> 'd \<times> byte list res) \<Rightarrow> vol_flags \<Rightarrow> blk_geo \<Rightarrow> int \<Rightarrow> byte list \<Rightarrow> adfs_file \<Rightarrow> 'd \<Rightarrow> ('d \<times> adfs_file res) option" where
  "blocks_create_old rd v g n anon f d =
     (case file_header_read (bg_block_longs g) (vf_longname v) n anon of
        Inl e \<Rightarrow> Some (d, Inl e)
      | Inr None \<Rightarrow> Some (d, Inl INVALID_FILE_HEADER_BLOCK)
      | Inr (Some (b, valid)) \<Rightarrow>
         if \<not> valid then Some (d, Inl INVALID_FILE_HEADER_BLOCK)
         else (case set_file_block rd g n b f d of
             (d1, Inl e) \<Rightarrow> Some (d1, Inl e)
           | (d1, Inr f1) \<Rightarrow>
              (case read_lists rd g (fh_extension b) (af_ext_nums f1) (af_ext_blks f1) (fh_data_blocks b) d1 of
                 None \<Rightarrow> None
               | Some (d2, Inl e) \<Rightarrow> Some (d2, Inl e)
               | Some (d2, Inr (nums, blks, dnums)) \<Rightarrow>
                   Some (d2, check_counts v g (f1\<lparr>af_data_size := fh_byte_size b, af_ext_nums := nums, af_ext_blks := blks,
                                                  af_data_nums := dnums\<rparr>)))))"

fun read_ffs :: "('d \<Rightarrow> int \<Rightarrow> 'd \<times> byte list res) \<Rightarrow> int \<Rightarrow> int list \<Rightarrow> int \<Rightarrow> byte list \<Rightarrow> 'd \<Rightarrow> 'd \<times> byte list res" where
  "read_ffs rd byte_size [] tot data d = (d, Inr data)"
| "read_ffs rd byte_size (n # ns) tot data d =
     (case rd d n of
        (d', Inl e) \<Rightarrow> (d', Inl e)
      | (d', Inr bs) \<Rightarrow>
         (let t = tot + int (length bs)
          in if t > byte_size
             then read_ffs rd byte_size ns byte_size (data @ take (length bs - nat (t - byte_size)) bs) d'
             else read_ffs rd byte_size ns t (data @ bs) d'))"

fun read_ofs :: "('d \<Rightarrow> int \<Rightarrow> 'd \<times> byte list res) \<Rightarrow> blk_geo \<Rightarrow> int list \<Rightarrow> int \<Rightarrow> file_data_block list \<Rightarrow> byte list \<Rightarrow> 'd \<Rightarrow>
     'd \<times> (file_data_block list \<times> byte list) res" where
  "read_ofs rd g [] seq blks data d = (d, Inr (blks, data))"
| "read_ofs rd g (n # ns) seq blks data d =
     (case read_data rd g n d of
        (d', Inl e) \<Rightarrow> (d', Inl e)
      | (d', Inr bs) \<Rightarrow>
         (case file_data_read (bg_block_longs g) bs of
            Inl e \<Rightarrow> (d', Inl e)
          | Inr None \<Rightarrow> (d', Inl INVALID_FILE_DATA_BLOCK)
          | Inr (Some b) \<Rightarrow>
              if fd_seq_num b \<noteq> seq then (d', Inl INVALID_SEQ_NUM)
              else read_ofs rd g ns (seq + 1) (blks @ [b]) (data @ fd_contents b) d'))"

definition file_read :: "('d \<Rightarrow> int \<Rightarrow> 'd \<times> byte list res) \<Rightarrow> vol_flags \<Rightarrow> blk_geo \<Rightarrow> adfs_file \<Rightarrow> 'd \<Rightarrow> 'd \<times> adfs_file res" where
  "file_read rd v g f d =
     (case af_block f of
        None \<Rightarrow> (d, Inl AttributeError)
      | Some b \<Rightarrow>
         (let (d', r) = (if vf_ffs v
                then (case read_ffs rd (fh_byte_size b) (af_data_nums f) 0 [] d of (d', r) \<Rightarrow> (d', rbind r (\<lambda>data. Inr ([], data))))
                else read_ofs rd g (af_data_nums f) 1 [] [] d)
          in (d', rbind r (\<lambda>(blks, data).
               if int (length data) \<noteq> fh_byte_size b then Inl FS_INTERNAL_ERROR
               else Inr (f\<lparr>af_data_blks := blks, af_data := Some data\<rparr>)))))"

definition get_file_data :: "('d \<Rightarrow> int \<Rightarrow> 'd \<times> byte list res) \<Rightarrow> vol_flags \<Rightarrow> blk_geo \<Rightarrow> adfs_file \<Rightarrow> 'd \<Rightarrow>
     'd \<times> (adfs_file \<times> byte list option) res" where
  "get_file_data rd v g f d =
     (case af_data f of
        Some data \<Rightarrow> (d, Inr (f, Some data))
      | None \<Rightarrow> (case file_read rd v g f d of (d', r) \<Rightarrow> (d', rbind r (\<lambda>f'. Inr (f', af_data f')))))"

definition file_flush :: "adfs_file \<Rightarrow> adfs_file" where
  "file_flush f = f\<lparr>af_data := None, af_data_blks := []\<rparr>"

definition file_block_nums :: "adfs_file \<Rightarrow> int list" where
  "file_block_nums f = af_num f # af_ext_nums f @ af_data_nums f"

subsection \<open>Creating a file\<close>

text \<open>The loop over the file list blocks; \<open>nums\<close> are the data block numbers not yet given away.\<close>

fun create_lists :: "('d \<Rightarrow> int \<Rightarrow> byte list \<Rightarrow> 'd res) \<Rightarrow> blk_geo \<Rightarrow> int \<Rightarrow> int list \<Rightarrow> int list \<Rightarrow> 'd \<Rightarrow> (file_list_block list \<times> 'd) res" where
  "create_lists wr g hdr [] nums d = Inr ([], d)"
| "create_lists wr g hdr (n # ns) nums d =
     (let ppb = nat (bg_block_longs g - 56);
          b = (case ns of [] \<Rightarrow> file_list_create n hdr nums 0 | m # _ \<Rightarrow> file_list_create n hdr (take ppb nums) m)
      in rbind (file_list_write (bg_block_longs g) b) (\<lambda>bs. rbind (wr d n bs) (\<lambda>d'.
         rbind (create_lists wr g hdr ns (drop ppb nums) d') (\<lambda>(blks, d''). Inr (b # blks, d'')))))"

text \<open>The loop over the data blocks; \<open>data\<close> is what is left to write.\<close>

fun write_data :: "('d \<Rightarrow> int \<Rightarrow> byte list \<Rightarrow> 'd res) \<Rightarrow> vol_flags \<Rightarrow> blk_geo \<Rightarrow> int \<Rightarrow> int \<Rightarrow> int \<Rightarrow> int list \<Rightarrow> byte list \<Rightarrow> 'd \<Rightarrow>
     (file_data_block list \<times> 'd) res" where
  "write_data wr v g hdr num_data idx [] data d = (if data = [] then Inr ([], d) else Inl IndexError)"
| "write_data wr v g hdr num_data idx (n # ns) data d =
     (if data = [] then Inr ([], d)
      else let bs = nat (contents_bytes v g); c = take bs data in
        if vf_ffs v
        then rbind (wr d n (c @ replicate (bs - length c) 0)) (\<lambda>d'. write_data wr v g hdr num_data (idx + 1) ns (drop bs data) d')
        else rbind (if idx = num_data - 1 then Inr 0 else case ns of [] \<Rightarrow> Inl IndexError | m # _ \<Rightarrow> Inr m) (\<lambda>nxt.
             let b = file_data_create hdr (idx + 1) c nxt in
             rbind (file_data_write (bg_block_longs g) b) (\<lambda>x. rbind (wr d n x) (\<lambda>d'.
             rbind (write_data wr v g hdr num_data (idx + 1) ns (drop bs data) d') (\<lambda>(blks, d''). Inr (b # blks, d''))))))"

definition blocks_create_new ::
  "('d \<Rightarrow> int \<Rightarrow> byte list \<Rightarrow> 'd res) \<Rightarrow> vol_flags \<Rightarrow> blk_geo \<Rightarrow> int list \<Rightarrow> string \<Rightarrow> int \<Rightarrow> int \<Rightarrow> meta_info \<Rightarrow> adfs_file \<Rightarrow> 'd \<Rightarrow>
     (adfs_file \<times> int \<times> 'd) res" where
  "blocks_create_new wr v g free_blks name hash_chain_blk parent_blk mi f d =
     (case (af_counts f, af_data f, mi_protect mi) of
        (None, _, _) \<Rightarrow> Inl AttributeError
      | (_, None, _) \<Rightarrow> Inl TypeError
      | (_, _, None) \<Rightarrow> Inl StructError
      | (Some (nd, ne), Some data, Some protect) \<Rightarrow>
         if int (length free_blks) < 1 + ne + nd then Inl IndexError
         else let fhb_num = hd free_blks; ext_nums = take (nat ne) (tl free_blks);
                  data_nums = take (nat nd) (drop (nat ne) (tl free_blks));
                  ppb = bg_block_longs g - 56;
                  (hdr_blks, hdr_ext) = (if nd > ppb then (take (nat ppb) data_nums, hd ext_nums) else (data_nums, 0));
                  fhb = file_header_create fhb_num parent_blk name hdr_blks hdr_ext (int (length data)) protect
                          (mi_comment mi) (mi_mod_ts mi) hash_chain_blk
              in rbind (file_header_write (bg_block_longs g) (vf_longname v) fhb) (\<lambda>bs. rbind (wr d fhb_num bs) (\<lambda>d1.
                 rbind (create_lists wr g fhb_num ext_nums (drop (nat ppb) data_nums) d1) (\<lambda>(blks, d2).
                 rbind (write_data wr v g fhb_num nd 0 data_nums data d2) (\<lambda>(dblks, d3).
                 Inr (f\<lparr>af_num := fhb_num, af_block := Some fhb, af_valid := True,
                        af_meta := Some \<lparr>mi_protect = Some protect, mi_mod_ts = en_mod_ts (fh_entry fhb), mi_comment = en_comment (fh_entry fhb)\<rparr>,
                        af_ext_nums := ext_nums, af_data_nums := data_nums, af_ext_blks := af_ext_blks f @ blks,
                        af_data_blks := dblks\<rparr>, fhb_num, d3))))))"

subsection \<open>What is written\<close>

text \<open>\<open>k\<close> blocks of \<open>bs\<close> bytes are just enough for the data.\<close>

definition fits :: "nat \<Rightarrow> nat \<Rightarrow> byte list \<Rightarrow> bool" where
  "fits bs k data \<longleftrightarrow> length data \<le> bs * k \<and> (0 < k \<longrightarrow> bs * (k - 1) < length data)"

lemma fits_0 [simp]: "fits bs 0 data \<longleftrightarrow> data = []"
  by (auto simp: fits_def)

lemma fits_Suc: "fits bs (Suc k) data \<Longrightarrow> data \<noteq> [] \<and> fits bs k (drop bs data) \<and> (length data < bs \<longrightarrow> k = 0)"
proof -
  assume a: "fits bs (Suc k) data"
  then have l: "length data \<le> bs * k + bs" "bs * k < length data" by (simp_all add: fits_def)
  have "fits bs k (drop bs data)"
  proof (cases k)
    case (Suc j)
    then show ?thesis using l by (simp add: fits_def, linarith)
  qed (use l in \<open>simp add: fits_def\<close>)
  moreover have "length data < bs \<longrightarrow> k = 0" using l(2) by (cases k) auto
  ultimately show ?thesis using l(2) by auto
qed

lemma fits_num_data:
  assumes "0 < contents_bytes v g"
  shows "0 \<le> num_data_for v g (int (length data))" "fits (nat (contents_bytes v g)) (nat (num_data_for v g (int (length data)))) data"
proof -
  let ?b = "contents_bytes v g" and ?n = "num_data_for v g (int (length data))"
  have n: "?n = (int (length data) + ?b - 1) div ?b" by (simp add: num_data_for_def Let_def)
  then show p: "0 \<le> ?n" using assms by (simp add: pos_imp_zdiv_nonneg_iff)
  have "?n * ?b \<le> int (length data) + ?b - 1" unfolding n using assms by (metis div_mult_mod_eq le_add_same_cancel1 pos_mod_sign)
  moreover have "int (length data) + ?b - 1 < ?n * ?b + ?b"
    unfolding n using assms div_mult_mod_eq [of "int (length data) + ?b - 1" ?b] pos_mod_bound [of ?b "int (length data) + ?b - 1"] by linarith
  ultimately have b: "(?n - 1) * ?b < int (length data)" "int (length data) \<le> ?n * ?b" using assms by (simp_all add: algebra_simps)
  have "int (length data) \<le> int (nat ?b * nat ?n)" using b(2) p assms by (simp add: mult.commute)
  moreover have "int (nat ?b * (nat ?n - 1)) < int (length data)" if "0 < nat ?n"
    using b(1) that assms by (simp add: of_nat_diff mult.commute)
  ultimately show "fits (nat ?b) (nat ?n) data" unfolding fits_def by (simp only: of_nat_less_iff of_nat_le_iff) simp
qed

text \<open>The file list blocks and the data blocks of the old file system.\<close>

fun list_blks :: "int \<Rightarrow> int \<Rightarrow> int list \<Rightarrow> int list \<Rightarrow> file_list_block list" where
  "list_blks bl hdr [] nums = []"
| "list_blks bl hdr (n # ns) nums =
     (case ns of [] \<Rightarrow> file_list_create n hdr nums 0 | m # _ \<Rightarrow> file_list_create n hdr (take (nat (bl - 56)) nums) m) #
     list_blks bl hdr ns (drop (nat (bl - 56)) nums)"

fun ofs_blks :: "nat \<Rightarrow> int \<Rightarrow> int \<Rightarrow> int list \<Rightarrow> byte list \<Rightarrow> file_data_block list" where
  "ofs_blks bs hdr idx [] data = []"
| "ofs_blks bs hdr idx (n # ns) data =
     file_data_create hdr (idx + 1) (take bs data) (case ns of [] \<Rightarrow> 0 | m # _ \<Rightarrow> m) # ofs_blks bs hdr (idx + 1) ns (drop bs data)"

fun ffs_blks :: "nat \<Rightarrow> int list \<Rightarrow> byte list \<Rightarrow> byte list list" where
  "ffs_blks bs [] data = []"
| "ffs_blks bs (n # ns) data = (take bs data @ replicate (bs - length (take bs data)) 0) # ffs_blks bs ns (drop bs data)"

lemma length_list_blks [simp]: "length (list_blks bl hdr ns nums) = length ns"
  by (induction bl hdr ns nums rule: list_blks.induct) simp_all

lemma length_ofs_blks [simp]: "length (ofs_blks bs hdr idx ns data) = length ns"
  by (induction bs hdr idx ns data rule: ofs_blks.induct) simp_all

lemma length_ffs_blks [simp]: "length (ffs_blks bs ns data) = length ns"
  by (induction bs ns data rule: ffs_blks.induct) simp_all

lemma concat_list_blks:
  "length nums \<le> length ns * nat (bl - 56) \<Longrightarrow> concat (map fl_data_blocks (list_blks bl hdr ns nums)) = nums"
proof (induction bl hdr ns nums rule: list_blks.induct)
  case (2 bl hdr n ns nums)
  show ?case
  proof (cases ns)
    case Nil
    then show ?thesis by (simp add: file_list_create_def)
  next
    case (Cons m ms)
    have "length (drop (nat (bl - 56)) nums) \<le> length ns * nat (bl - 56)" using 2(2) by simp
    then show ?thesis using 2(1) Cons by (simp add: file_list_create_def)
  qed
qed simp

context block_device
begin

text \<open>A batch of writes to different blocks leaves them all in place.\<close>

lemma write_all_blocks:
  assumes "wf d" "distinct (map fst ws)" "\<forall>(n, bs) \<in> set ws. 0 \<le> n \<and> n < num d \<and> int (length bs) = bytes d"
  shows "\<exists>d'. write_all ws d = Inr d' \<and> wf d' \<and> num d' = num d \<and> bytes d' = bytes d \<and> (\<forall>(n, bs) \<in> set ws. block_is d' n bs) \<and>
    (\<forall>c. 0 \<le> c \<and> c < num d \<and> c \<notin> fst ` set ws \<longrightarrow> snd (rd_blk d' c) = snd (rd_blk d c))"
proof -
  from write_all_ok [OF assms(1,3)] obtain d' where d': "write_all ws d = Inr d'" "wf d'" "num d' = num d" "bytes d' = bytes d"
    "\<forall>c. 0 \<le> c \<and> c < num d \<longrightarrow> snd (rd_blk d' c) = (case map_of (rev ws) c of Some bs \<Rightarrow> Inr bs | None \<Rightarrow> snd (rd_blk d c))" by blast
  have "distinct (map fst (rev ws))" using assms(2) by (simp add: rev_map [symmetric])
  then have m: "map_of (rev ws) n = Some bs" if "(n, bs) \<in> set ws" for n bs using that by (intro map_of_is_SomeI) auto
  have "block_is d' n bs" if "(n, bs) \<in> set ws" for n bs
    using m [OF that] assms(3) that d'(3-5) by (fastforce simp: block_is_def)
  moreover have "map_of (rev ws) c = None" if "c \<notin> fst ` set ws" for c using that by (simp add: map_of_eq_None_iff)
  ultimately show ?thesis using d' by (intro exI [of _ d']) auto
qed

lemma create_lists_all:
  assumes "bg_block_longs g = bl" "128 \<le> bl" "bl < 2 ^ 30" "u32_ok hdr" "longs_ok ns" "longs_ok nums"
    and "length nums \<le> length ns * nat (bl - 56)"
  shows "\<exists>ws. (\<forall>d. create_lists wr_blk g hdr ns nums d = rbind (write_all ws d) (\<lambda>d'. Inr (list_blks bl hdr ns nums, d'))) \<and>
    map fst ws = ns \<and> (\<forall>(n, bs) \<in> set ws. int (length bs) = 4 * bl) \<and>
    (\<forall>(n, b) \<in> set (zip ns (list_blks bl hdr ns nums)). \<exists>bs. (n, bs) \<in> set ws \<and> file_list_read bl n bs = Inr (Some (b, True)))"
  using assms(5-7)
proof (induction ns arbitrary: nums)
  case (Cons n ns)
  let ?p = "nat (bl - 56)"
  define b where "b = (case ns of [] \<Rightarrow> file_list_create n hdr nums 0 | m # _ \<Rightarrow> file_list_create n hdr (take ?p nums) m)"
  have lo: "longs_ok (take ?p nums)" "longs_ok (drop ?p nums)" using Cons.prems(2) by (auto simp: longs_ok_def dest: in_set_takeD in_set_dropD)
  have "length (drop ?p nums) \<le> length ns * ?p" using Cons.prems(3) by simp
  from Cons.IH [OF _ lo(2) this] Cons.prems(1) obtain ws where
    w: "\<forall>d. create_lists wr_blk g hdr ns (drop ?p nums) d = rbind (write_all ws d) (\<lambda>d'. Inr (list_blks bl hdr ns (drop ?p nums), d'))"
      "map fst ws = ns" "\<forall>(n, bs) \<in> set ws. int (length bs) = 4 * bl"
      "\<forall>(n, b) \<in> set (zip ns (list_blks bl hdr ns (drop ?p nums))). \<exists>bs. (n, bs) \<in> set ws \<and> file_list_read bl n bs = Inr (Some (b, True))"
    by (auto simp: longs_ok_def)
  have "file_list_ok bl b"
  proof (cases ns)
    case Nil
    then show ?thesis using Cons.prems assms by (simp add: b_def file_list_create_def file_list_ok_def longs_ok_def u32_ok_def)
  next
    case (Cons m ms)
    then show ?thesis using Cons.prems assms lo by (simp add: b_def file_list_create_def file_list_ok_def longs_ok_def)
  qed
  from file_list_roundtrip [OF this, of n] obtain bs where bs: "file_list_write bl b = Inr bs" "int (length bs) = 4 * bl"
    "file_list_read bl n bs = Inr (Some (b, fl_own_key b = n))" by blast
  have own: "fl_own_key b = n" by (simp add: b_def file_list_create_def split: list.splits)
  have lb: "list_blks bl hdr (n # ns) nums = b # list_blks bl hdr ns (drop ?p nums)" by (simp add: b_def)
  have "create_lists wr_blk g hdr (n # ns) nums d = rbind (write_all ((n, bs) # ws) d) (\<lambda>d'. Inr (list_blks bl hdr (n # ns) nums, d'))" for d
    unfolding lb using bs(1) w(1) assms(1) by (simp add: b_def [symmetric] Let_def) (simp add: rbind_def split: sum.splits)
  with lb bs w own show ?case by (intro exI [of _ "(n, bs) # ws"]) auto
qed (auto intro!: exI [of _ "[]"])

end

context block_device
begin

lemma write_ffs_all:
  assumes "vf_ffs v" "contents_bytes v g = int bs" "0 < bs"
  shows "fits bs (length ns) data \<Longrightarrow>
    write_data wr_blk v g hdr nd idx ns data = (\<lambda>d. rbind (write_all (zip ns (ffs_blks bs ns data)) d) (\<lambda>d'. Inr ([], d')))"
proof (induction ns arbitrary: idx data)
  case (Cons n ns)
  from fits_Suc [of bs "length ns" data] Cons.prems have "data \<noteq> []" "fits bs (length ns) (drop bs data)" by simp_all
  with Cons.IH [of "drop bs data" "idx + 1"] assms show ?case
    by (intro ext) (simp add: rbind_def split: sum.splits)
qed (simp add: fun_eq_iff)

lemma write_ofs_all:
  assumes "\<not> vf_ffs v" "contents_bytes v g = int bs" "0 < bs" "bg_block_longs g = bl" "4 * bl = int bs + 24" "7 \<le> bl" "bl < 2 ^ 30"
    and "u32_ok hdr" "u32_ok nd"
  shows "fits bs (length ns) data \<Longrightarrow> longs_ok ns \<Longrightarrow> 0 \<le> idx \<Longrightarrow> idx + int (length ns) = nd \<Longrightarrow>
    \<exists>ws. (\<forall>d. write_data wr_blk v g hdr nd idx ns data d = rbind (write_all ws d) (\<lambda>d'. Inr (ofs_blks bs hdr idx ns data, d'))) \<and>
      map fst ws = ns \<and> (\<forall>(n, x) \<in> set ws. int (length x) = 4 * bl) \<and>
      (\<forall>(n, b) \<in> set (zip ns (ofs_blks bs hdr idx ns data)). \<exists>x. (n, x) \<in> set ws \<and> file_data_read bl x = Inr (Some b))"
proof (induction ns arbitrary: idx data)
  case (Cons n ns)
  from fits_Suc [of bs "length ns" data] Cons.prems(1) have f: "data \<noteq> []" "fits bs (length ns) (drop bs data)" by simp_all
  from Cons.IH [OF f(2), of "idx + 1"] Cons.prems(2-4) obtain ws where
    w: "\<forall>d. write_data wr_blk v g hdr nd (idx + 1) ns (drop bs data) d = rbind (write_all ws d) (\<lambda>d'. Inr (ofs_blks bs hdr (idx + 1) ns (drop bs data), d'))"
      "map fst ws = ns" "\<forall>(n, x) \<in> set ws. int (length x) = 4 * bl"
      "\<forall>(n, b) \<in> set (zip ns (ofs_blks bs hdr (idx + 1) ns (drop bs data))). \<exists>x. (n, x) \<in> set ws \<and> file_data_read bl x = Inr (Some b)"
    by (auto simp: longs_ok_def)
  define b where "b = file_data_create hdr (idx + 1) (take bs data) (case ns of [] \<Rightarrow> 0 | m # _ \<Rightarrow> m)"
  have "u32_ok (case ns of [] \<Rightarrow> 0 | m # _ \<Rightarrow> m)" using Cons.prems(2) by (simp add: longs_ok_def u32_ok_def split: list.splits)
  then have "file_data_ok bl b" using assms(5-9) Cons.prems(3,4) by (auto simp: b_def file_data_create_def file_data_ok_def longs_ok_def u32_ok_def)
  from file_data_roundtrip [OF this] obtain x where x: "file_data_write bl b = Inr x" "int (length x) = 4 * bl" "file_data_read bl x = Inr (Some b)" by blast
  have nx: "(if idx = nd - 1 then Inr 0 else case ns of [] \<Rightarrow> Inl IndexError | m # _ \<Rightarrow> Inr m) = Inr (case ns of [] \<Rightarrow> 0 | m # _ \<Rightarrow> m)"
    using Cons.prems(4) by (auto split: list.splits)
  have ob: "ofs_blks bs hdr idx (n # ns) data = b # ofs_blks bs hdr (idx + 1) ns (drop bs data)" by (simp add: b_def)
  have "write_data wr_blk v g hdr nd idx (n # ns) data d = rbind (write_all ((n, x) # ws) d) (\<lambda>d'. Inr (ofs_blks bs hdr idx (n # ns) data, d'))" for d
  proof -
    have "write_data wr_blk v g hdr nd idx (n # ns) data d =
      rbind (file_data_write bl b) (\<lambda>x. rbind (wr_blk d n x) (\<lambda>d'.
         rbind (write_data wr_blk v g hdr nd (idx + 1) ns (drop bs data) d') (\<lambda>(blks, d''). Inr (b # blks, d''))))"
      unfolding write_data.simps nx using f(1) assms(1,2,4) by (simp add: b_def Let_def)
    then show ?thesis unfolding ob using x(1) w(1) by (simp add: rbind_def split: sum.splits)
  qed
  with ob x w show ?case by (intro exI [of _ "(n, x) # ws"]) auto
qed (auto intro!: exI [of _ "[]"])

lemma read_ffs_ok:
  assumes "0 < bs"
  shows "fits bs (length ns) data \<Longrightarrow> \<forall>(n, x) \<in> set (zip ns (ffs_blks bs ns data)). block_is d n x \<Longrightarrow> wf d \<Longrightarrow>
    byte_size = tot + int (length data) \<Longrightarrow> \<exists>d'. read_ffs rd_blk byte_size ns tot acc d = (d', Inr (acc @ data)) \<and> same_blocks d d'"
proof (induction ns arbitrary: data tot acc d)
  case Nil
  then show ?case by (simp add: same_blocks_def)
next
  case (Cons n ns)
  from fits_Suc [of bs "length ns" data] Cons.prems(1) have f: "data \<noteq> []" "fits bs (length ns) (drop bs data)" "length data < bs \<longrightarrow> ns = []" by simp_all
  define x where "x = take bs data @ replicate (bs - length (take bs data)) 0"
  have lx: "length x = bs" by (simp add: x_def)
  from Cons.prems(2) have blk: "block_is d n x" "\<forall>(n, x) \<in> set (zip ns (ffs_blks bs ns (drop bs data))). block_is d n x"
    by (simp_all add: x_def)
  from read_ok [OF Cons.prems(3), of n] blk(1) obtain d1 where d1: "rd_blk d n = (d1, Inr x)" "same_blocks d d1"
    by (auto simp: block_is_def same_blocks_def)
  show ?case
  proof (cases "length data < bs")
    case True
    then have "ns = []" "x = data @ replicate (bs - length data) 0" using f(3) by (simp_all add: x_def)
    then show ?thesis using d1 True Cons.prems(4) lx by (auto simp: Let_def nat_diff_distrib)
  next
    case False
    then have x: "x = take bs data" by (simp add: x_def)
    have "\<forall>(n, x) \<in> set (zip ns (ffs_blks bs ns (drop bs data))). block_is d1 n x" using blk(2) same_block_is [OF d1(2)] by auto
    from Cons.IH [OF f(2) this _ , of "tot + int bs" "acc @ x"] same_blocks_wf [OF d1(2)] False Cons.prems(4) obtain d2 where
      d2: "read_ffs rd_blk byte_size ns (tot + int bs) (acc @ x) d1 = (d2, Inr ((acc @ x) @ drop bs data))" "same_blocks d1 d2" by (auto simp: of_nat_diff)
    have "\<not> tot + int (length x) > byte_size" using False Cons.prems(4) lx by simp
    then have "read_ffs rd_blk byte_size (n # ns) tot acc d = (d2, Inr (acc @ data))" using d1(1) d2(1) lx by (simp add: Let_def x)
    with same_blocks_trans [OF d1(2) d2(2)] show ?thesis by blast
  qed
qed

definition data_block_is :: "'d \<Rightarrow> int \<Rightarrow> int \<Rightarrow> file_data_block \<Rightarrow> bool" where
  "data_block_is d bl n b \<longleftrightarrow> (\<exists>x. block_is d n x \<and> file_data_read bl x = Inr (Some b))"

lemma read_ofs_ok:
  assumes "0 < bs" "bg_block_longs g = bl"
  shows "fits bs (length ns) data \<Longrightarrow> \<forall>(n, b) \<in> set (zip ns (ofs_blks bs hdr idx ns data)). data_block_is d bl n b \<Longrightarrow> wf d \<Longrightarrow>
    bg_block_bytes g = bytes d \<Longrightarrow>
    \<exists>d'. read_ofs rd_blk g ns (idx + 1) blks acc d = (d', Inr (blks @ ofs_blks bs hdr idx ns data, acc @ data)) \<and> same_blocks d d'"
proof (induction ns arbitrary: data idx blks acc d)
  case Nil
  then show ?case by (simp add: same_blocks_def)
next
  case (Cons n ns)
  from fits_Suc [of bs "length ns" data] Cons.prems(1) have f: "fits bs (length ns) (drop bs data)" by simp_all
  define b where "b = file_data_create hdr (idx + 1) (take bs data) (case ns of [] \<Rightarrow> 0 | m # _ \<Rightarrow> m)"
  from Cons.prems(2) have "data_block_is d bl n b" and blk: "\<forall>(n, b) \<in> set (zip ns (ofs_blks bs hdr (idx + 1) ns (drop bs data))). data_block_is d bl n b"
    by (simp_all add: b_def)
  then obtain x where x: "block_is d n x" "file_data_read bl x = Inr (Some b)" by (auto simp: data_block_is_def)
  from read_data_ok [OF Cons.prems(3) x(1) Cons.prems(4)] obtain d1 where d1: "read_data rd_blk g n d = (d1, Inr x)" "same_blocks d d1" by blast
  have "\<forall>(n, b) \<in> set (zip ns (ofs_blks bs hdr (idx + 1) ns (drop bs data))). data_block_is d1 bl n b"
    using blk same_block_is [OF d1(2)] by (auto simp: data_block_is_def)
  from Cons.IH [OF f this _ _, of "blks @ [b]" "acc @ take bs data"] same_blocks_wf [OF d1(2)] Cons.prems(4) obtain d2 where
    d2: "read_ofs rd_blk g ns (idx + 1 + 1) (blks @ [b]) (acc @ take bs data) d1 =
      (d2, Inr ((blks @ [b]) @ ofs_blks bs hdr (idx + 1) ns (drop bs data), (acc @ take bs data) @ drop bs data))" "same_blocks d1 d2" by auto
  have sb: "fd_seq_num b = idx + 1" "fd_contents b = take bs data" by (simp_all add: b_def file_data_create_def)
  have "read_ofs rd_blk g (n # ns) (idx + 1) blks acc d = (d2, Inr (blks @ ofs_blks bs hdr idx (n # ns) data, acc @ data))"
    using d1(1) d2(1) x(2) sb assms(2) by (simp add: b_def [symmetric])
  with same_blocks_trans [OF d1(2) d2(2)] show ?case by blast
qed

end

subsection \<open>A file on disk\<close>

text \<open>A disk is what a device returns for each block number. The predicates say that a file lies on it, in terms of
  the blocks it is made of, so that they only depend on those blocks.\<close>

type_synonym disk = "int \<Rightarrow> byte list res"

definition on_disk :: "disk \<Rightarrow> blk_geo \<Rightarrow> int \<Rightarrow> byte list \<Rightarrow> bool" where
  "on_disk dk g n x \<longleftrightarrow> 0 \<le> n \<and> n < bg_num_blocks g \<and> dk n = Inr x"

fun lists_on :: "disk \<Rightarrow> blk_geo \<Rightarrow> int \<Rightarrow> int list \<Rightarrow> file_list_block list \<Rightarrow> bool" where
  "lists_on dk g n [] [] \<longleftrightarrow> n = 0"
| "lists_on dk g n (m # ms) (b # bs) \<longleftrightarrow> n = m \<and> m \<noteq> 0 \<and>
     (\<exists>x. on_disk dk g m x \<and> file_list_read (bg_block_longs g) m x = Inr (Some (b, True))) \<and> lists_on dk g (fl_extension b) ms bs"
| "lists_on dk g n _ _ \<longleftrightarrow> False"

definition data_on :: "disk \<Rightarrow> vol_flags \<Rightarrow> blk_geo \<Rightarrow> int \<Rightarrow> int list \<Rightarrow> byte list \<Rightarrow> bool" where
  "data_on dk v g hdr dn data \<longleftrightarrow> (let bs = nat (contents_bytes v g) in fits bs (length dn) data \<and>
     (if vf_ffs v then \<forall>(n, x) \<in> set (zip dn (ffs_blks bs dn data)). on_disk dk g n x
      else \<forall>(n, b) \<in> set (zip dn (ofs_blks bs hdr 0 dn data)). \<exists>x. on_disk dk g n x \<and> file_data_read (bg_block_longs g) x = Inr (Some b)))"

text \<open>The node of a file that was opened.\<close>

definition opened :: "vol_flags \<Rightarrow> blk_geo \<Rightarrow> int \<Rightarrow> file_header_block \<Rightarrow> int list \<Rightarrow> file_list_block list \<Rightarrow> adfs_file" where
  "opened v g n b ms bs = file_init\<lparr>af_num := n, af_block := Some b, af_valid := True,
     af_meta := Some \<lparr>mi_protect = Some (fh_protect b), mi_mod_ts = en_mod_ts (fh_entry b), mi_comment = en_comment (fh_entry b)\<rparr>,
     af_data_size := fh_byte_size b, af_ext_nums := ms, af_ext_blks := bs,
     af_data_nums := fh_data_blocks b @ concat (map fl_data_blocks bs),
     af_counts := Some (num_data_for v g (fh_byte_size b), num_list_for v g (fh_byte_size b)),
     af_total_blks := 1 + int (length bs) + int (length (fh_data_blocks b @ concat (map fl_data_blocks bs)))\<rparr>"

definition file_on :: "disk \<Rightarrow> vol_flags \<Rightarrow> blk_geo \<Rightarrow> adfs_file \<Rightarrow> bool" where
  "file_on dk v g f \<longleftrightarrow> (\<exists>x b ms bs. on_disk dk g (af_num f) x \<and>
     file_header_read (bg_block_longs g) (vf_longname v) (af_num f) x = Inr (Some (b, True)) \<and>
     file_header_ok (bg_block_longs g) b \<and> entry_norm (fh_entry b) = fh_entry b \<and> lists_on dk g (fh_extension b) ms bs \<and>
     int (length bs) = num_list_for v g (fh_byte_size b) \<and>
     int (length (fh_data_blocks b @ concat (map fl_data_blocks bs))) = num_data_for v g (fh_byte_size b) \<and>
     f = opened v g (af_num f) b ms bs)"

lemma entry_norm_fields [simp]:
  "en_comment_block_id (entry_norm e) = 0" "en_name (entry_norm e) = Some (name_get (en_name e))"
  "en_comment (entry_norm e) = Some (name_get (en_comment e))" "en_mod_ts (entry_norm e) = Some (ts_get (en_mod_ts e))"
  by (simp_all add: entry_norm_def)

lemma name_get_Some [simp]: "name_get (Some s) = s"
  by (simp add: name_get_def)

lemma ts_get_Some [simp]: "ts_get (Some t) = t"
  by (simp add: ts_get_def)

lemma entry_norm_idem [simp]: "entry_norm (entry_norm e) = entry_norm e"
  by (simp add: entry_norm_def)

lemma entry_norm_Some: "entry_norm e = e \<Longrightarrow> \<exists>n c t. e = \<lparr>en_comment_block_id = 0, en_name = Some n, en_comment = Some c, en_mod_ts = Some t\<rparr>"
  by (metis entry_norm_def)

lemma entry_ok_norm: "entry_ok e \<Longrightarrow> entry_ok (entry_norm e)"
  by (cases "en_mod_ts e") (auto simp: entry_ok_def name_ok_def ts_ok_def ts_get_def ts_zero_def name_get_def plain_name_def u32_ok_def split: option.splits)

lemma lists_on_cong: "\<forall>n \<in> set ms. dk n = dk' n \<Longrightarrow> lists_on dk g n ms bs = lists_on dk' g n ms bs"
  by (induction dk g n ms bs rule: lists_on.induct) (auto simp: on_disk_def)

lemma file_on_cong:
  assumes "file_on dk v g f" "\<forall>n \<in> set (file_block_nums f). dk n = dk' n"
  shows "file_on dk' v g f"
proof -
  from assms(1) obtain x b ms bs where f: "on_disk dk g (af_num f) x"
     "file_header_read (bg_block_longs g) (vf_longname v) (af_num f) x = Inr (Some (b, True))"
     "file_header_ok (bg_block_longs g) b" "entry_norm (fh_entry b) = fh_entry b" "lists_on dk g (fh_extension b) ms bs"
     "int (length bs) = num_list_for v g (fh_byte_size b)"
     "int (length (fh_data_blocks b @ concat (map fl_data_blocks bs))) = num_data_for v g (fh_byte_size b)"
     "f = opened v g (af_num f) b ms bs" unfolding file_on_def by blast
  have ms: "set ms \<subseteq> set (file_block_nums f)" "af_num f \<in> set (file_block_nums f)"
    by (subst f(8)) (auto simp: opened_def file_block_nums_def)
  have "lists_on dk' g (fh_extension b) ms bs" using f(5) lists_on_cong [of ms dk dk' g "fh_extension b" bs] ms(1) assms(2) by blast
  moreover have "on_disk dk' g (af_num f) x" using f(1) ms(2) assms(2) by (simp add: on_disk_def)
  ultimately show ?thesis unfolding file_on_def using f by blast
qed

lemma data_on_cong: "data_on dk v g hdr dn data \<Longrightarrow> \<forall>n \<in> set dn. dk n = dk' n \<Longrightarrow> data_on dk' v g hdr dn data"
  by (fastforce simp: data_on_def Let_def on_disk_def dest: set_zip_leftD split: if_splits)

lemma lists_on_list_blks:
  assumes "0 \<notin> set ns" "\<forall>(n, b) \<in> set (zip ns (list_blks bl hdr ns nums)). \<exists>x. on_disk dk g n x \<and> file_list_read (bg_block_longs g) n x = Inr (Some (b, True))"
  shows "lists_on dk g (case ns of [] \<Rightarrow> 0 | n # _ \<Rightarrow> n) ns (list_blks bl hdr ns nums)"
  using assms
proof (induction ns arbitrary: nums)
  case (Cons n ns)
  define b where "b = (case ns of [] \<Rightarrow> file_list_create n hdr nums 0 | m # _ \<Rightarrow> file_list_create n hdr (take (nat (bl - 56)) nums) m)"
  have l: "list_blks bl hdr (n # ns) nums = b # list_blks bl hdr ns (drop (nat (bl - 56)) nums)" by (simp add: b_def)
  have e: "fl_extension b = (case ns of [] \<Rightarrow> 0 | n # _ \<Rightarrow> n)" by (simp add: b_def file_list_create_def split: list.splits)
  from Cons.prems have n: "0 \<notin> set ns" "n \<noteq> 0" by auto
  from Cons.prems(2) have "\<exists>x. on_disk dk g n x \<and> file_list_read (bg_block_longs g) n x = Inr (Some (b, True))"
    "\<forall>(n, b) \<in> set (zip ns (list_blks bl hdr ns (drop (nat (bl - 56)) nums))). \<exists>x. on_disk dk g n x \<and> file_list_read (bg_block_longs g) n x = Inr (Some (b, True))"
    unfolding l by simp_all
  with Cons.IH [OF n(1)] n(2) show ?case unfolding l by (simp add: e)
qed simp

context block_device
begin

abbreviation disk_of :: "'d \<Rightarrow> disk" where
  "disk_of d \<equiv> \<lambda>n. snd (rd_blk d n)"

lemma on_disk_is:
  assumes "wf d" "num d = bg_num_blocks g" "on_disk (disk_of d) g n x"
  shows "block_is d n x"
  using read_ok [OF assms(1), of n] assms(2,3) by (auto simp: on_disk_def block_is_def)

lemma on_disk_same: "same_blocks d d' \<Longrightarrow> num d = bg_num_blocks g \<Longrightarrow> on_disk (disk_of d') g n x = on_disk (disk_of d) g n x"
  by (auto simp: on_disk_def same_blocks_def)

lemma lists_on_same: "same_blocks d d' \<Longrightarrow> num d = bg_num_blocks g \<Longrightarrow> lists_on (disk_of d') g n ms bs = lists_on (disk_of d) g n ms bs"
proof (induction ms arbitrary: n bs)
  case Nil
  then show ?case by (cases bs) simp_all
next
  case (Cons m ms)
  then show ?case using on_disk_same [OF Cons.prems] by (cases bs) simp_all
qed

lemma file_on_same: "same_blocks d d' \<Longrightarrow> num d = bg_num_blocks g \<Longrightarrow> file_on (disk_of d') v g f = file_on (disk_of d) v g f"
  using on_disk_same [of d d' g] lists_on_same [of d d' g] by (simp add: file_on_def)

lemma data_on_same: "same_blocks d d' \<Longrightarrow> num d = bg_num_blocks g \<Longrightarrow> data_on (disk_of d') v g hdr dn data = data_on (disk_of d) v g hdr dn data"
  using on_disk_same [of d d' g] by (simp add: data_on_def)

lemma read_lists_on:
  "lists_on (disk_of d) g n ms bs \<Longrightarrow> wf d \<Longrightarrow> num d = bg_num_blocks g \<Longrightarrow> bytes d = bg_block_bytes g \<Longrightarrow>
   \<exists>d'. read_lists rd_blk g n ns0 blks dn d = Some (d', Inr (ns0 @ ms, blks @ bs, dn @ concat (map fl_data_blocks bs))) \<and> same_blocks d d'"
proof (induction ms arbitrary: n bs ns0 blks dn d)
  case Nil
  then show ?case by (cases bs) (simp_all add: read_lists.simps same_blocks_def)
next
  case (Cons m ms)
  then obtain b bs' where bs: "bs = b # bs'" by (cases bs) simp_all
  with Cons.prems(1) obtain x where x: "on_disk (disk_of d) g m x" "file_list_read (bg_block_longs g) m x = Inr (Some (b, True))"
    and e: "n = m" "m \<noteq> 0" "lists_on (disk_of d) g (fl_extension b) ms bs'" by auto
  from read_data_ok [OF Cons.prems(2) on_disk_is [OF Cons.prems(2,3) x(1)]] Cons.prems(4) obtain d1 where
    d1: "read_data rd_blk g m d = (d1, Inr x)" "same_blocks d d1" by auto
  then have w: "wf d1" "num d1 = bg_num_blocks g" "bytes d1 = bg_block_bytes g" using Cons.prems(3,4) by (simp_all add: same_blocks_def)
  have "lists_on (disk_of d1) g (fl_extension b) ms bs'" using e(3) lists_on_same [OF d1(2) Cons.prems(3)] by simp
  from Cons.IH [OF this w, of "ns0 @ [m]" "blks @ [b]" "dn @ fl_data_blocks b"] obtain d2 where
    d2: "read_lists rd_blk g (fl_extension b) (ns0 @ [m]) (blks @ [b]) (dn @ fl_data_blocks b) d1 =
      Some (d2, Inr ((ns0 @ [m]) @ ms, (blks @ [b]) @ bs', (dn @ fl_data_blocks b) @ concat (map fl_data_blocks bs')))" "same_blocks d1 d2" by blast
  have "read_lists rd_blk g n ns0 blks dn d = read_lists rd_blk g (fl_extension b) (ns0 @ [m]) (blks @ [b]) (dn @ fl_data_blocks b) d1"
    using d1(1) x(2) e(1,2) by (subst read_lists.simps) simp
  with d2 same_blocks_trans [OF d1(2) d2(2)] show ?case unfolding bs by auto
qed

end

subsection \<open>Creating a file and reading it back\<close>

definition file_geo_ok :: "blk_geo \<Rightarrow> bool" where
  "file_geo_ok g \<longleftrightarrow> bg_block_bytes g = 4 * bg_block_longs g \<and> 128 \<le> bg_block_longs g \<and> bg_block_longs g < 2 ^ 30 \<and>
     bg_num_blocks g < 2 ^ 32"

text \<open>Names, comments and dates as \<open>file_header_roundtrip\<close> asks for.\<close>

definition meta_ok :: "string \<Rightarrow> meta_info \<Rightarrow> bool" where
  "meta_ok name mi \<longleftrightarrow> name_ok 30 (Some name) \<and> (case mi_protect mi of Some p \<Rightarrow> u32_ok p | None \<Rightarrow> False) \<and>
     name_ok 79 (Some (case mi_comment mi of None \<Rightarrow> '''' | Some c \<Rightarrow> c)) \<and> ts_ok (mi_mod_ts mi)"

lemma num_list_fit:
  assumes "nd = num_data_for v g ds" "ne = num_list_for v g ds" "0 \<le> nd" "56 < bg_block_longs g"
  shows "0 \<le> ne" "nat (nd - (bg_block_longs g - 56)) \<le> nat ne * nat (bg_block_longs g - 56)" "nd \<le> bg_block_longs g - 56 \<longleftrightarrow> ne = 0"
proof -
  let ?p = "bg_block_longs g - 56"
  have ne: "ne = (if nd \<le> ?p then 0 else (nd - ?p + ?p - 1) div ?p)" unfolding assms(1,2) by (simp only: num_list_for_def Let_def)
  have p: "0 < ?p" using assms(4) by simp
  have c: "nd - ?p \<le> ?p * ((nd - ?p + ?p - 1) div ?p)" using ceil_div [OF p] by blast
  show nn: "0 \<le> ne" unfolding ne using p by (simp add: pos_imp_zdiv_nonneg_iff)
  show "nd \<le> ?p \<longleftrightarrow> ne = 0"
  proof
    assume "ne = 0"
    with c show "nd \<le> ?p" unfolding ne by (auto split: if_splits)
  qed (simp add: ne)
  show "nat (nd - ?p) \<le> nat ne * nat ?p"
  proof (cases "nd \<le> ?p")
    case False
    then have "nd - ?p \<le> ?p * ne" using c unfolding ne by simp
    then have "int (nat (nd - ?p)) \<le> int (nat ne * nat ?p)" using False nn p by (simp add: mult.commute)
    then show ?thesis by linarith
  qed simp
qed

lemma hdr_split:
  assumes "int (length data_nums) = nd" "int (length ext_nums) = ne" "nd \<le> p \<longleftrightarrow> ne = 0" "0 \<le> p"
  shows "(if nd > p then (take (nat p) data_nums, hd ext_nums) else (data_nums, 0)) =
    (take (nat p) data_nums, case ext_nums of [] \<Rightarrow> 0 | n # _ \<Rightarrow> n)"
proof (cases "nd > p")
  case True
  then have "ext_nums \<noteq> []" using assms by auto
  with True show ?thesis by (cases ext_nums) simp_all
next
  case False
  with assms show ?thesis by (cases ext_nums) auto
qed

lemma distinct_in_range:
  assumes "distinct xs" "set xs \<subseteq> {1..<n :: int}"
  shows "1 \<le> n \<Longrightarrow> int (length xs) \<le> n"
proof -
  have "card (set xs) \<le> card {1..<n}" using assms(2) by (intro card_mono) simp_all
  then show "1 \<le> n \<Longrightarrow> int (length xs) \<le> n" unfolding distinct_card [OF assms(1)] by simp
qed



text \<open>The blocks a new file gets: its header, its list blocks, its data blocks.\<close>

lemma free_split:
  assumes g: "file_geo_ok g" and free: "int (length free) = 1 + num_data_for v g (int (length data)) + num_list_for v g (int (length data))"
  shows "\<exists>hdr en dn. free = hdr # en @ dn \<and> int (length en) = num_list_for v g (int (length data)) \<and>
    int (length dn) = num_data_for v g (int (length data)) \<and>
    take (nat (num_list_for v g (int (length data)))) (tl free) = en \<and>
    take (nat (num_data_for v g (int (length data)))) (drop (nat (num_list_for v g (int (length data)))) (tl free)) = dn \<and>
    length (drop (nat (bg_block_longs g - 56)) dn) \<le> length en * nat (bg_block_longs g - 56) \<and>
    fits (nat (contents_bytes v g)) (length dn) data \<and>
    (num_data_for v g (int (length data)) \<le> bg_block_longs g - 56 \<longleftrightarrow> num_list_for v g (int (length data)) = 0)"
proof -
  let ?nd = "num_data_for v g (int (length data))" and ?ne = "num_list_for v g (int (length data))" and ?p = "bg_block_longs g - 56"
  have G: "bg_block_bytes g = 4 * bg_block_longs g" "128 \<le> bg_block_longs g" using g by (simp_all add: file_geo_ok_def)
  then have cb: "0 < contents_bytes v g" by (simp add: contents_bytes_def)
  note nd = fits_num_data [OF cb, of data]
  note nl = num_list_fit [OF refl refl nd(1)]
  have nl: "0 \<le> ?ne" "nat (?nd - ?p) \<le> nat ?ne * nat ?p" "?nd \<le> ?p \<longleftrightarrow> ?ne = 0" using nl G(2) by simp_all
  define hdr en dn where "hdr = hd free" and "en = take (nat ?ne) (tl free)" and "dn = take (nat ?nd) (drop (nat ?ne) (tl free))"
  have ltl: "length (tl free) = nat ?ne + nat ?nd" using free nd(1) nl(1) by simp
  have "free \<noteq> []" using free nd(1) nl(1) by auto
  moreover have "tl free = en @ dn" using ltl by (simp add: en_def dn_def)
  ultimately have fr: "free = hdr # en @ dn" by (metis hdr_def list.collapse)
  have len: "int (length en) = ?ne" "int (length dn) = ?nd" using ltl nd(1) nl(1) by (simp_all add: en_def dn_def)
  have "nat (?nd - ?p) = length dn - nat ?p" "nat ?ne = length en" using len G(2) by linarith+
  with nl(2) have "length (drop (nat ?p) dn) \<le> length en * nat ?p" by simp
  moreover have "fits (nat (contents_bytes v g)) (length dn) data" using nd(2) len(2) nd(1) by (metis nat_int)
  ultimately show ?thesis using fr len nl(3) unfolding en_def dn_def by blast
qed

text \<open>The header block of a new file on disk.\<close>

lemma header_written:
  assumes g: "file_geo_ok g" and v: "\<not> vf_longname v" and dl: "u32_ok (int (length data))" and mi: "meta_ok name mi" "u32_ok chain" "u32_ok parent"
    and u: "u32_ok hdr" "u32_ok ex" "longs_ok blks" "int (length blks) \<le> bg_block_longs g - 56"
  obtains pr b hx where "mi_protect mi = Some pr"
    "b = file_header_create hdr parent name blks ex (int (length data)) pr (mi_comment mi) (mi_mod_ts mi) chain"
    "file_header_ok (bg_block_longs g) b" "file_header_write (bg_block_longs g) False b = Inr hx" "int (length hx) = 4 * bg_block_longs g"
    "file_header_read (bg_block_longs g) False hdr hx = Inr (Some (b\<lparr>fh_entry := entry_norm (fh_entry b)\<rparr>, True))"
proof -
  obtain pr where pr: "mi_protect mi = Some pr" "u32_ok pr" using mi(1) by (auto simp: meta_ok_def split: option.splits)
  define b where "b = file_header_create hdr parent name blks ex (int (length data)) pr (mi_comment mi) (mi_mod_ts mi) chain"
  have bok: "file_header_ok (bg_block_longs g) b" "fh_own_key b = hdr"
    using g mi u dl pr(2) unfolding b_def file_header_create_def
    by (auto simp: file_geo_ok_def file_header_ok_def entry_ok_def meta_ok_def longs_ok_def u32_ok_def split: list.splits)
  from file_header_roundtrip [OF bok(1), of hdr] bok(2) that [OF pr(1) b_def bok(1)] show thesis by auto
qed
context block_device
begin

text \<open>The data as \<open>read\<close> collects it.\<close>

abbreviation read_contents :: "vol_flags \<Rightarrow> blk_geo \<Rightarrow> int \<Rightarrow> int list \<Rightarrow> 'd \<Rightarrow> 'd \<times> (file_data_block list \<times> byte list) res" where
  "read_contents v g byte_size ns d \<equiv> (if vf_ffs v
     then (case read_ffs rd_blk byte_size ns 0 [] d of (d', r) \<Rightarrow> (d', rbind r (\<lambda>data. Inr ([], data))))
     else read_ofs rd_blk g ns 1 [] [] d)"

lemma data_writes_all:
  assumes g: "file_geo_ok g" and u: "u32_ok hdr" "u32_ok nd" "longs_ok dn"
    and fit: "fits (nat (contents_bytes v g)) (length dn) data" and nd: "int (length dn) = nd"
  shows "\<exists>dws dblks. (\<forall>d. write_data wr_blk v g hdr nd 0 dn data d = rbind (write_all dws d) (\<lambda>d'. Inr (dblks, d'))) \<and>
      map fst dws = dn \<and> (\<forall>(n, bs) \<in> set dws. int (length bs) = 4 * bg_block_longs g) \<and>
      (\<forall>dk. (\<forall>(n, x) \<in> set dws. on_disk dk g n x) \<longrightarrow> data_on dk v g hdr dn data)"
proof -
  let ?bl = "bg_block_longs g" let ?bs = "nat (contents_bytes v g)"
  have G: "bg_block_bytes g = 4 * ?bl" "128 \<le> ?bl" "?bl < 2 ^ 30" using g by (simp_all add: file_geo_ok_def)
  have cb: "contents_bytes v g = int ?bs" "0 < ?bs" using G(1,2) by (simp_all add: contents_bytes_def)
  show ?thesis
  proof (cases "vf_ffs v")
    case True
    then have bs: "int ?bs = 4 * ?bl" using G(1) cb(1) by (simp add: contents_bytes_def)
    let ?ws = "zip dn (ffs_blks ?bs dn data)"
    have "\<forall>x \<in> set (ffs_blks ?bs ns da). length x = ?bs" for ns da by (induction ?bs ns da rule: ffs_blks.induct) auto
    then have l: "\<forall>(n, x) \<in> set ?ws. int (length x) = 4 * ?bl" using bs by (auto dest: set_zip_rightD)
    have "\<forall>d. write_data wr_blk v g hdr nd 0 dn data d = rbind (write_all ?ws d) (\<lambda>d'. Inr ([], d'))"
      using write_ffs_all [OF True cb fit] by simp
    with l fit True show ?thesis by (intro exI [of _ ?ws] exI [of _ "[]"]) (simp add: data_on_def)
  next
    case False
    then have bs: "4 * ?bl = int ?bs + 24" using G(1) cb(1) by (simp add: contents_bytes_def)
    from write_ofs_all [OF False cb refl bs _ G(3) u(1,2) fit u(3), of 0] nd G(2) obtain ws where
      w: "\<forall>d. write_data wr_blk v g hdr nd 0 dn data d = rbind (write_all ws d) (\<lambda>d'. Inr (ofs_blks ?bs hdr 0 dn data, d'))"
      "map fst ws = dn" "\<forall>(n, x) \<in> set ws. int (length x) = 4 * ?bl"
      "\<forall>(n, b) \<in> set (zip dn (ofs_blks ?bs hdr 0 dn data)). \<exists>x. (n, x) \<in> set ws \<and> file_data_read ?bl x = Inr (Some b)" by auto
    have "data_on dk v g hdr dn data" if "\<forall>(n, x) \<in> set ws. on_disk dk g n x" for dk
      using that w(4) fit False unfolding data_on_def Let_def by fastforce
    with w(1-3) show ?thesis by (intro exI [of _ ws] exI [of _ "ofs_blks ?bs hdr 0 dn data"]) simp
  qed
qed

lemma contents_read:
  assumes on: "data_on (disk_of d) v g hdr dn data" and g: "file_geo_ok g" and d: "wf d" "num d = bg_num_blocks g" "bytes d = bg_block_bytes g"
  shows "\<exists>d' r. read_contents v g (int (length data)) dn d = (d', Inr (r, data)) \<and> same_blocks d d'"
proof -
  let ?bl = "bg_block_longs g" let ?bs = "nat (contents_bytes v g)"
  have cb: "0 < ?bs" using g by (simp add: file_geo_ok_def contents_bytes_def)
  have fit: "fits ?bs (length dn) data" using on by (simp add: data_on_def Let_def)
  note is_blk = on_disk_is [OF d(1,2)]
  show ?thesis
  proof (cases "vf_ffs v")
    case True
    then have "\<forall>(n, x) \<in> set (zip dn (ffs_blks ?bs dn data)). block_is d n x" using on is_blk by (auto simp: data_on_def Let_def)
    from read_ffs_ok [OF cb fit this d(1), of "int (length data)" 0 "[]"] True show ?thesis by auto
  next
    case False
    then have "\<forall>(n, b) \<in> set (zip dn (ofs_blks ?bs hdr 0 dn data)). data_block_is d ?bl n b"
      using on is_blk unfolding data_on_def Let_def data_block_is_def by fastforce
    from read_ofs_ok [OF cb refl fit this d(1) d(3) [symmetric], of "[]" "[]"] False show ?thesis by auto
  qed
qed

text \<open>Opening and reading a file that is on the disk.\<close>

lemma file_open:
  assumes on: "file_on (disk_of d) v g f" and d: "wf d" "num d = bg_num_blocks g" "bytes d = bg_block_bytes g"
  shows "\<exists>x d'. on_disk (disk_of d) g (af_num f) x \<and> blocks_create_old rd_blk v g (af_num f) x file_init d = Some (d', Inr f) \<and> same_blocks d d'"
proof -
  from on obtain x b ms bs where f: "on_disk (disk_of d) g (af_num f) x"
     "file_header_read (bg_block_longs g) (vf_longname v) (af_num f) x = Inr (Some (b, True))" "entry_norm (fh_entry b) = fh_entry b"
     "lists_on (disk_of d) g (fh_extension b) ms bs" "int (length bs) = num_list_for v g (fh_byte_size b)"
     "int (length (fh_data_blocks b @ concat (map fl_data_blocks bs))) = num_data_for v g (fh_byte_size b)"
     "f = opened v g (af_num f) b ms bs" unfolding file_on_def by blast
  from read_lists_on [OF f(4) d, of "[]" "[]" "fh_data_blocks b"] obtain d' where
    d': "read_lists rd_blk g (fh_extension b) [] [] (fh_data_blocks b) d = Some (d', Inr (ms, bs, fh_data_blocks b @ concat (map fl_data_blocks bs)))"
      "same_blocks d d'" by auto
  from entry_norm_Some [OF f(3)] obtain nm c t where e: "fh_entry b = \<lparr>en_comment_block_id = 0, en_name = Some nm, en_comment = Some c, en_mod_ts = Some t\<rparr>" by blast
  have "blocks_create_old rd_blk v g (af_num f) x file_init d = Some (d', Inr (opened v g (af_num f) b ms bs))"
    using f(2,5,6) d'(1)
    by (simp add: blocks_create_old_def set_file_block_def node_comment_def file_init_def check_counts_def Let_def opened_def e)
  with f(1,7) d'(2) show ?thesis by auto
qed

lemma file_read_on:
  assumes on: "data_on (disk_of d) v g hdr (af_data_nums f) data" and f: "af_block f = Some b" "fh_byte_size b = int (length data)"
    and g: "file_geo_ok g" and d: "wf d" "num d = bg_num_blocks g" "bytes d = bg_block_bytes g"
  shows "\<exists>d' f'. file_read rd_blk v g f d = (d', Inr f') \<and> af_data f' = Some data \<and> same_blocks d d'"
proof -
  from contents_read [OF on g d] obtain d' r where
    d': "read_contents v g (int (length data)) (af_data_nums f) d = (d', Inr (r, data))" "same_blocks d d'" by blast
  have "file_read rd_blk v g f d = (d', Inr (f\<lparr>af_data_blks := r, af_data := Some data\<rparr>))"
    unfolding file_read_def f option.case d'(1) Let_def by simp
  with d'(2) show ?thesis by (intro exI [of _ d'] exI [of _ "f\<lparr>af_data_blks := r, af_data := Some data\<rparr>"]) simp
qed

lemma file_written:
  fixes v g data
  defines "nd \<equiv> num_data_for v g (int (length data))" and "ne \<equiv> num_list_for v g (int (length data))"
  assumes g: "file_geo_ok g" and d: "wf d" "num d = bg_num_blocks g" "bytes d = bg_block_bytes g" and v: "\<not> vf_longname v"
    and dl: "u32_ok (int (length data))" and mi: "meta_ok name mi" "u32_ok chain" "u32_ok parent"
    and free: "distinct free" "set free \<subseteq> {1..<num d}" "int (length free) = 1 + nd + ne"
  shows "\<exists>f b f' d'. blocks_create_new wr_blk v g free name chain parent mi (set_file_data v g data file_init) d = Inr (f, hd free, d') \<and>
     af_num f = hd free \<and> file_block_nums f = free \<and> af_valid f \<and> af_block f = Some b \<and> file_header_ok (bg_block_longs g) b \<and>
     en_name (fh_entry b) = Some name \<and> fh_hash_chain b = chain \<and> fh_byte_size b = int (length data) \<and>
     wf d' \<and> num d' = num d \<and> bytes d' = bytes d \<and>
     (\<forall>c. 0 \<le> c \<and> c < num d \<and> c \<notin> set free \<longrightarrow> disk_of d' c = disk_of d c) \<and>
     file_on (disk_of d') v g f' \<and> af_num f' = hd free \<and> file_block_nums f' = free \<and>
     af_block f' = Some (b\<lparr>fh_entry := entry_norm (fh_entry b)\<rparr>) \<and> data_on (disk_of d') v g (hd free) (af_data_nums f') data"
proof -
  let ?bl = "bg_block_longs g" let ?p = "?bl - 56"
  have G: "bg_block_bytes g = 4 * ?bl" "128 \<le> ?bl" "?bl < 2 ^ 30" "num d < 2 ^ 32" using g d(2) by (simp_all add: file_geo_ok_def)
  from free_split [OF g free(3) [unfolded nd_def ne_def]] obtain hdr en dn where
    fr: "free = hdr # en @ dn" and len: "int (length en) = ne" "int (length dn) = nd"
    and en: "take (nat ne) (tl free) = en" and dn: "take (nat nd) (drop (nat ne) (tl free)) = dn"
    and ldr: "length (drop (nat ?p) dn) \<le> length en * nat ?p" and fit: "fits (nat (contents_bytes v g)) (length dn) data"
    and nle: "nd \<le> ?p \<longleftrightarrow> ne = 0" unfolding nd_def ne_def by blast
  have hdr: "hd free = hdr" by (simp add: fr)
  have rng: "n \<in> set free \<Longrightarrow> 1 \<le> n \<and> n < num d" for n using free(2) by auto
  then have u: "n \<in> set free \<Longrightarrow> u32_ok n" for n using G(4) by (fastforce simp: u32_ok_def)
  have lo: "longs_ok en" "longs_ok dn" "u32_ok hdr" using u unfolding longs_ok_def by (auto simp: fr)
  have lodn: "longs_ok (take (nat ?p) dn)" "longs_ok (drop (nat ?p) dn)" using lo(2) by (auto simp: longs_ok_def dest: in_set_takeD in_set_dropD)
  define ex where "ex = (case en of [] \<Rightarrow> 0 | n # _ \<Rightarrow> n)"
  have exu: "u32_ok ex" using lo(1) by (simp add: ex_def longs_ok_def u32_ok_def split: list.splits)
  have "int (length (take (nat ?p) dn)) \<le> ?p" using G(2) by simp
  from header_written [OF g v dl mi lo(3) exu lodn(1) this] obtain pr b hx where pr: "mi_protect mi = Some pr"
    and b: "b = file_header_create hdr parent name (take (nat ?p) dn) ex (int (length data)) pr (mi_comment mi) (mi_mod_ts mi) chain"
    and bok: "file_header_ok ?bl b" and hx: "file_header_write ?bl False b = Inr hx" "int (length hx) = 4 * ?bl"
      "file_header_read ?bl False hdr hx = Inr (Some (b\<lparr>fh_entry := entry_norm (fh_entry b)\<rparr>, True))" by metis
  let ?lb = "list_blks ?bl hdr en (drop (nat ?p) dn)"
  from create_lists_all [OF refl G(2,3) lo(3,1) lodn(2) ldr] obtain lws where
    lws: "\<forall>d. create_lists wr_blk g hdr en (drop (nat ?p) dn) d = rbind (write_all lws d) (\<lambda>d'. Inr (?lb, d'))"
      "map fst lws = en" "\<forall>(n, bs) \<in> set lws. int (length bs) = 4 * ?bl"
      "\<forall>(n, b) \<in> set (zip en ?lb). \<exists>bs. (n, bs) \<in> set lws \<and> file_list_read ?bl n bs = Inr (Some (b, True))" by blast
  have und: "u32_ok nd"
  proof -
    have "int (length free) \<le> num d" using distinct_in_range [OF free(1,2)] rng [of hdr] by (simp add: fr)
    then show ?thesis using len(2) G(4) by (simp add: u32_ok_def fr)
  qed
  from data_writes_all [OF g lo(3) und lo(2) fit len(2)] obtain dws dblks where
    dws: "\<forall>d. write_data wr_blk v g hdr nd 0 dn data d = rbind (write_all dws d) (\<lambda>d'. Inr (dblks, d'))"
      "map fst dws = dn" "\<forall>(n, bs) \<in> set dws. int (length bs) = 4 * ?bl"
      "\<forall>dk. (\<forall>(n, x) \<in> set dws. on_disk dk g n x) \<longrightarrow> data_on dk v g hdr dn data" by blast
  define ws where "ws = (hdr, hx) # lws @ dws"
  have fws: "map fst ws = free" by (simp add: ws_def lws(2) dws(2) fr)
  have fw: "fst ` set ws = set free" using arg_cong [OF fws, of set] by simp
  have "\<forall>(n, bs) \<in> set ws. 0 \<le> n \<and> n < num d \<and> int (length bs) = bytes d"
  proof safe
    fix n x assume m: "(n, x) \<in> set ws"
    then have "n \<in> set free" using fw by force
    from rng [OF this] show "0 \<le> n" "n < num d" by simp_all
    show "int (length x) = bytes d" using m hx(2) lws(3) dws(3) d(3) G(1) by (auto simp: ws_def)
  qed
  from write_all_blocks [OF d(1) _ this] free(1) fws obtain d' where
    d': "write_all ws d = Inr d'" "wf d'" "num d' = num d" "bytes d' = bytes d" "\<forall>(n, bs) \<in> set ws. block_is d' n bs"
      "\<forall>c. 0 \<le> c \<and> c < num d \<and> c \<notin> set free \<longrightarrow> disk_of d' c = disk_of d c" unfolding fw by auto
  from d'(1) obtain d1 d2 where dd: "wr_blk d hdr hx = Inr d1" "write_all lws d1 = Inr d2" "write_all dws d2 = Inr d'"
    unfolding ws_def by (auto simp: write_all_append rbind_Inr_iff)
  define f where "f = (set_file_data v g data file_init)\<lparr>af_num := hdr, af_block := Some b, af_valid := True,
    af_meta := Some \<lparr>mi_protect = Some pr, mi_mod_ts = en_mod_ts (fh_entry b), mi_comment = en_comment (fh_entry b)\<rparr>,
    af_ext_nums := en, af_data_nums := dn, af_ext_blks := ?lb, af_data_blks := dblks\<rparr>"
  have c: "blocks_create_new wr_blk v g free name chain parent mi (set_file_data v g data file_init) d = Inr (f, hdr, d')"
  proof -
    have F: "af_counts (set_file_data v g data file_init) = Some (nd, ne)" "af_data (set_file_data v g data file_init) = Some data"
      "af_ext_blks (set_file_data v g data file_init) = []"
      by (simp_all add: set_file_data_def nd_def ne_def Let_def file_init_def)
    have le: "\<not> int (length free) < 1 + ne + nd" using free(3) by simp
    have hs: "(if nd > ?p then (take (nat ?p) dn, hd en) else (dn, 0)) = (take (nat ?p) dn, ex)"
      unfolding ex_def using G(2) by (intro hdr_split [OF len(2,1) nle]) simp
    show ?thesis
      unfolding blocks_create_new_def F pr(1) option.case prod.case if_not_P [OF le] Let_def hdr en dn hs b [symmetric] F(3)
      using v hx(1) dd lws(1) dws(1) by (simp add: f_def)
  qed
  have on: "\<forall>(n, bs) \<in> set ws. on_disk (disk_of d') g n bs" using d'(5) d(2) d'(3) by (auto simp: block_is_def on_disk_def)
  let ?b = "b\<lparr>fh_entry := entry_norm (fh_entry b)\<rparr>"
  have B: "fh_extension b = ex" "fh_data_blocks b = take (nat ?p) dn" "fh_byte_size b = int (length data)" "en_name (fh_entry b) = Some name"
    "fh_hash_chain b = chain" by (simp_all add: b file_header_create_def)
  define f' where "f' = opened v g hdr ?b en ?lb"
  have cat: "fh_data_blocks ?b @ concat (map fl_data_blocks ?lb) = dn" using B(2) concat_list_blks [OF ldr, of hdr] by simp
  have N: "af_num f' = hdr" "af_data_nums f' = dn" "af_ext_nums f' = en" "af_block f' = Some ?b"
    using cat by (simp_all add: f'_def opened_def file_init_def)
  have "0 \<notin> set en" using rng [of 0] by (auto simp: fr)
  moreover have "\<forall>(n, b) \<in> set (zip en ?lb). \<exists>x. on_disk (disk_of d') g n x \<and> file_list_read ?bl n x = Inr (Some (b, True))"
    using lws(4) on unfolding ws_def by fastforce
  ultimately have "lists_on (disk_of d') g ex en ?lb" unfolding ex_def by (rule lists_on_list_blks)
  moreover have "file_header_ok ?bl ?b" using bok entry_ok_norm by (simp add: file_header_ok_def)
  moreover have "on_disk (disk_of d') g hdr hx" using on by (simp add: ws_def)
  ultimately have "file_on (disk_of d') v g f'"
    using hx(3) v B(1,3) len cat unfolding file_on_def N(1) f'_def [symmetric]
    by (intro exI [of _ hx] exI [of _ ?b] exI [of _ en] exI [of _ ?lb]) (simp add: nd_def ne_def f'_def)
  moreover have "data_on (disk_of d') v g hdr dn data" using dws(4) on by (simp add: ws_def)
  moreover have "af_num f = hdr" "file_block_nums f = free" "af_valid f" "af_block f = Some b"
    by (simp_all add: f_def file_block_nums_def fr)
  moreover have "file_block_nums f' = free" using N by (simp add: file_block_nums_def fr)
  ultimately show ?thesis using c bok B(3-5) d'(2-4,6) N unfolding hdr
    by (intro exI [of _ f] exI [of _ b] exI [of _ f'] exI [of _ d'] conjI) simp_all
qed

end

subsection \<open>Properties\<close>

text \<open>C10: on a volume without long names, creating a file on a partition with the blocks the bitmap gives it: as many
  are asked for as the file needs, the file occupies exactly the blocks taken from the bitmap, no block that was in
  use changes, and opening the header block again and reading the file gives its name and its data, in the old and in
  the fast file system, for every size.\<close>

theorem file_create_read:
  fixes data :: "byte list"
  assumes "part_dev_ok p" and "file_geo_ok (pt_geo p)" and "bm_wf b" "bm_geo b = pt_geo p" "1 \<le> bg_reserved (pt_geo p)"
    and "\<not> vf_longname v" "u32_ok (int (length data))" "meta_ok name mi" "u32_ok hash_chain" "u32_ok parent"
    and "f0 = set_file_data v (pt_geo p) data file_init" "blocks_get_create_num f0 = Inr n" "n \<le> int (card (free_set b))"
  shows "\<exists>b1 blks f p' anon p2 f2 p3 f3. alloc_n b n = Inr (b1, Some blks) \<and>
    blocks_create_new part_write_block v (pt_geo p) blks name hash_chain parent mi f0 p = Inr (f, hd blks, p') \<and>
    set (file_block_nums f) = free_set b - free_set b1 \<and>
    (\<forall>c. 0 \<le> c \<and> c < bg_num_blocks (pt_geo p) \<and> c \<notin> free_set b - free_set b1 \<longrightarrow> snd (part_read_block p' c) = snd (part_read_block p c)) \<and>
    snd (part_read_block p' (hd blks)) = Inr anon \<and>
    blocks_create_old part_read_block v (pt_geo p) (hd blks) anon file_init p' = Some (p2, Inr f2) \<and>
    file_block_nums f2 = file_block_nums f \<and>
    map_option (\<lambda>b. en_name (fh_entry b)) (af_block f2) = Some (Some name) \<and>
    file_read part_read_block v (pt_geo p) f2 p2 = (p3, Inr f3) \<and> af_data f3 = Some data"
proof -
  let ?g = "pt_geo p" and ?n = "1 + num_data_for v (pt_geo p) (int (length data)) + num_list_for v (pt_geo p) (int (length data))"
  have n: "n = ?n" using assms(11,12) by (simp add: set_file_data_def blocks_get_create_num_def Let_def)
  have G: "128 \<le> bg_block_longs ?g" "bg_block_bytes ?g = 4 * bg_block_longs ?g" using assms(2) by (simp_all add: file_geo_ok_def)
  then have "0 < contents_bytes v ?g" by (simp add: contents_bytes_def)
  note nd = fits_num_data(1) [OF this, of data]
  from num_list_fit(1) [OF refl refl nd] G(1) nd have "0 < n" unfolding n by simp
  from alloc_n_ok [OF assms(3) this] assms(13) obtain b1 blks where
    a: "alloc_n b n = Inr (b1, Some blks)" "int (length blks) = n" "distinct blks" "set blks \<subseteq> free_set b"
      "free_set b1 = free_set b - set blks" by auto
  have r: "set blks \<subseteq> {1..<bg_num_blocks ?g}" using a(4) assms(4,5) by (auto simp: free_set_def blk_range_def)
  have fs: "free_set b - free_set b1 = set blks" using a(4,5) by blast
  from part.file_written [OF assms(2,1) refl refl assms(6-10) a(3) r] a(2) n obtain f hb f2 p' where
    w: "blocks_create_new part_write_block v ?g blks name hash_chain parent mi f0 p = Inr (f, hd blks, p')" "file_block_nums f = blks"
    "part_dev_ok p'" "bg_num_blocks (pt_geo p') = bg_num_blocks ?g" "bg_block_bytes (pt_geo p') = bg_block_bytes ?g"
    "\<forall>c. 0 \<le> c \<and> c < bg_num_blocks ?g \<and> c \<notin> set blks \<longrightarrow> snd (part_read_block p' c) = snd (part_read_block p c)"
    and on: "file_on (part.disk_of p') v ?g f2" "af_num f2 = hd blks" "file_block_nums f2 = blks"
    "af_block f2 = Some (hb\<lparr>fh_entry := entry_norm (fh_entry hb)\<rparr>)" "data_on (part.disk_of p') v ?g (hd blks) (af_data_nums f2) data"
    and hb: "en_name (fh_entry hb) = Some name" "fh_byte_size hb = int (length data)" unfolding assms(11) by blast
  from part.file_open [OF on(1) w(3-5)] obtain x p2 where
    o: "on_disk (part.disk_of p') ?g (hd blks) x" "blocks_create_old part_read_block v ?g (hd blks) x file_init p' = Some (p2, Inr f2)"
    "part.same_blocks p' p2" unfolding on(2) by blast
  then have w2: "part_dev_ok p2" "bg_num_blocks (pt_geo p2) = bg_num_blocks ?g" "bg_block_bytes (pt_geo p2) = bg_block_bytes ?g"
    using w(4,5) by (simp_all add: part.same_blocks_def)
  have "data_on (part.disk_of p2) v ?g (hd blks) (af_data_nums f2) data" using on(5) part.data_on_same [OF o(3) w(4)] by simp
  from part.file_read_on [OF this on(4) _ assms(2) w2] hb(2) obtain p3 f3 where
    "file_read part_read_block v ?g f2 p2 = (p3, Inr f3)" "af_data f3 = Some data" by auto
  moreover have "map_option (\<lambda>b. en_name (fh_entry b)) (af_block f2) = Some (Some name)" by (simp add: on(4) hb(1))
  moreover have "snd (part_read_block p' (hd blks)) = Inr x" using o(1) by (simp add: on_disk_def)
  ultimately show ?thesis using a(1) fs w(1,2,6) o(2) on(3)
    by (intro exI [of _ b1] exI [of _ blks] exI [of _ f] exI [of _ p'] exI [of _ x] exI [of _ p2] exI [of _ f2] exI [of _ p3] exI [of _ f3]) simp
qed

text \<open>A partition of 30 blocks of 512 bytes on a fresh image, and its bitmap.\<close>

lemma small_partition:
  obtains m p b where "img_create False 512 100 = Inr m"
    "part_open (img_open m) (dos_env_init\<lparr>de_surfaces := 1, de_blk_per_trk := 10, de_low_cyl := 2, de_high_cyl := 4\<rparr>) = Inr p"
    "part_dev_ok p" "pt_geo p = set_geometry 3 1 10 512 2 2" "bg_num_blocks (pt_geo p) = 30"
    "bm_create (bm_init (pt_geo p) 15 (root_create 128 ''Work'' None None None 0 0)) = Inr b"
    "bm_wf b" "bm_geo b = pt_geo p" "free_set b = {2..<15} \<union> {17..<30}"
proof -
  let ?e = "dos_env_init\<lparr>de_surfaces := 1, de_blk_per_trk := 10, de_low_cyl := 2, de_high_cyl := 4\<rparr>"
  let ?r = "root_create 128 ''Work'' None None None 0 0"
  obtain m where m: "img_create False 512 100 = Inr m" "im_data m = replicate 51200 0" "im_block_bytes m = 512"
     "\<not> im_read_only m" by (simp add: img_create_def)
  obtain p where p: "part_open (img_open m) ?e = Inr p"
    by (simp add: part_open_def dos_env_init_def)
  have g: "pt_geo p = set_geometry 3 1 10 512 2 2" "bg_num_blocks (pt_geo p) = 30" "part_dev_ok p"
    using p m by (auto simp: part_open_def dos_env_init_def set_geometry_def Let_def part_dev_ok_def img_ok_def img_open_def)
  note v = small_vol_ok [OF g(1,2) _ _ refl]
  from bm_create_ok [of "pt_geo p" 15 ?r] v obtain b where b:
    "bm_create (bm_init (pt_geo p) 15 ?r) = Inr b" "bm_wf b" "bm_geo b = pt_geo p" "free_set b = blk_range (pt_geo p) - {15..<15 + int 2}" by auto
  have "free_set b = {2..<15} \<union> {17..<30}" unfolding b(4) using g(2) v(3) by (auto simp: blk_range_def)
  with that m(1) p g b show ?thesis by metis
qed

theorem file_create_read_witness:
  "\<exists>m p b b1 blks f p' anon p2 f2 p3 f3. img_create False 512 100 = Inr m \<and>
     part_open (img_open m) (dos_env_init\<lparr>de_surfaces := 1, de_blk_per_trk := 10, de_low_cyl := 2, de_high_cyl := 4\<rparr>) = Inr p \<and>
     bm_create (bm_init (pt_geo p) 15 (root_create 128 ''Work'' None None None 0 0)) = Inr b \<and>
     alloc_n b 3 = Inr (b1, Some blks) \<and>
     blocks_create_new part_write_block \<lparr>vf_ffs = False, vf_intl = False, vf_dircache = False, vf_longname = False\<rparr> (pt_geo p) blks ''x'' 0 15
       \<lparr>mi_protect = Some 0, mi_mod_ts = None, mi_comment = None\<rparr>
       (set_file_data \<lparr>vf_ffs = False, vf_intl = False, vf_dircache = False, vf_longname = False\<rparr> (pt_geo p) (replicate 600 7) file_init) p = Inr (f, hd blks, p') \<and>
     snd (part_read_block p' (hd blks)) = Inr anon \<and>
     blocks_create_old part_read_block \<lparr>vf_ffs = False, vf_intl = False, vf_dircache = False, vf_longname = False\<rparr> (pt_geo p) (hd blks) anon file_init p' = Some (p2, Inr f2) \<and>
     file_read part_read_block \<lparr>vf_ffs = False, vf_intl = False, vf_dircache = False, vf_longname = False\<rparr> (pt_geo p) f2 p2 = (p3, Inr f3) \<and>
     af_data f3 = Some (replicate 600 7)"
proof -
  let ?v = "\<lparr>vf_ffs = False, vf_intl = False, vf_dircache = False, vf_longname = False\<rparr>"
  let ?mi = "\<lparr>mi_protect = Some 0, mi_mod_ts = None, mi_comment = None\<rparr>" let ?data = "replicate 600 7 :: byte list"
  obtain m p b where s: "img_create False 512 100 = Inr m"
    "part_open (img_open m) (dos_env_init\<lparr>de_surfaces := 1, de_blk_per_trk := 10, de_low_cyl := 2, de_high_cyl := 4\<rparr>) = Inr p"
    "part_dev_ok p" "pt_geo p = set_geometry 3 1 10 512 2 2" "bg_num_blocks (pt_geo p) = 30"
    "bm_create (bm_init (pt_geo p) 15 (root_create 128 ''Work'' None None None 0 0)) = Inr b"
    "bm_wf b" "bm_geo b = pt_geo p" "free_set b = {2..<15} \<union> {17..<30}" by (rule small_partition)
  have c: "card (free_set b) = 26" unfolding s(9) by (simp add: card_Un_disjoint)
  have g: "file_geo_ok (pt_geo p)" "1 \<le> bg_reserved (pt_geo p)" unfolding s(4) by (simp_all add: file_geo_ok_def set_geometry_def Let_def)
  have n: "blocks_get_create_num (set_file_data ?v (pt_geo p) ?data file_init) = Inr 3" unfolding s(4)
    by (simp add: set_file_data_def blocks_get_create_num_def num_data_for_def num_list_for_def contents_bytes_def set_geometry_def Let_def)
  have ok: "\<not> vf_longname ?v" "u32_ok (int (length ?data))" "meta_ok ''x'' ?mi" "u32_ok 0" "u32_ok 15"
    by (simp_all add: u32_ok_def meta_ok_def name_ok_def ts_ok_def plain_name_def nfkc_char_def)
  have le: "3 \<le> int (card (free_set b))" unfolding c by simp
  from file_create_read [OF s(3) g(1) s(7,8) g(2) ok refl n le] s(1,2,6) show ?thesis by blast
qed

end
