(* ===== verification/Fs_Dir.thy ===== *)
theory Fs_Dir
  imports Fs_File
begin

text \<open>
  Directories of a volume (\<open>amitools/fs/ADFSDir.py\<close>, \<open>ADFSVolDir.py\<close> and the shared part of
  \<open>ADFSNode.py\<close>): reading a directory along its hash chains, creating and deleting entries, the directory
  cache blocks, and finding a path.

  Files and directories are objects that refer to each other; \<open>vo_nodes\<close> holds them and a reference is an
  index into it. The root directory shares its block with the bitmap, which holds it as \<open>bm_root\<close>. An
  operation is a program on the volume: it may raise after it has changed the volume, and it may not return
  (None) when the blocks on disk form a circle.
\<close>

subsection \<open>Programs on a volume\<close>

datatype dir_block = NoBlock | RootBlk | UserDirBlk user_dir_block

record adfs_dir =
  ad_num :: int
  ad_block :: dir_block
  ad_meta :: "meta_info option"
  ad_entries :: "nat list option"
  ad_name_hash :: "nat list list option"
  ad_hash_size :: int
  ad_valid :: bool
  ad_dcache :: "(int \<times> dir_cache) list option"

datatype fs_body = FileB adfs_file | DirB adfs_dir

record fs_node =
  nd_parent :: "nat option"
  nd_body :: fs_body

text \<open>\<open>vo_clock\<close> are the times the clock will show, one for each time it is read. \<open>vo_root_valid\<close> is \<open>root.valid\<close>,
  which only \<open>RootBlock.read\<close> sets. Before the bitmap exists its record just holds the root block.\<close>

record 'd volume =
  vo_dev :: 'd
  vo_flags :: vol_flags
  vo_bitmap :: adfs_bitmap
  vo_root_valid :: bool
  vo_nodes :: "fs_node list"
  vo_clock :: "nat \<Rightarrow> time_stamp"
  vo_boot :: "boot_block option"
  vo_root_dir :: "nat option"
  vo_valid :: bool
  vo_name :: "string option"
  vo_meta :: "(time_stamp option \<times> time_stamp option \<times> time_stamp option) option"

type_synonym ('d, 'a) vprog = "'d volume \<Rightarrow> ('d volume \<times> 'a res) option"

definition vret :: "'a \<Rightarrow> ('d, 'a) vprog" where "vret x s = Some (s, Inr x)"
definition vlift :: "'a res \<Rightarrow> ('d, 'a) vprog" where "vlift r s = Some (s, r)"
definition vraise :: "py_error \<Rightarrow> ('d, 'a) vprog" where "vraise e s = Some (s, Inl e)"
definition vmod :: "('d volume \<Rightarrow> 'd volume) \<Rightarrow> ('d, unit) vprog" where "vmod f s = Some (f s, Inr ())"

definition vbind :: "('d, 'a) vprog \<Rightarrow> ('a \<Rightarrow> ('d, 'b) vprog) \<Rightarrow> ('d, 'b) vprog" where
  "vbind m f s = Option.bind (m s) (\<lambda>(s', r). case r of Inl e \<Rightarrow> Some (s', Inl e) | Inr x \<Rightarrow> f x s')"

abbreviation vthen :: "('d, unit) vprog \<Rightarrow> ('d, 'b) vprog \<Rightarrow> ('d, 'b) vprog" where
  "vthen m k \<equiv> vbind m (\<lambda>_. k)"

lemma vbind_mono [partial_function_mono]:
  assumes "\<And>s. mono_option (\<lambda>f. B f s)" and "\<And>y s. mono_option (\<lambda>f. C y f s)"
  shows "mono_option (\<lambda>f. vbind (B f) (\<lambda>y. C y f) s)"
  unfolding vbind_def
proof (rule bind_mono [OF assms(1)])
  fix p :: "_ volume \<times> _ res"
  show "mono_option (\<lambda>f. case p of (s', Inl e) \<Rightarrow> Some (s', Inl e) | (s', Inr x) \<Rightarrow> C x f s')"
    using assms(2) by (cases p; cases "snd p") (auto intro: option.const_mono)
qed

lemma vprog_simps [simp]:
  "vbind (vret x) f s = f x s" "vbind (vmod g) k s = k () (g s)" "vbind (vlift (Inr y)) f s = f y s"
  "vbind (vlift (Inl e)) f s = Some (s, Inl e)" "vbind (vraise e) f s = Some (s, Inl e)" "vraise e s = Some (s, Inl e)"
  "vret x s = Some (s, Inr x)" "vlift r s = Some (s, r)" "vmod g s = Some (g s, Inr ())"
  by (simp_all add: vbind_def vret_def vmod_def vlift_def vraise_def)

lemma vbind_run: "m s = Some (s', Inr x) \<Longrightarrow> vbind m f s = f x s'"
  by (simp add: vbind_def)

lemma vbind_raise: "m s = Some (s', Inl e) \<Longrightarrow> vbind m f s = Some (s', Inl e)"
  by (simp add: vbind_def)

abbreviation vgeo :: "'d volume \<Rightarrow> blk_geo" where "vgeo s \<equiv> bm_geo (vo_bitmap s)"
abbreviation vbl :: "'d volume \<Rightarrow> int" where "vbl s \<equiv> bg_block_longs (bm_geo (vo_bitmap s))"

text \<open>The reading of the clock, and block transfers. A block that cannot be built raises before it is written.\<close>

definition vnow :: "('d, time_stamp) vprog" where
  "vnow s = Some (s\<lparr>vo_clock := \<lambda>n. vo_clock s (Suc n)\<rparr>, Inr (vo_clock s 0))"

definition dev_read :: "('d \<Rightarrow> int \<Rightarrow> 'd \<times> byte list res) \<Rightarrow> int \<Rightarrow> ('d, byte list) vprog" where
  "dev_read rd n s = (case read_data rd (vgeo s) n (vo_dev s) of (d', r) \<Rightarrow> Some (s\<lparr>vo_dev := d'\<rparr>, r))"

definition dev_write :: "('d \<Rightarrow> int \<Rightarrow> byte list \<Rightarrow> 'd res) \<Rightarrow> int \<Rightarrow> byte list res \<Rightarrow> ('d, unit) vprog" where
  "dev_write wr n r s =
     (case rbind r (wr (vo_dev s) n) of Inl e \<Rightarrow> Some (s, Inl e) | Inr d' \<Rightarrow> Some (s\<lparr>vo_dev := d'\<rparr>, Inr ()))"

text \<open>The objects.\<close>

definition dir_init :: adfs_dir where
  "dir_init = \<lparr>ad_num = 0, ad_block = NoBlock, ad_meta = None, ad_entries = None, ad_name_hash = None,
     ad_hash_size = 72, ad_valid = False, ad_dcache = None\<rparr>"

definition new_node :: "nat option \<Rightarrow> fs_body \<Rightarrow> ('d, nat) vprog" where
  "new_node parent b s = Some (s\<lparr>vo_nodes := vo_nodes s @ [\<lparr>nd_parent = parent, nd_body = b\<rparr>]\<rparr>, Inr (length (vo_nodes s)))"

definition set_body :: "nat \<Rightarrow> fs_body \<Rightarrow> 'd volume \<Rightarrow> 'd volume" where
  "set_body i b s = s\<lparr>vo_nodes := (vo_nodes s)[i := (vo_nodes s ! i)\<lparr>nd_body := b\<rparr>]\<rparr>"

definition get_dir :: "nat \<Rightarrow> ('d, adfs_dir) vprog" where
  "get_dir i s = Some (s, case nd_body (vo_nodes s ! i) of DirB d \<Rightarrow> Inr d | FileB _ \<Rightarrow> Inl AttributeError)"

definition mod_dir :: "nat \<Rightarrow> (adfs_dir \<Rightarrow> adfs_dir) \<Rightarrow> ('d, unit) vprog" where
  "mod_dir i f = vbind (get_dir i) (\<lambda>d. vmod (set_body i (DirB (f d))))"

definition node_num :: "'d volume \<Rightarrow> fs_node \<Rightarrow> int" where
  "node_num s nd = (case nd_body nd of FileB f \<Rightarrow> af_num f
     | DirB d \<Rightarrow> (case ad_block d of RootBlk \<Rightarrow> bm_root_num (vo_bitmap s) | _ \<Rightarrow> ad_num d))"

definition fs_node_name :: "'d volume \<Rightarrow> fs_node \<Rightarrow> string option" where
  "fs_node_name s nd = (case nd_body nd of
       FileB f \<Rightarrow> Option.bind (af_block f) (\<lambda>b. en_name (fh_entry b))
     | DirB d \<Rightarrow> (case ad_block d of NoBlock \<Rightarrow> None | RootBlk \<Rightarrow> rb_name (bm_root (vo_bitmap s))
                  | UserDirBlk b \<Rightarrow> en_name (ud_entry b)))"

definition node_upper :: "'d volume \<Rightarrow> fs_node \<Rightarrow> byte list res" where
  "node_upper s nd = (case fs_node_name s nd of None \<Rightarrow> Inl AttributeError | Some n \<Rightarrow> get_upper_ami_str (vf_intl (vo_flags s)) n)"

text \<open>The hash table of a directory, and writing the header block of a node.\<close>

definition table_of :: "'d volume \<Rightarrow> adfs_dir \<Rightarrow> int list res" where
  "table_of s d = (case ad_block d of NoBlock \<Rightarrow> Inl AttributeError
     | RootBlk \<Rightarrow> Inr (rb_hash_table (bm_root (vo_bitmap s))) | UserDirBlk b \<Rightarrow> Inr (ud_hash_table b))"

definition hash_size_of :: "'d volume \<Rightarrow> adfs_dir \<Rightarrow> int res" where
  "hash_size_of s d = (case ad_block d of NoBlock \<Rightarrow> Inl AttributeError
     | RootBlk \<Rightarrow> Inr (rb_hash_size (bm_root (vo_bitmap s))) | UserDirBlk b \<Rightarrow> Inr (vbl s - 56))"

definition extension_of :: "'d volume \<Rightarrow> adfs_dir \<Rightarrow> int res" where
  "extension_of s d = (case ad_block d of NoBlock \<Rightarrow> Inl AttributeError
     | RootBlk \<Rightarrow> Inr (rb_extension (bm_root (vo_bitmap s))) | UserDirBlk b \<Rightarrow> Inr (ud_extension b))"

definition mod_root :: "(root_block \<Rightarrow> root_block) \<Rightarrow> 'd volume \<Rightarrow> 'd volume" where
  "mod_root f s = s\<lparr>vo_bitmap := (vo_bitmap s)\<lparr>bm_root := f (bm_root (vo_bitmap s))\<rparr>\<rparr>"

definition mod_dir_block :: "(root_block \<Rightarrow> root_block) \<Rightarrow> (user_dir_block \<Rightarrow> user_dir_block) \<Rightarrow> nat \<Rightarrow> ('d, unit) vprog" where
  "mod_dir_block fr fu i = vbind (get_dir i) (\<lambda>d. case ad_block d of
       NoBlock \<Rightarrow> vraise AttributeError
     | RootBlk \<Rightarrow> vmod (mod_root fr)
     | UserDirBlk b \<Rightarrow> vmod (set_body i (DirB (d\<lparr>ad_block := UserDirBlk (fu b)\<rparr>))))"

definition set_hash_slot :: "nat \<Rightarrow> int \<Rightarrow> int \<Rightarrow> ('d, unit) vprog" where
  "set_hash_slot i h v s = vbind (get_dir i) (\<lambda>d. vbind (vlift (rbind (table_of s d) (\<lambda>t. py_set t h v))) (\<lambda>t.
     mod_dir_block (rb_hash_table_update (\<lambda>_. t)) (ud_hash_table_update (\<lambda>_. t)) i)) s"

definition node_block_write :: "('d \<Rightarrow> int \<Rightarrow> byte list \<Rightarrow> 'd res) \<Rightarrow> nat \<Rightarrow> ('d, unit) vprog" where
  "node_block_write wr i s =
     (let nd = vo_nodes s ! i; l = vf_longname (vo_flags s) in
      dev_write wr (node_num s nd)
       (case nd_body nd of
          FileB f \<Rightarrow> (case af_block f of None \<Rightarrow> Inl AttributeError | Some b \<Rightarrow> file_header_write (vbl s) l b)
        | DirB d \<Rightarrow> (case ad_block d of NoBlock \<Rightarrow> Inl AttributeError | RootBlk \<Rightarrow> root_write (vbl s) (bm_root (vo_bitmap s))
                     | UserDirBlk b \<Rightarrow> user_dir_write (vbl s) l b)) s)"

subsection \<open>Reading a directory\<close>

definition FS_INVALID_USER_DIR_BLOCK :: py_error where "FS_INVALID_USER_DIR_BLOCK = FSError 3"
definition NO_FREE_BLOCKS :: py_error where "NO_FREE_BLOCKS = FSError 7"
definition UNSUPPORTED_DIR_BLOCK :: py_error where "UNSUPPORTED_DIR_BLOCK = FSError 8"
definition INVALID_FILE_NAME :: py_error where "INVALID_FILE_NAME = FSError 9"
definition NAME_ALREADY_EXISTS :: py_error where "NAME_ALREADY_EXISTS = FSError 10"
definition DELETE_NOT_ALLOWED :: py_error where "DELETE_NOT_ALLOWED = FSError 17"

definition set_dir_block :: "('d \<Rightarrow> int \<Rightarrow> 'd \<times> byte list res) \<Rightarrow> nat \<Rightarrow> int \<Rightarrow> user_dir_block \<Rightarrow> ('d, unit) vprog" where
  "set_dir_block rd i n b s =
     (if en_name (ud_entry b) = None then Some (s, Inl ValueError)
      else case node_comment rd (vgeo s) (en_comment_block_id (ud_entry b)) (en_comment (ud_entry b)) (vo_dev s) of
        (d', Inl e) \<Rightarrow> Some (s\<lparr>vo_dev := d'\<rparr>, Inl e)
      | (d', Inr c) \<Rightarrow> mod_dir i (\<lambda>a. a\<lparr>ad_num := n, ad_block := UserDirBlk b, ad_valid := True,
           ad_meta := Some \<lparr>mi_protect = Some (ud_protect b), mi_mod_ts = en_mod_ts (ud_entry b), mi_comment = c\<rparr>\<rparr>)
           (s\<lparr>vo_dev := d'\<rparr>))"

definition dir_create_old :: "('d \<Rightarrow> int \<Rightarrow> 'd \<times> byte list res) \<Rightarrow> nat \<Rightarrow> int \<Rightarrow> byte list \<Rightarrow> ('d, int) vprog" where
  "dir_create_old rd j n anon s =
     (case user_dir_read (vbl s) (vf_longname (vo_flags s)) n anon of
        Inl e \<Rightarrow> Some (s, Inl e)
      | Inr (Some (b, True)) \<Rightarrow> vbind (set_dir_block rd j n b) (\<lambda>_. vret (ud_hash_chain b)) s
      | Inr _ \<Rightarrow> Some (s, Inl FS_INVALID_USER_DIR_BLOCK))"

definition file_create_old :: "('d \<Rightarrow> int \<Rightarrow> 'd \<times> byte list res) \<Rightarrow> nat \<Rightarrow> int \<Rightarrow> byte list \<Rightarrow> ('d, nat \<times> int) vprog" where
  "file_create_old rd i n anon s =
     (case blocks_create_old rd (vo_flags s) (vgeo s) n anon file_init (vo_dev s) of
        None \<Rightarrow> None
      | Some (d', Inl e) \<Rightarrow> Some (s\<lparr>vo_dev := d'\<rparr>, Inl e)
      | Some (d', Inr f) \<Rightarrow> vbind (new_node (Some i) (FileB f)) (\<lambda>j.
           case af_block f of None \<Rightarrow> vraise AttributeError | Some b \<Rightarrow> vret (j, fh_hash_chain b)) (s\<lparr>vo_dev := d'\<rparr>))"

text \<open>The node for a block of a hash chain and the next block of the chain; \<open>child\<close> reads a sub directory. A
  block of another type has no \<open>hash_chain\<close>.\<close>

definition read_add_node ::
  "('d \<Rightarrow> int \<Rightarrow> 'd \<times> byte list res) \<Rightarrow> (nat \<Rightarrow> ('d, unit) vprog) \<Rightarrow> nat \<Rightarrow> int \<Rightarrow> block_head \<Rightarrow> byte list \<Rightarrow> ('d, nat \<times> int) vprog" where
  "read_add_node rd child i n h anon =
     (if bh_type h = T_SHORT
      then if bh_sub_type h = ST_USERDIR
           then vbind (new_node (Some i) (DirB dir_init)) (\<lambda>j. vbind (dir_create_old rd j n anon) (\<lambda>chain.
                  vthen (child j) (vret (j, chain))))
           else if bh_sub_type h = ST_FILE then file_create_old rd i n anon
           else vraise UNSUPPORTED_DIR_BLOCK
      else vraise AttributeError)"

definition init_name_hash :: "nat \<Rightarrow> ('d, unit) vprog" where
  "init_name_hash i s = vbind (get_dir i) (\<lambda>d. vbind (vlift (hash_size_of s d)) (\<lambda>hs.
     mod_dir i (\<lambda>d. d\<lparr>ad_name_hash := Some (replicate (nat hs) []), ad_hash_size := hs\<rparr>))) s"

definition start_blocks :: "int \<Rightarrow> int list \<Rightarrow> (int \<times> nat) list res" where
  "start_blocks hs t =
     (if int (length t) < hs then Inl IndexError else Inr (filter (\<lambda>(n, i). n \<noteq> 0) (zip (take (nat hs) t) [0..<nat hs])))"

definition add_entry :: "nat \<Rightarrow> nat \<Rightarrow> adfs_dir \<Rightarrow> adfs_dir" where
  "add_entry h j d = d\<lparr>ad_entries := map_option (\<lambda>es. es @ [j]) (ad_entries d),
     ad_name_hash := map_option (\<lambda>nh. nh[h := (nh ! h) @ [j]]) (ad_name_hash d)\<rparr>"

text \<open>The loop over \<open>blocks\<close>, which the loop itself extends; False when a block is not valid.\<close>

partial_function (option) scan_blocks ::
  "('d \<Rightarrow> int \<Rightarrow> 'd \<times> byte list res) \<Rightarrow> (nat \<Rightarrow> ('d, unit) vprog) \<Rightarrow> nat \<Rightarrow> (int \<times> nat) list \<Rightarrow> 'd volume \<Rightarrow>
     ('d volume \<times> bool res) option" where
  "scan_blocks rd child i q s =
     (case q of
        [] \<Rightarrow> Some (s, Inr True)
      | (n, h) # q' \<Rightarrow>
          vbind (dev_read rd n) (\<lambda>anon s. vbind (vlift (block_read (vbl s) 0 0 5 anon)) (\<lambda>hd s.
            if \<not> bh_valid hd then vthen (mod_dir i (ad_valid_update (\<lambda>_. False))) (vret False) s
            else vbind (read_add_node rd child i n hd anon) (\<lambda>jc.
              vthen (mod_dir i (add_entry h (fst jc)))
                (\<lambda>s. scan_blocks rd child i (q' @ (if snd jc \<noteq> 0 then [(snd jc, h)] else [])) s)) s) s) s)"

partial_function (option) read_dcaches ::
  "('d \<Rightarrow> int \<Rightarrow> 'd \<times> byte list res) \<Rightarrow> nat \<Rightarrow> int \<Rightarrow> 'd volume \<Rightarrow> ('d volume \<times> unit res) option" where
  "read_dcaches rd i n s =
     (if n = 0 then Some (s, Inr ())
      else vbind (dev_read rd n) (\<lambda>bs s. vbind (vlift (dc_read (vbl s) bs)) (\<lambda>r s.
        case r of
          None \<Rightarrow> mod_dir i (ad_valid_update (\<lambda>_. False)) s
        | Some dc \<Rightarrow> vthen (mod_dir i (ad_dcache_update (map_option (\<lambda>cs. cs @ [(n, dc)]))))
            (\<lambda>s. read_dcaches rd i (dc_next_cache dc) s) s) s) s)"

definition dir_read_with :: "('d \<Rightarrow> int \<Rightarrow> 'd \<times> byte list res) \<Rightarrow> (nat \<Rightarrow> ('d, unit) vprog) \<Rightarrow> nat \<Rightarrow> ('d, unit) vprog" where
  "dir_read_with rd child i =
     vthen (init_name_hash i) (vthen (mod_dir i (ad_entries_update (\<lambda>_. Some [])))
     (vbind (get_dir i) (\<lambda>d s.
       vbind (vlift (rbind (hash_size_of s d) (\<lambda>hs. rbind (table_of s d) (start_blocks hs)))) (\<lambda>q.
       vbind (scan_blocks rd child i q) (\<lambda>ok.
         if \<not> ok \<or> \<not> vf_dircache (vo_flags s) then vret ()
         else vthen (mod_dir i (ad_dcache_update (\<lambda>_. Some [])))
           (\<lambda>s. vbind (vlift (extension_of s d)) (read_dcaches rd i) s))) s)))"

text \<open>With \<open>recursive\<close> the sub directories are read as well, but not theirs.\<close>

definition dir_read :: "('d \<Rightarrow> int \<Rightarrow> 'd \<times> byte list res) \<Rightarrow> bool \<Rightarrow> nat \<Rightarrow> ('d, unit) vprog" where
  "dir_read rd recursive =
     dir_read_with rd (if recursive then dir_read_with rd (\<lambda>_. vret ()) else (\<lambda>_. vret ()))"

definition ensure_entries :: "('d \<Rightarrow> int \<Rightarrow> 'd \<times> byte list res) \<Rightarrow> nat \<Rightarrow> ('d, unit) vprog" where
  "ensure_entries rd i = vbind (get_dir i) (\<lambda>d. case ad_entries d of
     Some (e # es) \<Rightarrow> vret () | _ \<Rightarrow> dir_read rd False i)"

definition entries_of :: "nat \<Rightarrow> ('d, nat list) vprog" where
  "entries_of i = vbind (get_dir i) (\<lambda>d. case ad_entries d of None \<Rightarrow> vraise TypeError | Some es \<Rightarrow> vret es)"

definition get_entries :: "('d \<Rightarrow> int \<Rightarrow> 'd \<times> byte list res) \<Rightarrow> nat \<Rightarrow> ('d, nat list) vprog" where
  "get_entries rd i = vthen (ensure_entries rd i) (entries_of i)"

subsection \<open>Blocks of the bitmap\<close>

definition valloc_n :: "int \<Rightarrow> ('d, int list option) vprog" where
  "valloc_n k s = (case alloc_n (vo_bitmap s) k of Inl e \<Rightarrow> Some (s, Inl e) | Inr (b, r) \<Rightarrow> Some (s\<lparr>vo_bitmap := b\<rparr>, Inr r))"

definition vdealloc_n :: "int list \<Rightarrow> ('d, unit) vprog" where
  "vdealloc_n ns s = (case dealloc_n ns (vo_bitmap s) of Inl e \<Rightarrow> Some (s, Inl e) | Inr b \<Rightarrow> Some (s\<lparr>vo_bitmap := b\<rparr>, Inr ()))"

subsection \<open>The directory cache\<close>

definition dcache_of :: "nat \<Rightarrow> ('d, (int \<times> dir_cache) list) vprog" where
  "dcache_of i = vbind (get_dir i) (\<lambda>d. case ad_dcache d of None \<Rightarrow> vraise TypeError | Some cs \<Rightarrow> vret cs)"

definition put_dcache :: "nat \<Rightarrow> (int \<times> dir_cache) list \<Rightarrow> ('d, unit) vprog" where
  "put_dcache i cs = mod_dir i (ad_dcache_update (\<lambda>_. Some cs))"

definition dc_block_write :: "('d \<Rightarrow> int \<Rightarrow> byte list \<Rightarrow> 'd res) \<Rightarrow> int \<times> dir_cache \<Rightarrow> ('d, unit) vprog" where
  "dc_block_write wr c s = dev_write wr (fst c) (dc_write (vbl s) (snd c)) s"

text \<open>Adds an empty cache block to the chain; its place in \<open>dcache_blks\<close>, or None when no block is free.\<close>

definition dircache_add_block :: "('d \<Rightarrow> int \<Rightarrow> byte list \<Rightarrow> 'd res) \<Rightarrow> nat \<Rightarrow> bool \<Rightarrow> ('d, nat option) vprog" where
  "dircache_add_block wr i update_myself =
     vbind (valloc_n 1) (\<lambda>r. case r of None \<Rightarrow> vret None | Some blk_nums \<Rightarrow>
       (let n = hd blk_nums in (\<lambda>s.
        let c = (n, dc_create n (node_num s (vo_nodes s ! i)) None 0) in
        vbind (dcache_of i) (\<lambda>cs.
          vthen (if cs = []
            then vthen (mod_dir_block (rb_extension_update (\<lambda>_. n)) (ud_extension_update (\<lambda>_. n)) i)
                   (if update_myself then node_block_write wr i else vret ())
            else (let l = (fst (last cs), (snd (last cs))\<lparr>dc_next_cache := n\<rparr>)
                  in vthen (put_dcache i (butlast cs @ [l])) (dc_block_write wr l)))
          (vbind (dcache_of i) (\<lambda>cs. vthen (put_dcache i (cs @ [c])) (vret (Some (length cs)))))) s)))"

text \<open>The first cache block with room for a record of \<open>n\<close> bytes.\<close>

fun find_room :: "int \<Rightarrow> int \<Rightarrow> (int \<times> dir_cache) list \<Rightarrow> nat \<Rightarrow> nat option res" where
  "find_room bb n [] k = Inr None"
| "find_room bb n (c # cs) k = rbind (dc_free_size bb (snd c)) (\<lambda>free. if n < free then Inr (Some k) else find_room bb n cs (Suc k))"

definition dircache_add_entry_int :: "('d \<Rightarrow> int \<Rightarrow> byte list \<Rightarrow> 'd res) \<Rightarrow> nat \<Rightarrow> cache_rec \<Rightarrow> bool \<Rightarrow> ('d, bool) vprog" where
  "dircache_add_entry_int wr i r update_myself s =
     vbind (vlift (cr_get_size r)) (\<lambda>n. vbind (dcache_of i) (\<lambda>cs.
     vbind (vlift (find_room (bg_block_bytes (vgeo s)) n cs 0)) (\<lambda>found.
     vbind (case found of Some k \<Rightarrow> vret (Some k) | None \<Rightarrow> dircache_add_block wr i update_myself) (\<lambda>k.
       case k of None \<Rightarrow> vret False
       | Some k \<Rightarrow> vbind (dcache_of i) (\<lambda>cs. let c = (fst (cs ! k), dc_add_record r (snd (cs ! k)))
           in vthen (put_dcache i (cs[k := c])) (vthen (dc_block_write wr c) (vret True))))))) s"

definition valid_subtype :: "int \<Rightarrow> bool" where
  "valid_subtype v \<longleftrightarrow> (v AND 0xFFFFFFFF) \<in> {1, 2, 3, 4, 0xFFFFFFFD, 0xFFFFFFFC}"

text \<open>A node without protection bits never gets here, its header block cannot be written.\<close>

definition dircache_add_entry ::
  "('d \<Rightarrow> int \<Rightarrow> byte list \<Rightarrow> 'd res) \<Rightarrow> nat \<Rightarrow> string \<Rightarrow> meta_info \<Rightarrow> int \<Rightarrow> int \<Rightarrow> bool \<Rightarrow> int \<Rightarrow> ('d, bool) vprog" where
  "dircache_add_entry wr i name mi entry_blk sz update_myself sub_type =
     (if \<not> valid_subtype sub_type then vraise UNSUPPORTED_DIR_BLOCK
      else case mi_protect mi of None \<Rightarrow> vraise StructError | Some p \<Rightarrow>
        dircache_add_entry_int wr i \<lparr>cr_entry = entry_blk, cr_size = sz, cr_protect = p, cr_mod_ts = mi_mod_ts mi,
          cr_sub_type = sub_type, cr_name = name, cr_comment = (case mi_comment mi of None \<Rightarrow> '''' | Some c \<Rightarrow> c)\<rparr> update_myself)"

text \<open>The first record with a name: the place of its block, and the record.\<close>

fun find_record :: "string \<Rightarrow> (int \<times> dir_cache) list \<Rightarrow> nat \<Rightarrow> (nat \<times> cache_rec) option" where
  "find_record name [] k = None"
| "find_record name (c # cs) k = (case dc_record_by_name name (snd c) of Some r \<Rightarrow> Some (k, r) | None \<Rightarrow> find_record name cs (Suc k))"

text \<open>Removes the record of a name; the number of a cache block that became empty and was released. The block stays
  in \<open>dcache_blks\<close>.\<close>

definition dircache_remove_entry :: "('d \<Rightarrow> int \<Rightarrow> byte list \<Rightarrow> 'd res) \<Rightarrow> nat \<Rightarrow> string \<Rightarrow> bool \<Rightarrow> ('d, int option) vprog" where
  "dircache_remove_entry wr i name update_myself =
     vbind (dcache_of i) (\<lambda>cs. case find_record name cs 0 of
       None \<Rightarrow> vraise FS_INTERNAL_ERROR
     | Some (pos, r) \<Rightarrow> vbind (vlift (dc_remove_record r (snd (cs ! pos)))) (\<lambda>dc.
         let cs' = cs[pos := (fst (cs ! pos), dc)] in
         vthen (put_dcache i cs')
          (if dc_is_empty dc \<and> length cs > 1
           then let nxt = (if pos = length cs - 1 then 0 else fst (cs ! (pos + 1))) in
             vthen (if pos = 0
               then vthen (mod_dir_block (rb_extension_update (\<lambda>_. nxt)) (ud_extension_update (\<lambda>_. nxt)) i)
                      (if update_myself then node_block_write wr i else vret ())
               else (let p = (fst (cs ! (pos - 1)), (snd (cs ! (pos - 1)))\<lparr>dc_next_cache := nxt\<rparr>)
                     in vthen (put_dcache i (cs'[pos - 1 := p])) (dc_block_write wr p)))
             (vthen (vdealloc_n [fst (cs ! pos)]) (vret (Some (fst (cs ! pos)))))
           else vthen (dc_block_write wr (fst (cs ! pos), dc)) (vret None))))"

definition get_dircache_record :: "nat \<Rightarrow> string \<Rightarrow> ('d, (nat \<times> cache_rec) option) vprog" where
  "get_dircache_record i name = vbind (get_dir i) (\<lambda>d. vret (case ad_dcache d of None \<Rightarrow> None | Some cs \<Rightarrow> find_record name cs 0))"

text \<open>\<open>r'\<close> replaces the record \<open>r\<close> of cache block \<open>k\<close>: the code changes the fields of the record object.\<close>

definition change_record :: "nat \<Rightarrow> nat \<Rightarrow> cache_rec \<Rightarrow> cache_rec \<Rightarrow> ('d, unit) vprog" where
  "change_record i k r r' = vbind (dcache_of i) (\<lambda>cs.
     let rs = dc_records (snd (cs ! k)); m = length (takeWhile (\<lambda>x. x \<noteq> r) rs)
     in put_dcache i (cs[k := (fst (cs ! k), (snd (cs ! k))\<lparr>dc_records := rs[m := r']\<rparr>)]))"

text \<open>With \<open>rebuild\<close> the record is removed and added again.\<close>

definition update_dircache_record ::
  "('d \<Rightarrow> int \<Rightarrow> byte list \<Rightarrow> 'd res) \<Rightarrow> nat \<Rightarrow> nat \<Rightarrow> cache_rec \<Rightarrow> bool \<Rightarrow> ('d, unit) vprog" where
  "update_dircache_record wr i k r rebuild = vbind (get_dir i) (\<lambda>d. case ad_dcache d of
       None \<Rightarrow> vret ()
     | Some cs \<Rightarrow>
         if rebuild then vbind (dircache_remove_entry wr i (cr_name r) False) (\<lambda>_.
           vbind (dircache_add_entry_int wr i r True) (\<lambda>_. vret ()))
         else if k < length cs \<and> dc_has_record r (snd (cs ! k)) then dc_block_write wr (cs ! k) else vret ())"

subsection \<open>Names and meta information of nodes\<close>

definition node_hash :: "'d volume \<Rightarrow> fs_node \<Rightarrow> int \<Rightarrow> int res" where
  "node_hash s nd hs = (case fs_node_name s nd of None \<Rightarrow> Inl AttributeError | Some n \<Rightarrow> name_hash (vf_intl (vo_flags s)) n hs)"

definition names_at :: "adfs_dir \<Rightarrow> int \<Rightarrow> nat list res" where
  "names_at d h = (case ad_name_hash d of None \<Rightarrow> Inl TypeError | Some nh \<Rightarrow> py_get nh h)"

text \<open>The first node whose upper case name is \<open>up\<close>.\<close>

fun find_upper :: "'d volume \<Rightarrow> byte list \<Rightarrow> nat list \<Rightarrow> nat option res" where
  "find_upper s up [] = Inr None"
| "find_upper s up (j # js) = rbind (node_upper s (vo_nodes s ! j)) (\<lambda>u. if u = up then Inr (Some j) else find_upper s up js)"

definition has_name :: "nat \<Rightarrow> string \<Rightarrow> ('d, bool) vprog" where
  "has_name i name s = vbind (get_dir i) (\<lambda>d. vlift
     (rbind (name_hash (vf_intl (vo_flags s)) name (ad_hash_size d)) (\<lambda>h.
      rbind (get_upper_ami_str (vf_intl (vo_flags s)) name) (\<lambda>up.
      rbind (names_at d h) (\<lambda>js. rbind (find_upper s up js) (\<lambda>r. Inr (r \<noteq> None))))))) s"

definition is_root_body :: "fs_body \<Rightarrow> bool" where
  "is_root_body b = (case b of DirB d \<Rightarrow> ad_block d = RootBlk | FileB _ \<Rightarrow> False)"

definition is_dir_node :: "fs_node \<Rightarrow> bool" where
  "is_dir_node nd = (case nd_body nd of DirB _ \<Rightarrow> True | FileB _ \<Rightarrow> False)"

definition upd_protect :: "int \<Rightarrow> fs_body \<Rightarrow> fs_body" where
  "upd_protect p b = (case b of
      FileB f \<Rightarrow> FileB (f\<lparr>af_block := map_option (fh_protect_update (\<lambda>_. p)) (af_block f),
                        af_meta := map_option (mi_protect_update (\<lambda>_. Some p)) (af_meta f)\<rparr>)
    | DirB d \<Rightarrow> (case ad_block d of UserDirBlk u \<Rightarrow> DirB (d\<lparr>ad_block := UserDirBlk (u\<lparr>ud_protect := p\<rparr>),
                        ad_meta := map_option (mi_protect_update (\<lambda>_. Some p)) (ad_meta d)\<rparr>) | _ \<Rightarrow> b))"

definition upd_mod_ts :: "time_stamp \<Rightarrow> fs_body \<Rightarrow> fs_body" where
  "upd_mod_ts t b = (case b of
      FileB f \<Rightarrow> FileB (f\<lparr>af_block := map_option (fh_entry_update (en_mod_ts_update (\<lambda>_. Some t))) (af_block f),
                        af_meta := map_option (mi_mod_ts_update (\<lambda>_. Some t)) (af_meta f)\<rparr>)
    | DirB d \<Rightarrow> DirB (d\<lparr>ad_block := (case ad_block d of UserDirBlk u \<Rightarrow> UserDirBlk (ud_entry_update (en_mod_ts_update (\<lambda>_. Some t)) u) | x \<Rightarrow> x),
                        ad_meta := map_option (mi_mod_ts_update (\<lambda>_. Some t)) (ad_meta d)\<rparr>))"

definition upd_chain :: "int \<Rightarrow> fs_body \<Rightarrow> fs_body" where
  "upd_chain n b = (case b of
      FileB f \<Rightarrow> FileB (f\<lparr>af_block := map_option (fh_hash_chain_update (\<lambda>_. n)) (af_block f)\<rparr>)
    | DirB d \<Rightarrow> (case ad_block d of UserDirBlk u \<Rightarrow> DirB (d\<lparr>ad_block := UserDirBlk (u\<lparr>ud_hash_chain := n\<rparr>)\<rparr>) | _ \<Rightarrow> b))"

definition mod_body :: "nat \<Rightarrow> (fs_body \<Rightarrow> fs_body) \<Rightarrow> 'd volume \<Rightarrow> 'd volume" where
  "mod_body j f s = set_body j (f (nd_body (vo_nodes s ! j))) s"

text \<open>A comment makes \<open>needs_extra_comment_block\<close> ask for the length of a \<open>FileName\<close>, which has none. Protection
  bits that are all zero count as no change.\<close>

definition change_meta_info :: "('d \<Rightarrow> int \<Rightarrow> byte list \<Rightarrow> 'd res) \<Rightarrow> nat \<Rightarrow> meta_info \<Rightarrow> ('d, unit) vprog" where
  "change_meta_info wr j mi s =
     (let nd = vo_nodes s ! j; root = is_root_body (nd_body nd);
          prot = (case mi_protect mi of Some p \<Rightarrow> if p \<noteq> 0 \<and> \<not> root then Some p else None | None \<Rightarrow> None);
          upd_rec = (\<lambda>r. let r1 = (case prot of Some p \<Rightarrow> r\<lparr>cr_protect := p\<rparr> | None \<Rightarrow> r)
                         in case mi_mod_ts mi of Some t \<Rightarrow> r1\<lparr>cr_mod_ts := Some t\<rparr> | None \<Rightarrow> r1)
      in vbind (case nd_parent nd of
             Some p \<Rightarrow> if \<not> vf_dircache (vo_flags s) then vret None
               else (case fs_node_name s nd of None \<Rightarrow> vraise AttributeError
                 | Some n \<Rightarrow> vbind (get_dircache_record p n) (\<lambda>r. case r of
                       None \<Rightarrow> vraise FS_INTERNAL_ERROR | Some (k, r) \<Rightarrow> vret (Some (p, k, r))))
           | None \<Rightarrow> vret None) (\<lambda>rc.
         vthen (case prot of Some p \<Rightarrow> vmod (mod_body j (upd_protect p)) | None \<Rightarrow> vret ())
        (vthen (case mi_mod_ts mi of
                  Some t \<Rightarrow> vmod (\<lambda>s. (if root then mod_root (rb_mod_ts_update (\<lambda>_. Some t)) else id) (mod_body j (upd_mod_ts t) s))
                | None \<Rightarrow> vret ())
        (vthen (case rc of Some (p, k, r) \<Rightarrow> change_record p k r (upd_rec r) | None \<Rightarrow> vret ())
          (if mi_comment mi \<noteq> None \<and> \<not> root then vraise TypeError
           else if prot \<noteq> None \<or> mi_mod_ts mi \<noteq> None
           then vthen (node_block_write wr j)
                  (case rc of Some (p, k, r) \<Rightarrow> update_dircache_record wr p k (upd_rec r) False | None \<Rightarrow> vret ())
           else vret ())))) s)"

text \<open>\<open>ADFSVolume.change_meta_info\<close>, \<open>update_disk_time\<close> and \<open>ADFSDir.update_dir_mod_time\<close>.\<close>

definition vol_change_meta_info ::
  "('d \<Rightarrow> int \<Rightarrow> byte list \<Rightarrow> 'd res) \<Rightarrow> time_stamp option \<Rightarrow> time_stamp option \<Rightarrow> time_stamp option \<Rightarrow> ('d, bool) vprog" where
  "vol_change_meta_info wr create_ts disk_ts mod_ts s =
     (if \<not> vo_root_valid s then Some (s, Inr False)
      else if create_ts = None \<and> disk_ts = None \<and> mod_ts = None then Some (s, Inr True)
      else vthen (vmod (mod_root (\<lambda>r. r\<lparr>rb_create_ts := (if create_ts = None then rb_create_ts r else create_ts),
                    rb_disk_ts := (if disk_ts = None then rb_disk_ts r else disk_ts),
                    rb_mod_ts := (if mod_ts = None then rb_mod_ts r else mod_ts)\<rparr>)))
           (\<lambda>s. let b = vo_bitmap s; r = bm_root b in
             vthen (dev_write wr (bm_root_num b) (root_write (vbl s) r))
               (vthen (vmod (vo_meta_update (\<lambda>_. Some (rb_create_ts r, rb_disk_ts r, rb_mod_ts r)))) (vret True)) s) s)"

definition update_disk_time :: "('d \<Rightarrow> int \<Rightarrow> byte list \<Rightarrow> 'd res) \<Rightarrow> ('d, unit) vprog" where
  "update_disk_time wr = vbind vnow (\<lambda>t. vbind (vol_change_meta_info wr None (Some t) None) (\<lambda>_. vret ()))"

definition update_dir_mod_time :: "('d \<Rightarrow> int \<Rightarrow> byte list \<Rightarrow> 'd res) \<Rightarrow> nat \<Rightarrow> ('d, unit) vprog" where
  "update_dir_mod_time wr i = vbind vnow (\<lambda>t. change_meta_info wr i \<lparr>mi_protect = None, mi_mod_ts = Some t, mi_comment = None\<rparr>)"

subsection \<open>Deleting\<close>

definition can_delete :: "('d \<Rightarrow> int \<Rightarrow> 'd \<times> byte list res) \<Rightarrow> nat \<Rightarrow> ('d, bool) vprog" where
  "can_delete rd j s = (case nd_body (vo_nodes s ! j) of
       FileB _ \<Rightarrow> Some (s, Inr True)
     | DirB d \<Rightarrow> if ad_block d = RootBlk then Some (s, Inr False)
                 else vbind (get_entries rd j) (\<lambda>es. vret (es = [])) s)"

definition node_block_nums :: "('d \<Rightarrow> int \<Rightarrow> 'd \<times> byte list res) \<Rightarrow> nat \<Rightarrow> ('d, int list) vprog" where
  "node_block_nums rd j s = (case nd_body (vo_nodes s ! j) of
       FileB f \<Rightarrow> Some (s, Inr (file_block_nums f))
     | DirB _ \<Rightarrow> vthen (ensure_entries rd j) (\<lambda>s. let n = node_num s (vo_nodes s ! j) in
         if vf_dircache (vo_flags s) then vbind (dcache_of j) (\<lambda>cs. vret (n # map fst cs)) s else Some (s, Inr [n])) s)"

fun wipe_blocks :: "('d \<Rightarrow> int \<Rightarrow> byte list \<Rightarrow> 'd res) \<Rightarrow> int list \<Rightarrow> ('d, unit) vprog" where
  "wipe_blocks wr [] s = Some (s, Inr ())"
| "wipe_blocks wr (n # ns) s =
     vthen (dev_write wr n (Inr (replicate (nat (bg_block_bytes (vgeo s))) 0))) (wipe_blocks wr ns) s"

text \<open>\<open>ADFSDir._delete\<close>: the entry \<open>j\<close> leaves its hash chain, its blocks become free.\<close>

definition unlink_entry :: "('d \<Rightarrow> int \<Rightarrow> byte list \<Rightarrow> 'd res) \<Rightarrow> nat \<Rightarrow> nat \<Rightarrow> ('d, unit) vprog" where
  "unlink_entry wr i j s =
     vbind (get_dir i) (\<lambda>d. vbind (vlift (node_hash s (vo_nodes s ! j) (ad_hash_size d))) (\<lambda>key.
     vbind (vlift (names_at d key)) (\<lambda>names.
       if j \<notin> set names then vraise FS_INTERNAL_ERROR
       else let pos = length (takeWhile (\<lambda>x. x \<noteq> j) names);
                nxt = (if pos = length names - 1 then 0 else node_num s (vo_nodes s ! (names ! (pos + 1))))
            in vthen (if pos = 0 then vthen (set_hash_slot i key nxt) (node_block_write wr i)
                 else vthen (vmod (mod_body (names ! (pos - 1)) (upd_chain nxt))) (node_block_write wr (names ! (pos - 1))))
               (mod_dir i (\<lambda>d. d\<lparr>ad_entries := map_option (remove1 j) (ad_entries d),
                    ad_name_hash := map_option (\<lambda>nh. nh[nat key := remove1 j names]) (ad_name_hash d)\<rparr>))))) s"

definition delete_entry ::
  "('d \<Rightarrow> int \<Rightarrow> 'd \<times> byte list res) \<Rightarrow> ('d \<Rightarrow> int \<Rightarrow> byte list \<Rightarrow> 'd res) \<Rightarrow> nat \<Rightarrow> nat \<Rightarrow> bool \<Rightarrow> bool \<Rightarrow> ('d, unit) vprog" where
  "delete_entry rd wr i j wipe update_ts =
     vthen (ensure_entries rd i) (vbind (can_delete rd j) (\<lambda>ok. if \<not> ok then vraise DELETE_NOT_ALLOWED else (\<lambda>s.
       if nd_parent (vo_nodes s ! j) \<noteq> Some i then Some (s, Inl FS_INTERNAL_ERROR)
       else vbind (entries_of i) (\<lambda>es. if j \<notin> set es then vraise FS_INTERNAL_ERROR else
         vthen (unlink_entry wr i j) (vbind (node_block_nums rd j) (\<lambda>nums. vthen (vdealloc_n nums) (\<lambda>s.
         vbind (if vf_dircache (vo_flags s)
                then (case fs_node_name s (vo_nodes s ! j) of None \<Rightarrow> vraise AttributeError | Some n \<Rightarrow> dircache_remove_entry wr i n True)
                else vret None) (\<lambda>freed.
         vthen (if wipe then wipe_blocks wr (nums @ (case freed of None \<Rightarrow> [] | Some n \<Rightarrow> [n])) else vret ())
           (if update_ts then vthen (update_dir_mod_time wr i) (update_disk_time wr) else vret ())) s)))) s)))"

definition delete_in_parent ::
  "('d \<Rightarrow> int \<Rightarrow> 'd \<times> byte list res) \<Rightarrow> ('d \<Rightarrow> int \<Rightarrow> byte list \<Rightarrow> 'd res) \<Rightarrow> nat \<Rightarrow> bool \<Rightarrow> bool \<Rightarrow> ('d, unit) vprog" where
  "delete_in_parent rd wr j wipe update_ts s = (case nd_parent (vo_nodes s ! j) of
       None \<Rightarrow> Some (s, Inl AttributeError) | Some i \<Rightarrow> delete_entry rd wr i j wipe update_ts s)"

definition children :: "('d \<Rightarrow> int \<Rightarrow> 'd \<times> byte list res) \<Rightarrow> nat \<Rightarrow> ('d, nat list) vprog" where
  "children rd j s = (case nd_body (vo_nodes s ! j) of FileB _ \<Rightarrow> Some (s, Inr []) | DirB _ \<Rightarrow> get_entries rd j s)"

text \<open>\<open>ADFSNode.delete\<close> of one node after the other; with \<open>all\<close> the entries of a directory come first.\<close>

partial_function (option) delete_nodes ::
  "('d \<Rightarrow> int \<Rightarrow> 'd \<times> byte list res) \<Rightarrow> ('d \<Rightarrow> int \<Rightarrow> byte list \<Rightarrow> 'd res) \<Rightarrow> bool \<Rightarrow> bool \<Rightarrow> bool \<Rightarrow> nat list \<Rightarrow> 'd volume \<Rightarrow>
     ('d volume \<times> unit res) option" where
  "delete_nodes rd wr wipe all update_ts js s =
     (case js of
        [] \<Rightarrow> Some (s, Inr ())
      | j # js' \<Rightarrow>
          vbind (\<lambda>s. if all then vbind (children rd j) (\<lambda>es s. delete_nodes rd wr wipe all update_ts es s) s else Some (s, Inr ()))
            (\<lambda>_ s. vbind (delete_in_parent rd wr j wipe update_ts)
              (\<lambda>_ s. delete_nodes rd wr wipe all update_ts js' s) s) s)"

definition node_delete ::
  "('d \<Rightarrow> int \<Rightarrow> 'd \<times> byte list res) \<Rightarrow> ('d \<Rightarrow> int \<Rightarrow> byte list \<Rightarrow> 'd res) \<Rightarrow> bool \<Rightarrow> bool \<Rightarrow> bool \<Rightarrow> nat \<Rightarrow> ('d, unit) vprog" where
  "node_delete rd wr wipe all update_ts j = delete_nodes rd wr wipe all update_ts [j]"

subsection \<open>Creating\<close>

definition file_create_new ::
  "('d \<Rightarrow> int \<Rightarrow> byte list \<Rightarrow> 'd res) \<Rightarrow> nat \<Rightarrow> adfs_file \<Rightarrow> int list \<Rightarrow> string \<Rightarrow> int \<Rightarrow> int \<Rightarrow> meta_info \<Rightarrow> ('d, int) vprog" where
  "file_create_new wr j f free_blks name hash_chain_blk parent_blk mi s =
     (case blocks_create_new wr (vo_flags s) (vgeo s) free_blks name hash_chain_blk parent_blk mi f (vo_dev s) of
        Inl e \<Rightarrow> Some (s, Inl e)
      | Inr (f', n, d') \<Rightarrow> Some (set_body j (FileB f') (s\<lparr>vo_dev := d'\<rparr>), Inr n))"

definition create_extra_blks :: "('d \<Rightarrow> int \<Rightarrow> byte list \<Rightarrow> 'd res) \<Rightarrow> nat \<Rightarrow> ('d, unit) vprog" where
  "create_extra_blks wr j s =
     (if \<not> vf_dircache (vo_flags s) then Some (s, Inr ())
      else vthen (put_dcache j []) (vbind (dircache_add_block wr j True) (\<lambda>k. case k of
             None \<Rightarrow> vraise AttributeError
           | Some k \<Rightarrow> vbind (dcache_of j) (\<lambda>cs. dc_block_write wr (cs ! k)))) s)"

definition dir_create_new ::
  "('d \<Rightarrow> int \<Rightarrow> 'd \<times> byte list res) \<Rightarrow> ('d \<Rightarrow> int \<Rightarrow> byte list \<Rightarrow> 'd res) \<Rightarrow> nat \<Rightarrow> int list \<Rightarrow> string \<Rightarrow> int \<Rightarrow> int \<Rightarrow> meta_info \<Rightarrow> ('d, int) vprog" where
  "dir_create_new rd wr j free_blks name hash_chain_blk parent_blk mi s =
     (case mi_protect mi of None \<Rightarrow> Some (s, Inl StructError) | Some protect \<Rightarrow>
       (let n = hd free_blks; ud = user_dir_create (vbl s) n parent_blk name protect (mi_comment mi) (mi_mod_ts mi) hash_chain_blk 0
        in vthen (dev_write wr n (user_dir_write (vbl s) (vf_longname (vo_flags s)) ud))
          (vthen (set_dir_block rd j n ud) (vthen (init_name_hash j) (vthen (create_extra_blks wr j) (vret n)))) s))"

definition node_create_new ::
  "('d \<Rightarrow> int \<Rightarrow> 'd \<times> byte list res) \<Rightarrow> ('d \<Rightarrow> int \<Rightarrow> byte list \<Rightarrow> 'd res) \<Rightarrow> nat \<Rightarrow> int list \<Rightarrow> string \<Rightarrow> int \<Rightarrow> int \<Rightarrow> meta_info \<Rightarrow> ('d, int) vprog" where
  "node_create_new rd wr j free_blks name chain parent mi s = (case nd_body (vo_nodes s ! j) of
       FileB f \<Rightarrow> file_create_new wr j f free_blks name chain parent mi s
     | DirB _ \<Rightarrow> dir_create_new rd wr j free_blks name chain parent mi s)"

definition node_create_num :: "fs_node \<Rightarrow> int res" where
  "node_create_num nd = (case nd_body nd of FileB f \<Rightarrow> blocks_get_create_num f | DirB _ \<Rightarrow> Inr 1)"

definition node_size :: "fs_node \<Rightarrow> int" where
  "node_size nd = (case nd_body nd of FileB f \<Rightarrow> af_data_size f | DirB _ \<Rightarrow> 0)"

definition default_meta_info :: "('d, meta_info) vprog" where
  "default_meta_info = vbind vnow (\<lambda>t. vret \<lparr>mi_protect = Some 0, mi_mod_ts = Some t, mi_comment = None\<rparr>)"

text \<open>\<open>_create_node\<close> up to the blocks of the node: its name must be new and there must be enough free blocks.\<close>

definition create_blocks ::
  "('d \<Rightarrow> int \<Rightarrow> 'd \<times> byte list res) \<Rightarrow> ('d \<Rightarrow> int \<Rightarrow> byte list \<Rightarrow> 'd res) \<Rightarrow> nat \<Rightarrow> nat \<Rightarrow> string \<Rightarrow> meta_info \<Rightarrow> ('d, int \<times> int) vprog" where
  "create_blocks rd wr i j name mi s =
     vbind (vlift (name_is_valid (vf_longname (vo_flags s)) name)) (\<lambda>ok. if \<not> ok then vraise INVALID_FILE_NAME else
     vbind (has_name i name) (\<lambda>dup. if dup then vraise NAME_ALREADY_EXISTS else (\<lambda>s.
     vbind (get_dir i) (\<lambda>d. vbind (vlift (name_hash (vf_intl (vo_flags s)) name (ad_hash_size d))) (\<lambda>h.
     vbind (vlift (names_at d h)) (\<lambda>names.
     vbind (vlift (node_create_num (vo_nodes s ! j))) (\<lambda>num.
       let chain = (case names of [] \<Rightarrow> 0 | k # _ \<Rightarrow> node_num s (vo_nodes s ! k)) in
       vbind (valloc_n num) (\<lambda>r. case r of
         None \<Rightarrow> vraise NO_FREE_BLOCKS
       | Some free_blks \<Rightarrow>
           vbind (node_create_new rd wr j free_blks name chain (node_num s (vo_nodes s ! i)) mi) (\<lambda>n. vret (h, n))))))) s))) s"

text \<open>When the directory cache cannot grow, \<open>self.delete()\<close> is called, on the directory and not on the new node.\<close>

definition create_node ::
  "('d \<Rightarrow> int \<Rightarrow> 'd \<times> byte list res) \<Rightarrow> ('d \<Rightarrow> int \<Rightarrow> byte list \<Rightarrow> 'd res) \<Rightarrow> nat \<Rightarrow> nat \<Rightarrow> string \<Rightarrow> meta_info option \<Rightarrow> bool \<Rightarrow> ('d, unit) vprog" where
  "create_node rd wr i j name mi update_ts =
     vthen (ensure_entries rd i)
     (vbind (case mi of None \<Rightarrow> default_meta_info | Some m \<Rightarrow> vret m) (\<lambda>m.
      vbind (create_blocks rd wr i j name m) (\<lambda>(h, n) s.
        vthen (if \<not> vf_dircache (vo_flags s) then vret ()
               else let nd = vo_nodes s ! j in
                 vbind (dircache_add_entry wr i name m n (node_size nd) False (if is_dir_node nd then ST_USERDIR else ST_FILE)) (\<lambda>ok.
                 if ok then vret () else vthen (delete_in_parent rd wr i False True) (vraise NO_FREE_BLOCKS)))
        (vthen (set_hash_slot i h n) (vthen (node_block_write wr i)
        (vthen (mod_dir i (\<lambda>d. d\<lparr>ad_entries := map_option (\<lambda>es. es @ [j]) (ad_entries d),
             ad_name_hash := map_option (\<lambda>nh. nh[nat h := j # nh ! nat h]) (ad_name_hash d)\<rparr>))
        (if update_ts then vthen (update_dir_mod_time wr i) (update_disk_time wr) else vret ())))) s)))"

definition create_dir ::
  "('d \<Rightarrow> int \<Rightarrow> 'd \<times> byte list res) \<Rightarrow> ('d \<Rightarrow> int \<Rightarrow> byte list \<Rightarrow> 'd res) \<Rightarrow> nat \<Rightarrow> string \<Rightarrow> meta_info option \<Rightarrow> bool \<Rightarrow> ('d, nat) vprog" where
  "create_dir rd wr i name mi update_ts =
     vbind (new_node (Some i) (DirB dir_init)) (\<lambda>j. vthen (create_node rd wr i j name mi update_ts) (vret j))"

definition create_file ::
  "('d \<Rightarrow> int \<Rightarrow> 'd \<times> byte list res) \<Rightarrow> ('d \<Rightarrow> int \<Rightarrow> byte list \<Rightarrow> 'd res) \<Rightarrow> nat \<Rightarrow> string \<Rightarrow> byte list \<Rightarrow> meta_info option \<Rightarrow> bool \<Rightarrow> ('d, nat) vprog" where
  "create_file rd wr i name data mi update_ts s =
     vbind (new_node (Some i) (FileB (set_file_data (vo_flags s) (vgeo s) data file_init))) (\<lambda>j.
       vthen (create_node rd wr i j name mi update_ts) (vret j)) s"

subsection \<open>Finding a path\<close>

fun get_path ::
  "('d \<Rightarrow> int \<Rightarrow> 'd \<times> byte list res) \<Rightarrow> bool \<Rightarrow> bool \<Rightarrow> string list \<Rightarrow> nat \<Rightarrow> 'd volume \<Rightarrow> ('d volume \<times> nat option res) option" where
  "get_path rd allow_file allow_dir [] i s = Some (s, Inr (Some i))"
| "get_path rd allow_file allow_dir (p # ps) i s =
     vbind (get_entries rd i) (\<lambda>es s. if es = [] then Some (s, Inr None) else
     vbind (vlift (rbind (get_upper_ami_str (vf_intl (vo_flags s)) p) (\<lambda>up. find_upper s up es))) (\<lambda>r s. case r of
       None \<Rightarrow> Some (s, Inr None)
     | Some e \<Rightarrow>
        (if ps \<noteq> [] then (if is_dir_node (vo_nodes s ! e) then get_path rd allow_file allow_dir ps e s else Some (s, Inr None))
         else Some (s, Inr (if (if is_dir_node (vo_nodes s ! e) then allow_dir else allow_file) then Some e else None)))) s) s"

end
