(* ===== verification/Dir_Map.thy ===== *)
theory Dir_Map
  imports Fs_Dir
begin

text \<open>
  Directories as maps. A directory on disk is a table of chains of header blocks; read without the blocks it is a
  map from upper case names to block numbers. The theory shows that reading a directory finds exactly its chains,
  that looking up a name is looking it up in the map, and that creating and deleting entries update it.
\<close>

subsection \<open>A directory on disk\<close>

text \<open>The node of a sub directory that was opened but not read.\<close>

definition opened_dir :: "int \<Rightarrow> user_dir_block \<Rightarrow> adfs_dir" where
  "opened_dir n u = dir_init\<lparr>ad_num := n, ad_block := UserDirBlk u, ad_valid := True,
     ad_meta := Some \<lparr>mi_protect = Some (ud_protect u), mi_mod_ts = en_mod_ts (ud_entry u), mi_comment = en_comment (ud_entry u)\<rparr>\<rparr>"

definition udir_on :: "disk \<Rightarrow> vol_flags \<Rightarrow> blk_geo \<Rightarrow> adfs_dir \<Rightarrow> bool" where
  "udir_on dk v g a \<longleftrightarrow> (\<exists>x u. on_disk dk g (ad_num a) x \<and>
     user_dir_read (bg_block_longs g) (vf_longname v) (ad_num a) x = Inr (Some (u, True)) \<and>
     user_dir_ok (bg_block_longs g) u \<and> entry_norm (ud_entry u) = ud_entry u \<and> a = opened_dir (ad_num a) u)"

text \<open>An entry is the node it is read as.\<close>

definition e_num :: "fs_body \<Rightarrow> int" where
  "e_num e = (case e of FileB f \<Rightarrow> af_num f | DirB a \<Rightarrow> ad_num a)"

definition e_entry :: "fs_body \<Rightarrow> entry option" where
  "e_entry e = (case e of FileB f \<Rightarrow> map_option fh_entry (af_block f)
     | DirB a \<Rightarrow> (case ad_block a of UserDirBlk u \<Rightarrow> Some (ud_entry u) | _ \<Rightarrow> None))"

definition e_name :: "fs_body \<Rightarrow> string" where
  "e_name e = (case e_entry e of None \<Rightarrow> '''' | Some n \<Rightarrow> name_get (en_name n))"

definition e_chain :: "fs_body \<Rightarrow> int" where
  "e_chain e = (case e of FileB f \<Rightarrow> (case af_block f of None \<Rightarrow> 0 | Some b \<Rightarrow> fh_hash_chain b)
     | DirB a \<Rightarrow> (case ad_block a of UserDirBlk u \<Rightarrow> ud_hash_chain u | _ \<Rightarrow> 0))"

definition e_blocks :: "fs_body \<Rightarrow> int set" where
  "e_blocks e = (case e of FileB f \<Rightarrow> set (file_block_nums f) | DirB a \<Rightarrow> {ad_num a})"

definition entry_on :: "disk \<Rightarrow> vol_flags \<Rightarrow> blk_geo \<Rightarrow> fs_body \<Rightarrow> bool" where
  "entry_on dk v g e = (case e of FileB f \<Rightarrow> file_on dk v g f | DirB a \<Rightarrow> udir_on dk v g a)"

fun chain_on :: "disk \<Rightarrow> vol_flags \<Rightarrow> blk_geo \<Rightarrow> int \<Rightarrow> fs_body list \<Rightarrow> bool" where
  "chain_on dk v g n [] \<longleftrightarrow> n = 0"
| "chain_on dk v g n (e # es) \<longleftrightarrow> n = e_num e \<and> n \<noteq> 0 \<and> entry_on dk v g e \<and> chain_on dk v g (e_chain e) es"

definition dir_on :: "disk \<Rightarrow> vol_flags \<Rightarrow> blk_geo \<Rightarrow> int list \<Rightarrow> fs_body list list \<Rightarrow> bool" where
  "dir_on dk v g t C \<longleftrightarrow> length C = length t \<and> (\<forall>h < length t. chain_on dk v g (t ! h) (C ! h))"

lemma e_num_in_blocks [simp]: "e_num e \<in> e_blocks e"
  by (simp add: e_num_def e_blocks_def file_block_nums_def split: fs_body.split)

lemma entry_on_cong: "entry_on dk v g e \<Longrightarrow> \<forall>n \<in> e_blocks e. dk n = dk' n \<Longrightarrow> entry_on dk' v g e"
  by (cases e) (fastforce simp: entry_on_def e_blocks_def udir_on_def on_disk_def intro: file_on_cong)+

lemma chain_on_cong: "chain_on dk v g n es \<Longrightarrow> \<forall>e \<in> set es. \<forall>n \<in> e_blocks e. dk n = dk' n \<Longrightarrow> chain_on dk' v g n es"
  by (induction dk v g n es rule: chain_on.induct) (auto intro: entry_on_cong)

text \<open>The header block of an entry, read as a block of any type.\<close>

lemma block_read_any:
  assumes "block_read bl t st 5 x = Inr h" "bh_valid h" "t \<noteq> 0" "st \<noteq> 0"
  shows "\<exists>h'. block_read bl 0 0 5 x = Inr h' \<and> bh_valid h' \<and> bh_type h' = t \<and> bh_sub_type h' = st"
  using assms by (auto simp: block_read_def rbind_Inr_iff Let_def)

lemma read_header_any:
  "user_dir_read bl l n x = Inr (Some (u, True)) \<Longrightarrow> \<exists>h. block_read bl 0 0 5 x = Inr h \<and> bh_valid h \<and> bh_type h = T_SHORT \<and> bh_sub_type h = ST_USERDIR"
  "file_header_read bl l n x = Inr (Some (b, True)) \<Longrightarrow> \<exists>h. block_read bl 0 0 5 x = Inr h \<and> bh_valid h \<and> bh_type h = T_SHORT \<and> bh_sub_type h = ST_FILE"
  using block_read_any [of bl T_SHORT _ x] type_consts
  by (auto simp: user_dir_read_def file_header_read_def rbind_Inr_iff T_SHORT_def ST_USERDIR_def ST_FILE_def split: if_splits)

subsection \<open>Reading the chains\<close>

text \<open>The order in which the loop over \<open>blocks\<close> finds the entries: the first of every chain, then the second of every
  chain, and so on.\<close>

function bfs :: "(nat \<times> fs_body list) list \<Rightarrow> (nat \<times> fs_body) list" where
  "bfs [] = []"
| "bfs ((h, []) # q) = bfs q"
| "bfs ((h, e # es) # q) = (h, e) # bfs (q @ (if es = [] then [] else [(h, es)]))"
  by pat_completeness auto
termination by (relation "measure (\<lambda>q. sum_list (map (\<lambda>(h, es). 1 + length es) q))") auto

fun add_all :: "nat \<Rightarrow> (nat \<times> fs_body) list \<Rightarrow> adfs_dir \<Rightarrow> adfs_dir" where
  "add_all n [] d = d"
| "add_all n ((h, e) # es) d = add_all (Suc n) es (add_entry h n d)"

text \<open>The entries of one slot, in the order of its chain.\<close>

definition slot_of :: "nat \<Rightarrow> (nat \<times> 'a) list \<Rightarrow> 'a list" where
  "slot_of h ps = map snd (filter (\<lambda>p. fst p = h) ps)"

lemma slot_of_simps [simp]: "slot_of h [] = []" "slot_of h ((k, e) # ps) = (if k = h then e # slot_of h ps else slot_of h ps)"
  "slot_of h (ps @ qs) = slot_of h ps @ slot_of h qs"
  by (simp_all add: slot_of_def)

lemma slot_of_notin: "h \<notin> fst ` set ps \<Longrightarrow> slot_of h ps = []"
  by (induction ps) auto

lemma slot_of_bfs: "distinct (map fst q) \<Longrightarrow> slot_of h (bfs q) = concat (slot_of h q)"
proof (induction q rule: bfs.induct)
  case (3 k e es q)
  have "distinct (map fst (q @ (if es = [] then [] else [(k, es)])))" using 3(2) by auto
  with 3 show ?case by (auto simp: slot_of_notin)
qed (auto simp: slot_of_notin)

text \<open>Evaluating the operations on objects.\<close>

definition dir_at :: "'d volume \<Rightarrow> nat \<Rightarrow> adfs_dir \<Rightarrow> bool" where
  "dir_at s i a \<longleftrightarrow> i < length (vo_nodes s) \<and> nd_body (vo_nodes s ! i) = DirB a"

lemma get_dir_at [simp]: "dir_at s i a \<Longrightarrow> get_dir i s = Some (s, Inr a)"
  by (simp add: dir_at_def get_dir_def)

lemma bind_get_dir [simp]: "dir_at s i a \<Longrightarrow> vbind (get_dir i) f s = f a s"
  by (simp add: vbind_def)

lemma mod_dir_at [simp]: "dir_at s i a \<Longrightarrow> mod_dir i f s = Some (set_body i (DirB (f a)) s, Inr ())"
  by (simp add: mod_dir_def)

lemma bind_mod_dir [simp]: "dir_at s i a \<Longrightarrow> vbind (mod_dir i f) k s = k () (set_body i (DirB (f a)) s)"
  by (simp add: vbind_def)

lemma dir_at_set_body [simp]: "i < length (vo_nodes s) \<Longrightarrow> dir_at (set_body i (DirB b) s) i a \<longleftrightarrow> a = b"
  by (auto simp: dir_at_def set_body_def)

lemma dir_at_len: "dir_at s i a \<Longrightarrow> i < length (vo_nodes s)"
  by (simp add: dir_at_def)

lemma set_body_fields [simp]:
  "vo_dev (set_body i b s) = vo_dev s" "vo_flags (set_body i b s) = vo_flags s" "vo_bitmap (set_body i b s) = vo_bitmap s"
  "vo_root_valid (set_body i b s) = vo_root_valid s" "vo_clock (set_body i b s) = vo_clock s" "length (vo_nodes (set_body i b s)) = length (vo_nodes s)"
  by (simp_all add: set_body_def)

lemma set_body_twice [simp]: "i < length (vo_nodes s) \<Longrightarrow> set_body i b (set_body i c s) = set_body i b s"
  by (simp add: set_body_def)

lemma set_body_same: "i < length (vo_nodes s) \<Longrightarrow> nd_body (vo_nodes s ! i) = b \<Longrightarrow> set_body i b s = s"
proof -
  assume "nd_body (vo_nodes s ! i) = b"
  then have "(vo_nodes s ! i)\<lparr>nd_body := b\<rparr> = vo_nodes s ! i" by (cases "vo_nodes s ! i") simp
  then show "set_body i b s = s" by (simp add: set_body_def)
qed

lemma file_on_header:
  assumes "file_on dk v g f"
  shows "\<exists>x b. on_disk dk g (af_num f) x \<and> file_header_read (bg_block_longs g) (vf_longname v) (af_num f) x = Inr (Some (b, True)) \<and>
    file_header_ok (bg_block_longs g) b \<and> entry_norm (fh_entry b) = fh_entry b \<and> af_block f = Some b"
proof -
  from assms obtain x b ms bs where f: "on_disk dk g (af_num f) x"
     "file_header_read (bg_block_longs g) (vf_longname v) (af_num f) x = Inr (Some (b, True))"
     "file_header_ok (bg_block_longs g) b" "entry_norm (fh_entry b) = fh_entry b" "f = opened v g (af_num f) b ms bs" unfolding file_on_def by blast
  have "af_block f = Some b" by (subst f(5)) (simp add: opened_def)
  with f(1-4) show ?thesis by blast
qed

lemma set_body_append:
  "i < length (vo_nodes s) \<Longrightarrow> (set_body i b s)\<lparr>vo_dev := d, vo_nodes := vo_nodes (set_body i b s) @ ns\<rparr> =
     set_body i b (s\<lparr>vo_dev := d, vo_nodes := vo_nodes s @ ns\<rparr>)"
  by (simp add: set_body_def list_update_append1 nth_append)

definition entry_node :: "nat \<Rightarrow> fs_body \<Rightarrow> fs_node" where
  "entry_node i e = \<lparr>nd_parent = Some i, nd_body = e\<rparr>"

context block_device
begin

definition vol_dev_ok :: "'d volume \<Rightarrow> bool" where
  "vol_dev_ok s \<longleftrightarrow> wf (vo_dev s) \<and> num (vo_dev s) = bg_num_blocks (vgeo s) \<and> bytes (vo_dev s) = bg_block_bytes (vgeo s)"

abbreviation vdisk :: "'d volume \<Rightarrow> disk" where
  "vdisk s \<equiv> disk_of (vo_dev s)"

lemma vol_dev_ok_same:
  "vol_dev_ok s \<Longrightarrow> same_blocks (vo_dev s) d' \<Longrightarrow> vgeo t = vgeo s \<Longrightarrow> vo_dev t = d' \<Longrightarrow> vol_dev_ok t"
  by (simp add: vol_dev_ok_def same_blocks_def)

lemma udir_on_same: "same_blocks d d' \<Longrightarrow> num d = bg_num_blocks g \<Longrightarrow> udir_on (disk_of d') v g a = udir_on (disk_of d) v g a"
  using on_disk_same [of d d' g] by (simp add: udir_on_def)

lemma entry_on_same: "same_blocks d d' \<Longrightarrow> num d = bg_num_blocks g \<Longrightarrow> entry_on (disk_of d') v g e = entry_on (disk_of d) v g e"
  by (simp add: entry_on_def file_on_same udir_on_same split: fs_body.split)

lemma chain_on_same: "same_blocks d d' \<Longrightarrow> num d = bg_num_blocks g \<Longrightarrow> chain_on (disk_of d') v g n es = chain_on (disk_of d) v g n es"
proof (induction es arbitrary: n)
  case (Cons e es)
  then show ?case using entry_on_same [OF Cons.prems] by simp
qed simp

lemma dir_on_same: "same_blocks d d' \<Longrightarrow> num d = bg_num_blocks g \<Longrightarrow> dir_on (disk_of d') v g t C = dir_on (disk_of d) v g t C"
  using chain_on_same [of d d' g] by (simp add: dir_on_def)

lemma dev_read_on:
  assumes "vol_dev_ok s" "on_disk (vdisk s) (vgeo s) n x"
  shows "\<exists>d'. dev_read rd_blk n s = Some (s\<lparr>vo_dev := d'\<rparr>, Inr x) \<and> same_blocks (vo_dev s) d'"
proof -
  have d: "wf (vo_dev s)" "num (vo_dev s) = bg_num_blocks (vgeo s)" "bytes (vo_dev s) = bg_block_bytes (vgeo s)"
    using assms(1) by (simp_all add: vol_dev_ok_def)
  from read_data_ok [OF d(1) on_disk_is [OF d(1,2) assms(2)] d(3) [symmetric]] show ?thesis by (auto simp: dev_read_def)
qed

text \<open>Making the node of an entry.\<close>

lemma read_add_node_on:
  assumes on: "entry_on (vdisk s) (vo_flags s) (vgeo s) e" and s: "vol_dev_ok s"
  shows "\<exists>x hd d'. on_disk (vdisk s) (vgeo s) (e_num e) x \<and> block_read (vbl s) 0 0 5 x = Inr hd \<and> bh_valid hd \<and>
    read_add_node rd_blk (\<lambda>_. vret ()) i (e_num e) hd x s =
      Some (s\<lparr>vo_dev := d', vo_nodes := vo_nodes s @ [entry_node i e]\<rparr>, Inr (length (vo_nodes s), e_chain e)) \<and> same_blocks (vo_dev s) d'"
proof (cases e)
  case (FileB f)
  have d: "wf (vo_dev s)" "num (vo_dev s) = bg_num_blocks (vgeo s)" "bytes (vo_dev s) = bg_block_bytes (vgeo s)"
    using s by (simp_all add: vol_dev_ok_def)
  from on FileB have f: "file_on (vdisk s) (vo_flags s) (vgeo s) f" by (simp add: entry_on_def)
  from file_open [OF this d] obtain x d' where x: "on_disk (vdisk s) (vgeo s) (af_num f) x"
    "blocks_create_old rd_blk (vo_flags s) (vgeo s) (af_num f) x file_init (vo_dev s) = Some (d', Inr f)" "same_blocks (vo_dev s) d'" by blast
  from file_on_header [OF f] obtain y b where y: "on_disk (vdisk s) (vgeo s) (af_num f) y"
    "file_header_read (vbl s) (vf_longname (vo_flags s)) (af_num f) y = Inr (Some (b, True))" "af_block f = Some b" by blast
  have "y = x" using x(1) y(1) by (simp add: on_disk_def)
  with read_header_any(2) [OF y(2)] obtain hd where hd: "block_read (vbl s) 0 0 5 x = Inr hd" "bh_valid hd" "bh_type hd = T_SHORT" "bh_sub_type hd = ST_FILE" by blast
  have "read_add_node rd_blk (\<lambda>_. vret ()) i (e_num e) hd x s =
      Some (s\<lparr>vo_dev := d', vo_nodes := vo_nodes s @ [entry_node i e]\<rparr>, Inr (length (vo_nodes s), e_chain e))"
    using hd(3,4) x(2) y(3) FileB
    by (simp add: read_add_node_def file_create_old_def e_num_def e_chain_def new_node_def vbind_def entry_node_def ST_USERDIR_def ST_FILE_def)
  with x hd FileB show ?thesis by (auto simp: e_num_def)
next
  case (DirB a)
  with on obtain x u where x: "on_disk (vdisk s) (vgeo s) (ad_num a) x"
     "user_dir_read (vbl s) (vf_longname (vo_flags s)) (ad_num a) x = Inr (Some (u, True))" "entry_norm (ud_entry u) = ud_entry u"
     "a = opened_dir (ad_num a) u" by (auto simp: entry_on_def udir_on_def)
  from read_header_any(1) [OF x(2)] obtain hd where hd: "block_read (vbl s) 0 0 5 x = Inr hd" "bh_valid hd" "bh_type hd = T_SHORT" "bh_sub_type hd = ST_USERDIR" by blast
  from entry_norm_Some [OF x(3)] obtain nm c t where e: "ud_entry u = \<lparr>en_comment_block_id = 0, en_name = Some nm, en_comment = Some c, en_mod_ts = Some t\<rparr>" by blast
  have ab: "ad_block a = UserDirBlk u" by (subst x(4)) (simp add: opened_dir_def)
  let ?N = "length (vo_nodes s)" and ?s = "s\<lparr>vo_nodes := vo_nodes s @ [entry_node i (DirB dir_init)]\<rparr>"
  have "mod_dir ?N f ?s = Some (set_body ?N (DirB (f dir_init)) ?s, Inr ())" for f
    by (rule mod_dir_at) (simp add: dir_at_def entry_node_def)
  then have "dir_create_old rd_blk ?N (ad_num a) x ?s = Some (s\<lparr>vo_nodes := vo_nodes s @ [entry_node i e]\<rparr>, Inr (e_chain e))"
    using x(2) DirB
    by (simp add: dir_create_old_def vbind_def set_dir_block_def node_comment_def e set_body_def entry_node_def e_chain_def ab)
       (subst x(4), simp add: opened_dir_def e)
  then have "read_add_node rd_blk (\<lambda>_. vret ()) i (e_num e) hd x s =
      Some (s\<lparr>vo_nodes := vo_nodes s @ [entry_node i e]\<rparr>, Inr (?N, e_chain e))"
    using hd(3,4) DirB by (simp add: read_add_node_def e_num_def new_node_def vbind_def entry_node_def)
  moreover have "same_blocks (vo_dev s) (vo_dev s)" using s by (simp add: same_blocks_def vol_dev_ok_def)
  ultimately show ?thesis using x(1) hd(1,2) DirB
    by (intro exI [of _ x] exI [of _ hd] exI [of _ "vo_dev s"]) (simp add: e_num_def)
qed

end

context block_device
begin

lemma scan_on:
  assumes ch: "ch = (\<lambda>_. vret ())"
  shows "\<forall>(h, es) \<in> set q. es \<noteq> [] \<and> chain_on (vdisk s) (vo_flags s) (vgeo s) (e_num (hd es)) es \<Longrightarrow> vol_dev_ok s \<Longrightarrow> dir_at s i a \<Longrightarrow>
   \<exists>d'. scan_blocks rd_blk ch i (map (\<lambda>(h, es). (e_num (hd es), h)) q) s =
     Some (set_body i (DirB (add_all (length (vo_nodes s)) (bfs q) a))
             (s\<lparr>vo_dev := d', vo_nodes := vo_nodes s @ map (entry_node i \<circ> snd) (bfs q)\<rparr>), Inr True) \<and> same_blocks (vo_dev s) d'"
proof (induction q arbitrary: s a rule: bfs.induct)
  case 1
  then have "set_body i (DirB a) s = s" by (intro set_body_same) (simp_all add: dir_at_def)
  with 1 show ?case by (intro exI [of _ "vo_dev s"]) (simp add: scan_blocks.simps same_blocks_def vol_dev_ok_def)
next
  case (2 h q)
  then show ?case by simp
next
  case (3 h e es q)
  let ?N = "length (vo_nodes s)" and ?q = "q @ (if es = [] then [] else [(h, es)])"
  have c: "e_num e \<noteq> 0" "entry_on (vdisk s) (vo_flags s) (vgeo s) e" "chain_on (vdisk s) (vo_flags s) (vgeo s) (e_chain e) es"
    using 3(2) by auto
  have nd: "num (vo_dev s) = bg_num_blocks (vgeo s)" using 3(3) by (simp add: vol_dev_ok_def)
  from read_add_node_on [OF c(2) 3(3)] obtain x where x: "on_disk (vdisk s) (vgeo s) (e_num e) x" by blast
  from dev_read_on [OF 3(3) x] obtain d1 where d1: "dev_read rd_blk (e_num e) s = Some (s\<lparr>vo_dev := d1\<rparr>, Inr x)" "same_blocks (vo_dev s) d1" by blast
  let ?s1 = "s\<lparr>vo_dev := d1\<rparr>"
  have s1: "vol_dev_ok ?s1" "entry_on (vdisk ?s1) (vo_flags ?s1) (vgeo ?s1) e"
    using vol_dev_ok_same [OF 3(3) d1(2)] c(2) entry_on_same [OF d1(2) nd] by simp_all
  from read_add_node_on [OF s1(2,1), of i, folded ch] obtain y hd d2 where y: "on_disk (vdisk ?s1) (vgeo ?s1) (e_num e) y" "block_read (vbl s) 0 0 5 y = Inr hd" "bh_valid hd"
    "read_add_node rd_blk ch i (e_num e) hd y ?s1 = Some (s\<lparr>vo_dev := d2, vo_nodes := vo_nodes s @ [entry_node i e]\<rparr>, Inr (?N, e_chain e))"
    "same_blocks d1 d2" by auto
  have "on_disk (vdisk s) (vgeo s) (e_num e) y" using y(1) on_disk_same [OF d1(2) nd] by simp
  with x have yx: "y = x" by (simp add: on_disk_def)
  let ?s2 = "s\<lparr>vo_dev := d2, vo_nodes := vo_nodes s @ [entry_node i e]\<rparr>" and ?a = "add_entry h ?N a"
  let ?s3 = "set_body i (DirB ?a) ?s2"
  have at2: "dir_at ?s2 i a" using 3(4) by (simp add: dir_at_def nth_append)
  note i = dir_at_len [OF 3(4)]
  have sd: "same_blocks (vo_dev s) d2" using same_blocks_trans [OF d1(2) y(5)] .
  have s3: "vol_dev_ok ?s3" "dir_at ?s3 i ?a" using vol_dev_ok_same [OF 3(3) sd] i by simp_all
  have ch: "e_chain e \<noteq> 0 \<longleftrightarrow> es \<noteq> []" "es \<noteq> [] \<longrightarrow> e_chain e = e_num (List.hd es)" using c(3) by (cases es; simp)+
  then have eq: "map (\<lambda>(h, es). (e_num (List.hd es), h)) q @ (if e_chain e \<noteq> 0 then [(e_chain e, h)] else []) = map (\<lambda>(h, es). (e_num (List.hd es), h)) ?q" by auto
  have "\<forall>(h, es) \<in> set ?q. es \<noteq> [] \<and> chain_on (vdisk ?s3) (vo_flags ?s3) (vgeo ?s3) (e_num (List.hd es)) es"
    using 3(2) c(3) ch(2) chain_on_same [OF sd nd] by auto
  note IH = 3(1) [OF this s3]
  have f3: "vo_dev ?s3 = d2" "length (vo_nodes ?s3) = Suc ?N" by simp_all
  from IH [unfolded f3] obtain d3 where d3: "scan_blocks rd_blk ch i (map (\<lambda>(h, es). (e_num (List.hd es), h)) ?q) ?s3 =
     Some (set_body i (DirB (add_all (Suc ?N) (bfs ?q) ?a)) (?s3\<lparr>vo_dev := d3, vo_nodes := vo_nodes ?s3 @ map (entry_node i \<circ> snd) (bfs ?q)\<rparr>), Inr True)"
    "same_blocks d2 d3" by blast
  have step: "scan_blocks rd_blk ch i (map (\<lambda>(h, es). (e_num (List.hd es), h)) ((h, e # es) # q)) s =
      scan_blocks rd_blk ch i (map (\<lambda>(h, es). (e_num (List.hd es), h)) ?q) ?s3"
    by (subst scan_blocks.simps) (simp add: vbind_def d1(1) y(2) [unfolded yx] y(3) y(4) [unfolded yx] mod_dir_at [OF at2] eq [symmetric] del: map_append)
  have st: "set_body i (DirB (add_all (Suc ?N) (bfs ?q) ?a)) (?s3\<lparr>vo_dev := d3, vo_nodes := vo_nodes ?s3 @ map (entry_node i \<circ> snd) (bfs ?q)\<rparr>) =
     set_body i (DirB (add_all ?N (bfs ((h, e # es) # q)) a)) (s\<lparr>vo_dev := d3, vo_nodes := vo_nodes s @ map (entry_node i \<circ> snd) (bfs ((h, e # es) # q))\<rparr>)"
    using i by (simp add: set_body_append) 
  show ?case unfolding step d3(1) st using same_blocks_trans [OF sd d3(2)] by blast
qed

end

subsection \<open>The directory in memory\<close>

text \<open>The node \<open>m\<close> in memory is the entry \<open>e\<close> on disk: writing its header block gives the block on disk, and it has
  the same blocks.\<close>

definition same_entry :: "int \<Rightarrow> fs_body \<Rightarrow> fs_body \<Rightarrow> bool" where
  "same_entry bl m e \<longleftrightarrow> (case (m, e) of
       (FileB f, FileB f') \<Rightarrow> (\<exists>b. af_block f = Some b \<and> file_header_ok bl b \<and> en_name (fh_entry b) \<noteq> None \<and>
          af_block f' = Some (b\<lparr>fh_entry := entry_norm (fh_entry b)\<rparr>) \<and> af_num f = af_num f' \<and> file_block_nums f = file_block_nums f')
     | (DirB a, DirB a') \<Rightarrow> (\<exists>u. ad_block a = UserDirBlk u \<and> user_dir_ok bl u \<and> en_name (ud_entry u) \<noteq> None \<and>
          ad_block a' = UserDirBlk (u\<lparr>ud_entry := entry_norm (ud_entry u)\<rparr>) \<and> ad_num a = ad_num a')
     | _ \<Rightarrow> False)"

definition node_is :: "'d volume \<Rightarrow> nat \<Rightarrow> nat \<Rightarrow> fs_body \<Rightarrow> bool" where
  "node_is s i j e \<longleftrightarrow> j < length (vo_nodes s) \<and> j \<noteq> i \<and> nd_parent (vo_nodes s ! j) = Some i \<and> same_entry (vbl s) (nd_body (vo_nodes s ! j)) e"

definition loaded :: "'d volume \<Rightarrow> nat \<Rightarrow> fs_body list list \<Rightarrow> bool" where
  "loaded s i C \<longleftrightarrow> (\<exists>a nh es. dir_at s i a \<and> ad_name_hash a = Some nh \<and> ad_entries a = Some es \<and>
     ad_hash_size a = int (length C) \<and> length nh = length C \<and> (\<forall>h < length C. list_all2 (node_is s i) (nh ! h) (C ! h)) \<and>
     distinct es \<and> set es = \<Union> (set (map set nh)))"

text \<open>A change of one directory object, and of objects that did not exist before.\<close>

definition dir_step :: "nat \<Rightarrow> 'd volume \<Rightarrow> 'd volume \<Rightarrow> bool" where
  "dir_step i s s' \<longleftrightarrow> vo_flags s' = vo_flags s \<and> vo_bitmap s' = vo_bitmap s \<and> vo_root_valid s' = vo_root_valid s \<and>
     vo_clock s' = vo_clock s \<and> length (vo_nodes s) \<le> length (vo_nodes s') \<and>
     (\<forall>k < length (vo_nodes s). nd_parent (vo_nodes s' ! k) = nd_parent (vo_nodes s ! k) \<and> (k \<noteq> i \<longrightarrow> vo_nodes s' ! k = vo_nodes s ! k)) \<and>
     (\<forall>a. dir_at s i a \<longrightarrow> (\<exists>a'. dir_at s' i a' \<and> ad_num a' = ad_num a \<and> ad_block a' = ad_block a))"

lemma dir_step_refl: "dir_step i s s"
  by (auto simp: dir_step_def)

lemma dir_step_trans: "dir_step i r s \<Longrightarrow> dir_step i s t \<Longrightarrow> dir_step i r t"
proof -
  assume a: "dir_step i r s" and b: "dir_step i s t"
  have "k < length (vo_nodes s)" if "k < length (vo_nodes r)" for k using a that by (simp add: dir_step_def)
  moreover have "\<exists>a'. dir_at t i a' \<and> ad_num a' = ad_num x \<and> ad_block a' = ad_block x" if "dir_at r i x" for x
  proof -
    from a that obtain y where "dir_at s i y" "ad_num y = ad_num x" "ad_block y = ad_block x" unfolding dir_step_def by blast
    with b show ?thesis unfolding dir_step_def by fastforce
  qed
  ultimately show "dir_step i r t" using a b by (simp add: dir_step_def)
qed

lemma add_entry_fields [simp]:
  "ad_block (add_entry h j d) = ad_block d" "ad_num (add_entry h j d) = ad_num d" "ad_hash_size (add_entry h j d) = ad_hash_size d"
  by (simp_all add: add_entry_def)

lemma add_all_fields [simp]:
  "ad_block (add_all n L d) = ad_block d" "ad_num (add_all n L d) = ad_num d" "ad_hash_size (add_all n L d) = ad_hash_size d"
  by (induction n L d rule: add_all.induct) simp_all

lemma add_all_entries: "ad_entries d = Some es \<Longrightarrow> ad_entries (add_all n L d) = Some (es @ [n..<n + length L])"
  by (induction n L d arbitrary: es rule: add_all.induct) (simp_all add: add_entry_def upt_conv_Cons del: upt_Suc)

lemma add_all_hash:
  "ad_name_hash d = Some nh \<Longrightarrow> \<forall>p \<in> set L. fst p < length nh \<Longrightarrow>
   \<exists>nh'. ad_name_hash (add_all n L d) = Some nh' \<and> length nh' = length nh \<and>
     (\<forall>h < length nh. nh' ! h = nh ! h @ slot_of h (zip (map fst L) [n..<n + length L]))"
proof (induction n L d arbitrary: nh rule: add_all.induct)
  case (2 n k e L d)
  have "ad_name_hash (add_entry k n d) = Some (nh[k := nh ! k @ [n]])" using 2(2) by (simp add: add_entry_def)
  from 2(1) [OF this] 2(3) show ?case by (auto simp: upt_conv_Cons nth_list_update simp del: upt_Suc)
qed simp

lemma slot_of_nodes:
  "\<forall>k < length L. nodes ! (n + k) = entry_node i (snd (L ! k)) \<Longrightarrow>
   list_all2 (\<lambda>j e. n \<le> j \<and> j < n + length L \<and> nodes ! j = entry_node i e) (slot_of h (zip (map fst L) [n..<n + length L])) (slot_of h L)"
proof (induction L arbitrary: n)
  case (Cons p L)
  have "\<forall>k < length L. nodes ! (Suc n + k) = entry_node i (snd (L ! k))" using Cons.prems by force
  from Cons.IH [OF this] have "list_all2 (\<lambda>j e. n \<le> j \<and> j < n + length (p # L) \<and> nodes ! j = entry_node i e)
      (slot_of h (zip (map fst L) [Suc n..<Suc n + length L])) (slot_of h L)" by (rule list_all2_mono) simp
  moreover have "nodes ! n = entry_node i (snd p)" using Cons.prems by force
  moreover have "slot_of h (zip (map fst (p # L)) [n..<n + length (p # L)]) =
      (if fst p = h then n # slot_of h (zip (map fst L) [Suc n..<Suc n + length L]) else slot_of h (zip (map fst L) [Suc n..<Suc n + length L]))"
    by (simp add: upt_conv_Cons del: upt_Suc)
  ultimately show ?case by (cases p) (simp del: upt_Suc)
qed simp

text \<open>The chains that are not empty.\<close>

definition start_chains :: "fs_body list list \<Rightarrow> (nat \<times> fs_body list) list" where
  "start_chains C = filter (\<lambda>p. snd p \<noteq> []) (map (\<lambda>h. (h, C ! h)) [0..<length C])"

lemma slot_of_start: "h < length C \<Longrightarrow> concat (slot_of h (start_chains C)) = C ! h"
proof -
  assume h: "h < length C"
  have "slot_of h (filter (\<lambda>p. snd p \<noteq> []) (map (\<lambda>h. (h, C ! h)) ks)) = (if h \<in> set ks \<and> C ! h \<noteq> [] then [C ! h] else [])" if "distinct ks" for ks
    using that by (induction ks) auto
  from this [of "[0..<length C]"] h show ?thesis by (simp add: start_chains_def)
qed

lemma start_blocks_chains:
  assumes "dir_on dk v g t C"
  shows "start_blocks (int (length t)) t = Inr (map (\<lambda>(h, es). (e_num (hd es), h)) (start_chains C))"
proof -
  have l: "length C = length t" and c: "\<And>h. h < length t \<Longrightarrow> chain_on dk v g (t ! h) (C ! h)" using assms by (simp_all add: dir_on_def)
  have n: "t ! h \<noteq> 0 \<longleftrightarrow> C ! h \<noteq> []" "C ! h \<noteq> [] \<longrightarrow> t ! h = e_num (hd (C ! h))" if "h < length t" for h
    using c [OF that] by (cases "C ! h"; simp)+
  have "zip (take (length t) t) [0..<length t] = map (\<lambda>h. (t ! h, h)) [0..<length t]" by (intro nth_equalityI) simp_all
  then have "filter (\<lambda>(n, i). n \<noteq> 0) (zip (take (length t) t) [0..<length t]) = map (\<lambda>h. (t ! h, h)) (filter (\<lambda>h. t ! h \<noteq> 0) [0..<length t])"
    by (simp add: filter_map o_def)
  also have "filter (\<lambda>h. t ! h \<noteq> 0) [0..<length t] = filter (\<lambda>h. C ! h \<noteq> []) [0..<length t]" using n(1) by (intro filter_cong) simp_all
  also have "map (\<lambda>h. (t ! h, h)) (filter (\<lambda>h. C ! h \<noteq> []) [0..<length t]) = map (\<lambda>h. (e_num (hd (C ! h)), h)) (filter (\<lambda>h. C ! h \<noteq> []) [0..<length t])"
    using n(2) by (intro map_cong) auto
  also have "\<dots> = map (\<lambda>(h, es). (e_num (hd es), h)) (start_chains C)" by (simp add: start_chains_def filter_map o_def l)
  finally show ?thesis by (simp add: start_blocks_def)
qed

lemma slots_cover:
  assumes "length nh = m" "\<forall>h < m. nh ! h = slot_of h (zip (map fst L) ks)" "length ks = length L" "\<forall>p \<in> set L. fst p < m"
  shows "\<Union> (set (map set nh)) = set ks"
proof (intro set_eqI iffI)
  fix x assume "x \<in> \<Union> (set (map set nh))"
  then obtain ys where "ys \<in> set nh" "x \<in> set ys" by auto
  then obtain h where h: "h < m" "x \<in> set (nh ! h)" using assms(1) by (metis in_set_conv_nth)
  then have "x \<in> set (slot_of h (zip (map fst L) ks))" using assms(2) by simp
  then show "x \<in> set ks" by (auto simp: slot_of_def dest: set_zip_rightD)
next
  fix x assume "x \<in> set ks"
  then obtain k where k: "k < length L" "x = ks ! k" using assms(3) by (metis in_set_conv_nth)
  then have h: "fst (L ! k) < m" using assms(4) nth_mem by blast
  have "(fst (L ! k), x) \<in> set (zip (map fst L) ks)" unfolding set_zip using k assms(3) by (auto intro!: exI [of _ k])
  then have "x \<in> set (slot_of (fst (L ! k)) (zip (map fst L) ks))" by (force simp: slot_of_def)
  then have "x \<in> set (nh ! fst (L ! k))" using assms(2) h by simp
  then show "x \<in> \<Union> (set (map set nh))" using h assms(1) nth_mem [of "fst (L ! k)" nh] by auto
qed

lemma bfs_slots: "fst ` set (bfs q) \<subseteq> fst ` set q"
proof (induction q rule: bfs.induct)
  case (3 h e es q)
  then have "fst ` set (bfs (q @ (if es = [] then [] else [(h, es)]))) \<subseteq> fst ` set ((h, e # es) # q)" by (auto split: if_splits)
  then show ?case by simp
qed auto

lemma bfs_sub: "(h, e) \<in> set (bfs q) \<Longrightarrow> \<exists>es. (h, es) \<in> set q \<and> e \<in> set es"
proof (induction q rule: bfs.induct)
  case (3 k x xs q)
  then show ?case by (fastforce split: if_splits)
qed auto

lemma bfs_start: "e \<in> snd ` set (bfs (start_chains C)) \<Longrightarrow> e \<in> set (concat C)"
proof -
  assume "e \<in> snd ` set (bfs (start_chains C))"
  then obtain h where "(h, e) \<in> set (bfs (start_chains C))" by auto
  from bfs_sub [OF this] obtain es where "(h, es) \<in> set (start_chains C)" "e \<in> set es" by blast
  then show ?thesis by (auto simp: start_chains_def)
qed

lemma table_of_cong: "ad_block a' = ad_block a \<Longrightarrow> vo_bitmap s' = vo_bitmap s \<Longrightarrow>
  table_of s' a' = table_of s a \<and> hash_size_of s' a' = hash_size_of s a"
  by (simp add: table_of_def hash_size_of_def split: dir_block.split)

lemma init_name_hash_at:
  "dir_at s i a \<Longrightarrow> hash_size_of s a = Inr hs \<Longrightarrow> init_name_hash i s =
     Some (set_body i (DirB (a\<lparr>ad_name_hash := Some (replicate (nat hs) []), ad_hash_size := hs\<rparr>)) s, Inr ())"
  by (simp add: init_name_hash_def)

lemma same_entry_refl:
  assumes "entry_on dk v g e"
  shows "same_entry (bg_block_longs g) e e"
proof (cases e)
  case (FileB f)
  with assms have "file_on dk v g f" by (simp add: entry_on_def)
  from file_on_header [OF this] obtain b where b: "file_header_ok (bg_block_longs g) b" "entry_norm (fh_entry b) = fh_entry b" "af_block f = Some b" by blast
  then show ?thesis using FileB entry_norm_Some [OF b(2)] by (auto simp: same_entry_def)
next
  case (DirB a)
  with assms obtain u where u: "user_dir_ok (bg_block_longs g) u" "entry_norm (ud_entry u) = ud_entry u" "a = opened_dir (ad_num a) u"
    by (auto simp: entry_on_def udir_on_def)
  have "ad_block a = UserDirBlk u" by (subst u(3)) (simp add: opened_dir_def)
  with u show ?thesis using DirB entry_norm_Some [OF u(2)] by (auto simp: same_entry_def)
qed

lemma chain_on_entries: "chain_on dk v g n es \<Longrightarrow> e \<in> set es \<Longrightarrow> entry_on dk v g e \<and> e_num e \<noteq> 0"
  by (induction dk v g n es rule: chain_on.induct) auto

lemma dir_on_entries: "dir_on dk v g t C \<Longrightarrow> h < length C \<Longrightarrow> e \<in> set (C ! h) \<Longrightarrow> entry_on dk v g e \<and> e_num e \<noteq> 0"
  using chain_on_entries by (fastforce simp: dir_on_def)

context block_device
begin

text \<open>Reading a directory finds the chains of its table.\<close>

lemma dir_read_ok:
  assumes s: "vol_dev_ok s" and a: "dir_at s i a" and dc: "\<not> vf_dircache (vo_flags s)"
    and t: "table_of s a = Inr t" "hash_size_of s a = Inr (int (length t))" and on: "dir_on (vdisk s) (vo_flags s) (vgeo s) t C"
  shows "\<exists>s'. dir_read rd_blk False i s = Some (s', Inr ()) \<and> loaded s' i C \<and> dir_step i s s' \<and> same_blocks (vo_dev s) (vo_dev s') \<and>
    vo_root_dir s' = vo_root_dir s \<and> vo_name s' = vo_name s \<and>
    (\<forall>j. length (vo_nodes s) \<le> j \<and> j < length (vo_nodes s') \<longrightarrow> (\<exists>e \<in> set (concat C). vo_nodes s' ! j = entry_node i e))"
proof -
  define ch where "ch = (\<lambda>_::nat. vret () :: ('d, unit) vprog)"
  let ?N = "length (vo_nodes s)" let ?L = "bfs (start_chains C)"
  let ?a2 = "a\<lparr>ad_name_hash := Some (replicate (length t) []), ad_hash_size := int (length t), ad_entries := Some []\<rparr>"
  let ?s2 = "set_body i (DirB ?a2) s"
  note i = dir_at_len [OF a]
  have l: "length C = length t" using on by (simp add: dir_on_def)
  have s2: "vol_dev_ok ?s2" "dir_at ?s2 i ?a2" using s i by (simp_all add: vol_dev_ok_def)
  have "\<forall>(h, es) \<in> set (start_chains C). es \<noteq> [] \<and> chain_on (vdisk ?s2) (vo_flags ?s2) (vgeo ?s2) (e_num (hd es)) es"
  proof safe
    fix h es assume "(h, es) \<in> set (start_chains C)"
    then have h: "h < length t" "es = C ! h" "es \<noteq> []" by (auto simp: start_chains_def l)
    with on have "chain_on (vdisk s) (vo_flags s) (vgeo s) (t ! h) es" by (simp add: dir_on_def)
    with h(3) show "chain_on (vdisk ?s2) (vo_flags ?s2) (vgeo ?s2) (e_num (hd es)) es" by (cases es) simp_all
    show False if "(h, []) \<in> set (start_chains C)" for h using that by (simp add: start_chains_def)
  qed
  from scan_on [OF ch_def this s2] obtain d' where
    d': "scan_blocks rd_blk ch i (map (\<lambda>(h, es). (e_num (hd es), h)) (start_chains C)) ?s2 =
      Some (set_body i (DirB (add_all ?N ?L ?a2)) (?s2\<lparr>vo_dev := d', vo_nodes := vo_nodes ?s2 @ map (entry_node i \<circ> snd) ?L\<rparr>), Inr True)"
      "same_blocks (vo_dev s) d'" by auto
  let ?s3 = "set_body i (DirB (add_all ?N ?L ?a2)) (s\<lparr>vo_dev := d', vo_nodes := vo_nodes s @ map (entry_node i \<circ> snd) ?L\<rparr>)"
  have st: "set_body i (DirB (add_all ?N ?L ?a2)) (?s2\<lparr>vo_dev := d', vo_nodes := vo_nodes ?s2 @ map (entry_node i \<circ> snd) ?L\<rparr>) = ?s3"
    unfolding set_body_append [OF i] using i by simp
  have run: "dir_read rd_blk False i s = Some (?s3, Inr ())"
  proof -
    have i1: "init_name_hash i s = Some (set_body i (DirB (a\<lparr>ad_name_hash := Some (replicate (length t) []), ad_hash_size := int (length t)\<rparr>)) s, Inr ())"
      using init_name_hash_at [OF a t(2)] by simp
    have i2: "mod_dir i (ad_entries_update (\<lambda>_. Some [])) (set_body i (DirB (a\<lparr>ad_name_hash := Some (replicate (length t) []), ad_hash_size := int (length t)\<rparr>)) s) = Some (?s2, Inr ())"
      using i by (subst mod_dir_at) simp_all
    have i3: "rbind (hash_size_of ?s2 ?a2) (\<lambda>hs. rbind (table_of ?s2 ?a2) (start_blocks hs)) = Inr (map (\<lambda>(h, es). (e_num (hd es), h)) (start_chains C))"
      using table_of_cong [of ?a2 a ?s2 s] t start_blocks_chains [OF on] by simp
    have i4: "get_dir i ?s2 = Some (?s2, Inr ?a2)" by (rule get_dir_at [OF s2(2)])
    show ?thesis
      unfolding dir_read_def dir_read_with_def if_False ch_def [symmetric]
      by (simp add: vbind_def i1 i2 i4 i3 d'(1) st dc)
  qed
  have bfs: "\<forall>p \<in> set ?L. fst p < length (replicate (length t) [])" using bfs_slots [of "start_chains C"] by (fastforce simp: start_chains_def l)
  have "ad_name_hash ?a2 = Some (replicate (length t) [])" by simp
  from add_all_hash [OF this bfs, of ?N] obtain nh where nh: "ad_name_hash (add_all ?N ?L ?a2) = Some nh" "length nh = length t"
    "\<forall>h < length t. nh ! h = slot_of h (zip (map fst ?L) [?N..<?N + length ?L])" by auto
  have es: "ad_entries (add_all ?N ?L ?a2) = Some [?N..<?N + length ?L]" using add_all_entries [of ?a2 "[]"] by simp
  have nodes: "\<forall>k < length ?L. vo_nodes ?s3 ! (?N + k) = entry_node i (snd (?L ! k))" using i by (auto simp: set_body_def nth_list_update nth_append)
  have all: "list_all2 (node_is ?s3 i) (nh ! h) (C ! h)" if h: "h < length C" for h
  proof -
    have "distinct (map fst (start_chains C))" by (simp add: start_chains_def filter_map o_def)
    then have sl: "slot_of h ?L = C ! h" using slot_of_bfs slot_of_start [OF h] by metis
    from slot_of_nodes [OF nodes, of h] have "list_all2 (\<lambda>j e. ?N \<le> j \<and> j < ?N + length ?L \<and> vo_nodes ?s3 ! j = entry_node i e) (nh ! h) (C ! h)"
      using nh(3) h l unfolding sl by simp
    moreover have "?N \<le> j \<and> j < ?N + length ?L \<and> vo_nodes ?s3 ! j = entry_node i e \<longrightarrow> node_is ?s3 i j e" if "e \<in> set (C ! h)" for j e
      using i same_entry_refl [of "vdisk s" "vo_flags s" "vgeo s" e] dir_on_entries [OF on h that] by (auto simp: node_is_def entry_node_def)
    ultimately show ?thesis by (auto simp: list_all2_conv_all_nth)
  qed
  have un: "\<Union> (set (map set nh)) = set [?N..<?N + length ?L]"
    using slots_cover [OF nh(2,3) _ _] bfs by simp
  have "loaded ?s3 i C" unfolding loaded_def
    using i nh(1,2) es all un l by (intro exI [of _ "add_all ?N ?L ?a2"] exI [of _ nh] exI [of _ "[?N..<?N + length ?L]"]) simp
  moreover have "dir_step i s ?s3" using a i unfolding dir_step_def
    by (auto simp: dir_at_def set_body_def nth_list_update nth_append)
  moreover have "\<exists>e \<in> set (concat C). vo_nodes ?s3 ! j = entry_node i e" if "?N \<le> j" "j < length (vo_nodes ?s3)" for j
  proof -
    from that obtain k where k: "j = ?N + k" "k < length ?L" by (auto simp: le_iff_add)
    then have "snd (?L ! k) \<in> set (concat C)" using bfs_start [of "snd (?L ! k)" C] by simp
    then show ?thesis using nodes k by blast
  qed
  moreover have "vo_root_dir ?s3 = vo_root_dir s" "vo_name ?s3 = vo_name s" by (simp_all add: set_body_def)
  ultimately show ?thesis using run d'(2) by (intro exI [of _ ?s3]) simp
qed

end

context block_device
begin

lemma loaded_entries:
  assumes "loaded s i C" "concat C \<noteq> []" "dir_at s i a"
  shows "ad_entries a \<noteq> None" "ad_entries a \<noteq> Some []"
proof -
  from assms(1,3) obtain nh es where l: "ad_entries a = Some es" "\<forall>h < length C. list_all2 (node_is s i) (nh ! h) (C ! h)" "length nh = length C"
    "set es = \<Union> (set (map set nh))" by (auto simp: loaded_def dir_at_def)
  from assms(2) obtain h where h: "h < length C" "C ! h \<noteq> []" by (auto simp: in_set_conv_nth)
  then have "nh ! h \<noteq> []" using l(2) by fastforce
  moreover have "nh ! h \<in> set nh" using h(1) l(3) by simp
  ultimately have "es \<noteq> []" using l(4) by (cases "nh ! h") auto
  then show "ad_entries a \<noteq> None" "ad_entries a \<noteq> Some []" using l(1) by simp_all
qed

lemma ensure_entries_ok:
  assumes s: "vol_dev_ok s" and a: "dir_at s i a" and dc: "\<not> vf_dircache (vo_flags s)"
    and t: "table_of s a = Inr t" "hash_size_of s a = Inr (int (length t))" and on: "dir_on (vdisk s) (vo_flags s) (vgeo s) t C"
    and l: "loaded s i C \<or> ad_entries a = None \<or> ad_entries a = Some []"
  shows "\<exists>s'. ensure_entries rd_blk i s = Some (s', Inr ()) \<and> loaded s' i C \<and> dir_step i s s' \<and> same_blocks (vo_dev s) (vo_dev s') \<and>
    vo_root_dir s' = vo_root_dir s \<and> (loaded s i C \<and> concat C \<noteq> [] \<longrightarrow> s' = s)"
proof (cases "ad_entries a = None \<or> ad_entries a = Some []")
  case True
  then have "\<not> (loaded s i C \<and> concat C \<noteq> [])" using loaded_entries [OF _ _ a] by blast
  with dir_read_ok [OF s a dc t on] True a show ?thesis by (auto simp: ensure_entries_def)
next
  case False
  then obtain e es where e: "ad_entries a = Some (e # es)" by (cases "ad_entries a"; cases "the (ad_entries a)") auto
  then have "ensure_entries rd_blk i s = Some (s, Inr ())" using a by (simp add: ensure_entries_def)
  moreover have "same_blocks (vo_dev s) (vo_dev s)" using s by (simp add: same_blocks_def vol_dev_ok_def)
  ultimately show ?thesis using l e dir_step_refl by (intro exI [of _ s]) auto
qed

end

subsection \<open>Names\<close>

definition upper :: "bool \<Rightarrow> string \<Rightarrow> byte list" where
  "upper intl n = (case get_upper_ami_str intl n of Inl _ \<Rightarrow> [] | Inr u \<Rightarrow> u)"

definition dir_map :: "bool \<Rightarrow> fs_body list list \<Rightarrow> byte list \<rightharpoonup> int" where
  "dir_map intl C = map_of (map (\<lambda>e. (upper intl (e_name e), e_num e)) (concat C))"

definition names_ok :: "bool \<Rightarrow> fs_body list list \<Rightarrow> bool" where
  "names_ok intl C \<longleftrightarrow> distinct (map (upper intl \<circ> e_name) (concat C)) \<and>
     (\<forall>h < length C. \<forall>e \<in> set (C ! h). plain_name (e_name e) \<and> name_hash intl (e_name e) (int (length C)) = Inr (int h))"

lemma upper_plain: "plain_name n \<Longrightarrow> get_upper_ami_str intl n = Inr (upper intl n)"
  using get_ami_str_plain [of n] by (simp add: upper_def get_upper_ami_str_def Let_def)

lemma name_hash_upper:
  "plain_name n \<Longrightarrow> plain_name m \<Longrightarrow> upper intl n = upper intl m \<Longrightarrow> name_hash intl n hs = name_hash intl m hs"
  by (simp add: name_hash_def upper_plain)

lemma dir_map_Some:
  assumes "names_ok intl C"
  shows "dir_map intl C u = Some n \<longleftrightarrow> (\<exists>e \<in> set (concat C). upper intl (e_name e) = u \<and> e_num e = n)"
proof -
  have "distinct (map fst (map (\<lambda>e. (upper intl (e_name e), e_num e)) (concat C)))" using assms by (simp add: names_ok_def o_def)
  from map_of_eq_Some_iff [OF this] show ?thesis by (auto simp: dir_map_def)
qed

lemma dir_map_None: "dir_map intl C u = None \<longleftrightarrow> (\<forall>e \<in> set (concat C). upper intl (e_name e) \<noteq> u)"
  by (force simp: dir_map_def map_of_eq_None_iff)

lemma Union_nth: "x \<in> \<Union> (set (map set C)) \<longleftrightarrow> (\<exists>h < length C. x \<in> set (C ! h))"
  unfolding set_map set_conv_nth [of C] by auto

lemma concat_nth: "e \<in> set (concat C) \<longleftrightarrow> (\<exists>h < length C. e \<in> set (C ! h))"
  using Union_nth [of e C] by simp

text \<open>What is in memory about a node.\<close>

lemma node_is_name:
  assumes "node_is s i j e"
  shows "fs_node_name s (vo_nodes s ! j) = Some (e_name e)" "node_num s (vo_nodes s ! j) = e_num e"
    "is_dir_node (vo_nodes s ! j) = (case e of DirB _ \<Rightarrow> True | FileB _ \<Rightarrow> False)"
  using assms by (auto simp: node_is_def same_entry_def fs_node_name_def node_num_def e_name_def e_entry_def e_num_def is_dir_node_def name_get_def
      split: fs_body.splits)

lemma node_upper_is:
  "node_is s i j e \<Longrightarrow> plain_name (e_name e) \<Longrightarrow> node_upper s (vo_nodes s ! j) = Inr (upper (vf_intl (vo_flags s)) (e_name e))"
  using upper_plain by (simp add: node_upper_def node_is_name)

lemma find_upper_ok:
  "\<forall>j \<in> set js. node_upper s (vo_nodes s ! j) = Inr (U j) \<Longrightarrow> find_upper s up js = Inr (List.find (\<lambda>j. U j = up) js)"
  by (induction js) auto

lemma find_upper_nodes:
  assumes "\<forall>j \<in> set js. \<exists>e \<in> E. node_is s i j e" "\<forall>e \<in> E. plain_name (e_name e)"
  shows "\<exists>r. find_upper s up js = Inr r \<and> (r = None \<longrightarrow> (\<forall>j \<in> set js. \<forall>e. node_is s i j e \<longrightarrow> upper (vf_intl (vo_flags s)) (e_name e) \<noteq> up)) \<and>
    (\<forall>j. r = Some j \<longrightarrow> j \<in> set js \<and> (\<exists>e \<in> E. node_is s i j e \<and> upper (vf_intl (vo_flags s)) (e_name e) = up))"
proof -
  define U where "U j = (case node_upper s (vo_nodes s ! j) of Inl _ \<Rightarrow> [] | Inr u \<Rightarrow> u)" for j
  have u: "U j = upper (vf_intl (vo_flags s)) (e_name e) \<and> node_upper s (vo_nodes s ! j) = Inr (U j)" if "node_is s i j e" "e \<in> E" for j e
    using node_upper_is [OF that(1)] assms(2) that(2) by (simp add: U_def)
  have n: "e_name e = e_name e'" if "node_is s i j e" "node_is s i j e'" for j e e'
    using node_is_name(1) [OF that(1)] node_is_name(1) [OF that(2)] by simp
  have "\<forall>j \<in> set js. node_upper s (vo_nodes s ! j) = Inr (U j)" using assms(1) u by blast
  from find_upper_ok [OF this] have f: "find_upper s up js = Inr (List.find (\<lambda>j. U j = up) js)" .
  show ?thesis
  proof (cases "List.find (\<lambda>j. U j = up) js")
    case None
    then have ne: "\<forall>j \<in> set js. U j \<noteq> up" by (simp add: find_None_iff)
    have "upper (vf_intl (vo_flags s)) (e_name e) \<noteq> up" if "j \<in> set js" "node_is s i j e" for j e
    proof -
      from assms(1) that(1) obtain e' where e: "e' \<in> E" "node_is s i j e'" by blast
      then have "U j = upper (vf_intl (vo_flags s)) (e_name e')" using u [OF e(2,1)] by simp
      moreover have "U j \<noteq> up" using ne that(1) by blast
      ultimately show ?thesis using n [OF that(2) e(2)] by simp
    qed
    then show ?thesis using f None by (intro exI [of _ None]) simp
  next
    case (Some j)
    then have "j \<in> set js" "U j = up" by (auto simp: find_Some_iff)
    moreover from this(1) assms(1) obtain e where "e \<in> E" "node_is s i j e" by blast
    moreover from this have "U j = upper (vf_intl (vo_flags s)) (e_name e)" using u by blast
    ultimately show ?thesis using f Some by (intro exI [of _ "Some j"]) auto
  qed
qed

lemma loaded_nodes:
  assumes "loaded s i C"
  obtains a nh es where "dir_at s i a" "ad_name_hash a = Some nh" "ad_entries a = Some es" "ad_hash_size a = int (length C)" "length nh = length C"
    "\<And>h. h < length C \<Longrightarrow> list_all2 (node_is s i) (nh ! h) (C ! h)" "distinct es" "set es = \<Union> (set (map set nh))"
    "\<And>j. j \<in> set es \<Longrightarrow> \<exists>e \<in> set (concat C). node_is s i j e" "\<And>e. e \<in> set (concat C) \<Longrightarrow> \<exists>j \<in> set es. node_is s i j e"
proof -
  from assms obtain a nh es where a: "dir_at s i a" "ad_name_hash a = Some nh" "ad_entries a = Some es" "ad_hash_size a = int (length C)" "length nh = length C"
    "\<forall>h < length C. list_all2 (node_is s i) (nh ! h) (C ! h)" "distinct es" "set es = \<Union> (set (map set nh))" unfolding loaded_def by blast
  have "\<exists>e \<in> set (concat C). node_is s i j e" if "j \<in> set es" for j
  proof -
    from that a(5,8) obtain h where h: "h < length C" "j \<in> set (nh ! h)" using Union_nth [of j nh] by auto
    have l: "list_all2 (node_is s i) (nh ! h) (C ! h)" using a(6) h(1) by blast
    from h(2) obtain p where p: "p < length (nh ! h)" "nh ! h ! p = j" by (auto simp: in_set_conv_nth)
    then have "node_is s i j (C ! h ! p)" "C ! h ! p \<in> set (C ! h)" using list_all2_nthD [OF l p(1)] list_all2_lengthD [OF l] by auto
    with h(1) show ?thesis using concat_nth [of "C ! h ! p" C] by blast
  qed
  moreover have "\<exists>j \<in> set es. node_is s i j e" if "e \<in> set (concat C)" for e
  proof -
    from that obtain h where h: "h < length C" "e \<in> set (C ! h)" unfolding concat_nth by blast
    have l: "list_all2 (node_is s i) (nh ! h) (C ! h)" using a(6) h(1) by blast
    from h(2) obtain p where p: "p < length (C ! h)" "C ! h ! p = e" by (auto simp: in_set_conv_nth)
    then have "node_is s i (nh ! h ! p) e" "nh ! h ! p \<in> set (nh ! h)" using list_all2_nthD2 [OF l p(1)] list_all2_lengthD [OF l] by auto
    moreover from this(2) have "nh ! h ! p \<in> set es" using h(1) a(5,8) Union_nth [of "nh ! h ! p" nh] by auto
    ultimately show ?thesis by blast
  qed
  ultimately show thesis using that [OF a(1-5) _ a(7,8)] a(6) by blast
qed

end
