(* ===== verification/Dir_Update.thy ===== *)
theory Dir_Update
  imports Dir_Map "HOL-Library.Multiset"
begin

text \<open>
  Creating files in a directory. \<open>dir_ok\<close> says that a directory object, the table of its block and the chains on
  disk agree, and that its blocks are in use and belong to one entry only. Creating a file keeps it and adds the
  entry to the map of the directory; the errors change nothing on disk.
\<close>

subsection \<open>Chains as a multiset of entries\<close>

lemma mset_concat_update: "h < length C \<Longrightarrow> mset (concat (C[h := e # C ! h])) = add_mset e (mset (concat C))"
proof (induction C arbitrary: h)
  case (Cons c C)
  then show ?case by (cases h) simp_all
qed simp

lemma mset_concat_map: "mset (concat (map f xs)) = sum_mset (image_mset (\<lambda>x. mset (f x)) (mset xs))"
  by (induction xs) simp_all

lemma mset_concat_cong: "mset xs = mset ys \<Longrightarrow> mset (concat (map f xs)) = mset (concat (map f ys))"
  by (simp add: mset_concat_map)

definition e_nums :: "fs_body \<Rightarrow> int list" where
  "e_nums e = (case e of FileB f \<Rightarrow> file_block_nums f | DirB a \<Rightarrow> [ad_num a])"

lemma e_blocks_nums: "e_blocks e = set (e_nums e)"
  by (simp add: e_blocks_def e_nums_def split: fs_body.split)

text \<open>All blocks of the entries of a directory.\<close>

definition dir_blocks :: "fs_body list list \<Rightarrow> int list" where
  "dir_blocks C = concat (map e_nums (concat C))"

definition add_chain :: "nat \<Rightarrow> fs_body \<Rightarrow> fs_body list list \<Rightarrow> fs_body list list" where
  "add_chain h e C = C[h := e # C ! h]"

lemma length_add_chain [simp]: "length (add_chain h e C) = length C"
  by (simp add: add_chain_def)

lemma nth_add_chain: "h < length C \<Longrightarrow> add_chain h e C ! k = (if k = h then e # C ! h else C ! k)"
  by (simp add: add_chain_def nth_list_update)

lemma mset_add_chain: "h < length C \<Longrightarrow> mset (concat (add_chain h e C)) = mset (e # concat C)"
  using mset_concat_update [of h C e] by (simp add: add_chain_def)

lemma set_add_chain: "h < length C \<Longrightarrow> set (concat (add_chain h e C)) = insert e (set (concat C))"
  using mset_add_chain [THEN mset_eq_setD, of h C e] by (simp only: list.simps)

lemma dir_blocks_add: "h < length C \<Longrightarrow> mset (dir_blocks (add_chain h e C)) = mset (e_nums e @ dir_blocks C)"
  using mset_concat_cong [OF mset_add_chain, of h C e_nums e] by (simp add: dir_blocks_def)

lemma names_ok_add:
  assumes "names_ok intl C" "plain_name (e_name e)" "name_hash intl (e_name e) (int (length C)) = Inr (int h)" "h < length C"
    "dir_map intl C (upper intl (e_name e)) = None"
  shows "names_ok intl (add_chain h e C)"
proof -
  have "mset (map (upper intl \<circ> e_name) (concat (add_chain h e C))) = mset (map (upper intl \<circ> e_name) (e # concat C))"
    using mset_add_chain [OF assms(4), of e] by (simp only: mset_map)
  moreover have "distinct (map (upper intl \<circ> e_name) (e # concat C))"
    using assms(1) assms(5) [unfolded dir_map_None] by (fastforce simp: names_ok_def simp del: set_concat)
  ultimately have "distinct (map (upper intl \<circ> e_name) (concat (add_chain h e C)))" using mset_eq_imp_distinct_iff by blast
  then show ?thesis using assms(1-4) by (auto simp: names_ok_def nth_add_chain split: if_splits)
qed

lemma dir_map_add:
  assumes "names_ok intl C" "plain_name (e_name e)" "name_hash intl (e_name e) (int (length C)) = Inr (int h)" "h < length C"
    "dir_map intl C (upper intl (e_name e)) = None"
  shows "dir_map intl (add_chain h e C) = (dir_map intl C)(upper intl (e_name e) \<mapsto> e_num e)"
proof
  fix u
  note n = names_ok_add [OF assms]
  show "dir_map intl (add_chain h e C) u = ((dir_map intl C)(upper intl (e_name e) \<mapsto> e_num e)) u"
  proof (cases "u = upper intl (e_name e)")
    case True
    have "e \<in> set (concat (add_chain h e C))" by (simp only: set_add_chain [OF assms(4)] insert_iff simp_thms)
    then show ?thesis using dir_map_Some [OF n, of u "e_num e"] True by auto
  next
    case False
    show ?thesis
    proof (cases "dir_map intl C u")
      case None
      then have "dir_map intl (add_chain h e C) u = None" using False set_add_chain [OF assms(4), of e]
        unfolding dir_map_None by auto
      then show ?thesis using None False by simp
    next
      case (Some m)
      then have "dir_map intl (add_chain h e C) u = Some m" using set_add_chain [OF assms(4), of e]
        unfolding dir_map_Some [OF n] dir_map_Some [OF assms(1)] by auto
      then show ?thesis using Some False by simp
    qed
  qed
qed

subsection \<open>A directory that is well kept\<close>

definition dir_num :: "'d volume \<Rightarrow> adfs_dir \<Rightarrow> int" where
  "dir_num s a = (case ad_block a of RootBlk \<Rightarrow> bm_root_num (vo_bitmap s) | _ \<Rightarrow> ad_num a)"

definition hdr_ok :: "'d volume \<Rightarrow> adfs_dir \<Rightarrow> bool" where
  "hdr_ok s a \<longleftrightarrow> (case ad_block a of NoBlock \<Rightarrow> False | RootBlk \<Rightarrow> True
     | UserDirBlk u \<Rightarrow> user_dir_ok (vbl s) u \<and> ud_own_key u = ad_num a \<and> en_name (ud_entry u) \<noteq> None \<and>
         ad_num a \<noteq> bm_root_num (vo_bitmap s) \<and> 1 \<le> ad_num a \<and> ad_num a < bg_num_blocks (vgeo s))"

definition vol_ok :: "'d volume \<Rightarrow> bool" where
  "vol_ok s \<longleftrightarrow> file_geo_ok (vgeo s) \<and> 1 \<le> bg_reserved (vgeo s) \<and> bm_wf (vo_bitmap s) \<and>
     \<not> vf_dircache (vo_flags s) \<and> \<not> vf_longname (vo_flags s) \<and> root_ok (vbl s) (bm_root (vo_bitmap s)) \<and>
     1 \<le> bm_root_num (vo_bitmap s) \<and> bm_root_num (vo_bitmap s) < bg_num_blocks (vgeo s) \<and>
     bm_root_num (vo_bitmap s) \<notin> free_set (vo_bitmap s) \<and> (\<forall>k. ts_ok (Some (vo_clock s k)))"

definition dir_ok :: "disk \<Rightarrow> 'd volume \<Rightarrow> nat \<Rightarrow> fs_body list list \<Rightarrow> bool" where
  "dir_ok dk s i C \<longleftrightarrow> vol_ok s \<and> (\<exists>a t. dir_at s i a \<and> hdr_ok s a \<and> table_of s a = Inr t \<and> hash_size_of s a = Inr (int (length t)) \<and>
     dir_on dk (vo_flags s) (vgeo s) t C \<and> names_ok (vf_intl (vo_flags s)) C \<and>
     (loaded s i C \<or> ad_entries a = None \<or> ad_entries a = Some []) \<and>
     distinct (dir_blocks C) \<and> set (dir_blocks C) \<subseteq> {1..<bg_num_blocks (vgeo s)} \<and>
     {dir_num s a, bm_root_num (vo_bitmap s)} \<inter> set (dir_blocks C) = {} \<and>
     (insert (dir_num s a) (set (dir_blocks C))) \<inter> free_set (vo_bitmap s) = {})"

text \<open>The table of a directory as it is on disk.\<close>

definition table_on :: "disk \<Rightarrow> 'd volume \<Rightarrow> adfs_dir \<Rightarrow> bool" where
  "table_on dk s a \<longleftrightarrow> (\<exists>x. on_disk dk (vgeo s) (dir_num s a) x \<and> (case ad_block a of
       NoBlock \<Rightarrow> False
     | RootBlk \<Rightarrow> (\<exists>r. root_read (vbl s) x = Inr (Some r) \<and> Inr (rb_hash_table r) = table_of s a)
     | UserDirBlk _ \<Rightarrow> (\<exists>u. user_dir_read (vbl s) False (ad_num a) x = Inr (Some (u, True)) \<and> Inr (ud_hash_table u) = table_of s a)))"

subsection \<open>Changing and writing the header block\<close>

definition hdr_at :: "'d volume \<Rightarrow> nat \<Rightarrow> int list \<Rightarrow> bool" where
  "hdr_at s i t \<longleftrightarrow> vol_ok s \<and> (\<exists>a. dir_at s i a \<and> hdr_ok s a \<and> table_of s a = Inr t \<and> hash_size_of s a = Inr (int (length t)))"

text \<open>The root block of the bitmap may change, but not what belongs to the bitmap or the volume.\<close>

definition root_change :: "adfs_bitmap \<Rightarrow> adfs_bitmap \<Rightarrow> bool" where
  "root_change b b' \<longleftrightarrow> b' = b\<lparr>bm_root := bm_root b'\<rparr> \<and> rb_bitmap_ptrs (bm_root b') = rb_bitmap_ptrs (bm_root b) \<and>
     rb_bitmap_ext_blk (bm_root b') = rb_bitmap_ext_blk (bm_root b) \<and> rb_name (bm_root b') = rb_name (bm_root b) \<and>
     rb_fstype (bm_root b') = rb_fstype (bm_root b)"

lemma root_change_refl [simp]: "root_change b b"
  by (simp add: root_change_def)

lemma root_change_fields:
  assumes "root_change b b'"
  shows "bm_geo b' = bm_geo b" "bm_root_num b' = bm_root_num b" "bm_ext_blks b' = bm_ext_blks b" "bm_blks b' = bm_blks b" "bm_data b' = bm_data b"
    "bm_find_off b' = bm_find_off b" "bm_dirty b' = bm_dirty b" "bm_num_used b' = bm_num_used b" "bm_valid b' = bm_valid b" "free_set b' = free_set b"
proof -
  from assms obtain r where "b' = b\<lparr>bm_root := r\<rparr>" unfolding root_change_def by metis
  then show "bm_geo b' = bm_geo b" "bm_root_num b' = bm_root_num b" "bm_ext_blks b' = bm_ext_blks b" "bm_blks b' = bm_blks b" "bm_data b' = bm_data b"
    "bm_find_off b' = bm_find_off b" "bm_dirty b' = bm_dirty b" "bm_num_used b' = bm_num_used b" "bm_valid b' = bm_valid b" "free_set b' = free_set b"
    by (simp_all add: free_set_def)
qed

lemma root_change_eq: "b' = b\<lparr>bm_root := r\<rparr> \<Longrightarrow> rb_bitmap_ptrs r = rb_bitmap_ptrs (bm_root b) \<Longrightarrow> rb_bitmap_ext_blk r = rb_bitmap_ext_blk (bm_root b) \<Longrightarrow>
    rb_name r = rb_name (bm_root b) \<Longrightarrow> rb_fstype r = rb_fstype (bm_root b) \<Longrightarrow> root_change b b'"
  by (simp add: root_change_def)

lemma root_change_trans: "root_change a b \<Longrightarrow> root_change b c \<Longrightarrow> root_change a c"
proof -
  assume 1: "root_change a b" and 2: "root_change b c"
  from 1 obtain r where b: "b = a\<lparr>bm_root := r\<rparr>" unfolding root_change_def by metis
  from 2 obtain r' where "c = b\<lparr>bm_root := r'\<rparr>" unfolding root_change_def by metis
  then have "c = a\<lparr>bm_root := r'\<rparr>" by (simp add: b)
  then show ?thesis using 1 2 by (simp add: root_change_def)
qed

text \<open>Only the header block of the directory, the root block, the device and the clock may differ.\<close>

definition hdr_frame :: "nat \<Rightarrow> 'd volume \<Rightarrow> 'd volume \<Rightarrow> bool" where
  "hdr_frame i s s' \<longleftrightarrow> vo_flags s' = vo_flags s \<and> root_change (vo_bitmap s) (vo_bitmap s') \<and> vo_root_valid s' = vo_root_valid s \<and>
     length (vo_nodes s') = length (vo_nodes s) \<and>
     (\<forall>k < length (vo_nodes s). nd_parent (vo_nodes s' ! k) = nd_parent (vo_nodes s ! k) \<and> (k \<noteq> i \<longrightarrow> vo_nodes s' ! k = vo_nodes s ! k)) \<and>
     (\<forall>a. dir_at s i a \<longrightarrow> (\<exists>a'. dir_at s' i a' \<and> ad_entries a' = ad_entries a \<and> ad_name_hash a' = ad_name_hash a \<and>
        ad_hash_size a' = ad_hash_size a \<and> dir_num s' a' = dir_num s a))"

lemma hdr_frame_geo: "hdr_frame i s s' \<Longrightarrow> vgeo s' = vgeo s" "hdr_frame i s s' \<Longrightarrow> bm_root_num (vo_bitmap s') = bm_root_num (vo_bitmap s)"
  using root_change_fields [of "vo_bitmap s" "vo_bitmap s'"] by (simp_all add: hdr_frame_def)

lemma hdr_frame_refl: "hdr_frame i s s"
  by (auto simp: hdr_frame_def)

lemma hdr_frame_trans:
  assumes "hdr_frame i r s" "hdr_frame i s t"
  shows "hdr_frame i r t"
proof -
  have "root_change (vo_bitmap r) (vo_bitmap t)" using assms root_change_trans unfolding hdr_frame_def by blast
  moreover have "\<exists>a'. dir_at t i a' \<and> ad_entries a' = ad_entries a \<and> ad_name_hash a' = ad_name_hash a \<and>
      ad_hash_size a' = ad_hash_size a \<and> dir_num t a' = dir_num r a" if "dir_at r i a" for a
  proof -
    from assms(1) that obtain b where b: "dir_at s i b" "ad_entries b = ad_entries a" "ad_name_hash b = ad_name_hash a"
      "ad_hash_size b = ad_hash_size a" "dir_num s b = dir_num r a" unfolding hdr_frame_def by blast
    from assms(2) b(1) obtain c where "dir_at t i c" "ad_entries c = ad_entries b" "ad_name_hash c = ad_name_hash b"
      "ad_hash_size c = ad_hash_size b" "dir_num t c = dir_num s b" unfolding hdr_frame_def by blast
    with b show ?thesis by (intro exI [of _ c]) simp
  qed
  ultimately show ?thesis using assms by (simp add: hdr_frame_def)
qed

lemma hdr_frame_loaded: "hdr_frame i s s' \<Longrightarrow> loaded s i C \<Longrightarrow> loaded s' i C"
proof -
  assume f: "hdr_frame i s s'" and "loaded s i C"
  then obtain a nh es where a: "dir_at s i a" "ad_name_hash a = Some nh" "ad_entries a = Some es" "ad_hash_size a = int (length C)" "length nh = length C"
    "\<forall>h < length C. list_all2 (node_is s i) (nh ! h) (C ! h)" "distinct es" "set es = \<Union> (set (map set nh))" unfolding loaded_def by blast
  from f a(1) obtain a' where a': "dir_at s' i a'" "ad_entries a' = ad_entries a" "ad_name_hash a' = ad_name_hash a" "ad_hash_size a' = ad_hash_size a"
    unfolding hdr_frame_def by blast
  have g: "vbl s' = vbl s" using hdr_frame_geo(1) [OF f] by simp
  have "node_is s' i j e" if "node_is s i j e" for j e using that f g by (auto simp: node_is_def hdr_frame_def)
  then have "\<forall>h < length C. list_all2 (node_is s' i) (nh ! h) (C ! h)" using a(6) list_all2_mono [of "node_is s i" _ _ "node_is s' i"] by blast
  then show "loaded s' i C" unfolding loaded_def using a a' by (intro exI [of _ a'] exI [of _ nh] exI [of _ es]) simp
qed

lemma table_length: "hdr_at s i t \<Longrightarrow> int (length t) = vbl s - 56 \<and> longs_ok t"
proof -
  assume "hdr_at s i t"
  then obtain a where a: "root_ok (vbl s) (bm_root (vo_bitmap s))" "hdr_ok s a" "table_of s a = Inr t" by (auto simp: hdr_at_def vol_ok_def)
  then show ?thesis by (cases "ad_block a") (auto simp: hdr_ok_def table_of_def root_ok_def user_dir_ok_def)
qed

lemma longs_ok_update: "longs_ok t \<Longrightarrow> u32_ok v \<Longrightarrow> longs_ok (t[h := v])"
  by (auto simp: longs_ok_def dest!: set_update_subset_insert [THEN subsetD])

lemma set_slot_ok:
  assumes "hdr_at s i t" "0 \<le> h" "h < int (length t)" "u32_ok v"
  shows "\<exists>s'. set_hash_slot i h v s = Some (s', Inr ()) \<and> hdr_frame i s s' \<and> hdr_at s' i (t[nat h := v]) \<and> vo_dev s' = vo_dev s"
proof -
  from assms(1) obtain a where a: "vol_ok s" "dir_at s i a" "hdr_ok s a" "table_of s a = Inr t" "hash_size_of s a = Inr (int (length t))"
    unfolding hdr_at_def by blast
  note i = dir_at_len [OF a(2)]
  note lo = longs_ok_update [OF conjunct2 [OF table_length [OF assms(1)]] assms(4), of "nat h"]
  have st: "rbind (table_of s a) (\<lambda>t. py_set t h v) = Inr (t[nat h := v])" using assms(2,3) a(4) by (simp add: py_set_def)
  show ?thesis
  proof (cases "ad_block a")
    case NoBlock
    with a(3) show ?thesis by (simp add: hdr_ok_def)
  next
    case RootBlk
    let ?s = "mod_root (rb_hash_table_update (\<lambda>_. t[nat h := v])) s"
    have r: "rb_hash_table (bm_root (vo_bitmap s)) = t" using a(4) RootBlk by (simp add: table_of_def)
    have "set_hash_slot i h v s = Some (?s, Inr ())"
      using a(2) st RootBlk by (simp add: set_hash_slot_def mod_dir_block_def)
    moreover have "hdr_frame i s ?s"
      using RootBlk by (auto simp: hdr_frame_def mod_root_def dir_at_def dir_num_def intro!: root_change_eq split: dir_block.split)
    moreover have "hdr_at ?s i (t[nat h := v])"
      using a lo r RootBlk unfolding hdr_at_def by (intro conjI exI [of _ a])
        (simp_all add: mod_root_def vol_ok_def root_ok_def bm_wf_def free_set_def dir_at_def hdr_ok_def table_of_def hash_size_of_def)
    ultimately show ?thesis by (intro exI [of _ ?s]) (simp add: mod_root_def)
  next
    case (UserDirBlk u)
    let ?a = "a\<lparr>ad_block := UserDirBlk (u\<lparr>ud_hash_table := t[nat h := v]\<rparr>)\<rparr>"
    let ?s = "set_body i (DirB ?a) s"
    have "set_hash_slot i h v s = Some (?s, Inr ())"
      using a(2) st UserDirBlk by (simp add: set_hash_slot_def mod_dir_block_def)
    moreover have "hdr_frame i s ?s"
      using i UserDirBlk a(2) by (auto simp: hdr_frame_def set_body_def dir_at_def dir_num_def nth_list_update)
    moreover have "hdr_at ?s i (t[nat h := v])"
      using a lo i UserDirBlk unfolding hdr_at_def by (intro conjI exI [of _ ?a])
        (auto simp: vol_ok_def user_dir_ok_def hdr_ok_def table_of_def hash_size_of_def)
    ultimately show ?thesis by (intro exI [of _ ?s]) simp
  qed
qed

context block_device
begin

lemma dev_write_ok:
  assumes "vol_dev_ok s" "0 \<le> n" "n < bg_num_blocks (vgeo s)" "int (length x) = bg_block_bytes (vgeo s)"
  shows "\<exists>d'. dev_write wr_blk n (Inr x) s = Some (s\<lparr>vo_dev := d'\<rparr>, Inr ()) \<and> vol_dev_ok (s\<lparr>vo_dev := d'\<rparr>) \<and>
    on_disk (disk_of d') (vgeo s) n x \<and> (\<forall>c. 0 \<le> c \<and> c < bg_num_blocks (vgeo s) \<and> c \<noteq> n \<longrightarrow> disk_of d' c = vdisk s c)"
proof -
  have w: "wf (vo_dev s)" "num (vo_dev s) = bg_num_blocks (vgeo s)" "bytes (vo_dev s) = bg_block_bytes (vgeo s)"
    using assms(1) by (simp_all add: vol_dev_ok_def)
  from write_ok [OF w(1) assms(2)] assms(3,4) w obtain d' where "wr_blk (vo_dev s) n x = Inr d'" "wf d'" "num d' = num (vo_dev s)" "bytes d' = bytes (vo_dev s)"
    "\<forall>c. 0 \<le> c \<and> c < num (vo_dev s) \<longrightarrow> disk_of d' c = (if c = n then Inr x else vdisk s c)" by metis
  with assms w show ?thesis by (intro exI [of _ d']) (auto simp: dev_write_def vol_dev_ok_def on_disk_def)
qed

lemma hdr_write_ok:
  assumes "hdr_at s i t" "vol_dev_ok s" "dir_at s i a"
  shows "\<exists>d'. node_block_write wr_blk i s = Some (s\<lparr>vo_dev := d'\<rparr>, Inr ()) \<and> vol_dev_ok (s\<lparr>vo_dev := d'\<rparr>) \<and> table_on (disk_of d') s a \<and>
    (\<forall>c. 0 \<le> c \<and> c < bg_num_blocks (vgeo s) \<and> c \<noteq> dir_num s a \<longrightarrow> disk_of d' c = vdisk s c)"
proof -
  from assms(1,3) have a: "vol_ok s" "hdr_ok s a" "table_of s a = Inr t" by (auto simp: hdr_at_def dir_at_def)
  then have G: "bg_block_bytes (vgeo s) = 4 * vbl s" "\<not> vf_longname (vo_flags s)" "root_ok (vbl s) (bm_root (vo_bitmap s))"
    "1 \<le> bm_root_num (vo_bitmap s)" "bm_root_num (vo_bitmap s) < bg_num_blocks (vgeo s)" by (auto simp: vol_ok_def file_geo_ok_def)
  have b: "nd_body (vo_nodes s ! i) = DirB a" using assms(3) by (simp add: dir_at_def)
  show ?thesis
  proof (cases "ad_block a")
    case NoBlock
    with a(2) show ?thesis by (simp add: hdr_ok_def)
  next
    case RootBlk
    from root_roundtrip [OF G(3)] obtain x where x: "root_write (vbl s) (bm_root (vo_bitmap s)) = Inr x" "int (length x) = 4 * vbl s"
      "root_read (vbl s) x = Inr (Some (root_norm (bm_root (vo_bitmap s))))" by blast
    with dev_write_ok [OF assms(2), of "bm_root_num (vo_bitmap s)" x] G(1,4,5) obtain d' where
      d': "dev_write wr_blk (bm_root_num (vo_bitmap s)) (Inr x) s = Some (s\<lparr>vo_dev := d'\<rparr>, Inr ())" "vol_dev_ok (s\<lparr>vo_dev := d'\<rparr>)"
      "on_disk (disk_of d') (vgeo s) (bm_root_num (vo_bitmap s)) x"
      "\<forall>c. 0 \<le> c \<and> c < bg_num_blocks (vgeo s) \<and> c \<noteq> bm_root_num (vo_bitmap s) \<longrightarrow> disk_of d' c = vdisk s c" by auto
    have "table_on (disk_of d') s a" using d'(3) x(3) RootBlk
      by (auto simp: table_on_def table_of_def dir_num_def root_norm_def intro!: exI [of _ x])
    with d' x(1) RootBlk b show ?thesis
      by (intro exI [of _ d']) (simp add: node_block_write_def Let_def node_num_def dir_num_def)
  next
    case (UserDirBlk u)
    with a(2) have u: "user_dir_ok (vbl s) u" "ud_own_key u = ad_num a" "1 \<le> ad_num a" "ad_num a < bg_num_blocks (vgeo s)"
      by (auto simp: hdr_ok_def)
    from user_dir_roundtrip [OF u(1), of "ad_num a"] obtain x where x: "user_dir_write (vbl s) False u = Inr x" "int (length x) = 4 * vbl s"
      "user_dir_read (vbl s) False (ad_num a) x = Inr (Some (u\<lparr>ud_entry := entry_norm (ud_entry u)\<rparr>, True))" using u(2) by auto
    with dev_write_ok [OF assms(2), of "ad_num a" x] G(1) u(3,4) obtain d' where
      d': "dev_write wr_blk (ad_num a) (Inr x) s = Some (s\<lparr>vo_dev := d'\<rparr>, Inr ())" "vol_dev_ok (s\<lparr>vo_dev := d'\<rparr>)"
      "on_disk (disk_of d') (vgeo s) (ad_num a) x"
      "\<forall>c. 0 \<le> c \<and> c < bg_num_blocks (vgeo s) \<and> c \<noteq> ad_num a \<longrightarrow> disk_of d' c = vdisk s c" by auto
    have "table_on (disk_of d') s a" using d'(3) x(3) UserDirBlk
      by (auto simp: table_on_def table_of_def dir_num_def intro!: exI [of _ x])
    with d' x(1) G(2) UserDirBlk b show ?thesis
      by (intro exI [of _ d']) (simp add: node_block_write_def Let_def node_num_def dir_num_def)
  qed
qed

end

subsection \<open>The times of a directory and of the disk\<close>

definition tick :: "'d volume \<Rightarrow> 'd volume" where
  "tick s = s\<lparr>vo_clock := \<lambda>n. vo_clock s (Suc n)\<rparr>"

definition touch :: "nat \<Rightarrow> time_stamp \<Rightarrow> adfs_dir \<Rightarrow> 'd volume \<Rightarrow> 'd volume" where
  "touch i ts a s = (if ad_block a = RootBlk then mod_root (rb_mod_ts_update (\<lambda>_. Some ts)) else id) (mod_body i (upd_mod_ts ts) s)"

lemma tick_ok: "hdr_frame i s (tick s)" "hdr_at s i t \<Longrightarrow> hdr_at (tick s) i t"
proof -
  show "hdr_frame i s (tick s)" using hdr_frame_refl [of i s] by (simp add: hdr_frame_def tick_def dir_at_def dir_num_def cong: dir_block.case_cong)
  show "hdr_at s i t \<Longrightarrow> hdr_at (tick s) i t"
    by (auto simp: hdr_at_def tick_def vol_ok_def dir_at_def hdr_ok_def table_of_def hash_size_of_def cong: dir_block.case_cong)
qed

lemma touch_ok:
  assumes "hdr_at s i t" "dir_at s i a" "ts_ok (Some ts)"
  shows "hdr_frame i s (touch i ts a s)" "hdr_at (touch i ts a s) i t" "vo_dev (touch i ts a s) = vo_dev s"
proof -
  note i = dir_at_len [OF assms(2)]
  have b: "nd_body (vo_nodes s ! i) = DirB a" using assms(2) by (simp add: dir_at_def)
  from assms(1,2) have a: "vol_ok s" "hdr_ok s a" "table_of s a = Inr t" "hash_size_of s a = Inr (int (length t))" by (auto simp: hdr_at_def dir_at_def)
  let ?a = "a\<lparr>ad_block := (case ad_block a of UserDirBlk u \<Rightarrow> UserDirBlk (ud_entry_update (en_mod_ts_update (\<lambda>_. Some ts)) u) | x \<Rightarrow> x),
                        ad_meta := map_option (mi_mod_ts_update (\<lambda>_. Some ts)) (ad_meta a)\<rparr>"
  have eq: "touch i ts a s = (if ad_block a = RootBlk then mod_root (rb_mod_ts_update (\<lambda>_. Some ts)) else id) (set_body i (DirB ?a) s)"
    using b by (simp add: touch_def mod_body_def upd_mod_ts_def)
  have at: "dir_at (touch i ts a s) i ?a" using i by (simp add: eq mod_root_def dir_at_def set_body_def)
  show "vo_dev (touch i ts a s) = vo_dev s" by (simp add: eq mod_root_def)
  show "hdr_frame i s (touch i ts a s)"
  proof -
    have "root_change (vo_bitmap s) (vo_bitmap (touch i ts a s))" by (simp add: eq mod_root_def root_change_def)
    then show ?thesis using at i b unfolding hdr_frame_def eq
      by (auto simp: mod_root_def set_body_def nth_list_update dir_at_def dir_num_def split: dir_block.splits)
  qed
  show "hdr_at (touch i ts a s) i t"
  proof (cases "ad_block a")
    case NoBlock
    with a(2) show ?thesis by (simp add: hdr_ok_def)
  next
    case RootBlk
    with a at assms(3) show ?thesis unfolding hdr_at_def eq
      by (intro conjI exI [of _ ?a]) (simp_all add: mod_root_def vol_ok_def root_ok_def bm_wf_def free_set_def hdr_ok_def table_of_def hash_size_of_def)
  next
    case (UserDirBlk u)
    with a at assms(3) show ?thesis unfolding hdr_at_def eq
      by (intro conjI exI [of _ ?a]) (auto simp: vol_ok_def hdr_ok_def user_dir_ok_def entry_ok_def table_of_def hash_size_of_def)
  qed
qed

text \<open>What the two updates leave alone: everything but the header block of the directory and the root block.\<close>

definition disk_frame :: "int set \<Rightarrow> blk_geo \<Rightarrow> disk \<Rightarrow> disk \<Rightarrow> bool" where
  "disk_frame N g dk dk' \<longleftrightarrow> (\<forall>c. 0 \<le> c \<and> c < bg_num_blocks g \<and> c \<notin> N \<longrightarrow> dk' c = dk c)"

lemma disk_frame_trans: "disk_frame N g a b \<Longrightarrow> disk_frame M g b c \<Longrightarrow> disk_frame (N \<union> M) g a c"
  by (simp add: disk_frame_def)

lemma disk_frameD: "disk_frame N g a b \<Longrightarrow> n \<in> {1..<bg_num_blocks g} \<Longrightarrow> n \<notin> N \<Longrightarrow> a n = b n"
  by (simp add: disk_frame_def)

lemma disk_frame_mono: "disk_frame N g a b \<Longrightarrow> N \<subseteq> M \<Longrightarrow> disk_frame M g a b"
  by (auto simp: disk_frame_def)

lemma hdr_at_dir: "hdr_at s i t \<Longrightarrow> \<exists>a. dir_at s i a \<and> hdr_ok s a \<and> table_of s a = Inr t"
  by (auto simp: hdr_at_def)

lemma hdr_at_uses: "hdr_at s i t \<Longrightarrow> dir_at s i a \<Longrightarrow> hdr_ok s a \<and> table_of s a = Inr t \<and> vol_ok s"
  by (auto simp: hdr_at_def dir_at_def)

lemma table_on_dev [simp]: "table_on dk (s\<lparr>vo_dev := d\<rparr>) a = table_on dk s a" "dir_num (s\<lparr>vo_dev := d\<rparr>) a = dir_num s a"
  "dir_at (s\<lparr>vo_dev := d\<rparr>) i a = dir_at s i a" "hdr_at (s\<lparr>vo_dev := d\<rparr>) i t = hdr_at s i t" "hdr_frame i s' (s\<lparr>vo_dev := d\<rparr>) = hdr_frame i s' s"
  by (simp_all add: table_on_def dir_num_def table_of_def dir_at_def hdr_at_def vol_ok_def hdr_ok_def hash_size_of_def hdr_frame_def cong: dir_block.case_cong)

context block_device
begin

lemma dir_time_ok:
  assumes "hdr_at s i t" "vol_dev_ok s" "dir_at s i a"
  shows "\<exists>s' a'. update_dir_mod_time wr_blk i s = Some (s', Inr ()) \<and> hdr_frame i s s' \<and> hdr_at s' i t \<and> vol_dev_ok s' \<and>
    dir_at s' i a' \<and> table_on (vdisk s') s' a' \<and> disk_frame {dir_num s a} (vgeo s) (vdisk s) (vdisk s')"
proof -
  let ?t = "vo_clock s 0" let ?s1 = "tick s" let ?s2 = "touch i ?t a ?s1"
  have v: "vol_ok s" using assms(1) by (simp add: hdr_at_def)
  then have ts: "ts_ok (Some ?t)" "\<not> vf_dircache (vo_flags s)" by (simp_all add: vol_ok_def)
  have a1: "dir_at ?s1 i a" using assms(3) by (simp add: dir_at_def tick_def)
  note 1 = tick_ok(1) [of i s] tick_ok(2) [OF assms(1)]
  note 2 = touch_ok [OF 1(2) a1 ts(1)]
  note f = hdr_frame_trans [OF 1(1) 2(1)]
  from f assms(3) obtain a' where a': "dir_at ?s2 i a'" "dir_num ?s2 a' = dir_num s a" unfolding hdr_frame_def by blast
  note g = hdr_frame_geo(1) [OF f]
  have d2: "vol_dev_ok ?s2" using assms(2) 2(3) g by (simp add: vol_dev_ok_def tick_def)
  from hdr_write_ok [OF 2(2) d2 a'(1)] obtain d' where d': "node_block_write wr_blk i ?s2 = Some (?s2\<lparr>vo_dev := d'\<rparr>, Inr ())"
    "vol_dev_ok (?s2\<lparr>vo_dev := d'\<rparr>)" "table_on (disk_of d') ?s2 a'"
    "\<forall>c. 0 \<le> c \<and> c < bg_num_blocks (vgeo ?s2) \<and> c \<noteq> dir_num ?s2 a' \<longrightarrow> disk_of d' c = vdisk ?s2 c" by blast
  have b: "nd_body (vo_nodes ?s1 ! i) = DirB a" using a1 by (simp add: dir_at_def)
  have "update_dir_mod_time wr_blk i s = node_block_write wr_blk i ?s2"
  proof -
    have 0: "vnow s = Some (?s1, Inr ?t)" by (simp add: vnow_def tick_def)
    have p: "(case nd_parent (vo_nodes ?s1 ! i) of None \<Rightarrow> vret None
        | Some p \<Rightarrow> if \<not> vf_dircache (vo_flags ?s1) then vret None else X p) = vret None" for X :: "nat \<Rightarrow> ('d, (nat \<times> nat \<times> cache_rec) option) vprog"
      using ts(2) by (simp add: tick_def split: option.split)
    have m: "vmod (\<lambda>s. (if is_root_body (nd_body (vo_nodes ?s1 ! i)) then mod_root (rb_mod_ts_update (\<lambda>_. Some ?t)) else id) (mod_body i (upd_mod_ts ?t) s)) ?s1
        = Some (?s2, Inr ())" using b by (simp add: touch_def is_root_body_def)
    have "change_meta_info wr_blk i \<lparr>mi_protect = None, mi_mod_ts = Some ?t, mi_comment = None\<rparr> ?s1 = node_block_write wr_blk i ?s2"
      unfolding change_meta_info_def Let_def meta_info.simps option.case p
      using m d'(1) by (simp add: vbind_def)
    then show ?thesis by (simp add: update_dir_mod_time_def vbind_def 0)
  qed
  moreover have "disk_frame {dir_num s a} (vgeo s) (vdisk s) (disk_of d')"
    using d'(4) a'(2) g 2(3) by (simp add: disk_frame_def tick_def)
  ultimately show ?thesis using d' a' f 2(2)
    by (intro exI [of _ "?s2\<lparr>vo_dev := d'\<rparr>"] exI [of _ a']) simp
qed

end

context block_device
begin

lemma disk_time_ok:
  assumes "hdr_at s i t" "vol_dev_ok s" "dir_at s i a" "table_on (vdisk s) s a"
  shows "\<exists>s'. update_disk_time wr_blk s = Some (s', Inr ()) \<and> hdr_frame i s s' \<and> hdr_at s' i t \<and> vol_dev_ok s' \<and>
    dir_at s' i a \<and> table_on (vdisk s') s' a \<and> disk_frame {bm_root_num (vo_bitmap s)} (vgeo s) (vdisk s) (vdisk s')"
proof -
  let ?t = "vo_clock s 0" let ?s1 = "tick s"
  have 0: "vnow s = Some (?s1, Inr ?t)" by (simp add: vnow_def tick_def)
  note 1 = tick_ok(1) [of i s] tick_ok(2) [OF assms(1)]
  from hdr_at_uses [OF assms(1,3)] have a: "hdr_ok s a" "table_of s a = Inr t" "vol_ok s" by auto
  then have ts: "ts_ok (Some ?t)" by (simp add: vol_ok_def)
  show ?thesis
  proof (cases "vo_root_valid s")
    case False
    then have "update_disk_time wr_blk s = Some (?s1, Inr ())" by (simp add: update_disk_time_def vbind_def 0 vol_change_meta_info_def tick_def vret_def)
    moreover have "vol_dev_ok ?s1" "dir_at ?s1 i a" "table_on (vdisk ?s1) ?s1 a" "vdisk ?s1 = vdisk s" using assms
      by (simp_all add: vol_dev_ok_def tick_def dir_at_def table_on_def dir_num_def table_of_def cong: dir_block.case_cong)
    ultimately show ?thesis using 1 by (intro exI [of _ ?s1]) (simp add: disk_frame_def)
  next
    case True
    define r where "r = (bm_root (vo_bitmap s))\<lparr>rb_disk_ts := Some ?t\<rparr>"
    let ?s2 = "mod_root (\<lambda>_. r) ?s1"
    have s2: "vo_bitmap ?s2 = (vo_bitmap s)\<lparr>bm_root := r\<rparr>" "vo_nodes ?s2 = vo_nodes s" "vo_dev ?s2 = vo_dev s" by (simp_all add: mod_root_def tick_def)
    have r: "root_ok (vbl s) r" "rb_hash_table r = rb_hash_table (bm_root (vo_bitmap s))" "rb_hash_size r = rb_hash_size (bm_root (vo_bitmap s))"
      using a(3) ts by (simp_all add: r_def vol_ok_def root_ok_def)
    have f2: "hdr_frame i s ?s2" using 1(1) s2 by (auto simp: r_def root_change_def hdr_frame_def mod_root_def dir_at_def dir_num_def tick_def split: dir_block.splits)
    have h2: "hdr_at ?s2 i t" using 1(2) r assms(1)
      by (auto simp: hdr_at_def vol_ok_def mod_root_def bm_wf_def free_set_def tick_def dir_at_def hdr_ok_def table_of_def hash_size_of_def split: dir_block.splits)
    have d2: "vol_dev_ok ?s2" using assms(2) s2 by (simp add: vol_dev_ok_def)
    have G: "bg_block_bytes (vgeo s) = 4 * vbl s" "1 \<le> bm_root_num (vo_bitmap s)" "bm_root_num (vo_bitmap s) < bg_num_blocks (vgeo s)"
      using a(3) by (auto simp: vol_ok_def file_geo_ok_def)
    from root_roundtrip [OF r(1)] obtain x where x: "root_write (vbl s) r = Inr x" "int (length x) = 4 * vbl s" "root_read (vbl s) x = Inr (Some (root_norm r))" by blast
    from dev_write_ok [OF d2, of "bm_root_num (vo_bitmap s)" x] x(2) G obtain d' where
      d': "dev_write wr_blk (bm_root_num (vo_bitmap s)) (Inr x) ?s2 = Some (?s2\<lparr>vo_dev := d'\<rparr>, Inr ())" "vol_dev_ok (?s2\<lparr>vo_dev := d'\<rparr>)"
      "on_disk (disk_of d') (vgeo s) (bm_root_num (vo_bitmap s)) x"
      "\<forall>c. 0 \<le> c \<and> c < bg_num_blocks (vgeo s) \<and> c \<noteq> bm_root_num (vo_bitmap s) \<longrightarrow> disk_of d' c = vdisk s c" using s2 by auto
    let ?s3 = "?s2\<lparr>vo_dev := d', vo_meta := Some (rb_create_ts r, rb_disk_ts r, rb_mod_ts r)\<rparr>"
    have run: "update_disk_time wr_blk s = Some (?s3, Inr ())"
    proof -
      have m: "mod_root (\<lambda>r. r\<lparr>rb_create_ts := (if None = None then rb_create_ts r else None), rb_disk_ts := (if Some ?t = None then rb_disk_ts r else Some ?t),
                    rb_mod_ts := (if None = None then rb_mod_ts r else None)\<rparr>) ?s1 = ?s2"
        by (simp add: mod_root_def r_def tick_def)
      have v: "vo_root_valid ?s1" using True by (simp add: tick_def)
      have w: "dev_write wr_blk (bm_root_num (vo_bitmap ?s2)) (root_write (vbl ?s2) (bm_root (vo_bitmap ?s2))) ?s2 = Some (?s2\<lparr>vo_dev := d'\<rparr>, Inr ())"
        using d'(1) x(1) s2(1) by simp
      have "vol_change_meta_info wr_blk None (Some ?t) None ?s1 = Some (?s3, Inr True)"
        unfolding vol_change_meta_info_def using v m w by (simp add: Let_def vbind_def s2(1))
      then show ?thesis by (simp add: update_disk_time_def vbind_def 0)
    qed
    have t3: "table_on (disk_of d') ?s2 a"
    proof (cases "ad_block a")
      case NoBlock
      with a(1) show ?thesis by (simp add: hdr_ok_def)
    next
      case RootBlk
      then show ?thesis using d'(3) x(3) s2 by (auto simp: table_on_def dir_num_def table_of_def root_norm_def intro!: exI [of _ x])
    next
      case (UserDirBlk u)
      with a(1) have "dir_num s a \<noteq> bm_root_num (vo_bitmap s)" by (simp add: hdr_ok_def dir_num_def)
      moreover from UserDirBlk assms(4) obtain y u' where y: "on_disk (vdisk s) (vgeo s) (dir_num s a) y"
        "user_dir_read (vbl s) False (ad_num a) y = Inr (Some (u', True))" "Inr (ud_hash_table u') = table_of s a" by (auto simp: table_on_def)
      ultimately have "on_disk (disk_of d') (vgeo s) (dir_num s a) y" using d'(4) by (simp add: on_disk_def)
      then show ?thesis using y(2,3) s2 UserDirBlk by (auto simp: table_on_def dir_num_def table_of_def intro!: exI [of _ y])
    qed
    have "dir_at ?s3 i a" using assms(3) s2 by (simp add: dir_at_def)
    moreover have "hdr_at ?s3 i t" "hdr_frame i s ?s3" "table_on (disk_of d') ?s3 a" "vol_dev_ok ?s3" using h2 f2 t3 d'(2)
      by (simp_all add: hdr_at_def vol_ok_def dir_at_def hdr_ok_def table_of_def hash_size_of_def hdr_frame_def dir_num_def table_on_def vol_dev_ok_def cong: dir_block.case_cong)
    ultimately show ?thesis using run d'(4) by (intro exI [of _ ?s3]) (simp add: disk_frame_def)
  qed
qed

end

subsection \<open>Looking a name up in the hash table\<close>

lemma name_hash_plain: "plain_name n \<Longrightarrow> 0 < m \<Longrightarrow> \<exists>h. name_hash intl n (int m) = Inr (int h) \<and> h < m"
proof -
  assume a: "plain_name n" "0 < m"
  let ?v = "foldl hash_step (int (length (upper intl n))) (upper intl n) mod int m"
  have "name_hash intl n (int m) = Inr ?v" using a by (simp add: name_hash_def upper_plain)
  moreover have "0 \<le> ?v" "?v < int m" using a(2) by simp_all
  ultimately show ?thesis by (intro exI [of _ "nat ?v"]) (simp add: nat_less_iff)
qed

lemma has_name_ok:
  assumes l: "loaded s i C" and n: "names_ok (vf_intl (vo_flags s)) C" "plain_name name" and h: "name_hash (vf_intl (vo_flags s)) name (int (length C)) = Inr (int h)" "h < length C"
  shows "has_name i name s = Some (s, Inr (dir_map (vf_intl (vo_flags s)) C (upper (vf_intl (vo_flags s)) name) \<noteq> None))"
proof -
  let ?i = "vf_intl (vo_flags s)" let ?u = "upper ?i name"
  obtain a nh es where a: "dir_at s i a" "ad_name_hash a = Some nh" "ad_entries a = Some es" "ad_hash_size a = int (length C)" "length nh = length C"
    "\<And>h. h < length C \<Longrightarrow> list_all2 (node_is s i) (nh ! h) (C ! h)" using loaded_nodes [OF l] by metis
  note la = a(6) [OF h(2)]
  have g: "names_at a (int h) = Inr (nh ! h)" using a(2,5) h(2) by (simp add: names_at_def py_get_in)
  have ex: "\<forall>j \<in> set (nh ! h). \<exists>e \<in> set (C ! h). node_is s i j e"
  proof
    fix j assume "j \<in> set (nh ! h)"
    then obtain p where "p < length (nh ! h)" "nh ! h ! p = j" by (auto simp: in_set_conv_nth)
    then show "\<exists>e \<in> set (C ! h). node_is s i j e" using list_all2_nthD [OF la] list_all2_lengthD [OF la] by (intro bexI [of _ "C ! h ! p"]) auto
  qed
  have pl: "\<forall>e \<in> set (C ! h). plain_name (e_name e)" using n(1) h(2) by (simp add: names_ok_def)
  from find_upper_nodes [OF ex pl, of ?u] obtain r where r: "find_upper s ?u (nh ! h) = Inr r"
    "r = None \<longrightarrow> (\<forall>j \<in> set (nh ! h). \<forall>e. node_is s i j e \<longrightarrow> upper ?i (e_name e) \<noteq> ?u)"
    "\<forall>j. r = Some j \<longrightarrow> j \<in> set (nh ! h) \<and> (\<exists>e \<in> set (C ! h). node_is s i j e \<and> upper ?i (e_name e) = ?u)" by blast
  have "r = None \<longleftrightarrow> dir_map ?i C ?u = None"
  proof
    assume "r = None"
    show "dir_map ?i C ?u = None" unfolding dir_map_None
    proof
      fix e assume "e \<in> set (concat C)"
      then obtain k where k: "k < length C" "e \<in> set (C ! k)" unfolding concat_nth by blast
      show "upper ?i (e_name e) \<noteq> ?u"
      proof
        assume u: "upper ?i (e_name e) = ?u"
        have "name_hash ?i (e_name e) (int (length C)) = Inr (int k)" "plain_name (e_name e)" using n(1) k by (simp_all add: names_ok_def)
        then have "k = h" using name_hash_upper [OF _ n(2) u, of "int (length C)"] h(1) by simp
        with k obtain p where p: "p < length (C ! h)" "C ! h ! p = e" by (auto simp: in_set_conv_nth)
        then have "node_is s i (nh ! h ! p) e" "nh ! h ! p \<in> set (nh ! h)" using list_all2_nthD2 [OF la p(1)] list_all2_lengthD [OF la] by auto
        then show False using r(2) \<open>r = None\<close> u by blast
      qed
    qed
  next
    assume d: "dir_map ?i C ?u = None"
    show "r = None"
    proof (rule ccontr)
      assume "r \<noteq> None"
      with r(3) obtain e where e: "e \<in> set (C ! h)" "upper ?i (e_name e) = ?u" by auto
      from e(1) h(2) have "e \<in> set (concat C)" unfolding concat_nth by blast
      with e(2) d show False unfolding dir_map_None by blast
    qed
  qed
  then have "(r \<noteq> None) = (dir_map ?i C ?u \<noteq> None)" by (rule arg_cong [where f = Not])
  then show ?thesis using a(1,4) g r(1) h(1) upper_plain [OF n(2)] by (simp add: has_name_def del: not_None_eq)
qed

text \<open>The number of the first block of a chain, as the code finds it.\<close>

lemma chain_start:
  assumes "loaded s i C" "dir_on dk (vo_flags s) (vgeo s) t C" "h < length C"
  shows "\<exists>a names. dir_at s i a \<and> ad_hash_size a = int (length C) \<and> names_at a (int h) = Inr names \<and>
     (case names of [] \<Rightarrow> 0 | k # _ \<Rightarrow> node_num s (vo_nodes s ! k)) = t ! h"
proof -
  obtain a nh es where a: "dir_at s i a" "ad_name_hash a = Some nh" "ad_entries a = Some es" "ad_hash_size a = int (length C)" "length nh = length C"
    "\<And>h. h < length C \<Longrightarrow> list_all2 (node_is s i) (nh ! h) (C ! h)" using loaded_nodes [OF assms(1)] by metis
  note la = a(6) [OF assms(3)]
  have ch: "chain_on dk (vo_flags s) (vgeo s) (t ! h) (C ! h)" using assms(2,3) by (simp add: dir_on_def)
  have "(case nh ! h of [] \<Rightarrow> 0 | k # _ \<Rightarrow> node_num s (vo_nodes s ! k)) = t ! h"
    using la ch by (cases "nh ! h"; cases "C ! h") (auto simp: node_is_name(2))
  then show ?thesis using a assms(3) by (intro exI [of _ a] exI [of _ "nh ! h"]) (simp add: names_at_def py_get_in)
qed

text \<open>A name that can be written is valid.\<close>

lemma split_on_sub: "p \<in> set (split_on c xs) \<Longrightarrow> set p \<subseteq> set xs \<and> length p \<le> length xs"
proof (induction xs arbitrary: p)
  case (Cons x xs)
  then show ?case by (cases "split_on c xs") (fastforce split: if_splits)+
qed simp

lemma name_ok_valid: "name_ok 30 (Some name) \<Longrightarrow> name_is_valid False name = Inr True"
proof -
  assume "name_ok 30 (Some name)"
  then have n: "plain_name name" "length name \<le> 30" by (simp_all add: name_ok_def)
  have s: "is_valid_single False p = Inr True" if "set p \<subseteq> set name" "length p \<le> length name" for p
  proof -
    have "plain_name p" using n(1) that(1) by (auto simp: plain_name_def)
    with get_ami_str_plain [OF this] n(2) that(2) show ?thesis by (simp add: is_valid_single_def latin1_enc_def)
  qed
  have "\<forall>p \<in> set ps. set p \<subseteq> set name \<and> length p \<le> length name \<Longrightarrow> all_valid False ps = Inr True" for ps
    by (induction ps) (simp_all add: s)
  from this [of "split_path name"] show ?thesis using s [of name] split_on_sub [of _ "CHR ''/''" name]
    by (simp add: name_is_valid_def split_path_def)
qed

subsection \<open>The blocks of a new file\<close>

definition blocks_needed :: "vol_flags \<Rightarrow> blk_geo \<Rightarrow> byte list \<Rightarrow> int" where
  "blocks_needed v g data = 1 + num_data_for v g (int (length data)) + num_list_for v g (int (length data))"

lemma blocks_needed_pos: "file_geo_ok g \<Longrightarrow> 0 < blocks_needed v g data"
proof -
  assume "file_geo_ok g"
  then have G: "128 \<le> bg_block_longs g" "bg_block_bytes g = 4 * bg_block_longs g" by (simp_all add: file_geo_ok_def)
  then have "0 < contents_bytes v g" by (simp add: contents_bytes_def)
  note nd = fits_num_data(1) [OF this, of data]
  from num_list_fit(1) [OF refl refl nd] G(1) nd show "0 < blocks_needed v g data" by (simp add: blocks_needed_def)
qed

lemma create_num: "node_create_num \<lparr>nd_parent = p, nd_body = FileB (set_file_data v g data file_init)\<rparr> = Inr (blocks_needed v g data)"
  by (simp add: node_create_num_def set_file_data_def blocks_get_create_num_def Let_def blocks_needed_def)

context block_device
begin

lemma create_blocks_ok:
  assumes hd: "hdr_at s i t" and dev: "vol_dev_ok s" and l: "loaded s i C" and on: "dir_on (vdisk s) (vo_flags s) (vgeo s) t C"
    and n: "names_ok (vf_intl (vo_flags s)) C" and j: "vo_nodes s ! j = \<lparr>nd_parent = p, nd_body = FileB (set_file_data (vo_flags s) (vgeo s) data file_init)\<rparr>"
    and m: "meta_ok name m" "u32_ok (int (length data))"
  defines "dup \<equiv> dir_map (vf_intl (vo_flags s)) C (upper (vf_intl (vo_flags s)) name) \<noteq> None"
    and "full \<equiv> int (card (free_set (vo_bitmap s))) < blocks_needed (vo_flags s) (vgeo s) data"
  shows "dup \<Longrightarrow> create_blocks rd_blk wr_blk i j name m s = Some (s, Inl NAME_ALREADY_EXISTS)"
    and "\<not> dup \<Longrightarrow> full \<Longrightarrow> create_blocks rd_blk wr_blk i j name m s = Some (s, Inl NO_FREE_BLOCKS)"
    and "\<not> dup \<Longrightarrow> \<not> full \<Longrightarrow> \<exists>h b1 blks f b f' d'. name_hash (vf_intl (vo_flags s)) name (int (length C)) = Inr (int h) \<and> h < length C \<and>
       create_blocks rd_blk wr_blk i j name m s = Some (set_body j (FileB f) (s\<lparr>vo_bitmap := b1, vo_dev := d'\<rparr>), Inr (int h, List.hd blks)) \<and>
       distinct blks \<and> blks \<noteq> [] \<and> int (length blks) = blocks_needed (vo_flags s) (vgeo s) data \<and> set blks \<subseteq> free_set (vo_bitmap s) \<and>
       free_set b1 = free_set (vo_bitmap s) - set blks \<and> bm_wf b1 \<and> bm_frame (vo_bitmap s) b1 \<and> bm_dirty b1 \<and>
       bm_num_used b1 = bm_num_used (vo_bitmap s) + blocks_needed (vo_flags s) (vgeo s) data \<and>
       af_num f = List.hd blks \<and> file_block_nums f = blks \<and> af_block f = Some b \<and> file_header_ok (vbl s) b \<and>
       en_name (fh_entry b) = Some name \<and> fh_hash_chain b = t ! h \<and> fh_byte_size b = int (length data) \<and> vol_dev_ok (s\<lparr>vo_dev := d'\<rparr>) \<and>
       disk_frame (set blks) (vgeo s) (vdisk s) (disk_of d') \<and>
       file_on (disk_of d') (vo_flags s) (vgeo s) f' \<and> af_num f' = List.hd blks \<and> file_block_nums f' = blks \<and>
       af_block f' = Some (b\<lparr>fh_entry := entry_norm (fh_entry b)\<rparr>) \<and> data_on (disk_of d') (vo_flags s) (vgeo s) (List.hd blks) (af_data_nums f') data"
proof -
  have v: "vol_ok s" using hd by (simp add: hdr_at_def)
  then have V: "file_geo_ok (vgeo s)" "1 \<le> bg_reserved (vgeo s)" "bm_wf (vo_bitmap s)" "\<not> vf_longname (vo_flags s)" by (simp_all add: vol_ok_def)
  have nm: "name_ok 30 (Some name)" "plain_name name" using m(1) by (simp_all add: meta_ok_def name_ok_def)
  note tl = table_length [OF hd]
  have lC: "length C = length t" using on by (simp add: dir_on_def)
  have "0 < int (length t)" using tl V(1) by (simp add: file_geo_ok_def del: of_nat_0_less_iff)
  then have "0 < length C" using lC by simp
  from name_hash_plain [OF nm(2) this] obtain h where h: "name_hash (vf_intl (vo_flags s)) name (int (length C)) = Inr (int h)" "h < length C" by blast
  note hn = has_name_ok [OF l n nm(2) h, folded dup_def]
  from chain_start [OF l on h(2)] obtain a names where a: "dir_at s i a" "ad_hash_size a = int (length C)" "names_at a (int h) = Inr names"
    "(case names of [] \<Rightarrow> 0 | k # _ \<Rightarrow> node_num s (vo_nodes s ! k)) = t ! h" by blast
  let ?n = "blocks_needed (vo_flags s) (vgeo s) data" let ?v = "vo_flags s" let ?g = "vgeo s"
  have start: "create_blocks rd_blk wr_blk i j name m s = (if dup then Some (s, Inl NAME_ALREADY_EXISTS) else
     vbind (valloc_n ?n) (\<lambda>r. case r of None \<Rightarrow> vraise NO_FREE_BLOCKS
       | Some free_blks \<Rightarrow> vbind (node_create_new rd_blk wr_blk j free_blks name (t ! h) (node_num s (vo_nodes s ! i)) m) (\<lambda>n. vret (int h, n))) s)"
    unfolding create_blocks_def using hn a h(1) V(4) name_ok_valid [OF nm(1)] by (simp add: vbind_def [of "has_name i name"] j create_num)
  show "dup \<Longrightarrow> create_blocks rd_blk wr_blk i j name m s = Some (s, Inl NAME_ALREADY_EXISTS)" using start by simp
  note al = alloc_n_ok [OF V(3) blocks_needed_pos [OF V(1)], of ?v data]
  show "\<not> dup \<Longrightarrow> full \<Longrightarrow> create_blocks rd_blk wr_blk i j name m s = Some (s, Inl NO_FREE_BLOCKS)"
  proof -
    assume 1: "\<not> dup" and 2: "full"
    have "valloc_n ?n s = Some (s, Inr None)" using al 2 by (simp add: full_def valloc_n_def)
    then show "create_blocks rd_blk wr_blk i j name m s = Some (s, Inl NO_FREE_BLOCKS)" unfolding start using 1 by (simp add: vbind_def)
  qed
  assume 1: "\<not> dup" and 2: "\<not> full"
  from al 2 obtain b1 blks where b1: "alloc_n (vo_bitmap s) ?n = Inr (b1, Some blks)" "int (length blks) = ?n" "distinct blks"
    "set blks \<subseteq> free_set (vo_bitmap s)" "free_set b1 = free_set (vo_bitmap s) - set blks" "bm_wf b1" "bm_frame (vo_bitmap s) b1" "bm_dirty b1" "bm_num_used b1 = bm_num_used (vo_bitmap s) + ?n" by (auto simp: full_def)
  have ne: "blks \<noteq> []" using b1(2) blocks_needed_pos [OF V(1), of ?v data] by auto
  have w: "wf (vo_dev s)" "num (vo_dev s) = bg_num_blocks ?g" "bytes (vo_dev s) = bg_block_bytes ?g" using dev by (simp_all add: vol_dev_ok_def)
  have r: "set blks \<subseteq> {1..<num (vo_dev s)}" using b1(4) V(2) w(2) by (auto simp: free_set_def blk_range_def)
  have pu: "u32_ok (node_num s (vo_nodes s ! i))"
  proof -
    from hdr_at_uses [OF hd a(1)] have "hdr_ok s a" by blast
    then have "1 \<le> dir_num s a \<and> dir_num s a < bg_num_blocks ?g" using v by (auto simp: hdr_ok_def dir_num_def vol_ok_def split: dir_block.splits)
    moreover have "node_num s (vo_nodes s ! i) = dir_num s a" using a(1) by (simp add: node_num_def dir_num_def dir_at_def)
    ultimately show ?thesis using V(1) by (simp add: u32_ok_def file_geo_ok_def)
  qed
  have cu: "u32_ok (t ! h)" using tl h(2) lC by (simp add: longs_ok_def)
  from file_written [OF V(1) w V(4) m(2,1) cu pu b1(3) r] b1(2) obtain f b f' d' where
    f: "blocks_create_new wr_blk ?v ?g blks name (t ! h) (node_num s (vo_nodes s ! i)) m (set_file_data ?v ?g data file_init) (vo_dev s) = Inr (f, List.hd blks, d')"
    "af_num f = List.hd blks" "file_block_nums f = blks" "af_block f = Some b" "file_header_ok (vbl s) b"
     "en_name (fh_entry b) = Some name" "fh_hash_chain b = t ! h" "fh_byte_size b = int (length data)" "wf d'" "num d' = num (vo_dev s)" "bytes d' = bytes (vo_dev s)"
     "\<forall>c. 0 \<le> c \<and> c < num (vo_dev s) \<and> c \<notin> set blks \<longrightarrow> disk_of d' c = vdisk s c"
     "file_on (disk_of d') ?v ?g f'" "af_num f' = List.hd blks" "file_block_nums f' = blks"
     "af_block f' = Some (b\<lparr>fh_entry := entry_norm (fh_entry b)\<rparr>)" "data_on (disk_of d') ?v ?g (List.hd blks) (af_data_nums f') data"
    unfolding blocks_needed_def by blast
  let ?s1 = "s\<lparr>vo_bitmap := b1\<rparr>"
  have va: "valloc_n ?n s = Some (?s1, Inr (Some blks))" using b1(1) by (simp add: valloc_n_def)
  have g1: "vgeo ?s1 = ?g" using b1(7) by (simp add: bm_frame_def)
  have "node_create_new rd_blk wr_blk j blks name (t ! h) (node_num s (vo_nodes s ! i)) m ?s1 =
      Some (set_body j (FileB f) (s\<lparr>vo_bitmap := b1, vo_dev := d'\<rparr>), Inr (List.hd blks))"
    using f(1) g1 by (simp add: node_create_new_def file_create_new_def j)
  then have "create_blocks rd_blk wr_blk i j name m s = Some (set_body j (FileB f) (s\<lparr>vo_bitmap := b1, vo_dev := d'\<rparr>), Inr (int h, List.hd blks))"
    unfolding start using 1 va by (simp add: vbind_def)
  moreover have "disk_frame (set blks) ?g (vdisk s) (disk_of d')" using f(12) w(2) by (simp add: disk_frame_def)
  moreover have "vol_dev_ok (s\<lparr>vo_dev := d'\<rparr>)" using f(9-11) w by (simp add: vol_dev_ok_def)
  ultimately show "\<exists>h b1 blks f b f' d'. name_hash (vf_intl (vo_flags s)) name (int (length C)) = Inr (int h) \<and> h < length C \<and>
       create_blocks rd_blk wr_blk i j name m s = Some (set_body j (FileB f) (s\<lparr>vo_bitmap := b1, vo_dev := d'\<rparr>), Inr (int h, List.hd blks)) \<and>
       distinct blks \<and> blks \<noteq> [] \<and> int (length blks) = blocks_needed (vo_flags s) (vgeo s) data \<and> set blks \<subseteq> free_set (vo_bitmap s) \<and>
       free_set b1 = free_set (vo_bitmap s) - set blks \<and> bm_wf b1 \<and> bm_frame (vo_bitmap s) b1 \<and> bm_dirty b1 \<and>
       bm_num_used b1 = bm_num_used (vo_bitmap s) + blocks_needed (vo_flags s) (vgeo s) data \<and>
       af_num f = List.hd blks \<and> file_block_nums f = blks \<and> af_block f = Some b \<and> file_header_ok (vbl s) b \<and>
       en_name (fh_entry b) = Some name \<and> fh_hash_chain b = t ! h \<and> fh_byte_size b = int (length data) \<and> vol_dev_ok (s\<lparr>vo_dev := d'\<rparr>) \<and>
       disk_frame (set blks) (vgeo s) (vdisk s) (disk_of d') \<and>
       file_on (disk_of d') (vo_flags s) (vgeo s) f' \<and> af_num f' = List.hd blks \<and> file_block_nums f' = blks \<and>
       af_block f' = Some (b\<lparr>fh_entry := entry_norm (fh_entry b)\<rparr>) \<and> data_on (disk_of d') (vo_flags s) (vgeo s) (List.hd blks) (af_data_nums f') data"
    using h b1(2-9) ne f(2-8,13-17)
    by (intro exI [of _ h] exI [of _ b1] exI [of _ blks] exI [of _ f] exI [of _ b] exI [of _ f'] exI [of _ d'] conjI) assumption+
qed

end

subsection \<open>Linking the new entry\<close>

lemma loaded_cong:
  assumes l: "loaded s i C" and g: "vbl s' = vbl s" "length (vo_nodes s') = length (vo_nodes s)"
    and a: "\<And>a. dir_at s i a \<Longrightarrow> dir_at s' i a" "\<And>a es k. dir_at s i a \<Longrightarrow> ad_entries a = Some es \<Longrightarrow> k \<in> set es \<Longrightarrow> vo_nodes s' ! k = vo_nodes s ! k"
  shows "loaded s' i C"
proof -
  from l obtain b nh es where b: "dir_at s i b" "ad_name_hash b = Some nh" "ad_entries b = Some es" "ad_hash_size b = int (length C)" "length nh = length C"
    "\<forall>h < length C. list_all2 (node_is s i) (nh ! h) (C ! h)" "distinct es" "set es = \<Union> (set (map set nh))" unfolding loaded_def by blast
  have "list_all2 (node_is s' i) (nh ! h) (C ! h)" if h: "h < length C" for h
  proof (rule list.rel_mono_strong)
    show "list_all2 (node_is s i) (nh ! h) (C ! h)" using b(6) h by blast
    fix k e assume "k \<in> set (nh ! h)" "e \<in> set (C ! h)" "node_is s i k e"
    moreover from this(1) h b(5,8) have "k \<in> set es" using Union_nth [of k nh] by auto
    ultimately show "node_is s' i k e" using a(2) [OF b(1,3)] g by (simp add: node_is_def)
  qed
  then show ?thesis unfolding loaded_def using b a(1) by blast
qed

text \<open>A node without a header block is not an entry of a directory.\<close>

lemma loaded_fresh:
  assumes "loaded s i C" "nd_body (vo_nodes s ! j) = FileB f" "af_block f = None" "dir_at s i a" "ad_entries a = Some es"
  shows "j \<notin> set es"
proof
  assume j: "j \<in> set es"
  obtain a' es' where a: "dir_at s i a'" "ad_entries a' = Some es'" "\<And>j. j \<in> set es' \<Longrightarrow> \<exists>e \<in> set (concat C). node_is s i j e"
    using loaded_nodes [OF assms(1)] by metis
  with assms(4,5) have "es' = es" by (simp add: dir_at_def)
  with a(3) j obtain e where "node_is s i j e" by blast
  then show False using assms(2,3) by (auto simp: node_is_def same_entry_def split: fs_body.splits)
qed

definition link_node :: "nat \<Rightarrow> nat \<Rightarrow> adfs_dir \<Rightarrow> adfs_dir" where
  "link_node h j d = d\<lparr>ad_entries := map_option (\<lambda>es. es @ [j]) (ad_entries d),
     ad_name_hash := map_option (\<lambda>nh. nh[h := j # nh ! h]) (ad_name_hash d)\<rparr>"

lemma link_node_fields [simp]: "ad_block (link_node h j d) = ad_block d" "ad_num (link_node h j d) = ad_num d"
  by (simp_all add: link_node_def)

lemma loaded_link:
  assumes l: "loaded s i C" and a: "dir_at s i a" and j: "node_is s i j e" "\<And>es. ad_entries a = Some es \<Longrightarrow> j \<notin> set es" and h: "h < length C"
  shows "loaded (set_body i (DirB (link_node h j a)) s) i (add_chain h e C)"
proof -
  let ?s = "set_body i (DirB (link_node h j a)) s"
  from l obtain b nh es where b: "dir_at s i b" "ad_name_hash b = Some nh" "ad_entries b = Some es" "ad_hash_size b = int (length C)" "length nh = length C"
    "\<forall>h < length C. list_all2 (node_is s i) (nh ! h) (C ! h)" "distinct es" "set es = \<Union> (set (map set nh))" unfolding loaded_def by blast
  have ab: "b = a" using a b(1) by (simp add: dir_at_def)
  have nn: "node_is ?s i k x" if "node_is s i k x" for k x using that by (simp add: node_is_def set_body_def)
  have "list_all2 (node_is ?s i) (nh[h := j # nh ! h] ! k) (add_chain h e C ! k)" if k: "k < length C" for k
  proof -
    have "list_all2 (node_is ?s i) (nh ! k) (C ! k)" using b(6) k nn list_all2_mono [of "node_is s i" "nh ! k" "C ! k" "node_is ?s i"] by blast
    then show ?thesis using nn [OF j(1)] h k b(5) by (auto simp: nth_add_chain nth_list_update)
  qed
  moreover have "set (es @ [j]) = \<Union> (set (map set (nh[h := j # nh ! h])))"
  proof -
    have "x \<in> \<Union> (set (map set (nh[h := j # nh ! h]))) \<longleftrightarrow> x = j \<or> x \<in> \<Union> (set (map set nh))" for x
      unfolding Union_nth using h b(5) by (auto simp: nth_list_update split: if_splits)
    then show ?thesis using b(8) by auto
  qed
  moreover have "dir_at ?s i (link_node h j a)" using dir_at_len [OF a] by simp
  ultimately show ?thesis unfolding loaded_def using b j(2) ab
    by (intro exI [of _ "link_node h j a"] exI [of _ "nh[h := j # nh ! h]"] exI [of _ "es @ [j]"]) (simp add: link_node_def)
qed

lemma hdr_at_body:
  assumes "hdr_at s i t" "dir_at s i a" "ad_block a' = ad_block a" "ad_num a' = ad_num a"
  shows "hdr_at (set_body i (DirB a') s) i t" "dir_num (set_body i (DirB a') s) a' = dir_num s a"
    "table_on dk (set_body i (DirB a') s) a' = table_on dk s a"
proof -
  let ?s = "set_body i (DirB a') s"
  from assms(1,2) have h: "vol_ok s" "hdr_ok s a" "table_of s a = Inr t" "hash_size_of s a = Inr (int (length t))" by (auto simp: hdr_at_def dir_at_def)
  have "dir_at ?s i a'" using dir_at_len [OF assms(2)] by simp
  moreover have "vol_ok ?s" using h(1) by (simp add: vol_ok_def)
  ultimately show "hdr_at ?s i t" unfolding hdr_at_def using h assms(3,4)
    by (intro conjI exI [of _ a']) (simp_all add: hdr_ok_def table_of_def hash_size_of_def cong: dir_block.case_cong)
  show "dir_num ?s a' = dir_num s a" "table_on dk ?s a' = table_on dk s a" using assms(3,4)
    by (simp_all add: dir_num_def table_on_def table_of_def cong: dir_block.case_cong)
qed

context block_device
begin

lemma times_ok:
  assumes "hdr_at s i t" "vol_dev_ok s" "dir_at s i a" "table_on (vdisk s) s a"
  shows "\<exists>s' a'. (if ts then vthen (update_dir_mod_time wr_blk i) (update_disk_time wr_blk) else vret ()) s = Some (s', Inr ()) \<and>
    hdr_frame i s s' \<and> hdr_at s' i t \<and> vol_dev_ok s' \<and> dir_at s' i a' \<and> table_on (vdisk s') s' a' \<and>
    disk_frame {dir_num s a, bm_root_num (vo_bitmap s)} (vgeo s) (vdisk s) (vdisk s')"
proof (cases ts)
  case False
  then show ?thesis using assms hdr_frame_refl [of i s] by (intro exI [of _ s] exI [of _ a]) (simp add: disk_frame_def)
next
  case True
  from dir_time_ok [OF assms(1-3)] obtain s1 a1 where 1: "update_dir_mod_time wr_blk i s = Some (s1, Inr ())" "hdr_frame i s s1" "hdr_at s1 i t" "vol_dev_ok s1"
    "dir_at s1 i a1" "table_on (vdisk s1) s1 a1" "disk_frame {dir_num s a} (vgeo s) (vdisk s) (vdisk s1)" by blast
  from disk_time_ok [OF 1(3-6)] obtain s2 where 2: "update_disk_time wr_blk s1 = Some (s2, Inr ())" "hdr_frame i s1 s2" "hdr_at s2 i t" "vol_dev_ok s2"
    "dir_at s2 i a1" "table_on (vdisk s2) s2 a1" "disk_frame {bm_root_num (vo_bitmap s1)} (vgeo s1) (vdisk s1) (vdisk s2)" by blast
  have "vgeo s1 = vgeo s" "bm_root_num (vo_bitmap s1) = bm_root_num (vo_bitmap s)" using hdr_frame_geo [OF 1(2)] .
  with 1(7) 2(7) have "disk_frame {dir_num s a, bm_root_num (vo_bitmap s)} (vgeo s) (vdisk s) (vdisk s2)"
    using disk_frame_trans [of "{dir_num s a}" "vgeo s"] by (fastforce simp: insert_commute)
  then show ?thesis using True 1(1) 2 hdr_frame_trans [OF 1(2) 2(2)] by (intro exI [of _ s2] exI [of _ a1]) (simp add: vbind_def)
qed

lemma link_ok:
  assumes hd: "hdr_at s i t" and dev: "vol_dev_ok s" and l: "loaded s i C" and C: "length C = length t" "h < length C"
    and j: "node_is s i j e" "\<And>es. ad_entries a = Some es \<Longrightarrow> j \<notin> set es" and n: "u32_ok n" and a: "dir_at s i a"
  shows "\<exists>s' a'. (\<forall>k. vthen (set_hash_slot i (int h) n) (vthen (node_block_write wr_blk i) (vthen (mod_dir i (link_node h j)) k)) s = k s') \<and>
     hdr_at s' i (t[h := n]) \<and> vol_dev_ok s' \<and> loaded s' i (add_chain h e C) \<and> dir_at s' i a' \<and> table_on (vdisk s') s' a' \<and>
     dir_num s' a' = dir_num s a \<and> disk_frame {dir_num s a} (vgeo s) (vdisk s) (vdisk s') \<and> vo_flags s' = vo_flags s \<and>
     root_change (vo_bitmap s) (vo_bitmap s') \<and> (\<forall>k < length (vo_nodes s). k \<noteq> i \<longrightarrow> vo_nodes s' ! k = vo_nodes s ! k) \<and>
     length (vo_nodes s) \<le> length (vo_nodes s')"
proof -
  from set_slot_ok [OF hd _ _ n, of "int h"] C obtain s2 where s2: "set_hash_slot i (int h) n s = Some (s2, Inr ())" "hdr_frame i s s2"
    "hdr_at s2 i (t[h := n])" "vo_dev s2 = vo_dev s" by auto
  from s2(2) a obtain a2 where a2: "dir_at s2 i a2" "ad_entries a2 = ad_entries a" "dir_num s2 a2 = dir_num s a" unfolding hdr_frame_def by metis
  note g = hdr_frame_geo(1) [OF s2(2)]
  have d2: "vol_dev_ok s2" using dev s2(4) g by (simp add: vol_dev_ok_def)
  from hdr_write_ok [OF s2(3) d2 a2(1)] obtain d3 where d3: "node_block_write wr_blk i s2 = Some (s2\<lparr>vo_dev := d3\<rparr>, Inr ())"
    "vol_dev_ok (s2\<lparr>vo_dev := d3\<rparr>)" "table_on (disk_of d3) s2 a2"
    "\<forall>c. 0 \<le> c \<and> c < bg_num_blocks (vgeo s2) \<and> c \<noteq> dir_num s2 a2 \<longrightarrow> disk_of d3 c = vdisk s2 c" by blast
  let ?s3 = "s2\<lparr>vo_dev := d3\<rparr>" let ?s4 = "set_body i (DirB (link_node h j a2)) ?s3"
  have a3: "dir_at ?s3 i a2" "hdr_at ?s3 i (t[h := n])" using a2(1) s2(3) by simp_all
  note h4 = hdr_at_body [OF a3(2,1) link_node_fields]
  have l3: "loaded ?s3 i C"
  proof (rule loaded_cong [OF hdr_frame_loaded [OF s2(2) l]])
  qed simp_all
  have ji: "node_is ?s3 i j e" using j(1) s2(2) g by (auto simp: node_is_def hdr_frame_def)
  have fr: "\<And>es. ad_entries a2 = Some es \<Longrightarrow> j \<notin> set es" using j(2) a2(2) by simp
  note l4 = loaded_link [OF l3 a3(1) ji fr C(2)]
  have a4: "dir_at ?s4 i (link_node h j a2)" using dir_at_len [OF a2(1)] by simp
  have "\<forall>k. vthen (set_hash_slot i (int h) n) (vthen (node_block_write wr_blk i) (vthen (mod_dir i (link_node h j)) k)) s = k ?s4"
    using s2(1) d3(1) mod_dir_at [OF a3(1), of "link_node h j"] by (simp add: vbind_def)
  moreover have "vol_dev_ok ?s4" using d3(2) by (simp add: vol_dev_ok_def)
  moreover have "disk_frame {dir_num s a} (vgeo s) (vdisk s) (disk_of d3)" using d3(4) a2(3) g s2(4) by (simp add: disk_frame_def)
  moreover have "vo_flags ?s4 = vo_flags s" "root_change (vo_bitmap s) (vo_bitmap ?s4)" using s2(2) by (simp_all add: hdr_frame_def)
  moreover have "\<forall>k < length (vo_nodes s). k \<noteq> i \<longrightarrow> vo_nodes ?s4 ! k = vo_nodes s ! k" using s2(2) by (simp add: hdr_frame_def set_body_def)
  moreover have "length (vo_nodes s) \<le> length (vo_nodes ?s4)" using s2(2) by (simp add: hdr_frame_def)
  ultimately show ?thesis using h4 d3(3) a2(3) a4 l4
    by (intro exI [of _ ?s4] exI [of _ "link_node h j a2"]) simp
qed

end

subsection \<open>Creating a file\<close>

lemma dir_on_add:
  assumes on: "dir_on dk v g t C" and same: "\<forall>n \<in> set (dir_blocks C). dk n = dk' n" and e: "entry_on dk' v g e" "e_num e \<noteq> 0" "e_chain e = t ! h" and h: "h < length t"
  shows "dir_on dk' v g (t[h := e_num e]) (add_chain h e C)"
proof -
  have l: "length C = length t" using on by (simp add: dir_on_def)
  have old: "chain_on dk' v g (t ! k) (C ! k)" if k: "k < length t" for k
  proof (rule chain_on_cong)
    show "chain_on dk v g (t ! k) (C ! k)" using on k by (simp add: dir_on_def)
    show "\<forall>e \<in> set (C ! k). \<forall>n \<in> e_blocks e. dk n = dk' n"
    proof safe
      fix e n assume "e \<in> set (C ! k)" "n \<in> e_blocks e"
      then have "n \<in> set (dir_blocks C)" using k l by (auto simp: dir_blocks_def e_blocks_nums intro!: bexI [of _ "C ! k"] bexI [of _ e])
      with same show "dk n = dk' n" by blast
    qed
  qed
  show ?thesis unfolding dir_on_def using old e h l by (auto simp: nth_add_chain nth_list_update)
qed

lemma hdr_at_step: "dir_step i s s' \<Longrightarrow> hdr_at s i t \<Longrightarrow> hdr_at s' i t"
proof -
  assume s: "dir_step i s s'" and "hdr_at s i t"
  then obtain a where a: "vol_ok s" "dir_at s i a" "hdr_ok s a" "table_of s a = Inr t" "hash_size_of s a = Inr (int (length t))" unfolding hdr_at_def by blast
  from s a(2) obtain a' where a': "dir_at s' i a'" "ad_num a' = ad_num a" "ad_block a' = ad_block a" unfolding dir_step_def by blast
  have f: "vo_bitmap s' = vo_bitmap s" "vo_flags s' = vo_flags s" "vo_clock s' = vo_clock s" using s by (simp_all add: dir_step_def)
  show "hdr_at s' i t" unfolding hdr_at_def using a a' f
    by (intro conjI exI [of _ a']) (simp_all add: vol_ok_def hdr_ok_def table_of_def hash_size_of_def cong: dir_block.case_cong)
qed

lemma hdr_at_blocks:
  assumes "hdr_at s i t" "bm_frame (vo_bitmap s) b" "bm_wf b" "free_set b \<subseteq> free_set (vo_bitmap s)" "j \<noteq> i"
  shows "hdr_at (set_body j x (s\<lparr>vo_bitmap := b, vo_dev := d\<rparr>)) i t"
proof -
  from assms(1) obtain a where a: "vol_ok s" "dir_at s i a" "hdr_ok s a" "table_of s a = Inr t" "hash_size_of s a = Inr (int (length t))" unfolding hdr_at_def by blast
  have b: "bm_geo b = vgeo s" "bm_root_num b = bm_root_num (vo_bitmap s)" "bm_root b = bm_root (vo_bitmap s)" using assms(2) by (simp_all add: bm_frame_def)
  have "dir_at (set_body j x (s\<lparr>vo_bitmap := b, vo_dev := d\<rparr>)) i a" using a(2) assms(5) by (simp add: dir_at_def set_body_def)
  moreover have "bm_root_num (vo_bitmap s) \<notin> free_set b" using a(1) assms(4) by (auto simp: vol_ok_def)
  ultimately show ?thesis unfolding hdr_at_def using a b assms(3)
    by (intro conjI exI [of _ a]) (simp_all add: vol_ok_def hdr_ok_def table_of_def hash_size_of_def cong: dir_block.case_cong)
qed

definition same_num :: "nat \<Rightarrow> 'd volume \<Rightarrow> 'd volume \<Rightarrow> bool" where
  "same_num i s s' \<longleftrightarrow> (\<forall>a b. dir_at s i a \<longrightarrow> dir_at s' i b \<longrightarrow> dir_num s' b = dir_num s a)"

text \<open>The directory after a search: it is in memory, and nothing is written.\<close>

definition name_mi_ok :: "string \<Rightarrow> meta_info option \<Rightarrow> bool" where
  "name_mi_ok name mi \<longleftrightarrow> (case mi of None \<Rightarrow> name_ok 30 (Some name) | Some m \<Rightarrow> meta_ok name m)"

definition new_file :: "'d volume \<Rightarrow> nat \<Rightarrow> byte list \<Rightarrow> fs_node" where
  "new_file s i data = \<lparr>nd_parent = Some i, nd_body = FileB (set_file_data (vo_flags s) (vgeo s) data file_init)\<rparr>"

context block_device
begin

lemma create_start:
  fixes data
  assumes ok: "dir_ok (vdisk s) s i C" and dev: "vol_dev_ok s" and mi: "name_mi_ok name mi"
  defines "s0 \<equiv> s\<lparr>vo_nodes := vo_nodes s @ [new_file s i data]\<rparr>"
  shows "\<exists>t s1 s2 m. ensure_entries rd_blk i s0 = Some (s1, Inr ()) \<and>
     (case mi of None \<Rightarrow> default_meta_info | Some m \<Rightarrow> vret m) s1 = Some (s2, Inr m) \<and> meta_ok name m \<and>
     hdr_at s2 i t \<and> vol_dev_ok s2 \<and> loaded s2 i C \<and> same_blocks (vo_dev s) (vo_dev s2) \<and> vo_flags s2 = vo_flags s \<and> vo_bitmap s2 = vo_bitmap s \<and>
     dir_on (vdisk s2) (vo_flags s) (vgeo s) t C \<and> vo_nodes s2 ! length (vo_nodes s) = new_file s i data \<and> length (vo_nodes s) \<noteq> i \<and>
     length (vo_nodes s) < length (vo_nodes s2) \<and>
     (\<forall>a. dir_at s2 i a \<longrightarrow> {dir_num s2 a, bm_root_num (vo_bitmap s)} \<inter> set (dir_blocks C) = {} \<and>
        insert (dir_num s2 a) (set (dir_blocks C)) \<inter> free_set (vo_bitmap s) = {}) \<and> same_num i s s2"
proof -
  let ?j = "length (vo_nodes s)"
  from ok obtain a t where a: "vol_ok s" "dir_at s i a" "hdr_ok s a" "table_of s a = Inr t" "hash_size_of s a = Inr (int (length t))"
     "dir_on (vdisk s) (vo_flags s) (vgeo s) t C" "loaded s i C \<or> ad_entries a = None \<or> ad_entries a = Some []"
     "{dir_num s a, bm_root_num (vo_bitmap s)} \<inter> set (dir_blocks C) = {}"
     "insert (dir_num s a) (set (dir_blocks C)) \<inter> free_set (vo_bitmap s) = {}" unfolding dir_ok_def by blast
  have st0: "dir_step i s s0" by (auto simp: dir_step_def s0_def dir_at_def nth_append)
  have h: "hdr_at s i t" using a(1-5) by (auto simp: hdr_at_def)
  have a0: "dir_at s0 i a" "table_of s0 a = Inr t" "hash_size_of s0 a = Inr (int (length t))" using a(2,4,5)
    by (simp_all add: s0_def dir_at_def nth_append table_of_def hash_size_of_def cong: dir_block.case_cong)
  have d0: "vol_dev_ok s0" "vo_flags s0 = vo_flags s" "vo_bitmap s0 = vo_bitmap s" "vo_dev s0 = vo_dev s" using dev by (simp_all add: vol_dev_ok_def s0_def)
  have dc: "\<not> vf_dircache (vo_flags s0)" using a(1) d0 by (simp add: vol_ok_def)
  have l0: "loaded s0 i C \<or> ad_entries a = None \<or> ad_entries a = Some []"
  proof (cases "loaded s i C")
    case True
    have "node_is s0 i j e" if "node_is s i j e" for j e using that by (simp add: node_is_def s0_def nth_append)
    then have "list_all2 (node_is s i) xs ys \<longrightarrow> list_all2 (node_is s0 i) xs ys" for xs ys using list_all2_mono [of "node_is s i" xs ys "node_is s0 i"] by blast
    with True a0(1) a(2) have "loaded s0 i C" unfolding loaded_def dir_at_def by (metis fs_body.inject(2))
    then show ?thesis ..
  next
    case False
    with a(7) show ?thesis by blast
  qed
  have on0: "dir_on (vdisk s0) (vo_flags s0) (vgeo s0) t C" using a(6) d0 by simp
  from ensure_entries_ok [OF d0(1) a0(1) dc a0(2,3) on0 l0] obtain s1 where
    1: "ensure_entries rd_blk i s0 = Some (s1, Inr ())" "loaded s1 i C" "dir_step i s0 s1" "same_blocks (vo_dev s0) (vo_dev s1)" by blast
  note h1 = hdr_at_step [OF dir_step_trans [OF st0 1(3)] h]
  have f1: "vo_flags s1 = vo_flags s" "vo_bitmap s1 = vo_bitmap s" "vo_clock s1 = vo_clock s" using 1(3) by (simp_all add: dir_step_def s0_def)
  have d1: "vol_dev_ok s1" by (rule vol_dev_ok_same [OF d0(1) 1(4)]) (simp_all add: f1 d0)
  have ij: "?j \<noteq> i" using dir_at_len [OF a(2)] by simp
  have j1: "vo_nodes s1 ! ?j = new_file s i data" "?j < length (vo_nodes s1)" using 1(3) ij by (auto simp: dir_step_def s0_def)
  have on1: "dir_on (vdisk s1) (vo_flags s) (vgeo s) t C"
    using dir_on_same [OF 1(4), of "vgeo s" "vo_flags s" t C] a(6) dev d0 by (simp add: vol_dev_ok_def)
  obtain s2 m where 2: "(case mi of None \<Rightarrow> default_meta_info | Some m \<Rightarrow> vret m) s1 = Some (s2, Inr m)" "meta_ok name m" "s2 = s1 \<or> s2 = tick s1"
  proof (cases mi)
    case None
    show thesis
    proof (rule that)
      show "(case mi of None \<Rightarrow> default_meta_info | Some m \<Rightarrow> vret m) s1 =
         Some (tick s1, Inr \<lparr>mi_protect = Some 0, mi_mod_ts = Some (vo_clock s1 0), mi_comment = None\<rparr>)"
        by (simp add: None default_meta_info_def vnow_def tick_def vbind_def vret_def)
      show "meta_ok name \<lparr>mi_protect = Some 0, mi_mod_ts = Some (vo_clock s1 0), mi_comment = None\<rparr>"
        using mi None a(1) f1(3) by (simp add: name_mi_ok_def meta_ok_def u32_ok_def vol_ok_def name_ok_def plain_name_def)
    qed simp
  next
    case (Some m)
    with mi that [of s1 m] show thesis by (simp add: name_mi_ok_def)
  qed
  have s2: "hdr_at s2 i t" "loaded s2 i C" using 2(3) h1 1(2) tick_ok(2) [OF h1] hdr_frame_loaded [OF tick_ok(1) 1(2)] by auto
  have f2: "vo_flags s2 = vo_flags s" "vo_bitmap s2 = vo_bitmap s" "vo_nodes s2 = vo_nodes s1" "vo_dev s2 = vo_dev s1" using 2(3) f1 by (auto simp: tick_def)
  have n2: "dir_num s2 x = dir_num s a" if "dir_at s2 i x" for x
  proof -
    from st0 1(3) a(2) obtain a' where "dir_at s1 i a'" "ad_num a' = ad_num a" "ad_block a' = ad_block a"
      using dir_step_trans [OF st0 1(3)] unfolding dir_step_def by blast
    then show ?thesis using that f2 by (simp add: dir_num_def dir_at_def cong: dir_block.case_cong)
  qed
  have "vol_dev_ok s2" using d1 f1 f2 by (simp add: vol_dev_ok_def)
  moreover have "same_num i s s2" using n2 a(2) by (auto simp: same_num_def dir_at_def)
  ultimately show ?thesis using 1(1,4) 2(1,2) s2 f2 d0(4) on1 j1 ij n2 a(8,9)
    by (intro exI [of _ t] exI [of _ s1] exI [of _ s2] exI [of _ m]) simp
qed

end

context block_device
begin

lemma create_file_run:
  assumes e: "ensure_entries rd_blk i (s\<lparr>vo_nodes := vo_nodes s @ [new_file s i data]\<rparr>) = Some (s1, Inr ())"
    and m: "(case mi of None \<Rightarrow> default_meta_info | Some m \<Rightarrow> vret m) s1 = Some (s2, Inr m)"
  defines "j \<equiv> length (vo_nodes s)"
  shows "create_blocks rd_blk wr_blk i j name m s2 = Some (s3, Inl err) \<Longrightarrow>
      create_file rd_blk wr_blk i name data mi ts s = Some (s3, Inl err)"
    and "create_blocks rd_blk wr_blk i j name m s2 = Some (s3, Inr (int h, n)) \<Longrightarrow> \<not> vf_dircache (vo_flags s3) \<Longrightarrow>
      create_file rd_blk wr_blk i name data mi ts s =
        vthen (vthen (set_hash_slot i (int h) n) (vthen (node_block_write wr_blk i) (vthen (mod_dir i (link_node h j))
          (if ts then vthen (update_dir_mod_time wr_blk i) (update_disk_time wr_blk) else vret ())))) (vret j) s3"
proof -
  have ln: "(\<lambda>d. d\<lparr>ad_entries := map_option (\<lambda>es. es @ [j]) (ad_entries d), ad_name_hash := map_option (\<lambda>nh. nh[h := j # nh ! h]) (ad_name_hash d)\<rparr>) = link_node h j" for h
    by (rule ext) (simp add: link_node_def)
  let ?s0 = "s\<lparr>vo_nodes := vo_nodes s @ [new_file s i data]\<rparr>"
  have n0: "new_node (Some i) (FileB (set_file_data (vo_flags s) (vgeo s) data file_init)) s = Some (?s0, Inr j)"
    by (simp add: new_node_def new_file_def j_def)
  have c: "create_file rd_blk wr_blk i name data mi ts s = vthen (create_node rd_blk wr_blk i j name mi ts) (vret j) ?s0"
    unfolding create_file_def by (simp add: vbind_def [of "new_node _ _"] n0)
  note d = vbind_def [of "ensure_entries rd_blk i"] vbind_def [of "case mi of None \<Rightarrow> default_meta_info | Some m \<Rightarrow> vret m"]
    vbind_def [of "create_blocks rd_blk wr_blk i j name m"]
  show "create_file rd_blk wr_blk i name data mi ts s = Some (s3, Inl err)" if "create_blocks rd_blk wr_blk i j name m s2 = Some (s3, Inl err)"
    using that e m unfolding c create_node_def by (simp add: vbind_def)
  show "create_file rd_blk wr_blk i name data mi ts s =
        vthen (vthen (set_hash_slot i (int h) n) (vthen (node_block_write wr_blk i) (vthen (mod_dir i (link_node h j))
          (if ts then vthen (update_dir_mod_time wr_blk i) (update_disk_time wr_blk) else vret ())))) (vret j) s3"
    if "create_blocks rd_blk wr_blk i j name m s2 = Some (s3, Inr (int h, n))" "\<not> vf_dircache (vo_flags s3)"
  proof -
    have "create_node rd_blk wr_blk i j name mi ts ?s0 =
        vthen (set_hash_slot i (int h) n) (vthen (node_block_write wr_blk i) (vthen (mod_dir i (link_node h j))
          (if ts then vthen (update_dir_mod_time wr_blk i) (update_disk_time wr_blk) else vret ()))) s3"
      unfolding create_node_def using that e m ln [of h] by (simp add: d)
    then show ?thesis unfolding c by (simp only: vbind_def [of _ "\<lambda>_. vret j"])
  qed
qed

end

text \<open>The new file has its blocks but is in no chain yet.\<close>

context block_device
begin

lemma file_placed:
  fixes data
  assumes s: "hdr_at s i t" "vol_dev_ok s" "loaded s i C" "vo_nodes s ! j = new_file s i data" "j \<noteq> i" "j < length (vo_nodes s)" and a: "dir_at s i a"
    and b: "bm_frame (vo_bitmap s) b1" "bm_wf b1" "free_set b1 \<subseteq> free_set (vo_bitmap s)" and d: "vol_dev_ok (s\<lparr>vo_dev := d'\<rparr>)"
    and f: "af_num f' = af_num f" "file_block_nums f' = file_block_nums f" "af_block f = Some b" "file_header_ok (vbl s) b" "en_name (fh_entry b) \<noteq> None"
      "af_block f' = Some (b\<lparr>fh_entry := entry_norm (fh_entry b)\<rparr>)"
  defines "s' \<equiv> set_body j (FileB f) (s\<lparr>vo_bitmap := b1, vo_dev := d'\<rparr>)"
  shows "hdr_at s' i t" "vol_dev_ok s'" "dir_at s' i a" "loaded s' i C" "node_is s' i j (FileB f')" "dir_num s' a = dir_num s a"
    "\<And>es. ad_entries a = Some es \<Longrightarrow> j \<notin> set es"
proof -
  have b1: "bm_geo b1 = vgeo s" "bm_root_num b1 = bm_root_num (vo_bitmap s)" using b(1) by (simp_all add: bm_frame_def)
  show "hdr_at s' i t" unfolding s'_def by (rule hdr_at_blocks [OF s(1) b s(5)])
  show "vol_dev_ok s'" using d b1 by (simp add: vol_dev_ok_def s'_def)
  have a': "dir_at s' i x" if "dir_at s i x" for x using that s(5) by (simp add: dir_at_def set_body_def s'_def)
  then show "dir_at s' i a" using a by blast
  have fr: "j \<notin> set es" if "ad_entries x = Some es" "dir_at s i x" for x es
    by (rule loaded_fresh [OF s(3) _ _ that(2,1), of j "set_file_data (vo_flags s) (vgeo s) data file_init"])
       (simp_all add: s(4) new_file_def set_file_data_def Let_def file_init_def)
  then show "j \<notin> set es" if "ad_entries a = Some es" for es using that a by blast
  show "loaded s' i C"
  proof (rule loaded_cong [OF s(3)])
    show "vbl s' = vbl s" using b1 by (simp add: s'_def)
    show "vo_nodes s' ! k = vo_nodes s ! k" if "dir_at s i x" "ad_entries x = Some es" "k \<in> set es" for x es k
    proof -
      have "k \<noteq> j" using fr [OF that(2,1)] that(3) by blast
      then show ?thesis by (simp add: set_body_def s'_def)
    qed
    show "dir_at s' i x" if "dir_at s i x" for x using a' [OF that] .
  qed (simp add: s'_def)
  show "node_is s' i j (FileB f')" using s(4-6) f b1 by (simp add: node_is_def set_body_def new_file_def same_entry_def s'_def)
  show "dir_num s' a = dir_num s a" using b1 by (simp add: dir_num_def s'_def cong: dir_block.case_cong)
qed

end

text \<open>The directory with a new entry is well kept when the new blocks come from the free ones.\<close>

lemma dir_ok_add:
  assumes h: "hdr_at s i t" "dir_at s i a" "loaded s i (add_chain h e C)" and on: "dir_on dk (vo_flags s) (vgeo s) t (add_chain h e C)"
    and n: "names_ok (vf_intl (vo_flags s)) (add_chain h e C)" and hC: "h < length C"
    and b: "distinct (e_nums e)" "set (e_nums e) \<subseteq> B" "free_set (vo_bitmap s) = B - set (e_nums e)" "B \<subseteq> {1..<bg_num_blocks (vgeo s)}"
    and C: "distinct (dir_blocks C)" "set (dir_blocks C) \<subseteq> {1..<bg_num_blocks (vgeo s)}"
      "{dir_num s a, bm_root_num (vo_bitmap s)} \<inter> set (dir_blocks C) = {}" "insert (dir_num s a) (set (dir_blocks C)) \<inter> B = {}" "bm_root_num (vo_bitmap s) \<notin> B"
  shows "dir_ok dk s i (add_chain h e C)"
proof -
  let ?C = "add_chain h e C"
  note bs = dir_blocks_add [OF hC, of e]
  have sb: "set (dir_blocks ?C) = set (e_nums e) \<union> set (dir_blocks C)" using mset_eq_setD [OF bs] by simp
  have "distinct (e_nums e @ dir_blocks C)" using b(1,2) C(1,4) by auto
  then have "distinct (dir_blocks ?C)" using mset_eq_imp_distinct_iff [OF bs] by simp
  moreover from h(1,2) have "vol_ok s" "hdr_ok s a" "table_of s a = Inr t" "hash_size_of s a = Inr (int (length t))" by (auto simp: hdr_at_def dir_at_def)
  moreover have "set (dir_blocks ?C) \<subseteq> {1..<bg_num_blocks (vgeo s)}" "{dir_num s a, bm_root_num (vo_bitmap s)} \<inter> set (dir_blocks ?C) = {}"
    "insert (dir_num s a) (set (dir_blocks ?C)) \<inter> free_set (vo_bitmap s) = {}" unfolding sb b(3) using b(2,4) C by auto
  ultimately show ?thesis unfolding dir_ok_def using h(2,3) on n by blast
qed

definition bitmap_took :: "int \<Rightarrow> adfs_bitmap \<Rightarrow> adfs_bitmap \<Rightarrow> bool" where
  "bitmap_took n b b' \<longleftrightarrow> (\<exists>b1. bm_frame b b1 \<and> bm_wf b1 \<and> bm_dirty b1 \<and> bm_num_used b1 = bm_num_used b + n \<and> root_change b1 b')"

text \<open>What a successful creation gives: the new file is the head of its chain and holds the data.\<close>

context block_device
begin

definition created :: "'d volume \<Rightarrow> nat \<Rightarrow> fs_body list list \<Rightarrow> string \<Rightarrow> byte list \<Rightarrow> 'd volume \<Rightarrow> bool" where
  "created s i C name data s' \<longleftrightarrow> (\<exists>h f a dx fx. h < length C \<and> dir_ok (vdisk s') s' i (add_chain h (FileB f) C) \<and> vol_dev_ok s' \<and>
     vo_flags s' = vo_flags s \<and> vgeo s' = vgeo s \<and>
     dir_map (vf_intl (vo_flags s)) (add_chain h (FileB f) C) = (dir_map (vf_intl (vo_flags s)) C)(upper (vf_intl (vo_flags s)) name \<mapsto> af_num f) \<and>
     distinct (file_block_nums f) \<and> int (length (file_block_nums f)) = blocks_needed (vo_flags s) (vgeo s) data \<and>
     set (file_block_nums f) \<subseteq> free_set (vo_bitmap s) \<and> free_set (vo_bitmap s') = free_set (vo_bitmap s) - set (file_block_nums f) \<and>
     bitmap_took (blocks_needed (vo_flags s) (vgeo s) data) (vo_bitmap s) (vo_bitmap s') \<and>
     dir_at s' i a \<and> table_on (vdisk s') s' a \<and> same_num i s s' \<and> (\<exists>x. nd_body (vo_nodes s' ! length (vo_nodes s)) = FileB x) \<and> e_name (FileB f) = name \<and>
     (\<exists>b. af_block f = Some b \<and> fh_byte_size b = int (length data)) \<and> data_on (vdisk s') (vo_flags s) (vgeo s) (af_num f) (af_data_nums f) data \<and>
     disk_frame (insert (dir_num s' a) (insert (bm_root_num (vo_bitmap s)) (set (file_block_nums f)))) (vgeo s) (vdisk s) (vdisk s') \<and>
     file_read rd_blk (vo_flags s) (vgeo s) f (vo_dev s') = (dx, Inr fx) \<and> af_data fx = Some data)"

text \<open>Linking and the times: from the state with the blocks of the file to the last one.\<close>

lemma link_times_ok:
  assumes hd: "hdr_at s i t" "vol_dev_ok s" "loaded s i C" "length C = length t" "h < length C" "node_is s i j e"
    and "\<And>es. ad_entries a = Some es \<Longrightarrow> j \<notin> set es" "u32_ok n" "dir_at s i a"
  shows "\<exists>s' a'. vthen (vthen (set_hash_slot i (int h) n) (vthen (node_block_write wr_blk i) (vthen (mod_dir i (link_node h j))
          (if ts then vthen (update_dir_mod_time wr_blk i) (update_disk_time wr_blk) else vret ())))) (vret k) s = Some (s', Inr k) \<and>
     hdr_at s' i (t[h := n]) \<and> vol_dev_ok s' \<and> loaded s' i (add_chain h e C) \<and> dir_at s' i a' \<and> table_on (vdisk s') s' a' \<and>
     dir_num s' a' = dir_num s a \<and> disk_frame {dir_num s a, bm_root_num (vo_bitmap s)} (vgeo s) (vdisk s) (vdisk s') \<and>
     vo_flags s' = vo_flags s \<and> root_change (vo_bitmap s) (vo_bitmap s') \<and> (\<forall>k < length (vo_nodes s). k \<noteq> i \<longrightarrow> vo_nodes s' ! k = vo_nodes s ! k)"
proof -
  from link_ok [OF assms] obtain s4 a4 where
    4: "\<forall>k :: ('d, unit) vprog. vthen (set_hash_slot i (int h) n) (vthen (node_block_write wr_blk i) (vthen (mod_dir i (link_node h j)) k)) s = k s4"
     "hdr_at s4 i (t[h := n])" "vol_dev_ok s4" "loaded s4 i (add_chain h e C)" "dir_at s4 i a4" "table_on (vdisk s4) s4 a4"
     "dir_num s4 a4 = dir_num s a" "disk_frame {dir_num s a} (vgeo s) (vdisk s) (vdisk s4)" "vo_flags s4 = vo_flags s"
     "root_change (vo_bitmap s) (vo_bitmap s4)" "\<forall>k < length (vo_nodes s). k \<noteq> i \<longrightarrow> vo_nodes s4 ! k = vo_nodes s ! k"
     "length (vo_nodes s) \<le> length (vo_nodes s4)" by blast
  from times_ok [OF 4(2,3,5,6), of ts] obtain s5 a5 where
    5: "(if ts then vthen (update_dir_mod_time wr_blk i) (update_disk_time wr_blk) else vret ()) s4 = Some (s5, Inr ())" "hdr_frame i s4 s5"
     "hdr_at s5 i (t[h := n])" "vol_dev_ok s5" "dir_at s5 i a5" "table_on (vdisk s5) s5 a5"
     "disk_frame {dir_num s4 a4, bm_root_num (vo_bitmap s4)} (vgeo s4) (vdisk s4) (vdisk s5)" by blast
  have b4: "vgeo s4 = vgeo s" "bm_root_num (vo_bitmap s4) = bm_root_num (vo_bitmap s)" using root_change_fields [OF 4(10)] by simp_all
  have "root_change (vo_bitmap s) (vo_bitmap s5)" using 4(10) 5(2) root_change_trans unfolding hdr_frame_def by blast
  moreover have "dir_num s5 a5 = dir_num s a" "vo_flags s5 = vo_flags s" using 5(2,5) 4(5,7,9) by (auto simp: hdr_frame_def dir_at_def)
  moreover have "disk_frame {dir_num s a, bm_root_num (vo_bitmap s)} (vgeo s) (vdisk s) (vdisk s5)"
    using disk_frame_trans [OF 4(8) 5(7) [unfolded 4(7) b4]] by (simp add: disk_frame_def)
  moreover have "vthen (vthen (set_hash_slot i (int h) n) (vthen (node_block_write wr_blk i) (vthen (mod_dir i (link_node h j))
          (if ts then vthen (update_dir_mod_time wr_blk i) (update_disk_time wr_blk) else vret ())))) (vret k) s = Some (s5, Inr k)"
  proof -
    from spec [OF 4(1), of "if ts then vthen (update_dir_mod_time wr_blk i) (update_disk_time wr_blk) else vret ()"] 5(1)
    have "vthen (set_hash_slot i (int h) n) (vthen (node_block_write wr_blk i) (vthen (mod_dir i (link_node h j))
          (if ts then vthen (update_dir_mod_time wr_blk i) (update_disk_time wr_blk) else vret ()))) s = Some (s5, Inr ())" by (rule trans)
    then show ?thesis by (simp only: vbind_def [of _ "\<lambda>_. vret k"]) (simp add: vret_def)
  qed
  moreover have "\<forall>k < length (vo_nodes s). k \<noteq> i \<longrightarrow> vo_nodes s5 ! k = vo_nodes s ! k" using 4(11,12) 5(2) by (simp add: hdr_frame_def)
  ultimately show ?thesis using 5(2-6) hdr_frame_loaded [OF 5(2) 4(4)] by blast
qed

lemma create_file_ok:
  fixes data
  assumes ok: "dir_ok (vdisk s) s i C" and dev: "vol_dev_ok s" and mi: "name_mi_ok name mi" and len: "u32_ok (int (length data))"
    and new: "dir_map (vf_intl (vo_flags s)) C (upper (vf_intl (vo_flags s)) name) = None"
    and room: "blocks_needed (vo_flags s) (vgeo s) data \<le> int (card (free_set (vo_bitmap s)))"
  shows "\<exists>s'. create_file rd_blk wr_blk i name data mi ts s = Some (s', Inr (length (vo_nodes s))) \<and> created s i C name data s'"
proof -
  let ?v = "vo_flags s" and ?g = "vgeo s" and ?j = "length (vo_nodes s)" and ?B = "free_set (vo_bitmap s)"
  from create_start [OF ok dev mi, of data] obtain t s1 s2 m where
    1: "ensure_entries rd_blk i (s\<lparr>vo_nodes := vo_nodes s @ [new_file s i data]\<rparr>) = Some (s1, Inr ())"
     "(case mi of None \<Rightarrow> default_meta_info | Some m \<Rightarrow> vret m) s1 = Some (s2, Inr m)" "meta_ok name m"
     "hdr_at s2 i t" "vol_dev_ok s2" "loaded s2 i C" "same_blocks (vo_dev s) (vo_dev s2)" "vo_flags s2 = ?v" "vo_bitmap s2 = vo_bitmap s"
     "dir_on (vdisk s2) ?v ?g t C" "vo_nodes s2 ! ?j = new_file s i data" "?j \<noteq> i" "?j < length (vo_nodes s2)"
    and 2: "\<forall>a. dir_at s2 i a \<longrightarrow> {dir_num s2 a, bm_root_num (vo_bitmap s)} \<inter> set (dir_blocks C) = {} \<and> insert (dir_num s2 a) (set (dir_blocks C)) \<inter> ?B = {}"
    and sn: "same_num i s s2" by blast
  from ok have D: "names_ok (vf_intl ?v) C" "distinct (dir_blocks C)" "set (dir_blocks C) \<subseteq> {1..<bg_num_blocks ?g}" "vol_ok s" by (auto simp: dir_ok_def)
  have nf: "new_file s2 i data = new_file s i data" using 1(8,9) by (simp add: new_file_def)
  from create_blocks_ok(3) [OF 1(4-6) _ _ 1(11) [folded nf, unfolded new_file_def] 1(3) len] 1(8-10) D(1) new room obtain h b1 blks f b f' d' where
   nh: "name_hash (vf_intl ?v) name (int (length C)) = Inr (int h)" and h: "h < length C" and
   c: "create_blocks rd_blk wr_blk i ?j name m s2 = Some (set_body ?j (FileB f) (s2\<lparr>vo_bitmap := b1, vo_dev := d'\<rparr>), Inr (int h, hd blks))" and
   b: "distinct blks" "blks \<noteq> []" "int (length blks) = blocks_needed ?v ?g data" "set blks \<subseteq> ?B" "free_set b1 = ?B - set blks" "bm_wf b1" "bm_frame (vo_bitmap s) b1"
     "bm_dirty b1" "bm_num_used b1 = bm_num_used (vo_bitmap s) + blocks_needed ?v ?g data" and
   f: "af_num f = hd blks" "file_block_nums f = blks" "af_block f = Some b" "file_header_ok (vbl s2) b" "en_name (fh_entry b) = Some name" "fh_hash_chain b = t ! h"
      "fh_byte_size b = int (length data)" and
   d': "vol_dev_ok (s2\<lparr>vo_dev := d'\<rparr>)" "disk_frame (set blks) ?g (vdisk s2) (disk_of d')" and
   f': "file_on (disk_of d') ?v ?g f'" "af_num f' = hd blks" "file_block_nums f' = blks" "af_block f' = Some (b\<lparr>fh_entry := entry_norm (fh_entry b)\<rparr>)"
      "data_on (disk_of d') ?v ?g (hd blks) (af_data_nums f') data" by auto
  let ?s3 = "set_body ?j (FileB f) (s2\<lparr>vo_bitmap := b1, vo_dev := d'\<rparr>)" let ?e = "FileB f'" let ?C = "add_chain h ?e C"
  have lC: "length C = length t" using 1(10) by (simp add: dir_on_def)
  from hdr_at_dir [OF 1(4)] obtain a where a: "dir_at s2 i a" "hdr_ok s2 a" by blast
  with 2 have dj: "{dir_num s2 a, bm_root_num (vo_bitmap s)} \<inter> set (dir_blocks C) = {}" "insert (dir_num s2 a) (set (dir_blocks C)) \<inter> ?B = {}" by blast+
  have rt: "bm_root_num (vo_bitmap s) \<notin> ?B" "file_geo_ok ?g" "?B \<subseteq> {1..<bg_num_blocks ?g}" using D(4) by (auto simp: vol_ok_def free_set_def blk_range_def)
  have hb: "hd blks \<in> ?B" using b(2,4) hd_in_set by blast
  then have un: "u32_ok (hd blks)" "hd blks \<noteq> 0" using rt(2,3) by (auto simp: u32_ok_def file_geo_ok_def)
  have bf: "bm_frame (vo_bitmap s2) b1" "free_set b1 \<subseteq> free_set (vo_bitmap s2)" using b(5,7) 1(9) by auto
  note p = file_placed [OF 1(4-6) 1(11) [folded nf] 1(12,13) a(1) bf(1) b(6) bf(2) d'(1), of f' f b]
  have p: "hdr_at ?s3 i t" "vol_dev_ok ?s3" "dir_at ?s3 i a" "loaded ?s3 i C" "node_is ?s3 i ?j ?e" "dir_num ?s3 a = dir_num s2 a"
    "\<And>es. ad_entries a = Some es \<Longrightarrow> ?j \<notin> set es" using p f f' by auto
  from link_times_ok [OF p(1,2,4) lC h p(5,7) un(1) p(3), of ts ?j] obtain s5 a5 where
   5: "vthen (vthen (set_hash_slot i (int h) (hd blks)) (vthen (node_block_write wr_blk i) (vthen (mod_dir i (link_node h ?j))
          (if ts then vthen (update_dir_mod_time wr_blk i) (update_disk_time wr_blk) else vret ())))) (vret ?j) ?s3 = Some (s5, Inr ?j)"
     "hdr_at s5 i (t[h := hd blks])" "vol_dev_ok s5" "loaded s5 i ?C" "dir_at s5 i a5" "table_on (vdisk s5) s5 a5"
     "dir_num s5 a5 = dir_num ?s3 a" "disk_frame {dir_num ?s3 a, bm_root_num (vo_bitmap ?s3)} (vgeo ?s3) (vdisk ?s3) (vdisk s5)"
     "vo_flags s5 = vo_flags ?s3" "root_change (vo_bitmap ?s3) (vo_bitmap s5)"
     "\<forall>k < length (vo_nodes ?s3). k \<noteq> i \<longrightarrow> vo_nodes s5 ! k = vo_nodes ?s3 ! k" by blast
  have rc: "root_change b1 (vo_bitmap s5)" using 5(10) by simp
  have bj: "nd_body (vo_nodes s5 ! ?j) = FileB f" using 5(11) 1(12,13) by (simp add: set_body_def)
  have b5: "vgeo s5 = ?g" "bm_root_num (vo_bitmap s5) = bm_root_num (vo_bitmap s)" "free_set (vo_bitmap s5) = ?B - set blks"
    using b(5,7) by (simp_all add: root_change_fields [OF rc] bm_frame_def)
  have v5: "vo_flags s5 = ?v" and n5: "dir_num s5 a5 = dir_num s2 a" using 5(7,9) 1(8) p(6) by simp_all
  let ?H = "{dir_num s2 a, bm_root_num (vo_bitmap s)}"
  have fr35: "disk_frame ?H ?g (disk_of d') (vdisk s5)" using 5(8) p(6) b(7) by (simp add: bm_frame_def)
  have fr: "disk_frame (?H \<union> set blks) ?g (vdisk s2) (vdisk s5)" using disk_frame_trans [OF d'(2) fr35] by (simp add: Un_commute)
  then have fr0: "disk_frame (insert (dir_num s5 a5) (insert (bm_root_num (vo_bitmap s)) (set blks))) ?g (vdisk s) (vdisk s5)"
    using 1(7) dev n5 by (simp add: disk_frame_def same_blocks_def vol_dev_ok_def)
  have bH: "disk_of d' n = vdisk s5 n" if "n \<in> set blks" for n
    by (rule disk_frameD [OF fr35]) (use that rt(1,3) b(4) dj(2) in blast)+
  have fo: "file_on (vdisk s5) ?v ?g f'" by (rule file_on_cong [OF f'(1)]) (simp add: f'(3) bH)
  have "set (af_data_nums f') \<subseteq> set blks" using f'(3) by (auto simp: file_block_nums_def)
  then have dt: "data_on (vdisk s5) ?v ?g (hd blks) (af_data_nums f') data" by (intro data_on_cong [OF f'(5)]) (auto simp: bH)
  have "vdisk s2 n = vdisk s5 n" if "n \<in> set (dir_blocks C)" for n
    by (rule disk_frameD [OF fr]) (use that D(3) dj b(4) in blast)+
  then have "\<forall>n \<in> set (dir_blocks C). vdisk s2 n = vdisk s5 n" by blast
  from dir_on_add [OF 1(10) this, of ?e h] have on5: "dir_on (vdisk s5) ?v ?g (t[h := hd blks]) ?C"
    using fo f'(2,4) f(6) un(2) h lC by (simp add: entry_on_def e_num_def e_chain_def)
  have en: "e_name ?e = name" "e_num ?e = hd blks" "e_nums ?e = blks" using f'(2-4) f(5) by (simp_all add: e_name_def e_entry_def e_num_def e_nums_def)
  have pn: "plain_name name" using mi by (auto simp: name_mi_ok_def name_ok_def meta_ok_def split: option.splits)
  note nm = names_ok_add [OF D(1), of ?e, unfolded en, OF pn nh h new] and mp = dir_map_add [OF D(1), of ?e, unfolded en, OF pn nh h new]
  have ok5: "dir_ok (vdisk s5) s5 i ?C"
    by (rule dir_ok_add [OF 5(2,5,4), of _ ?B]) (use on5 nm h b(1,4) en(3) b5 v5 rt D(2,3) dj n5 in simp_all)
  have w5: "wf (vo_dev s5)" "num (vo_dev s5) = bg_num_blocks ?g" "bytes (vo_dev s5) = bg_block_bytes ?g" using 5(3) b5(1) by (simp_all add: vol_dev_ok_def)
  from file_read_on [OF dt f'(4) _ rt(2) w5] f(7) obtain dx fx where rd: "file_read rd_blk ?v ?g f' (vo_dev s5) = (dx, Inr fx)" "af_data fx = Some data" by auto
  have "\<not> vf_dircache (vo_flags ?s3)" using D(4) 1(8) by (simp add: vol_ok_def)
  from create_file_run(2) [OF 1(1,2) c this] 5(1) have run: "create_file rd_blk wr_blk i name data mi ts s = Some (s5, Inr ?j)" by simp
  moreover have "bitmap_took (blocks_needed ?v ?g data) (vo_bitmap s) (vo_bitmap s5)" unfolding bitmap_took_def using b(6-9) rc by blast
  moreover have "same_num i s s5" using sn a(1) 5(5) n5 by (auto simp: same_num_def dir_at_def)
  ultimately have "created s i C name data s5" unfolding created_def
    using h ok5 5(3,5,6) b5 v5 mp f'(2-4) b(1,3,4) fr0 rd en(1) f(7) dt bj by (intro exI [of _ h] exI [of _ f'] exI [of _ a5] exI [of _ dx] exI [of _ fx]) simp
  then show ?thesis using run by blast
qed

end

subsection \<open>Looking up and refusing\<close>

lemma dir_okI:
  assumes "hdr_at s i t" "dir_at s i a" "loaded s i C" "dir_on dk (vo_flags s) (vgeo s) t C" "names_ok (vf_intl (vo_flags s)) C"
    "distinct (dir_blocks C)" "set (dir_blocks C) \<subseteq> {1..<bg_num_blocks (vgeo s)}"
    "{dir_num s a, bm_root_num (vo_bitmap s)} \<inter> set (dir_blocks C) = {}" "insert (dir_num s a) (set (dir_blocks C)) \<inter> free_set (vo_bitmap s) = {}"
  shows "dir_ok dk s i C"
proof -
  from assms(1,2) have "vol_ok s" "hdr_ok s a" "table_of s a = Inr t" "hash_size_of s a = Inr (int (length t))" by (auto simp: hdr_at_def dir_at_def)
  with assms show ?thesis unfolding dir_ok_def by blast
qed

context block_device
begin

lemma create_file_refused:
  fixes data
  assumes ok: "dir_ok (vdisk s) s i C" and dev: "vol_dev_ok s" and mi: "name_mi_ok name mi" and len: "u32_ok (int (length data))"
    and r: "dir_map (vf_intl (vo_flags s)) C (upper (vf_intl (vo_flags s)) name) \<noteq> None \<and> e = NAME_ALREADY_EXISTS \<or>
      dir_map (vf_intl (vo_flags s)) C (upper (vf_intl (vo_flags s)) name) = None \<and> int (card (free_set (vo_bitmap s))) < blocks_needed (vo_flags s) (vgeo s) data \<and>
        e = NO_FREE_BLOCKS"
  shows "\<exists>s'. create_file rd_blk wr_blk i name data mi ts s = Some (s', Inl e) \<and> dir_ok (vdisk s') s' i C \<and> vol_dev_ok s' \<and>
    same_blocks (vo_dev s) (vo_dev s') \<and> vo_flags s' = vo_flags s \<and> vo_bitmap s' = vo_bitmap s"
proof -
  from create_start [OF ok dev mi, of data] obtain t s1 s2 m where
    1: "ensure_entries rd_blk i (s\<lparr>vo_nodes := vo_nodes s @ [new_file s i data]\<rparr>) = Some (s1, Inr ())"
     "(case mi of None \<Rightarrow> default_meta_info | Some m \<Rightarrow> vret m) s1 = Some (s2, Inr m)" "meta_ok name m"
     "hdr_at s2 i t" "vol_dev_ok s2" "loaded s2 i C" "same_blocks (vo_dev s) (vo_dev s2)" "vo_flags s2 = vo_flags s" "vo_bitmap s2 = vo_bitmap s"
     "dir_on (vdisk s2) (vo_flags s) (vgeo s) t C" "vo_nodes s2 ! length (vo_nodes s) = new_file s i data"
    and 2: "\<forall>a. dir_at s2 i a \<longrightarrow> {dir_num s2 a, bm_root_num (vo_bitmap s)} \<inter> set (dir_blocks C) = {} \<and>
       insert (dir_num s2 a) (set (dir_blocks C)) \<inter> free_set (vo_bitmap s) = {}" by blast
  from ok have D: "names_ok (vf_intl (vo_flags s)) C" "distinct (dir_blocks C)" "set (dir_blocks C) \<subseteq> {1..<bg_num_blocks (vgeo s)}" by (auto simp: dir_ok_def)
  have on2: "dir_on (vdisk s2) (vo_flags s2) (vgeo s2) t C" "names_ok (vf_intl (vo_flags s2)) C" using 1(8-10) D(1) by simp_all
  have j: "vo_nodes s2 ! length (vo_nodes s) = \<lparr>nd_parent = Some i, nd_body = FileB (set_file_data (vo_flags s2) (vgeo s2) data file_init)\<rparr>"
    using 1(8,9,11) by (simp add: new_file_def)
  have "create_blocks rd_blk wr_blk i (length (vo_nodes s)) name m s2 = Some (s2, Inl e)"
    using create_blocks_ok(1,2) [OF 1(4-6) on2 j 1(3) len] r 1(8,9) by auto
  from create_file_run(1) [OF 1(1,2) this] have "create_file rd_blk wr_blk i name data mi ts s = Some (s2, Inl e)" .
  moreover from hdr_at_dir [OF 1(4)] obtain a where "dir_at s2 i a" by blast
  then have "dir_ok (vdisk s2) s2 i C" using 2 D on2 1(4,6,8,9) by (intro dir_okI [of s2 i t a C]) simp_all
  ultimately show ?thesis using 1(5,7-9) by blast
qed

lemma lookup_ok:
  assumes ok: "dir_ok (vdisk s) s i C" and dev: "vol_dev_ok s" and nm: "plain_name name"
  shows "\<exists>s' r. get_path rd_blk af ad [name] i s = Some (s', Inr r) \<and> dir_ok (vdisk s') s' i C \<and> vol_dev_ok s' \<and>
    same_blocks (vo_dev s) (vo_dev s') \<and> vo_flags s' = vo_flags s \<and> vo_bitmap s' = vo_bitmap s \<and> dir_step i s s' \<and>
    vo_root_dir s' = vo_root_dir s \<and> (loaded s i C \<and> concat C \<noteq> [] \<longrightarrow> s' = s) \<and>
    (case dir_map (vf_intl (vo_flags s)) C (upper (vf_intl (vo_flags s)) name) of None \<Rightarrow> r = None
     | Some n \<Rightarrow> \<exists>e j. e \<in> set (concat C) \<and> e_num e = n \<and> node_is s' i j e \<and>
         r = (if (if is_dir_node (vo_nodes s' ! j) then ad else af) then Some j else None))"
proof -
  let ?i = "vf_intl (vo_flags s)" let ?u = "upper ?i name"
  from ok obtain a t where a: "vol_ok s" "dir_at s i a" "hdr_ok s a" "table_of s a = Inr t" "hash_size_of s a = Inr (int (length t))"
     "dir_on (vdisk s) (vo_flags s) (vgeo s) t C" "names_ok ?i C" "loaded s i C \<or> ad_entries a = None \<or> ad_entries a = Some []"
     "distinct (dir_blocks C)" "set (dir_blocks C) \<subseteq> {1..<bg_num_blocks (vgeo s)}"
     "{dir_num s a, bm_root_num (vo_bitmap s)} \<inter> set (dir_blocks C) = {}"
     "insert (dir_num s a) (set (dir_blocks C)) \<inter> free_set (vo_bitmap s) = {}" unfolding dir_ok_def by blast
  then have h: "hdr_at s i t" and dc: "\<not> vf_dircache (vo_flags s)" by (auto simp: hdr_at_def vol_ok_def)
  from ensure_entries_ok [OF dev a(2) dc a(4-6,8)] obtain s1 where
    1: "ensure_entries rd_blk i s = Some (s1, Inr ())" "loaded s1 i C" "dir_step i s s1" "same_blocks (vo_dev s) (vo_dev s1)"
    "vo_root_dir s1 = vo_root_dir s" "loaded s i C \<and> concat C \<noteq> [] \<longrightarrow> s1 = s" by blast
  have f1: "vo_flags s1 = vo_flags s" "vo_bitmap s1 = vo_bitmap s" using 1(3) by (simp_all add: dir_step_def)
  have d1: "vol_dev_ok s1" by (rule vol_dev_ok_same [OF dev 1(4)]) (simp_all add: f1)
  from 1(3) a(2) obtain a1 where a1: "dir_at s1 i a1" "ad_num a1 = ad_num a" "ad_block a1 = ad_block a" unfolding dir_step_def by blast
  have n1: "dir_num s1 a1 = dir_num s a" using a1 f1 by (simp add: dir_num_def cong: dir_block.case_cong)
  have on1: "dir_on (vdisk s1) (vo_flags s1) (vgeo s1) t C" using dir_on_same [OF 1(4), of "vgeo s" "vo_flags s" t C] a(6) dev f1 by (simp add: vol_dev_ok_def)
  have ok1: "dir_ok (vdisk s1) s1 i C"
    by (rule dir_okI [OF hdr_at_step [OF 1(3) h] a1(1) 1(2) on1]) (use a f1 n1 in simp_all)
  obtain b es where b: "dir_at s1 i b" "ad_entries b = Some es" "\<And>j. j \<in> set es \<Longrightarrow> \<exists>e \<in> set (concat C). node_is s1 i j e"
    "\<And>e. e \<in> set (concat C) \<Longrightarrow> \<exists>j \<in> set es. node_is s1 i j e" using loaded_nodes [OF 1(2)] by metis
  have ge: "get_entries rd_blk i s = Some (s1, Inr es)" using 1(1) b(1,2) by (simp add: get_entries_def entries_of_def vbind_def)
  have ex: "\<forall>j \<in> set es. \<exists>e \<in> set (concat C). node_is s1 i j e" using b(3) by blast
  have pl: "\<forall>e \<in> set (concat C). plain_name (e_name e)"
  proof
    fix e assume "e \<in> set (concat C)"
    then obtain k where "k < length C" "e \<in> set (C ! k)" unfolding concat_nth by blast
    then show "plain_name (e_name e)" using a(7) by (simp add: names_ok_def)
  qed
  from find_upper_nodes [OF ex pl, of ?u] obtain r where r: "find_upper s1 ?u es = Inr r"
    "r = None \<longrightarrow> (\<forall>j \<in> set es. \<forall>e. node_is s1 i j e \<longrightarrow> upper ?i (e_name e) \<noteq> ?u)"
    "\<forall>j. r = Some j \<longrightarrow> j \<in> set es \<and> (\<exists>e \<in> set (concat C). node_is s1 i j e \<and> upper ?i (e_name e) = ?u)" unfolding f1 by blast
  define r' where "r' = (case r of None \<Rightarrow> None | Some j \<Rightarrow> if (if is_dir_node (vo_nodes s1 ! j) then ad else af) then Some j else None)"
  have run: "get_path rd_blk af ad [name] i s = Some (s1, Inr r')"
  proof -
    have "es = [] \<longrightarrow> r = None" using r(3) by (cases r) auto
    then show ?thesis using ge r(1) upper_plain [OF nm]
      by (cases r) (auto simp: vbind_def [of "get_entries rd_blk i"] f1 r'_def)
  qed
  have "case dir_map ?i C ?u of None \<Rightarrow> r' = None | Some n \<Rightarrow> \<exists>e j. e \<in> set (concat C) \<and> e_num e = n \<and> node_is s1 i j e \<and>
         r' = (if (if is_dir_node (vo_nodes s1 ! j) then ad else af) then Some j else None)"
  proof (cases r)
    case None
    have "dir_map ?i C ?u = None" unfolding dir_map_None
    proof
      fix e assume "e \<in> set (concat C)"
      with b(4) obtain j where "j \<in> set es" "node_is s1 i j e" by blast
      with r(2) None show "upper ?i (e_name e) \<noteq> ?u" by blast
    qed
    then show ?thesis by (simp add: r'_def None)
  next
    case (Some j)
    with r(3) obtain e where e: "e \<in> set (concat C)" "node_is s1 i j e" "upper ?i (e_name e) = ?u" by blast
    then have m: "dir_map ?i C ?u = Some (e_num e)" unfolding dir_map_Some [OF a(7)] by blast
    show ?thesis unfolding m option.case using e by (intro exI [of _ e] exI [of _ j]) (simp add: r'_def Some)
  qed
  then show ?thesis using run ok1 d1 1(3-6) f1 by blast
qed

end

subsection \<open>Properties\<close>

definition part_disk :: "part_dev volume \<Rightarrow> disk" where
  "part_disk s = (\<lambda>n. snd (part_read_block (vo_dev s) n))"

definition part_ok :: "part_dev volume \<Rightarrow> bool" where
  "part_ok s \<longleftrightarrow> part_dev_ok (vo_dev s) \<and> bg_num_blocks (pt_geo (vo_dev s)) = bg_num_blocks (vgeo s) \<and>
     bg_block_bytes (pt_geo (vo_dev s)) = bg_block_bytes (vgeo s)"

lemma part_vol: "part.vol_dev_ok = part_ok"
  by (rule ext) (simp add: part.vol_dev_ok_def part_ok_def)

lemma same_frame: "part.same_blocks (vo_dev s) (vo_dev s') \<Longrightarrow> part_ok s \<Longrightarrow> disk_frame {} (vgeo s) (part_disk s) (part_disk s')"
  by (simp add: part.same_blocks_def part_ok_def disk_frame_def part_disk_def)

text \<open>C7: on a volume without directory cache and long names, finding a name in a well kept directory of a partition is
  looking its upper case form up in the map of the directory: nothing is found when the map does not have it,
  otherwise the entry the map names, if its kind is asked for. Well kept means that each hash chain is finite, its
  entries are in the chain of their name, no name is there twice, and the blocks of the directory and its entries are
  different blocks of the volume that are not free. The search reads the directory when it is not in
  memory, returns for every such directory, changes no block and keeps the directory.\<close>

theorem directory_lookup:
  assumes "part_ok s" and "dir_ok (part_disk s) s i C" and "plain_name name"
  shows "\<exists>s' r. get_path part_read_block allow_file allow_dir [name] i s = Some (s', Inr r) \<and> dir_ok (part_disk s') s' i C \<and> part_ok s' \<and>
    disk_frame {} (vgeo s) (part_disk s) (part_disk s') \<and> vo_bitmap s' = vo_bitmap s \<and>
    (case dir_map (vf_intl (vo_flags s)) C (upper (vf_intl (vo_flags s)) name) of None \<Rightarrow> r = None
     | Some n \<Rightarrow> \<exists>j. node_num s' (vo_nodes s' ! j) = n \<and> nd_parent (vo_nodes s' ! j) = Some i \<and>
         r = (if (if is_dir_node (vo_nodes s' ! j) then allow_dir else allow_file) then Some j else None))"
proof -
  from part.lookup_ok [OF assms(2) [unfolded part_disk_def] assms(1) [folded part_vol] assms(3), of allow_file allow_dir] obtain s' r where
    l: "get_path part_read_block allow_file allow_dir [name] i s = Some (s', Inr r)" "dir_ok (part_disk s') s' i C" "part_ok s'"
    "part.same_blocks (vo_dev s) (vo_dev s')" "vo_bitmap s' = vo_bitmap s"
    "case dir_map (vf_intl (vo_flags s)) C (upper (vf_intl (vo_flags s)) name) of None \<Rightarrow> r = None
     | Some n \<Rightarrow> \<exists>e j. e \<in> set (concat C) \<and> e_num e = n \<and> node_is s' i j e \<and>
         r = (if (if is_dir_node (vo_nodes s' ! j) then allow_dir else allow_file) then Some j else None)"
    unfolding part_vol part_disk_def by blast
  have "case dir_map (vf_intl (vo_flags s)) C (upper (vf_intl (vo_flags s)) name) of None \<Rightarrow> r = None
     | Some n \<Rightarrow> \<exists>j. node_num s' (vo_nodes s' ! j) = n \<and> nd_parent (vo_nodes s' ! j) = Some i \<and>
         r = (if (if is_dir_node (vo_nodes s' ! j) then allow_dir else allow_file) then Some j else None)"
    using l(6) node_is_name(2) [of s' i] by (fastforce simp: node_is_def split: option.splits)
  with l(1-3,5) same_frame [OF l(4) assms(1)] show ?thesis by blast
qed

text \<open>C3: creating a file in a well kept directory of a partition, on a volume without directory cache and long names,
  under a name of at most 30 characters. A name that is there already, or too few free blocks, is an error that
  changes no block and takes none. Otherwise the directory gets exactly the new entry: its map changes at the name
  only, on disk its table and chains are those of the new map, the file takes as many free blocks as it needs and
  keeps its data, and no other block changes but the headers of the directory and of the root. The directory is well
  kept in every case.\<close>

theorem create_file_in_directory:
  fixes data :: "byte list"
  assumes "part_ok s" and "dir_ok (part_disk s) s i C" and "name_mi_ok name mi" and "u32_ok (int (length data))"
  shows "let intl = vf_intl (vo_flags s); u = upper intl name; n = blocks_needed (vo_flags s) (vgeo s) data; F = free_set (vo_bitmap s) in
    if dir_map intl C u \<noteq> None \<or> int (card F) < n
    then \<exists>s'. create_file part_read_block part_write_block i name data mi update_ts s =
           Some (s', Inl (if dir_map intl C u \<noteq> None then NAME_ALREADY_EXISTS else NO_FREE_BLOCKS)) \<and>
         dir_ok (part_disk s') s' i C \<and> part_ok s' \<and> disk_frame {} (vgeo s) (part_disk s) (part_disk s') \<and> vo_bitmap s' = vo_bitmap s
    else \<exists>s' h f a. create_file part_read_block part_write_block i name data mi update_ts s = Some (s', Inr (length (vo_nodes s))) \<and>
         dir_ok (part_disk s') s' i (add_chain h (FileB f) C) \<and> part_ok s' \<and>
         dir_map intl (add_chain h (FileB f) C) = (dir_map intl C)(u \<mapsto> af_num f) \<and>
         dir_at s' i a \<and> table_on (part_disk s') s' a \<and>
         int (card (set (file_block_nums f))) = n \<and> set (file_block_nums f) \<subseteq> F \<and> free_set (vo_bitmap s') = F - set (file_block_nums f) \<and>
         disk_frame ({dir_num s' a, bm_root_num (vo_bitmap s)} \<union> set (file_block_nums f)) (vgeo s) (part_disk s) (part_disk s') \<and>
         map_option af_data (case file_read part_read_block (vo_flags s) (vgeo s) f (vo_dev s') of (d, Inr f') \<Rightarrow> Some f' | _ \<Rightarrow> None) = Some (Some data)"
proof -
  let ?i = "vf_intl (vo_flags s)" let ?m = "dir_map ?i C (upper ?i name)" and ?n = "blocks_needed (vo_flags s) (vgeo s) data" and ?F = "free_set (vo_bitmap s)"
  let ?e = "if ?m \<noteq> None then NAME_ALREADY_EXISTS else NO_FREE_BLOCKS"
  note a = assms(2) [unfolded part_disk_def] assms(1) [folded part_vol] assms(3,4)
  show ?thesis
  proof (cases "?m \<noteq> None \<or> int (card ?F) < ?n")
    case True
    then have "?m \<noteq> None \<and> ?e = NAME_ALREADY_EXISTS \<or> ?m = None \<and> int (card ?F) < ?n \<and> ?e = NO_FREE_BLOCKS" by auto
    from part.create_file_refused [OF a this, of update_ts] obtain s' where
      r: "create_file part_read_block part_write_block i name data mi update_ts s = Some (s', Inl ?e)" "dir_ok (part_disk s') s' i C" "part_ok s'"
      "part.same_blocks (vo_dev s) (vo_dev s')" "vo_bitmap s' = vo_bitmap s" unfolding part_vol part_disk_def by blast
    show ?thesis unfolding Let_def if_P [OF True] using r(1-3,5) same_frame [OF r(4) assms(1)] by blast
  next
    case False
    then have "?m = None" "?n \<le> int (card ?F)" by simp_all
    from part.create_file_ok [OF a this, of update_ts] obtain s' where
      s': "create_file part_read_block part_write_block i name data mi update_ts s = Some (s', Inr (length (vo_nodes s)))" "part.created s i C name data s'" by blast
    from s'(2) obtain h f a dx fx where c: "dir_ok (part_disk s') s' i (add_chain h (FileB f) C)" "part_ok s'"
      "dir_map ?i (add_chain h (FileB f) C) = (dir_map ?i C)(upper ?i name \<mapsto> af_num f)" "distinct (file_block_nums f)" "int (length (file_block_nums f)) = ?n"
      "set (file_block_nums f) \<subseteq> ?F" "free_set (vo_bitmap s') = ?F - set (file_block_nums f)" "dir_at s' i a" "table_on (part_disk s') s' a"
      "disk_frame (insert (dir_num s' a) (insert (bm_root_num (vo_bitmap s)) (set (file_block_nums f)))) (vgeo s) (part_disk s) (part_disk s')"
      "file_read part_read_block (vo_flags s) (vgeo s) f (vo_dev s') = (dx, Inr fx)" "af_data fx = Some data"
      unfolding part.created_def part_vol part_disk_def by blast
    show ?thesis unfolding Let_def if_not_P [OF False] using s'(1) c
      by (intro exI [of _ s'] exI [of _ h] exI [of _ f] exI [of _ a]) (simp add: distinct_card)
  qed
qed

text \<open>The root directory of a fresh partition.\<close>

definition fresh_volume :: "part_dev \<Rightarrow> adfs_bitmap \<Rightarrow> part_dev volume" where
  "fresh_volume p b = \<lparr>vo_dev = p, vo_flags = \<lparr>vf_ffs = True, vf_intl = False, vf_dircache = False, vf_longname = False\<rparr>,
     vo_bitmap = b\<lparr>bm_root := root_create 128 ''Work'' None None None 0 0, bm_root_num := 15\<rparr>, vo_root_valid = True,
     vo_nodes = [\<lparr>nd_parent = None, nd_body = DirB (dir_init\<lparr>ad_block := RootBlk, ad_valid := True\<rparr>)\<rparr>],
     vo_clock = (\<lambda>n. \<lparr>ts_days = int n mod 2 ^ 32, ts_mins = 0, ts_ticks = 0\<rparr>), vo_boot = None, vo_root_dir = Some 0, vo_valid = True,
     vo_name = Some ''Work'', vo_meta = None\<rparr>"

lemma small_volume:
  obtains m p b where "img_create False 512 100 = Inr m"
    "part_open (img_open m) (dos_env_init\<lparr>de_surfaces := 1, de_blk_per_trk := 10, de_low_cyl := 2, de_high_cyl := 4\<rparr>) = Inr p"
    "bm_create (bm_init (pt_geo p) 15 (root_create 128 ''Work'' None None None 0 0)) = Inr b"
    "part_ok (fresh_volume p b)" "dir_ok (part_disk (fresh_volume p b)) (fresh_volume p b) 0 (replicate 72 [])"
    "card (free_set (vo_bitmap (fresh_volume p b))) = 26" "bg_block_bytes (vgeo (fresh_volume p b)) = 512" "bg_block_longs (vgeo (fresh_volume p b)) = 128"
proof -
  obtain m p b where s: "img_create False 512 100 = Inr m"
    "part_open (img_open m) (dos_env_init\<lparr>de_surfaces := 1, de_blk_per_trk := 10, de_low_cyl := 2, de_high_cyl := 4\<rparr>) = Inr p"
    "part_dev_ok p" "pt_geo p = set_geometry 3 1 10 512 2 2" "bg_num_blocks (pt_geo p) = 30"
    "bm_create (bm_init (pt_geo p) 15 (root_create 128 ''Work'' None None None 0 0)) = Inr b"
    "bm_wf b" "bm_geo b = pt_geo p" "free_set b = {2..<15} \<union> {17..<30}" by (rule small_partition)
  let ?s = "fresh_volume p b" let ?a = "dir_init\<lparr>ad_block := RootBlk, ad_valid := True\<rparr>"
  have g: "file_geo_ok (pt_geo p)" "bg_reserved (pt_geo p) = 2" "bg_block_longs (pt_geo p) = 128" "bg_block_bytes (pt_geo p) = 512"
    unfolding s(4) by (simp_all add: file_geo_ok_def set_geometry_def Let_def)
  have f: "free_set (vo_bitmap ?s) = {2..<15} \<union> {17..<30}" using s(9) by (simp add: fresh_volume_def free_set_def)
  have "part_ok ?s" using s(3,8) by (simp add: part_ok_def fresh_volume_def)
  moreover have "root_ok 128 (root_create 128 ''Work'' None None None 0 0)"
    by (simp add: root_ok_def root_create_def longs_ok_def u32_ok_def ts_ok_def name_ok_def plain_name_def nfkc_char_def)
  then have "vol_ok ?s" unfolding vol_ok_def f using g s(5,7,8)
    by (simp add: fresh_volume_def bm_wf_def ts_ok_def u32_ok_def)
  moreover have "names_ok False (replicate 72 [])" by (simp add: names_ok_def concat_replicate_trivial)
  ultimately have "dir_ok (part_disk ?s) ?s 0 (replicate 72 [])" unfolding dir_ok_def f using s(8)
    by (intro conjI exI [of _ ?a] exI [of _ "replicate 72 0"])
       (simp_all add: fresh_volume_def dir_at_def hdr_ok_def table_of_def hash_size_of_def root_create_def dir_on_def dir_init_def dir_blocks_def dir_num_def concat_replicate_trivial)
  moreover have "card (free_set (vo_bitmap ?s)) = 26" unfolding f by (simp add: card_Un_disjoint)
  moreover have "bg_block_bytes (vgeo ?s) = 512" "bg_block_longs (vgeo ?s) = 128" using g s(8) by (simp_all add: fresh_volume_def)
  ultimately show thesis using that s(1,2,6) \<open>part_ok ?s\<close> by blast
qed

theorem create_file_in_directory_witness:
  "\<exists>m p b s' f d' f'. img_create False 512 100 = Inr m \<and>
     part_open (img_open m) (dos_env_init\<lparr>de_surfaces := 1, de_blk_per_trk := 10, de_low_cyl := 2, de_high_cyl := 4\<rparr>) = Inr p \<and>
     bm_create (bm_init (pt_geo p) 15 (root_create 128 ''Work'' None None None 0 0)) = Inr b \<and>
     create_file part_read_block part_write_block 0 ''File'' [1, 2, 3] None True (fresh_volume p b) = Some (s', Inr 1) \<and>
     card (free_set (vo_bitmap s')) = 24 \<and>
     file_read part_read_block (vo_flags (fresh_volume p b)) (vgeo (fresh_volume p b)) f (vo_dev s') = (d', Inr f') \<and> af_data f' = Some [1, 2, 3]"
proof -
  obtain m p b where s: "img_create False 512 100 = Inr m"
    "part_open (img_open m) (dos_env_init\<lparr>de_surfaces := 1, de_blk_per_trk := 10, de_low_cyl := 2, de_high_cyl := 4\<rparr>) = Inr p"
    "bm_create (bm_init (pt_geo p) 15 (root_create 128 ''Work'' None None None 0 0)) = Inr b"
    "part_ok (fresh_volume p b)" "dir_ok (part_disk (fresh_volume p b)) (fresh_volume p b) 0 (replicate 72 [])"
    "card (free_set (vo_bitmap (fresh_volume p b))) = 26" "bg_block_bytes (vgeo (fresh_volume p b)) = 512" "bg_block_longs (vgeo (fresh_volume p b)) = 128"
    by (rule small_volume)
  let ?s = "fresh_volume p b"
  have n: "name_mi_ok ''File'' None" "u32_ok (int (length [1 :: byte, 2, 3]))"
    by (simp_all add: name_mi_ok_def name_ok_def plain_name_def nfkc_char_def u32_ok_def)
  have b: "blocks_needed (vo_flags ?s) (vgeo ?s) [1, 2, 3] = 2" using s(7,8)
    by (simp add: blocks_needed_def num_data_for_def num_list_for_def contents_bytes_def fresh_volume_def)
  have "dir_map False (replicate 72 []) u = None" for u by (simp add: dir_map_def concat_replicate_trivial)
  moreover have "\<not> vf_intl (vo_flags ?s)" "length (vo_nodes ?s) = 1" by (simp_all add: fresh_volume_def)
  ultimately obtain s' f where c: "create_file part_read_block part_write_block 0 ''File'' [1, 2, 3] None True ?s = Some (s', Inr 1)"
    "int (card (set (file_block_nums f))) = 2" "set (file_block_nums f) \<subseteq> free_set (vo_bitmap ?s)" "free_set (vo_bitmap s') = free_set (vo_bitmap ?s) - set (file_block_nums f)"
    "map_option af_data (case file_read part_read_block (vo_flags ?s) (vgeo ?s) f (vo_dev s') of (d, Inr f') \<Rightarrow> Some f' | _ \<Rightarrow> None) = Some (Some [1, 2, 3])"
    using create_file_in_directory [OF s(4,5) n, of True] b s(6) by (auto simp: Let_def)
  have "card (free_set (vo_bitmap s')) = 24" unfolding c(4) using c(2,3) s(6) by (simp add: card_Diff_subset)
  moreover obtain d' f' where "file_read part_read_block (vo_flags ?s) (vgeo ?s) f (vo_dev s') = (d', Inr f')" "af_data f' = Some [1, 2, 3]"
    using c(5) by (auto split: prod.splits sum.splits)
  ultimately show ?thesis using s(1-3) c(1) by blast
qed

theorem directory_lookup_witness:
  "\<exists>m p b s1 s2 j. img_create False 512 100 = Inr m \<and>
     part_open (img_open m) (dos_env_init\<lparr>de_surfaces := 1, de_blk_per_trk := 10, de_low_cyl := 2, de_high_cyl := 4\<rparr>) = Inr p \<and>
     bm_create (bm_init (pt_geo p) 15 (root_create 128 ''Work'' None None None 0 0)) = Inr b \<and>
     create_file part_read_block part_write_block 0 ''File'' [1, 2, 3] None False (fresh_volume p b) = Some (s1, Inr 1) \<and>
     get_path part_read_block True True [''fILE''] 0 s1 = Some (s2, Inr (Some j))"
proof -
  obtain m p b where s: "img_create False 512 100 = Inr m"
    "part_open (img_open m) (dos_env_init\<lparr>de_surfaces := 1, de_blk_per_trk := 10, de_low_cyl := 2, de_high_cyl := 4\<rparr>) = Inr p"
    "bm_create (bm_init (pt_geo p) 15 (root_create 128 ''Work'' None None None 0 0)) = Inr b"
    "part_ok (fresh_volume p b)" "dir_ok (part_disk (fresh_volume p b)) (fresh_volume p b) 0 (replicate 72 [])"
    "card (free_set (vo_bitmap (fresh_volume p b))) = 26" "bg_block_bytes (vgeo (fresh_volume p b)) = 512" "bg_block_longs (vgeo (fresh_volume p b)) = 128"
    by (rule small_volume)
  let ?s = "fresh_volume p b"
  have n: "name_mi_ok ''File'' None" "u32_ok (int (length [1 :: byte, 2, 3]))"
    by (simp_all add: name_mi_ok_def name_ok_def plain_name_def nfkc_char_def u32_ok_def)
  have b: "blocks_needed (vo_flags ?s) (vgeo ?s) [1, 2, 3] = 2" using s(7,8)
    by (simp add: blocks_needed_def num_data_for_def num_list_for_def contents_bytes_def fresh_volume_def)
  have i: "vf_intl (vo_flags ?s) = False" "length (vo_nodes ?s) = 1" by (simp_all add: fresh_volume_def)
  have "dir_map False (replicate 72 []) u = None" for u by (simp add: dir_map_def concat_replicate_trivial)
  with part.create_file_ok [OF s(5) [unfolded part_disk_def] s(4) [folded part_vol] n, of False] b s(6) i obtain s1 where
    c: "create_file part_read_block part_write_block 0 ''File'' [1, 2, 3] None False ?s = Some (s1, Inr 1)" "part.created ?s 0 (replicate 72 []) ''File'' [1, 2, 3] s1"
    by auto
  from c(2) obtain h f where d: "dir_ok (part_disk s1) s1 0 (add_chain h (FileB f) (replicate 72 []))" "part_ok s1" "vo_flags s1 = vo_flags ?s"
    "dir_map False (add_chain h (FileB f) (replicate 72 [])) = (dir_map False (replicate 72 []))(upper False ''File'' \<mapsto> af_num f)"
    unfolding part.created_def part_vol part_disk_def i by blast
  have "upper False ''fILE'' = upper False ''File''" by code_simp
  then have m: "dir_map (vf_intl (vo_flags s1)) (add_chain h (FileB f) (replicate 72 [])) (upper (vf_intl (vo_flags s1)) ''fILE'') = Some (af_num f)"
    unfolding d(3) i by (simp add: d(4))
  have "plain_name ''fILE''" by (simp add: plain_name_def nfkc_char_def)
  from directory_lookup [OF d(2,1) this, of True True] obtain s2 j where "get_path part_read_block True True [''fILE''] 0 s1 = Some (s2, Inr (Some j))"
    unfolding m by auto
  with s(1-3) c(1) show ?thesis by blast
qed

end
