(* ===== verification/Fs_Volume.thy ===== *)
theory Fs_Volume
  imports Dir_Update Fs_Boot
begin

text \<open>
  Volumes (\<open>amitools/fs/ADFSVolume.py\<close>): opening and creating a volume, closing it, finding paths, and the operations
  on files and directories named by a path. An operation that fails leaves what it has changed so far; only the writes of
  the boot block and of the bitmap are taken as one step, so an error in the middle of them leaves the device as it was.
\<close>

subsection \<open>Opening and creating\<close>

definition INVALID_BOOT_BLOCK :: py_error where "INVALID_BOOT_BLOCK = FSError 1"
definition INVALID_ROOT_BLOCK :: py_error where "INVALID_ROOT_BLOCK = FSError 2"
definition INVALID_PARENT_DIRECTORY :: py_error where "INVALID_PARENT_DIRECTORY = FSError 20"
definition FILE_NOT_FOUND :: py_error where "FILE_NOT_FOUND = FSError 21"
definition INVALID_VOLUME_NAME :: py_error where "INVALID_VOLUME_NAME = FSError 22"

text \<open>A volume object before it is opened. Its root block is a placeholder.\<close>

definition vol_init :: "blk_geo \<Rightarrow> (nat \<Rightarrow> time_stamp) \<Rightarrow> 'd \<Rightarrow> 'd volume" where
  "vol_init g clock d = \<lparr>vo_dev = d, vo_flags = \<lparr>vf_ffs = False, vf_intl = False, vf_dircache = False, vf_longname = False\<rparr>,
     vo_bitmap = bm_init g (bg_num_blocks g div 2) (root_create (bg_block_longs g) '''' None None None 0 0), vo_root_valid = False,
     vo_nodes = [], vo_clock = clock, vo_boot = None, vo_root_dir = None, vo_valid = False, vo_name = None, vo_meta = None\<rparr>"

definition type_flags :: "int \<Rightarrow> vol_flags" where
  "type_flags t = \<lparr>vf_ffs = is_ffs t, vf_intl = is_intl t, vf_dircache = is_dircache t, vf_longname = is_longname t\<rparr>"

definition boot_load :: "('d \<Rightarrow> int \<Rightarrow> 'd \<times> byte list res) \<Rightarrow> ('d, boot_block) vprog" where
  "boot_load rd s = (case boot_read rd (boot_init (vgeo s) 0) (vo_dev s) of
     (d', Inl e) \<Rightarrow> Some (s\<lparr>vo_dev := d'\<rparr>, Inl e)
   | (d', Inr b) \<Rightarrow> Some (s\<lparr>vo_dev := d', vo_boot := Some b\<rparr>, Inr b))"

text \<open>\<open>ADFSVolDir(self, self.root)\<close>.\<close>

definition vol_dir_new :: "('d, nat) vprog" where
  "vol_dir_new s = (let r = bm_root (vo_bitmap s) in
     if rb_name r = None then Some (s, Inl ValueError)
     else vbind (new_node None (DirB (dir_init\<lparr>ad_block := RootBlk, ad_valid := True,
                   ad_meta := Some \<lparr>mi_protect = None, mi_mod_ts = rb_mod_ts r, mi_comment = None\<rparr>\<rparr>)))
            (\<lambda>i. vthen (init_name_hash i) (vthen (vmod (vo_root_dir_update (\<lambda>_. Some i))) (vret i))) s)"

definition vol_bitmap_read :: "('d \<Rightarrow> int \<Rightarrow> 'd \<times> byte list res) \<Rightarrow> ('d, unit) vprog" where
  "vol_bitmap_read rd s = (case bm_read rd (vo_bitmap s) (vo_dev s) of
     None \<Rightarrow> None
   | Some (d', Inl e) \<Rightarrow> Some (s\<lparr>vo_dev := d'\<rparr>, Inl e)
   | Some (d', Inr b) \<Rightarrow> Some (s\<lparr>vo_dev := d', vo_bitmap := b\<rparr>, Inr ()))"

definition vol_bitmap_write :: "('d \<Rightarrow> int \<Rightarrow> byte list \<Rightarrow> 'd res) \<Rightarrow> ('d, unit) vprog" where
  "vol_bitmap_write wr s = (case bm_write wr (vo_bitmap s) (vo_dev s) of
     Inl e \<Rightarrow> Some (s, Inl e)
   | Inr (b, d') \<Rightarrow> Some (s\<lparr>vo_dev := d', vo_bitmap := b\<rparr>, Inr ()))"

definition root_load :: "('d \<Rightarrow> int \<Rightarrow> 'd \<times> byte list res) \<Rightarrow> ('d, unit) vprog" where
  "root_load rd s =
     (let n = bg_num_blocks (vgeo s) div 2 in
      vbind (dev_read rd n) (\<lambda>x s. vbind (vlift (root_read (vbl s) x)) (\<lambda>r. case r of
        None \<Rightarrow> vthen (vmod (vo_root_valid_update (\<lambda>_. False))) (vraise INVALID_ROOT_BLOCK)
      | Some r \<Rightarrow> vmod (\<lambda>s. s\<lparr>vo_bitmap := bm_init (vgeo s) n r, vo_root_valid := True, vo_name := rb_name r,
                        vo_meta := Some (rb_create_ts r, rb_disk_ts r, rb_mod_ts r)\<rparr>)) s) s)"

definition vol_open :: "('d \<Rightarrow> int \<Rightarrow> 'd \<times> byte list res) \<Rightarrow> ('d, unit) vprog" where
  "vol_open rd =
     vbind (boot_load rd) (\<lambda>b.
       if \<not> bo_valid b then vraise INVALID_BOOT_BLOCK
       else case bo_dos_type b of None \<Rightarrow> vraise TypeError | Some t \<Rightarrow>
         vthen (vmod (vo_flags_update (\<lambda>_. type_flags t)))
        (vthen (root_load rd)
        (vbind vol_dir_new (\<lambda>i.
         vthen (dir_read rd False i) (vthen (vol_bitmap_read rd) (vmod (vo_valid_update (\<lambda>_. True))))))))"

definition create_dos_type :: "int option \<Rightarrow> bool \<Rightarrow> bool \<Rightarrow> bool \<Rightarrow> bool \<Rightarrow> int" where
  "create_dos_type dos_type ffs intl dircache longname =
     (case dos_type of Some t \<Rightarrow> t
      | None \<Rightarrow> (let t = (if longname then DOS0 + 6 else if dircache then DOS0 OR 4 else if intl then DOS0 OR 2 else DOS0)
                 in if ffs then t OR 1 else t))"

definition default_root_meta :: "('d, time_stamp option \<times> time_stamp option \<times> time_stamp option) vprog" where
  "default_root_meta = vbind vnow (\<lambda>create_ts. vbind vnow (\<lambda>mod_ts. vbind vnow (\<lambda>disk_ts. vret (Some create_ts, Some disk_ts, Some mod_ts))))"

definition boot_new :: "('d \<Rightarrow> int \<Rightarrow> byte list \<Rightarrow> 'd res) \<Rightarrow> int \<Rightarrow> byte list option \<Rightarrow> ('d, unit) vprog" where
  "boot_new wr t boot_code s = (case boot_write wr (boot_create t None boot_code (boot_init (vgeo s) 0)) (vo_dev s) of
     Inl e \<Rightarrow> Some (s, Inl e)
   | Inr (b, d') \<Rightarrow> Some (s\<lparr>vo_dev := d', vo_boot := Some b\<rparr>, Inr ()))"

definition bitmap_new :: "root_block \<Rightarrow> ('d, unit) vprog" where
  "bitmap_new r s = (case bm_create (bm_init (vgeo s) (bg_num_blocks (vgeo s) div 2) r) of
     Inl e \<Rightarrow> Some (s, Inl e)
   | Inr b \<Rightarrow> Some (s\<lparr>vo_bitmap := b, vo_root_valid := False\<rparr>, Inr ()))"

text \<open>\<open>create\<close> once the type \<open>t\<close> is known.\<close>

definition vol_create_type ::
  "('d \<Rightarrow> int \<Rightarrow> 'd \<times> byte list res) \<Rightarrow> ('d \<Rightarrow> int \<Rightarrow> byte list \<Rightarrow> 'd res) \<Rightarrow> string \<Rightarrow> (time_stamp option \<times> time_stamp option \<times> time_stamp option) option \<Rightarrow>
     int \<Rightarrow> byte list option \<Rightarrow> ('d, unit) vprog" where
  "vol_create_type rd wr name meta t boot_code =
     vthen (vmod (vo_flags_update (\<lambda>_. type_flags t)))
    (vbind (vlift (name_is_valid False name)) (\<lambda>ok. if \<not> ok then vraise INVALID_VOLUME_NAME else
     vthen (boot_new wr t boot_code)
    (vbind (case meta of None \<Rightarrow> default_root_meta | Some m \<Rightarrow> vret m) (\<lambda>(create_ts, disk_ts, mod_ts).
     vthen (vmod (\<lambda>s. s\<lparr>vo_meta := Some (create_ts, disk_ts, mod_ts), vo_name := Some name\<rparr>))
     (\<lambda>s. vthen (bitmap_new (root_create (vbl s) name create_ts disk_ts mod_ts 0 t))
     (vthen (vol_bitmap_write wr)
     (vbind vol_dir_new (\<lambda>i.
      vthen (create_extra_blks wr i) (vthen (dir_read rd False i) (vmod (vo_valid_update (\<lambda>_. True))))))) s)))))"

definition vol_create ::
  "('d \<Rightarrow> int \<Rightarrow> 'd \<times> byte list res) \<Rightarrow> ('d \<Rightarrow> int \<Rightarrow> byte list \<Rightarrow> 'd res) \<Rightarrow> string \<Rightarrow> (time_stamp option \<times> time_stamp option \<times> time_stamp option) option \<Rightarrow>
     int option \<Rightarrow> byte list option \<Rightarrow> bool \<Rightarrow> bool \<Rightarrow> bool \<Rightarrow> bool \<Rightarrow> ('d, unit) vprog" where
  "vol_create rd wr name meta dos_type boot_code ffs intl dircache longname =
     vol_create_type rd wr name meta (create_dos_type dos_type ffs intl dircache longname) boot_code"

definition vol_close :: "('d \<Rightarrow> int \<Rightarrow> byte list \<Rightarrow> 'd res) \<Rightarrow> ('d, unit) vprog" where
  "vol_close wr = vol_bitmap_write wr"

subsection \<open>Paths\<close>

definition root_dir_of :: "('d, nat) vprog" where
  "root_dir_of s = Some (s, case vo_root_dir s of None \<Rightarrow> Inl AttributeError | Some i \<Rightarrow> Inr i)"

text \<open>The aliases of the root are not subject to \<open>allow_file\<close> and \<open>allow_dir\<close>.\<close>

definition get_path_name :: "('d \<Rightarrow> int \<Rightarrow> 'd \<times> byte list res) \<Rightarrow> bool \<Rightarrow> bool \<Rightarrow> string \<Rightarrow> ('d, nat option) vprog" where
  "get_path_name rd allow_file allow_dir path s =
     vbind (vlift (name_is_valid (vf_longname (vo_flags s)) path)) (\<lambda>ok.
       if \<not> ok then vraise INVALID_FILE_NAME
       else if is_root_path_alias path then vret (vo_root_dir s)
       else vbind root_dir_of (get_path rd allow_file allow_dir (split_path path))) s"

definition get_dir_path_name :: "('d \<Rightarrow> int \<Rightarrow> 'd \<times> byte list res) \<Rightarrow> string \<Rightarrow> ('d, nat option) vprog" where
  "get_dir_path_name rd = get_path_name rd False True"

definition get_file_path_name :: "('d \<Rightarrow> int \<Rightarrow> 'd \<times> byte list res) \<Rightarrow> string \<Rightarrow> ('d, nat option) vprog" where
  "get_file_path_name rd = get_path_name rd True False"

definition get_create_path_name :: "('d \<Rightarrow> int \<Rightarrow> 'd \<times> byte list res) \<Rightarrow> string \<Rightarrow> string option \<Rightarrow> ('d, nat option \<times> string option) vprog" where
  "get_create_path_name rd path suggest s =
     vbind (vlift (name_is_valid (vf_longname (vo_flags s)) path)) (\<lambda>ok.
       if \<not> ok then vraise INVALID_FILE_NAME
       else if is_root_path_alias path then vret (vo_root_dir s, suggest)
       else vbind (get_dir_path_name rd path) (\<lambda>node. if node \<noteq> None then vret (node, suggest)
         else (case get_dir_and_base_name path of (dn, fn) \<Rightarrow>
           vbind (case dn of Some dn \<Rightarrow> get_dir_path_name rd dn | None \<Rightarrow> vret (vo_root_dir s)) (\<lambda>node.
             vret (node, if fn \<noteq> None then fn else suggest))))) s"

subsection \<open>Operations on paths\<close>

text \<open>\<open>flush\<close>: a file forgets its data, a directory its entries, after they were flushed.\<close>

partial_function (option) flush_nodes :: "nat list \<Rightarrow> 'd volume \<Rightarrow> ('d volume \<times> unit res) option" where
  "flush_nodes js s = (case js of
     [] \<Rightarrow> Some (s, Inr ())
   | j # js' \<Rightarrow> (case nd_body (vo_nodes s ! j) of
       FileB f \<Rightarrow> flush_nodes js' (set_body j (FileB (file_flush f)) s)
     | DirB a \<Rightarrow> vbind (\<lambda>s. flush_nodes (case ad_entries a of None \<Rightarrow> [] | Some es \<Rightarrow> es) s)
         (\<lambda>_ s. vbind (mod_dir j (\<lambda>d. d\<lparr>ad_entries := None, ad_name_hash := None\<rparr>)) (\<lambda>_ s. flush_nodes js' s) s) s))"

definition node_flush :: "bool \<Rightarrow> nat \<Rightarrow> ('d, unit) vprog" where
  "node_flush cache j = (if cache then vret () else flush_nodes [j])"

definition vol_create_dir ::
  "('d \<Rightarrow> int \<Rightarrow> 'd \<times> byte list res) \<Rightarrow> ('d \<Rightarrow> int \<Rightarrow> byte list \<Rightarrow> 'd res) \<Rightarrow> string \<Rightarrow> ('d, unit) vprog" where
  "vol_create_dir rd wr path s =
     vbind (vlift (name_is_valid (vf_longname (vo_flags s)) path)) (\<lambda>ok. if \<not> ok then vraise INVALID_FILE_NAME else
     (case get_dir_and_base_name path of
        (_, None) \<Rightarrow> vraise INVALID_FILE_NAME
      | (dn, Some base) \<Rightarrow>
          vbind (case dn of None \<Rightarrow> root_dir_of
                 | Some dn \<Rightarrow> vbind (get_dir_path_name rd dn) (\<lambda>node. case node of None \<Rightarrow> vraise TypeError | Some i \<Rightarrow> vret i))
            (\<lambda>i. vbind (create_dir rd wr i base None True) (\<lambda>_. vret ())))) s"

definition vol_write_file ::
  "('d \<Rightarrow> int \<Rightarrow> 'd \<times> byte list res) \<Rightarrow> ('d \<Rightarrow> int \<Rightarrow> byte list \<Rightarrow> 'd res) \<Rightarrow> byte list \<Rightarrow> string \<Rightarrow> string option \<Rightarrow> bool \<Rightarrow> ('d, unit) vprog" where
  "vol_write_file rd wr data path suggest cache =
     vbind (get_create_path_name rd path suggest) (\<lambda>(parent, name). case (parent, name) of
       (None, _) \<Rightarrow> vraise INVALID_PARENT_DIRECTORY
     | (_, None) \<Rightarrow> vraise INVALID_FILE_NAME
     | (Some i, Some name) \<Rightarrow> vbind (create_file rd wr i name data None True) (node_flush cache))"

definition node_get_data :: "('d \<Rightarrow> int \<Rightarrow> 'd \<times> byte list res) \<Rightarrow> nat \<Rightarrow> ('d, byte list option) vprog" where
  "node_get_data rd j s = (case nd_body (vo_nodes s ! j) of
     DirB _ \<Rightarrow> Some (s, Inr None)
   | FileB f \<Rightarrow> (case get_file_data rd (vo_flags s) (vgeo s) f (vo_dev s) of
       (d', Inl e) \<Rightarrow> Some (s\<lparr>vo_dev := d'\<rparr>, Inl e)
     | (d', Inr (f', data)) \<Rightarrow> Some (set_body j (FileB f') (s\<lparr>vo_dev := d'\<rparr>), Inr data)))"

definition vol_read_file :: "('d \<Rightarrow> int \<Rightarrow> 'd \<times> byte list res) \<Rightarrow> string \<Rightarrow> bool \<Rightarrow> ('d, byte list option) vprog" where
  "vol_read_file rd path cache =
     vbind (get_file_path_name rd path) (\<lambda>node. case node of
       None \<Rightarrow> vraise FILE_NOT_FOUND
     | Some j \<Rightarrow> vbind (node_get_data rd j) (\<lambda>data. vthen (node_flush cache j) (vret data)))"

definition vol_delete ::
  "('d \<Rightarrow> int \<Rightarrow> 'd \<times> byte list res) \<Rightarrow> ('d \<Rightarrow> int \<Rightarrow> byte list \<Rightarrow> 'd res) \<Rightarrow> string \<Rightarrow> bool \<Rightarrow> bool \<Rightarrow> ('d, unit) vprog" where
  "vol_delete rd wr path wipe all =
     vbind (get_path_name rd True True path) (\<lambda>node. case node of
       None \<Rightarrow> vraise FILE_NOT_FOUND | Some j \<Rightarrow> node_delete rd wr wipe all True j)"

definition vol_relabel :: "('d \<Rightarrow> int \<Rightarrow> byte list \<Rightarrow> 'd res) \<Rightarrow> string \<Rightarrow> ('d, unit) vprog" where
  "vol_relabel wr name s =
     vbind (vlift (name_is_valid False name)) (\<lambda>ok. if \<not> ok then vraise INVALID_VOLUME_NAME else
       vbind root_dir_of (\<lambda>_. vthen (vmod (mod_root (rb_name_update (\<lambda>_. Some name))))
         (\<lambda>s. vthen (dev_write wr (bm_root_num (vo_bitmap s)) (root_write (vbl s) (bm_root (vo_bitmap s))))
                (vmod (vo_name_update (\<lambda>_. Some name))) s))) s"

definition vol_change_create_ts :: "('d \<Rightarrow> int \<Rightarrow> byte list \<Rightarrow> 'd res) \<Rightarrow> time_stamp \<Rightarrow> ('d, bool) vprog" where
  "vol_change_create_ts wr t = vol_change_meta_info wr (Some t) None None"

definition vol_change_disk_ts :: "('d \<Rightarrow> int \<Rightarrow> byte list \<Rightarrow> 'd res) \<Rightarrow> time_stamp \<Rightarrow> ('d, bool) vprog" where
  "vol_change_disk_ts wr t = vol_change_meta_info wr None (Some t) None"

definition vol_change_mod_ts :: "('d \<Rightarrow> int \<Rightarrow> byte list \<Rightarrow> 'd res) \<Rightarrow> time_stamp \<Rightarrow> ('d, bool) vprog" where
  "vol_change_mod_ts wr t = vol_change_meta_info wr None None (Some t)"

definition vol_free_blocks :: "'d volume \<Rightarrow> int res" where
  "vol_free_blocks s = get_num_free (vo_bitmap s)"

definition vol_used_blocks :: "'d volume \<Rightarrow> int res" where
  "vol_used_blocks s = rbind (get_num_free (vo_bitmap s)) (\<lambda>free. Inr (bg_num_blocks (vgeo s) - free))"

end
