(* ===== verification/Vol_Mount.thy ===== *)
theory Vol_Mount
  imports Fs_Volume
begin

text \<open>
  Closing a volume and opening it again. \<open>root_vol\<close> says what is on disk and in the bitmap for that: the boot block, the
  blocks of the bitmap, and the root directory. It is kept when files are created, and it is enough to find every file
  again after the volume was closed and opened.
\<close>

subsection \<open>A volume that can be mounted\<close>

definition boot_on :: "disk \<Rightarrow> blk_geo \<Rightarrow> int \<Rightarrow> bool" where
  "boot_on dk g t \<longleftrightarrow> (\<exists>bs ds b. on_disk dk g 0 bs \<and> length ds = boot_num_extra g \<and> (\<forall>i < length ds. on_disk dk g (1 + int i) (ds ! i)) \<and>
     boot_parse (boot_init g 0) bs ds = Inr b \<and> bo_valid b \<and> bo_dos_type b = Some t)"

definition root_vol :: "disk \<Rightarrow> 'd volume \<Rightarrow> fs_body list list \<Rightarrow> int \<Rightarrow> bool" where
  "root_vol dk s C t \<longleftrightarrow> (let b = vo_bitmap s; g = vgeo s; B = {bg_reserved g..<bg_num_blocks g} in
     vol_ok s \<and> bm_layout b \<and> bm_root_num b = bg_num_blocks g div 2 \<and> bg_bootblocks g \<le> bg_reserved g \<and>
     set (bm_nums b) \<subseteq> B \<and> set (bm_nums b) \<inter> free_set b = {} \<and> bm_num_used b + int (card (free_set b)) \<le> bg_num_blocks g \<and>
     rb_name (bm_root b) \<noteq> None \<and> boot_on dk g t \<and> type_flags t = vo_flags s \<and>
     dir_on dk (vo_flags s) g (rb_hash_table (bm_root b)) C \<and> names_ok (vf_intl (vo_flags s)) C \<and> distinct (dir_blocks C) \<and>
     set (dir_blocks C) \<subseteq> B \<and> set (dir_blocks C) \<inter> set (bm_nums b) = {} \<and> set (dir_blocks C) \<inter> free_set b = {})"

text \<open>The volume is open: its root directory is an object.\<close>

definition mounted :: "disk \<Rightarrow> 'd volume \<Rightarrow> nat \<Rightarrow> fs_body list list \<Rightarrow> int \<Rightarrow> bool" where
  "mounted dk s i C t \<longleftrightarrow> root_vol dk s C t \<and> dir_ok dk s i C \<and> vo_root_dir s = Some i \<and> (\<exists>a. dir_at s i a \<and> ad_block a = RootBlk)"

lemma boot_on_cong: "boot_on dk g t \<Longrightarrow> \<forall>n. 0 \<le> n \<and> n < bg_reserved g \<and> n < bg_num_blocks g \<longrightarrow> dk n = dk' n \<Longrightarrow> bg_bootblocks g \<le> bg_reserved g \<Longrightarrow>
  1 \<le> bg_reserved g \<Longrightarrow> boot_on dk' g t"
  unfolding boot_on_def on_disk_def boot_num_extra_def by (elim exE conjE) (intro exI conjI, auto simp: zless_nat_eq_int_zless)

lemma dir_on_cong:
  "dir_on dk v g t C \<Longrightarrow> \<forall>n \<in> set (dir_blocks C). dk n = dk' n \<Longrightarrow> dir_on dk' v g t C"
proof -
  assume on: "dir_on dk v g t C" and same: "\<forall>n \<in> set (dir_blocks C). dk n = dk' n"
  have "chain_on dk' v g (t ! k) (C ! k)" if k: "k < length t" for k
  proof (rule chain_on_cong)
    show "chain_on dk v g (t ! k) (C ! k)" using on k by (simp add: dir_on_def)
    have "C ! k \<in> set C" using on k by (simp add: dir_on_def)
    then show "\<forall>e \<in> set (C ! k). \<forall>n \<in> e_blocks e. dk n = dk' n" using same by (force simp: dir_blocks_def e_blocks_nums)
  qed
  then show ?thesis using on by (simp add: dir_on_def)
qed

lemma bm_layout_root:
  assumes "bm_layout b" "root_change b b'" "root_ok (bg_block_longs (bm_geo b)) (bm_root b')"
  shows "bm_layout b'" "bm_nums b' = bm_nums b"
proof -
  note f = root_change_fields [OF assms(2)]
  show n: "bm_nums b' = bm_nums b" by (simp add: bm_nums_def f)
  have p: "rb_bitmap_ptrs (bm_root b') = rb_bitmap_ptrs (bm_root b)" "rb_bitmap_ext_blk (bm_root b') = rb_bitmap_ext_blk (bm_root b)"
    using assms(2) unfolding root_change_def by blast+
  show "bm_layout b'" using assms(1,3) unfolding bm_layout_def n f p by blast
qed

subsection \<open>Creating keeps the volume mountable\<close>

context block_device
begin

lemma created_root_vol:
  fixes data
  assumes m: "mounted (vdisk s) s i C t" and c: "created s i C name data s'" and pos: "file_geo_ok (vgeo s)"
  shows "\<exists>h f. root_vol (vdisk s') s' (add_chain h (FileB f) C) t \<and> bm_dirty (vo_bitmap s') \<and> vol_dev_ok s' \<and> vo_flags s' = vo_flags s \<and> vgeo s' = vgeo s \<and>
     h < length C \<and> FileB f \<in> set (concat (add_chain h (FileB f) C)) \<and> e_name (FileB f) = name \<and>
     dir_map (vf_intl (vo_flags s)) (add_chain h (FileB f) C) = (dir_map (vf_intl (vo_flags s)) C)(upper (vf_intl (vo_flags s)) name \<mapsto> af_num f) \<and>
     (\<exists>b. af_block f = Some b \<and> fh_byte_size b = int (length data)) \<and> data_on (vdisk s') (vo_flags s) (vgeo s) (af_num f) (af_data_nums f) data \<and>
     set (file_block_nums f) \<inter> set (bm_nums (vo_bitmap s')) = {} \<and> free_set (vo_bitmap s') = free_set (vo_bitmap s) - set (file_block_nums f)"
proof -
  let ?g = "vgeo s" and ?b = "vo_bitmap s" and ?b' = "vo_bitmap s'" and ?F = "free_set (vo_bitmap s)"
  let ?R = "{bg_reserved ?g..<bg_num_blocks ?g}"
  from c obtain h f a where c: "h < length C" "dir_ok (vdisk s') s' i (add_chain h (FileB f) C)" "vol_dev_ok s'" "vo_flags s' = vo_flags s" "vgeo s' = ?g"
    "dir_map (vf_intl (vo_flags s)) (add_chain h (FileB f) C) = (dir_map (vf_intl (vo_flags s)) C)(upper (vf_intl (vo_flags s)) name \<mapsto> af_num f)"
    "distinct (file_block_nums f)" "int (length (file_block_nums f)) = blocks_needed (vo_flags s) ?g data"
    "set (file_block_nums f) \<subseteq> ?F" "free_set ?b' = ?F - set (file_block_nums f)" "bitmap_took (blocks_needed (vo_flags s) ?g data) ?b ?b'"
    "dir_at s' i a" "same_num i s s'" "e_name (FileB f) = name" "\<exists>b. af_block f = Some b \<and> fh_byte_size b = int (length data)"
    "data_on (vdisk s') (vo_flags s) ?g (af_num f) (af_data_nums f) data"
    "disk_frame (insert (dir_num s' a) (insert (bm_root_num ?b) (set (file_block_nums f)))) ?g (vdisk s) (vdisk s')" unfolding created_def by blast
  let ?C = "add_chain h (FileB f) C"
  from m obtain a0 where a0: "dir_at s i a0" "ad_block a0 = RootBlk" unfolding mounted_def by blast
  from m have r: "vol_ok s" "bm_layout ?b" "bm_root_num ?b = bg_num_blocks ?g div 2" "bg_bootblocks ?g \<le> bg_reserved ?g" "set (bm_nums ?b) \<subseteq> ?R"
    "set (bm_nums ?b) \<inter> ?F = {}" "bm_num_used ?b + int (card ?F) \<le> bg_num_blocks ?g" "rb_name (bm_root ?b) \<noteq> None" "boot_on (vdisk s) ?g t" "type_flags t = vo_flags s"
    "set (dir_blocks C) \<subseteq> ?R" "set (dir_blocks C) \<inter> set (bm_nums ?b) = {}" unfolding mounted_def root_vol_def Let_def by blast+
  from c(11) obtain b1 where b1: "bm_frame ?b b1" "bm_dirty b1" "bm_num_used b1 = bm_num_used ?b + blocks_needed (vo_flags s) ?g data" "root_change b1 ?b'"
    unfolding bitmap_took_def by blast
  note rf = root_change_fields [OF b1(4)]
  from c(2,12) have d: "vol_ok s'" "hdr_ok s' a" "table_of s' a = Inr (rb_hash_table (bm_root ?b')) \<or> ad_block a \<noteq> RootBlk"
    by (auto simp: dir_ok_def dir_at_def table_of_def)
  have rn: "bm_root_num ?b' = bm_root_num ?b" using rf(2) b1(1) by (simp add: bm_frame_def)
  have dn: "dir_num s' a = bm_root_num ?b" using c(13) a0 c(12) by (auto simp: same_num_def dir_num_def)
  have ra: "ad_block a = RootBlk" using d(2) dn rn by (cases "ad_block a") (auto simp: hdr_ok_def dir_num_def)
  obtain tb where tb: "table_of s' a = Inr tb" "dir_on (vdisk s') (vo_flags s') (vgeo s') tb ?C" "names_ok (vf_intl (vo_flags s')) ?C" "distinct (dir_blocks ?C)"
    using c(2,12) by (auto simp: dir_ok_def dir_at_def)
  have tb2: "tb = rb_hash_table (bm_root ?b')" using tb(1) ra by (simp add: table_of_def)
  have card: "int (card (free_set ?b')) = int (card ?F) - blocks_needed (vo_flags s) ?g data"
    unfolding c(10) using c(7-9) card_mono [OF _ c(9)] by (simp add: card_Diff_subset distinct_card of_nat_diff)
  have nu: "bm_num_used ?b' + int (card (free_set ?b')) = bm_num_used ?b + int (card ?F)" using card rf(8) b1(3) by simp
  have L: "bm_layout ?b'" "bm_nums ?b' = bm_nums ?b"
  proof -
    have "u32_ok (bm_num_used b1)" using nu r(7) pos r(2) b1(3) rf(8) blocks_needed_pos [OF pos, of "vo_flags s" data]
      by (simp add: u32_ok_def file_geo_ok_def bm_layout_def)
    note l1 = bm_layout_frame [OF r(2) b1(1) this]
    have "root_ok (bg_block_longs (bm_geo b1)) (bm_root ?b')" using d(1) rf(1) by (simp add: vol_ok_def)
    note l2 = bm_layout_root [OF l1 b1(4) this]
    show "bm_layout ?b'" by (rule l2(1))
    show "bm_nums ?b' = bm_nums ?b" using l2(2) b1(1) by (simp add: bm_nums_def bm_frame_def)
  qed
  have sb: "set (dir_blocks ?C) = set (file_block_nums f) \<union> set (dir_blocks C)"
    using mset_eq_setD [OF dir_blocks_add [OF c(1), of "FileB f"]] by (simp add: e_nums_def)
  have F: "?F \<subseteq> ?R" by (auto simp: free_set_def blk_range_def)
  have bt: "boot_on (vdisk s') ?g t"
  proof (rule boot_on_cong [OF r(9) _ r(4)])
    show "1 \<le> bg_reserved ?g" using r(1) by (simp add: vol_ok_def)
    have "bg_reserved ?g \<le> bm_root_num ?b" using r(5) by (auto simp: bm_nums_def)
    moreover have "bg_reserved ?g \<le> n" if "n \<in> set (file_block_nums f)" for n using that c(9) F by auto
    ultimately show "\<forall>n. 0 \<le> n \<and> n < bg_reserved ?g \<and> n < bg_num_blocks ?g \<longrightarrow> vdisk s n = vdisk s' n" using c(17) dn by (force simp: disk_frame_def)
  qed
  have "bm_dirty ?b'" using rf(7) b1(2) by simp
  moreover have "rb_name (bm_root ?b') \<noteq> None" using b1(1,4) r(8) by (simp add: root_change_def bm_frame_def)
  moreover have "set (dir_blocks ?C) \<subseteq> ?R" "set (dir_blocks ?C) \<inter> set (bm_nums ?b) = {}" "set (dir_blocks ?C) \<inter> free_set ?b' = {}"
    unfolding sb c(10) using r(11,12,6) c(9) F c(2) by (auto simp: dir_ok_def sb c(10))
  moreover have "FileB f \<in> set (concat ?C)" by (simp only: set_add_chain [OF c(1)] insert_iff simp_thms)
  moreover have "set (file_block_nums f) \<inter> set (bm_nums ?b') = {}" using c(9) r(6) L(2) by auto
  ultimately show ?thesis using c(1,3-6,10,14-16) d(1) r(3-6,7,10) L nu tb tb2 bt rn
    by (intro exI [of _ h] exI [of _ f]) (auto simp: root_vol_def Let_def)
qed

end

subsection \<open>Opening\<close>

lemma bm_init_fields [simp]: "bm_geo (bm_init g n r) = g" "bm_root (bm_init g n r) = r"
  by (simp_all add: bm_init_def)

lemma bm_mounted_fields [simp]:
  "bm_geo (bm_mounted b) = bm_geo b" "bm_root (bm_mounted b) = root_norm (bm_root_out b)" "bm_root_num (bm_mounted b) = bm_root_num b"
  "bm_data (bm_mounted b) = bm_data b" "free_set (bm_mounted b) = free_set b"
  by (simp_all add: bm_mounted_def bm_init_def Let_def free_set_def)

lemma root_norm_ok: "root_ok bl r \<Longrightarrow> root_ok bl (root_norm r)"
  using name_okD [of 30 "rb_name r"]
  by (auto simp: root_ok_def root_norm_def ts_ok_def ts_get_def ts_zero_def u32_ok_def name_ok_def name_get_def split: option.splits)

text \<open>The object of the root directory.\<close>

definition root_obj :: "root_block \<Rightarrow> adfs_dir" where
  "root_obj r = dir_init\<lparr>ad_block := RootBlk, ad_valid := True, ad_meta := Some \<lparr>mi_protect = None, mi_mod_ts = rb_mod_ts r, mi_comment = None\<rparr>,
     ad_name_hash := Some (replicate (nat (rb_hash_size r)) []), ad_hash_size := rb_hash_size r\<rparr>"

lemma vol_dir_new_run:
  "rb_name (bm_root (vo_bitmap s)) \<noteq> None \<Longrightarrow> vo_nodes s = [] \<Longrightarrow>
   vol_dir_new s = Some (s\<lparr>vo_nodes := [\<lparr>nd_parent = None, nd_body = DirB (root_obj (bm_root (vo_bitmap s)))\<rparr>], vo_root_dir := Some 0\<rparr>, Inr 0)"
  by (simp add: vol_dir_new_def Let_def new_node_def vbind_def init_name_hash_def get_dir_def mod_dir_def hash_size_of_def vret_def vmod_def vlift_def
      root_obj_def dir_init_def set_body_def)

lemma root_obj_table: "root_ok (vbl s) (bm_root (vo_bitmap s)) \<Longrightarrow> table_of s (root_obj r) = Inr (rb_hash_table (bm_root (vo_bitmap s))) \<and>
    hash_size_of s (root_obj r) = Inr (int (length (rb_hash_table (bm_root (vo_bitmap s)))))"
  by (simp add: table_of_def hash_size_of_def root_obj_def root_ok_def)

text \<open>What a device must hold for a volume to be opened on it: \<open>b\<close> is the bitmap that was written.\<close>

context block_device
begin

definition holds_vol :: "'d \<Rightarrow> adfs_bitmap \<Rightarrow> int \<Rightarrow> (int \<Rightarrow> byte list) \<Rightarrow> byte list \<Rightarrow> bool" where
  "holds_vol d b t dat rbs \<longleftrightarrow> (let g = bm_geo b in
     wf d \<and> num d = bg_num_blocks g \<and> bytes d = bg_block_bytes g \<and> bm_layout b \<and> bm_root_num b = bg_num_blocks g div 2 \<and>
     boot_on (disk_of d) g t \<and> block_is d (bm_root_num b) rbs \<and> root_read (bg_block_longs g) rbs = Inr (Some (root_norm (bm_root_out b))) \<and>
     (\<forall>e \<in> set (bm_ext_blks b). ext_block_is d (bg_block_longs g) e) \<and>
     (\<forall>n \<in> set (bm_blks b). bm_block_is d (bg_block_longs g) dat n) \<and> concat (map dat (bm_blks b)) = bm_data b)"

lemma boot_load_on:
  assumes "wf d" "num d = bg_num_blocks g" "bytes d = bg_block_bytes g" "boot_on (disk_of d) g t"
  shows "\<exists>d' bo. boot_load rd_blk (vol_init g clock d) = Some ((vol_init g clock d)\<lparr>vo_dev := d', vo_boot := Some bo\<rparr>, Inr bo) \<and>
    bo_valid bo \<and> bo_dos_type bo = Some t \<and> same_blocks d d'"
proof -
  from assms(4) obtain bs ds bo where b: "on_disk (disk_of d) g 0 bs" "length ds = boot_num_extra g"
    "\<forall>i < length ds. on_disk (disk_of d) g (1 + int i) (ds ! i)" "boot_parse (boot_init g 0) bs ds = Inr bo" "bo_valid bo" "bo_dos_type bo = Some t"
    unfolding boot_on_def by blast
  note i = on_disk_is [OF assms(1,2)]
  have "block_is d (bo_num (boot_init g 0)) bs" using i [OF b(1)] by (simp add: boot_init_def)
  moreover have "\<forall>i < length ds. block_is d (bo_num (boot_init g 0) + 1 + int i) (ds ! i)" using b(3) i by (simp add: boot_init_def)
  ultimately obtain d' where "boot_read rd_blk (boot_init g 0) d = (d', boot_parse (boot_init g 0) bs ds)" "same_blocks d d'"
    using boot_read_ok [OF assms(1), of "boot_init g 0" bs ds] assms(3) b(2) by (auto simp: boot_init_def)
  with b(4-6) show ?thesis by (simp add: boot_load_def vol_init_def bm_init_def)
qed

lemma vol_open_ok:
  fixes clock
  assumes h: "holds_vol d b t dat rbs" and g: "g = bm_geo b" and nm: "rb_name (bm_root b) \<noteq> None" and dc: "\<not> is_dircache t"
    and on: "dir_on (disk_of d) (type_flags t) g (rb_hash_table (bm_root b)) C"
  shows "\<exists>s. vol_open rd_blk (vol_init g clock d) = Some (s, Inr ()) \<and> vo_root_dir s = Some 0 \<and> vo_valid s \<and> vo_name s = rb_name (bm_root b) \<and> loaded s 0 C \<and>
    vo_bitmap s = bm_mounted b \<and> vo_flags s = type_flags t \<and> vo_clock s = clock \<and> same_blocks d (vo_dev s) \<and>
    (\<exists>a. dir_at s 0 a \<and> ad_block a = RootBlk) \<and>
    (\<forall>j. 1 \<le> j \<and> j < length (vo_nodes s) \<longrightarrow> (\<exists>e \<in> set (concat C). vo_nodes s ! j = entry_node 0 e))"
proof -
  let ?r = "root_norm (bm_root_out b)" let ?n = "bg_num_blocks g div 2" let ?s0 = "vol_init g clock d" let ?b0 = "bm_init g ?n ?r"
  from h have d: "wf d" "num d = bg_num_blocks g" "bytes d = bg_block_bytes g" "boot_on (disk_of d) g t" and L: "bm_layout b"
    "bm_root_num b = ?n" "block_is d ?n rbs" "root_read (bg_block_longs g) rbs = Inr (Some ?r)"
    "\<forall>e \<in> set (bm_ext_blks b). ext_block_is d (bg_block_longs g) e" "\<forall>n \<in> set (bm_blks b). bm_block_is d (bg_block_longs g) dat n"
    "concat (map dat (bm_blks b)) = bm_data b" unfolding holds_vol_def Let_def g by (elim conjE; simp)+
  from boot_load_on [OF d] obtain d1 bo where 1: "boot_load rd_blk ?s0 = Some (?s0\<lparr>vo_dev := d1, vo_boot := Some bo\<rparr>, Inr bo)"
    "bo_valid bo" "bo_dos_type bo = Some t" "same_blocks d d1" by blast
  define s1 where "s1 = ?s0\<lparr>vo_dev := d1, vo_boot := Some bo, vo_flags := type_flags t\<rparr>"
  have g1: "vgeo s1 = g" by (simp add: s1_def vol_init_def bm_init_def)
  have "read_data rd_blk g ?n d1 = (fst (read_data rd_blk g ?n d1), Inr rbs) \<and> same_blocks d1 (fst (read_data rd_blk g ?n d1))"
    using read_data_ok [of d1 ?n rbs g] L(3) d(3) same_blocks_wf [OF 1(4)] same_block_is [OF 1(4)] by auto
  then obtain d2 where 2: "read_data rd_blk g ?n d1 = (d2, Inr rbs)" "same_blocks d1 d2" by (metis prod.sel(1))
  define s2 where "s2 = s1\<lparr>vo_dev := d2, vo_bitmap := ?b0, vo_root_valid := True, vo_name := rb_name ?r,
                        vo_meta := Some (rb_create_ts ?r, rb_disk_ts ?r, rb_mod_ts ?r)\<rparr>"
  have "dev_read rd_blk ?n s1 = Some (s1\<lparr>vo_dev := d2\<rparr>, Inr rbs)" using 2(1) by (simp add: dev_read_def g1) (simp add: s1_def)
  then have r2: "root_load rd_blk s1 = Some (s2, Inr ())"
    using L(4) by (simp add: root_load_def Let_def g1 vbind_run [of "dev_read rd_blk _"] s2_def)
  define a where "a = root_obj ?r"
  define s3 where "s3 = s2\<lparr>vo_nodes := [\<lparr>nd_parent = None, nd_body = DirB a\<rparr>], vo_root_dir := Some 0\<rparr>"
  have n2: "vo_nodes s2 = []" by (simp add: s2_def s1_def vol_init_def)
  have rn: "rb_name ?r = rb_name (bm_root b)" using nm by (auto simp: root_norm_def bm_root_out_def name_get_def)
  have "vo_bitmap s2 = ?b0" by (simp add: s2_def)
  with vol_dir_new_run [of s2] n2 nm have r3: "vol_dir_new s2 = Some (s3, Inr 0)" by (simp add: s3_def a_def rn)
  have f3: "vo_bitmap s3 = ?b0" "vo_flags s3 = type_flags t" "vo_dev s3 = d2" "vo_clock s3 = clock" "vgeo s3 = g" "dir_at s3 0 a" "length (vo_nodes s3) = 1"
    "vo_name s3 = rb_name (bm_root b)"
    by (simp_all add: s3_def s2_def s1_def vol_init_def bm_init_def dir_at_def rn)
  note sb2 = same_blocks_trans [OF 1(4) 2(2)]
  have ro: "root_ok (bg_block_longs g) (bm_root b)" and u: "u32_ok (bm_num_used b)" using L(1) by (simp_all add: bm_layout_def g)
  have rt: "rb_hash_table ?r = rb_hash_table (bm_root b)" "rb_hash_size ?r = rb_hash_size (bm_root b)" by (simp_all add: root_norm_def bm_root_out_def)
  have v3: "vol_dev_ok s3" using sb2 d by (simp add: vol_dev_ok_def f3 same_blocks_def)
  have t3: "table_of s3 a = Inr (rb_hash_table (bm_root b))" "hash_size_of s3 a = Inr (int (length (rb_hash_table (bm_root b))))"
    using root_obj_table [of s3 ?r] root_norm_ok [OF bm_root_out_ok [OF ro u]] by (simp_all add: a_def f3(1) rt)
  have on3: "dir_on (vdisk s3) (vo_flags s3) (vgeo s3) (rb_hash_table (bm_root b)) C"
    using dir_on_same [OF sb2, of g "type_flags t"] d(2) on by (simp add: f3)
  have dc3: "\<not> vf_dircache (vo_flags s3)" using dc by (simp add: f3 type_flags_def)
  from dir_read_ok [OF v3 f3(6) dc3 t3 on3] obtain s4 where 4: "dir_read rd_blk False 0 s3 = Some (s4, Inr ())" "loaded s4 0 C" "dir_step 0 s3 s4"
    "same_blocks (vo_dev s3) (vo_dev s4)" "vo_root_dir s4 = vo_root_dir s3" "vo_name s4 = vo_name s3"
    "\<forall>j. length (vo_nodes s3) \<le> j \<and> j < length (vo_nodes s4) \<longrightarrow> (\<exists>e \<in> set (concat C). vo_nodes s4 ! j = entry_node 0 e)" by blast
  have sb4: "same_blocks d (vo_dev s4)" using same_blocks_trans [OF sb2] 4(4) by (simp add: f3)
  have b4: "vo_bitmap s4 = ?b0" "vo_flags s4 = type_flags t" "vo_clock s4 = clock" using 4(3) by (simp_all add: dir_step_def f3)
  have x4: "\<forall>e \<in> set (bm_ext_blks b). ext_block_is (vo_dev s4) (bg_block_longs g) e" "\<forall>n \<in> set (bm_blks b). bm_block_is (vo_dev s4) (bg_block_longs g) dat n"
    using L(5,6) same_block_is [OF sb4] by (simp_all add: ext_block_is_def bm_block_is_def)
  from bm_read_written [of "vo_dev s4" b dat] x4 L(1,2,7) sb4 d(3) obtain d5 where
    5: "bm_read rd_blk ?b0 (vo_dev s4) = Some (d5, Inr (bm_mounted b))" "same_blocks (vo_dev s4) d5" by (auto simp: g same_blocks_def)
  have r5: "vol_bitmap_read rd_blk s4 = Some (s4\<lparr>vo_dev := d5, vo_bitmap := bm_mounted b\<rparr>, Inr ())"
    by (simp add: vol_bitmap_read_def b4 5(1))
  let ?s5 = "s4\<lparr>vo_dev := d5, vo_bitmap := bm_mounted b, vo_valid := True\<rparr>"
  have "vol_open rd_blk ?s0 = Some (?s5, Inr ())"
    unfolding vol_open_def vbind_run [of "boot_load rd_blk", OF 1(1)] using 1(2,3)
    by (simp add: s1_def [symmetric] vbind_run [of "root_load rd_blk", OF r2] vbind_run [of vol_dir_new, OF r3] vbind_run [of "dir_read rd_blk False 0", OF 4(1)]
        vbind_run [of "vol_bitmap_read rd_blk", OF r5])
  moreover have "loaded ?s5 0 C" by (rule loaded_cong [OF 4(2)]) (simp_all add: b4 g dir_at_def)
  moreover have "\<exists>a. dir_at ?s5 0 a \<and> ad_block a = RootBlk" using 4(3) f3(6) by (force simp: dir_step_def dir_at_def a_def root_obj_def)
  moreover have "vo_root_dir s4 = Some 0" using 4(5) by (simp add: s3_def)
  ultimately show ?thesis using b4 same_blocks_trans [OF sb4 5(2)] 4(6,7) f3(7,8) by (intro exI [of _ ?s5]) simp
qed

end

subsection \<open>Closing and opening again\<close>

lemma bm_root_in: "bm_root_num b \<in> set (bm_nums b)"
  by (simp add: bm_nums_def)

lemma bm_wf_mounted:
  assumes "bm_wf b" "bg_reserved (bm_geo b) \<le> bm_root_num b" "bm_root_num b < bg_num_blocks (bm_geo b)"
  shows "bm_wf (bm_mounted b)"
proof -
  have "bm_find_off (bm_mounted b) = (bm_root_num b - bg_reserved (bm_geo b)) div 32" by (simp add: bm_mounted_def bm_init_def Let_def)
  moreover have "0 \<le> (bm_root_num b - bg_reserved (bm_geo b)) div 32"
    "(bm_root_num b - bg_reserved (bm_geo b)) div 32 < (bg_num_blocks (bm_geo b) - bg_reserved (bm_geo b) + 31) div 32"
    using assms(2,3) zdiv_mono1 [of "bm_root_num b - bg_reserved (bm_geo b) + 32" "bg_num_blocks (bm_geo b) - bg_reserved (bm_geo b) + 31" 32] by simp_all
  ultimately show ?thesis using assms(1) by (simp add: bm_wf_def bm_longs_def bm_bits_def)
qed

context block_device
begin

text \<open>Closing writes the bitmap and the root block; the device then holds the volume.\<close>

lemma vol_close_ok:
  assumes r: "root_vol (vdisk s) s C t" and v: "vol_dev_ok s" and dirty: "bm_dirty (vo_bitmap s)"
  shows "\<exists>s' rbs dat. vol_close wr_blk s = Some (s', Inr ()) \<and> holds_vol (vo_dev s') (vo_bitmap s) t dat rbs \<and>
    disk_frame (set (bm_nums (vo_bitmap s))) (vgeo s) (vdisk s) (vdisk s')"
proof -
  let ?b = "vo_bitmap s" and ?g = "vgeo s"
  have d: "wf (vo_dev s)" "num (vo_dev s) = bg_num_blocks ?g" "bytes (vo_dev s) = bg_block_bytes ?g" using v by (simp_all add: vol_dev_ok_def)
  from r have R: "vol_ok s" "bm_layout ?b" "bm_root_num ?b = bg_num_blocks ?g div 2" "bg_bootblocks ?g \<le> bg_reserved ?g"
    "set (bm_nums ?b) \<subseteq> {bg_reserved ?g..<bg_num_blocks ?g}" "boot_on (vdisk s) ?g t" unfolding root_vol_def Let_def by blast+
  from bm_write_blocks [OF d R(2) dirty] obtain d' rbs dat where
    w: "bm_write wr_blk ?b (vo_dev s) = Inr (?b\<lparr>bm_root := bm_root_out ?b, bm_dirty := False\<rparr>, d')"
    and d': "wf d'" "num d' = num (vo_dev s)" "bytes d' = bytes (vo_dev s)"
      "\<forall>c. 0 \<le> c \<and> c < num (vo_dev s) \<and> c \<notin> set (bm_nums ?b) \<longrightarrow> snd (rd_blk d' c) = snd (rd_blk (vo_dev s) c)"
    and h: "block_is d' (bm_root_num ?b) rbs" "root_read (bg_block_longs ?g) rbs = Inr (Some (root_norm (bm_root_out ?b)))"
      "\<forall>e \<in> set (bm_ext_blks ?b). ext_block_is d' (bg_block_longs ?g) e" "\<forall>n \<in> set (bm_blks ?b). bm_block_is d' (bg_block_longs ?g) dat n"
      "concat (map dat (bm_blks ?b)) = bm_data ?b" by blast
  have fr: "disk_frame (set (bm_nums ?b)) ?g (vdisk s) (disk_of d')" using d'(4) d(2) by (simp add: disk_frame_def)
  have "boot_on (disk_of d') ?g t"
  proof (rule boot_on_cong [OF R(6) _ R(4)])
    show "\<forall>n. 0 \<le> n \<and> n < bg_reserved ?g \<and> n < bg_num_blocks ?g \<longrightarrow> vdisk s n = disk_of d' n" using fr R(5) by (force simp: disk_frame_def)
    show "1 \<le> bg_reserved ?g" using R(1) by (simp add: vol_ok_def)
  qed
  then have "holds_vol d' ?b t dat rbs" using d' d R(2,3) h by (simp add: holds_vol_def Let_def)
  with w fr show ?thesis by (auto simp: vol_close_def vol_bitmap_write_def)
qed

lemma remount:
  fixes clock
  assumes r: "root_vol (vdisk s) s C t" and v: "vol_dev_ok s" and dirty: "bm_dirty (vo_bitmap s)" and clk: "\<forall>k. ts_ok (Some (clock k))"
  shows "\<exists>s1 s2. vol_close wr_blk s = Some (s1, Inr ()) \<and> vol_open rd_blk (vol_init (vgeo s) clock (vo_dev s1)) = Some (s2, Inr ()) \<and>
    vo_root_dir s2 = Some 0 \<and> dir_ok (vdisk s2) s2 0 C \<and> loaded s2 0 C \<and> vol_dev_ok s2 \<and> vo_flags s2 = vo_flags s \<and> vgeo s2 = vgeo s \<and>
    free_set (vo_bitmap s2) = free_set (vo_bitmap s) \<and>
    disk_frame (set (bm_nums (vo_bitmap s))) (vgeo s) (vdisk s) (vdisk s2) \<and>
    (\<forall>j. 1 \<le> j \<and> j < length (vo_nodes s2) \<longrightarrow> (\<exists>e \<in> set (concat C). vo_nodes s2 ! j = entry_node 0 e))"
proof -
  let ?b = "vo_bitmap s" and ?g = "vgeo s" let ?B = "{bg_reserved (vgeo s)..<bg_num_blocks (vgeo s)}"
  from r have R: "vol_ok s" "bm_layout ?b" "bm_root_num ?b = bg_num_blocks ?g div 2"
    "set (bm_nums ?b) \<subseteq> ?B" "set (bm_nums ?b) \<inter> free_set ?b = {}" "rb_name (bm_root ?b) \<noteq> None" "type_flags t = vo_flags s"
    "dir_on (vdisk s) (vo_flags s) ?g (rb_hash_table (bm_root ?b)) C" "names_ok (vf_intl (vo_flags s)) C" "distinct (dir_blocks C)"
    "set (dir_blocks C) \<subseteq> ?B" "set (dir_blocks C) \<inter> set (bm_nums ?b) = {}" "set (dir_blocks C) \<inter> free_set ?b = {}"
    unfolding root_vol_def Let_def by blast+
  from vol_close_ok [OF r v dirty] obtain s1 rbs dat where 1: "vol_close wr_blk s = Some (s1, Inr ())" "holds_vol (vo_dev s1) ?b t dat rbs"
    "disk_frame (set (bm_nums ?b)) ?g (vdisk s) (vdisk s1)" by blast
  have res: "1 \<le> bg_reserved ?g" using R(1) by (simp add: vol_ok_def)
  have dc: "\<not> is_dircache t" using R(1) by (simp add: vol_ok_def type_flags_def flip: R(7))
  have on1: "dir_on (vdisk s1) (type_flags t) ?g (rb_hash_table (bm_root ?b)) C" unfolding R(7)
  proof (rule dir_on_cong [OF R(8)], rule ballI)
    fix n
    assume "n \<in> set (dir_blocks C)"
    then have "n \<in> {1..<bg_num_blocks ?g}" "n \<notin> set (bm_nums ?b)" using R(11,12) res by auto
    then show "vdisk s n = vdisk s1 n" by (rule disk_frameD [OF 1(3)])
  qed
  from vol_open_ok [OF 1(2) refl R(6) dc on1] obtain s2 a where 2: "vol_open rd_blk (vol_init ?g clock (vo_dev s1)) = Some (s2, Inr ())"
    "vo_root_dir s2 = Some 0" "loaded s2 0 C" "vo_bitmap s2 = bm_mounted ?b" "vo_flags s2 = type_flags t" "vo_clock s2 = clock"
    "same_blocks (vo_dev s1) (vo_dev s2)" "dir_at s2 0 a" "ad_block a = RootBlk"
    "\<forall>j. 1 \<le> j \<and> j < length (vo_nodes s2) \<longrightarrow> (\<exists>e \<in> set (concat C). vo_nodes s2 ! j = entry_node 0 e)" by blast
  have f2: "vgeo s2 = ?g" "vo_flags s2 = vo_flags s" using 2(4,5) R(7) by simp_all
  have d1: "wf (vo_dev s1)" "num (vo_dev s1) = bg_num_blocks ?g" "bytes (vo_dev s1) = bg_block_bytes ?g" using 1(2) by (simp_all add: holds_vol_def Let_def)
  have v2: "vol_dev_ok s2" using 2(7) d1 f2 by (simp add: vol_dev_ok_def same_blocks_def)
  have fr: "disk_frame (set (bm_nums ?b)) ?g (vdisk s) (vdisk s2)" using 1(3) 2(7) d1(2) by (simp add: disk_frame_def same_blocks_def)
  have rt: "rb_hash_table (bm_root (vo_bitmap s2)) = rb_hash_table (bm_root ?b)" "rb_hash_size (bm_root (vo_bitmap s2)) = rb_hash_size (bm_root ?b)"
    by (simp_all add: 2(4) root_norm_def bm_root_out_def)
  have ro: "root_ok (bg_block_longs ?g) (bm_root_out ?b)" using R(2) by (intro bm_root_out_ok) (simp_all add: bm_layout_def)
  have wf2: "bm_wf (bm_mounted ?b)" using bm_wf_mounted [of ?b] R(1,4) bm_root_in [of ?b] by (auto simp: vol_ok_def)
  have ok2: "vol_ok s2" using R(1,3) clk ro wf2 by (simp add: vol_ok_def f2 2(4,6) root_norm_ok)
  have "hdr_at s2 0 (rb_hash_table (bm_root ?b))" unfolding hdr_at_def using ok2 2(8,9) ro rt
    by (intro conjI exI [of _ a]) (simp_all add: hdr_ok_def table_of_def hash_size_of_def root_ok_def bm_root_out_def split: if_splits)
  moreover have "dir_on (vdisk s2) (vo_flags s2) (vgeo s2) (rb_hash_table (bm_root ?b)) C"
    using dir_on_same [OF 2(7), of ?g "vo_flags s"] d1(2) on1 R(7) by (simp add: f2)
  moreover have "set (dir_blocks C) \<subseteq> {1..<bg_num_blocks (vgeo s2)}" using R(11) res by (auto simp: f2)
  moreover note bm_root_in [of ?b]
  ultimately have "dir_ok (vdisk s2) s2 0 C" using 2(3,8,9) R(5,9,10,12,13)
    by (intro dir_okI [of s2 0 "rb_hash_table (bm_root ?b)" a]) (auto simp: f2 dir_num_def 2(4))
  with 1(1) 2 v2 f2 fr show ?thesis by (intro exI [of _ s1] exI [of _ s2]) simp
qed

end

end
