(* ===== verification/Vol_Create.thy ===== *)
theory Vol_Create
  imports Vol_Mount
begin

text \<open>
  Creating a volume (\<open>ADFSVolume.create\<close>): on any device of the right size the boot block, the root block and the bitmap
  are written and the volume is open with an empty root directory.
\<close>

subsection \<open>The boot block\<close>

context block_device
begin

text \<open>A boot block without code is read back, whatever is in the blocks behind it.\<close>

lemma boot_new_on:
  assumes g: "boot_geo_ok g" and d: "wf d" "num d = bg_num_blocks g" "bytes d = bg_block_bytes g"
    and t: "is_valid_dos_type t" and n: "bg_num_blocks g < 2 ^ 32"
  shows "\<exists>b d'. boot_write wr_blk (boot_create t None None (boot_init g 0)) d = Inr (b, d') \<and> wf d' \<and> num d' = num d \<and> bytes d' = bytes d \<and>
    boot_on (disk_of d') g t"
proof -
  define bb where "bb = nat (bg_block_bytes g)" let ?bl = "bg_block_longs g" and ?r = "bg_num_blocks g div 2"
  have G: "int bb = 4 * ?bl" "3 \<le> ?bl" "1 \<le> bg_bootblocks g" "bg_bootblocks g \<le> num d" "bytes d = int bb" "16 \<le> bb" "0 < num d"
    using g d(2,3) by (auto simp: boot_geo_ok_def bb_def nat_le_iff le_nat_iff)
  have u: "u32_ok t" "u32_ok ?r" "u32_ok 0" using valid_dos_u32 [OF t] n G(7) d(2) by (simp_all add: u32_ok_def)
  let ?m = "boot_main t 0 ?r [] bb"
  note st = boot_main_steps [OF G(1,2) u(1,2,3), of "[]"]
  have lm: "int (length ?m) = bytes d" using G(5,6) by (simp add: boot_main_length)
  from write_ok [OF d(1) _ G(7) lm] obtain d' where d': "wr_blk d 0 ?m = Inr d'" "wf d'" "num d' = num d" "bytes d' = bytes d"
    "\<forall>c. 0 \<le> c \<and> c < num d \<longrightarrow> snd (rd_blk d' c) = (if c = 0 then Inr ?m else snd (rd_blk d c))" by auto
  have w: "\<exists>b. boot_write wr_blk (boot_create t None None (boot_init g 0)) d = Inr (b, d')"
    using st(1,2) d'(1) G(6) by (simp add: boot_write_def boot_create_def boot_init_def set_boot_code_def Let_def bb_def [symmetric])
  define ds where "ds = map (\<lambda>i. case snd (rd_blk d' (1 + int i)) of Inr x \<Rightarrow> x | Inl _ \<Rightarrow> []) [0..<boot_num_extra g]"
  have ds: "on_disk (disk_of d') g (1 + int i) (ds ! i) \<and> blk_ok ?bl (ds ! i)" if i: "i < length ds" for i
  proof -
    have k: "0 \<le> 1 + int i" "1 + int i < num d'" using i G(3,4) d'(3) by (auto simp: ds_def boot_num_extra_def)
    from read_ok [OF d'(2) k] obtain x where "snd (rd_blk d' (1 + int i)) = Inr x" "int (length x) = bytes d'" by (metis snd_conv)
    with k i show ?thesis using d'(3,4) d(2) G(1,5) by (simp add: ds_def on_disk_def blk_ok_def)
  qed
  have okm: "blk_ok ?bl ?m" using G(1,6) by (simp add: blk_ok_def boot_main_length)
  have "\<forall>x \<in> set ds. blk_ok ?bl x" using ds by (metis in_set_conv_nth)
  from boot_chksum_ok [OF okm this] G(2) obtain c where c: "boot_chksum ?bl ?m ds = Inr c" by auto
  have "\<exists>b. boot_parse (boot_init g 0) ?m ds = Inr b \<and> bo_valid b \<and> bo_dos_type b = Some t"
    using boot_main_get [OF G(1,2) u(1,2,3), of "[]"] G(6) c t by (simp add: boot_parse_def boot_init_def Let_def)
  moreover have "on_disk (disk_of d') g 0 ?m" using d'(5) G(7) d(2) by (simp add: on_disk_def)
  moreover have "length ds = boot_num_extra g" by (simp add: ds_def)
  ultimately have "boot_on (disk_of d') g t" unfolding boot_on_def using ds by blast
  with w d'(2-4) show ?thesis by blast
qed

end

subsection \<open>The bitmap and the root directory\<close>

text \<open>What \<open>create\<close> needs: room for the root block and the bitmap in the middle of the volume, and a type without
  directory cache and long names.\<close>

definition create_ok :: "blk_geo \<Rightarrow> int \<Rightarrow> string \<Rightarrow> bool" where
  "create_ok g t name \<longleftrightarrow> file_geo_ok g \<and> 1 \<le> bg_bootblocks g \<and> bg_bootblocks g \<le> bg_reserved g \<and> bg_reserved g \<le> bg_num_blocks g div 2 \<and>
     bg_num_blocks g div 2 + int (bm_size g (root_create (bg_block_longs g) name None None None 0 t)) \<le> bg_num_blocks g \<and>
     is_valid_dos_type t \<and> \<not> is_dircache t \<and> \<not> is_longname t \<and> name_ok 30 (Some name)"

lemma create_ok_root:
  assumes "create_ok g t name" "ts_ok c" "ts_ok d" "ts_ok m"
  defines "r \<equiv> root_create (bg_block_longs g) name c d m 0 t"
  shows "Fs_Bitmap.vol_ok g (bg_num_blocks g div 2) r" "root_ok (bg_block_longs g) r" "boot_geo_ok g"
    "bm_size g r = bm_size g (root_create (bg_block_longs g) name None None None 0 t)"
proof -
  have "u32_ok t" using assms(1) valid_dos_u32 by (simp add: create_ok_def)
  then show r: "root_ok (bg_block_longs g) r" using assms(1-4)
    by (simp add: create_ok_def r_def root_create_def root_ok_def longs_ok_def u32_ok_def file_geo_ok_def)
  show s: "bm_size g r = bm_size g (root_create (bg_block_longs g) name None None None 0 t)"
    by (simp add: bm_size_def bm_num_ext_def r_def root_create_def)
  define b where "b = bm_size g (root_create (bg_block_longs g) name None None None 0 t)"
  have b: "0 < b" "bg_num_blocks g div 2 + int b \<le> bg_num_blocks g" using assms(1) by (simp_all add: b_def bm_size_def create_ok_def)
  have "rb_bitmap_ptrs r = replicate 25 0" "rb_bitmap_ext_blk r = 0" by (simp_all add: r_def root_create_def)
  then show "Fs_Bitmap.vol_ok g (bg_num_blocks g div 2) r" unfolding Fs_Bitmap.vol_ok_def s b_def [symmetric] using assms(1) r b
    by (simp add: create_ok_def file_geo_ok_def bm_geo_ok_def)
  show "boot_geo_ok g" using assms(1) by (simp add: create_ok_def boot_geo_ok_def file_geo_ok_def)
qed

lemma create_ok_free:
  assumes "create_ok g t name" "b = bm_size g (root_create (bg_block_longs g) name None None None 0 t)"
  shows "int (card (blk_range g - {bg_num_blocks g div 2..<bg_num_blocks g div 2 + int b})) = bg_num_blocks g - bg_reserved g - int b"
proof -
  have b: "bg_reserved g \<le> bg_num_blocks g div 2" "bg_num_blocks g div 2 + int b \<le> bg_num_blocks g"
    using assms by (simp_all add: create_ok_def)
  then have sub: "{bg_num_blocks g div 2..<bg_num_blocks g div 2 + int b} \<subseteq> blk_range g" "int b \<le> bg_num_blocks g - bg_reserved g" by (auto simp: blk_range_def)
  then show ?thesis by (simp add: card_Diff_subset) (simp add: blk_range_def of_nat_diff)
qed

subsection \<open>Creating\<close>

definition root_meta_ok :: "(time_stamp option \<times> time_stamp option \<times> time_stamp option) option \<Rightarrow> bool" where
  "root_meta_ok meta \<longleftrightarrow> (case meta of None \<Rightarrow> True | Some (c, d, m) \<Rightarrow> ts_ok c \<and> ts_ok d \<and> ts_ok m)"

lemma root_meta_run:
  assumes "root_meta_ok meta" "\<forall>k. ts_ok (Some (vo_clock s k))"
  shows "\<exists>ck c d m. (case meta of None \<Rightarrow> default_root_meta | Some m \<Rightarrow> vret m) s = Some (s\<lparr>vo_clock := ck\<rparr>, Inr (c, d, m)) \<and>
    ts_ok c \<and> ts_ok d \<and> ts_ok m \<and> (\<forall>k. ts_ok (Some (ck k)))"
proof (cases meta)
  case None
  then show ?thesis using assms(2)
    by (intro exI [of _ "\<lambda>n. vo_clock s (Suc (Suc (Suc n)))"]) (simp add: default_root_meta_def vnow_def vbind_def vret_def)
next
  case (Some p)
  then show ?thesis using assms by (cases p) (auto simp: root_meta_ok_def intro!: exI [of _ "vo_clock s"])
qed

text \<open>The bitmap as it is after it was written.\<close>

definition bm_written :: "adfs_bitmap \<Rightarrow> adfs_bitmap" where
  "bm_written b = b\<lparr>bm_root := bm_root_out b, bm_dirty := False\<rparr>"

lemma bm_written_fields [simp]:
  "bm_geo (bm_written b) = bm_geo b" "bm_root_num (bm_written b) = bm_root_num b" "bm_root (bm_written b) = bm_root_out b"
  "bm_num_used (bm_written b) = bm_num_used b" "free_set (bm_written b) = free_set b" "bm_nums (bm_written b) = bm_nums b"
  "bm_wf (bm_written b) = bm_wf b"
  by (simp_all add: bm_written_def free_set_def bm_nums_def bm_wf_def)

lemma bm_written_layout: "bm_layout b \<Longrightarrow> bm_layout (bm_written b)"
proof -
  assume l: "bm_layout b"
  then have "root_ok (bg_block_longs (bm_geo b)) (bm_root_out b)" by (intro bm_root_out_ok) (simp_all add: bm_layout_def)
  moreover have f: "bm_ext_blks (bm_written b) = bm_ext_blks b" "bm_blks (bm_written b) = bm_blks b" "bm_data (bm_written b) = bm_data b"
    by (simp_all add: bm_written_def)
  ultimately show ?thesis using l unfolding bm_layout_def bm_written_fields bm_root_out_simps f by blast
qed

lemma dir_on_empty: "dir_on dk v g (replicate n 0) (replicate n [])"
  by (simp add: dir_on_def)

lemma empty_chains: "names_ok intl (replicate n [])" "dir_blocks (replicate n []) = []"
  by (simp_all add: names_ok_def dir_blocks_def concat_replicate_trivial)

text \<open>Placing the pointers of the bitmap leaves the rest of the root block alone.\<close>

lemma set_bm_ptrs_root:
  "set_bm_ptrs k l ns i idx pos (r, es) = Inr (r', es') \<Longrightarrow> rb_name r' = rb_name r \<and> rb_hash_table r' = rb_hash_table r"
  by (induction k l ns i idx pos "(r, es)" arbitrary: r es rule: set_bm_ptrs.induct) (auto simp: rbind_Inr_iff split: if_splits)

lemma bm_create_root:
  assumes "bm_create (bm_init g n r) = Inr b"
  shows "rb_name (bm_root b) = rb_name r \<and> rb_hash_table (bm_root b) = rb_hash_table r"
  using assms unfolding bm_create_def Let_def by (auto simp: rbind_Inr_iff dest!: set_bm_ptrs_root split: if_splits)

lemma vol_create_root:
  assumes ok: "create_ok g t name" and b: "bm_create (bm_init g (bg_num_blocks g div 2) r) = Inr b" and ts: "ts_ok c" "ts_ok d" "ts_ok m"
    and r: "r = root_create (bg_block_longs g) name c d m 0 t"
  shows "bm_wf b \<and> bm_layout b \<and> bm_dirty b \<and> bm_geo b = g \<and> bm_root_num b = bg_num_blocks g div 2 \<and>
    rb_name (bm_root b) = Some name \<and> rb_hash_table (bm_root b) = replicate (nat (bg_block_longs g - 56)) 0"
proof -
  note R = create_ok_root [OF ok ts, folded r]
  from bm_create_ok [OF R(1)] b have "bm_wf b \<and> bm_layout b \<and> bm_dirty b \<and> bm_geo b = g \<and> bm_root_num b = bg_num_blocks g div 2" by auto
  moreover have "rb_name (bm_root b) = rb_name r \<and> rb_hash_table (bm_root b) = rb_hash_table r" using bm_create_root [OF b] by simp
  ultimately show ?thesis by (simp add: r root_create_def)
qed

context block_device
begin

text \<open>Writing a new bitmap: the device then holds the volume, and the object of the bitmap is up to date.\<close>

lemma vol_bitmap_write_ok:
  assumes v: "vol_dev_ok s" and L: "bm_layout (vo_bitmap s)" "bm_dirty (vo_bitmap s)"
    and n: "set (bm_nums (vo_bitmap s)) \<subseteq> {bg_reserved (vgeo s)..<bg_num_blocks (vgeo s)}"
    and b: "boot_on (vdisk s) (vgeo s) t" "bg_bootblocks (vgeo s) \<le> bg_reserved (vgeo s)" "1 \<le> bg_reserved (vgeo s)"
  shows "\<exists>d'. vol_bitmap_write wr_blk s = Some (s\<lparr>vo_dev := d', vo_bitmap := bm_written (vo_bitmap s)\<rparr>, Inr ()) \<and>
    wf d' \<and> num d' = num (vo_dev s) \<and> bytes d' = bytes (vo_dev s) \<and> boot_on (disk_of d') (vgeo s) t"
proof -
  have d: "wf (vo_dev s)" "num (vo_dev s) = bg_num_blocks (vgeo s)" "bytes (vo_dev s) = bg_block_bytes (vgeo s)" using v by (simp_all add: vol_dev_ok_def)
  from bm_write_blocks [OF d L] obtain d' where w: "bm_write wr_blk (vo_bitmap s) (vo_dev s) = Inr (bm_written (vo_bitmap s), d')"
    "wf d'" "num d' = num (vo_dev s)" "bytes d' = bytes (vo_dev s)"
    "\<forall>c. 0 \<le> c \<and> c < num (vo_dev s) \<and> c \<notin> set (bm_nums (vo_bitmap s)) \<longrightarrow> snd (rd_blk d' c) = snd (rd_blk (vo_dev s) c)"
    unfolding bm_written_def by blast
  have "boot_on (disk_of d') (vgeo s) t"
    by (rule boot_on_cong [OF b(1) _ b(2,3)]) (use w(5) n d(2) in force)
  with w show ?thesis by (intro exI [of _ d']) (simp add: vol_bitmap_write_def)
qed

text \<open>The root block of a volume with an empty root directory.\<close>

lemma root_vol_new:
  assumes ok: "create_ok g t name" and b: "bm_create (bm_init g (bg_num_blocks g div 2) r) = Inr b" and ts: "ts_ok c" "ts_ok d" "ts_ok m"
    and r: "r = root_create (bg_block_longs g) name c d m 0 t"
    and s: "vo_bitmap s = bm_written b" "vo_flags s = type_flags t" "\<forall>k. ts_ok (Some (vo_clock s k))" "boot_on dk g t"
  shows "root_vol dk s (replicate (nat (bg_block_longs g - 56)) []) t" "set (bm_nums b) \<subseteq> {bg_reserved g..<bg_num_blocks g}"
    "int (card (free_set b)) = bg_num_blocks g - bg_reserved g - int (bm_size g (root_create (bg_block_longs g) name None None None 0 t))"
proof -
  let ?n = "bg_num_blocks g div 2" and ?z = "bm_size g (root_create (bg_block_longs g) name None None None 0 t)"
  note R = create_ok_root [OF ok ts, folded r] and C = vol_create_root [OF ok b ts r]
  from bm_create_ok [OF R(1)] b have F: "free_set b = blk_range g - {?n..<?n + int ?z}" "bm_num_used b = int ?z"
    and nums: "set (bm_nums b) = {?n..<?n + int ?z}" unfolding R(4) by auto
  have k: "file_geo_ok g" "1 \<le> bg_bootblocks g" "bg_bootblocks g \<le> bg_reserved g" "bg_reserved g \<le> ?n" "?n + int ?z \<le> bg_num_blocks g"
    "\<not> is_dircache t" "\<not> is_longname t" "0 < ?z"
    using ok by (simp_all add: create_ok_def bm_size_def)
  show card: "int (card (free_set b)) = bg_num_blocks g - bg_reserved g - int ?z" unfolding F(1) by (rule create_ok_free [OF ok refl])
  show sub: "set (bm_nums b) \<subseteq> {bg_reserved g..<bg_num_blocks g}" unfolding nums using k(4,5) by auto
  have "bm_root_out b = bm_root b \<or> bm_root_out b = (bm_root b)\<lparr>rb_blocks_used := bm_num_used b\<rparr>" by (simp add: bm_root_out_def)
  then have ro: "rb_name (bm_root_out b) = Some name" "rb_hash_table (bm_root_out b) = replicate (nat (bg_block_longs g - 56)) 0" using C by auto
  have "root_ok (bg_block_longs g) (bm_root_out b)" using C by (intro bm_root_out_ok) (auto simp: bm_layout_def)
  then have "Dir_Update.vol_ok s" unfolding vol_ok_def s(1,2) bm_written_fields using C k s(3)
    by (simp add: type_flags_def F(1))
  then show "root_vol dk s (replicate (nat (bg_block_longs g - 56)) []) t"
    unfolding root_vol_def Let_def s(1,2) bm_written_fields ro empty_chains using C k s(4) sub bm_written_layout [of b] card F nums dir_on_empty empty_chains(1)
    by auto
qed

end

lemma root_vol_fields:
  assumes "root_vol dk s C t"
  shows "vol_ok s" "root_ok (vbl s) (bm_root (vo_bitmap s))" "bm_root_num (vo_bitmap s) \<notin> free_set (vo_bitmap s)"
    "dir_on dk (vo_flags s) (vgeo s) (rb_hash_table (bm_root (vo_bitmap s))) C"
  using assms unfolding root_vol_def Let_def vol_ok_def by blast+

lemma root_vol_dir_ok:
  assumes r: "root_vol dk s C t" and a: "dir_at s i a" "ad_block a = RootBlk" and l: "loaded s i C"
  shows "dir_ok dk s i C"
proof -
  note f = root_vol_fields [OF r]
  from f(1,2) a have h: "hdr_at s i (rb_hash_table (bm_root (vo_bitmap s)))" unfolding hdr_at_def
    by (intro conjI exI [of _ a]) (simp_all add: hdr_ok_def table_of_def hash_size_of_def root_ok_def)
  from r have D: "names_ok (vf_intl (vo_flags s)) C" "distinct (dir_blocks C)" "set (dir_blocks C) \<subseteq> {bg_reserved (vgeo s)..<bg_num_blocks (vgeo s)}"
    "set (dir_blocks C) \<inter> set (bm_nums (vo_bitmap s)) = {}" "set (dir_blocks C) \<inter> free_set (vo_bitmap s) = {}"
    unfolding root_vol_def Let_def by blast+
  have n: "dir_num s a = bm_root_num (vo_bitmap s)" using a(2) by (simp add: dir_num_def)
  have b: "{1..<bg_num_blocks (vgeo s)} \<supseteq> {bg_reserved (vgeo s)..<bg_num_blocks (vgeo s)}" using f(1) by (auto simp: vol_ok_def)
  show ?thesis
  proof (rule dir_okI [OF h a(1) l f(4) D(1,2)])
    show "set (dir_blocks C) \<subseteq> {1..<bg_num_blocks (vgeo s)}" using D(3) b by blast
    show "{dir_num s a, bm_root_num (vo_bitmap s)} \<inter> set (dir_blocks C) = {}" using D(4) bm_root_in unfolding n by blast
    show "insert (dir_num s a) (set (dir_blocks C)) \<inter> free_set (vo_bitmap s) = {}" using D(5) f(3) unfolding n by blast
  qed
qed

context block_device
begin

lemma vol_create_ok:
  fixes clock
  assumes ok: "create_ok g t name" and d: "wf d" "num d = bg_num_blocks g" "bytes d = bg_block_bytes g"
    and meta: "root_meta_ok meta" and clk: "\<forall>k. ts_ok (Some (clock k))"
  shows "\<exists>s. vol_create_type rd_blk wr_blk name meta t None (vol_init g clock d) = Some (s, Inr ()) \<and>
    mounted (vdisk s) s 0 (replicate (nat (bg_block_longs g - 56)) []) t \<and> vol_dev_ok s \<and> vgeo s = g \<and> vo_flags s = type_flags t \<and> vo_valid s \<and>
    vo_name s = Some name \<and>
    int (card (free_set (vo_bitmap s))) = bg_num_blocks g - bg_reserved g - int (bm_size g (root_create (bg_block_longs g) name None None None 0 t))"
proof -
  let ?n = "bg_num_blocks g div 2" let ?C = "replicate (nat (bg_block_longs g - 56)) [] :: fs_body list list"
  have k: "file_geo_ok g" "1 \<le> bg_bootblocks g" "bg_bootblocks g \<le> bg_reserved g" "1 \<le> bg_reserved g" "is_valid_dos_type t" "bg_num_blocks g < 2 ^ 32"
    "\<not> vf_dircache (type_flags t)" "name_is_valid False name = Inr True"
    using ok name_ok_valid by (simp_all add: create_ok_def type_flags_def file_geo_ok_def)
  have bg: "boot_geo_ok g" by (rule create_ok_root(3) [OF ok, of None None None]) (simp_all add: ts_ok_def)
  define s1 where "s1 = (vol_init g clock d)\<lparr>vo_flags := type_flags t\<rparr>"
  from boot_new_on [OF bg d k(5,6)] obtain bo d1 where
    1: "boot_write wr_blk (boot_create t None None (boot_init g 0)) d = Inr (bo, d1)" "wf d1" "num d1 = num d" "bytes d1 = bytes d" "boot_on (disk_of d1) g t" by blast
  define s2 where "s2 = s1\<lparr>vo_dev := d1, vo_boot := Some bo\<rparr>"
  have g1: "vgeo s1 = g" "vo_dev s1 = d" "vo_nodes s1 = []" "vo_clock s1 = clock" by (simp_all add: s1_def vol_init_def)
  have r2: "boot_new wr_blk t None s1 = Some (s2, Inr ())" using 1(1) by (simp add: boot_new_def g1 s2_def)
  have "\<forall>k. ts_ok (Some (vo_clock s2 k))" using clk by (simp add: s2_def g1)
  from root_meta_run [OF meta this] obtain ck c e m where
    r3: "(case meta of None \<Rightarrow> default_root_meta | Some m \<Rightarrow> vret m) s2 = Some (s2\<lparr>vo_clock := ck\<rparr>, Inr (c, e, m))"
    and ts: "ts_ok c" "ts_ok e" "ts_ok m" and ck: "\<forall>k. ts_ok (Some (ck k))" by blast
  define r where "r = root_create (bg_block_longs g) name c e m 0 t"
  define s4 where "s4 = s2\<lparr>vo_clock := ck, vo_meta := Some (c, e, m), vo_name := Some name\<rparr>"
  from bm_create_ok [OF create_ok_root(1) [OF ok ts], folded r_def] obtain b where b: "bm_create (bm_init g ?n r) = Inr b" by blast
  note B = vol_create_root [OF ok b ts r_def]
  define s5 where "s5 = s4\<lparr>vo_bitmap := b, vo_root_valid := False\<rparr>"
  have g4: "vgeo s4 = g" by (simp add: s4_def s2_def g1)
  have r5: "bitmap_new r s4 = Some (s5, Inr ())" using b by (simp add: bitmap_new_def g4 s5_def)
  have f5: "vo_bitmap s5 = b" "vo_dev s5 = d1" "vo_flags s5 = type_flags t" "vo_nodes s5 = []" "vo_clock s5 = ck" "vo_name s5 = Some name"
    by (simp_all add: s5_def s4_def s2_def g1) (simp_all add: s1_def)
  have v5: "vol_dev_ok s5" using 1 d B by (simp add: vol_dev_ok_def f5)
  let ?t = "s5\<lparr>vo_bitmap := bm_written b\<rparr>"
  have rv: "root_vol dk s ?C t" "set (bm_nums b) \<subseteq> {bg_reserved g..<bg_num_blocks g}"
    "int (card (free_set b)) = bg_num_blocks g - bg_reserved g - int (bm_size g (root_create (bg_block_longs g) name None None None 0 t))"
    if "vo_bitmap s = bm_written b" "vo_flags s = type_flags t" "vo_clock s = ck" "boot_on dk g t" for s :: "'d volume" and dk
    using root_vol_new [OF ok b ts r_def that(1,2) _ that(4)] ck that(3) by simp_all
  note nums = rv(2,3) [of ?t "disk_of d1", OF _ _ _ 1(5)]
  from vol_bitmap_write_ok [OF v5, of t] B nums f5 1(5) k(3,4) obtain d6 where
    6: "vol_bitmap_write wr_blk s5 = Some (s5\<lparr>vo_dev := d6, vo_bitmap := bm_written b\<rparr>, Inr ())" "wf d6" "num d6 = num d1" "bytes d6 = bytes d1" "boot_on (disk_of d6) g t"
    by auto
  define s6 where "s6 = s5\<lparr>vo_dev := d6, vo_bitmap := bm_written b\<rparr>"
  define s7 where "s7 = s6\<lparr>vo_nodes := [\<lparr>nd_parent = None, nd_body = DirB (root_obj (bm_root_out b))\<rparr>], vo_root_dir := Some 0\<rparr>"
  have f7: "vo_bitmap s7 = bm_written b" "vo_dev s7 = d6" "vo_flags s7 = type_flags t" "vo_clock s7 = ck" "dir_at s7 0 (root_obj (bm_root_out b))" "vgeo s7 = g"
    "vo_name s7 = Some name" "vo_root_dir s7 = Some 0"
    using B by (simp_all add: s7_def s6_def f5 dir_at_def)
  have "rb_name (bm_root_out b) \<noteq> None" using B by (simp add: bm_root_out_def)
  then have r7: "vol_dir_new s6 = Some (s7, Inr 0)" using vol_dir_new_run [of s6] by (simp add: s7_def s6_def f5)
  have rv7: "root_vol (vdisk s7) s7 ?C t" by (rule rv(1)) (simp_all add: f7 6(5))
  note R = root_vol_fields [OF rv7, unfolded f7 bm_written_fields]
  have gb: "bm_geo b = g" using B by simp
  have v7: "vol_dev_ok s7" using 6 1 d by (simp add: vol_dev_ok_def f7 gb)
  have ta: "table_of s7 (root_obj (bm_root_out b)) = Inr (rb_hash_table (bm_root_out b))"
    "hash_size_of s7 (root_obj (bm_root_out b)) = Inr (int (length (rb_hash_table (bm_root_out b))))"
    using root_obj_table [of s7 "bm_root_out b"] R(2) B by (simp_all add: f7)
  have dc: "\<not> vf_dircache (vo_flags s7)" using k(7) by (simp add: f7)
  from dir_read_ok [OF v7 f7(5) dc ta] R(4) obtain s8 where 8: "dir_read rd_blk False 0 s7 = Some (s8, Inr ())" "loaded s8 0 ?C" "dir_step 0 s7 s8"
    "same_blocks (vo_dev s7) (vo_dev s8)" "vo_root_dir s8 = vo_root_dir s7" "vo_name s8 = vo_name s7" by (auto simp: f7)
  let ?s = "s8\<lparr>vo_valid := True\<rparr>"
  have x: "create_extra_blks wr_blk 0 s7 = Some (s7, Inr ())" using dc by (simp add: create_extra_blks_def)
  have run: "vol_create_type rd_blk wr_blk name meta t None (vol_init g clock d) = Some (?s, Inr ())"
    unfolding vol_create_type_def k(8) using g1(1)
    by (simp add: s1_def [symmetric] vbind_run [of "boot_new wr_blk t None", OF r2] vbind_run [of "case meta of None \<Rightarrow> default_root_meta | Some m \<Rightarrow> vret m", OF r3]
        s4_def [symmetric] g4 r_def [symmetric] vbind_run [of "bitmap_new r", OF r5] vbind_run [of "vol_bitmap_write wr_blk", OF 6(1)] s6_def [symmetric]
        vbind_run [of vol_dir_new, OF r7] vbind_run [of "create_extra_blks wr_blk 0", OF x] vbind_run [of "dir_read rd_blk False 0", OF 8(1)])
  have f8: "vo_bitmap ?s = bm_written b" "vo_flags ?s = type_flags t" "vo_clock ?s = ck" "vgeo ?s = g" using 8(3) f7 by (simp_all add: dir_step_def)
  have b8: "boot_on (vdisk ?s) g t"
    by (rule boot_on_cong [OF 6(5) _ k(3,4)]) (use 8(4) 6(3) 1(3) d(2) f7(2) in \<open>simp add: same_blocks_def\<close>)
  have rv8: "root_vol (vdisk ?s) ?s ?C t" by (rule rv(1) [OF f8(1,2,3) b8])
  have v8: "vol_dev_ok ?s" by (rule vol_dev_ok_same [OF v7 8(4)]) (simp_all add: f8(1) [simplified] f7(1) gb)
  from 8(3) f7(5) obtain a where a: "dir_at s8 0 a" "ad_block a = RootBlk" by (auto simp: dir_step_def root_obj_def)
  then have a': "dir_at ?s 0 a" by (simp add: dir_at_def)
  have ld: "loaded ?s 0 ?C" by (rule loaded_cong [OF 8(2)]) (simp_all add: dir_at_def)
  have "dir_ok (vdisk ?s) ?s 0 ?C" by (rule root_vol_dir_ok [OF rv8 a' a(2) ld])
  moreover have "vo_root_dir ?s = Some 0" using 8(5) f7(8) by simp
  ultimately have "mounted (vdisk ?s) ?s 0 ?C t" unfolding mounted_def using rv8 a' a(2) by blast
  with run v8 nums(2) f8 8(6) f7(7) show ?thesis by (intro exI [of _ ?s]) (simp add: f5)
qed

end

end
