(* ===== verification/Vol_Files.thy ===== *)
theory Vol_Files
  imports Vol_Create
begin

text \<open>
  Writing a file to a volume by its path and reading it back, also after the volume was closed and opened again.
\<close>

subsection \<open>Paths with one name\<close>

text \<open>A path that names an entry of the root directory.\<close>

definition file_path :: "string \<Rightarrow> bool" where
  "file_path n \<longleftrightarrow> name_ok 30 (Some n) \<and> n \<noteq> '''' \<and> n \<noteq> '':'' \<and> CHR ''/'' \<notin> set n"

lemma file_path_simps:
  assumes "file_path n"
  shows "name_is_valid False n = Inr True" "\<not> is_root_path_alias n" "split_path n = [n]" "get_dir_and_base_name n = (None, Some n)" "plain_name n"
proof -
  show "\<not> is_root_path_alias n" using assms by (cases n) (auto simp: file_path_def is_root_path_alias_def)
  show "get_dir_and_base_name n = (None, Some n)" using assms by (simp add: file_path_def get_dir_and_base_name_def rfind_char_def)
qed (use assms name_ok_valid in \<open>simp_all add: file_path_def split_path_def split_on_no name_ok_def\<close>)

lemma get_path_name_one:
  assumes "file_path n" "\<not> vf_longname (vo_flags s)" "vo_root_dir s = Some i"
  shows "get_path_name rd af ad n s = get_path rd af ad [n] i s"
proof -
  have "root_dir_of s = Some (s, Inr i)" using assms(3) by (simp add: root_dir_of_def)
  then show ?thesis using file_path_simps [OF assms(1)] assms(2) by (simp add: get_path_name_def vbind_run)
qed

lemma get_create_path_name_one:
  assumes n: "file_path n" "\<not> vf_longname (vo_flags s)" "vo_root_dir s = Some i"
    and l: "get_path rd False True [n] i s = Some (s', Inr None)"
  shows "get_create_path_name rd n suggest s = Some (s', Inr (Some i, Some n))"
proof -
  have "get_dir_path_name rd n s = Some (s', Inr None)" unfolding get_dir_path_name_def get_path_name_one [OF n] by (rule l)
  then show ?thesis using file_path_simps [OF n(1)] n(2,3) by (simp add: get_create_path_name_def vbind_run [of "get_dir_path_name rd n"])
qed

subsection \<open>Writing\<close>

lemma root_vol_cong:
  "root_vol dk s C t \<Longrightarrow> vo_bitmap s' = vo_bitmap s \<Longrightarrow> vo_flags s' = vo_flags s \<Longrightarrow> vo_clock s' = vo_clock s \<Longrightarrow>
   disk_frame {} (vgeo s) dk dk' \<Longrightarrow> root_vol dk' s' C t"
proof -
  assume r: "root_vol dk s C t" and e: "vo_bitmap s' = vo_bitmap s" "vo_flags s' = vo_flags s" "vo_clock s' = vo_clock s" and f: "disk_frame {} (vgeo s) dk dk'"
  from r have res: "bg_bootblocks (vgeo s) \<le> bg_reserved (vgeo s)" "1 \<le> bg_reserved (vgeo s)" "boot_on dk (vgeo s) t"
    "dir_on dk (vo_flags s) (vgeo s) (rb_hash_table (bm_root (vo_bitmap s))) C" "set (dir_blocks C) \<subseteq> {bg_reserved (vgeo s)..<bg_num_blocks (vgeo s)}"
    by (simp_all add: root_vol_def Let_def vol_ok_def)
  have "boot_on dk' (vgeo s) t" by (rule boot_on_cong [OF res(3) _ res(1,2)]) (use f in \<open>simp add: disk_frame_def\<close>)
  moreover have "dir_on dk' (vo_flags s) (vgeo s) (rb_hash_table (bm_root (vo_bitmap s))) C"
    by (rule dir_on_cong [OF res(4)]) (use f res(2,5) in \<open>force simp: disk_frame_def\<close>)
  moreover have "vol_ok s' = vol_ok s" by (simp add: vol_ok_def e)
  ultimately show ?thesis using r unfolding root_vol_def Let_def e by blast
qed

context block_device
begin

lemma same_blocks_frame: "vol_dev_ok s \<Longrightarrow> same_blocks (vo_dev s) (vo_dev s') \<Longrightarrow> disk_frame {} (vgeo s) (vdisk s) (vdisk s')"
  by (simp add: disk_frame_def same_blocks_def vol_dev_ok_def)

lemma vol_write_ok:
  fixes data
  assumes m: "mounted (vdisk s) s i C t" and dev: "vol_dev_ok s" and nm: "file_path name" and len: "u32_ok (int (length data))"
    and new: "dir_map (vf_intl (vo_flags s)) C (upper (vf_intl (vo_flags s)) name) = None"
    and room: "blocks_needed (vo_flags s) (vgeo s) data \<le> int (card (free_set (vo_bitmap s)))"
  shows "\<exists>s' s1 s2. vol_write_file rd_blk wr_blk data name suggest cache s = Some (s', Inr ()) \<and>
    mounted (vdisk s1) s1 i C t \<and> vo_flags s1 = vo_flags s \<and> vo_bitmap s1 = vo_bitmap s \<and> created s1 i C name data s2 \<and>
    vo_dev s' = vo_dev s2 \<and> vo_flags s' = vo_flags s2 \<and> vo_bitmap s' = vo_bitmap s2 \<and> vo_clock s' = vo_clock s2"
proof -
  from m have M: "root_vol (vdisk s) s C t" "dir_ok (vdisk s) s i C" "vo_root_dir s = Some i" unfolding mounted_def by blast+
  from M(1) have ln: "\<not> vf_longname (vo_flags s)" by (simp add: root_vol_def Let_def vol_ok_def)
  note pn = file_path_simps(5) [OF nm]
  from lookup_ok [OF M(2) dev pn, of False True] new obtain s1 where 1: "get_path rd_blk False True [name] i s = Some (s1, Inr None)"
    "dir_ok (vdisk s1) s1 i C" "vol_dev_ok s1" "same_blocks (vo_dev s) (vo_dev s1)" "vo_flags s1 = vo_flags s" "vo_bitmap s1 = vo_bitmap s"
    "dir_step i s s1" "vo_root_dir s1 = vo_root_dir s" by auto
  have g: "get_create_path_name rd_blk name suggest s = Some (s1, Inr (Some i, Some name))"
    by (rule get_create_path_name_one [OF nm ln M(3) 1(1)])
  have "vo_clock s1 = vo_clock s" using 1(7) by (simp add: dir_step_def)
  from root_vol_cong [OF M(1) 1(6,5) this same_blocks_frame [OF dev 1(4)]] have "mounted (vdisk s1) s1 i C t"
    using m 1(2,7,8) unfolding mounted_def dir_step_def by metis
  moreover have "name_mi_ok name None" using nm by (simp add: name_mi_ok_def file_path_def)
  from create_file_ok [OF 1(2,3) this len, of True] new room 1(5,6) obtain s2 where
    2: "create_file rd_blk wr_blk i name data None True s1 = Some (s2, Inr (length (vo_nodes s1)))" "created s1 i C name data s2" by auto
  moreover from 2(2) obtain f where f: "nd_body (vo_nodes s2 ! length (vo_nodes s1)) = FileB f" unfolding created_def by blast
  have "\<exists>s'. node_flush cache (length (vo_nodes s1)) s2 = Some (s', Inr ()) \<and>
      vo_dev s' = vo_dev s2 \<and> vo_flags s' = vo_flags s2 \<and> vo_bitmap s' = vo_bitmap s2 \<and> vo_clock s' = vo_clock s2"
    using f by (simp add: node_flush_def flush_nodes.simps)
  moreover have "vol_write_file rd_blk wr_blk data name suggest cache s = node_flush cache (length (vo_nodes s1)) s2"
    unfolding vol_write_file_def vbind_run [of "get_create_path_name rd_blk name suggest", OF g] by (simp add: vbind_run [of "create_file rd_blk wr_blk i name data None True", OF 2(1)])
  ultimately show ?thesis using 1(5,6) by metis
qed

end

subsection \<open>Reading\<close>

lemma distinct_concat_eq: "distinct (concat (map f xs)) \<Longrightarrow> x \<in> set xs \<Longrightarrow> y \<in> set xs \<Longrightarrow> a \<in> set (f x) \<Longrightarrow> a \<in> set (f y) \<Longrightarrow> x = y"
  by (induction xs) auto

lemma e_num_in_nums: "e_num e \<in> set (e_nums e)"
  by (cases e) (simp_all add: e_num_def e_nums_def file_block_nums_def)

lemma e_num_inj: "distinct (dir_blocks C) \<Longrightarrow> e \<in> set (concat C) \<Longrightarrow> e' \<in> set (concat C) \<Longrightarrow> e_num e = e_num e' \<Longrightarrow> e = e'"
  using distinct_concat_eq [of e_nums "concat C" e e' "e_num e"] e_num_in_nums [of e] e_num_in_nums [of e'] by (simp add: dir_blocks_def)

context block_device
begin

text \<open>Reading a file of the root of a volume just opened: the nodes are the entries on disk.\<close>

lemma vol_read_ok:
  fixes data
  assumes ok: "dir_ok (vdisk s) s 0 C" and dev: "vol_dev_ok s" and ld: "loaded s 0 C" and rd: "vo_root_dir s = Some 0" and nm: "file_path name"
    and nodes: "\<forall>j. 1 \<le> j \<and> j < length (vo_nodes s) \<longrightarrow> (\<exists>e \<in> set (concat C). vo_nodes s ! j = entry_node 0 e)"
    and f: "FileB f \<in> set (concat C)" "dir_map (vf_intl (vo_flags s)) C (upper (vf_intl (vo_flags s)) name) = Some (af_num f)"
    and b: "af_block f = Some b" "fh_byte_size b = int (length data)" and on: "data_on (vdisk s) (vo_flags s) (vgeo s) (af_num f) (af_data_nums f) data"
  shows "\<exists>s'. vol_read_file rd_blk name cache s = Some (s', Inr (Some data)) \<and> same_blocks (vo_dev s) (vo_dev s')"
proof -
  from ok obtain t where D: "vol_ok s" "distinct (dir_blocks C)" "dir_on (vdisk s) (vo_flags s) (vgeo s) t C" unfolding dir_ok_def by blast
  have ln: "\<not> vf_longname (vo_flags s)" using D(1) by (simp add: vol_ok_def)
  have ne: "concat C \<noteq> []" using f(1) by (metis empty_iff list.set(1))
  from lookup_ok [OF ok dev file_path_simps(5) [OF nm], of True False] obtain s1 r where
    l: "get_path rd_blk True False [name] 0 s = Some (s1, Inr r)" "loaded s 0 C \<and> concat C \<noteq> [] \<longrightarrow> s1 = s"
    "case dir_map (vf_intl (vo_flags s)) C (upper (vf_intl (vo_flags s)) name) of None \<Rightarrow> r = None
     | Some n \<Rightarrow> \<exists>e j. e \<in> set (concat C) \<and> e_num e = n \<and> node_is s1 0 j e \<and> r = (if (if is_dir_node (vo_nodes s1 ! j) then False else True) then Some j else None)"
    by blast
  have s1: "s1 = s" using l(2) ld ne by blast
  from l(3) obtain e j where e: "e \<in> set (concat C)" "e_num e = af_num f" "node_is s 0 j e" "r = (if (if is_dir_node (vo_nodes s ! j) then False else True) then Some j else None)"
    unfolding f(2) option.case s1 by blast
  have "1 \<le> j \<and> j < length (vo_nodes s)" using e(3) by (auto simp: node_is_def)
  with nodes obtain e' where e': "e' \<in> set (concat C)" "vo_nodes s ! j = entry_node 0 e'" by blast
  have "e_num e' = e_num e" using e(3) e'(2) by (auto simp: node_is_def entry_node_def same_entry_def e_num_def split: fs_body.splits)
  with e_num_inj [OF D(2) e'(1) f(1)] e(2) have nj: "vo_nodes s ! j = entry_node 0 (FileB f)" using e'(2) by (simp add: e_num_def)
  have r: "r = Some j" using e(4) by (simp add: nj entry_node_def is_dir_node_def)
  have "get_file_path_name rd_blk name s = Some (s, Inr (Some j))"
    using l(1) unfolding get_file_path_name_def get_path_name_one [OF nm ln rd] s1 r .
  note p = vbind_run [of "get_file_path_name rd_blk name", OF this]
  obtain h where "h < length C" "FileB f \<in> set (C ! h)" using f(1) unfolding concat_nth by blast
  with dir_on_entries [OF D(3)] have "file_on (vdisk s) (vo_flags s) (vgeo s) f" by (fastforce simp: entry_on_def)
  then obtain n b ms bs where "f = opened (vo_flags s) (vgeo s) n b ms bs" unfolding file_on_def by blast
  then have nd: "af_data f = None" by (simp add: opened_def file_init_def)
  have G: "file_geo_ok (vgeo s)" and w: "wf (vo_dev s)" "num (vo_dev s) = bg_num_blocks (vgeo s)" "bytes (vo_dev s) = bg_block_bytes (vgeo s)"
    using D(1) dev by (simp_all add: vol_ok_def vol_dev_ok_def)
  from file_read_on [OF on b G w] obtain d' f' where
    1: "file_read rd_blk (vo_flags s) (vgeo s) f (vo_dev s) = (d', Inr f')" "af_data f' = Some data" "same_blocks (vo_dev s) d'" by blast
  let ?s2 = "set_body j (FileB f') (s\<lparr>vo_dev := d'\<rparr>)"
  have "node_get_data rd_blk j s = Some (?s2, Inr (Some data))"
    by (simp add: node_get_data_def nj entry_node_def get_file_data_def nd 1)
  note g = vbind_run [of "node_get_data rd_blk j", OF this]
  have "\<exists>s3. node_flush cache j ?s2 = Some (s3, Inr ()) \<and> vo_dev s3 = d'" using e(3)
    by (simp add: node_flush_def flush_nodes.simps set_body_def node_is_def)
  then obtain s3 where "node_flush cache j ?s2 = Some (s3, Inr ())" "vo_dev s3 = d'" by blast
  then have "vol_read_file rd_blk name cache s = Some (s3, Inr (Some data))"
    unfolding vol_read_file_def p option.case g by (simp add: vbind_run [of "node_flush cache j"])
  with 1(3) \<open>vo_dev s3 = d'\<close> show ?thesis by blast
qed

text \<open>Writing, closing, opening and reading.\<close>

lemma write_remount_read:
  fixes data clock
  assumes m: "mounted (vdisk s) s i C t" and dev: "vol_dev_ok s" and nm: "file_path name" "file_path name'" and len: "u32_ok (int (length data))"
    and same: "upper (vf_intl (vo_flags s)) name' = upper (vf_intl (vo_flags s)) name"
    and new: "dir_map (vf_intl (vo_flags s)) C (upper (vf_intl (vo_flags s)) name) = None"
    and room: "blocks_needed (vo_flags s) (vgeo s) data \<le> int (card (free_set (vo_bitmap s)))" and clk: "\<forall>k. ts_ok (Some (clock k))"
  shows "\<exists>s1 s2 s3 s4 h f. vol_write_file rd_blk wr_blk data name suggest c1 s = Some (s1, Inr ()) \<and>
    vol_close wr_blk s1 = Some (s2, Inr ()) \<and> vol_open rd_blk (vol_init (vgeo s) clock (vo_dev s2)) = Some (s3, Inr ()) \<and>
    vo_root_dir s3 = Some 0 \<and> dir_ok (vdisk s3) s3 0 (add_chain h (FileB f) C) \<and> vol_dev_ok s3 \<and> vo_flags s3 = vo_flags s \<and>
    dir_map (vf_intl (vo_flags s)) (add_chain h (FileB f) C) = (dir_map (vf_intl (vo_flags s)) C)(upper (vf_intl (vo_flags s)) name \<mapsto> af_num f) \<and>
    free_set (vo_bitmap s3) = free_set (vo_bitmap s) - set (file_block_nums f) \<and>
    vol_read_file rd_blk name' c2 s3 = Some (s4, Inr (Some data))"
proof -
  from vol_write_ok [OF m dev nm(1) len new room, of suggest c1] obtain s1 r s5 where
    1: "vol_write_file rd_blk wr_blk data name suggest c1 s = Some (s1, Inr ())" "mounted (vdisk r) r i C t" "vo_flags r = vo_flags s" "vo_bitmap r = vo_bitmap s"
    "created r i C name data s5" "vo_dev s1 = vo_dev s5" "vo_flags s1 = vo_flags s5" "vo_bitmap s1 = vo_bitmap s5" "vo_clock s1 = vo_clock s5" by blast
  from m have G: "file_geo_ok (vgeo s)" by (simp add: mounted_def root_vol_def Let_def vol_ok_def)
  from created_root_vol [OF 1(2,5)] G 1(3,4) obtain h f b where
    2: "root_vol (vdisk s5) s5 (add_chain h (FileB f) C) t" "bm_dirty (vo_bitmap s5)" "vol_dev_ok s5" "vo_flags s5 = vo_flags s" "vgeo s5 = vgeo s"
     "FileB f \<in> set (concat (add_chain h (FileB f) C))"
     "dir_map (vf_intl (vo_flags s)) (add_chain h (FileB f) C) = (dir_map (vf_intl (vo_flags s)) C)(upper (vf_intl (vo_flags s)) name \<mapsto> af_num f)"
     "af_block f = Some b" "fh_byte_size b = int (length data)" "data_on (vdisk s5) (vo_flags s) (vgeo s) (af_num f) (af_data_nums f) data"
     "set (file_block_nums f) \<inter> set (bm_nums (vo_bitmap s5)) = {}" "free_set (vo_bitmap s5) = free_set (vo_bitmap s) - set (file_block_nums f)" by auto
  let ?C = "add_chain h (FileB f) C" and ?v = "vf_intl (vo_flags s)"
  have v1: "vol_dev_ok s1" using 2(3) by (simp add: vol_dev_ok_def 1(6,8))
  have r1: "root_vol (vdisk s1) s1 ?C t" by (rule root_vol_cong [OF 2(1) 1(8,7,9)]) (simp add: 1(6) disk_frame_def)
  from remount [OF r1 v1 _ clk] 2(2,4,5) obtain s2 s3 where
    3: "vol_close wr_blk s1 = Some (s2, Inr ())" "vol_open rd_blk (vol_init (vgeo s) clock (vo_dev s2)) = Some (s3, Inr ())" "vo_root_dir s3 = Some 0"
    "dir_ok (vdisk s3) s3 0 ?C" "loaded s3 0 ?C" "vol_dev_ok s3" "vo_flags s3 = vo_flags s" "vgeo s3 = vgeo s"
    "free_set (vo_bitmap s3) = free_set (vo_bitmap s5)" "disk_frame (set (bm_nums (vo_bitmap s5))) (vgeo s) (vdisk s5) (vdisk s3)"
    "\<forall>j. 1 \<le> j \<and> j < length (vo_nodes s3) \<longrightarrow> (\<exists>e \<in> set (concat ?C). vo_nodes s3 ! j = entry_node 0 e)" unfolding 1(6,7,8) by metis
  have sub: "set (af_data_nums f) \<subseteq> {1..<bg_num_blocks (vgeo s)}" "set (af_data_nums f) \<inter> set (bm_nums (vo_bitmap s5)) = {}"
  proof -
    have "set (e_nums (FileB f)) \<subseteq> set (dir_blocks ?C)" using 2(6) unfolding dir_blocks_def set_concat [of "map e_nums _"] by force
    then have "set (file_block_nums f) \<subseteq> set (dir_blocks ?C)" by (simp add: e_nums_def)
    moreover have "set (dir_blocks ?C) \<subseteq> {1..<bg_num_blocks (vgeo s)}" using 3(4,8) unfolding dir_ok_def by auto
    ultimately show "set (af_data_nums f) \<subseteq> {1..<bg_num_blocks (vgeo s)}" "set (af_data_nums f) \<inter> set (bm_nums (vo_bitmap s5)) = {}"
      using 2(11) by (auto simp: file_block_nums_def)
  qed
  have "data_on (vdisk s3) (vo_flags s) (vgeo s) (af_num f) (af_data_nums f) data"
    by (rule data_on_cong [OF 2(10)]) (use sub disk_frameD [OF 3(10)] in blast)
  with vol_read_ok [OF 3(4,6,5,3) nm(2) 3(11) 2(6) _ 2(8,9), of c2] 2(7) same 3(7,8) obtain s4 where
    "vol_read_file rd_blk name' c2 s3 = Some (s4, Inr (Some data))" by auto
  with 1(1) 2(7,12) 3(1-4,6,7,9) show ?thesis
    by (intro exI [of _ s1] exI [of _ s2] exI [of _ s3] exI [of _ s4] exI [of _ h] exI [of _ f]) simp
qed

end

subsection \<open>A small volume\<close>

lemma small_create_ok:
  assumes "g = set_geometry 3 1 10 512 2 2" "bg_num_blocks g = 30"
  shows "create_ok g (DOS0 + 1) ''Work''" "bm_size g (root_create (bg_block_longs g) ''Work'' None None None 0 (DOS0 + 1)) = 2" "bg_reserved g = 2"
    "bg_block_longs g = 128" "bg_block_bytes g = 512"
proof -
  show g: "bg_reserved g = 2" "bg_block_longs g = 128" "bg_block_bytes g = 512" using assms(1) by (simp_all add: set_geometry_def Let_def)
  have b: "bg_bootblocks g = 2" using assms(1) by (simp add: set_geometry_def Let_def)
  have nb: "bm_num_blks g = 1" by (simp add: bm_num_blks_def bm_longs_def bm_bits_def bm_blk_longs_def g assms(2))
  show z: "bm_size g (root_create (bg_block_longs g) ''Work'' None None None 0 (DOS0 + 1)) = 2"
    by (simp add: bm_size_def bm_num_ext_def nb root_create_def bm_blk_longs_def g)
  have "name_ok 30 (Some ''Work'')" by (simp add: name_ok_def plain_name_def nfkc_char_def)
  then show "create_ok g (DOS0 + 1) ''Work''" unfolding create_ok_def z using g b assms(2)
    by (simp add: file_geo_ok_def is_valid_dos_type_def is_dircache_def is_longname_def)
qed

subsection \<open>Properties\<close>

text \<open>C6: creating a volume on a partition that has room for its root block and bitmap in the middle, with a
  type without directory cache and long names and without boot code: it succeeds whatever the partition held, the
  volume is open with an empty root directory, boot block, root block and bitmap are on disk, and the number of free
  blocks is that of the blocks behind the reserved ones less the root block and the blocks of the bitmap.\<close>

theorem create_volume:
  assumes "t = create_dos_type dos_type ffs intl dircache longname" and "create_ok (pt_geo p) t name" and "part_dev_ok p" and "root_meta_ok meta" and "\<forall>k. ts_ok (Some (clock k))"
  shows "\<exists>s. vol_create part_read_block part_write_block name meta dos_type None ffs intl dircache longname (vol_init (pt_geo p) clock p) = Some (s, Inr ()) \<and>
    part_ok s \<and> mounted (part_disk s) s 0 (replicate (nat (bg_block_longs (pt_geo p) - 56)) []) t \<and>
    vo_name s = Some name \<and> vo_flags s = type_flags t \<and> vgeo s = pt_geo p \<and>
    vol_free_blocks s = Inr (bg_num_blocks (pt_geo p) - bg_reserved (pt_geo p) -
      int (bm_size (pt_geo p) (root_create (bg_block_longs (pt_geo p)) name None None None 0 t)))"
proof -
  from part.vol_create_ok [OF assms(2,3) refl refl assms(4,5)] obtain s where
    s: "vol_create part_read_block part_write_block name meta dos_type None ffs intl dircache longname (vol_init (pt_geo p) clock p) = Some (s, Inr ())" "part_ok s"
    "mounted (part_disk s) s 0 (replicate (nat (bg_block_longs (pt_geo p) - 56)) []) t" "vgeo s = pt_geo p" "vo_flags s = type_flags t" "vo_name s = Some name"
    "int (card (free_set (vo_bitmap s))) = bg_num_blocks (pt_geo p) - bg_reserved (pt_geo p) -
      int (bm_size (pt_geo p) (root_create (bg_block_longs (pt_geo p)) name None None None 0 t))" unfolding part_vol part_disk_def vol_create_def assms(1) [symmetric] by blast
  from s(3) have "bm_wf (vo_bitmap s)" unfolding mounted_def root_vol_def Let_def vol_ok_def by blast
  with get_nums_ok [of "vo_bitmap s"] s(7) have "vol_free_blocks s = Inr (bg_num_blocks (pt_geo p) - bg_reserved (pt_geo p) -
      int (bm_size (pt_geo p) (root_create (bg_block_longs (pt_geo p)) name None None None 0 t)))" by (simp add: vol_free_blocks_def)
  with s(1-6) show ?thesis by blast
qed

text \<open>C1: on an open volume without directory cache and long names, whose root directory is well kept (finite hash
  chains, its blocks not free), a file is written under a name of the root directory, without directory part, that
  is not there yet, of at most 30 characters, and there are as many free blocks as it needs. It is there after the
  volume was closed and opened again: reading it by any spelling of its name that AmigaDOS takes for the same gives
  the bytes that were written. The directory then has the entries it had and the file, and the bitmap read from disk
  has the blocks of the file taken and all others as before.\<close>

theorem file_survives_remount:
  fixes data :: "byte list"
  assumes "part_ok s" and "mounted (part_disk s) s i C t" and "file_path name" and "file_path name'" and "u32_ok (int (length data))"
    and "upper (vf_intl (vo_flags s)) name' = upper (vf_intl (vo_flags s)) name"
    and "dir_map (vf_intl (vo_flags s)) C (upper (vf_intl (vo_flags s)) name) = None"
    and "blocks_needed (vo_flags s) (vgeo s) data \<le> int (card (free_set (vo_bitmap s)))" and "\<forall>k. ts_ok (Some (clock k))"
  shows "\<exists>s1 s2 s3 s4 h f. vol_write_file part_read_block part_write_block data name suggest cache s = Some (s1, Inr ()) \<and>
    vol_close part_write_block s1 = Some (s2, Inr ()) \<and>
    vol_open part_read_block (vol_init (vgeo s) clock (vo_dev s2)) = Some (s3, Inr ()) \<and>
    vol_read_file part_read_block name' cache' s3 = Some (s4, Inr (Some data)) \<and>
    vo_root_dir s3 = Some 0 \<and> part_ok s3 \<and> dir_ok (part_disk s3) s3 0 (add_chain h (FileB f) C) \<and>
    dir_map (vf_intl (vo_flags s)) (add_chain h (FileB f) C) = (dir_map (vf_intl (vo_flags s)) C)(upper (vf_intl (vo_flags s)) name \<mapsto> af_num f) \<and>
    free_set (vo_bitmap s3) = free_set (vo_bitmap s) - set (file_block_nums f)"
proof -
  from part.write_remount_read [OF assms(2) [unfolded part_disk_def] assms(1) [folded part_vol] assms(3-9), of suggest cache cache']
  show ?thesis unfolding part_vol part_disk_def by blast
qed

theorem create_volume_witness:
  "\<exists>m p s. img_create False 512 100 = Inr m \<and>
     part_open (img_open m) (dos_env_init\<lparr>de_surfaces := 1, de_blk_per_trk := 10, de_low_cyl := 2, de_high_cyl := 4\<rparr>) = Inr p \<and>
     vol_create part_read_block part_write_block ''Work'' None None None True False False False (vol_init (pt_geo p) (\<lambda>_. ts_zero) p) = Some (s, Inr ()) \<and>
     vol_free_blocks s = Inr 26"
proof -
  obtain m p b where s: "img_create False 512 100 = Inr m"
    "part_open (img_open m) (dos_env_init\<lparr>de_surfaces := 1, de_blk_per_trk := 10, de_low_cyl := 2, de_high_cyl := 4\<rparr>) = Inr p"
    "part_dev_ok p" "pt_geo p = set_geometry 3 1 10 512 2 2" "bg_num_blocks (pt_geo p) = 30" by (rule small_partition)
  note c = small_create_ok [OF s(4,5)]
  have t: "DOS0 + 1 = create_dos_type None True False False False" by code_simp
  have "root_meta_ok None" "\<forall>k::nat. ts_ok (Some ts_zero)" by (simp_all add: root_meta_ok_def ts_ok_def ts_zero_def u32_ok_def)
  from create_volume [OF t c(1) s(3) this] c(2,3) s(1,2,5) show ?thesis by fastforce
qed

theorem file_survives_remount_witness:
  "\<exists>m p s s1 s2 s3 s4. img_create False 512 100 = Inr m \<and>
     part_open (img_open m) (dos_env_init\<lparr>de_surfaces := 1, de_blk_per_trk := 10, de_low_cyl := 2, de_high_cyl := 4\<rparr>) = Inr p \<and>
     vol_create part_read_block part_write_block ''Work'' None None None True False False False (vol_init (pt_geo p) (\<lambda>_. ts_zero) p) = Some (s, Inr ()) \<and>
     vol_write_file part_read_block part_write_block [1, 2, 3] ''File'' None True s = Some (s1, Inr ()) \<and>
     vol_close part_write_block s1 = Some (s2, Inr ()) \<and>
     vol_open part_read_block (vol_init (vgeo s) (\<lambda>_. ts_zero) (vo_dev s2)) = Some (s3, Inr ()) \<and>
     vol_read_file part_read_block ''fILE'' True s3 = Some (s4, Inr (Some [1, 2, 3]))"
proof -
  obtain m p b where s: "img_create False 512 100 = Inr m"
    "part_open (img_open m) (dos_env_init\<lparr>de_surfaces := 1, de_blk_per_trk := 10, de_low_cyl := 2, de_high_cyl := 4\<rparr>) = Inr p"
    "part_dev_ok p" "pt_geo p = set_geometry 3 1 10 512 2 2" "bg_num_blocks (pt_geo p) = 30" by (rule small_partition)
  note c = small_create_ok [OF s(4,5)]
  have t: "DOS0 + 1 = create_dos_type None True False False False" by code_simp
  have z: "root_meta_ok None" "\<forall>k::nat. ts_ok (Some ts_zero)" by (simp_all add: root_meta_ok_def ts_ok_def ts_zero_def u32_ok_def)
  from part.vol_create_ok [OF c(1) s(3) refl refl z] obtain v where
    v: "vol_create part_read_block part_write_block ''Work'' None None None True False False False (vol_init (pt_geo p) (\<lambda>_. ts_zero) p) = Some (v, Inr ())" "part_ok v"
    "mounted (part_disk v) v 0 (replicate (nat (bg_block_longs (pt_geo p) - 56)) []) (DOS0 + 1)" "vgeo v = pt_geo p" "vo_flags v = type_flags (DOS0 + 1)"
    "int (card (free_set (vo_bitmap v))) = 26" unfolding part_vol part_disk_def c(2,3) s(5) vol_create_def t [symmetric] by auto
  have i: "vf_intl (vo_flags v) = False" "vf_ffs (vo_flags v) = True" unfolding v(5) by (simp_all add: type_flags_def, code_simp+)
  have n: "file_path ''File''" "file_path ''fILE''" "u32_ok (int (length [1 :: byte, 2, 3]))"
    by (simp_all add: file_path_def name_ok_def plain_name_def nfkc_char_def u32_ok_def)
  have u: "upper False ''fILE'' = upper False ''File''" by code_simp
  have b: "blocks_needed (vo_flags v) (vgeo v) [1, 2, 3] = 2" unfolding v(4) using c(4,5) i(2)
    by (simp add: blocks_needed_def num_data_for_def num_list_for_def contents_bytes_def)
  have "dir_map False (replicate k []) w = None" for k w by (simp add: dir_map_def concat_replicate_trivial)
  with file_survives_remount [OF v(2,3) n, of "\<lambda>_. ts_zero" None True True] u b v(6) z(2) i(1) obtain s1 s2 s3 s4 where
    "vol_write_file part_read_block part_write_block [1, 2, 3] ''File'' None True v = Some (s1, Inr ())"
    "vol_close part_write_block s1 = Some (s2, Inr ())" "vol_open part_read_block (vol_init (vgeo v) (\<lambda>_. ts_zero) (vo_dev s2)) = Some (s3, Inr ())"
    "vol_read_file part_read_block ''fILE'' True s3 = Some (s4, Inr (Some [1, 2, 3]))" by auto
  with s(1,2) v(1) show ?thesis by blast
qed

end
