(* ===== verification/Pattern.thy ===== *)
theory Pattern
  imports Py_Bytes Py_Str
begin

text \<open>
  AmigaDOS patterns (\<open>amitools/vamos/lib/dos/PatternMatch.py\<close>): \<open>pattern_parse\<close> turns the source
  of a pattern into a string of characters and token characters, \<open>pattern_match\<close> runs it against a
  string with a stack of markers to come back to.

  Characters are the 256 of Latin-1, the Amiga's character set. A token is the character \<open>chr(P_x)\<close>,
  and comparing \<open>ord(c)\<close> with \<open>P_x\<close> is comparing the characters. The block stack of the parser has its
  top at the head of the list.
\<close>

subsection \<open>Tokens\<close>

abbreviation P_ANY :: char where "P_ANY \<equiv> CHR 0x80"
abbreviation P_SINGLE :: char where "P_SINGLE \<equiv> CHR 0x81"
abbreviation P_ORSTART :: char where "P_ORSTART \<equiv> CHR 0x82"
abbreviation P_ORNEXT :: char where "P_ORNEXT \<equiv> CHR 0x83"
abbreviation P_OREND :: char where "P_OREND \<equiv> CHR 0x84"
abbreviation P_NOT :: char where "P_NOT \<equiv> CHR 0x85"
abbreviation P_NOTEND :: char where "P_NOTEND \<equiv> CHR 0x86"
abbreviation P_NOTCLASS :: char where "P_NOTCLASS \<equiv> CHR 0x87"
abbreviation P_CLASS :: char where "P_CLASS \<equiv> CHR 0x88"
abbreviation P_REPBEG :: char where "P_REPBEG \<equiv> CHR 0x89"
abbreviation P_REPEND :: char where "P_REPEND \<equiv> CHR 0x8A"

text \<open>\<open>lower()\<close> of one Latin-1 character.\<close>

definition latin1_lower :: "char \<Rightarrow> char" where
  "latin1_lower c =
     (let n = of_char c :: nat
      in if 65 \<le> n \<and> n \<le> 90 \<or> 192 \<le> n \<and> n \<le> 222 \<and> n \<noteq> 215 then char_of (n + 32) else c)"

definition case_tr :: "bool \<Rightarrow> char \<Rightarrow> char" where
  "case_tr ignore c = (if ignore then latin1_lower c else c)"

subsection \<open>Parsing a pattern\<close>

record pattern =
  pn_src :: string
  pn_pat :: string
  pn_ignore :: bool
  pn_wild :: bool

fun pop_non_or :: "char list \<Rightarrow> string \<Rightarrow> char list \<times> string" where
  "pop_non_or [] dst = ([], dst)"
| "pop_non_or (b # bs) dst = (if b \<noteq> P_OREND then pop_non_or bs (dst @ [b]) else (b # bs, dst))"

text \<open>The characters of a class up to its closing bracket, and the rest behind it.\<close>

fun parse_class :: "(char \<Rightarrow> char) \<Rightarrow> string \<Rightarrow> (string \<times> string) option" where
  "parse_class tr [] = None"
| "parse_class tr (ch # cs) =
     (if ch = CHR '']'' then Some ([], cs)
      else map_option (\<lambda>(k, r). (if ch = CHR 0x27 then k else tr ch # k, r)) (parse_class tr cs))"

type_synonym pstate = "string \<times> char list \<times> bool"

definition quotable :: "char set" where
  "quotable = set ''#*?(|)~[]%'' \<union> {CHR 0x27}"

text \<open>One round of the loop on \<open>src\<close> with the rest \<open>cs\<close> of the source: the new rest and state,
  \<open>None\<close> where the code returns \<open>None\<close>. \<open>flush\<close> is the end of the round with \<open>flush_blocks\<close> set.\<close>

definition flush :: "string \<Rightarrow> pstate \<Rightarrow> (string \<times> pstate) option res" where
  "flush cs st = (case st of (dst, bs, hw) \<Rightarrow> case pop_non_or bs dst of (bs', dst') \<Rightarrow> Inr (Some (cs, dst', bs', hw)))"

definition parse_step :: "(char \<Rightarrow> char) \<Rightarrow> bool \<Rightarrow> char \<Rightarrow> string \<Rightarrow> pstate \<Rightarrow> (string \<times> pstate) option res" where
  "parse_step tr star src cs st =
     (case st of (dst, bs, hw) \<Rightarrow>
      let nxt = (case cs of [] \<Rightarrow> None | d # _ \<Rightarrow> Some d) in
      if src = CHR ''#'' then
        (case nxt of
           None \<Rightarrow> Inr None
         | Some d \<Rightarrow> if d = CHR ''?'' then flush (tl cs) (dst @ [P_ANY], bs, True)
                     else if d = CHR '')'' then Inr None
                     else Inr (Some (cs, dst @ [P_REPBEG], P_REPEND # bs, True)))
      else if src = CHR ''~'' then
        (case nxt of
           None \<Rightarrow> flush cs (dst @ [src], bs, hw)
         | Some d \<Rightarrow> if d = CHR '')'' then Inr None
                     else Inr (Some (cs, dst @ [P_NOT], P_NOTEND # bs, True)))
      else if src = CHR ''?'' then flush cs (dst @ [P_SINGLE], bs, True)
      else if src = CHR ''('' then Inr (Some (cs, dst @ [P_ORSTART], P_OREND # bs, True))
      else if src = CHR ''|'' then
        (case pop_non_or bs dst of (bs', dst') \<Rightarrow>
           if bs' = [] then Inr None else Inr (Some (cs, dst' @ [P_ORNEXT], bs', hw)))
      else if src = CHR '')'' then
        (case pop_non_or bs dst of (bs', dst') \<Rightarrow>
           if bs' = [] then Inr None else flush cs (dst' @ [P_OREND], tl bs', hw))
      else if src = CHR ''['' then
        (case (if nxt = Some (CHR ''~'') then (P_NOTCLASS, tl cs) else (P_CLASS, cs)) of (op, body) \<Rightarrow>
           case parse_class tr body of
             None \<Rightarrow> Inr None
           | Some (k, rest) \<Rightarrow> flush rest (dst @ [op] @ k @ [P_CLASS], bs, True))
      else if src = CHR ''*'' then (if star then flush cs (dst @ [P_ANY], bs, True) else flush cs (dst @ [src], bs, hw))
      else if src = CHR ''%'' then Inr (Some (cs, dst, bs, hw))
      else if src = CHR 0x27 then
        (case nxt of
           None \<Rightarrow> Inl TypeError
         | Some d \<Rightarrow> if d \<in> quotable then flush (tl cs) (dst @ [d], bs, hw) else flush cs (dst, bs, hw))
      else flush cs (dst @ [tr src], bs, hw))"

lemma parse_class_length: "parse_class tr cs = Some (k, r) \<Longrightarrow> length r < length cs"
  by (induction cs arbitrary: k) (fastforce split: if_splits)+

lemma flush_rest: "flush cs st = Inr (Some (rest, st')) \<Longrightarrow> rest = cs"
  by (auto simp: flush_def split: prod.splits)

lemma parse_step_length:
  assumes "parse_step tr star src cs st = Inr (Some (rest, st'))"
  shows "length rest \<le> length cs"
proof -
  have "length (tl cs) \<le> length cs" by simp
  then show ?thesis using assms
    by (auto simp: parse_step_def Let_def dest!: flush_rest parse_class_length split: prod.splits list.splits option.splits if_splits)
qed

function parse_loop :: "(char \<Rightarrow> char) \<Rightarrow> bool \<Rightarrow> string \<Rightarrow> pstate \<Rightarrow> pstate option res" where
  "parse_loop tr star [] st = Inr (Some st)"
| "parse_loop tr star (src # cs) st =
     (case parse_step tr star src cs st of
        Inl e \<Rightarrow> Inl e
      | Inr None \<Rightarrow> Inr None
      | Inr (Some (rest, st')) \<Rightarrow> parse_loop tr star rest st')"
  by pat_completeness auto
termination
  by (relation "measure (\<lambda>(tr, star, cs, st). length cs)") (auto dest: parse_step_length)

definition pattern_parse :: "string \<Rightarrow> bool \<Rightarrow> bool \<Rightarrow> pattern option res" where
  "pattern_parse src ignore star =
     rbind (parse_loop (case_tr ignore) star src ([], [], False)) (\<lambda>r.
       Inr (case r of
              None \<Rightarrow> None
            | Some (dst, bs, hw) \<Rightarrow>
                if bs \<noteq> [] then None
                else Some \<lparr>pn_src = src, pn_pat = dst, pn_ignore = ignore, pn_wild = hw\<rparr>))"

subsection \<open>Markers\<close>

record marker =
  mk_flag :: bool
  mk_pat :: int
  mk_str :: int

record marker_stack =
  ms_stack :: "marker list"
  ms_history :: "marker list"

definition ms_init :: marker_stack where
  "ms_init = \<lparr>ms_stack = [], ms_history = []\<rparr>"

definition ms_push :: "marker \<Rightarrow> marker_stack \<Rightarrow> marker_stack" where
  "ms_push m ms = (if m \<in> set (ms_history ms) then ms else ms\<lparr>ms_stack := ms_stack ms @ [m]\<rparr>)"

definition ms_pop :: "marker_stack \<Rightarrow> (marker \<times> marker_stack) option" where
  "ms_pop ms =
     (if ms_stack ms = [] then None
      else let m = last (ms_stack ms)
           in Some (m, ms\<lparr>ms_stack := butlast (ms_stack ms), ms_history := ms_history ms @ [m]\<rparr>))"

fun last_flag :: "marker list \<Rightarrow> bool \<Rightarrow> nat \<Rightarrow> nat option" where
  "last_flag ms flag 0 = None"
| "last_flag ms flag (Suc pos) = (if mk_flag (ms ! pos) = flag then Some pos else last_flag ms flag pos)"

definition ms_get_last :: "bool \<Rightarrow> marker_stack \<Rightarrow> nat option" where
  "ms_get_last flag ms = last_flag (ms_stack ms) flag (length (ms_stack ms))"

text \<open>\<open>stack[:None]\<close> is the whole stack.\<close>

definition ms_drop :: "nat option \<Rightarrow> marker_stack \<Rightarrow> marker_stack" where
  "ms_drop pos ms = (case pos of None \<Rightarrow> ms | Some p \<Rightarrow> ms\<lparr>ms_stack := take p (ms_stack ms)\<rparr>)"

subsection \<open>Scanning the pattern\<close>

function seek_end :: "string \<Rightarrow> int \<Rightarrow> char \<Rightarrow> char \<Rightarrow> int \<Rightarrow> int res" where
  "seek_end pat pos beg fin nesting =
     (case py_get pat pos of
        Inl e \<Rightarrow> Inl e
      | Inr cmd \<Rightarrow>
          if cmd = beg then seek_end pat (pos + 1) beg fin (nesting + 1)
          else if cmd = fin then (if nesting - 1 = 0 then Inr pos else seek_end pat (pos + 1) beg fin (nesting - 1))
          else seek_end pat (pos + 1) beg fin nesting)"
  by pat_completeness auto
termination
  by (relation "measure (\<lambda>(pat, pos, _). nat (int (length pat) - pos))") (auto simp: py_get_def Let_def split: if_splits)

function seek_begin :: "string \<Rightarrow> int \<Rightarrow> char \<Rightarrow> char \<Rightarrow> int \<Rightarrow> int res" where
  "seek_begin pat pos beg fin nesting =
     (case py_get pat pos of
        Inl e \<Rightarrow> Inl e
      | Inr cmd \<Rightarrow>
          if cmd = fin then seek_begin pat (pos - 1) beg fin (nesting + 1)
          else if cmd = beg then (if nesting - 1 = 0 then Inr pos else seek_begin pat (pos - 1) beg fin (nesting - 1))
          else seek_begin pat (pos - 1) beg fin nesting)"
  by pat_completeness auto
termination
  by (relation "measure (\<lambda>(pat, pos, _). nat (int (length pat) + pos + 1))") (auto simp: py_get_def Let_def split: if_splits)

text \<open>The markers of the other alternatives of a block, in the order they are pushed.\<close>

function scan_or :: "string \<Rightarrow> int \<Rightarrow> int \<Rightarrow> int \<Rightarrow> marker list res" where
  "scan_or pat pos str_pos nesting =
     (case py_get pat pos of
        Inl e \<Rightarrow> Inl e
      | Inr cmd \<Rightarrow>
          if cmd = P_ORSTART then scan_or pat (pos + 1) str_pos (nesting + 1)
          else if cmd = P_OREND then (if nesting - 1 = 0 then Inr [] else scan_or pat (pos + 1) str_pos (nesting - 1))
          else if cmd = P_ORNEXT \<and> nesting = 1
          then rbind (scan_or pat (pos + 1) str_pos nesting) (\<lambda>ms.
                 Inr (\<lparr>mk_flag = False, mk_pat = pos + 1, mk_str = str_pos\<rparr> # ms))
          else scan_or pat (pos + 1) str_pos nesting)"
  by pat_completeness auto
termination
  by (relation "measure (\<lambda>(pat, pos, _). nat (int (length pat) - pos))") (auto simp: py_get_def Let_def split: if_splits)

declare seek_end.simps [simp del] seek_begin.simps [simp del] scan_or.simps [simp del]

text \<open>The end of the range that begins with \<open>cmd\<close> in a class, and the position after it.\<close>

definition class_range :: "string \<Rightarrow> int \<Rightarrow> char \<Rightarrow> (char \<times> int) res" where
  "class_range pat pos cmd =
     rbind (py_get pat pos) (\<lambda>d.
       if d = CHR ''-''
       then rbind (py_get pat (pos + 1)) (\<lambda>e. Inr (if e = P_CLASS then CHR 0xFF else e, pos + 1))
       else Inr (cmd, pos))"

function class_end :: "string \<Rightarrow> int \<Rightarrow> int res" where
  "class_end pat pos =
     (case py_get pat pos of
        Inl e \<Rightarrow> Inl e
      | Inr cmd \<Rightarrow> if cmd \<noteq> P_CLASS then class_end pat (pos + 1) else Inr (pos + 1))"
  by pat_completeness auto
termination
  by (relation "measure (\<lambda>(pat, pos). nat (int (length pat) - pos))") (auto simp: py_get_def Let_def split: if_splits)

definition in_range :: "char \<Rightarrow> char \<Rightarrow> char \<Rightarrow> bool" where
  "in_range s b e \<longleftrightarrow> (of_char b :: nat) \<le> of_char s \<and> (of_char s :: nat) \<le> of_char e"

lemma class_range_pos: "class_range pat pos cmd = Inr (e, pos') \<Longrightarrow> pos \<le> pos'"
  by (auto simp: class_range_def rbind_Inr_iff split: if_splits)

text \<open>A class of characters: the position behind it when \<open>s\<close> is in it; a negated class: the position
  behind it when \<open>s\<close> is not. \<open>None\<close> stands for \<open>get_next_marker\<close>.\<close>

function class_match :: "string \<Rightarrow> char \<Rightarrow> int \<Rightarrow> int option res" where
  "class_match pat s pos =
     (case py_get pat pos of
        Inl e \<Rightarrow> Inl e
      | Inr cmd \<Rightarrow>
          if cmd = P_CLASS then Inr None
          else (case class_range pat (pos + 1) cmd of
                  Inl e \<Rightarrow> Inl e
                | Inr (e, pos') \<Rightarrow>
                    if in_range s cmd e then rbind (class_end pat pos') (\<lambda>p. Inr (Some p))
                    else class_match pat s pos'))"
  by pat_completeness auto
termination
  by (relation "measure (\<lambda>(pat, s, pos). nat (int (length pat) - pos))")
    (auto simp: py_get_def Let_def dest: class_range_pos split: if_splits)

function class_miss :: "string \<Rightarrow> char \<Rightarrow> int \<Rightarrow> int option res" where
  "class_miss pat s pos =
     (case py_get pat pos of
        Inl e \<Rightarrow> Inl e
      | Inr cmd \<Rightarrow>
          if cmd = P_CLASS then Inr (Some (pos + 1))
          else (case class_range pat (pos + 1) cmd of
                  Inl e \<Rightarrow> Inl e
                | Inr (e, pos') \<Rightarrow> if in_range s cmd e then Inr None else class_miss pat s pos'))"
  by pat_completeness auto
termination
  by (relation "measure (\<lambda>(pat, s, pos). nat (int (length pat) - pos))")
    (auto simp: py_get_def Let_def dest: class_range_pos split: if_splits)

declare class_end.simps [simp del] class_match.simps [simp del] class_miss.simps [simp del]

subsection \<open>Matching\<close>

text \<open>The commands that do not negate a pattern: the next positions in pattern and string, \<open>None\<close> where
  the code sets \<open>get_next_marker\<close>, and the markers they push.\<close>

definition plain_cmd :: "(char \<Rightarrow> char) \<Rightarrow> string \<Rightarrow> string \<Rightarrow> char \<Rightarrow> int \<Rightarrow> int \<Rightarrow> ((int \<times> int) option \<times> marker list) res" where
  "plain_cmd tr pat s p_ch p q =
     (let n_str = int (length s) in
      if p_ch = P_REPBEG then
        rbind (seek_end pat (p + 1) P_REPBEG P_REPEND 1) (\<lambda>e.
          Inr (Some (e + 1, q), [\<lparr>mk_flag = False, mk_pat = p + 1, mk_str = q\<rparr>]))
      else if p_ch = P_REPEND then
        rbind (seek_begin pat (p - 1) P_REPBEG P_REPEND 1) (\<lambda>b. Inr (Some (b, q), []))
      else if p_ch = P_ORSTART then
        rbind (scan_or pat (p + 1) q 1) (\<lambda>ms. Inr (Some (p + 1, q), ms))
      else if p_ch = P_ORNEXT then
        rbind (seek_end pat (p + 1) P_ORSTART P_OREND 1) (\<lambda>e. Inr (Some (e + 1, q), []))
      else if p_ch = P_OREND then Inr (Some (p + 1, q), [])
      else if p_ch = P_SINGLE then Inr (if q < n_str then Some (p + 1, q + 1) else None, [])
      else if p_ch = P_CLASS then
        (if q = n_str then Inr (None, [])
         else rbind (py_get s q) (\<lambda>c. rbind (class_match pat (tr c) (p + 1)) (\<lambda>r.
                Inr (map_option (\<lambda>p'. (p', q + 1)) r, []))))
      else if p_ch = P_NOTCLASS then
        (if q = n_str then Inr (None, [])
         else rbind (py_get s q) (\<lambda>c. rbind (class_miss pat (tr c) (p + 1)) (\<lambda>r.
                Inr (map_option (\<lambda>p'. (p', q + 1)) r, []))))
      else if p_ch = P_ANY then
        Inr (Some (p + 1, q), if q < n_str then [\<lparr>mk_flag = False, mk_pat = p, mk_str = q + 1\<rparr>] else [])
      else rbind (if q < n_str then rbind (py_get s q) (\<lambda>c. Inr (tr c)) else Inr (CHR 0x00)) (\<lambda>s_ch.
             Inr (if p_ch = s_ch then Some (p + 1, q + 1) else None, [])))"

record match_state =
  mt_pat :: int
  mt_str :: int
  mt_marks :: marker_stack

datatype outcome = Next match_state | Return bool

definition next_marker :: "int \<Rightarrow> marker_stack \<Rightarrow> outcome" where
  "next_marker n_str ms =
     (case ms_pop ms of
        None \<Rightarrow> Return False
      | Some (m, ms') \<Rightarrow>
          Next \<lparr>mt_pat = mk_pat m, mt_str = mk_str m,
                mt_marks = (if mk_flag m \<and> mk_str m < n_str
                            then ms_push \<lparr>mk_flag = True, mk_pat = mk_pat m, mk_str = mk_str m + 1\<rparr> ms' else ms')\<rparr>)"

text \<open>One round of the loop of \<open>pattern_match\<close>.\<close>

definition match_step :: "(char \<Rightarrow> char) \<Rightarrow> string \<Rightarrow> string \<Rightarrow> match_state \<Rightarrow> outcome res" where
  "match_step tr pat s st =
     (let p = mt_pat st; q = mt_str st; ms = mt_marks st; n_str = int (length s) in
      rbind (if p < int (length pat) then py_get pat p else Inr (CHR 0x00)) (\<lambda>p_ch.
        if p_ch = P_NOT then
          rbind (seek_end pat (p + 1) P_NOT P_NOTEND 1) (\<lambda>e.
            Inr (Next \<lparr>mt_pat = p + 1, mt_str = q,
                       mt_marks = ms_push \<lparr>mk_flag = True, mk_pat = e + 1, mk_str = q\<rparr> ms\<rparr>))
        else if p_ch = P_NOTEND then
          (let pos = ms_get_last True ms in
           if q = n_str then Inr (next_marker n_str (ms_drop pos ms))
           else (case pos of
                   None \<Rightarrow> Inl TypeError
                 | Some k \<Rightarrow>
                     let m = ms_stack ms ! k; m' = (if q + 1 > mk_str m then m\<lparr>mk_str := q + 1\<rparr> else m)
                     in Inr (next_marker n_str (ms\<lparr>ms_stack := (ms_stack ms)[k := m']\<rparr>))))
        else if p_ch = CHR 0x00 then
          (if q = n_str then Inr (Return True) else Inr (next_marker n_str ms))
        else rbind (plain_cmd tr pat s p_ch p q) (\<lambda>(nxt, push).
               let ms' = fold ms_push push ms
               in Inr (case nxt of
                         None \<Rightarrow> next_marker n_str ms'
                       | Some (p', q') \<Rightarrow> Next \<lparr>mt_pat = p', mt_str = q', mt_marks = ms'\<rparr>))))"

text \<open>The loop; \<open>None\<close> is a run that does not return.\<close>

partial_function (option) match_loop :: "(char \<Rightarrow> char) \<Rightarrow> string \<Rightarrow> string \<Rightarrow> match_state \<Rightarrow> bool res option" where
  "match_loop tr pat s st =
     (case match_step tr pat s st of
        Inl e \<Rightarrow> Some (Inl e)
      | Inr r \<Rightarrow> (case r of Return b \<Rightarrow> Some (Inr b) | Next st' \<Rightarrow> match_loop tr pat s st'))"

declare match_loop.simps [code]

definition pattern_match :: "pattern \<Rightarrow> string \<Rightarrow> bool res option" where
  "pattern_match pattern s =
     match_loop (case_tr (pn_ignore pattern)) (pn_pat pattern) s \<lparr>mt_pat = 0, mt_str = 0, mt_marks = ms_init\<rparr>"

subsection \<open>Patterns as terms\<close>

text \<open>The patterns without a negation, as terms: what a source text means. A class lists its characters
  with their dashes, as the code keeps it.\<close>

datatype 'c item =
    Lit 'c
  | Single
  | AnyStr
  | Class bool "'c list"
  | Rep "'c item"
  | Alts "'c item list list"

fun cls_in :: "string \<Rightarrow> char \<Rightarrow> bool" where
  "cls_in [] x = False"
| "cls_in [b] x = (x = b)"
| "cls_in (b # d # cs) x =
     (if d = CHR ''-'' then in_range x b (case cs of [] \<Rightarrow> CHR 0xFF | e # _ \<Rightarrow> e) \<or> cls_in cs x
      else x = b \<or> cls_in (d # cs) x)"

inductive matches :: "char item list \<Rightarrow> string \<Rightarrow> bool" where
  Nil: "matches [] []"
| Lit: "matches is s \<Longrightarrow> matches (Lit c # is) (c # s)"
| Single: "matches is s \<Longrightarrow> matches (Single # is) (x # s)"
| Any0: "matches is s \<Longrightarrow> matches (AnyStr # is) s"
| Any1: "matches (AnyStr # is) s \<Longrightarrow> matches (AnyStr # is) (x # s)"
| Class: "cls_in cs x \<noteq> neg \<Longrightarrow> matches is s \<Longrightarrow> matches (Class neg cs # is) (x # s)"
| Rep0: "matches is s \<Longrightarrow> matches (Rep i # is) s"
| Rep1: "matches (i # Rep i # is) s \<Longrightarrow> matches (Rep i # is) s"
| Alts: "r \<in> set rs \<Longrightarrow> matches (r @ is) s \<Longrightarrow> matches (Alts rs # is) s"

inductive_cases matches_NilE: "matches [] s"
inductive_cases matches_LitE: "matches (Lit c # is) s"
inductive_cases matches_SingleE: "matches (Single # is) s"
inductive_cases matches_AnyE: "matches (AnyStr # is) s"
inductive_cases matches_ClassE: "matches (Class neg cs # is) s"
inductive_cases matches_RepE: "matches (Rep i # is) s"
inductive_cases matches_AltsE: "matches (Alts rs # is) s"

text \<open>The token string of a term, and its source text.\<close>

primrec toks :: "char item \<Rightarrow> string" where
  "toks (Lit c) = [c]"
| "toks Single = [P_SINGLE]"
| "toks AnyStr = [P_ANY]"
| "toks (Class neg cs) = (if neg then P_NOTCLASS else P_CLASS) # cs @ [P_CLASS]"
| "toks (Rep i) = P_REPBEG # toks i @ [P_REPEND]"
| "toks (Alts rs) = P_ORSTART # join_with [P_ORNEXT] (map concat (map (map toks) rs)) @ [P_OREND]"

primrec src_item :: "char item \<Rightarrow> string" where
  "src_item (Lit c) = (if c \<in> quotable then [CHR 0x27, c] else [c])"
| "src_item Single = ''?''"
| "src_item AnyStr = ''#?''"
| "src_item (Class neg cs) = ''['' @ (if neg then ''~'' else []) @ cs @ '']''"
| "src_item (Rep i) = CHR ''#'' # src_item i"
| "src_item (Alts rs) = ''('' @ join_with ''|'' (map concat (map (map src_item) rs)) @ '')''"

definition toks_seq :: "char item list \<Rightarrow> string" where
  "toks_seq is = concat (map toks is)"

definition src_seq :: "char item list \<Rightarrow> string" where
  "src_seq is = concat (map src_item is)"

definition is_token :: "char \<Rightarrow> bool" where
  "is_token c \<longleftrightarrow> 0x80 \<le> (of_char c :: nat) \<and> (of_char c :: nat) \<le> 0x8B"

text \<open>The terms whose tokens can be told from their characters.\<close>

primrec tok_ok :: "char item \<Rightarrow> bool" where
  "tok_ok (Lit c) = (\<not> is_token c \<and> c \<noteq> CHR 0x00)"
| "tok_ok Single = True"
| "tok_ok AnyStr = True"
| "tok_ok (Class neg cs) = (\<forall>c \<in> set cs. \<not> is_token c)"
| "tok_ok (Rep i) = tok_ok i"
| "tok_ok (Alts rs) = (rs \<noteq> [] \<and> list_all id (map (list_all id) (map (map tok_ok) rs)))"

text \<open>The terms whose source can be read back.\<close>

primrec src_ok :: "char item \<Rightarrow> bool" where
  "src_ok (Lit c) = True"
| "src_ok Single = True"
| "src_ok AnyStr = True"
| "src_ok (Class neg cs) = (CHR '']'' \<notin> set cs \<and> CHR 0x27 \<notin> set cs \<and> (\<not> neg \<longrightarrow> \<not> starts_with cs ''~''))"
| "src_ok (Rep i) = (i \<noteq> Single \<and> src_ok i)"
| "src_ok (Alts rs) = (rs \<noteq> [] \<and> list_all id (map (list_all id) (map (map src_ok) rs)))"

subsection \<open>The parser on the source of a term\<close>

lemma pop_non_or_cases: "pop_non_or bs dst = (bs', dst') \<Longrightarrow> bs' = [] \<or> (\<exists>r. bs' = P_OREND # r)"
  by (induction bs dst rule: pop_non_or.induct) (auto split: if_splits)

definition wild_item :: "char item \<Rightarrow> bool" where
  "wild_item i \<longleftrightarrow> (\<nexists>c. i = Lit c)"

lemma wild_item_simps [simp]:
  "wild_item (Lit c) = False" "wild_item Single" "wild_item AnyStr" "wild_item (Class neg cs)" "wild_item (Rep i)" "wild_item (Alts rs)"
  by (simp_all add: wild_item_def)

lemma quotable_tr: "c \<in> quotable \<Longrightarrow> case_tr ic c = c"
  by (auto simp: quotable_def case_tr_def latin1_lower_def)

lemma parse_class_ok:
  "CHR '']'' \<notin> set cs \<Longrightarrow> CHR 0x27 \<notin> set cs \<Longrightarrow> parse_class tr (cs @ CHR '']'' # rest) = Some (map tr cs, rest)"
  by (induction cs) auto

lemma hd_src_item: "src_ok i \<Longrightarrow> i \<noteq> Single \<Longrightarrow> \<exists>c w. src_item i = c # w \<and> c \<noteq> CHR ''?'' \<and> c \<noteq> CHR '')''"
  by (cases i) (auto simp: quotable_def)

lemma parse_loop_flush:
  "(case flush cs st of Inl e \<Rightarrow> Inl e | Inr None \<Rightarrow> Inr None | Inr (Some (rest, st')) \<Rightarrow> parse_loop tr star rest st') =
   (case st of (dst, bs, hw) \<Rightarrow> case pop_non_or bs dst of (bs', dst') \<Rightarrow> parse_loop tr star cs (dst', bs', hw))"
  by (simp add: flush_def split: prod.splits)

definition parses :: "bool \<Rightarrow> bool \<Rightarrow> char item \<Rightarrow> bool" where
  "parses ic star i \<longleftrightarrow> (\<forall>cs dst bs hw. parse_loop (case_tr ic) star (src_item i @ cs) (dst, bs, hw) =
     (case pop_non_or bs (dst @ toks (map_item (case_tr ic) i)) of (bs', dst') \<Rightarrow>
        parse_loop (case_tr ic) star cs (dst', bs', hw \<or> wild_item i)))"

lemma parses_seq:
  "\<forall>i \<in> set is. parses ic star i \<Longrightarrow> pop_non_or bs = Pair bs \<Longrightarrow>
     parse_loop (case_tr ic) star (concat (map src_item is) @ cs) (dst, bs, hw) =
     parse_loop (case_tr ic) star cs (dst @ concat (map (\<lambda>i. toks (map_item (case_tr ic) i)) is), bs, hw \<or> (\<exists>i \<in> set is. wild_item i))"
  by (induction "is" arbitrary: dst hw) (simp_all add: parses_def disj_assoc)

lemma parses_Alts:
  assumes "rs \<noteq> []" "\<And>r i. r \<in> set rs \<Longrightarrow> i \<in> set r \<Longrightarrow> parses ic star i"
  shows "parse_loop (case_tr ic) star (join_with ''|'' (map concat (map (map src_item) rs)) @ CHR '')'' # cs) (dst, P_OREND # bs, True) =
    (case pop_non_or bs (dst @ join_with [P_ORNEXT] (map concat (map (map (\<lambda>i. toks (map_item (case_tr ic) i))) rs)) @ [P_OREND])
     of (bs', dst') \<Rightarrow> parse_loop (case_tr ic) star cs (dst', bs', True))"
  using assms
proof (induction rs arbitrary: dst)
  case (Cons r rs)
  have p: "pop_non_or (P_OREND # bs) = Pair (P_OREND # bs)" by (rule ext) simp
  have "\<forall>i \<in> set r. parses ic star i" by (intro ballI Cons.prems(2) [of r]) simp_all
  note s = parses_seq [of r ic star, OF this p]
  show ?case
  proof (cases rs)
    case Nil
    then show ?thesis by (simp add: s parse_step_def parse_loop_flush)
  next
    case (Cons r' rs')
    then have "rs \<noteq> []" by simp
      have IH: "parse_loop (case_tr ic) star (join_with ''|'' (map concat (map (map src_item) rs)) @ CHR '')'' # cs) (dst, P_OREND # bs, True) =
      (case pop_non_or bs (dst @ join_with [P_ORNEXT] (map concat (map (map (\<lambda>i. toks (map_item (case_tr ic) i))) rs)) @ [P_OREND])
       of (bs', dst') \<Rightarrow> parse_loop (case_tr ic) star cs (dst', bs', True))" for dst
      by (intro Cons.IH \<open>rs \<noteq> []\<close> Cons.prems(2)) simp_all
    show ?thesis using IH unfolding Cons by (simp add: s parse_step_def parse_loop_flush)
  qed
qed simp

lemma parses_item: "src_ok i \<Longrightarrow> parses ic star i"
proof (induction i)
  case (Lit c)
  show ?case
  proof (cases "c \<in> quotable")
    case True
    then show ?thesis by (simp add: parses_def parse_step_def parse_loop_flush quotable_tr)
  next
    case False
    then have "c \<notin> set ''#*?(|)~[]%''" "c \<noteq> CHR 0x27" by (auto simp: quotable_def)
    then show ?thesis by (simp add: parses_def parse_step_def parse_loop_flush False)
  qed
next
  case (Class neg cs)
  then have c: "CHR '']'' \<notin> set cs" "CHR 0x27 \<notin> set cs" "\<not> neg \<Longrightarrow> \<not> starts_with cs ''~''" by simp_all
  show ?case
  proof (cases neg)
    case True
    then show ?thesis using c(1,2) by (simp add: parses_def parse_step_def parse_loop_flush parse_class_ok)
  next
    case False
    have "(case cs @ CHR '']'' # rest of [] \<Rightarrow> None | d # _ \<Rightarrow> Some d) \<noteq> Some (CHR ''~'')" for rest
      using c(3) False by (cases cs) (auto simp: starts_with_def)
    then show ?thesis using False c(1,2) by (simp add: parses_def parse_step_def parse_loop_flush parse_class_ok)
  qed
next
  case (Rep i)
  then obtain c w where w: "src_item i = c # w" "c \<noteq> CHR ''?''" "c \<noteq> CHR '')''" using hd_src_item [of i] by auto
  from Rep have "parses ic star i" by simp
  then have p: "parse_loop (case_tr ic) star (c # w @ cs) (dst, bs, hw) =
     (case pop_non_or bs (dst @ toks (map_item (case_tr ic) i)) of (bs', dst') \<Rightarrow>
        parse_loop (case_tr ic) star cs (dst', bs', hw \<or> wild_item i))" for cs dst bs hw
    unfolding parses_def w by simp
  show ?case unfolding parses_def using w(2,3) p by (simp add: w(1) parse_step_def del: parse_loop.simps(2)) (simp add: parse_step_def p)
next
  case (Alts rs)
  have "parses ic star i" if "r \<in> set rs" "i \<in> set r" for r i
    using Alts that by (auto simp: list_all_iff)
  then have a: "parse_loop (case_tr ic) star (join_with ''|'' (map concat (map (map src_item) rs)) @ CHR '')'' # cs) (dst, P_OREND # bs, True) =
    (case pop_non_or bs (dst @ join_with [P_ORNEXT] (map concat (map (map (\<lambda>i. toks (map_item (case_tr ic) i))) rs)) @ [P_OREND])
     of (bs', dst') \<Rightarrow> parse_loop (case_tr ic) star cs (dst', bs', True))" for cs dst bs
    using Alts.prems by (intro parses_Alts) simp_all
  have "toks (map_item (case_tr ic) (Alts rs)) =
    P_ORSTART # join_with [P_ORNEXT] (map concat (map (map (\<lambda>i. toks (map_item (case_tr ic) i))) rs)) @ [P_OREND]"
    by (simp add: o_def)
  then show ?case unfolding parses_def using a by (simp add: parse_step_def del: map_map)
qed (simp_all add: parses_def parse_step_def parse_loop_flush)

subsection \<open>Scanning over the tokens of terms\<close>

lemma py_get_mid [simp]: "py_get (u @ c # v) (int (length u)) = Inr c"
  by (simp add: py_get_def)

definition fwd_bal :: "char \<Rightarrow> char \<Rightarrow> string \<Rightarrow> bool" where
  "fwd_bal b e w \<longleftrightarrow> (\<forall>u v n. 1 \<le> n \<longrightarrow>
     seek_end (u @ w @ v) (int (length u)) b e n = seek_end (u @ w @ v) (int (length (u @ w))) b e n)"

definition bwd_bal :: "char \<Rightarrow> char \<Rightarrow> string \<Rightarrow> bool" where
  "bwd_bal b e w \<longleftrightarrow> (\<forall>u v n. 1 \<le> n \<longrightarrow>
     seek_begin (u @ w @ v) (int (length (u @ w)) - 1) b e n = seek_begin (u @ w @ v) (int (length u) - 1) b e n)"

definition scan_bal :: "int \<Rightarrow> string \<Rightarrow> bool" where
  "scan_bal k w \<longleftrightarrow> (\<forall>u v q n. k \<le> n \<longrightarrow>
     scan_or (u @ w @ v) (int (length u)) q n = scan_or (u @ w @ v) (int (length (u @ w))) q n)"

lemma fwd_bal_Nil: "fwd_bal b e []"
  by (simp add: fwd_bal_def)

lemma fwd_bal_append: "fwd_bal b e w1 \<Longrightarrow> fwd_bal b e w2 \<Longrightarrow> fwd_bal b e (w1 @ w2)"
proof -
  assume a: "fwd_bal b e w1" "fwd_bal b e w2"
  have "seek_end (u @ (w1 @ w2) @ v) (int (length u)) b e n = seek_end (u @ (w1 @ w2) @ v) (int (length (u @ w1 @ w2))) b e n"
    if "1 \<le> n" for u v n
    using a(1) [unfolded fwd_bal_def, rule_format, OF that, of u "w2 @ v"] a(2) [unfolded fwd_bal_def, rule_format, OF that, of "u @ w1" v]
    by simp
  then show ?thesis by (simp add: fwd_bal_def)
qed

lemma fwd_bal_char: "c \<noteq> b \<Longrightarrow> c \<noteq> e \<Longrightarrow> fwd_bal b e [c]"
  unfolding fwd_bal_def by (subst seek_end.simps) (simp add: add.commute)

lemma fwd_bal_wrap:
  assumes "fwd_bal b e w" "b \<noteq> e"
  shows "fwd_bal b e (b # w @ [e])"
proof -
  have "seek_end (u @ (b # w @ [e]) @ v) (int (length u)) b e n = seek_end (u @ (b # w @ [e]) @ v) (int (length (u @ b # w @ [e]))) b e n"
    if "1 \<le> n" for u v n
  proof -
    let ?p = "u @ (b # w @ [e]) @ v"
    have "seek_end ?p (int (length u)) b e n = seek_end ?p (int (length (u @ [b]))) b e (n + 1)"
      by (subst seek_end.simps) (simp add: add.commute)
    also have "\<dots> = seek_end ?p (int (length (u @ b # w))) b e (n + 1)"
      using assms(1) [unfolded fwd_bal_def, rule_format, of "n + 1" "u @ [b]" "e # v"] that by simp
    also have "\<dots> = seek_end ?p (int (length (u @ b # w @ [e]))) b e n"
      using py_get_mid [of "u @ b # w" e v] that assms(2) by (subst seek_end.simps) (simp add: add.commute)
    finally show ?thesis .
  qed
  then show ?thesis by (simp add: fwd_bal_def)
qed

lemma seek_end_found:
  assumes "fwd_bal b e w" "b \<noteq> e"
  shows "seek_end (u @ w @ e # v) (int (length u)) b e 1 = Inr (int (length (u @ w)))"
proof -
  have "seek_end (u @ w @ e # v) (int (length u)) b e 1 = seek_end (u @ w @ e # v) (int (length (u @ w))) b e 1"
    using assms(1) by (simp add: fwd_bal_def)
  also have "\<dots> = Inr (int (length (u @ w)))"
    using py_get_mid [of "u @ w" e v] assms(2) by (subst seek_end.simps) simp
  finally show ?thesis .
qed

lemma bwd_bal_Nil: "bwd_bal b e []"
  by (simp add: bwd_bal_def)

lemma bwd_bal_append: "bwd_bal b e w1 \<Longrightarrow> bwd_bal b e w2 \<Longrightarrow> bwd_bal b e (w1 @ w2)"
proof -
  assume a: "bwd_bal b e w1" "bwd_bal b e w2"
  have "seek_begin (u @ (w1 @ w2) @ v) (int (length (u @ w1 @ w2)) - 1) b e n = seek_begin (u @ (w1 @ w2) @ v) (int (length u) - 1) b e n"
    if "1 \<le> n" for u v n
    using a(1) [unfolded bwd_bal_def, rule_format, OF that, of u "w2 @ v"] a(2) [unfolded bwd_bal_def, rule_format, OF that, of "u @ w1" v]
    by simp
  then show ?thesis by (simp add: bwd_bal_def)
qed

lemma bwd_bal_char: "c \<noteq> b \<Longrightarrow> c \<noteq> e \<Longrightarrow> bwd_bal b e [c]"
  unfolding bwd_bal_def by (intro allI impI, subst seek_begin.simps) simp

lemma bwd_bal_wrap:
  assumes "bwd_bal b e w" "b \<noteq> e"
  shows "bwd_bal b e (b # w @ [e])"
proof -
  have "seek_begin (u @ (b # w @ [e]) @ v) (int (length (u @ b # w @ [e])) - 1) b e n = seek_begin (u @ (b # w @ [e]) @ v) (int (length u) - 1) b e n"
    if "1 \<le> n" for u v n
  proof -
    let ?p = "u @ (b # w @ [e]) @ v"
    have "seek_begin ?p (int (length (u @ b # w @ [e])) - 1) b e n = seek_begin ?p (int (length (u @ b # w)) - 1) b e (n + 1)"
      using py_get_mid [of "u @ b # w" e v] assms(2) by (subst seek_begin.simps) (simp add: add.commute)
    also have "\<dots> = seek_begin ?p (int (length u)) b e (n + 1)"
      using assms(1) [unfolded bwd_bal_def, rule_format, of "n + 1" "u @ [b]" "e # v"] that by (simp add: add.commute)
    also have "\<dots> = seek_begin ?p (int (length u) - 1) b e n"
      using that assms(2) by (subst seek_begin.simps) simp
    finally show ?thesis .
  qed
  then show ?thesis by (simp add: bwd_bal_def)
qed

lemma seek_begin_found:
  assumes "bwd_bal b e w" "b \<noteq> e"
  shows "seek_begin (u @ b # w @ v) (int (length (u @ b # w)) - 1) b e 1 = Inr (int (length u))"
proof -
  have "seek_begin (u @ b # w @ v) (int (length (u @ b # w)) - 1) b e 1 = seek_begin (u @ b # w @ v) (int (length u)) b e 1"
    using assms(1) [unfolded bwd_bal_def, rule_format, of 1 "u @ [b]" v] by (simp add: add.commute)
  also have "\<dots> = Inr (int (length u))" using assms(2) by (subst seek_begin.simps) simp
  finally show ?thesis .
qed

lemma scan_bal_append: "scan_bal k w1 \<Longrightarrow> scan_bal k w2 \<Longrightarrow> scan_bal k (w1 @ w2)"
proof -
  assume a: "scan_bal k w1" "scan_bal k w2"
  have "scan_or (u @ (w1 @ w2) @ v) (int (length u)) q n = scan_or (u @ (w1 @ w2) @ v) (int (length (u @ w1 @ w2))) q n"
    if "k \<le> n" for u v q n
    using a(1) [unfolded scan_bal_def, rule_format, OF that, of u "w2 @ v" q] a(2) [unfolded scan_bal_def, rule_format, OF that, of "u @ w1" v q]
    by simp
  then show ?thesis by (simp add: scan_bal_def)
qed

lemma scan_bal_char:
  "c \<noteq> P_ORSTART \<Longrightarrow> c \<noteq> P_OREND \<Longrightarrow> c \<noteq> P_ORNEXT \<or> 2 \<le> k \<Longrightarrow> scan_bal k [c]"
  unfolding scan_bal_def by (intro allI impI, subst scan_or.simps) (auto simp: add.commute)

lemma scan_bal_wrap:
  assumes "scan_bal 2 w"
  shows "scan_bal 1 (P_ORSTART # w @ [P_OREND])"
proof -
  have "scan_or (u @ (P_ORSTART # w @ [P_OREND]) @ v) (int (length u)) q n =
      scan_or (u @ (P_ORSTART # w @ [P_OREND]) @ v) (int (length (u @ P_ORSTART # w @ [P_OREND]))) q n"
    if "1 \<le> n" for u v q n
  proof -
    let ?p = "u @ (P_ORSTART # w @ [P_OREND]) @ v"
    have "scan_or ?p (int (length u)) q n = scan_or ?p (int (length (u @ [P_ORSTART]))) q (n + 1)"
      by (subst scan_or.simps) (simp add: add.commute)
    also have "\<dots> = scan_or ?p (int (length (u @ P_ORSTART # w))) q (n + 1)"
      using assms [unfolded scan_bal_def, rule_format, of "n + 1" "u @ [P_ORSTART]" "P_OREND # v" q] that by simp
    also have "\<dots> = scan_or ?p (int (length (u @ P_ORSTART # w @ [P_OREND]))) q n"
      using py_get_mid [of "u @ P_ORSTART # w" P_OREND v] that by (subst scan_or.simps) (simp add: add.commute)
    finally show ?thesis .
  qed
  then show ?thesis by (simp add: scan_bal_def)
qed

lemma scan_bal_mono: "scan_bal k w \<Longrightarrow> k \<le> k' \<Longrightarrow> scan_bal k' w"
  by (simp add: scan_bal_def)

lemma join_closed:
  assumes "B []" "\<And>a b. B a \<Longrightarrow> B b \<Longrightarrow> B (a @ b)" "B sep"
  shows "\<forall>w \<in> set ws. B w \<Longrightarrow> B (join_with sep ws)"
  using assms by (induction sep ws rule: join_with.induct) auto

lemma chars_closed:
  assumes "B []" "\<And>a b. B a \<Longrightarrow> B b \<Longrightarrow> B (a @ b)"
  shows "\<forall>c \<in> set w. B [c] \<Longrightarrow> B w"
proof (induction w)
  case (Cons c w)
  then show ?case using assms(2) [of "[c]" w] by simp
qed (rule assms(1))

lemma concat_closed:
  assumes "B []" "\<And>a b. B a \<Longrightarrow> B b \<Longrightarrow> B (a @ b)"
  shows "\<forall>w \<in> set ws. B w \<Longrightarrow> B (concat ws)"
  using assms by (induction ws) auto

text \<open>A property of strings that is closed under concatenation and the two kinds of blocks holds for
  the tokens of every term.\<close>

lemma not_token: "\<not> is_token c \<Longrightarrow> c \<notin> {P_ORSTART, P_ORNEXT, P_OREND, P_REPBEG, P_REPEND, P_CLASS, P_NOTCLASS, P_NOT, P_NOTEND, P_SINGLE, P_ANY}"
  by (auto simp: is_token_def)

lemma toks_closed:
  assumes "\<And>c. c \<notin> {P_ORSTART, P_ORNEXT, P_OREND, P_REPBEG, P_REPEND} \<Longrightarrow> B [c]" "B []"
    and "\<And>a b. B a \<Longrightarrow> B b \<Longrightarrow> B (a @ b)" "\<And>w. B w \<Longrightarrow> B (P_REPBEG # w @ [P_REPEND])"
    and "\<And>ws. \<forall>w \<in> set ws. B w \<Longrightarrow> B (P_ORSTART # join_with [P_ORNEXT] ws @ [P_OREND])"
  shows "tok_ok i \<Longrightarrow> B (toks i)"
proof (induction i)
  case (Lit c)
  then have "c \<notin> {P_ORSTART, P_ORNEXT, P_OREND, P_REPBEG, P_REPEND}" by (auto simp: is_token_def)
  then show ?case using assms(1) by simp
next
  case (Class neg cs)
  have "B [c]" if "c \<in> set cs" for c using not_token [of c] that Class by (intro assms(1)) simp
  moreover have "B [P_CLASS]" "B [P_NOTCLASS]" by (intro assms(1); simp)+
  ultimately have "\<forall>c \<in> set ((if neg then P_NOTCLASS else P_CLASS) # cs @ [P_CLASS]). B [c]" by simp
  then have "B ((if neg then P_NOTCLASS else P_CLASS) # cs @ [P_CLASS])"
    by (rule chars_closed [where B = B, rotated 2]) (use assms(2,3) in blast)+
  then show ?case by (simp only: toks.simps)
next
  case (Alts rs)
  have "B (concat (map toks r))" if "r \<in> set rs" for r
    by (rule concat_closed [where B = B]) (use assms(2,3) Alts that in \<open>auto simp: list_all_iff\<close>)
  then have "\<forall>w \<in> set (map concat (map (map toks) rs)). B w" by simp
  then show ?case using assms(5) by simp
qed (use assms in simp_all)

definition seq_ok :: "char item list \<Rightarrow> bool" where
  "seq_ok is \<longleftrightarrow> (\<forall>i \<in> set is. tok_ok i)"

lemma tok_ok_Alts: "tok_ok (Alts rs) \<longleftrightarrow> rs \<noteq> [] \<and> (\<forall>r \<in> set rs. seq_ok r)"
  by (auto simp: list_all_iff seq_ok_def)

lemma toks_Alts: "toks (Alts rs) = P_ORSTART # join_with [P_ORNEXT] (map toks_seq rs) @ [P_OREND]"
  by (simp add: toks_seq_def [abs_def] o_def)

lemma fwd_rep: "tok_ok i \<Longrightarrow> fwd_bal P_REPBEG P_REPEND (toks i)"
proof (rule toks_closed [of "fwd_bal P_REPBEG P_REPEND"])
  fix ws assume "\<forall>w \<in> set ws. fwd_bal P_REPBEG P_REPEND w"
  then have "fwd_bal P_REPBEG P_REPEND ([P_ORSTART] @ join_with [P_ORNEXT] ws @ [P_OREND])"
    by (intro join_closed [of "fwd_bal P_REPBEG P_REPEND"] fwd_bal_Nil fwd_bal_append fwd_bal_char) simp_all
  then show "fwd_bal P_REPBEG P_REPEND (P_ORSTART # join_with [P_ORNEXT] ws @ [P_OREND])" by simp
qed (simp_all add: fwd_bal_Nil fwd_bal_append fwd_bal_char fwd_bal_wrap)

lemma bwd_rep: "tok_ok i \<Longrightarrow> bwd_bal P_REPBEG P_REPEND (toks i)"
proof (rule toks_closed [of "bwd_bal P_REPBEG P_REPEND"])
  fix ws assume "\<forall>w \<in> set ws. bwd_bal P_REPBEG P_REPEND w"
  then have "bwd_bal P_REPBEG P_REPEND ([P_ORSTART] @ join_with [P_ORNEXT] ws @ [P_OREND])"
    by (intro join_closed [of "bwd_bal P_REPBEG P_REPEND"] bwd_bal_Nil bwd_bal_append bwd_bal_char) simp_all
  then show "bwd_bal P_REPBEG P_REPEND (P_ORSTART # join_with [P_ORNEXT] ws @ [P_OREND])" by simp
qed (simp_all add: bwd_bal_Nil bwd_bal_append bwd_bal_char bwd_bal_wrap)

lemma fwd_or: "tok_ok i \<Longrightarrow> fwd_bal P_ORSTART P_OREND (toks i)"
proof (rule toks_closed [of "fwd_bal P_ORSTART P_OREND"])
  fix w assume "fwd_bal P_ORSTART P_OREND w"
  then have "fwd_bal P_ORSTART P_OREND ([P_REPBEG] @ w @ [P_REPEND])"
    by (intro fwd_bal_append fwd_bal_char) simp_all
  then show "fwd_bal P_ORSTART P_OREND (P_REPBEG # w @ [P_REPEND])" by simp
next
  fix ws assume "\<forall>w \<in> set ws. fwd_bal P_ORSTART P_OREND w"
  then show "fwd_bal P_ORSTART P_OREND (P_ORSTART # join_with [P_ORNEXT] ws @ [P_OREND])"
    by (intro fwd_bal_wrap join_closed [of "fwd_bal P_ORSTART P_OREND"] fwd_bal_Nil fwd_bal_append fwd_bal_char) simp_all
qed (simp_all add: fwd_bal_Nil fwd_bal_append fwd_bal_char)

lemma scan_bal_Nil: "scan_bal k []"
  by (simp add: scan_bal_def)

lemma scan_item: "tok_ok i \<Longrightarrow> scan_bal 1 (toks i)"
proof (rule toks_closed [of "scan_bal 1"])
  fix w assume "scan_bal 1 w"
  then have "scan_bal 1 ([P_REPBEG] @ w @ [P_REPEND])" by (intro scan_bal_append scan_bal_char) simp_all
  then show "scan_bal 1 (P_REPBEG # w @ [P_REPEND])" by simp
next
  fix ws assume "\<forall>w \<in> set ws. scan_bal 1 w"
  then have "\<forall>w \<in> set ws. scan_bal 2 w" by (auto intro: scan_bal_mono)
  then show "scan_bal 1 (P_ORSTART # join_with [P_ORNEXT] ws @ [P_OREND])"
    by (intro scan_bal_wrap join_closed [of "scan_bal 2"] scan_bal_Nil scan_bal_append scan_bal_char) simp_all
qed (simp_all add: scan_bal_append scan_bal_char scan_bal_Nil)

lemma scan_seq: "seq_ok r \<Longrightarrow> scan_bal 1 (toks_seq r)"
  unfolding toks_seq_def seq_ok_def
  by (intro concat_closed [of "scan_bal 1"] scan_bal_append scan_bal_Nil) (auto simp: scan_item)

lemma fwd_or_seq: "seq_ok r \<Longrightarrow> fwd_bal P_ORSTART P_OREND (toks_seq r)"
  unfolding toks_seq_def seq_ok_def
  by (intro concat_closed [of "fwd_bal P_ORSTART P_OREND"] fwd_bal_append fwd_bal_Nil) (auto simp: fwd_or)

subsection \<open>Positions in the pattern and what they stand for\<close>

text \<open>\<open>den u v is\<close>: at the position behind \<open>u\<close> of the pattern \<open>u @ v\<close> the terms \<open>is\<close> are left to match.
  Inside of a block these are the terms up to its end and then those behind it; at the end of a
  repeated term it is the repetition itself that is left.\<close>

inductive den :: "string \<Rightarrow> string \<Rightarrow> char item list \<Rightarrow> bool" where
  den_end: "den u [] []"
| den_item: "tok_ok i \<Longrightarrow> den (u @ toks i) v is \<Longrightarrow> w = toks i @ v \<Longrightarrow> den u w (i # is)"
| den_orend: "den (u @ [P_OREND]) v is \<Longrightarrow> den u (P_OREND # v) is"
| den_ornext: "\<forall>r \<in> set rs. seq_ok r \<Longrightarrow> x = join_with [P_ORNEXT] (map toks_seq rs) \<Longrightarrow>
    den (u @ P_ORNEXT # x @ [P_OREND]) v is \<Longrightarrow> den u (P_ORNEXT # x @ P_OREND # v) is"
| den_repend: "tok_ok i \<Longrightarrow> u = u0 @ P_REPBEG # toks i \<Longrightarrow> den (u @ [P_REPEND]) v is \<Longrightarrow>
    den u (P_REPEND # v) (Rep i # is)"

lemma den_seq: "seq_ok r \<Longrightarrow> den (u @ toks_seq r) v is \<Longrightarrow> den u (toks_seq r @ v) (r @ is)"
proof (induction r arbitrary: u)
  case (Cons i r)
  have "den (u @ toks i) (toks_seq r @ v) (r @ is)" using Cons by (intro Cons.IH) (simp_all add: seq_ok_def toks_seq_def)
  then show ?case using Cons.prems(1) by (simp add: toks_seq_def seq_ok_def den_item)
qed (simp add: toks_seq_def)

text \<open>The positions of the alternatives behind the first.\<close>

fun alt_pos :: "int \<Rightarrow> string list \<Rightarrow> int list" where
  "alt_pos p [] = []"
| "alt_pos p [w] = []"
| "alt_pos p (w # x # ws) = (p + int (length w) + 1) # alt_pos (p + int (length w) + 1) (x # ws)"

abbreviation plain_marker :: "int \<Rightarrow> int \<Rightarrow> marker" where
  "plain_marker p q \<equiv> \<lparr>mk_flag = False, mk_pat = p, mk_str = q\<rparr>"

lemma scan_or_ok:
  assumes "\<forall>w \<in> set ws. scan_bal 1 w" "ws \<noteq> []"
  shows "scan_or (u @ join_with [P_ORNEXT] ws @ P_OREND # v) (int (length u)) q 1 =
    Inr (map (\<lambda>p. plain_marker p q) (alt_pos (int (length u)) ws))"
  using assms
proof (induction "[P_ORNEXT]" ws arbitrary: u rule: join_with.induct)
  case (2 w)
  then have "scan_or (u @ w @ P_OREND # v) (int (length u)) q 1 = scan_or (u @ w @ P_OREND # v) (int (length (u @ w))) q 1"
    by (simp add: scan_bal_def)
  also have "\<dots> = Inr []" using py_get_mid [of "u @ w" P_OREND v] by (subst scan_or.simps) simp
  finally show ?case by simp
next
  case (3 w x ws)
  let ?j = "join_with [P_ORNEXT] (x # ws)" let ?p = "u @ w @ P_ORNEXT # ?j @ P_OREND # v"
  have "scan_or ?p (int (length u)) q 1 = scan_or ?p (int (length (u @ w))) q 1"
    using 3(2) by (simp add: scan_bal_def)
  also have "\<dots> = rbind (scan_or ?p (int (length (u @ w @ [P_ORNEXT]))) q 1) (\<lambda>ms. Inr (plain_marker (int (length (u @ w @ [P_ORNEXT]))) q # ms))"
    using py_get_mid [of "u @ w" P_ORNEXT "?j @ P_OREND # v"] by (subst scan_or.simps) (simp add: add.commute)
  finally show ?case using 3(1) [of "u @ w @ [P_ORNEXT]"] 3(2) by (simp add: algebra_simps)
qed simp

lemma den_alts:
  assumes "\<forall>r \<in> set rs. seq_ok r" "rs \<noteq> []" "den (u @ join_with [P_ORNEXT] (map toks_seq rs) @ [P_OREND]) v is"
  shows "den u (join_with [P_ORNEXT] (map toks_seq rs) @ P_OREND # v) (hd rs @ is) \<and>
    (\<forall>p \<in> set (alt_pos (int (length u)) (map toks_seq rs)). \<exists>u' v' r. r \<in> set rs \<and> p = int (length u') \<and>
       u' @ v' = u @ join_with [P_ORNEXT] (map toks_seq rs) @ P_OREND # v \<and> den u' v' (r @ is)) \<and>
    (\<forall>r \<in> set rs. r = hd rs \<or> (\<exists>u' v'. int (length u') \<in> set (alt_pos (int (length u)) (map toks_seq rs)) \<and>
       u' @ v' = u @ join_with [P_ORNEXT] (map toks_seq rs) @ P_OREND # v \<and> den u' v' (r @ is)))"
  using assms
proof (induction rs arbitrary: u)
  case (Cons r rs)
  show ?case
  proof (cases rs)
    case Nil
    then have "den (u @ toks_seq r) (P_OREND # v) is" using Cons.prems(3) by (simp add: den_orend)
    then show ?thesis using Nil Cons.prems(1) by (simp add: den_seq)
  next
    case (Cons x xs)
    let ?j = "join_with [P_ORNEXT] (map toks_seq rs)" and ?u = "u @ toks_seq r @ [P_ORNEXT]"
    have j: "join_with [P_ORNEXT] (map toks_seq (r # rs)) = toks_seq r @ P_ORNEXT # ?j" by (simp add: Cons)
    have a: "alt_pos (int (length u)) (map toks_seq (r # rs)) = int (length ?u) # alt_pos (int (length ?u)) (map toks_seq rs)"
      by (simp add: Cons algebra_simps)
    have d: "den (?u @ ?j @ [P_OREND]) v is" using Cons.prems(3) unfolding j by simp
    then have "den (u @ toks_seq r) (P_ORNEXT # ?j @ P_OREND # v) is"
      using Cons.prems(1) by (intro den_ornext [OF _ refl]) simp_all
    then have h: "den u (toks_seq r @ P_ORNEXT # ?j @ P_OREND # v) (r @ is)" using Cons.prems(1) by (intro den_seq) simp_all
    have "rs \<noteq> []" by (simp add: Cons)
    from Cons.IH [OF _ this d] Cons.prems(1) have ih: "den ?u (?j @ P_OREND # v) (hd rs @ is)"
      "\<forall>p \<in> set (alt_pos (int (length ?u)) (map toks_seq rs)). \<exists>u' v' r. r \<in> set rs \<and> p = int (length u') \<and>
         u' @ v' = ?u @ ?j @ P_OREND # v \<and> den u' v' (r @ is)"
      "\<forall>r \<in> set rs. r = hd rs \<or> (\<exists>u' v'. int (length u') \<in> set (alt_pos (int (length ?u)) (map toks_seq rs)) \<and>
         u' @ v' = ?u @ ?j @ P_OREND # v \<and> den u' v' (r @ is))" by simp_all
    have e: "?u @ ?j @ P_OREND # v = u @ (toks_seq r @ P_ORNEXT # ?j) @ P_OREND # v" by simp
    show ?thesis unfolding j a
    proof (intro conjI ballI)
      show "den u ((toks_seq r @ P_ORNEXT # ?j) @ P_OREND # v) (hd (r # rs) @ is)" using h by simp
    next
      fix p assume "p \<in> set (int (length ?u) # alt_pos (int (length ?u)) (map toks_seq rs))"
      then consider "p = int (length ?u)" | "p \<in> set (alt_pos (int (length ?u)) (map toks_seq rs))" by auto
      then show "\<exists>u' v' ra. ra \<in> set (r # rs) \<and> p = int (length u') \<and> u' @ v' = u @ (toks_seq r @ P_ORNEXT # ?j) @ P_OREND # v \<and> den u' v' (ra @ is)"
      proof cases
        case 1
        then show ?thesis using ih(1) \<open>rs \<noteq> []\<close>
          by (intro exI [of _ ?u] exI [of _ "?j @ P_OREND # v"] exI [of _ "hd rs"]) simp
      next
        case 2
        with ih(2) obtain u' v' ra where "ra \<in> set rs" "p = int (length u')" "u' @ v' = ?u @ ?j @ P_OREND # v" "den u' v' (ra @ is)" by blast
        then show ?thesis by (intro exI [of _ u'] exI [of _ v'] exI [of _ ra]) simp
      qed
    next
      fix ra assume "ra \<in> set (r # rs)"
      show "ra = hd (r # rs) \<or> (\<exists>u' v'. int (length u') \<in> set (int (length ?u) # alt_pos (int (length ?u)) (map toks_seq rs)) \<and>
         u' @ v' = u @ (toks_seq r @ P_ORNEXT # ?j) @ P_OREND # v \<and> den u' v' (ra @ is))"
      proof (cases "ra = r")
        case False
        with \<open>ra \<in> set (r # rs)\<close> have "ra \<in> set rs" by simp
        with ih(3) consider "ra = hd rs" | u' v' where "int (length u') \<in> set (alt_pos (int (length ?u)) (map toks_seq rs))"
          "u' @ v' = ?u @ ?j @ P_OREND # v" "den u' v' (ra @ is)" by blast
        then show ?thesis
        proof cases
          case 1
          then show ?thesis using ih(1) by (intro disjI2 exI [of _ ?u] exI [of _ "?j @ P_OREND # v"]) simp
        next
          case 2
          then show ?thesis by (intro disjI2 exI [of _ u'] exI [of _ v']) simp
        qed
      qed simp
    qed
  qed
qed simp

subsection \<open>The commands on the tokens of a term\<close>

lemma py_get_off: "int (length u) + 1 = p \<Longrightarrow> py_get (u @ b # c # v) p = Inr c"
  using py_get_mid [of "u @ [b]" c v] by (simp add: add.commute)

lemma py_get_off2: "int (length u) + 2 = p \<Longrightarrow> py_get (u @ b # d # c # v) p = Inr c"
  using py_get_mid [of "u @ [b, d]" c v] by (simp add: add.commute)

lemma in_range_self: "in_range x b b \<longleftrightarrow> x = b"
proof
  assume "in_range x b b"
  then have "(of_char x :: nat) = of_char b" unfolding in_range_def by linarith
  then show "x = b" by (simp only: of_char_eq_iff)
qed (simp add: in_range_def)

lemma class_end_ok:
  "\<forall>c \<in> set cs. \<not> is_token c \<Longrightarrow> class_end (u @ cs @ P_CLASS # v) (int (length u)) = Inr (int (length (u @ cs)) + 1)"
proof (induction cs arbitrary: u)
  case Nil
  show ?case by (subst class_end.simps) simp
next
  case (Cons c cs)
  then have "c \<noteq> P_CLASS" using not_token [of c] by simp
  then have "class_end (u @ (c # cs) @ P_CLASS # v) (int (length u)) = class_end ((u @ [c]) @ cs @ P_CLASS # v) (int (length (u @ [c])))"
    by (subst class_end.simps) (simp add: add.commute)
  also have "\<dots> = Inr (int (length ((u @ [c]) @ cs)) + 1)" using Cons by (intro Cons.IH) simp
  finally show ?case by simp
qed

text \<open>What one round of the loop over a class looks at: the first character \<open>b\<close>, the end \<open>e\<close> of its range
  and the characters \<open>r\<close> behind.\<close>

fun cls_head :: "string \<Rightarrow> char \<times> char \<times> string" where
  "cls_head (b # d # cs) = (if d = CHR ''-'' then (b, (case cs of [] \<Rightarrow> CHR 0xFF | e # _ \<Rightarrow> e), cs) else (b, b, d # cs))"
| "cls_head cs = (hd cs, hd cs, tl cs)"

lemma cls_head_ok:
  assumes "\<forall>c \<in> set cs. \<not> is_token c" "cs \<noteq> []" "cls_head cs = (b, e, r)"
  shows "py_get (u @ cs @ P_CLASS # v) (int (length u)) = Inr b" "b \<noteq> P_CLASS" "\<forall>c \<in> set r. \<not> is_token c"
    "\<exists>u'. class_range (u @ cs @ P_CLASS # v) (int (length u) + 1) b = Inr (e, int (length u')) \<and>
       u @ cs @ P_CLASS # v = u' @ r @ P_CLASS # v \<and> length (u @ cs) = length (u' @ r)"
    "cls_in cs x \<longleftrightarrow> in_range x b e \<or> cls_in r x" "length r < length cs"
proof -
  obtain d where b: "cs = b # d" using assms(2,3) by (cases cs rule: cls_head.cases) (auto split: if_splits)
  show "py_get (u @ cs @ P_CLASS # v) (int (length u)) = Inr b" by (simp add: b)
  show "b \<noteq> P_CLASS" using not_token [of b] assms(1) b by simp
  show "\<forall>c \<in> set r. \<not> is_token c" "length r < length cs"
    using assms(1,3) unfolding b by (cases d; auto split: if_splits)+
  show "cls_in cs x \<longleftrightarrow> in_range x b e \<or> cls_in r x"
    using assms(3) unfolding b by (cases d) (auto simp: in_range_self split: if_splits)
  show "\<exists>u'. class_range (u @ cs @ P_CLASS # v) (int (length u) + 1) b = Inr (e, int (length u')) \<and>
       u @ cs @ P_CLASS # v = u' @ r @ P_CLASS # v \<and> length (u @ cs) = length (u' @ r)"
  proof (cases "\<exists>cs'. d = CHR ''-'' # cs'")
    case True
    then obtain cs' where d: "d = CHR ''-'' # cs'" by blast
    have e: "e = (case cs' of [] \<Rightarrow> CHR 0xFF | e # _ \<Rightarrow> e)" "r = cs'" using assms(3) unfolding b d by auto
    have "class_range (u @ cs @ P_CLASS # v) (int (length u) + 1) b = Inr (e, int (length (u @ [b, CHR ''-''])))"
    proof (cases cs')
      case Nil
      then show ?thesis by (simp add: class_range_def b d e py_get_off py_get_off2)
    next
      case (Cons c cs2)
      moreover have "c \<noteq> P_CLASS" using not_token [of c] assms(1) b d Cons by simp
      ultimately show ?thesis by (simp add: class_range_def b d e py_get_off py_get_off2)
    qed
    then show ?thesis by (intro exI [of _ "u @ [b, CHR ''-'']"]) (simp add: b d e(2))
  next
    case False
    then have e: "e = b" "r = d" using assms(3) unfolding b by (cases d; auto split: if_splits)+
    have "class_range (u @ cs @ P_CLASS # v) (int (length u) + 1) b = Inr (b, int (length (u @ [b])))"
      using False by (cases d) (simp_all add: class_range_def b py_get_off add.commute)
    then show ?thesis by (intro exI [of _ "u @ [b]"]) (simp add: b e)
  qed
qed

lemma class_match_ok:
  "\<forall>c \<in> set cs. \<not> is_token c \<Longrightarrow> class_match (u @ cs @ P_CLASS # v) x (int (length u)) =
     Inr (if cls_in cs x then Some (int (length (u @ cs)) + 1) else None)"
proof (induction "length cs" arbitrary: u cs rule: less_induct)
  case less
  show ?case
  proof (cases "cs = []")
    case True
    then show ?thesis by (subst class_match.simps) simp
  next
    case False
    obtain b e r where h: "cls_head cs = (b, e, r)" by (cases "cls_head cs")
    note H = cls_head_ok [OF less.prems False h]
    from H(4) [of u v] obtain u' where u': "class_range (u @ cs @ P_CLASS # v) (int (length u) + 1) b = Inr (e, int (length u'))"
      "u @ cs @ P_CLASS # v = u' @ r @ P_CLASS # v" "length (u @ cs) = length (u' @ r)" by blast
    have "class_match (u @ cs @ P_CLASS # v) x (int (length u)) =
       (if in_range x b e then rbind (class_end (u @ cs @ P_CLASS # v) (int (length u'))) (\<lambda>p. Inr (Some p))
        else class_match (u @ cs @ P_CLASS # v) x (int (length u')))"
      using H(1) [of u v] H(2) u'(1) by (subst class_match.simps) simp
    also have "\<dots> = Inr (if cls_in cs x then Some (int (length (u @ cs)) + 1) else None)"
      unfolding u'(2,3) using class_end_ok [OF H(3), of u' v] less.hyps [OF H(6) H(3), of u'] H(5) [of x] by simp
    finally show ?thesis .
  qed
qed

lemma class_miss_ok:
  "\<forall>c \<in> set cs. \<not> is_token c \<Longrightarrow> class_miss (u @ cs @ P_CLASS # v) x (int (length u)) =
     Inr (if cls_in cs x then None else Some (int (length (u @ cs)) + 1))"
proof (induction "length cs" arbitrary: u cs rule: less_induct)
  case less
  show ?case
  proof (cases "cs = []")
    case True
    then show ?thesis by (subst class_miss.simps) simp
  next
    case False
    obtain b e r where h: "cls_head cs = (b, e, r)" by (cases "cls_head cs")
    note H = cls_head_ok [OF less.prems False h]
    from H(4) [of u v] obtain u' where u': "class_range (u @ cs @ P_CLASS # v) (int (length u) + 1) b = Inr (e, int (length u'))"
      "u @ cs @ P_CLASS # v = u' @ r @ P_CLASS # v" "length (u @ cs) = length (u' @ r)" by blast
    have "class_miss (u @ cs @ P_CLASS # v) x (int (length u)) =
       (if in_range x b e then Inr None else class_miss (u @ cs @ P_CLASS # v) x (int (length u')))"
      using H(1) [of u v] H(2) u'(1) by (subst class_miss.simps) simp
    also have "\<dots> = Inr (if cls_in cs x then None else Some (int (length (u @ cs)) + 1))"
      unfolding u'(2,3) using less.hyps [OF H(6) H(3), of u'] H(5) [of x] by simp
    finally show ?thesis .
  qed
qed

subsection \<open>One command at a position\<close>

lemma cmd_Lit:
  "\<not> is_token c \<Longrightarrow> 0 \<le> q \<Longrightarrow> c \<noteq> CHR 0x00 \<Longrightarrow> plain_cmd tr pat s c p q =
     Inr (if q < int (length s) \<and> tr (s ! nat q) = c then Some (p + 1, q + 1) else None, [])"
  using not_token [of c] by (auto simp: plain_cmd_def py_get_in)

lemma cmd_Single: "plain_cmd tr pat s P_SINGLE p q = Inr (if q < int (length s) then Some (p + 1, q + 1) else None, [])"
  by (simp add: plain_cmd_def)

lemma cmd_AnyStr: "plain_cmd tr pat s P_ANY p q = Inr (Some (p + 1, q), if q < int (length s) then [plain_marker p (q + 1)] else [])"
  by (simp add: plain_cmd_def)

lemma cmd_Class:
  assumes "\<forall>c \<in> set cs. \<not> is_token c" "0 \<le> q" "q \<le> int (length s)"
  shows "plain_cmd tr (u @ (if neg then P_NOTCLASS else P_CLASS) # cs @ P_CLASS # v) s (if neg then P_NOTCLASS else P_CLASS) (int (length u)) q =
    Inr (if q < int (length s) \<and> cls_in cs (tr (s ! nat q)) \<noteq> neg then Some (int (length u + length cs + 2), q + 1) else None, [])"
proof (cases "q < int (length s)")
  case True
  let ?c = "if neg then P_NOTCLASS else P_CLASS"
  have g: "py_get s q = Inr (s ! nat q)" using True assms(2) by (simp add: py_get_in)
  have e: "u @ ?c # cs @ P_CLASS # v = (u @ [?c]) @ cs @ P_CLASS # v" "int (length u) + 1 = int (length (u @ [?c]))" by simp_all
  show ?thesis unfolding plain_cmd_def e(2) unfolding e(1)
    using class_match_ok [OF assms(1), of "u @ [?c]" v] class_miss_ok [OF assms(1), of "u @ [?c]" v] g True by auto
qed (use assms in \<open>simp add: plain_cmd_def\<close>)

lemma cmd_Rep:
  "tok_ok i \<Longrightarrow> plain_cmd tr (u @ P_REPBEG # toks i @ P_REPEND # v) s P_REPBEG (int (length u)) q =
     Inr (Some (int (length u + length (toks i) + 2), q), [plain_marker (int (length (u @ [P_REPBEG]))) q])"
  using seek_end_found [OF fwd_rep, of i "u @ [P_REPBEG]" v] by (simp add: plain_cmd_def add.commute)

lemma cmd_RepEnd:
  "tok_ok i \<Longrightarrow> plain_cmd tr (u @ P_REPBEG # toks i @ P_REPEND # v) s P_REPEND (int (length (u @ P_REPBEG # toks i))) q =
     Inr (Some (int (length u), q), [])"
  using seek_begin_found [OF bwd_rep, of i u "P_REPEND # v"] by (simp add: plain_cmd_def)

lemma cmd_Alts:
  "\<forall>r \<in> set rs. seq_ok r \<Longrightarrow> rs \<noteq> [] \<Longrightarrow>
     plain_cmd tr (u @ P_ORSTART # join_with [P_ORNEXT] (map toks_seq rs) @ P_OREND # v) s P_ORSTART (int (length u)) q =
     Inr (Some (int (length (u @ [P_ORSTART])), q),
       map (\<lambda>p. plain_marker p q) (alt_pos (int (length (u @ [P_ORSTART]))) (map toks_seq rs)))"
  using scan_or_ok [of "map toks_seq rs" "u @ [P_ORSTART]" v q] scan_seq by (simp add: plain_cmd_def add.commute)

lemma cmd_OrNext:
  assumes "\<forall>r \<in> set rs. seq_ok r" "x = join_with [P_ORNEXT] (map toks_seq rs)"
  shows "plain_cmd tr (u @ P_ORNEXT # x @ P_OREND # v) s P_ORNEXT (int (length u)) q = Inr (Some (int (length u + length x + 2), q), [])"
proof -
  have "fwd_bal P_ORSTART P_OREND x" unfolding assms(2)
    using assms(1) fwd_or_seq by (intro join_closed [of "fwd_bal P_ORSTART P_OREND"] fwd_bal_append fwd_bal_char fwd_bal_Nil) simp_all
  from seek_end_found [OF this, of "u @ [P_ORNEXT]" v] show ?thesis by (simp add: plain_cmd_def add.commute)
qed

lemma cmd_OrEnd: "plain_cmd tr pat s P_OREND p q = Inr (Some (p + 1, q), [])"
  by (simp add: plain_cmd_def)

text \<open>Between two markers the string position grows, or the rank of the pattern position falls.\<close>

definition prank :: "string \<Rightarrow> int \<Rightarrow> int" where
  "prank pat p =
     (case py_get pat p of
        Inr c \<Rightarrow> if c = P_REPBEG
                 then (case seek_end pat (p + 1) P_REPBEG P_REPEND 1 of Inr e \<Rightarrow> 2 * (int (length pat) - e) - 1 | Inl e \<Rightarrow> 2 * (int (length pat) - p))
                 else 2 * (int (length pat) - p)
      | Inl e \<Rightarrow> 2 * (int (length pat) - p))"

lemma seek_end_bounds: "seek_end pat p b e n = Inr r \<Longrightarrow> 0 \<le> p \<Longrightarrow> p \<le> r \<and> r < int (length pat)"
proof (induction pat p b e n rule: seek_end.induct)
  case (1 pat p b e n)
  from 1(4) show ?case using 1(1-3) [OF _] 1(5)
    by (subst (asm) seek_end.simps) (fastforce simp: py_get_def Let_def split: if_splits sum.splits)
qed

lemma prank_le: "0 \<le> p \<Longrightarrow> prank pat p \<le> 2 * (int (length pat) - p)"
  by (auto simp: prank_def dest!: seek_end_bounds split: sum.splits)

lemma prank_nonneg: "0 \<le> p \<Longrightarrow> p \<le> int (length pat) \<Longrightarrow> 0 \<le> prank pat p"
  by (auto simp: prank_def dest!: seek_end_bounds split: sum.splits)

lemma prank_plain: "c \<noteq> P_REPBEG \<Longrightarrow> prank (u @ c # v) (int (length u)) = 2 * (int (length (u @ c # v)) - int (length u))"
  by (simp add: prank_def)

lemma prank_rep: "tok_ok i \<Longrightarrow> prank (u @ P_REPBEG # toks i @ P_REPEND # v) (int (length u)) = 2 * int (length v) + 1"
  using seek_end_found [OF fwd_rep, of i "u @ [P_REPBEG]" v] by (simp add: prank_def add.commute)

lemma prank_after: "prank (u @ w @ v) (int (length (u @ w))) \<le> 2 * int (length v)"
  using prank_le [of "int (length (u @ w))" "u @ w @ v"] by simp

definition below :: "string \<Rightarrow> int \<times> int \<Rightarrow> int \<times> int \<Rightarrow> bool" where
  "below pat c c' \<longleftrightarrow> snd c < snd c' \<or> snd c = snd c' \<and> prank pat (fst c') < prank pat (fst c)"

definition leads :: "(char \<Rightarrow> char) \<Rightarrow> string \<Rightarrow> string \<Rightarrow> char item list \<Rightarrow> int \<Rightarrow> int \<times> int \<Rightarrow> bool" where
  "leads tr pat s is q c \<longleftrightarrow> (\<exists>u v is'. c = (int (length u), snd c) \<and> pat = u @ v \<and> den u v is' \<and> q \<le> snd c \<and> snd c \<le> int (length s) \<and>
     (matches is' (drop (nat (snd c)) (map tr s)) \<longrightarrow> matches is (drop (nat q) (map tr s))))"

lemma leadsI:
  "pat = u @ v \<Longrightarrow> p = int (length u) \<Longrightarrow> den u v is' \<Longrightarrow> q \<le> q' \<Longrightarrow> q' \<le> int (length s) \<Longrightarrow>
     (matches is' (drop (nat q') (map tr s)) \<Longrightarrow> matches is (drop (nat q) (map tr s))) \<Longrightarrow> leads tr pat s is q (p, q')"
  unfolding leads_def by (intro exI [of _ u] exI [of _ v] exI [of _ is']) simp

lemma drop_tr: "0 \<le> q \<Longrightarrow> q < int (length s) \<Longrightarrow>
    drop (nat q) (map tr s) = tr (s ! nat q) # drop (nat (q + 1)) (map tr s)"
  using Cons_nth_drop_Suc [of "nat q" "map tr s"] by (simp add: nat_add_distrib)

definition marker_pos :: "marker \<Rightarrow> int \<times> int" where
  "marker_pos m = (mk_pat m, mk_str m)"

lemma marker_pos_plain [simp]: "marker_pos (plain_marker p q) = (p, q)"
  by (simp add: marker_pos_def)

definition cmd_ok :: "(char \<Rightarrow> char) \<Rightarrow> string \<Rightarrow> string \<Rightarrow> char item list \<Rightarrow> int \<Rightarrow> int \<Rightarrow> (int \<times> int) option \<Rightarrow> marker list \<Rightarrow> bool" where
  "cmd_ok tr pat s is p q nx ms \<longleftrightarrow> (\<forall>m \<in> set ms. \<not> mk_flag m \<and> leads tr pat s is q (marker_pos m)) \<and>
     (case nx of None \<Rightarrow> True | Some c \<Rightarrow> leads tr pat s is q c \<and> below pat (p, q) c)"

lemma plain_item_ok:
  assumes "tok_ok i" "den (u @ toks i) v is" "pat = u @ toks i @ v" "0 \<le> q" "q \<le> int (length s)"
  shows "\<exists>nx ms. plain_cmd tr pat s (hd (toks i)) (int (length u)) q = Inr (nx, ms) \<and> cmd_ok tr pat s (i # is) (int (length u)) q nx ms"
proof (cases i)
  case (Lit c)
  show ?thesis
  proof (cases "q < int (length s) \<and> tr (s ! nat q) = c")
    case True
    have "leads tr pat s (i # is) q (int (length u) + 1, q + 1)"
      using assms True Lit by (intro leadsI [of _ "u @ [c]" v _ "is"]) (simp_all add: drop_tr matches.Lit)
    with True show ?thesis using assms Lit by (simp add: cmd_Lit cmd_ok_def below_def)
  next
    case False
    with assms Lit show ?thesis by (auto simp: cmd_Lit cmd_ok_def)
  qed
next
  case Single
  show ?thesis
  proof (cases "q < int (length s)")
    case True
    have "leads tr pat s (i # is) q (int (length u) + 1, q + 1)"
      using assms True Single by (intro leadsI [of _ "u @ [P_SINGLE]" v _ "is"]) (simp_all add: drop_tr matches.Single)
    with True show ?thesis using Single by (simp add: cmd_Single cmd_ok_def below_def)
  next
    case False
    with Single show ?thesis by (simp add: cmd_Single cmd_ok_def)
  qed
next
  case AnyStr
  have "leads tr pat s (i # is) q (int (length u) + 1, q)"
    using assms AnyStr by (intro leadsI [of _ "u @ [P_ANY]" v _ "is"]) (simp_all add: matches.Any0)
  moreover have "leads tr pat s (i # is) q (int (length u), q + 1)" if "q < int (length s)"
    using assms that AnyStr by (intro leadsI [of _ u "P_ANY # v" _ "i # is"]) (simp_all add: drop_tr matches.Any1 den_item)
  moreover have "below pat (int (length u), q) (int (length u) + 1, q)"
    using assms(3) AnyStr prank_plain [of P_ANY u v] prank_after [of u "[P_ANY]" v] by (simp add: below_def add.commute)
  ultimately show ?thesis using AnyStr by (simp add: cmd_AnyStr cmd_ok_def)
next
  case (Class neg cs)
  let ?c = "if neg then P_NOTCLASS else P_CLASS"
  have h: "hd (toks i) = ?c" by (simp add: Class)
  have cs: "\<forall>c \<in> set cs. \<not> is_token c" and p: "pat = u @ ?c # cs @ P_CLASS # v" using assms(1,3) Class by simp_all
  note e = cmd_Class [OF cs assms(4,5), of tr u neg v, folded p]
  show ?thesis
  proof (cases "q < int (length s) \<and> cls_in cs (tr (s ! nat q)) \<noteq> neg")
    case True
    have "leads tr pat s (i # is) q (int (length u + length cs + 2), q + 1)"
      using assms True Class by (intro leadsI [of _ "u @ toks i" v _ "is"]) (auto simp add: drop_tr intro: matches.Class)
    with True show ?thesis unfolding h e by (simp add: cmd_ok_def below_def)
  next
    case False
    then show ?thesis unfolding h e by (auto simp add: cmd_ok_def)
  qed
next
  case (Rep j)
  have j: "tok_ok j" and p: "pat = u @ P_REPBEG # toks j @ P_REPEND # v" using assms(1,3) Rep by simp_all
  have "leads tr pat s (i # is) q (int (length u + length (toks j) + 2), q)"
    using assms Rep by (intro leadsI [of _ "u @ toks i" v _ "is"]) (simp_all add: matches.Rep0)
  moreover have "leads tr pat s (i # is) q (int (length (u @ [P_REPBEG])), q)"
  proof (rule leadsI [of _ "u @ [P_REPBEG]" "toks j @ P_REPEND # v" _ "j # Rep j # is"])
    have "den (u @ P_REPBEG # toks j) (P_REPEND # v) (Rep j # is)"
      using assms(2) Rep by (intro den_repend [OF j refl]) simp
    then show "den (u @ [P_REPBEG]) (toks j @ P_REPEND # v) (j # Rep j # is)" by (intro den_item [OF j _ refl]) simp
  qed (use assms p Rep in \<open>simp_all add: matches.Rep1\<close>)
  moreover have "below pat (int (length u), q) (int (length u + length (toks j) + 2), q)"
    unfolding p using prank_rep [OF j, of u v] prank_after [of u "P_REPBEG # toks j @ [P_REPEND]" v] by (simp add: below_def add.commute)
  ultimately show ?thesis unfolding p using cmd_Rep [OF j, of tr u v s q] Rep by (simp add: cmd_ok_def)
next
  case (Alts rs)
  let ?x = "join_with [P_ORNEXT] (map toks_seq rs)" and ?u = "u @ [P_ORSTART]"
  have rs: "\<forall>r \<in> set rs. seq_ok r" "rs \<noteq> []" and t: "toks i = P_ORSTART # ?x @ [P_OREND]"
    using assms(1) Alts tok_ok_Alts toks_Alts by auto
  have p: "pat = u @ P_ORSTART # ?x @ P_OREND # v" using assms(3) t by simp
  have "den (?u @ ?x @ [P_OREND]) v is" using assms(2) t by simp
  note D = den_alts [OF rs this]
  have ld: "leads tr pat s (i # is) q (p', q)" if "p' = int (length u')" "u' @ v' = ?u @ ?x @ P_OREND # v" "r \<in> set rs" "den u' v' (r @ is)" for p' u' v' r
    using that assms(5) p Alts by (intro leadsI [of _ u' v' _ "r @ is"]) (auto intro: matches.Alts)
  have "leads tr pat s (i # is) q (int (length ?u), q)"
    by (rule ld [OF refl _ _ conjunct1 [OF D]]) (use rs in simp_all)
  moreover have "\<forall>p' \<in> set (alt_pos (int (length ?u)) (map toks_seq rs)). leads tr pat s (i # is) q (p', q)"
    using conjunct1 [OF conjunct2 [OF D]] ld by blast
  moreover have "below pat (int (length u), q) (int (length ?u), q)"
    unfolding p using prank_plain [of P_ORSTART u "?x @ P_OREND # v"] prank_after [of u "[P_ORSTART]" "?x @ P_OREND # v"] by (simp add: below_def)
  ultimately show ?thesis using cmd_Alts [OF rs, of tr u v s q] t by (simp add: cmd_ok_def p)
qed

lemma hd_toks: "tok_ok i \<Longrightarrow> toks i \<noteq> [] \<and> hd (toks i) \<notin> {P_NOT, P_NOTEND, CHR 0x00}"
  using not_token by (cases i) auto

lemma plain_ok:
  assumes "den u v is" "pat = u @ v" "v \<noteq> []" "0 \<le> q" "q \<le> int (length s)"
  shows "hd v \<notin> {P_NOT, P_NOTEND, CHR 0x00} \<and>
    (\<exists>nx ms. plain_cmd tr pat s (hd v) (int (length u)) q = Inr (nx, ms) \<and> cmd_ok tr pat s is (int (length u)) q nx ms)"
  using assms(1)
proof cases
  case den_end
  with assms(3) show ?thesis by simp
next
  case (den_item i v' is' )
  then have "hd v = hd (toks i)" "hd (toks i) \<notin> {P_NOT, P_NOTEND, CHR 0x00}" using hd_toks [of i] by auto
  with plain_item_ok [OF den_item(2,3) _ assms(4,5), of pat tr] den_item assms(2) show ?thesis by simp
next
  case (den_orend v')
  have "leads tr pat s is q (int (length u) + 1, q)"
    using den_orend assms by (intro leadsI [of _ "u @ [P_OREND]" v' _ "is"]) simp_all
  moreover have "below pat (int (length u), q) (int (length u) + 1, q)"
    using assms(2) den_orend prank_plain [of P_OREND u v'] prank_after [of u "[P_OREND]" v'] by (simp add: below_def add.commute)
  ultimately show ?thesis using den_orend by (simp add: cmd_OrEnd cmd_ok_def)
next
  case (den_ornext rs x v')
  have "leads tr pat s is q (int (length u + length x + 2), q)"
    using den_ornext assms by (intro leadsI [of _ "u @ P_ORNEXT # x @ [P_OREND]" v' _ "is"]) simp_all
  moreover have "below pat (int (length u), q) (int (length u + length x + 2), q)"
    using assms(2) den_ornext prank_plain [of P_ORNEXT u "x @ P_OREND # v'"] prank_after [of u "P_ORNEXT # x @ [P_OREND]" v']
    by (simp add: below_def add.commute)
  ultimately show ?thesis using den_ornext assms(2) cmd_OrNext [OF den_ornext(2,3), of tr u v' s q] by (simp add: cmd_ok_def)
next
  case (den_repend i u0 v' is')
  have p: "pat = u0 @ P_REPBEG # toks i @ P_REPEND # v'" using den_repend assms(2) by simp
  have d: "den u0 (P_REPBEG # toks i @ P_REPEND # v') (Rep i # is')"
    using den_repend by (intro den_item [of "Rep i" u0 v']) simp_all
  have "leads tr pat s is q (int (length u0), q)"
    using den_repend d p assms by (intro leadsI [of _ u0 "P_REPBEG # toks i @ P_REPEND # v'" _ "is"]) simp_all
  moreover have "below pat (int (length u), q) (int (length u0), q)"
    unfolding p using prank_rep [OF den_repend(3), of u0 v'] prank_plain [of P_REPEND "u0 @ P_REPBEG # toks i" v'] den_repend(4)
    by (simp add: below_def)
  ultimately show ?thesis using den_repend p cmd_RepEnd [OF den_repend(3), of tr u0 v' s q] by (simp add: cmd_ok_def)
qed

subsection \<open>Accepting positions\<close>

text \<open>The positions one command leads to, at once or over a marker; \<open>acc k c\<close>: the end of pattern and
  string is \<open>k\<close> such steps from \<open>c\<close>.\<close>

definition succs :: "(char \<Rightarrow> char) \<Rightarrow> string \<Rightarrow> string \<Rightarrow> int \<times> int \<Rightarrow> (int \<times> int) set" where
  "succs tr pat s c =
     (if fst c < int (length pat)
      then (case plain_cmd tr pat s (pat ! nat (fst c)) (fst c) (snd c) of
              Inl e \<Rightarrow> {} | Inr (nx, ms) \<Rightarrow> set_option nx \<union> marker_pos ` set ms)
      else {})"

inductive acc :: "(char \<Rightarrow> char) \<Rightarrow> string \<Rightarrow> string \<Rightarrow> nat \<Rightarrow> int \<times> int \<Rightarrow> bool" for tr pat s where
  acc_0: "acc tr pat s 0 (int (length pat), int (length s))"
| acc_Suc: "c' \<in> succs tr pat s c \<Longrightarrow> acc tr pat s k c' \<Longrightarrow> acc tr pat s (Suc k) c"

inductive_cases acc_0E: "acc tr pat s 0 c"
inductive_cases acc_SucE: "acc tr pat s (Suc k) c"
inductive_simps acc_0_iff: "acc tr pat s 0 c"

lemma succs_cmd:
  "pat = u @ v \<Longrightarrow> v \<noteq> [] \<Longrightarrow> plain_cmd tr pat s (hd v) (int (length u)) q = Inr (nx, ms) \<Longrightarrow>
     succs tr pat s (int (length u), q) = set_option nx \<union> marker_pos ` set ms"
  by (cases v) (simp_all add: succs_def)

lemma den_Nil: "den u [] is \<Longrightarrow> is = []"
proof -
  assume "den u [] is"
  then show ?thesis
  proof cases
    case (den_item i v js)
    with hd_toks [of i] show ?thesis by simp
  qed simp
qed

lemma acc_sound:
  "acc tr pat s k c \<Longrightarrow> c = (int (length u), q) \<Longrightarrow> pat = u @ v \<Longrightarrow> den u v is \<Longrightarrow> 0 \<le> q \<Longrightarrow> q \<le> int (length s) \<Longrightarrow>
     matches is (drop (nat q) (map tr s))"
proof (induction k arbitrary: c u v q "is")
  case 0
  from 0(1) have "c = (int (length pat), int (length s))" by (rule acc_0E)
  with 0(2) have "length u = length pat" "q = int (length s)" by simp_all
  then have "v = []" "q = int (length s)" unfolding 0(3) by simp_all
  with 0(4) show ?case using den_Nil [of u "is"] by (simp add: matches.Nil)
next
  case (Suc k)
  from Suc.prems(1) obtain c' where c': "c' \<in> succs tr pat s c" "acc tr pat s k c'" by (auto elim: acc_SucE)
  then have "v \<noteq> []" using Suc.prems(2,3) by (auto simp: succs_def split: if_splits)
  from plain_ok [OF Suc.prems(4,3) this Suc.prems(5,6)] obtain nx ms where
    p: "plain_cmd tr pat s (hd v) (int (length u)) q = Inr (nx, ms)" "cmd_ok tr pat s is (int (length u)) q nx ms" by blast
  have "leads tr pat s is q c'"
    using c'(1) p(2) unfolding Suc.prems(2) succs_cmd [OF Suc.prems(3) \<open>v \<noteq> []\<close> p(1)] by (auto simp: cmd_ok_def split: option.splits)
  then obtain u' v' is' where l: "c' = (int (length u'), snd c')" "pat = u' @ v'" "den u' v' is'" "q \<le> snd c'" "snd c' \<le> int (length s)"
     "matches is' (drop (nat (snd c')) (map tr s)) \<longrightarrow> matches is (drop (nat q) (map tr s))" unfolding leads_def by blast
  with Suc.IH [OF c'(2) l(1-3)] Suc.prems(5) show ?case by simp
qed

definition ready :: "(char \<Rightarrow> char) \<Rightarrow> string \<Rightarrow> string \<Rightarrow> char item list \<Rightarrow> int \<Rightarrow> bool" where
  "ready tr pat s is q \<longleftrightarrow> (\<forall>u v. den u v is \<longrightarrow> pat = u @ v \<longrightarrow> (\<exists>k. acc tr pat s k (int (length u), q)))"

lemma ready_item:
  assumes "\<And>u v. tok_ok i \<Longrightarrow> den (u @ toks i) v is \<Longrightarrow> pat = u @ toks i @ v \<Longrightarrow> \<exists>k. acc tr pat s k (int (length u), q)"
  shows "ready tr pat s (i # is) q"
proof -
  have "\<exists>k. acc tr pat s k (int (length u), q)" if "den u v js" "pat = u @ v" "js = i # is" for u v js
    using that
  proof (induction rule: den.induct)
    case (den_item j u v js w)
    then show ?case using assms [of u v] by simp
  next
    case (den_orend u v js)
    then obtain k where "acc tr pat s k (int (length (u @ [P_OREND])), q)" by auto
    moreover have "(int (length (u @ [P_OREND])), q) \<in> succs tr pat s (int (length u), q)"
      using den_orend succs_cmd [of pat u "P_OREND # v" tr s q] by (simp add: cmd_OrEnd add.commute)
    ultimately show ?case by (blast intro: acc_Suc)
  next
    case (den_ornext rs x u v js)
    then obtain k where "acc tr pat s k (int (length (u @ P_ORNEXT # x @ [P_OREND])), q)" by auto
    moreover have "(int (length (u @ P_ORNEXT # x @ [P_OREND])), q) \<in> succs tr pat s (int (length u), q)"
      using den_ornext succs_cmd [of pat u "P_ORNEXT # x @ P_OREND # v" tr s q] cmd_OrNext [OF den_ornext(1,2), of tr u v s q]
      by (simp add: add.commute)
    ultimately show ?case by (blast intro: acc_Suc)
  next
    case (den_repend j u u0 v js)
    have p: "pat = u0 @ toks i @ v" "tok_ok i" "den (u0 @ toks i) v is" using den_repend by auto
    from assms [OF p(2,3,1)] obtain k where "acc tr pat s k (int (length u0), q)" by blast
    moreover have "(int (length u0), q) \<in> succs tr pat s (int (length u), q)"
      using den_repend succs_cmd [of pat u "P_REPEND # v" tr s q] cmd_RepEnd [OF den_repend(1), of tr u0 v s q] by simp
    ultimately show ?case by (blast intro: acc_Suc)
  qed simp
  then show ?thesis by (simp add: ready_def)
qed

lemma ready_Nil:
  assumes "q = int (length s)"
  shows "ready tr pat s [] q"
proof -
  have "\<exists>k. acc tr pat s k (int (length u), q)" if "den u v js" "pat = u @ v" "js = []" for u v js
    using that
  proof (induction rule: den.induct)
    case (den_end u)
    then show ?case using assms acc_0 [of tr pat s] by auto
  next
    case (den_orend u v js)
    then obtain k where "acc tr pat s k (int (length (u @ [P_OREND])), q)" by auto
    moreover have "(int (length (u @ [P_OREND])), q) \<in> succs tr pat s (int (length u), q)"
      using den_orend succs_cmd [of pat u "P_OREND # v" tr s q] by (simp add: cmd_OrEnd add.commute)
    ultimately show ?case by (blast intro: acc_Suc)
  next
    case (den_ornext rs x u v js)
    then obtain k where "acc tr pat s k (int (length (u @ P_ORNEXT # x @ [P_OREND])), q)" by auto
    moreover have "(int (length (u @ P_ORNEXT # x @ [P_OREND])), q) \<in> succs tr pat s (int (length u), q)"
      using den_ornext succs_cmd [of pat u "P_ORNEXT # x @ P_OREND # v" tr s q] cmd_OrNext [OF den_ornext(1,2), of tr u v s q]
      by (simp add: add.commute)
    ultimately show ?case by (blast intro: acc_Suc)
  qed simp_all
  then show ?thesis by (simp add: ready_def)
qed

lemma ready_step:
  assumes "ready tr pat s is q'" "den u' v' is" "pat = u' @ v'" "(int (length u'), q') \<in> succs tr pat s c"
  shows "\<exists>k. acc tr pat s k c"
  using assms unfolding ready_def by (blast intro: acc_Suc)

lemma acc_complete:
  "matches is w \<Longrightarrow> 0 \<le> q \<Longrightarrow> q \<le> int (length s) \<Longrightarrow> w = drop (nat q) (map tr s) \<Longrightarrow> ready tr pat s is q"
proof (induction arbitrary: q rule: matches.induct)
  case Nil
  then show ?case by (intro ready_Nil) simp
next
  case (Lit "is" w c)
  then have q: "q < int (length s)" by (cases "q = int (length s)") auto
  with Lit have r: "ready tr pat s is (q + 1)" "tr (s ! nat q) = c" by (auto simp: drop_tr)
  show ?case
  proof (rule ready_item)
    fix u v assume a: "tok_ok (Lit c)" "den (u @ toks (Lit c)) v is" "pat = u @ toks (Lit c) @ v"
    show "\<exists>k. acc tr pat s k (int (length u), q)"
      using a r q Lit.prems(1) succs_cmd [of pat u "c # v" tr s q]
      by (intro ready_step [OF r(1), of "u @ [c]" v]) (simp_all add: cmd_Lit add.commute)
  qed
next
  case (Single "is" w x)
  then have q: "q < int (length s)" by (cases "q = int (length s)") auto
  with Single have r: "ready tr pat s is (q + 1)" by (auto simp: drop_tr)
  show ?case
  proof (rule ready_item)
    fix u v assume a: "den (u @ toks Single) v is" "pat = u @ toks Single @ v"
    show "\<exists>k. acc tr pat s k (int (length u), q)"
      using a q succs_cmd [of pat u "P_SINGLE # v" tr s q]
      by (intro ready_step [OF r(1), of "u @ [P_SINGLE]" v]) (simp_all add: cmd_Single add.commute)
  qed
next
  case (Any0 "is" w)
  then have r: "ready tr pat s is q" by simp
  show ?case
  proof (rule ready_item)
    fix u v assume a: "den (u @ toks AnyStr) v is" "pat = u @ toks AnyStr @ v"
    show "\<exists>k. acc tr pat s k (int (length u), q)"
      using a succs_cmd [of pat u "P_ANY # v" tr s q]
      by (intro ready_step [OF r(1), of "u @ [P_ANY]" v]) (simp_all add: cmd_AnyStr add.commute)
  qed
next
  case (Any1 "is" w x)
  then have q: "q < int (length s)" by (cases "q = int (length s)") auto
  with Any1 have r: "ready tr pat s (AnyStr # is) (q + 1)" by (auto simp: drop_tr)
  show ?case
  proof (rule ready_item)
    fix u v assume a: "den (u @ toks AnyStr) v is" "pat = u @ toks AnyStr @ v"
    then have "den u (P_ANY # v) (AnyStr # is)" by (intro den_item [of AnyStr]) simp_all
    then show "\<exists>k. acc tr pat s k (int (length u), q)"
      using a q succs_cmd [of pat u "P_ANY # v" tr s q]
      by (intro ready_step [OF r(1), of u "P_ANY # v"]) (simp_all add: cmd_AnyStr)
  qed
next
  case (Class cs x neg "is" w)
  then have q: "q < int (length s)" by (cases "q = int (length s)") auto
  with Class have r: "ready tr pat s is (q + 1)" "tr (s ! nat q) = x" by (auto simp: drop_tr)
  show ?case
  proof (rule ready_item)
    fix u v assume a: "tok_ok (Class neg cs)" "den (u @ toks (Class neg cs)) v is" "pat = u @ toks (Class neg cs) @ v"
    let ?c = "if neg then P_NOTCLASS else P_CLASS"
    have cs: "\<forall>c \<in> set cs. \<not> is_token c" and p: "pat = u @ ?c # cs @ P_CLASS # v" using a by simp_all
    have "succs tr pat s (int (length u), q) = {(int (length u + length cs + 2), q + 1)}"
      using succs_cmd [OF p, of tr s q] cmd_Class [OF cs Class.prems(1,2), of tr u neg v, folded p] q r(2) Class.hyps(1) by simp
    then show "\<exists>k. acc tr pat s k (int (length u), q)"
      using a by (intro ready_step [OF r(1), of "u @ toks (Class neg cs)" v]) simp_all
  qed
next
  case (Rep0 "is" w i)
  then have r: "ready tr pat s is q" by simp
  show ?case
  proof (rule ready_item)
    fix u v assume a: "tok_ok (Rep i)" "den (u @ toks (Rep i)) v is" "pat = u @ toks (Rep i) @ v"
    then show "\<exists>k. acc tr pat s k (int (length u), q)"
      using succs_cmd [of pat u "P_REPBEG # toks i @ P_REPEND # v" tr s q] cmd_Rep [of i tr u v s q]
      by (intro ready_step [OF r(1), of "u @ toks (Rep i)" v]) (simp_all add: add.commute)
  qed
next
  case (Rep1 i "is" w)
  then have r: "ready tr pat s (i # Rep i # is) q" by simp
  show ?case
  proof (rule ready_item)
    fix u v assume a: "tok_ok (Rep i)" "den (u @ toks (Rep i)) v is" "pat = u @ toks (Rep i) @ v"
    then have j: "tok_ok i" by simp
    have "den (u @ P_REPBEG # toks i) (P_REPEND # v) (Rep i # is)" using a(2) by (intro den_repend [OF j refl]) simp
    then have "den (u @ [P_REPBEG]) (toks i @ P_REPEND # v) (i # Rep i # is)" by (intro den_item [OF j _ refl]) simp
    then show "\<exists>k. acc tr pat s k (int (length u), q)"
      using a succs_cmd [of pat u "P_REPBEG # toks i @ P_REPEND # v" tr s q] cmd_Rep [of i tr u v s q]
      by (intro ready_step [OF r(1), of "u @ [P_REPBEG]" "toks i @ P_REPEND # v"]) (simp_all add: add.commute)
  qed
next
  case (Alts r rs "is" w)
  then have r: "ready tr pat s (r @ is) q" by simp
  show ?case
  proof (rule ready_item)
    fix u v assume a: "tok_ok (Alts rs)" "den (u @ toks (Alts rs)) v is" "pat = u @ toks (Alts rs) @ v"
    let ?x = "join_with [P_ORNEXT] (map toks_seq rs)" and ?u = "u @ [P_ORSTART]"
    have rs: "\<forall>r \<in> set rs. seq_ok r" "rs \<noteq> []" using a(1) tok_ok_Alts by auto
    have p: "pat = u @ P_ORSTART # ?x @ P_OREND # v" and d: "den (?u @ ?x @ [P_OREND]) v is"
      using a(2,3) unfolding toks_Alts by simp_all
    have sc: "succs tr pat s (int (length u), q) =
      insert (int (length ?u), q) ((\<lambda>p. (p, q)) ` set (alt_pos (int (length ?u)) (map toks_seq rs)))"
      using succs_cmd [OF p, of tr s q] cmd_Alts [OF rs, of tr u v s q, folded p] by (simp add: image_image)
    note D = den_alts [OF rs d]
    from bspec [OF conjunct2 [OF conjunct2 [OF D]] Alts.hyps(1)] show "\<exists>k. acc tr pat s k (int (length u), q)"
    proof (elim disjE exE conjE)
      assume h: "r = hd rs"
      show ?thesis
      proof (rule ready_step [OF r conjunct1 [OF D, folded h]])
        show "pat = ?u @ ?x @ P_OREND # v" using p by simp
        show "(int (length ?u), q) \<in> succs tr pat s (int (length u), q)" unfolding sc by (rule insertI1)
      qed
    next
      fix u' v' assume h: "int (length u') \<in> set (alt_pos (int (length ?u)) (map toks_seq rs))"
        "u' @ v' = ?u @ ?x @ P_OREND # v" "den u' v' (r @ is)"
      show ?thesis
      proof (rule ready_step [OF r h(3)])
        show "pat = u' @ v'" using p h(2) by simp
        show "(int (length u'), q) \<in> succs tr pat s (int (length u), q)" unfolding sc using h(1) by blast
      qed
    qed
  qed
qed

subsection \<open>The search of the matcher\<close>

text \<open>What the search has not come back to loses no solution: every position of \<open>C\<close> with a way to the end
  has a position of the frontier with a way that is not longer.\<close>

definition covered :: "(nat \<Rightarrow> 'c \<Rightarrow> bool) \<Rightarrow> 'c set \<Rightarrow> 'c set \<Rightarrow> bool" where
  "covered ac C F \<longleftrightarrow> (\<forall>h \<in> C. \<forall>k. ac k h \<longrightarrow> (\<exists>f \<in> F. \<exists>m \<le> k. ac m f))"

lemma covered_step:
  assumes "covered (acc tr pat s) C (insert c F)" "succs tr pat s c \<subseteq> F' \<union> C" "F \<subseteq> F'" "\<not> acc tr pat s 0 c"
  shows "covered (acc tr pat s) C F'"
proof -
  have "\<exists>f \<in> F'. \<exists>m \<le> k. acc tr pat s m f" if "h \<in> C" "acc tr pat s k h" for h k
    using that
  proof (induction k arbitrary: h rule: less_induct)
    case (less k)
    from assms(1) less.prems obtain f m where f: "f \<in> insert c F" "m \<le> k" "acc tr pat s m f" unfolding covered_def by blast
    show ?case
    proof (cases "f \<in> F")
      case True
      with f assms(3) show ?thesis by blast
    next
      case False
      with f(1,3) assms(4) obtain j c' where j: "m = Suc j" "c' \<in> succs tr pat s c" "acc tr pat s j c'"
        by (cases m) (auto elim: acc_SucE)
      show ?thesis
      proof (cases "c' \<in> F'")
        case True
        with j f(2) show ?thesis by (intro bexI [of _ c'] exI [of _ j]) simp_all
      next
        case False
        with j(2) assms(2) have "c' \<in> C" by blast
        from less.IH [OF _ this j(3)] j(1) f(2) obtain f' m' where "f' \<in> F'" "m' \<le> j" "acc tr pat s m' f'" by auto
        with j(1) f(2) show ?thesis by (intro bexI [of _ f'] exI [of _ m']) simp_all
      qed
    qed
  qed
  then show ?thesis by (simp add: covered_def)
qed

lemma covered_insert: "covered ac C F \<Longrightarrow> c \<in> F \<Longrightarrow> covered ac (insert c C) F"
  by (auto simp: covered_def)

lemma fold_push:
  "fold ms_push ms M = M\<lparr>ms_stack := ms_stack M @ filter (\<lambda>m. m \<notin> set (ms_history M)) ms\<rparr>"
  by (induction ms arbitrary: M) (simp_all add: ms_push_def)

text \<open>The markers of a run: none is for a negation, and all name positions of the pattern.\<close>

definition at_pos :: "string \<Rightarrow> string \<Rightarrow> int \<times> int \<Rightarrow> bool" where
  "at_pos pat s c \<longleftrightarrow> (\<exists>u v is. fst c = int (length u) \<and> pat = u @ v \<and> den u v is) \<and> 0 \<le> snd c \<and> snd c \<le> int (length s)"

definition marker_ok :: "string \<Rightarrow> string \<Rightarrow> marker \<Rightarrow> bool" where
  "marker_ok pat s m \<longleftrightarrow> \<not> mk_flag m \<and> at_pos pat s (marker_pos m)"

definition cur_pos :: "match_state \<Rightarrow> int \<times> int" where
  "cur_pos st = (mt_pat st, mt_str st)"

definition stack_pos :: "match_state \<Rightarrow> (int \<times> int) set" where
  "stack_pos st = marker_pos ` set (ms_stack (mt_marks st))"

definition hist_pos :: "match_state \<Rightarrow> (int \<times> int) set" where
  "hist_pos st = marker_pos ` set (ms_history (mt_marks st))"

definition match_inv :: "(char \<Rightarrow> char) \<Rightarrow> string \<Rightarrow> string \<Rightarrow> match_state \<Rightarrow> bool" where
  "match_inv tr pat s st \<longleftrightarrow> at_pos pat s (cur_pos st) \<and>
     (\<forall>m \<in> set (ms_stack (mt_marks st)) \<union> set (ms_history (mt_marks st)). marker_ok pat s m) \<and>
     covered (acc tr pat s) (insert (0, 0) (hist_pos st)) (insert (cur_pos st) (stack_pos st)) \<and>
     (\<forall>c \<in> insert (cur_pos st) (stack_pos st). (\<exists>k. acc tr pat s k c) \<longrightarrow> (\<exists>k. acc tr pat s k (0, 0)))"

text \<open>Each round lowers the number of markers not seen, or, coming back to one already seen, leaves
  fewer of them or an unseen one on top, or moves on between two markers.\<close>

definition all_markers :: "string \<Rightarrow> string \<Rightarrow> marker set" where
  "all_markers pat s = (\<lambda>(p, q). plain_marker p q) ` ({0..int (length pat)} \<times> {0..int (length s)})"

definition top_rank :: "marker_stack \<Rightarrow> nat" where
  "top_rank ms = (if ms_stack ms \<noteq> [] \<and> last (ms_stack ms) \<notin> set (ms_history ms) then 0 else Suc (length (ms_stack ms)))"

definition match_measure :: "string \<Rightarrow> string \<Rightarrow> (match_state \<times> match_state) set" where
  "match_measure pat s = inv_image (less_than <*lex*> less_than <*lex*> less_than <*lex*> less_than)
     (\<lambda>st. (card (all_markers pat s - set (ms_history (mt_marks st))), top_rank (mt_marks st),
       nat (int (length s) - mt_str st), nat (prank pat (mt_pat st))))"

lemma wf_match_measure: "wf (match_measure pat s)"
  unfolding match_measure_def by (intro wf_inv_image wf_lex_prod wf_less_than)

lemma marker_ok_all: "marker_ok pat s m \<Longrightarrow> m \<in> all_markers pat s"
proof -
  assume "marker_ok pat s m"
  then have "m = plain_marker (mk_pat m) (mk_str m)" "mk_pat m \<in> {0..int (length pat)}" "mk_str m \<in> {0..int (length s)}"
    by (auto simp: marker_ok_def at_pos_def marker_pos_def)
  then show ?thesis unfolding all_markers_def by (intro image_eqI [of _ _ "(mk_pat m, mk_str m)"]) simp_all
qed

lemma finite_all_markers [simp]: "finite (all_markers pat s)"
  by (simp add: all_markers_def)

text \<open>Trying the next marker, after a step from \<open>st\<close> that pushed to \<open>ms\<close>.\<close>

lemma next_marker_ok:
  assumes "\<forall>m \<in> set (ms_stack ms) \<union> set (ms_history ms). marker_ok pat s m"
    and "covered (acc tr pat s) (insert (0, 0) (marker_pos ` set (ms_history ms))) (marker_pos ` set (ms_stack ms))"
    and "\<forall>c \<in> marker_pos ` set (ms_stack ms). (\<exists>k. acc tr pat s k c) \<longrightarrow> (\<exists>k. acc tr pat s k (0, 0))"
    and "ms_history ms = ms_history (mt_marks st)" "top_rank ms \<le> top_rank (mt_marks st)"
  shows "case next_marker n ms of
      Return b \<Rightarrow> \<not> b \<and> (\<nexists>k. acc tr pat s k (0, 0))
    | Next st' \<Rightarrow> match_inv tr pat s st' \<and> (st', st) \<in> match_measure pat s"
proof (cases "ms_stack ms" rule: rev_cases)
  case Nil
  then show ?thesis using assms(2) by (auto simp: next_marker_def ms_pop_def covered_def)
next
  case (snoc ys m)
  define ms' where "ms' = ms\<lparr>ms_stack := ys, ms_history := ms_history ms @ [m]\<rparr>"
  define st' where "st' = \<lparr>mt_pat = mk_pat m, mt_str = mk_str m, mt_marks = ms'\<rparr>"
  have m: "marker_ok pat s m" "\<not> mk_flag m" using assms(1) snoc by (auto simp: marker_ok_def)
  then have nm: "next_marker n ms = Next st'" using snoc by (simp add: next_marker_def ms_pop_def st'_def ms'_def Let_def)
  have c: "cur_pos st' = marker_pos m" by (simp add: cur_pos_def st'_def marker_pos_def)
  have F: "insert (cur_pos st') (stack_pos st') = marker_pos ` set (ms_stack ms)"
    unfolding c by (simp add: stack_pos_def st'_def ms'_def snoc)
  have C: "insert (0, 0) (hist_pos st') = insert (marker_pos m) (insert (0, 0) (marker_pos ` set (ms_history ms)))"
    by (auto simp: hist_pos_def st'_def ms'_def)
  have "match_inv tr pat s st'"
    unfolding match_inv_def F C
  proof (intro conjI)
    show "at_pos pat s (cur_pos st')" using m unfolding c by (simp add: marker_ok_def)
    show "\<forall>m \<in> set (ms_stack (mt_marks st')) \<union> set (ms_history (mt_marks st')). marker_ok pat s m"
      using assms(1) snoc by (auto simp: st'_def ms'_def)
    show "covered (acc tr pat s) (insert (marker_pos m) (insert (0, 0) (marker_pos ` set (ms_history ms)))) (marker_pos ` set (ms_stack ms))"
      by (rule covered_insert [OF assms(2)]) (simp add: snoc)
    show "\<forall>c \<in> marker_pos ` set (ms_stack ms). (\<exists>k. acc tr pat s k c) \<longrightarrow> (\<exists>k. acc tr pat s k (0, 0))" by (rule assms(3))
  qed
  moreover have "(st', st) \<in> match_measure pat s"
  proof (cases "m \<in> set (ms_history ms)")
    case True
    then have "top_rank ms = Suc (Suc (length ys))" by (simp add: top_rank_def snoc)
    moreover have "top_rank ms' \<le> Suc (length ys)" by (simp add: top_rank_def ms'_def)
    moreover have "set (ms_history ms') = set (ms_history (mt_marks st))" using True assms(4) by (auto simp: ms'_def)
    ultimately show ?thesis using assms(5) by (simp add: match_measure_def st'_def)
  next
    case False
    have "all_markers pat s - set (ms_history ms') \<subset> all_markers pat s - set (ms_history (mt_marks st))"
      using False marker_ok_all [OF m(1)] assms(4) by (auto simp: ms'_def)
    then have "card (all_markers pat s - set (ms_history ms')) < card (all_markers pat s - set (ms_history (mt_marks st)))"
      by (rule psubset_card_mono [OF finite_Diff [OF finite_all_markers]])
    then show ?thesis by (simp add: match_measure_def st'_def)
  qed
  ultimately show ?thesis using nm by simp
qed

lemma match_step_ok:
  assumes inv: "match_inv tr pat s st"
  shows "\<exists>r. match_step tr pat s st = Inr r \<and>
    (case r of
       Return b \<Rightarrow> (b \<longleftrightarrow> (\<exists>k. acc tr pat s k (0, 0)))
     | Next st' \<Rightarrow> match_inv tr pat s st' \<and> (st', st) \<in> match_measure pat s)"
proof -
  let ?n = "int (length s)" and ?ms = "mt_marks st" and ?q = "mt_str st"
  define C where "C = insert (0, 0) (marker_pos ` set (ms_history ?ms))"
  have mk: "\<forall>m \<in> set (ms_stack ?ms) \<union> set (ms_history ?ms). marker_ok pat s m"
    and cov: "covered (acc tr pat s) C (insert (cur_pos st) (stack_pos st))"
    and snd: "\<forall>c \<in> insert (cur_pos st) (stack_pos st). (\<exists>k. acc tr pat s k c) \<longrightarrow> (\<exists>k. acc tr pat s k (0, 0))"
    and at: "at_pos pat s (cur_pos st)" using inv by (simp_all add: match_inv_def C_def hist_pos_def)
  from at obtain u v js where u: "mt_pat st = int (length u)" "pat = u @ v" "den u v js" "0 \<le> ?q" "?q \<le> ?n"
    by (auto simp: at_pos_def cur_pos_def)
  have cp: "cur_pos st = (int (length u), ?q)" by (simp add: cur_pos_def u(1))
  show ?thesis
  proof (cases "v = []")
    case True
    then have e: "\<not> mt_pat st < int (length pat)" using u by simp
    show ?thesis
    proof (cases "?q = ?n")
      case True
      have "acc tr pat s 0 (cur_pos st)" using True e u \<open>v = []\<close> by (simp add: acc_0_iff cp)
      with snd have "\<exists>k. acc tr pat s k (0, 0)" by blast
      with True e show ?thesis by (simp add: match_step_def)
    next
      case False
      then have st: "match_step tr pat s st = Inr (next_marker ?n ?ms)" using e by (simp add: match_step_def)
      have "covered (acc tr pat s) C (stack_pos st)"
        by (rule covered_step [OF cov]) (use False u \<open>v = []\<close> in \<open>auto simp: acc_0_iff cp succs_def\<close>)
      then have "case next_marker ?n ?ms of Return b \<Rightarrow> \<not> b \<and> (\<nexists>k. acc tr pat s k (0, 0))
          | Next st' \<Rightarrow> match_inv tr pat s st' \<and> (st', st) \<in> match_measure pat s"
        using mk snd by (intro next_marker_ok) (simp_all add: stack_pos_def C_def)
      with st show ?thesis by (auto split: outcome.splits)
    qed
  next
    case False
    note P = plain_ok [OF u(3,2) False u(4,5), of tr]
    from P obtain nx ms where p: "plain_cmd tr pat s (hd v) (int (length u)) ?q = Inr (nx, ms)"
      "cmd_ok tr pat s js (int (length u)) ?q nx ms" by blast
    have h: "hd v \<noteq> P_NOT" "hd v \<noteq> P_NOTEND" "hd v \<noteq> CHR 0x00" using P by blast+
    have g: "py_get pat (mt_pat st) = Inr (hd v)" "mt_pat st < int (length pat)"
      using u(1,2) False py_get_mid [of u "hd v" "tl v"] by simp_all
    note sc = succs_cmd [OF u(2) False p(1), folded cp]
    define M where "M = fold ms_push ms ?ms"
    have Mh: "ms_history M = ms_history ?ms" and Ms: "set (ms_stack M) = set (ms_stack ?ms) \<union> (set ms - set (ms_history ?ms))"
      by (auto simp: M_def fold_push)
    have lead: "at_pos pat s c" if "leads tr pat s js ?q c" for c
    proof -
      from that obtain u' v' js' where l: "c = (int (length u'), snd c)" "pat = u' @ v'" "den u' v' js'" "?q \<le> snd c" "snd c \<le> ?n"
        unfolding leads_def by blast
      from arg_cong [OF l(1), of fst] have "fst c = int (length u')" by simp
      with l u(4) show ?thesis unfolding at_pos_def by (intro conjI exI [of _ u'] exI [of _ v'] exI [of _ js']) simp_all
    qed
    have "marker_ok pat s m" if "m \<in> set ms" for m
      using p(2) lead [of "marker_pos m"] that unfolding cmd_ok_def marker_ok_def by blast
    then have mkM: "\<forall>m \<in> set (ms_stack M) \<union> set (ms_history M). marker_ok pat s m"
      using mk by (auto simp: Mh Ms)
    have "\<not> acc tr pat s 0 (cur_pos st)" using g(2) by (simp add: acc_0_iff cur_pos_def)
    note cs = covered_step [OF cov _ _ this]
    have sound: "\<exists>k. acc tr pat s k (0, 0)" if "c \<in> succs tr pat s (cur_pos st)" "acc tr pat s k c" for c k
      using snd acc_Suc [OF that] by blast
    have sM: "\<forall>c \<in> marker_pos ` set (ms_stack M). (\<exists>k. acc tr pat s k c) \<longrightarrow> (\<exists>k. acc tr pat s k (0, 0))"
    proof (intro ballI impI)
      fix c assume c: "c \<in> marker_pos ` set (ms_stack M)" "\<exists>k. acc tr pat s k c"
      have "marker_pos ` set (ms_stack M) \<subseteq> stack_pos st \<union> succs tr pat s (cur_pos st)"
        unfolding Ms sc stack_pos_def by blast
      with c(1) have "c \<in> stack_pos st \<or> c \<in> succs tr pat s (cur_pos st)" by blast
      with c(2) snd sound show "\<exists>k. acc tr pat s k (0, 0)" by blast
    qed
    have tM: "top_rank M \<le> top_rank ?ms"
    proof (cases "filter (\<lambda>m. m \<notin> set (ms_history ?ms)) ms = []")
      case False
      from last_in_set [OF this] have "last (filter (\<lambda>m. m \<notin> set (ms_history ?ms)) ms) \<notin> set (ms_history ?ms)" by simp
      with False show ?thesis by (simp add: top_rank_def M_def fold_push)
    qed (simp add: top_rank_def M_def fold_push)
    have st: "match_step tr pat s st = Inr (case nx of None \<Rightarrow> next_marker ?n M | Some (p', q') \<Rightarrow> Next \<lparr>mt_pat = p', mt_str = q', mt_marks = M\<rparr>)"
      unfolding M_def using g h p(1) u(1) by (simp add: match_step_def Let_def)
    show ?thesis
    proof (cases nx)
      case None
      have "covered (acc tr pat s) C (marker_pos ` set (ms_stack M))"
        by (rule cs) (auto simp: sc None C_def Ms stack_pos_def)
      then have "case next_marker ?n M of Return b \<Rightarrow> \<not> b \<and> (\<nexists>k. acc tr pat s k (0, 0))
          | Next st' \<Rightarrow> match_inv tr pat s st' \<and> (st', st) \<in> match_measure pat s"
        using mkM sM Mh tM by (intro next_marker_ok) (simp_all add: C_def)
      with st None show ?thesis by (auto split: outcome.splits)
    next
      case (Some c)
      define st' where "st' = \<lparr>mt_pat = fst c, mt_str = snd c, mt_marks = M\<rparr>"
      have c: "cur_pos st' = c" by (simp add: cur_pos_def st'_def)
      have cl: "leads tr pat s js ?q c" "below pat (int (length u), ?q) c" using p(2) Some by (simp_all add: cmd_ok_def)
      have cv: "covered (acc tr pat s) C (insert c (marker_pos ` set (ms_stack M)))"
        by (rule cs) (auto simp: sc Some C_def Ms stack_pos_def)
      have e: "insert (0, 0) (hist_pos st') = C" "stack_pos st' = marker_pos ` set (ms_stack M)" "mt_marks st' = M"
        by (simp_all add: hist_pos_def stack_pos_def st'_def Mh C_def)
      have "c \<in> succs tr pat s (cur_pos st)" unfolding sc by (simp add: Some)
      then have "\<forall>c' \<in> insert c (marker_pos ` set (ms_stack M)). (\<exists>k. acc tr pat s k c') \<longrightarrow> (\<exists>k. acc tr pat s k (0, 0))"
        using sM sound by blast
      then have "match_inv tr pat s st'" unfolding match_inv_def c e using lead [OF cl(1)] mkM cv by (intro conjI)
      moreover have "(st', st) \<in> match_measure pat s"
      proof -
        from lead [OF cl(1)] have "0 \<le> prank pat (fst c)" "snd c \<le> ?n" by (auto simp: at_pos_def intro!: prank_nonneg)
        with cl(2) tM Mh show ?thesis by (auto simp: match_measure_def st'_def below_def u(1))
      qed
      ultimately show ?thesis using st Some by (simp add: st'_def split: prod.splits)
    qed
  qed
qed

lemma match_loop_ok:
  "match_inv tr pat s st \<Longrightarrow> match_loop tr pat s st = Some (Inr (\<exists>k. acc tr pat s k (0, 0)))"
proof (induction st rule: wf_induct [OF wf_match_measure [of pat s]])
  case (1 st)
  from match_step_ok [OF 1(2)] obtain r where r: "match_step tr pat s st = Inr r"
    "case r of Return b \<Rightarrow> (b \<longleftrightarrow> (\<exists>k. acc tr pat s k (0, 0)))
     | Next st' \<Rightarrow> match_inv tr pat s st' \<and> (st', st) \<in> match_measure pat s" by blast
  show ?case
  proof (cases r)
    case (Next st')
    with r 1(1) show ?thesis by (subst match_loop.simps) simp
  next
    case (Return b)
    with r show ?thesis by (subst match_loop.simps) simp
  qed
qed

lemma match_toks:
  assumes "seq_ok is"
  shows "match_loop tr (toks_seq is) s \<lparr>mt_pat = 0, mt_str = 0, mt_marks = ms_init\<rparr> = Some (Inr (matches is (map tr s)))"
proof -
  let ?pat = "toks_seq is" and ?st = "\<lparr>mt_pat = 0, mt_str = 0, mt_marks = ms_init\<rparr>"
  have d: "den [] ?pat is" using den_seq [OF assms, of "[]" "[]" "[]"] by (simp add: den_end)
  then have "at_pos ?pat s (0, 0)" by (auto simp: at_pos_def)
  then have "match_inv tr ?pat s ?st" by (auto simp: match_inv_def cur_pos_def stack_pos_def hist_pos_def ms_init_def covered_def)
  from match_loop_ok [OF this] have "match_loop tr ?pat s ?st = Some (Inr (\<exists>k. acc tr ?pat s k (0, 0)))" .
  moreover have "(\<exists>k. acc tr ?pat s k (0, 0)) \<longleftrightarrow> matches is (map tr s)"
  proof
    assume "\<exists>k. acc tr ?pat s k (0, 0)"
    then obtain k where "acc tr ?pat s k (0, 0)" by blast
    from acc_sound [OF this, of "[]" 0 ?pat "is"] d show "matches is (map tr s)" by simp
  next
    assume "matches is (map tr s)"
    from acc_complete [OF this, of 0 s tr ?pat] d show "\<exists>k. acc tr ?pat s k (0, 0)" by (force simp: ready_def)
  qed
  ultimately show ?thesis by simp
qed

subsection \<open>Properties\<close>

abbreviation folded_items :: "bool \<Rightarrow> char item list \<Rightarrow> char item list" where
  "folded_items ic is \<equiv> map (map_item (case_tr ic)) is"

lemma parse_src:
  assumes "\<forall>i \<in> set is. src_ok i"
  shows "parse_loop (case_tr ic) star (src_seq is @ cs) ([], [], False) =
    parse_loop (case_tr ic) star cs (toks_seq (folded_items ic is), [], \<exists>i \<in> set is. wild_item i)"
proof -
  have "pop_non_or [] = Pair []" by (rule ext) simp
  moreover have "\<forall>i \<in> set is. parses ic star i" using assms parses_item by blast
  ultimately show ?thesis using parses_seq [of "is" ic star "[]" cs "[]" False] by (simp add: src_seq_def toks_seq_def o_def)
qed

text \<open>C38: the source text of a pattern without negations (quoted characters, \<open>?\<close>, \<open>#?\<close>, classes, repetitions
  and alternatives, nested in any way) is parsed to the tokens of its term, letters folded to lower
  case on request, and has a wildcard exactly when the term is not just characters. The same source
  with a single quote behind it raises \<open>TypeError\<close>.\<close>

theorem pattern_parse_correct:
  assumes "\<forall>i \<in> set is. src_ok i"
  shows "pattern_parse (src_seq is) ic star = Inr (Some \<lparr>pn_src = src_seq is, pn_pat = toks_seq (folded_items ic is),
      pn_ignore = ic, pn_wild = (\<exists>i \<in> set is. wild_item i)\<rparr>) \<and>
    pattern_parse (src_seq is @ [CHR 0x27]) ic star = Inl TypeError"
  using parse_src [OF assms, of ic star "[]"] parse_src [OF assms, of ic star "[CHR 0x27]"]
  by (simp add: pattern_parse_def parse_step_def)

theorem pattern_parse_correct_witness:
  "pattern_parse ''#(a|b?)[x-z]'' True False =
     Inr (Some \<lparr>pn_src = ''#(a|b?)[x-z]'',
       pn_pat = [P_REPBEG, P_ORSTART, CHR ''a'', P_ORNEXT, CHR ''b'', P_SINGLE, P_OREND, P_REPEND, P_CLASS] @ ''x-z'' @ [P_CLASS],
       pn_ignore = True, pn_wild = True\<rparr>)"
proof -
  let ?is = "[Rep (Alts [[Lit (CHR ''a'')], [Lit (CHR ''b''), Single]]), Class False ''x-z'']"
  have ok: "\<forall>i \<in> set ?is. src_ok i" by (simp add: starts_with_def)
  have s: "src_seq ?is = ''#(a|b?)[x-z]''" by (simp add: src_seq_def quotable_def)
  have "toks_seq (folded_items True ?is) =
      [P_REPBEG, P_ORSTART, CHR ''a'', P_ORNEXT, CHR ''b'', P_SINGLE, P_OREND, P_REPEND, P_CLASS] @ ''x-z'' @ [P_CLASS]"
    by (simp add: toks_seq_def case_tr_def latin1_lower_def)
  with pattern_parse_correct [OF ok, of True False] show ?thesis unfolding s by simp
qed

text \<open>C5: matching a parsed pattern without negations against a string always returns, raises nothing,
  and answers whether the string is in the language of the pattern, letters folded on both sides:
  the search over markers agrees with the declarative meaning of repetitions and alternatives.\<close>

theorem pattern_match_correct:
  assumes "\<forall>i \<in> set is. src_ok i" and "seq_ok (folded_items ic is)"
  shows "\<exists>p. pattern_parse (src_seq is) ic star = Inr (Some p) \<and>
    pattern_match p s = Some (Inr (matches (folded_items ic is) (map (case_tr ic) s)))"
proof -
  have "parse_loop (case_tr ic) star (src_seq is) ([], [], False) = Inr (Some (toks_seq (folded_items ic is), [], \<exists>i \<in> set is. wild_item i))"
    using parse_src [OF assms(1), of ic star "[]"] by simp
  then show ?thesis using match_toks [OF assms(2)] by (simp add: pattern_parse_def pattern_match_def)
qed

theorem pattern_match_correct_witness:
  "\<exists>p. pattern_parse ''#?.info'' True False = Inr (Some p) \<and> pattern_match p ''Disk.INFO'' = Some (Inr True)"
proof -
  let ?is = "AnyStr # map Lit ''.info''"
  have "matches (AnyStr # map Lit ''.info'') ''disk.info''"
    by (rule matches.Any1, rule matches.Any1, rule matches.Any1, rule matches.Any1, rule matches.Any0)
      (simp add: matches.Lit matches.Nil)
  moreover have "folded_items True ?is = AnyStr # map Lit ''.info''" by (simp add: case_tr_def latin1_lower_def)
  moreover have "map (case_tr True) ''Disk.INFO'' = ''disk.info''" by code_simp
  moreover have "src_seq ?is = ''#?.info''" by (simp add: src_seq_def quotable_def)
  moreover have "\<forall>i \<in> set ?is. src_ok i" "seq_ok (AnyStr # map Lit ''.info'')" by (simp_all add: seq_ok_def is_token_def)
  ultimately show ?thesis using pattern_match_correct [of ?is True False "''Disk.INFO''"] by (simp only:)
qed

end
