(* ===== verification/Hunk_Blocks.thy ===== *)
theory Hunk_Blocks
  imports Py_Bytes
begin

text \<open>
  The blocks of AmigaOS hunk files (\<open>amitools/binfmt/hunk/HunkBlockFile.py\<close>, constants of \<open>Hunk.py\<close>): one constructor per
  block class, with the parsing and the writing of each block and of the whole file. A file object is its position and the
  bytes from there on; what is written is the list of bytes. A name that is the text \<open>""\<close> in Python is the empty byte string
  here, and a name that is None is None.
\<close>

unbundle bit_operations_syntax

subsection \<open>Constants\<close>

definition HUNK_UNIT :: int where "HUNK_UNIT = 999"
definition HUNK_NAME :: int where "HUNK_NAME = 1000"
definition HUNK_CODE :: int where "HUNK_CODE = 1001"
definition HUNK_DATA :: int where "HUNK_DATA = 1002"
definition HUNK_BSS :: int where "HUNK_BSS = 1003"
definition HUNK_ABSRELOC32 :: int where "HUNK_ABSRELOC32 = 1004"
definition HUNK_RELRELOC16 :: int where "HUNK_RELRELOC16 = 1005"
definition HUNK_RELRELOC8 :: int where "HUNK_RELRELOC8 = 1006"
definition HUNK_EXT :: int where "HUNK_EXT = 1007"
definition HUNK_SYMBOL :: int where "HUNK_SYMBOL = 1008"
definition HUNK_DEBUG :: int where "HUNK_DEBUG = 1009"
definition HUNK_END :: int where "HUNK_END = 1010"
definition HUNK_HEADER :: int where "HUNK_HEADER = 1011"
definition HUNK_OVERLAY :: int where "HUNK_OVERLAY = 1013"
definition HUNK_BREAK :: int where "HUNK_BREAK = 1014"
definition HUNK_DREL32 :: int where "HUNK_DREL32 = 1015"
definition HUNK_DREL16 :: int where "HUNK_DREL16 = 1016"
definition HUNK_DREL8 :: int where "HUNK_DREL8 = 1017"
definition HUNK_LIB :: int where "HUNK_LIB = 1018"
definition HUNK_INDEX :: int where "HUNK_INDEX = 1019"
definition HUNK_RELOC32SHORT :: int where "HUNK_RELOC32SHORT = 1020"
definition HUNK_RELRELOC32 :: int where "HUNK_RELRELOC32 = 1021"
definition HUNK_PPC_CODE :: int where "HUNK_PPC_CODE = 1257"
definition EXT_ABSCOMMON :: int where "EXT_ABSCOMMON = 130"

lemmas hunk_ids = HUNK_UNIT_def HUNK_NAME_def HUNK_CODE_def HUNK_DATA_def HUNK_BSS_def HUNK_ABSRELOC32_def HUNK_RELRELOC16_def
  HUNK_RELRELOC8_def HUNK_EXT_def HUNK_SYMBOL_def HUNK_DEBUG_def HUNK_END_def HUNK_HEADER_def HUNK_OVERLAY_def HUNK_BREAK_def
  HUNK_DREL32_def HUNK_DREL16_def HUNK_DREL8_def HUNK_LIB_def HUNK_INDEX_def HUNK_RELOC32SHORT_def HUNK_RELRELOC32_def HUNK_PPC_CODE_def

definition TYPE_UNKNOWN :: int where "TYPE_UNKNOWN = 0"
definition TYPE_LOADSEG :: int where "TYPE_LOADSEG = 1"
definition TYPE_UNIT :: int where "TYPE_UNIT = 2"
definition TYPE_LIB :: int where "TYPE_LIB = 3"

subsection \<open>Data\<close>

type_synonym hname = "byte list option"

record ext_entry =
  ee_name :: hname
  ee_type :: int
  ee_value :: "int option"
  ee_bss :: "int option"
  ee_refs :: "int list option"

record index_def =
  xd_name :: int
  xd_value :: int
  xd_ctype :: int

record index_hunk =
  xh_name :: int
  xh_longs :: int
  xh_ctype :: int
  xh_refs :: "int list"
  xh_defs :: "index_def list"

record index_unit =
  xu_name :: int
  xu_first :: int
  xu_hunks :: "index_hunk list"

text \<open>The segment and the relocation classes serve several block types and carry theirs.\<close>

datatype hunk_block =
    HeaderB "byte list list" int int int "int list"
  | SegmentB int "byte list option" int
  | RelocLongB int "(int \<times> int list) list"
  | RelocWordB int "(int \<times> int list) list"
  | EndB
  | OverlayB "byte list option"
  | BreakB
  | DebugB "byte list option"
  | SymbolB "(hname \<times> int) list"
  | UnitB hname
  | NameB hname
  | ExtB "ext_entry list"
  | LibB "hunk_block list" "int list"
  | IndexB "byte list option" "index_unit list"

fun blk_id :: "hunk_block \<Rightarrow> int" where
  "blk_id (HeaderB _ _ _ _ _) = HUNK_HEADER"
| "blk_id (SegmentB i _ _) = i"
| "blk_id (RelocLongB i _) = i"
| "blk_id (RelocWordB i _) = i"
| "blk_id EndB = HUNK_END"
| "blk_id (OverlayB _) = HUNK_OVERLAY"
| "blk_id BreakB = HUNK_BREAK"
| "blk_id (DebugB _) = HUNK_DEBUG"
| "blk_id (SymbolB _) = HUNK_SYMBOL"
| "blk_id (UnitB _) = HUNK_UNIT"
| "blk_id (NameB _) = HUNK_NAME"
| "blk_id (ExtB _) = HUNK_EXT"
| "blk_id (LibB _ _) = HUNK_LIB"
| "blk_id (IndexB _ _) = HUNK_INDEX"

subsection \<open>Reading a file object\<close>

type_synonym fobj = "int \<times> byte list"

definition f_read :: "int \<Rightarrow> fobj \<Rightarrow> byte list \<times> fobj" where
  "f_read n f = (let d = take (nat n) (snd f) in (d, (fst f + int (length d), drop (nat n) (snd f))))"

definition read_long :: "fobj \<Rightarrow> (int \<times> fobj) res" where
  "read_long f = (let (d, f') = f_read 4 f in if length d \<noteq> 4 then Inl HunkParseError else Inr (be_int d, f'))"

definition read_word :: "fobj \<Rightarrow> (int \<times> fobj) res" where
  "read_word f = (let (d, f') = f_read 2 f in if length d \<noteq> 2 then Inl HunkParseError else Inr (be_int d, f'))"

definition read_name_size :: "int \<Rightarrow> fobj \<Rightarrow> ((int \<times> hname) \<times> fobj) res" where
  "read_name_size num_longs f =
     (let size = (num_longs AND 0xFFFFFF) * 4; (d, f') = f_read size f
      in if int (length d) < size then Inr ((-1, None), f')
         else if 0 \<notin> set d then Inr ((size, Some d), f')
         else if hd d = 0 then Inr ((0, Some []), f')
         else Inr ((size, Some (takeWhile (\<lambda>b. b \<noteq> 0) d)), f'))"

definition read_name :: "fobj \<Rightarrow> ((int \<times> hname) \<times> fobj) res" where
  "read_name f = rbind (read_long f) (\<lambda>(n, f'). if n = 0 then Inr ((0, Some []), f') else read_name_size n f')"

text \<open>A loop over a counter, and a loop that ends when an item says so. Every item of such a loop reads at least one byte
  (lemma \<open>read_until_step\<close>), so the last branch is never taken.\<close>

fun read_n :: "nat \<Rightarrow> (fobj \<Rightarrow> ('a \<times> fobj) res) \<Rightarrow> fobj \<Rightarrow> ('a list \<times> fobj) res" where
  "read_n 0 item f = Inr ([], f)"
| "read_n (Suc n) item f = rbind (item f) (\<lambda>(x, f'). rbind (read_n n item f') (\<lambda>(xs, f''). Inr (x # xs, f'')))"

function read_until :: "(fobj \<Rightarrow> ('a option \<times> fobj) res) \<Rightarrow> fobj \<Rightarrow> ('a list \<times> fobj) res" where
  "read_until item f = (case item f of
     Inl e \<Rightarrow> Inl e
   | Inr (None, f') \<Rightarrow> Inr ([], f')
   | Inr (Some x, f') \<Rightarrow>
       if length (snd f') < length (snd f) then rbind (read_until item f') (\<lambda>(xs, f''). Inr (x # xs, f'')) else Inl RuntimeError)"
  by pat_completeness auto
termination by (relation "measure (\<lambda>(item, f). length (snd f))") auto

declare read_until.simps [simp del]

subsection \<open>Writing\<close>

definition write_long :: "int \<Rightarrow> byte list res" where "write_long v = pack_u 4 v"
definition write_word :: "int \<Rightarrow> byte list res" where "write_word v = pack_u 2 v"

text \<open>Writing one thing after another.\<close>

fun write_seq :: "byte list res list \<Rightarrow> byte list res" where
  "write_seq [] = Inr []"
| "write_seq (w # ws) = rbind w (\<lambda>a. rbind (write_seq ws) (\<lambda>b. Inr (a @ b)))"

definition write_name :: "hname \<Rightarrow> int option \<Rightarrow> byte list res" where
  "write_name s tag = (case s of None \<Rightarrow> Inl TypeError | Some s \<Rightarrow>
     (let num_longs = (int (length s) + 3) div 4; b = s @ replicate (nat (num_longs * 4) - length s) 0
      in write_seq [write_long (case tag of None \<Rightarrow> num_longs | Some t \<Rightarrow> num_longs OR (push_bit 24 t)), Inr b]))"

definition write_opt_long :: "int option \<Rightarrow> byte list res" where
  "write_opt_long v = (case v of None \<Rightarrow> Inl StructError | Some v \<Rightarrow> write_long v)"

definition write_bytes :: "byte list option \<Rightarrow> byte list res" where
  "write_bytes d = (case d of None \<Rightarrow> Inl TypeError | Some d \<Rightarrow> Inr d)"

subsection \<open>The blocks\<close>

text \<open>\<open>HunkHeaderBlock\<close>. The numbers read are never negative, so the tests for that are left out.\<close>

definition name_item :: "fobj \<Rightarrow> (byte list option \<times> fobj) res" where
  "name_item f = rbind (read_name f) (\<lambda>((l, s), f').
     if l < 0 then Inl HunkParseError else if l = 0 then Inr (None, f') else Inr (s, f'))"

definition header_setup :: "int list \<Rightarrow> hunk_block res" where
  "header_setup hunk_sizes =
     (let n = int (length hunk_sizes) in if n = 0 then Inl HunkParseError else Inr (HeaderB [] n 0 (n - 1) hunk_sizes))"

definition header_parse :: "fobj \<Rightarrow> (hunk_block \<times> fobj) res" where
  "header_parse f =
     rbind (read_until name_item f) (\<lambda>(names, f). rbind (read_long f) (\<lambda>(table_size, f). rbind (read_long f) (\<lambda>(first_hunk, f).
     rbind (read_long f) (\<lambda>(last_hunk, f). rbind (read_n (nat (last_hunk - first_hunk + 1)) read_long f) (\<lambda>(sizes, f).
       Inr (HeaderB names table_size first_hunk last_hunk (map (\<lambda>s. s AND 0x3FFFFFFF) sizes), f))))))"

definition header_write :: "byte list list \<Rightarrow> int \<Rightarrow> int \<Rightarrow> int \<Rightarrow> int list \<Rightarrow> byte list res" where
  "header_write names table_size first_hunk last_hunk table =
     write_seq (map (\<lambda>s. write_name (Some s) None) names @ [write_long 0, write_long table_size, write_long first_hunk, write_long last_hunk] @
       map write_long table)"

definition segment_parse :: "int \<Rightarrow> fobj \<Rightarrow> (hunk_block \<times> fobj) res" where
  "segment_parse i f = rbind (read_long f) (\<lambda>(size, f).
     if i \<noteq> HUNK_BSS then (let (d, f) = f_read (size * 4) f in Inr (SegmentB i (Some d) size, f)) else Inr (SegmentB i None size, f))"

definition segment_write :: "byte list option \<Rightarrow> int \<Rightarrow> byte list res" where
  "segment_write data size_longs = write_seq [write_long size_longs, write_bytes data]"

text \<open>Relocations in longs and in words.\<close>

definition reloc_long_item :: "fobj \<Rightarrow> ((int \<times> int list) option \<times> fobj) res" where
  "reloc_long_item f = rbind (read_long f) (\<lambda>(num, f). if num = 0 then Inr (None, f) else
     rbind (read_long f) (\<lambda>(hunk_num, f). rbind (read_n (nat num) read_long f) (\<lambda>(offsets, f). Inr (Some (hunk_num, offsets), f))))"

definition reloc_long_parse :: "int \<Rightarrow> fobj \<Rightarrow> (hunk_block \<times> fobj) res" where
  "reloc_long_parse i f = rbind (read_until reloc_long_item f) (\<lambda>(relocs, f). Inr (RelocLongB i relocs, f))"

definition reloc_long_write :: "(int \<times> int list) list \<Rightarrow> byte list res" where
  "reloc_long_write relocs =
     write_seq (concat (map (\<lambda>(hunk_num, offsets). [write_long (int (length offsets)), write_long hunk_num] @ map write_long offsets) relocs) @ [write_long 0])"

definition reloc_word_item :: "fobj \<Rightarrow> ((int \<times> int list) option \<times> fobj) res" where
  "reloc_word_item f = rbind (read_word f) (\<lambda>(num_offs, f). if num_offs = 0 then Inr (None, f) else
     rbind (read_word f) (\<lambda>(hunk_num, f). rbind (read_n (nat num_offs) read_word f) (\<lambda>(offsets, f). Inr (Some (hunk_num, offsets), f))))"

definition reloc_words :: "(int \<times> int list) list \<Rightarrow> nat" where
  "reloc_words relocs = sum_list (map (\<lambda>(_, offsets). 2 + length offsets) relocs) + 1"

definition reloc_word_parse :: "int \<Rightarrow> fobj \<Rightarrow> (hunk_block \<times> fobj) res" where
  "reloc_word_parse i f = rbind (read_until reloc_word_item f) (\<lambda>(relocs, f).
     if reloc_words relocs mod 2 = 1 then rbind (read_word f) (\<lambda>(_, f). Inr (RelocWordB i relocs, f)) else Inr (RelocWordB i relocs, f))"

definition reloc_word_write :: "(int \<times> int list) list \<Rightarrow> byte list res" where
  "reloc_word_write relocs =
     write_seq (concat (map (\<lambda>(hunk_num, offsets). [write_word (int (length offsets)), write_word hunk_num] @ map write_word offsets) relocs) @
       [write_word 0] @ (if reloc_words relocs mod 2 = 1 then [write_word 0] else []))"

text \<open>\<open>HunkOverlayBlock.write\<close> divides the data by four, which raises for bytes as for None.\<close>

definition overlay_parse :: "fobj \<Rightarrow> (hunk_block \<times> fobj) res" where
  "overlay_parse f = rbind (read_long f) (\<lambda>(num_longs, f). let (d, f) = f_read (num_longs * 4) f in Inr (OverlayB (Some d), f))"

definition overlay_write :: "byte list option \<Rightarrow> byte list res" where
  "overlay_write data = Inl TypeError"

definition debug_parse :: "fobj \<Rightarrow> (hunk_block \<times> fobj) res" where
  "debug_parse f = rbind (read_long f) (\<lambda>(num_longs, f). let (d, f) = f_read (num_longs * 4) f in Inr (DebugB (Some d), f))"

definition debug_write :: "byte list option \<Rightarrow> byte list res" where
  "debug_write data = (case data of None \<Rightarrow> Inl TypeError | Some d \<Rightarrow> write_seq [write_long (int (length d) div 4), Inr d])"

text \<open>A symbol whose name is cut off ends in the error of reading its offset.\<close>

definition symbol_item :: "fobj \<Rightarrow> ((hname \<times> int) option \<times> fobj) res" where
  "symbol_item f = rbind (read_name f) (\<lambda>((s, n), f). if s = 0 then Inr (None, f) else
     rbind (read_long f) (\<lambda>(off, f). Inr (Some (n, off), f)))"

definition symbol_parse :: "fobj \<Rightarrow> (hunk_block \<times> fobj) res" where
  "symbol_parse f = rbind (read_until symbol_item f) (\<lambda>(symbols, f). Inr (SymbolB symbols, f))"

definition symbol_write :: "(hname \<times> int) list \<Rightarrow> byte list res" where
  "symbol_write symbols = write_seq (concat (map (\<lambda>(sym, off). [write_name sym None, write_long off]) symbols) @ [write_long 0])"

definition unit_parse :: "fobj \<Rightarrow> (hunk_block \<times> fobj) res" where
  "unit_parse f = rbind (read_name f) (\<lambda>((_, name), f). Inr (UnitB name, f))"

definition name_parse :: "fobj \<Rightarrow> (hunk_block \<times> fobj) res" where
  "name_parse f = rbind (read_name f) (\<lambda>((_, name), f). Inr (NameB name, f))"

text \<open>\<open>HunkExtBlock\<close>.\<close>

definition ext_item :: "fobj \<Rightarrow> (ext_entry option \<times> fobj) res" where
  "ext_item f = rbind (read_long f) (\<lambda>(tag, f). if tag = 0 then Inr (None, f) else
     let ext_type = drop_bit 24 tag; name_len = tag AND 0xFFFFFF in
     rbind (read_name_size name_len f) (\<lambda>((_, name), f).
       if ext_type = EXT_ABSCOMMON
       then rbind (read_long f) (\<lambda>(bss_size, f). Inr (Some \<lparr>ee_name = name, ee_type = ext_type, ee_value = None, ee_bss = Some bss_size, ee_refs = None\<rparr>, f))
       else if ext_type \<ge> 0x80
       then rbind (read_long f) (\<lambda>(num_refs, f). rbind (read_n (nat num_refs) read_long f) (\<lambda>(offsets, f).
              Inr (Some \<lparr>ee_name = name, ee_type = ext_type, ee_value = None, ee_bss = None, ee_refs = Some offsets\<rparr>, f)))
       else rbind (read_long f) (\<lambda>(val, f). Inr (Some \<lparr>ee_name = name, ee_type = ext_type, ee_value = Some val, ee_bss = None, ee_refs = None\<rparr>, f))))"

definition ext_parse :: "fobj \<Rightarrow> (hunk_block \<times> fobj) res" where
  "ext_parse f = rbind (read_until ext_item f) (\<lambda>(entries, f). Inr (ExtB entries, f))"

definition ext_entry_write :: "ext_entry \<Rightarrow> byte list res" where
  "ext_entry_write e = write_seq (write_name (ee_name e) (Some (ee_type e)) #
     (if ee_type e = EXT_ABSCOMMON then [write_opt_long (ee_bss e)]
      else if ee_type e \<ge> 0x80
      then (case ee_refs e of None \<Rightarrow> [Inl TypeError] | Some offsets \<Rightarrow> write_long (int (length offsets)) # map write_long offsets)
      else [write_opt_long (ee_value e)]))"

definition ext_write :: "ext_entry list \<Rightarrow> byte list res" where
  "ext_write entries = write_seq (map ext_entry_write entries @ [write_long 0])"

text \<open>\<open>HunkIndexBlock\<close>. The words of a unit are counted as the loop of \<open>parse\<close> does. The size written at the end is a quotient,
  a float, which \<open>struct.pack\<close> refuses.\<close>

definition index_def_read :: "fobj \<Rightarrow> (index_def \<times> fobj) res" where
  "index_def_read f = rbind (read_word f) (\<lambda>(n, f). rbind (read_word f) (\<lambda>(v, f). rbind (read_word f) (\<lambda>(t, f).
     Inr (\<lparr>xd_name = n, xd_value = v, xd_ctype = t\<rparr>, f))))"

definition index_hunk_read :: "fobj \<Rightarrow> (index_hunk \<times> fobj) res" where
  "index_hunk_read f =
     rbind (read_word f) (\<lambda>(n, f). rbind (read_word f) (\<lambda>(l, f). rbind (read_word f) (\<lambda>(c, f).
     rbind (read_word f) (\<lambda>(num_refs, f). rbind (read_n (nat num_refs) read_word f) (\<lambda>(refs, f).
     rbind (read_word f) (\<lambda>(num_defs, f). rbind (read_n (nat num_defs) index_def_read f) (\<lambda>(defs, f).
       Inr (\<lparr>xh_name = n, xh_longs = l, xh_ctype = c, xh_refs = refs, xh_defs = defs\<rparr>, f))))))))"

definition index_hunk_words :: "index_hunk \<Rightarrow> nat" where
  "index_hunk_words h = 5 + length (xh_refs h) + length (xh_defs h) * 3"

definition index_unit_words :: "index_unit \<Rightarrow> nat" where
  "index_unit_words u = 3 + sum_list (map index_hunk_words (xu_hunks u))"

definition index_unit_read :: "fobj \<Rightarrow> (index_unit \<times> fobj) res" where
  "index_unit_read f = rbind (read_word f) (\<lambda>(n, f). rbind (read_word f) (\<lambda>(l, f). rbind (read_word f) (\<lambda>(num_hunks, f).
     rbind (read_n (nat num_hunks) index_hunk_read f) (\<lambda>(hunks, f). Inr (\<lparr>xu_name = n, xu_first = l, xu_hunks = hunks\<rparr>, f)))))"

function index_units :: "int \<Rightarrow> fobj \<Rightarrow> ((index_unit list \<times> int) \<times> fobj) res" where
  "index_units num_words f = (if num_words > 1
     then rbind (index_unit_read f) (\<lambda>(u, f). rbind (index_units (num_words - int (index_unit_words u)) f) (\<lambda>((us, n), f). Inr ((u # us, n), f)))
     else Inr (([], num_words), f))"
  by pat_completeness auto
termination by (relation "measure (\<lambda>(n, f). nat n)") (auto simp: index_unit_words_def)

declare index_units.simps [simp del]

definition index_parse :: "fobj \<Rightarrow> (hunk_block \<times> fobj) res" where
  "index_parse f =
     rbind (read_long f) (\<lambda>(num_longs, f). rbind (read_word f) (\<lambda>(strtab_size, f).
       let (strtab, f) = f_read strtab_size f in
       rbind (index_units (num_longs * 2 - strtab_size div 2 - 1) f) (\<lambda>((units, n), f).
         if n = 1 then rbind (read_word f) (\<lambda>(_, f). Inr (IndexB (Some strtab) units, f)) else Inr (IndexB (Some strtab) units, f))))"

definition index_hunk_write :: "index_hunk \<Rightarrow> byte list res" where
  "index_hunk_write h = write_seq ([write_word (xh_name h), write_word (xh_longs h), write_word (xh_ctype h), write_word (int (length (xh_refs h)))] @
     map write_word (xh_refs h) @ [write_word (int (length (xh_defs h)))] @
     concat (map (\<lambda>d. [write_word (xd_name d), write_word (xd_value d), write_word (xd_ctype d)]) (xh_defs h)))"

definition index_unit_write :: "index_unit \<Rightarrow> byte list res" where
  "index_unit_write u = write_seq ([write_word (xu_name u), write_word (xu_first u), write_word (int (length (xu_hunks u)))] @
     map index_hunk_write (xu_hunks u))"

definition index_write :: "byte list option \<Rightarrow> index_unit list \<Rightarrow> byte list res" where
  "index_write strtab units = (case strtab of None \<Rightarrow> Inl TypeError | Some strtab \<Rightarrow>
     (let num_words = length strtab div 2 + 1 + sum_list (map index_unit_words units)
      in write_seq ([write_long 0, write_word (int (length strtab)), Inr strtab] @ map index_unit_write units @
           (if num_words mod 2 = 1 then [write_word 0] else []) @ [Inl StructError])))"

text \<open>\<open>hunk_block_type_map\<close>, and a library, whose parser reads blocks again. The position after a block is past the position
  before it (lemma \<open>parse_block_step\<close>), so the branch for no progress is never taken.\<close>

definition known_type :: "int \<Rightarrow> bool" where
  "known_type i \<longleftrightarrow> i \<in> {HUNK_HEADER, HUNK_CODE, HUNK_DATA, HUNK_BSS, HUNK_ABSRELOC32, HUNK_RELRELOC32, HUNK_RELOC32SHORT, HUNK_END, HUNK_DEBUG,
     HUNK_SYMBOL, HUNK_OVERLAY, HUNK_BREAK, HUNK_UNIT, HUNK_NAME, HUNK_RELRELOC16, HUNK_RELRELOC8, HUNK_DREL32, HUNK_DREL16, HUNK_DREL8,
     HUNK_EXT, HUNK_LIB, HUNK_INDEX}"

definition parse_plain :: "int \<Rightarrow> fobj \<Rightarrow> (hunk_block \<times> fobj) res" where
  "parse_plain i f =
     (if i = HUNK_HEADER then header_parse f
      else if i \<in> {HUNK_CODE, HUNK_DATA, HUNK_BSS} then segment_parse i f
      else if i \<in> {HUNK_RELRELOC32, HUNK_RELOC32SHORT} then reloc_word_parse i f
      else if i \<in> {HUNK_ABSRELOC32, HUNK_RELRELOC16, HUNK_RELRELOC8, HUNK_DREL32, HUNK_DREL16, HUNK_DREL8} then reloc_long_parse i f
      else if i = HUNK_END then Inr (EndB, f)
      else if i = HUNK_DEBUG then debug_parse f
      else if i = HUNK_SYMBOL then symbol_parse f
      else if i = HUNK_OVERLAY then overlay_parse f
      else if i = HUNK_BREAK then Inr (BreakB, f)
      else if i = HUNK_UNIT then unit_parse f
      else if i = HUNK_NAME then name_parse f
      else if i = HUNK_EXT then ext_parse f
      else index_parse f)"

definition read_tag :: "fobj \<Rightarrow> (int option \<times> fobj) res" where
  "read_tag f = (let (tag, f) = f_read 4 f in
     if length tag = 0 then Inr (None, f) else if length tag \<noteq> 4 then Inl HunkParseError
     else (let i = be_int tag AND 0xFFFF in if known_type i then Inr (Some i, f) else Inl HunkParseError))"

function parse_block :: "int \<Rightarrow> fobj \<Rightarrow> (hunk_block \<times> fobj) res"
  and lib_loop :: "int \<Rightarrow> fobj \<Rightarrow> ((hunk_block list \<times> int list) \<times> fobj) res" where
  "parse_block i f =
     (if i = HUNK_LIB
      then (case read_long f of Inl e \<Rightarrow> Inl e | Inr (num_longs, f1) \<Rightarrow>
              rbind (lib_loop (fst f1 + num_longs * 4) f1) (\<lambda>((blocks, offsets), f2). Inr (LibB blocks offsets, f2)))
      else parse_plain i f)"
| "lib_loop end_pos f =
     (if fst f < end_pos
      then (case read_tag f of
          Inl e \<Rightarrow> Inl e
        | Inr (None, f1) \<Rightarrow> Inr (([], []), f1)
        | Inr (Some i, f1) \<Rightarrow> (case parse_block i f1 of
              Inl e \<Rightarrow> Inl e
            | Inr (b, f2) \<Rightarrow> if length (snd f2) < length (snd f)
                then rbind (lib_loop end_pos f2) (\<lambda>((bs, os), f3). Inr ((b # bs, fst f # os), f3)) else Inl RuntimeError))
      else Inr (([], []), f))"
  by pat_completeness auto

lemma read_long_len: "read_long f = Inr (v, f') \<Longrightarrow> length (snd f) = length (snd f') + 4"
  by (auto simp: read_long_def f_read_def Let_def split: if_splits)

lemma read_tag_len: "read_tag f = Inr (Some i, f') \<Longrightarrow> length (snd f) = length (snd f') + 4"
  by (auto simp: read_tag_def f_read_def Let_def split: if_splits)

termination parse_block
  by (relation "measure (\<lambda>x. case x of Inl (i, f) \<Rightarrow> length (snd f) | Inr (e, f) \<Rightarrow> length (snd f))") (auto dest!: read_long_len read_tag_len)

declare parse_block.simps [simp del] lib_loop.simps [simp del]

text \<open>\<open>HunkLibBlock.write\<close> records for each block the position it remembers, which for the first one is that of the length word.
  The result holds the blocks with their new offsets.\<close>

fun hunk_block_write :: "int \<Rightarrow> hunk_block \<Rightarrow> (byte list \<times> hunk_block) res"
  and hunk_blocks_write :: "int \<Rightarrow> int \<Rightarrow> hunk_block list \<Rightarrow> (byte list \<times> hunk_block list \<times> int list) res" where
  "hunk_block_write pos (LibB bs os) =
     rbind (hunk_blocks_write (pos + 4) pos bs) (\<lambda>(d, bs', os'). rbind (write_long (int (length d) div 4)) (\<lambda>l. Inr (l @ d, LibB bs' os')))"
| "hunk_block_write pos (HeaderB ns t a b hs) = rbind (header_write ns t a b hs) (\<lambda>d. Inr (d, HeaderB ns t a b hs))"
| "hunk_block_write pos (SegmentB i d n) = rbind (segment_write d n) (\<lambda>x. Inr (x, SegmentB i d n))"
| "hunk_block_write pos (RelocLongB i rs) = rbind (reloc_long_write rs) (\<lambda>d. Inr (d, RelocLongB i rs))"
| "hunk_block_write pos (RelocWordB i rs) = rbind (reloc_word_write rs) (\<lambda>d. Inr (d, RelocWordB i rs))"
| "hunk_block_write pos EndB = Inr ([], EndB)"
| "hunk_block_write pos (OverlayB d) = rbind (overlay_write d) (\<lambda>x. Inr (x, OverlayB d))"
| "hunk_block_write pos BreakB = Inr ([], BreakB)"
| "hunk_block_write pos (DebugB d) = rbind (debug_write d) (\<lambda>x. Inr (x, DebugB d))"
| "hunk_block_write pos (SymbolB ss) = rbind (symbol_write ss) (\<lambda>d. Inr (d, SymbolB ss))"
| "hunk_block_write pos (UnitB s) = rbind (write_name s None) (\<lambda>d. Inr (d, UnitB s))"
| "hunk_block_write pos (NameB s) = rbind (write_name s None) (\<lambda>d. Inr (d, NameB s))"
| "hunk_block_write pos (ExtB es) = rbind (ext_write es) (\<lambda>d. Inr (d, ExtB es))"
| "hunk_block_write pos (IndexB st us) = rbind (index_write st us) (\<lambda>d. Inr (d, IndexB st us))"
| "hunk_blocks_write cur mark [] = Inr ([], [], [])"
| "hunk_blocks_write cur mark (b # bs) =
     rbind (write_long (blk_id b)) (\<lambda>t. rbind (hunk_block_write (cur + 4) b) (\<lambda>(d, b').
       let nxt = cur + 4 + int (length d) in rbind (hunk_blocks_write nxt nxt bs) (\<lambda>(ds, bs', os). Inr (t @ d @ ds, b' # bs', mark # os))))"

subsection \<open>The file\<close>

definition hunk_item :: "bool \<Rightarrow> fobj \<Rightarrow> (hunk_block option \<times> fobj) res" where
  "hunk_item is_load_seg f = rbind (read_tag f) (\<lambda>(t, f). case t of None \<Rightarrow> Inr (None, f) | Some i \<Rightarrow>
     rbind (parse_block (if is_load_seg \<and> i = 1015 then 1020 else i) f) (\<lambda>(b, f). Inr (Some b, f)))"

definition hunk_read :: "bool \<Rightarrow> hunk_block list \<Rightarrow> fobj \<Rightarrow> (hunk_block list \<times> fobj) res" where
  "hunk_read is_load_seg blocks f = rbind (read_until (hunk_item is_load_seg) f) (\<lambda>(bs, f). Inr (blocks @ bs, f))"

fun hunk_write :: "bool \<Rightarrow> int \<Rightarrow> hunk_block list \<Rightarrow> (byte list \<times> hunk_block list) res" where
  "hunk_write is_load_seg pos [] = Inr ([], [])"
| "hunk_write is_load_seg pos (b # bs) =
     rbind (write_long (if is_load_seg \<and> blk_id b = 1020 then 1015 else blk_id b)) (\<lambda>t. rbind (hunk_block_write (pos + 4) b) (\<lambda>(d, b').
       rbind (hunk_write is_load_seg (pos + 4 + int (length d)) bs) (\<lambda>(ds, bs'). Inr (t @ d @ ds, b' # bs'))))"

definition map_blkid_to_type :: "int \<Rightarrow> int" where
  "map_blkid_to_type i = (if i = HUNK_HEADER then TYPE_LOADSEG else if i = HUNK_UNIT then TYPE_UNIT else if i = HUNK_LIB then TYPE_LIB else TYPE_UNKNOWN)"

definition detect_type :: "hunk_block list \<Rightarrow> int" where
  "detect_type blocks = (case blocks of [] \<Rightarrow> TYPE_UNKNOWN | b # _ \<Rightarrow> map_blkid_to_type (blk_id b))"

definition peek_type :: "fobj \<Rightarrow> int" where
  "peek_type f = (let (tag, _) = f_read 4 f in if length tag \<noteq> 4 then TYPE_UNKNOWN else map_blkid_to_type (be_int tag))"

end
