(* ===== verification/Hunk_Files.thy ===== *)
theory Hunk_Files
  imports Hunk_Blocks
begin

text \<open>
  Hunk files are read back as they were written. \<open>reads_back p d x\<close> says that a parser takes just the bytes \<open>d\<close> off any file
  object that begins with them, and returns \<open>x\<close>; the parsers of the blocks are composed of such ones.
\<close>

subsection \<open>Parsers and what they take\<close>

definition long_ok :: "int \<Rightarrow> bool" where "long_ok v \<longleftrightarrow> 0 \<le> v \<and> v < 2 ^ 32"
definition word_ok :: "int \<Rightarrow> bool" where "word_ok v \<longleftrightarrow> 0 \<le> v \<and> v < 2 ^ 16"

abbreviation be4 :: "int \<Rightarrow> byte list" where "be4 \<equiv> be_bytes 4"
abbreviation be2 :: "int \<Rightarrow> byte list" where "be2 \<equiv> be_bytes 2"

lemma be_ne [simp]: "be4 v \<noteq> []" "be2 v \<noteq> []"
  by (simp_all flip: length_greater_0_conv)

definition reads_back :: "(fobj \<Rightarrow> ('a \<times> fobj) res) \<Rightarrow> byte list \<Rightarrow> 'a \<Rightarrow> bool" where
  "reads_back p d x \<longleftrightarrow> (\<forall>pos rest. p (pos, d @ rest) = Inr (x, (pos + int (length d), rest)))"

lemma reads_backD: "reads_back p d x \<Longrightarrow> p (pos, d @ rest) = Inr (x, (pos + int (length d), rest))"
  by (simp add: reads_back_def)

lemma reads_back_bind: "reads_back p d x \<Longrightarrow> reads_back (q x) e y \<Longrightarrow> reads_back (\<lambda>f. rbind (p f) (\<lambda>(x, f). q x f)) (d @ e) y"
  by (simp add: reads_back_def add.assoc)

lemma reads_back_ret: "reads_back (\<lambda>f. Inr (x, f)) [] x"
  by (simp add: reads_back_def)

lemma reads_back_map: "reads_back p d x \<Longrightarrow> reads_back (\<lambda>f. rbind (p f) (\<lambda>(x, f). Inr (g x, f))) d (g x)"
  by (simp add: reads_back_def)

lemma f_read_append: "n = int (length d) \<Longrightarrow> f_read n (pos, d @ rest) = (d, (pos + n, rest))"
  by (simp add: f_read_def)

lemma reads_back_long: "long_ok v \<Longrightarrow> reads_back read_long (be4 v) v"
  by (simp add: reads_back_def read_long_def f_read_append long_ok_def)

lemma reads_back_word: "word_ok v \<Longrightarrow> reads_back read_word (be2 v) v"
  by (simp add: reads_back_def read_word_def f_read_append word_ok_def)

lemma reads_back_n: "\<forall>x \<in> set xs. reads_back item (enc x) x \<Longrightarrow> reads_back (read_n (length xs) item) (concat (map enc xs)) xs"
  by (induction xs) (auto simp: reads_back_def add.assoc)

lemma reads_back_n_eq: "\<forall>x \<in> set xs. reads_back item (enc x) x \<Longrightarrow> n = int (length xs) \<Longrightarrow> reads_back (read_n (nat n) item) (concat (map enc xs)) xs"
  using reads_back_n [of xs item enc] by simp

lemma reads_back_until:
  assumes "\<forall>x \<in> set xs. enc x \<noteq> [] \<and> reads_back item (enc x) (Some x)" and "reads_back item e None"
  shows "reads_back (read_until item) (concat (map enc xs) @ e) xs"
  using assms(1)
proof (induction xs)
  case Nil
  then show ?case using assms(2) by (simp add: reads_back_def read_until.simps [of item])
next
  case (Cons x xs)
  then have x: "enc x \<noteq> []" "reads_back item (enc x) (Some x)" and ih: "reads_back (read_until item) (concat (map enc xs) @ e) xs" by simp_all
  show ?case
    unfolding reads_back_def
  proof (intro allI)
    fix pos rest
    let ?r = "(concat (map enc xs) @ e) @ rest"
    have "read_until item (pos, enc x @ ?r) = Inr (x # xs, (pos + int (length (enc x)) + int (length (concat (map enc xs) @ e)), rest))"
      using x(1) by (subst read_until.simps) (simp add: reads_backD [OF x(2), of pos ?r, simplified] reads_backD [OF ih, simplified])
    then show "read_until item (pos, (concat (map enc (x # xs)) @ e) @ rest) =
        Inr (x # xs, (pos + int (length (concat (map enc (x # xs)) @ e)), rest))" by (simp add: add.assoc)
  qed
qed

text \<open>Reading bytes.\<close>

lemma reads_back_data: "n = int (length d) \<Longrightarrow> reads_back (\<lambda>f. let (x, f) = f_read n f in Inr (g x, f)) d (g d)"
  by (simp add: reads_back_def f_read_append)

lemma write_seq_append: "write_seq (xs @ ys) = rbind (write_seq xs) (\<lambda>a. rbind (write_seq ys) (\<lambda>b. Inr (a @ b)))"
proof (induction xs)
  case Nil
  show ?case by (cases "write_seq ys") simp_all
next
  case (Cons x xs)
  then show ?case by (cases x; cases "write_seq xs"; cases "write_seq ys") simp_all
qed

lemma write_seq_map: "\<forall>x \<in> set xs. w x = Inr (enc x) \<Longrightarrow> write_seq (map w xs) = Inr (concat (map enc xs))"
  by (induction xs) simp_all

lemma write_long_ok: "long_ok v \<Longrightarrow> write_long v = Inr (be4 v)"
  by (simp add: write_long_def pack_u_def long_ok_def)

lemma write_word_ok: "word_ok v \<Longrightarrow> write_word v = Inr (be2 v)"
  by (simp add: write_word_def pack_u_def word_ok_def)

lemma write_longs: "\<forall>v \<in> set vs. long_ok v \<Longrightarrow> write_seq (map write_long vs) = Inr (concat (map be4 vs))"
  by (rule write_seq_map) (simp add: write_long_ok)

lemma write_words: "\<forall>v \<in> set vs. word_ok v \<Longrightarrow> write_seq (map write_word vs) = Inr (concat (map be2 vs))"
  by (rule write_seq_map) (simp add: write_word_ok)

lemma reads_back_longs: "\<forall>v \<in> set vs. long_ok v \<Longrightarrow> n = int (length vs) \<Longrightarrow> reads_back (read_n (nat n) read_long) (concat (map be4 vs)) vs"
  by (rule reads_back_n_eq) (simp_all add: reads_back_long)

lemma reads_back_words: "\<forall>v \<in> set vs. word_ok v \<Longrightarrow> n = int (length vs) \<Longrightarrow> reads_back (read_n (nat n) read_word) (concat (map be2 vs)) vs"
  by (rule reads_back_n_eq) (simp_all add: reads_back_word)

subsection \<open>Names\<close>

definition name_longs :: "byte list \<Rightarrow> int" where "name_longs s = (int (length s) + 3) div 4"
definition name_bytes :: "byte list \<Rightarrow> byte list" where "name_bytes s = s @ replicate (nat (name_longs s * 4) - length s) 0"

definition text_ok :: "byte list \<Rightarrow> bool" where
  "text_ok s \<longleftrightarrow> 0 \<notin> set s \<and> name_longs s < 2 ^ 24"

lemma name_longs_pos: "0 \<le> name_longs s" "s \<noteq> [] \<Longrightarrow> 1 \<le> name_longs s" "int (length s) \<le> name_longs s * 4" "s = [] \<Longrightarrow> name_longs s = 0"
proof -
  show "0 \<le> name_longs s" "int (length s) \<le> name_longs s * 4" "s = [] \<Longrightarrow> name_longs s = 0" by (simp_all add: name_longs_def)
  assume "s \<noteq> []"
  then have "1 \<le> length s" by (cases s) simp_all
  then have "1 \<le> int (length s)" by simp
  then show "1 \<le> name_longs s" unfolding name_longs_def by presburger
qed

lemma length_name_bytes: "int (length (name_bytes s)) = name_longs s * 4"
  using name_longs_pos(1,3) [of s] by (simp add: name_bytes_def)

lemma and_24: "0 \<le> n \<Longrightarrow> n < 2 ^ 24 \<Longrightarrow> n AND 0xFFFFFF = (n :: int)"
  using take_bit_int_eq_self [of n 24] by (simp add: take_bit_eq_mask mask_eq_exp_minus_1)

lemma reads_back_name_size:
  assumes "text_ok s"
  shows "reads_back (read_name_size (name_longs s)) (name_bytes s) ((if s = [] then 0 else name_longs s * 4, Some s))"
proof -
  have n: "name_longs s AND 0xFFFFFF = name_longs s" using assms name_longs_pos(1) by (intro and_24) (simp_all add: text_ok_def)
  have z: "s \<noteq> [] \<Longrightarrow> hd (name_bytes s) \<noteq> 0" using assms by (cases s) (auto simp: text_ok_def name_bytes_def)
  have "\<And>b. b \<in> set s \<Longrightarrow> b \<noteq> 0" using assms by (auto simp: text_ok_def)
  then have t: "takeWhile (\<lambda>b. b \<noteq> 0) (name_bytes s) = s" by (simp add: name_bytes_def takeWhile_append2 takeWhile_replicate)
  have e: "0 \<notin> set (name_bytes s) \<Longrightarrow> name_bytes s = s" by (auto simp: name_bytes_def)
  have l: "s = [] \<Longrightarrow> name_bytes s = []" using name_longs_pos(4) [of s] by (simp add: name_bytes_def)
  show ?thesis unfolding reads_back_def
  proof (intro allI)
    fix pos rest
    have r: "f_read (name_longs s * 4) (pos, name_bytes s @ rest) = (name_bytes s, (pos + int (length (name_bytes s)), rest))"
      using f_read_append [OF length_name_bytes [of s, symmetric]] by (simp add: length_name_bytes)
    show "read_name_size (name_longs s) (pos, name_bytes s @ rest) =
        Inr ((if s = [] then 0 else name_longs s * 4, Some s), (pos + int (length (name_bytes s)), rest))"
      unfolding read_name_size_def n Let_def r prod.case using z t e l name_longs_pos(4) [of s] length_name_bytes [of s] by auto
  qed
qed

lemma reads_back_name:
  assumes "text_ok s"
  shows "reads_back read_name (be4 (name_longs s) @ name_bytes s) ((if s = [] then 0 else name_longs s * 4, Some s))"
proof -
  have l: "long_ok (name_longs s)" using assms name_longs_pos(1) [of s] by (simp add: long_ok_def text_ok_def)
  have "reads_back (\<lambda>f. if name_longs s = 0 then Inr ((0, Some []), f) else read_name_size (name_longs s) f) (name_bytes s)
      ((if s = [] then 0 else name_longs s * 4, Some s))"
  proof (cases "s = []")
    case True
    then show ?thesis by (simp add: name_longs_pos(4) name_bytes_def reads_back_ret)
  next
    case False
    then show ?thesis using reads_back_name_size [OF assms] name_longs_pos(2) [of s] by simp
  qed
  then show ?thesis unfolding read_name_def by (rule reads_back_bind [OF reads_back_long [OF l]])
qed

lemma write_name_ok:
  assumes "text_ok s" "t = None"
  shows "write_name (Some s) t = Inr (be4 (name_longs s) @ name_bytes s)"
proof -
  have "long_ok (name_longs s)" using assms name_longs_pos(1) [of s] by (simp add: long_ok_def text_ok_def)
  from write_long_ok [OF this] assms(2) show ?thesis by (simp add: write_name_def Let_def name_bytes_def name_longs_def)
qed

text \<open>A name with a tag in the upper byte of its length.\<close>

definition tag_long :: "byte list \<Rightarrow> int \<Rightarrow> int" where "tag_long s t = t * 2 ^ 24 + name_longs s"

lemma tag_long:
  assumes "text_ok s" "0 \<le> t" "t < 256"
  shows "name_longs s OR push_bit 24 t = tag_long s t" "long_ok (tag_long s t)" "drop_bit 24 (tag_long s t) = t" "tag_long s t AND 0xFFFFFF = name_longs s"
proof -
  have n: "0 \<le> name_longs s" "name_longs s < 2 ^ 24" using assms(1) name_longs_pos(1) by (simp_all add: text_ok_def)
  have d: "push_bit 24 t AND name_longs s = 0"
  proof -
    have "name_longs s = take_bit 24 (name_longs s)" using n by (simp add: take_bit_int_eq_self)
    moreover have "push_bit 24 t AND take_bit 24 (name_longs s) = 0" by (rule bit_eqI) (auto simp: bit_simps)
    ultimately show ?thesis by simp
  qed
  then have "push_bit 24 t OR name_longs s = push_bit 24 t + name_longs s" by (rule disjunctive_add_eq_or [symmetric])
  then show "name_longs s OR push_bit 24 t = tag_long s t" by (simp add: tag_long_def push_bit_eq_mult or.commute)
  show "long_ok (tag_long s t)" using n assms(2,3) by (simp add: long_ok_def tag_long_def)
  show "drop_bit 24 (tag_long s t) = t" using n by (simp add: tag_long_def drop_bit_eq_div)
  have "tag_long s t AND 0xFFFFFF = tag_long s t mod 2 ^ 24" using take_bit_eq_mask [of 24 "tag_long s t"] by (simp add: mask_eq_exp_minus_1 take_bit_eq_mod)
  then show "tag_long s t AND 0xFFFFFF = name_longs s" using n by (simp add: tag_long_def)
qed

subsection \<open>The blocks\<close>

text \<open>A block that is written as bytes that its parser takes.\<close>

definition codec :: "byte list res \<Rightarrow> (fobj \<Rightarrow> ('a \<times> fobj) res) \<Rightarrow> 'a \<Rightarrow> bool" where
  "codec w p x \<longleftrightarrow> (\<exists>d. w = Inr d \<and> 4 dvd length d \<and> reads_back p d x)"

lemma codecI: "w = Inr d \<Longrightarrow> 4 dvd length d \<Longrightarrow> reads_back p d x \<Longrightarrow> codec w p x"
  by (auto simp: codec_def)

lemma dvd_concat: "\<forall>x \<in> set xs. k dvd length (enc x) \<Longrightarrow> k dvd length (concat (map enc xs))"
  by (induction xs) auto

lemma dvd_name_bytes: "4 dvd length (name_bytes s)"
proof -
  have "4 dvd int (length (name_bytes s))" unfolding length_name_bytes by simp
  then show ?thesis by presburger
qed

definition header_ok :: "byte list list \<Rightarrow> int \<Rightarrow> int \<Rightarrow> int \<Rightarrow> int list \<Rightarrow> bool" where
  "header_ok names t a b table \<longleftrightarrow> (\<forall>s \<in> set names. text_ok s \<and> s \<noteq> []) \<and> long_ok t \<and> long_ok a \<and> long_ok b \<and>
     length table = nat (b - a + 1) \<and> (\<forall>h \<in> set table. 0 \<le> h \<and> h < 2 ^ 30)"

lemma and_30: "0 \<le> n \<Longrightarrow> n < 2 ^ 30 \<Longrightarrow> n AND 0x3FFFFFFF = (n :: int)"
  using take_bit_int_eq_self [of n 30] by (simp add: take_bit_eq_mask mask_eq_exp_minus_1)

lemma header_codec:
  assumes "header_ok names t a b table"
  shows "codec (header_write names t a b table) header_parse (HeaderB names t a b table)"
proof (rule codecI)
  let ?e = "\<lambda>s. be4 (name_longs s) @ name_bytes s"
  have ok: "\<forall>s \<in> set names. text_ok s \<and> s \<noteq> []" "long_ok t" "long_ok a" "long_ok b" "long_ok 0" "length table = nat (b - a + 1)"
    "\<forall>h \<in> set table. long_ok h" and m: "map (\<lambda>s. s AND 0x3FFFFFFF) table = table"
    using assms by (auto simp: header_ok_def long_ok_def and_30 intro: map_idI)
  show "header_write names t a b table = Inr (concat (map ?e names) @ be4 0 @ be4 t @ be4 a @ be4 b @ concat (map be4 table))"
    unfolding header_write_def write_seq_append using ok by (simp add: write_seq_map [of _ _ ?e] write_name_ok write_longs write_long_ok)
  show "4 dvd length (concat (map ?e names) @ be4 0 @ be4 t @ be4 a @ be4 b @ concat (map be4 table))"
    using dvd_concat [of names 4 ?e] dvd_concat [of table 4 be4] by (simp add: dvd_name_bytes)
  have "reads_back name_item (?e s) (Some s)" if "s \<in> set names" for s
    using reads_backD [OF reads_back_name, of s] ok(1) that name_longs_pos(2) [of s] by (auto simp: reads_back_def name_item_def)
  moreover have "reads_back name_item (be4 0) None" using reads_backD [OF reads_back_long [OF ok(5)]] by (simp add: reads_back_def name_item_def read_name_def)
  ultimately have n: "reads_back (read_until name_item) (concat (map ?e names) @ be4 0) names" by (intro reads_back_until) simp_all
  have tb: "reads_back (read_n (nat (b - a + 1)) read_long) (concat (map be4 table)) table"
    using reads_back_n [of table read_long be4] ok(6,7) by (simp add: reads_back_long)
  show "reads_back header_parse (concat (map ?e names) @ be4 0 @ be4 t @ be4 a @ be4 b @ concat (map be4 table)) (HeaderB names t a b table)"
    using reads_backD [OF n, simplified] reads_backD [OF tb] reads_backD [OF reads_back_long [OF ok(2)]] reads_backD [OF reads_back_long [OF ok(3)]] reads_backD [OF reads_back_long [OF ok(4)]]
    by (simp add: reads_back_def header_parse_def m)
qed

definition hunk_reloc_ok :: "(int \<Rightarrow> bool) \<Rightarrow> int \<times> int list \<Rightarrow> bool" where
  "hunk_reloc_ok P r \<longleftrightarrow> P (fst r) \<and> snd r \<noteq> [] \<and> P (int (length (snd r))) \<and> (\<forall>v \<in> set (snd r). P v)"

lemma reloc_long_codec:
  assumes "\<forall>r \<in> set rs. hunk_reloc_ok long_ok r"
  shows "codec (reloc_long_write rs) (reloc_long_parse i) (RelocLongB i rs)"
proof (rule codecI)
  let ?e = "\<lambda>r. be4 (int (length (snd r))) @ be4 (fst r) @ concat (map be4 (snd r))"
  have z: "long_ok 0" by (simp add: long_ok_def)
  have "write_seq (concat (map (\<lambda>(h, offs). [write_long (int (length offs)), write_long h] @ map write_long offs) rs)) = Inr (concat (map ?e rs))"
    using assms
  proof (induction rs)
    case (Cons r rs)
    then show ?case by (cases r) (simp add: write_seq_append hunk_reloc_ok_def write_long_ok write_longs)
  qed simp
  then show "reloc_long_write rs = Inr (concat (map ?e rs) @ be4 0)"
    unfolding reloc_long_write_def write_seq_append by (simp add: write_long_ok [OF z])
  show "4 dvd length (concat (map ?e rs) @ be4 0)"
    using dvd_concat [of rs 4 ?e] by (simp add: dvd_concat)
  have "reads_back reloc_long_item (?e r) (Some r)" if "r \<in> set rs" for r
  proof -
    have r: "long_ok (fst r)" "snd r \<noteq> []" "long_ok (int (length (snd r)))" "\<forall>v \<in> set (snd r). long_ok v" using assms that by (simp_all add: hunk_reloc_ok_def)
    show ?thesis using reads_backD [OF reads_back_long [OF r(1)]] reads_backD [OF reads_back_long [OF r(3)]] reads_backD [OF reads_back_longs [OF r(4) refl]] r(2)
      by (simp add: reads_back_def reloc_long_item_def)
  qed
  moreover have "reads_back reloc_long_item (be4 0) None" using reads_backD [OF reads_back_long [OF z]] by (simp add: reads_back_def reloc_long_item_def)
  ultimately have "reads_back (read_until reloc_long_item) (concat (map ?e rs) @ be4 0) rs" by (intro reads_back_until) simp_all
  then show "reads_back (reloc_long_parse i) (concat (map ?e rs) @ be4 0) (RelocLongB i rs)"
    unfolding reloc_long_parse_def by (rule reads_back_map)
qed

lemma reloc_word_codec:
  assumes "\<forall>r \<in> set rs. hunk_reloc_ok word_ok r"
  shows "codec (reloc_word_write rs) (reloc_word_parse i) (RelocWordB i rs)"
proof -
  let ?e = "\<lambda>r. be2 (int (length (snd r))) @ be2 (fst r) @ concat (map be2 (snd r))"
  let ?p = "if reloc_words rs mod 2 = 1 then be2 0 else []"
  have z: "word_ok 0" by (simp add: word_ok_def)
  have w: "write_seq (concat (map (\<lambda>(h, offs). [write_word (int (length offs)), write_word h] @ map write_word offs) rs)) = Inr (concat (map ?e rs))"
    using assms
  proof (induction rs)
    case (Cons r rs)
    then show ?case by (cases r) (simp add: write_seq_append hunk_reloc_ok_def write_word_ok write_words)
  qed simp
  have "reads_back reloc_word_item (?e r) (Some r)" if "r \<in> set rs" for r
  proof -
    have r: "word_ok (fst r)" "snd r \<noteq> []" "word_ok (int (length (snd r)))" "\<forall>v \<in> set (snd r). word_ok v" using assms that by (simp_all add: hunk_reloc_ok_def)
    show ?thesis using reads_backD [OF reads_back_word [OF r(1)]] reads_backD [OF reads_back_word [OF r(3)]] reads_backD [OF reads_back_words [OF r(4) refl]] r(2)
      by (simp add: reads_back_def reloc_word_item_def)
  qed
  moreover have "reads_back reloc_word_item (be2 0) None" using reads_backD [OF reads_back_word [OF z]] by (simp add: reads_back_def reloc_word_item_def)
  ultimately have p: "reads_back (read_until reloc_word_item) (concat (map ?e rs) @ be2 0) rs" by (intro reads_back_until) simp_all
  have l: "length (concat (map ?e rs)) + 2 = 2 * reloc_words rs"
  proof (induction rs)
    case (Cons r rs)
    have "length (concat (map be2 vs)) = 2 * length vs" for vs :: "int list" by (induction vs) simp_all
    with Cons show ?case by (cases r) (simp add: reloc_words_def)
  qed (simp add: reloc_words_def)
  show ?thesis
  proof (rule codecI)
    show "reloc_word_write rs = Inr ((concat (map ?e rs) @ be2 0) @ ?p)"
      unfolding reloc_word_write_def write_seq_append w by (simp add: write_word_ok [OF z])
    have "length ((concat (map ?e rs) @ be2 0) @ ?p) = 2 * (reloc_words rs + (if reloc_words rs mod 2 = 1 then 1 else 0))" using l by simp
    moreover have "2 dvd reloc_words rs + (if reloc_words rs mod 2 = 1 then 1 else 0)" by presburger
    ultimately show "4 dvd length ((concat (map ?e rs) @ be2 0) @ ?p)" by (metis mult_dvd_mono dvd_refl mult_2_right numeral_Bit0)
    show "reads_back (reloc_word_parse i) ((concat (map ?e rs) @ be2 0) @ ?p) (RelocWordB i rs)"
      unfolding reloc_word_parse_def
      by (rule reads_back_bind [OF p]) (use reads_backD [OF reads_back_word [OF z]] in \<open>simp add: reads_back_def\<close>)
  qed
qed

lemma segment_codec:
  assumes "i \<noteq> HUNK_BSS" "long_ok n" "int (length d) = 4 * n"
  shows "codec (segment_write (Some d) n) (segment_parse i) (SegmentB i (Some d) n)"
proof (rule codecI)
  show "segment_write (Some d) n = Inr (be4 n @ d)" using assms(2) by (simp add: segment_write_def write_long_ok write_bytes_def)
  show "4 dvd length (be4 n @ d)" using assms(3) by simp presburger
  show "reads_back (segment_parse i) (be4 n @ d) (SegmentB i (Some d) n)"
    using assms reads_backD [OF reads_back_long [OF assms(2)]] by (simp add: reads_back_def segment_parse_def f_read_append)
qed

lemma debug_codec:
  assumes "4 dvd length d" "long_ok (int (length d) div 4)"
  shows "codec (debug_write (Some d)) debug_parse (DebugB (Some d))"
proof (rule codecI)
  let ?n = "int (length d) div 4"
  have l: "?n * 4 = int (length d)" using assms(1) by presburger
  show "debug_write (Some d) = Inr (be4 ?n @ d)" using assms(2) by (simp add: debug_write_def write_long_ok)
  show "4 dvd length (be4 ?n @ d)" using assms(1) by simp
  show "reads_back debug_parse (be4 ?n @ d) (DebugB (Some d))"
    using reads_backD [OF reads_back_long [OF assms(2)]] l by (simp add: reads_back_def debug_parse_def f_read_append)
qed

lemma symbol_codec:
  assumes "\<forall>(s, off) \<in> set ss. \<exists>t. s = Some t \<and> text_ok t \<and> t \<noteq> [] \<and> long_ok off"
  shows "codec (symbol_write ss) symbol_parse (SymbolB ss)"
proof (rule codecI)
  let ?e = "\<lambda>(s, off). case s of Some t \<Rightarrow> be4 (name_longs t) @ name_bytes t @ be4 off | None \<Rightarrow> []"
  have z: "long_ok 0" by (simp add: long_ok_def)
  have "write_seq (concat (map (\<lambda>(sym, off). [write_name sym None, write_long off]) ss)) = Inr (concat (map ?e ss))" using assms
  proof (induction ss)
    case (Cons s ss)
    then show ?case by (cases s) (auto simp: write_name_ok write_long_ok)
  qed simp
  then show "symbol_write ss = Inr (concat (map ?e ss) @ be4 0)" unfolding symbol_write_def write_seq_append by (simp add: write_long_ok [OF z])
  have "4 dvd length (concat (map ?e ss))" by (rule dvd_concat) (auto simp: dvd_name_bytes split: option.splits)
  then show "4 dvd length (concat (map ?e ss) @ be4 0)" by simp
  have i: "?e x \<noteq> [] \<and> reads_back symbol_item (?e x) (Some x)" if x: "x \<in> set ss" for x
  proof -
    obtain t off where t: "x = (Some t, off)" "text_ok t" "t \<noteq> []" "long_ok off" using assms x by (cases x) fastforce
    show ?thesis using reads_backD [OF reads_back_name [OF t(2)], simplified] reads_backD [OF reads_back_long [OF t(4)]] t(3) name_longs_pos(2) [OF t(3)]
      by (simp add: t(1) reads_back_def symbol_item_def)
  qed
  have "reads_back symbol_item (be4 0) None" using reads_backD [OF reads_back_long [OF z]] by (simp add: reads_back_def symbol_item_def read_name_def)
  then have "reads_back (read_until symbol_item) (concat (map ?e ss) @ be4 0) ss" using i by (intro reads_back_until) blast+
  then show "reads_back symbol_parse (concat (map ?e ss) @ be4 0) (SymbolB ss)" unfolding symbol_parse_def by (rule reads_back_map)
qed

lemma text_codec:
  assumes "text_ok s"
  shows "codec (write_name (Some s) None) unit_parse (UnitB (Some s))" "codec (write_name (Some s) None) name_parse (NameB (Some s))"
  using write_name_ok [OF assms refl] reads_backD [OF reads_back_name [OF assms], simplified]
  by (auto intro!: codecI simp: dvd_name_bytes reads_back_def unit_parse_def name_parse_def)

text \<open>An entry of \<open>HUNK_EXT\<close>: a definition, a reference or a common symbol.\<close>

definition ext_entry_ok :: "ext_entry \<Rightarrow> bool" where
  "ext_entry_ok e \<longleftrightarrow> (\<exists>s. ee_name e = Some s \<and> text_ok s \<and> 0 \<le> ee_type e \<and> ee_type e < 256 \<and> (s = [] \<longrightarrow> ee_type e \<noteq> 0) \<and>
     (if ee_type e = EXT_ABSCOMMON then ee_value e = None \<and> ee_refs e = None \<and> (\<exists>v. ee_bss e = Some v \<and> long_ok v)
      else if ee_type e \<ge> 0x80 then ee_value e = None \<and> ee_bss e = None \<and>
        (\<exists>vs. ee_refs e = Some vs \<and> long_ok (int (length vs)) \<and> (\<forall>v \<in> set vs. long_ok v))
      else ee_bss e = None \<and> ee_refs e = None \<and> (\<exists>v. ee_value e = Some v \<and> long_ok v)))"

definition ext_tail :: "ext_entry \<Rightarrow> byte list" where
  "ext_tail e = (if ee_type e = EXT_ABSCOMMON then be4 (the (ee_bss e))
     else if ee_type e \<ge> 0x80 then be4 (int (length (the (ee_refs e)))) @ concat (map be4 (the (ee_refs e))) else be4 (the (ee_value e)))"

definition ext_enc :: "ext_entry \<Rightarrow> byte list" where
  "ext_enc e = be4 (tag_long (the (ee_name e)) (ee_type e)) @ name_bytes (the (ee_name e)) @ ext_tail e"

lemma write_name_tag:
  assumes "text_ok s" "0 \<le> t" "t < 256"
  shows "write_name (Some s) (Some t) = Inr (be4 (tag_long s t) @ name_bytes s)"
  using write_long_ok [OF tag_long(2) [OF assms]] tag_long(1) [OF assms]
  by (simp add: write_name_def Let_def name_bytes_def name_longs_def)

lemma ext_entry_codec:
  assumes "ext_entry_ok e"
  shows "ext_entry_write e = Inr (ext_enc e)" "4 dvd length (ext_enc e)" "reads_back ext_item (ext_enc e) (Some e)"
proof -
  from assms obtain s where s: "ee_name e = Some s" "text_ok s" "0 \<le> ee_type e" "ee_type e < 256" "s = [] \<longrightarrow> ee_type e \<noteq> 0" unfolding ext_entry_ok_def by blast
  note T = tag_long [OF s(2-4)] and W = write_name_tag [OF s(2-4)]
  have tag: "tag_long s (ee_type e) \<noteq> 0" using s(3,5) name_longs_pos(1,2) [of s] by (auto simp: tag_long_def)
  note N = reads_backD [OF reads_back_long [OF T(2)]] reads_backD [OF reads_back_name_size [OF s(2)]]
  consider (common) v where "ee_type e = EXT_ABSCOMMON" "ee_value e = None" "ee_refs e = None" "ee_bss e = Some v" "long_ok v"
    | (refs) vs where "ee_type e \<noteq> EXT_ABSCOMMON" "ee_type e \<ge> 0x80" "ee_value e = None" "ee_bss e = None" "ee_refs e = Some vs" "long_ok (int (length vs))"
        "\<forall>v \<in> set vs. long_ok v"
    | (def) v where "ee_type e \<noteq> EXT_ABSCOMMON" "\<not> ee_type e \<ge> 0x80" "ee_bss e = None" "ee_refs e = None" "ee_value e = Some v" "long_ok v"
    using assms unfolding ext_entry_ok_def by (auto split: if_splits)
  then have "ext_entry_write e = Inr (ext_enc e) \<and> 4 dvd length (ext_enc e) \<and> reads_back ext_item (ext_enc e) (Some e)"
  proof cases
    case common
    then show ?thesis using W N tag T(3,4) reads_backD [OF reads_back_long [OF common(5)]] s(1)
      by (simp add: ext_entry_write_def ext_enc_def ext_tail_def write_opt_long_def write_long_ok dvd_name_bytes reads_back_def ext_item_def)
  next
    case refs
    then show ?thesis using W N tag T(3,4) reads_backD [OF reads_back_long [OF refs(6)]] reads_backD [OF reads_back_longs [OF refs(7) refl]] s(1) dvd_concat [of vs 4 be4]
      by (simp add: ext_entry_write_def ext_enc_def ext_tail_def write_long_ok write_longs dvd_name_bytes reads_back_def ext_item_def)
  next
    case def
    then show ?thesis using W N tag T(3,4) reads_backD [OF reads_back_long [OF def(6)]] s(1)
      by (simp add: ext_entry_write_def ext_enc_def ext_tail_def write_opt_long_def write_long_ok dvd_name_bytes reads_back_def ext_item_def)
  qed
  then show "ext_entry_write e = Inr (ext_enc e)" "4 dvd length (ext_enc e)" "reads_back ext_item (ext_enc e) (Some e)" by blast+
qed

lemma ext_codec:
  assumes "\<forall>e \<in> set es. ext_entry_ok e"
  shows "codec (ext_write es) ext_parse (ExtB es)"
proof (rule codecI)
  have z: "long_ok 0" by (simp add: long_ok_def)
  show "ext_write es = Inr (concat (map ext_enc es) @ be4 0)"
    unfolding ext_write_def write_seq_append using write_seq_map [of es ext_entry_write ext_enc] ext_entry_codec(1) assms by (simp add: write_long_ok [OF z])
  show "4 dvd length (concat (map ext_enc es) @ be4 0)" using dvd_concat [of es 4 ext_enc] ext_entry_codec(2) assms by simp
  have "reads_back ext_item (be4 0) None" using reads_backD [OF reads_back_long [OF z]] by (simp add: reads_back_def ext_item_def)
  then have "reads_back (read_until ext_item) (concat (map ext_enc es) @ be4 0) es"
    using ext_entry_codec(3) assms by (intro reads_back_until) (simp_all add: ext_enc_def)
  then show "reads_back ext_parse (concat (map ext_enc es) @ be4 0) (ExtB es)" unfolding ext_parse_def by (rule reads_back_map)
qed

subsection \<open>Whole blocks\<close>

text \<open>Well formed blocks, which are read back as they were written. The writer checks none of this: other blocks are
  written, too, but not read back the same (debug data that is no multiple of four bytes, an empty group of
  relocations, header sizes with flag bits), or cannot be written at all (BSS, overlay and index: theorem
  \<open>unwritable_blocks\<close>). A block in the file does not say the positions a library keeps of its parts.\<close>

definition long_reloc_ids :: "int set" where
  "long_reloc_ids = {HUNK_ABSRELOC32, HUNK_RELRELOC16, HUNK_RELRELOC8, HUNK_DREL32, HUNK_DREL16, HUNK_DREL8}"

fun block_ok :: "hunk_block \<Rightarrow> bool" where
  "block_ok (HeaderB names t a b table) \<longleftrightarrow> header_ok names t a b table"
| "block_ok (SegmentB i d n) \<longleftrightarrow> i \<in> {HUNK_CODE, HUNK_DATA} \<and> long_ok n \<and> (case d of None \<Rightarrow> False | Some d \<Rightarrow> int (length d) = 4 * n)"
| "block_ok (RelocLongB i rs) \<longleftrightarrow> i \<in> long_reloc_ids \<and> (\<forall>r \<in> set rs. hunk_reloc_ok long_ok r)"
| "block_ok (RelocWordB i rs) \<longleftrightarrow> i \<in> {HUNK_RELRELOC32, HUNK_RELOC32SHORT} \<and> (\<forall>r \<in> set rs. hunk_reloc_ok word_ok r)"
| "block_ok EndB \<longleftrightarrow> True"
| "block_ok (OverlayB d) \<longleftrightarrow> False"
| "block_ok BreakB \<longleftrightarrow> True"
| "block_ok (DebugB d) \<longleftrightarrow> (case d of None \<Rightarrow> False | Some d \<Rightarrow> 4 dvd length d \<and> long_ok (int (length d) div 4))"
| "block_ok (SymbolB ss) \<longleftrightarrow> (\<forall>(s, off) \<in> set ss. long_ok off \<and> (case s of None \<Rightarrow> False | Some t \<Rightarrow> text_ok t \<and> t \<noteq> []))"
| "block_ok (UnitB s) \<longleftrightarrow> (case s of None \<Rightarrow> False | Some t \<Rightarrow> text_ok t)"
| "block_ok (NameB s) \<longleftrightarrow> (case s of None \<Rightarrow> False | Some t \<Rightarrow> text_ok t)"
| "block_ok (ExtB es) \<longleftrightarrow> (\<forall>e \<in> set es. ext_entry_ok e)"
| "block_ok (LibB bs os) \<longleftrightarrow> (\<forall>b \<in> set bs. block_ok b) \<and> (case hunk_blocks_write 0 0 bs of Inl _ \<Rightarrow> False | Inr (d, _) \<Rightarrow> int (length d) < 2 ^ 34)"
| "block_ok (IndexB st us) \<longleftrightarrow> False"

fun strip :: "hunk_block \<Rightarrow> hunk_block" where
  "strip (LibB bs os) = LibB (map strip bs) []"
| "strip b = b"

lemma block_ok_known: "block_ok b \<Longrightarrow> known_type (blk_id b)"
  by (cases b) (auto simp: known_type_def long_reloc_ids_def)

lemma known_range: "known_type i \<Longrightarrow> 0 \<le> i \<and> i < 2 ^ 16"
  unfolding known_type_def by (auto simp: hunk_ids)

lemma and_16: "0 \<le> n \<Longrightarrow> n < 2 ^ 16 \<Longrightarrow> n AND 0xFFFF = (n :: int)"
  using take_bit_int_eq_self [of n 16] by (simp add: take_bit_eq_mask mask_eq_exp_minus_1)

lemma read_tag_known: "known_type i \<Longrightarrow> read_tag (pos, be4 i @ rest) = Inr (Some i, (pos + 4, rest))"
  using known_range [of i] and_16 [of i] by (simp add: read_tag_def f_read_append Let_def)

lemma read_tag_end: "read_tag (pos, []) = Inr (None, (pos, []))"
  by (simp add: read_tag_def f_read_def Let_def)

lemma write_id: "known_type i \<Longrightarrow> write_long i = Inr (be4 i)"
  using known_range [of i] by (intro write_long_ok) (simp add: long_ok_def)

definition written :: "hunk_block \<Rightarrow> byte list \<Rightarrow> bool" where
  "written b d \<longleftrightarrow> 4 dvd length d \<and> (\<forall>pos. \<exists>b'. hunk_block_write pos b = Inr (d, b') \<and> strip b' = strip b) \<and>
     (\<forall>pos rest. \<exists>c. parse_block (blk_id b) (pos, d @ rest) = Inr (c, (pos + int (length d), rest)) \<and> strip c = strip b)"

definition lib_written :: "hunk_block list \<Rightarrow> byte list \<Rightarrow> bool" where
  "lib_written bs d \<longleftrightarrow> 4 dvd length d \<and> (\<forall>cur mark. \<exists>bs' os. hunk_blocks_write cur mark bs = Inr (d, bs', os) \<and> map strip bs' = map strip bs) \<and>
     (\<forall>pos rest. \<exists>cs os. lib_loop (pos + int (length d)) (pos, d @ rest) = Inr ((cs, os), (pos + int (length d), rest)) \<and> map strip cs = map strip bs)"

lemma parse_plain_ids:
  "parse_plain HUNK_HEADER = header_parse" "parse_plain HUNK_DEBUG = debug_parse" "parse_plain HUNK_SYMBOL = symbol_parse"
  "parse_plain HUNK_UNIT = unit_parse" "parse_plain HUNK_NAME = name_parse" "parse_plain HUNK_EXT = ext_parse"
  by (simp_all add: fun_eq_iff parse_plain_def hunk_ids)

lemma written_plain:
  assumes "codec w (parse_plain (blk_id b)) b" "blk_id b \<noteq> HUNK_LIB" "\<And>pos. hunk_block_write pos b = rbind w (\<lambda>d. Inr (d, b))"
  shows "\<exists>d. written b d"
  using assms unfolding codec_def written_def by (auto simp: parse_block.simps reads_back_def)

lemma lib_written_all:
  assumes "\<forall>b \<in> set bs. block_ok b \<and> (\<exists>d. written b d)"
  shows "\<exists>d. lib_written bs d"
  using assms
proof (induction bs)
  case Nil
  show ?case by (rule exI [of _ "[]"]) (simp add: lib_written_def lib_loop.simps)
next
  case (Cons b bs)
  from Cons.IH Cons.prems obtain ds where ds: "lib_written bs ds" by auto
  from Cons.prems obtain d where d: "written b d" "known_type (blk_id b)" using block_ok_known by auto
  let ?D = "be4 (blk_id b) @ d @ ds"
  have "4 dvd length ?D" using d(1) ds by (simp add: written_def lib_written_def)
  moreover have "\<exists>bs' os. hunk_blocks_write cur mark (b # bs) = Inr (?D, bs', os) \<and> map strip bs' = map strip (b # bs)" for cur mark
  proof -
    from d(1) obtain b' where b': "hunk_block_write (cur + 4) b = Inr (d, b')" "strip b' = strip b" unfolding written_def by blast
    let ?n = "cur + 4 + int (length d)"
    from ds obtain bs' os where "hunk_blocks_write ?n ?n bs = Inr (ds, bs', os)" "map strip bs' = map strip bs" unfolding lib_written_def by blast
    with b' write_id [OF d(2)] show ?thesis by (simp add: Let_def)
  qed
  moreover have "\<exists>cs os. lib_loop (pos + int (length ?D)) (pos, ?D @ rest) = Inr ((cs, os), (pos + int (length ?D), rest)) \<and> map strip cs = map strip (b # bs)" for pos rest
  proof -
    from d(1) obtain c where c: "parse_block (blk_id b) (pos + 4, d @ ds @ rest) = Inr (c, (pos + 4 + int (length d), ds @ rest))" "strip c = strip b"
      unfolding written_def by blast
    from ds obtain cs os where cs: "lib_loop (pos + 4 + int (length d) + int (length ds)) (pos + 4 + int (length d), ds @ rest) =
        Inr ((cs, os), (pos + 4 + int (length d) + int (length ds), rest))" "map strip cs = map strip bs" unfolding lib_written_def by blast
    have e: "pos + int (length ?D) = pos + 4 + int (length d) + int (length ds)" by simp
    show ?thesis unfolding e using c cs read_tag_known [OF d(2), of pos "d @ ds @ rest"]
      by (subst lib_loop.simps) simp
  qed
  ultimately show ?case unfolding lib_written_def by blast
qed

lemma hunk_block_written: "block_ok b \<Longrightarrow> \<exists>d. written b d"
proof (induction b rule: hunk_block.induct)
  case (LibB bs os)
  then have "\<forall>b \<in> set bs. block_ok b \<and> (\<exists>d. written b d)" by auto
  from lib_written_all [OF this] obtain d where d: "lib_written bs d" by blast
  from d obtain bs0 os0 where "hunk_blocks_write 0 0 bs = Inr (d, bs0, os0)" unfolding lib_written_def by blast
  with LibB.prems have n: "int (length d) < 2 ^ 34" by simp
  let ?n = "int (length d) div 4"
  have "4 dvd length d" using d unfolding lib_written_def by blast
  then have k: "long_ok ?n" "?n * 4 = int (length d)" using n by (auto simp: long_ok_def)
  have "4 dvd length (be4 ?n @ d)" using d by (simp add: lib_written_def)
  moreover have "\<exists>b'. hunk_block_write pos (LibB bs os) = Inr (be4 ?n @ d, b') \<and> strip b' = strip (LibB bs os)" for pos
  proof -
    from d obtain bs' os' where "hunk_blocks_write (pos + 4) pos bs = Inr (d, bs', os')" "map strip bs' = map strip bs" unfolding lib_written_def by blast
    with write_long_ok [OF k(1)] show ?thesis by simp
  qed
  moreover have "\<exists>c. parse_block (blk_id (LibB bs os)) (pos, (be4 ?n @ d) @ rest) = Inr (c, (pos + int (length (be4 ?n @ d)), rest)) \<and> strip c = strip (LibB bs os)" for pos rest
  proof -
    from d obtain cs os' where cs: "lib_loop (pos + 4 + int (length d)) (pos + 4, d @ rest) = Inr ((cs, os'), (pos + 4 + int (length d), rest))" "map strip cs = map strip bs"
      unfolding lib_written_def by blast
    show ?thesis using cs reads_backD [OF reads_back_long [OF k(1)], of pos "d @ rest"]
      by (subst parse_block.simps) (simp add: k(2))
  qed
  ultimately show ?case unfolding written_def by blast
next
  case (HeaderB names t a b table)
  then show ?case by (intro written_plain [OF _ _ hunk_block_write.simps(2)]) (auto simp: parse_plain_ids intro: header_codec, simp add: hunk_ids)
next
  case (SegmentB i d n)
  then obtain x where x: "i \<in> {HUNK_CODE, HUNK_DATA}" "d = Some x" "long_ok n" "int (length x) = 4 * n" by (auto split: option.splits)
  have "parse_plain i = segment_parse i" using x(1) by (auto simp: hunk_ids parse_plain_def fun_eq_iff)
  then show ?case using x segment_codec [of i n x] by (intro written_plain [OF _ _ hunk_block_write.simps(3)]) (auto simp: hunk_ids)
next
  case (RelocLongB i rs)
  then have "parse_plain i = reloc_long_parse i" by (auto simp: hunk_ids parse_plain_def fun_eq_iff long_reloc_ids_def)
  then show ?case using RelocLongB by (intro written_plain [OF _ _ hunk_block_write.simps(4)]) (auto simp: hunk_ids long_reloc_ids_def intro!: reloc_long_codec)
next
  case (RelocWordB i rs)
  then have "parse_plain i = reloc_word_parse i" by (auto simp: hunk_ids parse_plain_def fun_eq_iff)
  then show ?case using RelocWordB by (intro written_plain [OF _ _ hunk_block_write.simps(5)]) (auto simp: hunk_ids intro!: reloc_word_codec)
next
  case EndB
  then show ?case by (intro exI [of _ "[]"]) (auto simp: written_def parse_block.simps parse_plain_def hunk_ids)
next
  case BreakB
  then show ?case by (intro exI [of _ "[]"]) (auto simp: written_def parse_block.simps parse_plain_def hunk_ids)
next
  case (DebugB d)
  then obtain x where x: "d = Some x" "4 dvd length x" "long_ok (int (length x) div 4)" by (auto split: option.splits)
  then show ?case using debug_codec by (intro written_plain [OF _ _ hunk_block_write.simps(9)]) (auto simp: parse_plain_ids, simp add: hunk_ids)
next
  case (SymbolB ss)
  then have "\<forall>(s, off) \<in> set ss. \<exists>t. s = Some t \<and> text_ok t \<and> t \<noteq> [] \<and> long_ok off" by (auto split: option.splits)
  from symbol_codec [OF this] show ?case by (intro written_plain [OF _ _ hunk_block_write.simps(10)]) (simp_all add: parse_plain_ids, simp add: hunk_ids)
next
  case (UnitB s)
  then obtain t where "s = Some t" "text_ok t" by (auto split: option.splits)
  then show ?case using text_codec [of t] by (intro written_plain [OF _ _ hunk_block_write.simps(11)]) (simp_all add: parse_plain_ids, simp add: hunk_ids)
next
  case (NameB s)
  then obtain t where "s = Some t" "text_ok t" by (auto split: option.splits)
  then show ?case using text_codec [of t] by (intro written_plain [OF _ _ hunk_block_write.simps(12)]) (simp_all add: parse_plain_ids, simp add: hunk_ids)
next
  case (ExtB es)
  then show ?case by (intro written_plain [OF _ _ hunk_block_write.simps(13)]) (auto simp: parse_plain_ids intro!: ext_codec, simp add: hunk_ids)
qed simp_all

subsection \<open>The parsers always come to an end\<close>

text \<open>The loops of the model stop with an error when an item has not moved on in the file. A parser is \<open>advancing\<close> when it never
  gives that error and moves at least \<open>n\<close> bytes when it succeeds.\<close>

definition advancing :: "nat \<Rightarrow> ('a \<times> fobj) res \<Rightarrow> fobj \<Rightarrow> bool" where
  "advancing n r f \<longleftrightarrow> (case r of Inl e \<Rightarrow> e \<noteq> RuntimeError | Inr (x, f') \<Rightarrow> length (snd f') + n \<le> length (snd f))"

lemma advancing_simps [simp]:
  "advancing n (Inl e) f \<longleftrightarrow> e \<noteq> RuntimeError" "advancing n (Inr (x, f')) f \<longleftrightarrow> length (snd f') + n \<le> length (snd f)"
  by (simp_all add: advancing_def)

lemma advancing_bind:
  "advancing n r f \<Longrightarrow> (\<And>x f'. r = Inr (x, f') \<Longrightarrow> advancing 0 (k (x, f')) f') \<Longrightarrow> advancing n (rbind r k) f"
  by (cases r) (auto simp: advancing_def split: sum.splits prod.splits intro: order_trans)

lemma advancing_0: "advancing n r f \<Longrightarrow> advancing 0 r f"
  by (auto simp: advancing_def split: sum.splits prod.splits)

lemma advancing_cases: "advancing n r f \<Longrightarrow> (\<And>e. r = Inl e \<Longrightarrow> e \<noteq> RuntimeError \<Longrightarrow> P) \<Longrightarrow>
    (\<And>x f'. r = Inr (x, f') \<Longrightarrow> length (snd f') + n \<le> length (snd f) \<Longrightarrow> P) \<Longrightarrow> P"
  by (cases r) auto

lemma advancing_from: "length (snd f') \<le> length (snd f) \<Longrightarrow> advancing n r f' \<Longrightarrow> advancing n r f"
  by (cases r) (auto simp: advancing_def)

lemma advancing_long: "advancing 4 (read_long f) f" and advancing_word: "advancing 2 (read_word f) f"
  by (auto simp: read_long_def read_word_def f_read_def Let_def)

lemma f_read_shorter: "f_read n f = (d, f') \<Longrightarrow> length (snd f') \<le> length (snd f)"
  by (auto simp: f_read_def Let_def)

lemmas advancing_start = advancing_long [THEN advancing_0] advancing_word [THEN advancing_0]

lemma advancing_name_size: "advancing 0 (read_name_size n f) f"
  by (auto simp: read_name_size_def Let_def split: prod.splits dest!: f_read_shorter)

lemma advancing_name: "advancing 4 (read_name f) f"
  unfolding read_name_def by (rule advancing_bind [OF advancing_long]) (simp add: advancing_name_size)

lemma advancing_n: "(\<And>f. advancing 0 (item f) f) \<Longrightarrow> advancing 0 (read_n n item f) f"
proof (induction n arbitrary: f)
  case (Suc n)
  show ?case unfolding read_n.simps
    by (rule advancing_bind [OF Suc.prems]) (simp add: advancing_bind [OF Suc.IH [OF Suc.prems]])
qed simp

text \<open>An item that succeeds is past the place it started from: the loop reads on from there.\<close>

definition moves :: "(fobj \<Rightarrow> ('a option \<times> fobj) res) \<Rightarrow> bool" where
  "moves item \<longleftrightarrow> (\<forall>f. case item f of Inl e \<Rightarrow> e \<noteq> RuntimeError | Inr (None, f') \<Rightarrow> length (snd f') \<le> length (snd f)
     | Inr (Some x, f') \<Rightarrow> length (snd f') < length (snd f))"

lemma advancing_moves: "(\<And>f. advancing n (item f) f) \<Longrightarrow> 0 < n \<Longrightarrow> moves item"
  unfolding moves_def
proof
  fix f
  assume a: "\<And>f. advancing n (item f) f" "0 < n"
  from a(1) [of f] show "case item f of Inl e \<Rightarrow> e \<noteq> RuntimeError | Inr (None, f') \<Rightarrow> length (snd f') \<le> length (snd f)
     | Inr (Some x, f') \<Rightarrow> length (snd f') < length (snd f)"
    using a(2) by (cases "item f") (auto split: option.splits)
qed

lemma read_until_step:
  assumes "moves item"
  shows "advancing 0 (read_until item f) f"
proof (induction "length (snd f)" arbitrary: f rule: less_induct)
  case less
  from assms have m: "case item f of Inl e \<Rightarrow> e \<noteq> RuntimeError | Inr (None, f') \<Rightarrow> length (snd f') \<le> length (snd f)
     | Inr (Some x, f') \<Rightarrow> length (snd f') < length (snd f)" unfolding moves_def by blast
  show ?case
  proof (cases "item f")
    case (Inr p)
    then obtain x f' where p: "item f = Inr (x, f')" by (cases p) auto
    show ?thesis
    proof (cases x)
      case (Some v)
      with p m have l: "length (snd f') < length (snd f)" by simp
      from less [OF this] l have "advancing 0 (rbind (read_until item f') (\<lambda>(xs, f''). Inr (v # xs, f''))) f'" by (auto intro!: advancing_bind)
      with l show ?thesis unfolding read_until.simps [of item f] by (auto simp: p Some elim!: advancing_cases)
    qed (use m p in \<open>simp add: read_until.simps [of item f]\<close>)
  qed (use m in \<open>simp add: read_until.simps [of item f]\<close>)
qed

lemma advancing_name_item: "advancing 4 (name_item f) f"
  unfolding name_item_def by (rule advancing_bind [OF advancing_name]) (auto split: prod.splits)

lemma advancing_reloc_items: "advancing 4 (reloc_long_item f) f" "advancing 2 (reloc_word_item f) f"
  unfolding reloc_long_item_def reloc_word_item_def
  by (auto intro!: advancing_bind [OF advancing_long] advancing_bind [OF advancing_word]
      advancing_bind [OF advancing_start(1)] advancing_bind [OF advancing_start(2)] advancing_bind [OF advancing_n] advancing_start)

lemma advancing_symbol_item: "advancing 4 (symbol_item f) f"
  unfolding symbol_item_def by (rule advancing_bind [OF advancing_name]) (auto intro!: advancing_bind [OF advancing_start(1)])

lemma advancing_ext_item: "advancing 4 (ext_item f) f"
  unfolding ext_item_def Let_def
  by (rule advancing_bind [OF advancing_long])
     (auto intro!: advancing_bind [OF advancing_name_size] advancing_bind [OF advancing_start(1)] advancing_bind [OF advancing_n] advancing_start)

lemma advancing_index_hunk: "advancing 0 (index_hunk_read f) f"
  unfolding index_hunk_read_def index_def_read_def
  by (auto intro!: advancing_bind [OF advancing_start(2)] advancing_bind [OF advancing_n] advancing_start)

lemma advancing_index_unit: "advancing 0 (index_unit_read f) f"
  unfolding index_unit_read_def
  by (auto intro!: advancing_bind [OF advancing_start(2)] advancing_bind [OF advancing_n] advancing_index_hunk)

lemma advancing_index_units: "advancing 0 (index_units n f) f"
proof (induction n f rule: index_units.induct)
  case (1 n f)
  show ?case unfolding index_units.simps [of n f]
    by (auto intro!: advancing_bind [OF advancing_index_unit] advancing_bind [OF 1])
qed

lemmas advancing_loops =
  read_until_step [OF advancing_moves [OF advancing_name_item]] read_until_step [OF advancing_moves [OF advancing_reloc_items(1)]]
  read_until_step [OF advancing_moves [OF advancing_reloc_items(2)]] read_until_step [OF advancing_moves [OF advancing_symbol_item]]
  read_until_step [OF advancing_moves [OF advancing_ext_item]]

lemma advancing_header: "advancing 0 (header_parse f) f"
  unfolding header_parse_def
  by (auto intro!: advancing_bind [OF advancing_loops(1)] advancing_bind [OF advancing_start(1)] advancing_bind [OF advancing_n] advancing_start)

lemma advancing_data:
  "advancing 0 (segment_parse i f) f" "advancing 0 (overlay_parse f) f" "advancing 0 (debug_parse f) f"
  unfolding segment_parse_def overlay_parse_def debug_parse_def
  by (auto intro!: advancing_bind [OF advancing_start(1)] split: prod.splits dest!: f_read_shorter)

lemma advancing_lists:
  "advancing 0 (reloc_long_parse i f) f" "advancing 0 (reloc_word_parse i f) f" "advancing 0 (symbol_parse f) f" "advancing 0 (ext_parse f) f"
  unfolding reloc_long_parse_def reloc_word_parse_def symbol_parse_def ext_parse_def
  by (auto intro!: advancing_bind [OF advancing_loops(2)] advancing_bind [OF advancing_loops(3)] advancing_bind [OF advancing_loops(4)]
      advancing_bind [OF advancing_loops(5)] advancing_bind [OF advancing_start(2)])

lemma advancing_names: "advancing 0 (unit_parse f) f" "advancing 0 (name_parse f) f"
  unfolding unit_parse_def name_parse_def by (auto intro!: advancing_bind [OF advancing_0 [OF advancing_name]])

lemma advancing_index: "advancing 0 (index_parse f) f"
proof -
  have "advancing 0 (let (strtab, f) = f_read n f in rbind (index_units (k strtab) f) (\<lambda>((us, m), f).
      if m = (1::int) then rbind (read_word f) (\<lambda>(_, f). Inr (IndexB (Some strtab) us, f)) else Inr (IndexB (Some strtab) us, f))) f" for n k f
  proof (cases "f_read n f")
    case Pair: (fields d pos r)
    show ?thesis unfolding Pair Let_def split_conv
      by (rule advancing_from [OF f_read_shorter [OF Pair]]) (auto intro!: advancing_bind [OF advancing_index_units] advancing_bind [OF advancing_start(2)])
  qed
  note tail = this
  show ?thesis unfolding index_parse_def
    by (rule advancing_bind [OF advancing_start(1)], unfold split_conv, rule advancing_bind [OF advancing_start(2)], unfold split_conv, rule tail)
qed

lemma advancing_plain: "advancing 0 (parse_plain i f) f"
  unfolding parse_plain_def
  by (simp add: advancing_header advancing_data advancing_lists advancing_names advancing_index)

lemma advancing_tag: "moves read_tag"
  by (auto simp: moves_def read_tag_def f_read_def Let_def split: sum.splits option.splits)

lemma item_cases:
  obtains (err) e where "r = Inl e" | (fin) g where "r = Inr (None, g)" | (item) x g where "r = Inr (Some x, g)"
proof (cases r)
  case (Inr p)
  then show thesis using fin item by (cases p; cases "fst p") auto
qed (rule err)

text \<open>A library reads blocks, and a block may be a library.\<close>

lemma parse_block_step: "advancing 0 (parse_block i f) f" and lib_loop_step: "advancing 0 (lib_loop end_pos f) f"
proof (induction i f and end_pos f rule: parse_block_lib_loop.induct)
  case (1 i f)
  show ?case
    unfolding parse_block.simps [of i f]
    using advancing_long [of f] by (auto simp: advancing_plain split: sum.splits intro!: advancing_bind dest!: 1 elim!: advancing_from [rotated])
next
  case (2 end_pos f)
  from advancing_tag have t: "case read_tag f of Inl e \<Rightarrow> e \<noteq> RuntimeError | Inr (None, f') \<Rightarrow> length (snd f') \<le> length (snd f)
     | Inr (Some x, f') \<Rightarrow> length (snd f') < length (snd f)" unfolding moves_def by blast
  consider "\<not> fst f < end_pos" | (err) e where "read_tag f = Inl e" | (fin) f1 where "read_tag f = Inr (None, f1)"
    | (blk) j f1 where "fst f < end_pos" "read_tag f = Inr (Some j, f1)"
    by (cases "read_tag f" rule: item_cases) auto
  then show ?case
  proof cases
    case blk
    with t have l: "length (snd f1) < length (snd f)" by simp
    from 2(1) [OF blk refl refl] have a: "advancing 0 (parse_block j f1) f1" .
    show ?thesis
    proof (cases "parse_block j f1")
      case (Inr p)
      then obtain b f2 where p: "parse_block j f1 = Inr (b, f2)" by (cases p) auto
      with a l have l2: "length (snd f2) < length (snd f)" by simp
      from 2(2) [OF blk refl refl p refl l2]
      have "advancing 0 (rbind (lib_loop end_pos f2) (\<lambda>((bs, os), f3). Inr ((b # bs, fst f # os), f3))) f2" by (auto intro!: advancing_bind)
      then show ?thesis unfolding lib_loop.simps [of end_pos f] using l2 blk p by (simp add: advancing_from [of f2 f])
    qed (use a blk in \<open>simp add: lib_loop.simps [of end_pos f]\<close>)
  qed (use t in \<open>simp_all add: lib_loop.simps [of end_pos f]\<close>)
qed

lemma moves_hunk_item: "moves (hunk_item ls)"
  unfolding moves_def
proof
  fix f
  from advancing_tag have t: "case read_tag f of Inl e \<Rightarrow> e \<noteq> RuntimeError | Inr (None, f') \<Rightarrow> length (snd f') \<le> length (snd f)
     | Inr (Some x, f') \<Rightarrow> length (snd f') < length (snd f)" unfolding moves_def by blast
  consider (err) e where "read_tag f = Inl e" | (fin) f1 where "read_tag f = Inr (None, f1)" | (blk) j f1 where "read_tag f = Inr (Some j, f1)"
    by (cases "read_tag f" rule: item_cases) auto
  then show "case hunk_item ls f of Inl e \<Rightarrow> e \<noteq> RuntimeError | Inr (None, f') \<Rightarrow> length (snd f') \<le> length (snd f)
     | Inr (Some x, f') \<Rightarrow> length (snd f') < length (snd f)"
  proof cases
    case blk
    let ?i = "if ls \<and> j = 1015 then 1020 else j"
    from blk t have l: "length (snd f1) < length (snd f)" by simp
    from parse_block_step [of ?i f1] l blk show ?thesis by (cases "parse_block ?i f1") (auto simp: hunk_item_def)
  qed (use t in \<open>simp_all add: hunk_item_def\<close>)
qed

text \<open>C39: reading a file of hunks comes to an end, whatever the bytes are: no loop of the parsers, nor the recursion of a library
  that holds libraries, can go round without having read on, so the stop for lack of progress is never reached.\<close>

theorem hunk_read_ends: "hunk_read ls blocks f \<noteq> Inl RuntimeError"
  using read_until_step [OF moves_hunk_item, of ls f] by (cases "read_until (hunk_item ls) f") (auto simp: hunk_read_def)

subsection \<open>Whole files\<close>

text \<open>A loadable file uses the tag of \<open>HUNK_DREL32\<close> for \<open>HUNK_RELOC32SHORT\<close>.\<close>

lemma disk_tag:
  assumes "known_type i" "ls \<longrightarrow> i \<noteq> HUNK_DREL32"
  defines "t \<equiv> if ls \<and> i = 1020 then 1015 else i"
  shows "known_type t" "(if ls \<and> t = 1015 then 1020 else t) = i"
  using assms by (auto simp: known_type_def hunk_ids)

definition hunk_written :: "bool \<Rightarrow> hunk_block list \<Rightarrow> byte list \<Rightarrow> bool" where
  "hunk_written ls bs d \<longleftrightarrow> (\<forall>pos. \<exists>bs'. hunk_write ls pos bs = Inr (d, bs') \<and> map strip bs' = map strip bs) \<and>
     (\<forall>pos. \<exists>cs. read_until (hunk_item ls) (pos, d) = Inr (cs, (pos + int (length d), [])) \<and> map strip cs = map strip bs)"

lemma hunk_file_written:
  assumes "\<forall>b \<in> set bs. block_ok b \<and> (ls \<longrightarrow> blk_id b \<noteq> HUNK_DREL32)"
  shows "\<exists>d. hunk_written ls bs d"
  using assms
proof (induction bs)
  case Nil
  have "read_until (hunk_item ls) (pos, []) = Inr ([], (pos, []))" for pos
    by (simp add: read_until.simps [of "hunk_item ls"] hunk_item_def read_tag_end)
  then show ?case by (intro exI [of _ "[]"]) (simp add: hunk_written_def)
next
  case (Cons b bs)
  from Cons obtain ds where ds: "hunk_written ls bs ds" by auto
  from Cons.prems have b: "block_ok b" "ls \<longrightarrow> blk_id b \<noteq> HUNK_DREL32" by auto
  from hunk_block_written [OF b(1)] obtain d where d: "written b d" by blast
  define t where "t = (if ls \<and> blk_id b = 1020 then 1015 else blk_id b)"
  note tag = disk_tag [OF block_ok_known [OF b(1)] b(2), folded t_def]
  let ?D = "be4 t @ d @ ds"
  have "\<exists>bs'. hunk_write ls pos (b # bs) = Inr (?D, bs') \<and> map strip bs' = map strip (b # bs)" for pos
  proof -
    from d obtain b' where b': "hunk_block_write (pos + 4) b = Inr (d, b')" "strip b' = strip b" unfolding written_def by blast
    from ds obtain bs' where "hunk_write ls (pos + 4 + int (length d)) bs = Inr (ds, bs')" "map strip bs' = map strip bs"
      unfolding hunk_written_def by blast
    with b' write_id [OF tag(1)] show ?thesis by (simp add: t_def [symmetric])
  qed
  moreover have "\<exists>cs. read_until (hunk_item ls) (pos, ?D) = Inr (cs, (pos + int (length ?D), [])) \<and> map strip cs = map strip (b # bs)" for pos
  proof -
    let ?p = "pos + 4 + int (length d)"
    from d obtain c where c: "parse_block (blk_id b) (pos + 4, d @ ds) = Inr (c, (?p, ds))" "strip c = strip b" unfolding written_def by blast
    from ds obtain cs where cs: "read_until (hunk_item ls) (?p, ds) = Inr (cs, (?p + int (length ds), []))" "map strip cs = map strip bs"
      unfolding hunk_written_def by blast
    have "hunk_item ls (pos, ?D) = Inr (Some c, (?p, ds))"
      unfolding hunk_item_def read_tag_known [OF tag(1)] using c(1) tag(2) by (simp del: if_split)
    with c(2) cs show ?thesis by (simp add: read_until.simps [of "hunk_item ls" "(pos, ?D)"])
  qed
  ultimately show ?case unfolding hunk_written_def by blast
qed

text \<open>C16: a list of well formed blocks is written as a file that can be read again, to the end and to the same blocks,
  up to the positions a library remembers of its parts. In a loadable file this holds for the short relocations, whose tag is
  changed on disk, too, so such a file may have no block of the type of that tag. Well formed is \<open>block_ok\<close>: all numbers fit their fields, code and data are as long as their size says, debug data is
  a multiple of four bytes, no group of relocations is empty, names have no zero byte and those of symbols and of
  resident libraries are not empty, external symbols have the fields of their type, the table of the header is as long
  as its range of hunks and its sizes have no flag bits, the parts of a library are well formed, and there is no BSS
  block, overlay or index, which cannot be written (theorem \<open>unwritable_blocks\<close>). Outside it the file may not be
  read back the same: debug data that is no multiple of four bytes is written whole while its size is rounded down, an empty
  group of relocations ends its list.\<close>

theorem hunk_file_roundtrip:
  assumes "\<forall>b \<in> set bs. block_ok b" "ls \<longrightarrow> HUNK_DREL32 \<notin> blk_id ` set bs"
  shows "\<exists>d bs' cs. hunk_write ls 0 bs = Inr (d, bs') \<and> map strip bs' = map strip bs \<and>
     hunk_read ls [] (0, d) = Inr (cs, (int (length d), [])) \<and> map strip cs = map strip bs"
proof -
  from assms have "\<forall>b \<in> set bs. block_ok b \<and> (ls \<longrightarrow> blk_id b \<noteq> HUNK_DREL32)" by (metis image_eqI)
  from hunk_file_written [OF this] obtain d where d: "hunk_written ls bs d" by blast
  from d obtain bs' where w: "hunk_write ls 0 bs = Inr (d, bs')" "map strip bs' = map strip bs" unfolding hunk_written_def by blast
  from d obtain cs where r: "read_until (hunk_item ls) (0, d) = Inr (cs, (0 + int (length d), []))" "map strip cs = map strip bs"
    unfolding hunk_written_def by blast
  from w r show ?thesis by (simp add: hunk_read_def)
qed

text \<open>A program of one hunk with a relocation, a symbol and a debug block.\<close>

definition sample_hunks :: "hunk_block list" where
  "sample_hunks = [HeaderB [] 1 0 0 [2], SegmentB HUNK_CODE (Some [0x20, 0x39, 0, 0, 0, 4, 0x4E, 0x75]) 2,
     RelocLongB HUNK_ABSRELOC32 [(0, [2])], RelocWordB HUNK_RELOC32SHORT [(0, [2, 4])], SymbolB [(Some [109, 97, 105, 110], 0)],
     DebugB (Some [1, 2, 3, 4]), EndB]"

lemma sample_hunks_ok: "\<forall>b \<in> set sample_hunks. block_ok b" "HUNK_DREL32 \<notin> blk_id ` set sample_hunks"
  by (simp_all add: sample_hunks_def hunk_ids long_reloc_ids_def header_ok_def hunk_reloc_ok_def long_ok_def word_ok_def text_ok_def name_longs_def dvd_eq_mod_eq_0)

theorem hunk_file_roundtrip_witness:
  "\<exists>d bs' cs. hunk_write True 0 sample_hunks = Inr (d, bs') \<and> map strip bs' = map strip sample_hunks \<and>
     hunk_read True [] (0, d) = Inr (cs, (int (length d), [])) \<and> map strip cs = map strip sample_hunks"
  by (rule hunk_file_roundtrip [OF sample_hunks_ok(1)]) (simp add: sample_hunks_ok(2))

text \<open>Three blocks cannot be written at all: \<open>HunkSegmentBlock.write\<close> gives the data of a BSS hunk, which is None, to the file,
  \<open>HunkOverlayBlock.write\<close> divides the data by four, and \<open>HunkIndexBlock.write\<close> packs a quotient.\<close>

lemma write_seq_error: "\<exists>e'. write_seq (ws @ [Inl e]) = Inl e'"
proof (induction ws)
  case (Cons w ws)
  then show ?case by (cases w) auto
qed simp

theorem unwritable_blocks:
  shows "\<exists>e. hunk_write ls pos (SegmentB HUNK_BSS None n # bs) = Inl e" "\<exists>e. hunk_write ls pos (OverlayB d # bs) = Inl e"
    "\<exists>e. hunk_write ls pos (IndexB st us # bs) = Inl e"
proof -
  have id: "write_long i = Inr (be4 i)" if "i \<in> {HUNK_BSS, HUNK_OVERLAY, HUNK_INDEX}" for i
    using that by (intro write_id) (auto simp: known_type_def)
  have "\<exists>e. segment_write None n = Inl e" by (cases "write_long n") (auto simp: segment_write_def write_bytes_def)
  then show "\<exists>e. hunk_write ls pos (SegmentB HUNK_BSS None n # bs) = Inl e" using id [of HUNK_BSS] by (auto simp: hunk_ids)
  show "\<exists>e. hunk_write ls pos (OverlayB d # bs) = Inl e" using id [of HUNK_OVERLAY] by (auto simp: hunk_ids overlay_write_def)
  have "\<exists>e. index_write st us = Inl e"
    unfolding index_write_def Let_def append_assoc [symmetric] by (cases st) (auto simp only: option.case write_seq_error)
  then show "\<exists>e. hunk_write ls pos (IndexB st us # bs) = Inl e" using id [of HUNK_INDEX] by (auto simp: hunk_ids)
qed

end
