(* ===== verification/Bin_Image.thy ===== *)
theory Bin_Image
  imports Hunk_Files "HOL-Library.AList"
begin

text \<open>
  Program images (\<open>amitools/binfmt/BinImage.py\<close>) and the two layers that turn a file of hunks into an image and back:
  \<open>HunkLoadSegFile.py\<close>, which groups the blocks by segment, and \<open>BinFmtHunk.py\<close>. Segments refer to each other by their
  index, which is their \<open>id\<close>; the dictionary of relocations is an association list in insertion order. The back references
  (\<open>file_data\<close>, \<open>file_\<close>) are left out.
\<close>

text \<open>A loop that maps a list and stops at the first error.\<close>

fun res_map :: "('a \<Rightarrow> 'b res) \<Rightarrow> 'a list \<Rightarrow> 'b list res" where
  "res_map f [] = Inr []"
| "res_map f (x # xs) = rbind (f x) (\<lambda>y. rbind (res_map f xs) (\<lambda>ys. Inr (y # ys)))"

subsection \<open>The image\<close>

definition SEGMENT_TYPE_CODE :: int where "SEGMENT_TYPE_CODE = 0"
definition SEGMENT_TYPE_DATA :: int where "SEGMENT_TYPE_DATA = 1"
definition SEGMENT_TYPE_BSS :: int where "SEGMENT_TYPE_BSS = 2"
definition BIN_IMAGE_RELOC_32 :: int where "BIN_IMAGE_RELOC_32 = 1"
definition BIN_IMAGE_RELOC_PC32 :: int where "BIN_IMAGE_RELOC_PC32 = 4"

lemmas image_ids = SEGMENT_TYPE_CODE_def SEGMENT_TYPE_DATA_def SEGMENT_TYPE_BSS_def BIN_IMAGE_RELOC_32_def BIN_IMAGE_RELOC_PC32_def

record reloc =
  rl_offset :: int
  rl_type :: int
  rl_width :: int
  rl_addend :: int

record debug_file =
  df_src :: "byte list"
  df_dir :: "byte list"
  df_base :: int
  df_entries :: "(int \<times> int \<times> int) list"

record segment =
  sg_type :: int
  sg_size :: int
  sg_data :: "byte list option"
  sg_relocs :: "(int \<times> reloc list) list"
  sg_symtab :: "(int \<times> hname) list option"
  sg_debug :: "debug_file list option"

type_synonym image = "segment list"

definition new_segment :: "int \<Rightarrow> int \<Rightarrow> byte list option \<Rightarrow> segment" where
  "new_segment t n d = \<lparr>sg_type = t, sg_size = n, sg_data = d, sg_relocs = [], sg_symtab = None, sg_debug = None\<rparr>"

definition new_reloc :: "int \<Rightarrow> int \<Rightarrow> reloc" where
  "new_reloc off t = \<lparr>rl_offset = off, rl_type = t, rl_width = 2, rl_addend = 0\<rparr>"

definition add_reloc :: "int \<Rightarrow> reloc list \<Rightarrow> segment \<Rightarrow> segment" where
  "add_reloc to_seg rs seg = seg\<lparr>sg_relocs := AList.update to_seg rs (sg_relocs seg)\<rparr>"

text \<open>The targets of the relocations by their id, each with its relocations: \<open>get_reloc_to_segs\<close> and \<open>get_reloc\<close>.\<close>

definition sorted_relocs :: "segment \<Rightarrow> (int \<times> reloc list) list" where
  "sorted_relocs seg = sort_key fst (sg_relocs seg)"

definition image_size :: "image \<Rightarrow> int" where
  "image_size img = sum_list (map sg_size img)"

definition find_symbol :: "segment \<Rightarrow> int \<Rightarrow> hname option" where
  "find_symbol seg off = (case sg_symtab seg of None \<Rightarrow> None | Some st \<Rightarrow> map_option snd (find (\<lambda>s. fst s = off) st))"

definition find_reloc :: "segment \<Rightarrow> int \<Rightarrow> int \<Rightarrow> (reloc \<times> int \<times> int) option" where
  "find_reloc seg offset n =
     find (\<lambda>(r, to_seg, off). offset \<le> off \<and> off \<le> offset + n) [(r, fst tr, rl_offset r). tr \<leftarrow> sorted_relocs seg, r \<leftarrow> snd tr]"

definition find_debug_line :: "segment \<Rightarrow> int \<Rightarrow> (int \<times> int \<times> int) option" where
  "find_debug_line seg offset =
     (case sg_debug seg of None \<Rightarrow> None | Some fs \<Rightarrow> find (\<lambda>e. fst e = offset) (concat (map df_entries fs)))"

subsection \<open>Debug information\<close>

text \<open>\<open>HunkDebug.decode\<close> compares the tag, which is a bytes object, with texts. They are never equal, so every block that is
  long enough is taken for one of an unknown kind. \<open>encode\<close> writes the packed base offset, bytes again, to a \<open>StringIO\<close>, which
  raises.\<close>

datatype debug_info = DebugLineInfo "byte list" int "(int \<times> int) list" | DebugAny "byte list" "byte list" int

definition debug_decode :: "byte list option \<Rightarrow> debug_info option res" where
  "debug_decode d = (case d of None \<Rightarrow> Inl TypeError | Some d \<Rightarrow>
     if length d < 12 then Inr None else Inr (Some (DebugAny (take 4 (drop 4 d)) (drop 8 d) (be_int (take 4 d)))))"

fun base_offset :: "debug_info \<Rightarrow> int" where
  "base_offset (DebugLineInfo _ b _) = b"
| "base_offset (DebugAny _ _ b) = b"

definition debug_encode :: "debug_info \<Rightarrow> byte list res" where
  "debug_encode i = rbind (pack_u 4 (base_offset i)) (\<lambda>_. Inl TypeError)"

subsection \<open>HunkSegment\<close>

record hunk_segment =
  hs_blocks :: "hunk_block list option"
  hs_seg :: "hunk_block option"
  hs_symbol :: "hunk_block option"
  hs_relocs :: "hunk_block list option"
  hs_debugs :: "hunk_block list option"
  hs_infos :: "debug_info list option"
  hs_longs :: "int option"

definition new_hunk_segment :: hunk_segment where
  "new_hunk_segment = \<lparr>hs_blocks = None, hs_seg = None, hs_symbol = None, hs_relocs = None, hs_debugs = None, hs_infos = None, hs_longs = None\<rparr>"

definition add_opt :: "'a \<Rightarrow> 'a list option \<Rightarrow> 'a list option" where
  "add_opt x xs = Some (case xs of None \<Rightarrow> [x] | Some xs \<Rightarrow> xs @ [x])"

definition begin_ids :: "int list" where "begin_ids = [HUNK_CODE, HUNK_DATA, HUNK_BSS, HUNK_PPC_CODE]"
definition extra_ids :: "int list" where
  "extra_ids = [HUNK_ABSRELOC32, HUNK_RELOC32SHORT, HUNK_RELRELOC32, HUNK_DEBUG, HUNK_SYMBOL, HUNK_NAME]"

text \<open>Padding adds a text to bytes, which raises.\<close>

definition pad_data :: "byte list option \<Rightarrow> (byte list \<times> int) res" where
  "pad_data data = (case data of None \<Rightarrow> Inl TypeError | Some d \<Rightarrow>
     if length d mod 4 > 0 then Inl TypeError else Inr (d, (int (length d) + 3) div 4))"

definition setup_code :: "byte list option \<Rightarrow> hunk_segment \<Rightarrow> hunk_segment res" where
  "setup_code data h = rbind (pad_data data) (\<lambda>(d, n). Inr (h\<lparr>hs_seg := Some (SegmentB HUNK_CODE (Some d) n)\<rparr>))"

definition setup_data :: "byte list option \<Rightarrow> hunk_segment \<Rightarrow> hunk_segment res" where
  "setup_data data h = rbind (pad_data data) (\<lambda>(d, n). Inr (h\<lparr>hs_seg := Some (SegmentB HUNK_DATA (Some d) n)\<rparr>))"

definition setup_bss :: "int \<Rightarrow> hunk_segment \<Rightarrow> hunk_segment" where
  "setup_bss n h = h\<lparr>hs_seg := Some (SegmentB HUNK_BSS None ((n + 3) div 4))\<rparr>"

definition are_relocs_short :: "(int \<times> int list) list \<Rightarrow> bool" where
  "are_relocs_short relocs \<longleftrightarrow> (\<forall>(hunk_num, offsets) \<in> set relocs. \<forall>off \<in> set offsets. off \<le> 65535)"

definition setup_relocs :: "(int \<times> int list) list \<Rightarrow> bool \<Rightarrow> hunk_segment \<Rightarrow> hunk_segment" where
  "setup_relocs relocs force_long h = h\<lparr>hs_relocs :=
     Some [if \<not> force_long \<and> are_relocs_short relocs then RelocWordB HUNK_RELOC32SHORT relocs else RelocLongB HUNK_ABSRELOC32 relocs]\<rparr>"

definition setup_symbols :: "(hname \<times> int) list \<Rightarrow> hunk_segment \<Rightarrow> hunk_segment" where
  "setup_symbols symbols h = h\<lparr>hs_symbol := Some (SymbolB symbols)\<rparr>"

definition setup_debug :: "debug_info \<Rightarrow> hunk_segment \<Rightarrow> hunk_segment res" where
  "setup_debug i h = rbind (debug_encode i) (\<lambda>d.
     Inr (h\<lparr>hs_infos := add_opt i (hs_infos h), hs_debugs := add_opt (DebugB (Some d)) (hs_debugs h)\<rparr>))"

text \<open>The data of a debug block.\<close>

fun debug_data :: "hunk_block \<Rightarrow> byte list option" where
  "debug_data (DebugB d) = d"
| "debug_data _ = None"

definition parse_one :: "hunk_block \<Rightarrow> hunk_segment \<Rightarrow> hunk_segment res" where
  "parse_one blk h =
     (if blk_id blk \<in> set begin_ids then Inr (h\<lparr>hs_seg := Some blk\<rparr>)
      else if blk_id blk = HUNK_SYMBOL then (if hs_symbol h = None then Inr (h\<lparr>hs_symbol := Some blk\<rparr>) else Inl NameError)
      else if blk_id blk = HUNK_DEBUG then
        (let h = h\<lparr>hs_debugs := add_opt blk (hs_debugs h)\<rparr>
         in rbind (debug_decode (debug_data blk)) (\<lambda>i. case i of None \<Rightarrow> Inr h | Some i \<Rightarrow> Inr (h\<lparr>hs_infos := add_opt i (hs_infos h)\<rparr>)))
      else if blk_id blk \<in> {HUNK_ABSRELOC32, HUNK_RELOC32SHORT, HUNK_RELRELOC32} then Inr (h\<lparr>hs_relocs := add_opt blk (hs_relocs h)\<rparr>)
      else Inl HunkParseError)"

fun seg_parse :: "hunk_block list \<Rightarrow> hunk_segment \<Rightarrow> hunk_segment res" where
  "seg_parse [] h = Inr h"
| "seg_parse (b # bs) h = rbind (parse_one b h) (seg_parse bs)"

definition hs_parse :: "hunk_block list \<Rightarrow> hunk_segment \<Rightarrow> hunk_segment res" where
  "hs_parse blocks h = seg_parse blocks (h\<lparr>hs_blocks := Some blocks\<rparr>)"

fun seg_size_longs :: "hunk_block option \<Rightarrow> int res" where
  "seg_size_longs (Some (SegmentB _ _ n)) = Inr n"
| "seg_size_longs _ = Inl AttributeError"

definition opt_list :: "'a list option \<Rightarrow> 'a list" where
  "opt_list xs = (case xs of None \<Rightarrow> [] | Some xs \<Rightarrow> xs)"

text \<open>\<open>create\<close> gives the blocks of the segment and its size.\<close>

definition hs_create :: "hunk_segment \<Rightarrow> (hunk_block list \<times> int \<times> hunk_segment) res" where
  "hs_create h = (case hs_blocks h of
       Some bs \<Rightarrow> rbind (seg_size_longs (hs_seg h)) (\<lambda>n. Inr (bs, n, h))
     | None \<Rightarrow> (case hs_seg h of None \<Rightarrow> Inl HunkParseError | Some sb \<Rightarrow>
         let bs = sb # opt_list (hs_relocs h) @ opt_list (hs_debugs h) @ (case hs_symbol h of None \<Rightarrow> [] | Some s \<Rightarrow> [s])
         in rbind (seg_size_longs (hs_seg h)) (\<lambda>n. Inr (bs, n, h\<lparr>hs_blocks := Some bs\<rparr>))))"

subsection \<open>HunkLoadSegFile\<close>

text \<open>First the blocks are split at the END blocks, then a part that holds several segments is split at each of them; a part
  that holds none is dropped. \<open>cur\<close> is the list the loop is filling, which is already in the result.\<close>

fun split_end :: "hunk_block list \<Rightarrow> hunk_block list option \<Rightarrow> hunk_block list list res" where
  "split_end [] cur = Inr (case cur of None \<Rightarrow> [] | Some c \<Rightarrow> [c])"
| "split_end (b # bs) cur =
     (if blk_id b = HUNK_END then rbind (split_end bs None) (\<lambda>r. Inr ((case cur of None \<Rightarrow> [] | Some c \<Rightarrow> [c]) @ r))
      else if blk_id b \<notin> set begin_ids \<and> blk_id b \<notin> set extra_ids then Inl HunkParseError
      else split_end bs (add_opt b cur))"

fun split_begin :: "hunk_block list \<Rightarrow> hunk_block list option \<Rightarrow> hunk_block list list res" where
  "split_begin [] cur = Inr (case cur of None \<Rightarrow> [] | Some c \<Rightarrow> [c])"
| "split_begin (b # bs) cur =
     (if blk_id b \<in> set begin_ids then rbind (split_begin bs (Some [b])) (\<lambda>r. Inr ((case cur of None \<Rightarrow> [] | Some c \<Rightarrow> [c]) @ r))
      else (case cur of None \<Rightarrow> Inl HunkParseError | Some c \<Rightarrow> split_begin bs (Some (c @ [b]))))"

fun split_all :: "hunk_block list list \<Rightarrow> hunk_block list list res" where
  "split_all [] = Inr []"
| "split_all (l # ls) =
     (let n = length (filter (\<lambda>b. blk_id b \<in> set begin_ids) l)
      in rbind (if n = 1 then Inr [l] else if n > 1 then split_begin l None else Inr []) (\<lambda>a. rbind (split_all ls) (\<lambda>b. Inr (a @ b))))"

text \<open>The size table of a header.\<close>

fun hunk_table :: "hunk_block \<Rightarrow> int list" where
  "hunk_table (HeaderB _ _ _ _ t) = t"
| "hunk_table _ = []"

definition parse_block_file :: "hunk_block list \<Rightarrow> hunk_segment list res" where
  "parse_block_file blks = (case blks of [] \<Rightarrow> Inl HunkParseError | hdr # rest \<Rightarrow>
     if blk_id hdr \<noteq> HUNK_HEADER then Inl HunkParseError else
     rbind (split_end rest None) (\<lambda>first. rbind (split_all first) (\<lambda>second.
       if length (hunk_table hdr) \<noteq> length second then Inl HunkParseError else
       rbind (res_map (\<lambda>l. hs_parse l new_hunk_segment) second) (\<lambda>segs. Inr (map2 (\<lambda>h n. h\<lparr>hs_longs := Some n\<rparr>) segs (hunk_table hdr))))))"

fun create_all :: "hunk_segment list \<Rightarrow> (hunk_block list \<times> int list \<times> hunk_segment list) res" where
  "create_all [] = Inr ([], [], [])"
| "create_all (h # hs) = rbind (hs_create h) (\<lambda>(bs, n, h'). rbind (create_all hs) (\<lambda>(bs', ns, hs'). Inr (bs @ [EndB] @ bs', n # ns, h' # hs')))"

definition create_block_file :: "hunk_segment list \<Rightarrow> (hunk_block list \<times> hunk_segment list) res" where
  "create_block_file segs = rbind (create_all segs) (\<lambda>(bs, sizes, segs'). rbind (header_setup sizes) (\<lambda>hdr. Inr (hdr # bs, segs')))"

subsection \<open>BinFmtHunk\<close>

definition reloc_offsets :: "reloc list \<Rightarrow> int list res" where
  "reloc_offsets rs = (if \<exists>r \<in> set rs. rl_width r \<noteq> 2 \<or> rl_addend r \<noteq> 0 then Inl TypeError else Inr (map rl_offset rs))"

definition reloc_table :: "(int \<times> reloc list) list \<Rightarrow> (int \<times> int list) list res" where
  "reloc_table = res_map (\<lambda>(i, rs). rbind (reloc_offsets rs) (\<lambda>offsets. Inr (i, offsets)))"

definition add_bin_img_relocs :: "segment \<Rightarrow> hunk_segment \<Rightarrow> hunk_segment res" where
  "add_bin_img_relocs seg h = rbind (reloc_table (sorted_relocs seg)) (\<lambda>t. Inr (if length t > 0 then setup_relocs t False h else h))"

definition add_bin_img_symbols :: "segment \<Rightarrow> hunk_segment \<Rightarrow> hunk_segment" where
  "add_bin_img_symbols seg h = (case sg_symtab seg of None \<Rightarrow> h | Some st \<Rightarrow> setup_symbols (map (\<lambda>(off, name). (name, off)) st) h)"

definition line_info :: "debug_file \<Rightarrow> debug_info" where
  "line_info f = DebugLineInfo (df_src f) (df_base f) (map (\<lambda>(off, line, flags). (off, line OR push_bit 24 flags)) (df_entries f))"

fun setup_debugs :: "debug_file list \<Rightarrow> hunk_segment \<Rightarrow> hunk_segment res" where
  "setup_debugs [] h = Inr h"
| "setup_debugs (f # fs) h = rbind (setup_debug (line_info f) h) (setup_debugs fs)"

definition add_bin_img_debug_info :: "segment \<Rightarrow> hunk_segment \<Rightarrow> hunk_segment res" where
  "add_bin_img_debug_info seg h = (case sg_debug seg of None \<Rightarrow> Inr h | Some fs \<Rightarrow> setup_debugs fs h)"

definition hunk_of_segment :: "segment \<Rightarrow> hunk_segment res" where
  "hunk_of_segment seg =
     rbind (if sg_type seg = SEGMENT_TYPE_CODE then setup_code (sg_data seg) new_hunk_segment
            else if sg_type seg = SEGMENT_TYPE_DATA then setup_data (sg_data seg) new_hunk_segment
            else if sg_type seg = SEGMENT_TYPE_BSS then Inr (setup_bss (sg_size seg) new_hunk_segment)
            else Inl HunkParseError)
       (\<lambda>h. rbind (add_bin_img_relocs seg h) (\<lambda>h. add_bin_img_debug_info seg (add_bin_img_symbols seg h)))"

definition create_load_seg_file_from_image :: "image \<Rightarrow> hunk_segment list res" where
  "create_load_seg_file_from_image = res_map hunk_of_segment"

text \<open>From the blocks to the image.\<close>

fun seg_blk_data :: "hunk_block \<Rightarrow> byte list option res" where
  "seg_blk_data (SegmentB _ d _) = Inr d"
| "seg_blk_data _ = Inl AttributeError"

definition segment_of_hunk :: "hunk_segment \<Rightarrow> segment res" where
  "segment_of_hunk h = (case hs_seg h of None \<Rightarrow> Inl AttributeError | Some sb \<Rightarrow>
     (case hs_longs h of None \<Rightarrow> Inl AttributeError | Some n \<Rightarrow>
     rbind (seg_blk_data sb) (\<lambda>d.
       if blk_id sb = HUNK_CODE then Inr (new_segment SEGMENT_TYPE_CODE (n * 4) d)
       else if blk_id sb = HUNK_DATA then Inr (new_segment SEGMENT_TYPE_DATA (n * 4) d)
       else if blk_id sb = HUNK_BSS then Inr (new_segment SEGMENT_TYPE_BSS (n * 4) d)
       else Inl HunkParseError)))"

text \<open>The relocations of a block. \<open>all_segs[hunk_num]\<close> raises for a hunk that does not exist.\<close>

fun blk_relocs :: "hunk_block \<Rightarrow> (int \<times> int list) list res" where
  "blk_relocs (RelocLongB _ rs) = Inr rs"
| "blk_relocs (RelocWordB _ rs) = Inr rs"
| "blk_relocs _ = Inl AttributeError"

fun add_reloc_entries :: "int \<Rightarrow> int \<Rightarrow> (int \<times> int list) list \<Rightarrow> segment \<Rightarrow> segment res" where
  "add_reloc_entries n t [] seg = Inr seg"
| "add_reloc_entries n t ((i, os) # rs) seg =
     rbind (py_get [0..<nat n] i) (\<lambda>k.
       add_reloc_entries n t rs (add_reloc (int k) (opt_list (map_of (sg_relocs seg) (int k)) @ map (\<lambda>off. new_reloc off t) os) seg))"

fun add_hunk_relocs :: "int \<Rightarrow> hunk_block list \<Rightarrow> segment \<Rightarrow> segment res" where
  "add_hunk_relocs n [] seg = Inr seg"
| "add_hunk_relocs n (b # bs) seg =
     (if blk_id b \<notin> {HUNK_ABSRELOC32, HUNK_RELOC32SHORT, HUNK_RELRELOC32} then Inl NameError
      else rbind (blk_relocs b) (\<lambda>rs.
        rbind (add_reloc_entries n (if blk_id b = HUNK_RELRELOC32 then BIN_IMAGE_RELOC_PC32 else BIN_IMAGE_RELOC_32) rs seg) (add_hunk_relocs n bs)))"

definition add_hunk_symbols :: "hunk_block \<Rightarrow> segment \<Rightarrow> segment res" where
  "add_hunk_symbols b seg = (case b of
     SymbolB syms \<Rightarrow> Inr (if length syms = 0 then seg else seg\<lparr>sg_symtab := Some (map (\<lambda>(name, off). (off, name)) syms)\<rparr>)
   | _ \<Rightarrow> Inl AttributeError)"

text \<open>A path is split at its last slash (47).\<close>

definition split_src_path :: "byte list \<Rightarrow> byte list \<times> byte list" where
  "split_src_path s = (if 47 \<in> set s then let f = rev (takeWhile (\<lambda>c. c \<noteq> 47) (rev s)) in (take (length s - length f - 1) s, f) else ([], s))"

fun debug_file_of :: "debug_info \<Rightarrow> debug_file list" where
  "debug_file_of (DebugLineInfo src b es) = [let (d, f) = split_src_path src in
     \<lparr>df_src = f, df_dir = d, df_base = b,
      df_entries = map (\<lambda>(off, line). (off, line AND 0xFFFFFF, drop_bit 24 (line AND 0xFF000000))) es\<rparr>]"
| "debug_file_of (DebugAny _ _ _) = []"

definition add_debug_infos :: "debug_info list \<Rightarrow> segment \<Rightarrow> segment" where
  "add_debug_infos infos seg = seg\<lparr>sg_debug := Some (concat (map debug_file_of infos))\<rparr>"

definition complete_segment :: "int \<Rightarrow> hunk_segment \<Rightarrow> segment \<Rightarrow> segment res" where
  "complete_segment n h seg =
     rbind (case hs_relocs h of None \<Rightarrow> Inr seg | Some bs \<Rightarrow> add_hunk_relocs n bs seg) (\<lambda>seg.
     rbind (case hs_symbol h of None \<Rightarrow> Inr seg | Some b \<Rightarrow> add_hunk_symbols b seg) (\<lambda>seg.
       Inr (case hs_infos h of None \<Rightarrow> seg | Some infos \<Rightarrow> add_debug_infos infos seg)))"

definition create_image_from_load_seg_file :: "hunk_segment list \<Rightarrow> image res" where
  "create_image_from_load_seg_file hs =
     rbind (res_map segment_of_hunk hs) (\<lambda>segs. res_map (\<lambda>(h, seg). complete_segment (int (length segs)) h seg) (zip hs segs))"

definition is_image :: "byte list \<Rightarrow> bool" where
  "is_image d \<longleftrightarrow> peek_type (0, d) = TYPE_LOADSEG"

definition load_image :: "byte list \<Rightarrow> image res" where
  "load_image d = rbind (hunk_read True [] (0, d)) (\<lambda>(blks, _). rbind (parse_block_file blks) create_image_from_load_seg_file)"

definition save_image :: "image \<Rightarrow> byte list res" where
  "save_image img = rbind (create_load_seg_file_from_image img) (\<lambda>hs. rbind (create_block_file hs) (\<lambda>(blks, _).
     rbind (hunk_write True 0 blks) (\<lambda>(d, _). Inr d)))"

end
