(* ===== verification/Image_Files.thy ===== *)
theory Image_Files
  imports Bin_Image
begin

text \<open>
  Saving an image as a file of hunks and loading it again. \<open>image_ok\<close> describes the images that survive: code and data
  segments filled to their size, with absolute relocations sorted by target, and symbols; \<open>as_saved\<close> is what comes back of the others.
\<close>

lemma res_map_ok: "\<forall>x \<in> set xs. f x = Inr (g x) \<Longrightarrow> res_map f xs = Inr (map g xs)"
  by (induction xs) simp_all

lemma res_map_map: "\<forall>x \<in> set xs. f (g x) = Inr (h x) \<Longrightarrow> res_map f (map g xs) = Inr (map h xs)"
  by (induction xs) simp_all

definition seg_relocs :: "segment \<Rightarrow> (int \<times> int list) list" where
  "seg_relocs seg = map (\<lambda>(i, rs). (i, map rl_offset rs)) (sg_relocs seg)"

definition relocs_ok :: "nat \<Rightarrow> segment \<Rightarrow> bool" where
  "relocs_ok n seg \<longleftrightarrow> sorted (map fst (sg_relocs seg)) \<and> distinct (map fst (sg_relocs seg)) \<and>
     (\<forall>(i, rs) \<in> set (sg_relocs seg). 0 \<le> i \<and> i < int n \<and> rs = map (\<lambda>r. new_reloc (rl_offset r) BIN_IMAGE_RELOC_32) rs) \<and>
     (\<forall>r \<in> set (seg_relocs seg). hunk_reloc_ok (if are_relocs_short (seg_relocs seg) then word_ok else long_ok) r)"

definition symtab_ok :: "segment \<Rightarrow> bool" where
  "symtab_ok seg \<longleftrightarrow> (case sg_symtab seg of None \<Rightarrow> True | Some st \<Rightarrow> st \<noteq> [] \<and>
     (\<forall>(off, name) \<in> set st. long_ok off \<and> (case name of None \<Rightarrow> False | Some t \<Rightarrow> text_ok t \<and> t \<noteq> [])))"

definition segment_ok :: "nat \<Rightarrow> segment \<Rightarrow> bool" where
  "segment_ok n seg \<longleftrightarrow> sg_type seg \<in> {SEGMENT_TYPE_CODE, SEGMENT_TYPE_DATA} \<and> 4 dvd sg_size seg \<and> sg_size seg < 2 ^ 32 \<and>
     (case sg_data seg of None \<Rightarrow> False | Some d \<Rightarrow> int (length d) = sg_size seg) \<and> relocs_ok n seg \<and> symtab_ok seg \<and> sg_debug seg = None"

definition image_ok :: "image \<Rightarrow> bool" where
  "image_ok img \<longleftrightarrow> img \<noteq> [] \<and> length img < 2 ^ 32 \<and> (\<forall>seg \<in> set img. segment_ok (length img) seg)"

subsection \<open>The blocks of a segment\<close>

definition main_block :: "segment \<Rightarrow> hunk_block" where
  "main_block seg = SegmentB (if sg_type seg = SEGMENT_TYPE_CODE then HUNK_CODE else HUNK_DATA) (sg_data seg) (sg_size seg div 4)"

definition reloc_block :: "segment \<Rightarrow> hunk_block list option" where
  "reloc_block seg = (if sg_relocs seg = [] then None else
     Some [if are_relocs_short (seg_relocs seg) then RelocWordB HUNK_RELOC32SHORT (seg_relocs seg) else RelocLongB HUNK_ABSRELOC32 (seg_relocs seg)])"

definition symbol_block :: "segment \<Rightarrow> hunk_block option" where
  "symbol_block seg = map_option (\<lambda>st. SymbolB (map (\<lambda>(off, name). (name, off)) st)) (sg_symtab seg)"

definition seg_blocks :: "segment \<Rightarrow> hunk_block list" where
  "seg_blocks seg = main_block seg # opt_list (reloc_block seg) @ opt_list (map_option (\<lambda>b. [b]) (symbol_block seg))"

definition hunk_seg :: "segment \<Rightarrow> hunk_segment" where
  "hunk_seg seg = new_hunk_segment\<lparr>hs_seg := Some (main_block seg), hs_relocs := reloc_block seg, hs_symbol := symbol_block seg\<rparr>"

lemma sorted_relocs_id: "relocs_ok n seg \<Longrightarrow> sorted_relocs seg = sg_relocs seg"
  by (simp add: relocs_ok_def sorted_relocs_def sorted_sort_id sort_key_id_if_sorted)

lemma relocs_okD: "relocs_ok n seg \<Longrightarrow> (i, rs) \<in> set (sg_relocs seg) \<Longrightarrow> rs = map (\<lambda>r. new_reloc (rl_offset r) BIN_IMAGE_RELOC_32) rs"
  unfolding relocs_ok_def by blast

lemma reloc_table_ok:
  assumes "relocs_ok n seg"
  shows "reloc_table (sg_relocs seg) = Inr (seg_relocs seg)"
  unfolding reloc_table_def seg_relocs_def
proof (rule res_map_ok, clarify)
  fix i rs
  assume "(i, rs) \<in> set (sg_relocs seg)"
  from relocs_okD [OF assms this] have "r \<in> set rs \<Longrightarrow> \<exists>x. r = new_reloc x BIN_IMAGE_RELOC_32" for r
    by (metis (no_types, lifting) imageE list.set_map)
  then have "rl_width r = 2 \<and> rl_addend r = 0" if "r \<in> set rs" for r using that by (fastforce simp: new_reloc_def)
  then have "\<not> (\<exists>r \<in> set rs. rl_width r \<noteq> 2 \<or> rl_addend r \<noteq> 0)" by blast
  then show "rbind (reloc_offsets rs) (\<lambda>offsets. Inr (i, offsets)) = Inr (i, map rl_offset rs)" by (simp add: reloc_offsets_def)
qed

lemma pad_data_ok: "4 dvd length d \<Longrightarrow> pad_data (Some d) = Inr (d, int (length d) div 4)"
proof -
  assume "4 dvd length d"
  then obtain k where "length d = 4 * k" by (elim dvdE)
  then show ?thesis by (simp add: pad_data_def)
qed

lemma hunk_of_segment_ok:
  assumes "segment_ok n seg"
  shows "hunk_of_segment seg = Inr (hunk_seg seg)"
proof -
  obtain d where d: "sg_data seg = Some d" "int (length d) = sg_size seg" using assms by (auto simp: segment_ok_def split: option.splits)
  have "4 dvd int (length d)" using assms d by (simp add: segment_ok_def)
  then have "4 dvd length d" by presburger
  then have p: "pad_data (sg_data seg) = Inr (d, sg_size seg div 4)" using pad_data_ok [of d] d by simp
  have r: "relocs_ok n seg" and t: "sg_type seg \<in> {SEGMENT_TYPE_CODE, SEGMENT_TYPE_DATA}" and g: "sg_debug seg = None"
    using assms by (simp_all add: segment_ok_def)
  have rl: "add_bin_img_relocs seg h = Inr (h\<lparr>hs_relocs := reloc_block seg\<rparr>)" if "hs_relocs h = None" for h
  proof (cases "sg_relocs seg = []")
    case True
    with that sorted_relocs_id [OF r] show ?thesis by (simp add: add_bin_img_relocs_def reloc_block_def reloc_table_def)
  next
    case False
    then have "seg_relocs seg \<noteq> []" by (simp add: seg_relocs_def)
    with False sorted_relocs_id [OF r] reloc_table_ok [OF r] show ?thesis by (simp add: add_bin_img_relocs_def reloc_block_def setup_relocs_def)
  qed
  have sy: "add_bin_img_symbols seg h = h\<lparr>hs_symbol := symbol_block seg\<rparr>" if "hs_symbol h = None" for h
    using that by (simp add: add_bin_img_symbols_def symbol_block_def setup_symbols_def split: option.split)
  show ?thesis
    using t p g d by (auto simp: hunk_of_segment_def setup_code_def setup_data_def rl sy new_hunk_segment_def add_bin_img_debug_info_def hunk_seg_def main_block_def image_ids)
qed

lemma hs_create_ok: "\<exists>h. hs_create (hunk_seg seg) = Inr (seg_blocks seg, sg_size seg div 4, h)"
  by (auto simp: hs_create_def hunk_seg_def new_hunk_segment_def seg_blocks_def main_block_def opt_list_def symbol_block_def Let_def split: option.splits)

lemma create_all_ok: "\<exists>hs. create_all (map hunk_seg img) = Inr (concat (map (\<lambda>s. seg_blocks s @ [EndB]) img), map (\<lambda>s. sg_size s div 4) img, hs)"
proof (induction img)
  case (Cons s img)
  then obtain hs where hs: "create_all (map hunk_seg img) = Inr (concat (map (\<lambda>s. seg_blocks s @ [EndB]) img), map (\<lambda>s. sg_size s div 4) img, hs)" by blast
  obtain h where h: "hs_create (hunk_seg s) = Inr (seg_blocks s, sg_size s div 4, h)" using hs_create_ok by blast
  show ?case using h hs by simp
qed simp

definition image_blocks :: "image \<Rightarrow> hunk_block list" where
  "image_blocks img = HeaderB [] (int (length img)) 0 (int (length img) - 1) (map (\<lambda>s. sg_size s div 4) img) #
     concat (map (\<lambda>s. seg_blocks s @ [EndB]) img)"

lemma create_block_file_ok: "img \<noteq> [] \<Longrightarrow> \<exists>hs. create_block_file (map hunk_seg img) = Inr (image_blocks img, hs)"
  using create_all_ok [of img] by (auto simp: create_block_file_def header_setup_def image_blocks_def Let_def)

definition plain_block :: "hunk_block \<Rightarrow> bool" where
  "plain_block b \<longleftrightarrow> (case b of LibB _ _ \<Rightarrow> False | _ \<Rightarrow> True)"

lemma plain_block_strip: "plain_block b \<Longrightarrow> strip c = strip b \<Longrightarrow> c = b"
  by (cases b; cases c) (auto simp: plain_block_def)

lemma map_strip_eq: "\<forall>b \<in> set bs. plain_block b \<Longrightarrow> map strip cs = map strip bs \<Longrightarrow> cs = bs"
proof (induction bs arbitrary: cs)
  case (Cons b bs)
  then show ?case by (cases cs) (auto intro: plain_block_strip)
qed simp

lemma seg_blocks_cases: "b \<in> set (seg_blocks seg) \<Longrightarrow> b = main_block seg \<or> reloc_block seg = Some [b] \<or> symbol_block seg = Some b"
  by (auto simp: seg_blocks_def opt_list_def reloc_block_def split: option.splits if_splits)

lemma seg_block_ok:
  assumes "segment_ok n seg" "b \<in> set (seg_blocks seg)"
  shows "block_ok b" "blk_id b \<noteq> HUNK_DREL32" "plain_block b" "blk_id b \<noteq> HUNK_END" "blk_id b \<in> set begin_ids \<longleftrightarrow> b = main_block seg"
    "blk_id b \<in> set begin_ids \<or> blk_id b \<in> set extra_ids"
proof -
  note ok = assms(1) [unfolded segment_ok_def]
  from seg_blocks_cases [OF assms(2)] have "block_ok b \<and> blk_id b \<noteq> HUNK_DREL32 \<and> plain_block b \<and> blk_id b \<noteq> HUNK_END \<and>
    (blk_id b \<in> set begin_ids \<longleftrightarrow> b = main_block seg) \<and> (blk_id b \<in> set begin_ids \<or> blk_id b \<in> set extra_ids)"
  proof (elim disjE)
    assume b: "b = main_block seg"
    obtain d where d: "sg_data seg = Some d" "int (length d) = sg_size seg" using ok by (auto split: option.splits)
    have "long_ok (sg_size seg div 4)" "int (length d) = 4 * (sg_size seg div 4)" using ok d by (auto simp: long_ok_def)
    then show ?thesis using ok d unfolding b by (auto simp: main_block_def plain_block_def begin_ids_def hunk_ids)
  next
    assume b: "reloc_block seg = Some [b]"
    then have "b = (if are_relocs_short (seg_relocs seg) then RelocWordB HUNK_RELOC32SHORT (seg_relocs seg) else RelocLongB HUNK_ABSRELOC32 (seg_relocs seg))"
      by (simp add: reloc_block_def split: if_splits)
    moreover have "\<forall>r \<in> set (seg_relocs seg). hunk_reloc_ok (if are_relocs_short (seg_relocs seg) then word_ok else long_ok) r"
      using ok unfolding relocs_ok_def by blast
    ultimately show ?thesis
      by (auto simp: plain_block_def begin_ids_def extra_ids_def hunk_ids long_reloc_ids_def main_block_def)
  next
    assume "symbol_block seg = Some b"
    then obtain st where st: "sg_symtab seg = Some st" "b = SymbolB (map (\<lambda>(off, name). (name, off)) st)" by (auto simp: symbol_block_def)
    have "\<forall>(off, name) \<in> set st. long_ok off \<and> (case name of None \<Rightarrow> False | Some t \<Rightarrow> text_ok t \<and> t \<noteq> [])"
      using ok st(1) by (simp add: symtab_ok_def)
    then have "block_ok b" unfolding st(2) by (auto simp: case_prod_beta simp del: split_paired_All)
    then show ?thesis unfolding st(2) by (simp add: plain_block_def begin_ids_def extra_ids_def hunk_ids main_block_def)
  qed
  then show "block_ok b" "blk_id b \<noteq> HUNK_DREL32" "plain_block b" "blk_id b \<noteq> HUNK_END" "blk_id b \<in> set begin_ids \<longleftrightarrow> b = main_block seg"
    "blk_id b \<in> set begin_ids \<or> blk_id b \<in> set extra_ids" by blast+
qed

lemma image_blocks_ok:
  assumes "image_ok img" "b \<in> set (image_blocks img)"
  shows "block_ok b" "blk_id b \<noteq> HUNK_DREL32" "plain_block b"
proof -
  have n: "img \<noteq> []" "length img < 2 ^ 32" and s: "\<And>seg. seg \<in> set img \<Longrightarrow> segment_ok (length img) seg" using assms(1) by (auto simp: image_ok_def)
  have z: "0 \<le> sg_size seg div 4 \<and> sg_size seg div 4 < 2 ^ 30" if "seg \<in> set img" for seg
    using s [OF that] by (auto simp: segment_ok_def split: option.splits)
  have l: "long_ok (int (length img))" "long_ok (int (length img) - 1)" "long_ok 0" using n by (auto simp: long_ok_def Suc_le_eq length_greater_0_conv)
  have h: "block_ok (HeaderB [] (int (length img)) 0 (int (length img) - 1) (map (\<lambda>s. sg_size s div 4) img))"
    using l z by (auto simp: header_ok_def)
  consider "b = HeaderB [] (int (length img)) 0 (int (length img) - 1) (map (\<lambda>s. sg_size s div 4) img)" | "b = EndB"
    | seg where "seg \<in> set img" "b \<in> set (seg_blocks seg)"
    using assms(2) by (auto simp: image_blocks_def split: if_splits)
  then have "block_ok b \<and> blk_id b \<noteq> HUNK_DREL32 \<and> plain_block b"
    by cases (use h seg_block_ok [OF s] in \<open>auto simp: plain_block_def hunk_ids\<close>)
  then show "block_ok b" "blk_id b \<noteq> HUNK_DREL32" "plain_block b" by blast+
qed

subsection \<open>Loading the blocks\<close>

lemma split_end_append:
  "\<forall>b \<in> set bs. blk_id b \<noteq> HUNK_END \<and> (blk_id b \<in> set begin_ids \<or> blk_id b \<in> set extra_ids) \<Longrightarrow>
     split_end (bs @ rest) (Some c) = split_end rest (Some (c @ bs))"
  by (induction bs arbitrary: c) (auto simp: add_opt_def)

lemma split_end_segment:
  assumes "segment_ok n seg"
  shows "split_end (seg_blocks seg @ EndB # rest) None = rbind (split_end rest None) (\<lambda>r. Inr (seg_blocks seg # r))"
proof -
  have v: "blk_id b \<noteq> HUNK_END \<and> (blk_id b \<in> set begin_ids \<or> blk_id b \<in> set extra_ids)" if "b \<in> set (seg_blocks seg)" for b
    using seg_block_ok [OF assms that] by blast
  obtain b bs where b: "seg_blocks seg = b # bs" by (simp add: seg_blocks_def)
  have "split_end (seg_blocks seg @ EndB # rest) None = split_end (bs @ EndB # rest) (Some [b])" using v b by (auto simp: add_opt_def)
  also have "\<dots> = split_end (EndB # rest) (Some (seg_blocks seg))" using v b by (subst split_end_append) auto
  also have "\<dots> = rbind (split_end rest None) (\<lambda>r. Inr (seg_blocks seg # r))" by (cases "split_end rest None") simp_all
  finally show ?thesis .
qed

lemma split_end_image:
  "\<forall>seg \<in> set img. segment_ok n seg \<Longrightarrow> split_end (concat (map (\<lambda>s. seg_blocks s @ [EndB]) img)) None = Inr (map seg_blocks img)"
  by (induction img) (simp_all add: split_end_segment [of n])

lemma one_begin:
  assumes "segment_ok n seg"
  shows "length (filter (\<lambda>b. blk_id b \<in> set begin_ids) (seg_blocks seg)) = 1"
proof -
  have "filter (\<lambda>b. blk_id b \<in> set begin_ids) (seg_blocks seg) = filter (\<lambda>b. b = main_block seg) (seg_blocks seg)"
    by (rule filter_cong [OF refl]) (rule seg_block_ok(5) [OF assms])
  also have "\<dots> = [main_block seg]"
    by (auto simp: seg_blocks_def opt_list_def reloc_block_def symbol_block_def main_block_def filter_empty_conv split: option.splits)
  finally show ?thesis by simp
qed

lemma split_all_image: "\<forall>seg \<in> set img. segment_ok n seg \<Longrightarrow> split_all (map seg_blocks img) = Inr (map seg_blocks img)"
  using one_begin [of n] by (induction img) (simp_all add: Let_def)

lemma hs_parse_ok:
  assumes "segment_ok n seg"
  shows "hs_parse (seg_blocks seg) new_hunk_segment = Inr ((hunk_seg seg)\<lparr>hs_blocks := Some (seg_blocks seg)\<rparr>)"
proof -
  have m: "blk_id (main_block seg) \<in> set begin_ids" by (simp add: main_block_def begin_ids_def)
  have r: "\<exists>b. reloc_block seg = Some [b] \<and> blk_id b \<in> {HUNK_ABSRELOC32, HUNK_RELOC32SHORT}" if "reloc_block seg \<noteq> None"
    using that by (auto simp: reloc_block_def)
  show ?thesis
    using m r
    by (auto simp: hs_parse_def seg_blocks_def opt_list_def hunk_seg_def new_hunk_segment_def symbol_block_def parse_one_def add_opt_def
        begin_ids_def hunk_ids split: option.splits)
qed

lemma parse_image_blocks:
  assumes "image_ok img"
  shows "parse_block_file (image_blocks img) =
    Inr (map (\<lambda>s. (hunk_seg s)\<lparr>hs_blocks := Some (seg_blocks s), hs_longs := Some (sg_size s div 4)\<rparr>) img)"
proof -
  have ok: "\<forall>seg \<in> set img. segment_ok (length img) seg" using assms by (simp add: image_ok_def)
  have p: "res_map (\<lambda>l. hs_parse l new_hunk_segment) (map seg_blocks img) = Inr (map (\<lambda>s. (hunk_seg s)\<lparr>hs_blocks := Some (seg_blocks s)\<rparr>) img)"
    using ok hs_parse_ok by (intro res_map_map) blast
  show ?thesis
    unfolding parse_block_file_def image_blocks_def
    by (simp add: split_end_image [OF ok] split_all_image [OF ok] p map2_map_map)
qed

lemma update_fresh: "k \<notin> fst ` set al \<Longrightarrow> AList.update k v al = al @ [(k, v)]"
  by (induction al) auto

lemma map_of_fresh: "k \<notin> fst ` set al \<Longrightarrow> map_of al k = None"
  by (simp add: map_of_eq_None_iff)

lemma add_reloc_entries_ok:
  assumes "distinct (map fst (sg_relocs seg @ L))"
    "\<forall>(i, rs) \<in> set L. 0 \<le> i \<and> i < int n \<and> rs = map (\<lambda>r. new_reloc (rl_offset r) t) rs"
  shows "add_reloc_entries (int n) t (map (\<lambda>(i, rs). (i, map rl_offset rs)) L) seg = Inr (seg\<lparr>sg_relocs := sg_relocs seg @ L\<rparr>)"
  using assms
proof (induction L arbitrary: seg)
  case (Cons e L)
  obtain i rs where e: "e = (i, rs)" by (cases e)
  have i: "0 \<le> i" "i < int n" "map (\<lambda>r. new_reloc (rl_offset r) t) rs = rs" and f: "i \<notin> fst ` set (sg_relocs seg)"
    using Cons.prems e by auto
  have g: "py_get [0..<n] i = Inr (nat i)" using i by (simp add: py_get_def)
  let ?s = "add_reloc i rs seg"
  have s: "sg_relocs ?s = sg_relocs seg @ [(i, rs)]" using f by (simp add: add_reloc_def update_fresh)
  have "add_reloc_entries (int n) t (map (\<lambda>(i, rs). (i, map rl_offset rs)) L) ?s = Inr (?s\<lparr>sg_relocs := sg_relocs ?s @ L\<rparr>)"
    using Cons.prems by (intro Cons.IH) (simp_all add: s e)
  moreover have "?s\<lparr>sg_relocs := sg_relocs ?s @ L\<rparr> = seg\<lparr>sg_relocs := sg_relocs seg @ e # L\<rparr>" unfolding s by (simp add: add_reloc_def e)
  ultimately show ?case using g i map_of_fresh [OF f] by (simp add: e opt_list_def o_def)
qed simp

lemma relocs_of_32: "relocs_ok n seg \<Longrightarrow> \<forall>(i, rs) \<in> set (sg_relocs seg). 0 \<le> i \<and> i < int n \<and> rs = map (\<lambda>r. new_reloc (rl_offset r) BIN_IMAGE_RELOC_32) rs"
  unfolding relocs_ok_def by blast

lemma add_relocs_ok:
  assumes "relocs_ok n seg" "sg_relocs s = []"
  shows "(case reloc_block seg of None \<Rightarrow> Inr s | Some bs \<Rightarrow> add_hunk_relocs (int n) bs s) = Inr (s\<lparr>sg_relocs := sg_relocs seg\<rparr>)"
proof (cases "sg_relocs seg = []")
  case True
  then show ?thesis using assms(2) by (simp add: reloc_block_def)
next
  case False
  have "distinct (map fst (sg_relocs s @ sg_relocs seg))" using assms unfolding relocs_ok_def by simp
  from add_reloc_entries_ok [OF this relocs_of_32 [OF assms(1)]] assms(2) have "add_reloc_entries (int n) BIN_IMAGE_RELOC_32 (seg_relocs seg) s = Inr (s\<lparr>sg_relocs := sg_relocs seg\<rparr>)"
    by (simp add: seg_relocs_def)
  with False show ?thesis by (simp add: reloc_block_def hunk_ids)
qed

lemma segment_of_hunk_ok:
  assumes "segment_ok n seg"
  shows "segment_of_hunk ((hunk_seg seg)\<lparr>hs_blocks := b, hs_longs := Some (sg_size seg div 4)\<rparr>) = Inr (new_segment (sg_type seg) (sg_size seg) (sg_data seg))"
  using assms by (auto simp: segment_ok_def segment_of_hunk_def hunk_seg_def main_block_def new_hunk_segment_def hunk_ids image_ids)

lemma complete_segment_ok:
  assumes "segment_ok n seg"
  shows "complete_segment (int n) ((hunk_seg seg)\<lparr>hs_blocks := b, hs_longs := l\<rparr>) (new_segment (sg_type seg) (sg_size seg) (sg_data seg)) = Inr seg"
proof -
  have r: "relocs_ok n seg" and t: "symtab_ok seg" and g: "sg_debug seg = None" using assms by (simp_all add: segment_ok_def)
  let ?s = "new_segment (sg_type seg) (sg_size seg) (sg_data seg)"
  have a: "(case reloc_block seg of None \<Rightarrow> Inr ?s | Some bs \<Rightarrow> add_hunk_relocs (int n) bs ?s) = Inr (?s\<lparr>sg_relocs := sg_relocs seg\<rparr>)"
    by (rule add_relocs_ok [OF r]) (simp add: new_segment_def)
  have s: "(case symbol_block seg of None \<Rightarrow> Inr s | Some b \<Rightarrow> add_hunk_symbols b s) = Inr (s\<lparr>sg_symtab := sg_symtab seg\<rparr>)" if "sg_symtab s = None" for s
  proof (cases "sg_symtab seg")
    case None
    with that show ?thesis by (simp add: symbol_block_def)
  next
    case (Some st)
    with t have "st \<noteq> []" by (simp add: symtab_ok_def)
    with Some show ?thesis by (simp add: symbol_block_def add_hunk_symbols_def o_def case_prod_beta)
  qed
  let ?h = "(hunk_seg seg)\<lparr>hs_blocks := b, hs_longs := l\<rparr>"
  have h: "hs_relocs ?h = reloc_block seg" "hs_symbol ?h = symbol_block seg" "hs_infos ?h = None" by (simp_all add: hunk_seg_def new_hunk_segment_def)
  have n: "sg_symtab (?s\<lparr>sg_relocs := sg_relocs seg\<rparr>) = None" by (simp add: new_segment_def)
  have e: "?s\<lparr>sg_relocs := sg_relocs seg, sg_symtab := sg_symtab seg\<rparr> = seg" using g by (simp add: new_segment_def)
  show ?thesis
    unfolding complete_segment_def h a rbind_simps s [OF n] option.case e ..
qed

lemma image_file_absolute:
  assumes "image_ok img"
  shows "\<exists>d. save_image img = Inr d \<and> is_image d \<and> load_image d = Inr img"
proof -
  have ne: "img \<noteq> []" and ok: "\<forall>seg \<in> set img. segment_ok (length img) seg" using assms by (auto simp: image_ok_def)
  let ?bs = "image_blocks img"
  have b: "\<forall>b \<in> set ?bs. block_ok b \<and> (True \<longrightarrow> blk_id b \<noteq> HUNK_DREL32)" and pl: "\<forall>b \<in> set ?bs. plain_block b"
    using image_blocks_ok [OF assms] by auto
  obtain d where d: "hunk_written True ?bs d" using hunk_file_written [OF b] by blast
  obtain bs' where w: "hunk_write True 0 ?bs = Inr (d, bs')" using d unfolding hunk_written_def by blast
  obtain cs where "read_until (hunk_item True) (0, d) = Inr (cs, (0 + int (length d), []))" "map strip cs = map strip ?bs"
    using d unfolding hunk_written_def by blast
  then have r: "hunk_read True [] (0, d) = Inr (?bs, (int (length d), []))" using map_strip_eq [OF pl] by (simp add: hunk_read_def)
  have l: "create_load_seg_file_from_image img = Inr (map hunk_seg img)"
    unfolding create_load_seg_file_from_image_def using ok hunk_of_segment_ok by (intro res_map_ok) blast
  obtain hs where c: "create_block_file (map hunk_seg img) = Inr (?bs, hs)" using create_block_file_ok [OF ne] by blast
  have save: "save_image img = Inr d" by (simp add: save_image_def l c w)
  let ?h = "\<lambda>s. (hunk_seg s)\<lparr>hs_blocks := Some (seg_blocks s), hs_longs := Some (sg_size s div 4)\<rparr>"
  let ?n = "\<lambda>s. new_segment (sg_type s) (sg_size s) (sg_data s)"
  have s: "res_map segment_of_hunk (map ?h img) = Inr (map ?n img)"
    using ok segment_of_hunk_ok by (intro res_map_map) blast
  have "zip (map ?h img) (map ?n img) = map (\<lambda>s. (?h s, ?n s)) img" by (simp add: zip_map_map zip_same_conv_map)
  then have "res_map (\<lambda>(h, seg). complete_segment (int (length img)) h seg) (zip (map ?h img) (map ?n img)) = Inr (map (\<lambda>s. s) img)"
    using ok complete_segment_ok by (simp only:) (intro res_map_map, auto)
  then have "create_image_from_load_seg_file (map ?h img) = Inr img" by (simp add: create_image_from_load_seg_file_def s)
  then have load: "load_image d = Inr img" by (simp add: load_image_def r parse_image_blocks [OF assms])
  have "write_long HUNK_HEADER = Inr (be4 HUNK_HEADER)" by (rule write_id) (simp add: known_type_def)
  then have "take 4 d = be4 HUNK_HEADER" using w by (auto simp: image_blocks_def hunk_ids rbind_Inr_iff)
  then have "is_image d" by (simp add: is_image_def peek_type_def f_read_def map_blkid_to_type_def hunk_ids)
  with save load show ?thesis by blast
qed

text \<open>The file keeps the data of a segment, not a larger size it was given, and of a relocation only where it is: the segments are
  as long as their data, the relocations sorted by target and absolute when they are loaded again.\<close>

definition as_saved :: "segment \<Rightarrow> segment" where
  "as_saved seg = seg\<lparr>sg_size := (case sg_data seg of None \<Rightarrow> sg_size seg | Some d \<Rightarrow> int (length d)),
     sg_relocs := map (\<lambda>(i, rs). (i, map (\<lambda>r. new_reloc (rl_offset r) BIN_IMAGE_RELOC_32) rs)) (sorted_relocs seg)\<rparr>"

definition saveable :: "image \<Rightarrow> bool" where
  "saveable img \<longleftrightarrow> image_ok (map as_saved img) \<and>
     (\<forall>seg \<in> set img. \<forall>(i, rs) \<in> set (sg_relocs seg). \<forall>r \<in> set rs. rl_width r = 2 \<and> rl_addend r = 0)"

lemma as_saved_id: "segment_ok n seg \<Longrightarrow> as_saved seg = seg"
proof -
  assume ok: "segment_ok n seg"
  then have r: "relocs_ok n seg" by (simp add: segment_ok_def)
  obtain d where "sg_data seg = Some d" "int (length d) = sg_size seg" using ok by (auto simp: segment_ok_def split: option.splits)
  moreover have "map (\<lambda>(i, rs). (i, map (\<lambda>r. new_reloc (rl_offset r) BIN_IMAGE_RELOC_32) rs)) (sg_relocs seg) = sg_relocs seg"
    using relocs_okD [OF r] by (intro map_idI) fastforce
  ultimately show ?thesis using sorted_relocs_id [OF r] by (simp add: as_saved_def)
qed

lemma hunk_of_as_saved:
  assumes "\<forall>(i, rs) \<in> set (sg_relocs seg). \<forall>r \<in> set rs. rl_width r = 2 \<and> rl_addend r = 0"
    and t: "sg_type seg \<noteq> SEGMENT_TYPE_BSS"
  shows "hunk_of_segment (as_saved seg) = hunk_of_segment seg"
proof -
  let ?f = "\<lambda>(i, rs). (i, map (\<lambda>r. new_reloc (rl_offset r) BIN_IMAGE_RELOC_32) rs)"
  have k: "map fst (map ?f t) = map fst t" for t :: "(int \<times> reloc list) list" by (induction t) auto
  have "sorted (map fst (map ?f (sorted_relocs seg)))" unfolding k by (simp add: sorted_relocs_def)
  from sort_key_id_if_sorted [OF this] have s: "sorted_relocs (as_saved seg) = map ?f (sorted_relocs seg)"
    by (simp add: sorted_relocs_def as_saved_def)
  have o: "reloc_offsets (map (\<lambda>r. new_reloc (rl_offset r) BIN_IMAGE_RELOC_32) rs) = reloc_offsets rs" if "(i, rs) \<in> set (sorted_relocs seg)" for i rs
    using assms(1) that by (auto simp: reloc_offsets_def new_reloc_def sorted_relocs_def)
  have t2: "res_map g (map ?f t) = res_map h t" if "\<forall>x \<in> set t. g (?f x) = h x" for g h and t :: "(int \<times> reloc list) list"
    using that by (induction t) simp_all
  have "reloc_table (sorted_relocs (as_saved seg)) = reloc_table (sorted_relocs seg)"
    unfolding s reloc_table_def using o by (intro t2) auto
  then have "add_bin_img_relocs (as_saved seg) h = add_bin_img_relocs seg h" "add_bin_img_symbols (as_saved seg) h = add_bin_img_symbols seg h"
    "add_bin_img_debug_info (as_saved seg) h = add_bin_img_debug_info seg h" for h
    by (simp_all add: add_bin_img_relocs_def add_bin_img_symbols_def add_bin_img_debug_info_def as_saved_def)
  with t show ?thesis by (simp add: hunk_of_segment_def as_saved_def)
qed

text \<open>C15: an image of code and data segments, whose data is a multiple of four bytes long, without debug information and with no
  empty list of relocations or symbols, is saved as a file of hunks and is an image when it is loaded again: its segments with
  their kind and data, the relocations of each in the order of their targets, in the short or the long form, and the symbols. Two
  things are lost: the size of a segment is that of its data, so a segment that was larger comes back smaller, and a relocation
  relative to the program counter comes back as an absolute one.\<close>

theorem image_file_roundtrip:
  assumes "saveable img"
  shows "\<exists>d. save_image img = Inr d \<and> is_image d \<and> load_image d = Inr (map as_saved img)"
proof -
  from assms have ok: "image_ok (map as_saved img)" by (simp add: saveable_def)
  have "hunk_of_segment (as_saved seg) = hunk_of_segment seg" if "seg \<in> set img" for seg
  proof (rule hunk_of_as_saved)
    have "segment_ok (length img) (as_saved seg)" using ok that by (simp add: image_ok_def)
    then show "sg_type seg \<noteq> SEGMENT_TYPE_BSS" by (auto simp: segment_ok_def as_saved_def image_ids)
    show "\<forall>(i, rs) \<in> set (sg_relocs seg). \<forall>r \<in> set rs. rl_width r = 2 \<and> rl_addend r = 0" using assms that by (simp add: saveable_def)
  qed
  then have "res_map hunk_of_segment (map as_saved img) = res_map hunk_of_segment img" by (induction img) simp_all
  with image_file_absolute [OF ok] show ?thesis by (simp add: save_image_def create_load_seg_file_from_image_def)
qed

text \<open>A program of two segments: code with an absolute and a relative relocation to the data, and symbols.\<close>

definition sample_image :: image where
  "sample_image = [
     \<lparr>sg_type = SEGMENT_TYPE_CODE, sg_size = 12, sg_data = Some [0x20, 0x39, 0, 0, 0, 4, 0, 0, 0, 2, 0x4E, 0x75],
      sg_relocs = [(0, [new_reloc 6 BIN_IMAGE_RELOC_PC32]), (1, [new_reloc 2 BIN_IMAGE_RELOC_32])], sg_symtab = Some [(0, Some [109, 97, 105, 110])], sg_debug = None\<rparr>,
     \<lparr>sg_type = SEGMENT_TYPE_DATA, sg_size = 8, sg_data = Some [1, 2, 3, 4, 0, 0, 0, 0],
      sg_relocs = [(0, [new_reloc 4 BIN_IMAGE_RELOC_32])], sg_symtab = None, sg_debug = None\<rparr>]"

text \<open>The same with a data segment that is larger than its data, and the relocations of the code in another order.\<close>

definition larger_image :: image where
  "larger_image = [(sample_image ! 0)\<lparr>sg_relocs := rev (sg_relocs (sample_image ! 0))\<rparr>, (sample_image ! 1)\<lparr>sg_size := 16\<rparr>]"

lemma larger_image_saveable: "saveable larger_image"
  by (simp add: larger_image_def sample_image_def saveable_def image_ok_def segment_ok_def relocs_ok_def seg_relocs_def are_relocs_short_def hunk_reloc_ok_def
      as_saved_def sorted_relocs_def new_reloc_def image_ids symtab_ok_def long_ok_def word_ok_def text_ok_def name_longs_def)

theorem image_file_roundtrip_witness:
  "\<exists>d img. save_image larger_image = Inr d \<and> is_image d \<and> load_image d = Inr img \<and> map sg_size img = [12, 8] \<and>
     map sg_data img = map sg_data sample_image"
proof -
  have "map sg_size (map as_saved larger_image) = [12, 8]" "map sg_data (map as_saved larger_image) = map sg_data sample_image"
    by (simp_all add: larger_image_def sample_image_def as_saved_def)
  moreover obtain d where "save_image larger_image = Inr d" "is_image d" "load_image d = Inr (map as_saved larger_image)"
    using image_file_roundtrip [OF larger_image_saveable] by blast
  ultimately show ?thesis by (intro exI conjI)
qed

end
