(* ===== verification/Relocation.thy ===== *)
theory Relocation
  imports Image_Files
begin

text \<open>
  Relocating an image to the addresses of its segments (\<open>amitools/binfmt/Relocate.py\<close>): every segment is copied into a buffer
  of its size, and the longs its relocations name are patched in place. The verbose output is left out.
\<close>

subsection \<open>The operations\<close>

text \<open>A loop over a list that threads a state and may raise.\<close>

fun res_fold :: "('a \<Rightarrow> 's \<Rightarrow> 's res) \<Rightarrow> 'a list \<Rightarrow> 's \<Rightarrow> 's res" where
  "res_fold f [] s = Inr s"
| "res_fold f (x # xs) s = rbind (f x s) (res_fold f xs)"

definition get_sizes :: "image \<Rightarrow> int list" where
  "get_sizes img = map sg_size img"

definition get_total_size :: "image \<Rightarrow> int \<Rightarrow> int" where
  "get_total_size img padding = sum_list (map (\<lambda>s. s + padding) (get_sizes img))"

fun seq_addrs :: "int list \<Rightarrow> int \<Rightarrow> int \<Rightarrow> int list" where
  "seq_addrs [] addr padding = []"
| "seq_addrs (s # ss) addr padding = addr # seq_addrs ss (addr + s + padding) padding"

definition get_seq_addrs :: "image \<Rightarrow> int \<Rightarrow> int \<Rightarrow> int list" where
  "get_seq_addrs img base_addr padding = seq_addrs (get_sizes img) base_addr padding"

definition new_bytearray :: "int \<Rightarrow> byte list res" where
  "new_bytearray n = (if n < 0 then Inl ValueError else Inr (replicate (nat n) 0))"

definition copy_data :: "byte list \<Rightarrow> segment \<Rightarrow> int \<Rightarrow> byte list" where
  "copy_data data seg offset = (case sg_data seg of None \<Rightarrow> data | Some src \<Rightarrow> py_slice_set data offset (int (length src) + offset) src)"

definition buf_read_long :: "byte list \<Rightarrow> int \<Rightarrow> int res" where
  "buf_read_long data offset = (let d = py_slice data offset (offset + 4) in if length d \<noteq> 4 then Inl StructError else Inr (be_sint d))"

definition buf_write_long :: "byte list \<Rightarrow> int \<Rightarrow> int \<Rightarrow> byte list res" where
  "buf_write_long data offset v = rbind (pack_s 4 v) (\<lambda>d. Inr (py_slice_set data offset (offset + 4) d))"

definition reloc_one :: "int \<Rightarrow> int \<Rightarrow> int \<Rightarrow> reloc \<Rightarrow> byte list \<Rightarrow> byte list res" where
  "reloc_one my_addr to_addr extra_offset r data =
     (let offset = rl_offset r + extra_offset in
      rbind (buf_read_long data offset) (\<lambda>v. let delta = v + rl_addend r in
      rbind (if rl_type r = BIN_IMAGE_RELOC_32 then Inr (to_addr + delta)
             else if rl_type r = BIN_IMAGE_RELOC_PC32 then Inr (delta + to_addr - my_addr - offset)
             else Inl PlainException) (\<lambda>addr. buf_write_long data offset addr)))"

definition reloc_data :: "nat \<Rightarrow> segment \<Rightarrow> int list \<Rightarrow> int \<Rightarrow> byte list \<Rightarrow> byte list res" where
  "reloc_data my_id seg addrs offset data = rbind (py_get addrs (int my_id)) (\<lambda>my_addr.
     res_fold (\<lambda>(to_id, rs) data. rbind (py_get addrs to_id) (\<lambda>to_addr. res_fold (reloc_one my_addr to_addr offset) rs data)) (sorted_relocs seg) data)"

definition relocate :: "image \<Rightarrow> int list \<Rightarrow> byte list list res" where
  "relocate img addrs = (if length img \<noteq> length addrs then Inl ValueError else
     res_map (\<lambda>(i, seg). rbind (new_bytearray (sg_size seg)) (\<lambda>data. reloc_data i seg addrs 0 (copy_data data seg 0))) (enumerate 0 img))"

text \<open>All segments in one buffer, one after the other.\<close>

definition relocate_one_block :: "image \<Rightarrow> int \<Rightarrow> int \<Rightarrow> byte list res" where
  "relocate_one_block img base_addr padding = rbind (new_bytearray (get_total_size img padding)) (\<lambda>data.
     let addrs = get_seq_addrs img base_addr padding in
     rbind (res_fold (\<lambda>(i, seg) (data, offset). rbind (reloc_data i seg addrs offset (copy_data data seg offset)) (\<lambda>data.
          Inr (data, offset + sg_size seg + padding))) (enumerate 0 img) (data, 0)) (\<lambda>(data, _). Inr data))"

subsection \<open>What a relocation does\<close>

text \<open>The long at a position, and the value a relocation puts there.\<close>

definition long_at :: "byte list \<Rightarrow> int \<Rightarrow> int" where
  "long_at d off = be_sint (take 4 (drop (nat off) d))"

definition reloc_value :: "int \<Rightarrow> int \<Rightarrow> reloc \<Rightarrow> int \<Rightarrow> int" where
  "reloc_value my_addr to_addr r v =
     (if rl_type r = BIN_IMAGE_RELOC_32 then to_addr + (v + rl_addend r) else v + rl_addend r + to_addr - my_addr - rl_offset r)"

definition fits_long :: "int \<Rightarrow> bool" where
  "fits_long v \<longleftrightarrow> - (2 ^ 31) \<le> v \<and> v < 2 ^ 31"

text \<open>A relocation inside a buffer of \<open>n\<close> bytes, and two relocations that do not overlap.\<close>

definition reloc_in :: "int \<Rightarrow> reloc \<Rightarrow> bool" where
  "reloc_in n r \<longleftrightarrow> 0 \<le> rl_offset r \<and> rl_offset r + 4 \<le> n \<and> rl_type r \<in> {BIN_IMAGE_RELOC_32, BIN_IMAGE_RELOC_PC32}"

definition relocs_apart :: "reloc \<Rightarrow> reloc \<Rightarrow> bool" where
  "relocs_apart r r' \<longleftrightarrow> rl_offset r + 4 \<le> rl_offset r' \<or> rl_offset r' + 4 \<le> rl_offset r"

lemma buf_read_ok: "0 \<le> off \<Longrightarrow> off + 4 \<le> int (length d) \<Longrightarrow> buf_read_long d off = Inr (long_at d off)"
  by (simp add: buf_read_long_def long_at_def py_slice_in Let_def)

lemma buf_write_ok:
  assumes "0 \<le> off" "off + 4 \<le> int (length d)" "fits_long v"
  shows "buf_write_long d off v = Inr (take (nat off) d @ be_bytes 4 v @ drop (nat off + 4) d)"
  using assms by (simp add: buf_write_long_def pack_s_def fits_long_def py_slice_set_in nat_add_distrib)

definition patch :: "byte list \<Rightarrow> int \<Rightarrow> int \<Rightarrow> byte list" where
  "patch d off v = take (nat off) d @ be_bytes 4 v @ drop (nat off + 4) d"

lemma patch_ok:
  assumes "0 \<le> off" "off + 4 \<le> int (length d)" "fits_long v"
  shows "length (patch d off v) = length d" "long_at (patch d off v) off = v"
    "off' + 4 \<le> off \<or> off + 4 \<le> off' \<Longrightarrow> 0 \<le> off' \<Longrightarrow> long_at (patch d off v) off' = long_at d off'"
    "int p < off \<or> off + 4 \<le> int p \<Longrightarrow> patch d off v ! p = d ! p"
proof -
  have n: "nat off + 4 \<le> length d" using assms by linarith
  then show l: "length (patch d off v) = length d" by (simp add: patch_def)
  show "long_at (patch d off v) off = v"
    using n assms(3) by (simp add: patch_def long_at_def fits_long_def be_sint_be_bytes)
  show "long_at (patch d off v) off' = long_at d off'" if "off' + 4 \<le> off \<or> off + 4 \<le> off'" "0 \<le> off'"
  proof -
    have "take 4 (drop (nat off') (patch d off v)) = take 4 (drop (nat off') d)"
    proof (cases "off' + 4 \<le> off")
      case True
      with n that(2) have "nat off' + 4 \<le> nat off" by linarith
      with n l show ?thesis by (intro nth_equalityI) (auto simp: patch_def nth_append)
    next
      case False
      with that assms(1) have "nat off + 4 \<le> nat off'" by linarith
      with n show ?thesis by (simp add: patch_def)
    qed
    then show ?thesis by (simp add: long_at_def)
  qed
  show "patch d off v ! p = d ! p" if "int p < off \<or> off + 4 \<le> int p"
    using that n assms(1) by (auto simp: patch_def nth_append)
qed

definition targets :: "segment \<Rightarrow> (int \<times> reloc) list" where
  "targets seg = [(fst tr, r). tr \<leftarrow> sorted_relocs seg, r \<leftarrow> snd tr]"

definition reloc_step :: "int \<Rightarrow> int list \<Rightarrow> int \<times> reloc \<Rightarrow> byte list \<Rightarrow> byte list res" where
  "reloc_step my_addr addrs tr d = reloc_one my_addr (addrs ! nat (fst tr)) 0 (snd tr) d"

lemma res_fold_append: "res_fold f (xs @ ys) s = rbind (res_fold f xs s) (res_fold f ys)"
proof (induction xs arbitrary: s)
  case (Cons x xs)
  then show ?case by (cases "f x s") simp_all
qed simp

lemma res_fold_nested:
  assumes "\<forall>tr \<in> set T. \<forall>s. f tr s = res_fold g (h tr) s"
  shows "res_fold f T s = res_fold g (concat (map h T)) s"
  using assms
proof (induction T arbitrary: s)
  case (Cons tr T)
  then show ?case by (cases "res_fold g (h tr) s") (simp_all add: res_fold_append)
qed simp

lemma reloc_data_flat:
  assumes "my_id < length addrs" "\<forall>(i, rs) \<in> set (sg_relocs seg). 0 \<le> i \<and> i < int (length addrs)"
  shows "reloc_data my_id seg addrs 0 d = res_fold (reloc_step (addrs ! my_id) addrs) (targets seg) d"
proof -
  have s: "set (sorted_relocs seg) = set (sg_relocs seg)" by (simp add: sorted_relocs_def)
  have g: "res_fold (reloc_one a b 0) rs x = res_fold (reloc_step a addrs) (map (Pair i) rs) x" if "b = addrs ! nat i" for a b i rs x
    using that
  proof (induction rs arbitrary: x)
    case (Cons r rs)
    then show ?case by (cases "reloc_one a b 0 r x") (simp_all add: reloc_step_def)
  qed simp
  have t: "targets seg = concat (map (\<lambda>tr. map (Pair (fst tr)) (snd tr)) (sorted_relocs seg))"
    by (simp add: targets_def)
  show ?thesis
    unfolding reloc_data_def t using assms s
    by (simp add: py_get_in) (intro res_fold_nested, auto simp: py_get_in intro!: g)
qed

lemma reloc_fold:
  assumes "\<forall>(i, r) \<in> set T. reloc_in (int (length d)) r" "sorted_wrt (\<lambda>x y. relocs_apart (snd x) (snd y)) T"
    "\<forall>(i, r) \<in> set T. fits_long (reloc_value a (addrs ! nat i) r (long_at d (rl_offset r)))"
  shows "\<exists>e. res_fold (reloc_step a addrs) T d = Inr e \<and> length e = length d \<and>
     (\<forall>(i, r) \<in> set T. long_at e (rl_offset r) = reloc_value a (addrs ! nat i) r (long_at d (rl_offset r))) \<and>
     (\<forall>off. 0 \<le> off \<longrightarrow> (\<forall>(i, r) \<in> set T. off + 4 \<le> rl_offset r \<or> rl_offset r + 4 \<le> off) \<longrightarrow> long_at e off = long_at d off) \<and>
     (\<forall>p. (\<forall>(i, r) \<in> set T. int p < rl_offset r \<or> rl_offset r + 4 \<le> int p) \<longrightarrow> e ! p = d ! p)"
  using assms
proof (induction T arbitrary: d)
  case (Cons x T)
  obtain i r where x: "x = (i, r)" by (cases x)
  let ?o = "rl_offset r" and ?v = "reloc_value a (addrs ! nat i) r (long_at d (rl_offset r))"
  have r: "0 \<le> ?o" "?o + 4 \<le> int (length d)" "rl_type r \<in> {BIN_IMAGE_RELOC_32, BIN_IMAGE_RELOC_PC32}" "fits_long ?v"
    using Cons.prems x by (auto simp: reloc_in_def)
  let ?p = "patch d ?o ?v"
  have st: "reloc_step a addrs x d = Inr ?p"
    using r buf_write_ok [OF r(1,2,4)] by (auto simp: reloc_step_def reloc_one_def x buf_read_ok reloc_value_def patch_def image_ids Let_def)
  have ap: "rl_offset r' + 4 \<le> ?o \<or> ?o + 4 \<le> rl_offset r'" "0 \<le> rl_offset r'" if "(j, r') \<in> set T" for j r'
    using Cons.prems(1,2) that by (auto simp: x relocs_apart_def reloc_in_def)
  have lt: "long_at ?p (rl_offset r') = long_at d (rl_offset r')" if "(j, r') \<in> set T" for j r'
    using patch_ok(3) [OF r(1,2,4) ap(1) ap(2)] that by blast
  have "\<exists>e. res_fold (reloc_step a addrs) T ?p = Inr e \<and> length e = length ?p \<and>
     (\<forall>(j, r) \<in> set T. long_at e (rl_offset r) = reloc_value a (addrs ! nat j) r (long_at ?p (rl_offset r))) \<and>
     (\<forall>off. 0 \<le> off \<longrightarrow> (\<forall>(j, r) \<in> set T. off + 4 \<le> rl_offset r \<or> rl_offset r + 4 \<le> off) \<longrightarrow> long_at e off = long_at ?p off) \<and>
     (\<forall>p. (\<forall>(j, r) \<in> set T. int p < rl_offset r \<or> rl_offset r + 4 \<le> int p) \<longrightarrow> e ! p = ?p ! p)"
  proof (rule Cons.IH)
    show "\<forall>(j, r) \<in> set T. reloc_in (int (length ?p)) r" using Cons.prems(1) patch_ok(1) [OF r(1,2,4)] by simp
    show "sorted_wrt (\<lambda>x y. relocs_apart (snd x) (snd y)) T" using Cons.prems(2) by simp
    show "\<forall>(j, r) \<in> set T. fits_long (reloc_value a (addrs ! nat j) r (long_at ?p (rl_offset r)))" using Cons.prems(3) lt by fastforce
  qed
  then obtain e where e: "res_fold (reloc_step a addrs) T ?p = Inr e" "length e = length ?p"
    "\<And>j r. (j, r) \<in> set T \<Longrightarrow> long_at e (rl_offset r) = reloc_value a (addrs ! nat j) r (long_at ?p (rl_offset r))"
    "\<And>off. 0 \<le> off \<Longrightarrow> (\<forall>(j, r) \<in> set T. off + 4 \<le> rl_offset r \<or> rl_offset r + 4 \<le> off) \<Longrightarrow> long_at e off = long_at ?p off"
    "\<And>p. (\<forall>(j, r) \<in> set T. int p < rl_offset r \<or> rl_offset r + 4 \<le> int p) \<Longrightarrow> e ! p = ?p ! p" by blast
  have o: "long_at e ?o = ?v"
  proof -
    have "long_at e ?o = long_at ?p ?o" using ap r(1) by (intro e(4)) auto
    then show ?thesis using patch_ok(2) [OF r(1,2,4)] by simp
  qed
  have "\<forall>(j, r) \<in> set (x # T). long_at e (rl_offset r) = reloc_value a (addrs ! nat j) r (long_at d (rl_offset r))"
    using o e(3) lt by (auto simp: x)
  moreover have "long_at e off = long_at d off" if "0 \<le> off" "\<forall>(j, r) \<in> set (x # T). off + 4 \<le> rl_offset r \<or> rl_offset r + 4 \<le> off" for off
    using e(4) [of off] patch_ok(3) [OF r(1,2,4), of off] that by (auto simp: x)
  moreover have "e ! p = d ! p" if "\<forall>(j, r) \<in> set (x # T). int p < rl_offset r \<or> rl_offset r + 4 \<le> int p" for p
    using e(5) [of p] patch_ok(4) [OF r(1,2,4), of p] that by (auto simp: x)
  ultimately show ?case using st e(1,2) patch_ok(1) [OF r(1,2,4)] by auto
qed simp

subsection \<open>Relocating segments\<close>

text \<open>The contents of a segment before it is relocated: its data and zeros up to its size.\<close>

definition seg_contents :: "segment \<Rightarrow> byte list" where
  "seg_contents seg = (let d = opt_list (sg_data seg) in d @ replicate (nat (sg_size seg) - length d) 0)"

definition seg_fits :: "segment \<Rightarrow> bool" where
  "seg_fits seg \<longleftrightarrow> int (length (opt_list (sg_data seg))) \<le> sg_size seg"

definition relocatable :: "image \<Rightarrow> int list \<Rightarrow> bool" where
  "relocatable img addrs \<longleftrightarrow> length addrs = length img \<and> (\<forall>k < length img. let seg = img ! k in
     seg_fits seg \<and> (\<forall>(i, rs) \<in> set (sg_relocs seg). 0 \<le> i \<and> i < int (length img)) \<and>
     (\<forall>(i, r) \<in> set (targets seg). reloc_in (sg_size seg) r) \<and> sorted_wrt (\<lambda>x y. relocs_apart (snd x) (snd y)) (targets seg) \<and>
     (\<forall>(i, r) \<in> set (targets seg). fits_long (reloc_value (addrs ! k) (addrs ! nat i) r (long_at (seg_contents seg) (rl_offset r)))))"

definition relocated :: "int \<Rightarrow> int list \<Rightarrow> segment \<Rightarrow> byte list \<Rightarrow> bool" where
  "relocated my_addr addrs seg d \<longleftrightarrow> int (length d) = sg_size seg \<and>
     (\<forall>(i, r) \<in> set (targets seg). long_at d (rl_offset r) = reloc_value my_addr (addrs ! nat i) r (long_at (seg_contents seg) (rl_offset r))) \<and>
     (\<forall>p < length d. (\<forall>(i, r) \<in> set (targets seg). int p < rl_offset r \<or> rl_offset r + 4 \<le> int p) \<longrightarrow> d ! p = seg_contents seg ! p)"

lemma length_seg_contents: "seg_fits seg \<Longrightarrow> int (length (seg_contents seg)) = sg_size seg"
  by (simp add: seg_fits_def seg_contents_def Let_def)

lemma seg_fits_size: "seg_fits seg \<Longrightarrow> 0 \<le> sg_size seg"
  by (simp add: seg_fits_def)

lemma copy_data_at:
  assumes "seg_fits seg"
  shows "copy_data (pre @ replicate (nat (sg_size seg)) 0 @ post) seg (int (length pre)) = pre @ seg_contents seg @ post"
proof (cases "sg_data seg")
  case None
  then show ?thesis by (simp add: copy_data_def seg_contents_def opt_list_def)
next
  case (Some d)
  let ?n = "nat (sg_size seg)"
  have n: "length d \<le> ?n" using assms Some by (simp add: seg_fits_def opt_list_def)
  have "py_slice_set (pre @ replicate ?n 0 @ post) (int (length pre)) (int (length d) + int (length pre)) d =
      pre @ d @ replicate (?n - length d) 0 @ post"
  proof (subst py_slice_set_in)
    have "nat (int (length d) + int (length pre)) = length pre + length d" by linarith
    then show "take (nat (int (length pre))) (pre @ replicate ?n 0 @ post) @ d @ drop (nat (int (length d) + int (length pre))) (pre @ replicate ?n 0 @ post) =
        pre @ d @ replicate (?n - length d) 0 @ post" using n by simp
    show "int (length d) + int (length pre) \<le> int (length (pre @ replicate ?n 0 @ post))" using n by (simp del: int_nat_eq)
  qed simp_all
  with Some show ?thesis by (simp add: copy_data_def seg_contents_def opt_list_def Let_def)
qed

lemma new_bytearray_ok: "seg_fits seg \<Longrightarrow> new_bytearray (sg_size seg) = Inr (replicate (nat (sg_size seg)) 0)"
  using seg_fits_size [of seg] by (simp add: new_bytearray_def)

lemma relocatableD:
  assumes "relocatable img addrs" "k < length img"
  shows "seg_fits (img ! k)" "\<forall>(i, rs) \<in> set (sg_relocs (img ! k)). 0 \<le> i \<and> i < int (length addrs)"
    "\<forall>(i, r) \<in> set (targets (img ! k)). reloc_in (int (length (seg_contents (img ! k)))) r"
    "sorted_wrt (\<lambda>x y. relocs_apart (snd x) (snd y)) (targets (img ! k))"
    "\<forall>(i, r) \<in> set (targets (img ! k)). fits_long (reloc_value (addrs ! k) (addrs ! nat i) r (long_at (seg_contents (img ! k)) (rl_offset r)))"
  using assms length_seg_contents [of "img ! k"] unfolding relocatable_def Let_def by simp_all

lemma reloc_data_ok:
  assumes "relocatable img addrs" "k < length img"
  shows "\<exists>d. reloc_data k (img ! k) addrs 0 (seg_contents (img ! k)) = Inr d \<and> relocated (addrs ! k) addrs (img ! k) d"
proof -
  note R = relocatableD [OF assms]
  have k: "k < length addrs" using assms by (simp add: relocatable_def)
  from reloc_fold [OF R(3-5)] obtain e where e: "res_fold (reloc_step (addrs ! k) addrs) (targets (img ! k)) (seg_contents (img ! k)) = Inr e"
    "length e = length (seg_contents (img ! k))"
    "\<forall>(i, r) \<in> set (targets (img ! k)). long_at e (rl_offset r) = reloc_value (addrs ! k) (addrs ! nat i) r (long_at (seg_contents (img ! k)) (rl_offset r))"
    "\<forall>p. (\<forall>(i, r) \<in> set (targets (img ! k)). int p < rl_offset r \<or> rl_offset r + 4 \<le> int p) \<longrightarrow> e ! p = seg_contents (img ! k) ! p" by blast
  have "relocated (addrs ! k) addrs (img ! k) e"
    unfolding relocated_def using e(2-4) length_seg_contents [OF R(1)] by simp
  with e(1) reloc_data_flat [OF k R(2)] show ?thesis by auto
qed

lemma res_map_enumerate:
  assumes "\<forall>k < length xs. \<exists>y. f (n + k, xs ! k) = Inr y \<and> P k y"
  shows "\<exists>ys. res_map f (enumerate n xs) = Inr ys \<and> length ys = length xs \<and> (\<forall>k < length xs. P k (ys ! k))"
  using assms
proof (induction xs arbitrary: n P)
  case (Cons x xs)
  from Cons.prems have "\<exists>y. f (n + 0, (x # xs) ! 0) = Inr y \<and> P 0 y" by blast
  then obtain y where y: "f (n, x) = Inr y" "P 0 y" by auto
  have "\<forall>k < length xs. \<exists>y. f (Suc n + k, xs ! k) = Inr y \<and> P (Suc k) y"
  proof (intro allI impI)
    fix k
    assume "k < length xs"
    then have "\<exists>y. f (n + Suc k, (x # xs) ! Suc k) = Inr y \<and> P (Suc k) y" using Cons.prems by (intro Cons.prems [rule_format]) simp
    then show "\<exists>y. f (Suc n + k, xs ! k) = Inr y \<and> P (Suc k) y" by simp
  qed
  from Cons.IH [OF this] obtain ys where ys: "res_map f (enumerate (Suc n) xs) = Inr ys" "length ys = length xs" "\<forall>k < length xs. P (Suc k) (ys ! k)"
    by blast
  have "P k ((y # ys) ! k)" if "k < length (x # xs)" for k using that y(2) ys(3) by (cases k) auto
  with y ys show ?case by auto
qed simp

text \<open>C14: relocation gives every segment of the image a buffer of its size in which each long named by a relocation, absolute or
  relative to the program counter, holds the value it had plus the address of the target segment (less the own address and the
  offset), and every other byte is that of the segment, or zero past its data.\<close>

theorem relocate_correct:
  assumes "relocatable img addrs"
  shows "\<exists>ds. relocate img addrs = Inr ds \<and> length ds = length img \<and> (\<forall>k < length img. relocated (addrs ! k) addrs (img ! k) (ds ! k))"
proof -
  let ?f = "\<lambda>(k, seg). rbind (new_bytearray (sg_size seg)) (\<lambda>data. reloc_data k seg addrs 0 (copy_data data seg 0))"
  have "\<forall>k < length img. \<exists>d. ?f (0 + k, img ! k) = Inr d \<and> relocated (addrs ! k) addrs (img ! k) d"
  proof (intro allI impI)
    fix k
    assume k: "k < length img"
    note R = relocatableD [OF assms k]
    have "copy_data (replicate (nat (sg_size (img ! k))) 0) (img ! k) 0 = seg_contents (img ! k)" using copy_data_at [OF R(1), of "[]" "[]"] by simp
    with reloc_data_ok [OF assms k] new_bytearray_ok [OF R(1)] show "\<exists>d. ?f (0 + k, img ! k) = Inr d \<and> relocated (addrs ! k) addrs (img ! k) d" by simp
  qed
  from res_map_enumerate [OF this] show ?thesis using assms by (simp add: relocate_def relocatable_def)
qed

subsection \<open>All segments in one buffer\<close>

text \<open>The relocation of a part of a larger buffer, for absolute relocations.\<close>

definition absolute_only :: "segment \<Rightarrow> bool" where
  "absolute_only seg \<longleftrightarrow> (\<forall>(i, r) \<in> set (targets seg). rl_type r = BIN_IMAGE_RELOC_32)"

text \<open>A relocation inside a larger buffer acts as if the address of its segment were larger by the place of the segment in the
  buffer: one relative to the program counter comes out wrong in every segment but the first.\<close>

lemma reloc_one_at:
  assumes "0 \<le> rl_offset r" "rl_offset r + 4 \<le> int (length d)"
  shows "reloc_one a b (int (length pre)) r (pre @ d @ post) = rbind (reloc_one (a + int (length pre)) b 0 r d) (\<lambda>e. Inr (pre @ e @ post))"
proof -
  let ?n = "nat (rl_offset r)"
  have n: "?n + 4 \<le> length d" "nat (rl_offset r + int (length pre)) = length pre + ?n" "nat (rl_offset r + int (length pre) + 4) = length pre + (?n + 4)"
    "nat (rl_offset r + 4) = ?n + 4" using assms by linarith+
  have i: "0 \<le> rl_offset r + int (length pre)" "rl_offset r + int (length pre) + 4 \<le> int (length (pre @ d @ post))" using assms by simp_all
  have rd: "buf_read_long (pre @ d @ post) (rl_offset r + int (length pre)) = Inr (long_at d (rl_offset r))"
    using buf_read_ok [OF i] n by (simp add: long_at_def)
  have wr: "buf_write_long (pre @ d @ post) (rl_offset r + int (length pre)) v = rbind (buf_write_long d (rl_offset r) v) (\<lambda>e. Inr (pre @ e @ post))" for v
  proof (cases "pack_s 4 v")
    case (Inr w)
    then show ?thesis using i assms n by (simp add: buf_write_long_def py_slice_set_in)
  qed (simp add: buf_write_long_def)
  show ?thesis using assms rd wr buf_read_ok [OF assms] by (simp add: reloc_one_def Let_def algebra_simps)
qed

lemma reloc_one_shift:
  assumes "rl_type r = BIN_IMAGE_RELOC_32" "0 \<le> rl_offset r" "rl_offset r + 4 \<le> int (length d)"
  shows "reloc_one a b (int (length pre)) r (pre @ d @ post) = rbind (reloc_one a' b 0 r d) (\<lambda>e. Inr (pre @ e @ post))"
  unfolding reloc_one_at [OF assms(2,3)] using assms(1) by (simp add: reloc_one_def)

lemma reloc_one_length: "reloc_one a b 0 r d = Inr e \<Longrightarrow> 0 \<le> rl_offset r \<Longrightarrow> rl_offset r + 4 \<le> int (length d) \<Longrightarrow> length e = length d"
  by (auto simp: reloc_one_def buf_write_long_def Let_def rbind_Inr_iff pack_s_def py_slice_set_in split: if_splits)

text \<open>The address of the segment itself does not matter for absolute relocations.\<close>

lemma reloc_data_shift:
  assumes "k < length addrs" "\<forall>(i, rs) \<in> set (sg_relocs seg). 0 \<le> i \<and> i < int (length addrs)" "absolute_only seg"
    "\<forall>(i, r) \<in> set (targets seg). reloc_in (int (length d)) r"
  shows "reloc_data k seg addrs (int (length pre)) (pre @ d @ post) = rbind (reloc_data k seg addrs 0 d) (\<lambda>e. Inr (pre @ e @ post))"
proof -
  define step where "step = (\<lambda>tr :: int \<times> reloc. reloc_one (addrs ! k) (addrs ! nat (fst tr)) (int (length pre)) (snd tr))"
  have s: "set (sorted_relocs seg) = set (sg_relocs seg)" by (simp add: sorted_relocs_def)
  have g: "res_fold (reloc_one (addrs ! k) (addrs ! nat i) (int (length pre))) rs x = res_fold step (map (Pair i) rs) x" for i rs x
  proof (induction rs arbitrary: x)
    case (Cons r rs)
    then show ?case by (cases "reloc_one (addrs ! k) (addrs ! nat i) (int (length pre)) r x") (simp_all add: step_def)
  qed simp
  have t: "targets seg = concat (map (\<lambda>tr. map (Pair (fst tr)) (snd tr)) (sorted_relocs seg))" by (simp add: targets_def)
  have l: "reloc_data k seg addrs (int (length pre)) x = res_fold step (targets seg) x" for x
    unfolding reloc_data_def t using assms(1,2) s
    by (simp add: py_get_in) (intro res_fold_nested, auto simp: py_get_in intro!: g)
  have loop: "res_fold step T (pre @ d @ post) = rbind (res_fold (reloc_step (addrs ! k) addrs) T d) (\<lambda>e. Inr (pre @ e @ post))"
    if "\<forall>(i, r) \<in> set T. rl_type r = BIN_IMAGE_RELOC_32 \<and> reloc_in (int (length d)) r" for T d
    using that
  proof (induction T arbitrary: d)
    case (Cons x T)
    obtain i r where x: "x = (i, r)" by (cases x)
    have r: "rl_type r = BIN_IMAGE_RELOC_32" "0 \<le> rl_offset r" "rl_offset r + 4 \<le> int (length d)" using Cons.prems by (auto simp: x reloc_in_def)
    have e: "step x (pre @ d @ post) = rbind (reloc_step (addrs ! k) addrs x d) (\<lambda>e. Inr (pre @ e @ post))"
      using reloc_one_shift [OF r] by (simp add: step_def reloc_step_def x)
    show ?case
    proof (cases "reloc_step (addrs ! k) addrs x d")
      case (Inr d')
      then have "length d' = length d" using reloc_one_length r by (simp add: reloc_step_def x)
      with Cons.prems Inr e show ?thesis by (simp add: Cons.IH)
    qed (simp add: e)
  qed simp
  have "\<forall>(i, r) \<in> set (targets seg). rl_type r = BIN_IMAGE_RELOC_32 \<and> reloc_in (int (length d)) r"
    using assms(3,4) unfolding absolute_only_def by blast
  from loop [OF this] show ?thesis unfolding l reloc_data_flat [OF assms(1,2)] .
qed

lemma seq_addrs_length [simp]: "length (seq_addrs ss a p) = length ss"
  by (induction ss a p rule: seq_addrs.induct) simp_all

definition pad :: "int \<Rightarrow> byte list \<Rightarrow> byte list" where "pad p d = d @ replicate (nat p) 0"

lemma one_block_loop:
  assumes "relocatable img addrs" "\<forall>seg \<in> set img. absolute_only seg" "0 \<le> p" "n + length segs = length img" "segs = drop n img"
    "res_map (\<lambda>(i, seg). rbind (new_bytearray (sg_size seg)) (\<lambda>data. reloc_data i seg addrs 0 (copy_data data seg 0))) (enumerate n segs) = Inr ds"
  shows "res_fold (\<lambda>(i, seg) (data, offset). rbind (reloc_data i seg addrs offset (copy_data data seg offset)) (\<lambda>data. Inr (data, offset + sg_size seg + p)))
      (enumerate n segs) (pre @ replicate (nat (sum_list (map (\<lambda>s. sg_size s + p) segs))) 0, int (length pre)) =
    Inr (pre @ concat (map (pad p) ds), int (length pre) + sum_list (map (\<lambda>s. sg_size s + p) segs))"
  using assms(4-)
proof (induction segs arbitrary: n pre ds)
  case (Cons seg segs)
  have n0: "n < length img" using Cons.prems(1) by simp
  have "seg # segs = img ! n # drop (Suc n) img" using Cons.prems(2) Cons_nth_drop_Suc [OF n0] by simp
  with n0 have n: "n < length img" "img ! n = seg" "segs = drop (Suc n) img" by simp_all
  note R = relocatableD [OF assms(1) n(1), unfolded n(2)]
  have na: "n < length addrs" using assms(1) n(1) by (simp add: relocatable_def)
  have ab: "absolute_only seg" using assms(2) n(1,2) nth_mem by blast
  have sz: "0 \<le> sg_size seg" by (rule seg_fits_size [OF R(1)])
  have szs: "0 \<le> sum_list (map (\<lambda>s. sg_size s + p) segs)"
  proof (rule sum_list_nonneg)
    fix x
    assume "x \<in> set (map (\<lambda>s. sg_size s + p) segs)"
    then obtain s where "s \<in> set img" "x = sg_size s + p" using n(3) by (auto dest: in_set_dropD)
    then obtain j where j: "j < length img" "x = sg_size (img ! j) + p" by (auto simp: in_set_conv_nth)
    show "0 \<le> x" using seg_fits_size [OF relocatableD(1) [OF assms(1) j(1)]] assms(3) j(2) by simp
  qed
  have c0: "copy_data (replicate (nat (sg_size seg)) 0) seg 0 = seg_contents seg" using copy_data_at [OF R(1), of "[]" "[]"] by simp
  obtain d where d: "reloc_data n seg addrs 0 (seg_contents seg) = Inr d" "relocated (addrs ! n) addrs seg d"
    using reloc_data_ok [OF assms(1) n(1)] n(2) by auto
  have ld: "int (length d) = sg_size seg" using d(2) by (simp add: relocated_def)
  obtain ds' where ds: "ds = d # ds'" "res_map (\<lambda>(i, seg). rbind (new_bytearray (sg_size seg)) (\<lambda>data. reloc_data i seg addrs 0 (copy_data data seg 0)))
      (enumerate (Suc n) segs) = Inr ds'"
    using Cons.prems(3) new_bytearray_ok [OF R(1)] c0 d(1) by (auto simp: rbind_Inr_iff)
  let ?rest = "nat (sum_list (map (\<lambda>s. sg_size s + p) segs))"
  have z: "replicate (nat (sum_list (map (\<lambda>s. sg_size s + p) (seg # segs)))) 0 =
      replicate (nat (sg_size seg)) (0 :: byte) @ replicate (nat p) 0 @ replicate ?rest 0"
    using sz szs assms(3) by (simp add: nat_add_distrib replicate_add)
  have st: "reloc_data n seg addrs (int (length pre)) (copy_data (pre @ replicate (nat (sum_list (map (\<lambda>s. sg_size s + p) (seg # segs)))) 0) seg (int (length pre))) =
      Inr (pre @ d @ replicate (nat p) 0 @ replicate ?rest 0)"
    unfolding z copy_data_at [OF R(1)] using reloc_data_shift [OF na R(2) ab R(3)] d(1) by simp
  have q: "int (length pre) + sg_size seg + p = int (length (pre @ pad p d))" using ld assms(3) by (simp add: pad_def)
  have w: "pre @ d @ replicate (nat p) 0 @ replicate ?rest 0 = (pre @ pad p d) @ replicate ?rest 0" by (simp add: pad_def)
  have "res_fold (\<lambda>(i, seg) (data, offset). rbind (reloc_data i seg addrs offset (copy_data data seg offset)) (\<lambda>data. Inr (data, offset + sg_size seg + p)))
      (enumerate (Suc n) segs) ((pre @ pad p d) @ replicate ?rest 0, int (length (pre @ pad p d))) =
    Inr ((pre @ pad p d) @ concat (map (pad p) ds'), int (length (pre @ pad p d)) + sum_list (map (\<lambda>s. sg_size s + p) segs))"
    using Cons.prems(1) n(3) ds(2) by (intro Cons.IH) simp_all
  then show ?case unfolding enumerate_simps res_fold.simps prod.case st rbind_simps q w using ds(1) q by (simp del: length_append)
qed simp

text \<open>C40: relocating an image with absolute relocations in one block, at consecutive addresses with padding between the segments,
  gives the very bytes of relocating it segment by segment to those addresses.\<close>

theorem relocate_one_block_agrees:
  assumes "relocatable img (get_seq_addrs img base p)" "\<forall>seg \<in> set img. absolute_only seg" "0 \<le> p"
  shows "\<exists>ds. relocate img (get_seq_addrs img base p) = Inr ds \<and> relocate_one_block img base p = Inr (concat (map (pad p) ds))"
proof -
  let ?a = "get_seq_addrs img base p"
  obtain ds where ds: "relocate img ?a = Inr ds" using relocate_correct [OF assms(1)] by blast
  have "0 \<le> get_total_size img p"
    unfolding get_total_size_def get_sizes_def map_map
  proof (rule sum_list_nonneg)
    fix x
    assume "x \<in> set (map ((\<lambda>s. s + p) \<circ> sg_size) img)"
    then obtain j where j: "j < length img" "x = sg_size (img ! j) + p" by (auto simp: in_set_conv_nth)
    show "0 \<le> x" using seg_fits_size [OF relocatableD(1) [OF assms(1) j(1)]] assms(3) j(2) by simp
  qed
  then have n: "new_bytearray (get_total_size img p) = Inr (replicate (nat (get_total_size img p)) 0)" by (simp add: new_bytearray_def)
  have l: "length ?a = length img" by (simp add: get_seq_addrs_def get_sizes_def)
  have t: "get_total_size img p = sum_list (map (\<lambda>s. sg_size s + p) img)" by (simp add: get_total_size_def get_sizes_def o_def)
  have "res_map (\<lambda>(i, seg). rbind (new_bytearray (sg_size seg)) (\<lambda>data. reloc_data i seg ?a 0 (copy_data data seg 0))) (enumerate 0 img) = Inr ds"
    using ds l by (simp add: relocate_def)
  from one_block_loop [OF assms, of 0 img, OF _ _ this, of "[]"]
  have "relocate_one_block img base p = Inr (concat (map (pad p) ds))" unfolding relocate_one_block_def n by (simp add: t Let_def)
  with ds show ?thesis by blast
qed

subsection \<open>An example\<close>

definition sample_addrs :: "int list" where "sample_addrs = [0x1000, 0x2000]"

lemma sample_targets:
  "targets (sample_image ! 0) = [(0, new_reloc 6 BIN_IMAGE_RELOC_PC32), (1, new_reloc 2 BIN_IMAGE_RELOC_32)]"
  "targets (sample_image ! 1) = [(0, new_reloc 4 BIN_IMAGE_RELOC_32)]"
  by (simp_all add: targets_def sorted_relocs_def sample_image_def)

lemma sample_contents:
  "seg_contents (sample_image ! 0) = [0x20, 0x39, 0, 0, 0, 4, 0, 0, 0, 2, 0x4E, 0x75]"
  "seg_contents (sample_image ! 1) = [1, 2, 3, 4, 0, 0, 0, 0]"
  by (simp_all add: seg_contents_def sample_image_def opt_list_def)

lemma sample_longs:
  "long_at (seg_contents (sample_image ! 0)) 6 = 2" "long_at (seg_contents (sample_image ! 0)) 2 = 4" "long_at (seg_contents (sample_image ! 1)) 4 = 0"
  unfolding sample_contents by (simp_all add: long_at_def be_sint_def be_int_def Let_def)

lemma sample_fits: "seg_fits (sample_image ! 0)" "seg_fits (sample_image ! 1)"
  by (simp_all add: seg_fits_def sample_image_def opt_list_def)

lemma less_2: "(\<forall>k < (2::nat). P k) \<longleftrightarrow> P 0 \<and> P 1"
  by (auto simp: less_2_cases_iff)

lemma sample_relocatable: "relocatable sample_image sample_addrs"
proof -
  have l: "length sample_image = 2" "length sample_addrs = 2" by (simp_all add: sample_image_def sample_addrs_def)
  have z: "sg_size (sample_image ! 0) = 12" "sg_size (sample_image ! 1) = 8" by (simp_all add: sample_image_def)
  have r: "\<forall>(i, rs) \<in> set (sg_relocs (sample_image ! 0)). 0 \<le> i \<and> i < int 2" "\<forall>(i, rs) \<in> set (sg_relocs (sample_image ! 1)). 0 \<le> i \<and> i < int 2"
    by (simp_all add: sample_image_def)
  have v: "sample_addrs ! 0 = 0x1000" "sample_addrs ! 1 = 0x2000" by (simp_all add: sample_addrs_def)
  have i: "\<forall>(i, r) \<in> set (targets (sample_image ! 0)). reloc_in 12 r" "\<forall>(i, r) \<in> set (targets (sample_image ! 1)). reloc_in 8 r"
    unfolding sample_targets by (simp_all add: reloc_in_def new_reloc_def)
  have s: "sorted_wrt (\<lambda>x y. relocs_apart (snd x) (snd y)) (targets (sample_image ! 0))" "sorted_wrt (\<lambda>x y. relocs_apart (snd x) (snd y)) (targets (sample_image ! 1))"
    unfolding sample_targets by (simp_all add: relocs_apart_def new_reloc_def)
  have o: "rl_offset (new_reloc x t) = x" for x t by (simp add: new_reloc_def)
  have f: "\<forall>(i, r) \<in> set (targets (sample_image ! 0)). fits_long (reloc_value (sample_addrs ! 0) (sample_addrs ! nat i) r (long_at (seg_contents (sample_image ! 0)) (rl_offset r)))"
    "\<forall>(i, r) \<in> set (targets (sample_image ! 1)). fits_long (reloc_value (sample_addrs ! 1) (sample_addrs ! nat i) r (long_at (seg_contents (sample_image ! 1)) (rl_offset r)))"
    unfolding sample_targets by (simp_all add: o sample_longs v [simplified] del: One_nat_def) (simp_all add: sample_addrs_def reloc_value_def new_reloc_def image_ids fits_long_def)
  show ?thesis
    unfolding relocatable_def l Let_def less_2 z using sample_fits r i s f by blast
qed

theorem relocate_correct_witness:
  "\<exists>ds. relocate sample_image sample_addrs = Inr ds \<and> length ds = length sample_image \<and>
     (\<forall>k < length sample_image. relocated (sample_addrs ! k) sample_addrs (sample_image ! k) (ds ! k))"
  by (rule relocate_correct [OF sample_relocatable])

definition sample_data_image :: image where
  "sample_data_image = [sample_image ! 1, sample_image ! 1]"

lemma sample_data_relocatable:
  "relocatable sample_data_image (get_seq_addrs sample_data_image 0x2000 4)" "\<forall>seg \<in> set sample_data_image. absolute_only seg"
proof -
  have l: "length sample_data_image = 2" and n: "sample_data_image ! 0 = sample_image ! 1" "sample_data_image ! 1 = sample_image ! 1"
    by (simp_all add: sample_data_image_def)
  have z: "sg_size (sample_image ! 1) = 8" by (simp add: sample_image_def)
  have a: "get_seq_addrs sample_data_image 0x2000 4 = [0x2000, 0x200C]" using z by (simp add: get_seq_addrs_def get_sizes_def sample_data_image_def)
  have r: "\<forall>(i, rs) \<in> set (sg_relocs (sample_image ! 1)). 0 \<le> i \<and> i < int 2" by (simp add: sample_image_def)
  have i: "\<forall>(i, r) \<in> set (targets (sample_image ! 1)). reloc_in 8 r" unfolding sample_targets by (simp add: reloc_in_def new_reloc_def)
  have s: "sorted_wrt (\<lambda>x y. relocs_apart (snd x) (snd y)) (targets (sample_image ! 1))" unfolding sample_targets by simp
  have o: "rl_offset (new_reloc x t) = x" for x t by (simp add: new_reloc_def)
  have f: "\<forall>(i, r) \<in> set (targets (sample_image ! 1)). fits_long (reloc_value m ([0x2000, 0x200C] ! nat i) r (long_at (seg_contents (sample_image ! 1)) (rl_offset r)))" for m
    unfolding sample_targets by (simp add: o sample_longs del: One_nat_def) (simp add: reloc_value_def new_reloc_def image_ids fits_long_def)
  have l2: "length [0x2000 :: int, 0x200C] = 2" by simp
  show "relocatable sample_data_image (get_seq_addrs sample_data_image 0x2000 4)"
    unfolding a relocatable_def l l2 Let_def less_2 n z using sample_fits r i s f by blast
  have "absolute_only (sample_image ! 1)" unfolding absolute_only_def sample_targets by (simp add: new_reloc_def)
  then show "\<forall>seg \<in> set sample_data_image. absolute_only seg" by (simp add: sample_data_image_def)
qed

theorem relocate_one_block_agrees_witness:
  "\<exists>ds. relocate sample_data_image (get_seq_addrs sample_data_image 0x2000 4) = Inr ds \<and>
     relocate_one_block sample_data_image 0x2000 4 = Inr (concat (map (pad 4) ds))"
  by (rule relocate_one_block_agrees [OF sample_data_relocatable]) simp

end
