(* ===== verification/Seg_Load.thy ===== *)
theory Seg_Load
  imports Relocation Mem_Alloc_Inv Memory
begin

text \<open>
  Loading a program into the memory of the machine (\<open>amitools/vamos/loader/seglist.py\<close> and \<open>segload.py\<close>): the segments of an
  image are allocated and linked, relocated to their addresses and written. The state is the allocator with the memory, the
  table of memory objects it keeps and the table of loaded programs. Labels and logging are left out, and so is the search for
  the file on the host: a load gets the bytes of the file. The loader for the other format, ELF, is a parameter.
\<close>

record load_mgr =
  lm_alloc :: mem_alloc
  lm_objs :: "int \<rightharpoonup> int"
  lm_infos :: "int \<rightharpoonup> image"

abbreviation lm_mem :: "load_mgr \<Rightarrow> mem" where "lm_mem s \<equiv> ma_mem (lm_alloc s)"
abbreviation lm_live :: "load_mgr \<Rightarrow> int \<rightharpoonup> int" where "lm_live s \<equiv> ma_addrs (lm_alloc s)"

subsection \<open>Memory objects\<close>

definition set_mem :: "mem \<Rightarrow> load_mgr \<Rightarrow> load_mgr" where
  "set_mem m s = s\<lparr>lm_alloc := (lm_alloc s)\<lparr>ma_mem := m\<rparr>\<rparr>"

definition lm_w32 :: "int \<Rightarrow> int \<Rightarrow> load_mgr \<Rightarrow> load_mgr" where
  "lm_w32 a v s = set_mem (wr32 (lm_mem s) a v) s"

definition lm_w_block :: "int \<Rightarrow> byte list \<Rightarrow> load_mgr \<Rightarrow> load_mgr" where
  "lm_w_block a d s = set_mem (wr_block (lm_mem s) a d) s"

text \<open>\<open>alloc_memory\<close> with its default to raise on failure gives the address of the object, or None.\<close>

definition alloc_memory :: "int \<Rightarrow> load_mgr \<Rightarrow> (load_mgr \<times> int option res) option" where
  "alloc_memory n s = (case alloc_mem n True (lm_alloc s) of
       None \<Rightarrow> None
     | Some (a', Inl e) \<Rightarrow> Some (s\<lparr>lm_alloc := a'\<rparr>, Inl e)
     | Some (a', Inr addr) \<Rightarrow> Some (if addr = 0 then (s\<lparr>lm_alloc := a'\<rparr>, Inr None)
         else (s\<lparr>lm_alloc := a', lm_objs := (lm_objs s)(addr \<mapsto> n)\<rparr>, Inr (Some addr))))"

definition free_memory :: "int \<Rightarrow> int \<Rightarrow> load_mgr \<Rightarrow> (load_mgr \<times> unit res) option" where
  "free_memory addr n s = (case free_mem addr n (lm_alloc s) of
       None \<Rightarrow> None
     | Some (a', Inl e) \<Rightarrow> Some (s\<lparr>lm_alloc := a'\<rparr>, Inl e)
     | Some (a', Inr _) \<Rightarrow> Some (s\<lparr>lm_alloc := a', lm_objs := (lm_objs s)(addr := None)\<rparr>, Inr ()))"

subsection \<open>Segment lists\<close>

text \<open>A segment list is its BCPL address, a quarter of that of its link word; the size of its block is in the long before.\<close>

partial_function (option) get_all_segments :: "mem \<Rightarrow> int \<Rightarrow> (int \<times> int) list option" where
  "get_all_segments m baddr =
     (let addr = baddr * 4; next = rd32 m addr; seg = (addr + 4, rd32 m (addr - 4) - 8)
      in if next = 0 then Some [seg] else Option.bind (get_all_segments m next) (\<lambda>r. Some (seg # r)))"

definition get_all_addrs :: "mem \<Rightarrow> int \<Rightarrow> int list option" where
  "get_all_addrs m baddr = map_option (map fst) (get_all_segments m baddr)"

definition get_all_sizes :: "mem \<Rightarrow> int \<Rightarrow> int list option" where
  "get_all_sizes m baddr = map_option (map snd) (get_all_segments m baddr)"

definition seg_bytes :: "int \<Rightarrow> int" where "seg_bytes n = align4 n + 8"

text \<open>The loop of \<open>alloc\<close> with its variables \<open>last_addr\<close> and \<open>first_addr\<close>; without a segment the address written after the
  loop is not bound.\<close>

fun alloc_segs :: "int list \<Rightarrow> int \<Rightarrow> int option \<Rightarrow> load_mgr \<Rightarrow> (load_mgr \<times> (int \<times> int option) res) option" where
  "alloc_segs [] last_addr first s = Some (s, Inr (last_addr, first))"
| "alloc_segs (n # ns) last_addr first s = (case alloc_memory (seg_bytes n) s of
       None \<Rightarrow> None
     | Some (s, Inl e) \<Rightarrow> Some (s, Inl e)
     | Some (s, Inr None) \<Rightarrow> Some (s, Inl AttributeError)
     | Some (s, Inr (Some a)) \<Rightarrow>
         let s = lm_w32 a (seg_bytes n) s; s = (if last_addr \<noteq> 0 then lm_w32 (last_addr + 4) ((a + 4) div 4) s else s)
         in alloc_segs ns a (Some (case first of None \<Rightarrow> a | Some f \<Rightarrow> f)) s)"

definition seg_list_alloc :: "int list \<Rightarrow> load_mgr \<Rightarrow> (load_mgr \<times> int res) option" where
  "seg_list_alloc sizes s = (case alloc_segs sizes 0 None s of
       None \<Rightarrow> None
     | Some (s, Inl e) \<Rightarrow> Some (s, Inl e)
     | Some (s, Inr (last_addr, None)) \<Rightarrow> Some (s, Inl NameError)
     | Some (s, Inr (last_addr, Some first)) \<Rightarrow> Some (lm_w32 (last_addr + 4) 0 s, Inr ((first + 4) div 4)))"

partial_function (option) seg_list_free :: "int \<Rightarrow> load_mgr \<Rightarrow> (load_mgr \<times> unit res) option" where
  "seg_list_free addr s = (if addr = 0 then Some (s, Inr ()) else
     let next_baddr = rd32 (lm_mem s) addr in
     (case lm_objs s (addr - 4) of
        None \<Rightarrow> Some (s, Inl AssertionError)
      | Some n \<Rightarrow> Option.bind (free_memory (addr - 4) n s) (\<lambda>p. case p of
            (s, Inl e) \<Rightarrow> Some (s, Inl e) | (s, Inr _) \<Rightarrow> seg_list_free (next_baddr * 4) s)))"

subsection \<open>The loader\<close>

definition bin_load_image :: "(byte list \<Rightarrow> image option res) \<Rightarrow> byte list \<Rightarrow> image option res" where
  "bin_load_image elf d = (if is_image d then rbind (load_image d) (\<lambda>img. Inr (Some img)) else elf d)"

fun write_segments :: "(int \<times> byte list) list \<Rightarrow> load_mgr \<Rightarrow> load_mgr" where
  "write_segments [] s = s"
| "write_segments ((a, d) # r) s = write_segments r (lm_w_block a d s)"

text \<open>The result is the address of the list and the image, or None.\<close>

definition int_load_sys_seglist :: "(byte list \<Rightarrow> image option res) \<Rightarrow> byte list \<Rightarrow> load_mgr \<Rightarrow> (load_mgr \<times> (int \<times> image) option res) option" where
  "int_load_sys_seglist elf d s = (case bin_load_image elf d of
       Inl e \<Rightarrow> Some (s, Inl e)
     | Inr None \<Rightarrow> Some (s, Inr None)
     | Inr (Some img) \<Rightarrow> (case seg_list_alloc (get_sizes img) s of
           None \<Rightarrow> None
         | Some (s, Inl e) \<Rightarrow> Some (s, Inl e)
         | Some (s, Inr baddr) \<Rightarrow> (case get_all_addrs (lm_mem s) baddr of
               None \<Rightarrow> None
             | Some addrs \<Rightarrow> (case relocate img addrs of
                   Inl e \<Rightarrow> Some (s, Inl e)
                 | Inr datas \<Rightarrow> Some (write_segments (zip addrs datas) s, Inr (Some (baddr, img)))))))"

definition load_sys_seglist :: "(byte list \<Rightarrow> image option res) \<Rightarrow> byte list \<Rightarrow> load_mgr \<Rightarrow> (load_mgr \<times> int res) option" where
  "load_sys_seglist elf d s = (case int_load_sys_seglist elf d s of
       None \<Rightarrow> None
     | Some (s, Inl e) \<Rightarrow> Some (s, Inl e)
     | Some (s, Inr None) \<Rightarrow> Some (s, Inr 0)
     | Some (s, Inr (Some (baddr, img))) \<Rightarrow> Some (s\<lparr>lm_infos := (lm_infos s)(baddr \<mapsto> img)\<rparr>, Inr baddr))"

definition unload_seglist :: "int \<Rightarrow> load_mgr \<Rightarrow> (load_mgr \<times> bool res) option" where
  "unload_seglist baddr s = (if lm_infos s baddr = None then Some (s, Inr False) else
     (case seg_list_free (baddr * 4) (s\<lparr>lm_infos := (lm_infos s)(baddr := None)\<rparr>) of
        None \<Rightarrow> None
      | Some (s, Inl e) \<Rightarrow> Some (s, Inl e)
      | Some (s, Inr _) \<Rightarrow> Some (s, Inr True)))"

subsection \<open>Allocating a segment list\<close>

lemma ma_inv_mem [simp]: "ma_inv (s\<lparr>ma_mem := m\<rparr>) \<longleftrightarrow> ma_inv s"
proof -
  have "blk_of (s\<lparr>ma_mem := m\<rparr>) = blk_of s" by (simp add: fun_eq_iff blk_of_def)
  moreover have "chain_ok (s\<lparr>ma_mem := m\<rparr>) = chain_ok s" by (simp add: fun_eq_iff chain_ok_def)
  ultimately show ?thesis by (simp add: ma_inv_def alloc_rel_def)
qed

lemma set_mem_simps [simp]:
  "lm_mem (set_mem m s) = m" "lm_objs (set_mem m s) = lm_objs s" "lm_infos (set_mem m s) = lm_infos s" "lm_live (set_mem m s) = lm_live s"
  "ma_addr (lm_alloc (set_mem m s)) = ma_addr (lm_alloc s)" "ma_size (lm_alloc (set_mem m s)) = ma_size (lm_alloc s)"
  "free_bytes (lm_alloc (set_mem m s)) = free_bytes (lm_alloc s)" "ma_inv (lm_alloc (set_mem m s)) \<longleftrightarrow> ma_inv (lm_alloc s)"
  by (simp_all add: set_mem_def)

text \<open>What allocating a list of blocks has done to the state: they are new and disjoint, and the memory outside them is as it was,
  but for the link word of the block before.\<close>

definition outside :: "(int \<times> int) list \<Rightarrow> int \<Rightarrow> bool" where
  "outside bs x \<longleftrightarrow> (\<forall>(a, n) \<in> set bs. x < a \<or> a + n \<le> x)"

definition blocks_added :: "load_mgr \<Rightarrow> (int \<times> int) list \<Rightarrow> load_mgr \<Rightarrow> bool" where
  "blocks_added s bs s' \<longleftrightarrow> ma_inv (lm_alloc s') \<and> ma_addr (lm_alloc s') = ma_addr (lm_alloc s) \<and> ma_size (lm_alloc s') = ma_size (lm_alloc s) \<and>
     distinct (map fst bs) \<and> (\<forall>(a, n) \<in> set bs. lm_live s a = None \<and> 4 dvd a \<and> ma_addr (lm_alloc s) \<le> a \<and> a + n \<le> ma_addr (lm_alloc s) + ma_size (lm_alloc s)) \<and>
     lm_live s' = lm_live s ++ map_of bs \<and> lm_objs s' = lm_objs s ++ map_of bs \<and> lm_infos s' = lm_infos s \<and>
     free_bytes (lm_alloc s') = free_bytes (lm_alloc s) - sum_list (map snd bs)"

lemma seg_bytes_pos: "0 \<le> n \<Longrightarrow> 8 \<le> seg_bytes n" and seg_bytes_dvd: "4 dvd seg_bytes n" and seg_bytes_align: "align4 (seg_bytes n) = seg_bytes n"
proof -
  show "0 \<le> n \<Longrightarrow> 8 \<le> seg_bytes n" using align4_ge [of n] by (simp add: seg_bytes_def)
  show d: "4 dvd seg_bytes n" by (simp add: seg_bytes_def)
  show "align4 (seg_bytes n) = seg_bytes n" by (rule align4_id [OF d])
qed

lemma alloc_memory_cases:
  assumes "ma_inv (lm_alloc s)" "0 < n" "align4 n = n"
  obtains (fail) "alloc_memory n s = Some (s, Inl VamosInternalError)"
  | (ok) a s' where "alloc_memory n s = Some (s', Inr (Some a))" "a \<noteq> 0" "blocks_added s [(a, n)] s'"
    "\<forall>x. outside [(a, n)] x \<longrightarrow> lm_mem s' x = lm_mem s x"
proof -
  from alloc_mem_cases [OF assms(1,2), of True] obtain a' r where
    a: "alloc_mem n True (lm_alloc s) = Some (a', r)" "alloc_post (lm_alloc s) n True a' r" "ma_inv a'" by blast
  show thesis
  proof (cases r)
    case (Inl e)
    with a have "alloc_memory n s = Some (s, Inl VamosInternalError)" by (simp add: alloc_memory_def alloc_post_def)
    then show thesis by (rule fail)
  next
    case (Inr addr)
    with a have p: "addr \<noteq> 0" "4 dvd addr" "ma_addr (lm_alloc s) \<le> addr" "addr + n \<le> ma_addr (lm_alloc s) + ma_size (lm_alloc s)" "lm_live s addr = None"
      "ma_addrs a' = (lm_live s)(addr \<mapsto> n)" "free_bytes a' = free_bytes (lm_alloc s) - n" "ma_addr a' = ma_addr (lm_alloc s)" "ma_size a' = ma_size (lm_alloc s)"
      "ma_mem a' = clear_block addr n (lm_mem s)" by (auto simp: alloc_post_def assms(3) split: if_splits)
    let ?s = "s\<lparr>lm_alloc := a', lm_objs := (lm_objs s)(addr \<mapsto> n)\<rparr>"
    have "alloc_memory n s = Some (?s, Inr (Some addr))" using a(1) Inr p(1) by (simp add: alloc_memory_def)
    moreover have "blocks_added s [(addr, n)] ?s" using p a(3) by (simp add: blocks_added_def map_add_def fun_eq_iff)
    moreover have "\<forall>x. outside [(addr, n)] x \<longrightarrow> lm_mem ?s x = lm_mem s x" using p by (auto simp: outside_def clear_block_def)
    ultimately show thesis using ok [of ?s addr] p(1) by blast
  qed
qed

lemma blocks_added_mem: "blocks_added s bs (set_mem m s') \<longleftrightarrow> blocks_added s bs s'" "blocks_added (set_mem m s) bs s' \<longleftrightarrow> blocks_added s bs s'"
  by (simp_all add: blocks_added_def)

lemma blocks_added_trans:
  assumes "blocks_added s [(a, n)] s1" "blocks_added s1 bs s2"
  shows "blocks_added s ((a, n) # bs) s2"
proof -
  note A = assms(1) [unfolded blocks_added_def] and B = assms(2) [unfolded blocks_added_def]
  have l1: "lm_live s1 = (lm_live s)(a \<mapsto> n)" using A by (simp add: map_add_def fun_eq_iff)
  have o1: "lm_objs s1 = (lm_objs s)(a \<mapsto> n)" using A by (simp add: map_add_def fun_eq_iff)
  have fr: "b \<noteq> a \<and> lm_live s b = None" if "(b, m) \<in> set bs" for b m using B that l1 by (auto split: if_splits)
  have nb: "a \<notin> fst ` set bs" using fr [of a] by (auto dest: fr)
  then have na: "map_of bs a = None" by (simp add: map_of_eq_None_iff)
  have "lm_live s2 = lm_live s ++ map_of ((a, n) # bs)" using B l1 na by (auto simp: fun_eq_iff map_add_def split: option.split)
  moreover have "lm_objs s2 = lm_objs s ++ map_of ((a, n) # bs)" using B o1 na by (auto simp: fun_eq_iff map_add_def split: option.split)
  moreover have "distinct (map fst ((a, n) # bs))" using B nb by simp
  moreover have "\<forall>(b, m) \<in> set ((a, n) # bs). lm_live s b = None \<and> 4 dvd b \<and> ma_addr (lm_alloc s) \<le> b \<and> b + m \<le> ma_addr (lm_alloc s) + ma_size (lm_alloc s)"
    using A B fr by auto
  ultimately show ?thesis unfolding blocks_added_def using A B by simp
qed

lemma added_live: "blocks_added s bs s' \<Longrightarrow> (a, n) \<in> set bs \<Longrightarrow> lm_live s' a = Some n"
  unfolding blocks_added_def by (simp add: map_add_def)

lemma old_live: "blocks_added s bs s' \<Longrightarrow> lm_live s b = Some m \<Longrightarrow> lm_live s' b = Some m"
proof -
  assume a: "blocks_added s bs s'" and b: "lm_live s b = Some m"
  have "b \<notin> fst ` set bs" using a b unfolding blocks_added_def by auto
  then have "map_of bs b = None" by (simp add: map_of_eq_None_iff)
  with a b show ?thesis unfolding blocks_added_def by (simp add: map_add_def)
qed

lemma old_outside:
  assumes "blocks_added s bs s'" "lm_live s b = Some m" "b \<le> x" "x < b + m"
  shows "outside bs x"
  unfolding outside_def
proof clarify
  fix a n
  assume an: "(a, n) \<in> set bs" "\<not> a + n \<le> x"
  have "ma_inv (lm_alloc s')" using assms(1) by (simp add: blocks_added_def)
  moreover have "a \<noteq> b" using an(1) assms(1,2) unfolding blocks_added_def by auto
  ultimately have "a + n \<le> b \<or> b + m \<le> a" using added_live [OF assms(1) an(1)] old_live [OF assms(1,2)] ma_inv_disjoint by blast
  with an(2) assms(3,4) show "x < a" by linarith
qed

lemma rd32_cong: "(\<And>x. a \<le> x \<Longrightarrow> x < a + 4 \<Longrightarrow> m x = m' x) \<Longrightarrow> rd32 m a = rd32 m' a"
  unfolding rd_def rd_block_def by (intro arg_cong [of _ _ be_int] map_cong) auto

lemma wr32_other: "x < a \<or> a + 4 \<le> x \<Longrightarrow> wr32 m a v x = m x"
  by (auto simp: wr_def wr_block_def)

fun links :: "mem \<Rightarrow> int list \<Rightarrow> bool" where
  "links m (a # b # r) \<longleftrightarrow> rd32 m (a + 4) = (b + 4) div 4 \<and> links m (b # r)"
| "links m _ \<longleftrightarrow> True"

definition pool_low :: "load_mgr \<Rightarrow> bool" where
  "pool_low s \<longleftrightarrow> ma_inv (lm_alloc s) \<and> ma_addr (lm_alloc s) + ma_size (lm_alloc s) \<le> 2 ^ 32"

lemma added_pool_low: "pool_low s \<Longrightarrow> blocks_added s bs s' \<Longrightarrow> pool_low s'"
  by (simp add: pool_low_def blocks_added_def)

definition segs_added :: "int list \<Rightarrow> int \<Rightarrow> int option \<Rightarrow> load_mgr \<Rightarrow> load_mgr \<Rightarrow> int \<Rightarrow> int option \<Rightarrow> int list \<Rightarrow> bool" where
  "segs_added ns last_addr first s s' l f as \<longleftrightarrow> length as = length ns \<and> blocks_added s (zip as (map seg_bytes ns)) s' \<and>
     l = (if as = [] then last_addr else last as) \<and> f = (if as = [] then first else Some (case first of None \<Rightarrow> hd as | Some f \<Rightarrow> f)) \<and>
     links (lm_mem s') (if last_addr = 0 then as else last_addr # as) \<and>
     (\<forall>(a, n) \<in> set (zip as (map seg_bytes ns)). rd32 (lm_mem s') a = n) \<and>
     (\<forall>x. outside (zip as (map seg_bytes ns)) x \<longrightarrow> last_addr = 0 \<or> as = [] \<or> x < last_addr + 4 \<or> last_addr + 8 \<le> x \<longrightarrow> lm_mem s' x = lm_mem s x)"

lemma segs_added_Cons:
  assumes low: "pool_low s" and last: "last_addr = 0 \<or> (\<exists>m \<ge> 8. lm_live s last_addr = Some m)" and N: "N = seg_bytes n" "8 \<le> N" and a0: "a \<noteq> 0"
    and add: "blocks_added s [(a, N)] s1" and frame: "\<forall>x. outside [(a, N)] x \<longrightarrow> lm_mem s1 x = lm_mem s x"
    and s3: "s3 = (let s = lm_w32 a N s1 in if last_addr \<noteq> 0 then lm_w32 (last_addr + 4) ((a + 4) div 4) s else s)"
    and rest: "segs_added ns a (Some f) s3 s' l f' as" and f: "f = (case first of None \<Rightarrow> a | Some f \<Rightarrow> f)"
  shows "segs_added (n # ns) last_addr first s s' l f' (a # as)"
proof -
  let ?bs = "zip as (map seg_bytes ns)"
  note R = rest [unfolded segs_added_def]
  have add3: "blocks_added s [(a, N)] s3" using add by (simp add: s3 Let_def lm_w32_def blocks_added_mem)
  have B: "blocks_added s3 ?bs s'" using R by blast
  have a: "lm_live s a = None" "0 < a" "a + N \<le> 2 ^ 32" "lm_live s3 a = Some N"
    using add3 low ma_inv_live(2) [of "lm_alloc s3" a N] added_live [OF add3, of a N] by (auto simp: blocks_added_def pool_low_def)
  have old3: "lm_live s3 b = Some m" if "lm_live s b = Some m" for b m using old_live [OF add3 that] .
  have away: "last_addr + m \<le> a \<or> a + N \<le> last_addr" if "last_addr \<noteq> 0" "lm_live s last_addr = Some m" for m
    using ma_inv_disjoint [of "lm_alloc s3" last_addr m a N] add3 old3 [OF that(2)] a that unfolding blocks_added_def by force
  have away8: "last_addr + 8 \<le> a \<or> a + N \<le> last_addr" if nz: "last_addr \<noteq> 0"
  proof -
    from last nz obtain m where "8 \<le> m" "lm_live s last_addr = Some m" by blast
    with away [OF nz this(2)] show ?thesis by linarith
  qed
  have m3: "lm_mem s3 = (let m = wr32 (lm_mem s1) a N in if last_addr \<noteq> 0 then wr32 m (last_addr + 4) ((a + 4) div 4) else m)"
    by (simp add: s3 Let_def lm_w32_def)
  have sz3: "rd32 (lm_mem s3) a = N"
  proof -
    have "rd32 (wr32 (lm_mem s1) a N) a = N" using N(2) a by simp
    moreover have "rd32 (wr32 m (last_addr + 4) v) a = rd32 m a" if "last_addr \<noteq> 0" for m v
      using away8 [OF that] N(2) by (intro rd_wr_other) auto
    ultimately show ?thesis by (simp add: m3 Let_def)
  qed
  have sz: "rd32 (lm_mem s') a = N"
  proof -
    have "lm_mem s' x = lm_mem s3 x" if "a \<le> x" "x < a + 4" for x
    proof -
      have "outside ?bs x" using old_outside [OF B a(4), of x] that N(2) by simp
      then show ?thesis using R that by auto
    qed
    then have "rd32 (lm_mem s') a = rd32 (lm_mem s3) a" by (rule rd32_cong)
    with sz3 show ?thesis by simp
  qed
  have link: "rd32 (lm_mem s') (last_addr + 4) = (a + 4) div 4" if nz: "last_addr \<noteq> 0"
  proof -
    from last nz obtain m where m: "8 \<le> m" "lm_live s last_addr = Some m" by blast
    have "lm_mem s' x = lm_mem s3 x" if "last_addr + 4 \<le> x" "x < last_addr + 4 + 4" for x
    proof -
      have "outside ?bs x" using old_outside [OF B old3 [OF m(2)], of x] that m(1) by simp
      moreover have "x < a + 4 \<or> a + 8 \<le> x" using away8 [OF nz] that N(2) by linarith
      ultimately show ?thesis using R by auto
    qed
    then have "rd32 (lm_mem s') (last_addr + 4) = rd32 (lm_mem s3) (last_addr + 4)" by (rule rd32_cong)
    also have "\<dots> = (a + 4) div 4" using nz a N(2) by (simp add: m3 Let_def)
    finally show ?thesis .
  qed
  have lk: "links (lm_mem s') (a # as)" using R a(2) by simp
  have fr: "lm_mem s' x = lm_mem s x" if o: "outside ((a, N) # ?bs) x" "last_addr = 0 \<or> x < last_addr + 4 \<or> last_addr + 8 \<le> x" for x
  proof -
    have x: "x < a \<or> a + N \<le> x" "outside ?bs x" "outside [(a, N)] x" using o(1) by (auto simp: outside_def)
    then have "lm_mem s' x = lm_mem s3 x" using R N(2) by auto
    also have "\<dots> = lm_mem s1 x" using x(1) o(2) N(2) by (auto simp: m3 Let_def wr32_other)
    also have "\<dots> = lm_mem s x" using frame x(3) by blast
    finally show ?thesis .
  qed
  have "blocks_added s ((a, N) # ?bs) s'" by (rule blocks_added_trans [OF add3 B])
  moreover have "links (lm_mem s') (if last_addr = 0 then a # as else last_addr # a # as)" using lk link by simp
  moreover have "\<forall>(b, m) \<in> set ((a, N) # ?bs). rd32 (lm_mem s') b = m" using sz R by auto
  moreover have "f' = Some f" using R by (auto split: if_splits)
  moreover have "l = last (a # as)" using R by auto
  ultimately show ?thesis using R fr unfolding segs_added_def by (simp add: N(1) f split: option.split)
qed

lemma alloc_segs_cases:
  assumes "pool_low s" "\<forall>n \<in> set ns. 0 \<le> n" "last_addr = 0 \<or> (\<exists>m \<ge> 8. lm_live s last_addr = Some m)"
  shows "\<exists>s' r. alloc_segs ns last_addr first s = Some (s', r) \<and> pool_low s' \<and>
     (case r of Inl e \<Rightarrow> e = VamosInternalError | Inr (l, f) \<Rightarrow> \<exists>as. segs_added ns last_addr first s s' l f as)"
  using assms
proof (induction ns arbitrary: s last_addr first)
  case Nil
  have "segs_added [] last_addr first s s last_addr first []"
    using Nil.prems(1) by (simp add: segs_added_def blocks_added_def pool_low_def fun_eq_iff)
  with Nil show ?case by auto
next
  case (Cons n ns)
  let ?N = "seg_bytes n"
  have N: "8 \<le> ?N" using Cons.prems(2) seg_bytes_pos by simp
  have inv: "ma_inv (lm_alloc s)" using Cons.prems(1) by (simp add: pool_low_def)
  from N have "0 < ?N" by simp
  with inv show ?case
  proof (rule alloc_memory_cases)
    show "align4 ?N = ?N" by (rule seg_bytes_align)
  next
    assume "alloc_memory ?N s = Some (s, Inl VamosInternalError)"
    then show ?thesis using Cons.prems(1) by simp
  next
    fix a s1
    assume a: "alloc_memory ?N s = Some (s1, Inr (Some a))" "a \<noteq> 0" "blocks_added s [(a, ?N)] s1" "\<forall>x. outside [(a, ?N)] x \<longrightarrow> lm_mem s1 x = lm_mem s x"
    define s3 where "s3 = (let s = lm_w32 a ?N s1 in if last_addr \<noteq> 0 then lm_w32 (last_addr + 4) ((a + 4) div 4) s else s)"
    define f where "f = (case first of None \<Rightarrow> a | Some f \<Rightarrow> f)"
    have add3: "blocks_added s [(a, ?N)] s3" using a(3) by (simp add: s3_def Let_def lm_w32_def blocks_added_mem)
    have "pool_low s3" "\<exists>m \<ge> 8. lm_live s3 a = Some m" using added_pool_low [OF Cons.prems(1) add3] added_live [OF add3, of a ?N] N by auto
    with Cons.IH [of s3 a "Some f"] Cons.prems(2) obtain s' r where r: "alloc_segs ns a (Some f) s3 = Some (s', r)" "pool_low s'"
      "case r of Inl e \<Rightarrow> e = VamosInternalError | Inr (l, f') \<Rightarrow> \<exists>as. segs_added ns a (Some f) s3 s' l f' as" by auto
    have e: "alloc_segs (n # ns) last_addr first s = Some (s', r)"
      using a(1) r(1) by (simp add: Let_def s3_def f_def)
    show ?thesis
    proof (cases r)
      case (Inr p)
      with r(3) obtain l f' as where "r = Inr (l, f')" "segs_added ns a (Some f) s3 s' l f' as" by (cases p) auto
      with segs_added_Cons [OF Cons.prems(1,3) refl N a(2-4) s3_def this(2) f_def] e r(2) show ?thesis by auto
    qed (use e r in auto)
  qed
qed

text \<open>Where one free block is large enough for all the segments together, allocating them succeeds.\<close>

definition room :: "load_mgr \<Rightarrow> int \<Rightarrow> bool" where
  "room s n \<longleftrightarrow> (\<exists>k. largest_chunk (lm_alloc s) = Some k \<and> n \<le> k)"

lemma largest_chunk_mem: "ma_inv s \<Longrightarrow> largest_chunk (s\<lparr>ma_mem := m\<rparr>) = largest_chunk s"
proof -
  assume "ma_inv s"
  then obtain P where rel: "alloc_rel s P" by (auto simp: ma_inv_def)
  have "blk_of (s\<lparr>ma_mem := m\<rparr>) = blk_of s" by (simp add: fun_eq_iff blk_of_def)
  moreover have "chain_ok (s\<lparr>ma_mem := m\<rparr>) = chain_ok s" by (simp add: fun_eq_iff chain_ok_def)
  ultimately have "alloc_rel (s\<lparr>ma_mem := m\<rparr>) P" using rel by (simp add: alloc_rel_def)
  with rel show ?thesis by (simp add: largest_chunk_free)
qed

lemma room_set_mem: "ma_inv (lm_alloc s) \<Longrightarrow> room (set_mem m s) n \<longleftrightarrow> room s n"
  by (simp add: room_def set_mem_def largest_chunk_mem)

lemma alloc_memory_room:
  assumes "ma_inv (lm_alloc s)" "0 < n" "align4 n = n" "room s (n + m)" "0 \<le> m"
    and al: "alloc_memory n s = Some (s', r)"
  shows "\<exists>a. r = Inr a \<and> room s' m"
proof -
  from assms(4) obtain k where k: "largest_chunk (lm_alloc s) = Some k" "n + m \<le> k" by (auto simp: room_def)
  obtain a' r' where a: "alloc_mem n True (lm_alloc s) = Some (a', r')" "align4 n \<le> k \<longleftrightarrow> (\<exists>a. a \<noteq> 0 \<and> r' = Inr a)"
    using alloc_mem_fits [OF assms(1,2), of True] k(1) by auto
  from a(2) k(2) assms(3,5) obtain ad where r': "r' = Inr ad" by auto
  with a(1) have al': "alloc_mem n True (lm_alloc s) = Some (a', Inr ad)" by simp
  from largest_chunk_left [OF assms(1,2) al' k(1)] obtain k' where "largest_chunk a' = Some k'" "k - align4 n \<le> k'" by blast
  moreover have "lm_alloc s' = a'" "\<exists>a. r = Inr a" using al al' by (auto simp: alloc_memory_def split: if_splits)
  ultimately show ?thesis using k(2) assms(3) by (auto simp: room_def)
qed

lemma alloc_segs_room:
  assumes "pool_low s" "\<forall>n \<in> set ns. 0 \<le> n" "room s (sum_list (map seg_bytes ns))" "alloc_segs ns last_addr first s = Some (s', r)"
  shows "\<exists>x. r = Inr x"
  using assms
proof (induction ns arbitrary: s last_addr first)
  case (Cons n ns)
  let ?N = "seg_bytes n"
  have N: "8 \<le> ?N" using Cons.prems(2) seg_bytes_pos by simp
  then have N0: "0 < ?N" by simp
  have inv: "ma_inv (lm_alloc s)" using Cons.prems(1) by (simp add: pool_low_def)
  have "\<forall>x \<in> set (map seg_bytes ns). 0 \<le> x" using Cons.prems(2) seg_bytes_pos by fastforce
  then have rest: "0 \<le> sum_list (map seg_bytes ns)" by (intro sum_list_nonneg) auto
  have rm: "room s (?N + sum_list (map seg_bytes ns))" using Cons.prems(3) by simp
  note next_room = alloc_memory_room [OF inv N0 seg_bytes_align rm rest]
  from inv N0 seg_bytes_align show ?case
  proof (rule alloc_memory_cases)
    assume "alloc_memory ?N s = Some (s, Inl VamosInternalError)"
    with next_room show ?thesis by blast
  next
    fix a s1
    assume a: "alloc_memory ?N s = Some (s1, Inr (Some a))" "blocks_added s [(a, ?N)] s1"
    define s3 where "s3 = (let s = lm_w32 a ?N s1 in if last_addr \<noteq> 0 then lm_w32 (last_addr + 4) ((a + 4) div 4) s else s)"
    have "pool_low s1" using added_pool_low [OF Cons.prems(1) a(2)] .
    then have "pool_low s3" "room s3 (sum_list (map seg_bytes ns))"
      using next_room [OF a(1)] by (simp_all add: s3_def Let_def lm_w32_def pool_low_def room_set_mem)
    moreover have "alloc_segs ns a (Some (case first of None \<Rightarrow> a | Some f \<Rightarrow> f)) s3 = Some (s', r)" using Cons.prems(4) a(1) by (simp add: s3_def Let_def)
    ultimately show ?thesis using Cons.IH Cons.prems(2) by auto
  qed
qed auto

text \<open>Walking a linked list of blocks.\<close>

lemma get_all_segments_at:
  assumes "4 dvd a"
  shows "get_all_segments m ((a + 4) div 4) = (if rd32 m (a + 4) = 0 then Some [(a + 8, rd32 m a - 8)]
     else Option.bind (get_all_segments m (rd32 m (a + 4))) (\<lambda>r. Some ((a + 8, rd32 m a - 8) # r)))"
proof -
  from assms have "(a + 4) div 4 * 4 = a + 4" by simp
  then show ?thesis unfolding get_all_segments.simps [of m "(a + 4) div 4"] Let_def by (simp only:) (simp add: algebra_simps)
qed

lemma get_all_segments_links:
  assumes "as \<noteq> []" "links m as" "rd32 m (last as + 4) = 0" "\<forall>a \<in> set as. 4 dvd a \<and> 0 < a"
  shows "get_all_segments m ((hd as + 4) div 4) = Some (map (\<lambda>a. (a + 8, rd32 m a - 8)) as)"
  using assms
proof (induction as)
  case (Cons a as)
  have d: "4 dvd a" using Cons.prems(4) by simp
  show ?case
  proof (cases as)
    case Nil
    then show ?thesis using Cons.prems get_all_segments_at [OF d, of m] by simp
  next
    case (Cons b r)
    have l: "rd32 m (a + 4) = (b + 4) div 4" "links m (b # r)" using Cons.prems(2) \<open>as = b # r\<close> by simp_all
    have "0 < b" using Cons.prems(4) \<open>as = b # r\<close> by simp
    then have nz: "rd32 m (a + 4) \<noteq> 0" unfolding l(1) by presburger
    have "get_all_segments m (rd32 m (a + 4)) = Some (map (\<lambda>a. (a + 8, rd32 m a - 8)) as)"
      using Cons.IH Cons.prems l \<open>as = b # r\<close> by simp
    then show ?thesis using nz get_all_segments_at [OF d, of m] by simp
  qed
qed simp

lemma links_cong: "(\<And>a. a \<in> set as \<Longrightarrow> a \<noteq> last as \<Longrightarrow> rd32 m (a + 4) = rd32 m' (a + 4)) \<Longrightarrow> distinct as \<Longrightarrow> links m as \<Longrightarrow> links m' as"
proof (induction m as rule: links.induct)
  case (1 m a b r)
  have "a \<noteq> last (b # r)" using 1(3) last_in_set [of "b # r"] by (metis distinct.simps(2) list.distinct(1))
  then have "rd32 m (a + 4) = rd32 m' (a + 4)" by (intro 1(2)) simp_all
  moreover have "links m' (b # r)"
  proof (rule 1(1))
    show "rd32 m (c + 4) = rd32 m' (c + 4)" if "c \<in> set (b # r)" "c \<noteq> last (b # r)" for c using that by (intro 1(2)) simp_all
  qed (use 1(3,4) in simp_all)
  ultimately show ?case using 1(4) by simp
qed simp_all

definition seg_list_at :: "mem \<Rightarrow> int list \<Rightarrow> int list \<Rightarrow> bool" where
  "seg_list_at m as ns \<longleftrightarrow> as \<noteq> [] \<and> distinct as \<and> length as = length ns \<and> links m as \<and> rd32 m (last as + 4) = 0 \<and>
     (\<forall>(a, n) \<in> set (zip as (map seg_bytes ns)). rd32 m a = n)"

lemma added_apart:
  assumes "blocks_added s bs s'" "(a, n) \<in> set bs" "(b, m) \<in> set bs" "a \<noteq> b"
  shows "a + n \<le> b \<or> b + m \<le> a"
  using ma_inv_disjoint [of "lm_alloc s'" a n b m] added_live [OF assms(1)] assms unfolding blocks_added_def by blast

lemma in_zip_fst: "length xs = length ys \<Longrightarrow> x \<in> set xs \<Longrightarrow> \<exists>y. (x, y) \<in> set (zip xs ys)"
  by (metis in_set_impl_in_set_zip1)

text \<open>Words of the blocks survive a change of the memory elsewhere.\<close>

lemma seg_list_at_cong:
  assumes "seg_list_at m as ns" "\<And>a x. a \<in> set as \<Longrightarrow> a \<le> x \<Longrightarrow> x < a + 8 \<Longrightarrow> m' x = m x"
  shows "seg_list_at m' as ns"
proof -
  have r: "rd32 m' a = rd32 m a" "rd32 m' (a + 4) = rd32 m (a + 4)" if "a \<in> set as" for a
    using assms(2) [OF that] by (auto intro!: rd32_cong)
  have a: "as \<noteq> []" "distinct as" "length as = length ns" "links m as" "rd32 m (last as + 4) = 0" "\<forall>(a, n) \<in> set (zip as (map seg_bytes ns)). rd32 m a = n"
    using assms(1) by (simp_all add: seg_list_at_def)
  have "links m' as" using links_cong [of as m m'] a r(2) by auto
  moreover have "\<forall>(a, n) \<in> set (zip as (map seg_bytes ns)). rd32 m' a = n"
  proof clarify
    fix a n
    assume "(a, n) \<in> set (zip as (map seg_bytes ns))"
    then show "rd32 m' a = n" using a(6) r(1) [of a] set_zip_leftD [of a n] by auto
  qed
  ultimately show ?thesis using a r(2) [of "last as"] by (simp add: seg_list_at_def)
qed

lemma seg_list_alloc_cases:
  assumes "pool_low s" "\<forall>n \<in> set ns. 0 \<le> n" "ns \<noteq> []"
  shows "\<exists>s' r. seg_list_alloc ns s = Some (s', r) \<and> pool_low s' \<and> (case r of Inl e \<Rightarrow> e = VamosInternalError | Inr baddr \<Rightarrow> \<exists>as.
     baddr = (hd as + 4) div 4 \<and> blocks_added s (zip as (map seg_bytes ns)) s' \<and> seg_list_at (lm_mem s') as ns \<and>
     (\<forall>x. outside (zip as (map seg_bytes ns)) x \<longrightarrow> lm_mem s' x = lm_mem s x))"
proof -
  from alloc_segs_cases [OF assms(1,2), of 0 None] obtain s1 r where r: "alloc_segs ns 0 None s = Some (s1, r)" "pool_low s1"
    "case r of Inl e \<Rightarrow> e = VamosInternalError | Inr (l, f) \<Rightarrow> \<exists>as. segs_added ns 0 None s s1 l f as" by blast
  show ?thesis
  proof (cases r)
    case (Inl e)
    with r show ?thesis by (auto simp: seg_list_alloc_def)
  next
    case (Inr p)
    with r(3) obtain l f as where as: "r = Inr (l, f)" "segs_added ns 0 None s s1 l f as" by (cases p) auto
    note A = as(2) [unfolded segs_added_def]
    let ?bs = "zip as (map seg_bytes ns)"
    have len: "length as = length ns" and add: "blocks_added s ?bs s1" using A by blast+
    have ne: "as \<noteq> []" using len assms(3) by auto
    have l: "l = last as" "f = Some (hd as)" using A ne by simp_all
    let ?m = "wr32 (lm_mem s1) (last as + 4) 0"
    let ?s = "set_mem ?m s1"
    have mf: "map fst ?bs = as" using len by simp
    then have dis: "distinct as" using add unfolding blocks_added_def by simp
    have sb: "8 \<le> n" if "(a, n) \<in> set ?bs" for a n using that assms(2) seg_bytes_pos by (auto dest!: set_zip_rightD)
    have in_b: "\<exists>n. (a, n) \<in> set ?bs" if "a \<in> set as" for a using in_zip_fst [OF _ that, of "map seg_bytes ns"] len by simp
    obtain N where N: "(last as, N) \<in> set ?bs" using in_b ne by fastforce
    have other: "?m x = lm_mem s1 x" if h: "a \<in> set as" "a \<noteq> last as" "a \<le> x" "x < a + 8" for a x
    proof -
      obtain n where n: "(a, n) \<in> set ?bs" using in_b [OF h(1)] by blast
      from added_apart [OF add n N h(2)] sb [OF n] sb [OF N] h have "x < last as + 4 \<or> last as + 4 + 4 \<le> x" by linarith
      then show ?thesis by (rule wr32_other)
    qed
    have w: "rd32 ?m (a + 4) = rd32 (lm_mem s1) (a + 4)" if "a \<in> set as" "a \<noteq> last as" for a
      using other [OF that] by (intro rd32_cong) simp
    have "links ?m as" using links_cong [of as "lm_mem s1" ?m] w dis A by auto
    moreover have "rd32 ?m a = rd32 (lm_mem s1) a" if "a \<in> set as" for a
    proof (cases "a = last as")
      case True
      then show ?thesis by (simp add: rd_wr_other)
    next
      case False
      then show ?thesis using other [OF that] by (intro rd32_cong) simp
    qed
    then have "\<forall>(a, n) \<in> set ?bs. rd32 ?m a = n" using A by (fastforce dest: set_zip_leftD)
    ultimately have at: "seg_list_at ?m as ns" using ne dis len by (simp add: seg_list_at_def)
    have fr: "?m x = lm_mem s x" if "outside ?bs x" for x
    proof -
      have "x < last as \<or> last as + N \<le> x" using that N by (auto simp: outside_def)
      with sb [OF N] have "x < last as + 4 \<or> last as + 4 + 4 \<le> x" by linarith
      then have "?m x = lm_mem s1 x" by (rule wr32_other)
      with A that show ?thesis by simp
    qed
    have "seg_list_alloc ns s = Some (?s, Inr ((hd as + 4) div 4))" using r(1) as(1) l by (simp add: seg_list_alloc_def lm_w32_def)
    moreover have "pool_low ?s" using r(2) by (simp add: pool_low_def)
    ultimately show ?thesis using add at fr by (auto simp: blocks_added_mem)
  qed
qed

subsection \<open>Writing the segments\<close>

lemma write_segments_eq: "\<exists>m. write_segments ws s = set_mem m s"
proof (induction ws s rule: write_segments.induct)
  case (1 s)
  have "s = set_mem (lm_mem s) s" by (simp add: set_mem_def)
  then show ?case by auto
qed (auto simp: lm_w_block_def set_mem_def)

lemma write_segments_other: "\<forall>(a, d) \<in> set ws. x < a \<or> a + int (length d) \<le> x \<Longrightarrow> lm_mem (write_segments ws s) x = lm_mem s x"
  by (induction ws s rule: write_segments.induct) (auto simp: lm_w_block_def wr_block_def)

lemma write_segments_block:
  assumes "sorted_wrt (\<lambda>(a, d) (b, e). a + int (length d) \<le> b \<or> b + int (length e) \<le> a) ws" "(a, d) \<in> set ws"
  shows "rd_block (lm_mem (write_segments ws s)) a (length d) = d"
  using assms
proof (induction ws s rule: write_segments.induct)
  case (2 b e r s)
  show ?case
  proof (cases "(a, d) \<in> set r")
    case False
    then have e: "b = a" "e = d" using 2(3) by auto
    have "lm_mem (write_segments r (lm_w_block b e s)) x = lm_mem (lm_w_block b e s) x" if "a \<le> x" "x < a + int (length d)" for x
      using 2(2) that e by (intro write_segments_other) force
    then have "rd_block (lm_mem (write_segments r (lm_w_block b e s))) a (length d) = rd_block (lm_mem (lm_w_block b e s)) a (length d)"
      by (auto simp: rd_block_def)
    then show ?thesis using e by (simp add: lm_w_block_def)
  qed (use 2 in simp)
qed simp

subsection \<open>Freeing a segment list\<close>

lemma free_memory_ok:
  assumes "ma_inv (lm_alloc s)" "lm_live s a = Some n" "align4 n = n"
  shows "\<exists>s'. free_memory a n s = Some (s', Inr ()) \<and> ma_inv (lm_alloc s') \<and> lm_live s' = (lm_live s)(a := None) \<and> lm_objs s' = (lm_objs s)(a := None) \<and>
     lm_mem s' = lm_mem s \<and> lm_infos s' = lm_infos s \<and> free_bytes (lm_alloc s') = free_bytes (lm_alloc s) + n"
  using free_mem_cases [OF assms(1), of a n] assms(2,3) by (auto simp: free_memory_def)

lemma seg_list_free_links:
  assumes "ma_inv (lm_alloc s)" "links (lm_mem s) (map fst bs)" "bs \<noteq> [] \<Longrightarrow> rd32 (lm_mem s) (fst (last bs) + 4) = 0" "distinct (map fst bs)"
    "\<forall>(a, n) \<in> set bs. lm_objs s a = Some n \<and> lm_live s a = Some n \<and> align4 n = n \<and> 4 dvd a \<and> 0 < a"
  shows "\<exists>s'. seg_list_free (if bs = [] then 0 else fst (hd bs) + 4) s = Some (s', Inr ()) \<and> lm_live s' = lm_live s |` (- fst ` set bs) \<and>
     lm_objs s' = lm_objs s |` (- fst ` set bs) \<and> lm_mem s' = lm_mem s \<and> lm_infos s' = lm_infos s \<and>
     free_bytes (lm_alloc s') = free_bytes (lm_alloc s) + sum_list (map snd bs)"
  using assms
proof (induction bs arbitrary: s)
  case Nil
  then show ?case by (simp add: seg_list_free.simps restrict_map_def fun_eq_iff)
next
  case (Cons b bs)
  obtain a n where b: "b = (a, n)" by (cases b)
  have a: "lm_objs s a = Some n" "lm_live s a = Some n" "align4 n = n" "4 dvd a" "0 < a" and nb: "a \<notin> fst ` set bs"
    using Cons.prems(4,5) b by auto
  from free_memory_ok [OF Cons.prems(1) a(2,3)] obtain s1 where s1: "free_memory a n s = Some (s1, Inr ())" "ma_inv (lm_alloc s1)"
    "lm_live s1 = (lm_live s)(a := None)" "lm_objs s1 = (lm_objs s)(a := None)" "lm_mem s1 = lm_mem s" "lm_infos s1 = lm_infos s"
    "free_bytes (lm_alloc s1) = free_bytes (lm_alloc s) + n" by blast
  have nx: "rd32 (lm_mem s) (a + 4) * 4 = (if bs = [] then 0 else fst (hd bs) + 4)"
  proof (cases bs)
    case (Cons c r)
    with Cons.prems(5) have "4 dvd fst c" by (cases c) auto
    then show ?thesis using Cons.prems(2) b Cons by simp
  qed (use Cons.prems(3) b in simp)
  have "\<exists>s'. seg_list_free (if bs = [] then 0 else fst (hd bs) + 4) s1 = Some (s', Inr ()) \<and> lm_live s' = lm_live s1 |` (- fst ` set bs) \<and>
     lm_objs s' = lm_objs s1 |` (- fst ` set bs) \<and> lm_mem s' = lm_mem s1 \<and> lm_infos s' = lm_infos s1 \<and>
     free_bytes (lm_alloc s') = free_bytes (lm_alloc s1) + sum_list (map snd bs)"
  proof (rule Cons.IH)
    show "links (lm_mem s1) (map fst bs)" using Cons.prems(2) s1(5) by (cases bs) (auto simp: b)
    show "rd32 (lm_mem s1) (fst (last bs) + 4) = 0" if "bs \<noteq> []" using Cons.prems(3) that s1(5) by simp
    show "\<forall>(a, n) \<in> set bs. lm_objs s1 a = Some n \<and> lm_live s1 a = Some n \<and> align4 n = n \<and> 4 dvd a \<and> 0 < a"
      using Cons.prems(5) nb unfolding s1(3,4) by (force simp: rev_image_eqI)
  qed (use s1(2) Cons.prems(4) in simp_all)
  then obtain s' where s': "seg_list_free (if bs = [] then 0 else fst (hd bs) + 4) s1 = Some (s', Inr ())" "lm_live s' = lm_live s1 |` (- fst ` set bs)"
    "lm_objs s' = lm_objs s1 |` (- fst ` set bs)" "lm_mem s' = lm_mem s1" "lm_infos s' = lm_infos s1"
    "free_bytes (lm_alloc s') = free_bytes (lm_alloc s1) + sum_list (map snd bs)" by blast
  have "seg_list_free (a + 4) s = Some (s', Inr ())"
    unfolding seg_list_free.simps [of "a + 4" s] Let_def using a s1(1) s'(1) nx by simp
  moreover have "lm_live s' = lm_live s |` (- fst ` set (b # bs))" "lm_objs s' = lm_objs s |` (- fst ` set (b # bs))"
    using s'(2,3) s1(3,4) by (auto simp: b restrict_map_def fun_eq_iff)
  ultimately show ?case using s' s1 by (simp add: b)
qed

lemma restrict_added: "blocks_added s bs s' \<Longrightarrow> lm_live s' |` (- fst ` set bs) = lm_live s"
  and restrict_objs: "blocks_added s bs s' \<Longrightarrow> dom (lm_objs s) \<subseteq> dom (lm_live s) \<Longrightarrow> lm_objs s' |` (- fst ` set bs) = lm_objs s"
proof -
  assume a: "blocks_added s bs s'"
  have n: "lm_live s x = None" if "x \<in> fst ` set bs" for x using a that unfolding blocks_added_def by auto
  have m: "map_of bs x = None" if "x \<notin> fst ` set bs" for x using that by (simp add: map_of_eq_None_iff)
  have l: "lm_live s' = lm_live s ++ map_of bs" and o: "lm_objs s' = lm_objs s ++ map_of bs" using a by (simp_all add: blocks_added_def)
  show "lm_live s' |` (- fst ` set bs) = lm_live s"
  proof
    fix x
    show "(lm_live s' |` (- fst ` set bs)) x = lm_live s x" unfolding l using n [of x] m [of x] by (simp add: restrict_map_def map_add_def)
  qed
  assume d: "dom (lm_objs s) \<subseteq> dom (lm_live s)"
  show "lm_objs s' |` (- fst ` set bs) = lm_objs s"
  proof
    fix x
    have "lm_objs s x = None" if "x \<in> fst ` set bs" using n [OF that] d by (auto simp: domIff)
    then show "(lm_objs s' |` (- fst ` set bs)) x = lm_objs s x" unfolding o using m [of x] by (simp add: restrict_map_def map_add_def)
  qed
qed

subsection \<open>Loading a program\<close>

definition loadable :: "load_mgr \<Rightarrow> image \<Rightarrow> bool" where
  "loadable s img \<longleftrightarrow> img \<noteq> [] \<and> (\<forall>seg \<in> set img. seg_fits seg) \<and>
     (\<forall>addrs. length addrs = length img \<longrightarrow> (\<forall>a \<in> set addrs. ma_addr (lm_alloc s) \<le> a \<and> a \<le> ma_addr (lm_alloc s) + ma_size (lm_alloc s)) \<longrightarrow> relocatable img addrs)"

definition program_at :: "load_mgr \<Rightarrow> load_mgr \<Rightarrow> image \<Rightarrow> int \<Rightarrow> bool" where
  "program_at s s' img baddr \<longleftrightarrow> (\<exists>addrs. get_all_addrs (lm_mem s') baddr = Some addrs \<and> get_all_sizes (lm_mem s') baddr = Some (map (\<lambda>seg. align4 (sg_size seg)) img) \<and>
     length addrs = length img \<and> lm_infos s' baddr = Some img \<and>
     (\<forall>k < length img. lm_live s (addrs ! k - 8) = None \<and> lm_live s' (addrs ! k - 8) = Some (seg_bytes (sg_size (img ! k))) \<and>
        relocated (addrs ! k) addrs (img ! k) (rd_block (lm_mem s') (addrs ! k) (nat (sg_size (img ! k))))) \<and>
     (\<forall>x. (\<forall>k < length img. x < addrs ! k - 8 \<or> addrs ! k + align4 (sg_size (img ! k)) \<le> x) \<longrightarrow> lm_mem s' x = lm_mem s x))"

lemma seg_list_alloc_room:
  assumes "pool_low s" "\<forall>n \<in> set ns. 0 \<le> n" "ns \<noteq> []" "seg_list_alloc ns s = Some (s', Inl e)"
  shows "\<not> room s (sum_list (map seg_bytes ns))"
proof
  assume "room s (sum_list (map seg_bytes ns))"
  moreover from alloc_segs_cases [OF assms(1,2), of 0 None] obtain s1 r where r: "alloc_segs ns 0 None s = Some (s1, r)" by blast
  ultimately obtain l f where "r = Inr (l, f)" using alloc_segs_room [OF assms(1,2)] by fastforce
  moreover from this have "e = NameError" using assms(4) r by (auto simp: seg_list_alloc_def split: option.splits)
  moreover have "e = VamosInternalError" using seg_list_alloc_cases [OF assms(1-3)] assms(4) by auto
  ultimately show False by simp
qed

text \<open>The blocks by index.\<close>

lemma blocks_nth:
  assumes "length as = length ns" "k < length as"
  shows "(as ! k, seg_bytes (ns ! k)) \<in> set (zip as (map seg_bytes ns))"
  using assms by (auto simp: in_set_zip intro!: exI [of _ k])

lemma outside_nth: "length as = length ns \<Longrightarrow> outside (zip as (map seg_bytes ns)) x \<longleftrightarrow> (\<forall>k < length as. x < as ! k \<or> as ! k + seg_bytes (ns ! k) \<le> x)"
  by (auto simp: outside_def in_set_zip Ball_def) force+

lemma apart_nth:
  assumes "blocks_added s (zip as (map seg_bytes ns)) s'" "length as = length ns" "j < length as" "k < length as" "j \<noteq> k"
  shows "as ! j + seg_bytes (ns ! j) \<le> as ! k \<or> as ! k + seg_bytes (ns ! k) \<le> as ! j"
proof -
  have "distinct as" using assms(1,2) by (simp add: blocks_added_def)
  then have "as ! j \<noteq> as ! k" using assms(3-5) by (simp add: nth_eq_iff_index_eq)
  then show ?thesis using added_apart [OF assms(1)] blocks_nth [OF assms(2)] assms(3,4) by blast
qed

lemma written_segments:
  assumes add: "blocks_added s (zip as (map seg_bytes ns)) s1" and len: "length as = length ns" "length ds = length ns"
    and fit: "\<forall>k < length ns. int (length (ds ! k)) \<le> align4 (ns ! k)"
  defines "s2 \<equiv> write_segments (zip (map (\<lambda>a. a + 8) as) ds) s1"
  shows "\<And>a x. a \<in> set as \<Longrightarrow> a \<le> x \<Longrightarrow> x < a + 8 \<Longrightarrow> lm_mem s2 x = lm_mem s1 x"
    "\<And>k. k < length ns \<Longrightarrow> rd_block (lm_mem s2) (as ! k + 8) (length (ds ! k)) = ds ! k"
    "\<And>x. outside (zip as (map seg_bytes ns)) x \<Longrightarrow> lm_mem s2 x = lm_mem s1 x"
proof -
  let ?ws = "zip (map (\<lambda>a. a + 8) as) ds"
  have w: "?ws ! k = (as ! k + 8, ds ! k)" if "k < length ns" for k using that len by simp
  have lw: "length ?ws = length ns" using len by simp
  have ws: "(\<forall>(a, d) \<in> set ?ws. Q a d) \<longleftrightarrow> (\<forall>k < length ns. Q (as ! k + 8) (ds ! k))" for Q
    unfolding all_set_conv_all_nth lw using w by simp
  have f: "int (length (ds ! k)) + 8 \<le> seg_bytes (ns ! k)" if "k < length ns" for k using fit that by (simp add: seg_bytes_def)
  show "lm_mem s2 x = lm_mem s1 x" if h: "a \<in> set as" "a \<le> x" "x < a + 8" for a x
    unfolding s2_def
  proof (rule write_segments_other, unfold ws, intro allI impI)
    fix k
    assume k: "k < length ns"
    obtain j where j: "j < length ns" "a = as ! j" using h(1) len by (auto simp: in_set_conv_nth)
    show "x < as ! k + 8 \<or> as ! k + 8 + int (length (ds ! k)) \<le> x"
    proof (cases "j = k")
      case False
      then show ?thesis using apart_nth [OF add len(1), of j k] j k len h f [OF j(1)] f [OF k] by auto
    qed (use h j in auto)
  qed
  show "lm_mem s2 x = lm_mem s1 x" if "outside (zip as (map seg_bytes ns)) x" for x
    unfolding s2_def
  proof (rule write_segments_other, unfold ws, intro allI impI)
    fix k
    assume k: "k < length ns"
    then have "x < as ! k \<or> as ! k + seg_bytes (ns ! k) \<le> x" using that outside_nth [OF len(1)] len by simp
    then show "x < as ! k + 8 \<or> as ! k + 8 + int (length (ds ! k)) \<le> x" using f [OF k] by linarith
  qed
  have "sorted_wrt (\<lambda>(a, d) (b, e). a + int (length d) \<le> b \<or> b + int (length e) \<le> a) ?ws"
    unfolding sorted_wrt_iff_nth_less lw
  proof (intro allI impI)
    fix i j
    assume ij: "i < j" "j < length ns"
    then have i: "i < length ns" by simp
    from apart_nth [OF add len(1), of i j] ij len f [OF i] f [OF ij(2)]
    show "(case ?ws ! i of (a, d) \<Rightarrow> \<lambda>(b, e). a + int (length d) \<le> b \<or> b + int (length e) \<le> a) (?ws ! j)" unfolding w [OF i] w [OF ij(2)] by auto
  qed
  then show "rd_block (lm_mem s2) (as ! k + 8) (length (ds ! k)) = ds ! k" if "k < length ns" for k
    unfolding s2_def using that w [OF that] lw nth_mem [of k ?ws] by (intro write_segments_block) simp_all
qed

lemma loaded_blocks:
  assumes "blocks_added s (zip as (map seg_bytes ns)) s'" "length as = length ns" "\<forall>n \<in> set ns. 0 \<le> n"
  shows "\<forall>(a, n) \<in> set (zip as (map seg_bytes ns)). lm_objs s' a = Some n \<and> lm_live s' a = Some n \<and> align4 n = n \<and> 4 dvd a \<and> 0 < a"
proof clarify
  fix a n
  assume an: "(a, n) \<in> set (zip as (map seg_bytes ns))"
  have l: "lm_live s' a = Some n" by (rule added_live [OF assms(1) an])
  have "ma_inv (lm_alloc s')" "distinct (map fst (zip as (map seg_bytes ns)))" "lm_objs s' = lm_objs s ++ map_of (zip as (map seg_bytes ns))"
    using assms(1) by (simp_all add: blocks_added_def)
  moreover have "align4 n = n" using an seg_bytes_align by (auto dest!: set_zip_rightD)
  ultimately show "lm_objs s' a = Some n \<and> lm_live s' a = Some n \<and> align4 n = n \<and> 4 dvd a \<and> 0 < a"
    using l ma_inv_live [of "lm_alloc s'" a n] an by (simp add: map_add_def)
qed

lemma seg_list_addrs:
  assumes "seg_list_at m as ns" "\<forall>a \<in> set as. 4 dvd a \<and> 0 < a"
  shows "get_all_addrs m ((hd as + 4) div 4) = Some (map (\<lambda>a. a + 8) as)" "get_all_sizes m ((hd as + 4) div 4) = Some (map align4 ns)"
proof -
  have a: "as \<noteq> []" "links m as" "rd32 m (last as + 4) = 0" "length as = length ns" "\<forall>(a, n) \<in> set (zip as (map seg_bytes ns)). rd32 m a = n"
    using assms(1) by (simp_all add: seg_list_at_def)
  note w = get_all_segments_links [OF a(1-3) assms(2)]
  show "get_all_addrs m ((hd as + 4) div 4) = Some (map (\<lambda>a. a + 8) as)" by (simp add: get_all_addrs_def w o_def)
  have "rd32 m (as ! k) = seg_bytes (ns ! k)" if "k < length ns" for k
    using a(5) blocks_nth [OF a(4), of k] that a(4) by auto
  then have "map (\<lambda>a. rd32 m a - 8) as = map align4 ns" using a(4) by (intro nth_equalityI) (simp_all add: seg_bytes_def)
  then show "get_all_sizes m ((hd as + 4) div 4) = Some (map align4 ns)" by (simp add: get_all_sizes_def w o_def)
qed

lemma unload_blocks:
  assumes add: "blocks_added s (zip as (map seg_bytes ns)) s2" and at: "seg_list_at (lm_mem s2) as ns" and nn: "\<forall>n \<in> set ns. 0 \<le> n"
    and dom: "dom (lm_objs s) \<subseteq> dom (lm_live s)"
  shows "\<exists>s''. unload_seglist ((hd as + 4) div 4) (s2\<lparr>lm_infos := (lm_infos s2)((hd as + 4) div 4 \<mapsto> img)\<rparr>) = Some (s'', Inr True) \<and>
     lm_live s'' = lm_live s \<and> lm_objs s'' = lm_objs s \<and> free_bytes (lm_alloc s'') = free_bytes (lm_alloc s) \<and>
     lm_infos s'' = (lm_infos s)((hd as + 4) div 4 := None)"
proof -
  let ?bs = "zip as (map seg_bytes ns)" and ?b = "(hd as + 4) div 4"
  have a: "as \<noteq> []" "links (lm_mem s2) as" "rd32 (lm_mem s2) (last as + 4) = 0" "length as = length ns" "distinct as"
    using at by (simp_all add: seg_list_at_def)
  have f: "map fst ?bs = as" using a(4) by simp
  then have ne: "?bs \<noteq> []" using a(1) by auto
  have hl: "fst (hd ?bs) = hd as" "fst (last ?bs) = last as" using f ne by (metis hd_map, metis last_map)
  note lb = loaded_blocks [OF add a(4) nn]
  have hd4: "4 dvd hd as"
  proof -
    have "hd ?bs \<in> set ?bs" using ne by simp
    with lb hl(1) show ?thesis by (cases "hd ?bs") auto
  qed
  let ?s3 = "s2\<lparr>lm_infos := ((lm_infos s2)(?b \<mapsto> img))(?b := None)\<rparr>"
  have "ma_inv (lm_alloc ?s3)" using add by (simp add: blocks_added_def)
  moreover have "links (lm_mem ?s3) (map fst ?bs)" "rd32 (lm_mem ?s3) (fst (last ?bs) + 4) = 0" "distinct (map fst ?bs)"
    unfolding f hl using a by simp_all
  moreover have "\<forall>(a, n) \<in> set ?bs. lm_objs ?s3 a = Some n \<and> lm_live ?s3 a = Some n \<and> align4 n = n \<and> 4 dvd a \<and> 0 < a" using lb by simp
  ultimately obtain s'' where s'': "seg_list_free (if ?bs = [] then 0 else fst (hd ?bs) + 4) ?s3 = Some (s'', Inr ())"
    "lm_live s'' = lm_live ?s3 |` (- fst ` set ?bs)" "lm_objs s'' = lm_objs ?s3 |` (- fst ` set ?bs)" "lm_infos s'' = lm_infos ?s3"
    "free_bytes (lm_alloc s'') = free_bytes (lm_alloc ?s3) + sum_list (map snd ?bs)" using seg_list_free_links [of ?s3 ?bs] by blast
  have "?b * 4 = (if ?bs = [] then 0 else fst (hd ?bs) + 4)" using ne hl hd4 by simp
  then have "unload_seglist ?b (s2\<lparr>lm_infos := (lm_infos s2)(?b \<mapsto> img)\<rparr>) = Some (s'', Inr True)"
    using s''(1) by (simp add: unload_seglist_def)
  moreover have "lm_live s'' = lm_live s" using s''(2) restrict_added [OF add] by simp
  moreover have "lm_objs s'' = lm_objs s" using s''(3) restrict_objs [OF add dom] by simp
  moreover have "free_bytes (lm_alloc s'') = free_bytes (lm_alloc s)" using s''(5) add by (simp add: blocks_added_def)
  moreover have "lm_infos s'' = (lm_infos s)(?b := None)" using s''(4) add by (simp add: blocks_added_def)
  ultimately show ?thesis by blast
qed

lemma program_written:
  assumes img: "loadable s img" and add: "blocks_added s (zip as (map seg_bytes (get_sizes img))) s1" and at: "seg_list_at (lm_mem s1) as (get_sizes img)"
    and frame: "\<forall>x. outside (zip as (map seg_bytes (get_sizes img))) x \<longrightarrow> lm_mem s1 x = lm_mem s x"
  shows "\<exists>ds. relocate img (map (\<lambda>a. a + 8) as) = Inr ds \<and> (let s2 = write_segments (zip (map (\<lambda>a. a + 8) as) ds) s1; b = (hd as + 4) div 4 in
     blocks_added s (zip as (map seg_bytes (get_sizes img))) s2 \<and> seg_list_at (lm_mem s2) as (get_sizes img) \<and>
     program_at s (s2\<lparr>lm_infos := (lm_infos s2)(b \<mapsto> img)\<rparr>) img b)"
proof -
  let ?ns = "get_sizes img" and ?addrs = "map (\<lambda>a. a + 8) as" and ?b = "(hd as + 4) div 4"
  let ?bs = "zip as (map seg_bytes ?ns)"
  have la: "length as = length ?ns" using at by (simp add: seg_list_at_def)
  have ln: "length ?ns = length img" and nth: "\<And>k. k < length img \<Longrightarrow> ?ns ! k = sg_size (img ! k)" by (simp_all add: get_sizes_def)
  have nn: "\<forall>n \<in> set ?ns. 0 \<le> n" using img seg_fits_size by (auto simp: loadable_def get_sizes_def)
  note lb = loaded_blocks [OF add la nn]
  have blk: "(as ! k, seg_bytes (?ns ! k)) \<in> set ?bs" if "k < length img" for k using blocks_nth [OF la] that la ln by simp
  have pos: "\<forall>a \<in> set as. 4 dvd a \<and> 0 < a"
  proof
    fix a
    assume "a \<in> set as"
    then obtain k where "k < length img" "a = as ! k" using la ln by (auto simp: in_set_conv_nth)
    then show "4 dvd a \<and> 0 < a" using lb blk by blast
  qed
  have "ma_addr (lm_alloc s) \<le> a \<and> a \<le> ma_addr (lm_alloc s) + ma_size (lm_alloc s)" if ia: "a \<in> set ?addrs" for a
  proof -
    obtain a' where "a' \<in> set as" "a = a' + 8" using ia by auto
    then obtain k where k: "k < length img" "a = as ! k + 8" using la ln by (auto simp: in_set_conv_nth)
    have "ma_addr (lm_alloc s) \<le> as ! k" "as ! k + seg_bytes (?ns ! k) \<le> ma_addr (lm_alloc s) + ma_size (lm_alloc s)"
      using add blk [OF k(1)] unfolding blocks_added_def by blast+
    moreover have "8 \<le> seg_bytes (?ns ! k)" using nn k(1) ln by (intro seg_bytes_pos) simp
    ultimately show ?thesis using k(2) by linarith
  qed
  then have "relocatable img ?addrs" using img la ln unfolding loadable_def by simp
  from relocate_correct [OF this] obtain ds where ds: "relocate img ?addrs = Inr ds" "length ds = length img"
    "\<forall>k < length img. relocated (?addrs ! k) ?addrs (img ! k) (ds ! k)" by blast
  have dl: "int (length (ds ! k)) = ?ns ! k" if "k < length img" for k using ds(3) that nth by (simp add: relocated_def)
  have fit: "\<forall>k < length ?ns. int (length (ds ! k)) \<le> align4 (?ns ! k)" using dl ln align4_ge by auto
  have ld: "length ds = length ?ns" using ds(2) ln by simp
  let ?s2 = "write_segments (zip ?addrs ds) s1"
  note W = written_segments [OF add la ld fit]
  obtain m where m: "?s2 = set_mem m s1" using write_segments_eq by blast
  have add2: "blocks_added s ?bs ?s2" unfolding m blocks_added_mem by (rule add)
  have at2: "seg_list_at (lm_mem ?s2) as ?ns" by (rule seg_list_at_cong [OF at]) (rule W(1))
  let ?s3 = "?s2\<lparr>lm_infos := (lm_infos ?s2)(?b \<mapsto> img)\<rparr>"
  have A: "get_all_addrs (lm_mem ?s3) ?b = Some ?addrs" "get_all_sizes (lm_mem ?s3) ?b = Some (map (\<lambda>seg. align4 (sg_size seg)) img)"
    using seg_list_addrs [OF at2 pos] by (simp_all add: get_sizes_def o_def)
  have S: "lm_live s (?addrs ! k - 8) = None \<and> lm_live ?s3 (?addrs ! k - 8) = Some (seg_bytes (sg_size (img ! k))) \<and>
      relocated (?addrs ! k) ?addrs (img ! k) (rd_block (lm_mem ?s3) (?addrs ! k) (nat (sg_size (img ! k))))" if k: "k < length img" for k
  proof -
    have e: "?addrs ! k - 8 = as ! k" "?addrs ! k = as ! k + 8" using k la ln by simp_all
    have "nat (sg_size (img ! k)) = length (ds ! k)" using dl [OF k] nth [OF k] by simp
    then have "rd_block (lm_mem ?s3) (?addrs ! k) (nat (sg_size (img ! k))) = ds ! k" using W(2) [of k] k ln e by simp
    moreover have "lm_live ?s2 (as ! k) = Some (seg_bytes (sg_size (img ! k)))" using added_live [OF add2 blk [OF k]] nth [OF k] by simp
    moreover have "lm_live s (as ! k) = None" using add blk [OF k] unfolding blocks_added_def by blast
    moreover have "relocated (as ! k + 8) ?addrs (img ! k) (ds ! k)" using ds(3) [rule_format, OF k] unfolding e .
    ultimately show ?thesis using e by simp
  qed
  have F: "lm_mem ?s3 x = lm_mem s x" if o: "\<forall>k < length img. x < ?addrs ! k - 8 \<or> ?addrs ! k + align4 (sg_size (img ! k)) \<le> x" for x
  proof -
    have "x < as ! k \<or> as ! k + seg_bytes (?ns ! k) \<le> x" if "k < length as" for k
      using o that la ln nth [of k] by (auto simp: seg_bytes_def)
    then have x: "outside ?bs x" using outside_nth [OF la] by blast
    then show ?thesis using W(3) [OF x] frame by simp
  qed
  have "program_at s ?s3 img ?b"
    unfolding program_at_def using A S F la ln by (intro exI [of _ ?addrs]) simp
  with ds(1) add2 at2 show ?thesis by (auto simp: Let_def)
qed

text \<open>C2: loading a program from a file of hunks, whose relocations lie in its segments, do not overlap and give values
  of 32 bits, into a pool below 2 to the 32 returns. It either fails for lack of memory, which it does not where the largest
  free block holds all the segments with their two words each, or it has taken new blocks for the segments, linked them so
  that walking the list gives the addresses and sizes, and put the relocated segments there; the memory elsewhere is as it
  was. Unloading such a program finds it and gives all of its memory back.\<close>

theorem load_program:
  assumes "pool_low s" "dom (lm_objs s) \<subseteq> dom (lm_live s)" "is_image d" "load_image d = Inr img" "loadable s img"
  shows "\<exists>s' r. load_sys_seglist elf d s = Some (s', r) \<and> (case r of
       Inl e \<Rightarrow> e = VamosInternalError \<and> \<not> room s (sum_list (map seg_bytes (get_sizes img)))
     | Inr baddr \<Rightarrow> program_at s s' img baddr \<and>
     (\<exists>s''. unload_seglist baddr s' = Some (s'', Inr True) \<and> lm_live s'' = lm_live s \<and> lm_objs s'' = lm_objs s \<and>
        free_bytes (lm_alloc s'') = free_bytes (lm_alloc s) \<and> lm_infos s'' = (lm_infos s)(baddr := None)))"
proof -
  let ?ns = "get_sizes img"
  have ne: "?ns \<noteq> []" and nn: "\<forall>n \<in> set ?ns. 0 \<le> n" and ln: "length ?ns = length img"
    using assms(5) seg_fits_size by (auto simp: loadable_def get_sizes_def)
  have b: "bin_load_image elf d = Inr (Some img)" using assms(3,4) by (simp add: bin_load_image_def)
  from seg_list_alloc_cases [OF assms(1) nn ne] obtain s1 r where r: "seg_list_alloc ?ns s = Some (s1, r)" "pool_low s1"
    "case r of Inl e \<Rightarrow> e = VamosInternalError | Inr baddr \<Rightarrow> \<exists>as. baddr = (hd as + 4) div 4 \<and> blocks_added s (zip as (map seg_bytes ?ns)) s1 \<and>
       seg_list_at (lm_mem s1) as ?ns \<and> (\<forall>x. outside (zip as (map seg_bytes ?ns)) x \<longrightarrow> lm_mem s1 x = lm_mem s x)" by blast
  show ?thesis
  proof (cases r)
    case (Inl e)
    with r b seg_list_alloc_room [OF assms(1) nn ne] show ?thesis by (simp add: load_sys_seglist_def int_load_sys_seglist_def)
  next
    case (Inr baddr)
    with r(3) obtain as where as: "baddr = (hd as + 4) div 4" "blocks_added s (zip as (map seg_bytes ?ns)) s1" "seg_list_at (lm_mem s1) as ?ns"
      "\<forall>x. outside (zip as (map seg_bytes ?ns)) x \<longrightarrow> lm_mem s1 x = lm_mem s x" by auto
    have la: "length as = length ?ns" using as(3) by (simp add: seg_list_at_def)
    have "\<forall>a \<in> set as. 4 dvd a \<and> 0 < a"
    proof
      fix a
      assume "a \<in> set as"
      then obtain k where "k < length as" "a = as ! k" by (auto simp: in_set_conv_nth)
      then show "4 dvd a \<and> 0 < a" using loaded_blocks [OF as(2) la nn] blocks_nth [OF la] by blast
    qed
    then have ad: "get_all_addrs (lm_mem s1) baddr = Some (map (\<lambda>a. a + 8) as)" using seg_list_addrs [OF as(3)] as(1) by simp
    from program_written [OF assms(5) as(2-4)] obtain ds where ds: "relocate img (map (\<lambda>a. a + 8) as) = Inr ds"
      and w: "let s2 = write_segments (zip (map (\<lambda>a. a + 8) as) ds) s1; b = (hd as + 4) div 4 in
        blocks_added s (zip as (map seg_bytes ?ns)) s2 \<and> seg_list_at (lm_mem s2) as ?ns \<and> program_at s (s2\<lparr>lm_infos := (lm_infos s2)(b \<mapsto> img)\<rparr>) img b"
      by blast
    let ?s2 = "write_segments (zip (map (\<lambda>a. a + 8) as) ds) s1"
    from w have w2: "blocks_added s (zip as (map seg_bytes ?ns)) ?s2" "seg_list_at (lm_mem ?s2) as ?ns"
      "program_at s (?s2\<lparr>lm_infos := (lm_infos ?s2)(baddr \<mapsto> img)\<rparr>) img baddr" by (simp_all add: Let_def as(1))
    have "load_sys_seglist elf d s = Some (?s2\<lparr>lm_infos := (lm_infos ?s2)(baddr \<mapsto> img)\<rparr>, Inr baddr)"
      using b r(1) Inr ad ds by (simp add: load_sys_seglist_def int_load_sys_seglist_def)
    moreover note w2(3)
    moreover note unload_blocks [OF w2(1,2) nn assms(2), of img, folded as(1)]
    ultimately show ?thesis
      by (intro exI [of _ "?s2\<lparr>lm_infos := (lm_infos ?s2)(baddr \<mapsto> img)\<rparr>"] exI [of _ "Inr baddr"]) simp
  qed
qed

text \<open>The example of two data segments, loaded into a pool of 64 bytes.\<close>

definition demo_mgr :: load_mgr where
  "demo_mgr = \<lparr>lm_alloc = demo_pool, lm_objs = Map.empty, lm_infos = Map.empty\<rparr>"

lemma demo_pool_low: "pool_low demo_mgr" "ma_addr (lm_alloc demo_mgr) = 1024" "ma_size (lm_alloc demo_mgr) = 64"
proof -
  show a: "ma_addr (lm_alloc demo_mgr) = 1024" "ma_size (lm_alloc demo_mgr) = 64"
    by (simp_all add: demo_mgr_def demo_pool_def memory_alloc_init_def memory_chunk_def Let_def)
  show "pool_low demo_mgr" unfolding pool_low_def a using ma_reach_inv [OF demo_reach] by (simp add: demo_mgr_def)
qed

lemma sample_data_loadable: "loadable demo_mgr sample_data_image"
proof -
  have l: "length sample_data_image = 2" and n: "sample_data_image ! 0 = sample_image ! 1" "sample_data_image ! 1 = sample_image ! 1"
    by (simp_all add: sample_data_image_def)
  have z: "sg_size (sample_image ! 1) = 8" by (simp add: sample_image_def)
  have r: "\<forall>(i, rs) \<in> set (sg_relocs (sample_image ! 1)). 0 \<le> i \<and> i < int 2" by (simp add: sample_image_def)
  have i: "\<forall>(i, r) \<in> set (targets (sample_image ! 1)). reloc_in 8 r" unfolding sample_targets by (simp add: reloc_in_def new_reloc_def)
  have s: "sorted_wrt (\<lambda>x y. relocs_apart (snd x) (snd y)) (targets (sample_image ! 1))" unfolding sample_targets by simp
  have o: "rl_offset (new_reloc x t) = x" for x t by (simp add: new_reloc_def)
  have f: "\<forall>(i, r) \<in> set (targets (sample_image ! 1)). fits_long (reloc_value m (addrs ! nat i) r (long_at (seg_contents (sample_image ! 1)) (rl_offset r)))"
    if "1024 \<le> addrs ! 0" "addrs ! 0 \<le> 1024 + 64" for m addrs
    unfolding sample_targets using that by (simp add: o sample_longs del: One_nat_def) (simp add: reloc_value_def new_reloc_def image_ids fits_long_def)
  have "relocatable sample_data_image addrs" if h: "length addrs = 2" "\<forall>a \<in> set addrs. 1024 \<le> a \<and> a \<le> 1024 + 64" for addrs
  proof -
    have "addrs ! 0 \<in> set addrs" using h(1) by (intro nth_mem) simp
    with h(2) have a: "1024 \<le> addrs ! 0" "addrs ! 0 \<le> 1024 + 64" by simp_all
    show ?thesis unfolding relocatable_def l h(1) Let_def less_2 n z using sample_fits r i s f [OF a] by blast
  qed
  moreover have "seg_fits (sample_image ! 1)" by (rule sample_fits)
  ultimately show ?thesis unfolding loadable_def demo_pool_low(2,3) l by (simp add: sample_data_image_def)
qed

lemma sample_data_file: "\<exists>d. is_image d \<and> load_image d = Inr sample_data_image"
proof -
  have "image_ok sample_data_image"
    by (simp add: sample_data_image_def sample_image_def image_ok_def segment_ok_def relocs_ok_def seg_relocs_def are_relocs_short_def
        hunk_reloc_ok_def new_reloc_def image_ids symtab_ok_def long_ok_def word_ok_def)
  from image_file_absolute [OF this] show ?thesis by blast
qed

lemma demo_room: "room demo_mgr (sum_list (map seg_bytes (get_sizes sample_data_image)))"
proof -
  have s: "sum_list (map seg_bytes (get_sizes sample_data_image)) = 32"
    by (simp add: sample_data_image_def sample_image_def get_sizes_def seg_bytes_def align4_eq)
  have "alloc_rel demo_pool (pool_init 1024 64)"
    using memory_alloc_init_rel [of 0 "\<lambda>_. 7" 1024 64] by (simp add: demo_pool_def memory_alloc_init_def memory_chunk_def Let_def)
  from largest_chunk_free [OF this] show ?thesis by (simp add: s room_def demo_mgr_def pool_init_def max_size_def)
qed

theorem load_program_witness:
  "\<exists>d s' baddr. load_image d = Inr sample_data_image \<and> load_sys_seglist (\<lambda>_. Inr None) d demo_mgr = Some (s', Inr baddr) \<and>
     program_at demo_mgr s' sample_data_image baddr \<and>
     (\<exists>s''. unload_seglist baddr s' = Some (s'', Inr True) \<and> lm_live s'' = lm_live demo_mgr \<and> lm_objs s'' = lm_objs demo_mgr \<and>
        free_bytes (lm_alloc s'') = free_bytes (lm_alloc demo_mgr) \<and> lm_infos s'' = (lm_infos demo_mgr)(baddr := None))"
proof -
  obtain d where d: "is_image d" "load_image d = Inr sample_data_image" using sample_data_file by blast
  have o: "dom (lm_objs demo_mgr) \<subseteq> dom (lm_live demo_mgr)" by (simp add: demo_mgr_def)
  from load_program [OF demo_pool_low(1) o d sample_data_loadable, of "\<lambda>_. Inr None"] obtain s' r where
    "load_sys_seglist (\<lambda>_. Inr None) d demo_mgr = Some (s', r)"
    "case r of Inl e \<Rightarrow> e = VamosInternalError \<and> \<not> room demo_mgr (sum_list (map seg_bytes (get_sizes sample_data_image)))
     | Inr baddr \<Rightarrow> program_at demo_mgr s' sample_data_image baddr \<and>
     (\<exists>s''. unload_seglist baddr s' = Some (s'', Inr True) \<and> lm_live s'' = lm_live demo_mgr \<and> lm_objs s'' = lm_objs demo_mgr \<and>
        free_bytes (lm_alloc s'') = free_bytes (lm_alloc demo_mgr) \<and> lm_infos s'' = (lm_infos demo_mgr)(baddr := None))" by blast
  then show ?thesis using d(2) demo_room by (cases r) auto
qed

end
