(* ===== verification/Spec2Isabelle.thy ===== *)
theory Spec2Isabelle
  imports Mem_Alloc_Inv Exec_List Scheduler Vol_Files Pattern Seg_Load
begin

text \<open>
  A verification library for the core of amitools (Python, \<open>src/amitools\<close>): the Amiga file system and hard disk
  code (\<open>fs\<close>), the program file formats (\<open>binfmt\<close>) and the parts of the \<open>vamos\<close> runtime that keep state of their own.

  \<^bold>\<open>The program.\<close>  amitools has two halves. \<open>fs\<close> reads and writes disk images: a block device (\<open>fs/blkdev\<close>,
  floppy image, hard disk partition) delivers blocks of bytes; the block classes (\<open>fs/block\<close>, \<open>fs/block/rdb\<close>)
  translate between a block and its fields and guard them by a checksum; \<open>ADFSBitmap\<close> says which blocks are in use;
  \<open>ADFSFile\<close> and \<open>ADFSDir\<close> build files and directories from blocks; \<open>ADFSVolume\<close> opens, creates and closes a volume
  and works on it by paths. \<open>vamos\<close> runs Amiga programs: it owns a memory (\<open>vamos/machine/mock\<close>, \<open>vamos/mem\<close>), keeps the
  lists of exec in it (\<open>vamos/libstructs\<close>), loads programs into it (\<open>vamos/loader\<close>, through \<open>binfmt\<close>), runs tasks
  (\<open>vamos/schedule\<close>) and implements the functions of the Amiga libraries in Python (\<open>vamos/lib\<close>), for example
  the pattern matching of dos.library.

  \<^bold>\<open>The library.\<close>  Each theory models one part, its definitions in the order of the source and with its names:

  \<^item> \<open>Ami_Prelude\<close>: errors as values (\<open>py_error\<close>, \<open>'a res\<close> = error + result), \<open>rbind\<close>, generic lemmas.
  \<^item> \<open>Linked_List\<close>, \<open>Mem_Pool\<close>: locale for a doubly linked list in a store and the abstract pool of addresses.
    \<open>Mem_Alloc\<close>, \<open>Mem_Alloc_Inv\<close>: \<open>vamos/mem/alloc.py\<close>; the free list is kept sorted and coalesced and tiles the
    pool with the allocations, allocation and release are exact; the locale \<open>allocator\<close> is the contract for clients.
  \<^item> \<open>Py_Bytes\<close>, \<open>Memory\<close>: \<open>vamos/machine/mock/mem.py\<close>, big endian accesses as a refinement of an array of bytes.
    \<open>Exec_List\<close>: the exec lists in that memory (\<open>vamos/libtypes/list_.py\<close>) as a refinement of Isabelle lists.
  \<^item> \<open>Scheduler\<close>: \<open>vamos/schedule\<close>, tasks, signals, forbid and the main loop as a step relation with an invariant.
  \<^item> \<open>Hunk_Blocks\<close>, \<open>Hunk_Files\<close>: the blocks of program files (\<open>binfmt/hunk/HunkBlockFile.py\<close>); a file of well formed
    blocks is read back, and reading ends on any bytes. \<open>Bin_Image\<close>, \<open>Image_Files\<close>: program images and their conversion to and
    from hunk files (\<open>BinImage.py\<close>, \<open>HunkLoadSegFile.py\<close>, \<open>BinFmtHunk.py\<close>). \<open>Relocation\<close>: \<open>binfmt/Relocate.py\<close>, what a relocation
    patches, and the one-block form against the other. \<open>Seg_Load\<close>: \<open>vamos/loader\<close>, which puts a program into memory taken from
    the allocator and gives it back; its lemmas compose the file formats, relocation, the allocator and the memory.
  \<^item> \<open>Py_Str\<close>, \<open>Fs_Name\<close>: file names, hashes, protection flags. \<open>Fs_Block\<close>, \<open>Fs_Blocks\<close>: the block base class, its
    checksum, and every block class of \<open>fs/block\<close>; what is written is read back, headers with short and with long names. \<open>Fs_Boot\<close>: boot block and
    directory cache block.
  \<^item> \<open>Rdb_Blocks\<close>: the rigid disk blocks of \<open>fs/block/rdb\<close>. \<open>Blk_Dev\<close>: the image and partition devices, with the
    locale \<open>block_device\<close> (reads give what was last written) interpreted on both.
  \<^item> \<open>Fs_Bitmap\<close>: allocation bitmap in memory and on disk. \<open>Fs_File\<close>: creating, opening and reading a file over any
    block device; on a partition together with the bitmap.
  \<^item> \<open>Fs_Dir\<close>: nodes, directories, hash chains and the directory cache of a volume (\<open>ADFSDir.py\<close>, \<open>ADFSNode.py\<close>,
    \<open>ADFSVolDir.py\<close>), as programs over a record of the volume with numbered nodes. \<open>Dir_Map\<close>: a directory on disk as a map from
    names to blocks, and reading it. \<open>Dir_Update\<close>: looking up a name and creating a file change exactly that map.
  \<^item> \<open>Fs_Volume\<close>: \<open>ADFSVolume.py\<close>. \<open>Vol_Mount\<close>: opening and closing; what opening a closed volume finds. \<open>Vol_Create\<close>: a
    volume that is created is an empty one. \<open>Vol_Files\<close>: a file written by path survives closing and opening the volume.
  \<^item> \<open>Pattern\<close>: pattern parser and matcher of \<open>vamos/lib/dos/PatternMatch.py\<close> against a declarative semantics.

  \<^bold>\<open>Conventions.\<close>  Python's ints are \<open>int\<close> and its bytes lists of 8 bit words; what \<open>struct\<close> refuses is a
  \<open>StructError\<close>, an index out of range an \<open>IndexError\<close>, \<open>FSError\<close> carries its number. Objects that change are records,
  passed and returned; devices are any state with \<open>read_block\<close> and \<open>write_block\<close>. Loops that may not end
  (reading a chain of blocks or segments, the matcher's backtracking) are \<open>partial_function (option)\<close> or recursive functions with
  a measure; that they return is stated by the properties. Loops over a file object stop with an error when an item has not moved
  on, and \<open>hunk_read_ends\<close> shows that this never happens. No fuel is used. A quotient that Python takes as a float and turns into an
  int is an integer division here, which is exact below 2 to the 53.

  \<^bold>\<open>Where the properties hold.\<close>  The definitions follow the code on every input, the properties have hypotheses where the code
  needs them. The allocator is correct for requests of at least one byte; what a request of no bytes does is stated by
  \<open>alloc_mem_correct\<close>. Iterating an exec list promotes its nodes, so \<open>enqueue\<close> fails behind a promoted node. The invariant of the
  scheduler is that of runs in which no task waits in the forbid state for signals still to come; \<open>forbid_hazards\<close> says what
  happens otherwise. Directories and volumes are modelled with their directory cache and long names, but the properties of
  \<open>Dir_Update\<close>, \<open>Vol_Create\<close> and \<open>Vol_Files\<close> are about volumes without them and about directories whose hash chains are finite,
  with each entry in the chain of its name: on a circular chain the reader does not end, and the directory cache has faults of
  its own. Boot code is read back cut behind its last long word that does not start with a zero byte. A saved program
  image comes back with segments of the size of their data.

  \<^bold>\<open>Not modelled.\<close>  Logging, printing and command line tools (\<open>tools\<close>); the CPU emulator and the machine glue
  around it (\<open>vamos/machine\<close> without the mock) and the calls that only hand arguments to the host system (most of \<open>vamos/lib\<close>,
  \<open>vamos/path\<close>, \<open>vamos/cfgcore\<close>); the metaclass framework of \<open>vamos/astructs\<close>, whose accesses are written out at their offsets;
  the layout of partitions in \<open>fs/rdb\<close>, validation and the exchange with host directories in \<open>fs\<close>; the older \<open>HunkReader\<close>
  and the ELF format in \<open>binfmt\<close>, whose loader is a parameter of \<open>Seg_Load\<close>; ROM images, scanners and function tables. Of the modelled
  parts: the state of a device after a write of several blocks has failed half way, dates as text, usage figures and listings,
  and the labels of the memory.
\<close>

end
